(* ===== verification/Prelude.thy ===== *)
theory Prelude
  imports Main "HOL-Library.Word"
begin

text \<open>
  Shared vocabulary of the development: characters as the C++ code reads them (a \<open>char\<close> is
  a byte, \<open>uchar\<close> is the cast to \<open>unsigned char\<close>), the integer types at their width, the
  collections of facts the component theories add to, and generic lemmas on characters, lists
  and decimal notation.
\<close>

section \<open>Names for the program's types\<close>

unbundle bit_operations_syntax

type_synonym byte = "8 word"
type_synonym uint32 = "32 word"
type_synonym uint64 = "64 word"

abbreviation INT_MAX :: int where "INT_MAX \<equiv> 2147483647"

abbreviation uchar :: "char \<Rightarrow> nat" where
  "uchar c \<equiv> of_char c"

abbreviation to_char :: "nat \<Rightarrow> char" where
  "to_char n \<equiv> char_of n"

abbreviation kint32max :: int where "kint32max \<equiv> 2147483647"
abbreviation kint32min :: int where "kint32min \<equiv> - 2147483648"

text \<open>The conversion of a value to \<open>int\<close>, and what is left of a result that overflows.\<close>

abbreviation to_int32 :: "int \<Rightarrow> int" where "to_int32 i \<equiv> signed_take_bit 31 i"

named_theorems char_class \<open>definitions of the character predicates\<close>
named_theorems loop_simps \<open>one-step equations of loops\<close>

lemma to_int32_id: "- 2147483648 \<le> i \<Longrightarrow> i \<le> INT_MAX \<Longrightarrow> to_int32 i = i"
  by (simp add: signed_take_bit_int_eq_self)

section \<open>Characters\<close>

lemma uchar_less [simp]: "uchar c < 256"
  by (metis of_char_of mod_less_divisor char_of_char zero_less_numeral)

lemma uchar_to_char: "uchar (to_char n) = n mod 256"
  by simp

lemma uchar_eq_iff: "(c = d) = (uchar c = uchar d)"
  by (metis char_of_char)

lemma to_char_eq_iff: "n < 256 \<Longrightarrow> (to_char n = c) = (n = uchar c)"
  by (metis of_char_of mod_less char_of_char)

text \<open>A property of all 256 characters, reduced to a list the simplifier can walk.\<close>

lemma all_chars: "(\<forall>c. P c) = list_all (\<lambda>n. P (to_char n)) [0..<256]"
proof
  assume "list_all (\<lambda>n. P (to_char n)) [0..<256]"
  then have *: "\<And>n. n < 256 \<Longrightarrow> P (to_char n)"
    by (simp add: list_all_iff)
  show "\<forall>c. P c"
  proof
    fix c
    have "P (to_char (uchar c))" by (rule *) simp
    then show "P c" by simp
  qed
qed (simp add: list_all_iff)

text \<open>The classification macros of strutil.cc and strutil.h, in the C locale.\<close>

definition isxdigit :: "char \<Rightarrow> bool" where [char_class]:
  "isxdigit c \<longleftrightarrow> 48 \<le> uchar c \<and> uchar c \<le> 57 \<or>
     97 \<le> uchar c \<and> uchar c \<le> 102 \<or> 65 \<le> uchar c \<and> uchar c \<le> 70"

definition isprint :: "char \<Rightarrow> bool" where [char_class]:
  "isprint c \<longleftrightarrow> 0x20 \<le> uchar c \<and> uchar c \<le> 0x7E"

definition ascii_isspace :: "char \<Rightarrow> bool" where [char_class]:
  "ascii_isspace c \<longleftrightarrow> c = CHR '' '' \<or> c = CHR 0x09 \<or> c = CHR 0x0A \<or> c = CHR 0x0B \<or>
     c = CHR 0x0C \<or> c = CHR 0x0D"

definition ascii_isupper :: "char \<Rightarrow> bool" where [char_class]:
  "ascii_isupper c \<longleftrightarrow> 65 \<le> uchar c \<and> uchar c \<le> 90"

definition ascii_tolower :: "char \<Rightarrow> char" where
  "ascii_tolower c = (if ascii_isupper c then to_char (uchar c + (97 - 65)) else c)"

definition ascii_isalnum :: "char \<Rightarrow> bool" where [char_class]:
  "ascii_isalnum c \<longleftrightarrow> 97 \<le> uchar c \<and> uchar c \<le> 122 \<or>
     65 \<le> uchar c \<and> uchar c \<le> 90 \<or> 48 \<le> uchar c \<and> uchar c \<le> 57"

definition ascii_isdigit :: "char \<Rightarrow> bool" where [char_class]:
  "ascii_isdigit c \<longleftrightarrow> 48 \<le> uchar c \<and> uchar c \<le> 57"

definition hex_digit_to_int :: "char \<Rightarrow> nat" where
  "hex_digit_to_int c = (let x = uchar c in (if 57 < x then x + 9 else x) mod 16)"

section \<open>Digits and decimal notation\<close>

definition hexdigits :: string where "hexdigits = ''0123456789abcdef''"

lemma hexdigit_facts:
  assumes "d < 16"
  shows "isxdigit (hexdigits ! d)" "hex_digit_to_int (hexdigits ! d) = d"
proof -
  have "list_all (\<lambda>d. isxdigit (hexdigits ! d) \<and> hex_digit_to_int (hexdigits ! d) = d) [0..<16]"
    by code_simp
  with assms show "isxdigit (hexdigits ! d)" "hex_digit_to_int (hexdigits ! d) = d"
    by (auto simp: list_all_iff)
qed


definition digit :: "nat \<Rightarrow> char" where
  "digit d = to_char (48 + d)"

lemma uchar_digit: "d < 10 \<Longrightarrow> uchar (digit d) = 48 + d"
  by (simp add: digit_def)

lemma digit_numeral:
  "digit 0 = CHR ''0''" "digit (Suc (Suc 0)) = CHR ''2''" "digit (Suc 0) = CHR ''1''" "digit 1 = CHR ''1''" "digit 2 = CHR ''2''"
  "digit 3 = CHR ''3''" "digit 4 = CHR ''4''" "digit 5 = CHR ''5''" "digit 6 = CHR ''6''"
  "digit 7 = CHR ''7''" "digit 8 = CHR ''8''" "digit 9 = CHR ''9''"
  by (simp_all add: digit_def to_char_eq_iff)

text \<open>The reference decimal notation: what every integer printer should produce.\<close>

fun dec :: "nat \<Rightarrow> string" where
  "dec n = (if n < 10 then [digit n] else dec (n div 10) @ [digit (n mod 10)])"

declare dec.simps [simp del]

lemma dec_small [simp]: "n < 10 \<Longrightarrow> dec n = [digit n]"
  by (subst dec.simps) simp

lemma dec_step: "10 \<le> n \<Longrightarrow> dec n = dec (n div 10) @ [digit (n mod 10)]"
  by (subst dec.simps) simp

lemma dec_nonempty [simp]: "dec n \<noteq> []"
  by (subst dec.simps) simp

lemma dec_digits: "c \<in> set (dec n) \<Longrightarrow> 48 \<le> uchar c \<and> uchar c \<le> 57"
proof (induction n rule: dec.induct)
  case (1 n)
  show ?case
  proof (cases "n < 10")
    case True
    with 1 show ?thesis by (auto simp: uchar_digit)
  next
    case False
    with "1.prems" have "c \<in> set (dec (n div 10)) \<or> c = digit (n mod 10)"
      by (auto simp: dec_step)
    with "1.IH" False show ?thesis by (auto simp: uchar_digit)
  qed
qed

lemma dec_length: "0 < k \<Longrightarrow> n < 10 ^ k \<Longrightarrow> length (dec n) \<le> k"
proof (induction k arbitrary: n)
  case 0
  then show ?case by simp
next
  case (Suc k)
  show ?case
  proof (cases "n < 10")
    case True
    then show ?thesis by simp
  next
    case False
    then have "10 \<le> n" by simp
    with Suc.prems have "0 < k" by (cases k) auto
    moreover have "n div 10 < 10 ^ k" using Suc.prems(2) by (simp add: less_mult_imp_div_less mult.commute)
    ultimately have "length (dec (n div 10)) \<le> k" by (rule Suc.IH)
    with \<open>10 \<le> n\<close> show ?thesis by (simp add: dec_step)
  qed
qed

text \<open>Decimal notation of fixed width, with leading zeros.\<close>

fun dec_pad :: "nat \<Rightarrow> nat \<Rightarrow> string" where
  "dec_pad 0 n = []"
| "dec_pad (Suc k) n = dec_pad k (n div 10) @ [digit (n mod 10)]"

lemma div10_split:
  "n div 10 div 10 ^ k = n div 10 ^ Suc k" "n mod 10 ^ Suc k div 10 = n div 10 mod (10::nat) ^ k"
  "n mod 10 ^ Suc k mod 10 = n mod (10::nat)"
  by (simp_all add: div_mult2_eq mod_mult2_eq)

lemma dec_pad_add: "dec_pad (j + k) n = dec_pad j (n div 10 ^ k) @ dec_pad k (n mod 10 ^ k)"
  by (induction k arbitrary: n) (simp_all add: div10_split del: power_Suc)

lemma dec_split: "10 ^ k \<le> n \<Longrightarrow> dec n = dec (n div 10 ^ k) @ dec_pad k (n mod 10 ^ k)"
proof (induction k arbitrary: n)
  case (Suc k)
  have "(10::nat) ^ 1 \<le> 10 ^ Suc k" by (rule power_increasing) simp_all
  then have "10 ^ 1 \<le> n" using Suc.prems by (rule order_trans)
  then have "10 \<le> n" by simp
  moreover have "10 ^ k \<le> n div 10"
    using Suc.prems by (simp add: less_eq_div_iff_mult_less_eq mult.commute)
  ultimately show ?case
    using Suc.IH [of "n div 10"] by (simp add: dec_step div10_split del: power_Suc)
qed simp

lemma dec_pad_2: "n < 100 \<Longrightarrow> dec_pad 2 n = [digit (n div 10), digit (n mod 10)]"
  by (simp add: numeral_2_eq_2)

lemma dec_two: "10 \<le> n \<Longrightarrow> n < 100 \<Longrightarrow> dec n = dec_pad 2 n"
  by (simp add: dec_step dec_pad_2)

lemma byte_digit_bounds:
  assumes "n < (256::nat)"
  shows "n div 64 < 8" "n mod 64 div 8 < 8" "n div 16 < 16" "n mod 8 < 8" "n mod 16 < 16"
  by (rule less_mult_imp_div_less, use assms in simp)+ simp_all

lemma octal_digits: "(n div 64 * 8 + n mod 64 div 8) * 8 + n mod 8 = (n::nat)"
proof -
  have "n mod 64 mod 8 = n mod 8" by (simp add: mod_mod_cancel)
  then have "n mod 64 div 8 * 8 + n mod 8 = n mod 64" by (metis div_mult_mod_eq)
  moreover have "n div 64 * 64 + n mod 64 = n" by (rule div_mult_mod_eq)
  moreover have "b * 8 + c = m \<Longrightarrow> a * 64 + m = n \<Longrightarrow> (a * 8 + b) * 8 + c = n" for a b c m :: nat by simp
  ultimately show ?thesis by blast
qed

lemma hex_digits: "n div 16 * 16 + n mod 16 = (n::nat)"
  by (rule div_mult_mod_eq)

lemma unat_of_uchar: "unat (of_nat (uchar c) :: uint32) = uchar c"
proof -
  have "uchar c < 2 ^ 32" by (rule less_trans [OF uchar_less]) simp
  then show ?thesis by (simp add: unat_of_nat)
qed

lemma unat_ucast_up: "unat (ucast (u :: uint32) :: uint64) = unat u"
proof -
  have "unat u < 2 ^ 32" using unsigned_less [of u, where 'a = nat] by simp
  then have "unat u < 2 ^ 64" by simp
  then show ?thesis by (simp add: unsigned_ucast_eq take_bit_nat_eq_self)
qed

lemma unat_ucast_down: "unat (u :: uint64) < 2 ^ 32 \<Longrightarrow> unat (ucast u :: uint32) = unat u"
  by (simp add: unsigned_ucast_eq take_bit_nat_eq_self)

text \<open>Two's complement: the negation of a negative word is its absolute value.\<close>

lemma unat_uminus_negative:
  assumes "sint (w :: 'a::len word) < 0"
  shows "unat (- w) = nat (- sint w)"
proof -
  have "- (2 ^ (LENGTH('a) - 1)) \<le> sint w" by (rule sint_ge)
  moreover have "(2::int) ^ (LENGTH('a) - 1) < 2 ^ LENGTH('a)" by simp
  ultimately have "- sint w < 2 ^ LENGTH('a)" by linarith
  moreover have "0 \<le> - sint w" using assms by simp
  ultimately have "uint (word_of_int (- sint w) :: 'a word) = - sint w"
    by (simp only: uint_word_of_int_eq take_bit_int_eq_self)
  moreover have "- w = word_of_int (- sint w)" by simp
  ultimately show ?thesis by (metis nat_uint_eq)
qed

lemma unat_nonnegative: "0 \<le> sint (w :: 'a::len word) \<Longrightarrow> unat w = nat (sint w)"
proof -
  assume nonneg: "0 \<le> sint w"
  have "sint w < 2 ^ (LENGTH('a) - 1)" by (rule sint_lt)
  moreover have "(2::int) ^ (LENGTH('a) - 1) < 2 ^ LENGTH('a)" by simp
  ultimately have "sint w < 2 ^ LENGTH('a)" by linarith
  with nonneg have "uint (word_of_int (sint w) :: 'a word) = sint w"
    by (simp only: uint_word_of_int_eq take_bit_int_eq_self)
  then show ?thesis by (simp add: nat_uint_eq [symmetric])
qed

text \<open>Bits of bounded numbers.\<close>

lemma add_eq_or: "y < 2 ^ j \<Longrightarrow> push_bit j c + y = push_bit j c OR (y :: nat)"
proof (rule disjunctive_add_eq_or)
  assume "y < 2 ^ j"
  then have "y = take_bit j y" by (simp add: take_bit_nat_eq_self)
  then have no: "j \<le> n \<Longrightarrow> \<not> bit y n" for n by (metis bit_take_bit_iff not_le)
  show "push_bit j c AND y = 0" by (auto simp: bit_eq_iff bit_and_iff bit_push_bit_iff dest: no)
qed

lemma bit_unat: "bit (unat w) n = bit w n"
  by (simp add: bit_unsigned_iff)

lemma not_bit_above: "u < 2 ^ m \<Longrightarrow> m \<le> k \<Longrightarrow> \<not> bit (u :: nat) k"
proof -
  assume "u < 2 ^ m" "m \<le> k"
  then have "u = take_bit m u" by (simp add: take_bit_nat_eq_self)
  then show ?thesis using \<open>m \<le> k\<close> by (metis bit_take_bit_iff not_le)
qed

lemma unat_drop_bit_div: "unat (drop_bit n w) = unat w div 2 ^ n"
  by (simp only: unat_drop_bit_eq) (simp add: drop_bit_eq_div)

lemma unat_ucast_byte: "unat (ucast (w :: 'a::len word) :: byte) = unat w mod 256"
  by (simp add: unsigned_ucast_eq take_bit_eq_mod)

lemma or_top_bit: "x < 2 ^ Suc k \<Longrightarrow> x OR push_bit k 1 = push_bit k 1 OR take_bit k (x :: nat)"
proof (rule bit_eqI)
  fix n
  assume "x < 2 ^ Suc k"
  then have above: "k < n \<Longrightarrow> \<not> bit x n" using not_bit_above [of x "Suc k" n] by simp
  consider "k < n" | "k = n" | "n < k" by linarith
  then show "bit (x OR push_bit k 1) n = bit (push_bit k 1 OR take_bit k x) n"
    by cases (auto simp: above bit_or_iff bit_take_bit_iff bit_exp_iff)
qed

lemma unat_or_80: "unat (b OR 0x80) = 128 + unat b mod 128" for b :: byte
proof -
  have "unat b < 2 ^ Suc 7" using unsigned_less [of b, where 'a = nat] by simp
  then have "unat b OR push_bit 7 1 = push_bit 7 1 OR take_bit 7 (unat b)" by (rule or_top_bit)
  also have "\<dots> = push_bit 7 1 + take_bit 7 (unat b)"
    by (rule add_eq_or [symmetric]) (rule take_bit_nat_less_exp)
  finally have "unat b OR 128 = 128 + unat b mod 128" by (simp add: push_bit_eq_mult take_bit_eq_mod)
  then show ?thesis by (simp add: unsigned_or_eq)
qed

section \<open>Lookup tables\<close>

text \<open>A table whose entry at index \<open>n + i\<close> is \<open>f (n + i)\<close>, checked in one walk along the list,
  with long runs of one value checked as intervals.\<close>

fun table_from :: "(nat \<Rightarrow> 'a) \<Rightarrow> nat \<Rightarrow> 'a list \<Rightarrow> bool" where
  "table_from f n [] = True"
| "table_from f n (x # xs) = (f n = x \<and> table_from f (n + 1) xs)"

lemma table_from_nth: "table_from f n xs \<Longrightarrow> i < length xs \<Longrightarrow> xs ! i = f (n + i)"
proof (induction f n xs arbitrary: i rule: table_from.induct)
  case (2 f n x xs)
  then show ?case by (cases i) auto
qed simp

lemma table_from_append:
  "table_from f n (xs @ ys) = (table_from f n xs \<and> table_from f (n + length xs) ys)"
  by (induction f n xs rule: table_from.induct) auto

lemma table_from_replicate: "(\<And>i. n \<le> i \<Longrightarrow> i < n + k \<Longrightarrow> f i = x) \<Longrightarrow> table_from f n (replicate k x)"
  by (induction k arbitrary: n) auto

section \<open>Lists\<close>

text \<open>Induction three elements at a time.\<close>

lemma list_induct_by_three [case_names zero one two three]:
  assumes "P []" "\<And>a. P [a]" "\<And>a b. P [a, b]" "\<And>a b c xs. P xs \<Longrightarrow> P (a # b # c # xs)"
  shows "P xs"
proof (induction xs rule: length_induct)
  case (1 xs)
  show ?case
  proof (cases "\<exists>a b c ys. xs = a # b # c # ys")
    case True
    then obtain a b c ys where "xs = a # b # c # ys" by blast
    with 1 show ?thesis by (auto intro: assms(4))
  next
    case False
    then have "xs = [] \<or> (\<exists>a. xs = [a]) \<or> (\<exists>a b. xs = [a, b])"
      by (metis list.exhaust)
    with assms(1-3) show ?thesis by blast
  qed
qed

lemma take_diff_Suc:
  "i < k \<Longrightarrow> i < length s \<Longrightarrow> take (k - i) (drop i s) = s ! i # take (k - Suc i) (drop (Suc i) s)"
  by (metis Cons_nth_drop_Suc Suc_diff_Suc take_Suc_Cons)

lemma takeWhile_all: "(\<And>x. x \<in> set xs \<Longrightarrow> P x) \<Longrightarrow> takeWhile P xs = xs"
  by (simp add: takeWhile_eq_all_conv)

lemma length_concat_map: "length (concat (map f xs)) = sum_list (map (\<lambda>x. length (f x)) xs)"
  by (induction xs) auto

lemma foldl_add_nat: "foldl (\<lambda>n x. n + f x) (a::nat) xs = a + sum_list (map f xs)"
  by (induction xs arbitrary: a) auto

section \<open>Little-endian bytes\<close>

fun le_val :: "int list \<Rightarrow> int" where
  "le_val [] = 0"
| "le_val (b # bs) = b + 256 * le_val bs"

lemma bit7_small: "0 \<le> b \<Longrightarrow> b < 256 \<Longrightarrow> bit (b + 256 * z) 7 \<longleftrightarrow> 128 \<le> (b :: int)"
proof -
  assume b: "0 \<le> b" "b < 256"
  have "bit (b + 256 * z) 7 \<longleftrightarrow> odd ((b + 256 * z) div 128)" by (simp add: bit_iff_odd)
  also have "(b + 256 * z) div 128 = b div 128 + 2 * z"
    using div_mult_self1 [of "128 :: int" b "2 * z"] by (simp add: algebra_simps)
  also have "odd (b div 128 + 2 * z) \<longleftrightarrow> 128 \<le> b"
  proof -
    have "b div 128 = (if 128 \<le> b then 1 else 0)" using b by (auto simp: div_pos_pos_trivial intro: int_div_pos_eq)
    then show ?thesis by simp
  qed
  finally show ?thesis .
qed

lemma bit_next_byte: "0 \<le> b \<Longrightarrow> b < 256 \<Longrightarrow> bit (b + 256 * z) (n + 8) \<longleftrightarrow> bit (z :: int) n"
proof -
  assume b: "0 \<le> b" "b < 256"
  have "(2::int) ^ (n + 8) = 256 * 2 ^ n" by (simp add: power_add)
  then have "(b + 256 * z) div 2 ^ (n + 8) = (b + 256 * z) div 256 div 2 ^ n"
    by (simp only: zdiv_zmult2_eq [OF zero_le_power [OF zero_le_numeral]])
  also have "(b + 256 * z) div 256 = z" using b by (simp add: div_pos_pos_trivial)
  finally show ?thesis by (simp add: bit_iff_odd)
qed

text \<open>Bytes read back from a value.\<close>

lemma le_val_bound: "(\<And>b. b \<in> set bs \<Longrightarrow> 0 \<le> b \<and> b < 256) \<Longrightarrow> 0 \<le> le_val bs \<and> le_val bs < 256 ^ length bs"
proof (induction bs)
  case (Cons b bs)
  then have "0 \<le> b" "b < 256" "0 \<le> le_val bs" "le_val bs + 1 \<le> 256 ^ length bs" by auto
  then show ?case by simp
qed simp

lemma le_val_byte:
  "(\<And>b. b \<in> set bs \<Longrightarrow> 0 \<le> b \<and> b < 256) \<Longrightarrow> k < length bs \<Longrightarrow> le_val bs div 256 ^ k mod 256 = bs ! k"
proof (induction bs arbitrary: k)
  case (Cons b bs)
  then have b: "0 \<le> b" "b < 256" by auto
  show ?case
  proof (cases k)
    case 0
    with b show ?thesis by simp
  next
    case (Suc j)
    have "(b + 256 * le_val bs) div 256 ^ Suc j = (b + 256 * le_val bs) div 256 div 256 ^ j"
      by (simp add: zdiv_zmult2_eq)
    also have "(b + 256 * le_val bs) div 256 = le_val bs" using b by simp
    finally show ?thesis using Cons Suc by simp
  qed
qed simp

lemma le_val_bit7:
  "(\<And>b. b \<in> set bs \<Longrightarrow> 0 \<le> b \<and> b < 256) \<Longrightarrow> k < length bs \<Longrightarrow> bit (le_val bs) (7 + 8 * k) \<longleftrightarrow> 128 \<le> bs ! k"
proof (induction bs arbitrary: k)
  case (Cons b bs)
  then have b: "0 \<le> b" "b < 256" by auto
  show ?case
  proof (cases k)
    case 0
    with b show ?thesis by (simp add: bit7_small)
  next
    case (Suc j)
    then have "7 + 8 * k = (7 + 8 * j) + 8" by simp
    then show ?thesis using b Cons Suc by (simp only: le_val.simps bit_next_byte) simp
  qed
qed simp

end
