(* ===== verification/Repeated_Field.thy ===== *)
theory Repeated_Field
  imports Prelude "HOL-Library.Monad_Syntax"
begin

text \<open>
  \<open>RepeatedField\<close> of repeated_field.h, the growing array of scalars. The allocated memory is a list with one entry for
  each element there is room for, \<open>None\<close> while it is uninitialised. An access outside the allocation and a read of
  uninitialised memory are \<open>None\<close>; the debug checks of the code do nothing. The abstract value is the list of the
  first \<open>current_size\<close> elements.
\<close>

section \<open>State and operations\<close>

record 'a RepeatedField =
  current_size :: int
  elements :: "'a option list"

definition RepeatedField_new :: "'a RepeatedField" where
  "RepeatedField_new = \<lparr>current_size = 0, elements = []\<rparr>"

definition Capacity :: "'a RepeatedField \<Rightarrow> int" where
  "Capacity r = int (length (elements r))"

definition kRepeatedFieldLowerClampLimit :: int where "kRepeatedFieldLowerClampLimit = 4"

definition kRepeatedFieldUpperClampLimit :: int where "kRepeatedFieldUpperClampLimit = INT_MAX div 2 + 1"

text \<open>A product that is no \<open>int\<close> is an overflow, \<open>None\<close>.\<close>

definition int_range :: "int \<Rightarrow> int option" where
  "int_range x = (if - INT_MAX - 1 \<le> x \<and> x \<le> INT_MAX then Some x else None)"

definition CalculateReserveSize :: "int \<Rightarrow> int \<Rightarrow> int option" where
  "CalculateReserveSize total_size new_size =
     (if new_size < kRepeatedFieldLowerClampLimit then Some kRepeatedFieldLowerClampLimit
      else if total_size < kRepeatedFieldUpperClampLimit then
        map_option (\<lambda>twice. max twice new_size) (int_range (total_size * 2))
      else Some INT_MAX)"

text \<open>\<open>memcpy\<close> of \<open>n\<close> elements to the start of \<open>to\<close>, and one element through its address.\<close>

definition copy_elements :: "int \<Rightarrow> 'a option list \<Rightarrow> int \<Rightarrow> 'a option list \<Rightarrow> 'a option list option" where
  "copy_elements n from at to =
     (if 0 \<le> n \<and> nat n \<le> length from \<and> 0 \<le> at \<and> nat at + nat n \<le> length to
      then Some (take (nat at) to @ take (nat n) from @ drop (nat at + nat n) to) else None)"

definition load :: "int \<Rightarrow> 'a RepeatedField \<Rightarrow> 'a option" where
  "load i r = (if 0 \<le> i \<and> i < Capacity r then elements r ! nat i else None)"

definition store :: "int \<Rightarrow> 'a option \<Rightarrow> 'a RepeatedField \<Rightarrow> 'a RepeatedField option" where
  "store i v r = (if 0 \<le> i \<and> i < Capacity r then Some (r\<lparr>elements := (elements r)[nat i := v]\<rparr>) else None)"

definition Reserve :: "int \<Rightarrow> 'a RepeatedField \<Rightarrow> 'a RepeatedField option" where
  "Reserve new_size r =
     (if Capacity r \<ge> new_size then Some r
      else do {
        n \<leftarrow> CalculateReserveSize (Capacity r) new_size;
        new_rep \<leftarrow> (if current_size r > 0 then copy_elements (current_size r) (elements r) 0 (replicate (nat n) None)
                   else Some (replicate (nat n) None));
        Some (r\<lparr>elements := new_rep\<rparr>)
      })"

definition Repeated_Add :: "'a \<Rightarrow> 'a RepeatedField \<Rightarrow> 'a RepeatedField option" where
  "Repeated_Add v r =
     do {
       let sz = current_size r;
       r \<leftarrow> (if sz = Capacity r then Reserve (Capacity r + 1) r else Some r);
       r \<leftarrow> store sz (Some v) r;
       Some (r\<lparr>current_size := sz + 1\<rparr>)
     }"

definition AddAlreadyReserved :: "'a \<Rightarrow> 'a RepeatedField \<Rightarrow> 'a RepeatedField option" where
  "AddAlreadyReserved v r = do { r' \<leftarrow> store (current_size r) (Some v) r; Some (r'\<lparr>current_size := current_size r + 1\<rparr>) }"

text \<open>\<open>AddNAlreadyReserved\<close> makes elements of what is in memory, and \<open>Add()\<close> one; the callers fill them in.\<close>

definition AddNAlreadyReserved :: "int \<Rightarrow> 'a RepeatedField \<Rightarrow> 'a RepeatedField" where
  "AddNAlreadyReserved n r = r\<lparr>current_size := current_size r + n\<rparr>"

definition Repeated_Add_default :: "'a RepeatedField \<Rightarrow> 'a RepeatedField option" where
  "Repeated_Add_default r =
     do {
       let sz = current_size r;
       r \<leftarrow> (if sz = Capacity r then Reserve (Capacity r + 1) r else Some r);
       Some (r\<lparr>current_size := sz + 1\<rparr>)
     }"

text \<open>\<open>std::fill\<close> of the elements from \<open>i\<close> up to \<open>n\<close>.\<close>

definition fill :: "int \<Rightarrow> int \<Rightarrow> 'a \<Rightarrow> 'a RepeatedField \<Rightarrow> 'a RepeatedField option" where
  "fill i n v r =
     (if 0 \<le> i \<and> i \<le> n \<and> n \<le> Capacity r
      then Some (r\<lparr>elements := take (nat i) (elements r) @ replicate (nat (n - i)) (Some v) @ drop (nat n) (elements r)\<rparr>) else None)"

definition Resize :: "int \<Rightarrow> 'a \<Rightarrow> 'a RepeatedField \<Rightarrow> 'a RepeatedField option" where
  "Resize new_size v r =
     do {
       r \<leftarrow> (if new_size > current_size r then do { r \<leftarrow> Reserve new_size r; fill (current_size r) new_size v r } else Some r);
       Some (r\<lparr>current_size := new_size\<rparr>)
     }"

definition Truncate :: "int \<Rightarrow> 'a RepeatedField \<Rightarrow> 'a RepeatedField" where
  "Truncate new_size r = (if current_size r > 0 then r\<lparr>current_size := new_size\<rparr> else r)"

definition Repeated_Get :: "int \<Rightarrow> 'a RepeatedField \<Rightarrow> 'a option" where
  "Repeated_Get index r = load index r"

definition Repeated_at :: "int \<Rightarrow> 'a RepeatedField \<Rightarrow> 'a option" where
  "Repeated_at index r = (if 0 \<le> index \<and> index < current_size r then load index r else None)"

definition Repeated_Set :: "int \<Rightarrow> 'a \<Rightarrow> 'a RepeatedField \<Rightarrow> 'a RepeatedField option" where
  "Repeated_Set index v r = store index (Some v) r"

text \<open>From a range of known length, and from one that can only be walked (\<open>FastAdder\<close>: \<open>index_\<close> and \<open>capacity_\<close> are
  copies of the fields, written back at the end and before each reallocation).\<close>

definition Add_range :: "'a list \<Rightarrow> 'a RepeatedField \<Rightarrow> 'a RepeatedField option" where
  "Add_range xs r =
     (if xs = [] then Some r
      else do {
        r \<leftarrow> Reserve (int (length xs) + current_size r) r;
        es \<leftarrow> copy_elements (int (length xs)) (map Some xs) (current_size r) (elements r);
        Some (r\<lparr>elements := es, current_size := int (length xs) + current_size r\<rparr>)
      })"

fun fast_adder :: "'a list \<Rightarrow> int \<Rightarrow> int \<Rightarrow> 'a RepeatedField \<Rightarrow> 'a RepeatedField option" where
  "fast_adder [] index capacity r = Some (r\<lparr>current_size := index\<rparr>)"
| "fast_adder (v # vs) index capacity r =
     do {
       (capacity, r) \<leftarrow> (if index = capacity then do {
           r \<leftarrow> Reserve (index + 1) (r\<lparr>current_size := index\<rparr>);
           Some (Capacity r, r) } else Some (capacity, r));
       r \<leftarrow> store index (Some v) r;
       fast_adder vs (index + 1) capacity r
     }"

definition Add_iterator :: "'a list \<Rightarrow> 'a RepeatedField \<Rightarrow> 'a RepeatedField option" where
  "Add_iterator xs r = fast_adder xs (current_size r) (Capacity r) r"

definition RemoveLast :: "'a RepeatedField \<Rightarrow> 'a RepeatedField" where
  "RemoveLast r = r\<lparr>current_size := current_size r - 1\<rparr>"

text \<open>\<open>for (i = start; i < start + num; ++i) *out++ = Get(i)\<close>, and the loop that closes the gap.\<close>

function extracted :: "int \<Rightarrow> int \<Rightarrow> 'a RepeatedField \<Rightarrow> 'a list option" where
  "extracted i stop r =
     (if i < stop then do { v \<leftarrow> Repeated_Get i r; vs \<leftarrow> extracted (i + 1) stop r; Some (v # vs) } else Some [])"
  by pat_completeness auto
termination by (relation "measure (\<lambda>(i, stop, r). nat (stop - i))") auto

function slide :: "int \<Rightarrow> int \<Rightarrow> 'a RepeatedField \<Rightarrow> 'a RepeatedField option" where
  "slide i num r =
     (if i < current_size r then
        case Repeated_Get i r of None \<Rightarrow> None
        | Some v \<Rightarrow> if 0 \<le> i - num \<and> i - num < Capacity r
            then slide (i + 1) num (r\<lparr>elements := (elements r)[nat (i - num) := Some v]\<rparr>) else None
      else Some r)"
  by pat_completeness auto
termination by (relation "measure (\<lambda>(i, num, r). nat (current_size r - i))") auto

declare extracted.simps [simp del] slide.simps [simp del]

definition ExtractSubrange :: "int \<Rightarrow> int \<Rightarrow> bool \<Rightarrow> 'a RepeatedField \<Rightarrow> ('a list \<times> 'a RepeatedField) option" where
  "ExtractSubrange start num wanted r =
     do {
       out \<leftarrow> (if wanted then extracted start (start + num) r else Some []);
       r \<leftarrow> (if num > 0 then do { r \<leftarrow> slide (start + num) num r; Some (Truncate (current_size r - num) r) } else Some r);
       Some (out, r)
     }"

definition Repeated_Clear :: "'a RepeatedField \<Rightarrow> 'a RepeatedField" where
  "Repeated_Clear r = r\<lparr>current_size := 0\<rparr>"

definition Repeated_MergeFrom :: "'a RepeatedField \<Rightarrow> 'a RepeatedField \<Rightarrow> 'a RepeatedField option" where
  "Repeated_MergeFrom other r =
     (if current_size other \<noteq> 0 then do {
        let existing_size = current_size r;
        r \<leftarrow> Reserve (existing_size + current_size other) r;
        let r = AddNAlreadyReserved (current_size other) r;
        es \<leftarrow> copy_elements (current_size other) (elements other) existing_size (elements r);
        Some (r\<lparr>elements := es\<rparr>)
      } else Some r)"

definition Repeated_CopyFrom :: "'a RepeatedField \<Rightarrow> 'a RepeatedField \<Rightarrow> 'a RepeatedField option" where
  "Repeated_CopyFrom other r = Repeated_MergeFrom other (Repeated_Clear r)"

definition Repeated_copy :: "'a RepeatedField \<Rightarrow> 'a RepeatedField option" where
  "Repeated_copy other =
     (if current_size other \<noteq> 0 then do {
        r \<leftarrow> Reserve (current_size other) RepeatedField_new;
        let r = AddNAlreadyReserved (current_size other) r;
        es \<leftarrow> copy_elements (current_size other) (elements other) 0 (elements r);
        Some (r\<lparr>elements := es\<rparr>)
      } else Some RepeatedField_new)"

definition Repeated_Assign :: "'a list \<Rightarrow> 'a RepeatedField \<Rightarrow> 'a RepeatedField option" where
  "Repeated_Assign xs r = Add_range xs (Repeated_Clear r)"

text \<open>\<open>erase\<close> moves the elements from \<open>last\<close> on down to \<open>first\<close>; \<open>std::copy\<close> moves upwards, so the overlap is harmless.\<close>

definition Repeated_erase :: "int \<Rightarrow> int \<Rightarrow> 'a RepeatedField \<Rightarrow> 'a RepeatedField option" where
  "Repeated_erase first past r =
     (if first \<noteq> past then
        if 0 \<le> past \<and> past \<le> current_size r \<and> current_size r \<le> Capacity r then do {
          es \<leftarrow> copy_elements (current_size r - past) (drop (nat past) (elements r)) first (elements r);
          Some (Truncate (first + (current_size r - past)) (r\<lparr>elements := es\<rparr>))
        } else None
      else Some r)"

definition SwapElements :: "int \<Rightarrow> int \<Rightarrow> 'a RepeatedField \<Rightarrow> 'a RepeatedField option" where
  "SwapElements index1 index2 r =
     do {
       v1 \<leftarrow> load index1 r; v2 \<leftarrow> load index2 r;
       r \<leftarrow> store index1 (Some v2) r;
       store index2 (Some v1) r
     }"

section \<open>Growing\<close>

lemma int_range_Some [simp]: "- INT_MAX - 1 \<le> x \<Longrightarrow> x \<le> INT_MAX \<Longrightarrow> int_range x = Some x"
  by (simp add: int_range_def)

text \<open>No overflow; room for what was asked, within an \<open>int\<close>; and at least twice the old size while that is one.\<close>

lemma CalculateReserveSize_spec:
  assumes "0 \<le> k" "k < n" "n \<le> INT_MAX"
  obtains m where "CalculateReserveSize k n = Some m" "n \<le> m" "m \<le> INT_MAX" "4 \<le> m" "min (2 * k) INT_MAX \<le> m"
  using assms
  by (cases "n < 4"; cases "k < 1073741824")
     (auto simp: CalculateReserveSize_def kRepeatedFieldLowerClampLimit_def kRepeatedFieldUpperClampLimit_def)

section \<open>The abstract list\<close>

definition repeats :: "'a RepeatedField \<Rightarrow> 'a list \<Rightarrow> bool" where
  "repeats r xs \<longleftrightarrow> current_size r = int (length xs) \<and> (\<exists>spare. elements r = map Some xs @ spare) \<and>
     Capacity r \<le> INT_MAX \<and> (elements r = [] \<or> 4 \<le> Capacity r)"

definition contents :: "'a RepeatedField \<Rightarrow> 'a list" where
  "contents r = map the (take (nat (current_size r)) (elements r))"

lemma repeats_contents: "repeats r xs \<Longrightarrow> contents r = xs"
  by (auto simp: repeats_def contents_def comp_def)

lemma repeatsE:
  assumes "repeats r xs"
  obtains spare where "r = \<lparr>current_size = int (length xs), elements = map Some xs @ spare\<rparr>"
    "int (length xs + length spare) \<le> INT_MAX" "xs = [] \<and> spare = [] \<or> 4 \<le> length xs + length spare"
  using assms by (cases r) (auto simp: repeats_def Capacity_def)

lemma repeatsI:
  "int (length xs + length spare) \<le> INT_MAX \<Longrightarrow> xs = [] \<and> spare = [] \<or> 4 \<le> length xs + length spare \<Longrightarrow>
    repeats \<lparr>current_size = int (length xs), elements = map Some xs @ spare\<rparr> xs"
  by (auto simp: repeats_def Capacity_def)

lemma repeats_new: "repeats RepeatedField_new []"
  by (simp add: repeats_def RepeatedField_new_def Capacity_def)

lemma Reserve_spec:
  assumes "repeats r xs" "n \<le> INT_MAX"
  obtains r' where "Reserve n r = Some r'" "repeats r' xs" "n \<le> Capacity r'" "Capacity r \<le> Capacity r'"
proof (cases "n \<le> Capacity r")
  case True
  then show thesis using assms by (intro that [of r]) (simp_all add: Reserve_def)
next
  case False
  obtain spare where r: "r = \<lparr>current_size = int (length xs), elements = map Some xs @ spare\<rparr>" by (rule repeatsE [OF assms(1)])
  have c: "0 \<le> Capacity r" by (simp add: Capacity_def)
  obtain m where m: "CalculateReserveSize (Capacity r) n = Some m" "n \<le> m" "m \<le> INT_MAX" "4 \<le> m" "min (2 * Capacity r) INT_MAX \<le> m"
    by (rule CalculateReserveSize_spec [OF c _ assms(2)]) (use False in simp_all)
  let ?r = "\<lparr>current_size = int (length xs), elements = map Some xs @ replicate (nat m - length xs) None\<rparr>"
  have l: "length xs \<le> nat m" "int (length xs + length spare) \<le> m" using False m(2) by (simp_all add: Capacity_def r)
  have "Reserve n r = Some ?r" using m(1) False l
    by (auto simp: Reserve_def copy_elements_def r Capacity_def)
  moreover have "repeats ?r xs" using m l by (intro repeatsI) auto
  moreover have "n \<le> Capacity ?r" "Capacity r \<le> Capacity ?r" using m(2) l by (simp_all add: Capacity_def r)
  ultimately show thesis by (rule that)
qed

text \<open>Room for one more element.\<close>

lemma Reserve_spare:
  assumes "repeats r xs" "int (length xs) < n" "n \<le> INT_MAX"
  obtains spare where "Reserve n r = Some \<lparr>current_size = int (length xs), elements = map Some xs @ spare\<rparr>"
    "n \<le> int (length xs + length spare)" "int (length xs + length spare) \<le> INT_MAX" "4 \<le> length xs + length spare"
proof -
  obtain r' where r': "Reserve n r = Some r'" "repeats r' xs" "n \<le> Capacity r'" by (rule Reserve_spec [OF assms(1,3)])
  obtain spare where s: "r' = \<lparr>current_size = int (length xs), elements = map Some xs @ spare\<rparr>"
    "int (length xs + length spare) \<le> INT_MAX" "xs = [] \<and> spare = [] \<or> 4 \<le> length xs + length spare" by (rule repeatsE [OF r'(2)])
  show thesis by (rule that [of spare]) (use r' s assms(2) in \<open>auto simp: Capacity_def\<close>)
qed

text \<open>A value stored right after the last element.\<close>

lemma store_next:
  assumes "int (length xs + length (u # us)) \<le> INT_MAX" "4 \<le> length xs + length (u # us)"
  obtains r' where "store (int (length xs)) (Some v) \<lparr>current_size = c, elements = map Some xs @ u # us\<rparr> = Some r'"
    "repeats (r'\<lparr>current_size := int (length xs) + 1\<rparr>) (xs @ [v])" "Capacity r' = int (length xs + length (u # us))"
proof -
  let ?r = "\<lparr>current_size = c, elements = map Some xs @ Some v # us\<rparr>"
  have "store (int (length xs)) (Some v) \<lparr>current_size = c, elements = map Some xs @ u # us\<rparr> = Some ?r"
    using list_update_length [of "map Some xs" u us "Some v"] by (simp add: store_def Capacity_def)
  moreover have "repeats (?r\<lparr>current_size := int (length xs) + 1\<rparr>) (xs @ [v])"
    using repeatsI [of "xs @ [v]" us] assms by (simp add: add.commute)
  ultimately show thesis by (intro that [of ?r]) (simp_all add: Capacity_def)
qed

text \<open>What \<open>Add\<close> does when the array is full, and when it is not.\<close>

lemma room_for_one:
  assumes "repeats r xs" "int (length xs) < INT_MAX"
  obtains u us where "(if current_size r = Capacity r then Reserve (Capacity r + 1) r else Some r) =
      Some \<lparr>current_size = int (length xs), elements = map Some xs @ u # us\<rparr>"
    "int (length xs + length (u # us)) \<le> INT_MAX" "4 \<le> length xs + length (u # us)"
proof -
  obtain spare where r: "r = \<lparr>current_size = int (length xs), elements = map Some xs @ spare\<rparr>"
    "int (length xs + length spare) \<le> INT_MAX" "xs = [] \<and> spare = [] \<or> 4 \<le> length xs + length spare" by (rule repeatsE [OF assms(1)])
  show thesis
  proof (cases spare)
    case Nil
    then have c: "Capacity r = int (length xs)" "current_size r = int (length xs)" by (simp_all add: r(1) Capacity_def)
    obtain sp where sp: "Reserve (int (length xs) + 1) r = Some \<lparr>current_size = int (length xs), elements = map Some xs @ sp\<rparr>"
      "int (length xs) + 1 \<le> int (length xs + length sp)" "int (length xs + length sp) \<le> INT_MAX" "4 \<le> length xs + length sp"
      by (rule Reserve_spare [OF assms(1), of "int (length xs) + 1"]) (use assms(2) in auto)
    then obtain u us where "sp = u # us" by (cases sp) auto
    with sp c show thesis by (intro that [of u us]) simp_all
  next
    case (Cons u us)
    then show thesis using r by (intro that [of u us]) (auto simp: Capacity_def)
  qed
qed

section \<open>The operations on the abstract list\<close>

lemma Repeated_Add_spec:
  assumes "repeats r xs" "int (length xs) < INT_MAX"
  obtains r' where "Repeated_Add v r = Some r'" "repeats r' (xs @ [v])"
proof -
  obtain u us where a: "(if current_size r = Capacity r then Reserve (Capacity r + 1) r else Some r) =
      Some \<lparr>current_size = int (length xs), elements = map Some xs @ u # us\<rparr>"
    "int (length xs + length (u # us)) \<le> INT_MAX" "4 \<le> length xs + length (u # us)" by (rule room_for_one [OF assms])
  obtain r' where "store (int (length xs)) (Some v) \<lparr>current_size = int (length xs), elements = map Some xs @ u # us\<rparr> = Some r'"
    "repeats (r'\<lparr>current_size := int (length xs) + 1\<rparr>) (xs @ [v])" by (rule store_next [OF a(2,3)])
  moreover have c: "current_size r = int (length xs)" using assms(1) by (simp add: repeats_def)
  ultimately show thesis
    by (intro that [of "r'\<lparr>current_size := int (length xs) + 1\<rparr>"])
       (simp_all only: Repeated_Add_def Let_def a(1) [unfolded c] c bind.bind_lunit)
qed

lemma fast_adder_spec:
  assumes "repeats (r\<lparr>current_size := int (length xs)\<rparr>) xs" "int (length xs + length vs) \<le> INT_MAX"
  shows "\<exists>r'. fast_adder vs (int (length xs)) (Capacity r) r = Some r' \<and> repeats r' (xs @ vs)"
  using assms
proof (induction vs arbitrary: xs r)
  case (Cons v vs)
  let ?r = "r\<lparr>current_size := int (length xs)\<rparr>"
  have c: "Capacity ?r = Capacity r" by (simp add: Capacity_def)
  obtain u us where a: "(if current_size ?r = Capacity ?r then Reserve (Capacity ?r + 1) ?r else Some ?r) =
      Some \<lparr>current_size = int (length xs), elements = map Some xs @ u # us\<rparr>"
    "int (length xs + length (u # us)) \<le> INT_MAX" "4 \<le> length xs + length (u # us)"
    by (rule room_for_one [OF Cons.prems(1)]) (use Cons.prems(2) in simp)
  show ?case
  proof (cases "int (length xs) = Capacity r")
    case True
    obtain r' where r': "store (int (length xs)) (Some v) \<lparr>current_size = int (length xs), elements = map Some xs @ u # us\<rparr> = Some r'"
      "repeats (r'\<lparr>current_size := int (length xs) + 1\<rparr>) (xs @ [v])" "Capacity r' = int (length xs + length (u # us))"
      by (rule store_next [OF a(2,3)])
    have "\<exists>r''. fast_adder vs (int (length (xs @ [v]))) (Capacity r') r' = Some r'' \<and> repeats r'' ((xs @ [v]) @ vs)"
      by (rule Cons.IH) (use r'(2) Cons.prems(2) in \<open>simp_all add: add.commute\<close>)
    with True a(1) r'(1,3) c show ?thesis by (auto simp: Capacity_def add.commute)
  next
    case False
    then have e: "elements r = map Some xs @ u # us" using a(1) c by (cases r) simp
    obtain r' where r': "store (int (length xs)) (Some v) \<lparr>current_size = current_size r, elements = map Some xs @ u # us\<rparr> = Some r'"
      "repeats (r'\<lparr>current_size := int (length xs) + 1\<rparr>) (xs @ [v])" "Capacity r' = int (length xs + length (u # us))"
      by (rule store_next [OF a(2,3)])
    have "\<exists>r''. fast_adder vs (int (length (xs @ [v]))) (Capacity r') r' = Some r'' \<and> repeats r'' ((xs @ [v]) @ vs)"
      by (rule Cons.IH) (use r'(2) Cons.prems(2) in \<open>simp_all add: add.commute\<close>)
    moreover have "r = \<lparr>current_size = current_size r, elements = map Some xs @ u # us\<rparr>" using e by (cases r) simp
    moreover have "Capacity r' = Capacity r" using r'(3) e by (simp add: Capacity_def)
    ultimately show ?thesis using False r'(1) by (auto simp: add.commute)
  qed
qed simp

lemma repeats_shrink: "repeats r (xs @ ys) \<Longrightarrow> repeats (r\<lparr>current_size := int (length xs)\<rparr>) xs"
  by (auto simp: repeats_def Capacity_def)

lemma repeats_take: "repeats r xs \<Longrightarrow> 0 \<le> n \<Longrightarrow> n \<le> int (length xs) \<Longrightarrow> repeats (r\<lparr>current_size := n\<rparr>) (take (nat n) xs)"
  using repeats_shrink [of r "take (nat n) xs" "drop (nat n) xs"] by simp

lemma repeats_size: "repeats r xs \<Longrightarrow> current_size r = int (length xs)"
  by (simp add: repeats_def)

lemma Repeated_Get_spec: "repeats r xs \<Longrightarrow> i < length xs \<Longrightarrow> Repeated_Get (int i) r = Some (xs ! i)"
  by (erule repeatsE) (simp add: Repeated_Get_def load_def Capacity_def nth_append)

lemma Repeated_at_spec: "repeats r xs \<Longrightarrow> Repeated_at i r = (if 0 \<le> i \<and> i < int (length xs) then Some (xs ! nat i) else None)"
  by (erule repeatsE) (auto simp: Repeated_at_def load_def Capacity_def nth_append nat_less_iff)

lemma store_spec:
  assumes "repeats r xs" "i < length xs"
  obtains r' where "store (int i) (Some v) r = Some r'" "repeats r' (xs[i := v])"
proof -
  obtain spare where r: "r = \<lparr>current_size = int (length xs), elements = map Some xs @ spare\<rparr>"
    "int (length xs + length spare) \<le> INT_MAX" "xs = [] \<and> spare = [] \<or> 4 \<le> length xs + length spare" by (rule repeatsE [OF assms(1)])
  have "(map Some xs @ spare)[i := Some v] = map Some (xs[i := v]) @ spare" using assms(2) by (simp add: list_update_append map_update)
  then have "store (int i) (Some v) r = Some \<lparr>current_size = int (length xs), elements = map Some (xs[i := v]) @ spare\<rparr>"
    using assms(2) by (simp add: store_def r(1) Capacity_def)
  then show thesis using repeatsI [of "xs[i := v]" spare] r(2,3) assms(2) by (intro that) auto
qed

lemma Repeated_Set_spec:
  assumes "repeats r xs" "i < length xs"
  obtains r' where "Repeated_Set (int i) v r = Some r'" "repeats r' (xs[i := v])"
  by (rule store_spec [OF assms, of v]) (auto simp: Repeated_Set_def intro: that)

lemma AddAlreadyReserved_spec:
  assumes "repeats r xs" "int (length xs) < Capacity r"
  obtains r' where "AddAlreadyReserved v r = Some r'" "repeats r' (xs @ [v])" "Capacity r' = Capacity r"
proof -
  obtain spare where r: "r = \<lparr>current_size = int (length xs), elements = map Some xs @ spare\<rparr>"
    "int (length xs + length spare) \<le> INT_MAX" "xs = [] \<and> spare = [] \<or> 4 \<le> length xs + length spare" by (rule repeatsE [OF assms(1)])
  then obtain u us where s: "spare = u # us" using assms(2) by (cases spare) (auto simp: Capacity_def)
  obtain r' where "store (int (length xs)) (Some v) r = Some r'" "repeats (r'\<lparr>current_size := int (length xs) + 1\<rparr>) (xs @ [v])"
    "Capacity r' = int (length xs + length (u # us))" unfolding r(1) s by (rule store_next) (use r(2,3) s in auto)
  then show thesis using r(1) s
    by (intro that [of "r'\<lparr>current_size := int (length xs) + 1\<rparr>"]) (simp_all add: AddAlreadyReserved_def Capacity_def)
qed

text \<open>Elements copied to the end, where there is room for them.\<close>

lemma copy_to_end:
  assumes "repeats r xs" "int (length xs + length ys) \<le> Capacity r"
  obtains es where "copy_elements (int (length ys)) (map Some ys @ junk) (int (length xs)) (elements r) = Some es"
    "repeats (r\<lparr>current_size := int (length ys) + int (length xs), elements := es\<rparr>) (xs @ ys)"
proof -
  obtain spare where r: "r = \<lparr>current_size = int (length xs), elements = map Some xs @ spare\<rparr>"
    "int (length xs + length spare) \<le> INT_MAX" "xs = [] \<and> spare = [] \<or> 4 \<le> length xs + length spare" by (rule repeatsE [OF assms(1)])
  have l: "length ys \<le> length spare" using assms(2) by (simp add: r(1) Capacity_def)
  let ?es = "map Some (xs @ ys) @ drop (length ys) spare"
  have "copy_elements (int (length ys)) (map Some ys @ junk) (int (length xs)) (elements r) = Some ?es"
    using l by (simp add: copy_elements_def r(1))
  moreover have "repeats (r\<lparr>current_size := int (length ys) + int (length xs), elements := ?es\<rparr>) (xs @ ys)"
    using repeatsI [of "xs @ ys" "drop (length ys) spare"] r l by (auto simp: add.commute)
  ultimately show thesis by (rule that)
qed

lemma Add_range_spec:
  assumes "repeats r xs" "int (length xs + length ys) \<le> INT_MAX"
  obtains r' where "Add_range ys r = Some r'" "repeats r' (xs @ ys)"
proof (cases "ys = []")
  case True
  then show thesis using assms(1) by (intro that [of r]) (simp_all add: Add_range_def)
next
  case False
  obtain r1 where r1: "Reserve (int (length xs + length ys)) r = Some r1" "repeats r1 xs" "int (length xs + length ys) \<le> Capacity r1"
    by (rule Reserve_spec [OF assms])
  obtain es where "copy_elements (int (length ys)) (map Some ys @ []) (int (length xs)) (elements r1) = Some es"
    "repeats (r1\<lparr>current_size := int (length ys) + int (length xs), elements := es\<rparr>) (xs @ ys)" by (rule copy_to_end [OF r1(2,3)])
  then show thesis using False r1(1) repeats_size [OF assms(1)] repeats_size [OF r1(2)]
    by (intro that [of "r1\<lparr>current_size := int (length ys) + int (length xs), elements := es\<rparr>"]) (simp_all add: Add_range_def add.commute)
qed

lemma Add_iterator_spec:
  assumes "repeats r xs" "int (length xs + length ys) \<le> INT_MAX"
  obtains r' where "Add_iterator ys r = Some r'" "repeats r' (xs @ ys)"
proof -
  have "r\<lparr>current_size := int (length xs)\<rparr> = r" using repeats_size [OF assms(1)] by (cases r) simp
  then have "repeats (r\<lparr>current_size := int (length xs)\<rparr>) xs" using assms(1) by (simp only:)
  from fast_adder_spec [OF this assms(2)] show thesis using repeats_size [OF assms(1)] that by (auto simp: Add_iterator_def)
qed

lemma Resize_spec:
  assumes "repeats r xs" "0 \<le> n" "n \<le> INT_MAX"
  obtains r' where "Resize n v r = Some r'" "repeats r' (take (nat n) xs @ replicate (nat n - length xs) v)"
proof (cases "int (length xs) < n")
  case True
  obtain r1 where r1: "Reserve n r = Some r1" "repeats r1 xs" "n \<le> Capacity r1" by (rule Reserve_spec [OF assms(1,3)])
  obtain spare where s: "r1 = \<lparr>current_size = int (length xs), elements = map Some xs @ spare\<rparr>"
    "int (length xs + length spare) \<le> INT_MAX" "xs = [] \<and> spare = [] \<or> 4 \<le> length xs + length spare" by (rule repeatsE [OF r1(2)])
  let ?k = "nat n - length xs"
  have l: "?k \<le> length spare" "nat (n - int (length xs)) = ?k" "nat n = length xs + ?k"
    using r1(3) True by (simp_all add: s(1) Capacity_def)
  let ?r = "\<lparr>current_size = int (length (xs @ replicate ?k v)), elements = map Some (xs @ replicate ?k v) @ drop ?k spare\<rparr>"
  have "fill (int (length xs)) n v r1 = Some (?r\<lparr>current_size := int (length xs)\<rparr>)"
    using True l r1(3) by (simp add: fill_def s(1) Capacity_def)
  then have "Resize n v r = Some ?r"
    using True r1(1) repeats_size [OF assms(1)] repeats_size [OF r1(2)] l by (simp add: Resize_def)
  moreover have "repeats ?r (xs @ replicate ?k v)" using s(2,3) l by (intro repeatsI) auto
  ultimately show thesis using True by (intro that [of ?r]) simp_all
next
  case False
  then show thesis using assms(1,2) repeats_size [OF assms(1)]
    by (intro that [of "r\<lparr>current_size := n\<rparr>"]) (simp_all add: Resize_def repeats_take)
qed

lemma Truncate_spec: "repeats r xs \<Longrightarrow> 0 \<le> n \<Longrightarrow> n \<le> int (length xs) \<Longrightarrow> repeats (Truncate n r) (take (nat n) xs)"
  by (cases "xs = []") (simp_all add: Truncate_def repeats_size repeats_take)

lemma RemoveLast_spec: "repeats r xs \<Longrightarrow> xs \<noteq> [] \<Longrightarrow> repeats (RemoveLast r) (butlast xs)"
  using repeats_take [of r xs "int (length xs) - 1"]
  by (cases xs) (simp_all add: RemoveLast_def repeats_size butlast_conv_take)

lemma Clear_spec: "repeats r xs \<Longrightarrow> repeats (Repeated_Clear r) []"
  using repeats_take [of r xs 0] by (simp add: Repeated_Clear_def)

lemma extracted_spec: "repeats r xs \<Longrightarrow> i + k \<le> length xs \<Longrightarrow> extracted (int i) (int (i + k)) r = Some (take k (drop i xs))"
proof (induction k arbitrary: i)
  case 0
  then show ?case by (subst extracted.simps) simp
next
  case (Suc k)
  have "extracted (int (Suc i)) (int (Suc i + k)) r = Some (take k (drop (Suc i) xs))" by (rule Suc.IH) (use Suc.prems in simp_all)
  moreover have "drop i xs = xs ! i # drop (Suc i) xs" using Suc.prems by (simp add: Cons_nth_drop_Suc)
  ultimately show ?case using Suc.prems by (subst extracted.simps) (simp add: Repeated_Get_spec add.commute)
qed

text \<open>The loop that closes a gap: what lies above it moves down by the length of the gap.\<close>

lemma slide_spec:
  assumes "repeats r (xs @ gap @ ys)" "length gap = k" "0 < k"
  shows "\<exists>r' junk. slide (int (length xs + k)) (int k) r = Some r' \<and> repeats r' (xs @ ys @ junk) \<and> length junk = k"
  using assms
proof (induction ys arbitrary: xs gap r)
  case Nil
  then show ?case using repeats_size [OF Nil.prems(1)] by (subst slide.simps) auto
next
  case (Cons y ys)
  obtain g gs where gap: "gap = g # gs" using Cons.prems(2,3) by (cases gap) auto
  let ?i = "length xs + k"
  have get: "Repeated_Get (int ?i) r = Some y" using Repeated_Get_spec [OF Cons.prems(1), of ?i] Cons.prems(2) by (simp add: nth_append)
  obtain r1 where r1: "store (int (length xs)) (Some y) r = Some r1" "repeats r1 ((xs @ gap @ y # ys)[length xs := y])"
    by (rule store_spec [OF Cons.prems(1), of "length xs" y]) simp_all
  have upd: "(xs @ gap @ y # ys)[length xs := y] = (xs @ [y]) @ (gs @ [y]) @ ys" by (simp add: gap)
  have "\<exists>r' junk. slide (int (length (xs @ [y]) + k)) (int k) r1 = Some r' \<and> repeats r' ((xs @ [y]) @ ys @ junk) \<and> length junk = k"
    by (rule Cons.IH [where gap = "gs @ [y]"]) (use r1(2) upd gap Cons.prems in auto)
  moreover have "slide (int ?i) (int k) r = slide (int (length (xs @ [y]) + k)) (int k) r1"
    using r1(1) get repeats_size [OF Cons.prems(1)] Cons.prems(2)
    by (subst slide.simps) (auto simp: store_def algebra_simps split: if_splits)
  ultimately show ?case by simp
qed

lemma ExtractSubrange_spec:
  assumes "repeats r xs" "i + k \<le> length xs"
  obtains r' where "ExtractSubrange (int i) (int k) wanted r = Some (if wanted then take k (drop i xs) else [], r')"
    "repeats r' (take i xs @ drop (i + k) xs)"
proof (cases "k = 0")
  case True
  then show thesis using assms extracted_spec [OF assms] by (intro that [of r]) (simp_all add: ExtractSubrange_def)
next
  case False
  have split: "xs = take i xs @ take k (drop i xs) @ drop (i + k) xs" by (metis append_take_drop_id drop_drop add.commute)
  have len: "length (take i xs) = i" "length (take k (drop i xs)) = k" using assms(2) by auto
  obtain r1 junk where r1: "slide (int (i + k)) (int k) r = Some r1" "repeats r1 (take i xs @ drop (i + k) xs @ junk)" "length junk = k"
    using slide_spec [of r "take i xs" "take k (drop i xs)" "drop (i + k) xs" k] split assms(1) len False by auto
  let ?ys = "take i xs @ drop (i + k) xs"
  have c: "current_size r1 - int k = int (length ?ys)" using repeats_size [OF r1(2)] r1(3) by simp
  have "repeats r1 (?ys @ junk)" using r1(2) by simp
  from Truncate_spec [OF this, of "int (length ?ys)"] have "repeats (Truncate (current_size r1 - int k) r1) ?ys"
    unfolding c by (simp only: nat_int take_append) (use assms(2) in simp)
  then show thesis using False r1(1) extracted_spec [OF assms]
    by (intro that [of "Truncate (current_size r1 - int k) r1"]) (simp_all add: ExtractSubrange_def)
qed

lemma MergeFrom_spec:
  assumes "repeats r xs" "repeats r2 ys" "int (length xs + length ys) \<le> INT_MAX"
  obtains r' where "Repeated_MergeFrom r2 r = Some r'" "repeats r' (xs @ ys)"
proof (cases "ys = []")
  case True
  then show thesis using assms(1) repeats_size [OF assms(2)] by (intro that [of r]) (simp_all add: Repeated_MergeFrom_def)
next
  case False
  obtain junk where e: "elements r2 = map Some ys @ junk" using assms(2) by (auto simp: repeats_def)
  obtain r1 where r1: "Reserve (int (length xs + length ys)) r = Some r1" "repeats r1 xs" "int (length xs + length ys) \<le> Capacity r1"
    by (rule Reserve_spec [OF assms(1,3)])
  obtain es where "copy_elements (int (length ys)) (map Some ys @ junk) (int (length xs)) (elements r1) = Some es"
    "repeats (r1\<lparr>current_size := int (length ys) + int (length xs), elements := es\<rparr>) (xs @ ys)" by (rule copy_to_end [OF r1(2,3)])
  then show thesis using False r1(1) repeats_size [OF assms(1)] repeats_size [OF assms(2)] repeats_size [OF r1(2)] e
    by (intro that [of "r1\<lparr>current_size := int (length ys) + int (length xs), elements := es\<rparr>"])
       (simp_all add: Repeated_MergeFrom_def AddNAlreadyReserved_def add.commute)
qed

lemma repeats_bound: "repeats r xs \<Longrightarrow> int (length xs) \<le> INT_MAX"
  by (erule repeatsE) simp

lemma CopyFrom_spec:
  assumes "repeats r xs" "repeats r2 ys"
  obtains r' where "Repeated_CopyFrom r2 r = Some r'" "repeats r' ys"
proof -
  obtain r' where "Repeated_MergeFrom r2 (Repeated_Clear r) = Some r'" "repeats r' ([] @ ys)"
    by (rule MergeFrom_spec [OF Clear_spec [OF assms(1)] assms(2)]) (use repeats_bound [OF assms(2)] in simp)
  then show thesis by (intro that) (simp_all add: Repeated_CopyFrom_def)
qed

lemma Repeated_copy_spec:
  assumes "repeats r xs"
  obtains r' where "Repeated_copy r = Some r'" "repeats r' xs"
proof -
  have "Repeated_copy r = Repeated_MergeFrom r RepeatedField_new"
    by (simp add: Repeated_copy_def Repeated_MergeFrom_def RepeatedField_new_def Let_def)
  moreover obtain r' where "Repeated_MergeFrom r RepeatedField_new = Some r'" "repeats r' ([] @ xs)"
    by (rule MergeFrom_spec [OF repeats_new assms]) (use repeats_bound [OF assms] in simp)
  ultimately show thesis by (intro that) simp_all
qed

lemma Assign_spec:
  assumes "repeats r xs" "int (length ys) \<le> INT_MAX"
  obtains r' where "Repeated_Assign ys r = Some r'" "repeats r' ys"
  by (rule Add_range_spec [OF Clear_spec [OF assms(1)], of ys]) (use assms(2) that in \<open>auto simp: Repeated_Assign_def\<close>)

lemma erase_spec:
  assumes "repeats r xs" "i \<le> j" "j \<le> length xs"
  obtains r' where "Repeated_erase (int i) (int j) r = Some r'" "repeats r' (take i xs @ drop j xs)"
proof (cases "i = j")
  case True
  then show thesis using assms(1) by (intro that [of r]) (simp_all add: Repeated_erase_def)
next
  case False
  obtain spare where r: "r = \<lparr>current_size = int (length xs), elements = map Some xs @ spare\<rparr>"
    "int (length xs + length spare) \<le> INT_MAX" "xs = [] \<and> spare = [] \<or> 4 \<le> length xs + length spare" by (rule repeatsE [OF assms(1)])
  obtain n where n: "length xs = j + n" using assms(3) le_Suc_ex by blast
  let ?tail = "drop (i + n) (map Some xs @ spare)"
  have l: "length (drop j xs) = n" "length (take i xs) = i" "0 < length xs" using assms(2) n False by auto
  have cut: "take i (map Some xs @ spare) = map Some (take i xs)" "take n (drop j (map Some xs @ spare)) = map Some (drop j xs)"
    using assms(2) n by (simp_all add: take_map drop_map)
  have "copy_elements (int n) (drop j (elements r)) (int i) (elements r) = Some (map Some (take i xs) @ map Some (drop j xs) @ ?tail)"
    using assms(2) n cut by (simp add: copy_elements_def r(1) del: drop_append take_append)
  moreover have "current_size r \<le> Capacity r" "current_size r = int j + int n" by (simp_all add: r(1) Capacity_def n)
  ultimately have "Repeated_erase (int i) (int j) r =
      Some (Truncate (int i + int n) (r\<lparr>elements := map Some (take i xs) @ map Some (drop j xs) @ ?tail\<rparr>))"
    using False by (simp add: Repeated_erase_def del: drop_append)
  also have "Truncate (int i + int n) (r\<lparr>elements := map Some (take i xs) @ map Some (drop j xs) @ ?tail\<rparr>) =
      \<lparr>current_size = int (length (take i xs @ drop j xs)), elements = map Some (take i xs @ drop j xs) @ ?tail\<rparr>"
    using l by (simp add: Truncate_def r(1) del: drop_append length_take length_drop)
  finally show thesis by (rule that) (intro repeatsI, use r(2,3) l n assms(2) in \<open>auto simp del: drop_append\<close>)
qed

lemma load_spec: "repeats r xs \<Longrightarrow> i < length xs \<Longrightarrow> load (int i) r = Some (xs ! i)"
  using Repeated_Get_spec [of r xs i] by (simp add: Repeated_Get_def)

lemma SwapElements_spec:
  assumes "repeats r xs" "i < length xs" "j < length xs"
  obtains r' where "SwapElements (int i) (int j) r = Some r'" "repeats r' (xs[i := xs ! j, j := xs ! i])"
proof -
  obtain r1 where r1: "store (int i) (Some (xs ! j)) r = Some r1" "repeats r1 (xs[i := xs ! j])" by (rule store_spec [OF assms(1,2)])
  obtain r2 where "store (int j) (Some (xs ! i)) r1 = Some r2" "repeats r2 (xs[i := xs ! j, j := xs ! i])"
    by (rule store_spec [OF r1(2), of j "xs ! i"]) (use assms(3) in simp_all)
  then show thesis using r1(1) assms by (intro that [of r2]) (simp_all add: SwapElements_def load_spec)
qed

text \<open>\<open>*Add() = v\<close>.\<close>

lemma Add_default_spec:
  assumes "repeats r xs" "int (length xs) < INT_MAX"
  obtains r1 r' where "Repeated_Add_default r = Some r1" "Repeated_Set (int (length xs)) v r1 = Some r'" "repeats r' (xs @ [v])"
proof -
  obtain u us where a: "(if current_size r = Capacity r then Reserve (Capacity r + 1) r else Some r) =
      Some \<lparr>current_size = int (length xs), elements = map Some xs @ u # us\<rparr>"
    "int (length xs + length (u # us)) \<le> INT_MAX" "4 \<le> length xs + length (u # us)" by (rule room_for_one [OF assms])
  have c: "current_size r = int (length xs)" by (rule repeats_size [OF assms(1)])
  obtain r' where r': "store (int (length xs)) (Some v) \<lparr>current_size = int (length xs) + 1, elements = map Some xs @ u # us\<rparr> = Some r'"
    "repeats (r'\<lparr>current_size := int (length xs) + 1\<rparr>) (xs @ [v])" by (rule store_next [OF a(2,3)])
  then have "current_size r' = int (length xs) + 1" by (auto simp: store_def split: if_splits)
  then have "r'\<lparr>current_size := int (length xs) + 1\<rparr> = r'" by (cases r') simp
  then show thesis using r' by (intro that [of "\<lparr>current_size = int (length xs) + 1, elements = map Some xs @ u # us\<rparr>" r'])
    (simp_all add: Repeated_Add_default_def Let_def a(1) [unfolded c] c Repeated_Set_def)
qed

section \<open>Any sequence of operations\<close>

datatype 'a rf_op =
    Rf_add 'a | Rf_add_reserved 'a | Rf_add_default 'a | Rf_add_range "'a list" | Rf_add_iterator "'a list" | Rf_reserve nat
  | Rf_resize nat 'a | Rf_truncate nat | Rf_set nat 'a | Rf_swap nat nat | Rf_remove_last | Rf_extract nat nat bool
  | Rf_erase nat nat | Rf_clear | Rf_merge "'a RepeatedField" | Rf_copy_from "'a RepeatedField" | Rf_assign "'a list"

fun perform_rf :: "'a rf_op \<Rightarrow> 'a RepeatedField \<Rightarrow> 'a RepeatedField option" where
  "perform_rf (Rf_add v) r = Repeated_Add v r"
| "perform_rf (Rf_add_reserved v) r = AddAlreadyReserved v r"
| "perform_rf (Rf_add_default v) r = do { r' \<leftarrow> Repeated_Add_default r; Repeated_Set (current_size r) v r' }"
| "perform_rf (Rf_add_range xs) r = Add_range xs r"
| "perform_rf (Rf_add_iterator xs) r = Add_iterator xs r"
| "perform_rf (Rf_reserve n) r = Reserve (int n) r"
| "perform_rf (Rf_resize n v) r = Resize (int n) v r"
| "perform_rf (Rf_truncate n) r = Some (Truncate (int n) r)"
| "perform_rf (Rf_set i v) r = Repeated_Set (int i) v r"
| "perform_rf (Rf_swap i j) r = SwapElements (int i) (int j) r"
| "perform_rf Rf_remove_last r = Some (RemoveLast r)"
| "perform_rf (Rf_extract i k wanted) r = map_option snd (ExtractSubrange (int i) (int k) wanted r)"
| "perform_rf (Rf_erase i j) r = Repeated_erase (int i) (int j) r"
| "perform_rf Rf_clear r = Some (Repeated_Clear r)"
| "perform_rf (Rf_merge other) r = Repeated_MergeFrom other r"
| "perform_rf (Rf_copy_from other) r = Repeated_CopyFrom other r"
| "perform_rf (Rf_assign xs) r = Repeated_Assign xs r"

fun list_rf :: "'a rf_op \<Rightarrow> 'a list \<Rightarrow> 'a list" where
  "list_rf (Rf_add v) xs = xs @ [v]"
| "list_rf (Rf_add_reserved v) xs = xs @ [v]"
| "list_rf (Rf_add_default v) xs = xs @ [v]"
| "list_rf (Rf_add_range ys) xs = xs @ ys"
| "list_rf (Rf_add_iterator ys) xs = xs @ ys"
| "list_rf (Rf_reserve n) xs = xs"
| "list_rf (Rf_resize n v) xs = take n xs @ replicate (n - length xs) v"
| "list_rf (Rf_truncate n) xs = take n xs"
| "list_rf (Rf_set i v) xs = xs[i := v]"
| "list_rf (Rf_swap i j) xs = xs[i := xs ! j, j := xs ! i]"
| "list_rf Rf_remove_last xs = butlast xs"
| "list_rf (Rf_extract i k wanted) xs = take i xs @ drop (i + k) xs"
| "list_rf (Rf_erase i j) xs = take i xs @ drop j xs"
| "list_rf Rf_clear xs = []"
| "list_rf (Rf_merge other) xs = xs @ contents other"
| "list_rf (Rf_copy_from other) xs = contents other"
| "list_rf (Rf_assign ys) xs = ys"

text \<open>Indices in range, and never more elements than an \<open>int\<close> can count.\<close>

fun rf_admissible :: "'a rf_op \<Rightarrow> 'a RepeatedField \<Rightarrow> bool" where
  "rf_admissible (Rf_add v) r = (current_size r < INT_MAX)"
| "rf_admissible (Rf_add_reserved v) r = (current_size r < Capacity r)"
| "rf_admissible (Rf_add_default v) r = (current_size r < INT_MAX)"
| "rf_admissible (Rf_add_range ys) r = (current_size r + int (length ys) \<le> INT_MAX)"
| "rf_admissible (Rf_add_iterator ys) r = (current_size r + int (length ys) \<le> INT_MAX)"
| "rf_admissible (Rf_reserve n) r = (int n \<le> INT_MAX)"
| "rf_admissible (Rf_resize n v) r = (int n \<le> INT_MAX)"
| "rf_admissible (Rf_truncate n) r = (int n \<le> current_size r)"
| "rf_admissible (Rf_set i v) r = (int i < current_size r)"
| "rf_admissible (Rf_swap i j) r = (int i < current_size r \<and> int j < current_size r)"
| "rf_admissible Rf_remove_last r = (0 < current_size r)"
| "rf_admissible (Rf_extract i k wanted) r = (int (i + k) \<le> current_size r)"
| "rf_admissible (Rf_erase i j) r = (i \<le> j \<and> int j \<le> current_size r)"
| "rf_admissible Rf_clear r = True"
| "rf_admissible (Rf_merge other) r = (repeats other (contents other) \<and> current_size r + current_size other \<le> INT_MAX)"
| "rf_admissible (Rf_copy_from other) r = repeats other (contents other)"
| "rf_admissible (Rf_assign ys) r = (int (length ys) \<le> INT_MAX)"

lemma perform_rf_spec:
  assumes "repeats r xs" "rf_admissible p r"
  obtains r' where "perform_rf p r = Some r'" "repeats r' (list_rf p xs)"
proof -
  note s = repeats_size [OF assms(1)]
  have "\<exists>r'. perform_rf p r = Some r' \<and> repeats r' (list_rf p xs)"
  proof (cases p)
    case p: (Rf_add v) show ?thesis by (rule Repeated_Add_spec [OF assms(1), of v]) (use p assms(2) s in auto)
  next
    case p: (Rf_add_reserved v) show ?thesis by (rule AddAlreadyReserved_spec [OF assms(1), of v]) (use p assms(2) s in auto)
  next
    case p: (Rf_add_default v) show ?thesis by (rule Add_default_spec [OF assms(1), of v]) (use p assms(2) s in auto)
  next
    case p: (Rf_add_range ys) show ?thesis by (rule Add_range_spec [OF assms(1), of ys]) (use p assms(2) s in auto)
  next
    case p: (Rf_add_iterator ys) show ?thesis by (rule Add_iterator_spec [OF assms(1), of ys]) (use p assms(2) s in auto)
  next
    case p: (Rf_reserve n) show ?thesis by (rule Reserve_spec [OF assms(1), of "int n"]) (use p assms(2) in auto)
  next
    case p: (Rf_resize n v) show ?thesis by (rule Resize_spec [OF assms(1), of "int n" v]) (use p assms(2) in auto)
  next
    case (Rf_truncate n) then show ?thesis using assms(2) s Truncate_spec [OF assms(1), of "int n"] by simp
  next
    case p: (Rf_set i v) show ?thesis by (rule Repeated_Set_spec [OF assms(1), of i v]) (use p assms(2) s in auto)
  next
    case p: (Rf_swap i j) show ?thesis by (rule SwapElements_spec [OF assms(1), of i j]) (use p assms(2) s in auto)
  next
    case Rf_remove_last then show ?thesis using assms(2) s RemoveLast_spec [OF assms(1)] by simp
  next
    case p: (Rf_extract i k w) show ?thesis by (rule ExtractSubrange_spec [OF assms(1), of i k w]) (use p assms(2) s in auto)
  next
    case p: (Rf_erase i j) show ?thesis by (rule erase_spec [OF assms(1), of i j]) (use p assms(2) s in auto)
  next
    case Rf_clear then show ?thesis using Clear_spec [OF assms(1)] by simp
  next
    case (Rf_merge other)
    then have o: "repeats other (contents other)" "int (length xs + length (contents other)) \<le> INT_MAX"
      using assms(2) s repeats_size [of other "contents other"] by simp_all
    show ?thesis by (rule MergeFrom_spec [OF assms(1) o]) (simp add: Rf_merge)
  next
    case p: (Rf_copy_from other) show ?thesis by (rule CopyFrom_spec [OF assms(1), of other "contents other"]) (use p assms(2) in auto)
  next
    case p: (Rf_assign ys) show ?thesis by (rule Assign_spec [OF assms(1), of ys]) (use p assms(2) in auto)
  qed
  then show thesis using that by blast
qed

text \<open>The states a client can reach, with the list each stands for.\<close>

inductive rf_reaches :: "'a RepeatedField \<Rightarrow> 'a list \<Rightarrow> bool" where
  rf_start: "rf_reaches RepeatedField_new []"
| rf_step: "rf_reaches r xs \<Longrightarrow> rf_admissible p r \<Longrightarrow> perform_rf p r = Some r' \<Longrightarrow> rf_reaches r' (list_rf p xs)"

lemma rf_reaches_repeats: "rf_reaches r xs \<Longrightarrow> repeats r xs"
proof (induction rule: rf_reaches.induct)
  case (rf_step r xs p r')
  show ?case by (rule perform_rf_spec [OF rf_step.IH rf_step.hyps(2)]) (use rf_step.hyps(3) in simp)
qed (rule repeats_new)

text \<open>C23. A \<open>RepeatedField\<close> that any sequence of its operations has produced, with indices in range, is the list those
  operations produce from the empty list: its elements are initialised and have the values of the list, \<open>at\<close> fails
  exactly outside it, every further operation returns without leaving the allocation or overflowing an \<open>int\<close>, and
  what it extracts is the part of the list asked for.\<close>

theorem repeated_field_refines:
  assumes "rf_reaches r xs"
  shows "current_size r = int (length xs) \<and> contents r = xs \<and> current_size r \<le> Capacity r \<and> Capacity r \<le> INT_MAX \<and>
    (\<forall>i < length xs. Repeated_Get (int i) r = Some (xs ! i)) \<and>
    Repeated_at i r = (if 0 \<le> i \<and> i < int (length xs) then Some (xs ! nat i) else None) \<and>
    (\<forall>p. rf_admissible p r \<longrightarrow> (\<exists>r'. perform_rf p r = Some r' \<and> rf_reaches r' (list_rf p xs))) \<and>
    (i' + k \<le> length xs \<longrightarrow> map_option fst (ExtractSubrange (int i') (int k) True r) = Some (take k (drop i' xs)))"
proof (intro conjI)
  have r: "repeats r xs" by (rule rf_reaches_repeats [OF assms])
  show "current_size r = int (length xs)" "contents r = xs" by (rule repeats_size [OF r], rule repeats_contents [OF r])
  show "current_size r \<le> Capacity r" "Capacity r \<le> INT_MAX" using r by (auto simp: repeats_def Capacity_def)
  show "\<forall>i < length xs. Repeated_Get (int i) r = Some (xs ! i)" using Repeated_Get_spec [OF r] by blast
  show "Repeated_at i r = (if 0 \<le> i \<and> i < int (length xs) then Some (xs ! nat i) else None)" by (rule Repeated_at_spec [OF r])
  show "\<forall>p. rf_admissible p r \<longrightarrow> (\<exists>r'. perform_rf p r = Some r' \<and> rf_reaches r' (list_rf p xs))"
    by (blast elim: perform_rf_spec [OF r] intro: rf_step [OF assms])
  show "i' + k \<le> length xs \<longrightarrow> map_option fst (ExtractSubrange (int i') (int k) True r) = Some (take k (drop i' xs))"
    by (auto elim: ExtractSubrange_spec [OF r, where wanted = True])
qed

text \<open>Five elements added one by one, the array growing from four to eight, and the second and third taken out.\<close>

theorem repeated_field_refines_witness:
  "\<exists>r r'. perform_rf (Rf_add_iterator [10, 11, 12, 13, 14 :: int]) RepeatedField_new = Some r \<and> Capacity r = 8 \<and>
    perform_rf (Rf_extract 1 2 False) r = Some r' \<and> contents r' = [10, 13, 14]"
proof -
  let ?p = "Rf_add_iterator [10, 11, 12, 13, 14 :: int]"
  have "case perform_rf ?p RepeatedField_new of None \<Rightarrow> False | Some r \<Rightarrow> Capacity r = 8 \<and> current_size r = 5" by code_simp
  then obtain r where r: "perform_rf ?p RepeatedField_new = Some r" "Capacity r = 8" "current_size r = 5" by (auto split: option.splits)
  have 1: "rf_reaches r [10, 11, 12, 13, 14]" using rf_step [OF rf_start _ r(1)] by (simp add: RepeatedField_new_def)
  have "\<forall>p. rf_admissible p r \<longrightarrow> (\<exists>r'. perform_rf p r = Some r' \<and> rf_reaches r' (list_rf p [10, 11, 12, 13, 14]))"
    using repeated_field_refines [OF 1] by blast
  from this [rule_format, of "Rf_extract 1 2 False"] r(3)
  obtain r' where r': "perform_rf (Rf_extract 1 2 False) r = Some r'" "rf_reaches r' [10, 13, 14]" by auto
  show ?thesis using r(1,2) r'(1) repeated_field_refines [OF r'(2)] by blast
qed

end
