(* ===== verification/Zero_Copy.thy ===== *)
theory Zero_Copy
  imports Prelude "HOL-Library.Monad_Syntax"
begin

text \<open>
  The zero-copy input streams of io/zero_copy_stream_impl_lite.cc and io/zero_copy_stream_impl.cc. The abstract class
  \<open>ZeroCopyInputStream\<close> is a record of its four virtual functions over a type of states, \<open>None\<close> being
  a failed \<open>GOOGLE_CHECK\<close>. The contract the header documents is the locale \<open>zero_copy_input\<close>: a stream
  has the bytes still to come, those of the last chunk may be given back, and a chunk may be empty
  only finitely often. It is discharged for a stream over an array, for a stream limited to a
  number of bytes and for a concatenation, the last two over any stream that satisfies it.
\<close>

section \<open>The interface\<close>

text \<open>\<open>Next\<close> returns a chunk, or fails at the end of the stream.\<close>

record 's ZeroCopyInputStream =
  Next :: "'s \<Rightarrow> (byte list option \<times> 's) option"
  BackUp :: "int \<Rightarrow> 's \<Rightarrow> 's option"
  Skip :: "int \<Rightarrow> 's \<Rightarrow> (bool \<times> 's) option"
  ByteCount :: "'s \<Rightarrow> int"

section \<open>A stream over an array\<close>

record ArrayInputStream =
  array_data :: "byte list"
  array_size :: int
  block_size :: int
  position :: int
  last_returned_size :: int

definition ArrayInputStream :: "byte list \<Rightarrow> int \<Rightarrow> int \<Rightarrow> ArrayInputStream" where
  "ArrayInputStream data n block =
     \<lparr>array_data = data, array_size = n, block_size = (if block > 0 then block else n),
      position = 0, last_returned_size = 0\<rparr>"

definition ArrayInputStream_Next :: "ArrayInputStream \<Rightarrow> (byte list option \<times> ArrayInputStream) option" where
  "ArrayInputStream_Next a =
     (if position a < array_size a then
        let n = min (block_size a) (array_size a - position a) in
        Some (Some (take (nat n) (drop (nat (position a)) (array_data a))),
              a\<lparr>last_returned_size := n, position := position a + n\<rparr>)
      else Some (None, a\<lparr>last_returned_size := 0\<rparr>))"

definition ArrayInputStream_BackUp :: "int \<Rightarrow> ArrayInputStream \<Rightarrow> ArrayInputStream option" where
  "ArrayInputStream_BackUp count a =
     (if last_returned_size a > 0 \<and> count \<le> last_returned_size a \<and> count \<ge> 0 then
        Some (a\<lparr>position := position a - count, last_returned_size := 0\<rparr>)
      else None)"

definition ArrayInputStream_Skip :: "int \<Rightarrow> ArrayInputStream \<Rightarrow> (bool \<times> ArrayInputStream) option" where
  "ArrayInputStream_Skip count a =
     (if count \<ge> 0 then
        let a = a\<lparr>last_returned_size := 0\<rparr> in
        if count > array_size a - position a then Some (False, a\<lparr>position := array_size a\<rparr>)
        else Some (True, a\<lparr>position := position a + count\<rparr>)
      else None)"

definition ArrayInputStream_ByteCount :: "ArrayInputStream \<Rightarrow> int" where
  "ArrayInputStream_ByteCount a = position a"

definition array_stream :: "ArrayInputStream ZeroCopyInputStream" where
  "array_stream = \<lparr>Next = ArrayInputStream_Next, BackUp = ArrayInputStream_BackUp,
     Skip = ArrayInputStream_Skip, ByteCount = ArrayInputStream_ByteCount\<rparr>"

section \<open>A stream limited to a number of bytes\<close>

text \<open>\<open>limit\<close> decreases, and is negative by the length of the part of the last chunk that is hidden.\<close>

record 's LimitingInputStream =
  limited_input :: 's
  limit :: int
  prior_bytes_read :: int

definition LimitingInputStream :: "'s ZeroCopyInputStream \<Rightarrow> 's \<Rightarrow> int \<Rightarrow> 's LimitingInputStream" where
  "LimitingInputStream ops s n = \<lparr>limited_input = s, limit = n, prior_bytes_read = ByteCount ops s\<rparr>"

definition LimitingInputStream_Next ::
    "'s ZeroCopyInputStream \<Rightarrow> 's LimitingInputStream \<Rightarrow> (byte list option \<times> 's LimitingInputStream) option" where
  "LimitingInputStream_Next ops l =
     (if limit l \<le> 0 then Some (None, l)
      else do {
        (r, s) \<leftarrow> Next ops (limited_input l);
        case r of None \<Rightarrow> Some (None, l\<lparr>limited_input := s\<rparr>)
        | Some data \<Rightarrow>
            let l = l\<lparr>limited_input := s, limit := limit l - int (length data)\<rparr> in
            Some (Some (if limit l < 0 then take (nat (int (length data) + limit l)) data else data), l)
      })"

definition LimitingInputStream_BackUp ::
    "'s ZeroCopyInputStream \<Rightarrow> int \<Rightarrow> 's LimitingInputStream \<Rightarrow> 's LimitingInputStream option" where
  "LimitingInputStream_BackUp ops count l =
     (if limit l < 0 then do {
        s \<leftarrow> BackUp ops (count - limit l) (limited_input l);
        Some (l\<lparr>limited_input := s, limit := count\<rparr>)
      } else do {
        s \<leftarrow> BackUp ops count (limited_input l);
        Some (l\<lparr>limited_input := s, limit := limit l + count\<rparr>)
      })"

definition LimitingInputStream_Skip ::
    "'s ZeroCopyInputStream \<Rightarrow> int \<Rightarrow> 's LimitingInputStream \<Rightarrow> (bool \<times> 's LimitingInputStream) option" where
  "LimitingInputStream_Skip ops count l =
     (if count > limit l then
        if limit l < 0 then Some (False, l)
        else do {
          (b, s) \<leftarrow> Skip ops (limit l) (limited_input l);
          Some (False, l\<lparr>limited_input := s, limit := 0\<rparr>)
        }
      else do {
        (b, s) \<leftarrow> Skip ops count (limited_input l);
        if \<not> b then Some (False, l\<lparr>limited_input := s\<rparr>)
        else Some (True, l\<lparr>limited_input := s, limit := limit l - count\<rparr>)
      })"

definition LimitingInputStream_ByteCount :: "'s ZeroCopyInputStream \<Rightarrow> 's LimitingInputStream \<Rightarrow> int" where
  "LimitingInputStream_ByteCount ops l =
     (if limit l < 0 then ByteCount ops (limited_input l) + limit l - prior_bytes_read l
      else ByteCount ops (limited_input l) - prior_bytes_read l)"

text \<open>The destructor leaves the underlying stream.\<close>

definition LimitingInputStream_destroy :: "'s ZeroCopyInputStream \<Rightarrow> 's LimitingInputStream \<Rightarrow> 's option" where
  "LimitingInputStream_destroy ops l =
     (if limit l < 0 then BackUp ops (- limit l) (limited_input l) else Some (limited_input l))"

definition limiting_stream :: "'s ZeroCopyInputStream \<Rightarrow> 's LimitingInputStream ZeroCopyInputStream" where
  "limiting_stream ops = \<lparr>Next = LimitingInputStream_Next ops, BackUp = LimitingInputStream_BackUp ops,
     Skip = LimitingInputStream_Skip ops, ByteCount = LimitingInputStream_ByteCount ops\<rparr>"

section \<open>A concatenation of streams\<close>

text \<open>The streams that are left, the current one first.\<close>

record 's ConcatenatingInputStream =
  streams :: "'s list"
  bytes_retired :: int

definition ConcatenatingInputStream :: "'s list \<Rightarrow> 's ConcatenatingInputStream" where
  "ConcatenatingInputStream ss = \<lparr>streams = ss, bytes_retired = 0\<rparr>"

fun concat_next :: "'s ZeroCopyInputStream \<Rightarrow> 's list \<Rightarrow> int \<Rightarrow> (byte list option \<times> 's ConcatenatingInputStream) option" where
  "concat_next ops [] retired = Some (None, \<lparr>streams = [], bytes_retired = retired\<rparr>)"
| "concat_next ops (s # ss) retired =
     do {
       (r, s) \<leftarrow> Next ops s;
       case r of Some data \<Rightarrow> Some (Some data, \<lparr>streams = s # ss, bytes_retired = retired\<rparr>)
       | None \<Rightarrow> concat_next ops ss (retired + ByteCount ops s)
     }"

definition ConcatenatingInputStream_Next ::
    "'s ZeroCopyInputStream \<Rightarrow> 's ConcatenatingInputStream \<Rightarrow> (byte list option \<times> 's ConcatenatingInputStream) option" where
  "ConcatenatingInputStream_Next ops c = concat_next ops (streams c) (bytes_retired c)"

text \<open>With no stream left \<open>BackUp\<close> only logs an error.\<close>

definition ConcatenatingInputStream_BackUp ::
    "'s ZeroCopyInputStream \<Rightarrow> int \<Rightarrow> 's ConcatenatingInputStream \<Rightarrow> 's ConcatenatingInputStream option" where
  "ConcatenatingInputStream_BackUp ops count c =
     (case streams c of
        s # ss \<Rightarrow> do { s \<leftarrow> BackUp ops count s; Some (c\<lparr>streams := s # ss\<rparr>) }
      | [] \<Rightarrow> Some c)"

fun concat_skip :: "'s ZeroCopyInputStream \<Rightarrow> int \<Rightarrow> 's list \<Rightarrow> int \<Rightarrow> (bool \<times> 's ConcatenatingInputStream) option" where
  "concat_skip ops count [] retired = Some (False, \<lparr>streams = [], bytes_retired = retired\<rparr>)"
| "concat_skip ops count (s # ss) retired =
     do {
       let target_byte_count = ByteCount ops s + count;
       (b, s) \<leftarrow> Skip ops count s;
       if b then Some (True, \<lparr>streams = s # ss, bytes_retired = retired\<rparr>)
       else
         let final_byte_count = ByteCount ops s in
         concat_skip ops (target_byte_count - final_byte_count) ss (retired + final_byte_count)
     }"

definition ConcatenatingInputStream_Skip ::
    "'s ZeroCopyInputStream \<Rightarrow> int \<Rightarrow> 's ConcatenatingInputStream \<Rightarrow> (bool \<times> 's ConcatenatingInputStream) option" where
  "ConcatenatingInputStream_Skip ops count c = concat_skip ops count (streams c) (bytes_retired c)"

definition ConcatenatingInputStream_ByteCount :: "'s ZeroCopyInputStream \<Rightarrow> 's ConcatenatingInputStream \<Rightarrow> int" where
  "ConcatenatingInputStream_ByteCount ops c =
     (case streams c of [] \<Rightarrow> bytes_retired c | s # ss \<Rightarrow> bytes_retired c + ByteCount ops s)"

definition concatenating_stream :: "'s ZeroCopyInputStream \<Rightarrow> 's ConcatenatingInputStream ZeroCopyInputStream" where
  "concatenating_stream ops = \<lparr>Next = ConcatenatingInputStream_Next ops, BackUp = ConcatenatingInputStream_BackUp ops,
     Skip = ConcatenatingInputStream_Skip ops, ByteCount = ConcatenatingInputStream_ByteCount ops\<rparr>"

section \<open>The contract\<close>

text \<open>\<open>rest\<close> is what the stream still holds, \<open>given\<close> the end of what it returned that can be given back,
  \<open>idle\<close> bounds the number of empty chunks in a row. Skipping nothing may fail at the end.\<close>

locale zero_copy_input =
  fixes ops :: "'s ZeroCopyInputStream" and ok :: "'s \<Rightarrow> bool"
    and rest :: "'s \<Rightarrow> byte list" and given :: "'s \<Rightarrow> byte list" and idle :: "'s \<Rightarrow> nat"
  assumes next_end: "ok s \<Longrightarrow> Next ops s \<noteq> None"
    and next_none: "ok s \<Longrightarrow> Next ops s = Some (None, s') \<Longrightarrow>
      ok s' \<and> rest s = [] \<and> rest s' = [] \<and> ByteCount ops s' = ByteCount ops s"
    and next_some: "ok s \<Longrightarrow> Next ops s = Some (Some d, s') \<Longrightarrow>
      ok s' \<and> rest s = d @ rest s' \<and> (\<exists>g. given s' = g @ d) \<and> int (length d) \<le> INT_MAX \<and>
      ByteCount ops s' = ByteCount ops s + int (length d) \<and> (d = [] \<longrightarrow> idle s' < idle s)"
    and back_up: "ok s \<Longrightarrow> given s = u @ v \<Longrightarrow> given s \<noteq> [] \<Longrightarrow>
      \<exists>s'. BackUp ops (int (length v)) s = Some s' \<and> ok s' \<and> rest s' = v @ rest s \<and>
        ByteCount ops s' = ByteCount ops s - int (length v)"
    and skip: "ok s \<Longrightarrow> 0 \<le> n \<Longrightarrow>
      \<exists>b s'. Skip ops n s = Some (b, s') \<and> ok s' \<and> rest s' = drop (nat n) (rest s) \<and>
        ((b \<longleftrightarrow> n \<le> int (length (rest s))) \<or> n = 0 \<and> rest s = []) \<and>
        ByteCount ops s' = ByteCount ops s + min n (int (length (rest s)))"

begin

lemma nextE:
  assumes "ok s"
  obtains (end_of_stream) s' where "Next ops s = Some (None, s')" "ok s'" "rest s = []" "rest s' = []"
      "ByteCount ops s' = ByteCount ops s"
  | (chunk) d s' g where "Next ops s = Some (Some d, s')" "ok s'" "rest s = d @ rest s'" "given s' = g @ d"
      "int (length d) \<le> INT_MAX" "ByteCount ops s' = ByteCount ops s + int (length d)" "d = [] \<Longrightarrow> idle s' < idle s"
proof -
  obtain r s' where r: "Next ops s = Some (r, s')" using next_end [OF assms] by auto
  show thesis
  proof (cases r)
    case None
    with r next_none [OF assms, of s'] show ?thesis by (intro end_of_stream [of s']) simp_all
  next
    case (Some d)
    with r next_some [OF assms, of d s'] obtain g where "given s' = g @ d" by auto
    with Some r next_some [OF assms, of d s'] show ?thesis by (intro chunk [of d s' g]) simp_all
  qed
qed

lemma back_upE:
  assumes "ok s" "given s = u @ v" "v \<noteq> []"
  obtains s' where "BackUp ops (int (length v)) s = Some s'" "ok s'" "rest s' = v @ rest s"
    "ByteCount ops s' = ByteCount ops s - int (length v)"
  using back_up [OF assms(1,2)] assms(2,3) by auto

lemma skipE:
  assumes "ok s" "0 < n"
  obtains s' where "Skip ops n s = Some (n \<le> int (length (rest s)), s')" "ok s'" "rest s' = drop (nat n) (rest s)"
    "ByteCount ops s' = ByteCount ops s + min n (int (length (rest s)))"
proof -
  have "0 \<le> n" using assms(2) by simp
  from skip [OF assms(1) this] obtain b s' where s': "Skip ops n s = Some (b, s')" "ok s'" "rest s' = drop (nat n) (rest s)"
    "(b \<longleftrightarrow> n \<le> int (length (rest s))) \<or> n = 0 \<and> rest s = []"
    "ByteCount ops s' = ByteCount ops s + min n (int (length (rest s)))" by blast
  then have "b = (n \<le> int (length (rest s)))" using assms(2) by blast
  with s' show thesis by (intro that) simp_all
qed

end

section \<open>Draining a stream\<close>

text \<open>A client that calls \<open>Next\<close> up to \<open>k\<close> times and collects what it gets.\<close>

fun nexts :: "'s ZeroCopyInputStream \<Rightarrow> nat \<Rightarrow> 's \<Rightarrow> (byte list \<times> 's) option" where
  "nexts ops 0 s = Some ([], s)"
| "nexts ops (Suc k) s =
     do {
       (r, s) \<leftarrow> Next ops s;
       case r of None \<Rightarrow> Some ([], s)
       | Some d \<Rightarrow> do { (out, s) \<leftarrow> nexts ops k s; Some (d @ out, s) }
     }"

context zero_copy_input
begin

lemma nexts_rest:
  assumes "ok s"
  shows "\<exists>out s'. nexts ops k s = Some (out, s') \<and> ok s' \<and> rest s = out @ rest s'"
  using assms
proof (induction k arbitrary: s)
  case (Suc k)
  show ?case
  proof (rule nextE [OF Suc.prems])
    fix d s'
    assume "Next ops s = Some (Some d, s')" "ok s'" "rest s = d @ rest s'"
    with Suc.IH [of s'] show ?thesis by auto
  qed auto
qed simp

text \<open>Enough calls return everything: an empty chunk brings the idle count down, another one the rest.\<close>

lemma nexts_drain:
  assumes "ok s"
  shows "\<exists>k s'. nexts ops k s = Some (rest s, s') \<and> ok s' \<and> rest s' = []"
  using assms
proof (induction "(length (rest s), idle s)" arbitrary: s rule: wf_induct_rule [OF wf_lex_prod [OF wf_less_than wf_less_than]])
  case (1 s)
  show ?case
  proof (rule nextE [OF 1(2)])
    fix s'
    assume "Next ops s = Some (None, s')" "ok s'" "rest s = []" "rest s' = []"
    then show ?thesis by (intro exI [of _ 1]) simp
  next
    fix d s' g
    assume n: "Next ops s = Some (Some d, s')" "ok s'" "rest s = d @ rest s'" "d = [] \<Longrightarrow> idle s' < idle s"
    then have "((length (rest s'), idle s'), length (rest s), idle s) \<in> less_than <*lex*> less_than"
      by (cases "d = []") simp_all
    from 1(1) [OF this n(2)] obtain k s'' where "nexts ops k s' = Some (rest s', s'')" "ok s''" "rest s'' = []" by blast
    with n show ?thesis by (intro exI [of _ "Suc k"] exI [of _ s'']) simp
  qed
qed

end

section \<open>The array stream keeps the contract\<close>

definition array_ok :: "ArrayInputStream \<Rightarrow> bool" where
  "array_ok a \<longleftrightarrow> array_size a = int (length (array_data a)) \<and> array_size a \<le> INT_MAX \<and>
     (0 < block_size a \<or> array_size a = 0) \<and> 0 \<le> position a \<and> position a \<le> array_size a \<and>
     0 \<le> last_returned_size a \<and> last_returned_size a \<le> position a"

definition array_rest :: "ArrayInputStream \<Rightarrow> byte list" where
  "array_rest a = drop (nat (position a)) (array_data a)"

definition array_given :: "ArrayInputStream \<Rightarrow> byte list" where
  "array_given a = drop (nat (position a - last_returned_size a)) (take (nat (position a)) (array_data a))"

lemmas array_stream_defs = array_stream_def ArrayInputStream_Next_def ArrayInputStream_BackUp_def
  ArrayInputStream_Skip_def ArrayInputStream_ByteCount_def

lemma array_okE:
  assumes "array_ok a"
  obtains p l where "position a = int p" "last_returned_size a = int l" "l \<le> p" "p \<le> length (array_data a)"
    "array_size a = int (length (array_data a))" "int (length (array_data a)) \<le> INT_MAX"
    "array_rest a = drop p (array_data a)" "array_given a = drop (p - l) (take p (array_data a))"
    "array_data a = [] \<or> 0 < block_size a"
  using assms by (intro that [of "nat (position a)" "nat (last_returned_size a)"])
    (auto simp: array_ok_def array_rest_def array_given_def nat_diff_distrib)

lemma take_drop_split: "take n (drop p xs) @ drop (p + n) xs = drop p xs"
  by (metis append_take_drop_id drop_drop add.commute)

lemma array_next:
  assumes "array_ok a" "Next array_stream a = Some (r, a')"
  shows "case r of None \<Rightarrow> array_ok a' \<and> array_rest a = [] \<and> array_rest a' = [] \<and> position a' = position a
    | Some d \<Rightarrow> array_ok a' \<and> array_rest a = d @ array_rest a' \<and> array_given a' = d \<and>
        int (length d) \<le> INT_MAX \<and> position a' = position a + int (length d) \<and> d \<noteq> []"
proof -
  obtain p l where a: "position a = int p" "last_returned_size a = int l" "l \<le> p" "p \<le> length (array_data a)"
    "array_size a = int (length (array_data a))" "int (length (array_data a)) \<le> INT_MAX"
    "array_rest a = drop p (array_data a)" "array_data a = [] \<or> 0 < block_size a"
    by (rule array_okE [OF assms(1)])
  show ?thesis
  proof (cases "p < length (array_data a)")
    case False
    with assms(2) a show ?thesis
      by (auto simp: array_stream_defs array_ok_def array_rest_def)
  next
    case True
    define n where "n = nat (min (block_size a) (int (length (array_data a)) - int p))"
    have n: "int n = min (block_size a) (int (length (array_data a)) - int p)" "0 < n" "p + n \<le> length (array_data a)"
      using True a(8) by (auto simp: n_def)
    have r: "r = Some (take n (drop p (array_data a)))"
      "a' = a\<lparr>last_returned_size := int n, position := int p + int n\<rparr>"
      using assms(2) True by (simp_all add: array_stream_defs a Let_def n(1) [symmetric])
    have "array_rest a = take n (drop p (array_data a)) @ array_rest a'"
      using take_drop_split [of n p "array_data a"] by (simp add: r array_rest_def a nat_add_distrib)
    moreover have "array_given a' = take n (drop p (array_data a))"
      by (simp add: r array_given_def nat_add_distrib drop_take)
    moreover have "0 < block_size a" using True a(8) by auto
    then have "array_ok a'" using a n by (simp add: r array_ok_def)
    ultimately show ?thesis using n a True by (simp add: r)
  qed
qed

lemma array_back_up:
  assumes "array_ok a" "array_given a = u @ v" "array_given a \<noteq> []"
  shows "\<exists>a'. BackUp array_stream (int (length v)) a = Some a' \<and> array_ok a' \<and> array_rest a' = v @ array_rest a \<and>
    position a' = position a - int (length v)"
proof -
  obtain p l where a: "position a = int p" "last_returned_size a = int l" "l \<le> p" "p \<le> length (array_data a)"
    "array_size a = int (length (array_data a))" "int (length (array_data a)) \<le> INT_MAX"
    "array_rest a = drop p (array_data a)" "array_given a = drop (p - l) (take p (array_data a))"
    "array_data a = [] \<or> 0 < block_size a"
    by (rule array_okE [OF assms(1)])
  let ?d = "array_data a"
  have len: "length u + length v = l"
    using a(3,4,8) assms(2) by (metis length_append length_drop length_take min_absorb2 diff_diff_cancel)
  with assms(2,3) have "0 < l" by auto
  have "take p ?d = take (p - l) ?d @ u @ v"
    using append_take_drop_id [of "p - l" "take p ?d"] a(8) assms(2) by (simp add: min_def)
  then have "?d = (take (p - l) ?d @ u) @ v @ drop p ?d" using append_take_drop_id [of p ?d] by simp
  moreover have "length (take (p - l) ?d @ u) = p - length v" using len a(3,4) by simp
  ultimately have "drop (p - length v) ?d = v @ drop p ?d" by (metis append_eq_conv_conj)
  moreover have "nat (int p - int (length v)) = p - length v" using len a(3) by simp
  ultimately show ?thesis
    using a len \<open>0 < l\<close> assms(1) by (simp add: array_stream_defs array_rest_def array_ok_def)
qed

lemma array_skip:
  assumes "array_ok a" "0 \<le> n"
  shows "\<exists>a'. Skip array_stream n a = Some (n \<le> int (length (array_rest a)), a') \<and> array_ok a' \<and>
    array_rest a' = drop (nat n) (array_rest a) \<and> position a' = position a + min n (int (length (array_rest a)))"
proof -
  obtain p l where a: "position a = int p" "last_returned_size a = int l" "l \<le> p" "p \<le> length (array_data a)"
    "array_size a = int (length (array_data a))" "int (length (array_data a)) \<le> INT_MAX"
    "array_rest a = drop p (array_data a)" "array_data a = [] \<or> 0 < block_size a"
    by (rule array_okE [OF assms(1)])
  show ?thesis
  proof (cases "n > int (length (array_data a)) - int p")
    case True
    with a assms show ?thesis by (auto simp: array_stream_defs array_rest_def array_ok_def Let_def)
  next
    case False
    with a assms show ?thesis
      by (auto simp: array_stream_defs array_rest_def array_ok_def Let_def nat_add_distrib add.commute)
  qed
qed

interpretation array_input: zero_copy_input array_stream array_ok array_rest array_given "\<lambda>_. 0"
proof
  fix a
  show "Next array_stream a \<noteq> None" by (simp add: array_stream_defs Let_def)
next
  fix a a'
  assume "array_ok a" "Next array_stream a = Some (None, a')"
  from array_next [OF this] show "array_ok a' \<and> array_rest a = [] \<and> array_rest a' = [] \<and>
    ByteCount array_stream a' = ByteCount array_stream a" by (simp add: array_stream_defs)
next
  fix a d a'
  assume "array_ok a" "Next array_stream a = Some (Some d, a')"
  from array_next [OF this] show "array_ok a' \<and> array_rest a = d @ array_rest a' \<and> (\<exists>g. array_given a' = g @ d) \<and>
    int (length d) \<le> INT_MAX \<and> ByteCount array_stream a' = ByteCount array_stream a + int (length d) \<and> (d = [] \<longrightarrow> (0 :: nat) < 0)"
    by (auto simp: array_stream_defs)
next
  fix a u v
  assume "array_ok a" "array_given a = u @ v" "array_given a \<noteq> []"
  from array_back_up [OF this] show "\<exists>a'. BackUp array_stream (int (length v)) a = Some a' \<and> array_ok a' \<and>
    array_rest a' = v @ array_rest a \<and> ByteCount array_stream a' = ByteCount array_stream a - int (length v)"
    by (simp add: array_stream_def ArrayInputStream_ByteCount_def)
next
  fix a n
  assume "array_ok a" "(0 :: int) \<le> n"
  from array_skip [OF this] show "\<exists>b a'. Skip array_stream n a = Some (b, a') \<and> array_ok a' \<and>
    array_rest a' = drop (nat n) (array_rest a) \<and>
    ((b \<longleftrightarrow> n \<le> int (length (array_rest a))) \<or> n = 0 \<and> array_rest a = []) \<and>
    ByteCount array_stream a' = ByteCount array_stream a + min n (int (length (array_rest a)))"
    by (auto simp: array_stream_def ArrayInputStream_ByteCount_def)
qed

section \<open>A limited stream keeps the contract\<close>

text \<open>What the limit hides of the last chunk is not part of what can be given back.\<close>

definition limiting_rest :: "('s \<Rightarrow> byte list) \<Rightarrow> 's LimitingInputStream \<Rightarrow> byte list" where
  "limiting_rest rest l = take (nat (limit l)) (rest (limited_input l))"

definition limiting_given :: "('s \<Rightarrow> byte list) \<Rightarrow> 's LimitingInputStream \<Rightarrow> byte list" where
  "limiting_given given l = (let g = given (limited_input l) in take (length g - nat (- limit l)) g)"

definition limiting_ok :: "('s \<Rightarrow> bool) \<Rightarrow> ('s \<Rightarrow> byte list) \<Rightarrow> 's LimitingInputStream \<Rightarrow> bool" where
  "limiting_ok ok given l \<longleftrightarrow> ok (limited_input l) \<and> - limit l \<le> int (length (given (limited_input l)))"

lemmas limiting_stream_defs = limiting_stream_def LimitingInputStream_Next_def LimitingInputStream_BackUp_def
  LimitingInputStream_Skip_def LimitingInputStream_ByteCount_def

context zero_copy_input
begin

abbreviation "l_ok \<equiv> limiting_ok ok given"
abbreviation "l_rest \<equiv> limiting_rest rest"
abbreviation "l_given \<equiv> limiting_given given"

lemma limiting_next:
  assumes "l_ok l"
  obtains (end_of_stream) l' where "Next (limiting_stream ops) l = Some (None, l')" "l_ok l'" "l_rest l = []" "l_rest l' = []"
      "ByteCount (limiting_stream ops) l' = ByteCount (limiting_stream ops) l"
  | (chunk) d l' where "Next (limiting_stream ops) l = Some (Some d, l')" "l_ok l'" "l_rest l = d @ l_rest l'" "\<exists>g. l_given l' = g @ d"
      "int (length d) \<le> INT_MAX"
      "ByteCount (limiting_stream ops) l' = ByteCount (limiting_stream ops) l + int (length d)"
      "d = [] \<Longrightarrow> idle (limited_input l') < idle (limited_input l)"
proof -
  have ok: "ok (limited_input l)" using assms by (simp add: limiting_ok_def)
  show thesis
  proof (cases "limit l \<le> 0")
    case True
    with assms show ?thesis
      by (intro end_of_stream [of l]) (simp_all add: limiting_stream_defs limiting_rest_def)
  next
    case False
    show ?thesis
    proof (rule nextE [OF ok])
      fix s'
      assume n: "Next ops (limited_input l) = Some (None, s')" "ok s'" "rest (limited_input l) = []" "rest s' = []"
        "ByteCount ops s' = ByteCount ops (limited_input l)"
      with False show ?thesis
        by (intro end_of_stream [of "l\<lparr>limited_input := s'\<rparr>"])
          (simp_all add: limiting_stream_defs limiting_rest_def limiting_ok_def)
    next
      fix d s' g
      assume n: "Next ops (limited_input l) = Some (Some d, s')" "ok s'" "rest (limited_input l) = d @ rest s'" "given s' = g @ d"
        "int (length d) \<le> INT_MAX" "ByteCount ops s' = ByteCount ops (limited_input l) + int (length d)"
        "d = [] \<Longrightarrow> idle s' < idle (limited_input l)"
      define l' where "l' = l\<lparr>limited_input := s', limit := limit l - int (length d)\<rparr>"
      show ?thesis
      proof (cases "limit l < int (length d)")
        case True
        have "length d - nat (int (length d) - limit l) = nat (limit l)" using True False by simp
        with True False n show ?thesis
          by (intro chunk [of "take (nat (limit l)) d" l'])
            (auto simp: limiting_stream_defs limiting_rest_def limiting_ok_def limiting_given_def l'_def Let_def)
      next
        case b: False
        with False n show ?thesis
          by (intro chunk [of d l'])
            (auto simp: limiting_stream_defs limiting_rest_def limiting_ok_def limiting_given_def l'_def Let_def nat_diff_distrib)
      qed
    qed
  qed
qed

lemma limiting_back_up:
  assumes "l_ok l" "l_given l = u @ v" "l_given l \<noteq> []"
  shows "\<exists>l'. BackUp (limiting_stream ops) (int (length v)) l = Some l' \<and> l_ok l' \<and> l_rest l' = v @ l_rest l \<and>
    ByteCount (limiting_stream ops) l' = ByteCount (limiting_stream ops) l - int (length v)"
proof -
  let ?g = "given (limited_input l)"
  have ok: "ok (limited_input l)" "- limit l \<le> int (length ?g)" using assms(1) by (simp_all add: limiting_ok_def)
  have g: "?g \<noteq> []" using assms(3) by (auto simp: limiting_given_def)
  define h where "h = drop (length ?g - nat (- limit l)) ?g"
  have "?g = l_given l @ h" by (simp add: limiting_given_def h_def Let_def)
  with assms(2) have split: "?g = u @ (v @ h)" by simp
  show ?thesis
  proof (cases "limit l < 0")
    case True
    with ok have h: "int (length h) = - limit l" by (simp add: h_def)
    from back_up [OF ok(1) split g] obtain s' where s': "BackUp ops (int (length v) - limit l) (limited_input l) = Some s'" "ok s'"
      "rest s' = v @ h @ rest (limited_input l)" "ByteCount ops s' = ByteCount ops (limited_input l) - int (length v) + limit l"
      using h by (auto simp: algebra_simps)
    with True show ?thesis by (simp add: limiting_stream_defs limiting_ok_def limiting_rest_def)
  next
    case False
    then have "h = []" by (simp add: h_def)
    with back_up [OF ok(1) split g] obtain s' where s': "BackUp ops (int (length v)) (limited_input l) = Some s'" "ok s'"
      "rest s' = v @ rest (limited_input l)" "ByteCount ops s' = ByteCount ops (limited_input l) - int (length v)" by auto
    with False show ?thesis by (simp add: limiting_stream_defs limiting_ok_def limiting_rest_def nat_add_distrib)
  qed
qed

lemma limiting_skip:
  assumes "l_ok l" "0 \<le> n"
  shows "\<exists>b l'. Skip (limiting_stream ops) n l = Some (b, l') \<and> l_ok l' \<and> l_rest l' = drop (nat n) (l_rest l) \<and>
    ((b \<longleftrightarrow> n \<le> int (length (l_rest l))) \<or> n = 0 \<and> l_rest l = []) \<and>
    ByteCount (limiting_stream ops) l' = ByteCount (limiting_stream ops) l + min n (int (length (l_rest l)))"
proof -
  let ?s = "limited_input l"
  have ok: "ok ?s" using assms(1) by (simp add: limiting_ok_def)
  consider "limit l < 0" | "0 \<le> limit l" "limit l < n" | "n \<le> limit l" by linarith
  then show ?thesis
  proof cases
    case 1
    with assms show ?thesis by (auto simp: limiting_stream_defs limiting_rest_def)
  next
    case 2
    from skip [OF ok 2(1)] obtain b s' where "Skip ops (limit l) ?s = Some (b, s')" "ok s'"
      "ByteCount ops s' = ByteCount ops ?s + min (limit l) (int (length (rest ?s)))" by blast
    with 2 show ?thesis by (auto simp: limiting_stream_defs limiting_rest_def limiting_ok_def min_def)
  next
    case 3
    with assms(2) have lim: "0 \<le> limit l" by simp
    from skip [OF ok assms(2)] obtain b s' where s': "Skip ops n ?s = Some (b, s')" "ok s'" "rest s' = drop (nat n) (rest ?s)"
      "(b \<longleftrightarrow> n \<le> int (length (rest ?s))) \<or> n = 0 \<and> rest ?s = []"
      "ByteCount ops s' = ByteCount ops ?s + min n (int (length (rest ?s)))" by blast
    have len: "min n (int (length (l_rest l))) = min n (int (length (rest ?s)))"
      "n \<le> int (length (l_rest l)) \<longleftrightarrow> n \<le> int (length (rest ?s))"
      using 3 lim by (auto simp: limiting_rest_def)
    show ?thesis
    proof (cases b)
      case True
      with s' 3 lim assms(2) len show ?thesis
        by (auto simp: limiting_stream_defs limiting_rest_def limiting_ok_def drop_take nat_diff_distrib)
    next
      case False
      with s'(4) have "int (length (rest ?s)) < n \<or> n = 0 \<and> rest ?s = []" by auto
      then have "length (rest ?s) \<le> nat n" by auto
      with False s' 3 lim assms(2) len show ?thesis
        by (auto simp: limiting_stream_defs limiting_rest_def limiting_ok_def)
    qed
  qed
qed

text \<open>What the underlying stream still holds, with what the limit hides of the last chunk.\<close>

definition l_left :: "'s LimitingInputStream \<Rightarrow> byte list" where
  "l_left l = drop (length (given (limited_input l)) - nat (- limit l)) (given (limited_input l)) @ rest (limited_input l)"

lemma limiting_next_left:
  assumes "l_ok l" "Next (limiting_stream ops) l = Some (r, l')"
  shows "l_left l = (case r of None \<Rightarrow> [] | Some d \<Rightarrow> d) @ l_left l'"
proof (cases "limit l \<le> 0")
  case True
  with assms(2) show ?thesis by (auto simp: limiting_stream_def LimitingInputStream_Next_def)
next
  case False
  have ok: "ok (limited_input l)" using assms(1) by (simp add: limiting_ok_def)
  show ?thesis
  proof (rule nextE [OF ok])
    fix s'
    assume "Next ops (limited_input l) = Some (None, s')" "rest (limited_input l) = []" "rest s' = []"
    moreover from this False assms(2) have "r = None" "l' = l\<lparr>limited_input := s'\<rparr>"
      by (simp_all add: limiting_stream_def LimitingInputStream_Next_def)
    ultimately show ?thesis using False by (simp add: l_left_def)
  next
    fix d s' g
    assume n: "Next ops (limited_input l) = Some (Some d, s')" "rest (limited_input l) = d @ rest s'" "given s' = g @ d"
    define k where "k = limit l - int (length d)"
    have r: "r = Some (if k < 0 then take (nat (int (length d) + k)) d else d)" "l' = l\<lparr>limited_input := s', limit := k\<rparr>"
      using n(1) False assms(2) by (auto simp: limiting_stream_def LimitingInputStream_Next_def Let_def k_def)
    have "l_left l = d @ rest s'" using False n(2) by (simp add: l_left_def)
    moreover have "l_left l' = drop (length d - nat (- k)) d @ rest s'" using n(3) r(2) False by (simp add: l_left_def k_def)
    moreover have "k < 0 \<Longrightarrow> length d - nat (- k) = nat (int (length d) + k)" using False by (simp add: k_def)
    ultimately show ?thesis using r(1) by simp
  qed
qed

lemma limiting_destroy:
  assumes "l_ok l"
  shows "\<exists>s. LimitingInputStream_destroy ops l = Some s \<and> ok s \<and> rest s = l_left l"
proof -
  let ?g = "given (limited_input l)"
  have ok: "ok (limited_input l)" "- limit l \<le> int (length ?g)" using assms by (simp_all add: limiting_ok_def)
  show ?thesis
  proof (cases "limit l < 0")
    case True
    let ?v = "drop (length ?g - nat (- limit l)) ?g"
    have v: "int (length ?v) = - limit l" using ok(2) True by simp
    then have "?v \<noteq> []" using True by auto
    from back_upE [OF ok(1) append_take_drop_id [symmetric] this] obtain s' where
      "BackUp ops (int (length ?v)) (limited_input l) = Some s'" "ok s'" "rest s' = ?v @ rest (limited_input l)" by blast
    with True v show ?thesis by (simp add: LimitingInputStream_destroy_def l_left_def)
  next
    case False
    with ok show ?thesis by (simp add: LimitingInputStream_destroy_def l_left_def)
  qed
qed

lemma limiting_nexts:
  assumes "l_ok l"
  shows "\<exists>out l'. nexts (limiting_stream ops) k l = Some (out, l') \<and> l_ok l' \<and> l_rest l = out @ l_rest l' \<and> l_left l = out @ l_left l'"
  using assms
proof (induction k arbitrary: l)
  case (Suc k)
  show ?case
  proof (rule limiting_next [OF Suc.prems])
    fix l'
    assume n: "Next (limiting_stream ops) l = Some (None, l')" "l_ok l'" "l_rest l = []" "l_rest l' = []"
    with limiting_next_left [OF Suc.prems n(1)] show ?thesis by simp
  next
    fix d l'
    assume n: "Next (limiting_stream ops) l = Some (Some d, l')" "l_ok l'" "l_rest l = d @ l_rest l'"
    from Suc.IH [OF n(2)] limiting_next_left [OF Suc.prems n(1)] n show ?thesis by auto
  qed
qed simp

lemma limiting_contract: "zero_copy_input (limiting_stream ops) l_ok l_rest l_given (\<lambda>l. idle (limited_input l))"
proof
  fix l
  assume "l_ok l"
  then show "Next (limiting_stream ops) l \<noteq> None" by (rule limiting_next) simp_all
next
  fix l l'
  assume ok: "l_ok l" and n: "Next (limiting_stream ops) l = Some (None, l')"
  show "l_ok l' \<and> l_rest l = [] \<and> l_rest l' = [] \<and>
    ByteCount (limiting_stream ops) l' = ByteCount (limiting_stream ops) l"
    by (rule limiting_next [OF ok]) (use n in simp_all)
next
  fix l d l'
  assume ok: "l_ok l" and n: "Next (limiting_stream ops) l = Some (Some d, l')"
  show "l_ok l' \<and> l_rest l = d @ l_rest l' \<and> (\<exists>g. l_given l' = g @ d) \<and> int (length d) \<le> INT_MAX \<and>
    ByteCount (limiting_stream ops) l' = ByteCount (limiting_stream ops) l + int (length d) \<and>
    (d = [] \<longrightarrow> idle (limited_input l') < idle (limited_input l))"
    by (rule limiting_next [OF ok]) (use n in simp_all)
qed (fact limiting_back_up limiting_skip)+

end

interpretation limited_array: zero_copy_input "limiting_stream array_stream" "limiting_ok array_ok array_given"
    "limiting_rest array_rest" "limiting_given array_given" "\<lambda>_. 0"
  by (rule array_input.limiting_contract)

section \<open>A concatenation keeps the contract\<close>

text \<open>Provided that nothing was read from the streams behind the current one: their \<open>ByteCount\<close> is
  added as it is.\<close>

definition concat_rest :: "('s \<Rightarrow> byte list) \<Rightarrow> 's ConcatenatingInputStream \<Rightarrow> byte list" where
  "concat_rest rest c = concat (map rest (streams c))"

definition concat_given :: "('s \<Rightarrow> byte list) \<Rightarrow> 's ConcatenatingInputStream \<Rightarrow> byte list" where
  "concat_given given c = (case streams c of [] \<Rightarrow> [] | s # ss \<Rightarrow> given s)"

definition concat_ok :: "'s ZeroCopyInputStream \<Rightarrow> ('s \<Rightarrow> bool) \<Rightarrow> 's ConcatenatingInputStream \<Rightarrow> bool" where
  "concat_ok ops ok c \<longleftrightarrow> list_all ok (streams c) \<and> list_all (\<lambda>s. ByteCount ops s = 0) (tl (streams c))"

definition concat_idle :: "('s \<Rightarrow> nat) \<Rightarrow> 's ConcatenatingInputStream \<Rightarrow> nat" where
  "concat_idle idle c = sum_list (map idle (streams c))"

lemmas concatenating_stream_defs = concatenating_stream_def ConcatenatingInputStream_Next_def
  ConcatenatingInputStream_BackUp_def ConcatenatingInputStream_Skip_def ConcatenatingInputStream_ByteCount_def

lemma concat_eta: "\<lparr>streams = streams c, bytes_retired = bytes_retired c\<rparr> = c"
  by simp

lemmas concat_defs = concat_rest_def concat_given_def concat_ok_def concat_idle_def

context zero_copy_input
begin

abbreviation "c_ok \<equiv> concat_ok ops ok"
abbreviation "c_rest \<equiv> concat_rest rest"
abbreviation "c_given \<equiv> concat_given given"
abbreviation "c_idle \<equiv> concat_idle idle"
abbreviation "c_count \<equiv> ConcatenatingInputStream_ByteCount ops"

lemma retire_count:
  "c_ok \<lparr>streams = s # ss, bytes_retired = n\<rparr> \<Longrightarrow>
    c_ok \<lparr>streams = ss, bytes_retired = m\<rparr> \<and> c_count \<lparr>streams = ss, bytes_retired = m\<rparr> = m"
  by (cases ss) (simp_all add: concat_defs ConcatenatingInputStream_ByteCount_def)

lemma concat_next_spec:
  assumes "c_ok \<lparr>streams = ss, bytes_retired = retired\<rparr>"
  shows "\<exists>r c'. concat_next ops ss retired = Some (r, c') \<and> c_ok c' \<and>
    (case r of None \<Rightarrow> concat (map rest ss) = [] \<and> c_rest c' = [] \<and>
        c_count c' = c_count \<lparr>streams = ss, bytes_retired = retired\<rparr>
     | Some d \<Rightarrow> concat (map rest ss) = d @ c_rest c' \<and> (\<exists>g. c_given c' = g @ d) \<and> int (length d) \<le> INT_MAX \<and>
        c_count c' = c_count \<lparr>streams = ss, bytes_retired = retired\<rparr> + int (length d) \<and>
        (d = [] \<longrightarrow> c_idle c' < sum_list (map idle ss)))"
  using assms
proof (induction ss arbitrary: retired)
  case Nil
  show ?case by (simp add: concat_defs ConcatenatingInputStream_ByteCount_def)
next
  case (Cons s ss)
  then have ok: "ok s" by (simp add: concat_ok_def)
  show ?case
  proof (rule nextE [OF ok])
    fix d s' g
    assume "Next ops s = Some (Some d, s')" "ok s'" "rest s = d @ rest s'" "given s' = g @ d"
      "int (length d) \<le> INT_MAX" "ByteCount ops s' = ByteCount ops s + int (length d)" "d = [] \<Longrightarrow> idle s' < idle s"
    with Cons.prems show ?thesis by (simp add: concat_defs ConcatenatingInputStream_ByteCount_def)
  next
    fix s'
    assume n: "Next ops s = Some (None, s')" "ok s'" "rest s = []" "rest s' = []" "ByteCount ops s' = ByteCount ops s"
    let ?m = "retired + ByteCount ops s"
    have later: "c_ok \<lparr>streams = ss, bytes_retired = ?m\<rparr>"
      "c_count \<lparr>streams = ss, bytes_retired = ?m\<rparr> = c_count \<lparr>streams = s # ss, bytes_retired = retired\<rparr>"
      using retire_count [OF Cons.prems, of ?m] by (simp_all add: ConcatenatingInputStream_ByteCount_def)
    from Cons.IH [OF later(1)] obtain r c' where c': "concat_next ops ss ?m = Some (r, c')" "c_ok c'"
      "case r of None \<Rightarrow> concat (map rest ss) = [] \<and> c_rest c' = [] \<and> c_count c' = c_count \<lparr>streams = ss, bytes_retired = ?m\<rparr>
        | Some d \<Rightarrow> concat (map rest ss) = d @ c_rest c' \<and> (\<exists>g. c_given c' = g @ d) \<and> int (length d) \<le> INT_MAX \<and>
          c_count c' = c_count \<lparr>streams = ss, bytes_retired = ?m\<rparr> + int (length d) \<and>
          (d = [] \<longrightarrow> c_idle c' < sum_list (map idle ss))" by blast
    then show ?thesis using n later(2) by (cases r) (auto simp: trans_less_add2)
  qed
qed

lemma concat_skip_spec:
  assumes "c_ok \<lparr>streams = ss, bytes_retired = retired\<rparr>" "0 \<le> n"
  shows "\<exists>b c'. concat_skip ops n ss retired = Some (b, c') \<and> c_ok c' \<and> c_rest c' = drop (nat n) (concat (map rest ss)) \<and>
    ((b \<longleftrightarrow> n \<le> int (length (concat (map rest ss)))) \<or> n = 0 \<and> concat (map rest ss) = []) \<and>
    c_count c' = c_count \<lparr>streams = ss, bytes_retired = retired\<rparr> + min n (int (length (concat (map rest ss))))"
  using assms
proof (induction ss arbitrary: retired n)
  case Nil
  then show ?case by (auto simp: concat_defs ConcatenatingInputStream_ByteCount_def)
next
  case (Cons s ss)
  then have ok: "ok s" by (simp add: concat_ok_def)
  from skip [OF ok Cons.prems(2)] obtain b s' where s': "Skip ops n s = Some (b, s')" "ok s'" "rest s' = drop (nat n) (rest s)"
    "(b \<longleftrightarrow> n \<le> int (length (rest s))) \<or> n = 0 \<and> rest s = []"
    "ByteCount ops s' = ByteCount ops s + min n (int (length (rest s)))" by blast
  show ?case
  proof (cases b)
    case True
    then have "n \<le> int (length (rest s))" using s'(4) Cons.prems(2) by auto
    with True s' Cons.prems show ?thesis by (auto simp: concat_defs ConcatenatingInputStream_ByteCount_def)
  next
    case False
    then have short: "int (length (rest s)) \<le> n" using s'(4) Cons.prems(2) by auto
    let ?m = "retired + ByteCount ops s'" and ?n = "n - int (length (rest s))"
    have count: "ByteCount ops s' = ByteCount ops s + int (length (rest s))" using s'(5) short by simp
    then have left: "ByteCount ops s + n - ByteCount ops s' = ?n" by simp
    note later = retire_count [OF Cons.prems(1), of ?m]
    from Cons.IH [of ?m ?n] later short obtain b' c' where c': "concat_skip ops ?n ss ?m = Some (b', c')" "c_ok c'"
      "c_rest c' = drop (nat ?n) (concat (map rest ss))"
      "(b' \<longleftrightarrow> ?n \<le> int (length (concat (map rest ss)))) \<or> ?n = 0 \<and> concat (map rest ss) = []"
      "c_count c' = ?m + min ?n (int (length (concat (map rest ss))))" by auto
    have step: "concat_skip ops n (s # ss) retired = Some (b', c')"
      using s'(1) False c'(1) by (simp add: Let_def left)
    have "nat ?n = nat n - length (rest s)" by simp
    then have "c_rest c' = drop (nat n) (concat (map rest (s # ss)))"
      using c'(3) short by simp
    moreover have "c_count c' = c_count \<lparr>streams = s # ss, bytes_retired = retired\<rparr> + min n (int (length (concat (map rest (s # ss)))))"
      using c'(5) count by (simp add: ConcatenatingInputStream_ByteCount_def min_def)
    moreover have "(b' \<longleftrightarrow> n \<le> int (length (concat (map rest (s # ss))))) \<or> n = 0 \<and> concat (map rest (s # ss)) = []"
    proof (cases "?n = 0 \<and> concat (map rest ss) = []")
      case True
      with \<open>\<not> b\<close> s'(4) have "n = 0 \<and> rest s = []" by auto
      with True show ?thesis by simp
    next
      case False
      with c'(4) show ?thesis by auto
    qed
    ultimately show ?thesis using step c'(2) by blast
  qed
qed

lemma concat_back_up:
  assumes "c_ok c" "c_given c = u @ v" "c_given c \<noteq> []"
  shows "\<exists>c'. BackUp (concatenating_stream ops) (int (length v)) c = Some c' \<and> c_ok c' \<and> c_rest c' = v @ c_rest c \<and>
    c_count c' = c_count c - int (length v)"
proof -
  obtain s ss where c: "streams c = s # ss" using assms(3) by (cases "streams c") (simp_all add: concat_given_def)
  with assms have "ok s" "given s = u @ v" "given s \<noteq> []" by (simp_all add: concat_defs)
  from back_up [OF this] c assms(1) show ?thesis
    by (auto simp: concatenating_stream_defs concat_defs)
qed

lemma concatenating_contract: "zero_copy_input (concatenating_stream ops) c_ok c_rest c_given c_idle"
proof
  fix c
  assume ok: "c_ok c"
  note spec = concat_next_spec [of "streams c" "bytes_retired c", unfolded concat_eta, OF ok]
  show "Next (concatenating_stream ops) c \<noteq> None"
    using spec by (auto simp: concatenating_stream_def ConcatenatingInputStream_Next_def)
  fix c'
  assume "Next (concatenating_stream ops) c = Some (None, c')"
  with spec show "c_ok c' \<and> c_rest c = [] \<and> c_rest c' = [] \<and>
    ByteCount (concatenating_stream ops) c' = ByteCount (concatenating_stream ops) c"
    by (auto simp: concatenating_stream_def ConcatenatingInputStream_Next_def concat_rest_def)
next
  fix c d c'
  assume ok: "c_ok c" and n: "Next (concatenating_stream ops) c = Some (Some d, c')"
  with concat_next_spec [of "streams c" "bytes_retired c", unfolded concat_eta]
  show "c_ok c' \<and> c_rest c = d @ c_rest c' \<and> (\<exists>g. c_given c' = g @ d) \<and> int (length d) \<le> INT_MAX \<and>
    ByteCount (concatenating_stream ops) c' = ByteCount (concatenating_stream ops) c + int (length d) \<and>
    (d = [] \<longrightarrow> c_idle c' < c_idle c)"
    by (auto simp: concatenating_stream_def ConcatenatingInputStream_Next_def concat_rest_def concat_idle_def)
next
  fix c u v
  assume "c_ok c" "c_given c = u @ v" "c_given c \<noteq> []"
  from concat_back_up [OF this] show "\<exists>c'. BackUp (concatenating_stream ops) (int (length v)) c = Some c' \<and> c_ok c' \<and>
    c_rest c' = v @ c_rest c \<and> ByteCount (concatenating_stream ops) c' = ByteCount (concatenating_stream ops) c - int (length v)"
    by (simp add: concatenating_stream_def)
next
  fix c n
  assume ok: "c_ok c" and n: "(0 :: int) \<le> n"
  with concat_skip_spec [of "streams c" "bytes_retired c" n, unfolded concat_eta]
  show "\<exists>b c'. Skip (concatenating_stream ops) n c = Some (b, c') \<and> c_ok c' \<and> c_rest c' = drop (nat n) (c_rest c) \<and>
    ((b \<longleftrightarrow> n \<le> int (length (c_rest c))) \<or> n = 0 \<and> c_rest c = []) \<and>
    ByteCount (concatenating_stream ops) c' = ByteCount (concatenating_stream ops) c + min n (int (length (c_rest c)))"
    by (simp add: concatenating_stream_def ConcatenatingInputStream_Skip_def concat_rest_def)
qed

end

interpretation concatenated_arrays: zero_copy_input "concatenating_stream array_stream" "concat_ok array_stream array_ok"
    "concat_rest array_rest" "concat_given array_given" "concat_idle (\<lambda>_. 0)"
  by (rule array_input.concatenating_contract)

text \<open>A limit over a concatenation of limited arrays, by the three steps above.\<close>

interpretation nested_streams: zero_copy_input "limiting_stream (concatenating_stream (limiting_stream array_stream))"
    "limiting_ok (concat_ok (limiting_stream array_stream) (limiting_ok array_ok array_given)) (concat_given (limiting_given array_given))"
    "limiting_rest (concat_rest (limiting_rest array_rest))" "limiting_given (concat_given (limiting_given array_given))"
    "\<lambda>l. concat_idle (\<lambda>_. 0) (limited_input l)"
  by (rule zero_copy_input.limiting_contract [OF limited_array.concatenating_contract])

section \<open>Properties\<close>

text \<open>C38. A stream limited to \<open>n\<close> bytes returns a prefix of the next \<open>n\<close> bytes of the stream below it, and after
  any number of calls its destructor leaves that stream exactly behind what was returned.\<close>

theorem LimitingInputStream_correct:
  assumes "zero_copy_input ops ok rest given idle" "ok s" "0 \<le> n"
  shows "\<exists>out l s'. nexts (limiting_stream ops) k (LimitingInputStream ops s n) = Some (out, l) \<and>
    out @ limiting_rest rest l = take (nat n) (rest s) \<and>
    LimitingInputStream_destroy ops l = Some s' \<and> ok s' \<and> rest s' = drop (length out) (rest s)"
proof -
  let ?l = "LimitingInputStream ops s n"
  have ok: "limiting_ok ok given ?l" using assms(2,3) by (simp add: limiting_ok_def LimitingInputStream_def)
  have left: "zero_copy_input.l_left rest given ?l = rest s"
    using assms(3) by (simp add: zero_copy_input.l_left_def [OF assms(1)] LimitingInputStream_def)
  from zero_copy_input.limiting_nexts [OF assms(1) ok, of k] obtain out l where l:
    "nexts (limiting_stream ops) k ?l = Some (out, l)" "limiting_ok ok given l" "limiting_rest rest ?l = out @ limiting_rest rest l"
    "rest s = out @ zero_copy_input.l_left rest given l" unfolding left by blast
  from zero_copy_input.limiting_destroy [OF assms(1) l(2)] obtain s' where
    "LimitingInputStream_destroy ops l = Some s'" "ok s'" "rest s' = zero_copy_input.l_left rest given l" by blast
  moreover have "limiting_rest rest ?l = take (nat n) (rest s)" by (simp add: limiting_rest_def LimitingInputStream_def)
  ultimately show ?thesis using l by simp
qed

theorem LimitingInputStream_correct_witness:
  "\<exists>out l s'. nexts (limiting_stream array_stream) 2 (LimitingInputStream array_stream (ArrayInputStream [1, 2, 3, 4] 4 2) 3) = Some (out, l) \<and>
    out @ limiting_rest array_rest l = take (nat 3) (array_rest (ArrayInputStream [1, 2, 3, 4] 4 2)) \<and>
    LimitingInputStream_destroy array_stream l = Some s' \<and> array_ok s' \<and>
    array_rest s' = drop (length out) (array_rest (ArrayInputStream [1, 2, 3, 4] 4 2))"
  by (rule LimitingInputStream_correct [OF array_input.zero_copy_input_axioms])
    (simp_all add: array_ok_def ArrayInputStream_def)

text \<open>C39. A concatenation of streams that have not been read from returns, by enough calls of \<open>Next\<close>, what
  its streams hold one after the other, whatever chunks they come in.\<close>

theorem ConcatenatingInputStream_drains:
  assumes "zero_copy_input ops ok rest given idle" "list_all ok ss" "list_all (\<lambda>s. ByteCount ops s = 0) ss"
  shows "\<exists>k c. nexts (concatenating_stream ops) k (ConcatenatingInputStream ss) = Some (concat (map rest ss), c) \<and>
    concat_rest rest c = []"
proof -
  have "concat_ok ops ok (ConcatenatingInputStream ss)"
    using assms(2,3) by (cases ss) (simp_all add: concat_ok_def ConcatenatingInputStream_def)
  from zero_copy_input.nexts_drain [OF zero_copy_input.concatenating_contract [OF assms(1)] this]
  show ?thesis by (auto simp: concat_rest_def ConcatenatingInputStream_def)
qed

theorem ConcatenatingInputStream_drains_witness:
  "\<exists>k c. nexts (concatenating_stream array_stream) k (ConcatenatingInputStream [ArrayInputStream [1, 2, 3] 3 2, ArrayInputStream [4] 1 0]) =
      Some (concat (map array_rest [ArrayInputStream [1, 2, 3] 3 2, ArrayInputStream [4] 1 0]), c) \<and>
    concat_rest array_rest c = []"
  by (rule ConcatenatingInputStream_drains [OF array_input.zero_copy_input_axioms])
    (simp_all add: array_ok_def ArrayInputStream_def array_stream_def ArrayInputStream_ByteCount_def)

end
