(* ===== verification/Zero_Copy_Output.thy ===== *)
theory Zero_Copy_Output
  imports Zero_Copy
begin

text \<open>
  The zero-copy output streams of io/zero_copy_stream_impl_lite.cc. A client obtains a chunk of the stream's own
  memory, writes into it, and gives back what it did not use. The abstract class
  \<open>ZeroCopyOutputStream\<close> is a record of its virtual functions and of the memory its pointers refer to: a
  pointer is a position in that memory, and an access outside it is \<open>None\<close>, as is a failed
  \<open>GOOGLE_CHECK\<close>. The contract is the locale \<open>zero_copy_output\<close>; the array, the string and the copying
  streams keep it, the last over any \<open>CopyingOutputStream\<close> that appends what it is given.
\<close>

section \<open>The interface\<close>

record 's ZeroCopyOutputStream =
  Output_Next :: "'s \<Rightarrow> ((nat \<times> nat) option \<times> 's) option"
  Output_BackUp :: "int \<Rightarrow> 's \<Rightarrow> 's option"
  Output_ByteCount :: "'s \<Rightarrow> int"
  WriteAliasedRaw :: "byte list \<Rightarrow> 's \<Rightarrow> (bool \<times> 's) option"
  AllowsAliasing :: "'s \<Rightarrow> bool"
  memory :: "'s \<Rightarrow> byte list"
  set_memory :: "byte list \<Rightarrow> 's \<Rightarrow> 's"

text \<open>The class's own \<open>WriteAliasedRaw\<close> is a fatal error.\<close>

definition ZeroCopyOutputStream_WriteAliasedRaw :: "byte list \<Rightarrow> 's \<Rightarrow> (bool \<times> 's) option" where
  "ZeroCopyOutputStream_WriteAliasedRaw data s = None"

text \<open>What \<open>memcpy\<close> does to a block of memory, and the accesses of a client.\<close>

definition overwrite :: "nat \<Rightarrow> byte list \<Rightarrow> byte list \<Rightarrow> byte list" where
  "overwrite a data m = take a m @ data @ drop (a + length data) m"

definition bytes_at :: "nat \<Rightarrow> nat \<Rightarrow> byte list \<Rightarrow> byte list" where
  "bytes_at a n m = take n (drop a m)"

definition store :: "'s ZeroCopyOutputStream \<Rightarrow> nat \<Rightarrow> byte list \<Rightarrow> 's \<Rightarrow> 's option" where
  "store ops a data s =
     (if a + length data \<le> length (memory ops s) then Some (set_memory ops (overwrite a data (memory ops s)) s)
      else None)"

definition load :: "'s ZeroCopyOutputStream \<Rightarrow> nat \<Rightarrow> nat \<Rightarrow> 's \<Rightarrow> byte list option" where
  "load ops a n s = (if a + n \<le> length (memory ops s) then Some (bytes_at a n (memory ops s)) else None)"

section \<open>Writing into an array\<close>

record ArrayOutputStream =
  out_data :: "byte list"
  out_size :: int
  out_block_size :: int
  out_position :: int
  out_last_returned_size :: int

definition ArrayOutputStream :: "byte list \<Rightarrow> int \<Rightarrow> int \<Rightarrow> ArrayOutputStream" where
  "ArrayOutputStream data n block =
     \<lparr>out_data = data, out_size = n, out_block_size = (if block > 0 then block else n), out_position = 0,
      out_last_returned_size = 0\<rparr>"

definition ArrayOutputStream_Next :: "ArrayOutputStream \<Rightarrow> ((nat \<times> nat) option \<times> ArrayOutputStream) option" where
  "ArrayOutputStream_Next a =
     (if out_position a < out_size a then
        let n = min (out_block_size a) (out_size a - out_position a) in
        Some (Some (nat (out_position a), nat n),
          a\<lparr>out_last_returned_size := n, out_position := out_position a + n\<rparr>)
      else Some (None, a\<lparr>out_last_returned_size := 0\<rparr>))"

definition ArrayOutputStream_BackUp :: "int \<Rightarrow> ArrayOutputStream \<Rightarrow> ArrayOutputStream option" where
  "ArrayOutputStream_BackUp count a =
     (if out_last_returned_size a > 0 \<and> count \<le> out_last_returned_size a \<and> count \<ge> 0 then
        Some (a\<lparr>out_position := out_position a - count, out_last_returned_size := 0\<rparr>)
      else None)"

definition ArrayOutputStream_ByteCount :: "ArrayOutputStream \<Rightarrow> int" where
  "ArrayOutputStream_ByteCount a = out_position a"

definition array_output :: "ArrayOutputStream ZeroCopyOutputStream" where
  "array_output = \<lparr>Output_Next = ArrayOutputStream_Next, Output_BackUp = ArrayOutputStream_BackUp,
     Output_ByteCount = ArrayOutputStream_ByteCount, WriteAliasedRaw = ZeroCopyOutputStream_WriteAliasedRaw,
     AllowsAliasing = (\<lambda>a. False), memory = out_data, set_memory = (\<lambda>m. out_data_update (\<lambda>_. m))\<rparr>"

section \<open>Appending to a string\<close>

text \<open>The string has a capacity; how \<open>resize\<close> enlarges it is up to the library, hence \<open>grow\<close>.\<close>

record StringOutputStream =
  target :: "byte list"
  capacity :: nat

definition resize :: "(nat \<Rightarrow> nat \<Rightarrow> nat) \<Rightarrow> nat \<Rightarrow> StringOutputStream \<Rightarrow> StringOutputStream" where
  "resize grow n s =
     s\<lparr>target := take n (target s) @ replicate (n - length (target s)) 0,
       capacity := (if n \<le> capacity s then capacity s else grow (capacity s) n)\<rparr>"

definition kMinimumSize :: nat where "kMinimumSize = 16"

definition StringOutputStream_Next ::
    "(nat \<Rightarrow> nat \<Rightarrow> nat) \<Rightarrow> StringOutputStream \<Rightarrow> ((nat \<times> nat) option \<times> StringOutputStream) option" where
  "StringOutputStream_Next grow s =
     (let old_size = length (target s);
          new_size = (if old_size < capacity s then capacity s else old_size * 2);
          new_size = min new_size (old_size + nat INT_MAX);
          s = resize grow (max new_size kMinimumSize) s
      in Some (Some (old_size, length (target s) - old_size), s))"

definition StringOutputStream_BackUp ::
    "(nat \<Rightarrow> nat \<Rightarrow> nat) \<Rightarrow> int \<Rightarrow> StringOutputStream \<Rightarrow> StringOutputStream option" where
  "StringOutputStream_BackUp grow count s =
     (if count \<ge> 0 \<and> nat count \<le> length (target s) then Some (resize grow (length (target s) - nat count) s) else None)"

definition StringOutputStream_ByteCount :: "StringOutputStream \<Rightarrow> int" where
  "StringOutputStream_ByteCount s = int (length (target s))"

definition string_output :: "(nat \<Rightarrow> nat \<Rightarrow> nat) \<Rightarrow> StringOutputStream ZeroCopyOutputStream" where
  "string_output grow = \<lparr>Output_Next = StringOutputStream_Next grow, Output_BackUp = StringOutputStream_BackUp grow,
     Output_ByteCount = StringOutputStream_ByteCount, WriteAliasedRaw = ZeroCopyOutputStream_WriteAliasedRaw,
     AllowsAliasing = (\<lambda>s. False), memory = target, set_memory = (\<lambda>m. target_update (\<lambda>_. m))\<rparr>"

section \<open>Writing through a copying stream\<close>

text \<open>A \<open>CopyingOutputStream\<close> is its virtual function \<open>Write\<close>. A fresh buffer has the contents
  \<open>new\<close>, of which nothing is known.\<close>

type_synonym 't copying_output = "byte list \<Rightarrow> 't \<Rightarrow> (bool \<times> 't) option"

record 't CopyingOutputStreamAdaptor =
  copying_output :: 't
  output_failed :: bool
  output_position :: int
  output_buffer :: "byte list option"
  output_buffer_size :: int
  output_buffer_used :: int

definition kDefaultBlockSize :: int where "kDefaultBlockSize = 8192"

definition CopyingOutputStreamAdaptor :: "'t \<Rightarrow> int \<Rightarrow> 't CopyingOutputStreamAdaptor" where
  "CopyingOutputStreamAdaptor t block =
     \<lparr>copying_output = t, output_failed = False, output_position = 0, output_buffer = None,
      output_buffer_size = (if block > 0 then block else kDefaultBlockSize), output_buffer_used = 0\<rparr>"

definition Output_FreeBuffer :: "'t CopyingOutputStreamAdaptor \<Rightarrow> 't CopyingOutputStreamAdaptor" where
  "Output_FreeBuffer a = a\<lparr>output_buffer_used := 0, output_buffer := None\<rparr>"

definition Output_AllocateBufferIfNeeded ::
    "(nat \<Rightarrow> byte list) \<Rightarrow> 't CopyingOutputStreamAdaptor \<Rightarrow> 't CopyingOutputStreamAdaptor" where
  "Output_AllocateBufferIfNeeded new a =
     (if output_buffer a = None then a\<lparr>output_buffer := Some (new (nat (output_buffer_size a)))\<rparr> else a)"

definition WriteBuffer ::
    "'t copying_output \<Rightarrow> 't CopyingOutputStreamAdaptor \<Rightarrow> (bool \<times> 't CopyingOutputStreamAdaptor) option" where
  "WriteBuffer wr a =
     (if output_failed a then Some (False, a)
      else if output_buffer_used a = 0 then Some (True, a)
      else do {
        m \<leftarrow> output_buffer a;
        (b, t) \<leftarrow> wr (take (nat (output_buffer_used a)) m) (copying_output a);
        let a = a\<lparr>copying_output := t\<rparr>;
        if b then Some (True, a\<lparr>output_position := output_position a + output_buffer_used a, output_buffer_used := 0\<rparr>)
        else Some (False, Output_FreeBuffer (a\<lparr>output_failed := True\<rparr>))
      })"

definition CopyingOutputStreamAdaptor_Flush ::
    "'t copying_output \<Rightarrow> 't CopyingOutputStreamAdaptor \<Rightarrow> (bool \<times> 't CopyingOutputStreamAdaptor) option" where
  "CopyingOutputStreamAdaptor_Flush wr a = WriteBuffer wr a"

definition CopyingOutputStreamAdaptor_Next ::
    "'t copying_output \<Rightarrow> (nat \<Rightarrow> byte list) \<Rightarrow> 't CopyingOutputStreamAdaptor \<Rightarrow>
      ((nat \<times> nat) option \<times> 't CopyingOutputStreamAdaptor) option" where
  "CopyingOutputStreamAdaptor_Next wr new a =
     do {
       (b, a) \<leftarrow> (if output_buffer_used a = output_buffer_size a then WriteBuffer wr a else Some (True, a));
       if \<not> b then Some (None, a)
       else
         let a = Output_AllocateBufferIfNeeded new a in
         Some (Some (nat (output_buffer_used a), nat (output_buffer_size a - output_buffer_used a)),
           a\<lparr>output_buffer_used := output_buffer_size a\<rparr>)
     }"

definition CopyingOutputStreamAdaptor_BackUp ::
    "int \<Rightarrow> 't CopyingOutputStreamAdaptor \<Rightarrow> 't CopyingOutputStreamAdaptor option" where
  "CopyingOutputStreamAdaptor_BackUp count a =
     (if count \<ge> 0 \<and> output_buffer_used a = output_buffer_size a \<and> count \<le> output_buffer_used a
      then Some (a\<lparr>output_buffer_used := output_buffer_used a - count\<rparr>) else None)"

definition CopyingOutputStreamAdaptor_ByteCount :: "'t CopyingOutputStreamAdaptor \<Rightarrow> int" where
  "CopyingOutputStreamAdaptor_ByteCount a = output_position a + output_buffer_used a"

text \<open>The buffer as memory; there is none before the first \<open>Next\<close>.\<close>

definition adaptor_memory :: "'t CopyingOutputStreamAdaptor \<Rightarrow> byte list" where
  "adaptor_memory a = (case output_buffer a of None \<Rightarrow> [] | Some m \<Rightarrow> m)"

definition adaptor_set_memory :: "byte list \<Rightarrow> 't CopyingOutputStreamAdaptor \<Rightarrow> 't CopyingOutputStreamAdaptor" where
  "adaptor_set_memory m a = a\<lparr>output_buffer := map_option (\<lambda>_. m) (output_buffer a)\<rparr>"

text \<open>The copying loop of \<open>WriteAliasedRaw\<close>: fill the chunk, go on with the rest.\<close>

partial_function (option) aliased_loop ::
    "'t copying_output \<Rightarrow> (nat \<Rightarrow> byte list) \<Rightarrow> byte list \<Rightarrow> 't CopyingOutputStreamAdaptor \<Rightarrow>
      (bool \<times> 't CopyingOutputStreamAdaptor) option" where
  "aliased_loop wr new data a =
     do {
       (r, a) \<leftarrow> CopyingOutputStreamAdaptor_Next wr new a;
       case r of None \<Rightarrow> Some (False, a)
       | Some (out, n) \<Rightarrow>
           if length data \<le> n then do {
             a \<leftarrow> CopyingOutputStreamAdaptor_BackUp (int n - int (length data))
               (adaptor_set_memory (overwrite out data (adaptor_memory a)) a);
             Some (True, a)
           } else
             aliased_loop wr new (drop n data) (adaptor_set_memory (overwrite out (take n data) (adaptor_memory a)) a)
     }"

declare aliased_loop.simps [code]

definition CopyingOutputStreamAdaptor_WriteAliasedRaw ::
    "'t copying_output \<Rightarrow> (nat \<Rightarrow> byte list) \<Rightarrow> byte list \<Rightarrow> 't CopyingOutputStreamAdaptor \<Rightarrow>
      (bool \<times> 't CopyingOutputStreamAdaptor) option" where
  "CopyingOutputStreamAdaptor_WriteAliasedRaw wr new data a =
     (if int (length data) \<ge> output_buffer_size a then
        do {
          (b, a) \<leftarrow> CopyingOutputStreamAdaptor_Flush wr a;
          if \<not> b then Some (False, a)
          else do {
            (b, t) \<leftarrow> wr data (copying_output a);
            let a = a\<lparr>copying_output := t\<rparr>;
            if \<not> b then Some (False, a)
            else Some (True, a\<lparr>output_position := output_position a + int (length data)\<rparr>)
          }
        }
      else aliased_loop wr new data a)"

definition adaptor_output ::
    "'t copying_output \<Rightarrow> (nat \<Rightarrow> byte list) \<Rightarrow> 't CopyingOutputStreamAdaptor ZeroCopyOutputStream" where
  "adaptor_output wr new = \<lparr>Output_Next = CopyingOutputStreamAdaptor_Next wr new,
     Output_BackUp = CopyingOutputStreamAdaptor_BackUp, Output_ByteCount = CopyingOutputStreamAdaptor_ByteCount,
     WriteAliasedRaw = CopyingOutputStreamAdaptor_WriteAliasedRaw wr new, AllowsAliasing = (\<lambda>a. True),
     memory = adaptor_memory, set_memory = adaptor_set_memory\<rparr>"

text \<open>The destructor writes what is left and ignores the result.\<close>

definition CopyingOutputStreamAdaptor_destroy :: "'t copying_output \<Rightarrow> 't CopyingOutputStreamAdaptor \<Rightarrow> 't option" where
  "CopyingOutputStreamAdaptor_destroy wr a = do { (b, a) \<leftarrow> WriteBuffer wr a; Some (copying_output a) }"

section \<open>Facts about memory\<close>

lemma length_overwrite [simp]: "a + length d \<le> length m \<Longrightarrow> length (overwrite a d m) = length m"
  by (simp add: overwrite_def)

lemma length_bytes_at [simp]: "a + n \<le> length m \<Longrightarrow> length (bytes_at a n m) = n"
  by (simp add: bytes_at_def)

lemma bytes_at_0 [simp]: "bytes_at a 0 m = []"
  by (simp add: bytes_at_def)

lemma overwrite_Nil [simp]: "overwrite a [] m = m"
  by (simp add: overwrite_def)

lemma bytes_at_add: "bytes_at a (n + k) m = bytes_at a n m @ bytes_at (a + n) k m"
  by (simp add: bytes_at_def take_add add.commute [of n a])

lemma bytes_at_overwrite_before: "a + n \<le> b \<Longrightarrow> b \<le> length m \<Longrightarrow> bytes_at a n (overwrite b d m) = bytes_at a n m"
proof -
  assume "a + n \<le> b" "b \<le> length m"
  then have "n \<le> length (drop a (take b m))" "n \<le> b - a" by simp_all
  then show ?thesis by (simp add: bytes_at_def overwrite_def drop_take min_absorb1)
qed

lemma bytes_at_overwrite_same: "b \<le> length m \<Longrightarrow> bytes_at b (length d) (overwrite b d m) = d"
  by (simp add: bytes_at_def overwrite_def)

text \<open>Two memories that differ at most in a chunk.\<close>

definition agree_outside :: "nat \<Rightarrow> nat \<Rightarrow> byte list \<Rightarrow> byte list \<Rightarrow> bool" where
  "agree_outside a n m m' \<longleftrightarrow> length m' = length m \<and> take a m' = take a m \<and> drop (a + n) m' = drop (a + n) m"

lemma agree_overwrite:
  assumes "a \<le> b" "b + length d \<le> a + n" "a + n \<le> length m"
  shows "agree_outside a n m (overwrite b d m)"
proof -
  have "drop (a + n) (overwrite b d m) = drop (a + n - (b + length d)) (drop (b + length d) m)"
    using assms by (simp add: overwrite_def)
  also have "\<dots> = drop (a + n) m" using assms(2) by simp
  finally show ?thesis using assms by (simp add: agree_outside_def) (simp add: overwrite_def)
qed

lemma agree_same: "agree_outside a n m m"
  by (simp add: agree_outside_def)

lemma split_bytes_at: "a + n \<le> length m \<Longrightarrow> m = take a m @ bytes_at a n m @ drop (a + n) m"
  by (metis append_take_drop_id drop_drop bytes_at_def add.commute)

lemma agree_bytes_at:
  assumes "agree_outside a n m m'" "a + n \<le> length m"
  shows "m' = overwrite a (bytes_at a n m') m"
  using assms split_bytes_at [of a n m'] by (simp add: agree_outside_def overwrite_def)

lemma bytes_at_overwrite:
  assumes "a \<le> b" "b + length d \<le> a + n" "a + n \<le> length m"
  shows "bytes_at a n (overwrite b d m) = overwrite (b - a) d (bytes_at a n m)"
proof -
  have "n = (b - a) + (length d + (n - (b - a) - length d))" using assms by simp
  then have "bytes_at a n (overwrite b d m) = bytes_at a (b - a) (overwrite b d m) @
      bytes_at b (length d) (overwrite b d m) @ bytes_at (b + length d) (n - (b - a) - length d) (overwrite b d m)"
    by (metis assms(1) bytes_at_add le_add_diff_inverse)
  also have "bytes_at a (b - a) (overwrite b d m) = bytes_at a (b - a) m"
    using assms by (intro bytes_at_overwrite_before) simp_all
  also have "bytes_at b (length d) (overwrite b d m) = d" using assms by (intro bytes_at_overwrite_same) simp
  also have "bytes_at (b + length d) (n - (b - a) - length d) (overwrite b d m) = drop (b - a + length d) (bytes_at a n m)"
    using assms by (simp add: bytes_at_def overwrite_def drop_take)
  finally show ?thesis using assms by (simp add: overwrite_def bytes_at_def min_def)
qed

lemma written_overwrite:
  assumes "w = before @ bytes_at a n m" "a \<le> b" "b + length d \<le> a + n" "a + n \<le> length m"
  shows "take (length w - n) w @ bytes_at a n (overwrite b d m) = overwrite (length w - n + (b - a)) d w"
  using assms by (simp add: bytes_at_overwrite) (simp add: overwrite_def)

section \<open>The contract\<close>

text \<open>\<open>written\<close> is the output so far, the last chunk included as its memory stands. \<open>chunk s a n\<close>: the
  client may write the \<open>n\<close> bytes of memory from \<open>a\<close>, which are the last \<open>n\<close> of the output. A stream that has
  not lost anything is \<open>sound\<close>; \<open>idle\<close> bounds the empty chunks in a row. This is what zero_copy_stream.h says of the
  operations, except that it also says of \<open>Next\<close> that all errors are permanent. The contract leaves that open, as
  \<open>CopyingOutputStreamAdaptor\<close> does not keep it; it is \<open>errors_permanent\<close> below.\<close>

locale zero_copy_output =
  fixes ops :: "'s ZeroCopyOutputStream" and ok :: "'s \<Rightarrow> bool" and sound :: "'s \<Rightarrow> bool"
    and written :: "'s \<Rightarrow> byte list" and chunk :: "'s \<Rightarrow> nat \<Rightarrow> nat \<Rightarrow> bool" and idle :: "'s \<Rightarrow> nat"
  assumes output_next: "ok s \<Longrightarrow> \<exists>r s'. Output_Next ops s = Some (r, s') \<and> ok s' \<and>
      (case r of None \<Rightarrow> True
       | Some (a, n) \<Rightarrow> chunk s' a n \<and> (n = 0 \<longrightarrow> idle s' < idle s) \<and>
          (sound s \<longrightarrow> sound s' \<and> (\<exists>fresh. written s' = written s @ fresh \<and> length fresh = n)))"
    and output_back_up: "ok s \<Longrightarrow> chunk s a n \<Longrightarrow> 0 < k \<Longrightarrow> k \<le> n \<Longrightarrow>
      \<exists>s'. Output_BackUp ops (int k) s = Some s' \<and> ok s' \<and>
        (sound s \<longrightarrow> sound s' \<and> written s' = take (length (written s) - k) (written s))"
    and output_chunk: "ok s \<Longrightarrow> chunk s a n \<Longrightarrow> a + n \<le> length (memory ops s) \<and>
        (sound s \<longrightarrow> (\<exists>before. written s = before @ bytes_at a n (memory ops s)))"
    and output_set_memory: "ok s \<Longrightarrow> chunk s a n \<Longrightarrow> agree_outside a n (memory ops s) m \<Longrightarrow>
      ok (set_memory ops m s) \<and> memory ops (set_memory ops m s) = m \<and> chunk (set_memory ops m s) = chunk s \<and>
      (sound (set_memory ops m s) \<longleftrightarrow> sound s) \<and> idle (set_memory ops m s) = idle s \<and>
      (sound s \<longrightarrow> written (set_memory ops m s) = take (length (written s) - n) (written s) @ bytes_at a n m)"
    and output_aliased: "ok s \<Longrightarrow> AllowsAliasing ops s \<Longrightarrow> \<exists>b s'. WriteAliasedRaw ops d s = Some (b, s') \<and> ok s' \<and>
        (b \<longrightarrow> sound s \<longrightarrow> sound s' \<and> written s' = written s @ d)"
    and output_count: "ok s \<Longrightarrow> sound s \<Longrightarrow> Output_ByteCount ops s = int (length (written s))"

text \<open>Once \<open>Next\<close> has failed, it fails again; as the contract keeps \<open>ok\<close>, it does so for ever.\<close>

definition errors_permanent :: "'s ZeroCopyOutputStream \<Rightarrow> ('s \<Rightarrow> bool) \<Rightarrow> bool" where
  "errors_permanent ops ok \<longleftrightarrow>
     (\<forall>s s'. ok s \<longrightarrow> Output_Next ops s = Some (None, s') \<longrightarrow> (\<exists>s''. Output_Next ops s' = Some (None, s'')))"

text \<open>Whether a stream can alias is a property of its class.\<close>

locale steady_output = zero_copy_output +
  assumes aliasing_steady: "ok s \<Longrightarrow> ok s' \<Longrightarrow> AllowsAliasing ops s \<longleftrightarrow> AllowsAliasing ops s'"

section \<open>The array stream\<close>

definition array_output_ok :: "ArrayOutputStream \<Rightarrow> bool" where
  "array_output_ok a \<longleftrightarrow> out_size a = int (length (out_data a)) \<and> (0 < out_size a \<longrightarrow> 0 < out_block_size a) \<and>
     0 \<le> out_last_returned_size a \<and> out_last_returned_size a \<le> out_position a \<and> out_position a \<le> out_size a"

definition array_written :: "ArrayOutputStream \<Rightarrow> byte list" where
  "array_written a = take (nat (out_position a)) (out_data a)"

definition array_chunk :: "ArrayOutputStream \<Rightarrow> nat \<Rightarrow> nat \<Rightarrow> bool" where
  "array_chunk a x n \<longleftrightarrow> int x + int n = out_position a \<and> int n \<le> out_last_returned_size a"

lemma take_bytes_at: "a + n \<le> length m \<Longrightarrow> take (a + n) m = take a m @ bytes_at a n m"
  by (simp add: take_add bytes_at_def)

interpretation array_out: zero_copy_output array_output array_output_ok "\<lambda>_. True" array_written array_chunk "\<lambda>_. 0"
proof
  fix s :: ArrayOutputStream
  assume ok: "array_output_ok s"
  show "\<exists>r s'. Output_Next array_output s = Some (r, s') \<and> array_output_ok s' \<and>
      (case r of None \<Rightarrow> True
       | Some (a, n) \<Rightarrow> array_chunk s' a n \<and> (n = 0 \<longrightarrow> 0 < (0 :: nat)) \<and>
          (True \<longrightarrow> True \<and> (\<exists>fresh. array_written s' = array_written s @ fresh \<and> length fresh = n)))"
  proof (cases "out_position s < out_size s")
    case True
    define n where "n = min (out_block_size s) (out_size s - out_position s)"
    have n: "0 < n" "n \<le> out_size s - out_position s" "0 \<le> out_position s"
      using ok True by (auto simp: array_output_ok_def n_def)
    have split: "take (nat (out_position s + n)) (out_data s) =
        take (nat (out_position s)) (out_data s) @ bytes_at (nat (out_position s)) (nat n) (out_data s)"
      using n by (simp add: nat_add_distrib take_add bytes_at_def)
    have len: "length (bytes_at (nat (out_position s)) (nat n) (out_data s)) = nat n"
      using n ok by (intro length_bytes_at) (auto simp: array_output_ok_def)
    have "Output_Next array_output s = Some (Some (nat (out_position s), nat n),
        s\<lparr>out_last_returned_size := n, out_position := out_position s + n\<rparr>)"
      using True by (simp add: array_output_def ArrayOutputStream_Next_def Let_def n_def)
    with n ok split len show ?thesis
      by (auto simp: array_output_ok_def array_chunk_def array_written_def)
  qed (use ok in \<open>auto simp: array_output_def ArrayOutputStream_Next_def array_output_ok_def\<close>)
next
  fix s a n k
  assume ok: "array_output_ok s" "array_chunk s a n" "0 < k" "k \<le> n"
  then have "nat (out_position s - int k) = length (array_written s) - k" "length (array_written s) = nat (out_position s)"
    by (auto simp: array_written_def array_output_ok_def array_chunk_def)
  then show "\<exists>s'. Output_BackUp array_output (int k) s = Some s' \<and> array_output_ok s' \<and>
      (True \<longrightarrow> True \<and> array_written s' = take (length (array_written s) - k) (array_written s))"
    using ok by (auto simp: array_output_def ArrayOutputStream_BackUp_def array_output_ok_def array_chunk_def array_written_def min_def)
next
  fix s a n
  assume ok: "array_output_ok s" "array_chunk s a n"
  then have "nat (out_position s) = a + n" "a + n \<le> length (out_data s)" by (auto simp: array_output_ok_def array_chunk_def)
  then show "a + n \<le> length (memory array_output s) \<and>
      (True \<longrightarrow> (\<exists>before. array_written s = before @ bytes_at a n (memory array_output s)))"
    by (auto simp: array_output_def array_written_def take_bytes_at)
next
  fix s a n m
  assume ok: "array_output_ok s" "array_chunk s a n" and m: "agree_outside a n (memory array_output s) m"
  then have "nat (out_position s) = a + n" "a + n \<le> length (out_data s)" "length m = length (out_data s)" "take a m = take a (out_data s)"
    by (auto simp: array_output_ok_def array_chunk_def agree_outside_def array_output_def)
  with ok show "array_output_ok (set_memory array_output m s) \<and> memory array_output (set_memory array_output m s) = m \<and>
      array_chunk (set_memory array_output m s) = array_chunk s \<and> (True \<longleftrightarrow> True) \<and> (0 :: nat) = 0 \<and>
      (True \<longrightarrow> array_written (set_memory array_output m s) =
        take (length (array_written s) - n) (array_written s) @ bytes_at a n m)"
    by (auto simp: array_output_def array_written_def take_bytes_at array_output_ok_def array_chunk_def fun_eq_iff)
next
  fix s :: ArrayOutputStream
  assume "array_output_ok s"
  then show "Output_ByteCount array_output s = int (length (array_written s))"
    by (auto simp: array_output_def ArrayOutputStream_ByteCount_def array_written_def array_output_ok_def)
qed (simp add: array_output_def)

interpretation array_steady: steady_output array_output array_output_ok "\<lambda>_. True" array_written array_chunk "\<lambda>_. 0"
  by unfold_locales (simp add: array_output_def)

section \<open>The string stream\<close>

definition string_chunk :: "StringOutputStream \<Rightarrow> nat \<Rightarrow> nat \<Rightarrow> bool" where
  "string_chunk s a n \<longleftrightarrow> a + n = length (target s)"

interpretation string_out: zero_copy_output "string_output grow" "\<lambda>_. True" "\<lambda>_. True" target string_chunk "\<lambda>_. 0"
  for grow
proof
  fix s :: StringOutputStream
  define n where "n = max (min (if length (target s) < capacity s then capacity s else length (target s) * 2)
    (length (target s) + nat INT_MAX)) kMinimumSize"
  have "length (target s) < n" by (auto simp: n_def kMinimumSize_def)
  then show "\<exists>r s'. Output_Next (string_output grow) s = Some (r, s') \<and> True \<and>
      (case r of None \<Rightarrow> True
       | Some (a, k) \<Rightarrow> string_chunk s' a k \<and> (k = 0 \<longrightarrow> 0 < (0 :: nat)) \<and>
          (True \<longrightarrow> True \<and> (\<exists>fresh. target s' = target s @ fresh \<and> length fresh = k)))"
    unfolding string_output_def StringOutputStream_Next_def Let_def ZeroCopyOutputStream.simps n_def [symmetric]
    by (simp add: resize_def string_chunk_def)
next
  fix s :: StringOutputStream and a n k :: nat
  assume "string_chunk s a n" "0 < k" "k \<le> n"
  then show "\<exists>s'. Output_BackUp (string_output grow) (int k) s = Some s' \<and> True \<and>
      (True \<longrightarrow> True \<and> target s' = take (length (target s) - k) (target s))"
    by (simp add: string_output_def StringOutputStream_BackUp_def resize_def string_chunk_def)
next
  fix s :: StringOutputStream and a n :: nat
  assume "string_chunk s a n"
  then show "a + n \<le> length (memory (string_output grow) s) \<and>
      (True \<longrightarrow> (\<exists>before. target s = before @ bytes_at a n (memory (string_output grow) s)))"
    by (auto simp: string_output_def string_chunk_def bytes_at_def intro!: exI [of _ "take a (target s)"])
next
  fix s :: StringOutputStream and a n :: nat and m
  assume "string_chunk s a n" "agree_outside a n (memory (string_output grow) s) m"
  then show "True \<and> memory (string_output grow) (set_memory (string_output grow) m s) = m \<and>
      string_chunk (set_memory (string_output grow) m s) = string_chunk s \<and> (True \<longleftrightarrow> True) \<and> (0 :: nat) = 0 \<and>
      (True \<longrightarrow> target (set_memory (string_output grow) m s) = take (length (target s) - n) (target s) @ bytes_at a n m)"
    using split_bytes_at [of a n m]
    by (simp add: string_output_def string_chunk_def agree_outside_def fun_eq_iff bytes_at_def) (metis append_take_drop_id diff_add_inverse2)
next
  fix s :: StringOutputStream
  show "Output_ByteCount (string_output grow) s = int (length (target s))"
    by (simp add: string_output_def StringOutputStream_ByteCount_def)
qed (simp add: string_output_def)

interpretation string_steady: steady_output "string_output grow" "\<lambda>_. True" "\<lambda>_. True" target string_chunk "\<lambda>_. 0"
  for grow
  by unfold_locales (simp add: string_output_def)

section \<open>The copying stream\<close>

text \<open>What a \<open>CopyingOutputStream\<close> promises: \<open>Write\<close> returns, and what it accepts is appended to what
  was accepted before.\<close>

locale copying_sink =
  fixes wr :: "'t copying_output" and ok :: "'t \<Rightarrow> bool" and sunk :: "'t \<Rightarrow> byte list"
  assumes write_returns: "ok t \<Longrightarrow> \<exists>b t'. wr d t = Some (b, t') \<and> ok t' \<and> (b \<longrightarrow> sunk t' = sunk t @ d)"

definition adaptor_ok :: "('t \<Rightarrow> bool) \<Rightarrow> 't CopyingOutputStreamAdaptor \<Rightarrow> bool" where
  "adaptor_ok ok a \<longleftrightarrow> ok (copying_output a) \<and> 0 < output_buffer_size a \<and> 0 \<le> output_buffer_used a \<and>
     output_buffer_used a \<le> output_buffer_size a \<and>
     (case output_buffer a of None \<Rightarrow> output_buffer_used a = 0 | Some m \<Rightarrow> int (length m) = output_buffer_size a)"

definition adaptor_sound :: "('t \<Rightarrow> byte list) \<Rightarrow> 't CopyingOutputStreamAdaptor \<Rightarrow> bool" where
  "adaptor_sound sunk a \<longleftrightarrow> \<not> output_failed a \<and> output_position a = int (length (sunk (copying_output a)))"

definition adaptor_written :: "('t \<Rightarrow> byte list) \<Rightarrow> 't CopyingOutputStreamAdaptor \<Rightarrow> byte list" where
  "adaptor_written sunk a = sunk (copying_output a) @ take (nat (output_buffer_used a)) (adaptor_memory a)"

definition adaptor_chunk :: "'t CopyingOutputStreamAdaptor \<Rightarrow> nat \<Rightarrow> nat \<Rightarrow> bool" where
  "adaptor_chunk a x n \<longleftrightarrow> output_buffer a \<noteq> None \<and> int x + int n = output_buffer_used a \<and>
     (0 < n \<longrightarrow> output_buffer_used a = output_buffer_size a)"

lemmas adaptor_defs = adaptor_ok_def adaptor_sound_def adaptor_written_def adaptor_memory_def

context copying_sink
begin

abbreviation "a_ok \<equiv> adaptor_ok ok"
abbreviation "a_sound \<equiv> adaptor_sound sunk"
abbreviation "a_written \<equiv> adaptor_written sunk"

lemma WriteBuffer_spec:
  assumes "a_ok a"
  shows "\<exists>b a'. WriteBuffer wr a = Some (b, a') \<and> a_ok a' \<and> (b \<longrightarrow> output_buffer_used a' = 0) \<and>
    output_buffer_size a' = output_buffer_size a \<and>
    (b \<longrightarrow> a_sound a \<longrightarrow> a_sound a' \<and> sunk (copying_output a') = a_written a)"
proof -
  consider "output_failed a" | "\<not> output_failed a" "output_buffer_used a = 0"
    | m where "\<not> output_failed a" "output_buffer_used a \<noteq> 0" "output_buffer a = Some m"
    using assms by (cases "output_buffer a") (auto simp: adaptor_ok_def)
  then show ?thesis
  proof cases
    case 3
    from assms have "ok (copying_output a)" by (simp add: adaptor_ok_def)
    from write_returns [OF this, of "take (nat (output_buffer_used a)) m"] obtain b t
      where "wr (take (nat (output_buffer_used a)) m) (copying_output a) = Some (b, t)" "ok t"
        "b \<longrightarrow> sunk t = sunk (copying_output a) @ take (nat (output_buffer_used a)) m" by blast
    moreover have "min (length m) (nat (output_buffer_used a)) = nat (output_buffer_used a)"
      using 3 assms by (auto simp: adaptor_ok_def)
    ultimately show ?thesis using 3 assms
      by (cases b) (auto simp: WriteBuffer_def adaptor_defs Output_FreeBuffer_def)
  qed (use assms in \<open>auto simp: WriteBuffer_def adaptor_defs\<close>)
qed

lemma Next_spec:
  assumes "a_ok a" "\<And>n. length (new n) = n"
  shows "\<exists>r a'. CopyingOutputStreamAdaptor_Next wr new a = Some (r, a') \<and> a_ok a' \<and>
      output_buffer_size a' = output_buffer_size a \<and>
      (case r of None \<Rightarrow> True
       | Some (x, n) \<Rightarrow> adaptor_chunk a' x n \<and> 0 < n \<and>
          (a_sound a \<longrightarrow> a_sound a' \<and> (\<exists>fresh. a_written a' = a_written a @ fresh \<and> length fresh = n)))"
proof -
  obtain b a1 where a1: "(if output_buffer_used a = output_buffer_size a then WriteBuffer wr a else Some (True, a)) = Some (b, a1)"
    and ok: "a_ok a1" "output_buffer_size a1 = output_buffer_size a" "b \<longrightarrow> output_buffer_used a1 < output_buffer_size a1"
    and s: "b \<longrightarrow> a_sound a \<longrightarrow> a_sound a1 \<and> a_written a1 = a_written a"
  proof (cases "output_buffer_used a = output_buffer_size a")
    case True
    obtain b a1 where w: "WriteBuffer wr a = Some (b, a1)" "a_ok a1" "b \<longrightarrow> output_buffer_used a1 = 0"
      "output_buffer_size a1 = output_buffer_size a"
      "b \<longrightarrow> a_sound a \<longrightarrow> a_sound a1 \<and> sunk (copying_output a1) = a_written a" using WriteBuffer_spec [OF assms(1)] by blast
    with that [of b a1] True show thesis by (auto simp: adaptor_written_def [of _ a1] adaptor_ok_def)
  next
    case False
    with that [of True a] assms(1) show thesis by (auto simp: adaptor_ok_def)
  qed
  show ?thesis
  proof (cases b)
    case False
    with a1 ok show ?thesis by (auto simp: CopyingOutputStreamAdaptor_Next_def)
  next
    case True
    define a2 where "a2 = Output_AllocateBufferIfNeeded new a1"
    let ?u = "nat (output_buffer_used a1)"
    obtain m where m: "output_buffer a2 = Some m" "int (length m) = output_buffer_size a1" "take ?u m = take ?u (adaptor_memory a1)"
      using ok(1) assms(2) by (cases "output_buffer a1") (auto simp: a2_def Output_AllocateBufferIfNeeded_def adaptor_ok_def adaptor_memory_def)
    have same: "output_buffer_used a2 = output_buffer_used a1" "output_buffer_size a2 = output_buffer_size a1"
      "copying_output a2 = copying_output a1" "output_failed a2 = output_failed a1" "output_position a2 = output_position a1"
      by (simp_all add: a2_def Output_AllocateBufferIfNeeded_def)
    have used: "0 \<le> output_buffer_used a1" "output_buffer_used a1 < output_buffer_size a1" "0 < output_buffer_size a1"
      using ok True by (auto simp: adaptor_ok_def)
    have n: "?u + nat (output_buffer_size a1 - output_buffer_used a1) = length m" using used m(2) by auto
    let ?a3 = "a2\<lparr>output_buffer_used := output_buffer_size a1\<rparr>"
    have r: "CopyingOutputStreamAdaptor_Next wr new a = Some (Some (?u, nat (output_buffer_size a1 - output_buffer_used a1)), ?a3)"
      using a1 True by (simp add: CopyingOutputStreamAdaptor_Next_def a2_def [symmetric] Let_def same)
    have "m = take ?u (adaptor_memory a1) @ drop ?u m" using m(3) by (metis append_take_drop_id)
    then have w: "a_written ?a3 = a_written a1 @ drop ?u m" "length (drop ?u m) = nat (output_buffer_size a1 - output_buffer_used a1)"
      using n m(1,2) nat_int [of "length m"] by (simp_all add: adaptor_written_def adaptor_memory_def same)
    have "a_ok ?a3" using ok(1) m(1,2) used(3) by (simp add: adaptor_ok_def same)
    moreover have "a_sound ?a3 = a_sound a1" by (simp add: adaptor_sound_def same)
    moreover have "adaptor_chunk ?a3 ?u (nat (output_buffer_size a1 - output_buffer_used a1))"
      using used m(1) by (simp add: adaptor_chunk_def same)
    ultimately show ?thesis
    proof (intro exI conjI)
      show "CopyingOutputStreamAdaptor_Next wr new a = Some (Some (?u, nat (output_buffer_size a1 - output_buffer_used a1)), ?a3)"
        by (rule r)
      show "output_buffer_size ?a3 = output_buffer_size a" by (simp add: same ok(2))
      show "case Some (?u, nat (output_buffer_size a1 - output_buffer_used a1)) of None \<Rightarrow> True
          | Some (x, n) \<Rightarrow> adaptor_chunk ?a3 x n \<and> 0 < n \<and>
             (a_sound a \<longrightarrow> a_sound ?a3 \<and> (\<exists>fresh. a_written ?a3 = a_written a @ fresh \<and> length fresh = n))"
        if "adaptor_chunk ?a3 ?u (nat (output_buffer_size a1 - output_buffer_used a1))" "a_sound ?a3 = a_sound a1"
        unfolding option.case prod.case
      proof (intro conjI impI)
        assume "a_sound a"
        with s True have sound: "a_sound a1" "a_written a1 = a_written a" by blast+
        then show "a_sound ?a3" using that(2) by simp
        show "\<exists>fresh. a_written ?a3 = a_written a @ fresh \<and> length fresh = nat (output_buffer_size a1 - output_buffer_used a1)"
          using w sound(2) by (intro exI [of _ "drop ?u m"]) simp
      qed (use that(1) used in simp_all)
    qed
  qed
qed

lemma chunk_bounds: "a_ok a \<Longrightarrow> adaptor_chunk a x n \<Longrightarrow> x + n = nat (output_buffer_used a) \<and> x + n \<le> length (adaptor_memory a)"
  by (auto simp: adaptor_defs adaptor_chunk_def)

lemma set_memory_spec:
  assumes "a_ok a" "adaptor_chunk a x n" "agree_outside x n (adaptor_memory a) m"
  shows "a_ok (adaptor_set_memory m a)" "adaptor_memory (adaptor_set_memory m a) = m"
    "adaptor_chunk (adaptor_set_memory m a) = adaptor_chunk a" "a_sound (adaptor_set_memory m a) = a_sound a"
    "a_written (adaptor_set_memory m a) = take (length (a_written a) - n) (a_written a) @ bytes_at x n m"
proof -
  obtain m0 where m0: "output_buffer a = Some m0" using assms(2) by (auto simp: adaptor_chunk_def)
  with assms(3) have len: "length m = length m0" and before: "take x m = take x m0"
    by (simp_all add: agree_outside_def adaptor_memory_def)
  from m0 len assms(1) show "a_ok (adaptor_set_memory m a)" "adaptor_memory (adaptor_set_memory m a) = m"
    "adaptor_chunk (adaptor_set_memory m a) = adaptor_chunk a" "a_sound (adaptor_set_memory m a) = a_sound a"
    by (auto simp: adaptor_defs adaptor_set_memory_def adaptor_chunk_def fun_eq_iff)
  have u: "nat (output_buffer_used a) = x + n" "x + n \<le> length m0"
    using chunk_bounds [OF assms(1,2)] m0 by (simp_all add: adaptor_memory_def)
  then have "length (a_written a) - n = length (sunk (copying_output a)) + x" by (simp add: adaptor_defs m0)
  with u len before show "a_written (adaptor_set_memory m a) = take (length (a_written a) - n) (a_written a) @ bytes_at x n m"
    by (simp add: adaptor_defs adaptor_set_memory_def m0 take_bytes_at)
qed

lemma BackUp_spec:
  assumes "a_ok a" "adaptor_chunk a x n" "0 < n" "k \<le> n"
  shows "\<exists>a'. CopyingOutputStreamAdaptor_BackUp (int k) a = Some a' \<and> a_ok a' \<and> a_sound a' = a_sound a \<and>
    a_written a' = take (length (a_written a) - k) (a_written a)"
proof -
  have "int k \<le> output_buffer_used a" using assms by (simp add: adaptor_chunk_def)
  moreover have "nat (output_buffer_used a - int k) = nat (output_buffer_used a) - k" by simp
  moreover have "length (take (nat (output_buffer_used a)) (adaptor_memory a)) = nat (output_buffer_used a)"
    using chunk_bounds [OF assms(1,2)] by simp
  moreover have "a_ok (a\<lparr>output_buffer_used := output_buffer_used a - int k\<rparr>)"
    using assms by (auto simp: adaptor_ok_def adaptor_chunk_def)
  ultimately show ?thesis using assms(2,3)
    by (simp add: CopyingOutputStreamAdaptor_BackUp_def adaptor_chunk_def adaptor_sound_def adaptor_written_def adaptor_memory_def)
qed

lemma chunk_written:
  assumes "a_ok a" "adaptor_chunk a x n"
  shows "a_written a = (sunk (copying_output a) @ take x (adaptor_memory a)) @ bytes_at x n (adaptor_memory a)"
  using chunk_bounds [OF assms] take_bytes_at [of x n "adaptor_memory a"] by (simp add: adaptor_written_def)

lemma aliased_loop_spec:
  assumes "a_ok a" "\<And>n. length (new n) = n"
  shows "\<exists>b a'. aliased_loop wr new d a = Some (b, a') \<and> a_ok a' \<and>
    (b \<longrightarrow> a_sound a \<longrightarrow> a_sound a' \<and> a_written a' = a_written a @ d)"
  using assms(1)
proof (induction "length d" arbitrary: d a rule: less_induct)
  case less
  obtain r a1 where r: "CopyingOutputStreamAdaptor_Next wr new a = Some (r, a1)" "a_ok a1" and
    cases: "case r of None \<Rightarrow> True | Some (x, n) \<Rightarrow> adaptor_chunk a1 x n \<and> 0 < n \<and>
      (a_sound a \<longrightarrow> a_sound a1 \<and> (\<exists>fresh. a_written a1 = a_written a @ fresh \<and> length fresh = n))"
    using Next_spec [OF less.prems assms(2)] by blast
  show ?case
  proof (cases r)
    case None
    with r show ?thesis by (subst aliased_loop.simps) auto
  next
    case (Some p)
    then obtain x n where p: "r = Some (x, n)" by (cases p) simp
    with cases have chunk: "adaptor_chunk a1 x n" "0 < n" and
      s: "a_sound a \<Longrightarrow> a_sound a1 \<and> (\<exists>fresh. a_written a1 = a_written a @ fresh \<and> length fresh = n)" by auto
    define e where "e = take n d"
    define a2 where "a2 = adaptor_set_memory (overwrite x e (adaptor_memory a1)) a1"
    have e: "length e \<le> n" by (simp add: e_def)
    have "agree_outside x n (adaptor_memory a1) (overwrite x e (adaptor_memory a1))"
      using chunk_bounds [OF r(2) chunk(1)] e by (intro agree_overwrite) simp_all
    note a2 = set_memory_spec [OF r(2) chunk(1) this, folded a2_def]
    have w2: "a_sound a \<Longrightarrow> \<exists>tl. a_written a2 = a_written a @ e @ tl \<and> length tl = n - length e"
    proof -
      assume "a_sound a"
      from s [OF this] obtain fresh where f: "a_written a1 = a_written a @ fresh" "length fresh = n" by blast
      have "a_written a2 = overwrite (length (a_written a1) - n + (x - x)) e (a_written a1)"
        unfolding a2(5) by (rule written_overwrite [OF chunk_written [OF r(2) chunk(1)]])
          (use chunk_bounds [OF r(2) chunk(1)] e in simp_all)
      then have "a_written a2 = a_written a @ e @ drop (length e) fresh" using f by (simp add: overwrite_def)
      moreover have "length (drop (length e) fresh) = n - length e" using f by simp
      ultimately show ?thesis by blast
    qed
    show ?thesis
    proof (cases "length d \<le> n")
      case True
      then have "e = d" by (simp add: e_def)
      have chunk2: "adaptor_chunk a2 x n" using a2(3) chunk(1) by simp
      obtain a3 where b: "CopyingOutputStreamAdaptor_BackUp (int (n - length d)) a2 = Some a3" "a_ok a3" "a_sound a3 = a_sound a2"
        "a_written a3 = take (length (a_written a2) - (n - length d)) (a_written a2)"
        using BackUp_spec [OF a2(1) chunk2 chunk(2), of "n - length d"] by auto
      have "aliased_loop wr new d a = Some (True, a3)"
        using r p True b(1) \<open>e = d\<close> by (subst aliased_loop.simps) (simp add: a2_def of_nat_diff)
      moreover have "a_sound a \<longrightarrow> a_sound a3 \<and> a_written a3 = a_written a @ d"
        using s w2 b(3,4) a2(4) \<open>e = d\<close> by auto
      ultimately show ?thesis using b(2) by blast
    next
      case False
      have "length (drop n d) < length d" using False chunk(2) by simp
      from less.hyps [OF this a2(1)] obtain b a' where l: "aliased_loop wr new (drop n d) a2 = Some (b, a')" "a_ok a'"
        "b \<longrightarrow> a_sound a2 \<longrightarrow> a_sound a' \<and> a_written a' = a_written a2 @ drop n d" by blast
      have "aliased_loop wr new d a = Some (b, a')"
        using r p False l(1) by (subst aliased_loop.simps) (simp add: a2_def e_def)
      moreover have "b \<longrightarrow> a_sound a \<longrightarrow> a_sound a' \<and> a_written a' = a_written a @ d"
      proof (intro impI)
        assume "b" "a_sound a"
        moreover have "length e = n" using False by (simp add: e_def)
        ultimately have "a_sound a2" "a_written a2 = a_written a @ e" using s w2 a2(4) by auto
        with l(3) \<open>b\<close> show "a_sound a' \<and> a_written a' = a_written a @ d" by (simp add: e_def)
      qed
      ultimately show ?thesis using l(2) by blast
    qed
  qed
qed

lemma WriteAliasedRaw_spec:
  assumes "a_ok a" "\<And>n. length (new n) = n"
  shows "\<exists>b a'. CopyingOutputStreamAdaptor_WriteAliasedRaw wr new d a = Some (b, a') \<and> a_ok a' \<and>
    (b \<longrightarrow> a_sound a \<longrightarrow> a_sound a' \<and> a_written a' = a_written a @ d)"
proof (cases "int (length d) \<ge> output_buffer_size a")
  case False
  with aliased_loop_spec [OF assms] show ?thesis by (simp add: CopyingOutputStreamAdaptor_WriteAliasedRaw_def)
next
  case True
  obtain b a1 where f: "WriteBuffer wr a = Some (b, a1)" "a_ok a1" "b \<longrightarrow> output_buffer_used a1 = 0"
    "b \<longrightarrow> a_sound a \<longrightarrow> a_sound a1 \<and> sunk (copying_output a1) = a_written a" using WriteBuffer_spec [OF assms(1)] by blast
  obtain c t where w: "wr d (copying_output a1) = Some (c, t)" "ok t" "c \<longrightarrow> sunk t = sunk (copying_output a1) @ d"
    using write_returns [of "copying_output a1" d] f(2) by (auto simp: adaptor_ok_def)
  show ?thesis
  proof (cases "b \<and> c")
    case True': True
    let ?a = "a1\<lparr>copying_output := t, output_position := output_position a1 + int (length d)\<rparr>"
    have "CopyingOutputStreamAdaptor_WriteAliasedRaw wr new d a = Some (True, ?a)"
      using True True' f(1) w(1) by (simp add: CopyingOutputStreamAdaptor_WriteAliasedRaw_def CopyingOutputStreamAdaptor_Flush_def)
    moreover have "a_ok ?a" using f(2) w(2) by (cases "output_buffer a1") (simp_all add: adaptor_ok_def)
    moreover have "a_sound a \<longrightarrow> a_sound ?a \<and> a_written ?a = a_written a @ d"
    proof
      assume "a_sound a"
      with f(4) w(3) True' have "a_sound a1" "sunk t = sunk (copying_output a1) @ d" "sunk (copying_output a1) = a_written a" by blast+
      moreover from this(1,2) have "a_sound ?a" by (simp add: adaptor_sound_def)
      moreover have "a_written ?a = sunk t" using f(3) True' by (simp add: adaptor_written_def)
      ultimately show "a_sound ?a \<and> a_written ?a = a_written a @ d" by simp
    qed
    ultimately show ?thesis by (intro exI [of _ True] exI [of _ ?a]) simp
  next
    case False
    have "a_ok (a1\<lparr>copying_output := t\<rparr>)" using f(2) w(2) by (cases "output_buffer a1") (simp_all add: adaptor_ok_def)
    moreover have "CopyingOutputStreamAdaptor_WriteAliasedRaw wr new d a = Some (False, if b then a1\<lparr>copying_output := t\<rparr> else a1)"
      using True False f(1) w(1) by (simp add: CopyingOutputStreamAdaptor_WriteAliasedRaw_def CopyingOutputStreamAdaptor_Flush_def)
    ultimately show ?thesis using f(2) by auto
  qed
qed

text \<open>The adaptor keeps the contract over every such stream.\<close>

lemma adaptor_contract:
  assumes "\<And>n. length (new n) = n"
  shows "zero_copy_output (adaptor_output wr new) a_ok a_sound a_written adaptor_chunk (\<lambda>_. 0)"
proof
  fix s
  assume "a_ok s"
  from Next_spec [OF this assms] show "\<exists>r s'. Output_Next (adaptor_output wr new) s = Some (r, s') \<and> a_ok s' \<and>
      (case r of None \<Rightarrow> True
       | Some (a, n) \<Rightarrow> adaptor_chunk s' a n \<and> (n = 0 \<longrightarrow> 0 < (0 :: nat)) \<and>
          (a_sound s \<longrightarrow> a_sound s' \<and> (\<exists>fresh. a_written s' = a_written s @ fresh \<and> length fresh = n)))"
    by (fastforce simp: adaptor_output_def split: option.splits prod.splits)
next
  fix s a n k
  assume "a_ok s" "adaptor_chunk s a n" "0 < k" "k \<le> n"
  with BackUp_spec [of s a n k] show "\<exists>s'. Output_BackUp (adaptor_output wr new) (int k) s = Some s' \<and> a_ok s' \<and>
      (a_sound s \<longrightarrow> a_sound s' \<and> a_written s' = take (length (a_written s) - k) (a_written s))"
    by (auto simp: adaptor_output_def)
next
  fix s a n
  assume a: "a_ok s" "adaptor_chunk s a n"
  show "a + n \<le> length (memory (adaptor_output wr new) s) \<and>
      (a_sound s \<longrightarrow> (\<exists>before. a_written s = before @ bytes_at a n (memory (adaptor_output wr new) s)))"
    using chunk_bounds [OF a] chunk_written [OF a] by (auto simp: adaptor_output_def)
next
  fix s a n m
  assume "a_ok s" "adaptor_chunk s a n" "agree_outside a n (memory (adaptor_output wr new) s) m"
  then show "a_ok (set_memory (adaptor_output wr new) m s) \<and>
      memory (adaptor_output wr new) (set_memory (adaptor_output wr new) m s) = m \<and>
      adaptor_chunk (set_memory (adaptor_output wr new) m s) = adaptor_chunk s \<and>
      (a_sound (set_memory (adaptor_output wr new) m s) \<longleftrightarrow> a_sound s) \<and> (0 :: nat) = 0 \<and>
      (a_sound s \<longrightarrow> a_written (set_memory (adaptor_output wr new) m s) =
        take (length (a_written s) - n) (a_written s) @ bytes_at a n m)"
    using set_memory_spec [of s a n m] by (simp add: adaptor_output_def)
next
  fix s d
  assume "a_ok s"
  from WriteAliasedRaw_spec [OF this assms] show "\<exists>b s'. WriteAliasedRaw (adaptor_output wr new) d s = Some (b, s') \<and> a_ok s' \<and>
        (b \<longrightarrow> a_sound s \<longrightarrow> a_sound s' \<and> a_written s' = a_written s @ d)"
    by (simp add: adaptor_output_def)
next
  fix s
  assume "a_ok s" "a_sound s"
  then show "Output_ByteCount (adaptor_output wr new) s = int (length (a_written s))"
    by (auto simp: adaptor_output_def CopyingOutputStreamAdaptor_ByteCount_def adaptor_defs split: option.splits)
qed

end

section \<open>Errors\<close>

lemma array_errors_permanent: "errors_permanent array_output array_output_ok"
  by (auto simp: errors_permanent_def array_output_def ArrayOutputStream_Next_def Let_def split: if_splits)

text \<open>A string stream never fails.\<close>

lemma string_errors_permanent: "errors_permanent (string_output grow) (\<lambda>_. True)"
  by (auto simp: errors_permanent_def string_output_def StringOutputStream_Next_def Let_def)

text \<open>The \<open>Next\<close> of a copying stream that meets an error fails, and the one after it succeeds, as the buffer has been
  freed.\<close>

lemma adaptor_error:
  assumes "CopyingOutputStreamAdaptor_Next wr new a = Some (None, a')" "0 < output_buffer_size a"
  shows "output_failed a'"
    "\<not> output_failed a \<Longrightarrow> \<exists>a''. CopyingOutputStreamAdaptor_Next wr new a' = Some (Some (0, nat (output_buffer_size a)), a'')"
  using assms
  by (auto simp: CopyingOutputStreamAdaptor_Next_def WriteBuffer_def Output_FreeBuffer_def Output_AllocateBufferIfNeeded_def Let_def
      split: if_splits bind_splits)

text \<open>But the error is recorded: from then on nothing reaches the copying stream any more.\<close>

definition stays_failed :: "'t CopyingOutputStreamAdaptor \<Rightarrow> 't CopyingOutputStreamAdaptor \<Rightarrow> bool" where
  "stays_failed a a' \<longleftrightarrow> output_failed a' \<and> copying_output a' = copying_output a"

lemma WriteBuffer_failed: "output_failed a \<Longrightarrow> WriteBuffer wr a = Some (False, a)"
  by (simp add: WriteBuffer_def)

lemma Next_failed: "output_failed a \<Longrightarrow> CopyingOutputStreamAdaptor_Next wr new a = Some (r, a') \<Longrightarrow> stays_failed a a'"
  by (auto simp: stays_failed_def CopyingOutputStreamAdaptor_Next_def WriteBuffer_failed Output_AllocateBufferIfNeeded_def Let_def
      split: if_splits)

lemma BackUp_failed: "output_failed a \<Longrightarrow> CopyingOutputStreamAdaptor_BackUp n a = Some a' \<Longrightarrow> stays_failed a a'"
  by (auto simp: stays_failed_def CopyingOutputStreamAdaptor_BackUp_def split: if_splits)

lemma set_memory_failed: "output_failed a \<Longrightarrow> stays_failed a (adaptor_set_memory m a)"
  by (simp add: stays_failed_def adaptor_set_memory_def)

lemma stays_failed_trans: "stays_failed a b \<Longrightarrow> stays_failed b c \<Longrightarrow> stays_failed a c"
  by (simp add: stays_failed_def)

lemma aliased_loop_failed:
  assumes "aliased_loop wr new d a = Some (b, a')" "output_failed a"
  shows "stays_failed a a'"
proof -
  have "output_failed a \<longrightarrow> stays_failed a (snd r)" if "aliased_loop wr new d a = Some r" for r
    using that
  proof (rule aliased_loop.raw_induct [where P = "\<lambda>wr new d a r. output_failed a \<longrightarrow> stays_failed a (snd r)", rotated], intro impI)
    fix again and wr :: "'a copying_output" and new d a r
    assume IH: "\<And>(wr :: 'a copying_output) new d a r. again wr new d a = Some r \<Longrightarrow> output_failed a \<longrightarrow> stays_failed a (snd r)"
      and body: "do { (r, a) \<leftarrow> CopyingOutputStreamAdaptor_Next wr new a;
        case r of None \<Rightarrow> Some (False, a)
        | Some (out, n) \<Rightarrow>
            if length d \<le> n then do {
              a \<leftarrow> CopyingOutputStreamAdaptor_BackUp (int n - int (length d)) (adaptor_set_memory (overwrite out d (adaptor_memory a)) a);
              Some (True, a)
            } else again wr new (drop n d) (adaptor_set_memory (overwrite out (take n d) (adaptor_memory a)) a) } = Some r"
      and failed: "output_failed a"
    from body obtain c a1 where n: "CopyingOutputStreamAdaptor_Next wr new a = Some (c, a1)" by (auto split: bind_splits)
    have a1: "stays_failed a a1" by (rule Next_failed [OF failed n])
    then have m: "stays_failed a (adaptor_set_memory m a1)" for m
      using set_memory_failed [of a1 m] stays_failed_trans by (auto simp: stays_failed_def)
    show "stays_failed a (snd r)"
    proof (cases c)
      case None
      with body n a1 show ?thesis by auto
    next
      case (Some p)
      then obtain x k where c: "c = Some (x, k)" by (cases p) simp
      let ?m = "\<lambda>e. adaptor_set_memory (overwrite x e (adaptor_memory a1)) a1"
      from m have f: "output_failed (?m e)" for e by (simp add: stays_failed_def)
      show ?thesis
      proof (cases "length d \<le> k")
        case True
        with body n c obtain a2 where "CopyingOutputStreamAdaptor_BackUp (int k - int (length d)) (?m d) = Some a2" "r = (True, a2)"
          by (auto split: bind_splits)
        with stays_failed_trans [OF m BackUp_failed [OF f]] show ?thesis by simp
      next
        case False
        with body n c have "again wr new (drop k d) (?m (take k d)) = Some r" by simp
        with IH f stays_failed_trans [OF m] show ?thesis by blast
      qed
    qed
  qed
  with assms show ?thesis by auto
qed

lemma WriteAliasedRaw_failed:
  "output_failed a \<Longrightarrow> CopyingOutputStreamAdaptor_WriteAliasedRaw wr new d a = Some (b, a') \<Longrightarrow> stays_failed a a'"
  by (auto simp: CopyingOutputStreamAdaptor_WriteAliasedRaw_def CopyingOutputStreamAdaptor_Flush_def WriteBuffer_failed stays_failed_def
      split: if_splits dest: aliased_loop_failed)

text \<open>The operations of an output stream, for a statement about each of them.\<close>

definition output_step :: "'s ZeroCopyOutputStream \<Rightarrow> 's \<Rightarrow> 's \<Rightarrow> bool" where
  "output_step ops s s' \<longleftrightarrow> (\<exists>r. Output_Next ops s = Some (r, s')) \<or> (\<exists>n. Output_BackUp ops n s = Some s') \<or>
     (\<exists>d b. WriteAliasedRaw ops d s = Some (b, s')) \<or> (\<exists>m. s' = set_memory ops m s)"

lemma step_failed: "output_failed a \<Longrightarrow> output_step (adaptor_output wr new) a a' \<Longrightarrow> stays_failed a a'"
  unfolding output_step_def adaptor_output_def
  by (auto intro: Next_failed BackUp_failed WriteAliasedRaw_failed set_memory_failed)

text \<open>A failed write of data that are passed through without the buffer is returned, but not recorded.\<close>

lemma aliased_error_not_recorded:
  "output_buffer_size a \<le> int (length d) \<Longrightarrow> WriteBuffer wr a = Some (True, a1) \<Longrightarrow> wr d (copying_output a1) = Some (False, t) \<Longrightarrow>
    CopyingOutputStreamAdaptor_WriteAliasedRaw wr new d a = Some (False, a1\<lparr>copying_output := t\<rparr>)"
  by (simp add: CopyingOutputStreamAdaptor_WriteAliasedRaw_def CopyingOutputStreamAdaptor_Flush_def)

end
