(* ===== verification/Varint.thy ===== *)
theory Varint
  imports Prelude
begin

text \<open>
  Varints as bytes: the writers of io/coded_stream.h and .cc (\<open>UnsafeVarint\<close>, the out-of-line helper,
  \<open>UnsafeWriteSize\<close>), their sizes (\<open>VarintSize32\<close>, \<open>VarintSize64\<close> over \<open>Log2FloorNonZero\<close> of
  stubs/port.h), and the two readers from an array, unrolled and by known size, of
  io/coded_stream.cc. A writer's result is the list of bytes from \<open>ptr\<close> on; a reader works on the
  bytes from \<open>buffer\<close> on, and reading past their end is a result of its own.
\<close>

section \<open>Writers\<close>

text \<open>\<open>ptr[-1] |= 0x80\<close> on the bytes written so far.\<close>

definition or_last :: "byte list \<Rightarrow> byte list" where
  "or_last out = out[length out - 1 := last out OR 0x80]"

text \<open>\<open>do { ptr[-1] |= 0x80; value >>= 7; *ptr = value; ++ptr; } while (value >= 0x80);\<close>\<close>

function varint_do_while :: "'a::len word \<Rightarrow> byte list \<Rightarrow> byte list" where
  "varint_do_while value out =
     (let out = or_last out; value' = drop_bit 7 value; out = out @ [ucast value']
      in if unat value' \<ge> 0x80 then varint_do_while value' out else out)"
  by pat_completeness auto
termination
proof (relation "measure (\<lambda>(value, out). unat value)")
  fix v :: "'a word" and xa out xb
  assume "xa = drop_bit 7 v" "0x80 \<le> unat xa"
  then have "unat xa = unat v div 128" "0 < unat v" by (auto simp only: unat_drop_bit_div) simp_all
  then show "((xa, xb), v, out) \<in> measure (\<lambda>(value, out). unat value)" by simp
qed simp

declare varint_do_while.simps [simp del]

definition UnsafeVarint :: "'a::len word \<Rightarrow> byte list" where
  "UnsafeVarint value =
     (if unat value < 0x80 then [ucast value]
      else let out = [ucast value OR 0x80]; value = drop_bit 7 value; out = out @ [ucast value]
           in if unat value < 0x80 then out else varint_do_while value out)"

definition WriteVarint32ToArray :: "uint32 \<Rightarrow> byte list" where
  "WriteVarint32ToArray value = UnsafeVarint value"

definition WriteVarint64ToArray :: "uint64 \<Rightarrow> byte list" where
  "WriteVarint64ToArray value = UnsafeVarint value"

text \<open>The out-of-line version, whose helper finds the first byte already written.\<close>

definition WriteVarint32ToArrayOutOfLineHelper :: "uint32 \<Rightarrow> byte list \<Rightarrow> byte list" where
  "WriteVarint32ToArrayOutOfLineHelper value out =
     (let out = or_last out; value = drop_bit 7 value; out = out @ [ucast value]
      in if value < 0x80 then out else varint_do_while value out)"

definition WriteVarint32ToArrayOutOfLine :: "uint32 \<Rightarrow> byte list" where
  "WriteVarint32ToArrayOutOfLine value =
     (let out = [ucast value] in
      if value < 0x80 then out else WriteVarint32ToArrayOutOfLineHelper value out)"

text \<open>An int32 is sign-extended to 64 bits.\<close>

definition WriteVarint32SignExtendedToArray :: "uint32 \<Rightarrow> byte list" where
  "WriteVarint32SignExtendedToArray value = WriteVarint64ToArray (scast value)"

function UnsafeWriteSize :: "uint32 \<Rightarrow> byte list" where
  "UnsafeWriteSize value =
     (if value \<ge> 0x80 then ucast (value OR 0x80) # UnsafeWriteSize (drop_bit 7 value) else [ucast value])"
  by pat_completeness auto
termination
proof (relation "measure unat")
  fix v :: uint32
  assume "0x80 \<le> v"
  then have "128 \<le> unat v" by (simp add: word_le_nat_alt)
  moreover have "unat (drop_bit 7 v) = unat v div 2 ^ 7" by (rule unat_drop_bit_div)
  ultimately show "(drop_bit 7 v, v) \<in> measure unat" by simp
qed simp

declare UnsafeWriteSize.simps [simp del]

section \<open>Sizes\<close>

text \<open>The portable \<open>Log2FloorNonZero\<close>; the compiler builtins compute the same function.\<close>

definition log2_step :: "nat \<Rightarrow> uint32 \<times> int \<Rightarrow> uint32 \<times> int" where
  "log2_step i = (\<lambda>(value, log).
     let shift = 2 ^ i; x = drop_bit shift value in
     if x \<noteq> 0 then (x, log + int shift) else (value, log))"

definition Log2FloorNonZero_Portable :: "uint32 \<Rightarrow> int" where
  "Log2FloorNonZero_Portable n =
     (if n = 0 then - 1 else snd (fold log2_step [4, 3, 2, 1, 0] (n, 0)))"

definition Log2FloorNonZero64_Portable :: "uint64 \<Rightarrow> int" where
  "Log2FloorNonZero64_Portable n =
     (let topbits = ucast (drop_bit 32 n) :: uint32 in
      if topbits = 0 then Log2FloorNonZero_Portable (ucast n)
      else 32 + Log2FloorNonZero_Portable topbits)"

definition VarintSize32 :: "uint32 \<Rightarrow> nat" where
  "VarintSize32 value =
     (let log2value = of_int (Log2FloorNonZero_Portable (value OR 0x1)) :: uint32
      in unat ((log2value * 9 + 73) div 64))"

definition VarintSize64 :: "uint64 \<Rightarrow> nat" where
  "VarintSize64 value =
     (let log2value = of_int (Log2FloorNonZero64_Portable (value OR 0x1)) :: uint32
      in unat ((log2value * 9 + 73) div 64))"

definition VarintSize32SignExtended :: "uint32 \<Rightarrow> nat" where
  "VarintSize32SignExtended value = (if sint value < 0 then 10 else VarintSize32 value)"

section \<open>Readers\<close>

text \<open>A value with the bytes behind it, a varint of more than ten bytes, or a read past the end.\<close>

datatype 'v varint_read = VarintOk 'v "byte list" | VarintBad | VarintPastEnd

fun map_varint :: "('v \<Rightarrow> 'w) \<Rightarrow> 'v varint_read \<Rightarrow> 'w varint_read" where
  "map_varint f (VarintOk v r) = VarintOk (f v) r"
| "map_varint f VarintBad = VarintBad"
| "map_varint f VarintPastEnd = VarintPastEnd"

text \<open>The loop over the bytes beyond 32 bits.\<close>

fun discard_high :: "nat \<Rightarrow> uint32 \<Rightarrow> byte list \<Rightarrow> uint32 varint_read" where
  "discard_high 0 result ptr = VarintBad"
| "discard_high (Suc i) result [] = VarintPastEnd"
| "discard_high (Suc i) result (b # ptr) =
     (if (ucast b :: uint32) AND 0x80 = 0 then VarintOk result ptr else discard_high i result ptr)"

text \<open>One unrolled step: \<open>b = *(ptr++); result += b << k; if (!(b & 0x80)) goto done;\<close> and what follows.\<close>

definition add_byte ::
    "nat \<Rightarrow> uint32 \<Rightarrow> byte list \<Rightarrow> (uint32 \<Rightarrow> byte list \<Rightarrow> uint32 varint_read) \<Rightarrow> uint32 varint_read" where
  "add_byte k result ptr continue =
     (case ptr of [] \<Rightarrow> VarintPastEnd
      | b # ptr \<Rightarrow>
          (let b = ucast b; result = result + push_bit k b in
           if b AND 0x80 = 0 then VarintOk result ptr else continue result ptr))"

definition ReadVarint32FromArray :: "uint32 \<Rightarrow> byte list \<Rightarrow> uint32 varint_read" where
  "ReadVarint32FromArray first_byte buffer =
     (let result = first_byte - 0x80; ptr = tl buffer in
      add_byte 7 result ptr (\<lambda>result ptr.
      add_byte 14 (result - push_bit 7 0x80) ptr (\<lambda>result ptr.
      add_byte 21 (result - push_bit 14 0x80) ptr (\<lambda>result ptr.
      add_byte 28 (result - push_bit 21 0x80) ptr (\<lambda>result ptr.
      discard_high (10 - 5) result ptr)))))"

definition DecodeVarint64KnownSize :: "nat \<Rightarrow> byte list \<Rightarrow> uint64" where
  "DecodeVarint64KnownSize N buffer =
     fold (\<lambda>i result. result + push_bit (7 * i) (ucast (buffer ! i) - 0x80)) [0..<N - 1]
       (push_bit (7 * (N - 1)) (ucast (buffer ! (N - 1))))"

text \<open>The tests \<open>buffer[n - 1] < 128\<close> for \<open>n\<close> from 2 to 10.\<close>

fun known_sizes :: "byte list \<Rightarrow> nat list \<Rightarrow> uint64 varint_read" where
  "known_sizes buffer [] = VarintBad"
| "known_sizes buffer (n # ns) =
     (if length buffer < n then VarintPastEnd
      else if buffer ! (n - 1) < 128 then
        VarintOk (DecodeVarint64KnownSize n buffer) (drop n buffer)
      else known_sizes buffer ns)"

definition ReadVarint64FromArray :: "byte list \<Rightarrow> uint64 varint_read" where
  "ReadVarint64FromArray buffer = known_sizes buffer [2, 3, 4, 5, 6, 7, 8, 9, 10]"

section \<open>The reference\<close>

text \<open>The base-128 digits of a number, and reading at most \<open>k\<close> of them.\<close>

fun varint_bytes :: "nat \<Rightarrow> byte list" where
  "varint_bytes n =
     (if n < 128 then [of_nat n] else of_nat (128 + n mod 128) # varint_bytes (n div 128))"

declare varint_bytes.simps [simp del]

fun parse_varint :: "nat \<Rightarrow> byte list \<Rightarrow> nat varint_read" where
  "parse_varint 0 bs = VarintBad"
| "parse_varint (Suc k) [] = VarintPastEnd"
| "parse_varint (Suc k) (b # bs) =
     (if b < 128 then VarintOk (unat b) bs
      else map_varint (\<lambda>v. unat b - 128 + 128 * v) (parse_varint k bs))"

section \<open>The writers write base-128 digits\<close>

lemma unat_drop7: "unat (drop_bit 7 w) = unat w div 128"
  using unat_drop_bit_div [of 7 w] by simp

lemma byte_eqI: "unat a = unat b \<Longrightarrow> a = (b :: byte)"
  by (simp add: word_unat_eq_iff)

lemma unat_byte_of_nat: "unat (of_nat n :: byte) = n mod 256"
  by (simp add: unat_of_nat)

lemma continuation_byte: "ucast (w :: 'a::len word) OR 0x80 = (of_nat (128 + unat w mod 128) :: byte)"
proof (rule byte_eqI)
  have "unat w mod 256 mod 128 = unat w mod 128" by (simp add: mod_mod_cancel)
  moreover have "128 + unat w mod 128 < 256" by simp
  ultimately show "unat (ucast w OR (0x80 :: byte)) = unat (of_nat (128 + unat w mod 128) :: byte)"
    by (simp only: unat_or_80 unat_ucast_byte unat_byte_of_nat mod_less)
qed

lemma last_byte: "unat w < 128 \<Longrightarrow> ucast (w :: 'a::len word) = (of_nat (unat w) :: byte)"
  by (rule byte_eqI) (simp add: unat_ucast_byte unat_byte_of_nat)

lemma or_last_append: "or_last (out @ [b]) = out @ [b OR 0x80]"
  by (simp add: or_last_def)

lemma varint_bytes_small: "n < 128 \<Longrightarrow> varint_bytes n = [of_nat n]"
  by (subst varint_bytes.simps) simp

lemma varint_bytes_large: "128 \<le> n \<Longrightarrow> varint_bytes n = of_nat (128 + n mod 128) # varint_bytes (n div 128)"
  by (subst varint_bytes.simps) simp

lemma varint_do_while_bytes:
  "128 \<le> unat v \<Longrightarrow> varint_do_while v (out @ [ucast v]) = out @ varint_bytes (unat v)"
proof (induction "unat v" arbitrary: v out rule: less_induct)
  case less
  let ?w = "drop_bit 7 v"
  have step: "varint_do_while v (out @ [ucast v]) =
    (if 128 \<le> unat ?w then varint_do_while ?w ((out @ [ucast v OR 0x80]) @ [ucast ?w])
     else (out @ [ucast v OR 0x80]) @ [ucast ?w])"
    by (subst varint_do_while.simps) (simp only: Let_def or_last_append)
  have w: "unat ?w = unat v div 128" by (rule unat_drop7)
  show ?case
  proof (cases "128 \<le> unat ?w")
    case True
    then have "varint_do_while ?w ((out @ [ucast v OR 0x80]) @ [ucast ?w]) = (out @ [ucast v OR 0x80]) @ varint_bytes (unat ?w)"
      using less.prems by (intro less.hyps) (simp_all add: w)
    with True show ?thesis
      using less.prems
      by (simp only: step if_True varint_bytes_large [of "unat v"] continuation_byte w append_assoc append_Cons append_Nil)
  next
    case False
    then have "unat v div 128 < 128" by (simp only: w not_le)
    with False show ?thesis
      using less.prems
      by (simp only: step if_False varint_bytes_large [of "unat v"] continuation_byte last_byte [of ?w] varint_bytes_small w
          append_assoc append_Cons append_Nil)
  qed
qed

lemma UnsafeVarint_bytes: "UnsafeVarint v = varint_bytes (unat v)"
proof -
  let ?w = "drop_bit 7 v"
  have w: "unat ?w = unat v div 128" by (rule unat_drop7)
  consider "unat v < 128" | "128 \<le> unat v" "unat ?w < 128" | "128 \<le> unat v" "128 \<le> unat ?w" by linarith
  then show ?thesis
  proof cases
    case 1
    then have "UnsafeVarint v = [ucast v]" by (simp add: UnsafeVarint_def)
    with 1 show ?thesis by (simp only: last_byte varint_bytes_small)
  next
    case 2
    then have "UnsafeVarint v = [ucast v OR 0x80, ucast ?w]" by (simp add: UnsafeVarint_def Let_def)
    with 2 show ?thesis
      by (simp only: varint_bytes_large [of "unat v"] continuation_byte last_byte varint_bytes_small w)
  next
    case 3
    then have "UnsafeVarint v = varint_do_while ?w ([ucast v OR 0x80] @ [ucast ?w])"
      by (simp add: UnsafeVarint_def Let_def)
    with 3 varint_do_while_bytes [of ?w "[ucast v OR 0x80]"] show ?thesis
      by (simp only: varint_bytes_large [of "unat v"] continuation_byte w append_Cons append_Nil)
  qed
qed

lemma UnsafeWriteSize_bytes: "UnsafeWriteSize v = varint_bytes (unat v)"
proof (induction v rule: UnsafeWriteSize.induct)
  case (1 v)
  have "ucast (v OR 0x80) = (ucast v OR 0x80 :: byte)"
    by (rule bit_eqI) (auto simp: bit_simps)
  then have c: "ucast (v OR 0x80) = (of_nat (128 + unat v mod 128) :: byte)" by (simp only: continuation_byte)
  show ?case
  proof (cases "0x80 \<le> v")
    case True
    then have "128 \<le> unat v" by (simp add: word_le_nat_alt)
    then have "varint_bytes (unat v) = of_nat (128 + unat v mod 128) # varint_bytes (unat v div 128)"
      by (rule varint_bytes_large)
    moreover have "UnsafeWriteSize (drop_bit 7 v) = varint_bytes (unat v div 128)"
      using 1 [OF True] by (simp only: unat_drop7)
    ultimately show ?thesis
      using True by (subst UnsafeWriteSize.simps) (simp only: if_True c)
  next
    case False
    then have "unat v < 128" by (simp add: word_le_nat_alt)
    with False show ?thesis
      by (subst UnsafeWriteSize.simps) (simp only: if_False last_byte varint_bytes_small)
  qed
qed

lemma unat_numeral_byte: "unat (0x80 :: uint32) = 0x80"
  by simp

lemma OutOfLine_bytes: "WriteVarint32ToArrayOutOfLine v = varint_bytes (unat v)"
proof -
  have "WriteVarint32ToArrayOutOfLine v = UnsafeVarint v"
    using or_last_append [of "[]" "ucast v"]
    by (simp only: WriteVarint32ToArrayOutOfLine_def WriteVarint32ToArrayOutOfLineHelper_def UnsafeVarint_def
        word_less_nat_alt Let_def append_Nil unat_numeral_byte)
  then show ?thesis by (simp add: UnsafeVarint_bytes)
qed

section \<open>Lengths\<close>

lemma varint_bytes_nonempty [simp]: "varint_bytes n \<noteq> []"
  by (subst varint_bytes.simps) simp

lemma length_varint_bytes:
  "n < 128 ^ Suc k \<Longrightarrow> k = 0 \<or> 128 ^ k \<le> n \<Longrightarrow> length (varint_bytes n) = Suc k"
proof (induction k arbitrary: n)
  case (Suc k)
  then have large: "128 ^ Suc k \<le> n" by simp
  have "(128::nat) ^ 1 \<le> 128 ^ Suc k" by (rule power_increasing) simp_all
  from this large have "128 ^ 1 \<le> n" by (rule order_trans)
  then have "128 \<le> n" by simp
  moreover have "n div 128 < 128 ^ Suc k" using Suc.prems(1) by (simp add: less_mult_imp_div_less mult.commute)
  moreover have "128 ^ k \<le> n div 128" using large by (simp add: less_eq_div_iff_mult_less_eq mult.commute)
  ultimately show ?case using Suc.IH [of "n div 128"] by (simp add: varint_bytes_large)
qed (simp add: varint_bytes_small)

text \<open>The floor of the binary logarithm, one halving of the width at a time.\<close>

lemma log2_step_correct:
  assumes "unat v = N div 2 ^ l" "0 < unat v" "unat v < 2 ^ (2 * 2 ^ i)"
  obtains v' l' where "log2_step i (v, int l) = (v', int l')"
    "unat v' = N div 2 ^ l'" "0 < unat v'" "unat v' < 2 ^ 2 ^ i"
proof -
  let ?x = "drop_bit (2 ^ i) v"
  have x: "unat ?x = unat v div 2 ^ 2 ^ i" by (rule unat_drop_bit_div)
  have zero: "?x = 0 \<longleftrightarrow> unat ?x = 0" by (simp add: unat_eq_0)
  show thesis
  proof (cases "?x = 0")
    case True
    with zero have "unat ?x = 0" by blast
    with x have "unat v div 2 ^ 2 ^ i = 0" by metis
    then have "unat v < 2 ^ 2 ^ i" by (simp add: div_eq_0_iff)
    with True assms show ?thesis by (intro that [of v l]) (simp_all add: log2_step_def Let_def)
  next
    case False
    with zero have "0 < unat ?x" by blast
    moreover have "unat ?x = N div 2 ^ (l + 2 ^ i)" by (simp only: x assms(1) power_add div_mult2_eq)
    moreover have "unat ?x < 2 ^ 2 ^ i"
      using assms(3) by (simp only: x) (simp add: less_mult_imp_div_less mult_2 power_add)
    ultimately show ?thesis
      using False by (intro that [of ?x "l + 2 ^ i"]) (simp_all add: log2_step_def Let_def)
  qed
qed

definition floor_log2 :: "nat \<Rightarrow> nat \<Rightarrow> bool" where
  "floor_log2 n l \<longleftrightarrow> 2 ^ l \<le> n \<and> n < 2 ^ Suc l"

lemma floor_log2_div: "n div 2 ^ l = 1 \<Longrightarrow> floor_log2 n l"
proof -
  assume "n div 2 ^ l = 1"
  moreover have "n = n div 2 ^ l * 2 ^ l + n mod 2 ^ l" "n mod 2 ^ l < 2 ^ l"
    by (simp_all only: div_mult_mod_eq) simp
  ultimately have "n = 2 ^ l + n mod 2 ^ l" "n mod 2 ^ l < 2 ^ l" by simp_all
  then show ?thesis unfolding floor_log2_def power_Suc by linarith
qed

lemma Log2FloorNonZero_correct:
  assumes "n \<noteq> 0"
  obtains l where "Log2FloorNonZero_Portable n = int l" "floor_log2 (unat n) l"
proof -
  have n: "unat n = unat n div 2 ^ 0" "0 < unat n" "unat n < 2 ^ (2 * 2 ^ 4)"
    using assms unsigned_less [of n, where 'a = nat] by (simp_all add: unat_gt_0)
  obtain v4 l4 where 4: "log2_step 4 (n, int 0) = (v4, int l4)"
    "unat v4 = unat n div 2 ^ l4" "0 < unat v4" "unat v4 < 2 ^ 2 ^ 4" by (rule log2_step_correct [OF n])
  obtain v3 l3 where 3: "log2_step 3 (v4, int l4) = (v3, int l3)"
    "unat v3 = unat n div 2 ^ l3" "0 < unat v3" "unat v3 < 2 ^ 2 ^ 3"
    by (rule log2_step_correct [OF 4(2) 4(3), of 3]) (use 4(4) in simp_all)
  obtain v2 l2 where 2: "log2_step 2 (v3, int l3) = (v2, int l2)"
    "unat v2 = unat n div 2 ^ l2" "0 < unat v2" "unat v2 < 2 ^ 2 ^ 2"
    by (rule log2_step_correct [OF 3(2) 3(3), of 2]) (use 3(4) in simp_all)
  obtain v1 l1 where 1: "log2_step 1 (v2, int l2) = (v1, int l1)"
    "unat v1 = unat n div 2 ^ l1" "0 < unat v1" "unat v1 < 2 ^ 2 ^ 1"
    by (rule log2_step_correct [OF 2(2) 2(3), of 1]) (use 2(4) in simp_all)
  obtain v0 l0 where 0: "log2_step 0 (v1, int l1) = (v0, int l0)"
    "unat v0 = unat n div 2 ^ l0" "0 < unat v0" "unat v0 < 2 ^ 2 ^ 0"
    by (rule log2_step_correct [OF 1(2) 1(3), of 0]) (use 1(4) in simp_all)
  have "unat n div 2 ^ l0 = 1" using 0(2-4) by simp
  moreover have "Log2FloorNonZero_Portable n = int l0"
    using assms 4(1) 3(1) 2(1) 1(1) 0(1) by (simp add: Log2FloorNonZero_Portable_def)
  ultimately show thesis by (intro that floor_log2_div)
qed

lemma Log2FloorNonZero64_correct:
  assumes "n \<noteq> 0"
  obtains l where "Log2FloorNonZero64_Portable n = int l" "floor_log2 (unat n) l"
proof -
  let ?t = "ucast (drop_bit 32 n) :: uint32"
  have d: "unat (drop_bit 32 n) = unat n div 2 ^ 32" by (rule unat_drop_bit_div)
  have "unat n < 2 ^ 32 * 2 ^ 32" using unsigned_less [of n, where 'a = nat] by simp
  then have "unat n div 2 ^ 32 < 2 ^ 32" by (rule less_mult_imp_div_less)
  then have t: "unat ?t = unat n div 2 ^ 32" by (simp only: unat_ucast_down d)
  show thesis
  proof (cases "?t = 0")
    case True
    then have "unat n div 2 ^ 32 = 0" using t by simp
    then have small: "unat (ucast n :: uint32) = unat n" by (intro unat_ucast_down) (simp add: div_eq_0_iff)
    moreover have "unat n \<noteq> 0" using assms by (simp add: unat_eq_0)
    ultimately have "(ucast n :: uint32) \<noteq> 0" by (metis unsigned_0)
    then obtain l where "Log2FloorNonZero_Portable (ucast n) = int l" "floor_log2 (unat (ucast n :: uint32)) l"
      by (rule Log2FloorNonZero_correct)
    with True small show ?thesis
      by (intro that [of l]) (simp_all add: Log2FloorNonZero64_Portable_def)
  next
    case False
    then obtain l where l: "Log2FloorNonZero_Portable ?t = int l" "floor_log2 (unat ?t) l"
      by (rule Log2FloorNonZero_correct)
    have "floor_log2 (unat n) (32 + l)"
    proof -
      let ?q = "unat n div 2 ^ 32"
      have n: "unat n = ?q * 2 ^ 32 + unat n mod 2 ^ 32" by (simp only: div_mult_mod_eq)
      have q: "2 ^ l \<le> ?q" "?q + 1 \<le> 2 ^ Suc l" using l(2) by (simp_all add: t floor_log2_def)
      then have "2 ^ l * 2 ^ 32 \<le> ?q * 2 ^ 32" by (simp only: mult_le_mono1)
      with n have lower: "2 ^ l * 2 ^ 32 \<le> unat n" by (metis trans_le_add1)
      have "r < 2 ^ 32 \<Longrightarrow> ?q * 2 ^ 32 + r < (?q + 1) * 2 ^ 32" for r by simp
      with n have "unat n < (?q + 1) * 2 ^ 32" by (metis mod_less_divisor zero_less_numeral zero_less_power)
      also have "\<dots> \<le> 2 ^ Suc l * 2 ^ 32" using q(2) by (rule mult_le_mono1)
      finally have "unat n < 2 ^ Suc l * 2 ^ 32" .
      with lower have "2 ^ l * 2 ^ 32 \<le> unat n" "unat n < 2 ^ Suc l * 2 ^ 32" by simp_all
      then show ?thesis by (simp add: floor_log2_def power_add mult.commute)
    qed
    with False l(1) show ?thesis
      by (intro that [of "32 + l"]) (simp_all add: Log2FloorNonZero64_Portable_def)
  qed
qed

text \<open>\<open>(log2value * 9 + 73) / 64\<close> is one more than a seventh of the logarithm.\<close>

lemma size_of_log: "l < 64 \<Longrightarrow> unat (((of_int (int l) :: uint32) * 9 + 73) div 64) = Suc (l div 7)"
proof -
  assume "l < 64"
  moreover have "list_all (\<lambda>l. unat (((of_int (int l) :: uint32) * 9 + 73) div 64) = Suc (l div 7)) [0..<64]"
    by code_simp
  ultimately show ?thesis by (simp only: list_all_iff set_upt ball_simps atLeastLessThan_iff) auto
qed

lemma unat_or_1: "unat (w OR 1) = (if even (unat w) then unat w + 1 else unat w)"
  by (simp only: unsigned_or_eq unsigned_1) (simp add: or_Suc_0_eq)

lemma floor_log2_length:
  assumes "floor_log2 (unat (w OR 1)) l"
  shows "length (varint_bytes (unat w)) = Suc (l div 7)"
proof (rule length_varint_bytes)
  have "2 ^ Suc l \<le> (2::nat) ^ (7 * Suc (l div 7))" by (rule power_increasing) simp_all
  moreover have "unat w \<le> unat (w OR 1)" by (simp add: unat_or_1)
  ultimately have "unat w < 2 ^ (7 * Suc (l div 7))" using assms unfolding floor_log2_def by linarith
  then show "unat w < 128 ^ Suc (l div 7)" by (simp only: power_mult) simp
  show "l div 7 = 0 \<or> 128 ^ (l div 7) \<le> unat w"
  proof (cases "l div 7")
    case (Suc k)
    have "2 ^ (7 * (l div 7)) \<le> (2::nat) ^ l" by (rule power_increasing) simp_all
    then have "2 ^ (7 * (l div 7)) \<le> unat (w OR 1)" using assms unfolding floor_log2_def by linarith
    moreover have "even ((2::nat) ^ (7 * (l div 7)))" using Suc by simp
    moreover have "odd (unat (w OR 1))" by (simp add: unat_or_1)
    moreover have "unat (w OR 1) \<le> Suc (unat w)" by (simp add: unat_or_1)
    ultimately have "2 ^ (7 * (l div 7)) \<le> unat w" by (metis le_SucE le_trans order_le_less less_Suc_eq_le)
    then show ?thesis by (simp only: power_mult) simp
  qed simp
qed

lemma floor_log2_bound: "floor_log2 n l \<Longrightarrow> n < 2 ^ k \<Longrightarrow> l < k"
proof -
  assume "floor_log2 n l" "n < 2 ^ k"
  then have "(2::nat) ^ l < 2 ^ k" unfolding floor_log2_def by linarith
  then show ?thesis by simp
qed

lemma or_1_nonzero: "w OR 1 \<noteq> (0 :: 'a::len word)"
  by (metis bit_or_iff bit_1_iff bit_0_eq bot_apply possible_bit_0 or_eq_0_iff zero_neq_one)

lemma VarintSize32_length: "VarintSize32 v = length (varint_bytes (unat v))"
proof -
  obtain l where l: "Log2FloorNonZero_Portable (v OR 1) = int l" "floor_log2 (unat (v OR 1)) l"
    by (rule Log2FloorNonZero_correct [OF or_1_nonzero])
  have "unat (v OR 1) < 2 ^ 32" using unsigned_less [of "v OR 1", where 'a = nat] by simp
  with l(2) have "l < 32" by (rule floor_log2_bound)
  with l(1) have "VarintSize32 v = Suc (l div 7)"
    by (simp only: VarintSize32_def Let_def size_of_log)
  then show ?thesis using floor_log2_length [OF l(2)] by simp
qed

lemma VarintSize64_length: "VarintSize64 v = length (varint_bytes (unat v))"
proof -
  obtain l where l: "Log2FloorNonZero64_Portable (v OR 1) = int l" "floor_log2 (unat (v OR 1)) l"
    by (rule Log2FloorNonZero64_correct [OF or_1_nonzero])
  have "unat (v OR 1) < 2 ^ 64" using unsigned_less [of "v OR 1", where 'a = nat] by simp
  with l(2) have "l < 64" by (rule floor_log2_bound)
  with l(1) have "VarintSize64 v = Suc (l div 7)"
    by (simp only: VarintSize64_def Let_def size_of_log)
  then show ?thesis using floor_log2_length [OF l(2)] by simp
qed

lemma VarintSize32SignExtended_length:
  "VarintSize32SignExtended v = length (WriteVarint32SignExtendedToArray v)"
proof (cases "sint v < 0")
  case True
  have "uint (scast v :: uint64) = sint v mod 2 ^ 64" by (simp only: scast_eq uint_word_of_int) simp
  moreover have "sint v mod 2 ^ 64 = sint v + 2 ^ 64"
    using True sint_ge [of v] mod_add_self2 [of "sint v" "2 ^ 64"]
      mod_pos_pos_trivial [of "sint v + 2 ^ 64" "2 ^ 64"] by simp
  ultimately have "uint (scast v :: uint64) \<ge> 2 ^ 63" using sint_ge [of v] by simp
  then have "nat (2 ^ 63) \<le> nat (uint (scast v :: uint64))" by (rule nat_mono)
  then have "2 ^ 63 \<le> unat (scast v :: uint64)" by (simp only: nat_uint_eq) simp
  moreover have "unat (scast v :: uint64) < 2 ^ 64" using unsigned_less [of "scast v :: uint64", where 'a = nat] by simp
  ultimately have "length (varint_bytes (unat (scast v :: uint64))) = Suc 9" by (intro length_varint_bytes) simp_all
  with True show ?thesis
    by (simp add: VarintSize32SignExtended_def WriteVarint32SignExtendedToArray_def WriteVarint64ToArray_def UnsafeVarint_bytes)
next
  case False
  have "uint (scast v :: uint64) = sint v mod 2 ^ 64" by (simp only: scast_eq uint_word_of_int) simp
  with False have "uint (scast v :: uint64) = sint v" using sint_lt [of v] by simp
  then have "unat (scast v :: uint64) = nat (sint v)" by (metis nat_uint_eq)
  also have "\<dots> = unat v" using False by (intro unat_nonnegative [symmetric]) simp
  finally have "unat (scast v :: uint64) = unat v" .
  with False show ?thesis
    by (simp add: VarintSize32SignExtended_def WriteVarint32SignExtendedToArray_def WriteVarint64ToArray_def
        UnsafeVarint_bytes VarintSize32_length)
qed

section \<open>The readers parse base-128 digits\<close>

lemma map_varint_map_varint: "map_varint f (map_varint g r) = map_varint (\<lambda>v. f (g v)) r"
  by (cases r) simp_all

lemma map_varint_past_end [simp]: "map_varint f r = VarintPastEnd \<longleftrightarrow> r = VarintPastEnd"
  by (cases r) simp_all

lemma map_varint_ident: "map_varint (\<lambda>v. v) r = r"
  by (cases r) simp_all

text \<open>The value of the first \<open>m\<close> bytes when all of them continue.\<close>

definition prefix_val :: "nat \<Rightarrow> byte list \<Rightarrow> nat" where
  "prefix_val m bs = (\<Sum>i<m. 128 ^ i * (unat (bs ! i) - 128))"

lemma prefix_val_Cons: "prefix_val (Suc m) (b # bs) = unat b - 128 + 128 * prefix_val m bs"
  unfolding prefix_val_def by (subst sum.lessThan_Suc_shift) (simp add: sum_distrib_left mult.assoc)

lemma parse_varint_prefix:
  assumes "m \<le> k" "m \<le> length bs" "\<And>i. i < m \<Longrightarrow> \<not> bs ! i < 128"
  shows "parse_varint k bs = map_varint (\<lambda>v. prefix_val m bs + 128 ^ m * v) (parse_varint (k - m) (drop m bs))"
  using assms
proof (induction m arbitrary: k bs)
  case 0
  then show ?case by (simp add: prefix_val_def map_varint_ident)
next
  case (Suc m)
  obtain b bs' where bs: "bs = b # bs'" using Suc.prems(2) by (cases bs) auto
  obtain j where k: "k = Suc j" using Suc.prems(1) by (cases k) auto
  have b: "\<not> b < 128" using Suc.prems(3) [of 0] by (simp add: bs)
  have "parse_varint j bs' = map_varint (\<lambda>v. prefix_val m bs' + 128 ^ m * v) (parse_varint (j - m) (drop m bs'))"
    using Suc.prems(1,2) by (intro Suc.IH) (simp_all add: bs k, use Suc.prems(3) [of "Suc _"] in \<open>simp add: bs\<close>)
  then show ?case
    by (simp add: bs k b map_varint_map_varint prefix_val_Cons algebra_simps)
qed

lemma fold_add_sum: "fold (\<lambda>i r. r + f i) [0..<n] a = (a :: 'a::comm_monoid_add) + (\<Sum>i<n. f i)"
  by (induction n) (simp_all add: add.assoc)

lemma unat_128_le: "\<not> b < 128 \<longleftrightarrow> 128 \<le> unat b" for b :: byte
  by (simp add: word_less_nat_alt not_less)

lemma ucast_of_nat: "ucast (w :: 'a::len word) = (of_nat (unat w) :: 'b::len word)"
  by simp

lemma byte_minus_128: "\<not> b < 128 \<Longrightarrow> ucast b - 0x80 = (of_nat (unat b - 128) :: 'a::len word)" for b :: byte
  by (simp only: unat_128_le ucast_of_nat [of b] of_nat_diff of_nat_numeral)

lemma push_bit_word: "push_bit (7 * i) (w :: 'a::len word) = of_nat (128 ^ i) * w"
proof -
  have "(2 :: 'a word) ^ (7 * i) = (2 ^ 7) ^ i" by (rule power_mult)
  then show ?thesis by (simp add: push_bit_eq_mult mult.commute)
qed

lemma DecodeVarint64KnownSize_val:
  assumes "\<And>i. i < m \<Longrightarrow> \<not> buf ! i < 128"
  shows "DecodeVarint64KnownSize (Suc m) buf = of_nat (prefix_val m buf + 128 ^ m * unat (buf ! m))"
proof -
  have "(\<Sum>i<m. push_bit (7 * i) (ucast (buf ! i) - 0x80 :: uint64)) =
      (\<Sum>i<m. of_nat (128 ^ i * (unat (buf ! i) - 128)))"
  proof (rule sum.cong)
    fix i
    assume "i \<in> {..<m}"
    then have "ucast (buf ! i) - 0x80 = (of_nat (unat (buf ! i) - 128) :: uint64)"
      by (intro byte_minus_128 assms) simp
    then show "push_bit (7 * i) (ucast (buf ! i) - 0x80 :: uint64) = of_nat (128 ^ i * (unat (buf ! i) - 128))"
      by (simp only: push_bit_word of_nat_mult)
  qed simp
  then show ?thesis
    by (simp only: DecodeVarint64KnownSize_def fold_add_sum diff_Suc_1 prefix_val_def of_nat_add of_nat_sum of_nat_mult
        ucast_of_nat [of "buf ! m"] push_bit_word add.commute)
qed

lemma known_sizes_parse:
  assumes "m \<le> 10" "m \<le> length buf" "\<And>i. i < m \<Longrightarrow> \<not> buf ! i < 128"
  shows "known_sizes buf [Suc m..<11] = map_varint of_nat (parse_varint 10 buf)"
  using assms
proof (induction "10 - m" arbitrary: m)
  case 0
  then have "m = 10" by simp
  with 0 show ?case using parse_varint_prefix [of 10 10 buf] by simp
next
  case (Suc k)
  then have m: "m < 10" by simp
  then obtain j where j: "10 - m = Suc j" by (metis Suc_diff_Suc)
  note parse = parse_varint_prefix [of m 10 buf, OF Suc.prems(1,2,3)]
  have upt: "[Suc m..<11] = Suc m # [Suc (Suc m)..<11]" using m by (simp add: upt_conv_Cons)
  show ?case
  proof (cases "length buf = m")
    case True
    then have "parse_varint 10 buf = VarintPastEnd" by (simp add: parse j)
    with True show ?thesis by (simp only: upt known_sizes.simps) simp
  next
    case False
    with Suc.prems(2) have len: "m < length buf" by simp
    then have "drop m buf = buf ! m # drop (Suc m) buf" by (simp add: Cons_nth_drop_Suc)
    note parse' = parse [unfolded this j]
    show ?thesis
    proof (cases "buf ! m < 128")
      case True
      then have "known_sizes buf (Suc m # [Suc (Suc m)..<11]) =
          VarintOk (DecodeVarint64KnownSize (Suc m) buf) (drop (Suc m) buf)"
        using len by (simp only: known_sizes.simps) simp
      with True show ?thesis
        by (simp only: upt parse' parse_varint.simps if_True map_varint.simps
            DecodeVarint64KnownSize_val [of m buf, OF Suc.prems(3)])
    next
      case False
      then have "known_sizes buf (Suc m # [Suc (Suc m)..<11]) = known_sizes buf [Suc (Suc m)..<11]"
        using len by (simp only: known_sizes.simps) simp
      also have "\<dots> = map_varint of_nat (parse_varint 10 buf)"
        using Suc.hyps(2) m len False Suc.prems(3) by (intro Suc.hyps(1)) (auto simp: less_Suc_eq)
      finally show ?thesis by (simp only: upt)
    qed
  qed
qed

lemma ReadVarint64FromArray_parse:
  "buf \<noteq> [] \<Longrightarrow> \<not> buf ! 0 < 128 \<Longrightarrow> ReadVarint64FromArray buf = map_varint of_nat (parse_varint 10 buf)"
proof -
  assume "buf \<noteq> []" "\<not> buf ! 0 < 128"
  then have "known_sizes buf [Suc 1..<11] = map_varint of_nat (parse_varint 10 buf)"
    by (intro known_sizes_parse) (simp_all add: Suc_le_eq)
  moreover have "[Suc 1..<11] = [2, 3, 4, 5, 6, 7, 8, 9, 10]" by (simp add: upt_rec)
  ultimately show ?thesis by (simp add: ReadVarint64FromArray_def)
qed

lemma and_80_zero: "(ucast b :: uint32) AND 0x80 = 0 \<longleftrightarrow> b < 128" for b :: byte
proof -
  have "(ucast b :: uint32) AND 0x80 = 0 \<longleftrightarrow> \<not> bit b 7"
    using and_exp_eq_0_iff_not_bit [of "ucast b :: uint32" 7] by (simp add: bit_ucast_iff)
  also have "\<dots> \<longleftrightarrow> unat b div 2 ^ 7 mod 2 = 0"
    by (simp only: bit_unat [symmetric] bit_iff_odd even_iff_mod_2_eq_zero not_not)
  also have "\<dots> \<longleftrightarrow> unat b < 128"
    using unsigned_less [of b, where 'a = nat] by simp linarith
  finally show ?thesis by (simp add: word_less_nat_alt)
qed

text \<open>One unrolled step adds seven more bits of the number.\<close>

lemma add_byte_parse:
  assumes "\<And>(b :: byte) ptr. \<not> b < 128 \<Longrightarrow>
    continue (of_nat (acc + 128 ^ m * unat b)) ptr =
      map_varint (\<lambda>v. of_nat (acc + 128 ^ m * (unat b - 128) + 128 ^ Suc m * v)) (parse_varint k ptr)"
  shows "add_byte (7 * m) (of_nat acc) ptr continue =
    map_varint (\<lambda>v. of_nat (acc + 128 ^ m * v)) (parse_varint (Suc k) ptr)"
proof (cases ptr)
  case (Cons b ptr')
  have result: "of_nat acc + push_bit (7 * m) (ucast b) = (of_nat (acc + 128 ^ m * unat b) :: uint32)"
    by (simp only: push_bit_word ucast_of_nat [of b] of_nat_add of_nat_mult)
  show ?thesis
  proof (cases "b < 128")
    case True
    with Cons show ?thesis by (simp only: add_byte_def list.case Let_def result and_80_zero if_True
          parse_varint.simps map_varint.simps)
  next
    case False
    have "128 ^ m * (unat b - 128 + 128 * v) = 128 ^ m * (unat b - 128) + 128 ^ Suc m * v" for v
      by (simp add: algebra_simps)
    with False assms [of b ptr', OF False] Cons show ?thesis
      by (simp only: add_byte_def list.case Let_def result and_80_zero if_False
          parse_varint.simps map_varint_map_varint add.assoc)
  qed
qed (simp add: add_byte_def)

lemma discard_high_parse: "discard_high k result ptr = map_varint (\<lambda>v. result) (parse_varint k ptr)"
  by (induction k result ptr rule: discard_high.induct) (simp_all add: and_80_zero map_varint_map_varint)

lemma unat_high: "\<not> b < 128 \<Longrightarrow> unat b = unat b - 128 + 128" for b :: byte
  unfolding unat_128_le by linarith

lemma clear_top:
  "\<not> b < 128 \<Longrightarrow> of_nat (acc + 128 ^ m * unat b) - push_bit (7 * m) 0x80 =
     (of_nat (acc + 128 ^ m * (unat b - 128)) :: uint32)" for b :: byte
proof -
  assume "\<not> b < 128"
  then have "unat b = unat b - 128 + 128" by (rule unat_high)
  then have "acc + 128 ^ m * unat b = acc + 128 ^ m * (unat b - 128) + 128 ^ m * 128"
    by (metis add.assoc distrib_left)
  moreover have "push_bit (7 * m) 0x80 = (of_nat (128 ^ m * 128) :: uint32)"
    by (simp only: push_bit_word of_nat_mult of_nat_numeral)
  ultimately show ?thesis by (simp only: of_nat_add add_diff_cancel_right')
qed

lemma of_nat_128_5: "of_nat (128 ^ 5) = (0 :: uint32)"
proof -
  have "(2 :: uint32) ^ 32 = 0" using word_exp_length_eq_0 [where 'a = 32] by simp
  then show ?thesis by simp
qed

lemma high_bits_vanish: "of_nat (n + 128 ^ 5 * v) = (of_nat n :: uint32)"
  by (simp only: of_nat_add of_nat_mult of_nat_128_5 mult_zero_left add_0_right)

lemma top_bit_vanishes:
  "\<not> b < 128 \<Longrightarrow> of_nat (n + 128 ^ 4 * (unat b - 128)) = (of_nat (n + 128 ^ 4 * unat b) :: uint32)" for b :: byte
proof -
  assume "\<not> b < 128"
  then have "unat b = unat b - 128 + 128" by (rule unat_high)
  then have "n + 128 ^ 4 * unat b = n + 128 ^ 4 * (unat b - 128) + 128 ^ 4 * 128"
    by (metis add.assoc distrib_left)
  also have "(128 :: nat) ^ 4 * 128 = 128 ^ 5 * 1" by simp
  finally show ?thesis by (simp only: high_bits_vanish)
qed

lemma ReadVarint32FromArray_parse:
  assumes "\<not> b < 128"
  shows "ReadVarint32FromArray (ucast b) (b # ptr) = map_varint of_nat (parse_varint 10 (b # ptr))"
proof -
  have suc: "Suc 1 = 2" "Suc 2 = 3" "Suc 3 = 4" "Suc 4 = 5" by simp_all
  have s4: "add_byte (7 * 4) (of_nat acc) ptr (\<lambda>result ptr. discard_high 5 result ptr) =
      map_varint (\<lambda>v. of_nat (acc + 128 ^ 4 * v)) (parse_varint (Suc 5) ptr)" for acc ptr
    by (rule add_byte_parse) (simp only: discard_high_parse suc high_bits_vanish top_bit_vanishes not_False_eq_True)
  have s3: "add_byte (7 * 3) (of_nat acc) ptr (\<lambda>result ptr.
       add_byte (7 * 4) (result - push_bit (7 * 3) 0x80) ptr (\<lambda>result ptr. discard_high 5 result ptr)) =
      map_varint (\<lambda>v. of_nat (acc + 128 ^ 3 * v)) (parse_varint (Suc (Suc 5)) ptr)" for acc ptr
    by (rule add_byte_parse) (simp only: clear_top s4 suc not_False_eq_True)
  have s2: "add_byte (7 * 2) (of_nat acc) ptr (\<lambda>result ptr.
       add_byte (7 * 3) (result - push_bit (7 * 2) 0x80) ptr (\<lambda>result ptr.
       add_byte (7 * 4) (result - push_bit (7 * 3) 0x80) ptr (\<lambda>result ptr. discard_high 5 result ptr))) =
      map_varint (\<lambda>v. of_nat (acc + 128 ^ 2 * v)) (parse_varint (Suc (Suc (Suc 5))) ptr)" for acc ptr
    by (rule add_byte_parse) (simp only: clear_top s3 suc not_False_eq_True)
  have s1: "add_byte (7 * 1) (of_nat acc) ptr (\<lambda>result ptr.
       add_byte (7 * 2) (result - push_bit (7 * 1) 0x80) ptr (\<lambda>result ptr.
       add_byte (7 * 3) (result - push_bit (7 * 2) 0x80) ptr (\<lambda>result ptr.
       add_byte (7 * 4) (result - push_bit (7 * 3) 0x80) ptr (\<lambda>result ptr. discard_high 5 result ptr)))) =
      map_varint (\<lambda>v. of_nat (acc + 128 ^ 1 * v)) (parse_varint (Suc (Suc (Suc (Suc 5)))) ptr)" for acc ptr
    by (rule add_byte_parse) (simp only: clear_top s2 suc not_False_eq_True)
  have "ReadVarint32FromArray (ucast b) (b # ptr) =
      map_varint (\<lambda>v. of_nat (unat b - 128 + 128 ^ 1 * v)) (parse_varint 9 ptr)"
    using s1 [of "unat b - 128" ptr]
    by (simp add: ReadVarint32FromArray_def byte_minus_128 [OF assms, symmetric])
  also have "parse_varint (Suc 9) (b # ptr) = map_varint (\<lambda>v. unat b - 128 + 128 * v) (parse_varint 9 ptr)"
    using assms by (simp only: parse_varint.simps if_False)
  then have "map_varint (\<lambda>v. of_nat (unat b - 128 + 128 ^ 1 * v)) (parse_varint 9 ptr) =
      map_varint of_nat (parse_varint 10 (b # ptr))"
    by (simp add: map_varint_map_varint)
  finally show ?thesis .
qed

section \<open>Reading what was written\<close>

lemma parse_varint_bytes: "n < 128 ^ k \<Longrightarrow> 0 < k \<Longrightarrow> parse_varint k (varint_bytes n @ r) = VarintOk n r"
proof (induction k arbitrary: n)
  case (Suc k)
  show ?case
  proof (cases "n < 128")
    case True
    then have "(of_nat n :: byte) < 128" by (simp add: word_less_nat_alt unat_byte_of_nat)
    with True show ?thesis by (simp add: varint_bytes_small unat_byte_of_nat)
  next
    case False
    let ?b = "of_nat (128 + n mod 128) :: byte"
    have "128 + n mod 128 < 256" by simp
    then have b: "unat ?b = 128 + n mod 128" by (simp only: unat_byte_of_nat mod_less)
    then have "\<not> ?b < 128" unfolding unat_128_le by linarith
    moreover have "parse_varint k (varint_bytes (n div 128) @ r) = VarintOk (n div 128) r"
      using Suc.prems(1) False by (intro Suc.IH) (auto simp: less_mult_imp_div_less mult.commute intro: Suc_leI gr0I)
    moreover have "128 + n mod 128 - 128 + 128 * (n div 128) = n" by simp
    moreover have "varint_bytes n = ?b # varint_bytes (n div 128)" using False by (intro varint_bytes_large) simp
    ultimately show ?thesis by (simp only: append_Cons parse_varint.simps if_False map_varint.simps b)
  qed
qed simp

lemma parse_varint_past_end:
  "parse_varint k bs = VarintPastEnd \<longleftrightarrow> length bs < k \<and> (\<forall>b \<in> set bs. \<not> b < 128)"
proof (induction k bs rule: parse_varint.induct)
  case (3 k b bs)
  then show ?case by (cases "parse_varint k bs") auto
qed auto

lemma parse_varint_ok: "parse_varint k bs = VarintOk n r \<Longrightarrow>
    n < 128 ^ k \<and> (\<exists>d. bs = d @ r \<and> d \<noteq> [] \<and> length d \<le> k)"
proof (induction k bs arbitrary: n rule: parse_varint.induct)
  case (3 k b bs)
  show ?case
  proof (cases "b < 128")
    case True
    with "3.prems" have "n = unat b" "r = bs" by auto
    moreover have "unat b < 128 * 128 ^ k"
    proof -
      have "unat b < 128" using True by (simp add: word_less_nat_alt)
      also have "128 * 1 \<le> 128 * (128 :: nat) ^ k" by (intro mult_le_mono2) simp
      finally show ?thesis by simp
    qed
    ultimately show ?thesis by (intro conjI exI [of _ "[b]"]) simp_all
  next
    case False
    with "3.prems" obtain v where v: "parse_varint k bs = VarintOk v r" "n = unat b - 128 + 128 * v"
      by (cases "parse_varint k bs") auto
    from "3.IH" [OF False v(1)] obtain d where "v < 128 ^ k" "bs = d @ r" "d \<noteq> []" "length d \<le> k" by blast
    moreover have "unat b < 256" using unsigned_less [of b, where 'a = nat] by simp
    ultimately show ?thesis using v(2) by (intro conjI exI [of _ "b # d"]) simp_all
  qed
qed auto

lemma varint_bytes_first: "128 \<le> n \<Longrightarrow> \<exists>b bs. varint_bytes n = b # bs \<and> \<not> b < 128"
proof -
  assume "128 \<le> n"
  have "128 + n mod 128 < 256" by simp
  then have "unat (of_nat (128 + n mod 128) :: byte) = 128 + n mod 128" by (simp only: unat_byte_of_nat mod_less)
  then have "\<not> (of_nat (128 + n mod 128) :: byte) < 128" unfolding unat_128_le by linarith
  with \<open>128 \<le> n\<close> show ?thesis by (intro exI conjI) (erule varint_bytes_large)
qed

section \<open>Properties\<close>

text \<open>C35. Every writer of a varint produces the same bytes, the base-128 digits of the value: the
  inlined template at both widths, the out-of-line version with its helper, and the size writer.\<close>

theorem varint_writers:
  "WriteVarint32ToArray v = varint_bytes (unat v) \<and> WriteVarint32ToArrayOutOfLine v = varint_bytes (unat v) \<and>
   UnsafeWriteSize v = varint_bytes (unat v) \<and> WriteVarint64ToArray w = varint_bytes (unat w)"
  by (simp add: WriteVarint32ToArray_def WriteVarint64ToArray_def UnsafeVarint_bytes OutOfLine_bytes UnsafeWriteSize_bytes)

text \<open>The size functions return the number of bytes written, which the branch-free logarithm
  formula computes for every value of either width: at most 5 bytes of 32 bits, 10 of 64 bits, and
  10 for every negative int32.\<close>

theorem varint_sizes:
  "VarintSize32 v = length (WriteVarint32ToArray v) \<and> VarintSize64 w = length (WriteVarint64ToArray w) \<and>
   VarintSize32SignExtended v = length (WriteVarint32SignExtendedToArray v)"
  by (simp add: VarintSize32_length VarintSize64_length VarintSize32SignExtended_length
      WriteVarint32ToArray_def WriteVarint64ToArray_def UnsafeVarint_bytes)

text \<open>C32. The unrolled 32-bit reader and the known-size 64-bit reader agree with reading at most ten
  base-128 digits one at a time: the same success, the same rest, the value modulo the width.\<close>

theorem varint_readers:
  assumes "\<not> b < 128"
  shows "ReadVarint64FromArray (b # bs) = map_varint of_nat (parse_varint 10 (b # bs)) \<and>
    ReadVarint32FromArray (ucast b) (b # bs) = map_varint of_nat (parse_varint 10 (b # bs))"
  using assms ReadVarint64FromArray_parse [of "b # bs"] ReadVarint32FromArray_parse [of b bs] by simp

theorem varint_readers_witness:
  "ReadVarint64FromArray [0xAC, 0x02, 0xFF] = VarintOk 300 [0xFF] \<and>
   ReadVarint32FromArray (ucast (0xAC :: byte)) [0xAC, 0x02, 0xFF] = VarintOk 300 [0xFF]"
proof -
  have "map_varint of_nat (parse_varint 10 [0xAC, 0x02, 0xFF]) = VarintOk (300 :: uint64) [0xFF]"
    "map_varint of_nat (parse_varint 10 [0xAC, 0x02, 0xFF]) = VarintOk (300 :: uint32) [0xFF]" by code_simp+
  with varint_readers [of "0xAC" "[0x02, 0xFF]"] show ?thesis by simp
qed

text \<open>A varint of either width that needs more than one byte reads back as it was written, with
  whatever follows it left over.\<close>

theorem varint_roundtrip:
  assumes "128 \<le> unat w"
  shows "ReadVarint64FromArray (WriteVarint64ToArray w @ r) = VarintOk w r"
proof -
  obtain b bs where first: "varint_bytes (unat w) = b # bs" "\<not> b < 128" using varint_bytes_first [OF assms] by blast
  have "unat w < 128 ^ 10" using unsigned_less [of w, where 'a = nat] by simp
  then have "parse_varint 10 (varint_bytes (unat w) @ r) = VarintOk (unat w) r" by (rule parse_varint_bytes) simp
  with first ReadVarint64FromArray_parse [of "varint_bytes (unat w) @ r"] show ?thesis
    by (simp add: WriteVarint64ToArray_def UnsafeVarint_bytes)
qed

theorem varint_roundtrip_witness: "ReadVarint64FromArray (WriteVarint64ToArray 300 @ [1]) = VarintOk 300 [1]"
  by (rule varint_roundtrip) simp

text \<open>Under the guard of the fast path (ten bytes are buffered, or the last buffered byte ends a
  varint) neither reader looks past the end of the buffer.\<close>

theorem varint_fast_path_safe:
  assumes "\<not> b < 128" "10 \<le> length (b # bs) \<or> last (b # bs) < 128"
  shows "ReadVarint64FromArray (b # bs) \<noteq> VarintPastEnd \<and> ReadVarint32FromArray (ucast b) (b # bs) \<noteq> VarintPastEnd"
proof -
  have "parse_varint 10 (b # bs) \<noteq> VarintPastEnd"
  proof
    assume "parse_varint 10 (b # bs) = VarintPastEnd"
    then have "length (b # bs) < 10" "\<forall>x \<in> set (b # bs). \<not> x < 128" unfolding parse_varint_past_end by simp_all
    moreover have "last (b # bs) \<in> set (b # bs)" by (rule last_in_set) simp
    ultimately show False using assms(2) by auto
  qed
  then show ?thesis
    using assms(1) ReadVarint64FromArray_parse [of "b # bs"] ReadVarint32FromArray_parse [of b bs]
    by (simp del: parse_varint.simps)
qed

theorem varint_fast_path_safe_witness:
  "ReadVarint64FromArray [0xAC, 0x02] \<noteq> VarintPastEnd \<and>
   ReadVarint32FromArray (ucast (0xAC :: byte)) [0xAC, 0x02] \<noteq> VarintPastEnd"
  by (rule varint_fast_path_safe) simp_all

end
