(* ===== verification/Eps_Copy.thy ===== *)
theory Eps_Copy
  imports Zero_Copy_Output Varint
begin

text \<open>
  \<open>EpsCopyOutputStream\<close> and \<open>CodedOutputStream\<close> of io/coded_stream.h and io/coded_stream.cc. The
  stream lets its user write 16 bytes without a check: the last 16 bytes of a chunk, and chunks too
  small, are written in a patch buffer of 32 bytes from which they are copied. A pointer is a position in
  the patch buffer or in the memory of the stream below (of the array, without a stream); comparing
  pointers into different memories, writing or reading outside, or using a null stream gives \<open>None\<close>.
\<close>

section \<open>Pointers and memory\<close>

datatype pointer = Patch int | Chunk int

fun ptr_add :: "pointer \<Rightarrow> int \<Rightarrow> pointer" where
  "ptr_add (Patch i) n = Patch (i + n)"
| "ptr_add (Chunk i) n = Chunk (i + n)"

fun ptr_diff :: "pointer \<Rightarrow> pointer \<Rightarrow> int option" where
  "ptr_diff (Patch i) (Patch j) = Some (i - j)"
| "ptr_diff (Chunk i) (Chunk j) = Some (i - j)"
| "ptr_diff _ _ = None"

definition kSlopBytes :: int where "kSlopBytes = 16"

record 's EpsCopyOutputStream =
  end_ptr :: pointer
  buffer_end :: "pointer option"
  patch :: "byte list"
  eps_stream :: "'s option"
  flat_array :: "byte list"
  had_error :: bool
  aliasing_enabled :: bool
  serialization_deterministic :: bool

text \<open>Writing and reading through a pointer; nothing happens when the length is zero.\<close>

definition write_mem ::
    "'s ZeroCopyOutputStream \<Rightarrow> pointer \<Rightarrow> byte list \<Rightarrow> 's EpsCopyOutputStream \<Rightarrow> 's EpsCopyOutputStream option" where
  "write_mem ops p data e =
     (if data = [] then Some e
      else case p of
        Patch i \<Rightarrow> if 0 \<le> i \<and> nat i + length data \<le> length (patch e) then Some (e\<lparr>patch := overwrite (nat i) data (patch e)\<rparr>) else None
      | Chunk i \<Rightarrow>
          if i < 0 then None
          else case eps_stream e of
            None \<Rightarrow>
              if nat i + length data \<le> length (flat_array e)
              then Some (e\<lparr>flat_array := overwrite (nat i) data (flat_array e)\<rparr>) else None
          | Some s \<Rightarrow> do { s \<leftarrow> store ops (nat i) data s; Some (e\<lparr>eps_stream := Some s\<rparr>) })"

definition read_mem ::
    "'s ZeroCopyOutputStream \<Rightarrow> pointer \<Rightarrow> int \<Rightarrow> 's EpsCopyOutputStream \<Rightarrow> byte list option" where
  "read_mem ops p n e =
     (if n = 0 then Some []
      else if n < 0 then None
      else case p of
        Patch i \<Rightarrow> if 0 \<le> i \<and> nat i + nat n \<le> length (patch e) then Some (bytes_at (nat i) (nat n) (patch e)) else None
      | Chunk i \<Rightarrow>
          if i < 0 then None
          else case eps_stream e of
            None \<Rightarrow> if nat i + nat n \<le> length (flat_array e) then Some (bytes_at (nat i) (nat n) (flat_array e)) else None
          | Some s \<Rightarrow> load ops (nat i) (nat n) s)"

section \<open>Constructors\<close>

text \<open>The contents of the patch buffer are not initialised: \<open>m\<close>.\<close>

definition EpsCopyOutputStream :: "byte list \<Rightarrow> 's \<Rightarrow> bool \<Rightarrow> pointer \<times> 's EpsCopyOutputStream" where
  "EpsCopyOutputStream m s deterministic =
     (Patch 0, \<lparr>end_ptr = Patch 0, buffer_end = Some (Patch 0), patch = m, eps_stream = Some s, flat_array = [],
        had_error = False, aliasing_enabled = False, serialization_deterministic = deterministic\<rparr>)"

definition EpsCopyOutputStream_array :: "byte list \<Rightarrow> byte list \<Rightarrow> int \<Rightarrow> bool \<Rightarrow> 's EpsCopyOutputStream" where
  "EpsCopyOutputStream_array m data n deterministic =
     \<lparr>end_ptr = Chunk n, buffer_end = None, patch = m, eps_stream = None, flat_array = data,
        had_error = False, aliasing_enabled = False, serialization_deterministic = deterministic\<rparr>"

definition SetInitialBuffer :: "pointer \<Rightarrow> int \<Rightarrow> 's EpsCopyOutputStream \<Rightarrow> pointer \<times> 's EpsCopyOutputStream" where
  "SetInitialBuffer p n e =
     (if n > kSlopBytes then (p, e\<lparr>end_ptr := ptr_add p (n - kSlopBytes), buffer_end := None\<rparr>)
      else (Patch 0, e\<lparr>end_ptr := Patch n, buffer_end := Some p\<rparr>))"

definition EpsCopyOutputStream_eager ::
    "byte list \<Rightarrow> pointer \<Rightarrow> int \<Rightarrow> 's \<Rightarrow> bool \<Rightarrow> pointer \<times> 's EpsCopyOutputStream" where
  "EpsCopyOutputStream_eager m p n s deterministic =
     SetInitialBuffer p n (snd (EpsCopyOutputStream m s deterministic))"

section \<open>Changing buffers\<close>

definition GetSize :: "pointer \<Rightarrow> 's EpsCopyOutputStream \<Rightarrow> int option" where
  "GetSize p e = do { d \<leftarrow> ptr_diff (end_ptr e) p; Some (d + kSlopBytes) }"

definition Eps_Error :: "'s EpsCopyOutputStream \<Rightarrow> pointer \<times> 's EpsCopyOutputStream" where
  "Eps_Error e = (Patch 0, e\<lparr>had_error := True, end_ptr := Patch kSlopBytes\<rparr>)"

text \<open>\<open>do \<dots> stream_->Next(&data, &size) \<dots> while (size == 0)\<close>.\<close>

partial_function (option) next_chunk :: "'s ZeroCopyOutputStream \<Rightarrow> 's \<Rightarrow> ((nat \<times> nat) option \<times> 's) option" where
  "next_chunk ops s =
     do {
       (r, s) \<leftarrow> Output_Next ops s;
       case r of Some (a, n) \<Rightarrow> if n = 0 then next_chunk ops s else Some (r, s) | None \<Rightarrow> Some (r, s)
     }"

declare next_chunk.simps [code]

definition Eps_Next ::
    "'s ZeroCopyOutputStream \<Rightarrow> 's EpsCopyOutputStream \<Rightarrow> (pointer \<times> 's EpsCopyOutputStream) option" where
  "Eps_Next ops e =
     (if eps_stream e = None then Some (Eps_Error e)
      else case buffer_end e of
        Some b \<Rightarrow> do {
          n \<leftarrow> ptr_diff (end_ptr e) (Patch 0);
          d \<leftarrow> read_mem ops (Patch 0) n e;
          e \<leftarrow> write_mem ops b d e;
          s \<leftarrow> eps_stream e;
          (r, s) \<leftarrow> next_chunk ops s;
          let e = e\<lparr>eps_stream := Some s\<rparr>;
          case r of
            None \<Rightarrow> Some (Eps_Error e)
          | Some (a, n) \<Rightarrow> do {
              d \<leftarrow> read_mem ops (end_ptr e) kSlopBytes e;
              if int n > kSlopBytes then do {
                e \<leftarrow> write_mem ops (Chunk (int a)) d e;
                Some (Chunk (int a), e\<lparr>end_ptr := Chunk (int a + int n - kSlopBytes), buffer_end := None\<rparr>)
              } else do {
                e \<leftarrow> write_mem ops (Patch 0) d e;
                Some (Patch 0, e\<lparr>buffer_end := Some (Chunk (int a)), end_ptr := Patch (int n)\<rparr>)
              }
            }
        }
      | None \<Rightarrow> do {
          d \<leftarrow> read_mem ops (end_ptr e) kSlopBytes e;
          e \<leftarrow> write_mem ops (Patch 0) d e;
          Some (Patch 0, e\<lparr>buffer_end := Some (end_ptr e), end_ptr := Patch kSlopBytes\<rparr>)
        })"

partial_function (option) EnsureSpaceFallback ::
    "'s ZeroCopyOutputStream \<Rightarrow> pointer \<Rightarrow> 's EpsCopyOutputStream \<Rightarrow> (pointer \<times> 's EpsCopyOutputStream) option" where
  "EnsureSpaceFallback ops p e =
     (if had_error e then Some (Patch 0, e)
      else do {
        overrun \<leftarrow> ptr_diff p (end_ptr e);
        (p, e) \<leftarrow> Eps_Next ops e;
        let p = ptr_add p overrun;
        d \<leftarrow> ptr_diff p (end_ptr e);
        if d \<ge> 0 then EnsureSpaceFallback ops p e else Some (p, e)
      })"

declare EnsureSpaceFallback.simps [code]

definition EnsureSpace ::
    "'s ZeroCopyOutputStream \<Rightarrow> pointer \<Rightarrow> 's EpsCopyOutputStream \<Rightarrow> (pointer \<times> 's EpsCopyOutputStream) option" where
  "EnsureSpace ops p e =
     do { d \<leftarrow> ptr_diff p (end_ptr e); if d \<ge> 0 then EnsureSpaceFallback ops p e else Some (p, e) }"

text \<open>The loop of \<open>Flush\<close>: \<open>None\<close> in the result is its return on an error.\<close>

partial_function (option) flush_loop ::
    "'s ZeroCopyOutputStream \<Rightarrow> pointer \<Rightarrow> 's EpsCopyOutputStream \<Rightarrow> (pointer option \<times> 's EpsCopyOutputStream) option" where
  "flush_loop ops p e =
     (if buffer_end e = None then Some (Some p, e)
      else do {
        overrun \<leftarrow> ptr_diff p (end_ptr e);
        if overrun > 0 then do {
          (p, e) \<leftarrow> Eps_Next ops e;
          if had_error e then Some (None, e) else flush_loop ops (ptr_add p overrun) e
        } else Some (Some p, e)
      })"

declare flush_loop.simps [code]

definition Eps_Flush ::
    "'s ZeroCopyOutputStream \<Rightarrow> pointer \<Rightarrow> 's EpsCopyOutputStream \<Rightarrow> (int \<times> 's EpsCopyOutputStream) option" where
  "Eps_Flush ops p e =
     do {
       (r, e) \<leftarrow> flush_loop ops p e;
       case r of
         None \<Rightarrow> Some (0, e)
       | Some p \<Rightarrow>
           (case buffer_end e of
              Some b \<Rightarrow> do {
                n \<leftarrow> ptr_diff p (Patch 0);
                d \<leftarrow> read_mem ops (Patch 0) n e;
                e \<leftarrow> write_mem ops b d e;
                s \<leftarrow> ptr_diff (end_ptr e) p;
                Some (s, e\<lparr>buffer_end := Some (ptr_add b n)\<rparr>)
              }
            | None \<Rightarrow> do {
                s \<leftarrow> ptr_diff (end_ptr e) p;
                Some (s + kSlopBytes, e\<lparr>buffer_end := Some p\<rparr>)
              })
     }"

definition Trim ::
    "'s ZeroCopyOutputStream \<Rightarrow> pointer \<Rightarrow> 's EpsCopyOutputStream \<Rightarrow> (pointer \<times> 's EpsCopyOutputStream) option" where
  "Trim ops p e =
     (if had_error e then Some (p, e)
      else do {
        (n, e) \<leftarrow> Eps_Flush ops p e;
        e \<leftarrow> (if n = 0 then Some e
             else do { s \<leftarrow> eps_stream e; s \<leftarrow> Output_BackUp ops n s; Some (e\<lparr>eps_stream := Some s\<rparr>) });
        Some (Patch 0, e\<lparr>buffer_end := Some (Patch 0), end_ptr := Patch 0\<rparr>)
      })"

definition FlushAndResetBuffer ::
    "'s ZeroCopyOutputStream \<Rightarrow> pointer \<Rightarrow> 's EpsCopyOutputStream \<Rightarrow> (pointer \<times> 's EpsCopyOutputStream) option" where
  "FlushAndResetBuffer ops p e =
     (if had_error e then Some (Patch 0, e)
      else do {
        (n, e) \<leftarrow> Eps_Flush ops p e;
        if had_error e then Some (Patch 0, e)
        else do { b \<leftarrow> buffer_end e; Some (SetInitialBuffer b n e) }
      })"

section \<open>The operations that expose the buffer\<close>

partial_function (option) eps_skip_loop ::
    "'s ZeroCopyOutputStream \<Rightarrow> int \<Rightarrow> pointer \<Rightarrow> int \<Rightarrow> 's EpsCopyOutputStream \<Rightarrow>
      (bool \<times> pointer \<times> 's EpsCopyOutputStream) option" where
  "eps_skip_loop ops count data n e =
     (if count > n then do {
        s \<leftarrow> eps_stream e;
        (r, s) \<leftarrow> Output_Next ops s;
        let e = e\<lparr>eps_stream := Some s\<rparr>;
        case r of None \<Rightarrow> Some (False, Eps_Error e)
        | Some (a, m) \<Rightarrow> eps_skip_loop ops (count - n) (Chunk (int a)) (int m) e
      } else Some (True, SetInitialBuffer (ptr_add data count) (n - count) e))"

declare eps_skip_loop.simps [code]

definition Eps_Skip ::
    "'s ZeroCopyOutputStream \<Rightarrow> int \<Rightarrow> pointer \<Rightarrow> 's EpsCopyOutputStream \<Rightarrow> (bool \<times> pointer \<times> 's EpsCopyOutputStream) option" where
  "Eps_Skip ops count p e =
     (if count < 0 then Some (False, p, e)
      else if had_error e then Some (False, Patch 0, e)
      else do {
        (n, e) \<leftarrow> Eps_Flush ops p e;
        if had_error e then Some (False, Patch 0, e)
        else do { b \<leftarrow> buffer_end e; eps_skip_loop ops count b n e }
      })"

partial_function (option) direct_loop ::
    "'s ZeroCopyOutputStream \<Rightarrow> pointer \<Rightarrow> int \<Rightarrow> 's EpsCopyOutputStream \<Rightarrow>
      ((pointer \<times> int) option \<times> pointer \<times> 's EpsCopyOutputStream) option" where
  "direct_loop ops data n e =
     (if n = 0 then do {
        s \<leftarrow> eps_stream e;
        (r, s) \<leftarrow> Output_Next ops s;
        let e = e\<lparr>eps_stream := Some s\<rparr>;
        case r of None \<Rightarrow> Some (None, Eps_Error e)
        | Some (a, m) \<Rightarrow> direct_loop ops (Chunk (int a)) (int m) e
      } else Some (Some (data, n), SetInitialBuffer data n e))"

declare direct_loop.simps [code]

definition Eps_GetDirectBufferPointer ::
    "'s ZeroCopyOutputStream \<Rightarrow> pointer \<Rightarrow> 's EpsCopyOutputStream \<Rightarrow>
      ((pointer \<times> int) option \<times> pointer \<times> 's EpsCopyOutputStream) option" where
  "Eps_GetDirectBufferPointer ops p e =
     (if had_error e then Some (None, Patch 0, e)
      else do {
        (n, e) \<leftarrow> Eps_Flush ops p e;
        if had_error e then Some (None, Patch 0, e)
        else do { b \<leftarrow> buffer_end e; direct_loop ops b n e }
      })"

definition Eps_GetDirectBufferForNBytesAndAdvance ::
    "'s ZeroCopyOutputStream \<Rightarrow> int \<Rightarrow> pointer \<Rightarrow> 's EpsCopyOutputStream \<Rightarrow>
      (pointer option \<times> pointer \<times> 's EpsCopyOutputStream) option" where
  "Eps_GetDirectBufferForNBytesAndAdvance ops n p e =
     (if had_error e then Some (None, Patch 0, e)
      else do {
        (s, e) \<leftarrow> Eps_Flush ops p e;
        if had_error e then Some (None, Patch 0, e)
        else do {
          res \<leftarrow> buffer_end e;
          if s \<ge> n then Some (Some res, SetInitialBuffer (ptr_add res n) (s - n) e)
          else Some (None, SetInitialBuffer res s e)
        }
      })"

section \<open>Writing bytes\<close>

text \<open>\<open>memcpy(ptr, data, size); return ptr + size\<close>.\<close>

definition put_bytes ::
    "'s ZeroCopyOutputStream \<Rightarrow> byte list \<Rightarrow> pointer \<Rightarrow> 's EpsCopyOutputStream \<Rightarrow> (pointer \<times> 's EpsCopyOutputStream) option" where
  "put_bytes ops data p e = do { e \<leftarrow> write_mem ops p data e; Some (ptr_add p (int (length data)), e) }"

partial_function (option) WriteRawFallback ::
    "'s ZeroCopyOutputStream \<Rightarrow> byte list \<Rightarrow> pointer \<Rightarrow> 's EpsCopyOutputStream \<Rightarrow> (pointer \<times> 's EpsCopyOutputStream) option" where
  "WriteRawFallback ops data p e =
     do {
       s \<leftarrow> GetSize p e;
       if s < 0 then None
       else if s < int (length data) then do {
         (p, e) \<leftarrow> put_bytes ops (take (nat s) data) p e;
         (p, e) \<leftarrow> EnsureSpaceFallback ops p e;
         WriteRawFallback ops (drop (nat s) data) p e
       } else put_bytes ops data p e
     }"

declare WriteRawFallback.simps [code]

definition WriteRaw ::
    "'s ZeroCopyOutputStream \<Rightarrow> byte list \<Rightarrow> pointer \<Rightarrow> 's EpsCopyOutputStream \<Rightarrow> (pointer \<times> 's EpsCopyOutputStream) option" where
  "WriteRaw ops data p e =
     do {
       d \<leftarrow> ptr_diff (end_ptr e) p;
       if d < int (length data) then WriteRawFallback ops data p e else put_bytes ops data p e
     }"

definition Eps_WriteAliasedRaw ::
    "'s ZeroCopyOutputStream \<Rightarrow> byte list \<Rightarrow> pointer \<Rightarrow> 's EpsCopyOutputStream \<Rightarrow> (pointer \<times> 's EpsCopyOutputStream) option" where
  "Eps_WriteAliasedRaw ops data p e =
     do {
       n \<leftarrow> GetSize p e;
       if int (length data) < n then WriteRaw ops data p e
       else do {
         (p, e) \<leftarrow> Trim ops p e;
         s \<leftarrow> eps_stream e;
         (b, s) \<leftarrow> WriteAliasedRaw ops data s;
         let e = e\<lparr>eps_stream := Some s\<rparr>;
         Some (if b then (p, e) else Eps_Error e)
       }
     }"

definition WriteRawMaybeAliased ::
    "'s ZeroCopyOutputStream \<Rightarrow> byte list \<Rightarrow> pointer \<Rightarrow> 's EpsCopyOutputStream \<Rightarrow> (pointer \<times> 's EpsCopyOutputStream) option" where
  "WriteRawMaybeAliased ops data p e =
     (if aliasing_enabled e then Eps_WriteAliasedRaw ops data p e else WriteRaw ops data p e)"

definition Eps_EnableAliasing ::
    "'s ZeroCopyOutputStream \<Rightarrow> bool \<Rightarrow> 's EpsCopyOutputStream \<Rightarrow> 's EpsCopyOutputStream option" where
  "Eps_EnableAliasing ops enabled e =
     (if enabled then do { s \<leftarrow> eps_stream e; Some (e\<lparr>aliasing_enabled := AllowsAliasing ops s\<rparr>) }
      else Some (e\<lparr>aliasing_enabled := False\<rparr>))"

definition Eps_ByteCount :: "'s ZeroCopyOutputStream \<Rightarrow> pointer \<Rightarrow> 's EpsCopyOutputStream \<Rightarrow> int option" where
  "Eps_ByteCount ops p e =
     do {
       d \<leftarrow> ptr_diff (end_ptr e) p;
       let delta = d + (if buffer_end e \<noteq> None then 0 else kSlopBytes);
       s \<leftarrow> eps_stream e;
       Some (Output_ByteCount ops s - delta)
     }"

section \<open>Writing fields\<close>

definition TagSize :: "uint32 \<Rightarrow> int" where
  "TagSize tag =
     (if tag < push_bit 7 1 then 1 else if tag < push_bit 14 1 then 2 else if tag < push_bit 21 1 then 3
      else if tag < push_bit 28 1 then 4 else 5)"

definition Eps_WriteTag ::
    "'s ZeroCopyOutputStream \<Rightarrow> uint32 \<Rightarrow> uint32 \<Rightarrow> pointer \<Rightarrow> 's EpsCopyOutputStream \<Rightarrow> (pointer \<times> 's EpsCopyOutputStream) option" where
  "Eps_WriteTag ops num wt p e = put_bytes ops (UnsafeVarint (push_bit 3 num OR wt)) p e"

definition WriteLengthDelim ::
    "'s ZeroCopyOutputStream \<Rightarrow> uint32 \<Rightarrow> uint32 \<Rightarrow> pointer \<Rightarrow> 's EpsCopyOutputStream \<Rightarrow> (pointer \<times> 's EpsCopyOutputStream) option" where
  "WriteLengthDelim ops num n p e =
     do { (p, e) \<leftarrow> Eps_WriteTag ops num 2 p e; put_bytes ops (UnsafeWriteSize n) p e }"

text \<open>The two outlined writers differ in the last call.\<close>

definition WriteStringOutline ::
    "'s ZeroCopyOutputStream \<Rightarrow> uint32 \<Rightarrow> byte list \<Rightarrow> pointer \<Rightarrow> 's EpsCopyOutputStream \<Rightarrow> (pointer \<times> 's EpsCopyOutputStream) option" where
  "WriteStringOutline ops num s p e =
     do {
       (p, e) \<leftarrow> EnsureSpace ops p e;
       (p, e) \<leftarrow> WriteLengthDelim ops num (of_nat (length s)) p e;
       WriteRaw ops s p e
     }"

definition WriteStringMaybeAliasedOutline ::
    "'s ZeroCopyOutputStream \<Rightarrow> uint32 \<Rightarrow> byte list \<Rightarrow> pointer \<Rightarrow> 's EpsCopyOutputStream \<Rightarrow> (pointer \<times> 's EpsCopyOutputStream) option" where
  "WriteStringMaybeAliasedOutline ops num s p e =
     do {
       (p, e) \<leftarrow> EnsureSpace ops p e;
       (p, e) \<leftarrow> WriteLengthDelim ops num (of_nat (length s)) p e;
       WriteRawMaybeAliased ops s p e
     }"

text \<open>The inlined part of the two writers: tag, one byte of length, the bytes.\<close>

definition write_short_string ::
    "'s ZeroCopyOutputStream \<Rightarrow> uint32 \<Rightarrow> byte list \<Rightarrow> pointer \<Rightarrow> 's EpsCopyOutputStream \<Rightarrow> (pointer \<times> 's EpsCopyOutputStream) option" where
  "write_short_string ops num s p e =
     do {
       (p, e) \<leftarrow> put_bytes ops (UnsafeVarint (push_bit 3 num OR 2)) p e;
       (p, e) \<leftarrow> put_bytes ops [of_nat (length s)] p e;
       put_bytes ops s p e
     }"

definition Eps_WriteString ::
    "'s ZeroCopyOutputStream \<Rightarrow> uint32 \<Rightarrow> byte list \<Rightarrow> pointer \<Rightarrow> 's EpsCopyOutputStream \<Rightarrow> (pointer \<times> 's EpsCopyOutputStream) option" where
  "Eps_WriteString ops num s p e =
     do {
       d \<leftarrow> ptr_diff (end_ptr e) p;
       if length s \<ge> 128 \<or> d + 16 - TagSize (push_bit 3 num) - 1 < int (length s)
       then WriteStringOutline ops num s p e
       else write_short_string ops num s p e
     }"

definition WriteStringMaybeAliased ::
    "'s ZeroCopyOutputStream \<Rightarrow> uint32 \<Rightarrow> byte list \<Rightarrow> pointer \<Rightarrow> 's EpsCopyOutputStream \<Rightarrow> (pointer \<times> 's EpsCopyOutputStream) option" where
  "WriteStringMaybeAliased ops num s p e =
     do {
       d \<leftarrow> ptr_diff (end_ptr e) p;
       if length s \<ge> 128 \<or> d + 16 - TagSize (push_bit 3 num) - 1 < int (length s)
       then WriteStringMaybeAliasedOutline ops num s p e
       else write_short_string ops num s p e
     }"

text \<open>Packed fields: each element is encoded and written, at least one.\<close>

fun packed_loop ::
    "'s ZeroCopyOutputStream \<Rightarrow> ('v \<Rightarrow> byte list) \<Rightarrow> 'v list \<Rightarrow> pointer \<Rightarrow> 's EpsCopyOutputStream \<Rightarrow> (pointer \<times> 's EpsCopyOutputStream) option" where
  "packed_loop ops encode [] p e = None"
| "packed_loop ops encode (v # vs) p e =
     do {
       (p, e) \<leftarrow> EnsureSpace ops p e;
       (p, e) \<leftarrow> put_bytes ops (encode v) p e;
       if vs = [] then Some (p, e) else packed_loop ops encode vs p e
     }"

definition WriteVarintPacked ::
    "'s ZeroCopyOutputStream \<Rightarrow> ('v \<Rightarrow> byte list) \<Rightarrow> uint32 \<Rightarrow> 'v list \<Rightarrow> uint32 \<Rightarrow> pointer \<Rightarrow> 's EpsCopyOutputStream \<Rightarrow>
      (pointer \<times> 's EpsCopyOutputStream) option" where
  "WriteVarintPacked ops encode num r n p e =
     do {
       (p, e) \<leftarrow> EnsureSpace ops p e;
       (p, e) \<leftarrow> WriteLengthDelim ops num n p e;
       packed_loop ops encode r p e
     }"

definition Encode32 :: "uint32 \<Rightarrow> byte list" where "Encode32 v = UnsafeVarint v"

definition Encode64 :: "uint64 \<Rightarrow> byte list" where "Encode64 v = UnsafeVarint v"

definition ZigZagEncode32 :: "uint32 \<Rightarrow> uint32" where
  "ZigZagEncode32 v = push_bit 1 v XOR signed_drop_bit 31 v"

definition ZigZagEncode64 :: "uint64 \<Rightarrow> uint64" where
  "ZigZagEncode64 v = push_bit 1 v XOR signed_drop_bit 63 v"

text \<open>The packed writers by type: an \<open>int32\<close> is converted to \<open>uint64\<close>, so sign-extended.\<close>

definition WriteInt32Packed where
  "WriteInt32Packed ops num (r :: uint32 list) n p e = WriteVarintPacked ops (\<lambda>v. Encode64 (scast v)) num r n p e"

definition WriteUInt32Packed where
  "WriteUInt32Packed ops num r n p e = WriteVarintPacked ops Encode32 num r n p e"

definition WriteSInt32Packed where
  "WriteSInt32Packed ops num r n p e = WriteVarintPacked ops (\<lambda>v. UnsafeVarint (ZigZagEncode32 v)) num r n p e"

definition WriteInt64Packed where
  "WriteInt64Packed ops num r n p e = WriteVarintPacked ops Encode64 num r n p e"

definition WriteSInt64Packed where
  "WriteSInt64Packed ops num r n p e = WriteVarintPacked ops (\<lambda>v. UnsafeVarint (ZigZagEncode64 v)) num r n p e"

text \<open>Fixed-width elements are copied as they are in memory, on a little-endian machine.\<close>

definition WriteFixedPacked ::
    "'s ZeroCopyOutputStream \<Rightarrow> uint32 \<Rightarrow> byte list list \<Rightarrow> pointer \<Rightarrow> 's EpsCopyOutputStream \<Rightarrow> (pointer \<times> 's EpsCopyOutputStream) option" where
  "WriteFixedPacked ops num r p e =
     do {
       (p, e) \<leftarrow> EnsureSpace ops p e;
       (p, e) \<leftarrow> WriteLengthDelim ops num (of_nat (length (concat r))) p e;
       WriteRaw ops (concat r) p e
     }"

section \<open>CodedOutputStream\<close>

text \<open>\<open>CodedOutputStream\<close> keeps the pointer for its user.\<close>

record 's CodedOutputStream =
  impl :: "'s EpsCopyOutputStream"
  cur :: pointer
  start_count :: int

text \<open>A failure of the eager \<open>Next\<close> leaves the stream in its initial state, without an error.\<close>

definition CodedOutputStream ::
    "'s ZeroCopyOutputStream \<Rightarrow> byte list \<Rightarrow> bool \<Rightarrow> 's \<Rightarrow> bool \<Rightarrow> 's CodedOutputStream option" where
  "CodedOutputStream ops m deterministic s do_eager_refresh =
     (let (p, e) = EpsCopyOutputStream m s deterministic;
          c = \<lparr>impl = e, cur = p, start_count = Output_ByteCount ops s\<rparr>
      in if \<not> do_eager_refresh then Some c
         else do {
           (r, s) \<leftarrow> Output_Next ops s;
           let e = e\<lparr>eps_stream := Some s\<rparr>;
           Some (case r of
               None \<Rightarrow> c\<lparr>impl := e\<rparr>
             | Some (a, n) \<Rightarrow>
                 if n = 0 then c\<lparr>impl := e\<rparr>
                 else let (p, e) = SetInitialBuffer (Chunk (int a)) (int n) e in c\<lparr>impl := e, cur := p\<rparr>)
         })"

text \<open>\<open>cur_ = impl_.\<dots>(\<dots>, cur_)\<close>.\<close>

definition on_impl ::
    "(pointer \<Rightarrow> 's EpsCopyOutputStream \<Rightarrow> (pointer \<times> 's EpsCopyOutputStream) option) \<Rightarrow> 's CodedOutputStream \<Rightarrow> 's CodedOutputStream option" where
  "on_impl f c = do { (p, e) \<leftarrow> f (cur c) (impl c); Some (c\<lparr>cur := p, impl := e\<rparr>) }"

definition Coded_Trim :: "'s ZeroCopyOutputStream \<Rightarrow> 's CodedOutputStream \<Rightarrow> 's CodedOutputStream option" where
  "Coded_Trim ops = on_impl (Trim ops)"

definition Coded_HadError :: "'s ZeroCopyOutputStream \<Rightarrow> 's CodedOutputStream \<Rightarrow> (bool \<times> 's CodedOutputStream) option" where
  "Coded_HadError ops c = do { c \<leftarrow> on_impl (FlushAndResetBuffer ops) c; Some (had_error (impl c), c) }"

text \<open>The destructor, and the stream below as it leaves it.\<close>

definition CodedOutputStream_destroy :: "'s ZeroCopyOutputStream \<Rightarrow> 's CodedOutputStream \<Rightarrow> 's option option" where
  "CodedOutputStream_destroy ops c = do { c \<leftarrow> Coded_Trim ops c; Some (eps_stream (impl c)) }"

definition Coded_Skip :: "'s ZeroCopyOutputStream \<Rightarrow> int \<Rightarrow> 's CodedOutputStream \<Rightarrow> (bool \<times> 's CodedOutputStream) option" where
  "Coded_Skip ops count c = do { (b, p, e) \<leftarrow> Eps_Skip ops count (cur c) (impl c); Some (b, c\<lparr>cur := p, impl := e\<rparr>) }"

definition Coded_GetDirectBufferPointer ::
    "'s ZeroCopyOutputStream \<Rightarrow> 's CodedOutputStream \<Rightarrow> ((pointer \<times> int) option \<times> 's CodedOutputStream) option" where
  "Coded_GetDirectBufferPointer ops c =
     do { (r, p, e) \<leftarrow> Eps_GetDirectBufferPointer ops (cur c) (impl c); Some (r, c\<lparr>cur := p, impl := e\<rparr>) }"

definition Coded_GetDirectBufferForNBytesAndAdvance ::
    "'s ZeroCopyOutputStream \<Rightarrow> int \<Rightarrow> 's CodedOutputStream \<Rightarrow> (pointer option \<times> 's CodedOutputStream) option" where
  "Coded_GetDirectBufferForNBytesAndAdvance ops n c =
     do { (r, p, e) \<leftarrow> Eps_GetDirectBufferForNBytesAndAdvance ops n (cur c) (impl c); Some (r, c\<lparr>cur := p, impl := e\<rparr>) }"

definition Coded_WriteRaw :: "'s ZeroCopyOutputStream \<Rightarrow> byte list \<Rightarrow> 's CodedOutputStream \<Rightarrow> 's CodedOutputStream option" where
  "Coded_WriteRaw ops data = on_impl (WriteRaw ops data)"

definition Coded_WriteRawMaybeAliased ::
    "'s ZeroCopyOutputStream \<Rightarrow> byte list \<Rightarrow> 's CodedOutputStream \<Rightarrow> 's CodedOutputStream option" where
  "Coded_WriteRawMaybeAliased ops data = on_impl (WriteRawMaybeAliased ops data)"

definition Coded_WriteString :: "'s ZeroCopyOutputStream \<Rightarrow> byte list \<Rightarrow> 's CodedOutputStream \<Rightarrow> 's CodedOutputStream option" where
  "Coded_WriteString ops str = Coded_WriteRaw ops str"

definition WriteLittleEndian32ToArray :: "uint32 \<Rightarrow> byte list" where
  "WriteLittleEndian32ToArray v = [ucast v, ucast (drop_bit 8 v), ucast (drop_bit 16 v), ucast (drop_bit 24 v)]"

definition WriteLittleEndian64ToArray :: "uint64 \<Rightarrow> byte list" where
  "WriteLittleEndian64ToArray v =
     (let part0 = ucast v :: uint32; part1 = ucast (drop_bit 32 v) :: uint32 in
      [ucast part0, ucast (drop_bit 8 part0), ucast (drop_bit 16 part0), ucast (drop_bit 24 part0),
       ucast part1, ucast (drop_bit 8 part1), ucast (drop_bit 16 part1), ucast (drop_bit 24 part1)])"

text \<open>\<open>cur_ = impl_.EnsureSpace(cur_); SetCur(\<dots>ToArray(value, Cur()))\<close>.\<close>

definition write_checked ::
    "'s ZeroCopyOutputStream \<Rightarrow> byte list \<Rightarrow> pointer \<Rightarrow> 's EpsCopyOutputStream \<Rightarrow> (pointer \<times> 's EpsCopyOutputStream) option" where
  "write_checked ops data p e = do { (p, e) \<leftarrow> EnsureSpace ops p e; put_bytes ops data p e }"

definition Coded_WriteLittleEndian32 :: "'s ZeroCopyOutputStream \<Rightarrow> uint32 \<Rightarrow> 's CodedOutputStream \<Rightarrow> 's CodedOutputStream option" where
  "Coded_WriteLittleEndian32 ops v = on_impl (write_checked ops (WriteLittleEndian32ToArray v))"

definition Coded_WriteLittleEndian64 :: "'s ZeroCopyOutputStream \<Rightarrow> uint64 \<Rightarrow> 's CodedOutputStream \<Rightarrow> 's CodedOutputStream option" where
  "Coded_WriteLittleEndian64 ops v = on_impl (write_checked ops (WriteLittleEndian64ToArray v))"

definition Coded_WriteVarint32 :: "'s ZeroCopyOutputStream \<Rightarrow> uint32 \<Rightarrow> 's CodedOutputStream \<Rightarrow> 's CodedOutputStream option" where
  "Coded_WriteVarint32 ops v = on_impl (write_checked ops (WriteVarint32ToArray v))"

definition Coded_WriteVarint64 :: "'s ZeroCopyOutputStream \<Rightarrow> uint64 \<Rightarrow> 's CodedOutputStream \<Rightarrow> 's CodedOutputStream option" where
  "Coded_WriteVarint64 ops v = on_impl (write_checked ops (WriteVarint64ToArray v))"

definition Coded_WriteVarint32SignExtended ::
    "'s ZeroCopyOutputStream \<Rightarrow> uint32 \<Rightarrow> 's CodedOutputStream \<Rightarrow> 's CodedOutputStream option" where
  "Coded_WriteVarint32SignExtended ops v = Coded_WriteVarint64 ops (scast v)"

definition Coded_WriteTag :: "'s ZeroCopyOutputStream \<Rightarrow> uint32 \<Rightarrow> 's CodedOutputStream \<Rightarrow> 's CodedOutputStream option" where
  "Coded_WriteTag ops v = Coded_WriteVarint32 ops v"

definition WriteStringWithSizeToArray :: "byte list \<Rightarrow> byte list" where
  "WriteStringWithSizeToArray str = WriteVarint32ToArray (of_nat (length str)) @ str"

definition Coded_ByteCount :: "'s ZeroCopyOutputStream \<Rightarrow> 's CodedOutputStream \<Rightarrow> int option" where
  "Coded_ByteCount ops c = do { n \<leftarrow> Eps_ByteCount ops (cur c) (impl c); Some (to_int32 (n - start_count c)) }"

definition Coded_EnableAliasing :: "'s ZeroCopyOutputStream \<Rightarrow> bool \<Rightarrow> 's CodedOutputStream \<Rightarrow> 's CodedOutputStream option" where
  "Coded_EnableAliasing ops enabled c = do { e \<leftarrow> Eps_EnableAliasing ops enabled (impl c); Some (c\<lparr>impl := e\<rparr>) }"

end
