(* ===== verification/Coded_Input.thy ===== *)
theory Coded_Input
  imports Zero_Copy Varint
begin

text \<open>
  \<open>CodedInputStream\<close> of io/coded_stream.cc and io/coded_stream.h: its state, the refilling of its buffer from
  a zero-copy stream, the two limits, and every reading operation. Operations that may call the
  stream return \<open>None\<close> when the code would dereference the null stream of a flat input, fail a
  \<open>GOOGLE_CHECK\<close>, read outside the buffer or not return; the theorems show that none of it happens.
\<close>

section \<open>State\<close>

text \<open>\<open>buffer\<close> holds the bytes from \<open>buffer_\<close> to the end of the chunk, without those beyond
  \<open>INT_MAX\<close>; the first \<open>buffer_size\<close> of them are before \<open>buffer_end_\<close>. The input is null for a flat stream.\<close>

record 's CodedInputStream =
  buffer :: "byte list"
  buffer_size :: int
  coded_input :: "'s option"
  total_bytes_read :: int
  overflow_bytes :: int
  last_tag :: uint32
  legitimate_message_end :: bool
  current_limit :: int
  buffer_size_after_limit :: int
  total_bytes_limit :: int
  recursion_budget :: int
  recursion_limit :: int

definition kMaxVarintBytes :: nat where "kMaxVarintBytes = 10"

definition kDefaultTotalBytesLimit :: int where "kDefaultTotalBytesLimit = INT_MAX"

definition default_recursion_limit :: int where "default_recursion_limit = 100"

section \<open>Buffer and limits\<close>

definition Advance :: "int \<Rightarrow> 's CodedInputStream \<Rightarrow> 's CodedInputStream" where
  "Advance amount c = c\<lparr>buffer := drop (nat amount) (buffer c), buffer_size := buffer_size c - amount\<rparr>"

definition CurrentPosition :: "'s CodedInputStream \<Rightarrow> int" where
  "CurrentPosition c = total_bytes_read c - (buffer_size c + buffer_size_after_limit c)"

definition closest_limit :: "'s CodedInputStream \<Rightarrow> int" where
  "closest_limit c = min (current_limit c) (total_bytes_limit c)"

definition RecomputeBufferLimits :: "'s CodedInputStream \<Rightarrow> 's CodedInputStream" where
  "RecomputeBufferLimits c =
     (let available = buffer_size c + buffer_size_after_limit c in
      if closest_limit c < total_bytes_read c then
        let after = total_bytes_read c - closest_limit c in
        c\<lparr>buffer_size_after_limit := after, buffer_size := available - after\<rparr>
      else c\<lparr>buffer_size_after_limit := 0, buffer_size := available\<rparr>)"

text \<open>Chunks of no bytes are passed over.\<close>

partial_function (option) NextNonEmpty :: "'s ZeroCopyInputStream \<Rightarrow> 's \<Rightarrow> (byte list option \<times> 's) option" where
  "NextNonEmpty ops s =
     do {
       (r, s) \<leftarrow> Next ops s;
       case r of None \<Rightarrow> Some (None, s)
       | Some data \<Rightarrow> if data = [] then NextNonEmpty ops s else Some (Some data, s)
     }"

definition Refresh :: "'s ZeroCopyInputStream \<Rightarrow> 's CodedInputStream \<Rightarrow> (bool \<times> 's CodedInputStream) option" where
  "Refresh ops c =
     (if buffer_size_after_limit c > 0 \<or> overflow_bytes c > 0 \<or> total_bytes_read c = current_limit c then Some (False, c)
      else do {
        s \<leftarrow> coded_input c;
        (r, s) \<leftarrow> NextNonEmpty ops s;
        let c = c\<lparr>coded_input := Some s\<rparr>;
        case r of None \<Rightarrow> Some (False, c\<lparr>buffer := [], buffer_size := 0\<rparr>)
        | Some data \<Rightarrow>
            let n = int (length data) in
            Some (True, RecomputeBufferLimits
              (if total_bytes_read c \<le> INT_MAX - n then
                 c\<lparr>buffer := data, buffer_size := n, total_bytes_read := total_bytes_read c + n\<rparr>
               else
                 let over = total_bytes_read c - (INT_MAX - n) in
                 c\<lparr>buffer := take (nat (n - over)) data, buffer_size := n - over,
                   overflow_bytes := over, total_bytes_read := INT_MAX\<rparr>))
      })"

text \<open>The constructors: over a stream, which is asked for its first chunk, and over an array.\<close>

definition CodedInputStream :: "'s ZeroCopyInputStream \<Rightarrow> 's \<Rightarrow> 's CodedInputStream option" where
  "CodedInputStream ops s =
     do {
       (b, c) \<leftarrow> Refresh ops \<lparr>buffer = [], buffer_size = 0, coded_input = Some s, total_bytes_read = 0,
         overflow_bytes = 0, last_tag = 0, legitimate_message_end = False, current_limit = kint32max,
         buffer_size_after_limit = 0, total_bytes_limit = kDefaultTotalBytesLimit,
         recursion_budget = default_recursion_limit, recursion_limit = default_recursion_limit\<rparr>;
       Some c
     }"

definition CodedInputStream_flat :: "byte list \<Rightarrow> int \<Rightarrow> 's CodedInputStream" where
  "CodedInputStream_flat data n =
     \<lparr>buffer = data, buffer_size = n, coded_input = None, total_bytes_read = n, overflow_bytes = 0,
      last_tag = 0, legitimate_message_end = False, current_limit = n, buffer_size_after_limit = 0,
      total_bytes_limit = kDefaultTotalBytesLimit,
      recursion_budget = default_recursion_limit, recursion_limit = default_recursion_limit\<rparr>"

definition BackUpInputToCurrentPosition ::
    "'s ZeroCopyInputStream \<Rightarrow> 's CodedInputStream \<Rightarrow> 's CodedInputStream option" where
  "BackUpInputToCurrentPosition ops c =
     (let backup_bytes = buffer_size c + buffer_size_after_limit c + overflow_bytes c in
      if backup_bytes > 0 then do {
        s \<leftarrow> coded_input c;
        s \<leftarrow> BackUp ops backup_bytes s;
        Some (c\<lparr>coded_input := Some s,
          total_bytes_read := total_bytes_read c - (buffer_size c + buffer_size_after_limit c),
          buffer := [], buffer_size := 0, buffer_size_after_limit := 0, overflow_bytes := 0\<rparr>)
      } else Some c)"

text \<open>The destructor returns the stream as the caller finds it.\<close>

definition CodedInputStream_destroy :: "'s ZeroCopyInputStream \<Rightarrow> 's CodedInputStream \<Rightarrow> 's option option" where
  "CodedInputStream_destroy ops c =
     (if coded_input c = None then Some None
      else do { c \<leftarrow> BackUpInputToCurrentPosition ops c; Some (coded_input c) })"

definition PushLimit :: "int \<Rightarrow> 's CodedInputStream \<Rightarrow> int \<times> 's CodedInputStream" where
  "PushLimit byte_limit c =
     (let current_position = CurrentPosition c; old_limit = current_limit c in
      (old_limit,
       if byte_limit \<ge> 0 \<and> byte_limit \<le> INT_MAX - current_position \<and> byte_limit < current_limit c - current_position
       then RecomputeBufferLimits (c\<lparr>current_limit := current_position + byte_limit\<rparr>) else c))"

definition PopLimit :: "int \<Rightarrow> 's CodedInputStream \<Rightarrow> 's CodedInputStream" where
  "PopLimit old c = (RecomputeBufferLimits (c\<lparr>current_limit := old\<rparr>))\<lparr>legitimate_message_end := False\<rparr>"

definition BytesUntilLimit :: "'s CodedInputStream \<Rightarrow> int" where
  "BytesUntilLimit c = (if current_limit c = INT_MAX then - 1 else current_limit c - CurrentPosition c)"

definition SetTotalBytesLimit :: "int \<Rightarrow> 's CodedInputStream \<Rightarrow> 's CodedInputStream" where
  "SetTotalBytesLimit new c = RecomputeBufferLimits (c\<lparr>total_bytes_limit := max (CurrentPosition c) new\<rparr>)"

definition BytesUntilTotalBytesLimit :: "'s CodedInputStream \<Rightarrow> int" where
  "BytesUntilTotalBytesLimit c =
     (if total_bytes_limit c = INT_MAX then - 1 else total_bytes_limit c - CurrentPosition c)"

section \<open>Recursion depth\<close>

definition SetRecursionLimit :: "int \<Rightarrow> 's CodedInputStream \<Rightarrow> 's CodedInputStream" where
  "SetRecursionLimit new c =
     c\<lparr>recursion_budget := recursion_budget c + (new - recursion_limit c), recursion_limit := new\<rparr>"

definition IncrementRecursionDepth :: "'s CodedInputStream \<Rightarrow> bool \<times> 's CodedInputStream" where
  "IncrementRecursionDepth c =
     (let c = c\<lparr>recursion_budget := recursion_budget c - 1\<rparr> in (recursion_budget c \<ge> 0, c))"

definition DecrementRecursionDepth :: "'s CodedInputStream \<Rightarrow> 's CodedInputStream" where
  "DecrementRecursionDepth c =
     (if recursion_budget c < recursion_limit c then c\<lparr>recursion_budget := recursion_budget c + 1\<rparr> else c)"

definition IncrementRecursionDepthAndPushLimit :: "int \<Rightarrow> 's CodedInputStream \<Rightarrow> (int \<times> int) \<times> 's CodedInputStream" where
  "IncrementRecursionDepthAndPushLimit byte_limit c =
     (let (old, c) = PushLimit byte_limit c; c = c\<lparr>recursion_budget := recursion_budget c - 1\<rparr>
      in ((old, recursion_budget c), c))"

definition ConsumedEntireMessage :: "'s CodedInputStream \<Rightarrow> bool" where
  "ConsumedEntireMessage c = legitimate_message_end c"

definition DecrementRecursionDepthAndPopLimit :: "int \<Rightarrow> 's CodedInputStream \<Rightarrow> bool \<times> 's CodedInputStream" where
  "DecrementRecursionDepthAndPopLimit old c =
     (let result = ConsumedEntireMessage c; c = PopLimit old c
      in (result, c\<lparr>recursion_budget := recursion_budget c + 1\<rparr>))"

definition CheckEntireMessageConsumedAndPopLimit :: "int \<Rightarrow> 's CodedInputStream \<Rightarrow> bool \<times> 's CodedInputStream" where
  "CheckEntireMessageConsumedAndPopLimit old c = (ConsumedEntireMessage c, PopLimit old c)"

section \<open>Bytes\<close>

definition SkipFallback ::
    "'s ZeroCopyInputStream \<Rightarrow> int \<Rightarrow> int \<Rightarrow> 's CodedInputStream \<Rightarrow> (bool \<times> 's CodedInputStream) option" where
  "SkipFallback ops count original_buffer_size c =
     (if buffer_size_after_limit c > 0 then Some (False, Advance original_buffer_size c)
      else
        let count = count - original_buffer_size; c = c\<lparr>buffer := [], buffer_size := 0\<rparr>;
            bytes_until_limit = closest_limit c - total_bytes_read c in
        if bytes_until_limit < count then
          if bytes_until_limit > 0 then do {
            s \<leftarrow> coded_input c;
            (b, s) \<leftarrow> Skip ops bytes_until_limit s;
            Some (False, c\<lparr>total_bytes_read := closest_limit c, coded_input := Some s\<rparr>)
          } else Some (False, c)
        else do {
          s \<leftarrow> coded_input c;
          (b, s) \<leftarrow> Skip ops count s;
          let c = c\<lparr>coded_input := Some s\<rparr>;
          if \<not> b then Some (False, c\<lparr>total_bytes_read := to_int32 (ByteCount ops s)\<rparr>)
          else Some (True, c\<lparr>total_bytes_read := total_bytes_read c + count\<rparr>)
        })"

definition CodedInputStream_Skip ::
    "'s ZeroCopyInputStream \<Rightarrow> int \<Rightarrow> 's CodedInputStream \<Rightarrow> (bool \<times> 's CodedInputStream) option" where
  "CodedInputStream_Skip ops count c =
     (if count < 0 then Some (False, c)
      else if count \<le> buffer_size c then Some (True, Advance count c)
      else SkipFallback ops count (buffer_size c) c)"

text \<open>The bytes before \<open>buffer_end_\<close>, which \<open>GetDirectBufferPointerInline\<close> returns as they are.\<close>

definition window :: "'s CodedInputStream \<Rightarrow> byte list" where
  "window c = take (nat (buffer_size c)) (buffer c)"

definition GetDirectBufferPointerInline :: "'s CodedInputStream \<Rightarrow> byte list" where
  "GetDirectBufferPointerInline c = window c"

definition GetDirectBufferPointer ::
    "'s ZeroCopyInputStream \<Rightarrow> 's CodedInputStream \<Rightarrow> (byte list option \<times> 's CodedInputStream) option" where
  "GetDirectBufferPointer ops c =
     do {
       (b, c) \<leftarrow> (if buffer_size c = 0 then Refresh ops c else Some (True, c));
       Some (if b then Some (window c) else None, c)
     }"

text \<open>Copying \<open>size\<close> bytes across chunks, to the destination or appended to a string.\<close>

partial_function (option) copy_loop ::
    "'s ZeroCopyInputStream \<Rightarrow> byte list \<Rightarrow> int \<Rightarrow> 's CodedInputStream \<Rightarrow> (bool \<times> byte list \<times> 's CodedInputStream) option" where
  "copy_loop ops out n c =
     (let current_buffer_size = buffer_size c in
      if current_buffer_size < n then
        let out = out @ window c in
        do {
          (b, c) \<leftarrow> Refresh ops (Advance current_buffer_size c);
          if \<not> b then Some (False, out, c) else copy_loop ops out (n - current_buffer_size) c
        }
      else Some (True, out @ take (nat n) (buffer c), Advance n c))"

text \<open>A negative size would make the final \<open>memcpy\<close> run wild.\<close>

definition ReadRaw ::
    "'s ZeroCopyInputStream \<Rightarrow> int \<Rightarrow> 's CodedInputStream \<Rightarrow> (bool \<times> byte list \<times> 's CodedInputStream) option" where
  "ReadRaw ops n c = (if n < 0 then None else copy_loop ops [] n c)"

definition ReadStringFallback ::
    "'s ZeroCopyInputStream \<Rightarrow> int \<Rightarrow> 's CodedInputStream \<Rightarrow> (bool \<times> byte list \<times> 's CodedInputStream) option" where
  "ReadStringFallback ops n c = copy_loop ops [] n c"

text \<open>The string is an argument, as a negative size leaves it as it was.\<close>

definition ReadString ::
    "'s ZeroCopyInputStream \<Rightarrow> byte list \<Rightarrow> int \<Rightarrow> 's CodedInputStream \<Rightarrow> (bool \<times> byte list \<times> 's CodedInputStream) option" where
  "ReadString ops str n c =
     (if n < 0 then Some (False, str, c)
      else if buffer_size c \<ge> n then Some (True, take (nat n) (buffer c), Advance n c)
      else ReadStringFallback ops n c)"

section \<open>Fixed-width integers\<close>

definition ReadLittleEndian32FromArray :: "byte list \<Rightarrow> uint32" where
  "ReadLittleEndian32FromArray p =
     ucast (p ! 0) OR push_bit 8 (ucast (p ! 1)) OR push_bit 16 (ucast (p ! 2)) OR push_bit 24 (ucast (p ! 3))"

definition ReadLittleEndian64FromArray :: "byte list \<Rightarrow> uint64" where
  "ReadLittleEndian64FromArray p =
     (let part0 = ucast (p ! 0) OR push_bit 8 (ucast (p ! 1)) OR push_bit 16 (ucast (p ! 2)) OR push_bit 24 (ucast (p ! 3)) :: uint32;
          part1 = ucast (p ! 4) OR push_bit 8 (ucast (p ! 5)) OR push_bit 16 (ucast (p ! 6)) OR push_bit 24 (ucast (p ! 7)) :: uint32
      in ucast part0 OR push_bit 32 (ucast part1))"

definition ReadLittleEndian32Fallback ::
    "'s ZeroCopyInputStream \<Rightarrow> 's CodedInputStream \<Rightarrow> (uint32 option \<times> 's CodedInputStream) option" where
  "ReadLittleEndian32Fallback ops c =
     (if buffer_size c \<ge> 4 then Some (Some (ReadLittleEndian32FromArray (buffer c)), Advance 4 c)
      else do {
        (b, bytes, c) \<leftarrow> ReadRaw ops 4 c;
        Some (if b then Some (ReadLittleEndian32FromArray bytes) else None, c)
      })"

definition ReadLittleEndian64Fallback ::
    "'s ZeroCopyInputStream \<Rightarrow> 's CodedInputStream \<Rightarrow> (uint64 option \<times> 's CodedInputStream) option" where
  "ReadLittleEndian64Fallback ops c =
     (if buffer_size c \<ge> 8 then Some (Some (ReadLittleEndian64FromArray (buffer c)), Advance 8 c)
      else do {
        (b, bytes, c) \<leftarrow> ReadRaw ops 8 c;
        Some (if b then Some (ReadLittleEndian64FromArray bytes) else None, c)
      })"

definition ReadLittleEndian32 ::
    "'s ZeroCopyInputStream \<Rightarrow> 's CodedInputStream \<Rightarrow> (uint32 option \<times> 's CodedInputStream) option" where
  "ReadLittleEndian32 ops c =
     (if buffer_size c \<ge> 4 then Some (Some (ReadLittleEndian32FromArray (buffer c)), Advance 4 c)
      else ReadLittleEndian32Fallback ops c)"

definition ReadLittleEndian64 ::
    "'s ZeroCopyInputStream \<Rightarrow> 's CodedInputStream \<Rightarrow> (uint64 option \<times> 's CodedInputStream) option" where
  "ReadLittleEndian64 ops c =
     (if buffer_size c \<ge> 8 then Some (Some (ReadLittleEndian64FromArray (buffer c)), Advance 8 c)
      else ReadLittleEndian64Fallback ops c)"

section \<open>Varints\<close>

text \<open>\<open>while (buffer_ == buffer_end_) if (!Refresh()) ...\<close>\<close>

partial_function (option) refill ::
    "'s ZeroCopyInputStream \<Rightarrow> 's CodedInputStream \<Rightarrow> (bool \<times> 's CodedInputStream) option" where
  "refill ops c =
     (if buffer_size c = 0 then do { (b, c) \<leftarrow> Refresh ops c; if \<not> b then Some (False, c) else refill ops c }
      else Some (True, c))"

partial_function (option) slow_loop ::
    "'s ZeroCopyInputStream \<Rightarrow> uint64 \<Rightarrow> nat \<Rightarrow> 's CodedInputStream \<Rightarrow> (uint64 option \<times> 's CodedInputStream) option" where
  "slow_loop ops result count c =
     (if count = kMaxVarintBytes then Some (None, c)
      else do {
        (b, c) \<leftarrow> refill ops c;
        if \<not> b then Some (None, c)
        else
          let byte = buffer c ! 0; result = result OR push_bit (7 * count) (ucast (byte AND 0x7F)); c = Advance 1 c in
          if byte AND 0x80 \<noteq> 0 then slow_loop ops result (count + 1) c else Some (Some result, c)
      })"

text \<open>The loops run on concrete inputs by their equations.\<close>

declare NextNonEmpty.simps [code] copy_loop.simps [code] refill.simps [code] slow_loop.simps [code]

definition ReadVarint64Slow ::
    "'s ZeroCopyInputStream \<Rightarrow> 's CodedInputStream \<Rightarrow> (uint64 option \<times> 's CodedInputStream) option" where
  "ReadVarint64Slow ops c = slow_loop ops 0 0 c"

text \<open>Whether a varint cannot cross the end of the buffer.\<close>

definition fast_path :: "'s CodedInputStream \<Rightarrow> bool" where
  "fast_path c \<longleftrightarrow> buffer_size c \<ge> int kMaxVarintBytes \<or> buffer_size c > 0 \<and> last (window c) AND 0x80 = 0"

text \<open>The result of an array reader: the value and \<open>buffer_\<close> moved behind it, or no value.\<close>

definition from_array :: "'v varint_read \<Rightarrow> 's CodedInputStream \<Rightarrow> ('v option \<times> 's CodedInputStream) option" where
  "from_array r c =
     (case r of VarintOk v p \<Rightarrow> Some (Some v, Advance (buffer_size c - int (length p)) c)
      | VarintBad \<Rightarrow> Some (None, c)
      | VarintPastEnd \<Rightarrow> None)"

definition ReadVarint64Fallback ::
    "'s ZeroCopyInputStream \<Rightarrow> 's CodedInputStream \<Rightarrow> (uint64 option \<times> 's CodedInputStream) option" where
  "ReadVarint64Fallback ops c =
     (if fast_path c then from_array (ReadVarint64FromArray (window c)) c else ReadVarint64Slow ops c)"

definition ReadVarint32Slow ::
    "'s ZeroCopyInputStream \<Rightarrow> 's CodedInputStream \<Rightarrow> (uint32 option \<times> 's CodedInputStream) option" where
  "ReadVarint32Slow ops c = do { (r, c) \<leftarrow> ReadVarint64Fallback ops c; Some (map_option ucast r, c) }"

definition ReadVarint32Fallback ::
    "'s ZeroCopyInputStream \<Rightarrow> uint32 \<Rightarrow> 's CodedInputStream \<Rightarrow> (uint32 option \<times> 's CodedInputStream) option" where
  "ReadVarint32Fallback ops first_byte_or_zero c =
     (if fast_path c then from_array (ReadVarint32FromArray first_byte_or_zero (window c)) c
      else ReadVarint32Slow ops c)"

definition ReadVarintSizeAsIntSlow ::
    "'s ZeroCopyInputStream \<Rightarrow> 's CodedInputStream \<Rightarrow> (int \<times> 's CodedInputStream) option" where
  "ReadVarintSizeAsIntSlow ops c =
     do {
       (r, c) \<leftarrow> ReadVarint64Fallback ops c;
       Some (case r of None \<Rightarrow> - 1 | Some v \<Rightarrow> if uint v > INT_MAX then - 1 else uint v, c)
     }"

text \<open>A size that is too large is left unread.\<close>

definition ReadVarintSizeAsIntFallback ::
    "'s ZeroCopyInputStream \<Rightarrow> 's CodedInputStream \<Rightarrow> (int \<times> 's CodedInputStream) option" where
  "ReadVarintSizeAsIntFallback ops c =
     (if fast_path c then do {
        (r, c') \<leftarrow> from_array (ReadVarint64FromArray (window c)) c;
        Some (case r of None \<Rightarrow> (- 1, c) | Some v \<Rightarrow> if uint v > INT_MAX then (- 1, c) else (uint v, c'))
      } else ReadVarintSizeAsIntSlow ops c)"

definition ReadVarint32 ::
    "'s ZeroCopyInputStream \<Rightarrow> 's CodedInputStream \<Rightarrow> (uint32 option \<times> 's CodedInputStream) option" where
  "ReadVarint32 ops c =
     (if buffer_size c > 0 \<and> buffer c ! 0 < 0x80 then Some (Some (ucast (buffer c ! 0)), Advance 1 c)
      else ReadVarint32Fallback ops (if buffer_size c > 0 then ucast (buffer c ! 0) else 0) c)"

definition ReadVarint64 ::
    "'s ZeroCopyInputStream \<Rightarrow> 's CodedInputStream \<Rightarrow> (uint64 option \<times> 's CodedInputStream) option" where
  "ReadVarint64 ops c =
     (if buffer_size c > 0 \<and> buffer c ! 0 < 0x80 then Some (Some (ucast (buffer c ! 0)), Advance 1 c)
      else ReadVarint64Fallback ops c)"

definition ReadVarintSizeAsInt ::
    "'s ZeroCopyInputStream \<Rightarrow> 's CodedInputStream \<Rightarrow> (int option \<times> 's CodedInputStream) option" where
  "ReadVarintSizeAsInt ops c =
     (if buffer_size c > 0 \<and> buffer c ! 0 < 0x80 then Some (Some (uint (buffer c ! 0)), Advance 1 c)
      else do {
        (v, c) \<leftarrow> ReadVarintSizeAsIntFallback ops c;
        Some (if v \<ge> 0 then Some v else None, c)
      })"

definition ReadLengthAndPushLimit ::
    "'s ZeroCopyInputStream \<Rightarrow> 's CodedInputStream \<Rightarrow> (int \<times> 's CodedInputStream) option" where
  "ReadLengthAndPushLimit ops c =
     do { (r, c) \<leftarrow> ReadVarint32 ops c; Some (PushLimit (case r of Some n \<Rightarrow> sint n | None \<Rightarrow> 0) c) }"

section \<open>Tags\<close>

definition ReadTagSlow ::
    "'s ZeroCopyInputStream \<Rightarrow> 's CodedInputStream \<Rightarrow> (uint32 \<times> 's CodedInputStream) option" where
  "ReadTagSlow ops c =
     do {
       (b, c) \<leftarrow> (if buffer_size c = 0 then Refresh ops c else Some (True, c));
       if \<not> b then
         let current_position = total_bytes_read c - buffer_size_after_limit c in
         Some (0, c\<lparr>legitimate_message_end :=
           (if current_position \<ge> total_bytes_limit c then current_limit c = total_bytes_limit c else True)\<rparr>)
       else do {
         (r, c) \<leftarrow> ReadVarint64 ops c;
         Some (case r of None \<Rightarrow> 0 | Some v \<Rightarrow> ucast v, c)
       }
     }"

definition ReadTagFallback ::
    "'s ZeroCopyInputStream \<Rightarrow> uint32 \<Rightarrow> 's CodedInputStream \<Rightarrow> (uint32 \<times> 's CodedInputStream) option" where
  "ReadTagFallback ops first_byte_or_zero c =
     (if fast_path c then
        if first_byte_or_zero = 0 then Some (0, Advance 1 c)
        else do {
          (r, c) \<leftarrow> from_array (ReadVarint32FromArray first_byte_or_zero (window c)) c;
          Some (case r of None \<Rightarrow> 0 | Some tag \<Rightarrow> tag, c)
        }
      else if buffer_size c = 0 \<and> (buffer_size_after_limit c > 0 \<or> total_bytes_read c = current_limit c) \<and>
          total_bytes_read c - buffer_size_after_limit c < total_bytes_limit c
      then Some (0, c\<lparr>legitimate_message_end := True\<rparr>)
      else ReadTagSlow ops c)"

definition ReadTagNoLastTag ::
    "'s ZeroCopyInputStream \<Rightarrow> 's CodedInputStream \<Rightarrow> (uint32 \<times> 's CodedInputStream) option" where
  "ReadTagNoLastTag ops c =
     (if buffer_size c > 0 \<and> buffer c ! 0 < 0x80 then Some (ucast (buffer c ! 0), Advance 1 c)
      else ReadTagFallback ops (if buffer_size c > 0 then ucast (buffer c ! 0) else 0) c)"

definition ReadTag ::
    "'s ZeroCopyInputStream \<Rightarrow> 's CodedInputStream \<Rightarrow> (uint32 \<times> 's CodedInputStream) option" where
  "ReadTag ops c = do { (tag, c) \<leftarrow> ReadTagNoLastTag ops c; Some (tag, c\<lparr>last_tag := tag\<rparr>) }"

text \<open>The first byte as \<open>int8\<close> is positive, or two bytes are at hand and the second one ends the tag.\<close>

definition ReadTagWithCutoffNoLastTag ::
    "'s ZeroCopyInputStream \<Rightarrow> uint32 \<Rightarrow> 's CodedInputStream \<Rightarrow> ((uint32 \<times> bool) \<times> 's CodedInputStream) option" where
  "ReadTagWithCutoffNoLastTag ops cutoff c =
     (if buffer_size c > 0 \<and> sint (buffer c ! 0) > 0 then
        let tag = ucast (buffer c ! 0) in Some ((tag, cutoff \<ge> 0x7F \<or> tag \<le> cutoff), Advance 1 c)
      else if buffer_size c > 1 \<and> cutoff \<ge> 0x80 \<and> buffer c ! 0 AND NOT (buffer c ! 1) \<ge> 0x80 then
        let tag = push_bit 7 1 * ucast (buffer c ! 1) + (ucast (buffer c ! 0) - 0x80) in
        Some ((tag, cutoff \<ge> push_bit 7 0x7F + 0x7F \<or> tag \<le> cutoff), Advance 2 c)
      else do {
        (tag, c) \<leftarrow> ReadTagFallback ops (if buffer_size c > 0 then ucast (buffer c ! 0) else 0) c;
        Some ((tag, tag - 1 < cutoff), c)
      })"

definition ReadTagWithCutoff ::
    "'s ZeroCopyInputStream \<Rightarrow> uint32 \<Rightarrow> 's CodedInputStream \<Rightarrow> ((uint32 \<times> bool) \<times> 's CodedInputStream) option" where
  "ReadTagWithCutoff ops cutoff c =
     do { (result, c) \<leftarrow> ReadTagWithCutoffNoLastTag ops cutoff c; Some (result, c\<lparr>last_tag := fst result\<rparr>) }"

definition LastTagWas :: "uint32 \<Rightarrow> 's CodedInputStream \<Rightarrow> bool" where
  "LastTagWas expected c \<longleftrightarrow> last_tag c = expected"

definition ExpectTag :: "uint32 \<Rightarrow> 's CodedInputStream \<Rightarrow> bool \<times> 's CodedInputStream" where
  "ExpectTag expected c =
     (if expected < 2 ^ 7 then
        if buffer_size c > 0 \<and> ucast (buffer c ! 0) = expected then (True, Advance 1 c) else (False, c)
      else if expected < 2 ^ 14 then
        if buffer_size c \<ge> 2 \<and> buffer c ! 0 = ucast (expected OR 0x80) \<and> buffer c ! 1 = ucast (drop_bit 7 expected)
        then (True, Advance 2 c) else (False, c)
      else (False, c))"

text \<open>The bytes behind the tag, if the array starts with it.\<close>

definition ExpectTagFromArray :: "byte list \<Rightarrow> uint32 \<Rightarrow> byte list option" where
  "ExpectTagFromArray p expected =
     (if expected < 2 ^ 7 then if ucast (p ! 0) = expected then Some (drop 1 p) else None
      else if expected < 2 ^ 14 then
        if p ! 0 = ucast (expected OR 0x80) \<and> p ! 1 = ucast (drop_bit 7 expected) then Some (drop 2 p) else None
      else None)"

definition ExpectAtEnd :: "'s CodedInputStream \<Rightarrow> bool \<times> 's CodedInputStream" where
  "ExpectAtEnd c =
     (if buffer_size c = 0 \<and> (buffer_size_after_limit c \<noteq> 0 \<or> total_bytes_read c = current_limit c)
      then (True, c\<lparr>last_tag := 0, legitimate_message_end := True\<rparr>) else (False, c))"

end
