(* ===== verification/Utf8.thy ===== *)
theory Utf8
  imports Prelude
begin

text \<open>
  UTF-8: the table-driven scanner of stubs/structurally_valid.cc, with its state table, its
  aligned four-byte and eight-byte fast paths and the routines built on it, and the encoder of
  stubs/strutil.cc. A pointer into the text is an index; the address of the text, on which the
  alignment tests depend, is a parameter. The reference is the set of encodings of Unicode scalar
  values.
\<close>

section \<open>The scan object\<close>

abbreviation kExitIllegalStructure :: nat where "kExitIllegalStructure \<equiv> 240"
abbreviation kExitOK :: nat where "kExitOK \<equiv> 241"
abbreviation kExitReject :: nat where "kExitReject \<equiv> 242"
abbreviation kExitDoAgain :: nat where "kExitDoAgain \<equiv> 253"

record UTF8ScanObj =
  state0 :: nat
  state0_size :: nat
  entry_shift :: nat
  losub :: uint32
  hiadd :: uint32
  state_table :: "nat list"
  fast_state :: "nat list"

definition state_block :: "nat \<Rightarrow> nat list" where
  "state_block s =
     (let X = kExitIllegalStructure in
      if s = 0 then
        replicate 128 0 @ replicate 64 X @ replicate 2 X @ replicate 30 1 @
        [2] @ replicate 12 3 @ [7] @ replicate 2 3 @ [4] @ replicate 3 5 @ [6] @ replicate 11 X
      else if s = 1 then replicate 128 X @ replicate 64 0 @ replicate 64 X
      else if s = 2 then replicate 128 X @ replicate 32 X @ replicate 32 1 @ replicate 64 X
      else if s = 3 then replicate 128 X @ replicate 64 1 @ replicate 64 X
      else if s = 4 then replicate 128 X @ replicate 16 X @ replicate 48 3 @ replicate 64 X
      else if s = 5 then replicate 128 X @ replicate 64 3 @ replicate 64 X
      else if s = 6 then replicate 128 X @ replicate 16 3 @ replicate 48 X @ replicate 64 X
      else if s = 7 then replicate 128 X @ replicate 32 1 @ replicate 32 8 @ replicate 64 X
      else replicate 128 X @ replicate 64 kExitReject @ replicate 64 X)"

definition utf8acceptnonsurrogates :: "nat list" where
  "utf8acceptnonsurrogates = concat (map state_block [0, 1, 2, 3, 4, 5, 6, 7, 8])"

definition utf8acceptnonsurrogates_fast :: "nat list" where
  "utf8acceptnonsurrogates_fast = replicate 128 0 @ replicate 128 1"

definition utf8acceptnonsurrogates_obj :: UTF8ScanObj where
  "utf8acceptnonsurrogates_obj =
     \<lparr> state0 = 0, state0_size = 256, entry_shift = 8, losub = 0x20202020, hiadd = 0x00000000,
       state_table = utf8acceptnonsurrogates, fast_state = utf8acceptnonsurrogates_fast \<rparr>"

text \<open>A position \<open>Tbl\<close> in the table is its offset; the unsigned comparison covers both ends.\<close>

definition InStateZero :: "UTF8ScanObj \<Rightarrow> nat \<Rightarrow> bool" where
  "InStateZero st Tbl \<longleftrightarrow> unat (of_int (int Tbl - int (state0 st)) :: uint32) < state0_size st"

section \<open>The generic scan\<close>

definition load32 :: "string \<Rightarrow> nat \<Rightarrow> uint32" where
  "load32 str i = word_of_int (le_val (map (\<lambda>c. int (uchar c)) (take 4 (drop i str))))"

definition srclimit8 :: "string \<Rightarrow> nat" where
  "srclimit8 str = (if length str < 7 then 0 else length str - 7)"

text \<open>The loop up to the first aligned address, for the test at hand.\<close>

function align_src :: "(char \<Rightarrow> bool) \<Rightarrow> nat \<Rightarrow> string \<Rightarrow> nat \<Rightarrow> nat" where
  "align_src ok addr str src =
     (if (addr + src) mod 8 \<noteq> 0 \<and> src < length str \<and> ok (str ! src)
      then align_src ok addr str (src + 1) else src)"
  by pat_completeness auto
termination by (relation "measure (\<lambda>(k, a, s, i). length s - i)") auto

text \<open>Eight bytes per round; the table is consulted when the range check fails.\<close>

definition fast_entry :: "UTF8ScanObj \<Rightarrow> string \<Rightarrow> nat \<Rightarrow> nat" where
  "fast_entry st str i = fast_state st ! uchar (str ! i)"

function fast_groups :: "UTF8ScanObj \<Rightarrow> string \<Rightarrow> nat \<Rightarrow> nat" where
  "fast_groups st str src =
     (if src < srclimit8 str then
        (let s0123 = load32 str src; s4567 = load32 str (src + 4);
             temp = (s0123 - losub st) OR (s0123 + hiadd st) OR (s4567 - losub st) OR (s4567 + hiadd st)
         in if temp AND 0x80808080 \<noteq> 0 then
              (if (fast_entry st str src OR fast_entry st str (src + 1)) OR
                  (fast_entry st str (src + 2) OR fast_entry st str (src + 3)) \<noteq> 0 then src
               else if (fast_entry st str (src + 4) OR fast_entry st str (src + 5)) OR
                  (fast_entry st str (src + 6) OR fast_entry st str (src + 7)) \<noteq> 0 then src + 4
               else fast_groups st str (src + 8))
            else fast_groups st str (src + 8))
      else src)"
  by pat_completeness auto
termination by (relation "measure (\<lambda>(st, s, i). srclimit8 s - i)") auto

text \<open>Byte at a time: exit code or last entry, position and \<open>Tbl\<close>.\<close>

function table_scan :: "UTF8ScanObj \<Rightarrow> string \<Rightarrow> nat \<Rightarrow> nat \<Rightarrow> nat \<Rightarrow> nat \<times> nat \<times> nat" where
  "table_scan st str src Tbl e =
     (if src < length str then
        (let e = state_table st ! (Tbl + uchar (str ! src)); src = src + 1 in
         if e \<ge> kExitIllegalStructure then (e, src, Tbl)
         else table_scan st str src (state0 st + push_bit (entry_shift st) e) e)
      else (e, src, Tbl))"
  by pat_completeness auto
termination by (relation "measure (\<lambda>(st, s, i, r). length s - i)") auto

text \<open>\<open>do { src--; } while ((src > isrc) && ((src[0] & 0xc0) == 0x80))\<close>\<close>

definition is_continuation :: "char \<Rightarrow> bool" where
  "is_continuation c \<longleftrightarrow> uchar c AND 0xC0 = 0x80"

fun back_up :: "string \<Rightarrow> nat \<Rightarrow> nat" where
  "back_up str src =
     (let src' = src - 1 in
      if src' > 0 \<and> is_continuation (str ! src') then back_up str src' else src')"

declare align_src.simps [simp del] fast_groups.simps [simp del] table_scan.simps [simp del]
  back_up.simps [simp del]

text \<open>The exit possibilities: the exit code and the position backed up to.\<close>

definition exit_scan :: "UTF8ScanObj \<Rightarrow> string \<Rightarrow> nat \<times> nat \<times> nat \<Rightarrow> nat \<times> nat" where
  "exit_scan st str = (\<lambda>(e, src, Tbl).
     if e \<ge> kExitIllegalStructure then
       (e, if \<not> InStateZero st Tbl then back_up str (src - 1) else src - 1)
     else if \<not> InStateZero st Tbl then (kExitIllegalStructure, back_up str src)
     else (kExitOK, src))"

text \<open>From \<open>DoAgain\<close> to the exit; \<open>None\<close> if it jumps back for ever.\<close>

partial_function (option) scan_again ::
    "UTF8ScanObj \<Rightarrow> nat \<Rightarrow> string \<Rightarrow> nat \<Rightarrow> (nat \<times> nat) option" where
  "scan_again st addr str src =
     (let src = align_src (\<lambda>c. fast_state st ! uchar c = 0) addr str src;
          src = (if (addr + src) mod 8 = 0 then fast_groups st str src else src);
          (e, src) = exit_scan st str (table_scan st str src (state0 st) 0)
      in if e = kExitDoAgain then scan_again st addr str src else Some (e, src))"

definition UTF8GenericScan :: "UTF8ScanObj \<Rightarrow> nat \<Rightarrow> string \<Rightarrow> (nat \<times> nat) option" where
  "UTF8GenericScan st addr str =
     (if length str = 0 then Some (kExitOK, 0) else scan_again st addr str 0)"

section \<open>The scan with an ASCII prefix\<close>

function ascii_groups :: "string \<Rightarrow> nat \<Rightarrow> nat" where
  "ascii_groups str src =
     (if src < srclimit8 str \<and> (load32 str src OR load32 str (src + 4)) AND 0x80808080 = 0
      then ascii_groups str (src + 8) else src)"
  by pat_completeness auto
termination by (relation "measure (\<lambda>(s, i). srclimit8 s - i)") auto

function ascii_bytes :: "string \<Rightarrow> nat \<Rightarrow> nat" where
  "ascii_bytes str src =
     (if src < length str \<and> uchar (str ! src) < 0x80 then ascii_bytes str (src + 1) else src)"
  by pat_completeness auto
termination by (relation "measure (\<lambda>(s, i). length s - i)") auto

declare ascii_groups.simps [simp del] ascii_bytes.simps [simp del]

partial_function (option) fast_ascii_loop ::
    "UTF8ScanObj \<Rightarrow> nat \<Rightarrow> string \<Rightarrow> nat \<Rightarrow> (nat \<times> nat) option" where
  "fast_ascii_loop st addr str src =
     (let src = align_src (\<lambda>c. uchar c < 0x80) addr str src;
          src = (if (addr + src) mod 8 = 0 then ascii_groups str src else src);
          n = ascii_bytes str src
      in case UTF8GenericScan st (addr + n) (drop n str) of
           None \<Rightarrow> None
         | Some (exit_reason, rest_consumed) \<Rightarrow>
             (if exit_reason = kExitDoAgain then fast_ascii_loop st addr str (n + rest_consumed)
              else Some (exit_reason, n + rest_consumed)))"

definition UTF8GenericScanFastAscii :: "UTF8ScanObj \<Rightarrow> nat \<Rightarrow> string \<Rightarrow> (nat \<times> nat) option" where
  "UTF8GenericScanFastAscii st addr str =
     (if length str = 0 then Some (kExitOK, 0) else fast_ascii_loop st addr str 0)"

section \<open>The public routines\<close>

definition IsStructurallyValidUTF8 :: "bool \<Rightarrow> nat \<Rightarrow> string \<Rightarrow> bool option" where
  "IsStructurallyValidUTF8 module_initialized addr buf =
     (if \<not> module_initialized then Some True
      else map_option (\<lambda>(e, bytes_consumed). bytes_consumed = length buf)
             (UTF8GenericScanFastAscii utf8acceptnonsurrogates_obj addr buf))"

definition UTF8SpnStructurallyValid :: "bool \<Rightarrow> nat \<Rightarrow> string \<Rightarrow> nat option" where
  "UTF8SpnStructurallyValid module_initialized addr str =
     (if \<not> module_initialized then Some (length str)
      else map_option snd (UTF8GenericScanFastAscii utf8acceptnonsurrogates_obj addr str))"

text \<open>The copy loop, with the output so far.\<close>

function coerce_loop :: "bool \<Rightarrow> nat \<Rightarrow> string \<Rightarrow> char \<Rightarrow> nat \<Rightarrow> string \<Rightarrow> string option" where
  "coerce_loop init addr isrc replace_char src dst =
     (if src < length isrc then
        (let dst = dst @ [replace_char]; src = src + 1 in
         case UTF8SpnStructurallyValid init (addr + src) (drop src isrc) of
           None \<Rightarrow> None
         | Some n \<Rightarrow> coerce_loop init addr isrc replace_char (src + n) (dst @ take n (drop src isrc)))
      else Some dst)"
  by pat_completeness auto
termination by (relation "measure (\<lambda>(h, a, s, c, i, d). length s - i)") auto

declare coerce_loop.simps [simp del]

definition UTF8CoerceToStructurallyValid :: "bool \<Rightarrow> nat \<Rightarrow> string \<Rightarrow> char \<Rightarrow> string option" where
  "UTF8CoerceToStructurallyValid init addr src_str replace_char =
     (case UTF8SpnStructurallyValid init addr src_str of
        None \<Rightarrow> None
      | Some n \<Rightarrow>
          (if n = length src_str then Some src_str
           else coerce_loop init addr src_str replace_char n (take n src_str)))"

section \<open>The encoder\<close>

text \<open>\<open>ghtonl\<close> and the copy of the last \<open>len\<close> bytes.\<close>

definition big_endian_tail :: "uint32 \<Rightarrow> nat \<Rightarrow> string" where
  "big_endian_tail tmp len =
     drop (4 - len) (map (\<lambda>k. to_char (unat (drop_bit k tmp))) [24, 16, 8, 0])"

definition EncodeAsUTF8Char :: "uint32 \<Rightarrow> string" where
  "EncodeAsUTF8Char code_point =
     (if code_point \<le> 0x7f then big_endian_tail code_point 1
      else if code_point \<le> 0x07ff then
        big_endian_tail (0x0000c080 OR push_bit 2 (code_point AND 0x07c0) OR (code_point AND 0x003f)) 2
      else if code_point \<le> 0xffff then
        big_endian_tail (0x00e08080 OR push_bit 4 (code_point AND 0xf000) OR
          push_bit 2 (code_point AND 0x0fc0) OR (code_point AND 0x003f)) 3
      else
        big_endian_tail (0xf0808080 OR push_bit 6 (code_point AND 0x1c0000) OR
          push_bit 4 (code_point AND 0x03f000) OR push_bit 2 (code_point AND 0x000fc0) OR
          (code_point AND 0x003f)) 4)"

definition kUTF8LenTbl :: "nat list" where
  "kUTF8LenTbl = replicate 128 1 @ replicate 64 1 @ replicate 32 2 @ replicate 16 3 @
     replicate 5 4 @ replicate 11 1"

definition UTF8FirstLetterNumBytes :: "string \<Rightarrow> nat" where
  "UTF8FirstLetterNumBytes src =
     (case src of [] \<Rightarrow> 0 | c # _ \<Rightarrow> kUTF8LenTbl ! uchar c)"

section \<open>The reference: encodings of scalar values\<close>

definition scalar_value :: "nat \<Rightarrow> bool" where
  "scalar_value u \<longleftrightarrow> u < 0xD800 \<or> 0xE000 \<le> u \<and> u < 0x110000"

definition utf8_encode :: "nat \<Rightarrow> string" where
  "utf8_encode u =
     (if u < 0x80 then [to_char u]
      else if u < 0x800 then [to_char (0xC0 + u div 64), to_char (0x80 + u mod 64)]
      else if u < 0x10000 then
        [to_char (0xE0 + u div 4096), to_char (0x80 + u div 64 mod 64), to_char (0x80 + u mod 64)]
      else [to_char (0xF0 + u div 262144), to_char (0x80 + u div 4096 mod 64),
            to_char (0x80 + u div 64 mod 64), to_char (0x80 + u mod 64)])"

definition well_formed :: "string \<Rightarrow> bool" where
  "well_formed s \<longleftrightarrow> (\<exists>us. list_all scalar_value us \<and> s = concat (map utf8_encode us))"

section \<open>The table as an automaton\<close>

definition next_state :: "nat \<Rightarrow> nat \<Rightarrow> nat" where
  "next_state s n =
     (if s = 0 then
        (if n < 128 then 0 else if n < 194 then 240 else if n < 224 then 1 else if n = 224 then 2
         else if n < 237 then 3 else if n = 237 then 7 else if n < 240 then 3 else if n = 240 then 4
         else if n < 244 then 5 else if n = 244 then 6 else 240)
      else if s = 1 then (if 128 \<le> n \<and> n < 192 then 0 else 240)
      else if s = 2 then (if 160 \<le> n \<and> n < 192 then 1 else 240)
      else if s = 3 then (if 128 \<le> n \<and> n < 192 then 1 else 240)
      else if s = 4 then (if 144 \<le> n \<and> n < 192 then 3 else 240)
      else if s = 5 then (if 128 \<le> n \<and> n < 192 then 3 else 240)
      else if s = 6 then (if 128 \<le> n \<and> n < 144 then 3 else 240)
      else if s = 7 then (if 128 \<le> n \<and> n < 160 then 1 else if 160 \<le> n \<and> n < 192 then 8 else 240)
      else (if 128 \<le> n \<and> n < 192 then 242 else 240))"

lemma state_cases: "s < 9 \<Longrightarrow> s \<in> {0, 1, 2, 3, 4, 5, 6, 7, 8 :: nat}"
  by auto

lemma state_block_table: "table_from (next_state s) 0 (state_block s)" if "s < 9"
  using state_cases [OF that]
  by (elim insertE emptyE)
    (simp_all add: state_block_def Let_def table_from_append,
      (intro conjI table_from_replicate; simp add: next_state_def)+)

lemma length_state_block: "length (state_block s) = 256"
  by (simp add: state_block_def)

lemma concat_blocks_nth:
  "list_all (\<lambda>b. length b = 256) bs \<Longrightarrow> s < length bs \<Longrightarrow> n < 256 \<Longrightarrow> concat bs ! (256 * s + n) = bs ! s ! n"
proof (induction bs arbitrary: s)
  case (Cons b bs)
  then show ?case by (cases s) (auto simp: nth_append)
qed simp

lemma table_nth: "s < 9 \<Longrightarrow> n < 256 \<Longrightarrow> utf8acceptnonsurrogates ! (256 * s + n) = next_state s n"
proof -
  assume s: "s < 9" and n: "n < 256"
  have "utf8acceptnonsurrogates ! (256 * s + n) = map state_block [0, 1, 2, 3, 4, 5, 6, 7, 8] ! s ! n"
    unfolding utf8acceptnonsurrogates_def using s n
    by (intro concat_blocks_nth) (simp_all add: length_state_block)
  also have "map state_block [0, 1, 2, 3, 4, 5, 6, 7, 8] ! s = state_block s"
    using state_cases [OF s] by auto
  also have "state_block s ! n = next_state s n"
    using table_from_nth [OF state_block_table [OF s], of n] n by (simp add: length_state_block)
  finally show ?thesis .
qed

lemma fast_table_nth: "fast_state utf8acceptnonsurrogates_obj ! uchar c = (if uchar c < 128 then 0 else 1)"
proof -
  have "table_from (\<lambda>n. if n < 128 then 0 else 1) 0 utf8acceptnonsurrogates_fast"
    unfolding utf8acceptnonsurrogates_fast_def table_from_append by (intro conjI table_from_replicate) auto
  from table_from_nth [OF this, of "uchar c"] show ?thesis
    by (simp add: utf8acceptnonsurrogates_obj_def utf8acceptnonsurrogates_fast_def)
qed

lemma next_state_bound: "next_state s n < 9 \<or> next_state s n = 240 \<or> next_state s n = 242"
  by (simp add: next_state_def)

lemma next_state_from_nonzero: "s \<noteq> 0 \<Longrightarrow> next_state s n < 240 \<Longrightarrow> 128 \<le> n \<and> n < 192"
  by (auto simp: next_state_def split: if_splits)

lemma next_state_lead: "next_state 0 n < 240 \<Longrightarrow> next_state 0 n \<noteq> 0 \<Longrightarrow> 192 \<le> n"
  by (auto simp: next_state_def split: if_splits)

lemma is_continuation_iff: "is_continuation c \<longleftrightarrow> 128 \<le> uchar c \<and> uchar c < 192"
proof -
  have "n AND 192 = push_bit 6 (drop_bit 6 n AND 3)" for n :: nat
  proof -
    have "(192 :: nat) = push_bit 6 3" by (simp add: push_bit_eq_mult)
    then have "n AND 192 = n AND push_bit 6 3" by (simp only:)
    also have "n AND push_bit k m = push_bit k (drop_bit k n AND m)" for k m
      by (rule bit_eqI) (auto simp: bit_and_iff bit_push_bit_iff bit_drop_bit_eq)
    finally show ?thesis .
  qed
  moreover have "drop_bit 6 n AND 3 = n div 64 mod 4" for n :: nat
  proof -
    have "m AND 3 = m mod 4" for m :: nat
      using take_bit_eq_mask [of 2 m] by (simp add: take_bit_eq_mod mask_eq_exp_minus_1)
    then show ?thesis by (simp only: drop_bit_eq_div) simp
  qed
  ultimately have "is_continuation c \<longleftrightarrow> uchar c div 64 mod 4 = 2"
    by (simp add: is_continuation_def push_bit_eq_mult)
  moreover have "uchar c div 64 < 4" using uchar_less [of c] by (simp add: less_mult_imp_div_less)
  then have "uchar c div 64 mod 4 = uchar c div 64" by simp
  moreover have "uchar c = uchar c div 64 * 64 + uchar c mod 64" "uchar c mod 64 < 64" by simp_all
  ultimately show ?thesis by linarith
qed

text \<open>Reading one character: the number of bytes up to the next return to state 0.\<close>

fun run :: "nat \<Rightarrow> string \<Rightarrow> nat option" where
  "run s [] = None"
| "run s (c # cs) =
     (let s' = next_state s (uchar c) in
      if 240 \<le> s' then None else if s' = 0 then Some 1 else map_option Suc (run s' cs))"

lemma run_bound: "run s xs = Some k \<Longrightarrow> 1 \<le> k \<and> k \<le> length xs"
  by (induction s xs arbitrary: k rule: run.induct) (auto simp: Let_def split: if_splits)

function span :: "string \<Rightarrow> nat" where
  "span xs = (case run 0 xs of None \<Rightarrow> 0 | Some k \<Rightarrow> k + span (drop k xs))"
  by pat_completeness auto
termination by (relation "measure length") (auto dest: run_bound)

declare span.simps [simp del]

abbreviation obj :: UTF8ScanObj where "obj \<equiv> utf8acceptnonsurrogates_obj"

lemma obj_simps [simp]:
  "state0 obj = 0" "entry_shift obj = 8" "state_table obj = utf8acceptnonsurrogates"
  "losub obj = 0x20202020" "hiadd obj = 0"
  by (simp_all add: utf8acceptnonsurrogates_obj_def)

lemma InStateZero_obj: "s < 9 \<Longrightarrow> InStateZero obj (256 * s) \<longleftrightarrow> s = 0"
proof -
  assume "s < 9"
  then have "256 * s < 2 ^ 32" by simp
  then have "unat (of_nat (256 * s) :: uint32) = 256 * s"
    by (simp only: unat_of_nat) (simp add: \<open>s < 9\<close>)
  then show ?thesis by (simp add: InStateZero_def utf8acceptnonsurrogates_obj_def)
qed

lemma push_8: "push_bit 8 n = 256 * n" for n :: nat
  by (simp add: push_bit_eq_mult)

lemma table_step:
  assumes "i < length str" "s < 9"
  shows "table_scan obj str i (256 * s) e =
    (let e' = next_state s (uchar (str ! i)) in
     if 240 \<le> e' then (e', Suc i, 256 * s) else table_scan obj str (Suc i) (256 * e') e')"
  using assms by (subst table_scan.simps) (simp add: table_nth push_8 Let_def)

lemma back_up_char:
  "i < j \<Longrightarrow> \<not> is_continuation (str ! i) \<Longrightarrow> (\<And>m. i < m \<Longrightarrow> m < j \<Longrightarrow> is_continuation (str ! m)) \<Longrightarrow>
   back_up str j = i"
proof (induction j)
  case (Suc j)
  show ?case
  proof (cases "i = j")
    case True
    with Suc.prems show ?thesis by (subst back_up.simps) simp
  next
    case False
    with Suc have "back_up str j = i" by simp
    with False Suc.prems show ?thesis by (subst back_up.simps) simp
  qed
qed simp

text \<open>In the middle of the character that starts at \<open>i\<close>.\<close>

definition in_char :: "string \<Rightarrow> nat \<Rightarrow> nat \<Rightarrow> nat \<Rightarrow> bool" where
  "in_char str i s j \<longleftrightarrow> j \<le> length str \<and> s < 9 \<and> (if s = 0 then j = i
     else i < j \<and> \<not> is_continuation (str ! i) \<and> (\<forall>m. i < m \<longrightarrow> m < j \<longrightarrow> is_continuation (str ! m)))"

lemma in_char_step:
  assumes "in_char str i s j" "j < length str" "next_state s (uchar (str ! j)) < 240" "next_state s (uchar (str ! j)) \<noteq> 0"
  shows "in_char str i (next_state s (uchar (str ! j))) (Suc j)"
proof -
  have "next_state s (uchar (str ! j)) < 9" using next_state_bound [of s "uchar (str ! j)"] assms(3) by auto
  moreover have "is_continuation (str ! j)" if "s \<noteq> 0"
    using next_state_from_nonzero [OF that assms(3)] by (simp add: is_continuation_iff)
  moreover have "\<not> is_continuation (str ! j)" if "s = 0"
    using next_state_lead [of "uchar (str ! j)"] assms(3,4) that by (simp add: is_continuation_iff)
  ultimately show ?thesis
    using assms(1,2,4) by (auto simp: in_char_def less_Suc_eq split: if_splits)
qed

lemma scan_run:
  assumes "in_char str i s j" "e < 240"
  shows "case run s (drop j str) of
      Some k \<Rightarrow> table_scan obj str j (256 * s) e = table_scan obj str (j + k) 0 0
    | None \<Rightarrow> j = length str \<and> s = 0 \<or>
        (\<exists>x \<in> {240, 242}. exit_scan obj str (table_scan obj str j (256 * s) e) = (x, i))"
  using assms
proof (induction "length str - j" arbitrary: j s e)
  case 0
  then have j: "j = length str" by (simp add: in_char_def)
  then have stop: "table_scan obj str j (256 * s) e = (e, j, 256 * s)" by (subst table_scan.simps) simp
  have "s \<noteq> 0 \<Longrightarrow> back_up str j = i" using 0(2) by (intro back_up_char) (auto simp: in_char_def)
  with 0 j stop show ?case by (auto simp: exit_scan_def in_char_def InStateZero_obj)
next
  case (Suc n)
  then have j: "j < length str" by simp
  then have d: "drop j str = str ! j # drop (Suc j) str" by (simp add: Cons_nth_drop_Suc)
  have s: "s < 9" using Suc.prems by (simp add: in_char_def)
  define s' where "s' = next_state s (uchar (str ! j))"
  consider "240 \<le> s'" | "s' = 0" | "s' \<noteq> 0" "s' < 240" by linarith
  then show ?case
  proof cases
    case 1
    then have "s' = 240 \<or> s' = 242" using next_state_bound [of s "uchar (str ! j)"] by (auto simp: s'_def)
    moreover have "table_scan obj str j (256 * s) e = (s', Suc j, 256 * s)"
      using 1 by (simp add: table_step [OF j s] s'_def Let_def)
    moreover have "s \<noteq> 0 \<Longrightarrow> back_up str j = i"
      using Suc.prems(1) by (intro back_up_char) (auto simp: in_char_def)
    moreover have "s = 0 \<Longrightarrow> j = i" using Suc.prems(1) by (simp add: in_char_def)
    ultimately show ?thesis
      using 1 s by (auto simp: d s'_def [symmetric] exit_scan_def InStateZero_obj)
  next
    case 2
    then have "table_scan obj str j (256 * s) e = table_scan obj str (Suc j) 0 0"
      by (simp add: table_step [OF j s] s'_def)
    with 2 show ?thesis by (simp add: d s'_def [symmetric])
  next
    case 3
    have step: "table_scan obj str j (256 * s) e = table_scan obj str (Suc j) (256 * s') s'"
      using 3 by (simp add: table_step [OF j s] s'_def Let_def)
    have "in_char str i s' (Suc j)"
      using in_char_step [OF Suc.prems(1) j] 3 by (simp add: s'_def)
    moreover have "n = length str - Suc j" using Suc.hyps(2) by simp
    ultimately show ?thesis using Suc.hyps(1) [of "Suc j" s' s'] 3 step
      by (auto simp: d s'_def [symmetric] split: option.splits)
  qed
qed

lemma scan_span:
  "i \<le> length str \<Longrightarrow>
   \<exists>x. exit_scan obj str (table_scan obj str i 0 0) = (x, i + span (drop i str)) \<and>
     x \<in> {240, 241, 242} \<and> (x = 241 \<longleftrightarrow> i + span (drop i str) = length str)"
proof (induction "length str - i" arbitrary: i rule: less_induct)
  case less
  have in0: "in_char str i 0 i" using less.prems by (simp add: in_char_def)
  show ?case
  proof (cases "run 0 (drop i str)")
    case (Some k)
    then have k: "1 \<le> k" "i + k \<le> length str" using run_bound [OF Some] less.prems by auto
    have "table_scan obj str i 0 0 = table_scan obj str (i + k) 0 0"
      using scan_run [OF in0, of 0] Some by simp
    moreover have "span (drop i str) = k + span (drop (i + k) str)"
      using Some by (subst span.simps) (simp add: add.commute)
    ultimately show ?thesis using less.hyps [of "i + k"] k by (simp add: add.assoc)
  next
    case None
    then have span: "span (drop i str) = 0" by (subst span.simps) simp
    show ?thesis
    proof (cases "i = length str")
      case True
      then have "table_scan obj str i 0 0 = (0, i, 0)" by (subst table_scan.simps) simp
      then show ?thesis using span True InStateZero_obj [of 0] by (simp add: exit_scan_def)
    next
      case False
      with scan_run [OF in0, of 0] None span show ?thesis by auto
    qed
  qed
qed

section \<open>Scalar values\<close>

lemma uchar_to_char_small: "n < 256 \<Longrightarrow> uchar (to_char n) = n"
  by simp

lemma lead_states:
  "n < 128 \<Longrightarrow> next_state 0 n = 0" "194 \<le> n \<Longrightarrow> n < 224 \<Longrightarrow> next_state 0 n = 1"
  "next_state 0 224 = 2" "225 \<le> n \<Longrightarrow> n < 240 \<Longrightarrow> n \<noteq> 237 \<Longrightarrow> next_state 0 n = 3" "next_state 0 237 = 7"
  "next_state 0 240 = 4" "241 \<le> n \<Longrightarrow> n < 244 \<Longrightarrow> next_state 0 n = 5" "next_state 0 244 = 6"
  by (simp_all add: next_state_def)

lemma trail_states:
  "128 \<le> n \<Longrightarrow> n < 192 \<Longrightarrow> next_state (Suc 0) n = 0" "160 \<le> n \<Longrightarrow> n < 192 \<Longrightarrow> next_state 2 n = 1"
  "128 \<le> n \<Longrightarrow> n < 192 \<Longrightarrow> next_state 3 n = 1" "144 \<le> n \<Longrightarrow> n < 192 \<Longrightarrow> next_state 4 n = 3"
  "128 \<le> n \<Longrightarrow> n < 192 \<Longrightarrow> next_state 5 n = 3" "128 \<le> n \<Longrightarrow> n < 144 \<Longrightarrow> next_state 6 n = 3"
  "128 \<le> n \<Longrightarrow> n < 160 \<Longrightarrow> next_state 7 n = 1"
  by (simp_all add: next_state_def)

lemma run_step:
  "uchar c = n \<Longrightarrow> next_state s n = t \<Longrightarrow> t < 240 \<Longrightarrow> t \<noteq> 0 \<Longrightarrow> run s (c # cs) = map_option Suc (run t cs)"
  "uchar c = n \<Longrightarrow> next_state s n = 0 \<Longrightarrow> run s (c # cs) = Some 1"
  by simp_all

lemma run_trail: "n < 64 \<Longrightarrow> run (Suc 0) (to_char (0x80 + n) # cs) = Some 1"
  by (rule run_step(2) [of _ "128 + n"]) (simp_all add: trail_states)

lemma run_trail2: "n < 64 \<Longrightarrow> run 3 (to_char (0x80 + n) # cs) = map_option Suc (run 1 cs)"
  by (rule run_step(1) [of _ "128 + n"]) (simp_all add: trail_states)

text \<open>A code point as base-64 digits.\<close>

lemma base64_digits: "u = (u div 4096 * 64 + u div 64 mod 64) * 64 + u mod (64 :: nat)"
proof -
  have "u div 4096 = u div 64 div 64" by (simp add: div_mult2_eq [symmetric])
  then have "u div 4096 * 64 + u div 64 mod 64 = u div 64" by (simp only: div_mult_mod_eq)
  then show ?thesis by (simp only: div_mult_mod_eq)
qed

lemma base64_digits4:
  "u = ((u div 262144 * 64 + u div 4096 mod 64) * 64 + u div 64 mod 64) * 64 + u mod (64 :: nat)"
proof -
  have "u div 262144 = u div 4096 div 64" by (simp add: div_mult2_eq [symmetric])
  then have "u div 262144 * 64 + u div 4096 mod 64 = u div 4096" by (simp only: div_mult_mod_eq)
  with base64_digits show ?thesis by simp
qed

lemma run_lead3:
  assumes "a < 16" "b < 64" "if a = 0 then 32 \<le> b else if a = 13 then b < 32 else True"
  shows "run 0 (to_char (0xE0 + a) # to_char (0x80 + b) # cs) = map_option (Suc \<circ> Suc) (run 1 cs)"
proof -
  define s where "s = (if a = 0 then 2 else if a = 13 then 7 else 3 :: nat)"
  have "next_state 0 (224 + a) = s" using assms(1) by (auto simp: s_def next_state_def)
  then have "run 0 (to_char (0xE0 + a) # t) = map_option Suc (run s t)" for t
    by (intro run_step(1) [of _ "224 + a"]) (use assms(1) in \<open>simp_all add: s_def\<close>)
  moreover have "next_state s (128 + b) = 1" using assms by (auto simp: s_def next_state_def split: if_splits)
  then have "run s (to_char (0x80 + b) # t) = map_option Suc (run 1 t)" for t
    by (intro run_step(1) [of _ "128 + b"]) (use assms(2) in simp_all)
  ultimately show ?thesis by (simp add: option.map_comp del: run.simps)
qed

lemma run_lead4:
  assumes "a < 5" "b < 64" "if a = 0 then 16 \<le> b else if a = 4 then b < 16 else True"
  shows "run 0 (to_char (0xF0 + a) # to_char (0x80 + b) # cs) = map_option (Suc \<circ> Suc) (run 3 cs)"
proof -
  define s where "s = (if a = 0 then 4 else if a = 4 then 6 else 5 :: nat)"
  have "next_state 0 (240 + a) = s" using assms(1) by (auto simp: s_def next_state_def)
  then have "run 0 (to_char (0xF0 + a) # t) = map_option Suc (run s t)" for t
    by (intro run_step(1) [of _ "240 + a"]) (use assms(1) in \<open>simp_all add: s_def\<close>)
  moreover have "next_state s (128 + b) = 3" using assms by (auto simp: s_def next_state_def split: if_splits)
  then have "run s (to_char (0x80 + b) # t) = map_option Suc (run 3 t)" for t
    by (intro run_step(1) [of _ "128 + b"]) (use assms(2) in simp_all)
  ultimately show ?thesis by (simp add: option.map_comp del: run.simps)
qed

lemma run_encode: "scalar_value u \<Longrightarrow> run 0 (utf8_encode u @ r) = Some (length (utf8_encode u))"
proof -
  assume u: "scalar_value u"
  have m: "k mod 64 < 64" for k :: nat by simp
  consider "u < 0x80" | "0x80 \<le> u" "u < 0x800" | "0x800 \<le> u" "u < 0x10000" | "0x10000 \<le> u" "u < 0x110000"
    using u by (fastforce simp: scalar_value_def)
  then show ?thesis
  proof cases
    case 1
    then show ?thesis by (simp add: utf8_encode_def lead_states)
  next
    case 2
    then have "2 \<le> u div 64" "u div 64 < 32" by (simp_all add: less_eq_div_iff_mult_less_eq less_mult_imp_div_less)
    then have "run 0 (to_char (0xC0 + u div 64) # cs) = map_option Suc (run 1 cs)" for cs
      by (intro run_step(1) [of _ "192 + u div 64"]) (simp_all add: lead_states)
    with 2 m show ?thesis by (simp add: utf8_encode_def run_trail del: run.simps)
  next
    case 3
    define a b c where "a = u div 4096" and "b = u div 64 mod 64" and "c = u mod 64"
    have abc: "u = a * 4096 + b * 64 + c" "b < 64" "c < 64"
      using base64_digits [of u] by (simp_all add: a_def b_def c_def)
    have "a < 16" using 3 abc by linarith
    moreover have "if a = 0 then 32 \<le> b else if a = 13 then b < 32 else True"
      using 3 abc u by (auto simp: scalar_value_def)
    moreover have "utf8_encode u = [to_char (0xE0 + a), to_char (0x80 + b), to_char (0x80 + c)]"
      using 3 by (simp add: utf8_encode_def a_def b_def c_def)
    ultimately show ?thesis using abc by (simp add: run_lead3 run_trail del: run.simps)
  next
    case 4
    define a b c d where "a = u div 262144" and "b = u div 4096 mod 64" and "c = u div 64 mod 64" and "d = u mod 64"
    have abc: "u = a * 262144 + b * 4096 + c * 64 + d" "b < 64" "c < 64" "d < 64"
      using base64_digits4 [of u] by (simp_all add: a_def b_def c_def d_def)
    have "a < 5" using 4 abc by linarith
    moreover have "if a = 0 then 16 \<le> b else if a = 4 then b < 16 else True"
      using 4 abc by auto
    moreover have "utf8_encode u = [to_char (0xF0 + a), to_char (0x80 + b), to_char (0x80 + c), to_char (0x80 + d)]"
      using 4 by (simp add: utf8_encode_def a_def b_def c_def d_def)
    ultimately show ?thesis using abc by (simp add: run_lead4 run_trail2 run_trail del: run.simps)
  qed
qed

lemma encode_nonempty: "utf8_encode u \<noteq> []"
  by (simp add: utf8_encode_def)

lemma span_encode: "scalar_value u \<Longrightarrow> span (utf8_encode u @ r) = length (utf8_encode u) + span r"
  by (subst span.simps) (simp add: run_encode)

lemma span_well_formed:
  "list_all scalar_value us \<Longrightarrow> span (concat (map utf8_encode us) @ r) = length (concat (map utf8_encode us)) + span r"
  by (induction us) (simp_all add: span_encode)

lemma encode2: "2 \<le> a \<Longrightarrow> a < 32 \<Longrightarrow> b < 64 \<Longrightarrow>
  utf8_encode (a * 64 + b) = [to_char (0xC0 + a), to_char (0x80 + b)]"
  by (simp add: utf8_encode_def)

lemma encode3:
  assumes "a < 16" "b < 64" "c < 64" "a = 0 \<longrightarrow> 32 \<le> b"
  shows "utf8_encode (a * 4096 + b * 64 + c) = [to_char (0xE0 + a), to_char (0x80 + b), to_char (0x80 + c)]"
proof -
  let ?u = "a * 4096 + b * 64 + c"
  have u: "\<not> ?u < 0x800" "?u < 0x10000" using assms by auto
  have eq: "?u = c + 64 * (a * 64 + b)" by simp
  have "?u div 64 = a * 64 + b" "?u mod 64 = c"
    unfolding eq using assms(3) by (simp_all only: div_mult_self2 mod_mult_self2) simp_all
  moreover have "?u div 4096 = ?u div 64 div 64" by (simp only: div_mult2_eq [symmetric]) simp
  ultimately show ?thesis using u assms by (simp add: utf8_encode_def)
qed

lemma encode4:
  assumes "a < 5" "b < 64" "c < 64" "d < 64" "a = 0 \<longrightarrow> 16 \<le> b"
  shows "utf8_encode (a * 262144 + b * 4096 + c * 64 + d) =
    [to_char (0xF0 + a), to_char (0x80 + b), to_char (0x80 + c), to_char (0x80 + d)]"
proof -
  let ?u = "a * 262144 + b * 4096 + c * 64 + d"
  have u: "\<not> ?u < 0x10000" using assms by auto
  define w where "w = c + 64 * (b + 64 * a)"
  have eq: "?u = d + 64 * w" by (simp add: w_def)
  have "?u div 64 = w" "?u mod 64 = d"
    unfolding eq using assms(4) by (simp_all only: div_mult_self2 mod_mult_self2) simp_all
  moreover have "w div 64 = b + 64 * a" "w mod 64 = c"
    unfolding w_def using assms(3) by (simp_all only: div_mult_self2 mod_mult_self2) simp_all
  moreover have "(b + 64 * a) div 64 = a" "(b + 64 * a) mod 64 = b"
    using assms(2) by (simp_all only: div_mult_self2 mod_mult_self2) simp_all
  moreover have "?u div 4096 = ?u div 64 div 64" "?u div 262144 = ?u div 64 div 64 div 64"
    by (simp_all only: div_mult2_eq [symmetric]) simp_all
  ultimately show ?thesis using u assms by (simp add: utf8_encode_def)
qed

lemma byte_char: "uchar c = n \<Longrightarrow> c = to_char n"
  by (metis char_of_char)

lemma run_trail_inv:
  assumes "run s xs = Some k" "s \<noteq> 0"
  obtains n cs where "xs = to_char (0x80 + n) # cs" "n < 64" "next_state s (0x80 + n) < 240"
    "if next_state s (0x80 + n) = 0 then k = 1 else map_option Suc (run (next_state s (0x80 + n)) cs) = Some k"
proof (cases xs)
  case Nil
  with assms show ?thesis by simp
next
  case (Cons c cs)
  with assms have t: "next_state s (uchar c) < 240" by (auto simp: Let_def split: if_splits)
  define n where "n = uchar c - 128"
  have n: "uchar c = 0x80 + n" "n < 64" using next_state_from_nonzero [OF assms(2) t] by (auto simp: n_def)
  show ?thesis
  proof (rule that [of n cs])
    show "xs = to_char (0x80 + n) # cs" using Cons byte_char [OF n(1)] by simp
  qed (use assms(1) n t Cons in \<open>auto simp: Let_def split: if_splits\<close>)
qed

lemma run_last_inv:
  assumes "run (Suc 0) xs = Some k"
  obtains n cs where "xs = to_char (0x80 + n) # cs" "n < 64" "k = 1"
proof -
  obtain n cs where n: "xs = to_char (0x80 + n) # cs" "n < 64" "next_state (Suc 0) (0x80 + n) < 240"
    "if next_state (Suc 0) (0x80 + n) = 0 then k = 1
     else map_option Suc (run (next_state (Suc 0) (0x80 + n)) cs) = Some k"
    by (rule run_trail_inv [OF assms]) simp
  moreover have "next_state (Suc 0) (0x80 + n) = 0" using n(2) by (simp add: next_state_def)
  ultimately show ?thesis using that by simp
qed

lemma run_last2_inv:
  assumes "run 3 xs = Some k"
  obtains n m cs where "xs = to_char (0x80 + n) # to_char (0x80 + m) # cs" "n < 64" "m < 64" "k = 2"
proof -
  obtain n cs where n: "xs = to_char (0x80 + n) # cs" "n < 64" "next_state 3 (0x80 + n) < 240"
    "if next_state 3 (0x80 + n) = 0 then k = 1
     else map_option Suc (run (next_state 3 (0x80 + n)) cs) = Some k"
    by (rule run_trail_inv [OF assms]) simp
  moreover have "next_state 3 (0x80 + n) = Suc 0" using n(2) by (simp add: next_state_def)
  ultimately obtain j where j: "run (Suc 0) cs = Some j" "k = Suc j" by auto
  from j(1) obtain m ds where "cs = to_char (0x80 + m) # ds" "m < 64" "j = 1" by (rule run_last_inv)
  with n j that show ?thesis by simp
qed

lemma run_second3_inv:
  assumes "run s xs = Some k" "s \<in> {2, 3, 7}"
  obtains n m cs where "xs = to_char (0x80 + n) # to_char (0x80 + m) # cs" "n < 64" "m < 64" "k = 2"
    "s = 2 \<longrightarrow> 32 \<le> n" "s = 7 \<longrightarrow> n < 32"
proof -
  obtain n cs where n: "xs = to_char (0x80 + n) # cs" "n < 64" "next_state s (0x80 + n) < 240"
    "if next_state s (0x80 + n) = 0 then k = 1
     else map_option Suc (run (next_state s (0x80 + n)) cs) = Some k"
    by (rule run_trail_inv [OF assms(1)]) (use assms(2) in auto)
  have "run 8 cs = None" by (cases cs) (simp_all add: next_state_def Let_def)
  with n assms(2) have t: "next_state s (0x80 + n) = Suc 0" "s = 2 \<longrightarrow> 32 \<le> n" "s = 7 \<longrightarrow> n < 32"
    by (auto simp: next_state_def split: if_splits)
  with n obtain j where j: "run (Suc 0) cs = Some j" "k = Suc j" by auto
  from j(1) obtain m ds where "cs = to_char (0x80 + m) # ds" "m < 64" "j = 1" by (rule run_last_inv)
  with n t j that show ?thesis by simp
qed

lemma run_second4_inv:
  assumes "run s xs = Some k" "s \<in> {4, 5, 6}"
  obtains n m l cs where "xs = to_char (0x80 + n) # to_char (0x80 + m) # to_char (0x80 + l) # cs"
    "n < 64" "m < 64" "l < 64" "k = 3" "s = 4 \<longrightarrow> 16 \<le> n" "s = 6 \<longrightarrow> n < 16"
proof -
  obtain n cs where n: "xs = to_char (0x80 + n) # cs" "n < 64" "next_state s (0x80 + n) < 240"
    "if next_state s (0x80 + n) = 0 then k = 1
     else map_option Suc (run (next_state s (0x80 + n)) cs) = Some k"
    by (rule run_trail_inv [OF assms(1)]) (use assms(2) in auto)
  with assms(2) have t: "next_state s (0x80 + n) = 3" "s = 4 \<longrightarrow> 16 \<le> n" "s = 6 \<longrightarrow> n < 16"
    by (auto simp: next_state_def split: if_splits)
  with n obtain j where j: "run 3 cs = Some j" "k = Suc j" by auto
  from j(1) obtain m l ds where "cs = to_char (0x80 + m) # to_char (0x80 + l) # ds" "m < 64" "l < 64" "j = 2"
    by (rule run_last2_inv)
  with n t j that show ?thesis by simp
qed

lemma run_decode:
  assumes "run 0 xs = Some k"
  shows "\<exists>u r. scalar_value u \<and> xs = utf8_encode u @ r \<and> k = length (utf8_encode u)"
proof -
  from assms obtain c cs where xs: "xs = c # cs" by (cases xs) auto
  define v where "v = uchar c"
  have c: "c = to_char v" unfolding v_def by (simp add: byte_char)
  have v256: "v < 256" by (simp add: v_def)
  have go: "next_state 0 v < 240" "if next_state 0 v = 0 then k = 1 else map_option Suc (run (next_state 0 v) cs) = Some k"
    using assms by (auto simp: xs v_def Let_def split: if_splits)
  then consider "v < 128" | "194 \<le> v" "v < 224" | "224 \<le> v" "v < 240" | "240 \<le> v" "v < 245"
    by (fastforce simp: next_state_def split: if_splits)
  then show ?thesis
  proof cases
    case 1
    with go show ?thesis
      by (intro exI [of _ v] exI [of _ cs]) (simp add: xs c lead_states utf8_encode_def scalar_value_def)
  next
    case 2
    with go obtain j where j: "run (Suc 0) cs = Some j" "k = Suc j" by (auto simp: lead_states)
    from j(1) obtain n r where n: "cs = to_char (0x80 + n) # r" "n < 64" "j = 1" by (rule run_last_inv)
    define a where "a = v - 192"
    have a: "v = 192 + a" "2 \<le> a" "a < 32" using 2 by (auto simp: a_def)
    let ?u = "a * 64 + n"
    have "utf8_encode ?u = [c, to_char (0x80 + n)]" using a n by (simp add: encode2 c)
    with a n j show ?thesis
      by (intro exI [of _ ?u] exI [of _ r]) (simp add: xs scalar_value_def)
  next
    case 3
    define s where "s = (if v = 224 then 2 else if v = 237 then 7 else 3 :: nat)"
    have "next_state 0 v = s" using 3 by (auto simp: s_def next_state_def)
    with go obtain j where j: "run s cs = Some j" "k = Suc j" by (auto simp: s_def split: if_splits)
    have "s \<in> {2, 3, 7}" by (simp add: s_def)
    from j(1) this obtain n m r where n: "cs = to_char (0x80 + n) # to_char (0x80 + m) # r"
      "n < 64" "m < 64" "j = 2" "s = 2 \<longrightarrow> 32 \<le> n" "s = 7 \<longrightarrow> n < 32" by (rule run_second3_inv)
    define a where "a = v - 224"
    have a: "v = 224 + a" "a < 16" "a = 0 \<longrightarrow> 32 \<le> n" "a = 13 \<longrightarrow> n < 32"
      using 3 n by (auto simp: a_def s_def split: if_splits)
    let ?u = "a * 4096 + n * 64 + m"
    have "utf8_encode ?u = [c, to_char (0x80 + n), to_char (0x80 + m)]" using a n by (simp add: encode3 c)
    moreover have "scalar_value ?u"
    proof -
      consider "a < 13" | "a = 13" | "14 \<le> a" by linarith
      then show ?thesis using a n(2,3) by cases (simp_all add: scalar_value_def)
    qed
    ultimately show ?thesis using n j by (intro exI [of _ ?u] exI [of _ r]) (simp add: xs)
  next
    case 4
    define s where "s = (if v = 240 then 4 else if v = 244 then 6 else 5 :: nat)"
    have "next_state 0 v = s" using 4 by (auto simp: s_def next_state_def)
    with go obtain j where j: "run s cs = Some j" "k = Suc j" by (auto simp: s_def split: if_splits)
    have "s \<in> {4, 5, 6}" by (simp add: s_def)
    from j(1) this obtain n m l r where n: "cs = to_char (0x80 + n) # to_char (0x80 + m) # to_char (0x80 + l) # r"
      "n < 64" "m < 64" "l < 64" "j = 3" "s = 4 \<longrightarrow> 16 \<le> n" "s = 6 \<longrightarrow> n < 16" by (rule run_second4_inv)
    define a where "a = v - 240"
    have a: "v = 240 + a" "a < 5" "a = 0 \<longrightarrow> 16 \<le> n" "a = 4 \<longrightarrow> n < 16"
      using 4 n by (auto simp: a_def s_def split: if_splits)
    let ?u = "a * 262144 + n * 4096 + m * 64 + l"
    have "utf8_encode ?u = [c, to_char (0x80 + n), to_char (0x80 + m), to_char (0x80 + l)]"
      using a n by (simp add: encode4 c)
    moreover have "scalar_value ?u"
    proof -
      consider "a = 0" | "0 < a" "a < 4" | "a = 4" using a(2) by linarith
      then show ?thesis using a n(2-4) by cases (simp_all add: scalar_value_def)
    qed
    ultimately show ?thesis using n j by (intro exI [of _ ?u] exI [of _ r]) (simp add: xs)
  qed
qed

lemma span_bound: "span xs \<le> length xs"
proof (induction xs rule: span.induct)
  case (1 xs)
  show ?case
  proof (cases "run 0 xs")
    case (Some k)
    with 1 [OF Some] run_bound [OF Some] show ?thesis by (subst span.simps) auto
  qed (subst span.simps, simp)
qed

lemma take_span_well_formed: "well_formed (take (span xs) xs)"
proof (induction xs rule: span.induct)
  case (1 xs)
  show ?case
  proof (cases "run 0 xs")
    case None
    then show ?thesis unfolding well_formed_def by (subst span.simps, intro exI [of _ "[]"]) simp
  next
    case (Some k)
    from run_decode [OF Some] obtain u r where u: "scalar_value u" "xs = utf8_encode u @ r" "k = length (utf8_encode u)"
      by blast
    with 1 [OF Some] obtain us where us: "list_all scalar_value us" "take (span r) r = concat (map utf8_encode us)"
      by (auto simp: well_formed_def)
    have "take (span xs) xs = concat (map utf8_encode (u # us))"
      using u us by (simp add: span_encode)
    with u us show ?thesis unfolding well_formed_def by (intro exI [of _ "u # us"]) simp
  qed
qed

lemma span_longest: "m \<le> length xs \<Longrightarrow> well_formed (take m xs) \<Longrightarrow> m \<le> span xs"
proof -
  assume m: "m \<le> length xs" and "well_formed (take m xs)"
  then obtain us where us: "list_all scalar_value us" "take m xs = concat (map utf8_encode us)"
    by (auto simp: well_formed_def)
  then have "xs = concat (map utf8_encode us) @ drop m xs" by (metis append_take_drop_id)
  then have "span xs = length (concat (map utf8_encode us)) + span (drop m xs)"
    using span_well_formed [OF us(1)] by metis
  also have "length (concat (map utf8_encode us)) = m" using us(2) m by (metis length_take min.absorb2)
  finally show ?thesis by simp
qed

lemma span_full_iff: "span xs = length xs \<longleftrightarrow> well_formed xs"
  using take_span_well_formed [of xs] span_longest [of "length xs" xs] span_bound [of xs] by auto

section \<open>The fast paths skip ASCII only\<close>

definition ascii_until :: "string \<Rightarrow> nat \<Rightarrow> nat \<Rightarrow> bool" where
  "ascii_until str i j \<longleftrightarrow> i \<le> j \<and> j \<le> length str \<and> (\<forall>m. i \<le> m \<longrightarrow> m < j \<longrightarrow> uchar (str ! m) < 128)"

lemma ascii_until_refl: "i \<le> length str \<Longrightarrow> ascii_until str i i"
  by (simp add: ascii_until_def)

lemma ascii_until_bound: "ascii_until str i j \<Longrightarrow> j \<le> length str"
  by (simp add: ascii_until_def)

lemma ascii_until_trans: "ascii_until str i j \<Longrightarrow> ascii_until str j k \<Longrightarrow> ascii_until str i k"
  by (auto simp: ascii_until_def)

lemma ascii_until_four:
  "i + 4 \<le> length str \<Longrightarrow> uchar (str ! i) < 128 \<Longrightarrow> uchar (str ! (i + 1)) < 128 \<Longrightarrow>
   uchar (str ! (i + 2)) < 128 \<Longrightarrow> uchar (str ! (i + 3)) < 128 \<Longrightarrow> ascii_until str i (i + 4)"
proof -
  assume *: "i + 4 \<le> length str" "uchar (str ! i) < 128" "uchar (str ! (i + 1)) < 128"
    "uchar (str ! (i + 2)) < 128" "uchar (str ! (i + 3)) < 128"
  have "uchar (str ! m) < 128" if "i \<le> m" "m < i + 4" for m
  proof -
    from that have "m = i \<or> m = i + 1 \<or> m = i + 2 \<or> m = i + 3" by linarith
    with * show ?thesis by auto
  qed
  with * show ?thesis by (simp add: ascii_until_def)
qed

lemma span_skip_ascii: "ascii_until str i j \<Longrightarrow> span (drop i str) = (j - i) + span (drop j str)"
proof (induction "j - i" arbitrary: i)
  case 0
  then show ?case by (simp add: ascii_until_def)
next
  case (Suc n)
  then have i: "i < j" "i < length str" by (auto simp: ascii_until_def)
  then have d: "drop i str = str ! i # drop (Suc i) str" by (simp add: Cons_nth_drop_Suc)
  have "uchar (str ! i) < 128" using Suc.prems i by (simp add: ascii_until_def)
  then have "span (drop i str) = Suc (span (drop (Suc i) str))"
    unfolding d by (subst span.simps) (simp add: lead_states)
  moreover have "ascii_until str (Suc i) j" using Suc.prems i by (simp add: ascii_until_def)
  ultimately show ?case using Suc.hyps i by simp
qed

lemma align_src_ascii:
  "(\<And>c. ok c \<Longrightarrow> uchar c < 128) \<Longrightarrow> i \<le> length str \<Longrightarrow> ascii_until str i (align_src ok addr str i)"
proof (induction ok addr str i rule: align_src.induct)
  case (1 ok addr str i)
  show ?case
  proof (cases "(addr + i) mod 8 \<noteq> 0 \<and> i < length str \<and> ok (str ! i)")
    case True
    with 1 have "ascii_until str (Suc i) (align_src ok addr str (Suc i))" by simp
    moreover have "ascii_until str i (Suc i)" using True 1(2) by (auto simp: ascii_until_def less_Suc_eq_le le_antisym)
    ultimately show ?thesis
      using True by (subst align_src.simps) (simp add: ascii_until_trans)
  next
    case False
    with 1 show ?thesis by (subst align_src.simps) (auto intro: ascii_until_refl)
  qed
qed

lemma high_bits:
  assumes "w AND 0x80808080 = (0 :: uint32)" "k < 4"
  shows "\<not> bit w (7 + 8 * k)"
proof -
  have "bit (0x80808080 :: uint32) (7 + 8 * k)"
  proof -
    have "k \<in> {0, 1, 2, 3}" using assms(2) by auto
    then show ?thesis by auto
  qed
  moreover have "\<not> bit (w AND 0x80808080) (7 + 8 * k)" using assms(1) by simp
  ultimately show ?thesis by (simp add: bit_and_iff)
qed

lemma load32_bit:
  assumes "i + 4 \<le> length str" "k < 4"
  shows "bit (load32 str i) (7 + 8 * k) \<longleftrightarrow> 128 \<le> uchar (str ! (i + k))"
proof -
  let ?bs = "map (\<lambda>c. int (uchar c)) (take 4 (drop i str))"
  have ok: "0 \<le> b \<and> b < 256" if "b \<in> set ?bs" for b using that by auto
  have "bit (le_val ?bs) (7 + 8 * k) \<longleftrightarrow> 128 \<le> ?bs ! k"
    by (rule le_val_bit7 [OF ok]) (use assms in auto)
  with assms show ?thesis by (simp add: load32_def bit_word_of_int_iff)
qed

lemma load32_ascii:
  assumes "i + 4 \<le> length str" "load32 str i AND 0x80808080 = 0"
  shows "ascii_until str i (i + 4)"
proof -
  have "uchar (str ! (i + k)) < 128" if "k < 4" for k
    using high_bits [OF assms(2) that] load32_bit [OF assms(1) that] by simp
  from this [of 0] this [of 1] this [of 2] this [of 3] show ?thesis
    by (intro ascii_until_four [OF assms(1)]) simp_all
qed

lemma load32_ascii8:
  assumes "i + 8 \<le> length str" "load32 str i AND 0x80808080 = 0" "load32 str (i + 4) AND 0x80808080 = 0"
  shows "ascii_until str i (i + 8)"
proof -
  have "i + 4 + 4 = i + 8" by simp
  note load32_ascii [of "i + 4" str, unfolded this]
  with assms load32_ascii [of i str] show ?thesis by (auto intro: ascii_until_trans [of str i "i + 4"])
qed

lemma or_mask_zero: "(a OR b) AND m = 0 \<longleftrightarrow> a AND m = 0 \<and> b AND m = (0 :: uint32)"
  by (auto simp: bit_eq_iff bit_and_iff bit_or_iff)

lemma srclimit8_bound: "src < srclimit8 str \<Longrightarrow> src + 8 \<le> length str"
  by (simp add: srclimit8_def split: if_splits)

lemma fast_entries_zero:
  assumes "i + 4 \<le> length str"
    "(fast_entry obj str i OR fast_entry obj str (i + 1)) OR (fast_entry obj str (i + 2) OR fast_entry obj str (i + 3)) = 0"
  shows "ascii_until str i (i + 4)"
proof -
  have "uchar (str ! m) < 128" if "fast_entry obj str m = 0" for m
    using that by (simp add: fast_entry_def fast_table_nth split: if_splits)
  with assms show ?thesis by (intro ascii_until_four) (simp_all add: or_eq_0_iff)
qed

lemma fast_groups_ascii: "i \<le> length str \<Longrightarrow> ascii_until str i (fast_groups obj str i)"
proof (induction "length str - i" arbitrary: i rule: less_induct)
  case less
  show ?case
  proof (cases "i < srclimit8 str")
    case False
    with less.prems show ?thesis by (subst fast_groups.simps) (simp add: ascii_until_refl)
  next
    case True
    then have len: "i + 8 \<le> length str" by (rule srclimit8_bound)
    then have rec: "ascii_until str (i + 8) (fast_groups obj str (i + 8))" by (intro less.hyps) auto
    let ?temp = "(load32 str i - losub obj) OR (load32 str i + hiadd obj) OR
      (load32 str (i + 4) - losub obj) OR (load32 str (i + 4) + hiadd obj)"
    let ?e1 = "(fast_entry obj str i OR fast_entry obj str (i + 1)) OR
      (fast_entry obj str (i + 2) OR fast_entry obj str (i + 3))"
    let ?e2 = "(fast_entry obj str (i + 4) OR fast_entry obj str (i + 5)) OR
      (fast_entry obj str (i + 6) OR fast_entry obj str (i + 7))"
    have eq: "fast_groups obj str i =
      (if ?temp AND 0x80808080 \<noteq> 0 then (if ?e1 \<noteq> 0 then i else if ?e2 \<noteq> 0 then i + 4 else fast_groups obj str (i + 8))
       else fast_groups obj str (i + 8))"
      using True by (subst fast_groups.simps) (simp only: Let_def if_True)
    have e1: "ascii_until str i (i + 4)" if "?e1 = 0" using fast_entries_zero [of i str] len that by simp
    have e2: "ascii_until str (i + 4) (i + 8)" if "?e2 = 0"
    proof -
      have "i + 4 + 4 = i + 8" "i + 4 + 1 = i + 5" "i + 4 + 2 = i + 6" "i + 4 + 3 = i + 7" by simp_all
      note fast_entries_zero [of "i + 4" str, unfolded this]
      with len that show ?thesis by blast
    qed
    consider "?temp AND 0x80808080 = 0" | "?temp AND 0x80808080 \<noteq> 0" "?e1 \<noteq> 0"
      | "?temp AND 0x80808080 \<noteq> 0" "?e1 = 0" "?e2 \<noteq> 0" | "?temp AND 0x80808080 \<noteq> 0" "?e1 = 0" "?e2 = 0" by blast
    then show ?thesis
    proof cases
      case 1
      then have "load32 str i AND 0x80808080 = 0" "load32 str (i + 4) AND 0x80808080 = 0"
        by (simp_all add: or_mask_zero)
      with len have "ascii_until str i (i + 8)" by (rule load32_ascii8)
      from ascii_until_trans [OF this rec] 1 show ?thesis unfolding eq by (simp only: simp_thms if_False)
    next
      case 2
      with less.prems show ?thesis unfolding eq by (simp only: if_True simp_thms ascii_until_refl)
    next
      case 3
      with e1 show ?thesis unfolding eq by (simp only: if_True if_False simp_thms)
    next
      case 4
      from ascii_until_trans [OF e1 [OF 4(2)] e2 [OF 4(3)]] rec have "ascii_until str i (fast_groups obj str (i + 8))"
        by (rule ascii_until_trans)
      with 4 show ?thesis unfolding eq by (simp only: if_True if_False simp_thms)
    qed
  qed
qed

lemma ascii_groups_ascii: "i \<le> length str \<Longrightarrow> ascii_until str i (ascii_groups str i)"
proof (induction "length str - i" arbitrary: i rule: less_induct)
  case less
  show ?case
  proof (cases "i < srclimit8 str \<and> (load32 str i OR load32 str (i + 4)) AND 0x80808080 = 0")
    case False
    with less.prems show ?thesis by (subst ascii_groups.simps) (simp only: if_False ascii_until_refl)
  next
    case True
    then have len: "i + 8 \<le> length str" by (auto intro: srclimit8_bound)
    then have rec: "ascii_until str (i + 8) (ascii_groups str (i + 8))" by (intro less.hyps) auto
    from True have "load32 str i AND 0x80808080 = 0" "load32 str (i + 4) AND 0x80808080 = 0"
      by (simp_all add: or_mask_zero)
    with len have "ascii_until str i (i + 8)" by (rule load32_ascii8)
    from ascii_until_trans [OF this rec] True show ?thesis
      by (subst ascii_groups.simps) (simp only: simp_thms if_True)
  qed
qed

lemma ascii_bytes_ascii: "i \<le> length str \<Longrightarrow> ascii_until str i (ascii_bytes str i)"
proof (induction str i rule: ascii_bytes.induct)
  case (1 str i)
  show ?case
  proof (cases "i < length str \<and> uchar (str ! i) < 128")
    case True
    with 1 have "ascii_until str (Suc i) (ascii_bytes str (Suc i))" by simp
    moreover have "ascii_until str i (Suc i)" using True by (auto simp: ascii_until_def less_Suc_eq_le le_antisym)
    ultimately show ?thesis using True by (subst ascii_bytes.simps) (simp add: ascii_until_trans)
  next
    case False
    with 1 show ?thesis by (subst ascii_bytes.simps) (auto intro: ascii_until_refl)
  qed
qed

section \<open>The scans compute the longest valid prefix\<close>

lemma scan_again_span:
  assumes "i \<le> length str"
  shows "\<exists>x. scan_again obj addr str i = Some (x, i + span (drop i str)) \<and>
    x \<in> {240, 241, 242} \<and> (x = 241 \<longleftrightarrow> i + span (drop i str) = length str)"
proof -
  define j where "j = align_src (\<lambda>c. fast_state obj ! uchar c = 0) addr str i"
  define k where "k = (if (addr + j) mod 8 = 0 then fast_groups obj str j else j)"
  have "ascii_until str i j"
    unfolding j_def by (rule align_src_ascii) (use assms in \<open>auto simp: fast_table_nth split: if_splits\<close>)
  moreover from this have "ascii_until str j k"
    unfolding k_def by (auto intro: fast_groups_ascii ascii_until_refl dest: ascii_until_bound)
  ultimately have ik: "ascii_until str i k" by (rule ascii_until_trans)
  then have k: "k \<le> length str" "k + span (drop k str) = i + span (drop i str)"
    using span_skip_ascii [OF ik] by (auto simp: ascii_until_def)
  from scan_span [OF k(1)] obtain x where
    x: "exit_scan obj str (table_scan obj str k 0 0) = (x, i + span (drop i str))" "x \<in> {240, 241, 242}"
      "x = 241 \<longleftrightarrow> i + span (drop i str) = length str" by (auto simp: k(2))
  have "scan_again obj addr str i = Some (x, i + span (drop i str))"
    using x(1,2) by (subst scan_again.simps) (auto simp: Let_def j_def [symmetric] k_def [symmetric])
  with x show ?thesis by blast
qed

lemma UTF8GenericScan_span:
  "\<exists>x. UTF8GenericScan obj addr str = Some (x, span str) \<and>
    x \<in> {240, 241, 242} \<and> (x = 241 \<longleftrightarrow> span str = length str)"
  using scan_again_span [of 0 str addr] by (auto simp: UTF8GenericScan_def span.simps)

lemma UTF8GenericScanFastAscii_span:
  "\<exists>x. UTF8GenericScanFastAscii obj addr str = Some (x, span str) \<and>
    x \<in> {240, 241, 242} \<and> (x = 241 \<longleftrightarrow> span str = length str)"
proof -
  define j where "j = align_src (\<lambda>c. uchar c < 0x80) addr str 0"
  define k where "k = (if (addr + j) mod 8 = 0 then ascii_groups str j else j)"
  define n where "n = ascii_bytes str k"
  have "ascii_until str 0 j" unfolding j_def by (rule align_src_ascii) auto
  moreover from this have "ascii_until str j k"
    unfolding k_def by (auto intro: ascii_groups_ascii ascii_until_refl dest: ascii_until_bound)
  ultimately have "ascii_until str 0 k" by (rule ascii_until_trans)
  moreover from this have "ascii_until str k n"
    unfolding n_def by (auto intro: ascii_bytes_ascii dest: ascii_until_bound)
  ultimately have n0: "ascii_until str 0 n" by (rule ascii_until_trans)
  then have n: "n \<le> length str" "n + span (drop n str) = span str"
    using span_skip_ascii [OF n0] by (auto simp: ascii_until_def)
  from UTF8GenericScan_span [of "addr + n" "drop n str"] n obtain x where
    x: "UTF8GenericScan obj (addr + n) (drop n str) = Some (x, span (drop n str))" "x \<in> {240, 241, 242}"
      "x = 241 \<longleftrightarrow> span str = length str" by auto
  have "fast_ascii_loop obj addr str 0 = Some (x, span str)"
    using x(1,2) n(2)
    by (subst fast_ascii_loop.simps) (auto simp: Let_def j_def [symmetric] k_def [symmetric] n_def [symmetric])
  with x show ?thesis by (auto simp: UTF8GenericScanFastAscii_def span.simps)
qed

lemma UTF8SpnStructurallyValid_span:
  "UTF8SpnStructurallyValid True addr str = Some (span str)"
  using UTF8GenericScanFastAscii_span [of addr str] by (auto simp: UTF8SpnStructurallyValid_def)

section \<open>Coercion\<close>

lemma well_formed_append: "well_formed a \<Longrightarrow> well_formed b \<Longrightarrow> well_formed (a @ b)"
  by (auto simp: well_formed_def) (metis concat_append list_all_append map_append)

lemma well_formed_ascii: "uchar c < 128 \<Longrightarrow> well_formed [c]"
  unfolding well_formed_def
  by (intro exI [of _ "[uchar c]"]) (simp add: utf8_encode_def scalar_value_def)

text \<open>Position by position, a byte is kept or replaced.\<close>

definition kept_or :: "char \<Rightarrow> string \<Rightarrow> string \<Rightarrow> bool" where
  "kept_or r = list_all2 (\<lambda>a b. b = a \<or> b = r)"

lemma kept_or_refl: "kept_or r s s"
  by (simp add: kept_or_def list.rel_refl)

lemma coerce_loop_correct:
  "i \<le> length s \<Longrightarrow> uchar r < 128 \<Longrightarrow> well_formed dst \<Longrightarrow> kept_or r (take i s) dst \<Longrightarrow>
   \<exists>out. coerce_loop True addr s r i dst = Some out \<and> well_formed out \<and> kept_or r s out"
proof (induction "length s - i" arbitrary: i dst rule: less_induct)
  case less
  show ?case
  proof (cases "i < length s")
    case False
    with less.prems show ?thesis by (subst coerce_loop.simps) simp
  next
    case True
    let ?n = "span (drop (Suc i) s)"
    let ?dst = "(dst @ [r]) @ take ?n (drop (Suc i) s)"
    have n: "Suc i + ?n \<le> length s" using span_bound [of "drop (Suc i) s"] True by simp
    have "coerce_loop True addr s r i dst = coerce_loop True addr s r (Suc i + ?n) ?dst"
      using True by (subst coerce_loop.simps) (simp add: UTF8SpnStructurallyValid_span Let_def)
    moreover have "well_formed ?dst"
      using less.prems by (intro well_formed_append well_formed_ascii take_span_well_formed)
    moreover have "kept_or r (take (Suc i + ?n) s) ?dst"
    proof -
      have "take (Suc i + ?n) s = (take i s @ [s ! i]) @ take ?n (drop (Suc i) s)"
        using True by (simp only: take_add take_Suc_conv_app_nth)
      then show ?thesis
        using less.prems(4) by (auto simp: kept_or_def intro!: list_all2_appendI list.rel_refl)
    qed
    ultimately show ?thesis using less.hyps [of "Suc i + ?n" ?dst] n less.prems(2) by simp
  qed
qed

section \<open>The encoder\<close>

lemma byte_field:
  assumes "list_all (\<lambda>n. bit tmp (k + n) = bit x n) [0, 1, 2, 3, 4, 5, 6, 7]" "x < (256 :: nat)"
  shows "to_char (unat (drop_bit k (tmp :: uint32))) = to_char x"
proof -
  have "bit tmp (k + n) = bit x n" if "n < 8" for n
  proof -
    from that have "n \<in> set [0, 1, 2, 3, 4, 5, 6, 7]" by auto
    with assms(1) show ?thesis by (simp only: list_all_iff)
  qed
  then have "take_bit 8 (unat (drop_bit k tmp)) = take_bit 8 x"
    by (intro bit_eqI) (simp only: bit_take_bit_iff bit_unat bit_drop_bit_eq o_apply cong: conj_cong)
  then have "unat (drop_bit k tmp) mod 256 = x mod 256" by (simp add: take_bit_eq_mod)
  then have "uchar (to_char (unat (drop_bit k tmp))) = uchar (to_char x)" by (simp only: of_char_of)
  then show ?thesis by (rule uchar_eq_iff [THEN iffD2])
qed

lemma digits_as_bits:
  "u div 64 = drop_bit 6 u" "u div 4096 = drop_bit 12 u" "u div 262144 = drop_bit 18 u"
  "u mod 64 = take_bit 6 (u :: nat)"
  by (simp_all add: drop_bit_eq_div take_bit_eq_mod)

lemma EncodeAsUTF8Char_encode:
  assumes "unat cp < 0x110000"
  shows "EncodeAsUTF8Char cp = utf8_encode (unat cp)"
proof -
  define u where "u = unat cp"
  have cp: "bit cp n = bit u n" for n by (simp add: u_def bit_unat)
  have le: "cp \<le> 0x7f \<longleftrightarrow> u < 0x80" "cp \<le> 0x07ff \<longleftrightarrow> u < 0x800" "cp \<le> 0xffff \<longleftrightarrow> u < 0x10000"
    by (auto simp: u_def word_le_nat_alt)
  have trail: "0x80 + take_bit 6 v = push_bit 7 1 OR take_bit 6 v" "0x80 + take_bit 6 v < 256" for v :: nat
  proof -
    have "take_bit 6 v < 2 ^ 6" by (rule take_bit_nat_less_exp)
    then show "0x80 + take_bit 6 v < 256" by simp
    from \<open>take_bit 6 v < 2 ^ 6\<close> have "take_bit 6 v < 2 ^ 7" by simp
    from add_eq_or [OF this, of 1] show "0x80 + take_bit 6 v = push_bit 7 1 OR take_bit 6 v"
      by (simp add: push_bit_eq_mult)
  qed
  note bits = trail(1) bit_or_iff bit_and_iff bit_push_bit_iff bit_take_bit_iff bit_drop_bit_eq cp
  consider "u < 0x80" | "0x80 \<le> u" "u < 0x800" | "0x800 \<le> u" "u < 0x10000" | "0x10000 \<le> u" "u < 0x110000"
    using assms by (fastforce simp: u_def)
  then show ?thesis
  proof cases
    case 1
    then show ?thesis
      by (simp add: EncodeAsUTF8Char_def le utf8_encode_def u_def [symmetric] big_endian_tail_def)
  next
    case 2
    then have "u div 64 < 2 ^ 5" by (simp add: less_mult_imp_div_less)
    from add_eq_or [OF this, of 6] this have lead: "0xC0 + drop_bit 6 u = 0xC0 OR drop_bit 6 u" "0xC0 + drop_bit 6 u < 256"
      by (simp_all add: digits_as_bits push_bit_eq_mult)
    have high: "\<not> bit u k" if "11 \<le> k" for k using not_bit_above [of u 11 k] 2 that by simp
    define T where "T = 0x0000c080 OR push_bit 2 (cp AND 0x07c0) OR (cp AND 0x003f)"
    have b8: "to_char (unat (drop_bit 8 T)) = to_char (0xC0 + drop_bit 6 u)"
      by (rule byte_field, simp add: T_def bits lead(1) high bit_Suc_0_iff) (rule lead(2) trail(2))
    have b0: "to_char (unat (drop_bit 0 T)) = to_char (0x80 + take_bit 6 u)"
      by (rule byte_field, simp add: T_def bits lead(1) high bit_Suc_0_iff) (rule lead(2) trail(2))
    have "EncodeAsUTF8Char cp = big_endian_tail T 2"
      using 2 by (simp add: EncodeAsUTF8Char_def le T_def)
    also have "\<dots> = utf8_encode u"
      using 2 b8 b0 by (simp add: utf8_encode_def big_endian_tail_def digits_as_bits)
    finally show ?thesis by (simp only: u_def)
  next
    case 3
    then have "u div 4096 < 2 ^ 4" by (simp add: less_mult_imp_div_less)
    then have "drop_bit 12 u < 2 ^ 5" "drop_bit 12 u < 16" by (simp_all add: digits_as_bits)
    from add_eq_or [OF this(1), of 7] this have lead: "0xE0 + drop_bit 12 u = 0xE0 OR drop_bit 12 u" "0xE0 + drop_bit 12 u < 256"
      by (simp_all add: push_bit_eq_mult)
    have high: "\<not> bit u k" if "16 \<le> k" for k using not_bit_above [of u 16 k] 3 that by simp
    define T where "T = 0x00e08080 OR push_bit 4 (cp AND 0xf000) OR push_bit 2 (cp AND 0x0fc0) OR (cp AND 0x003f)"
    have b16: "to_char (unat (drop_bit 16 T)) = to_char (0xE0 + drop_bit 12 u)"
      by (rule byte_field, simp add: T_def bits lead(1) high bit_Suc_0_iff) (rule lead(2) trail(2))
    have b8: "to_char (unat (drop_bit 8 T)) = to_char (0x80 + take_bit 6 (drop_bit 6 u))"
      by (rule byte_field, simp add: T_def bits lead(1) high bit_Suc_0_iff) (rule lead(2) trail(2))
    have b0: "to_char (unat (drop_bit 0 T)) = to_char (0x80 + take_bit 6 u)"
      by (rule byte_field, simp add: T_def bits lead(1) high bit_Suc_0_iff) (rule lead(2) trail(2))
    have "EncodeAsUTF8Char cp = big_endian_tail T 3"
      using 3 by (simp add: EncodeAsUTF8Char_def le T_def)
    also have "\<dots> = utf8_encode u"
      using 3 b16 b8 b0 by (simp add: utf8_encode_def big_endian_tail_def digits_as_bits)
    finally show ?thesis by (simp only: u_def)
  next
    case 4
    then have "u div 262144 < 5" by (simp add: less_mult_imp_div_less)
    then have "drop_bit 18 u < 2 ^ 4" "drop_bit 18 u < 5" by (simp_all add: digits_as_bits)
    from add_eq_or [OF this(1), of 15] this have lead: "0xF0 + drop_bit 18 u = 0xF0 OR drop_bit 18 u" "0xF0 + drop_bit 18 u < 256"
      by (simp_all add: push_bit_eq_mult)
    have high: "\<not> bit u k" if "21 \<le> k" for k using not_bit_above [of u 21 k] 4 that by simp
    define T where "T = 0xf0808080 OR push_bit 6 (cp AND 0x1c0000) OR push_bit 4 (cp AND 0x03f000) OR push_bit 2 (cp AND 0x000fc0) OR (cp AND 0x003f)"
    have b24: "to_char (unat (drop_bit 24 T)) = to_char (0xF0 + drop_bit 18 u)"
      by (rule byte_field, simp add: T_def bits lead(1) high bit_Suc_0_iff) (rule lead(2) trail(2))
    have b16: "to_char (unat (drop_bit 16 T)) = to_char (0x80 + take_bit 6 (drop_bit 12 u))"
      by (rule byte_field, simp add: T_def bits lead(1) high bit_Suc_0_iff) (rule lead(2) trail(2))
    have b8: "to_char (unat (drop_bit 8 T)) = to_char (0x80 + take_bit 6 (drop_bit 6 u))"
      by (rule byte_field, simp add: T_def bits lead(1) high bit_Suc_0_iff) (rule lead(2) trail(2))
    have b0: "to_char (unat (drop_bit 0 T)) = to_char (0x80 + take_bit 6 u)"
      by (rule byte_field, simp add: T_def bits lead(1) high bit_Suc_0_iff) (rule lead(2) trail(2))
    have "EncodeAsUTF8Char cp = big_endian_tail T 4"
      using 4 by (simp add: EncodeAsUTF8Char_def le T_def)
    also have "\<dots> = utf8_encode u"
      using 4 b24 b16 b8 b0 by (simp add: utf8_encode_def big_endian_tail_def digits_as_bits)
    finally show ?thesis by (simp only: u_def)
  qed
qed

lemma first_letter_length: "scalar_value u \<Longrightarrow> UTF8FirstLetterNumBytes (utf8_encode u @ r) = length (utf8_encode u)"
proof -
  assume u: "scalar_value u"
  have tbl: "kUTF8LenTbl ! n = (if n < 192 then 1 else if n < 224 then 2 else if n < 240 then 3 else if n < 245 then 4 else 1)"
    if "n < 256" for n
  proof -
    have "table_from (\<lambda>n. if n < 192 then 1 else if n < 224 then 2 else if n < 240 then 3 else if n < 245 then 4 else 1) 0 kUTF8LenTbl"
      unfolding kUTF8LenTbl_def table_from_append by (intro conjI table_from_replicate) auto
    from table_from_nth [OF this, of n] that show ?thesis by (simp add: kUTF8LenTbl_def)
  qed
  consider "u < 0x80" | "0x80 \<le> u" "u < 0x800" | "0x800 \<le> u" "u < 0x10000" | "0x10000 \<le> u" "u < 0x110000"
    using u by (fastforce simp: scalar_value_def)
  then show ?thesis
  proof cases
    case 1
    then show ?thesis by (simp add: UTF8FirstLetterNumBytes_def utf8_encode_def tbl)
  next
    case 2
    then have "u div 64 < 32" by (simp add: less_mult_imp_div_less)
    with 2 show ?thesis by (simp add: UTF8FirstLetterNumBytes_def utf8_encode_def tbl)
  next
    case 3
    then have "u div 4096 < 16" by (simp add: less_mult_imp_div_less)
    with 3 show ?thesis by (simp add: UTF8FirstLetterNumBytes_def utf8_encode_def tbl)
  next
    case 4
    then have "u div 262144 < 5" by (simp add: less_mult_imp_div_less)
    with 4 show ?thesis by (simp add: UTF8FirstLetterNumBytes_def utf8_encode_def tbl)
  qed
qed

section \<open>Properties\<close>

text \<open>C30. The table-driven validator is correct: on any byte string and wherever it lies in memory,
  \<open>IsStructurallyValidUTF8\<close> returns, and returns true exactly when the bytes are a concatenation of
  the UTF-8 encodings of Unicode scalar values (so no overlong forms, no surrogates, nothing above
  U+10FFFF and no truncated character).\<close>

theorem IsStructurallyValidUTF8_correct:
  "IsStructurallyValidUTF8 True addr buf = Some (well_formed buf)"
  using UTF8GenericScanFastAscii_span [of addr buf]
  by (auto simp: IsStructurallyValidUTF8_def span_full_iff)

text \<open>C31. Both scans return the same count whatever the alignment, the length of the longest prefix
  that is well formed, with \<open>kExitOK\<close> exactly when that is everything; they never ask to be
  repeated.\<close>

theorem UTF8_scan_longest_prefix:
  "\<exists>n x y. UTF8GenericScan utf8acceptnonsurrogates_obj addr str = Some (x, n) \<and>
     UTF8GenericScanFastAscii utf8acceptnonsurrogates_obj addr' str = Some (y, n) \<and>
     UTF8SpnStructurallyValid True addr'' str = Some n \<and>
     n \<le> length str \<and> well_formed (take n str) \<and>
     (\<forall>m \<le> length str. well_formed (take m str) \<longrightarrow> m \<le> n) \<and>
     x \<noteq> kExitDoAgain \<and> (x = kExitOK \<longleftrightarrow> n = length str) \<and> (y = kExitOK \<longleftrightarrow> n = length str)"
proof -
  obtain x where x: "UTF8GenericScan obj addr str = Some (x, span str)" "x \<in> {240, 241, 242}"
    "x = kExitOK \<longleftrightarrow> span str = length str"
    using UTF8GenericScan_span by blast
  obtain y where y: "UTF8GenericScanFastAscii obj addr' str = Some (y, span str)" "y \<in> {240, 241, 242}"
    "y = kExitOK \<longleftrightarrow> span str = length str"
    using UTF8GenericScanFastAscii_span by blast
  have "x \<noteq> kExitDoAgain" using x(2) by auto
  with x(1,3) y(1,3) show ?thesis
    using UTF8SpnStructurallyValid_span span_bound take_span_well_formed span_longest by blast
qed

theorem UTF8_scan_longest_prefix_witness:
  "\<exists>n. UTF8SpnStructurallyValid True 3 (''a'' @ [CHR 0xC3, CHR 0xA9, CHR 0xE2]) = Some n \<and> 3 \<le> n"
proof -
  have "utf8_encode 97 = ''a''" "utf8_encode 0xE9 = [CHR 0xC3, CHR 0xA9]"
    by (simp_all add: utf8_encode_def to_char_eq_iff)
  then have "well_formed (take 3 (''a'' @ [CHR 0xC3, CHR 0xA9, CHR 0xE2]))"
    unfolding well_formed_def by (intro exI [of _ "[97, 0xE9]"]) (simp add: scalar_value_def)
  moreover have "3 \<le> length (''a'' @ [CHR 0xC3, CHR 0xA9, CHR 0xE2])" by simp
  ultimately show ?thesis
    using UTF8_scan_longest_prefix [of 0 "''a'' @ [CHR 0xC3, CHR 0xA9, CHR 0xE2]" 0 3] by blast
qed

text \<open>Coercion with an ASCII replacement returns a well-formed string of the same length in which
  every byte is the original one or the replacement, and returns a well-formed string unchanged.\<close>

theorem UTF8CoerceToStructurallyValid_correct:
  "uchar r < 0x80 \<Longrightarrow>
   \<exists>out. UTF8CoerceToStructurallyValid True addr s r = Some out \<and> well_formed out \<and>
     length out = length s \<and> list_all2 (\<lambda>a b. b = a \<or> b = r) s out \<and> (well_formed s \<longrightarrow> out = s)"
proof (cases "span s = length s")
  case True
  then show ?thesis
    by (simp add: UTF8CoerceToStructurallyValid_def UTF8SpnStructurallyValid_span span_full_iff list.rel_refl)
next
  case False
  assume r: "uchar r < 0x80"
  from coerce_loop_correct [OF span_bound r take_span_well_formed kept_or_refl]
  obtain out where "coerce_loop True addr s r (span s) (take (span s) s) = Some out" "well_formed out" "kept_or r s out"
    by blast
  moreover have "length out = length s"
    using calculation(3) by (simp add: kept_or_def list_all2_lengthD)
  moreover have "\<not> well_formed s" using False by (simp add: span_full_iff)
  ultimately show ?thesis
    using False by (simp add: UTF8CoerceToStructurallyValid_def UTF8SpnStructurallyValid_span kept_or_def)
qed

theorem UTF8CoerceToStructurallyValid_correct_witness:
  "\<exists>out. UTF8CoerceToStructurallyValid True 0 [CHR 0x61, CHR 0xFF] (CHR '' '') = Some out \<and> length out = 2"
  using UTF8CoerceToStructurallyValid_correct [of "CHR '' ''" 0 "[CHR 0x61, CHR 0xFF]"] by auto

text \<open>\<open>EncodeAsUTF8Char\<close>, with its masks and shifts in 32 bits, writes the UTF-8 encoding of every
  code point up to U+10FFFF; for a scalar value the validator accepts what it wrote, and
  \<open>UTF8FirstLetterNumBytes\<close> reads its length off the first byte.\<close>

theorem EncodeAsUTF8Char_correct:
  "unat cp < 0x110000 \<Longrightarrow>
   EncodeAsUTF8Char cp = utf8_encode (unat cp) \<and>
   (scalar_value (unat cp) \<longrightarrow>
      IsStructurallyValidUTF8 True addr (EncodeAsUTF8Char cp) = Some True \<and>
      UTF8FirstLetterNumBytes (EncodeAsUTF8Char cp @ rest) = length (EncodeAsUTF8Char cp))"
proof -
  assume cp: "unat cp < 0x110000"
  have "well_formed (utf8_encode (unat cp))" if "scalar_value (unat cp)"
    unfolding well_formed_def by (intro exI [of _ "[unat cp]"]) (simp add: that)
  then show ?thesis
    using UTF8GenericScanFastAscii_span [of addr "EncodeAsUTF8Char cp"] cp
    by (auto simp: EncodeAsUTF8Char_encode first_letter_length IsStructurallyValidUTF8_def span_full_iff)
qed

theorem EncodeAsUTF8Char_correct_witness:
  "EncodeAsUTF8Char 0xE9 = utf8_encode 233 \<and> UTF8FirstLetterNumBytes (EncodeAsUTF8Char 0xE9 @ ''x'') = length (EncodeAsUTF8Char 0xE9)"
proof -
  have cp: "unat (0xE9 :: uint32) = 233" "unat (0xE9 :: uint32) < 0x110000" "scalar_value (unat (0xE9 :: uint32))"
    by (simp_all add: scalar_value_def)
  from EncodeAsUTF8Char_correct [OF cp(2)] cp(1,3) show ?thesis by metis
qed

end
