(* ===== verification/Wire_Format.thy ===== *)
theory Wire_Format
  imports Eps_Copy Coded_Input Utf8 Repeated_Field
begin

text \<open>
  The wire format without descriptors, wire_format_lite.h and wire_format_lite.cc: tags, zig-zag encoding, the
  primitive types (read, written and measured), the repeated packed readers, and skipping fields and whole
  messages, with and without keeping what is skipped. A field number is the \<open>uint32\<close> the code casts it to;
  an \<open>int32\<close> or \<open>int64\<close> is the word with the same bits, and so is a \<open>float\<close> or \<open>double\<close>, which the
  code only ever casts (\<open>bit_cast\<close>).
\<close>

section \<open>Tags\<close>

type_synonym WireType = uint32

definition WIRETYPE_VARINT :: WireType where "WIRETYPE_VARINT = 0"
definition WIRETYPE_FIXED64 :: WireType where "WIRETYPE_FIXED64 = 1"
definition WIRETYPE_LENGTH_DELIMITED :: WireType where "WIRETYPE_LENGTH_DELIMITED = 2"
definition WIRETYPE_START_GROUP :: WireType where "WIRETYPE_START_GROUP = 3"
definition WIRETYPE_END_GROUP :: WireType where "WIRETYPE_END_GROUP = 4"
definition WIRETYPE_FIXED32 :: WireType where "WIRETYPE_FIXED32 = 5"

lemmas wire_types = WIRETYPE_VARINT_def WIRETYPE_FIXED64_def WIRETYPE_LENGTH_DELIMITED_def WIRETYPE_START_GROUP_def
  WIRETYPE_END_GROUP_def WIRETYPE_FIXED32_def

datatype FieldType =
    TYPE_DOUBLE | TYPE_FLOAT | TYPE_INT64 | TYPE_UINT64 | TYPE_INT32 | TYPE_FIXED64 | TYPE_FIXED32 | TYPE_BOOL | TYPE_STRING
  | TYPE_GROUP | TYPE_MESSAGE | TYPE_BYTES | TYPE_UINT32 | TYPE_ENUM | TYPE_SFIXED32 | TYPE_SFIXED64 | TYPE_SINT32 | TYPE_SINT64

datatype CppType =
    CPPTYPE_INT32 | CPPTYPE_INT64 | CPPTYPE_UINT32 | CPPTYPE_UINT64 | CPPTYPE_DOUBLE | CPPTYPE_FLOAT | CPPTYPE_BOOL
  | CPPTYPE_ENUM | CPPTYPE_STRING | CPPTYPE_MESSAGE

fun kFieldTypeToCppTypeMap :: "FieldType \<Rightarrow> CppType" where
  "kFieldTypeToCppTypeMap TYPE_DOUBLE = CPPTYPE_DOUBLE"
| "kFieldTypeToCppTypeMap TYPE_FLOAT = CPPTYPE_FLOAT"
| "kFieldTypeToCppTypeMap TYPE_INT64 = CPPTYPE_INT64"
| "kFieldTypeToCppTypeMap TYPE_UINT64 = CPPTYPE_UINT64"
| "kFieldTypeToCppTypeMap TYPE_INT32 = CPPTYPE_INT32"
| "kFieldTypeToCppTypeMap TYPE_FIXED64 = CPPTYPE_UINT64"
| "kFieldTypeToCppTypeMap TYPE_FIXED32 = CPPTYPE_UINT32"
| "kFieldTypeToCppTypeMap TYPE_BOOL = CPPTYPE_BOOL"
| "kFieldTypeToCppTypeMap TYPE_STRING = CPPTYPE_STRING"
| "kFieldTypeToCppTypeMap TYPE_GROUP = CPPTYPE_MESSAGE"
| "kFieldTypeToCppTypeMap TYPE_MESSAGE = CPPTYPE_MESSAGE"
| "kFieldTypeToCppTypeMap TYPE_BYTES = CPPTYPE_STRING"
| "kFieldTypeToCppTypeMap TYPE_UINT32 = CPPTYPE_UINT32"
| "kFieldTypeToCppTypeMap TYPE_ENUM = CPPTYPE_ENUM"
| "kFieldTypeToCppTypeMap TYPE_SFIXED32 = CPPTYPE_INT32"
| "kFieldTypeToCppTypeMap TYPE_SFIXED64 = CPPTYPE_INT64"
| "kFieldTypeToCppTypeMap TYPE_SINT32 = CPPTYPE_INT32"
| "kFieldTypeToCppTypeMap TYPE_SINT64 = CPPTYPE_INT64"

fun kWireTypeForFieldType :: "FieldType \<Rightarrow> WireType" where
  "kWireTypeForFieldType TYPE_DOUBLE = WIRETYPE_FIXED64"
| "kWireTypeForFieldType TYPE_FLOAT = WIRETYPE_FIXED32"
| "kWireTypeForFieldType TYPE_INT64 = WIRETYPE_VARINT"
| "kWireTypeForFieldType TYPE_UINT64 = WIRETYPE_VARINT"
| "kWireTypeForFieldType TYPE_INT32 = WIRETYPE_VARINT"
| "kWireTypeForFieldType TYPE_FIXED64 = WIRETYPE_FIXED64"
| "kWireTypeForFieldType TYPE_FIXED32 = WIRETYPE_FIXED32"
| "kWireTypeForFieldType TYPE_BOOL = WIRETYPE_VARINT"
| "kWireTypeForFieldType TYPE_STRING = WIRETYPE_LENGTH_DELIMITED"
| "kWireTypeForFieldType TYPE_GROUP = WIRETYPE_START_GROUP"
| "kWireTypeForFieldType TYPE_MESSAGE = WIRETYPE_LENGTH_DELIMITED"
| "kWireTypeForFieldType TYPE_BYTES = WIRETYPE_LENGTH_DELIMITED"
| "kWireTypeForFieldType TYPE_UINT32 = WIRETYPE_VARINT"
| "kWireTypeForFieldType TYPE_ENUM = WIRETYPE_VARINT"
| "kWireTypeForFieldType TYPE_SFIXED32 = WIRETYPE_FIXED32"
| "kWireTypeForFieldType TYPE_SFIXED64 = WIRETYPE_FIXED64"
| "kWireTypeForFieldType TYPE_SINT32 = WIRETYPE_VARINT"
| "kWireTypeForFieldType TYPE_SINT64 = WIRETYPE_VARINT"

definition kTagTypeBits :: nat where "kTagTypeBits = 3"

definition kTagTypeMask :: uint32 where "kTagTypeMask = push_bit kTagTypeBits 1 - 1"

definition MakeTag :: "uint32 \<Rightarrow> WireType \<Rightarrow> uint32" where
  "MakeTag field_number type = push_bit 3 field_number OR type"

definition GetTagWireType :: "uint32 \<Rightarrow> WireType" where
  "GetTagWireType tag = tag AND kTagTypeMask"

definition GetTagFieldNumber :: "uint32 \<Rightarrow> uint32" where
  "GetTagFieldNumber tag = drop_bit kTagTypeBits tag"

definition FieldTagSize :: "uint32 \<Rightarrow> FieldType \<Rightarrow> nat" where
  "FieldTagSize field_number type =
     (let result = VarintSize32 (push_bit kTagTypeBits field_number) in if type = TYPE_GROUP then result * 2 else result)"

definition kMessageSetItemStartTag :: uint32 where "kMessageSetItemStartTag = MakeTag 1 WIRETYPE_START_GROUP"
definition kMessageSetItemEndTag :: uint32 where "kMessageSetItemEndTag = MakeTag 1 WIRETYPE_END_GROUP"
definition kMessageSetTypeIdTag :: uint32 where "kMessageSetTypeIdTag = MakeTag 2 WIRETYPE_VARINT"
definition kMessageSetMessageTag :: uint32 where "kMessageSetMessageTag = MakeTag 3 WIRETYPE_LENGTH_DELIMITED"

definition kMessageSetItemTagsSize :: nat where
  "kMessageSetItemTagsSize = VarintSize32 kMessageSetItemStartTag + VarintSize32 kMessageSetItemEndTag +
     VarintSize32 kMessageSetTypeIdTag + VarintSize32 kMessageSetMessageTag"

section \<open>Zig-zag\<close>

definition ZigZagDecode32 :: "uint32 \<Rightarrow> uint32" where
  "ZigZagDecode32 n = drop_bit 1 n XOR (NOT (n AND 1) + 1)"

definition ZigZagDecode64 :: "uint64 \<Rightarrow> uint64" where
  "ZigZagDecode64 n = drop_bit 1 n XOR (NOT (n AND 1) + 1)"

section \<open>Primitive values\<close>

text \<open>\<open>ReadPrimitive<CType, DeclaredType>\<close> has a specialisation for each primitive type; so have the writers. For other
  types there is none: \<open>None\<close>.\<close>

datatype scalar = Word32 uint32 | Word64 uint64 | Boolean bool

fun scalar_of :: "FieldType \<Rightarrow> scalar \<Rightarrow> bool" where
  "scalar_of t (Word32 _) = (t \<in> {TYPE_INT32, TYPE_UINT32, TYPE_SINT32, TYPE_FIXED32, TYPE_SFIXED32, TYPE_FLOAT, TYPE_ENUM})"
| "scalar_of t (Word64 _) = (t \<in> {TYPE_INT64, TYPE_UINT64, TYPE_SINT64, TYPE_FIXED64, TYPE_SFIXED64, TYPE_DOUBLE})"
| "scalar_of t (Boolean _) = (t = TYPE_BOOL)"

fun ReadPrimitive ::
    "FieldType \<Rightarrow> 's ZeroCopyInputStream \<Rightarrow> 's CodedInputStream \<Rightarrow> (scalar option \<times> 's CodedInputStream) option" where
  "ReadPrimitive TYPE_INT32 ops c = do { (r, c) \<leftarrow> ReadVarint32 ops c; Some (map_option Word32 r, c) }"
| "ReadPrimitive TYPE_INT64 ops c = do { (r, c) \<leftarrow> ReadVarint64 ops c; Some (map_option Word64 r, c) }"
| "ReadPrimitive TYPE_UINT32 ops c = do { (r, c) \<leftarrow> ReadVarint32 ops c; Some (map_option Word32 r, c) }"
| "ReadPrimitive TYPE_UINT64 ops c = do { (r, c) \<leftarrow> ReadVarint64 ops c; Some (map_option Word64 r, c) }"
| "ReadPrimitive TYPE_SINT32 ops c =
     do { (r, c) \<leftarrow> ReadVarint32 ops c; Some (map_option (\<lambda>temp. Word32 (ZigZagDecode32 temp)) r, c) }"
| "ReadPrimitive TYPE_SINT64 ops c =
     do { (r, c) \<leftarrow> ReadVarint64 ops c; Some (map_option (\<lambda>temp. Word64 (ZigZagDecode64 temp)) r, c) }"
| "ReadPrimitive TYPE_FIXED32 ops c = do { (r, c) \<leftarrow> ReadLittleEndian32 ops c; Some (map_option Word32 r, c) }"
| "ReadPrimitive TYPE_FIXED64 ops c = do { (r, c) \<leftarrow> ReadLittleEndian64 ops c; Some (map_option Word64 r, c) }"
| "ReadPrimitive TYPE_SFIXED32 ops c = do { (r, c) \<leftarrow> ReadLittleEndian32 ops c; Some (map_option Word32 r, c) }"
| "ReadPrimitive TYPE_SFIXED64 ops c = do { (r, c) \<leftarrow> ReadLittleEndian64 ops c; Some (map_option Word64 r, c) }"
| "ReadPrimitive TYPE_FLOAT ops c = do { (r, c) \<leftarrow> ReadLittleEndian32 ops c; Some (map_option Word32 r, c) }"
| "ReadPrimitive TYPE_DOUBLE ops c = do { (r, c) \<leftarrow> ReadLittleEndian64 ops c; Some (map_option Word64 r, c) }"
| "ReadPrimitive TYPE_BOOL ops c = do { (r, c) \<leftarrow> ReadVarint64 ops c; Some (map_option (\<lambda>temp. Boolean (temp \<noteq> 0)) r, c) }"
| "ReadPrimitive TYPE_ENUM ops c = do { (r, c) \<leftarrow> ReadVarint32 ops c; Some (map_option Word32 r, c) }"
| "ReadPrimitive _ ops c = None"

text \<open>The \<open>Write\<dots>NoTagToArray\<close> and the \<open>Write\<dots>NoTag\<close>.\<close>

fun WriteNoTagToArray :: "FieldType \<Rightarrow> scalar \<Rightarrow> byte list option" where
  "WriteNoTagToArray TYPE_INT32 (Word32 value) = Some (WriteVarint32SignExtendedToArray value)"
| "WriteNoTagToArray TYPE_INT64 (Word64 value) = Some (WriteVarint64ToArray value)"
| "WriteNoTagToArray TYPE_UINT32 (Word32 value) = Some (WriteVarint32ToArray value)"
| "WriteNoTagToArray TYPE_UINT64 (Word64 value) = Some (WriteVarint64ToArray value)"
| "WriteNoTagToArray TYPE_SINT32 (Word32 value) = Some (WriteVarint32ToArray (ZigZagEncode32 value))"
| "WriteNoTagToArray TYPE_SINT64 (Word64 value) = Some (WriteVarint64ToArray (ZigZagEncode64 value))"
| "WriteNoTagToArray TYPE_FIXED32 (Word32 value) = Some (WriteLittleEndian32ToArray value)"
| "WriteNoTagToArray TYPE_FIXED64 (Word64 value) = Some (WriteLittleEndian64ToArray value)"
| "WriteNoTagToArray TYPE_SFIXED32 (Word32 value) = Some (WriteLittleEndian32ToArray value)"
| "WriteNoTagToArray TYPE_SFIXED64 (Word64 value) = Some (WriteLittleEndian64ToArray value)"
| "WriteNoTagToArray TYPE_FLOAT (Word32 value) = Some (WriteLittleEndian32ToArray value)"
| "WriteNoTagToArray TYPE_DOUBLE (Word64 value) = Some (WriteLittleEndian64ToArray value)"
| "WriteNoTagToArray TYPE_BOOL (Boolean value) = Some (WriteVarint32ToArray (if value then 1 else 0))"
| "WriteNoTagToArray TYPE_ENUM (Word32 value) = Some (WriteVarint32SignExtendedToArray value)"
| "WriteNoTagToArray _ _ = None"

fun WriteNoTag :: "FieldType \<Rightarrow> 's ZeroCopyOutputStream \<Rightarrow> scalar \<Rightarrow> 's CodedOutputStream \<Rightarrow> 's CodedOutputStream option" where
  "WriteNoTag TYPE_INT32 ops (Word32 value) c = Coded_WriteVarint32SignExtended ops value c"
| "WriteNoTag TYPE_INT64 ops (Word64 value) c = Coded_WriteVarint64 ops value c"
| "WriteNoTag TYPE_UINT32 ops (Word32 value) c = Coded_WriteVarint32 ops value c"
| "WriteNoTag TYPE_UINT64 ops (Word64 value) c = Coded_WriteVarint64 ops value c"
| "WriteNoTag TYPE_SINT32 ops (Word32 value) c = Coded_WriteVarint32 ops (ZigZagEncode32 value) c"
| "WriteNoTag TYPE_SINT64 ops (Word64 value) c = Coded_WriteVarint64 ops (ZigZagEncode64 value) c"
| "WriteNoTag TYPE_FIXED32 ops (Word32 value) c = Coded_WriteLittleEndian32 ops value c"
| "WriteNoTag TYPE_FIXED64 ops (Word64 value) c = Coded_WriteLittleEndian64 ops value c"
| "WriteNoTag TYPE_SFIXED32 ops (Word32 value) c = Coded_WriteLittleEndian32 ops value c"
| "WriteNoTag TYPE_SFIXED64 ops (Word64 value) c = Coded_WriteLittleEndian64 ops value c"
| "WriteNoTag TYPE_FLOAT ops (Word32 value) c = Coded_WriteLittleEndian32 ops value c"
| "WriteNoTag TYPE_DOUBLE ops (Word64 value) c = Coded_WriteLittleEndian64 ops value c"
| "WriteNoTag TYPE_BOOL ops (Boolean value) c = Coded_WriteVarint32 ops (if value then 1 else 0) c"
| "WriteNoTag TYPE_ENUM ops (Word32 value) c = Coded_WriteVarint32SignExtended ops value c"
| "WriteNoTag _ ops _ c = None"

section \<open>Fields with their tags\<close>

definition Lite_WriteTag ::
    "'s ZeroCopyOutputStream \<Rightarrow> uint32 \<Rightarrow> WireType \<Rightarrow> 's CodedOutputStream \<Rightarrow> 's CodedOutputStream option" where
  "Lite_WriteTag ops field_number type c = Coded_WriteTag ops (MakeTag field_number type) c"

definition WriteTagToArray :: "uint32 \<Rightarrow> WireType \<Rightarrow> byte list" where
  "WriteTagToArray field_number type = WriteVarint32ToArray (MakeTag field_number type)"

text \<open>The wire type that each \<open>Write<Type>\<close> names.\<close>

fun written_wire_type :: "FieldType \<Rightarrow> WireType" where
  "written_wire_type TYPE_INT32 = WIRETYPE_VARINT"
| "written_wire_type TYPE_INT64 = WIRETYPE_VARINT"
| "written_wire_type TYPE_UINT32 = WIRETYPE_VARINT"
| "written_wire_type TYPE_UINT64 = WIRETYPE_VARINT"
| "written_wire_type TYPE_SINT32 = WIRETYPE_VARINT"
| "written_wire_type TYPE_SINT64 = WIRETYPE_VARINT"
| "written_wire_type TYPE_FIXED32 = WIRETYPE_FIXED32"
| "written_wire_type TYPE_FIXED64 = WIRETYPE_FIXED64"
| "written_wire_type TYPE_SFIXED32 = WIRETYPE_FIXED32"
| "written_wire_type TYPE_SFIXED64 = WIRETYPE_FIXED64"
| "written_wire_type TYPE_FLOAT = WIRETYPE_FIXED32"
| "written_wire_type TYPE_DOUBLE = WIRETYPE_FIXED64"
| "written_wire_type TYPE_BOOL = WIRETYPE_VARINT"
| "written_wire_type TYPE_ENUM = WIRETYPE_VARINT"
| "written_wire_type TYPE_STRING = WIRETYPE_LENGTH_DELIMITED"
| "written_wire_type TYPE_BYTES = WIRETYPE_LENGTH_DELIMITED"
| "written_wire_type TYPE_MESSAGE = WIRETYPE_LENGTH_DELIMITED"
| "written_wire_type TYPE_GROUP = WIRETYPE_START_GROUP"

definition WriteField ::
    "FieldType \<Rightarrow> 's ZeroCopyOutputStream \<Rightarrow> uint32 \<Rightarrow> scalar \<Rightarrow> 's CodedOutputStream \<Rightarrow> 's CodedOutputStream option" where
  "WriteField t ops field_number value c =
     do { c \<leftarrow> Lite_WriteTag ops field_number (written_wire_type t) c; WriteNoTag t ops value c }"

definition WriteFieldToArray :: "FieldType \<Rightarrow> uint32 \<Rightarrow> scalar \<Rightarrow> byte list option" where
  "WriteFieldToArray t field_number value =
     map_option (\<lambda>d. WriteTagToArray field_number (written_wire_type t) @ d) (WriteNoTagToArray t value)"

text \<open>Repeated fields, without and with a tag for each element. The first loop reads an element before it looks at the
  number of elements.\<close>

fun WritePrimitiveNoTagToArray :: "FieldType \<Rightarrow> scalar list \<Rightarrow> byte list option" where
  "WritePrimitiveNoTagToArray t [] = None"
| "WritePrimitiveNoTagToArray t (v # vs) =
     do {
       d \<leftarrow> WriteNoTagToArray t v;
       e \<leftarrow> (if vs = [] then Some [] else WritePrimitiveNoTagToArray t vs);
       Some (d @ e)
     }"

fun WritePrimitiveToArray :: "FieldType \<Rightarrow> uint32 \<Rightarrow> scalar list \<Rightarrow> byte list option" where
  "WritePrimitiveToArray t field_number [] = Some []"
| "WritePrimitiveToArray t field_number (v # vs) =
     do { d \<leftarrow> WriteFieldToArray t field_number v; e \<leftarrow> WritePrimitiveToArray t field_number vs; Some (d @ e) }"

text \<open>\<open>WriteString\<close> and \<open>WriteBytes\<close> are the same code, and so are their aliasing variants. Longer strings than
  \<open>kint32max\<close> are a fatal error.\<close>

definition Lite_WriteBytes ::
    "'s ZeroCopyOutputStream \<Rightarrow> uint32 \<Rightarrow> byte list \<Rightarrow> 's CodedOutputStream \<Rightarrow> 's CodedOutputStream option" where
  "Lite_WriteBytes ops field_number value c =
     do {
       c \<leftarrow> Lite_WriteTag ops field_number WIRETYPE_LENGTH_DELIMITED c;
       if int (length value) \<le> kint32max then do {
         c \<leftarrow> Coded_WriteVarint32 ops (of_nat (length value)) c;
         Coded_WriteString ops value c
       } else None
     }"

definition Lite_WriteBytesMaybeAliased ::
    "'s ZeroCopyOutputStream \<Rightarrow> uint32 \<Rightarrow> byte list \<Rightarrow> 's CodedOutputStream \<Rightarrow> 's CodedOutputStream option" where
  "Lite_WriteBytesMaybeAliased ops field_number value c =
     do {
       c \<leftarrow> Lite_WriteTag ops field_number WIRETYPE_LENGTH_DELIMITED c;
       if int (length value) \<le> kint32max then do {
         c \<leftarrow> Coded_WriteVarint32 ops (of_nat (length value)) c;
         Coded_WriteRawMaybeAliased ops value c
       } else None
     }"

definition WriteBytesToArray :: "uint32 \<Rightarrow> byte list \<Rightarrow> byte list" where
  "WriteBytesToArray field_number value = WriteTagToArray field_number WIRETYPE_LENGTH_DELIMITED @ WriteStringWithSizeToArray value"

text \<open>The string is an argument: on failure it may be as it was, or hold what was read.\<close>

definition ReadBytes ::
    "'s ZeroCopyInputStream \<Rightarrow> byte list \<Rightarrow> 's CodedInputStream \<Rightarrow> (bool \<times> byte list \<times> 's CodedInputStream) option" where
  "ReadBytes ops str c =
     do {
       (r, c) \<leftarrow> ReadVarint32 ops c;
       case r of None \<Rightarrow> Some (False, str, c) | Some n \<Rightarrow> ReadString ops str (sint n) c
     }"

text \<open>The log line on failure is not modelled.\<close>

definition VerifyUtf8String :: "bool \<Rightarrow> nat \<Rightarrow> string \<Rightarrow> bool option" where
  "VerifyUtf8String module_initialized addr data = IsStructurallyValidUTF8 module_initialized addr data"

section \<open>Sizes\<close>

fun PrimitiveSize :: "FieldType \<Rightarrow> scalar \<Rightarrow> nat" where
  "PrimitiveSize TYPE_INT32 (Word32 value) = VarintSize32SignExtended value"
| "PrimitiveSize TYPE_INT64 (Word64 value) = VarintSize64 value"
| "PrimitiveSize TYPE_UINT32 (Word32 value) = VarintSize32 value"
| "PrimitiveSize TYPE_UINT64 (Word64 value) = VarintSize64 value"
| "PrimitiveSize TYPE_SINT32 (Word32 value) = VarintSize32 (ZigZagEncode32 value)"
| "PrimitiveSize TYPE_SINT64 (Word64 value) = VarintSize64 (ZigZagEncode64 value)"
| "PrimitiveSize TYPE_ENUM (Word32 value) = VarintSize32SignExtended value"
| "PrimitiveSize TYPE_FIXED32 _ = 4"
| "PrimitiveSize TYPE_FIXED64 _ = 8"
| "PrimitiveSize TYPE_SFIXED32 _ = 4"
| "PrimitiveSize TYPE_SFIXED64 _ = 8"
| "PrimitiveSize TYPE_FLOAT _ = 4"
| "PrimitiveSize TYPE_DOUBLE _ = 8"
| "PrimitiveSize TYPE_BOOL _ = 1"
| "PrimitiveSize _ _ = 0"

definition LengthDelimitedSize :: "nat \<Rightarrow> nat" where
  "LengthDelimitedSize n = n + VarintSize32 (of_nat n)"

text \<open>The sizes of repeated fields: a loop over the routine for one element, or the loops without branches that the
  vectorising compiler gets.\<close>

fun RepeatedSize :: "FieldType \<Rightarrow> scalar list \<Rightarrow> nat" where
  "RepeatedSize t [] = 0"
| "RepeatedSize t (v # vs) = PrimitiveSize t v + RepeatedSize t vs"

definition size_class :: "'a::len word \<Rightarrow> 'b::len word \<Rightarrow> 'b word" where
  "size_class x n =
     (let n = (if x > 0x7F then n + 1 else n);
          n = (if x > 0x3FFF then n + 1 else n);
          n = (if x > 0x1FFFFF then n + 1 else n)
      in if x > 0xFFFFFFF then n + 1 else n)"

fun VarintSize_loop :: "bool \<Rightarrow> bool \<Rightarrow> uint32 list \<Rightarrow> uint32 \<Rightarrow> uint32 \<Rightarrow> uint32 \<times> uint32" where
  "VarintSize_loop zigzag sign_extended [] n msb_sum = (n, msb_sum)"
| "VarintSize_loop zigzag sign_extended (x # data) n msb_sum =
     VarintSize_loop zigzag sign_extended data (size_class (if zigzag then ZigZagEncode32 x else x) n)
       (if \<not> zigzag \<and> sign_extended then msb_sum + drop_bit 31 x else msb_sum)"

definition VarintSize :: "bool \<Rightarrow> bool \<Rightarrow> uint32 list \<Rightarrow> uint32" where
  "VarintSize zigzag sign_extended data =
     (let (n, msb_sum) = VarintSize_loop zigzag sign_extended data (of_nat (length data)) 0
      in if sign_extended then n + msb_sum * 5 else n)"

definition add_size64 :: "uint64 \<Rightarrow> uint64 \<Rightarrow> uint64" where
  "add_size64 x n =
     (let tmp = (if x \<ge> push_bit 35 1 then - 1 else 0)
      in size_class (drop_bit (unat (35 AND tmp)) x) (n + (5 AND tmp)))"

fun VarintSize64_loop :: "bool \<Rightarrow> uint64 list \<Rightarrow> uint64 \<Rightarrow> uint64" where
  "VarintSize64_loop zigzag [] n = n"
| "VarintSize64_loop zigzag (x # data) n =
     VarintSize64_loop zigzag data (add_size64 (if zigzag then ZigZagEncode64 x else x) n)"

definition VarintSize64_array :: "bool \<Rightarrow> uint64 list \<Rightarrow> uint64" where
  "VarintSize64_array zigzag data = VarintSize64_loop zigzag data (of_nat (length data))"

section \<open>Skipping\<close>

text \<open>\<open>SkipField\<close> and \<open>SkipMessage\<close> call each other; \<open>message\<close> stands for the call of the latter.\<close>

definition SkipField_with ::
    "('s CodedInputStream \<Rightarrow> (bool \<times> 's CodedInputStream) option) \<Rightarrow> 's ZeroCopyInputStream \<Rightarrow> uint32 \<Rightarrow> 's CodedInputStream \<Rightarrow>
      (bool \<times> 's CodedInputStream) option" where
  "SkipField_with message ops tag c =
     (if GetTagFieldNumber tag = 0 then Some (False, c)
      else if GetTagWireType tag = WIRETYPE_VARINT then do { (r, c) \<leftarrow> ReadVarint64 ops c; Some (r \<noteq> None, c) }
      else if GetTagWireType tag = WIRETYPE_FIXED64 then do { (r, c) \<leftarrow> ReadLittleEndian64 ops c; Some (r \<noteq> None, c) }
      else if GetTagWireType tag = WIRETYPE_LENGTH_DELIMITED then do {
        (r, c) \<leftarrow> ReadVarint32 ops c;
        case r of None \<Rightarrow> Some (False, c) | Some n \<Rightarrow> CodedInputStream_Skip ops (sint n) c
      } else if GetTagWireType tag = WIRETYPE_START_GROUP then
        (case IncrementRecursionDepth c of (b, c) \<Rightarrow>
           if \<not> b then Some (False, c)
           else do {
             (b, c) \<leftarrow> message c;
             if \<not> b then Some (False, c)
             else let c = DecrementRecursionDepth c in
               Some (LastTagWas (MakeTag (GetTagFieldNumber tag) WIRETYPE_END_GROUP) c, c)
           })
      else if GetTagWireType tag = WIRETYPE_END_GROUP then Some (False, c)
      else if GetTagWireType tag = WIRETYPE_FIXED32 then do { (r, c) \<leftarrow> ReadLittleEndian32 ops c; Some (r \<noteq> None, c) }
      else Some (False, c))"

lemma SkipField_with_mono [partial_function_mono]:
  assumes "\<And>c. mono_option (\<lambda>f. m f c)"
  shows "mono_option (\<lambda>f. SkipField_with (m f) ops tag c)"
  unfolding SkipField_with_def by (cases "IncrementRecursionDepth c") (auto intro!: partial_function_mono assms simp del: wire_types)

partial_function (option) SkipMessage ::
    "'s ZeroCopyInputStream \<Rightarrow> 's CodedInputStream \<Rightarrow> (bool \<times> 's CodedInputStream) option" where
  "SkipMessage ops c =
     do {
       (tag, c) \<leftarrow> ReadTag ops c;
       if tag = 0 \<or> GetTagWireType tag = WIRETYPE_END_GROUP then Some (True, c)
       else do {
         (b, c) \<leftarrow> SkipField_with (\<lambda>c. SkipMessage ops c) ops tag c;
         if b then SkipMessage ops c else Some (False, c)
       }
     }"

declare SkipMessage.simps [code]

definition SkipField :: "'s ZeroCopyInputStream \<Rightarrow> uint32 \<Rightarrow> 's CodedInputStream \<Rightarrow> (bool \<times> 's CodedInputStream) option" where
  "SkipField ops = SkipField_with (SkipMessage ops) ops"

text \<open>The variant that writes what it skips to a \<open>CodedOutputStream\<close>.\<close>

definition SkipField_out_with ::
    "('s CodedInputStream \<Rightarrow> 't CodedOutputStream \<Rightarrow> (bool \<times> 's CodedInputStream \<times> 't CodedOutputStream) option) \<Rightarrow>
      's ZeroCopyInputStream \<Rightarrow> 't ZeroCopyOutputStream \<Rightarrow> uint32 \<Rightarrow> 's CodedInputStream \<Rightarrow> 't CodedOutputStream \<Rightarrow>
      (bool \<times> 's CodedInputStream \<times> 't CodedOutputStream) option" where
  "SkipField_out_with message ops out_ops tag c out =
     (if GetTagFieldNumber tag = 0 then Some (False, c, out)
      else if GetTagWireType tag = WIRETYPE_VARINT then do {
        (r, c) \<leftarrow> ReadVarint64 ops c;
        case r of
          None \<Rightarrow> Some (False, c, out)
        | Some v \<Rightarrow> do {
            out \<leftarrow> Coded_WriteVarint32 out_ops tag out;
            out \<leftarrow> Coded_WriteVarint64 out_ops v out;
            Some (True, c, out) }
      }
      else if GetTagWireType tag = WIRETYPE_FIXED64 then do {
        (r, c) \<leftarrow> ReadLittleEndian64 ops c;
        case r of
          None \<Rightarrow> Some (False, c, out)
        | Some v \<Rightarrow> do {
            out \<leftarrow> Coded_WriteVarint32 out_ops tag out;
            out \<leftarrow> Coded_WriteLittleEndian64 out_ops v out;
            Some (True, c, out) }
      }
      else if GetTagWireType tag = WIRETYPE_LENGTH_DELIMITED then do {
        (r, c) \<leftarrow> ReadVarint32 ops c;
        case r of
          None \<Rightarrow> Some (False, c, out)
        | Some n \<Rightarrow> do {
            out \<leftarrow> Coded_WriteVarint32 out_ops tag out;
            out \<leftarrow> Coded_WriteVarint32 out_ops n out;
            (b, temp, c) \<leftarrow> ReadString ops [] (sint n) c;
            if \<not> b then Some (False, c, out)
            else do { out \<leftarrow> Coded_WriteString out_ops temp out; Some (True, c, out) } }
      }
      else if GetTagWireType tag = WIRETYPE_START_GROUP then do {
        out \<leftarrow> Coded_WriteVarint32 out_ops tag out;
        case IncrementRecursionDepth c of (b, c) \<Rightarrow>
          if \<not> b then Some (False, c, out)
          else do {
            (b, c, out) \<leftarrow> message c out;
            if \<not> b then Some (False, c, out)
            else let c = DecrementRecursionDepth c in
              Some (LastTagWas (MakeTag (GetTagFieldNumber tag) WIRETYPE_END_GROUP) c, c, out)
          }
      }
      else if GetTagWireType tag = WIRETYPE_END_GROUP then Some (False, c, out)
      else if GetTagWireType tag = WIRETYPE_FIXED32 then do {
        (r, c) \<leftarrow> ReadLittleEndian32 ops c;
        case r of
          None \<Rightarrow> Some (False, c, out)
        | Some v \<Rightarrow> do {
            out \<leftarrow> Coded_WriteVarint32 out_ops tag out;
            out \<leftarrow> Coded_WriteLittleEndian32 out_ops v out;
            Some (True, c, out) }
      }
      else Some (False, c, out))"

lemma SkipField_out_with_mono [partial_function_mono]:
  assumes "\<And>c out. mono_option (\<lambda>f. m f c out)"
  shows "mono_option (\<lambda>f. SkipField_out_with (m f) ops out_ops tag c out)"
  unfolding SkipField_out_with_def
  by (cases "IncrementRecursionDepth c") (auto intro!: partial_function_mono assms simp del: wire_types)

partial_function (option) SkipMessage_out ::
    "'s ZeroCopyInputStream \<Rightarrow> 't ZeroCopyOutputStream \<Rightarrow> 's CodedInputStream \<Rightarrow> 't CodedOutputStream \<Rightarrow>
      (bool \<times> 's CodedInputStream \<times> 't CodedOutputStream) option" where
  "SkipMessage_out ops out_ops c out =
     do {
       (tag, c) \<leftarrow> ReadTag ops c;
       if tag = 0 then Some (True, c, out)
       else if GetTagWireType tag = WIRETYPE_END_GROUP then do {
         out \<leftarrow> Coded_WriteVarint32 out_ops tag out;
         Some (True, c, out)
       } else do {
         (b, c, out) \<leftarrow> SkipField_out_with (\<lambda>c out. SkipMessage_out ops out_ops c out) ops out_ops tag c out;
         if b then SkipMessage_out ops out_ops c out else Some (False, c, out)
       }
     }"

declare SkipMessage_out.simps [code]

definition SkipField_out ::
    "'s ZeroCopyInputStream \<Rightarrow> 't ZeroCopyOutputStream \<Rightarrow> uint32 \<Rightarrow> 's CodedInputStream \<Rightarrow> 't CodedOutputStream \<Rightarrow>
      (bool \<times> 's CodedInputStream \<times> 't CodedOutputStream) option" where
  "SkipField_out ops out_ops = SkipField_out_with (SkipMessage_out ops out_ops) ops out_ops"

text \<open>\<open>FieldSkipper::SkipUnknownEnum\<close> does nothing; the stream version writes the field number where a tag belongs.\<close>

definition CodedOutputStreamFieldSkipper_SkipUnknownEnum ::
    "'t ZeroCopyOutputStream \<Rightarrow> uint32 \<Rightarrow> uint32 \<Rightarrow> 't CodedOutputStream \<Rightarrow> 't CodedOutputStream option" where
  "CodedOutputStreamFieldSkipper_SkipUnknownEnum out_ops field_number v out =
     do { out \<leftarrow> Coded_WriteVarint32 out_ops field_number out; Coded_WriteVarint64 out_ops (scast v) out }"

section \<open>Repeated fields\<close>

text \<open>A packed field is read element by element up to its limit.\<close>

partial_function (option) packed_read_loop ::
    "FieldType \<Rightarrow> 's ZeroCopyInputStream \<Rightarrow> 's CodedInputStream \<Rightarrow> scalar RepeatedField \<Rightarrow>
      (bool \<times> 's CodedInputStream \<times> scalar RepeatedField) option" where
  "packed_read_loop t ops c vs =
     (if BytesUntilLimit c > 0 then do {
        (r, c) \<leftarrow> ReadPrimitive t ops c;
        case r of
          None \<Rightarrow> Some (False, c, vs)
        | Some v \<Rightarrow> do { vs \<leftarrow> Repeated_Add v vs; packed_read_loop t ops c vs }
      } else Some (True, c, vs))"

declare packed_read_loop.simps [code]

definition ReadPackedPrimitive ::
    "FieldType \<Rightarrow> 's ZeroCopyInputStream \<Rightarrow> 's CodedInputStream \<Rightarrow> scalar RepeatedField \<Rightarrow>
      (bool \<times> 's CodedInputStream \<times> scalar RepeatedField) option" where
  "ReadPackedPrimitive t ops c vs =
     do {
       (r, c) \<leftarrow> ReadVarintSizeAsInt ops c;
       case r of
         None \<Rightarrow> Some (False, c, vs)
       | Some n \<Rightarrow> (case PushLimit n c of (old, c) \<Rightarrow> do {
           (b, c, vs) \<leftarrow> packed_read_loop t ops c vs;
           if \<not> b then Some (False, c, vs) else Some (True, PopLimit old c, vs) })
     }"

text \<open>\<open>sizeof\<close> of the fixed-size types, and the elements that a block of memory holds.\<close>

definition elem_size :: "FieldType \<Rightarrow> nat" where
  "elem_size t = (if t \<in> {TYPE_FIXED64, TYPE_SFIXED64, TYPE_DOUBLE} then 8 else 4)"

definition load_scalar :: "FieldType \<Rightarrow> byte list \<Rightarrow> scalar" where
  "load_scalar t p = (if elem_size t = 8 then Word64 (ReadLittleEndian64FromArray p) else Word32 (ReadLittleEndian32FromArray p))"

fun load_scalars :: "FieldType \<Rightarrow> nat \<Rightarrow> byte list \<Rightarrow> scalar list" where
  "load_scalars t 0 p = []"
| "load_scalars t (Suc n) p = load_scalar t p # load_scalars t n (drop (elem_size t) p)"

definition zero_scalar :: "FieldType \<Rightarrow> scalar" where
  "zero_scalar t = (if elem_size t = 8 then Word64 0 else Word32 0)"

fun read_elements ::
    "FieldType \<Rightarrow> 's ZeroCopyInputStream \<Rightarrow> nat \<Rightarrow> 's CodedInputStream \<Rightarrow> scalar RepeatedField \<Rightarrow>
      (bool \<times> 's CodedInputStream \<times> scalar RepeatedField) option" where
  "read_elements t ops 0 c vs = Some (True, c, vs)"
| "read_elements t ops (Suc n) c vs =
     do {
       (r, c) \<leftarrow> ReadPrimitive t ops c;
       case r of
         None \<Rightarrow> Some (False, c, vs)
       | Some v \<Rightarrow> do { vs \<leftarrow> Repeated_Add v vs; read_elements t ops n c vs }
     }"

text \<open>On the fast path the bytes are read straight into the array. When the input ends early, the part of the
  array that \<open>Truncate\<close> cuts off keeps the bytes that were read, and zeros behind them.\<close>

definition ReadPackedFixedSizePrimitive ::
    "FieldType \<Rightarrow> 's ZeroCopyInputStream \<Rightarrow> 's CodedInputStream \<Rightarrow> scalar RepeatedField \<Rightarrow>
      (bool \<times> 's CodedInputStream \<times> scalar RepeatedField) option" where
  "ReadPackedFixedSizePrimitive t ops c vs =
     do {
       (r, c) \<leftarrow> ReadVarintSizeAsInt ops c;
       case r of
         None \<Rightarrow> Some (False, c, vs)
       | Some n \<Rightarrow>
           let old_entries = current_size vs;
               new_entries = n div int (elem_size t);
               new_bytes = new_entries * int (elem_size t)
           in if new_bytes \<noteq> n then Some (False, c, vs)
           else
             let bytes_limit = (if BytesUntilTotalBytesLimit c = - 1 then BytesUntilLimit c
                                else min (BytesUntilTotalBytesLimit c) (BytesUntilLimit c))
             in if bytes_limit \<ge> new_bytes then do {
               vs \<leftarrow> Resize (old_entries + new_entries) (zero_scalar t) vs;
               (b, data, c) \<leftarrow> ReadRaw ops new_bytes c;
               let mem = data @ replicate (nat new_bytes - length data) 0;
               es \<leftarrow> copy_elements new_entries (map Some (load_scalars t (nat new_entries) mem)) old_entries (elements vs);
               let vs = vs\<lparr>elements := es\<rparr>;
               if \<not> b then Some (False, c, Truncate old_entries vs) else Some (True, c, vs)
             } else read_elements t ops (nat new_entries) c vs
     }"

text \<open>Packed enumerations: values that the enumeration does not have go to the unknown fields.\<close>

partial_function (option) packed_enum_loop ::
    "'s ZeroCopyInputStream \<Rightarrow> 't ZeroCopyOutputStream \<Rightarrow> uint32 \<Rightarrow> (uint32 \<Rightarrow> bool) option \<Rightarrow> 's CodedInputStream \<Rightarrow>
      't CodedOutputStream \<Rightarrow> scalar RepeatedField \<Rightarrow> (bool \<times> 's CodedInputStream \<times> 't CodedOutputStream \<times> scalar RepeatedField) option" where
  "packed_enum_loop ops out_ops field_number is_valid c out vs =
     (if BytesUntilLimit c > 0 then do {
        (r, c) \<leftarrow> ReadVarint32 ops c;
        case r of
          None \<Rightarrow> Some (False, c, out, vs)
        | Some v \<Rightarrow>
            if (case is_valid of None \<Rightarrow> True | Some valid \<Rightarrow> valid v) then do {
              vs \<leftarrow> Repeated_Add (Word32 v) vs;
              packed_enum_loop ops out_ops field_number is_valid c out vs
            } else do {
              out \<leftarrow> Coded_WriteVarint32 out_ops (MakeTag field_number WIRETYPE_VARINT) out;
              out \<leftarrow> Coded_WriteVarint32 out_ops v out;
              packed_enum_loop ops out_ops field_number is_valid c out vs
            }
      } else Some (True, c, out, vs))"

declare packed_enum_loop.simps [code]

definition ReadPackedEnumPreserveUnknowns ::
    "'s ZeroCopyInputStream \<Rightarrow> 't ZeroCopyOutputStream \<Rightarrow> uint32 \<Rightarrow> (uint32 \<Rightarrow> bool) option \<Rightarrow> 's CodedInputStream \<Rightarrow>
      't CodedOutputStream \<Rightarrow> scalar RepeatedField \<Rightarrow> (bool \<times> 's CodedInputStream \<times> 't CodedOutputStream \<times> scalar RepeatedField) option" where
  "ReadPackedEnumPreserveUnknowns ops out_ops field_number is_valid c out vs =
     do {
       (r, c) \<leftarrow> ReadVarint32 ops c;
       case r of
         None \<Rightarrow> Some (False, c, out, vs)
       | Some n \<Rightarrow> (case PushLimit (sint n) c of (old, c) \<Rightarrow> do {
           (b, c, out, vs) \<leftarrow> packed_enum_loop ops out_ops field_number is_valid c out vs;
           if \<not> b then Some (False, c, out, vs) else Some (True, PopLimit old c, out, vs) })
     }"

text \<open>A field that is repeated with its tag: as many elements as there is room for without a new allocation. The fixed-size
  types are read from the buffer itself, and the stream skips over them at the end.\<close>

fun repeated_loop ::
    "FieldType \<Rightarrow> uint32 \<Rightarrow> 's ZeroCopyInputStream \<Rightarrow> nat \<Rightarrow> 's CodedInputStream \<Rightarrow> scalar RepeatedField \<Rightarrow>
      (bool \<times> 's CodedInputStream \<times> scalar RepeatedField) option" where
  "repeated_loop t tag ops 0 c vs = Some (True, c, vs)"
| "repeated_loop t tag ops (Suc elements_already_reserved) c vs =
     (case ExpectTag tag c of (b, c) \<Rightarrow>
        if \<not> b then Some (True, c, vs)
        else do {
          (r, c) \<leftarrow> ReadPrimitive t ops c;
          case r of
            None \<Rightarrow> Some (False, c, vs)
          | Some v \<Rightarrow> do { vs \<leftarrow> AddAlreadyReserved v vs; repeated_loop t tag ops elements_already_reserved c vs }
        })"

definition ReadRepeatedPrimitive ::
    "FieldType \<Rightarrow> uint32 \<Rightarrow> 's ZeroCopyInputStream \<Rightarrow> 's CodedInputStream \<Rightarrow> scalar RepeatedField \<Rightarrow>
      (bool \<times> 's CodedInputStream \<times> scalar RepeatedField) option" where
  "ReadRepeatedPrimitive t tag ops c vs =
     do {
       (r, c) \<leftarrow> ReadPrimitive t ops c;
       case r of
         None \<Rightarrow> Some (False, c, vs)
       | Some v \<Rightarrow> do {
           vs \<leftarrow> Repeated_Add v vs;
           repeated_loop t tag ops (nat (Capacity vs - current_size vs)) c vs }
     }"

fun from_buffer :: "FieldType \<Rightarrow> uint32 \<Rightarrow> nat \<Rightarrow> byte list \<Rightarrow> scalar RepeatedField \<Rightarrow> (nat \<times> scalar RepeatedField) option" where
  "from_buffer t tag 0 p vs = Some (0, vs)"
| "from_buffer t tag (Suc n) p vs =
     (case ExpectTagFromArray p tag of
        None \<Rightarrow> Some (0, vs)
      | Some p \<Rightarrow> do {
          vs \<leftarrow> AddAlreadyReserved (load_scalar t p) vs;
          (num_read, vs) \<leftarrow> from_buffer t tag n (drop (elem_size t) p) vs;
          Some (num_read + 1, vs) })"

definition ReadRepeatedFixedSizePrimitive ::
    "FieldType \<Rightarrow> int \<Rightarrow> uint32 \<Rightarrow> 's ZeroCopyInputStream \<Rightarrow> 's CodedInputStream \<Rightarrow> scalar RepeatedField \<Rightarrow>
      (bool \<times> 's CodedInputStream \<times> scalar RepeatedField) option" where
  "ReadRepeatedFixedSizePrimitive t tag_size tag ops c vs =
     do {
       (r, c) \<leftarrow> ReadPrimitive t ops c;
       case r of
         None \<Rightarrow> Some (False, c, vs)
       | Some v \<Rightarrow> do {
           vs \<leftarrow> Repeated_Add v vs;
           let p = GetDirectBufferPointerInline c;
           if length p > 0 then
             let per_value_size = tag_size + int (elem_size t);
                 elements_available = min (Capacity vs - current_size vs) (int (length p) div per_value_size)
             in do {
               (num_read, vs) \<leftarrow> from_buffer t tag (nat elements_available) p vs;
               c \<leftarrow> (if int num_read * per_value_size > 0
                     then map_option snd (CodedInputStream_Skip ops (int num_read * per_value_size) c) else Some c);
               Some (True, c, vs)
             }
           else Some (True, c, vs) }
     }"

text \<open>The arrays of the fixed-size types and of \<open>bool\<close> are written as they are in memory.\<close>

fun scalar_memory :: "scalar \<Rightarrow> byte list" where
  "scalar_memory (Word32 v) = WriteLittleEndian32ToArray v"
| "scalar_memory (Word64 v) = WriteLittleEndian64ToArray v"
| "scalar_memory (Boolean b) = [if b then 1 else 0]"

definition WriteArray :: "'s ZeroCopyOutputStream \<Rightarrow> scalar list \<Rightarrow> 's CodedOutputStream \<Rightarrow> 's CodedOutputStream option" where
  "WriteArray ops a c = Coded_WriteRaw ops (concat (map scalar_memory a)) c"

section \<open>Items of a message set\<close>

text \<open>The client \<open>ms\<close> has a state of its own; its two operations are parameters. The string that collects message
  data seen before the type is overwritten, not extended, when there is more of it.\<close>

definition message_sub_input :: "byte list \<Rightarrow> 's CodedInputStream \<Rightarrow> 's CodedInputStream" where
  "message_sub_input message_data c =
     SetRecursionLimit (recursion_budget c) (CodedInputStream_flat message_data (int (length message_data)))"

text \<open>One round of the loop: what to return, if the code returns, and the state.\<close>

type_synonym ('s, 'm) ms_state = "uint32 \<times> byte list \<times> 's CodedInputStream \<times> 'm"
type_synonym ('s, 'm) ms_handler = "uint32 \<Rightarrow> 's CodedInputStream \<Rightarrow> 'm \<Rightarrow> (bool \<times> 's CodedInputStream \<times> 'm) option"

definition message_set_round ::
    "('s, 'm) ms_handler \<Rightarrow> ('s, 'm) ms_handler \<Rightarrow> 's ZeroCopyInputStream \<Rightarrow> ('s, 'm) ms_state \<Rightarrow> (bool option \<times> ('s, 'm) ms_state) option" where
  "message_set_round ParseField SkipUnknown ops = (\<lambda>(last_type_id, message_data, c, ms).
     do {
       (tag, c) \<leftarrow> ReadTagNoLastTag ops c;
       if tag = 0 then Some (Some False, last_type_id, message_data, c, ms)
       else if tag = kMessageSetTypeIdTag then do {
         (r, c) \<leftarrow> ReadVarint32 ops c;
         case r of
           None \<Rightarrow> Some (Some False, last_type_id, message_data, c, ms)
         | Some type_id \<Rightarrow>
             if message_data \<noteq> [] then do {
               (b, sub_input, ms) \<leftarrow> ParseField type_id (message_sub_input message_data c) ms;
               if \<not> b then Some (Some False, type_id, message_data, c, ms) else Some (None, type_id, [], c, ms)
             } else Some (None, type_id, message_data, c, ms)
       }
       else if tag = kMessageSetMessageTag then
         if last_type_id = 0 then do {
           (r, c) \<leftarrow> ReadVarint32 ops c;
           case r of
             None \<Rightarrow> Some (Some False, last_type_id, message_data, c, ms)
           | Some n \<Rightarrow>
               if sint n < 0 then Some (Some False, last_type_id, message_data, c, ms)
               else do {
                 (b, data, c) \<leftarrow> ReadRaw ops (sint n) c;
                 Some (if b then None else Some False, last_type_id, WriteVarint32ToArray n @ data, c, ms)
               }
         } else do {
           (b, c, ms) \<leftarrow> ParseField last_type_id c ms;
           Some (if b then None else Some False, last_type_id, message_data, c, ms)
         }
       else if tag = kMessageSetItemEndTag then Some (Some True, last_type_id, message_data, c, ms)
       else do {
         (b, c, ms) \<leftarrow> SkipUnknown tag c ms;
         Some (if b then None else Some False, last_type_id, message_data, c, ms)
       }
     })"

partial_function (option) message_set_loop ::
    "(('s, 'm) ms_state \<Rightarrow> (bool option \<times> ('s, 'm) ms_state) option) \<Rightarrow> ('s, 'm) ms_state \<Rightarrow> (bool \<times> ('s, 'm) ms_state) option" where
  "message_set_loop round st =
     do { (r, st) \<leftarrow> round st; case r of Some b \<Rightarrow> Some (b, st) | None \<Rightarrow> message_set_loop round st }"

declare message_set_loop.simps [code]

definition ParseMessageSetItemImpl ::
    "('s, 'm) ms_handler \<Rightarrow> ('s, 'm) ms_handler \<Rightarrow> 's ZeroCopyInputStream \<Rightarrow> 's CodedInputStream \<Rightarrow> 'm \<Rightarrow>
      (bool \<times> 's CodedInputStream \<times> 'm) option" where
  "ParseMessageSetItemImpl ParseField SkipUnknown ops c ms =
     map_option (\<lambda>(b, last_type_id, message_data, c, ms). (b, c, ms))
       (message_set_loop (message_set_round ParseField SkipUnknown ops) (0, [], c, ms))"

end
