(* ===== verification/Eps_Copy_Correct.thy ===== *)
theory Eps_Copy_Correct
  imports Eps_Copy
begin

text \<open>
  \<open>EpsCopyOutputStream\<close> is correct over every stream that keeps the contract \<open>zero_copy_output\<close>. Its abstract value
  is the sequence of bytes written so far (\<open>eps_written\<close>), wherever they are: in the chunk, in the patch
  buffer, or half in each. Every operation appends its bytes to that sequence or records an error
  (\<open>eps_step\<close>), keeps the invariant \<open>eps_ok\<close>, and leaves room for 16 bytes.
\<close>

section \<open>Invariant and abstract value\<close>

definition eps_ok :: "('s \<Rightarrow> bool) \<Rightarrow> ('s \<Rightarrow> nat \<Rightarrow> nat \<Rightarrow> bool) \<Rightarrow> pointer \<Rightarrow> 's EpsCopyOutputStream \<Rightarrow> bool" where
  "eps_ok ok chunk p e \<longleftrightarrow> length (patch e) = 32 \<and> (\<exists>s. eps_stream e = Some s \<and> ok s \<and>
     (if had_error e then
        \<exists>k i. end_ptr e = Patch (int k) \<and> p = Patch (int i) \<and> k \<le> 16 \<and> i \<le> k + 16
      else case buffer_end e of
        None \<Rightarrow> \<exists>a n i. chunk s a n \<and> 16 < n \<and> end_ptr e = Chunk (int a + int n - 16) \<and> p = Chunk (int i) \<and> a \<le> i \<and> i \<le> a + n
      | Some b \<Rightarrow> \<exists>k i. end_ptr e = Patch (int k) \<and> p = Patch (int i) \<and> k \<le> 16 \<and> i \<le> k + 16 \<and>
          (k = 0 \<or> (\<exists>a n. chunk s a n \<and> k \<le> n \<and> b = Chunk (int a + int n - int k)))))"

definition eps_written :: "('s \<Rightarrow> byte list) \<Rightarrow> pointer \<Rightarrow> 's EpsCopyOutputStream \<Rightarrow> byte list" where
  "eps_written written p e =
     (let w = written (the (eps_stream e)) in
      case (end_ptr e, p) of
        (Chunk x, Chunk i) \<Rightarrow> take (length w - nat (x + 16 - i)) w
      | (Patch k, Patch i) \<Rightarrow> take (length w - nat k) w @ take (nat i) (patch e)
      | _ \<Rightarrow> [])"

definition eps_good :: "('s \<Rightarrow> bool) \<Rightarrow> 's EpsCopyOutputStream \<Rightarrow> bool" where
  "eps_good sound e \<longleftrightarrow> \<not> had_error e \<and> sound (the (eps_stream e))"

definition eps_step ::
    "('s \<Rightarrow> bool) \<Rightarrow> ('s \<Rightarrow> bool) \<Rightarrow> ('s \<Rightarrow> byte list) \<Rightarrow> ('s \<Rightarrow> nat \<Rightarrow> nat \<Rightarrow> bool) \<Rightarrow> byte list \<Rightarrow>
      pointer \<Rightarrow> 's EpsCopyOutputStream \<Rightarrow> pointer \<Rightarrow> 's EpsCopyOutputStream \<Rightarrow> bool" where
  "eps_step ok sound written chunk d p e p' e' \<longleftrightarrow> eps_ok ok chunk p' e' \<and> (had_error e \<longrightarrow> had_error e') \<and>
     aliasing_enabled e' = aliasing_enabled e \<and>
     (eps_good sound e \<longrightarrow> \<not> had_error e' \<longrightarrow>
       eps_good sound e' \<and> eps_written written p' e' = eps_written written p e @ d)"

lemma take_overwrite: "q \<le> length w \<Longrightarrow> take (q + length d) (overwrite q d w) = take q w @ d"
  by (simp add: overwrite_def)

section \<open>Sizes of what is written\<close>

lemma length_varint_le: "n < 128 ^ k \<Longrightarrow> 0 < k \<Longrightarrow> length (varint_bytes n) \<le> k"
proof (induction k arbitrary: n)
  case (Suc k)
  show ?case
  proof (cases "n < 128")
    case True
    then show ?thesis by (simp add: varint_bytes_small)
  next
    case False
    with Suc.prems have "0 < k" by (cases k) simp_all
    moreover have "n div 128 < 128 ^ k" using Suc.prems(1) by (simp add: div_less_iff_less_mult)
    ultimately show ?thesis using Suc.IH False by (simp add: varint_bytes_large)
  qed
qed simp

lemma unat_bound: "unat (v :: 'a::len word) < 2 ^ LENGTH('a)"
  by (rule unsigned_less)

lemma length_UnsafeVarint32: "length (UnsafeVarint (v :: uint32)) \<le> 5"
  unfolding UnsafeVarint_bytes by (rule length_varint_le) (use unat_bound [of v] in simp_all)

lemma length_UnsafeVarint64: "length (UnsafeVarint (v :: uint64)) \<le> 10"
  unfolding UnsafeVarint_bytes by (rule length_varint_le) (use unat_bound [of v] in simp_all)

lemma length_UnsafeWriteSize: "length (UnsafeWriteSize v) \<le> 5"
  unfolding UnsafeWriteSize_bytes by (rule length_varint_le) (use unat_bound [of v] in simp_all)

text \<open>A tag is a field number in the high bits; the wire type below it never changes its size.\<close>

lemma tag_unat: "unat (push_bit 3 num OR 2 :: uint32) = unat (push_bit 3 num) + 2" "8 dvd unat (push_bit 3 num :: uint32)"
proof -
  have "unat (push_bit 3 num :: uint32) = (8 * unat num) mod 2 ^ 32"
    by (simp add: push_bit_eq_mult unat_word_ariths mult.commute)
  also have "8 dvd \<dots>" by (simp add: dvd_mod)
  finally show d: "8 dvd unat (push_bit 3 num :: uint32)" .
  have "push_bit 3 num AND 2 = (0 :: uint32)" by (rule bit_word_eqI) (auto simp: bit_simps)
  then have "push_bit 3 num OR 2 = (push_bit 3 num + 2 :: uint32)" by (simp add: disjunctive_add_eq_or)
  moreover have "unat (push_bit 3 num :: uint32) + 2 < 2 ^ 32"
    using d unat_bound [of "push_bit 3 num :: uint32"] by (auto elim!: dvdE)
  ultimately show "unat (push_bit 3 num OR 2 :: uint32) = unat (push_bit 3 num) + 2" by (simp add: unat_add_lem [THEN iffD1])
qed

lemma TagSize_length: "TagSize (push_bit 3 num) = int (length (UnsafeVarint (push_bit 3 num OR 2 :: uint32)))"
proof -
  define t where "t = unat (push_bit 3 num :: uint32)"
  obtain q where q: "t = 8 * q" using tag_unat(2) unfolding t_def by (rule dvdE)
  have len: "length (varint_bytes (t + 2)) =
      (if t < 128 then 1 else if t < 16384 then 2 else if t < 2097152 then 3 else if t < 268435456 then 4 else 5)"
  proof -
    have lt: "t + 2 < 4294967296" using unat_bound [of "push_bit 3 num OR 2 :: uint32"] by (simp add: tag_unat t_def)
    consider "t < 128" | "128 \<le> t" "t < 16384" | "16384 \<le> t" "t < 2097152" | "2097152 \<le> t" "t < 268435456" | "268435456 \<le> t" by linarith
    then show ?thesis
    proof cases
      case 1
      then have "t + 2 < 128 ^ Suc 0" unfolding q by simp
      then show ?thesis using length_varint_bytes [of "t + 2" 0] 1 by simp
    next
      case 2
      then have "t + 2 < 128 ^ Suc 1" "128 ^ 1 \<le> t + 2" unfolding q by simp_all
      then show ?thesis using length_varint_bytes [of "t + 2" 1] 2 by simp
    next
      case 3
      then have "t + 2 < 128 ^ Suc 2" "128 ^ 2 \<le> t + 2" unfolding q by simp_all
      then show ?thesis using length_varint_bytes [of "t + 2" 2] 3 by simp
    next
      case 4
      then have "t + 2 < 128 ^ Suc 3" "128 ^ 3 \<le> t + 2" unfolding q by simp_all
      then show ?thesis using length_varint_bytes [of "t + 2" 3] 4 by simp
    next
      case 5
      then have "t + 2 < 128 ^ Suc 4" "128 ^ 4 \<le> t + 2" using lt unfolding q by simp_all
      then show ?thesis using length_varint_bytes [of "t + 2" 4] 5 by simp
    qed
  qed
  have lt: "push_bit 3 num < push_bit 7 (1 :: uint32) \<longleftrightarrow> t < 128" "push_bit 3 num < push_bit 14 (1 :: uint32) \<longleftrightarrow> t < 16384"
    "push_bit 3 num < push_bit 21 (1 :: uint32) \<longleftrightarrow> t < 2097152" "push_bit 3 num < push_bit 28 (1 :: uint32) \<longleftrightarrow> t < 268435456"
    by (simp_all add: t_def word_less_nat_alt)
  show ?thesis unfolding TagSize_def UnsafeVarint_bytes tag_unat(1) t_def [symmetric] len lt by simp
qed

text \<open>The bytes of a length-delimited field, before its contents.\<close>

definition delim :: "uint32 \<Rightarrow> uint32 \<Rightarrow> byte list" where
  "delim num n = UnsafeVarint (push_bit 3 num OR 2) @ UnsafeWriteSize n"

lemma length_delim: "length (delim num n) \<le> 10"
  using length_UnsafeVarint32 [of "push_bit 3 num OR 2"] length_UnsafeWriteSize [of n] by (simp add: delim_def)

lemma short_delim: "n < 128 \<Longrightarrow> delim num (of_nat n) = UnsafeVarint (push_bit 3 num OR 2) @ [of_nat n]"
  by (simp add: delim_def UnsafeWriteSize_bytes varint_bytes_small unat_of_nat)

context zero_copy_output
begin

abbreviation "e_ok \<equiv> eps_ok ok chunk"
abbreviation "e_written \<equiv> eps_written written"
abbreviation "e_good \<equiv> eps_good sound"
abbreviation "e_step \<equiv> eps_step ok sound written chunk"

lemma eps_okE:
  assumes "e_ok p e"
  obtains (error) s k i where "had_error e" "eps_stream e = Some s" "ok s" "length (patch e) = 32"
      "end_ptr e = Patch (int k)" "p = Patch (int i)" "k \<le> 16" "i \<le> k + 16"
  | (direct) s a n i where "\<not> had_error e" "eps_stream e = Some s" "ok s" "length (patch e) = 32" "buffer_end e = None"
      "chunk s a n" "16 < n" "end_ptr e = Chunk (int a + int n - 16)" "p = Chunk (int i)" "a \<le> i" "i \<le> a + n"
  | (patched) s b k i where "\<not> had_error e" "eps_stream e = Some s" "ok s" "length (patch e) = 32" "buffer_end e = Some b"
      "end_ptr e = Patch (int k)" "p = Patch (int i)" "k \<le> 16" "i \<le> k + 16"
      "k = 0 \<or> (\<exists>a n. chunk s a n \<and> k \<le> n \<and> b = Chunk (int a + int n - int k))"
proof -
  from assms obtain s where s: "eps_stream e = Some s" "ok s" "length (patch e) = 32" by (auto simp: eps_ok_def)
  show thesis
  proof (cases "had_error e")
    case True
    with assms s show ?thesis by (auto simp: eps_ok_def intro: error)
  next
    case False
    show ?thesis
    proof (cases "buffer_end e")
      case None
      with False assms s obtain a n i where "chunk s a n" "16 < n" "end_ptr e = Chunk (int a + int n - 16)" "p = Chunk (int i)"
        "a \<le> i" "i \<le> a + n" by (auto simp: eps_ok_def)
      with False None s show ?thesis by (intro direct)
    next
      case (Some b)
      with False assms s obtain k i where "end_ptr e = Patch (int k)" "p = Patch (int i)" "k \<le> 16" "i \<le> k + 16"
        "k = 0 \<or> (\<exists>a n. chunk s a n \<and> k \<le> n \<and> b = Chunk (int a + int n - int k))" by (auto simp: eps_ok_def)
      with False Some s show ?thesis by (intro patched)
    qed
  qed
qed

lemma eps_ok_error:
  "had_error e \<Longrightarrow> eps_stream e = Some s \<Longrightarrow> ok s \<Longrightarrow> length (patch e) = 32 \<Longrightarrow> end_ptr e = Patch (int k) \<Longrightarrow> k \<le> 16 \<Longrightarrow>
    i \<le> k + 16 \<Longrightarrow> e_ok (Patch (int i)) e"
  by (auto simp: eps_ok_def)

lemma eps_ok_direct:
  "\<not> had_error e \<Longrightarrow> eps_stream e = Some s \<Longrightarrow> ok s \<Longrightarrow> length (patch e) = 32 \<Longrightarrow> buffer_end e = None \<Longrightarrow> chunk s a n \<Longrightarrow>
    16 < n \<Longrightarrow> end_ptr e = Chunk (int a + int n - 16) \<Longrightarrow> a \<le> i \<Longrightarrow> i \<le> a + n \<Longrightarrow> e_ok (Chunk (int i)) e"
  unfolding eps_ok_def by auto

lemma eps_ok_patched:
  "\<not> had_error e \<Longrightarrow> eps_stream e = Some s \<Longrightarrow> ok s \<Longrightarrow> length (patch e) = 32 \<Longrightarrow> buffer_end e = Some b \<Longrightarrow>
    end_ptr e = Patch (int k) \<Longrightarrow> k \<le> 16 \<Longrightarrow> i \<le> k + 16 \<Longrightarrow>
    k = 0 \<or> (\<exists>a n. chunk s a n \<and> k \<le> n \<and> b = Chunk (int a + int n - int k)) \<Longrightarrow> e_ok (Patch (int i)) e"
  unfolding eps_ok_def by auto

section \<open>Memory\<close>

lemma chunk_written:
  assumes "ok s" "chunk s a n" "sound s"
  shows "n \<le> length (written s)" "a \<le> b \<Longrightarrow> b + k \<le> a + n \<Longrightarrow>
    bytes_at b k (memory ops s) = bytes_at (length (written s) - n + (b - a)) k (written s)"
proof -
  obtain before where w: "a + n \<le> length (memory ops s)" "written s = before @ bytes_at a n (memory ops s)"
    using output_chunk [OF assms(1,2)] assms(3) by blast
  then show "n \<le> length (written s)" by simp
  assume "a \<le> b" "b + k \<le> a + n"
  then have "bytes_at b k (memory ops s) = bytes_at (b - a) k (bytes_at a n (memory ops s))"
    by (simp add: bytes_at_def drop_take min_def)
  with w show "bytes_at b k (memory ops s) = bytes_at (length (written s) - n + (b - a)) k (written s)"
    by (simp add: bytes_at_def)
qed

lemma storeE:
  assumes "ok s" "chunk s a n" "a \<le> b" "b + length d \<le> a + n"
  obtains s' where "store ops b d s = Some s'" "ok s'" "chunk s' = chunk s" "sound s' = sound s" "idle s' = idle s"
    "sound s \<longrightarrow> written s' = overwrite (length (written s) - n + (b - a)) d (written s)"
    "sound s \<longrightarrow> length (written s') = length (written s)"
proof -
  let ?m = "overwrite b d (memory ops s)"
  have c: "a + n \<le> length (memory ops s)" using output_chunk [OF assms(1,2)] by blast
  then have "agree_outside a n (memory ops s) ?m" using assms(3,4) by (intro agree_overwrite)
  note set = output_set_memory [OF assms(1,2) this]
  have "store ops b d s = Some (set_memory ops ?m s)" using c assms(4) by (simp add: store_def)
  moreover have w: "written (set_memory ops ?m s) = overwrite (length (written s) - n + (b - a)) d (written s)" if snd: "sound s"
  proof -
    obtain before where "written s = before @ bytes_at a n (memory ops s)" using output_chunk [OF assms(1,2)] snd by blast
    from written_overwrite [OF this assms(3,4) c] set snd show ?thesis by simp
  qed
  moreover have "length (written (set_memory ops ?m s)) = length (written s)" if snd: "sound s"
    using w [OF snd] chunk_written(1) [OF assms(1,2) snd] assms(3,4) by simp
  ultimately show thesis using set by (intro that [of "set_memory ops ?m s"]) simp_all
qed

lemma load_chunk:
  assumes "ok s" "chunk s a n" "a \<le> b" "b + k \<le> a + n"
  shows "load ops b k s = Some (bytes_at b k (memory ops s))"
  using output_chunk [OF assms(1,2)] assms(4) by (simp add: load_def)

section \<open>Writing where there is room\<close>

lemma put_bytes_spec:
  assumes "e_ok p e" "ptr_diff (end_ptr e) p = Some r" "int (length d) \<le> r + 16"
  obtains e' where "put_bytes ops d p e = Some (ptr_add p (int (length d)), e')" "e_step d p e (ptr_add p (int (length d))) e'"
    "end_ptr e' = end_ptr e" "had_error e' = had_error e" "ptr_diff (end_ptr e') (ptr_add p (int (length d))) = Some (r - int (length d))"
proof -
  note found = that
  let ?n = "length d"
  have patch: ?thesis
    if p: "eps_stream e = Some s" "ok s" "length (patch e) = 32" "end_ptr e = Patch (int k)" "p = Patch (int i)" "k \<le> 16" "i \<le> k + 16"
      "had_error e \<or> (\<exists>b. buffer_end e = Some b \<and> (k = 0 \<or> (\<exists>a n. chunk s a n \<and> k \<le> n \<and> b = Chunk (int a + int n - int k))))"
    for s k i
  proof -
    let ?e = "e\<lparr>patch := overwrite i d (patch e)\<rparr>"
    have r: "r = int k - int i" using assms(2) p(4,5) by simp
    then have room: "i + ?n \<le> k + 16" using assms(3) by linarith
    then have len: "i + ?n \<le> length (patch e)" using p(3,6) by simp
    have "put_bytes ops d p e = Some (Patch (int (i + ?n)), ?e)"
      using len p(5) by (cases e) (simp add: put_bytes_def write_mem_def)
    moreover have "e_ok (Patch (int (i + ?n))) ?e"
    proof (cases "had_error e")
      case True
      with p room len show ?thesis by (auto simp: eps_ok_def intro!: exI [of _ "i + ?n"])
    next
      case False
      with p(8) obtain b where "buffer_end e = Some b" "k = 0 \<or> (\<exists>a n. chunk s a n \<and> k \<le> n \<and> b = Chunk (int a + int n - int k))" by auto
      with False p room len show ?thesis by (simp add: eps_ok_def del: of_nat_add)
    qed
    moreover have "e_written (Patch (int (i + ?n))) ?e = e_written p e @ d"
      using len take_overwrite [of i "patch e" d] p(4,5) by (simp add: eps_written_def Let_def flip: of_nat_add)
    ultimately show ?thesis using p(4,5) r
      by (intro found [of ?e]) (simp_all add: eps_step_def eps_good_def)
  qed
  show ?thesis
  proof (cases rule: eps_okE [OF assms(1)])
    case (1 s k i)
    then show ?thesis by (intro patch [of s k i]) simp_all
  next
    case (3 s b k i)
    then show ?thesis by (intro patch [of s k i]) simp_all
  next
    case (2 s a n i)
    have r: "r = int a + int n - 16 - int i" using assms(2) 2 by simp
    then have room: "i + ?n \<le> a + n" using assms(3) by linarith
    obtain s' where s': "store ops i d s = Some s'" "ok s'" "chunk s' = chunk s" "sound s' = sound s" "idle s' = idle s"
      "sound s \<longrightarrow> written s' = overwrite (length (written s) - n + (i - a)) d (written s)"
      "sound s \<longrightarrow> length (written s') = length (written s)"
      by (rule storeE [OF \<open>ok s\<close> \<open>chunk s a n\<close> \<open>a \<le> i\<close> room])
    show ?thesis
    proof (cases "d = []")
      case True
      with assms 2 r show ?thesis
        by (intro found [of e]) (simp_all add: put_bytes_def write_mem_def eps_step_def eps_good_def)
    next
      case False
      let ?e = "e\<lparr>eps_stream := Some s'\<rparr>" and ?p = "Chunk (int (i + ?n))"
      have "put_bytes ops d p e = Some (?p, ?e)" using False 2 s'(1) by (simp add: put_bytes_def write_mem_def)
      moreover have "e_ok ?p ?e" using 2 s'(2,3) room by (intro eps_ok_direct [where s = s' and a = a and n = n]) simp_all
      moreover have "e_written ?p ?e = e_written p e @ d" if snd: "sound s"
      proof -
        let ?w = "written s" and ?q = "length (written s) - (a + n - i)"
        have n: "n \<le> length ?w" by (rule chunk_written(1) [OF \<open>ok s\<close> \<open>chunk s a n\<close> snd])
        have q: "length ?w - n + (i - a) = ?q" "length ?w - (a + n - (i + ?n)) = ?q + ?n" "?q \<le> length ?w" using 2 n room by auto
        have "e_written ?p ?e = take (length ?w - (a + n - (i + ?n))) (overwrite ?q d ?w)"
          using 2 room s'(6,7) [rule_format, OF snd] q(1) by (simp add: eps_written_def Let_def nat_diff_distrib' flip: of_nat_add)
        also have "\<dots> = take ?q ?w @ d" unfolding q(2) by (rule take_overwrite [OF q(3)])
        also have "take ?q ?w = e_written p e" using 2 by (simp add: eps_written_def Let_def nat_minus_as_int)
        finally show ?thesis .
      qed
      ultimately show ?thesis using 2 r s'(4)
        by (intro found [of ?e]) (simp_all add: eps_step_def eps_good_def)
    qed
  qed
qed

section \<open>The next buffer\<close>

lemma output_nextE:
  assumes "ok s"
  obtains (failed) s' where "Output_Next ops s = Some (None, s')" "ok s'"
  | (more) a n s' where "Output_Next ops s = Some (Some (a, n), s')" "ok s'" "chunk s' a n" "n = 0 \<longrightarrow> idle s' < idle s"
      "sound s \<longrightarrow> sound s' \<and> (\<exists>fresh. written s' = written s @ fresh \<and> length fresh = n)"
proof -
  obtain r s1 where r: "Output_Next ops s = Some (r, s1)" "ok s1" "case r of None \<Rightarrow> True
       | Some (a, n) \<Rightarrow> chunk s1 a n \<and> (n = 0 \<longrightarrow> idle s1 < idle s) \<and>
          (sound s \<longrightarrow> sound s1 \<and> (\<exists>fresh. written s1 = written s @ fresh \<and> length fresh = n))"
    using output_next [OF assms] by blast
  show thesis
  proof (cases r)
    case None
    with r show ?thesis by (intro failed) simp_all
  next
    case (Some an)
    obtain a n where "an = (a, n)" by (cases an)
    with r Some show ?thesis by (intro more [of a n s1]) simp_all
  qed
qed

lemma next_chunkE:
  assumes "ok s"
  obtains (failed) s' where "next_chunk ops s = Some (None, s')" "ok s'"
  | (more) a n s' where "next_chunk ops s = Some (Some (a, n), s')" "ok s'" "chunk s' a n" "0 < n"
      "sound s \<longrightarrow> sound s' \<and> (\<exists>fresh. written s' = written s @ fresh \<and> length fresh = n)"
  using assms
proof (induction "idle s" arbitrary: s thesis rule: less_induct)
  case less
  show ?case
  proof (rule output_nextE [OF less.prems(3)])
    fix s'
    assume "Output_Next ops s = Some (None, s')" "ok s'"
    then show ?thesis by (intro less.prems(1) [of s']) (simp_all add: next_chunk.simps [of ops s])
  next
    fix a n s'
    assume r: "Output_Next ops s = Some (Some (a, n), s')" "ok s'" "chunk s' a n" "n = 0 \<longrightarrow> idle s' < idle s"
      "sound s \<longrightarrow> sound s' \<and> (\<exists>fresh. written s' = written s @ fresh \<and> length fresh = n)"
    show ?thesis
    proof (cases "n = 0")
      case False
      with r show ?thesis by (intro less.prems(2) [of a n s']) (simp_all add: next_chunk.simps [of ops s])
    next
      case True
      then have step: "next_chunk ops s = next_chunk ops s'" using r(1) by (simp add: next_chunk.simps [of ops s])
      have idle: "idle s' < idle s" and w: "sound s \<longrightarrow> sound s' \<and> written s' = written s" using True r(4,5) by auto
      show ?thesis
      proof (rule less.hyps [OF idle _ _ r(2)])
        fix s2
        assume "next_chunk ops s' = Some (None, s2)" "ok s2"
        with step show ?thesis by (intro less.prems(1) [of s2]) simp_all
      next
        fix a n s2
        assume "next_chunk ops s' = Some (Some (a, n), s2)" "ok s2" "chunk s2 a n" "0 < n"
          "sound s' \<longrightarrow> sound s2 \<and> (\<exists>fresh. written s2 = written s' @ fresh \<and> length fresh = n)"
        with step w show ?thesis by (intro less.prems(2) [of a n s2]) auto
      qed
    qed
  qed
qed

text \<open>Copying the front of the patch buffer to where it belongs.\<close>

lemma copy_backE:
  assumes "eps_stream e = Some s" "ok s" "j \<le> k" "k = 0 \<or> (\<exists>a n. chunk s a n \<and> k \<le> n \<and> b = Chunk (int a + int n - int k))"
    "j \<le> length (patch e)"
  obtains s' where "read_mem ops (Patch 0) (int j) e = Some (take j (patch e))"
    "write_mem ops b (take j (patch e)) e = Some (e\<lparr>eps_stream := Some s'\<rparr>)" "ok s'" "chunk s' = chunk s" "sound s' = sound s"
    "sound s \<longrightarrow> length (written s') = length (written s) \<and> k \<le> length (written s) \<and>
      written s' = overwrite (length (written s) - k) (take j (patch e)) (written s)"
proof -
  have read: "read_mem ops (Patch 0) (int j) e = Some (take j (patch e))"
    using assms(5) by (simp add: read_mem_def bytes_at_def)
  show thesis
  proof (cases "j = 0")
    case True
    have "k \<le> length (written s)" if snd: "sound s"
    proof (cases "k = 0")
      case False
      with assms(4) obtain a n where "chunk s a n" "k \<le> n" by blast
      with chunk_written(1) [OF assms(2) _ snd] show ?thesis by fastforce
    qed simp
    with True read assms show ?thesis by (intro that [of s]) (simp_all add: write_mem_def)
  next
    case False
    with assms(3,4) obtain a n where b: "chunk s a n" "k \<le> n" "b = Chunk (int a + int n - int k)" by auto
    have b': "b = Chunk (int (a + n - k))" using b(2,3) by simp
    have j: "length (take j (patch e)) = j" using assms(5) by simp
    obtain s' where s': "store ops (a + n - k) (take j (patch e)) s = Some s'" "ok s'" "chunk s' = chunk s" "sound s' = sound s"
      "idle s' = idle s" "sound s \<longrightarrow> written s' = overwrite (length (written s) - n + (a + n - k - a)) (take j (patch e)) (written s)"
      "sound s \<longrightarrow> length (written s') = length (written s)"
      by (rule storeE [OF assms(2) b(1), of "a + n - k" "take j (patch e)"]) (use b(2) assms(3) j in simp_all)
    have "length (written s) - n + (a + n - k - a) = length (written s) - k" "k \<le> length (written s)" if snd: "sound s"
      using chunk_written(1) [OF assms(2) b(1) snd] b(2) by simp_all
    with s' read False j b' assms(1) show ?thesis by (intro that [of s']) (auto simp: write_mem_def)
  qed
qed

lemma Eps_Next_spec:
  assumes "e_ok p e" "\<not> had_error e" "ptr_diff p (end_ptr e) = Some r" "0 \<le> r"
  obtains (failed) e' s where "Eps_Next ops e = Some (Patch 0, e')" "had_error e'" "end_ptr e' = Patch 16" "eps_stream e' = Some s"
      "ok s" "length (patch e') = 32" "aliasing_enabled e' = aliasing_enabled e" "r \<le> 16"
  | (moved) q e' r' where "Eps_Next ops e = Some (q, e')" "\<not> had_error e'" "e_step [] p e (ptr_add q r) e'"
      "ptr_diff (ptr_add q r) (end_ptr e') = Some r'" "r' < r"
proof (cases rule: eps_okE [OF assms(1)])
  case 1
  with assms(2) show thesis by simp
next
  case (2 s a n i)
  obtain m where m: "a + n = m + 16" "a \<le> m" using \<open>16 < n\<close> by (intro that [of "a + n - 16"]) simp_all
  then have e: "end_ptr e = Chunk (int m)" using 2 by simp
  note load = load_chunk [OF \<open>ok s\<close> \<open>chunk s a n\<close> m(2), of 16]
  define d where "d = bytes_at m 16 (memory ops s)"
  have len: "length d = 16" using output_chunk [OF \<open>ok s\<close> \<open>chunk s a n\<close>] m by (simp add: d_def)
  have r: "r = int i - int m" using assms(3) 2(9) e by simp
  let ?e = "e\<lparr>patch := overwrite 0 d (patch e), buffer_end := Some (Chunk (int m)), end_ptr := Patch 16\<rparr>"
  have read: "read_mem ops (end_ptr e) kSlopBytes e = Some d"
    using load m 2 e by (simp add: read_mem_def kSlopBytes_def d_def)
  have "Eps_Next ops e = Some (Patch 0, ?e)"
    using 2(1-5) e read len by (auto simp: Eps_Next_def write_mem_def kSlopBytes_def)
  moreover have "e_step [] p e (ptr_add (Patch 0) r) ?e"
  proof -
    have i: "ptr_add (Patch 0) r = Patch (int (i - m))" "i - m \<le> 16" "m \<le> i" using assms(4) r 2 m by auto
    have "(16 :: nat) = 0 \<or> (\<exists>a n. chunk s a n \<and> 16 \<le> n \<and> Chunk (int m) = Chunk (int a + int n - int 16))"
      using m 2(6,7) by (intro disjI2 exI [of _ a] exI [of _ n]) auto
    then have "e_ok (Patch (int (i - m))) ?e"
      using 2(1-4) len i(2) by (intro eps_ok_patched [where s = s and k = 16 and b = "Chunk (int m)"]) auto
    moreover have "e_written (Patch (int (i - m))) ?e = e_written p e" if snd: "sound s"
    proof -
      let ?w = "written s"
      have n: "n \<le> length ?w" "d = bytes_at (length ?w - n + (m - a)) 16 ?w"
        using chunk_written [OF \<open>ok s\<close> \<open>chunk s a n\<close> snd] m by (auto simp: d_def)
      have q: "length ?w - n + (m - a) = length ?w - 16" using n(1) m \<open>16 < n\<close> by simp
      have d: "d = drop (length ?w - 16) ?w" using n(2) len unfolding q by (simp add: bytes_at_def)
      have q: "length ?w - (m + 16 - i) = length ?w - 16 + (i - m)" using i(2,3) n(1) m 2(7) by simp
      have "e_written p e = take (length ?w - (m + 16 - i)) ?w" using 2(2,9) e by (simp add: eps_written_def Let_def nat_minus_as_int)
      also have "\<dots> = take (length ?w - 16) ?w @ take (i - m) d" unfolding q d by (simp add: take_add)
      also have "\<dots> = e_written (Patch (int (i - m))) ?e"
        using 2(2) len i(2) by (simp add: eps_written_def Let_def overwrite_def)
      finally show ?thesis by simp
    qed
    ultimately show ?thesis unfolding i(1) using 2(1,2) by (simp add: eps_step_def eps_good_def)
  qed
  ultimately show thesis using 2(1) r by (intro moved [of "Patch 0" ?e "r - 16"]) simp_all
next
  case (3 s b k i)
  have r: "r = int i - int k" "k \<le> i" using assms(3,4) 3 by auto
  have k: "k \<le> length (patch e)" using 3 by simp
  obtain s1 where s1: "read_mem ops (Patch 0) (int k) e = Some (take k (patch e))"
    "write_mem ops b (take k (patch e)) e = Some (e\<lparr>eps_stream := Some s1\<rparr>)" "ok s1" "chunk s1 = chunk s" "sound s1 = sound s"
    "sound s \<longrightarrow> length (written s1) = length (written s) \<and> k \<le> length (written s) \<and>
      written s1 = overwrite (length (written s) - k) (take k (patch e)) (written s)"
    by (rule copy_backE [OF \<open>eps_stream e = Some s\<close> \<open>ok s\<close> order_refl 3(10) k])
  have w1: "written s1 = take (length (written s) - k) (written s) @ take k (patch e)" if "sound s"
    using s1(6) that k by (simp add: overwrite_def min_def)
  show thesis
  proof (rule next_chunkE [OF s1(3)])
    fix s2
    assume n: "next_chunk ops s1 = Some (None, s2)" "ok s2"
    let ?e = "snd (Eps_Error (e\<lparr>eps_stream := Some s2\<rparr>))"
    have "Eps_Next ops e = Some (Patch 0, ?e)"
      using 3 s1(1,2) n(1) by (simp add: Eps_Next_def Eps_Error_def)
    then show thesis using 3 n(2) r by (intro failed [of ?e s2]) (simp_all add: Eps_Error_def kSlopBytes_def)
  next
    fix a n s2
    assume n: "next_chunk ops s1 = Some (Some (a, n), s2)" "ok s2" "chunk s2 a n" "0 < n"
      "sound s1 \<longrightarrow> sound s2 \<and> (\<exists>fresh. written s2 = written s1 @ fresh \<and> length fresh = n)"
    define d where "d = bytes_at k 16 (patch e)"
    have d: "length d = 16" using 3 by (simp add: d_def)
    have read: "read_mem ops (end_ptr e) kSlopBytes (e\<lparr>eps_stream := Some s2\<rparr>) = Some d"
      using 3 by (simp add: read_mem_def kSlopBytes_def d_def)
    have take: "take i (patch e) = take k (patch e) @ take (i - k) d"
      using r(2) 3 by (simp add: d_def bytes_at_def min_def flip: take_add)
    show thesis
    proof (cases "16 < n")
      case True
      obtain s3 where s3: "store ops a d s2 = Some s3" "ok s3" "chunk s3 = chunk s2" "sound s3 = sound s2" "idle s3 = idle s2"
        "sound s2 \<longrightarrow> written s3 = overwrite (length (written s2) - n + (a - a)) d (written s2)"
        "sound s2 \<longrightarrow> length (written s3) = length (written s2)"
        by (rule storeE [OF n(2,3) order_refl, of d]) (use True d in simp_all)
      let ?e = "e\<lparr>eps_stream := Some s3, end_ptr := Chunk (int a + int n - 16), buffer_end := None\<rparr>"
      have wr: "write_mem ops (Chunk (int a)) d (e\<lparr>eps_stream := Some s2\<rparr>) = Some (e\<lparr>eps_stream := Some s3\<rparr>)"
        using s3(1) d by (auto simp: write_mem_def)
      have "Eps_Next ops e = Some (Chunk (int a), ?e)"
        using 3(1,2,5,6) s1(1,2) n(1) read wr True by (simp add: Eps_Next_def kSlopBytes_def)
      moreover have "e_step [] p e (ptr_add (Chunk (int a)) r) ?e"
      proof -
        have i: "ptr_add (Chunk (int a)) r = Chunk (int (a + (i - k)))" using r by simp
        have "e_ok (Chunk (int (a + (i - k)))) ?e"
          using 3 True n(3) s3(2,3) r by (intro eps_ok_direct [where s = s3 and a = a and n = n]) auto
        moreover have "sound s3 \<and> e_written (Chunk (int (a + (i - k)))) ?e = e_written p e" if snd: "sound s"
        proof -
          obtain fresh where f: "sound s2" "written s2 = written s1 @ fresh" "length fresh = n" using n(5) s1(5) snd by blast
          let ?L = "length (written s1)"
          have w3: "written s3 = overwrite ?L d (written s1 @ fresh)" using s3(6) f by simp
          have "?L + n - (n - (i - k)) = ?L + (i - k)" using True r 3 by simp
          moreover have "length (written s3) = ?L + n" using s3(7) f by simp
          ultimately have "e_written (Chunk (int (a + (i - k)))) ?e = take (?L + (i - k)) (written s3)"
            using r 3 True by (simp add: eps_written_def Let_def nat_minus_as_int)
          also have "\<dots> = written s1 @ take (i - k) d" using r 3 d by (simp add: w3 overwrite_def)
          also have "\<dots> = e_written p e" using 3 take by (simp add: w1 [OF snd] eps_written_def Let_def)
          finally show ?thesis using s3(4) f(1) by simp
        qed
        ultimately show ?thesis unfolding i using 3 by (simp add: eps_step_def eps_good_def)
      qed
      ultimately show ?thesis using 3 r True by (intro moved [of "Chunk (int a)" ?e "r - (int n - 16)"]) simp_all
    next
      case False
      let ?e = "e\<lparr>eps_stream := Some s2, patch := overwrite 0 d (patch e), buffer_end := Some (Chunk (int a)), end_ptr := Patch (int n)\<rparr>"
      have wr: "write_mem ops (Patch 0) d (e\<lparr>eps_stream := Some s2\<rparr>) =
          Some (e\<lparr>eps_stream := Some s2, patch := overwrite 0 d (patch e)\<rparr>)"
        using 3(4) d by (auto simp: write_mem_def)
      have "Eps_Next ops e = Some (Patch 0, ?e)"
        using 3(1,2,4,5,6) s1(1,2) n(1) read wr False by (simp add: Eps_Next_def kSlopBytes_def)
      moreover have "e_step [] p e (ptr_add (Patch 0) r) ?e"
      proof -
        have i: "ptr_add (Patch 0) r = Patch (int (i - k))" using r by simp
        have "\<exists>aa na. chunk s2 aa na \<and> n \<le> na \<and> Chunk (int a) = Chunk (int aa + int na - int n)"
          using n(3) by (intro exI [of _ a] exI [of _ n]) simp
        then have "e_ok (Patch (int (i - k))) ?e"
          using 3 False n(2) d r by (intro eps_ok_patched [where s = s2 and k = n and b = "Chunk (int a)"]) auto
        moreover have "sound s2 \<and> e_written (Patch (int (i - k))) ?e = e_written p e" if snd: "sound s"
        proof -
          obtain fresh where f: "sound s2" "written s2 = written s1 @ fresh" "length fresh = n" using n(5) s1(5) snd by blast
          have "nat (int (i - k)) = i - k" by simp
          then have "e_written (Patch (int (i - k))) ?e = written s1 @ take (i - k) d"
            using f 3 d by (simp add: eps_written_def Let_def overwrite_def)
          also have "\<dots> = e_written p e" using 3 take by (simp add: w1 [OF snd] eps_written_def Let_def)
          finally show ?thesis using f(1) by simp
        qed
        ultimately show ?thesis unfolding i using 3 by (simp add: eps_step_def eps_good_def)
      qed
      ultimately show ?thesis using 3 r n(4) by (intro moved [of "Patch 0" ?e "r - int n"]) simp_all
    qed
  qed
qed

section \<open>Making room\<close>

lemma eps_step_trans:
  "e_step d p e p1 e1 \<Longrightarrow> e_step d1 p1 e1 p2 e2 \<Longrightarrow> e_step (d @ d1) p e p2 e2"
  by (auto simp: eps_step_def eps_good_def)

lemma eps_step_nil: "e_step [] p e p1 e1 \<Longrightarrow> e_step d p1 e1 p2 e2 \<Longrightarrow> e_step d p e p2 e2"
  using eps_step_trans by fastforce

lemma eps_step_refl: "e_ok p e \<Longrightarrow> e_step [] p e p e"
  by (simp add: eps_step_def)

lemma eps_step_ok: "e_step d p e p' e' \<Longrightarrow> e_ok p' e'"
  by (simp add: eps_step_def)

lemma eps_step_error: "e_ok p' e' \<Longrightarrow> had_error e' \<Longrightarrow> aliasing_enabled e' = aliasing_enabled e \<Longrightarrow> e_step d p e p' e'"
  by (simp add: eps_step_def)

lemma eps_ok_room:
  assumes "e_ok p e"
  obtains r where "ptr_diff p (end_ptr e) = Some r" "ptr_diff (end_ptr e) p = Some (- r)" "r \<le> 16"
proof (cases rule: eps_okE [OF assms])
  case (1 s k i)
  then show ?thesis by (intro that [of "int i - int k"]) simp_all
next
  case (2 s a n i)
  then show ?thesis by (intro that [of "int i - (int a + int n - 16)"]) simp_all
next
  case (3 s b k i)
  then show ?thesis by (intro that [of "int i - int k"]) simp_all
qed

lemma eps_error_reset:
  assumes "e_ok p e" "had_error e"
  obtains d where "e_ok (Patch 0) e" "ptr_diff (end_ptr e) (Patch 0) = Some d" "0 \<le> d"
proof (cases rule: eps_okE [OF assms(1)])
  case (1 s k i)
  then show ?thesis using eps_ok_error [OF 1(1-5) 1(7), of 0] by (intro that [of "int k"]) simp_all
qed (use assms(2) in simp_all)

lemma EnsureSpaceFallback_spec:
  assumes "e_ok p e" "ptr_diff p (end_ptr e) = Some r" "0 \<le> r"
  obtains q e' d where "EnsureSpaceFallback ops p e = Some (q, e')" "e_step [] p e q e'"
    "ptr_diff (end_ptr e') q = Some d" "0 \<le> d"
  using assms
proof (induction "nat r" arbitrary: p e r thesis rule: less_induct)
  case less
  show ?case
  proof (cases "had_error e")
    case True
    obtain d where "e_ok (Patch 0) e" "ptr_diff (end_ptr e) (Patch 0) = Some d" "0 \<le> d"
      by (rule eps_error_reset [OF less.prems(2) True])
    then show ?thesis using True
      by (intro less.prems(1) [of "Patch 0" e d] eps_step_error) (simp_all add: EnsureSpaceFallback.simps [of ops p e])
  next
    case False
    show ?thesis
    proof (rule Eps_Next_spec [OF less.prems(2) False less.prems(3,4)])
      fix e' s
      assume n: "Eps_Next ops e = Some (Patch 0, e')" "had_error e'" "end_ptr e' = Patch 16" "eps_stream e' = Some s"
        "ok s" "length (patch e') = 32" "aliasing_enabled e' = aliasing_enabled e" "r \<le> 16"
      have ok: "e_ok (Patch (int i)) e'" if "i \<le> 32" for i using eps_ok_error [OF n(2,4,5,6), of 16 i] n(3) that by simp
      show ?thesis
      proof (cases "r = 16")
        case True
        then show ?thesis using n less.prems(3) False ok [of 0]
          by (intro less.prems(1) [of "Patch 0" e' 16] eps_step_error)
            (simp_all add: EnsureSpaceFallback.simps [of ops p e] EnsureSpaceFallback.simps [of ops _ e'])
      next
        case r: False
        then show ?thesis using n less.prems(3,4) False ok [of "nat r"]
          by (intro less.prems(1) [of "Patch r" e' "16 - r"] eps_step_error)
            (simp_all add: EnsureSpaceFallback.simps [of ops p e])
      qed
    next
      fix q e' r'
      assume n: "Eps_Next ops e = Some (q, e')" "\<not> had_error e'" "e_step [] p e (ptr_add q r) e'"
        "ptr_diff (ptr_add q r) (end_ptr e') = Some r'" "r' < r"
      note ok = eps_step_ok [OF n(3)]
      have step: "EnsureSpaceFallback ops p e = (if 0 \<le> r' then EnsureSpaceFallback ops (ptr_add q r) e' else Some (ptr_add q r, e'))"
        using n(1,4) less.prems(3) False by (simp add: EnsureSpaceFallback.simps [of ops p e] Let_def)
      show ?thesis
      proof (cases "0 \<le> r'")
        case True
        with n(5) have "nat r' < nat r" by simp
        from less.hyps [OF this _ ok n(4) True] obtain q2 e2 d where
          "EnsureSpaceFallback ops (ptr_add q r) e' = Some (q2, e2)" "e_step [] (ptr_add q r) e' q2 e2"
          "ptr_diff (end_ptr e2) q2 = Some d" "0 \<le> d" by blast
        with step True show ?thesis by (intro less.prems(1) [of q2 e2 d] eps_step_nil [OF n(3)]) simp_all
      next
        case False
        obtain x where "ptr_diff (ptr_add q r) (end_ptr e') = Some x" "ptr_diff (end_ptr e') (ptr_add q r) = Some (- x)" "x \<le> 16"
          by (rule eps_ok_room [OF ok])
        with step False n(3,4) show ?thesis by (intro less.prems(1) [of "ptr_add q r" e' "- r'"]) simp_all
      qed
    qed
  qed
qed

lemma EnsureSpace_spec:
  assumes "e_ok p e"
  obtains q e' d where "EnsureSpace ops p e = Some (q, e')" "e_step [] p e q e'" "ptr_diff (end_ptr e') q = Some d" "0 \<le> d"
proof -
  obtain r where r: "ptr_diff p (end_ptr e) = Some r" "ptr_diff (end_ptr e) p = Some (- r)" "r \<le> 16" by (rule eps_ok_room [OF assms])
  show thesis
  proof (cases "0 \<le> r")
    case True
    obtain q e' d where "EnsureSpaceFallback ops p e = Some (q, e')" "e_step [] p e q e'"
      "ptr_diff (end_ptr e') q = Some d" "0 \<le> d" by (rule EnsureSpaceFallback_spec [OF assms r(1) True])
    with r True show ?thesis by (intro that [of q e' d]) (simp_all add: EnsureSpace_def)
  next
    case False
    with r assms show ?thesis by (intro that [of p e "- r"]) (simp_all add: EnsureSpace_def eps_step_refl)
  qed
qed

section \<open>Appending\<close>

text \<open>
  A writer appends \<open>d\<close>: in every legal state it returns, and the bytes written are followed by \<open>d\<close>. Aliasing is
  enabled only for streams that allow it, which \<open>EnableAliasing\<close> guarantees.
\<close>

definition aliasing_ok :: "'s EpsCopyOutputStream \<Rightarrow> bool" where
  "aliasing_ok e \<longleftrightarrow> (aliasing_enabled e \<longrightarrow> (\<forall>s. ok s \<longrightarrow> AllowsAliasing ops s))"

definition appends :: "(pointer \<Rightarrow> 's EpsCopyOutputStream \<Rightarrow> (pointer \<times> 's EpsCopyOutputStream) option) \<Rightarrow> byte list \<Rightarrow> bool" where
  "appends f d \<longleftrightarrow> (\<forall>p e. e_ok p e \<longrightarrow> aliasing_ok e \<longrightarrow> (\<exists>q e'. f p e = Some (q, e') \<and> e_step d p e q e'))"

lemma appendsI:
  "(\<And>p e. e_ok p e \<Longrightarrow> aliasing_ok e \<Longrightarrow> \<exists>q e'. f p e = Some (q, e') \<and> e_step d p e q e') \<Longrightarrow> appends f d"
  by (simp add: appends_def)

lemma appendsE:
  assumes "appends f d" "e_ok p e" "aliasing_ok e"
  obtains q e' where "f p e = Some (q, e')" "e_step d p e q e'" "e_ok q e'" "aliasing_ok e'"
  using assms unfolding appends_def eps_step_def aliasing_ok_def by metis

lemma appends_seq:
  assumes "appends f d" "appends g d1"
  shows "appends (\<lambda>p e. do { (p, e) \<leftarrow> f p e; g p e }) (d @ d1)"
proof (rule appendsI)
  fix p e
  assume "e_ok p e" "aliasing_ok e"
  then obtain q e1 where f: "f p e = Some (q, e1)" "e_step d p e q e1" "e_ok q e1" "aliasing_ok e1" by (rule appendsE [OF assms(1)])
  obtain q2 e2 where g: "g q e1 = Some (q2, e2)" "e_step d1 q e1 q2 e2" by (rule appendsE [OF assms(2) f(3,4)])
  show "\<exists>q e'. (do { (p, e) \<leftarrow> f p e; g p e }) = Some (q, e') \<and> e_step (d @ d1) p e q e'"
    using f(1) g(1) eps_step_trans [OF f(2) g(2)] by simp
qed

lemma EnsureSpace_appends: "appends (EnsureSpace ops) []"
  by (rule appendsI) (metis EnsureSpace_spec)

lemma write_checked_appends:
  assumes "length d \<le> 16"
  shows "appends (write_checked ops d) d"
proof (rule appendsI)
  fix p e
  assume "e_ok p e"
  then obtain q e1 r where n: "EnsureSpace ops p e = Some (q, e1)" "e_step [] p e q e1" "ptr_diff (end_ptr e1) q = Some r" "0 \<le> r"
    by (rule EnsureSpace_spec)
  have room: "int (length d) \<le> r + 16" using assms n(4) by linarith
  obtain e2 where "put_bytes ops d q e1 = Some (ptr_add q (int (length d)), e2)" "e_step d q e1 (ptr_add q (int (length d))) e2"
    by (rule put_bytes_spec [OF eps_step_ok [OF n(2)] n(3) room])
  with n show "\<exists>q e'. write_checked ops d p e = Some (q, e') \<and> e_step d p e q e'"
    using eps_step_nil [OF n(2)] by (fastforce simp: write_checked_def)
qed

lemma WriteRawFallback_appends: "appends (WriteRawFallback ops d) d"
proof (rule appendsI)
  fix p e
  assume "e_ok p e"
  then show "\<exists>q e'. WriteRawFallback ops d p e = Some (q, e') \<and> e_step d p e q e'"
  proof (induction "2 * length d + (if ptr_diff p (end_ptr e) = Some 16 then 1 else 0)" arbitrary: d p e rule: less_induct)
    case less
    obtain r where r: "ptr_diff p (end_ptr e) = Some r" "ptr_diff (end_ptr e) p = Some (- r)" "r \<le> 16"
      by (rule eps_ok_room [OF less.prems])
    define k where "k = nat (16 - r)"
    have k: "int k = 16 - r" using r(3) by (simp add: k_def)
    have size: "GetSize p e = Some (int k)" using r(2) k by (simp add: GetSize_def kSlopBytes_def)
    show ?case
    proof (cases "k < length d")
      case False
      then have "int (length d) \<le> - r + 16" using k by linarith
      from put_bytes_spec [OF less.prems r(2) this] obtain e' where
        "put_bytes ops d p e = Some (ptr_add p (int (length d)), e')" "e_step d p e (ptr_add p (int (length d))) e'" by blast
      then show ?thesis using False size by (simp add: WriteRawFallback.simps [of ops d p e])
    next
      case True
      let ?d = "take k d" and ?p = "ptr_add p (int k)"
      have len: "length ?d = k" using True by simp
      have fits: "int (length ?d) \<le> - r + 16" using k len by linarith
      obtain e1 where put: "put_bytes ops ?d p e = Some (?p, e1)" "e_step ?d p e ?p e1" "end_ptr e1 = end_ptr e"
        "had_error e1 = had_error e" "ptr_diff (end_ptr e1) ?p = Some (- r - int k)"
        using put_bytes_spec [OF less.prems r(2) fits] unfolding len by blast
      obtain x where x: "ptr_diff ?p (end_ptr e1) = Some x" "ptr_diff (end_ptr e1) ?p = Some (- x)" "x \<le> 16"
        by (rule eps_ok_room [OF eps_step_ok [OF put(2)]])
      then have x16: "0 \<le> x" using put(5) k by simp
      obtain q e2 y where ens: "EnsureSpaceFallback ops ?p e1 = Some (q, e2)" "e_step [] ?p e1 q e2"
        "ptr_diff (end_ptr e2) q = Some y" "0 \<le> y" by (rule EnsureSpaceFallback_spec [OF eps_step_ok [OF put(2)] x(1) x16])
      obtain z where z: "ptr_diff q (end_ptr e2) = Some z" "ptr_diff (end_ptr e2) q = Some (- z)" "z \<le> 16"
        by (rule eps_ok_room [OF eps_step_ok [OF ens(2)]])
      then have "z \<noteq> 16" using ens(3,4) by auto
      then have "2 * length (drop k d) + (if ptr_diff q (end_ptr e2) = Some 16 then 1 else 0)
          < 2 * length d + (if ptr_diff p (end_ptr e) = Some 16 then 1 else 0)" using True k r(1) z(1) by auto
      from less.hyps [OF this eps_step_ok [OF ens(2)]] obtain q2 e3 where
        rest: "WriteRawFallback ops (drop k d) q e2 = Some (q2, e3)" "e_step (drop k d) q e2 q2 e3" by blast
      have "e_step (?d @ drop k d) p e q2 e3" by (rule eps_step_trans [OF put(2) eps_step_nil [OF ens(2) rest(2)]])
      moreover have "WriteRawFallback ops d p e = Some (q2, e3)"
        using True size put(1) ens(1) rest(1) by (simp add: WriteRawFallback.simps [of ops d p e])
      ultimately show ?thesis by simp
    qed
  qed
qed

lemma WriteRaw_appends: "appends (WriteRaw ops d) d"
proof (rule appendsI)
  fix p e
  assume ok: "e_ok p e" and al: "aliasing_ok e"
  obtain r where r: "ptr_diff p (end_ptr e) = Some r" "ptr_diff (end_ptr e) p = Some (- r)" "r \<le> 16" by (rule eps_ok_room [OF ok])
  show "\<exists>q e'. WriteRaw ops d p e = Some (q, e') \<and> e_step d p e q e'"
  proof (cases "- r < int (length d)")
    case True
    with r(2) show ?thesis using WriteRawFallback_appends [of d] ok al by (auto simp: WriteRaw_def appends_def)
  next
    case False
    then have "int (length d) \<le> - r + 16" by simp
    from put_bytes_spec [OF ok r(2) this] obtain e' where
      "put_bytes ops d p e = Some (ptr_add p (int (length d)), e')" "e_step d p e (ptr_add p (int (length d))) e'" by blast
    then show ?thesis using False r(2) by (simp add: WriteRaw_def)
  qed
qed

section \<open>Flushing\<close>

lemma flush_loop_spec:
  assumes "e_ok p e" "\<not> had_error e"
  obtains (failed) e' s where "flush_loop ops p e = Some (None, e')" "had_error e'" "end_ptr e' = Patch 16" "eps_stream e' = Some s"
      "ok s" "length (patch e') = 32" "aliasing_enabled e' = aliasing_enabled e"
  | (flushed) q e' r where "flush_loop ops p e = Some (Some q, e')" "\<not> had_error e'" "e_step [] p e q e'"
      "ptr_diff (end_ptr e') q = Some r" "buffer_end e' \<noteq> None \<longrightarrow> 0 \<le> r"
proof -
  obtain r where "ptr_diff p (end_ptr e) = Some r" "ptr_diff (end_ptr e) p = Some (- r)" "r \<le> 16" by (rule eps_ok_room [OF assms(1)])
  then show thesis using assms failed flushed
  proof (induction "nat r" arbitrary: p e r thesis rule: less_induct)
    case less
    show ?case
    proof (cases "buffer_end e = None \<or> r \<le> 0")
      case True
      with less.prems(1) have "flush_loop ops p e = Some (Some p, e)" by (auto simp: flush_loop.simps [of ops p e])
      then show ?thesis using True less.prems(2,4,5) by (intro less.prems(7) [of p e "- r"]) (auto simp: eps_step_refl)
    next
      case False
      then have pos: "0 < r" and b: "buffer_end e \<noteq> None" by auto
      then have r0: "0 \<le> r" by simp
      show ?thesis
      proof (rule Eps_Next_spec [OF less.prems(4,5,1) r0])
        fix e' s
        assume n: "Eps_Next ops e = Some (Patch 0, e')" "had_error e'" "end_ptr e' = Patch 16" "eps_stream e' = Some s"
          "ok s" "length (patch e') = 32" "aliasing_enabled e' = aliasing_enabled e" "r \<le> 16"
        then have "flush_loop ops p e = Some (None, e')" using pos b less.prems(1) by (simp add: flush_loop.simps [of ops p e])
        then show ?thesis using n by (intro less.prems(6) [of e' s])
      next
        fix q e' r'
        assume n: "Eps_Next ops e = Some (q, e')" "\<not> had_error e'" "e_step [] p e (ptr_add q r) e'"
          "ptr_diff (ptr_add q r) (end_ptr e') = Some r'" "r' < r"
        have step: "flush_loop ops p e = flush_loop ops (ptr_add q r) e'"
          unfolding flush_loop.simps [of ops p e] using pos b less.prems(1) n(1,2) by (simp del: not_None_eq)
        have a: "aliasing_enabled e' = aliasing_enabled e" using n(3) by (simp add: eps_step_def)
        note ok = eps_step_ok [OF n(3)]
        obtain x where "ptr_diff (ptr_add q r) (end_ptr e') = Some x" "ptr_diff (end_ptr e') (ptr_add q r) = Some (- x)" "x \<le> 16"
          by (rule eps_ok_room [OF ok])
        then have r': "ptr_diff (end_ptr e') (ptr_add q r) = Some (- r')" "r' \<le> 16" using n(4) by auto
        have lt: "nat r' < nat r" using n(5) pos by simp
        show ?thesis
        proof (rule less.hyps [OF lt n(4) r' ok n(2)])
          fix e2 s
          assume "flush_loop ops (ptr_add q r) e' = Some (None, e2)" "had_error e2" "end_ptr e2 = Patch 16" "eps_stream e2 = Some s"
            "ok s" "length (patch e2) = 32" "aliasing_enabled e2 = aliasing_enabled e'"
          then show ?thesis using step a by (intro less.prems(6) [of e2 s]) simp_all
        next
          fix q2 e2 r2
          assume f: "flush_loop ops (ptr_add q r) e' = Some (Some q2, e2)" "\<not> had_error e2" "e_step [] (ptr_add q r) e' q2 e2"
            "ptr_diff (end_ptr e2) q2 = Some r2" "buffer_end e2 \<noteq> None \<longrightarrow> 0 \<le> r2"
          then show ?thesis using step eps_step_nil [OF n(3) f(3)] by (intro less.prems(7) [of q2 e2 r2]) simp_all
        qed
      qed
    qed
  qed
qed

text \<open>What \<open>Flush\<close> leaves: \<open>n\<close> bytes of the last chunk, from \<open>b\<close> on, that are not written.\<close>

definition flushed :: "bool \<Rightarrow> byte list \<Rightarrow> nat \<Rightarrow> pointer \<Rightarrow> 's EpsCopyOutputStream \<Rightarrow> bool" where
  "flushed good w n b e \<longleftrightarrow> \<not> had_error e \<and> length (patch e) = 32 \<and> (\<exists>s. eps_stream e = Some s \<and> ok s \<and>
     (n = 0 \<or> (\<exists>a m. chunk s a m \<and> n \<le> m \<and> b = Chunk (int a + int m - int n))) \<and>
     (good \<longrightarrow> sound s \<and> n \<le> length (written s) \<and> w = take (length (written s) - n) (written s)))"

definition failed :: "'s EpsCopyOutputStream \<Rightarrow> bool" where
  "failed e \<longleftrightarrow> had_error e \<and> end_ptr e = Patch 16 \<and> length (patch e) = 32 \<and> (\<exists>s. eps_stream e = Some s \<and> ok s)"

lemma failed_ok: "failed e \<Longrightarrow> i \<le> 32 \<Longrightarrow> e_ok (Patch (int i)) e"
  by (auto simp: failed_def eps_ok_def)

lemma Eps_Flush_spec:
  assumes "e_ok p e" "\<not> had_error e"
  obtains (err) e' where "Eps_Flush ops p e = Some (0, e')" "failed e'" "aliasing_enabled e' = aliasing_enabled e"
  | (remaining) n e' b where "Eps_Flush ops p e = Some (int n, e')" "buffer_end e' = Some b" "flushed (e_good e) (e_written p e) n b e'"
      "aliasing_enabled e' = aliasing_enabled e"
proof (rule flush_loop_spec [OF assms])
  fix e' s
  assume "flush_loop ops p e = Some (None, e')" "had_error e'" "end_ptr e' = Patch 16" "eps_stream e' = Some s"
    "ok s" "length (patch e') = 32" "aliasing_enabled e' = aliasing_enabled e"
  then show thesis by (intro err [of e']) (simp_all add: Eps_Flush_def failed_def)
next
  fix q e1 r
  assume f: "flush_loop ops p e = Some (Some q, e1)" "\<not> had_error e1" "e_step [] p e q e1"
    "ptr_diff (end_ptr e1) q = Some r" "buffer_end e1 \<noteq> None \<longrightarrow> 0 \<le> r"
  have al: "aliasing_enabled e1 = aliasing_enabled e" and
    good: "e_good e \<Longrightarrow> sound (the (eps_stream e1))" "e_good e \<Longrightarrow> e_written q e1 = e_written p e"
    using f(2,3) by (simp_all add: eps_step_def eps_good_def)
  show thesis
  proof (cases rule: eps_okE [OF eps_step_ok [OF f(3)]])
    case 1
    with f(2) show thesis by simp
  next
    case (2 s a m i)
    let ?n = "a + m - i" and ?e = "e1\<lparr>buffer_end := Some (Chunk (int i))\<rparr>"
    have "Eps_Flush ops p e = Some (int ?n, ?e)"
      using f(1) 2 by (simp add: Eps_Flush_def kSlopBytes_def)
    moreover have "flushed (e_good e) (e_written p e) ?n (Chunk (int i)) ?e"
    proof -
      have "?n \<le> m" "Chunk (int i) = Chunk (int a + int m - int ?n)" using 2 by auto
      then have c: "\<exists>a' m'. chunk s a' m' \<and> ?n \<le> m' \<and> Chunk (int i) = Chunk (int a' + int m' - int ?n)" using 2(6) by blast
      have "sound s \<and> ?n \<le> length (written s) \<and> e_written p e = take (length (written s) - ?n) (written s)" if "e_good e"
      proof -
        have snd: "sound s" using good(1) [OF that] 2(2) by simp
        have n: "?n \<le> length (written s)" using chunk_written(1) [OF 2(3,6) snd] 2 by simp
        have "e_written p e = take (length (written s) - nat (int ?n)) (written s)"
          using good(2) [OF that] 2 by (simp add: eps_written_def Let_def)
        with snd n show ?thesis unfolding nat_int by blast
      qed
      with c show ?thesis using 2(1-4) unfolding flushed_def by (intro conjI exI [of _ s] disjI2) auto
    qed
    ultimately show thesis using al by (intro remaining [of ?n ?e "Chunk (int i)"]) simp_all
  next
    case (3 s b k i)
    have ik: "i \<le> k" using f(4,5) 3 by simp
    have i: "i \<le> length (patch e1)" using 3 ik by simp
    obtain s1 where s1: "read_mem ops (Patch 0) (int i) e1 = Some (take i (patch e1))"
      "write_mem ops b (take i (patch e1)) e1 = Some (e1\<lparr>eps_stream := Some s1\<rparr>)" "ok s1" "chunk s1 = chunk s" "sound s1 = sound s"
      "sound s \<longrightarrow> length (written s1) = length (written s) \<and> k \<le> length (written s) \<and>
        written s1 = overwrite (length (written s) - k) (take i (patch e1)) (written s)"
      by (rule copy_backE [OF 3(2,3) ik 3(10) i])
    let ?n = "k - i" and ?b = "ptr_add b (int i)"
    let ?e = "e1\<lparr>eps_stream := Some s1, buffer_end := Some ?b\<rparr>"
    have n: "int ?n = int k - int i" using ik by simp
    have "Eps_Flush ops p e = Some (int ?n, ?e)"
      using f(1) 3(5,6,7) s1(1,2) unfolding n by (simp add: Eps_Flush_def)
    moreover have "flushed (e_good e) (e_written p e) ?n ?b ?e"
    proof -
      have "\<exists>a m. chunk s a m \<and> ?n \<le> m \<and> ?b = Chunk (int a + int m - int ?n)" if "k \<noteq> 0"
      proof -
        from 3(10) that obtain a m where "chunk s a m" "k \<le> m" "b = Chunk (int a + int m - int k)" by blast
        then show ?thesis using ik unfolding n by (intro exI [of _ a] exI [of _ m]) simp
      qed
      then have c: "?n = 0 \<or> (\<exists>a m. chunk s1 a m \<and> ?n \<le> m \<and> ?b = Chunk (int a + int m - int ?n))" using s1(4) by (cases "k = 0") simp_all
      have "sound s1 \<and> ?n \<le> length (written s1) \<and> e_written p e = take (length (written s1) - ?n) (written s1)" if "e_good e"
      proof -
        have snd: "sound s" using good(1) [OF that] 3(2) by simp
        note w = s1(6) [rule_format, OF snd]
        have q: "length (written s1) - ?n = (length (written s) - k) + i" using w ik by simp
        have "take (length (written s1) - ?n) (written s1) = take (length (written s) - k) (written s) @ take i (patch e1)"
        proof -
          let ?q = "length (written s) - k" and ?d = "take i (patch e1)"
          have len: "length ?d = i" using i by simp
          have "written s1 = overwrite ?q ?d (written s)" using w by simp
          moreover have "take (?q + length ?d) (overwrite ?q ?d (written s)) = take ?q (written s) @ ?d" by (rule take_overwrite) simp
          ultimately show ?thesis unfolding q len by (simp only:)
        qed
        also have "\<dots> = e_written p e" using good(2) [OF that] 3 by (simp add: eps_written_def Let_def)
        finally have t: "e_written p e = take (length (written s1) - ?n) (written s1)" by (rule sym)
        have "sound s1" "?n \<le> length (written s1)" using s1(5) snd w by (simp, linarith)
        with t show ?thesis by blast
      qed
      with c show ?thesis using 3(1,4) s1(3) by (simp add: flushed_def)
    qed
    ultimately show thesis using al by (intro remaining [of ?n ?e ?b]) simp_all
  qed
qed

lemma SetInitialBuffer_spec:
  assumes "flushed good w n b e"
  obtains q e' where "SetInitialBuffer b (int n) e = (q, e')" "e_ok q e'" "\<not> had_error e'"
    "aliasing_enabled e' = aliasing_enabled e" "good \<longrightarrow> e_good e' \<and> e_written q e' = w"
proof -
  from assms obtain s where s: "\<not> had_error e" "length (patch e) = 32" "eps_stream e = Some s" "ok s"
    "n = 0 \<or> (\<exists>a m. chunk s a m \<and> n \<le> m \<and> b = Chunk (int a + int m - int n))"
    "good \<longrightarrow> sound s \<and> n \<le> length (written s) \<and> w = take (length (written s) - n) (written s)"
    unfolding flushed_def by blast
  show thesis
  proof (cases "16 < n")
    case True
    with s(5) obtain a m where c: "chunk s a m" "n \<le> m" "b = Chunk (int a + int m - int n)" by auto
    define i where "i = a + m - n"
    have b: "b = Chunk (int i)" "i + n = a + m" "a \<le> i" using c(2,3) by (simp_all add: i_def)
    let ?e = "e\<lparr>end_ptr := Chunk (int a + int m - 16), buffer_end := None\<rparr>"
    have "SetInitialBuffer b (int n) e = (b, ?e)" using True c(3) by (simp add: SetInitialBuffer_def kSlopBytes_def)
    moreover have "e_ok b ?e" unfolding b(1)
      using s(1-4) c True b by (intro eps_ok_direct [where s = s and a = a and n = m]) auto
    moreover have "e_written b ?e = take (length (written s) - n) (written s)"
      using c(3) s(3) by (simp add: eps_written_def Let_def)
    ultimately show thesis using s by (intro that [of b ?e]) (auto simp: eps_good_def)
  next
    case False
    let ?e = "e\<lparr>end_ptr := Patch (int n), buffer_end := Some b\<rparr>"
    have "SetInitialBuffer b (int n) e = (Patch 0, ?e)" using False by (simp add: SetInitialBuffer_def kSlopBytes_def)
    moreover have "e_ok (Patch (int 0)) ?e"
      using s(1-5) False by (intro eps_ok_patched [where s = s and k = n and b = b]) auto
    moreover have "e_written (Patch 0) ?e = take (length (written s) - n) (written s)"
      using s(3) by (simp add: eps_written_def Let_def)
    ultimately show thesis using s by (intro that [of "Patch 0" ?e]) (auto simp: eps_good_def)
  qed
qed

lemma FlushAndResetBuffer_appends: "appends (FlushAndResetBuffer ops) []"
proof (rule appendsI)
  fix p e
  assume ok: "e_ok p e"
  show "\<exists>q e'. FlushAndResetBuffer ops p e = Some (q, e') \<and> e_step [] p e q e'"
  proof (cases "had_error e")
    case True
    obtain d where "e_ok (Patch 0) e" "ptr_diff (end_ptr e) (Patch 0) = Some d" "0 \<le> d" by (rule eps_error_reset [OF ok True])
    with True show ?thesis by (auto simp: FlushAndResetBuffer_def eps_step_error)
  next
    case False
    show ?thesis
    proof (rule Eps_Flush_spec [OF ok False])
      fix e'
      assume f: "Eps_Flush ops p e = Some (0, e')" "failed e'" "aliasing_enabled e' = aliasing_enabled e"
      then show ?thesis using False failed_ok [OF f(2), of 0] by (auto simp: FlushAndResetBuffer_def failed_def intro: eps_step_error)
    next
      fix n e' b
      assume f: "Eps_Flush ops p e = Some (int n, e')" "buffer_end e' = Some b" "flushed (e_good e) (e_written p e) n b e'"
        "aliasing_enabled e' = aliasing_enabled e"
      obtain q e2 where "SetInitialBuffer b (int n) e' = (q, e2)" "e_ok q e2" "\<not> had_error e2"
        "aliasing_enabled e2 = aliasing_enabled e'" "e_good e \<longrightarrow> e_good e2 \<and> e_written q e2 = e_written p e"
        by (rule SetInitialBuffer_spec [OF f(3)])
      then show ?thesis using f False by (auto simp: FlushAndResetBuffer_def flushed_def eps_step_def)
    qed
  qed
qed

lemma Trim_spec:
  assumes "e_ok p e"
  obtains q e' where "Trim ops p e = Some (q, e')" "e_step [] p e q e'" "\<not> had_error e' \<longrightarrow> q = Patch 0 \<and> end_ptr e' = Patch 0"
proof (cases "had_error e")
  case True
  with assms show ?thesis by (intro that [of p e]) (simp_all add: Trim_def eps_step_refl)
next
  case False
  show ?thesis
  proof (rule Eps_Flush_spec [OF assms False])
    fix e'
    assume f: "Eps_Flush ops p e = Some (0, e')" "failed e'" "aliasing_enabled e' = aliasing_enabled e"
    let ?e = "e'\<lparr>buffer_end := Some (Patch 0), end_ptr := Patch 0\<rparr>"
    have "e_ok (Patch (int 0)) ?e" using f(2) by (auto simp: failed_def eps_ok_def)
    with f False show thesis by (intro that [of "Patch 0" ?e] eps_step_error) (auto simp: Trim_def failed_def)
  next
    fix n e' b
    assume f: "Eps_Flush ops p e = Some (int n, e')" "buffer_end e' = Some b" "flushed (e_good e) (e_written p e) n b e'"
      "aliasing_enabled e' = aliasing_enabled e"
    then obtain s where s: "\<not> had_error e'" "length (patch e') = 32" "eps_stream e' = Some s" "ok s"
      "n = 0 \<or> (\<exists>a m. chunk s a m \<and> n \<le> m \<and> b = Chunk (int a + int m - int n))"
      "e_good e \<longrightarrow> sound s \<and> n \<le> length (written s) \<and> e_written p e = take (length (written s) - n) (written s)"
      unfolding flushed_def by blast
    obtain s1 where s1: "(if n = 0 then Some e'
        else do { s \<leftarrow> eps_stream e'; s \<leftarrow> Output_BackUp ops (int n) s; Some (e'\<lparr>eps_stream := Some s\<rparr>) }) = Some (e'\<lparr>eps_stream := Some s1\<rparr>)"
      "ok s1" "e_good e \<longrightarrow> sound s1 \<and> written s1 = e_written p e"
    proof (cases "n = 0")
      case True
      with s show ?thesis by (intro that [of s]) (auto simp: eps_good_def)
    next
      case n: False
      with s(5) obtain a m where "chunk s a m" "n \<le> m" by blast
      from output_back_up [OF s(4) this(1) _ this(2)] n obtain s' where "Output_BackUp ops (int n) s = Some s'" "ok s'"
        "sound s \<longrightarrow> sound s' \<and> written s' = take (length (written s) - n) (written s)" by auto
      with n s show ?thesis by (intro that [of s']) auto
    qed
    let ?e = "e'\<lparr>eps_stream := Some s1, buffer_end := Some (Patch 0), end_ptr := Patch 0\<rparr>"
    have "Trim ops p e = Some (Patch 0, ?e)" using False f(1) by (simp add: Trim_def s1(1) del: Option.bind_assoc)
    moreover have "e_ok (Patch (int 0)) ?e"
      using s s1(2) by (intro eps_ok_patched [where s = s1 and k = 0 and b = "Patch 0"]) simp_all
    moreover have "e_written (Patch 0) ?e = written s1" by (simp add: eps_written_def)
    ultimately show thesis using s(1) s1(3) f(4) False
      by (intro that [of "Patch 0" ?e]) (auto simp: eps_step_def eps_good_def)
  qed
qed

lemma Trim_appends: "appends (Trim ops) []"
  by (rule appendsI) (metis Trim_spec)

lemma trimmed_written: "q = Patch 0 \<Longrightarrow> end_ptr e = Patch 0 \<Longrightarrow> e_written q e = written (the (eps_stream e))"
  by (simp add: eps_written_def)

section \<open>Writing around the buffer\<close>

lemma Eps_WriteAliasedRaw_step:
  assumes ok: "e_ok p e" and al: "aliasing_ok e" "aliasing_enabled e"
  obtains q e' where "Eps_WriteAliasedRaw ops d p e = Some (q, e')" "e_step d p e q e'"
proof -
  obtain r where r: "ptr_diff p (end_ptr e) = Some r" "ptr_diff (end_ptr e) p = Some (- r)" "r \<le> 16" by (rule eps_ok_room [OF ok])
  then have size: "GetSize p e = Some (16 - r)" by (simp add: GetSize_def kSlopBytes_def)
  show thesis
  proof (cases "int (length d) < 16 - r")
    case True
    obtain q e' where "WriteRaw ops d p e = Some (q, e')" "e_step d p e q e'" by (rule appendsE [OF WriteRaw_appends ok al(1)])
    with True size show ?thesis by (intro that) (simp_all add: Eps_WriteAliasedRaw_def)
  next
    case False
    obtain q e1 where t: "Trim ops p e = Some (q, e1)" "e_step [] p e q e1" "\<not> had_error e1 \<longrightarrow> q = Patch 0 \<and> end_ptr e1 = Patch 0"
      by (rule Trim_spec [OF ok])
    note ok1 = eps_step_ok [OF t(2)]
    from ok1 obtain s where s: "eps_stream e1 = Some s" "ok s" "length (patch e1) = 32" by (auto simp: eps_ok_def)
    have "AllowsAliasing ops s" using al s(2) by (simp add: aliasing_ok_def)
    from output_aliased [OF s(2) this, of d] obtain b s' where w: "WriteAliasedRaw ops d s = Some (b, s')" "ok s'"
      "b \<longrightarrow> sound s \<longrightarrow> sound s' \<and> written s' = written s @ d" by blast
    let ?e = "e1\<lparr>eps_stream := Some s'\<rparr>"
    have eq: "Eps_WriteAliasedRaw ops d p e = Some (if b then (q, ?e) else Eps_Error ?e)"
      using False size t(1) s(1) w(1) by (simp add: Eps_WriteAliasedRaw_def)
    have al1: "aliasing_enabled e1 = aliasing_enabled e" using t(2) by (simp add: eps_step_def)
    show ?thesis
    proof (cases "b \<and> \<not> had_error e1")
      case True
      then have "q = Patch 0" "end_ptr e1 = Patch 0" using t(3) by simp_all
      moreover from this have "e_ok (Patch (int 0)) ?e" using ok1 True s w(2) by (auto simp: eps_ok_def split: option.splits)
      moreover have "e_step d q e1 q ?e"
        using calculation w(3) True s(1) by (auto simp: eps_step_def eps_good_def eps_written_def)
      ultimately show ?thesis using eq True by (intro that [of q ?e] eps_step_nil [OF t(2)]) auto
    next
      case fail: False
      show ?thesis
      proof (cases b)
        case True
        with fail have err: "had_error e1" by simp
        then have "e_ok q ?e" using ok1 s w(2) by (auto simp: eps_ok_def)
        with eq True err al1 show ?thesis by (intro that [of q ?e] eps_step_error) simp_all
      next
        case False
        have "e_ok (Patch (int 0)) (snd (Eps_Error ?e))" using s w(2) by (simp add: eps_ok_def Eps_Error_def kSlopBytes_def)
        with eq False al1 show ?thesis
          by (intro that [of "Patch 0" "snd (Eps_Error ?e)"] eps_step_error) (simp_all add: Eps_Error_def)
      qed
    qed
  qed
qed

lemma WriteRawMaybeAliased_appends: "appends (WriteRawMaybeAliased ops d) d"
proof (rule appendsI)
  fix p e
  assume ok: "e_ok p e" "aliasing_ok e"
  show "\<exists>q e'. WriteRawMaybeAliased ops d p e = Some (q, e') \<and> e_step d p e q e'"
  proof (cases "aliasing_enabled e")
    case True
    then show ?thesis using Eps_WriteAliasedRaw_step [OF ok True] by (metis WriteRawMaybeAliased_def)
  next
    case False
    then show ?thesis using appendsE [OF WriteRaw_appends ok] by (metis WriteRawMaybeAliased_def)
  qed
qed

section \<open>Writing fields\<close>

text \<open>Two writes one after the other in the room that is there.\<close>

lemma put_put:
  assumes "e_ok p e" "ptr_diff (end_ptr e) p = Some r" "int (length d1 + length d2) \<le> r + 16"
  obtains q e' where "(do { (p, e) \<leftarrow> put_bytes ops d1 p e; put_bytes ops d2 p e }) = Some (q, e')" "e_step (d1 @ d2) p e q e'"
    "end_ptr e' = end_ptr e" "ptr_diff (end_ptr e') q = Some (r - int (length d1 + length d2))"
proof -
  have r1: "int (length d1) \<le> r + 16" using assms(3) by simp
  obtain e1 where 1: "put_bytes ops d1 p e = Some (ptr_add p (int (length d1)), e1)" "e_step d1 p e (ptr_add p (int (length d1))) e1"
    "end_ptr e1 = end_ptr e" "had_error e1 = had_error e" "ptr_diff (end_ptr e1) (ptr_add p (int (length d1))) = Some (r - int (length d1))"
    by (rule put_bytes_spec [OF assms(1,2) r1])
  have r2: "int (length d2) \<le> r - int (length d1) + 16" using assms(3) by simp
  let ?q = "ptr_add (ptr_add p (int (length d1))) (int (length d2))"
  obtain e2 where 2: "put_bytes ops d2 (ptr_add p (int (length d1))) e1 = Some (?q, e2)" "e_step d2 (ptr_add p (int (length d1))) e1 ?q e2"
    "end_ptr e2 = end_ptr e1" "had_error e2 = had_error e1" "ptr_diff (end_ptr e2) ?q = Some (r - int (length d1) - int (length d2))"
    by (rule put_bytes_spec [OF eps_step_ok [OF 1(2)] 1(5) r2])
  show thesis using 1 2 eps_step_trans [OF 1(2) 2(2)] by (intro that [of ?q e2]) simp_all
qed

lemma delim_appends: "appends (\<lambda>p e. do { (p, e) \<leftarrow> EnsureSpace ops p e; WriteLengthDelim ops num n p e }) (delim num n)"
proof (rule appendsI)
  fix p e
  assume "e_ok p e"
  then obtain q e1 r where s: "EnsureSpace ops p e = Some (q, e1)" "e_step [] p e q e1" "ptr_diff (end_ptr e1) q = Some r" "0 \<le> r"
    by (rule EnsureSpace_spec)
  have room: "int (length (UnsafeVarint (push_bit 3 num OR 2)) + length (UnsafeWriteSize n)) \<le> r + 16"
    using length_delim [of num n] s(4) by (simp add: delim_def)
  obtain q2 e2 where "(do { (p, e) \<leftarrow> put_bytes ops (UnsafeVarint (push_bit 3 num OR 2)) q e1; put_bytes ops (UnsafeWriteSize n) p e })
      = Some (q2, e2)" "e_step (UnsafeVarint (push_bit 3 num OR 2) @ UnsafeWriteSize n) q e1 q2 e2"
    by (rule put_put [OF eps_step_ok [OF s(2)] s(3) room])
  then show "\<exists>q e'. (do { (p, e) \<leftarrow> EnsureSpace ops p e; WriteLengthDelim ops num n p e }) = Some (q, e') \<and> e_step (delim num n) p e q e'"
    using s(1) eps_step_nil [OF s(2)] by (simp add: WriteLengthDelim_def Eps_WriteTag_def delim_def)
qed

lemma delim_seq:
  assumes "appends g d"
  shows "appends (\<lambda>p e. do { (p, e) \<leftarrow> EnsureSpace ops p e; (p, e) \<leftarrow> WriteLengthDelim ops num n p e; g p e }) (delim num n @ d)"
  using appends_seq [OF delim_appends assms] by (simp add: case_prod_beta' Option.bind_assoc)

lemma WriteStringOutline_appends: "appends (WriteStringOutline ops num s) (delim num (of_nat (length s)) @ s)"
  unfolding WriteStringOutline_def [abs_def] by (rule delim_seq [OF WriteRaw_appends])

lemma WriteStringMaybeAliasedOutline_appends:
  "appends (WriteStringMaybeAliasedOutline ops num s) (delim num (of_nat (length s)) @ s)"
  unfolding WriteStringMaybeAliasedOutline_def [abs_def] by (rule delim_seq [OF WriteRawMaybeAliased_appends])

lemma WriteFixedPacked_appends: "appends (WriteFixedPacked ops num r) (delim num (of_nat (length (concat r))) @ concat r)"
  unfolding WriteFixedPacked_def [abs_def] by (rule delim_seq [OF WriteRaw_appends])

lemma write_short_string_step:
  assumes "e_ok p e" "ptr_diff (end_ptr e) p = Some r" "length s < 128" "int (length s) \<le> r + 16 - TagSize (push_bit 3 num) - 1"
  obtains q e' where "write_short_string ops num s p e = Some (q, e')" "e_step (delim num (of_nat (length s)) @ s) p e q e'"
proof -
  let ?t = "UnsafeVarint (push_bit 3 num OR 2)" and ?l = "[of_nat (length s)] :: byte list"
  have r1: "int (length ?t + length ?l) \<le> r + 16" using assms(4) by (simp add: TagSize_length)
  obtain q e1 where 1: "(do { (p, e) \<leftarrow> put_bytes ops ?t p e; put_bytes ops ?l p e }) = Some (q, e1)" "e_step (?t @ ?l) p e q e1"
    "end_ptr e1 = end_ptr e" "ptr_diff (end_ptr e1) q = Some (r - int (length ?t + length ?l))"
    by (rule put_put [OF assms(1,2) r1])
  have r2: "int (length s) \<le> r - int (length ?t + length ?l) + 16" using assms(4) by (simp add: TagSize_length)
  from put_bytes_spec [OF eps_step_ok [OF 1(2)] 1(4) r2] obtain e2 where
    2: "put_bytes ops s q e1 = Some (ptr_add q (int (length s)), e2)" "e_step s q e1 (ptr_add q (int (length s))) e2" by blast
  have "write_short_string ops num s p e = (do { (p, e) \<leftarrow> put_bytes ops ?t p e; put_bytes ops ?l p e }) \<bind> (\<lambda>(p, e). put_bytes ops s p e)"
    unfolding write_short_string_def by (simp add: case_prod_beta' Option.bind_assoc)
  then show thesis using 1(1) 2(1) eps_step_trans [OF 1(2) 2(2)] short_delim [OF assms(3), of num]
    by (intro that [of "ptr_add q (int (length s))" e2]) simp_all
qed

lemma string_appends:
  assumes "appends outline (delim num (of_nat (length s)) @ s)"
  shows "appends (\<lambda>p e. do {
      d \<leftarrow> ptr_diff (end_ptr e) p;
      if length s \<ge> 128 \<or> d + 16 - TagSize (push_bit 3 num) - 1 < int (length s) then outline p e
      else write_short_string ops num s p e }) (delim num (of_nat (length s)) @ s)" (is "appends ?f ?d")
proof (rule appendsI)
  fix p e
  assume ok: "e_ok p e" "aliasing_ok e"
  obtain r where r: "ptr_diff p (end_ptr e) = Some r" "ptr_diff (end_ptr e) p = Some (- r)" "r \<le> 16" by (rule eps_ok_room [OF ok(1)])
  show "\<exists>q e'. ?f p e = Some (q, e') \<and> e_step ?d p e q e'"
  proof (cases "length s \<ge> 128 \<or> - r + 16 - TagSize (push_bit 3 num) - 1 < int (length s)")
    case True
    obtain q e' where "outline p e = Some (q, e')" "e_step ?d p e q e'" by (rule appendsE [OF assms ok])
    with r True show ?thesis by auto
  next
    case False
    then have "length s < 128" "int (length s) \<le> - r + 16 - TagSize (push_bit 3 num) - 1" by auto
    from write_short_string_step [OF ok(1) r(2) this] obtain q e' where "write_short_string ops num s p e = Some (q, e')"
      "e_step ?d p e q e'" by blast
    with r False show ?thesis by auto
  qed
qed

lemma Eps_WriteString_appends: "appends (Eps_WriteString ops num s) (delim num (of_nat (length s)) @ s)"
  unfolding Eps_WriteString_def [abs_def] by (rule string_appends [OF WriteStringOutline_appends])

lemma WriteStringMaybeAliased_appends: "appends (WriteStringMaybeAliased ops num s) (delim num (of_nat (length s)) @ s)"
  unfolding WriteStringMaybeAliased_def [abs_def] by (rule string_appends [OF WriteStringMaybeAliasedOutline_appends])

lemma packed_loop_appends:
  assumes "\<And>v. length (encode v) \<le> 16" "vs \<noteq> []"
  shows "appends (packed_loop ops encode vs) (concat (map encode vs))"
  using assms(2)
proof (induction vs)
  case (Cons v vs)
  note first = write_checked_appends [OF assms(1) [of v]]
  have step: "packed_loop ops encode (v # vs) = (\<lambda>p e. do { (p, e) \<leftarrow> write_checked ops (encode v) p e;
      if vs = [] then Some (p, e) else packed_loop ops encode vs p e })"
    by (intro ext) (simp add: write_checked_def case_prod_beta' Option.bind_assoc)
  show ?case
  proof (cases "vs = []")
    case True
    have "appends (\<lambda>p e. Some (p, e)) []" by (rule appendsI) (simp add: eps_step_refl)
    from appends_seq [OF first this] show ?thesis unfolding step using True by simp
  next
    case False
    from appends_seq [OF first Cons.IH [OF False]] show ?thesis unfolding step using False by simp
  qed
qed simp

lemma WriteVarintPacked_appends:
  assumes "\<And>v. length (encode v) \<le> 16" "vs \<noteq> []"
  shows "appends (WriteVarintPacked ops encode num vs n) (delim num n @ concat (map encode vs))"
  unfolding WriteVarintPacked_def [abs_def] by (rule delim_seq [OF packed_loop_appends [OF assms]])

section \<open>Exposing the buffer\<close>

lemma flushed_advance:
  assumes "flushed good w n b e" "k \<le> n"
  obtains d where "length d = k" "flushed good (w @ d) (n - k) (ptr_add b (int k)) e"
proof -
  from assms(1) obtain s where s: "\<not> had_error e" "length (patch e) = 32" "eps_stream e = Some s" "ok s"
    "n = 0 \<or> (\<exists>a m. chunk s a m \<and> n \<le> m \<and> b = Chunk (int a + int m - int n))"
    "good \<longrightarrow> sound s \<and> n \<le> length (written s) \<and> w = take (length (written s) - n) (written s)"
    unfolding flushed_def by blast
  have c: "n - k = 0 \<or> (\<exists>a m. chunk s a m \<and> n - k \<le> m \<and> ptr_add b (int k) = Chunk (int a + int m - int (n - k)))"
  proof (cases "n = 0")
    case False
    with s(5) obtain a m where "chunk s a m" "n \<le> m" "b = Chunk (int a + int m - int n)" by blast
    then show ?thesis using assms(2) by (intro disjI2 exI [of _ a] exI [of _ m]) (simp add: of_nat_diff)
  qed simp
  define d where "d = (if good then bytes_at (length (written s) - n) k (written s) else replicate k 0)"
  have "length d = k" using s(6) assms(2) by (simp add: d_def)
  moreover have "w @ d = take (length (written s) - (n - k)) (written s)" if good
  proof -
    have q: "length (written s) - (n - k) = (length (written s) - n) + k" using s(6) that assms(2) by simp
    have "w = take (length (written s) - n) (written s)" "d = take k (drop (length (written s) - n) (written s))"
      using s(6) that by (simp_all add: d_def bytes_at_def)
    then show ?thesis unfolding q take_add by (simp only:)
  qed
  ultimately show thesis using s c assms(2) by (intro that [of d]) (auto simp: flushed_def)
qed

lemma next_flushed:
  assumes "flushed good w n b e"
  obtains (err) s s' where "eps_stream e = Some s" "Output_Next ops s = Some (None, s')" "failed (snd (Eps_Error (e\<lparr>eps_stream := Some s'\<rparr>)))"
  | (more) s a m s' d where "eps_stream e = Some s" "Output_Next ops s = Some (Some (a, m), s')" "length d = n"
      "flushed good (w @ d) m (Chunk (int a)) (e\<lparr>eps_stream := Some s'\<rparr>)" "m = 0 \<longrightarrow> idle s' < idle s"
proof -
  obtain d where d: "length d = n" "flushed good (w @ d) 0 (ptr_add b (int n)) e"
    using flushed_advance [OF assms order_refl] unfolding diff_self_eq_0 by blast
  then obtain s where s: "\<not> had_error e" "length (patch e) = 32" "eps_stream e = Some s" "ok s" "good \<longrightarrow> sound s \<and> w @ d = written s"
    unfolding flushed_def by auto
  show thesis
  proof (rule output_nextE [OF s(4)])
    fix s'
    assume "Output_Next ops s = Some (None, s')" "ok s'"
    with s show thesis by (intro err [of s s']) (simp_all add: failed_def Eps_Error_def kSlopBytes_def)
  next
    fix a m s'
    assume n: "Output_Next ops s = Some (Some (a, m), s')" "ok s'" "chunk s' a m" "m = 0 \<longrightarrow> idle s' < idle s"
      "sound s \<longrightarrow> sound s' \<and> (\<exists>fresh. written s' = written s @ fresh \<and> length fresh = m)"
    have "\<exists>a' m'. chunk s' a' m' \<and> m \<le> m' \<and> Chunk (int a) = Chunk (int a' + int m' - int m)"
      using n(3) by (intro exI [of _ a] exI [of _ m]) simp
    then have "flushed good (w @ d) m (Chunk (int a)) (e\<lparr>eps_stream := Some s'\<rparr>)"
      using s n(2,5) by (auto simp: flushed_def)
    with s(3) n d(1) show thesis by (intro more [of s a m s' d])
  qed
qed

lemma flushed_SetInitialBuffer:
  assumes "SetInitialBuffer x m e = (q, e')"
  shows "flushed good w n b e' = flushed good w n b e"
proof -
  have "had_error e' = had_error e" "patch e' = patch e" "eps_stream e' = eps_stream e"
    using assms by (auto simp: SetInitialBuffer_def split: if_splits)
  then show ?thesis by (simp only: flushed_def)
qed

lemma eps_skip_loop_spec:
  assumes "flushed good w n b e"
  shows "\<exists>r q e'. eps_skip_loop ops (int count) b (int n) e = Some (r, q, e') \<and> aliasing_enabled e' = aliasing_enabled e \<and>
    (if r then e_ok q e' \<and> \<not> had_error e' \<and> (\<exists>d. length d = count \<and> (good \<longrightarrow> e_good e' \<and> e_written q e' = w @ d))
     else q = Patch 0 \<and> failed e')"
  using assms
proof (induction "(count, if n = 0 then Suc (idle (the (eps_stream e))) else 0)" arbitrary: count n b e w
    rule: wf_induct_rule [OF wf_lex_prod [OF wf_less_than wf_less_than]])
  case 1
  note IH = 1(1) and fl = 1(2)
  show ?case
  proof (cases "count \<le> n")
    case True
    obtain d where d: "length d = count" "flushed good (w @ d) (n - count) (ptr_add b (int count)) e"
      by (rule flushed_advance [OF fl True])
    obtain q e' where "SetInitialBuffer (ptr_add b (int count)) (int (n - count)) e = (q, e')" "e_ok q e'" "\<not> had_error e'"
      "aliasing_enabled e' = aliasing_enabled e" "good \<longrightarrow> e_good e' \<and> e_written q e' = w @ d"
      by (rule SetInitialBuffer_spec [OF d(2)])
    with True d(1) show ?thesis by (auto simp: eps_skip_loop.simps [of ops "int count"] of_nat_diff)
  next
    case False
    then have gt: "int n < int count" by simp
    show ?thesis
    proof (rule next_flushed [OF fl])
      fix s s'
      assume "eps_stream e = Some s" "Output_Next ops s = Some (None, s')" "failed (snd (Eps_Error (e\<lparr>eps_stream := Some s'\<rparr>)))"
      then show ?thesis using gt
        by (intro exI [of _ False] exI [of _ "Patch 0"] exI [of _ "snd (Eps_Error (e\<lparr>eps_stream := Some s'\<rparr>))"])
          (simp add: eps_skip_loop.simps [of ops "int count"] Eps_Error_def)
    next
      fix s a m s' d
      assume n: "eps_stream e = Some s" "Output_Next ops s = Some (Some (a, m), s')" "length d = n"
        "flushed good (w @ d) m (Chunk (int a)) (e\<lparr>eps_stream := Some s'\<rparr>)" "m = 0 \<longrightarrow> idle s' < idle s"
      let ?e = "e\<lparr>eps_stream := Some s'\<rparr>"
      have step: "eps_skip_loop ops (int count) b (int n) e = eps_skip_loop ops (int (count - n)) (Chunk (int a)) (int m) ?e"
        using n(1,2) gt by (simp add: eps_skip_loop.simps [of ops "int count"] of_nat_diff)
      have "((count - n, if m = 0 then Suc (idle (the (eps_stream ?e))) else 0), count, if n = 0 then Suc (idle (the (eps_stream e))) else 0)
          \<in> less_than <*lex*> less_than" using n(1,5) gt by auto
      from IH [OF this n(4)] obtain r q e' where r: "eps_skip_loop ops (int (count - n)) (Chunk (int a)) (int m) ?e = Some (r, q, e')"
        "aliasing_enabled e' = aliasing_enabled e"
        "if r then e_ok q e' \<and> \<not> had_error e' \<and> (\<exists>d'. length d' = count - n \<and> (good \<longrightarrow> e_good e' \<and> e_written q e' = (w @ d) @ d'))
         else q = Patch 0 \<and> failed e'" by auto
      have "\<exists>d. length d = count \<and> (good \<longrightarrow> e_good e' \<and> e_written q e' = w @ d)" if r
      proof -
        from r(3) that obtain d' where "length d' = count - n" "good \<longrightarrow> e_good e' \<and> e_written q e' = (w @ d) @ d'" by auto
        then show ?thesis using n(3) gt by (intro exI [of _ "d @ d'"]) simp
      qed
      then show ?thesis using step r by (intro exI [of _ r] exI [of _ q] exI [of _ e']) auto
    qed
  qed
qed

text \<open>\<open>Skip\<close> adds \<open>count\<close> bytes of whatever the chunks held; it fails only on a negative count or an error.\<close>

lemma failed_step: "failed e' \<Longrightarrow> aliasing_enabled e' = aliasing_enabled e \<Longrightarrow> e_step d p e (Patch 0) e'"
  using failed_ok [of e' 0] by (intro eps_step_error) (simp_all add: failed_def)

lemma Eps_Skip_spec:
  assumes ok: "e_ok p e"
  obtains (skipped) q e' d where "Eps_Skip ops count p e = Some (True, q, e')" "0 \<le> count" "int (length d) = count" "e_step d p e q e'"
      "\<not> had_error e'"
  | (refused) q e' where "Eps_Skip ops count p e = Some (False, q, e')" "e_step [] p e q e'" "count < 0 \<or> had_error e'"
proof (cases "count < 0 \<or> had_error e")
  case True
  show thesis
  proof (cases "count < 0")
    case True
    with ok show thesis by (intro refused [of p e]) (simp_all add: Eps_Skip_def eps_step_refl)
  next
    case False
    with \<open>count < 0 \<or> had_error e\<close> have err: "had_error e" by simp
    obtain d where "e_ok (Patch 0) e" "ptr_diff (end_ptr e) (Patch 0) = Some d" "0 \<le> d" by (rule eps_error_reset [OF ok err])
    with False err show thesis by (intro refused [of "Patch 0" e] eps_step_error) (simp_all add: Eps_Skip_def)
  qed
next
  case False
  then have e: "\<not> had_error e" and c: "int (nat count) = count" by simp_all
  show thesis
  proof (rule Eps_Flush_spec [OF ok e])
    fix e'
    assume "Eps_Flush ops p e = Some (0, e')" "failed e'" "aliasing_enabled e' = aliasing_enabled e"
    then show thesis using False by (intro refused [of "Patch 0" e'] failed_step) (simp_all add: Eps_Skip_def failed_def)
  next
    fix n e1 b
    assume f: "Eps_Flush ops p e = Some (int n, e1)" "buffer_end e1 = Some b" "flushed (e_good e) (e_written p e) n b e1"
      "aliasing_enabled e1 = aliasing_enabled e"
    have ne: "\<not> had_error e1" using f(3) by (simp add: flushed_def)
    from eps_skip_loop_spec [OF f(3), of "nat count"] obtain r q e' where
      r: "eps_skip_loop ops count b (int n) e1 = Some (r, q, e')" "aliasing_enabled e' = aliasing_enabled e1"
      "if r then e_ok q e' \<and> \<not> had_error e' \<and> (\<exists>d. length d = nat count \<and> (e_good e \<longrightarrow> e_good e' \<and> e_written q e' = e_written p e @ d))
       else q = Patch 0 \<and> failed e'" unfolding c by blast
    have eq: "Eps_Skip ops count p e = Some (r, q, e')" using False f(1,2) r(1) ne by (simp add: Eps_Skip_def)
    show thesis
    proof (cases r)
      case True
      with r(3) obtain d where d: "e_ok q e'" "\<not> had_error e'" "length d = nat count"
        "e_good e \<longrightarrow> e_good e' \<and> e_written q e' = e_written p e @ d" by auto
      then have "e_step d p e q e'" using e r(2) f(4) by (simp add: eps_step_def)
      with eq True d c \<open>\<not> (count < 0 \<or> had_error e)\<close> show thesis by (intro skipped [of q e' d]) simp_all
    next
      case False
      then show thesis using eq r(2,3) f(4) by (intro refused [of q e']) (simp_all add: failed_step failed_def)
    qed
  qed
qed

lemma direct_loop_spec:
  assumes "flushed good w n b e"
  shows "\<exists>r q e'. direct_loop ops b (int n) e = Some (r, q, e') \<and> aliasing_enabled e' = aliasing_enabled e \<and>
    (case r of None \<Rightarrow> q = Patch 0 \<and> failed e'
     | Some (x, m) \<Rightarrow> 0 < m \<and> flushed good w (nat m) x e' \<and> e_ok q e' \<and> \<not> had_error e' \<and> (good \<longrightarrow> e_good e' \<and> e_written q e' = w))"
  using assms
proof (induction "idle (the (eps_stream e))" arbitrary: n b e rule: less_induct)
  case less
  show ?case
  proof (cases "n = 0")
    case False
    obtain q e' where q: "SetInitialBuffer b (int n) e = (q, e')" "e_ok q e'" "\<not> had_error e'"
      "aliasing_enabled e' = aliasing_enabled e" "good \<longrightarrow> e_good e' \<and> e_written q e' = w"
      by (rule SetInitialBuffer_spec [OF less.prems])
    moreover have "flushed good w n b e'" using less.prems flushed_SetInitialBuffer [OF q(1)] by simp
    ultimately show ?thesis using False by (simp add: direct_loop.simps [of ops b])
  next
    case True
    show ?thesis
    proof (rule next_flushed [OF less.prems])
      fix s s'
      assume "eps_stream e = Some s" "Output_Next ops s = Some (None, s')" "failed (snd (Eps_Error (e\<lparr>eps_stream := Some s'\<rparr>)))"
      then show ?thesis using True by (simp add: direct_loop.simps [of ops b] Eps_Error_def)
    next
      fix s a m s' d
      assume n: "eps_stream e = Some s" "Output_Next ops s = Some (Some (a, m), s')" "length d = n"
        "flushed good (w @ d) m (Chunk (int a)) (e\<lparr>eps_stream := Some s'\<rparr>)" "m = 0 \<longrightarrow> idle s' < idle s"
      let ?e = "e\<lparr>eps_stream := Some s'\<rparr>"
      have fl: "flushed good w m (Chunk (int a)) ?e" using n(3,4) True by simp
      have step: "direct_loop ops b (int n) e = direct_loop ops (Chunk (int a)) (int m) ?e"
        using n(1,2) True by (simp add: direct_loop.simps [of ops b])
      show ?thesis
      proof (cases "m = 0")
        case True
        then have "idle (the (eps_stream ?e)) < idle (the (eps_stream e))" using n(1,5) by simp
        from less.hyps [OF this fl] show ?thesis unfolding step by simp
      next
        case False
        obtain q e' where q: "SetInitialBuffer (Chunk (int a)) (int m) ?e = (q, e')" "e_ok q e'" "\<not> had_error e'"
          "aliasing_enabled e' = aliasing_enabled ?e" "good \<longrightarrow> e_good e' \<and> e_written q e' = w"
          by (rule SetInitialBuffer_spec [OF fl])
        moreover have "flushed good w m (Chunk (int a)) e'" using fl flushed_SetInitialBuffer [OF q(1)] by simp
        ultimately show ?thesis unfolding step using False by (simp add: direct_loop.simps [of ops "Chunk (int a)"])
      qed
    qed
  qed
qed

text \<open>The direct buffer is not empty, and is what a \<open>Skip\<close> then consumes: nothing is written yet.\<close>

lemma Eps_GetDirectBufferPointer_spec:
  assumes ok: "e_ok p e"
  obtains (buffer) x m q e' where "Eps_GetDirectBufferPointer ops p e = Some (Some (x, m), q, e')" "0 < m" "e_step [] p e q e'"
      "\<not> had_error e'" "flushed (e_good e) (e_written p e) (nat m) x e'"
  | (none) q e' where "Eps_GetDirectBufferPointer ops p e = Some (None, q, e')" "e_step [] p e q e'" "had_error e'"
proof (cases "had_error e")
  case True
  obtain d where "e_ok (Patch 0) e" "ptr_diff (end_ptr e) (Patch 0) = Some d" "0 \<le> d" by (rule eps_error_reset [OF ok True])
  with True show thesis by (intro none [of "Patch 0" e] eps_step_error) (simp_all add: Eps_GetDirectBufferPointer_def)
next
  case e: False
  show thesis
  proof (rule Eps_Flush_spec [OF ok e])
    fix e'
    assume "Eps_Flush ops p e = Some (0, e')" "failed e'" "aliasing_enabled e' = aliasing_enabled e"
    then show thesis using e by (intro none [of "Patch 0" e'] failed_step) (simp_all add: Eps_GetDirectBufferPointer_def failed_def)
  next
    fix n e1 b
    assume f: "Eps_Flush ops p e = Some (int n, e1)" "buffer_end e1 = Some b" "flushed (e_good e) (e_written p e) n b e1"
      "aliasing_enabled e1 = aliasing_enabled e"
    have ne: "\<not> had_error e1" using f(3) by (simp add: flushed_def)
    from direct_loop_spec [OF f(3)] obtain r q e' where
      r: "direct_loop ops b (int n) e1 = Some (r, q, e')" "aliasing_enabled e' = aliasing_enabled e1"
      "case r of None \<Rightarrow> q = Patch 0 \<and> failed e'
       | Some (x, m) \<Rightarrow> 0 < m \<and> flushed (e_good e) (e_written p e) (nat m) x e' \<and> e_ok q e' \<and> \<not> had_error e' \<and>
           (e_good e \<longrightarrow> e_good e' \<and> e_written q e' = e_written p e)" by blast
    have eq: "Eps_GetDirectBufferPointer ops p e = Some (r, q, e')"
      using e f(1,2) r(1) ne by (simp add: Eps_GetDirectBufferPointer_def)
    show thesis
    proof (cases r)
      case None
      then show thesis using eq r(2,3) f(4) by (intro none [of q e']) (simp_all add: failed_step failed_def)
    next
      case (Some xm)
      obtain x m where "xm = (x, m)" by (cases xm)
      with Some eq r(2,3) f(4) e show thesis by (intro buffer [of x m q e']) (simp_all add: eps_step_def)
    qed
  qed
qed

lemma Eps_GetDirectBufferForNBytes_spec:
  assumes ok: "e_ok p e" and m: "0 \<le> m"
  obtains (advanced) x q e' d where "Eps_GetDirectBufferForNBytesAndAdvance ops m p e = Some (Some x, q, e')" "int (length d) = m"
      "e_step d p e q e'" "\<not> had_error e'"
  | (none) q e' where "Eps_GetDirectBufferForNBytesAndAdvance ops m p e = Some (None, q, e')" "e_step [] p e q e'"
proof (cases "had_error e")
  case True
  obtain d where "e_ok (Patch 0) e" "ptr_diff (end_ptr e) (Patch 0) = Some d" "0 \<le> d" by (rule eps_error_reset [OF ok True])
  with True show thesis by (intro none [of "Patch 0" e] eps_step_error) (simp_all add: Eps_GetDirectBufferForNBytesAndAdvance_def)
next
  case e: False
  show thesis
  proof (rule Eps_Flush_spec [OF ok e])
    fix e'
    assume "Eps_Flush ops p e = Some (0, e')" "failed e'" "aliasing_enabled e' = aliasing_enabled e"
    then show thesis using e
      by (intro none [of "Patch 0" e'] failed_step) (simp_all add: Eps_GetDirectBufferForNBytesAndAdvance_def failed_def)
  next
    fix n e1 b
    assume f: "Eps_Flush ops p e = Some (int n, e1)" "buffer_end e1 = Some b" "flushed (e_good e) (e_written p e) n b e1"
      "aliasing_enabled e1 = aliasing_enabled e"
    have ne: "\<not> had_error e1" using f(3) by (simp add: flushed_def)
    show thesis
    proof (cases "m \<le> int n")
      case True
      then have k: "nat m \<le> n" "int (nat m) = m" "int (n - nat m) = int n - m" using m by simp_all
      obtain d where d: "length d = nat m" "flushed (e_good e) (e_written p e @ d) (n - nat m) (ptr_add b (int (nat m))) e1"
        by (rule flushed_advance [OF f(3) k(1)])
      obtain q e' where q: "SetInitialBuffer (ptr_add b (int (nat m))) (int (n - nat m)) e1 = (q, e')" "e_ok q e'" "\<not> had_error e'"
        "aliasing_enabled e' = aliasing_enabled e1" "e_good e \<longrightarrow> e_good e' \<and> e_written q e' = e_written p e @ d"
        by (rule SetInitialBuffer_spec [OF d(2)])
      have "Eps_GetDirectBufferForNBytesAndAdvance ops m p e = Some (Some b, q, e')"
        using e f(1,2) ne True q(1) unfolding k(2,3) by (simp add: Eps_GetDirectBufferForNBytesAndAdvance_def)
      with d(1) q f(4) e k show thesis by (intro advanced [of b q e' d]) (simp_all add: eps_step_def)
    next
      case False
      obtain q e' where q: "SetInitialBuffer b (int n) e1 = (q, e')" "e_ok q e'" "\<not> had_error e'"
        "aliasing_enabled e' = aliasing_enabled e1" "e_good e \<longrightarrow> e_good e' \<and> e_written q e' = e_written p e"
        by (rule SetInitialBuffer_spec [OF f(3)])
      have "Eps_GetDirectBufferForNBytesAndAdvance ops m p e = Some (None, q, e')"
        using e f(1,2) ne False q(1) by (simp add: Eps_GetDirectBufferForNBytesAndAdvance_def)
      with q f(4) e show thesis by (intro none [of q e']) (simp_all add: eps_step_def)
    qed
  qed
qed

section \<open>Counting and constructing\<close>

lemma Eps_ByteCount_spec:
  assumes ok: "e_ok p e" and good: "e_good e"
  shows "Eps_ByteCount ops p e = Some (int (length (e_written p e)))"
proof (cases rule: eps_okE [OF ok])
  case 1
  with good show ?thesis by (simp add: eps_good_def)
next
  case (2 s a n i)
  have snd: "sound s" using good 2(2) by (simp add: eps_good_def)
  have n: "n \<le> length (written s)" by (rule chunk_written(1) [OF 2(3,6) snd])
  have "length (e_written p e) = length (written s) - nat (int a + int n - int i)"
    using 2(2,8,9) by (simp add: eps_written_def Let_def)
  moreover have "nat (int a + int n - int i) \<le> length (written s)" "int i \<le> int a + int n" using n 2(10,11) by linarith+
  ultimately show ?thesis using output_count [OF 2(3) snd] 2(2,5,8,9) by (simp add: Eps_ByteCount_def kSlopBytes_def)
next
  case (3 s b k i)
  have snd: "sound s" using good 3(2) by (simp add: eps_good_def)
  have k: "k \<le> length (written s)"
  proof (cases "k = 0")
    case False
    with 3(10) obtain a n where "chunk s a n" "k \<le> n" by blast
    with chunk_written(1) [OF 3(3) _ snd] show ?thesis by fastforce
  qed simp
  have "length (e_written p e) = length (written s) - k + i" using 3 by (simp add: eps_written_def Let_def)
  with k show ?thesis using output_count [OF 3(3) snd] 3(2,5,6,7) by (simp add: Eps_ByteCount_def)
qed

lemma EpsCopyOutputStream_ok:
  assumes "ok s" "length m = 32" "EpsCopyOutputStream m s det = (p, e)"
  shows "e_ok p e" "\<not> had_error e" "\<not> aliasing_enabled e" "e_good e = sound s" "e_written p e = written s" "eps_stream e = Some s"
proof -
  have p: "p = Patch (int 0)" using assms(3) by (simp add: EpsCopyOutputStream_def)
  show "e_ok p e" unfolding p
    using assms by (intro eps_ok_patched [where s = s and k = 0 and b = "Patch 0"]) (auto simp: EpsCopyOutputStream_def)
qed (use assms in \<open>auto simp: EpsCopyOutputStream_def eps_good_def eps_written_def Let_def\<close>)

end

end
