(* ===== verification/Coded_Input_Correct.thy ===== *)
theory Coded_Input_Correct
  imports Coded_Input
begin

text \<open>
  \<open>CodedInputStream\<close> is correct over every stream that keeps the contract \<open>zero_copy_input\<close>. The abstract value of
  a coded stream is its view: the bytes up to the nearest limit, however they are cut into chunks.
  Each operation returns a function of the view and moves along it (\<open>moved\<close>), and keeps the
  invariant \<open>coded_ok\<close> of the state, from which no operation fails a check or reads outside its buffer.
\<close>

section \<open>Invariant and view\<close>

definition future :: "('s \<Rightarrow> byte list) \<Rightarrow> ('s \<Rightarrow> byte list) \<Rightarrow> 's CodedInputStream \<Rightarrow> byte list" where
  "future rest given c =
     (case coded_input c of None \<Rightarrow> []
      | Some s \<Rightarrow> drop (length (given s) - nat (overflow_bytes c)) (given s) @ rest s)"

definition unread :: "('s \<Rightarrow> byte list) \<Rightarrow> ('s \<Rightarrow> byte list) \<Rightarrow> 's CodedInputStream \<Rightarrow> byte list" where
  "unread rest given c = buffer c @ future rest given c"

definition view :: "('s \<Rightarrow> byte list) \<Rightarrow> ('s \<Rightarrow> byte list) \<Rightarrow> 's CodedInputStream \<Rightarrow> byte list" where
  "view rest given c = take (nat (closest_limit c - CurrentPosition c)) (unread rest given c)"

definition fields_ok :: "'s CodedInputStream \<Rightarrow> bool" where
  "fields_ok c \<longleftrightarrow> 0 \<le> buffer_size c \<and> 0 \<le> overflow_bytes c \<and>
     int (length (buffer c)) = buffer_size c + buffer_size_after_limit c \<and>
     buffer_size c + buffer_size_after_limit c \<le> total_bytes_read c \<and> total_bytes_read c \<le> INT_MAX \<and>
     current_limit c \<le> INT_MAX \<and> total_bytes_limit c \<le> INT_MAX \<and>
     buffer_size_after_limit c = max 0 (total_bytes_read c - closest_limit c) \<and>
     (overflow_bytes c > 0 \<longrightarrow> total_bytes_read c = INT_MAX)"

definition input_ok ::
    "'s ZeroCopyInputStream \<Rightarrow> ('s \<Rightarrow> bool) \<Rightarrow> ('s \<Rightarrow> byte list) \<Rightarrow> ('s \<Rightarrow> byte list) \<Rightarrow> 's CodedInputStream \<Rightarrow> bool" where
  "input_ok ops ok rest given c \<longleftrightarrow>
     (case coded_input c of
        None \<Rightarrow> overflow_bytes c = 0 \<and> current_limit c \<le> total_bytes_read c
      | Some s \<Rightarrow> ok s \<and> (\<exists>u v. given s = u @ buffer c @ v \<and> int (length v) = overflow_bytes c) \<and>
          (ByteCount ops s = total_bytes_read c + overflow_bytes c \<or>
           rest s = [] \<and> 0 \<le> ByteCount ops s \<and> ByteCount ops s \<le> total_bytes_read c + overflow_bytes c))"

definition coded_ok ::
    "'s ZeroCopyInputStream \<Rightarrow> ('s \<Rightarrow> bool) \<Rightarrow> ('s \<Rightarrow> byte list) \<Rightarrow> ('s \<Rightarrow> byte list) \<Rightarrow> 's CodedInputStream \<Rightarrow> bool" where
  "coded_ok ops ok rest given c \<longleftrightarrow> fields_ok c \<and> input_ok ops ok rest given c"

text \<open>\<open>k\<close> bytes further on, with the limits and the recursion depth as they were. At the end of the input
  the position may be off: a skip past the end goes to the limit.\<close>

definition same_limits :: "'s CodedInputStream \<Rightarrow> 's CodedInputStream \<Rightarrow> bool" where
  "same_limits c c' \<longleftrightarrow> current_limit c' = current_limit c \<and> total_bytes_limit c' = total_bytes_limit c \<and>
     recursion_budget c' = recursion_budget c \<and> recursion_limit c' = recursion_limit c \<and>
     (coded_input c' = None \<longleftrightarrow> coded_input c = None) \<and>
     (coded_input c = None \<longrightarrow> total_bytes_read c' = total_bytes_read c)"

definition moved ::
    "'s ZeroCopyInputStream \<Rightarrow> ('s \<Rightarrow> bool) \<Rightarrow> ('s \<Rightarrow> byte list) \<Rightarrow> ('s \<Rightarrow> byte list) \<Rightarrow>
     nat \<Rightarrow> 's CodedInputStream \<Rightarrow> 's CodedInputStream \<Rightarrow> bool" where
  "moved ops ok rest given k c c' \<longleftrightarrow>
     coded_ok ops ok rest given c' \<and> same_limits c c' \<and> k \<le> length (view rest given c) \<and>
     unread rest given c' = drop k (unread rest given c) \<and>
     (CurrentPosition c' = CurrentPosition c + int k \<or> unread rest given c' = [])"

lemmas coded_defs = coded_ok_def fields_ok_def input_ok_def closest_limit_def CurrentPosition_def

lemma closest_limit_update [simp]:
  "closest_limit (c\<lparr>buffer := b\<rparr>) = closest_limit c"
  "closest_limit (c\<lparr>buffer_size := n\<rparr>) = closest_limit c"
  "closest_limit (c\<lparr>coded_input := i\<rparr>) = closest_limit c"
  "closest_limit (c\<lparr>total_bytes_read := n\<rparr>) = closest_limit c"
  "closest_limit (c\<lparr>overflow_bytes := n\<rparr>) = closest_limit c"
  "closest_limit (c\<lparr>buffer_size_after_limit := n\<rparr>) = closest_limit c"
  by (simp_all add: closest_limit_def)

lemma position_bounds:
  assumes "fields_ok c"
  shows "0 \<le> CurrentPosition c" "CurrentPosition c \<le> closest_limit c" "closest_limit c \<le> INT_MAX"
  using assms unfolding fields_ok_def CurrentPosition_def closest_limit_def by linarith+

lemma after_nonneg: "fields_ok c \<Longrightarrow> 0 \<le> buffer_size_after_limit c"
  by (simp add: fields_ok_def)

lemma RecomputeBufferLimits_ok:
  assumes "buffer_size c + buffer_size_after_limit c = int (length (buffer c))"
    "int (length (buffer c)) \<le> total_bytes_read c" "total_bytes_read c \<le> INT_MAX"
    "current_limit c \<le> INT_MAX" "total_bytes_limit c \<le> INT_MAX" "0 \<le> overflow_bytes c"
    "overflow_bytes c > 0 \<longrightarrow> total_bytes_read c = INT_MAX" "CurrentPosition c \<le> closest_limit c"
  shows "fields_ok (RecomputeBufferLimits c)"
  using assms by (auto simp: RecomputeBufferLimits_def fields_ok_def CurrentPosition_def Let_def)

lemma RecomputeBufferLimits_simps [simp]:
  "buffer (RecomputeBufferLimits c) = buffer c" "coded_input (RecomputeBufferLimits c) = coded_input c"
  "total_bytes_read (RecomputeBufferLimits c) = total_bytes_read c"
  "overflow_bytes (RecomputeBufferLimits c) = overflow_bytes c"
  "current_limit (RecomputeBufferLimits c) = current_limit c"
  "total_bytes_limit (RecomputeBufferLimits c) = total_bytes_limit c"
  "recursion_budget (RecomputeBufferLimits c) = recursion_budget c"
  "recursion_limit (RecomputeBufferLimits c) = recursion_limit c"
  "last_tag (RecomputeBufferLimits c) = last_tag c"
  "legitimate_message_end (RecomputeBufferLimits c) = legitimate_message_end c"
  "CurrentPosition (RecomputeBufferLimits c) = CurrentPosition c"
  "closest_limit (RecomputeBufferLimits c) = closest_limit c"
  by (simp_all add: RecomputeBufferLimits_def CurrentPosition_def closest_limit_def Let_def)

context zero_copy_input
begin

abbreviation "ci_future \<equiv> future rest given"
abbreviation "ci_unread \<equiv> unread rest given"
abbreviation "ci_view \<equiv> view rest given"
abbreviation "ci_ok \<equiv> coded_ok ops ok rest given"
abbreviation "ci_input_ok \<equiv> input_ok ops ok rest given"
abbreviation "ci_moved \<equiv> moved ops ok rest given"

text \<open>The view is the window, and behind it what the limits leave of the stream.\<close>

lemma view_window:
  assumes "fields_ok c"
  shows "ci_view c = window c @ take (nat (closest_limit c - total_bytes_read c)) (ci_future c)"
    "int (length (window c)) = buffer_size c"
proof -
  have len: "int (length (buffer c)) = buffer_size c + buffer_size_after_limit c" "0 \<le> buffer_size c"
    "buffer_size_after_limit c = max 0 (total_bytes_read c - closest_limit c)"
    using assms unfolding fields_ok_def by simp_all
  show w: "int (length (window c)) = buffer_size c" using len by (simp add: window_def)
  show "ci_view c = window c @ take (nat (closest_limit c - total_bytes_read c)) (ci_future c)"
  proof (cases "total_bytes_read c \<le> closest_limit c")
    case True
    with len have after: "buffer_size_after_limit c = 0" "buffer_size c = int (length (buffer c))" by simp_all
    with True have "nat (closest_limit c - CurrentPosition c) = length (buffer c) + nat (closest_limit c - total_bytes_read c)"
      by (simp add: CurrentPosition_def)
    with after show ?thesis by (simp add: view_def unread_def window_def)
  next
    case False
    with len have "closest_limit c - CurrentPosition c = buffer_size c" "nat (buffer_size c) \<le> length (buffer c)"
      by (simp_all add: CurrentPosition_def)
    with False show ?thesis by (simp add: view_def unread_def window_def)
  qed
qed

lemma view_empty: "fields_ok c \<Longrightarrow> ci_view c = [] \<Longrightarrow> buffer_size c = 0"
  using view_window [of c] by simp

lemma window_nth: "fields_ok c \<Longrightarrow> 0 < buffer_size c \<Longrightarrow>
    buffer c ! 0 = hd (ci_view c) \<and> ci_view c \<noteq> [] \<and> window c \<noteq> [] \<and> buffer c \<noteq> []"
  using view_window [of c] by (cases "buffer c") (auto simp: window_def neq_Nil_conv hd_append)

lemma moved_view:
  assumes "ci_moved k c c'"
  shows "ci_view c' = drop k (ci_view c)"
proof -
  have u: "ci_unread c' = drop k (ci_unread c)" "k \<le> length (ci_view c)"
    "closest_limit c' = closest_limit c"
    using assms by (simp_all add: moved_def same_limits_def closest_limit_def)
  show ?thesis
  proof (cases "CurrentPosition c' = CurrentPosition c + int k")
    case True
    then have "nat (closest_limit c' - CurrentPosition c') = nat (closest_limit c - CurrentPosition c) - k"
      using u(3) by simp
    with u show ?thesis by (simp add: view_def drop_take)
  next
    case False
    then have e: "ci_unread c' = []" using assms unfolding moved_def by blast
    with u(1) have "length (ci_unread c) \<le> k" by (metis drop_eq_Nil)
    with e show ?thesis by (simp add: view_def)
  qed
qed

lemma moved_trans: "ci_moved j c c' \<Longrightarrow> ci_moved k c' c'' \<Longrightarrow> ci_moved (j + k) c c''"
  using moved_view [of j c c'] by (auto simp: moved_def same_limits_def drop_eq_Nil add.commute)

lemma moved_refl: "ci_ok c \<Longrightarrow> ci_moved 0 c c"
  by (simp add: moved_def same_limits_def)

lemma moved_ok: "ci_moved k c c' \<Longrightarrow> ci_ok c'"
  by (simp add: moved_def)

lemma Advance_simps [simp]:
  "coded_input (Advance n c) = coded_input c" "total_bytes_read (Advance n c) = total_bytes_read c"
  "overflow_bytes (Advance n c) = overflow_bytes c" "current_limit (Advance n c) = current_limit c"
  "total_bytes_limit (Advance n c) = total_bytes_limit c" "recursion_budget (Advance n c) = recursion_budget c"
  "recursion_limit (Advance n c) = recursion_limit c" "buffer_size (Advance n c) = buffer_size c - n"
  "buffer_size_after_limit (Advance n c) = buffer_size_after_limit c"
  "last_tag (Advance n c) = last_tag c" "legitimate_message_end (Advance n c) = legitimate_message_end c"
  "closest_limit (Advance n c) = closest_limit c" "buffer (Advance n c) = drop (nat n) (buffer c)"
  "CurrentPosition (Advance n c) = CurrentPosition c + n"
  by (simp_all add: Advance_def closest_limit_def CurrentPosition_def)

lemma future_cong:
  "coded_input c' = coded_input c \<Longrightarrow> overflow_bytes c' = overflow_bytes c \<Longrightarrow> ci_future c' = ci_future c"
  by (simp add: future_def split: option.split)

lemma Advance_moved:
  assumes "ci_ok c" "int n \<le> buffer_size c"
  shows "ci_moved n c (Advance (int n) c)"
proof -
  have f: "fields_ok c" "ci_input_ok c" using assms(1) by (simp_all add: coded_ok_def)
  have len: "n \<le> length (buffer c)" using f(1) after_nonneg [OF f(1)] assms(2) unfolding fields_ok_def by linarith
  have "fields_ok (Advance (int n) c)"
    using f(1) assms(2) len by (simp add: fields_ok_def)
  moreover have "ci_input_ok (Advance (int n) c)"
  proof (cases "coded_input c")
    case None
    with f(2) show ?thesis by (simp add: input_ok_def)
  next
    case (Some s)
    with f(2) obtain u v where uv: "given s = u @ buffer c @ v" "int (length v) = overflow_bytes c" by (auto simp: input_ok_def)
    then have "given s = (u @ take n (buffer c)) @ drop n (buffer c) @ v" by simp
    with uv f(2) Some show ?thesis by (auto simp: input_ok_def simp del: append_assoc)
  qed
  moreover have "n \<le> length (ci_view c)" using view_window [OF f(1)] assms(2) by simp
  ultimately show ?thesis
    using len future_cong [of "Advance (int n) c" c] by (simp add: moved_def coded_ok_def same_limits_def unread_def)
qed

lemma Advance_inside:
  assumes "ci_ok c" "0 \<le> n" "n \<le> buffer_size c"
  shows "ci_moved (min (nat n) (length (ci_view c))) c (Advance n c)" "n \<le> int (length (ci_view c))"
    "take (nat n) (ci_view c) = take (nat n) (buffer c)"
proof -
  have w: "ci_view c = window c @ take (nat (closest_limit c - total_bytes_read c)) (ci_future c)"
    "int (length (window c)) = buffer_size c" using view_window [of c] assms(1) by (simp_all add: coded_ok_def)
  then show n: "n \<le> int (length (ci_view c))" using assms(3) by simp
  then have "min (nat n) (length (ci_view c)) = nat n" by simp
  with Advance_moved [OF assms(1), of "nat n"] assms show "ci_moved (min (nat n) (length (ci_view c))) c (Advance n c)" by simp
  have "nat n \<le> length (window c)" "nat n \<le> nat (buffer_size c)" using w(2) assms(3) by simp_all
  then show "take (nat n) (ci_view c) = take (nat n) (buffer c)" unfolding w(1) by (simp add: window_def min_def)
qed

lemma NextNonEmptyE:
  assumes "ok s"
  obtains (end_of_stream) s' where "NextNonEmpty ops s = Some (None, s')" "ok s'" "rest s = []" "rest s' = []"
      "ByteCount ops s' = ByteCount ops s"
  | (chunk) d s' where "NextNonEmpty ops s = Some (Some d, s')" "ok s'" "rest s = d @ rest s'" "\<exists>g. given s' = g @ d"
      "int (length d) \<le> INT_MAX" "ByteCount ops s' = ByteCount ops s + int (length d)" "d \<noteq> []"
  using assms
proof (induction "idle s" arbitrary: s thesis rule: less_induct)
  case less
  show ?case
  proof (rule nextE [OF less.prems(3)])
    fix s'
    assume "Next ops s = Some (None, s')" "ok s'" "rest s = []" "rest s' = []" "ByteCount ops s' = ByteCount ops s"
    then show ?thesis by (intro less.prems(1) [of s']) (simp_all add: NextNonEmpty.simps [of ops s])
  next
    fix d s' g
    assume n: "Next ops s = Some (Some d, s')" "ok s'" "rest s = d @ rest s'" "given s' = g @ d"
      "int (length d) \<le> INT_MAX" "ByteCount ops s' = ByteCount ops s + int (length d)" "d = [] \<Longrightarrow> idle s' < idle s"
    show ?thesis
    proof (cases "d = []")
      case False
      with n show ?thesis by (intro less.prems(2) [of d s']) (simp_all add: NextNonEmpty.simps [of ops s])
    next
      case True
      then have step: "NextNonEmpty ops s = NextNonEmpty ops s'" using n(1) by (simp add: NextNonEmpty.simps [of ops s])
      show ?thesis
        by (rule less.hyps [OF n(7) [OF True] _ _ n(2)]) (use True n step less.prems(1,2) in auto)
    qed
  qed
qed

section \<open>Refresh\<close>

lemma Refresh_spec:
  assumes "ci_ok c" "buffer_size c = 0"
  obtains b c' where "Refresh ops c = Some (b, c')" "ci_moved 0 c c'" "CurrentPosition c' = CurrentPosition c"
    "last_tag c' = last_tag c" "legitimate_message_end c' = legitimate_message_end c"
    "buffer_size c' = 0 \<Longrightarrow> ci_view c = []" "\<not> b \<Longrightarrow> buffer_size c' = 0"
    "b \<Longrightarrow> buffer_size c' = 0 \<Longrightarrow> buffer_size_after_limit c' > 0 \<and> total_bytes_limit c \<le> CurrentPosition c \<and> total_bytes_limit c < current_limit c"
    "\<not> b \<Longrightarrow> buffer_size_after_limit c' = buffer_size_after_limit c"
proof -
  have f: "fields_ok c" "ci_input_ok c" using assms(1) by (simp_all add: coded_ok_def)
  note f' = f(1) [unfolded fields_ok_def assms(2)]
  note v = view_window(1) [OF f(1), unfolded window_def assms(2), simplified]
  show thesis
  proof (cases "buffer_size_after_limit c > 0 \<or> overflow_bytes c > 0 \<or> total_bytes_read c = current_limit c")
    case True
    have "closest_limit c \<le> total_bytes_read c"
      using True f' position_bounds [OF f(1)] unfolding closest_limit_def by auto
    then have "ci_view c = []" using v by simp
    with True assms show ?thesis
      by (intro that [of False c]) (simp_all add: Refresh_def moved_refl)
  next
    case False
    then have z: "buffer_size_after_limit c = 0" "overflow_bytes c = 0" "total_bytes_read c \<noteq> current_limit c"
      using f' by auto
    then have empty: "buffer c = []" and low: "total_bytes_read c \<le> closest_limit c" using f' by auto
    then have "total_bytes_read c < current_limit c" using z(3) unfolding closest_limit_def by linarith
    then obtain s where s: "coded_input c = Some s" "ok s"
      "ByteCount ops s = total_bytes_read c \<or> rest s = [] \<and> 0 \<le> ByteCount ops s \<and> ByteCount ops s \<le> total_bytes_read c"
      using f(2) z(2) by (cases "coded_input c") (auto simp: input_ok_def)
    have unread: "ci_unread c = rest s" using empty s(1) z(2) by (simp add: unread_def future_def)
    show ?thesis
    proof (rule NextNonEmptyE [OF s(2)])
      fix s'
      assume n: "NextNonEmpty ops s = Some (None, s')" "ok s'" "rest s = []" "rest s' = []" "ByteCount ops s' = ByteCount ops s"
      let ?c = "c\<lparr>coded_input := Some s', buffer := [], buffer_size := 0\<rparr>"
      have r: "Refresh ops c = Some (False, ?c)" using False s(1) n(1) by (simp add: Refresh_def)
      have "fields_ok ?c" using f(1) empty assms(2) by (simp add: fields_ok_def z)
      moreover have "ci_input_ok ?c" using n s(3) z(2) by (auto simp: input_ok_def)
      moreover have "ci_unread ?c = []" using n z(2) by (simp add: unread_def future_def)
      ultimately show ?thesis using r unread n(3) assms(2) s(1) z
        by (intro that [of False ?c]) (simp_all add: moved_def coded_ok_def same_limits_def CurrentPosition_def view_def)
    next
      fix d s'
      assume n: "NextNonEmpty ops s = Some (Some d, s')" "ok s'" "rest s = d @ rest s'" "\<exists>g. given s' = g @ d"
        "int (length d) \<le> INT_MAX" "ByteCount ops s' = ByteCount ops s + int (length d)" "d \<noteq> []"
      have count: "ByteCount ops s = total_bytes_read c" using s(3) n(3,7) by auto
      define m where "m = min (int (length d)) (INT_MAX - total_bytes_read c)"
      have m: "0 \<le> m" "m \<le> int (length d)" "total_bytes_read c + m \<le> INT_MAX"
        "m < int (length d) \<longrightarrow> total_bytes_read c + m = INT_MAX" "0 < m"
        using f' \<open>total_bytes_read c < current_limit c\<close> n(7) by (auto simp: m_def)
      define c1 where "c1 = c\<lparr>coded_input := Some s', buffer := take (nat m) d, buffer_size := m,
        overflow_bytes := int (length d) - m, total_bytes_read := total_bytes_read c + m\<rparr>"
      have position: "CurrentPosition c1 = CurrentPosition c"
        using z by (simp add: c1_def CurrentPosition_def assms(2))
      have r: "Refresh ops c = Some (True, RecomputeBufferLimits c1)"
        using False s(1) n(1) z(2) by (cases c) (simp add: Refresh_def c1_def m_def min_def Let_def diff_diff_eq2 add.commute)
      have ok1: "fields_ok (RecomputeBufferLimits c1)"
        using f' m position position_bounds [OF f(1)] z by (intro RecomputeBufferLimits_ok) (simp_all add: c1_def)
      obtain g where g: "given s' = g @ d" using n(4) by blast
      have "given s' = g @ take (nat m) d @ drop (nat m) d" "int (length (drop (nat m) d)) = int (length d) - m"
        using m g by simp_all
      then have "\<exists>u v. given s' = u @ take (nat m) d @ v \<and> int (length v) = int (length d) - m" by blast
      then have "ci_input_ok (RecomputeBufferLimits c1)"
        using n count by (simp add: input_ok_def c1_def)
      moreover have u: "ci_unread (RecomputeBufferLimits c1) = ci_unread c"
      proof -
        have "length d - nat (int (length d) - m) = nat m" using m by simp
        then show ?thesis using n(3) g m unread by (simp add: unread_def future_def c1_def)
      qed
      ultimately have mv: "ci_moved 0 c (RecomputeBufferLimits c1)"
        using ok1 position s(1) by (simp add: moved_def coded_ok_def same_limits_def c1_def)
      have zero: "buffer_size_after_limit (RecomputeBufferLimits c1) > 0 \<and> closest_limit c \<le> total_bytes_read c"
        if "buffer_size (RecomputeBufferLimits c1) = 0"
        using that m z position_bounds [OF f(1)]
        by (auto simp: RecomputeBufferLimits_def c1_def Let_def split: if_splits)
      have pos: "CurrentPosition c = total_bytes_read c" using z by (simp add: CurrentPosition_def assms(2))
      show ?thesis
      proof (rule that [OF r mv])
        assume "buffer_size (RecomputeBufferLimits c1) = 0"
        from zero [OF this] show "ci_view c = []" using pos by (simp add: view_def)
        from zero [OF \<open>buffer_size (RecomputeBufferLimits c1) = 0\<close>]
        show "buffer_size_after_limit (RecomputeBufferLimits c1) > 0 \<and> total_bytes_limit c \<le> CurrentPosition c \<and>
            total_bytes_limit c < current_limit c"
          using pos \<open>total_bytes_read c < current_limit c\<close> by (auto simp: closest_limit_def)
      qed (simp_all add: position, simp_all add: c1_def)
    qed
  qed
qed

section \<open>Bytes\<close>

lemma future_input:
  assumes "ci_ok c" "total_bytes_read c < closest_limit c"
  obtains s where "coded_input c = Some s" "ok s" "overflow_bytes c = 0" "ci_future c = rest s"
    "ByteCount ops s = total_bytes_read c \<or> rest s = [] \<and> 0 \<le> ByteCount ops s \<and> ByteCount ops s \<le> total_bytes_read c"
proof -
  have f: "fields_ok c" "ci_input_ok c" using assms(1) by (simp_all add: coded_ok_def)
  then have o: "overflow_bytes c = 0" using position_bounds(3) [OF f(1)] assms(2) by (auto simp: fields_ok_def)
  from assms(2) have "total_bytes_read c < current_limit c" by (simp add: closest_limit_def)
  with f(2) obtain s where "coded_input c = Some s" by (cases "coded_input c") (simp_all add: input_ok_def)
  with f(2) o show thesis by (intro that [of s]) (auto simp: input_ok_def future_def)
qed

lemma SkipFallback_spec:
  assumes "ci_ok c" "buffer_size c < n"
  shows "\<exists>c'. SkipFallback ops n (buffer_size c) c = Some (n \<le> int (length (ci_view c)), c') \<and>
    ci_moved (min (nat n) (length (ci_view c))) c c' \<and>
    last_tag c' = last_tag c \<and> legitimate_message_end c' = legitimate_message_end c"
proof (cases "buffer_size_after_limit c > 0")
  case True
  have f: "fields_ok c" using assms(1) by (simp add: coded_ok_def)
  with True have "ci_view c = window c" using view_window(1) [OF f] by (auto simp: fields_ok_def)
  then have v: "int (length (ci_view c)) = buffer_size c" using view_window(2) [OF f] by simp
  with assms(2) have "min (nat n) (length (ci_view c)) = length (ci_view c)" by simp
  with Advance_moved [OF assms(1), of "length (ci_view c)"] v assms(2) True show ?thesis
    by (simp add: SkipFallback_def)
next
  case False
  have f: "fields_ok c" "ci_input_ok c" using assms(1) by (simp_all add: coded_ok_def)
  note f' = f(1) [unfolded fields_ok_def]
  have low: "total_bytes_read c \<le> closest_limit c" "buffer_size_after_limit c = 0" "int (length (buffer c)) = buffer_size c"
    "0 \<le> total_bytes_read c"
    using False f' after_nonneg [OF f(1)] by auto
  have w: "window c = buffer c" using low by (simp add: window_def)
  let ?left = "closest_limit c - total_bytes_read c"
  have v: "ci_view c = buffer c @ take (nat ?left) (ci_future c)" using view_window(1) [OF f(1)] w by simp
  let ?c = "c\<lparr>buffer := [], buffer_size := 0\<rparr>"
  have pos: "CurrentPosition c = total_bytes_read c - buffer_size c" using low by (simp add: CurrentPosition_def)
  consider "?left \<le> 0" | "0 < ?left" "?left < n - buffer_size c" | "0 < ?left" "n - buffer_size c \<le> ?left" by linarith
  then show ?thesis
  proof cases
    case 1
    then have "ci_view c = buffer c" using v by simp
    moreover have "fields_ok ?c" using f' low 1 by (simp add: fields_ok_def)
    moreover have "ci_input_ok ?c"
    proof (cases "coded_input c")
      case (Some s)
      with f(2) obtain u v where "given s = u @ buffer c @ v" "int (length v) = overflow_bytes c" by (auto simp: input_ok_def)
      then have "given s = (u @ buffer c) @ [] @ v" "int (length v) = overflow_bytes c" by simp_all
      with Some f(2) show ?thesis by (auto simp: input_ok_def simp del: append_assoc)
    qed (use f(2) in \<open>simp add: input_ok_def\<close>)
    moreover have "ci_unread ?c = ci_future c" using future_cong [of ?c c] by (simp add: unread_def)
    ultimately have "ci_moved (length (buffer c)) c ?c"
      using low pos by (simp add: moved_def coded_ok_def same_limits_def unread_def) (simp add: CurrentPosition_def low)
    moreover have "min (nat n) (length (ci_view c)) = length (buffer c)"
      using \<open>ci_view c = buffer c\<close> low assms(2) by simp
    ultimately show ?thesis using 1 low assms(2) \<open>ci_view c = buffer c\<close> by (simp add: SkipFallback_def Let_def)
  next
    case 2
    then obtain s where s: "coded_input c = Some s" "ok s" "overflow_bytes c = 0" "ci_future c = rest s"
      "ByteCount ops s = total_bytes_read c \<or> rest s = [] \<and> 0 \<le> ByteCount ops s \<and> ByteCount ops s \<le> total_bytes_read c"
      using future_input [OF assms(1)] by auto
    from skipE [OF s(2) 2(1)] obtain s' where s': "Skip ops ?left s = Some (?left \<le> int (length (rest s)), s')" "ok s'"
      "rest s' = drop (nat ?left) (rest s)" "ByteCount ops s' = ByteCount ops s + min ?left (int (length (rest s)))" by blast
    let ?c' = "?c\<lparr>total_bytes_read := closest_limit c, coded_input := Some s'\<rparr>"
    have far: "length (buffer c) + nat ?left < nat n" using 2 low by linarith
    then have k: "min (nat n) (length (ci_view c)) = length (buffer c) + min (nat ?left) (length (rest s))"
      by (simp add: v s(4))
    have u: "ci_unread ?c' = drop (nat ?left) (rest s)" "ci_unread c = buffer c @ rest s"
      using s' s(3,4) by (simp_all add: unread_def future_def)
    have "ci_moved (length (buffer c) + min (nat ?left) (length (rest s))) c ?c'" unfolding moved_def coded_ok_def
    proof (intro conjI)
      show "fields_ok ?c'" using f' low 2 s(3) position_bounds [OF f(1)] by (simp add: fields_ok_def)
      show "ci_input_ok ?c'" using s' s(3,5) 2 low by (auto simp: input_ok_def)
      show "same_limits c ?c'" using s(1) by (simp add: same_limits_def)
      show "length (buffer c) + min (nat ?left) (length (rest s)) \<le> length (ci_view c)" by (metis k min.cobounded2)
      show "ci_unread ?c' = drop (length (buffer c) + min (nat ?left) (length (rest s))) (ci_unread c)"
        unfolding u by (simp add: min_def)
      have "CurrentPosition ?c' = closest_limit c" using low by (simp add: CurrentPosition_def)
      then show "CurrentPosition ?c' = CurrentPosition c + int (length (buffer c) + min (nat ?left) (length (rest s))) \<or>
          ci_unread ?c' = []"
        using pos low 2 unfolding u by (cases "nat ?left \<le> length (rest s)") simp_all
    qed
    then have "ci_moved (min (nat n) (length (ci_view c))) c ?c'" by (simp only: k)
    moreover have "\<not> n \<le> int (length (ci_view c))" using far by (simp add: v s(4))
    ultimately show ?thesis using 2 s(1) s'(1) low by (simp add: SkipFallback_def Let_def)
  next
    case 3
    then obtain s where s: "coded_input c = Some s" "ok s" "overflow_bytes c = 0" "ci_future c = rest s"
      "ByteCount ops s = total_bytes_read c \<or> rest s = [] \<and> 0 \<le> ByteCount ops s \<and> ByteCount ops s \<le> total_bytes_read c"
      using future_input [OF assms(1)] by auto
    define m where "m = n - buffer_size c"
    have m: "0 < m" "m \<le> ?left" "n = buffer_size c + m" using assms(2) 3 by (simp_all add: m_def)
    from skipE [OF s(2) m(1)] obtain s' where s': "Skip ops m s = Some (m \<le> int (length (rest s)), s')" "ok s'"
      "rest s' = drop (nat m) (rest s)" "ByteCount ops s' = ByteCount ops s + min m (int (length (rest s)))" by blast
    have n: "nat n = length (buffer c) + nat m" using low m by (metis nat_add_distrib nat_int of_nat_0_le_iff order_less_imp_le)
    have unread: "ci_unread c = buffer c @ rest s" by (simp add: unread_def s(4))
    show ?thesis
    proof (cases "m \<le> int (length (rest s))")
      case True
      let ?c' = "?c\<lparr>coded_input := Some s', total_bytes_read := total_bytes_read c + m\<rparr>"
      have count: "ByteCount ops s = total_bytes_read c" using s(5) m True by auto
      have "fields_ok ?c'" using f' low m s(3) position_bounds [OF f(1)] by (simp add: fields_ok_def)
      moreover have "ci_input_ok ?c'" using s' s(3) count True by (simp add: input_ok_def)
      moreover have "ci_unread ?c' = drop (nat m) (rest s)" using s' s(3) by (simp add: unread_def future_def)
      moreover have k: "nat n \<le> length (ci_view c)" using m True n by (simp add: v s(4) nat_le_iff nat_mono)
      moreover have "CurrentPosition ?c' = CurrentPosition c + n" using low m by (simp add: CurrentPosition_def)
      ultimately have "ci_moved (nat n) c ?c'"
        using s(1) unread n m low by (simp add: moved_def coded_ok_def same_limits_def)
      moreover have "n \<le> int (length (ci_view c))" using k m low by linarith
      ultimately show ?thesis using m s(1) s'(1) low True k by (simp add: SkipFallback_def Let_def)
    next
      case False
      let ?c' = "?c\<lparr>coded_input := Some s', total_bytes_read := ByteCount ops s'\<rparr>"
      have e: "rest s' = []" using s'(3) False by simp
      have count: "0 \<le> ByteCount ops s'" "ByteCount ops s' \<le> closest_limit c"
        using s'(4) s(5) False m f' position_bounds [OF f(1)] by auto
      then have trunc: "signed_take_bit 31 (ByteCount ops s') = ByteCount ops s'"
        using position_bounds(3) [OF f(1)] by (simp add: signed_take_bit_int_eq_self)
      have "fields_ok ?c'" using f' low s(3) position_bounds [OF f(1)] count by (simp add: fields_ok_def)
      moreover have "ci_input_ok ?c'" using s' s(3) by (simp add: input_ok_def)
      moreover have "ci_unread ?c' = []" using e s(3) by (simp add: unread_def future_def)
      moreover have "length (rest s) < nat m" "length (rest s) < nat ?left" using m False by linarith+
      then have k: "min (nat n) (length (ci_view c)) = length (buffer c) + length (rest s)"
        using n by (simp add: v s(4))
      ultimately have "ci_moved (min (nat n) (length (ci_view c))) c ?c'"
        using s(1) unread by (simp add: moved_def coded_ok_def same_limits_def)
      moreover have "\<not> n \<le> int (length (ci_view c))" using k m n False low by (simp add: v s(4))
      ultimately show ?thesis using m s(1) s'(1) low False by (simp add: SkipFallback_def Let_def trunc)
    qed
  qed
qed

lemma Skip_spec:
  assumes "ci_ok c" "0 \<le> n"
  shows "\<exists>c'. CodedInputStream_Skip ops n c = Some (n \<le> int (length (ci_view c)), c') \<and>
    ci_moved (min (nat n) (length (ci_view c))) c c' \<and>
    last_tag c' = last_tag c \<and> legitimate_message_end c' = legitimate_message_end c"
proof (cases "n \<le> buffer_size c")
  case True
  with Advance_inside [OF assms(1,2)] show ?thesis using assms(2) by (simp add: CodedInputStream_Skip_def)
next
  case False
  with SkipFallback_spec [OF assms(1), of n] assms(2) show ?thesis by (simp add: CodedInputStream_Skip_def)
qed

text \<open>Advancing to the end of the window and refilling.\<close>

lemma window_out:
  assumes "ci_ok c"
  obtains b c' where "Refresh ops (Advance (buffer_size c) c) = Some (b, c')" "ci_moved (length (window c)) c c'"
    "last_tag c' = last_tag c" "legitimate_message_end c' = legitimate_message_end c"
    "ci_view c = window c @ ci_view c'" "buffer_size c' = 0 \<Longrightarrow> ci_view c' = []" "\<not> b \<Longrightarrow> ci_view c' = []"
    "b \<Longrightarrow> buffer_size c' = 0 \<Longrightarrow> buffer_size_after_limit c' > 0"
proof -
  have f: "fields_ok c" using assms by (simp add: coded_ok_def)
  note w = view_window [OF f]
  have a: "ci_moved (length (window c)) c (Advance (buffer_size c) c)"
    using Advance_moved [OF assms, of "length (window c)"] w(2) by simp
  have v: "ci_view (Advance (buffer_size c) c) = drop (length (window c)) (ci_view c)" by (rule moved_view [OF a])
  obtain b c' where r: "Refresh ops (Advance (buffer_size c) c) = Some (b, c')" "ci_moved 0 (Advance (buffer_size c) c) c'"
    "last_tag c' = last_tag c" "legitimate_message_end c' = legitimate_message_end c"
    "buffer_size c' = 0 \<Longrightarrow> ci_view (Advance (buffer_size c) c) = []" "\<not> b \<Longrightarrow> buffer_size c' = 0"
    "b \<Longrightarrow> buffer_size c' = 0 \<Longrightarrow> buffer_size_after_limit c' > 0"
    by (rule Refresh_spec [OF moved_ok [OF a]]) auto
  have v': "ci_view c' = drop (length (window c)) (ci_view c)" using moved_view [OF r(2)] v by simp
  show thesis
  proof (rule that [OF r(1)])
    show "ci_moved (length (window c)) c c'" using moved_trans [OF a r(2)] by simp
    show "ci_view c = window c @ ci_view c'" using w(1) v' by (metis append_eq_conv_conj)
  qed (use r v v' in auto)
qed

lemma Refresh_at_limit: "buffer_size_after_limit c > 0 \<Longrightarrow> Refresh ops c = Some (False, c)"
  by (simp add: Refresh_def)

lemma copy_loop_spec:
  assumes "ci_ok c" "0 \<le> n"
  shows "\<exists>c'. copy_loop ops out n c =
      Some (n \<le> int (length (ci_view c)), out @ take (nat n) (ci_view c), c') \<and>
    ci_moved (min (nat n) (length (ci_view c))) c c' \<and>
    last_tag c' = last_tag c \<and> legitimate_message_end c' = legitimate_message_end c"
  using assms
proof (induction "(length (ci_view c), if buffer_size c = 0 \<and> buffer_size_after_limit c = 0 then 1 else 0 :: nat)"
    arbitrary: c n out rule: wf_induct_rule [OF wf_lex_prod [OF wf_less_than wf_less_than]])
  case (1 c n out)
  have f: "fields_ok c" using 1(2) by (simp add: coded_ok_def)
  note w = view_window [OF f]
  show ?case
  proof (cases "buffer_size c < n")
    case False
    then have "n \<le> buffer_size c" by simp
    from Advance_inside [OF 1(2,3) this] False show ?thesis by (subst copy_loop.simps) (simp add: Let_def)
  next
    case True
    obtain b c' where r: "Refresh ops (Advance (buffer_size c) c) = Some (b, c')" "ci_moved (length (window c)) c c'"
      "last_tag c' = last_tag c" "legitimate_message_end c' = legitimate_message_end c"
      "ci_view c = window c @ ci_view c'" "buffer_size c' = 0 \<Longrightarrow> ci_view c' = []" "\<not> b \<Longrightarrow> ci_view c' = []"
      "b \<Longrightarrow> buffer_size c' = 0 \<Longrightarrow> buffer_size_after_limit c' > 0" by (rule window_out [OF 1(2)]) blast
    have n: "n - buffer_size c = n - int (length (window c))" "length (window c) < nat n" using w(2) True by simp_all
    then have split: "take (nat n) (ci_view c) = window c @ take (nat (n - buffer_size c)) (ci_view c')"
      by (simp add: r(5) nat_diff_distrib)
    show ?thesis
    proof (cases b)
      case False
      with r(5,7) have "ci_view c = window c" by simp
      with w(2) n(2) True have "take (nat n) (ci_view c) = window c" "\<not> n \<le> int (length (ci_view c))"
        "min (nat n) (length (ci_view c)) = length (window c)" by simp_all
      with False r True show ?thesis by (subst copy_loop.simps) (simp add: Let_def)
    next
      case b: True
      have "buffer_size c = 0 \<Longrightarrow> buffer_size_after_limit c > 0 \<Longrightarrow> Refresh ops (Advance (buffer_size c) c) = Some (False, Advance 0 c)"
        using Refresh_at_limit [of "Advance 0 c"] by simp
      with b r(1) after_nonneg [OF f] have limit: "buffer_size c = 0 \<Longrightarrow> buffer_size_after_limit c = 0" by force
      have "((length (ci_view c'), if buffer_size c' = 0 \<and> buffer_size_after_limit c' = 0 then 1 else 0 :: nat),
          length (ci_view c), if buffer_size c = 0 \<and> buffer_size_after_limit c = 0 then 1 else 0 :: nat)
        \<in> less_than <*lex*> less_than"
      proof (cases "buffer_size c = 0")
        case True
        then have "window c = []" by (simp add: window_def)
        with True limit r(5,8) b show ?thesis by auto
      next
        case False
        then have "window c \<noteq> []" using w(2) by auto
        then show ?thesis using r(5) by simp
      qed
      from 1(1) [OF this moved_ok [OF r(2)], of "n - buffer_size c" "out @ window c"] True
      obtain c'' where c'': "copy_loop ops (out @ window c) (n - buffer_size c) c' =
          Some (n - buffer_size c \<le> int (length (ci_view c')), (out @ window c) @ take (nat (n - buffer_size c)) (ci_view c'), c'')"
        "ci_moved (min (nat (n - buffer_size c)) (length (ci_view c'))) c' c''"
        "last_tag c'' = last_tag c'" "legitimate_message_end c'' = legitimate_message_end c'" by auto
      have "copy_loop ops out n c = copy_loop ops (out @ window c) (n - buffer_size c) c'"
        using True b r(1) by (subst copy_loop.simps) (simp add: Let_def)
      moreover have "n - buffer_size c \<le> int (length (ci_view c')) \<longleftrightarrow> n \<le> int (length (ci_view c))"
        using w(2) r(5) by simp linarith
      moreover have "length (window c) + min (nat (n - buffer_size c)) (length (ci_view c')) = min (nat n) (length (ci_view c))"
        using n r(5) by (simp add: nat_diff_distrib)
      ultimately show ?thesis
        using c'' r(3,4) split moved_trans [OF r(2) c''(2)] by (intro exI [of _ c'']) simp
    qed
  qed
qed

end

end
