(* ===== verification/Coded_Input_Read.thy ===== *)
theory Coded_Input_Read
  imports Coded_Input_Correct
begin

text \<open>
  What the reading operations of \<open>CodedInputStream\<close> return, as functions of the view: raw bytes and strings,
  little-endian integers, varints by their fast and slow paths, sizes, tags; then the limits and the
  recursion depth around embedded messages.
\<close>

section \<open>Bytes of varints and fixed-width integers\<close>

lemma byte_and_80: "b AND 0x80 = 0 \<longleftrightarrow> b < 128" for b :: byte
proof -
  have "(ucast b :: uint32) AND 0x80 = 0 \<longleftrightarrow> \<not> bit b 7"
    using and_exp_eq_0_iff_not_bit [of "ucast b :: uint32" 7] by (simp add: bit_ucast_iff)
  moreover have "b AND 0x80 = 0 \<longleftrightarrow> \<not> bit b 7"
    using and_exp_eq_0_iff_not_bit [of b 7] by simp
  ultimately show ?thesis using and_80_zero [of b] by simp
qed

lemma unat_and_7F: "unat (b AND 0x7F) = unat b mod 128" for b :: byte
proof -
  have "b AND 0x7F = take_bit 7 b" by (simp add: take_bit_eq_mask mask_numeral)
  then show ?thesis by (simp only: unsigned_take_bit_eq) (simp add: take_bit_eq_mod)
qed

lemma or_push_of_nat:
  assumes "acc < 2 ^ j"
  shows "of_nat acc OR push_bit j (of_nat d) = (of_nat (acc + 2 ^ j * d) :: 'a::len word)"
proof -
  have "acc + 2 ^ j * d = acc OR push_bit j d"
    using add_eq_or [OF assms, of d] by (simp add: or.commute push_bit_eq_mult mult.commute add.commute)
  then show ?thesis by (simp only: of_nat_or_eq push_bit_of_nat)
qed

lemma slow_digit:
  fixes b :: byte
  assumes "acc < 128 ^ k"
  shows "of_nat acc OR push_bit (7 * k) (ucast (b AND 0x7F)) = (of_nat (acc + 128 ^ k * (unat b mod 128)) :: uint64)"
proof -
  have p: "(2 :: nat) ^ (7 * k) = 128 ^ k" by (simp add: power_mult)
  have "ucast (b AND 0x7F) = (of_nat (unat b mod 128) :: uint64)"
    by (simp only: ucast_of_nat [of "b AND 0x7F"] unat_and_7F)
  moreover have "acc < 2 ^ (7 * k)" using assms by (simp only: p)
  from or_push_of_nat [OF this, of "unat b mod 128", where 'a = 64]
  have "of_nat acc OR push_bit (7 * k) (of_nat (unat b mod 128)) = (of_nat (acc + 128 ^ k * (unat b mod 128)) :: uint64)"
    by (simp only: p)
  ultimately show ?thesis by (simp only:)
qed

text \<open>Little-endian bytes as a number.\<close>

fun le_nat :: "byte list \<Rightarrow> nat" where
  "le_nat [] = 0"
| "le_nat (b # bs) = unat b + 256 * le_nat bs"

lemma le_nat_bound: "le_nat bs < 256 ^ length bs"
proof (induction bs)
  case (Cons b bs)
  have "unat b < 256" using unsigned_less [of b, where 'a = nat] by simp
  with Cons show ?case by simp
qed simp

lemma le_nat_append: "le_nat (xs @ ys) = le_nat xs + 256 ^ length xs * le_nat ys"
  by (induction xs) (simp_all add: algebra_simps)

lemma le_word:
  "ucast a OR push_bit 8 (ucast b) OR push_bit 16 (ucast c) OR push_bit 24 (ucast d) = (of_nat (le_nat [a, b, c, d]) :: uint32)"
  for a b c d :: byte
proof -
  have lt: "le_nat [a] < 2 ^ 8" "le_nat [a, b] < 2 ^ 16" "le_nat [a, b, c] < 2 ^ 24"
    using le_nat_bound [of "[a]"] le_nat_bound [of "[a, b]"] le_nat_bound [of "[a, b, c]"] by simp_all
  have step: "of_nat (le_nat xs) OR push_bit (8 * length xs) (ucast y) = (of_nat (le_nat (xs @ [y])) :: uint32)" for xs y
  proof -
    have "(2 :: nat) ^ (8 * length xs) = 256 ^ length xs" by (simp add: power_mult)
    then show ?thesis
      using or_push_of_nat [of "le_nat xs" "8 * length xs" "unat y"] le_nat_bound [of xs]
      by (simp only: ucast_of_nat [of y] le_nat_append le_nat.simps) simp
  qed
  have "ucast a = (of_nat (le_nat [a]) :: uint32)" by simp
  then show ?thesis
    using step [of "[a]" b] step [of "[a, b]" c] step [of "[a, b, c]" d]
    by (simp only: or.assoc [symmetric] list.size append.simps) simp
qed

lemma first_four: "4 \<le> length p \<Longrightarrow> take 4 p = [p ! 0, p ! 1, p ! 2, p ! 3]"
  by (cases p; cases "tl p"; cases "tl (tl p)"; cases "tl (tl (tl p))") (auto simp: numeral_eq_Suc)

lemma ReadLittleEndian32FromArray_val:
  "4 \<le> length p \<Longrightarrow> ReadLittleEndian32FromArray p = of_nat (le_nat (take 4 p))"
  by (simp only: ReadLittleEndian32FromArray_def first_four le_word)

lemma ReadLittleEndian64FromArray_val:
  assumes "8 \<le> length p"
  shows "ReadLittleEndian64FromArray p = of_nat (le_nat (take 8 p))"
proof -
  have "drop 4 p ! 0 = p ! 4" "drop 4 p ! 1 = p ! 5" "drop 4 p ! 2 = p ! 6" "drop 4 p ! 3 = p ! 7"
    using assms by simp_all
  moreover have "take 4 (drop 4 p) = [drop 4 p ! 0, drop 4 p ! 1, drop 4 p ! 2, drop 4 p ! 3]"
    by (rule first_four) (use assms in simp)
  moreover have "take 4 p = [p ! 0, p ! 1, p ! 2, p ! 3]" by (rule first_four) (use assms in simp)
  ultimately have parts: "ReadLittleEndian64FromArray p =
      ucast (of_nat (le_nat (take 4 p)) :: uint32) OR push_bit 32 (ucast (of_nat (le_nat (take 4 (drop 4 p))) :: uint32))"
    by (simp only: ReadLittleEndian64FromArray_def Let_def le_word)
  have small: "le_nat (take 4 p) < 2 ^ 32" "le_nat (take 4 (drop 4 p)) < 2 ^ 32"
    using le_nat_bound [of "take 4 p"] le_nat_bound [of "take 4 (drop 4 p)"] assms by simp_all
  have "n < 2 ^ 32 \<Longrightarrow> ucast (of_nat n :: uint32) = (of_nat n :: uint64)" for n
    by (simp only: ucast_of_nat unat_of_nat) simp
  with small have "ReadLittleEndian64FromArray p = of_nat (le_nat (take 4 p) + 2 ^ 32 * le_nat (take 4 (drop 4 p)))"
    by (simp only: parts or_push_of_nat [OF small(1)])
  also have "take 8 p = take 4 p @ take 4 (drop 4 p)"
    using take_add [of 4 4 p] by simp
  then have "le_nat (take 4 p) + 2 ^ 32 * le_nat (take 4 (drop 4 p)) = le_nat (take 8 p)"
    using assms by (simp add: le_nat_append)
  finally show ?thesis .
qed

lemma parse_varint_append:
  "parse_varint k (w @ m) = (case parse_varint k w of VarintOk v p \<Rightarrow> VarintOk v (p @ m) | VarintBad \<Rightarrow> VarintBad
     | VarintPastEnd \<Rightarrow> parse_varint k (w @ m))"
proof (induction k w rule: parse_varint.induct)
  case (3 k b bs)
  show ?case
  proof (cases "b < 128")
    case False
    with "3.IH" show ?thesis by (cases "parse_varint k bs") simp_all
  qed simp
qed simp_all

lemma unat_ucast_up_byte: "unat (ucast (b :: byte) :: uint32) = unat b"
proof -
  have "unat b < 256" using unsigned_less [of b, where 'a = nat] by simp
  then show ?thesis by (simp add: unsigned_ucast_eq take_bit_nat_eq_self)
qed

lemma ucast_64_32: "(ucast (of_nat v :: uint64) :: uint32) = of_nat v"
proof -
  have "v mod 2 ^ 64 mod 2 ^ 32 = v mod 2 ^ 32" by (rule mod_mod_cancel) simp
  then show ?thesis by (simp only: word_unat_eq_iff ucast_of_nat unat_of_nat) simp
qed

section \<open>Reading a varint\<close>

text \<open>A reader of a varint that moves behind it, or fails somewhere.\<close>

definition varint_read_ok ::
    "'s ZeroCopyInputStream \<Rightarrow> ('s \<Rightarrow> bool) \<Rightarrow> ('s \<Rightarrow> byte list) \<Rightarrow> ('s \<Rightarrow> byte list) \<Rightarrow> nat \<Rightarrow>
     'v option \<Rightarrow> (nat \<Rightarrow> 'v) \<Rightarrow> 's CodedInputStream \<Rightarrow> 's CodedInputStream \<Rightarrow> bool" where
  "varint_read_ok ops ok rest given n r f c c' \<longleftrightarrow>
     (case parse_varint n (view rest given c) of
        VarintOk v p \<Rightarrow> r = Some (f v) \<and> moved ops ok rest given (length (view rest given c) - length p) c c' \<and>
          view rest given c' = p
      | _ \<Rightarrow> r = None \<and> (\<exists>k. moved ops ok rest given k c c')) \<and>
     last_tag c' = last_tag c \<and> legitimate_message_end c' = legitimate_message_end c"

context zero_copy_input
begin

abbreviation "ci_varint \<equiv> varint_read_ok ops ok rest given"

lemma varint_read_map: "ci_varint n r f c c' \<Longrightarrow> ci_varint n (map_option g r) (\<lambda>v. g (f v)) c c'"
  by (auto simp: varint_read_ok_def split: varint_read.splits)

lemma parse_varint_suffix: "parse_varint n bs = VarintOk v p \<Longrightarrow> drop (length bs - length p) bs = p \<and> length p \<le> length bs"
  using parse_varint_ok [of n bs v p] by auto

lemma refill_done: "buffer_size c \<noteq> 0 \<Longrightarrow> refill ops c = Some (True, c)"
  by (subst refill.simps) simp

lemma refill_step:
  "buffer_size c = 0 \<Longrightarrow> Refresh ops c = Some (b, c') \<Longrightarrow>
    refill ops c = (if b then refill ops c' else Some (False, c'))"
  by (subst refill.simps) simp

lemma refill_spec:
  assumes "ci_ok c"
  shows "\<exists>c'. refill ops c = Some (ci_view c \<noteq> [], c') \<and> ci_moved 0 c c' \<and> (ci_view c \<noteq> [] \<longrightarrow> 0 < buffer_size c') \<and>
    last_tag c' = last_tag c \<and> legitimate_message_end c' = legitimate_message_end c"
proof (cases "buffer_size c = 0")
  case False
  have f: "fields_ok c" using assms by (simp add: coded_ok_def)
  then have "0 < buffer_size c" using False unfolding fields_ok_def by linarith
  moreover have "ci_view c \<noteq> []" using view_empty [OF f] False by blast
  ultimately show ?thesis
    using refill_done [OF False] moved_refl [OF assms] by (intro exI [of _ c]) simp
next
  case True
  obtain b c' where r: "Refresh ops c = Some (b, c')" "ci_moved 0 c c'"
    "last_tag c' = last_tag c" "legitimate_message_end c' = legitimate_message_end c"
    "buffer_size c' = 0 \<Longrightarrow> ci_view c = []" "\<not> b \<Longrightarrow> buffer_size c' = 0"
    "b \<Longrightarrow> buffer_size c' = 0 \<Longrightarrow> buffer_size_after_limit c' > 0"
    by (rule Refresh_spec [OF assms True]) blast
  have f: "fields_ok c'" using moved_ok [OF r(2)] by (simp add: coded_ok_def)
  have v: "ci_view c' = ci_view c" using moved_view [OF r(2)] by simp
  show ?thesis
  proof (cases "buffer_size c' = 0")
    case False
    then have b: "b" "0 < buffer_size c'" using r(6) f unfolding fields_ok_def by linarith+
    have "ci_view c \<noteq> []" using view_empty [OF f] v False by metis
    moreover have "refill ops c = Some (True, c')" using refill_step [OF True r(1)] refill_done [OF False] b by simp
    ultimately show ?thesis using r(2-4) b by (intro exI [of _ c']) simp
  next
    case z: True
    with r(5) have "ci_view c = []" by blast
    moreover have "refill ops c = Some (False, c')"
    proof (cases b)
      case b: True
      with z r(7) have "Refresh ops c' = Some (False, c')" by (intro Refresh_at_limit) blast
      from refill_step [OF True r(1)] refill_step [OF z this] b show ?thesis by simp
    qed (use refill_step [OF True r(1)] in simp)
    ultimately show ?thesis using r(2-4) by (intro exI [of _ c']) simp
  qed
qed

lemma slow_loop_spec:
  assumes "ci_ok c" "count \<le> 10" "acc < 128 ^ count"
  shows "\<exists>r c'. slow_loop ops (of_nat acc) count c = Some (r, c') \<and>
    ci_varint (10 - count) r (\<lambda>v. of_nat (acc + 128 ^ count * v)) c c'"
  using assms
proof (induction "10 - count" arbitrary: c count acc)
  case 0
  then have "count = 10" by simp
  with moved_refl [OF 0(2)] show ?case
    by (subst slow_loop.simps) (auto simp: kMaxVarintBytes_def varint_read_ok_def)
next
  case (Suc m)
  then have count: "count \<noteq> kMaxVarintBytes" "10 - count = Suc (10 - Suc count)" "m = 10 - Suc count" "Suc count \<le> 10"
    by (simp_all add: kMaxVarintBytes_def)
  obtain c1 where c1: "refill ops c = Some (ci_view c \<noteq> [], c1)" "ci_moved 0 c c1" "ci_view c \<noteq> [] \<longrightarrow> 0 < buffer_size c1"
    "last_tag c1 = last_tag c" "legitimate_message_end c1 = legitimate_message_end c" using refill_spec [OF Suc(3)] by blast
  show ?case
  proof (cases "ci_view c")
    case Nil
    with count(1) c1 have "slow_loop ops (of_nat acc) count c = Some (None, c1)" by (subst slow_loop.simps) simp
    with Nil c1 show ?thesis unfolding count(2) by (auto simp: varint_read_ok_def)
  next
    case (Cons b bs)
    have f1: "fields_ok c1" using moved_ok [OF c1(2)] by (simp add: coded_ok_def)
    have "ci_view c1 = b # bs" using moved_view [OF c1(2)] Cons by simp
    with window_nth [OF f1] c1(3) Cons have b: "buffer c1 ! 0 = b" "0 < buffer_size c1" by simp_all
    let ?c2 = "Advance 1 c1"
    have m2: "ci_moved 1 c ?c2" using moved_trans [OF c1(2) Advance_moved [OF moved_ok [OF c1(2)], of 1]] b(2) by simp
    have v2: "ci_view ?c2 = bs" using moved_view [OF m2] Cons by simp
    let ?acc = "acc + 128 ^ count * (unat b mod 128)"
    have step: "slow_loop ops (of_nat acc) count c =
        (if b < 128 then Some (Some (of_nat ?acc), ?c2) else slow_loop ops (of_nat ?acc) (Suc count) ?c2)"
      using count(1) c1 b Cons
      by (subst slow_loop.simps) (simp add: Let_def byte_and_80 slow_digit [OF Suc(5)] del: of_nat_add of_nat_mult)
    show ?thesis
    proof (cases "b < 128")
      case True
      then have "unat b mod 128 = unat b" by (simp add: word_less_nat_alt)
      with True step m2 v2 c1 Cons show ?thesis
        unfolding count(2) by (auto simp: varint_read_ok_def)
    next
      case False
      then have d: "unat b mod 128 = unat b - 128"
        using unat_128_le [of b] unsigned_less [of b, where 'a = nat] by (simp add: mod_if)
      have "?acc < 128 ^ Suc count"
      proof -
        have "unat b mod 128 + 1 \<le> 128" by (simp add: Suc_le_eq)
        then have "128 ^ count * (unat b mod 128 + 1) \<le> 128 ^ count * 128" by (rule mult_le_mono2)
        then show ?thesis using Suc(5) unfolding power_Suc2 distrib_left by linarith
      qed
      from Suc(1) [OF count(3) moved_ok [OF m2] count(4) this] obtain r c' where
        r: "slow_loop ops (of_nat ?acc) (Suc count) ?c2 = Some (r, c')"
        "ci_varint (10 - Suc count) r (\<lambda>v. of_nat (?acc + 128 ^ Suc count * v)) ?c2 c'" by blast
      have value_eq: "acc + 128 ^ count * (unat b - 128 + 128 * v) = ?acc + 128 ^ Suc count * v" for v
        by (simp add: d algebra_simps)
      have "ci_varint (10 - count) r (\<lambda>v. of_nat (acc + 128 ^ count * v)) c c'"
      proof (cases "parse_varint (10 - Suc count) bs")
        case (VarintOk v p)
        then have "ci_moved (length bs - length p) ?c2 c'" using r(2) v2 by (simp add: varint_read_ok_def)
        from moved_trans [OF m2 this] have "ci_moved (1 + (length bs - length p)) c c'" .
        moreover have "1 + (length bs - length p) = length (b # bs) - length p"
          using parse_varint_suffix [OF VarintOk] by (simp add: Suc_diff_le)
        ultimately show ?thesis
          using VarintOk r(2) v2 Cons False c1(4,5) unfolding count(2)
          by (simp add: varint_read_ok_def value_eq del: of_nat_add of_nat_mult)
      next
        case VarintBad
        then obtain k where "ci_moved k ?c2 c'" "r = None" using r(2) v2 by (auto simp: varint_read_ok_def)
        with moved_trans [OF m2 this(1)] VarintBad r(2) v2 Cons False c1(4,5) show ?thesis
          unfolding count(2) by (auto simp: varint_read_ok_def)
      next
        case VarintPastEnd
        then obtain k where "ci_moved k ?c2 c'" "r = None" using r(2) v2 by (auto simp: varint_read_ok_def)
        with moved_trans [OF m2 this(1)] VarintPastEnd r(2) v2 Cons False c1(4,5) show ?thesis
          unfolding count(2) by (auto simp: varint_read_ok_def)
      qed
      with r(1) step False show ?thesis by auto
    qed
  qed
qed

lemma ReadVarint64Slow_spec:
  assumes "ci_ok c"
  shows "\<exists>r c'. ReadVarint64Slow ops c = Some (r, c') \<and> ci_varint 10 r of_nat c c'"
  using slow_loop_spec [OF assms, of 0 0] by (simp add: ReadVarint64Slow_def)

lemma from_array_spec:
  assumes "ci_ok c" "parse_varint 10 (window c) \<noteq> VarintPastEnd"
  shows "\<exists>r c'. from_array (map_varint f (parse_varint 10 (window c))) c = Some (r, c') \<and>
    ci_varint 10 r f c c' \<and> (r = None \<longrightarrow> c' = c)"
proof -
  have f: "fields_ok c" using assms(1) by (simp add: coded_ok_def)
  define more where "more = take (nat (closest_limit c - total_bytes_read c)) (ci_future c)"
  note w = view_window [OF f, folded more_def]
  show ?thesis
  proof (cases "parse_varint 10 (window c)")
    case (VarintOk v p)
    note suffix = parse_varint_suffix [OF VarintOk]
    let ?n = "length (window c) - length p"
    have n: "buffer_size c - int (length p) = int ?n" "length (window c @ more) - length (p @ more) = ?n"
      using w(2) suffix by auto
    have m: "ci_moved ?n c (Advance (int ?n) c)" by (rule Advance_moved [OF assms(1)]) (use w(2) in auto)
    have "ci_view (Advance (int ?n) c) = p @ more" using moved_view [OF m] w(1) suffix by simp
    moreover have "parse_varint 10 (ci_view c) = VarintOk v (p @ more)"
      unfolding w(1) using parse_varint_append [of 10 "window c" more] VarintOk by simp
    ultimately have "ci_varint 10 (Some (f v)) f c (Advance (int ?n) c)"
      using m n(2) w(1) by (simp add: varint_read_ok_def)
    moreover have "from_array (map_varint f (parse_varint 10 (window c))) c = Some (Some (f v), Advance (int ?n) c)"
      using n(1) by (simp add: from_array_def VarintOk)
    ultimately show ?thesis by blast
  next
    case VarintBad
    then have "parse_varint 10 (ci_view c) = VarintBad"
      unfolding w(1) using parse_varint_append [of 10 "window c" more] by simp
    then have "ci_varint 10 None f c c" using moved_refl [OF assms(1)] by (auto simp: varint_read_ok_def)
    with VarintBad show ?thesis by (auto simp: from_array_def)
  qed (use assms(2) in simp)
qed

text \<open>The guard of the fast path, and the first byte, which its callers have seen.\<close>

lemma fast_path_parse:
  fixes c :: "'s CodedInputStream"
  assumes "fields_ok c" "fast_path c"
  shows "parse_varint 10 (window c) \<noteq> VarintPastEnd" "0 < buffer_size c"
    "\<exists>bs. window c = buffer c ! 0 # bs"
proof -
  note w = view_window(2) [OF assms(1)]
  show size: "0 < buffer_size c" using assms(2) by (auto simp: fast_path_def kMaxVarintBytes_def)
  then have ne: "window c \<noteq> []" using window_nth [OF assms(1)] by simp
  show "\<exists>bs. window c = buffer c ! 0 # bs"
    using ne size by (cases "buffer c"; cases "nat (buffer_size c)") (auto simp: window_def)
  show "parse_varint 10 (window c) \<noteq> VarintPastEnd"
  proof
    assume "parse_varint 10 (window c) = VarintPastEnd"
    then have "length (window c) < 10" "\<forall>b \<in> set (window c). \<not> b < 128" unfolding parse_varint_past_end by simp_all
    moreover have "last (window c) \<in> set (window c)" using ne by simp
    ultimately show False
      using assms(2) w by (auto simp: fast_path_def kMaxVarintBytes_def byte_and_80)
  qed
qed

lemma ReadVarint64Fallback_spec:
  assumes "ci_ok c" "buffer_size c > 0 \<Longrightarrow> \<not> buffer c ! 0 < 128"
  shows "\<exists>r c'. ReadVarint64Fallback ops c = Some (r, c') \<and> ci_varint 10 r of_nat c c'"
proof (cases "fast_path c")
  case True
  have f: "fields_ok c" using assms(1) by (simp add: coded_ok_def)
  obtain bs where bs: "window c = buffer c ! 0 # bs" using fast_path_parse(3) [OF f True] by blast
  have "ReadVarint64FromArray (window c) = map_varint of_nat (parse_varint 10 (window c))"
    using ReadVarint64FromArray_parse [of "window c"] bs assms(2) fast_path_parse(2) [OF f True] by simp
  with True from_array_spec [OF assms(1) fast_path_parse(1) [OF f True], of of_nat] show ?thesis
    by (auto simp: ReadVarint64Fallback_def)
next
  case False
  with ReadVarint64Slow_spec [OF assms(1)] show ?thesis by (simp add: ReadVarint64Fallback_def)
qed

text \<open>One byte below 128 is the whole varint.\<close>

lemma one_byte:
  assumes "ci_ok c" "buffer_size c > 0" "buffer c ! 0 < 128" "0 < n"
  shows "ci_varint n (Some (f (unat (buffer c ! 0)))) f c (Advance 1 c)"
proof -
  have f: "fields_ok c" using assms(1) by (simp add: coded_ok_def)
  from window_nth [OF f assms(2)] obtain bs where v: "ci_view c = buffer c ! 0 # bs" by (cases "ci_view c") auto
  have m: "ci_moved 1 c (Advance 1 c)" using Advance_moved [OF assms(1), of 1] assms(2) by simp
  with moved_view [OF m] v assms(3,4) show ?thesis by (cases n) (simp_all add: varint_read_ok_def)
qed

lemma ReadVarint64_spec:
  assumes "ci_ok c"
  shows "\<exists>r c'. ReadVarint64 ops c = Some (r, c') \<and> ci_varint 10 r of_nat c c'"
proof (cases "buffer_size c > 0 \<and> buffer c ! 0 < 128")
  case True
  with one_byte [OF assms, of 10 of_nat] show ?thesis by (auto simp: ReadVarint64_def)
next
  case False
  with ReadVarint64Fallback_spec [OF assms] show ?thesis by (auto simp: ReadVarint64_def)
qed

lemma ReadVarint32Fallback_spec:
  assumes "ci_ok c" "buffer_size c > 0 \<Longrightarrow> \<not> buffer c ! 0 < 128 \<and> first = ucast (buffer c ! 0)"
  shows "\<exists>r c'. ReadVarint32Fallback ops first c = Some (r, c') \<and> ci_varint 10 r of_nat c c'"
proof (cases "fast_path c")
  case True
  have f: "fields_ok c" using assms(1) by (simp add: coded_ok_def)
  obtain bs where bs: "window c = buffer c ! 0 # bs" using fast_path_parse(3) [OF f True] by blast
  have "ReadVarint32FromArray first (window c) = map_varint of_nat (parse_varint 10 (window c))"
    using ReadVarint32FromArray_parse [of "buffer c ! 0" bs] assms(2) fast_path_parse(2) [OF f True] by (simp add: bs)
  with True from_array_spec [OF assms(1) fast_path_parse(1) [OF f True], of of_nat] show ?thesis
    by (auto simp: ReadVarint32Fallback_def)
next
  case False
  obtain r c' where r: "ReadVarint64Fallback ops c = Some (r, c')" "ci_varint 10 r of_nat c c'"
    using ReadVarint64Fallback_spec [OF assms(1)] assms(2) by blast
  note ucast_64_32 [simp]
  with varint_read_map [OF r(2), of "ucast :: uint64 \<Rightarrow> uint32"] False r(1) show ?thesis
    by (simp add: ReadVarint32Fallback_def ReadVarint32Slow_def)
qed

lemma ReadVarint32_spec:
  assumes "ci_ok c"
  shows "\<exists>r c'. ReadVarint32 ops c = Some (r, c') \<and> ci_varint 10 r of_nat c c'"
proof (cases "buffer_size c > 0 \<and> buffer c ! 0 < 128")
  case True
  with one_byte [OF assms, of 10 of_nat] show ?thesis by (auto simp: ReadVarint32_def)
next
  case False
  with ReadVarint32Fallback_spec [OF assms] show ?thesis by (auto simp: ReadVarint32_def)
qed

end

section \<open>Sizes and fixed-width integers\<close>

text \<open>A size above \<open>INT_MAX\<close> is refused, after reducing it modulo the 64 bits of the accumulator.\<close>

definition size_read_ok ::
    "'s ZeroCopyInputStream \<Rightarrow> ('s \<Rightarrow> bool) \<Rightarrow> ('s \<Rightarrow> byte list) \<Rightarrow> ('s \<Rightarrow> byte list) \<Rightarrow>
     int option \<Rightarrow> 's CodedInputStream \<Rightarrow> 's CodedInputStream \<Rightarrow> bool" where
  "size_read_ok ops ok rest given r c c' \<longleftrightarrow>
     (case parse_varint 10 (view rest given c) of
        VarintOk v p \<Rightarrow>
          if int (v mod 2 ^ 64) \<le> INT_MAX
          then r = Some (int (v mod 2 ^ 64)) \<and> moved ops ok rest given (length (view rest given c) - length p) c c' \<and>
            view rest given c' = p
          else r = None \<and> (\<exists>k. moved ops ok rest given k c c')
      | _ \<Rightarrow> r = None \<and> (\<exists>k. moved ops ok rest given k c c')) \<and>
     last_tag c' = last_tag c \<and> legitimate_message_end c' = legitimate_message_end c"

lemma uint_of_nat_64: "uint (of_nat v :: uint64) = int (v mod 2 ^ 64)"
  by (simp only: unsigned_of_nat) (simp add: take_bit_eq_mod)

context zero_copy_input
begin

abbreviation "ci_size \<equiv> size_read_ok ops ok rest given"

lemma varint_to_size:
  assumes "ci_varint 10 r of_nat c c'" "ci_ok c"
    "c'' = c' \<or> c'' = c \<and> (\<forall>v. r = Some v \<longrightarrow> uint (v :: uint64) > INT_MAX)"
  shows "ci_size (case r of None \<Rightarrow> None | Some v \<Rightarrow> if uint v > INT_MAX then None else Some (uint v)) c c''"
proof -
  have same: "last_tag c'' = last_tag c" "legitimate_message_end c'' = legitimate_message_end c"
    using assms(1,3) by (auto simp: varint_read_ok_def)
  show ?thesis
  proof (cases "parse_varint 10 (ci_view c)")
    case (VarintOk v p)
    with assms(1) have v: "r = Some (of_nat v)" "ci_moved (length (ci_view c) - length p) c c'" "ci_view c' = p"
      by (simp_all add: varint_read_ok_def)
    show ?thesis
    proof (cases "int (v mod 2 ^ 64) \<le> INT_MAX")
      case True
      with assms(3) v(1) have "c'' = c'" by (auto simp only: uint_of_nat_64 option.inject)
      with True v VarintOk same show ?thesis by (simp add: size_read_ok_def uint_of_nat_64 del: of_nat_mod)
    next
      case False
      have "\<exists>k. ci_moved k c c''" using assms(3) v(2) moved_refl [OF assms(2)] by blast
      with False v VarintOk same show ?thesis by (simp add: size_read_ok_def uint_of_nat_64 del: of_nat_mod)
    qed
  next
    case VarintBad
    then show ?thesis using assms same moved_refl [OF assms(2)] by (auto simp: size_read_ok_def varint_read_ok_def)
  next
    case VarintPastEnd
    then show ?thesis using assms same moved_refl [OF assms(2)] by (auto simp: size_read_ok_def varint_read_ok_def)
  qed
qed

lemma ReadVarintSizeAsIntFallback_spec:
  assumes "ci_ok c" "buffer_size c > 0 \<Longrightarrow> \<not> buffer c ! 0 < 128"
  shows "\<exists>v c'. ReadVarintSizeAsIntFallback ops c = Some (v, c') \<and> ci_size (if v \<ge> 0 then Some v else None) c c'"
proof (cases "fast_path c")
  case True
  have f: "fields_ok c" using assms(1) by (simp add: coded_ok_def)
  obtain bs where bs: "window c = buffer c ! 0 # bs" using fast_path_parse(3) [OF f True] by blast
  have parse: "ReadVarint64FromArray (window c) = map_varint of_nat (parse_varint 10 (window c))"
    using ReadVarint64FromArray_parse [of "window c"] bs assms(2) fast_path_parse(2) [OF f True] by simp
  obtain r c' where r: "from_array (map_varint of_nat (parse_varint 10 (window c))) c = Some (r, c')"
    "ci_varint 10 r (of_nat :: nat \<Rightarrow> uint64) c c'" "r = None \<longrightarrow> c' = c"
    using from_array_spec [OF assms(1) fast_path_parse(1) [OF f True], of of_nat] by blast
  let ?big = "r \<noteq> None \<and> uint (the r) > INT_MAX"
  have "ci_size (case r of None \<Rightarrow> None | Some v \<Rightarrow> if uint v > INT_MAX then None else Some (uint v)) c (if ?big then c else c')"
    by (rule varint_to_size [OF r(2) assms(1)]) auto
  with True r parse show ?thesis by (cases r) (auto simp: ReadVarintSizeAsIntFallback_def)
next
  case False
  obtain r c' where r: "ReadVarint64Fallback ops c = Some (r, c')" "ci_varint 10 r of_nat c c'"
    using ReadVarint64Fallback_spec [OF assms] by blast
  with varint_to_size [OF r(2) assms(1), of c'] False show ?thesis
    by (cases r) (auto simp: ReadVarintSizeAsIntFallback_def ReadVarintSizeAsIntSlow_def)
qed

lemma ReadVarintSizeAsInt_spec:
  assumes "ci_ok c"
  shows "\<exists>r c'. ReadVarintSizeAsInt ops c = Some (r, c') \<and> ci_size r c c'"
proof (cases "buffer_size c > 0 \<and> buffer c ! 0 < 128")
  case True
  then have "ci_varint 10 (Some (of_nat (unat (buffer c ! 0)) :: uint64)) of_nat c (Advance 1 c)"
    by (intro one_byte [OF assms]) simp_all
  from varint_to_size [OF this assms, of "Advance 1 c"]
  have "ci_size (if uint (ucast (buffer c ! 0) :: uint64) > INT_MAX then None else Some (uint (ucast (buffer c ! 0) :: uint64))) c (Advance 1 c)"
    by simp
  moreover have small: "uint (buffer c ! 0) < 256" using unsigned_less [of "buffer c ! 0", where 'a = int] by simp
  moreover from small have "uint (ucast (buffer c ! 0) :: uint64) = uint (buffer c ! 0)"
    by (simp add: unsigned_ucast_eq take_bit_int_eq_self_iff)
  ultimately show ?thesis using True by (simp add: ReadVarintSizeAsInt_def)
next
  case False
  with ReadVarintSizeAsIntFallback_spec [OF assms] show ?thesis by (auto simp: ReadVarintSizeAsInt_def)
qed

lemma ReadRaw_spec:
  assumes "ci_ok c" "0 \<le> n"
  shows "\<exists>c'. ReadRaw ops n c = Some (n \<le> int (length (ci_view c)), take (nat n) (ci_view c), c') \<and>
    ci_moved (min (nat n) (length (ci_view c))) c c' \<and>
    last_tag c' = last_tag c \<and> legitimate_message_end c' = legitimate_message_end c"
  using copy_loop_spec [OF assms, of "[]"] assms(2) by (simp add: ReadRaw_def)

lemma ReadString_spec:
  assumes "ci_ok c" "0 \<le> n"
  shows "\<exists>c'. ReadString ops str n c = Some (n \<le> int (length (ci_view c)), take (nat n) (ci_view c), c') \<and>
    ci_moved (min (nat n) (length (ci_view c))) c c' \<and>
    last_tag c' = last_tag c \<and> legitimate_message_end c' = legitimate_message_end c"
proof (cases "buffer_size c \<ge> n")
  case True
  with Advance_inside [OF assms True] assms(2) show ?thesis by (simp add: ReadString_def)
next
  case False
  with copy_loop_spec [OF assms, of "[]"] assms(2) show ?thesis by (simp add: ReadString_def ReadStringFallback_def)
qed

text \<open>Both widths of little-endian integers: the buffer when it is long enough, else a raw read.\<close>

lemma buffer_prefix:
  assumes "ci_ok c" "int n \<le> buffer_size c"
  shows "n \<le> length (buffer c)" "take n (buffer c) = take n (ci_view c)" "n \<le> length (ci_view c)" "ci_moved n c (Advance (int n) c)"
proof -
  note a = Advance_inside [OF assms(1) _ assms(2)]
  show "take n (buffer c) = take n (ci_view c)" "n \<le> length (ci_view c)" using a(2,3) by simp_all
  show "n \<le> length (buffer c)" using assms after_nonneg [of c] unfolding coded_ok_def fields_ok_def by linarith
  show "ci_moved n c (Advance (int n) c)" by (rule Advance_moved [OF assms])
qed

lemma ReadLittleEndian32_spec:
  assumes "ci_ok c"
  shows "\<exists>c'. ReadLittleEndian32 ops c =
      Some (if 4 \<le> length (ci_view c) then Some (of_nat (le_nat (take 4 (ci_view c)))) else None, c') \<and>
    ci_moved (min 4 (length (ci_view c))) c c' \<and>
    last_tag c' = last_tag c \<and> legitimate_message_end c' = legitimate_message_end c"
proof (cases "buffer_size c \<ge> 4")
  case True
  with buffer_prefix [OF assms, of 4] show ?thesis
    by (simp add: ReadLittleEndian32_def ReadLittleEndian32FromArray_val)
next
  case False
  obtain c' where c': "ReadRaw ops 4 c = Some (4 \<le> int (length (ci_view c)), take 4 (ci_view c), c')"
    "ci_moved (min 4 (length (ci_view c))) c c'" "last_tag c' = last_tag c" "legitimate_message_end c' = legitimate_message_end c"
    using ReadRaw_spec [OF assms, of 4] by auto
  with False show ?thesis
    by (simp add: ReadLittleEndian32_def ReadLittleEndian32Fallback_def ReadLittleEndian32FromArray_val)
qed

lemma ReadLittleEndian64_spec:
  assumes "ci_ok c"
  shows "\<exists>c'. ReadLittleEndian64 ops c =
      Some (if 8 \<le> length (ci_view c) then Some (of_nat (le_nat (take 8 (ci_view c)))) else None, c') \<and>
    ci_moved (min 8 (length (ci_view c))) c c' \<and>
    last_tag c' = last_tag c \<and> legitimate_message_end c' = legitimate_message_end c"
proof (cases "buffer_size c \<ge> 8")
  case True
  with buffer_prefix [OF assms, of 8] show ?thesis
    by (simp add: ReadLittleEndian64_def ReadLittleEndian64FromArray_val)
next
  case False
  obtain c' where c': "ReadRaw ops 8 c = Some (8 \<le> int (length (ci_view c)), take 8 (ci_view c), c')"
    "ci_moved (min 8 (length (ci_view c))) c c'" "last_tag c' = last_tag c" "legitimate_message_end c' = legitimate_message_end c"
    using ReadRaw_spec [OF assms, of 8] by auto
  with False show ?thesis
    by (simp add: ReadLittleEndian64_def ReadLittleEndian64Fallback_def ReadLittleEndian64FromArray_val)
qed

end

section \<open>Tags\<close>

text \<open>At the end of the view a tag reads as zero, and whether the message may end there is decided by the
  limit that was hit: not at the total limit alone. Otherwise a tag is a varint of 32 bits, zero when malformed.\<close>

definition legitimate_end :: "'s CodedInputStream \<Rightarrow> bool" where
  "legitimate_end c \<longleftrightarrow> CurrentPosition c < total_bytes_limit c \<or> current_limit c = total_bytes_limit c"

definition tag_read_ok ::
    "'s ZeroCopyInputStream \<Rightarrow> ('s \<Rightarrow> bool) \<Rightarrow> ('s \<Rightarrow> byte list) \<Rightarrow> ('s \<Rightarrow> byte list) \<Rightarrow>
     uint32 \<Rightarrow> 's CodedInputStream \<Rightarrow> 's CodedInputStream \<Rightarrow> bool" where
  "tag_read_ok ops ok rest given tag c c' \<longleftrightarrow>
     (if view rest given c = [] then
        tag = 0 \<and> moved ops ok rest given 0 c c' \<and> (legitimate_end c \<longrightarrow> legitimate_message_end c') \<and>
        (legitimate_message_end c' \<longrightarrow> legitimate_message_end c \<or> legitimate_end c)
      else
        (case parse_varint 10 (view rest given c) of
           VarintOk v p \<Rightarrow> tag = of_nat v \<and> moved ops ok rest given (length (view rest given c) - length p) c c' \<and>
             view rest given c' = p
         | _ \<Rightarrow> tag = 0 \<and> (\<exists>k. moved ops ok rest given k c c')) \<and>
        legitimate_message_end c' = legitimate_message_end c) \<and>
     last_tag c' = last_tag c"

context zero_copy_input
begin

abbreviation "ci_tag \<equiv> tag_read_ok ops ok rest given"

lemma varint_to_tag:
  "ci_varint 10 r f c c' \<Longrightarrow> ci_view c \<noteq> [] \<Longrightarrow> (\<And>v. g (f v) = of_nat v) \<Longrightarrow>
    ci_tag (case r of None \<Rightarrow> 0 | Some v \<Rightarrow> g v) c c'"
  by (auto simp: varint_read_ok_def tag_read_ok_def split: varint_read.splits)

lemma tag_update:
  "fields_ok (c\<lparr>legitimate_message_end := b\<rparr>) = fields_ok c" "fields_ok (c\<lparr>last_tag := t\<rparr>) = fields_ok c"
  "ci_input_ok (c\<lparr>legitimate_message_end := b\<rparr>) = ci_input_ok c" "ci_input_ok (c\<lparr>last_tag := t\<rparr>) = ci_input_ok c"
  "ci_unread (c\<lparr>legitimate_message_end := b\<rparr>) = ci_unread c" "ci_unread (c\<lparr>last_tag := t\<rparr>) = ci_unread c"
  "CurrentPosition (c\<lparr>legitimate_message_end := b\<rparr>) = CurrentPosition c" "CurrentPosition (c\<lparr>last_tag := t\<rparr>) = CurrentPosition c"
  by (cases "coded_input c";
      simp add: fields_ok_def input_ok_def unread_def future_def closest_limit_def CurrentPosition_def)+

lemma moved_legitimate:
  "ci_moved k c c' \<Longrightarrow> ci_moved k c (c'\<lparr>legitimate_message_end := b\<rparr>)"
  "ci_moved k c c' \<Longrightarrow> ci_moved k c (c'\<lparr>last_tag := t\<rparr>)"
  "ci_ok c' \<Longrightarrow> ci_ok (c'\<lparr>legitimate_message_end := b\<rparr>)"
  by (auto simp: moved_def coded_ok_def same_limits_def tag_update)

lemma ReadTagSlow_spec:
  assumes "ci_ok c"
  shows "\<exists>tag c'. ReadTagSlow ops c = Some (tag, c') \<and> ci_tag tag c c'"
proof (cases "buffer_size c = 0")
  case False
  then have "0 < buffer_size c" using assms unfolding coded_ok_def fields_ok_def by linarith
  with window_nth [of c] assms have "ci_view c \<noteq> []" by (simp add: coded_ok_def)
  moreover obtain r c' where r: "ReadVarint64 ops c = Some (r, c')" "ci_varint 10 r of_nat c c'"
    using ReadVarint64_spec [OF assms] by blast
  ultimately show ?thesis
    using varint_to_tag [OF r(2), of ucast] False r(1) by (simp add: ReadTagSlow_def ucast_64_32)
next
  case True
  obtain b c1 where c1: "Refresh ops c = Some (b, c1)" "ci_moved 0 c c1" "CurrentPosition c1 = CurrentPosition c"
    "last_tag c1 = last_tag c" "legitimate_message_end c1 = legitimate_message_end c"
    "buffer_size c1 = 0 \<Longrightarrow> ci_view c = []" "\<not> b \<Longrightarrow> buffer_size c1 = 0"
    "b \<Longrightarrow> buffer_size c1 = 0 \<Longrightarrow> total_bytes_limit c \<le> CurrentPosition c \<and> total_bytes_limit c < current_limit c"
    by (rule Refresh_spec [OF assms True]) blast
  note lim = c1(2) [unfolded moved_def same_limits_def]
  show ?thesis
  proof (cases b)
    case False
    then have z: "buffer_size c1 = 0" "ci_view c = []" using c1(6,7) by simp_all
    let ?e = "if total_bytes_read c1 - buffer_size_after_limit c1 \<ge> total_bytes_limit c1
      then current_limit c1 = total_bytes_limit c1 else True"
    have "total_bytes_read c1 - buffer_size_after_limit c1 = CurrentPosition c"
      using c1(3) z(1) by (simp add: CurrentPosition_def)
    then have "?e = legitimate_end c" using lim by (auto simp: legitimate_end_def)
    moreover have "ReadTagSlow ops c = Some (0, c1\<lparr>legitimate_message_end := ?e\<rparr>)"
      using True False c1(1) by (simp add: ReadTagSlow_def Let_def)
    ultimately show ?thesis
      using z c1(2,4) moved_legitimate(1) [OF c1(2)] by (simp add: tag_read_ok_def)
  next
    case b: True
    obtain r c' where r: "ReadVarint64 ops c1 = Some (r, c')" "ci_varint 10 r of_nat c1 c'"
      using ReadVarint64_spec [OF moved_ok [OF c1(2)]] by blast
    have v: "ci_view c1 = ci_view c" using moved_view [OF c1(2)] by simp
    have res: "ReadTagSlow ops c = Some (case r of None \<Rightarrow> 0 | Some v \<Rightarrow> ucast v, c')"
      using True b c1(1) r(1) by (simp add: ReadTagSlow_def)
    show ?thesis
    proof (cases "ci_view c = []")
      case False
      have "ci_tag (case r of None \<Rightarrow> 0 | Some v \<Rightarrow> ucast v) c1 c'"
        using varint_to_tag [OF r(2), of ucast] v False by (simp add: ucast_64_32)
      then have "ci_tag (case r of None \<Rightarrow> 0 | Some v \<Rightarrow> ucast v) c c'"
        using False v c1(4,5) moved_trans [OF c1(2)]
        by (fastforce simp: tag_read_ok_def split: varint_read.splits)
      with res show ?thesis by blast
    next
      case e: True
      have nil: "parse_varint 10 [] = VarintPastEnd" by (simp add: parse_varint_past_end)
      have "r = None" and same: "last_tag c' = last_tag c1" "legitimate_message_end c' = legitimate_message_end c1"
        and k: "\<exists>k. ci_moved k c1 c'"
        using r(2) by (simp_all add: varint_read_ok_def v e nil)
      from k obtain k where k: "ci_moved k c1 c'" by blast
      then have "k = 0" using e v by (simp add: moved_def)
      have "buffer_size c1 = 0" using view_empty [of c1] moved_ok [OF c1(2)] v e by (simp add: coded_ok_def)
      with b c1(8) have "\<not> legitimate_end c" by (auto simp: legitimate_end_def)
      with e res \<open>r = None\<close> same c1(4,5) moved_trans [OF c1(2) k] \<open>k = 0\<close> show ?thesis
        by (simp add: tag_read_ok_def)
    qed
  qed
qed

lemma ReadTagFallback_spec:
  assumes "ci_ok c" "buffer_size c > 0 \<Longrightarrow> (\<not> buffer c ! 0 < 128 \<or> buffer c ! 0 = 0) \<and> first = ucast (buffer c ! 0)"
  shows "\<exists>tag c'. ReadTagFallback ops first c = Some (tag, c') \<and> ci_tag tag c c'"
proof (cases "fast_path c")
  case True
  have f: "fields_ok c" using assms(1) by (simp add: coded_ok_def)
  obtain bs where bs: "window c = buffer c ! 0 # bs" using fast_path_parse(3) [OF f True] by blast
  have size: "0 < buffer_size c" by (rule fast_path_parse(2) [OF f True])
  then have v: "ci_view c \<noteq> []" using window_nth [OF f] by simp
  show ?thesis
  proof (cases "buffer c ! 0 = 0")
    case z: True
    then have "ci_varint 10 (Some (of_nat (unat (buffer c ! 0)) :: uint32)) of_nat c (Advance 1 c)"
      by (intro one_byte [OF assms(1) size]) simp_all
    from varint_to_tag [OF this v, of "\<lambda>v. v"] z True assms(2) size show ?thesis by (simp add: ReadTagFallback_def)
  next
    case False
    with assms(2) size have b: "\<not> buffer c ! 0 < 128" "first = ucast (buffer c ! 0)" by simp_all
    have "first \<noteq> 0" using False b(2) by (metis unat_eq_0 unsigned_0 unat_ucast_up_byte)
    obtain r c' where r: "from_array (map_varint of_nat (parse_varint 10 (window c))) c = Some (r, c')"
      "ci_varint 10 r (of_nat :: nat \<Rightarrow> uint32) c c'"
      using from_array_spec [OF assms(1) fast_path_parse(1) [OF f True], of of_nat] by blast
    moreover have "ReadVarint32FromArray first (window c) = map_varint of_nat (parse_varint 10 (window c))"
      using ReadVarint32FromArray_parse [OF b(1), of bs] by (simp add: bs b(2))
    ultimately show ?thesis
      using varint_to_tag [OF r(2) v, of "\<lambda>v. v"] True \<open>first \<noteq> 0\<close> by (simp add: ReadTagFallback_def)
  qed
next
  case False
  show ?thesis
  proof (cases "buffer_size c = 0 \<and> (buffer_size_after_limit c > 0 \<or> total_bytes_read c = current_limit c) \<and>
      total_bytes_read c - buffer_size_after_limit c < total_bytes_limit c")
    case True
    have f: "fields_ok c" using assms(1) by (simp add: coded_ok_def)
    have "closest_limit c \<le> total_bytes_read c"
      using True f by (auto simp: fields_ok_def closest_limit_def)
    then have "ci_view c = []" using view_window [OF f] True by simp
    moreover have "legitimate_end c" using True by (simp add: legitimate_end_def CurrentPosition_def)
    ultimately have "ci_tag 0 c (c\<lparr>legitimate_message_end := True\<rparr>)"
      using moved_legitimate(1) [OF moved_refl [OF assms(1)]] by (simp add: tag_read_ok_def)
    with True False show ?thesis by (simp add: ReadTagFallback_def)
  next
    case slow: False
    have "ReadTagFallback ops first c = ReadTagSlow ops c"
      by (simp only: ReadTagFallback_def False slow if_False)
    with ReadTagSlow_spec [OF assms(1)] show ?thesis by simp
  qed
qed

lemma ReadTagNoLastTag_spec:
  assumes "ci_ok c"
  shows "\<exists>tag c'. ReadTagNoLastTag ops c = Some (tag, c') \<and> ci_tag tag c c'"
proof (cases "buffer_size c > 0 \<and> buffer c ! 0 < 128")
  case True
  then have v: "ci_view c \<noteq> []" using window_nth [of c] assms by (simp add: coded_ok_def)
  have "ci_varint 10 (Some (of_nat (unat (buffer c ! 0)) :: uint32)) of_nat c (Advance 1 c)"
    using True by (intro one_byte [OF assms]) simp_all
  from varint_to_tag [OF this v, of "\<lambda>v. v"] True show ?thesis by (simp add: ReadTagNoLastTag_def)
next
  case False
  with ReadTagFallback_spec [OF assms] show ?thesis by (auto simp: ReadTagNoLastTag_def)
qed

lemma ReadTag_spec:
  assumes "ci_ok c"
  shows "\<exists>tag c'. ReadTag ops c = Some (tag, c') \<and> last_tag c' = tag \<and> ci_tag tag c (c'\<lparr>last_tag := last_tag c\<rparr>)"
proof -
  obtain tag c' where c': "ReadTagNoLastTag ops c = Some (tag, c')" "ci_tag tag c c'"
    using ReadTagNoLastTag_spec [OF assms] by blast
  then have "c'\<lparr>last_tag := last_tag c\<rparr> = c'" by (simp add: tag_read_ok_def)
  with c' show ?thesis by (simp add: ReadTag_def)
qed

text \<open>The cutoff variant reads the same tag by other paths; its flag is exact for every tag but zero.\<close>

lemma two_bytes:
  assumes "ci_ok c" "buffer_size c > 1" "\<not> buffer c ! 0 < 128" "buffer c ! 1 < 128"
  shows "ci_varint 10 (Some (f (unat (buffer c ! 0) - 128 + 128 * unat (buffer c ! 1)))) f c (Advance 2 c)"
proof -
  note b = buffer_prefix [OF assms(1), of 2]
  from assms(2) have len: "2 \<le> length (buffer c)" "take 2 (buffer c) = take 2 (ci_view c)" "2 \<le> length (ci_view c)"
    "ci_moved 2 c (Advance 2 c)" using b by simp_all
  have "take 2 (buffer c) = [buffer c ! 0, buffer c ! 1]"
    using len(1) by (cases "buffer c"; cases "tl (buffer c)") (auto simp: numeral_2_eq_2)
  then have v: "ci_view c = buffer c ! 0 # buffer c ! 1 # drop 2 (ci_view c)"
    using len(2) append_take_drop_id [of 2 "ci_view c"] by simp
  have "parse_varint 10 (buffer c ! 0 # buffer c ! 1 # drop 2 (ci_view c)) =
      VarintOk (unat (buffer c ! 0) - 128 + 128 * unat (buffer c ! 1)) (drop 2 (ci_view c))"
    using assms(3,4) by (simp add: numeral_eq_Suc)
  moreover have "length (ci_view c) - length (drop 2 (ci_view c)) = 2" using len(3) by simp
  ultimately show ?thesis using v len(4) moved_view [OF len(4)] by (simp add: varint_read_ok_def)
qed

lemma byte_bit7: "bit b 7 \<longleftrightarrow> \<not> b < 128" for b :: byte
  using byte_and_80 [of b] and_exp_eq_0_iff_not_bit [of b 7] by simp

lemma and_not_80: "a AND NOT b \<ge> 0x80 \<longleftrightarrow> \<not> a < 128 \<and> b < 128" for a b :: byte
proof -
  have "a AND NOT b \<ge> 0x80 \<longleftrightarrow> bit (a AND NOT b) 7" using byte_bit7 [of "a AND NOT b"] by (simp add: not_less)
  also have "\<dots> \<longleftrightarrow> bit a 7 \<and> \<not> bit b 7" by (simp add: bit_and_iff bit_not_iff)
  finally show ?thesis by (simp only: byte_bit7 not_not)
qed

lemma sint_pos: "0 < sint b \<longleftrightarrow> b \<noteq> 0 \<and> b < 128" for b :: byte
proof -
  have "sint b < 0 \<longleftrightarrow> \<not> b < 128" using bit_last_iff [of b] byte_bit7 [of b] by simp
  moreover have "sint b = 0 \<longleftrightarrow> b = 0" by (rule signed_eq_0_iff)
  ultimately show ?thesis by linarith
qed

lemma cutoff_flag: "tag \<le> k \<Longrightarrow> (cutoff \<ge> k \<or> tag \<le> cutoff) = (tag \<le> (cutoff :: uint32))"
  by auto

lemma minus_one_cutoff: "tag \<noteq> 0 \<Longrightarrow> tag - 1 < cutoff \<longleftrightarrow> tag \<le> (cutoff :: uint32)"
proof -
  assume "tag \<noteq> 0"
  then have "unat (tag - 1) = unat tag - 1" "unat tag \<noteq> 0" by (simp_all add: unat_minus_one unat_eq_0)
  then show ?thesis unfolding word_less_nat_alt word_le_nat_alt by linarith
qed

lemma ReadTagWithCutoffNoLastTag_spec:
  assumes "ci_ok c"
  shows "\<exists>tag b c'. ReadTagWithCutoffNoLastTag ops cutoff c = Some ((tag, b), c') \<and> ci_tag tag c c' \<and>
    (tag \<noteq> 0 \<longrightarrow> (b \<longleftrightarrow> tag \<le> cutoff))"
proof -
  have f: "fields_ok c" using assms(1) by (simp add: coded_ok_def)
  have v: "buffer_size c > 0 \<Longrightarrow> ci_view c \<noteq> []" using window_nth [OF f] by simp
  consider "buffer_size c > 0 \<and> sint (buffer c ! 0) > 0"
    | "\<not> (buffer_size c > 0 \<and> sint (buffer c ! 0) > 0)"
      "buffer_size c > 1 \<and> cutoff \<ge> 0x80 \<and> buffer c ! 0 AND NOT (buffer c ! 1) \<ge> 0x80"
    | "\<not> (buffer_size c > 0 \<and> sint (buffer c ! 0) > 0)"
      "\<not> (buffer_size c > 1 \<and> cutoff \<ge> 0x80 \<and> buffer c ! 0 AND NOT (buffer c ! 1) \<ge> 0x80)" by blast
  then show ?thesis
  proof cases
    case 1
    then have b: "buffer c ! 0 < 128" by (simp add: sint_pos)
    let ?tag = "ucast (buffer c ! 0) :: uint32"
    have "unat (buffer c ! 0) < 128" using b by (simp add: word_less_nat_alt)
    then have "?tag \<le> 0x7F" by (simp add: word_le_nat_alt unat_ucast_up_byte)
    note flag = cutoff_flag [OF this]
    have "ci_varint 10 (Some (of_nat (unat (buffer c ! 0)) :: uint32)) of_nat c (Advance 1 c)"
      using 1 b by (intro one_byte [OF assms]) simp_all
    from varint_to_tag [OF this v, of "\<lambda>v. v"] 1 have "ci_tag ?tag c (Advance 1 c)" by simp
    moreover have "ReadTagWithCutoffNoLastTag ops cutoff c = Some ((?tag, cutoff \<ge> 0x7F \<or> ?tag \<le> cutoff), Advance 1 c)"
      by (simp only: ReadTagWithCutoffNoLastTag_def 1 if_True Let_def simp_thms)
    ultimately show ?thesis using flag by blast
  next
    case 2
    then have b: "\<not> buffer c ! 0 < 128" "buffer c ! 1 < 128" "buffer_size c > 1" by (simp_all add: and_not_80)
    let ?n = "unat (buffer c ! 0) - 128 + 128 * unat (buffer c ! 1)"
    let ?tag = "push_bit 7 1 * ucast (buffer c ! 1) + (ucast (buffer c ! 0) - 0x80) :: uint32"
    have "push_bit 7 1 * ucast (buffer c ! 1) = (of_nat (128 * unat (buffer c ! 1)) :: uint32)"
      by (simp add: push_bit_eq_mult)
    then have tag: "?tag = of_nat ?n" by (simp only: byte_minus_128 [OF b(1)] of_nat_add add.commute)
    have "unat (buffer c ! 1) < 128" "unat (buffer c ! 0) < 256"
      using b(2) unsigned_less [of "buffer c ! 0", where 'a = nat] by (simp_all add: word_less_nat_alt)
    then have "?n \<le> 16383" by simp
    then have "unat (of_nat ?n :: uint32) \<le> 16383" by (simp only: unat_of_nat) simp
    then have "?tag \<le> 16383" unfolding tag by (simp add: word_le_nat_alt)
    moreover have "push_bit 7 0x7F + 0x7F = (16383 :: uint32)" by code_simp
    ultimately have "?tag \<le> push_bit 7 0x7F + 0x7F" by (simp only:)
    note flag = cutoff_flag [OF this]
    from varint_to_tag [OF two_bytes [OF assms b(3,1,2), of of_nat] v, of "\<lambda>v. v"] b(3)
    have "ci_tag ?tag c (Advance 2 c)" unfolding tag by simp
    moreover have "ReadTagWithCutoffNoLastTag ops cutoff c =
        Some ((?tag, cutoff \<ge> push_bit 7 0x7F + 0x7F \<or> ?tag \<le> cutoff), Advance 2 c)"
      by (simp only: ReadTagWithCutoffNoLastTag_def 2 if_True if_False Let_def simp_thms)
    ultimately show ?thesis using flag by blast
  next
    case 3
    let ?first = "if buffer_size c > 0 then ucast (buffer c ! 0) else 0 :: uint32"
    have "buffer_size c > 0 \<Longrightarrow> (\<not> buffer c ! 0 < 128 \<or> buffer c ! 0 = 0) \<and> ?first = ucast (buffer c ! 0)"
      using 3(1) by (auto simp: sint_pos)
    from ReadTagFallback_spec [OF assms this] obtain tag c' where c': "ReadTagFallback ops ?first c = Some (tag, c')" "ci_tag tag c c'"
      by blast
    have "ReadTagWithCutoffNoLastTag ops cutoff c = Some ((tag, tag - 1 < cutoff), c')"
      using c'(1) by (simp only: ReadTagWithCutoffNoLastTag_def 3 if_False) simp
    with c'(2) minus_one_cutoff [of tag cutoff] show ?thesis by blast
  qed
qed

end

section \<open>Limits and embedded messages\<close>

context zero_copy_input
begin

lemma relimit:
  assumes "ci_ok c" "CurrentPosition c \<le> cur" "cur \<le> INT_MAX" "CurrentPosition c \<le> tot" "tot \<le> INT_MAX"
    "coded_input c = None \<Longrightarrow> cur \<le> total_bytes_read c"
  shows "ci_ok (RecomputeBufferLimits (c\<lparr>current_limit := cur, total_bytes_limit := tot\<rparr>))"
    "ci_unread (RecomputeBufferLimits (c\<lparr>current_limit := cur, total_bytes_limit := tot\<rparr>)) = ci_unread c"
    "CurrentPosition (c\<lparr>current_limit := cur, total_bytes_limit := tot\<rparr>) = CurrentPosition c"
    "closest_limit (c\<lparr>current_limit := cur, total_bytes_limit := tot\<rparr>) = min cur tot"
proof -
  let ?c = "c\<lparr>current_limit := cur, total_bytes_limit := tot\<rparr>"
  have f: "fields_ok c" "ci_input_ok c" using assms(1) by (simp_all add: coded_ok_def)
  show p: "CurrentPosition ?c = CurrentPosition c" "closest_limit ?c = min cur tot"
    by (simp_all add: CurrentPosition_def closest_limit_def)
  have "fields_ok (RecomputeBufferLimits ?c)"
    using f(1) assms(2-5) p by (intro RecomputeBufferLimits_ok) (simp_all add: fields_ok_def)
  moreover have "ci_input_ok (RecomputeBufferLimits ?c)"
    using f(2) assms(6) by (cases "coded_input c") (simp_all add: input_ok_def)
  ultimately show "ci_ok (RecomputeBufferLimits ?c)" by (simp add: coded_ok_def)
  show "ci_unread (RecomputeBufferLimits ?c) = ci_unread c"
    using future_cong [of "RecomputeBufferLimits ?c" c] by (simp add: unread_def)
qed

lemma PushLimit_spec:
  assumes "ci_ok c" "PushLimit n c = (old, c')"
  shows "old = current_limit c" "ci_ok c'" "ci_unread c' = ci_unread c" "CurrentPosition c' = CurrentPosition c"
    "current_limit c' \<le> current_limit c" "total_bytes_limit c' = total_bytes_limit c"
    "recursion_budget c' = recursion_budget c" "recursion_limit c' = recursion_limit c"
    "coded_input c' = coded_input c" "total_bytes_read c' = total_bytes_read c"
    "ci_view c' = (if n < 0 then ci_view c else take (nat n) (ci_view c))"
    "last_tag c' = last_tag c" "legitimate_message_end c' = legitimate_message_end c"
proof -
  have f: "fields_ok c" "ci_input_ok c" using assms(1) by (simp_all add: coded_ok_def)
  note pos = position_bounds [OF f(1)]
  let ?p = "CurrentPosition c"
  let ?c = "RecomputeBufferLimits (c\<lparr>current_limit := ?p + n, total_bytes_limit := total_bytes_limit c\<rparr>)"
  have lim: "current_limit c \<le> INT_MAX" "?p \<le> current_limit c" "?p \<le> total_bytes_limit c"
    using f(1) pos by (auto simp: fields_ok_def closest_limit_def)
  show "old = current_limit c" using assms(2) by (simp add: PushLimit_def Let_def)
  have "ci_ok c' \<and> ci_unread c' = ci_unread c \<and> CurrentPosition c' = CurrentPosition c \<and>
    current_limit c' \<le> current_limit c \<and> total_bytes_limit c' = total_bytes_limit c \<and>
    recursion_budget c' = recursion_budget c \<and> recursion_limit c' = recursion_limit c \<and>
    coded_input c' = coded_input c \<and> total_bytes_read c' = total_bytes_read c \<and>
    ci_view c' = (if n < 0 then ci_view c else take (nat n) (ci_view c)) \<and>
    last_tag c' = last_tag c \<and> legitimate_message_end c' = legitimate_message_end c"
  proof (cases "0 \<le> n \<and> n \<le> INT_MAX - ?p \<and> n < current_limit c - ?p")
    case True
    then have c': "c' = ?c" using assms(2) by (simp add: PushLimit_def Let_def)
    have flat: "coded_input c = None \<Longrightarrow> ?p + n \<le> total_bytes_read c"
      using f(2) True by (simp add: input_ok_def)
    have fit: "?p \<le> ?p + n" "?p + n \<le> INT_MAX" using True by simp_all
    have tot: "total_bytes_limit c \<le> INT_MAX" using f(1) by (simp add: fields_ok_def)
    note r = relimit [OF assms(1) fit lim(3) tot flat]
    have "nat (min (?p + n) (total_bytes_limit c) - ?p) = min (nat n) (nat (closest_limit c - ?p))"
      using True lim by (simp add: closest_limit_def min_def nat_mono)
    then have "ci_view ?c = take (nat n) (ci_view c)"
      using r(2-4) by (simp add: view_def)
    with True r c' show ?thesis by simp
  next
    case False
    then have c': "c' = c" using assms(2) by (simp only: PushLimit_def Let_def False if_False prod.inject)
    have "\<not> n < 0 \<Longrightarrow> take (nat n) (ci_view c) = ci_view c"
    proof -
      assume "\<not> n < 0"
      then have "closest_limit c - ?p \<le> n" using False lim(1) pos by (auto simp: closest_limit_def)
      then have "nat (closest_limit c - ?p) \<le> nat n" by simp
      then show ?thesis by (simp add: view_def min_def)
    qed
    with assms(1) c' show ?thesis by simp
  qed
  then show "ci_ok c'" "ci_unread c' = ci_unread c" "CurrentPosition c' = CurrentPosition c"
    "current_limit c' \<le> current_limit c" "total_bytes_limit c' = total_bytes_limit c"
    "recursion_budget c' = recursion_budget c" "recursion_limit c' = recursion_limit c"
    "coded_input c' = coded_input c" "total_bytes_read c' = total_bytes_read c"
    "ci_view c' = (if n < 0 then ci_view c else take (nat n) (ci_view c))"
    "last_tag c' = last_tag c" "legitimate_message_end c' = legitimate_message_end c" by blast+
qed

lemma PopLimit_spec:
  assumes "ci_ok c" "CurrentPosition c \<le> old" "old \<le> INT_MAX" "coded_input c = None \<Longrightarrow> old \<le> total_bytes_read c"
  shows "ci_ok (PopLimit old c)" "ci_unread (PopLimit old c) = ci_unread c"
    "CurrentPosition (PopLimit old c) = CurrentPosition c" "current_limit (PopLimit old c) = old"
    "total_bytes_limit (PopLimit old c) = total_bytes_limit c" "recursion_budget (PopLimit old c) = recursion_budget c"
    "recursion_limit (PopLimit old c) = recursion_limit c" "coded_input (PopLimit old c) = coded_input c"
    "total_bytes_read (PopLimit old c) = total_bytes_read c" "legitimate_message_end (PopLimit old c) = False"
    "last_tag (PopLimit old c) = last_tag c"
proof -
  have f: "fields_ok c" using assms(1) by (simp add: coded_ok_def)
  have tot: "CurrentPosition c \<le> total_bytes_limit c" "total_bytes_limit c \<le> INT_MAX"
    using f position_bounds [OF f] by (simp_all add: fields_ok_def closest_limit_def)
  note r = relimit [OF assms(1,2,3) tot assms(4)]
  have p: "PopLimit old c = (RecomputeBufferLimits (c\<lparr>current_limit := old, total_bytes_limit := total_bytes_limit c\<rparr>))\<lparr>legitimate_message_end := False\<rparr>"
    by (simp add: PopLimit_def)
  show "ci_ok (PopLimit old c)" "ci_unread (PopLimit old c) = ci_unread c"
    "CurrentPosition (PopLimit old c) = CurrentPosition c" "current_limit (PopLimit old c) = old"
    "total_bytes_limit (PopLimit old c) = total_bytes_limit c" "recursion_budget (PopLimit old c) = recursion_budget c"
    "recursion_limit (PopLimit old c) = recursion_limit c" "coded_input (PopLimit old c) = coded_input c"
    "total_bytes_read (PopLimit old c) = total_bytes_read c" "legitimate_message_end (PopLimit old c) = False"
    "last_tag (PopLimit old c) = last_tag c"
    unfolding p using r by (simp_all add: moved_legitimate(3) tag_update)
qed

text \<open>An embedded message: whatever moves within the pushed limit leaves the outer view moved as far.\<close>

lemma push_pop:
  assumes "ci_ok c" "PushLimit n c = (old, c1)" "ci_moved k c1 c2"
  shows "ci_moved k c (PopLimit old c2)" "k \<le> (if n < 0 then length (ci_view c) else nat n)"
    "ci_view (PopLimit old c2) = drop k (ci_view c)"
proof -
  note push = PushLimit_spec [OF assms(1,2)]
  have f: "fields_ok c2" "fields_ok c" "ci_input_ok c" using moved_ok [OF assms(3)] assms(1) by (simp_all add: coded_ok_def)
  have m: "current_limit c2 = current_limit c1" "total_bytes_limit c2 = total_bytes_limit c1"
    "recursion_budget c2 = recursion_budget c1" "recursion_limit c2 = recursion_limit c1"
    "coded_input c2 = None \<longleftrightarrow> coded_input c1 = None" "coded_input c1 = None \<longrightarrow> total_bytes_read c2 = total_bytes_read c1"
    "k \<le> length (ci_view c1)" "ci_unread c2 = drop k (ci_unread c1)"
    "CurrentPosition c2 = CurrentPosition c1 + int k \<or> ci_unread c2 = []"
    using assms(3) unfolding moved_def same_limits_def by blast+
  have old: "CurrentPosition c2 \<le> old" "old \<le> INT_MAX"
    using position_bounds(2) [OF f(1)] m(1) push(1,5) f(2) unfolding closest_limit_def fields_ok_def by linarith+
  have flat: "coded_input c2 = None \<Longrightarrow> old \<le> total_bytes_read c2"
    using f(3) push(1,9,10) m(5,6) by (simp add: input_ok_def)
  note pop = PopLimit_spec [OF moved_ok [OF assms(3)] old flat]
  have k: "k \<le> length (ci_view c)" using m(7) push(11) by (auto split: if_splits)
  show "k \<le> (if n < 0 then length (ci_view c) else nat n)" using m(7) push(11) by (auto split: if_splits)
  have "same_limits c (PopLimit old c2)" using pop push m by (simp add: same_limits_def)
  moreover have "ci_unread (PopLimit old c2) = drop k (ci_unread c)" using pop(2) m(8) push(3) by simp
  moreover have "CurrentPosition (PopLimit old c2) = CurrentPosition c + int k \<or> ci_unread (PopLimit old c2) = []"
    using pop(2,3) m(9) push(4) by metis
  ultimately show mv: "ci_moved k c (PopLimit old c2)" using pop(1) k by (simp add: moved_def)
  show "ci_view (PopLimit old c2) = drop k (ci_view c)" by (rule moved_view [OF mv])
qed

lemma SetTotalBytesLimit_spec:
  assumes "ci_ok c" "n \<le> INT_MAX"
  shows "ci_ok (SetTotalBytesLimit n c)" "ci_unread (SetTotalBytesLimit n c) = ci_unread c"
    "CurrentPosition (SetTotalBytesLimit n c) = CurrentPosition c"
    "ci_view (SetTotalBytesLimit n c) = take (nat (min (current_limit c) (max (CurrentPosition c) n) - CurrentPosition c)) (ci_unread c)"
proof -
  have f: "fields_ok c" "ci_input_ok c" using assms(1) by (simp_all add: coded_ok_def)
  have cur: "CurrentPosition c \<le> current_limit c" "current_limit c \<le> INT_MAX" "CurrentPosition c \<le> max (CurrentPosition c) n"
    "max (CurrentPosition c) n \<le> INT_MAX"
    using f position_bounds [OF f(1)] assms(2) by (simp_all add: fields_ok_def closest_limit_def)
  have flat: "coded_input c = None \<Longrightarrow> current_limit c \<le> total_bytes_read c" using f(2) by (simp add: input_ok_def)
  note r = relimit [OF assms(1) cur flat]
  have s: "SetTotalBytesLimit n c = RecomputeBufferLimits (c\<lparr>current_limit := current_limit c, total_bytes_limit := max (CurrentPosition c) n\<rparr>)"
    by (simp add: SetTotalBytesLimit_def)
  show "ci_ok (SetTotalBytesLimit n c)" "ci_unread (SetTotalBytesLimit n c) = ci_unread c"
    "CurrentPosition (SetTotalBytesLimit n c) = CurrentPosition c"
    "ci_view (SetTotalBytesLimit n c) = take (nat (min (current_limit c) (max (CurrentPosition c) n) - CurrentPosition c)) (ci_unread c)"
    unfolding s using r by (simp_all add: view_def)
qed

section \<open>Construction and destruction\<close>

lemma CodedInputStream_spec:
  assumes "ok s" "ByteCount ops s = 0"
  shows "\<exists>c. CodedInputStream ops s = Some c \<and> ci_ok c \<and> ci_unread c = rest s \<and> CurrentPosition c = 0 \<and>
    current_limit c = INT_MAX \<and> total_bytes_limit c = INT_MAX \<and> recursion_budget c = 100 \<and> recursion_limit c = 100 \<and>
    coded_input c \<noteq> None \<and> \<not> legitimate_message_end c \<and> last_tag c = 0"
proof -
  let ?c = "\<lparr>buffer = [], buffer_size = 0, coded_input = Some s, total_bytes_read = 0,
         overflow_bytes = 0, last_tag = 0, legitimate_message_end = False, current_limit = kint32max,
         buffer_size_after_limit = 0, total_bytes_limit = kDefaultTotalBytesLimit,
         recursion_budget = default_recursion_limit, recursion_limit = default_recursion_limit\<rparr>"
  have ok: "ci_ok ?c" using assms by (simp add: coded_defs kDefaultTotalBytesLimit_def)
  obtain b c where c: "Refresh ops ?c = Some (b, c)" "ci_moved 0 ?c c" "CurrentPosition c = CurrentPosition ?c"
    "last_tag c = last_tag ?c" "legitimate_message_end c = legitimate_message_end ?c"
    by (rule Refresh_spec [OF ok]) auto
  have "ci_unread ?c = rest s" by (simp add: unread_def future_def)
  with c show ?thesis
    by (simp add: CodedInputStream_def moved_def same_limits_def CurrentPosition_def kDefaultTotalBytesLimit_def default_recursion_limit_def)
qed

lemma CodedInputStream_flat_spec:
  assumes "int (length data) \<le> INT_MAX"
  shows "ci_ok (CodedInputStream_flat data (int (length data)))"
    "ci_view (CodedInputStream_flat data (int (length data))) = data"
  using assms
  by (simp_all add: CodedInputStream_flat_def coded_defs kDefaultTotalBytesLimit_def view_def unread_def future_def)

lemma CodedInputStream_destroy_spec:
  assumes "ci_ok c" "coded_input c \<noteq> None"
  shows "\<exists>s. CodedInputStream_destroy ops c = Some (Some s) \<and> ok s \<and> rest s = ci_unread c"
proof -
  have f: "fields_ok c" "ci_input_ok c" using assms(1) by (simp_all add: coded_ok_def)
  obtain s where s: "coded_input c = Some s" using assms(2) by auto
  with f(2) obtain u v where uv: "ok s" "given s = u @ buffer c @ v" "int (length v) = overflow_bytes c"
    by (auto simp: input_ok_def)
  then have v: "drop (length (given s) - nat (overflow_bytes c)) (given s) = v" by simp
  let ?n = "buffer_size c + buffer_size_after_limit c + overflow_bytes c"
  have n: "?n = int (length (buffer c @ v))" using f(1) uv(3) by (simp add: fields_ok_def)
  show ?thesis
  proof (cases "?n > 0")
    case True
    then have "buffer c @ v \<noteq> []" using n by auto
    from back_upE [OF uv(1) uv(2) this] obtain s' where "BackUp ops (int (length (buffer c @ v))) s = Some s'" "ok s'"
      "rest s' = (buffer c @ v) @ rest s" by blast
    with True n s v show ?thesis
      by (simp add: CodedInputStream_destroy_def BackUpInputToCurrentPosition_def unread_def future_def Let_def)
  next
    case False
    then have "length (buffer c @ v) = 0" using n by linarith
    then have "buffer c @ v = []" by simp
    with False s v uv(1) show ?thesis
      by (simp add: CodedInputStream_destroy_def BackUpInputToCurrentPosition_def unread_def future_def Let_def)
  qed
qed

end

end
