(* ===== verification/Coded_Input_Client.thy ===== *)
theory Coded_Input_Client
  imports Coded_Input_Read
begin

text \<open>
  Clients of a \<open>CodedInputStream\<close>: any sequence of its operations, with the limits they push and pop. A
  reachable state keeps the invariant, and in a reachable state every operation returns. Then the
  properties of the stream, for every input that keeps the contract \<open>zero_copy_input\<close>.
\<close>

section \<open>The operations that peek\<close>

context zero_copy_input
begin

lemma GetDirectBufferPointer_spec:
  assumes "ci_ok c"
  shows "\<exists>r c'. GetDirectBufferPointer ops c = Some (r, c') \<and> ci_moved 0 c c' \<and>
    last_tag c' = last_tag c \<and> legitimate_message_end c' = legitimate_message_end c \<and>
    (case r of None \<Rightarrow> ci_view c = []
     | Some d \<Rightarrow> d = GetDirectBufferPointerInline c' \<and> (\<exists>later. ci_view c = d @ later) \<and>
         (d = [] \<longrightarrow> ci_view c = [] \<and> total_bytes_limit c \<le> CurrentPosition c \<and> total_bytes_limit c < current_limit c))"
proof (cases "buffer_size c = 0")
  case False
  have f: "fields_ok c" using assms by (simp add: coded_ok_def)
  have "0 < buffer_size c" using False f unfolding fields_ok_def by linarith
  then have "window c \<noteq> []" using window_nth [OF f] by simp
  with False view_window(1) [OF f] moved_refl [OF assms] show ?thesis
    by (auto simp: GetDirectBufferPointer_def GetDirectBufferPointerInline_def)
next
  case True
  obtain b c' where c': "Refresh ops c = Some (b, c')" "ci_moved 0 c c'"
    "last_tag c' = last_tag c" "legitimate_message_end c' = legitimate_message_end c"
    "buffer_size c' = 0 \<Longrightarrow> ci_view c = []" "\<not> b \<Longrightarrow> buffer_size c' = 0"
    "b \<Longrightarrow> buffer_size c' = 0 \<Longrightarrow> total_bytes_limit c \<le> CurrentPosition c \<and> total_bytes_limit c < current_limit c"
    by (rule Refresh_spec [OF assms True]) blast
  have f: "fields_ok c'" using moved_ok [OF c'(2)] by (simp add: coded_ok_def)
  have "ci_view c = ci_view c'" using moved_view [OF c'(2)] by simp
  then have later: "\<exists>later. ci_view c = window c' @ later" using view_window(1) [OF f] by metis
  have r: "GetDirectBufferPointer ops c = Some (if b then Some (window c') else None, c')"
    using True c'(1) by (simp add: GetDirectBufferPointer_def)
  have "window c' = [] \<Longrightarrow> buffer_size c' = 0" using view_window(2) [OF f] by simp
  with r c' later show ?thesis
    by (cases b) (auto simp: GetDirectBufferPointerInline_def)
qed

lemma ExpectTag_spec:
  assumes "ci_ok c" "ExpectTag expected c = (b, c')"
  shows "if b then ci_view c = varint_bytes (unat expected) @ ci_view c' \<and>
      ci_moved (length (varint_bytes (unat expected))) c c' else c' = c"
    "last_tag c' = last_tag c \<and> legitimate_message_end c' = legitimate_message_end c"
proof -
  note prefix = buffer_prefix [OF assms(1)]
  define one where "one \<longleftrightarrow> buffer_size c > 0 \<and> ucast (buffer c ! 0) = expected"
  define two where "two \<longleftrightarrow> buffer_size c \<ge> 2 \<and> buffer c ! 0 = ucast (expected OR 0x80) \<and> buffer c ! 1 = ucast (drop_bit 7 expected)"
  have eq: "(if expected < 2 ^ 7 then if one then (True, Advance 1 c) else (False, c)
      else if expected < 2 ^ 14 then if two then (True, Advance 2 c) else (False, c) else (False, c)) = (b, c')"
    using assms(2) unfolding ExpectTag_def one_def two_def .
  have "\<not> b \<and> c' = c \<or> b \<and> expected < 2 ^ 7 \<and> one \<and> c' = Advance 1 c \<or>
      b \<and> \<not> expected < 2 ^ 7 \<and> expected < 2 ^ 14 \<and> two \<and> c' = Advance 2 c"
    using eq by (simp only: split: if_splits) blast+
  then consider "\<not> b" "c' = c"
    | "b" "expected < 2 ^ 7" "buffer_size c > 0" "ucast (buffer c ! 0) = expected" "c' = Advance 1 c"
    | "b" "\<not> expected < 2 ^ 7" "expected < 2 ^ 14" "buffer_size c \<ge> 2" "buffer c ! 0 = ucast (expected OR 0x80)"
      "buffer c ! 1 = ucast (drop_bit 7 expected)" "c' = Advance 2 c"
    unfolding one_def two_def by blast
  then show "if b then ci_view c = varint_bytes (unat expected) @ ci_view c' \<and>
      ci_moved (length (varint_bytes (unat expected))) c c' else c' = c"
  proof cases
    case 2
    have n: "unat expected < 128" using 2(2) by (simp add: word_less_nat_alt)
    have "unat expected = unat (buffer c ! 0)" by (simp only: 2(4) [symmetric] unat_ucast_up_byte)
    then have "buffer c ! 0 = of_nat (unat expected)" by simp
    moreover have "ci_moved 1 c (Advance 1 c)" using prefix(4) [of 1] 2(3) by simp
    moreover have "take 1 (ci_view c) = [buffer c ! 0]"
      using prefix(1,2) [of 1] 2(3) by (cases "buffer c") simp_all
    ultimately show ?thesis
      using 2(1,5) moved_view [of 1 c "Advance 1 c"] append_take_drop_id [of 1 "ci_view c"] varint_bytes_small [OF n] by simp
  next
    case 3
    have n: "128 \<le> unat expected" "unat expected < 16384" using 3(2,3) by (simp_all add: word_less_nat_alt)
    have "ucast (expected OR 0x80) = (ucast expected OR 0x80 :: byte)"
      by (rule bit_eqI) (auto simp: bit_simps)
    then have b0: "buffer c ! 0 = of_nat (128 + unat expected mod 128)" by (simp only: 3(5) continuation_byte)
    have "unat expected div 128 < 128" using n(2) by (simp add: less_mult_imp_div_less)
    then have lt: "unat (drop_bit 7 expected) < 128" by (simp only: unat_drop7)
    have b1: "buffer c ! 1 = of_nat (unat expected div 128)"
      using last_byte [OF lt] by (simp only: 3(6) unat_drop7)
    have bytes: "varint_bytes (unat expected) = [buffer c ! 0, buffer c ! 1]"
      using lt by (simp only: varint_bytes_large [OF n(1)] b0 b1 unat_drop7 varint_bytes_small)
    have "take 2 (buffer c) = [buffer c ! 0, buffer c ! 1]"
      using prefix(1) [of 2] 3(4) by (cases "buffer c"; cases "tl (buffer c)") (auto simp: numeral_2_eq_2)
    then have "ci_view c = [buffer c ! 0, buffer c ! 1] @ drop 2 (ci_view c)"
      using prefix(2) [of 2] 3(4) append_take_drop_id [of 2 "ci_view c"] by simp
    moreover have "ci_moved 2 c (Advance 2 c)" using prefix(4) [of 2] 3(4) by simp
    ultimately show ?thesis using 3(1,7) moved_view [of 2 c "Advance 2 c"] by (simp add: bytes flip: numeral_2_eq_2)
  qed simp
  show "last_tag c' = last_tag c \<and> legitimate_message_end c' = legitimate_message_end c"
    using eq by (simp only: split: if_splits) auto
qed

lemma ExpectAtEnd_spec:
  assumes "ci_ok c" "ExpectAtEnd c = (b, c')"
  shows "b \<Longrightarrow> ci_view c = [] \<and> last_tag c' = 0 \<and> legitimate_message_end c'" "ci_moved 0 c c'" "\<not> b \<Longrightarrow> c' = c"
proof -
  have f: "fields_ok c" using assms(1) by (simp add: coded_ok_def)
  show "b \<Longrightarrow> ci_view c = [] \<and> last_tag c' = 0 \<and> legitimate_message_end c'"
  proof -
    assume b
    then have e: "buffer_size c = 0" "buffer_size_after_limit c \<noteq> 0 \<or> total_bytes_read c = current_limit c"
      "last_tag c' = 0 \<and> legitimate_message_end c'"
      using assms(2) by (auto simp: ExpectAtEnd_def split: if_splits)
    have "closest_limit c \<le> total_bytes_read c" using e(2) f unfolding fields_ok_def closest_limit_def by linarith
    then have "ci_view c = []" using view_window [OF f] e(1) by simp
    with e(3) show ?thesis by simp
  qed
  show "\<not> b \<Longrightarrow> c' = c" using assms(2) by (auto simp: ExpectAtEnd_def split: if_splits)
  have "ci_moved 0 c (c\<lparr>last_tag := 0, legitimate_message_end := True\<rparr>)"
    using moved_legitimate(1) [OF moved_legitimate(2) [OF moved_refl [OF assms(1)]]] by simp
  then show "ci_moved 0 c c'" using assms moved_refl [OF assms(1)] by (auto simp: ExpectAtEnd_def split: if_splits)
qed

lemma ReadLengthAndPushLimit_spec:
  assumes "ci_ok c"
  shows "\<exists>r c1 old c'. ReadVarint32 ops c = Some (r, c1) \<and> ci_varint 10 r of_nat c c1 \<and>
    ReadLengthAndPushLimit ops c = Some (old, c') \<and>
    PushLimit (case r of Some n \<Rightarrow> sint n | None \<Rightarrow> 0) c1 = (old, c')"
proof -
  obtain r c1 where r: "ReadVarint32 ops c = Some (r, c1)" "ci_varint 10 r of_nat c c1" using ReadVarint32_spec [OF assms] by blast
  obtain old c' where "PushLimit (case r of Some n \<Rightarrow> sint n | None \<Rightarrow> 0) c1 = (old, c')" by (metis surj_pair)
  with r show ?thesis by (simp add: ReadLengthAndPushLimit_def)
qed

end

section \<open>Sequences of operations\<close>

text \<open>The public operations. \<open>Pop\<close> and \<open>Leave\<close> take the limit that the matching call returned, from a stack
  that the client keeps.\<close>

datatype client_op =
    Varint32 | Varint64 | Size | Length | Tag | Tag_cutoff uint32 | Fixed32 | Fixed64
  | Skip_bytes int | Raw nat | Str int | Direct | Push int | Pop | Enter int | Leave
  | Expect_tag uint32 | Expect_end | Total int

type_synonym 's client = "int list \<times> 's CodedInputStream"

fun perform :: "'s ZeroCopyInputStream \<Rightarrow> client_op \<Rightarrow> 's client \<Rightarrow> 's client option" where
  "perform ops Varint32 (ls, c) = do { (r, c) \<leftarrow> ReadVarint32 ops c; Some (ls, c) }"
| "perform ops Varint64 (ls, c) = do { (r, c) \<leftarrow> ReadVarint64 ops c; Some (ls, c) }"
| "perform ops Size (ls, c) = do { (r, c) \<leftarrow> ReadVarintSizeAsInt ops c; Some (ls, c) }"
| "perform ops Length (ls, c) = do { (old, c) \<leftarrow> ReadLengthAndPushLimit ops c; Some (old # ls, c) }"
| "perform ops Tag (ls, c) = do { (r, c) \<leftarrow> ReadTag ops c; Some (ls, c) }"
| "perform ops (Tag_cutoff k) (ls, c) = do { (r, c) \<leftarrow> ReadTagWithCutoff ops k c; Some (ls, c) }"
| "perform ops Fixed32 (ls, c) = do { (r, c) \<leftarrow> ReadLittleEndian32 ops c; Some (ls, c) }"
| "perform ops Fixed64 (ls, c) = do { (r, c) \<leftarrow> ReadLittleEndian64 ops c; Some (ls, c) }"
| "perform ops (Skip_bytes n) (ls, c) = do { (r, c) \<leftarrow> CodedInputStream_Skip ops n c; Some (ls, c) }"
| "perform ops (Raw n) (ls, c) = do { (b, r, c) \<leftarrow> ReadRaw ops (int n) c; Some (ls, c) }"
| "perform ops (Str n) (ls, c) = do { (b, r, c) \<leftarrow> ReadString ops [] n c; Some (ls, c) }"
| "perform ops Direct (ls, c) = do { (r, c) \<leftarrow> GetDirectBufferPointer ops c; Some (ls, c) }"
| "perform ops (Push n) (ls, c) = (let (old, c) = PushLimit n c in Some (old # ls, c))"
| "perform ops Pop (ls, c) =
     (case ls of [] \<Rightarrow> None | old # ls \<Rightarrow> Some (ls, snd (CheckEntireMessageConsumedAndPopLimit old c)))"
| "perform ops (Enter n) (ls, c) =
     (let ((old, budget), c) = IncrementRecursionDepthAndPushLimit n c in Some (old # ls, c))"
| "perform ops Leave (ls, c) =
     (case ls of [] \<Rightarrow> None | old # ls \<Rightarrow> Some (ls, snd (DecrementRecursionDepthAndPopLimit old c)))"
| "perform ops (Expect_tag t) (ls, c) = Some (ls, snd (ExpectTag t c))"
| "perform ops Expect_end (ls, c) = Some (ls, snd (ExpectAtEnd c))"
| "perform ops (Total n) (ls, c) = Some (ls, SetTotalBytesLimit n c)"

text \<open>What a caller owes: no pop without a push, and a limit is an \<open>int\<close>.\<close>

fun admissible :: "client_op \<Rightarrow> 's client \<Rightarrow> bool" where
  "admissible Pop (ls, c) = (ls \<noteq> [])"
| "admissible Leave (ls, c) = (ls \<noteq> [])"
| "admissible (Total n) (ls, c) = (n \<le> INT_MAX)"
| "admissible _ _ = True"

inductive client_step :: "'s ZeroCopyInputStream \<Rightarrow> 's client \<Rightarrow> 's client \<Rightarrow> bool" for ops where
  step: "admissible op x \<Longrightarrow> perform ops op x = Some y \<Longrightarrow> client_step ops x y"

inductive reachable :: "'s ZeroCopyInputStream \<Rightarrow> 's client \<Rightarrow> 's client \<Rightarrow> bool" for ops x where
  start: "reachable ops x x"
| continue: "reachable ops x y \<Longrightarrow> client_step ops y z \<Longrightarrow> reachable ops x z"

inductive_cases client_stepE: "client_step ops x y"

text \<open>The limits on the stack enclose the current one.\<close>

definition stack_ok :: "'s client \<Rightarrow> bool" where
  "stack_ok = (\<lambda>(ls, c). sorted (current_limit c # ls) \<and>
     (\<forall>l \<in> set ls. l \<le> INT_MAX \<and> (coded_input c = None \<longrightarrow> l \<le> total_bytes_read c)))"

definition client_ok ::
    "'s ZeroCopyInputStream \<Rightarrow> ('s \<Rightarrow> bool) \<Rightarrow> ('s \<Rightarrow> byte list) \<Rightarrow> ('s \<Rightarrow> byte list) \<Rightarrow> 's client \<Rightarrow> bool" where
  "client_ok ops ok rest given x \<longleftrightarrow> coded_ok ops ok rest given (snd x) \<and> stack_ok x"

context zero_copy_input
begin

abbreviation "cl_ok \<equiv> client_ok ops ok rest given"

text \<open>What one operation does to the client: the invariant stays, and the stream is some bytes further on.\<close>

definition cl_after :: "'s client \<Rightarrow> 's client \<Rightarrow> bool" where
  "cl_after x y \<longleftrightarrow> cl_ok y \<and> (coded_input (snd y) = None \<longleftrightarrow> coded_input (snd x) = None) \<and>
     (\<exists>k. ci_unread (snd y) = drop k (ci_unread (snd x)) \<and>
        (ci_unread (snd y) = [] \<or> CurrentPosition (snd y) = CurrentPosition (snd x) + int k))"

lemma cl_after_refl: "cl_ok x \<Longrightarrow> cl_after x x"
  by (auto simp: cl_after_def intro: exI [of _ 0])

lemma cl_after_trans: "cl_after x y \<Longrightarrow> cl_after y z \<Longrightarrow> cl_after x z"
proof -
  assume xy: "cl_after x y" and yz: "cl_after y z"
  from xy obtain j where j: "ci_unread (snd y) = drop j (ci_unread (snd x))"
    "ci_unread (snd y) = [] \<or> CurrentPosition (snd y) = CurrentPosition (snd x) + int j" by (auto simp: cl_after_def)
  from yz obtain k where k: "ci_unread (snd z) = drop k (ci_unread (snd y))"
    "ci_unread (snd z) = [] \<or> CurrentPosition (snd z) = CurrentPosition (snd y) + int k" by (auto simp: cl_after_def)
  have "ci_unread (snd z) = drop (j + k) (ci_unread (snd x))" unfolding k(1) j(1) by (simp add: add.commute)
  moreover have "ci_unread (snd z) = [] \<or> CurrentPosition (snd z) = CurrentPosition (snd x) + int (j + k)"
    using j(2) k by auto
  moreover have "cl_ok z" "coded_input (snd z) = None \<longleftrightarrow> coded_input (snd x) = None"
    using xy yz by (simp_all add: cl_after_def)
  ultimately show ?thesis unfolding cl_after_def by (intro conjI exI [of _ "j + k"])
qed

lemma cl_after_same:
  "cl_ok y \<Longrightarrow> coded_input (snd y) = coded_input (snd x) \<Longrightarrow> ci_unread (snd y) = ci_unread (snd x) \<Longrightarrow>
    CurrentPosition (snd y) = CurrentPosition (snd x) \<Longrightarrow> cl_after x y"
  by (auto simp: cl_after_def intro: exI [of _ 0])

lemma client_moved:
  assumes "cl_ok (ls, c)" "ci_moved k c c'"
  shows "cl_after (ls, c) (ls, c')"
proof -
  have "cl_ok (ls, c')" using assms by (auto simp: client_ok_def stack_ok_def moved_def same_limits_def)
  with assms(2) show ?thesis
    unfolding cl_after_def moved_def same_limits_def snd_conv by blast
qed

lemma client_push:
  assumes "cl_ok (ls, c)" "PushLimit n c = (old, c')"
  shows "cl_after (ls, c) (old # ls, c')"
proof -
  have c: "ci_ok c" using assms(1) by (simp add: client_ok_def)
  note p = PushLimit_spec [OF c assms(2)]
  have "current_limit c \<le> INT_MAX" "coded_input c = None \<longrightarrow> current_limit c \<le> total_bytes_read c"
    using c by (simp_all add: coded_ok_def fields_ok_def input_ok_def split: option.splits)
  with p(1,2,5,9,10) assms(1) have "cl_ok (old # ls, c')" by (auto simp: client_ok_def stack_ok_def)
  then show ?thesis by (rule cl_after_same) (simp_all add: p)
qed

lemma budget_ok: "ci_ok (c\<lparr>recursion_budget := n\<rparr>) = ci_ok c"
  by (cases "coded_input c") (simp_all add: coded_defs)

lemma client_budget: "cl_after x (ls, c) \<Longrightarrow> cl_after x (ls, c\<lparr>recursion_budget := n\<rparr>)"
proof (rule cl_after_trans)
  assume "cl_after x (ls, c)"
  then have "cl_ok (ls, c\<lparr>recursion_budget := n\<rparr>)"
    by (simp add: cl_after_def client_ok_def stack_ok_def budget_ok)
  then show "cl_after (ls, c) (ls, c\<lparr>recursion_budget := n\<rparr>)"
    by (rule cl_after_same) (simp_all add: unread_def future_def CurrentPosition_def split: option.split)
qed simp

lemma client_pop:
  assumes "cl_ok (old # ls, c)"
  shows "cl_after (old # ls, c) (ls, PopLimit old c)"
proof -
  have c: "ci_ok c" "current_limit c \<le> old" "old \<le> INT_MAX" "coded_input c = None \<Longrightarrow> old \<le> total_bytes_read c"
    using assms by (simp_all add: client_ok_def stack_ok_def)
  have "CurrentPosition c \<le> old"
    using position_bounds(2) [of c] c(1,2) by (simp add: coded_ok_def closest_limit_def)
  note p = PopLimit_spec [OF c(1) this c(3,4)]
  with assms have "cl_ok (ls, PopLimit old c)" by (auto simp: client_ok_def stack_ok_def)
  then show ?thesis by (rule cl_after_same) (simp_all add: p)
qed

lemma varint_moved: "ci_varint n r f c c' \<Longrightarrow> \<exists>k. ci_moved k c c'"
  by (cases "parse_varint n (ci_view c)") (auto simp: varint_read_ok_def)

lemma size_moved: "ci_size r c c' \<Longrightarrow> \<exists>k. ci_moved k c c'"
  by (cases "parse_varint 10 (ci_view c)") (auto simp: size_read_ok_def split: if_splits)

lemma tag_moved: "ci_tag t c c' \<Longrightarrow> \<exists>k. ci_moved k c c'"
  by (cases "parse_varint 10 (ci_view c)") (auto simp: tag_read_ok_def split: if_splits)

lemma perform_ok:
  assumes "cl_ok x" "admissible op x"
  shows "\<exists>y. perform ops op x = Some y \<and> cl_after x y"
proof -
  obtain ls c where x: "x = (ls, c)" by (cases x)
  then have c: "ci_ok c" and x': "cl_ok (ls, c)" using assms(1) by (simp_all add: client_ok_def)
  note mv = client_moved [OF x']
  show ?thesis
  proof (cases op)
    case Varint32
    obtain r c' where "ReadVarint32 ops c = Some (r, c')" "ci_varint 10 r of_nat c c'" using ReadVarint32_spec [OF c] by blast
    with varint_moved mv x Varint32 show ?thesis by fastforce
  next
    case Varint64
    obtain r c' where "ReadVarint64 ops c = Some (r, c')" "ci_varint 10 r of_nat c c'" using ReadVarint64_spec [OF c] by blast
    with varint_moved mv x Varint64 show ?thesis by fastforce
  next
    case Size
    obtain r c' where "ReadVarintSizeAsInt ops c = Some (r, c')" "ci_size r c c'" using ReadVarintSizeAsInt_spec [OF c] by blast
    with size_moved mv x Size show ?thesis by fastforce
  next
    case Length
    obtain r c1 old c' where r: "ci_varint 10 r (of_nat :: nat \<Rightarrow> uint32) c c1" "ReadLengthAndPushLimit ops c = Some (old, c')"
      "PushLimit (case r of Some n \<Rightarrow> sint n | None \<Rightarrow> 0) c1 = (old, c')"
      using ReadLengthAndPushLimit_spec [OF c] by blast
    obtain k where "ci_moved k c c1" using varint_moved [OF r(1)] by blast
    from mv [OF this] have m: "cl_after (ls, c) (ls, c1)" .
    then have "cl_ok (ls, c1)" by (simp add: cl_after_def)
    from cl_after_trans [OF m client_push [OF this r(3)]] r(2) x Length show ?thesis by simp
  next
    case Tag
    obtain t c' where t: "ReadTag ops c = Some (t, c')" "ci_tag t c (c'\<lparr>last_tag := last_tag c\<rparr>)" using ReadTag_spec [OF c] by blast
    obtain k where "ci_moved k c (c'\<lparr>last_tag := last_tag c\<rparr>)" using tag_moved [OF t(2)] by blast
    from moved_legitimate(2) [OF this, of "last_tag c'"] mv t(1) x Tag show ?thesis by simp
  next
    case (Tag_cutoff n)
    obtain t b c' where t: "ReadTagWithCutoffNoLastTag ops n c = Some ((t, b), c')" "ci_tag t c c'"
      using ReadTagWithCutoffNoLastTag_spec [OF c, of n] by blast
    obtain k where "ci_moved k c c'" using tag_moved [OF t(2)] by blast
    from moved_legitimate(2) [OF this, of t] mv t(1) x Tag_cutoff show ?thesis by (simp add: ReadTagWithCutoff_def)
  next
    case Fixed32
    with ReadLittleEndian32_spec [OF c] mv x show ?thesis by fastforce
  next
    case Fixed64
    with ReadLittleEndian64_spec [OF c] mv x show ?thesis by fastforce
  next
    case (Skip_bytes n)
    show ?thesis
    proof (cases "n < 0")
      case True
      with x cl_after_refl [OF x'] Skip_bytes show ?thesis by (simp add: CodedInputStream_Skip_def)
    next
      case False
      with Skip_spec [OF c, of n] mv x Skip_bytes show ?thesis by fastforce
    qed
  next
    case (Raw n)
    with ReadRaw_spec [OF c, of "int n"] mv x show ?thesis by fastforce
  next
    case (Str n)
    show ?thesis
    proof (cases "n < 0")
      case True
      with x cl_after_refl [OF x'] Str show ?thesis by (simp add: ReadString_def)
    next
      case False
      with ReadString_spec [OF c, of n "[]"] mv x Str show ?thesis by fastforce
    qed
  next
    case Direct
    with GetDirectBufferPointer_spec [OF c] mv x show ?thesis by fastforce
  next
    case (Push n)
    obtain old c' where "PushLimit n c = (old, c')" by (cases "PushLimit n c")
    with client_push [OF x' this] x Push show ?thesis by simp
  next
    case Pop
    with assms(2) x obtain old ls' where "ls = old # ls'" by (cases ls) auto
    with client_pop x' x Pop show ?thesis by (simp add: CheckEntireMessageConsumedAndPopLimit_def)
  next
    case (Enter n)
    obtain old c' where p: "PushLimit n c = (old, c')" by (cases "PushLimit n c")
    with client_budget [OF client_push [OF x' p]] x Enter show ?thesis
      by (simp add: IncrementRecursionDepthAndPushLimit_def Let_def)
  next
    case Leave
    with assms(2) x obtain old ls' where "ls = old # ls'" by (cases ls) auto
    with client_budget client_pop x' x Leave show ?thesis by (simp add: DecrementRecursionDepthAndPopLimit_def Let_def)
  next
    case (Expect_tag t)
    obtain b c' where e: "ExpectTag t c = (b, c')" by (cases "ExpectTag t c")
    have "\<exists>k. ci_moved k c c'" using ExpectTag_spec(1) [OF c e] moved_refl [OF c] by (cases b) auto
    with mv x Expect_tag e show ?thesis by auto
  next
    case Expect_end
    obtain b c' where e: "ExpectAtEnd c = (b, c')" by (cases "ExpectAtEnd c")
    from mv [OF ExpectAtEnd_spec(2) [OF c e]] x Expect_end e show ?thesis by simp
  next
    case (Total n)
    with assms(2) x have "n \<le> INT_MAX" by simp
    note s = SetTotalBytesLimit_spec [OF c this]
    have input: "coded_input (SetTotalBytesLimit n c) = coded_input c" by (simp add: SetTotalBytesLimit_def)
    have "cl_ok (ls, SetTotalBytesLimit n c)"
      using s(1) x' by (auto simp: client_ok_def stack_ok_def SetTotalBytesLimit_def)
    then have "cl_after (ls, c) (ls, SetTotalBytesLimit n c)"
      by (rule cl_after_same) (simp_all only: snd_conv s input)
    with x Total show ?thesis by simp
  qed
qed

lemma reachable_after: "reachable ops x y \<Longrightarrow> cl_ok x \<Longrightarrow> cl_after x y"
proof (induction rule: reachable.induct)
  case start
  then show ?case by (rule cl_after_refl)
next
  case (continue y z)
  from continue.hyps(2) obtain op where op: "admissible op y" "perform ops op y = Some z" by (rule client_stepE)
  have y: "cl_after x y" by (rule continue.IH [OF continue.prems])
  then have "cl_ok y" by (simp add: cl_after_def)
  from perform_ok [OF this op(1)] op(2) have "cl_after y z" by simp
  with y show ?case by (rule cl_after_trans)
qed

lemma reachable_ok: "reachable ops x y \<Longrightarrow> cl_ok x \<Longrightarrow> cl_ok y"
  using reachable_after [of x y] by (simp add: cl_after_def)

end

section \<open>Two findings on concrete inputs\<close>

text \<open>When the total limit falls on the end of a chunk, \<open>Refresh\<close> fetches the next chunk and hides all of it:
  \<open>GetDirectBufferPointer\<close> then returns true with an empty buffer, against its documentation.\<close>

lemma GetDirectBufferPointer_empty:
  "do { c \<leftarrow> CodedInputStream array_stream (ArrayInputStream [1, 2, 3, 4] 4 2);
     (b, c) \<leftarrow> CodedInputStream_Skip array_stream 2 (SetTotalBytesLimit 2 c);
     (r, c) \<leftarrow> GetDirectBufferPointer array_stream c; Some r } = Some (Some [])"
  by code_simp

text \<open>A failed \<open>Skip\<close> takes the position from the \<open>ByteCount\<close> of the stream. If that stream had been read from
  before, the position jumps: after all three bytes it is 3, after a failed skip over them 5.\<close>

lemma Skip_position_jumps:
  "do { (b, s) \<leftarrow> Skip array_stream 2 (ArrayInputStream [1, 2, 3, 4, 5] 5 5);
     c \<leftarrow> CodedInputStream array_stream s;
     (b, c) \<leftarrow> CodedInputStream_Skip array_stream 3 c; Some (b, CurrentPosition c) } = Some (True, 3)"
  "do { (b, s) \<leftarrow> Skip array_stream 2 (ArrayInputStream [1, 2, 3, 4, 5] 5 5);
     c \<leftarrow> CodedInputStream array_stream s;
     (b, c) \<leftarrow> CodedInputStream_Skip array_stream 9 c; Some (b, CurrentPosition c) } = Some (False, 5)"
  by code_simp+

section \<open>Properties\<close>

text \<open>A stream of three bytes in chunks of one, for the witnesses.\<close>

definition sample :: "byte list \<Rightarrow> ArrayInputStream" where
  "sample data = ArrayInputStream data (int (length data)) 1"

lemma sample_ok: "int (length data) \<le> INT_MAX \<Longrightarrow> array_ok (sample data) \<and> ByteCount array_stream (sample data) = 0 \<and>
    array_rest (sample data) = data"
  by (simp add: sample_def array_ok_def ArrayInputStream_def array_stream_def ArrayInputStream_ByteCount_def array_rest_def)

abbreviation "array_coded_ok \<equiv> coded_ok array_stream array_ok array_rest array_given"
abbreviation "array_view \<equiv> view array_rest array_given"

lemma sample_coded:
  assumes "int (length data) \<le> INT_MAX"
  obtains c where "CodedInputStream array_stream (sample data) = Some c" "array_coded_ok c" "array_view c = data"
    "current_limit c = INT_MAX" "recursion_budget c = 100" "coded_input c \<noteq> None" "CurrentPosition c = 0"
proof -
  obtain c where c: "CodedInputStream array_stream (sample data) = Some c" "array_coded_ok c"
    "unread array_rest array_given c = data" "CurrentPosition c = 0" "current_limit c = INT_MAX" "total_bytes_limit c = INT_MAX"
    "recursion_budget c = 100" "coded_input c \<noteq> None"
    using array_input.CodedInputStream_spec [of "sample data"] sample_ok [OF assms] by auto
  then have "array_view c = data" using assms by (simp add: view_def closest_limit_def nat_le_iff)
  with c that show thesis by blast
qed

text \<open>What a varint reader should give: the value and the bytes behind it, or failure.\<close>

definition varint_outcome :: "(nat \<Rightarrow> 'v) \<Rightarrow> nat varint_read \<Rightarrow> 'v option \<Rightarrow> byte list \<Rightarrow> bool" where
  "varint_outcome f expected r left \<longleftrightarrow>
     (case expected of VarintOk v p \<Rightarrow> r = Some (f v) \<and> left = p | _ \<Rightarrow> r = None)"

definition size_outcome :: "nat varint_read \<Rightarrow> int option \<Rightarrow> byte list \<Rightarrow> bool" where
  "size_outcome expected r left \<longleftrightarrow>
     (case expected of
        VarintOk v p \<Rightarrow> if int (v mod 2 ^ 64) \<le> INT_MAX then r = Some (int (v mod 2 ^ 64)) \<and> left = p else r = None
      | _ \<Rightarrow> r = None)"

lemma varint_outcome:
  "varint_read_ok ops ok rest given n r f c c' \<Longrightarrow> varint_outcome f (parse_varint n (view rest given c)) r (view rest given c')"
  by (cases "parse_varint n (view rest given c)") (simp_all add: varint_read_ok_def varint_outcome_def)

lemma size_outcome:
  "size_read_ok ops ok rest given r c c' \<Longrightarrow> size_outcome (parse_varint 10 (view rest given c)) r (view rest given c')"
  by (cases "parse_varint 10 (view rest given c)") (auto simp: size_read_ok_def size_outcome_def split: if_splits)

text \<open>C7. Both varint readers equal the digit-at-a-time reference on the bytes that remain, over any chunks
  and limits, by the one-byte, array and slow paths: the value modulo the width and what follows, or
  failure on a varint that is cut off or longer than ten bytes. A size is also refused above \<open>INT_MAX\<close>.\<close>

theorem coded_varints_correct:
  assumes "zero_copy_input ops ok rest given idle" "coded_ok ops ok rest given c"
  shows "(\<exists>r c'. ReadVarint64 ops c = Some (r, c') \<and>
       varint_outcome of_nat (parse_varint 10 (view rest given c)) r (view rest given c')) \<and>
    (\<exists>r c'. ReadVarint32 ops c = Some (r, c') \<and>
       varint_outcome of_nat (parse_varint 10 (view rest given c)) r (view rest given c')) \<and>
    (\<exists>r c'. ReadVarintSizeAsInt ops c = Some (r, c') \<and>
       size_outcome (parse_varint 10 (view rest given c)) r (view rest given c'))"
  using zero_copy_input.ReadVarint64_spec [OF assms] zero_copy_input.ReadVarint32_spec [OF assms]
    zero_copy_input.ReadVarintSizeAsInt_spec [OF assms]
  by (intro conjI) (blast intro: varint_outcome size_outcome)+

theorem coded_varints_correct_witness:
  "\<exists>c. CodedInputStream array_stream (sample [0xAC, 2, 7]) = Some c \<and>
    (\<exists>c'. ReadVarint64 array_stream c = Some (Some 300, c') \<and> array_view c' = [7])"
proof -
  obtain c where c: "CodedInputStream array_stream (sample [0xAC, 2, 7]) = Some c" "array_coded_ok c" "array_view c = [0xAC, 2, 7]"
    by (rule sample_coded [of "[0xAC, 2, 7]"]) simp_all
  moreover have "parse_varint 10 [0xAC, 2, 7] = VarintOk 300 [7]" by code_simp
  ultimately show ?thesis
    using coded_varints_correct [OF array_input.zero_copy_input_axioms c(2)] by (auto simp: varint_outcome_def)
qed

text \<open>A varint that a writer of either width put at the front of the remaining bytes reads back, over any
  chunks, and leaves what follows it.\<close>

theorem coded_varint_roundtrip:
  assumes "zero_copy_input ops ok rest given idle" "coded_ok ops ok rest given c"
  shows "(view rest given c = WriteVarint64ToArray w @ r \<longrightarrow>
      (\<exists>c'. ReadVarint64 ops c = Some (Some w, c') \<and> view rest given c' = r)) \<and>
    (view rest given c = WriteVarint32ToArray v @ r \<longrightarrow>
      (\<exists>c'. ReadVarint32 ops c = Some (Some v, c') \<and> view rest given c' = r))"
proof -
  have "unat w < 128 ^ 10" using unsigned_less [of w, where 'a = nat] by simp
  then have w: "parse_varint 10 (WriteVarint64ToArray w @ r) = VarintOk (unat w) r"
    by (simp add: WriteVarint64ToArray_def UnsafeVarint_bytes parse_varint_bytes)
  have "unat v < 128 ^ 10" using unsigned_less [of v, where 'a = nat] by simp
  then have v: "parse_varint 10 (WriteVarint32ToArray v @ r) = VarintOk (unat v) r"
    by (simp add: WriteVarint32ToArray_def UnsafeVarint_bytes parse_varint_bytes)
  show ?thesis
    using zero_copy_input.ReadVarint64_spec [OF assms] zero_copy_input.ReadVarint32_spec [OF assms] w v
    by (auto simp: varint_read_ok_def)
qed

theorem coded_varint_roundtrip_witness:
  "\<exists>c c'. CodedInputStream array_stream (sample (WriteVarint64ToArray 300 @ [7])) = Some c \<and>
    ReadVarint64 array_stream c = Some (Some 300, c') \<and> array_view c' = [7]"
proof -
  have "int (length (WriteVarint64ToArray 300 @ [7])) \<le> INT_MAX" by code_simp
  then obtain c where c: "CodedInputStream array_stream (sample (WriteVarint64ToArray 300 @ [7])) = Some c"
    "array_coded_ok c" "array_view c = WriteVarint64ToArray 300 @ [7]" by (rule sample_coded)
  from coded_varint_roundtrip [OF array_input.zero_copy_input_axioms c(2)] c(1,3) show ?thesis by blast
qed

text \<open>What reading a tag should give.\<close>

definition tag_outcome ::
    "('s \<Rightarrow> byte list) \<Rightarrow> ('s \<Rightarrow> byte list) \<Rightarrow> 's CodedInputStream \<Rightarrow> uint32 \<Rightarrow> 's CodedInputStream \<Rightarrow> bool" where
  "tag_outcome rest given c tag c' \<longleftrightarrow>
     (if view rest given c = [] then
        tag = 0 \<and> (legitimate_end c \<longrightarrow> ConsumedEntireMessage c') \<and>
        (ConsumedEntireMessage c' \<longrightarrow> ConsumedEntireMessage c \<or> legitimate_end c)
      else
        (case parse_varint 10 (view rest given c) of
           VarintOk v p \<Rightarrow> tag = of_nat v \<and> view rest given c' = p | _ \<Rightarrow> tag = 0))"

lemma tag_outcome:
  assumes "tag_read_ok ops ok rest given tag c (c'\<lparr>last_tag := t\<rparr>)"
  shows "tag_outcome rest given c tag c'"
proof -
  have "view rest given (c'\<lparr>last_tag := t\<rparr>) = view rest given c'"
    by (simp add: view_def unread_def future_def closest_limit_def CurrentPosition_def split: option.split)
  with assms show ?thesis
    by (auto simp: tag_read_ok_def tag_outcome_def ConsumedEntireMessage_def split: varint_read.splits)
qed

text \<open>C8. A tag reads as the 32-bit varint at the front, or 0 when that is malformed. At the end of the view
  it reads as 0 and the message has ended legitimately, unless the total limit alone stopped it. The
  variant with a cutoff reads the same tag, and its flag says whether a tag is at most the cutoff.\<close>

theorem coded_tags_correct:
  assumes "zero_copy_input ops ok rest given idle" "coded_ok ops ok rest given c"
  shows "(\<exists>tag c'. ReadTag ops c = Some (tag, c') \<and> LastTagWas tag c' \<and> tag_outcome rest given c tag c') \<and>
    (\<exists>tag b c'. ReadTagWithCutoff ops cutoff c = Some ((tag, b), c') \<and> LastTagWas tag c' \<and> tag_outcome rest given c tag c' \<and>
      (tag \<noteq> 0 \<longrightarrow> (b \<longleftrightarrow> tag \<le> cutoff)))"
proof
  obtain tag c' where "ReadTag ops c = Some (tag, c')" "last_tag c' = tag"
    "tag_read_ok ops ok rest given tag c (c'\<lparr>last_tag := last_tag c\<rparr>)"
    using zero_copy_input.ReadTag_spec [OF assms] by blast
  from this(1,2) tag_outcome [OF this(3)]
  show "\<exists>tag c'. ReadTag ops c = Some (tag, c') \<and> LastTagWas tag c' \<and> tag_outcome rest given c tag c'"
    by (auto simp: LastTagWas_def)
next
  obtain tag b c' where c': "ReadTagWithCutoffNoLastTag ops cutoff c = Some ((tag, b), c')"
    "tag_read_ok ops ok rest given tag c c'" "tag \<noteq> 0 \<longrightarrow> (b \<longleftrightarrow> tag \<le> cutoff)"
    using zero_copy_input.ReadTagWithCutoffNoLastTag_spec [OF assms] by blast
  have "c'\<lparr>last_tag := tag, last_tag := last_tag c'\<rparr> = c'" by simp
  with c'(2) have "tag_outcome rest given c tag (c'\<lparr>last_tag := tag\<rparr>)" 
    by (intro tag_outcome [of ops ok rest given tag c "last_tag c'"]) (simp only:)
  with c' show "\<exists>tag b c'. ReadTagWithCutoff ops cutoff c = Some ((tag, b), c') \<and> LastTagWas tag c' \<and>
      tag_outcome rest given c tag c' \<and> (tag \<noteq> 0 \<longrightarrow> (b \<longleftrightarrow> tag \<le> cutoff))"
    by (simp add: ReadTagWithCutoff_def LastTagWas_def)
qed

theorem coded_tags_correct_witness:
  "\<exists>c c'. CodedInputStream array_stream (sample [0x88, 1, 7]) = Some c \<and>
    ReadTag array_stream c = Some (136, c') \<and> array_view c' = [7]"
proof -
  obtain c where c: "CodedInputStream array_stream (sample [0x88, 1, 7]) = Some c" "array_coded_ok c" "array_view c = [0x88, 1, 7]"
    by (rule sample_coded [of "[0x88, 1, 7]"]) simp_all
  moreover have "parse_varint 10 [0x88, 1, 7] = VarintOk 136 [7]" by code_simp
  ultimately show ?thesis
    using coded_tags_correct [OF array_input.zero_copy_input_axioms c(2)] by (auto simp: tag_outcome_def)
qed

text \<open>C9. Raw reads, strings, skips and fixed-width integers see the remaining bytes as one sequence: each succeeds
  exactly when that is long enough, yields its first bytes (the little-endian number they form), and
  leaves the rest of it; a failure leaves nothing.\<close>

theorem coded_bytes_correct:
  assumes "zero_copy_input ops ok rest given idle" "coded_ok ops ok rest given c" "0 \<le> n"
  shows "(\<exists>c'. ReadRaw ops n c = Some (n \<le> int (length (view rest given c)), take (nat n) (view rest given c), c') \<and>
      view rest given c' = drop (nat n) (view rest given c)) \<and>
    (\<exists>c'. ReadString ops str n c = Some (n \<le> int (length (view rest given c)), take (nat n) (view rest given c), c') \<and>
      view rest given c' = drop (nat n) (view rest given c)) \<and>
    (\<exists>c'. CodedInputStream_Skip ops n c = Some (n \<le> int (length (view rest given c)), c') \<and>
      view rest given c' = drop (nat n) (view rest given c)) \<and>
    (\<exists>c'. ReadLittleEndian32 ops c =
        Some (if 4 \<le> length (view rest given c) then Some (of_nat (le_nat (take 4 (view rest given c)))) else None, c') \<and>
      view rest given c' = drop 4 (view rest given c)) \<and>
    (\<exists>c'. ReadLittleEndian64 ops c =
        Some (if 8 \<le> length (view rest given c) then Some (of_nat (le_nat (take 8 (view rest given c)))) else None, c') \<and>
      view rest given c' = drop 8 (view rest given c))"
proof -
  let ?v = "view rest given c"
  have left: "moved ops ok rest given (min k (length ?v)) c c' \<Longrightarrow> view rest given c' = drop k ?v" for k c'
    using zero_copy_input.moved_view [OF assms(1), of "min k (length ?v)" c c'] by (simp add: min_def split: if_splits)
  show ?thesis
  proof (intro conjI)
    obtain c' where r: "ReadRaw ops n c = Some (n \<le> int (length ?v), take (nat n) ?v, c')" and m: "moved ops ok rest given (min (nat n) (length ?v)) c c'"
      using zero_copy_input.ReadRaw_spec [OF assms] by blast
    from r left [OF m] show "\<exists>c'. ReadRaw ops n c = Some (n \<le> int (length ?v), take (nat n) ?v, c') \<and> view rest given c' = drop (nat n) ?v"
      by (intro exI [of _ c'] conjI)
    obtain c' where r: "ReadString ops str n c = Some (n \<le> int (length ?v), take (nat n) ?v, c')" and m: "moved ops ok rest given (min (nat n) (length ?v)) c c'"
      using zero_copy_input.ReadString_spec [OF assms, of str] by blast
    from r left [OF m] show "\<exists>c'. ReadString ops str n c = Some (n \<le> int (length ?v), take (nat n) ?v, c') \<and> view rest given c' = drop (nat n) ?v"
      by (intro exI [of _ c'] conjI)
    obtain c' where r: "CodedInputStream_Skip ops n c = Some (n \<le> int (length ?v), c')" and m: "moved ops ok rest given (min (nat n) (length ?v)) c c'"
      using zero_copy_input.Skip_spec [OF assms] by blast
    from r left [OF m] show "\<exists>c'. CodedInputStream_Skip ops n c = Some (n \<le> int (length ?v), c') \<and> view rest given c' = drop (nat n) ?v"
      by (intro exI [of _ c'] conjI)
    obtain c' where r: "ReadLittleEndian32 ops c = Some (if 4 \<le> length ?v then Some (of_nat (le_nat (take 4 ?v))) else None, c')" and m: "moved ops ok rest given (min 4 (length ?v)) c c'" using zero_copy_input.ReadLittleEndian32_spec [OF assms(1,2)] by blast
    from r left [OF m] show "\<exists>c'. ReadLittleEndian32 ops c = Some (if 4 \<le> length ?v then Some (of_nat (le_nat (take 4 ?v))) else None, c') \<and>
        view rest given c' = drop 4 ?v" by (intro exI [of _ c'] conjI)
    obtain c' where r: "ReadLittleEndian64 ops c = Some (if 8 \<le> length ?v then Some (of_nat (le_nat (take 8 ?v))) else None, c')" and m: "moved ops ok rest given (min 8 (length ?v)) c c'" using zero_copy_input.ReadLittleEndian64_spec [OF assms(1,2)] by blast
    from r left [OF m] show "\<exists>c'. ReadLittleEndian64 ops c = Some (if 8 \<le> length ?v then Some (of_nat (le_nat (take 8 ?v))) else None, c') \<and>
        view rest given c' = drop 8 ?v" by (intro exI [of _ c'] conjI)
  qed
qed

theorem coded_bytes_correct_witness:
  "\<exists>c c'. CodedInputStream array_stream (sample [1, 2, 3, 4, 5]) = Some c \<and>
    ReadLittleEndian32 array_stream c = Some (Some 0x04030201, c') \<and> array_view c' = [5]"
proof -
  obtain c where c: "CodedInputStream array_stream (sample [1, 2, 3, 4, 5]) = Some c" "array_coded_ok c"
    "array_view c = [1, 2, 3, 4, 5]" by (rule sample_coded [of "[1, 2, 3, 4, 5]"]) simp_all
  have n: "(of_nat (le_nat (take 4 [1, 2, 3, 4, 5])) :: uint32) = 0x04030201" by simp
  have "\<exists>c'. ReadLittleEndian32 array_stream c =
      Some (if 4 \<le> length (array_view c) then Some (of_nat (le_nat (take 4 (array_view c)))) else None, c') \<and>
      array_view c' = drop 4 (array_view c)"
    using coded_bytes_correct [OF array_input.zero_copy_input_axioms c(2) order_refl, where str = "[]"]
    by (elim conjE) assumption
  then obtain c' where r: "ReadLittleEndian32 array_stream c =
      Some (if 4 \<le> length (array_view c) then Some (of_nat (le_nat (take 4 (array_view c)))) else None, c')"
    and left: "array_view c' = drop 4 (array_view c)" by (elim exE conjE)
  have "4 \<le> length (array_view c)" by (simp add: c(3))
  with r have "ReadLittleEndian32 array_stream c = Some (Some (of_nat (le_nat (take 4 (array_view c)))), c')" by (simp only: if_True)
  then have "ReadLittleEndian32 array_stream c = Some (Some 0x04030201, c')" by (simp only: c(3) n)
  moreover have "array_view c' = [5]" using left by (simp add: c(3))
  ultimately have "ReadLittleEndian32 array_stream c = Some (Some 0x04030201, c') \<and> array_view c' = [5]" by (rule conjI)
  with c(1) show ?thesis by blast
qed

text \<open>C34. What a negative argument or a malformed varint does: a negative size or count fails without moving
  and leaves the string alone, a varint cut off or of more than ten bytes fails in every reader and as a
  tag gives 0, and no failure moves the position back or beyond a limit.\<close>

theorem coded_errors:
  assumes "zero_copy_input ops ok rest given idle" "coded_ok ops ok rest given c"
    "\<forall>v p. parse_varint 10 (view rest given c) \<noteq> VarintOk v p" "n < 0"
  shows "CodedInputStream_Skip ops n c = Some (False, c) \<and> ReadString ops str n c = Some (False, str, c) \<and>
    (\<exists>c' k. ReadVarint64 ops c = Some (None, c') \<and> moved ops ok rest given k c c') \<and>
    (\<exists>c' k. ReadVarint32 ops c = Some (None, c') \<and> moved ops ok rest given k c c') \<and>
    (\<exists>c' k. ReadVarintSizeAsInt ops c = Some (None, c') \<and> moved ops ok rest given k c c') \<and>
    (\<exists>c' k. ReadTagNoLastTag ops c = Some (0, c') \<and> moved ops ok rest given k c c')"
proof -
  have bad: "parse_varint 10 (view rest given c) = VarintBad \<or> parse_varint 10 (view rest given c) = VarintPastEnd"
    using assms(3) by (cases "parse_varint 10 (view rest given c)") auto
  have varint: "varint_read_ok ops ok rest given 10 r f c c' \<Longrightarrow> r = None \<and> (\<exists>k. moved ops ok rest given k c c')"
    for r :: "'w::len word option" and f c' using bad by (auto simp: varint_read_ok_def)
  have size: "size_read_ok ops ok rest given r c c' \<Longrightarrow> r = None \<and> (\<exists>k. moved ops ok rest given k c c')" for r c'
    using bad by (auto simp: size_read_ok_def)
  have tag: "tag_read_ok ops ok rest given t c c' \<Longrightarrow> t = 0 \<and> (\<exists>k. moved ops ok rest given k c c')" for t c'
    using bad by (auto simp: tag_read_ok_def split: if_splits)
  show ?thesis
  proof (intro conjI)
    show "CodedInputStream_Skip ops n c = Some (False, c)" "ReadString ops str n c = Some (False, str, c)"
      using assms(4) by (simp_all add: CodedInputStream_Skip_def ReadString_def)
    show "\<exists>c' k. ReadVarint64 ops c = Some (None, c') \<and> moved ops ok rest given k c c'"
      using zero_copy_input.ReadVarint64_spec [OF assms(1,2)] varint by blast
    show "\<exists>c' k. ReadVarint32 ops c = Some (None, c') \<and> moved ops ok rest given k c c'"
      using zero_copy_input.ReadVarint32_spec [OF assms(1,2)] varint by blast
    show "\<exists>c' k. ReadVarintSizeAsInt ops c = Some (None, c') \<and> moved ops ok rest given k c c'"
      using zero_copy_input.ReadVarintSizeAsInt_spec [OF assms(1,2)] size by blast
    show "\<exists>c' k. ReadTagNoLastTag ops c = Some (0, c') \<and> moved ops ok rest given k c c'"
      using zero_copy_input.ReadTagNoLastTag_spec [OF assms(1,2)] tag by blast
  qed
qed

theorem coded_errors_witness:
  "\<exists>c. CodedInputStream array_stream (sample [0x80, 0x80]) = Some c \<and> CodedInputStream_Skip array_stream (- 1) c = Some (False, c) \<and>
    (\<exists>c'. ReadVarint64 array_stream c = Some (None, c'))"
proof -
  obtain c where c: "CodedInputStream array_stream (sample [0x80, 0x80]) = Some c" "array_coded_ok c"
    "array_view c = [0x80, 0x80]" by (rule sample_coded [of "[0x80, 0x80]"]) simp_all
  have "parse_varint 10 [0x80, 0x80] = VarintPastEnd" by code_simp
  then have "\<forall>v p. parse_varint 10 (array_view c) \<noteq> VarintOk v p" by (simp only: c(3)) simp
  from coded_errors [OF array_input.zero_copy_input_axioms c(2) this, of "- 1" "[]"] c(1) show ?thesis by auto
qed

lemma PopLimit_budget:
  "PopLimit old (c\<lparr>recursion_budget := n\<rparr>) = (PopLimit old c)\<lparr>recursion_budget := n\<rparr>"
  "recursion_budget (PopLimit old c) = recursion_budget c" "ConsumedEntireMessage (PopLimit old c) = False"
  by (cases c; simp add: PopLimit_def RecomputeBufferLimits_def closest_limit_def Let_def ConsumedEntireMessage_def)+

lemma budget_update:
  "view rest given (c\<lparr>recursion_budget := m\<rparr>) = view rest given c"
  "unread rest given (c\<lparr>recursion_budget := m\<rparr>) = unread rest given c"
  "CurrentPosition (c\<lparr>recursion_budget := m\<rparr>) = CurrentPosition c"
  by (simp_all add: view_def unread_def future_def closest_limit_def CurrentPosition_def split: option.split)

text \<open>C11. An embedded message: whatever is read under a pushed limit stays within it, and popping the limit
  leaves the enclosing message with exactly what was read taken from its front, the recursion budget and
  the limits as they were. A length that does not fit an \<open>int\<close> is a negative limit, and changes nothing.\<close>

theorem coded_limits_nest:
  assumes "zero_copy_input ops ok rest given idle" "coded_ok ops ok rest given c"
    "IncrementRecursionDepthAndPushLimit n c = ((old, budget), c1)" "moved ops ok rest given k c1 c2"
  shows "budget = recursion_budget c - 1 \<and>
    view rest given c1 = (if n < 0 then view rest given c else take (nat n) (view rest given c)) \<and>
    (let (consumed, c3) = DecrementRecursionDepthAndPopLimit old c2 in
      consumed = ConsumedEntireMessage c2 \<and> moved ops ok rest given k c c3 \<and> k \<le> length (view rest given c1) \<and>
      view rest given c3 = drop k (view rest given c) \<and> \<not> ConsumedEntireMessage c3)"
proof -
  define c0 where "c0 = snd (PushLimit n c)"
  have "IncrementRecursionDepthAndPushLimit n c =
      ((fst (PushLimit n c), recursion_budget c0 - 1), c0\<lparr>recursion_budget := recursion_budget c0 - 1\<rparr>)"
    by (simp add: IncrementRecursionDepthAndPushLimit_def c0_def Let_def split_beta)
  from trans [OF this [symmetric] assms(3), unfolded prod.inject]
  have push: "PushLimit n c = (old, c0)" "c1 = c0\<lparr>recursion_budget := recursion_budget c0 - 1\<rparr>"
    "budget = recursion_budget c0 - 1" by (metis c0_def prod.collapse, blast, blast)
  note p = zero_copy_input.PushLimit_spec [OF assms(1,2) push(1)]
  let ?c2 = "c2\<lparr>recursion_budget := recursion_budget c0\<rparr>"
  have m: "moved ops ok rest given k c0 ?c2"
    using assms(4) unfolding push(2)
    unfolding moved_def same_limits_def budget_update zero_copy_input.budget_ok [OF assms(1)] by auto
  note pop = zero_copy_input.push_pop [OF assms(1,2) push(1) m]
  have "recursion_budget c2 = recursion_budget c0 - 1"
    using assms(4) by (simp add: moved_def same_limits_def push(2))
  then have leave: "DecrementRecursionDepthAndPopLimit old c2 = (ConsumedEntireMessage c2, PopLimit old ?c2)"
    by (simp add: DecrementRecursionDepthAndPopLimit_def Let_def PopLimit_budget)
  have "k \<le> length (view rest given c1)" using assms(4) by (simp add: moved_def)
  with pop(1,3) show ?thesis
    unfolding leave Let_def prod.case PopLimit_budget(3) by (simp add: push(2,3) p(7,11) budget_update)
qed

theorem coded_limits_nest_witness:
  "\<exists>c old budget c1 c2 consumed c3. CodedInputStream array_stream (sample [1, 2, 3]) = Some c \<and>
    IncrementRecursionDepthAndPushLimit 2 c = ((old, budget), c1) \<and> CodedInputStream_Skip array_stream 2 c1 = Some (True, c2) \<and>
    DecrementRecursionDepthAndPopLimit old c2 = (consumed, c3) \<and> array_view c3 = [3]"
proof -
  obtain c where c: "CodedInputStream array_stream (sample [1, 2, 3]) = Some c" "array_coded_ok c" "array_view c = [1, 2, 3]"
    by (rule sample_coded [of "[1, 2, 3]"]) simp_all
  obtain old budget c1 where enter: "IncrementRecursionDepthAndPushLimit 2 c = ((old, budget), c1)"
    by (metis surj_pair)
  have "client_ok array_stream array_ok array_rest array_given ([], c)" using c(2) by (simp add: client_ok_def stack_ok_def)
  from array_input.perform_ok [OF this, of "Enter 2"] enter have ok1: "array_coded_ok c1"
    by (simp add: array_input.cl_after_def client_ok_def)
  note nest = coded_limits_nest [OF array_input.zero_copy_input_axioms c(2) enter]
  have v1: "array_view c1 = [1, 2]" using nest [OF array_input.moved_refl [OF ok1]] by (simp add: c(3))
  obtain c2 where c2: "CodedInputStream_Skip array_stream 2 c1 = Some (True, c2)"
    "moved array_stream array_ok array_rest array_given 2 c1 c2"
  proof -
    have "min (nat 2) (length (array_view c1)) = 2" "(2 \<le> int (length (array_view c1))) = True" by (simp_all add: v1)
    with array_input.Skip_spec [OF ok1, of 2] that show thesis by auto
  qed
  obtain consumed c3 where leave: "DecrementRecursionDepthAndPopLimit old c2 = (consumed, c3)" by (metis surj_pair)
  have "array_view c3 = [3]" using nest [OF c2(2)] by (simp add: leave c(3))
  with c(1) enter c2(1) leave show ?thesis by blast
qed

end
