(* ===== verification/File_Streams.thy ===== *)
theory File_Streams
  imports Zero_Copy_Output
begin

text \<open>
  Copying streams and files. The first part is the input side of io/zero_copy_stream_impl_lite.cc: \<open>CopyingInputStream::Skip\<close>
  and \<open>CopyingInputStreamAdaptor\<close>, which makes a zero-copy stream of a stream that copies. The second is
  \<open>FileInputStream\<close> and \<open>FileOutputStream\<close> of io/zero_copy_stream_impl.cc, with their loops around the
  system calls. The system calls themselves are parameters; what POSIX documents of them are the
  predicates \<open>posix_read\<close> and \<open>posix_write\<close>, under which the file streams keep the contracts.
\<close>

section \<open>Copying input\<close>

text \<open>\<open>Read\<close> returns at most that many bytes, none at the end, or an error (-1).\<close>

type_synonym 't copying_read = "nat \<Rightarrow> 't \<Rightarrow> (byte list option \<times> 't) option"
type_synonym 't copying_skip = "int \<Rightarrow> 't \<Rightarrow> (int \<times> 't) option"

text \<open>The default \<open>Skip\<close> reads into a scratch buffer of 4096 bytes.\<close>

partial_function (option) skip_loop :: "'t copying_read \<Rightarrow> int \<Rightarrow> int \<Rightarrow> 't \<Rightarrow> (int \<times> 't) option" where
  "skip_loop rd count skipped t =
     (if skipped < count then
        do {
          (r, t) \<leftarrow> rd (nat (min (count - skipped) 4096)) t;
          case r of None \<Rightarrow> Some (skipped, t)
          | Some d \<Rightarrow> if d = [] then Some (skipped, t) else skip_loop rd count (skipped + int (length d)) t
        }
      else Some (skipped, t))"

declare skip_loop.simps [code]

definition CopyingInputStream_Skip :: "'t copying_read \<Rightarrow> 't copying_skip" where
  "CopyingInputStream_Skip rd count t = skip_loop rd count 0 t"

text \<open>\<open>input_buffer\<close> is null or holds the \<open>buffer_used_\<close> bytes that were read last.\<close>

record 't CopyingInputStreamAdaptor =
  copying_input :: 't
  input_failed :: bool
  input_position :: int
  input_buffer :: "byte list option"
  input_buffer_size :: int
  backup_bytes :: int

definition CopyingInputStreamAdaptor :: "'t \<Rightarrow> int \<Rightarrow> 't CopyingInputStreamAdaptor" where
  "CopyingInputStreamAdaptor t block =
     \<lparr>copying_input = t, input_failed = False, input_position = 0, input_buffer = None,
      input_buffer_size = (if block > 0 then block else kDefaultBlockSize), backup_bytes = 0\<rparr>"

definition input_buffer_used :: "'t CopyingInputStreamAdaptor \<Rightarrow> int" where
  "input_buffer_used a = (case input_buffer a of None \<Rightarrow> 0 | Some d \<Rightarrow> int (length d))"

definition Input_AllocateBufferIfNeeded :: "'t CopyingInputStreamAdaptor \<Rightarrow> 't CopyingInputStreamAdaptor" where
  "Input_AllocateBufferIfNeeded a = (if input_buffer a = None then a\<lparr>input_buffer := Some []\<rparr> else a)"

definition Input_FreeBuffer :: "'t CopyingInputStreamAdaptor \<Rightarrow> 't CopyingInputStreamAdaptor option" where
  "Input_FreeBuffer a = (if backup_bytes a = 0 then Some (a\<lparr>input_buffer := None\<rparr>) else None)"

definition CopyingInputStreamAdaptor_Next ::
    "'t copying_read \<Rightarrow> 't CopyingInputStreamAdaptor \<Rightarrow> (byte list option \<times> 't CopyingInputStreamAdaptor) option" where
  "CopyingInputStreamAdaptor_Next rd a =
     (if input_failed a then Some (None, a)
      else
        let a = Input_AllocateBufferIfNeeded a in
        if backup_bytes a > 0 then do {
          m \<leftarrow> input_buffer a;
          Some (Some (take (nat (backup_bytes a)) (drop (nat (input_buffer_used a - backup_bytes a)) m)), a\<lparr>backup_bytes := 0\<rparr>)
        } else do {
          (r, t) \<leftarrow> rd (nat (input_buffer_size a)) (copying_input a);
          let a = a\<lparr>copying_input := t\<rparr>;
          case r of
            None \<Rightarrow> do { a \<leftarrow> Input_FreeBuffer (a\<lparr>input_failed := True\<rparr>); Some (None, a) }
          | Some d \<Rightarrow>
              if d = [] then do { a \<leftarrow> Input_FreeBuffer a; Some (None, a) }
              else Some (Some d, a\<lparr>input_position := input_position a + int (length d), input_buffer := Some d\<rparr>)
        })"

definition CopyingInputStreamAdaptor_BackUp ::
    "int \<Rightarrow> 't CopyingInputStreamAdaptor \<Rightarrow> 't CopyingInputStreamAdaptor option" where
  "CopyingInputStreamAdaptor_BackUp count a =
     (if backup_bytes a = 0 \<and> input_buffer a \<noteq> None \<and> count \<le> input_buffer_used a \<and> count \<ge> 0
      then Some (a\<lparr>backup_bytes := count\<rparr>) else None)"

definition CopyingInputStreamAdaptor_Skip ::
    "'t copying_skip \<Rightarrow> int \<Rightarrow> 't CopyingInputStreamAdaptor \<Rightarrow> (bool \<times> 't CopyingInputStreamAdaptor) option" where
  "CopyingInputStreamAdaptor_Skip sk count a =
     (if count < 0 then None
      else if input_failed a then Some (False, a)
      else if backup_bytes a \<ge> count then Some (True, a\<lparr>backup_bytes := backup_bytes a - count\<rparr>)
      else
        let count = count - backup_bytes a; a = a\<lparr>backup_bytes := 0\<rparr> in
        do {
          (skipped, t) \<leftarrow> sk count (copying_input a);
          Some (skipped = count, a\<lparr>copying_input := t, input_position := input_position a + skipped\<rparr>)
        })"

definition CopyingInputStreamAdaptor_ByteCount :: "'t CopyingInputStreamAdaptor \<Rightarrow> int" where
  "CopyingInputStreamAdaptor_ByteCount a = input_position a - backup_bytes a"

definition adaptor_stream :: "'t copying_read \<Rightarrow> 't copying_skip \<Rightarrow> 't CopyingInputStreamAdaptor ZeroCopyInputStream" where
  "adaptor_stream rd sk = \<lparr>Next = CopyingInputStreamAdaptor_Next rd, BackUp = CopyingInputStreamAdaptor_BackUp,
     Skip = CopyingInputStreamAdaptor_Skip sk, ByteCount = CopyingInputStreamAdaptor_ByteCount\<rparr>"

section \<open>Files\<close>

text \<open>A system call returns a result or sets \<open>errno\<close>.\<close>

datatype 'a syscall = Done 'a | Errno int

definition EINTR :: int where "EINTR = 4"

record 'd CopyingFile =
  fd :: 'd
  close_on_delete :: bool
  is_closed :: bool
  file_errno :: int
  previous_seek_failed :: bool

definition CopyingFile :: "'d \<Rightarrow> 'd CopyingFile" where
  "CopyingFile d = \<lparr>fd = d, close_on_delete = False, is_closed = False, file_errno = 0, previous_seek_failed = False\<rparr>"

text \<open>\<open>do result = \<dots> while (result < 0 && errno == EINTR)\<close>.\<close>

partial_function (option) no_eintr :: "('d \<Rightarrow> 'a syscall \<times> 'd) \<Rightarrow> 'd \<Rightarrow> ('a syscall \<times> 'd) option" where
  "no_eintr call d =
     (case call d of (r, d) \<Rightarrow> case r of Errno e \<Rightarrow> if e = EINTR then no_eintr call d else Some (r, d) | _ \<Rightarrow> Some (r, d))"

declare no_eintr.simps [code]

text \<open>The two \<open>Close\<close> are the same code.\<close>

definition CopyingFile_Close :: "('d \<Rightarrow> unit syscall \<times> 'd) \<Rightarrow> 'd CopyingFile \<Rightarrow> (bool \<times> 'd CopyingFile) option" where
  "CopyingFile_Close close_fd f =
     (if is_closed f then None
      else do {
        (r, d) \<leftarrow> no_eintr close_fd (fd f);
        let f = f\<lparr>is_closed := True, fd := d\<rparr>;
        case r of Errno e \<Rightarrow> Some (False, f\<lparr>file_errno := e\<rparr>) | _ \<Rightarrow> Some (True, f)
      })"

definition CopyingFileInputStream_Read :: "(nat \<Rightarrow> 'd \<Rightarrow> byte list syscall \<times> 'd) \<Rightarrow> 'd CopyingFile copying_read" where
  "CopyingFileInputStream_Read read_fd n f =
     (if is_closed f then None
      else do {
        (r, d) \<leftarrow> no_eintr (read_fd n) (fd f);
        let f = f\<lparr>fd := d\<rparr>;
        case r of Errno e \<Rightarrow> Some (None, f\<lparr>file_errno := e\<rparr>) | Done b \<Rightarrow> Some (Some b, f)
      })"

definition CopyingFileInputStream_Skip ::
    "(nat \<Rightarrow> 'd \<Rightarrow> byte list syscall \<times> 'd) \<Rightarrow> (int \<Rightarrow> 'd \<Rightarrow> int syscall \<times> 'd) \<Rightarrow> 'd CopyingFile copying_skip" where
  "CopyingFileInputStream_Skip read_fd lseek_fd count f =
     (if is_closed f then None
      else
        let default_skip = CopyingInputStream_Skip (CopyingFileInputStream_Read read_fd) count in
        if previous_seek_failed f then default_skip f
        else (case lseek_fd count (fd f) of
            (Done n, d) \<Rightarrow> Some (count, f\<lparr>fd := d\<rparr>)
          | (Errno e, d) \<Rightarrow> default_skip (f\<lparr>fd := d, previous_seek_failed := True\<rparr>)))"

partial_function (option) write_loop ::
    "(byte list \<Rightarrow> 'd \<Rightarrow> nat syscall \<times> 'd) \<Rightarrow> byte list \<Rightarrow> 'd CopyingFile \<Rightarrow> (bool \<times> 'd CopyingFile) option" where
  "write_loop write_fd data f =
     (if data = [] then Some (True, f)
      else do {
        (r, d) \<leftarrow> no_eintr (write_fd data) (fd f);
        let f = f\<lparr>fd := d\<rparr>;
        case r of
          Errno e \<Rightarrow> Some (False, f\<lparr>file_errno := e\<rparr>)
        | Done n \<Rightarrow> if n = 0 then Some (False, f) else write_loop write_fd (drop n data) f
      })"

declare write_loop.simps [code]

definition CopyingFileOutputStream_Write :: "(byte list \<Rightarrow> 'd \<Rightarrow> nat syscall \<times> 'd) \<Rightarrow> 'd CopyingFile copying_output" where
  "CopyingFileOutputStream_Write write_fd data f = (if is_closed f then None else write_loop write_fd data f)"

type_synonym 'd FileInputStream = "'d CopyingFile CopyingInputStreamAdaptor"
type_synonym 'd FileOutputStream = "'d CopyingFile CopyingOutputStreamAdaptor"

definition FileInputStream :: "'d \<Rightarrow> int \<Rightarrow> 'd FileInputStream" where
  "FileInputStream d block = CopyingInputStreamAdaptor (CopyingFile d) block"

definition FileInputStream_Close :: "('d \<Rightarrow> unit syscall \<times> 'd) \<Rightarrow> 'd FileInputStream \<Rightarrow> (bool \<times> 'd FileInputStream) option" where
  "FileInputStream_Close close_fd a =
     do { (b, f) \<leftarrow> CopyingFile_Close close_fd (copying_input a); Some (b, a\<lparr>copying_input := f\<rparr>) }"

definition file_stream ::
    "(nat \<Rightarrow> 'd \<Rightarrow> byte list syscall \<times> 'd) \<Rightarrow> (int \<Rightarrow> 'd \<Rightarrow> int syscall \<times> 'd) \<Rightarrow> 'd FileInputStream ZeroCopyInputStream" where
  "file_stream read_fd lseek_fd =
     adaptor_stream (CopyingFileInputStream_Read read_fd) (CopyingFileInputStream_Skip read_fd lseek_fd)"

text \<open>The constructor takes a block size and does not pass it on: the default applies.\<close>

definition FileOutputStream :: "'d \<Rightarrow> int \<Rightarrow> 'd FileOutputStream" where
  "FileOutputStream d block = CopyingOutputStreamAdaptor (CopyingFile d) (- 1)"

definition FileOutputStream_Close ::
    "(byte list \<Rightarrow> 'd \<Rightarrow> nat syscall \<times> 'd) \<Rightarrow> ('d \<Rightarrow> unit syscall \<times> 'd) \<Rightarrow> 'd FileOutputStream \<Rightarrow>
      (bool \<times> 'd FileOutputStream) option" where
  "FileOutputStream_Close write_fd close_fd a =
     do {
       (flush_succeeded, a) \<leftarrow> CopyingOutputStreamAdaptor_Flush (CopyingFileOutputStream_Write write_fd) a;
       (b, f) \<leftarrow> CopyingFile_Close close_fd (copying_output a);
       Some (b \<and> flush_succeeded, a\<lparr>copying_output := f\<rparr>)
     }"

definition file_output :: "(byte list \<Rightarrow> 'd \<Rightarrow> nat syscall \<times> 'd) \<Rightarrow> (nat \<Rightarrow> byte list) \<Rightarrow> 'd FileOutputStream ZeroCopyOutputStream" where
  "file_output write_fd new = adaptor_output (CopyingFileOutputStream_Write write_fd) new"

section \<open>Copying input keeps the zero-copy contract\<close>

text \<open>\<open>left\<close> is what the stream will still deliver, up to its end or its first error.\<close>

locale copying_reader =
  fixes rd :: "'t copying_read" and ok :: "'t \<Rightarrow> bool" and left :: "'t \<Rightarrow> byte list"
  assumes read: "ok t \<Longrightarrow> 0 < n \<Longrightarrow> \<exists>r t'. rd n t = Some (r, t') \<and> ok t' \<and>
    (case r of None \<Rightarrow> left t = [] \<and> left t' = []
     | Some d \<Rightarrow> left t = d @ left t' \<and> length d \<le> n \<and> (d = [] \<longrightarrow> left t = []))"

locale copying_source = copying_reader +
  fixes sk :: "'a copying_skip"
  assumes skip: "ok t \<Longrightarrow> 0 < k \<Longrightarrow>
    \<exists>t'. sk k t = Some (min k (int (length (left t))), t') \<and> ok t' \<and> left t' = drop (nat k) (left t)"

context copying_reader
begin

lemma readE:
  assumes "ok t" "0 < n"
  obtains (stop) r t' where "rd n t = Some (r, t')" "ok t'" "left t = []" "left t' = []" "r = None \<or> r = Some []"
  | (bytes) d t' where "rd n t = Some (Some d, t')" "ok t'" "left t = d @ left t'" "length d \<le> n" "d \<noteq> []"
proof -
  obtain r t' where r: "rd n t = Some (r, t')" "ok t'" "case r of None \<Rightarrow> left t = [] \<and> left t' = []
     | Some d \<Rightarrow> left t = d @ left t' \<and> length d \<le> n \<and> (d = [] \<longrightarrow> left t = [])" using read [OF assms] by blast
  show thesis
  proof (cases "r = None \<or> r = Some []")
    case True
    with r show ?thesis by (intro stop [of r t']) auto
  next
    case False
    then obtain d where "r = Some d" "d \<noteq> []" by (cases r) auto
    with r show ?thesis by (intro bytes [of d t']) auto
  qed
qed

lemma skip_loop_spec:
  assumes "ok t" "skipped \<le> count"
  shows "\<exists>t'. skip_loop rd count skipped t = Some (skipped + min (count - skipped) (int (length (left t))), t') \<and> ok t' \<and>
    left t' = drop (nat (count - skipped)) (left t)"
  using assms
proof (induction "nat (count - skipped)" arbitrary: skipped t rule: less_induct)
  case less
  show ?case
  proof (cases "skipped < count")
    case False
    with less.prems show ?thesis by (simp add: skip_loop.simps)
  next
    case True
    then have n: "0 < nat (min (count - skipped) 4096)" by simp
    show ?thesis
    proof (rule readE [OF less.prems(1) n])
      fix r t'
      assume "rd (nat (min (count - skipped) 4096)) t = Some (r, t')" "ok t'" "left t = []" "left t' = []" "r = None \<or> r = Some []"
      with True show ?thesis by (auto simp: skip_loop.simps [of rd count skipped t])
    next
      fix d t'
      assume r: "rd (nat (min (count - skipped) 4096)) t = Some (Some d, t')" "ok t'" "left t = d @ left t'"
        "length d \<le> nat (min (count - skipped) 4096)" "d \<noteq> []"
      let ?k = "skipped + int (length d)"
      have d: "1 \<le> int (length d)" "?k \<le> count" using r(4,5) True by (auto simp: Suc_le_eq)
      then have n: "nat (count - ?k) < nat (count - skipped)" "nat (count - skipped) = length d + nat (count - ?k)" by linarith+
      from less.hyps [OF n(1) r(2) d(2)] obtain t'' where
        "skip_loop rd count ?k t' = Some (?k + min (count - ?k) (int (length (left t'))), t'')" "ok t''"
        "left t'' = drop (nat (count - ?k)) (left t')" by blast
      moreover have "drop (nat (count - skipped)) (left t) = drop (nat (count - ?k)) (left t')"
        unfolding n(2) r(3) by simp
      moreover have "?k + min (count - ?k) (int (length (left t'))) = skipped + min (count - skipped) (int (length (left t)))"
        using r(3) by simp
      ultimately show ?thesis using True r(1,5) by (simp add: skip_loop.simps [of rd count skipped t])
    qed
  qed
qed

lemma default_skip: "copying_source rd ok left (CopyingInputStream_Skip rd)"
proof
  fix t and k :: int
  assume "ok t" "0 < k"
  with skip_loop_spec [of t 0 k] show "\<exists>t'. CopyingInputStream_Skip rd k t = Some (min k (int (length (left t))), t') \<and> ok t' \<and>
      left t' = drop (nat k) (left t)" by (simp add: CopyingInputStream_Skip_def)
qed

end

definition source_ok :: "('t \<Rightarrow> bool) \<Rightarrow> ('t \<Rightarrow> byte list) \<Rightarrow> 't CopyingInputStreamAdaptor \<Rightarrow> bool" where
  "source_ok ok left a \<longleftrightarrow> ok (copying_input a) \<and> 0 < input_buffer_size a \<and> input_buffer_size a \<le> INT_MAX \<and>
     0 \<le> backup_bytes a \<and> backup_bytes a \<le> input_buffer_used a \<and> input_buffer_used a \<le> INT_MAX \<and>
     (input_failed a \<longrightarrow> left (copying_input a) = [] \<and> input_buffer a = None)"

text \<open>The bytes read last, of which the last \<open>backup_bytes\<close> are to be returned again.\<close>

definition source_backup :: "'t CopyingInputStreamAdaptor \<Rightarrow> byte list" where
  "source_backup a = (case input_buffer a of None \<Rightarrow> [] | Some m \<Rightarrow> drop (length m - nat (backup_bytes a)) m)"

definition source_rest :: "('t \<Rightarrow> byte list) \<Rightarrow> 't CopyingInputStreamAdaptor \<Rightarrow> byte list" where
  "source_rest left a = source_backup a @ left (copying_input a)"

definition source_given :: "'t CopyingInputStreamAdaptor \<Rightarrow> byte list" where
  "source_given a = (if backup_bytes a = 0 then case input_buffer a of None \<Rightarrow> [] | Some m \<Rightarrow> m else [])"

lemmas source_defs = source_ok_def source_backup_def source_rest_def source_given_def input_buffer_used_def
lemmas adaptor_stream_defs = adaptor_stream_def CopyingInputStreamAdaptor_Next_def CopyingInputStreamAdaptor_BackUp_def
  CopyingInputStreamAdaptor_Skip_def CopyingInputStreamAdaptor_ByteCount_def

context copying_source
begin

abbreviation "s_ok \<equiv> source_ok ok left"
abbreviation "s_rest \<equiv> source_rest left"
abbreviation "s_ops \<equiv> adaptor_stream rd sk"

lemma source_next:
  assumes "s_ok a"
  shows "\<exists>r a'. Next s_ops a = Some (r, a') \<and> s_ok a' \<and>
    (case r of None \<Rightarrow> s_rest a = [] \<and> s_rest a' = [] \<and> ByteCount s_ops a' = ByteCount s_ops a
     | Some d \<Rightarrow> s_rest a = d @ s_rest a' \<and> (\<exists>g. source_given a' = g @ d) \<and> int (length d) \<le> INT_MAX \<and>
         ByteCount s_ops a' = ByteCount s_ops a + int (length d) \<and> d \<noteq> [])"
proof -
  consider "input_failed a" | "\<not> input_failed a" "backup_bytes a > 0" | "\<not> input_failed a" "backup_bytes a = 0"
    using assms by (force simp: source_ok_def)
  then show ?thesis
  proof cases
    case 1
    with assms show ?thesis by (cases "input_buffer a") (auto simp: adaptor_stream_defs source_defs)
  next
    case 2
    then obtain m where m: "input_buffer a = Some m" "backup_bytes a \<le> int (length m)"
      using assms by (cases "input_buffer a") (auto simp: source_defs)
    have "nat (int (length m) - backup_bytes a) = length m - nat (backup_bytes a)" using 2 by simp
    with 2 m assms show ?thesis
      by (auto simp: adaptor_stream_defs source_defs Input_AllocateBufferIfNeeded_def Let_def
          intro: exI [of _ "take (length m - nat (backup_bytes a)) m"])
  next
    case 3
    have n: "0 < nat (input_buffer_size a)" "ok (copying_input a)" using assms by (simp_all add: source_ok_def)
    show ?thesis
    proof (rule readE [OF n(2,1)])
      fix r t'
      assume "rd (nat (input_buffer_size a)) (copying_input a) = Some (r, t')" "ok t'" "left (copying_input a) = []"
        "left t' = []" "r = None \<or> r = Some []"
      with 3 assms show ?thesis
        by (cases r; cases "input_buffer a")
          (auto simp: adaptor_stream_defs source_defs Input_AllocateBufferIfNeeded_def Input_FreeBuffer_def Let_def)
    next
      fix d t'
      assume r: "rd (nat (input_buffer_size a)) (copying_input a) = Some (Some d, t')" "ok t'"
        "left (copying_input a) = d @ left t'" "length d \<le> nat (input_buffer_size a)" "d \<noteq> []"
      then have "int (length d) \<le> input_buffer_size a" using n(1) by linarith
      with 3 r assms show ?thesis
        by (cases "input_buffer a") (auto simp: adaptor_stream_defs source_defs Input_AllocateBufferIfNeeded_def Let_def)
    qed
  qed
qed

lemma source_back_up:
  assumes "s_ok a" "source_given a = u @ v" "source_given a \<noteq> []"
  shows "\<exists>a'. BackUp s_ops (int (length v)) a = Some a' \<and> s_ok a' \<and> s_rest a' = v @ s_rest a \<and>
    ByteCount s_ops a' = ByteCount s_ops a - int (length v)"
proof -
  have m: "input_buffer a = Some (u @ v)" "backup_bytes a = 0"
    using assms(2,3) by (auto simp: source_given_def split: if_splits option.splits)
  show ?thesis
  proof (cases "input_failed a")
    case False
    with m assms(1) show ?thesis by (auto simp: adaptor_stream_defs source_defs)
  next
    case True
    with m assms(1) show ?thesis by (auto simp: adaptor_stream_defs source_defs)
  qed
qed

lemma source_skip:
  assumes "s_ok a" "0 \<le> n"
  shows "\<exists>b a'. Skip s_ops n a = Some (b, a') \<and> s_ok a' \<and> s_rest a' = drop (nat n) (s_rest a) \<and>
    ((b \<longleftrightarrow> n \<le> int (length (s_rest a))) \<or> n = 0 \<and> s_rest a = []) \<and>
    ByteCount s_ops a' = ByteCount s_ops a + min n (int (length (s_rest a)))"
proof -
  have bk: "int (length (source_backup a)) = backup_bytes a"
    using assms(1) by (cases "input_buffer a") (auto simp: source_defs)
  consider "input_failed a" | "\<not> input_failed a" "backup_bytes a \<ge> n" | "\<not> input_failed a" "backup_bytes a < n" by linarith
  then show ?thesis
  proof cases
    case 1
    then have "s_rest a = []" using assms(1) by (simp add: source_rest_def source_ok_def source_backup_def)
    with 1 assms show ?thesis by (cases "n = 0") (auto simp: adaptor_stream_defs)
  next
    case 2
    let ?a = "a\<lparr>backup_bytes := backup_bytes a - n\<rparr>"
    have "source_backup ?a = drop (nat n) (source_backup a)"
    proof (cases "input_buffer a")
      case (Some m)
      have "length m - nat (backup_bytes a - n) = nat n + (length m - nat (backup_bytes a))"
        using 2 assms Some by (auto simp: source_defs)
      then show ?thesis by (simp add: source_backup_def Some)
    qed (simp add: source_backup_def)
    moreover have "nat n \<le> length (source_backup a)" using 2 bk by simp
    moreover have "s_ok ?a" using 2 assms by (simp add: source_ok_def input_buffer_used_def)
    ultimately show ?thesis using 2 assms(2) bk
      by (auto simp: adaptor_stream_defs source_rest_def)
  next
    case 3
    let ?k = "n - backup_bytes a" and ?a = "a\<lparr>backup_bytes := 0\<rparr>"
    have k: "0 < ?k" "ok (copying_input a)" using 3 assms(1) by (simp_all add: source_ok_def)
    from skip [OF k(2,1)] obtain t' where t': "sk ?k (copying_input a) = Some (min ?k (int (length (left (copying_input a)))), t')"
      "ok t'" "left t' = drop (nat ?k) (left (copying_input a))" by blast
    let ?b = "a\<lparr>backup_bytes := 0, copying_input := t', input_position := input_position a + min ?k (int (length (left (copying_input a))))\<rparr>"
    have r: "Skip s_ops n a = Some (min ?k (int (length (left (copying_input a)))) = ?k, ?b)"
      using 3 assms t'(1) by (simp add: adaptor_stream_defs Let_def)
    have "nat n = nat ?k + length (source_backup a)" using 3 assms bk by simp
    then have "drop (nat n) (s_rest a) = left t'" using t'(3) by (simp add: source_rest_def)
    moreover have "s_rest ?b = left t'" by (simp add: source_rest_def source_backup_def split: option.split)
    moreover have "s_ok ?b" using assms(1) t'(2) 3 by (auto simp: source_ok_def input_buffer_used_def split: option.splits)
    moreover have "int (length (s_rest a)) = backup_bytes a + int (length (left (copying_input a)))"
      using bk by (simp add: source_rest_def)
    ultimately show ?thesis unfolding r by (auto simp: adaptor_stream_defs)
  qed
qed

lemma source_contract: "zero_copy_input s_ops s_ok s_rest source_given (\<lambda>_. 0)"
proof
  fix a
  assume "s_ok a"
  from source_next [OF this] show "Next s_ops a \<noteq> None" by auto
next
  fix a a'
  assume "s_ok a" "Next s_ops a = Some (None, a')"
  with source_next [of a] show "s_ok a' \<and> s_rest a = [] \<and> s_rest a' = [] \<and> ByteCount s_ops a' = ByteCount s_ops a" by auto
next
  fix a d a'
  assume "s_ok a" "Next s_ops a = Some (Some d, a')"
  with source_next [of a] show "s_ok a' \<and> s_rest a = d @ s_rest a' \<and> (\<exists>g. source_given a' = g @ d) \<and> int (length d) \<le> INT_MAX \<and>
    ByteCount s_ops a' = ByteCount s_ops a + int (length d) \<and> (d = [] \<longrightarrow> (0 :: nat) < 0)" by auto
qed (fact source_back_up source_skip)+

end

section \<open>Files keep the contracts\<close>

text \<open>What POSIX documents of \<open>read\<close>: up to that many of the bytes that are left, none only at the end; an
  interrupted call changes nothing, and calls are not interrupted for ever. Of another error nothing is known, not
  even where the file is left. A device is reliable if its reads meet no other error. Of \<open>write\<close>: it accepts
  some bytes at the front of the data, or none and an error.\<close>

definition posix_read ::
    "('d \<Rightarrow> bool) \<Rightarrow> ('d \<Rightarrow> byte list) \<Rightarrow> ('d \<Rightarrow> nat) \<Rightarrow> (nat \<Rightarrow> 'd \<Rightarrow> byte list syscall \<times> 'd) \<Rightarrow> bool" where
  "posix_read ok left interrupts read_fd \<longleftrightarrow> (\<forall>d n. ok d \<longrightarrow> 0 < n \<longrightarrow>
     (case read_fd n d of
        (Done b, d') \<Rightarrow> ok d' \<and> left d = b @ left d' \<and> length b \<le> n \<and> (b = [] \<longrightarrow> left d = [])
      | (Errno e, d') \<Rightarrow> ok d' \<and> (e = EINTR \<longrightarrow> left d' = left d \<and> interrupts d' < interrupts d)))"

definition reliable_read :: "('d \<Rightarrow> bool) \<Rightarrow> (nat \<Rightarrow> 'd \<Rightarrow> byte list syscall \<times> 'd) \<Rightarrow> bool" where
  "reliable_read ok read_fd \<longleftrightarrow> (\<forall>d n e d'. ok d \<longrightarrow> 0 < n \<longrightarrow> read_fd n d = (Errno e, d') \<longrightarrow> e = EINTR)"

definition posix_write ::
    "('d \<Rightarrow> bool) \<Rightarrow> ('d \<Rightarrow> byte list) \<Rightarrow> ('d \<Rightarrow> nat) \<Rightarrow> (byte list \<Rightarrow> 'd \<Rightarrow> nat syscall \<times> 'd) \<Rightarrow> bool" where
  "posix_write ok contents interrupts write_fd \<longleftrightarrow> (\<forall>d data. ok d \<longrightarrow> data \<noteq> [] \<longrightarrow>
     (case write_fd data d of
        (Done n, d') \<Rightarrow> ok d' \<and> n \<le> length data \<and> contents d' = contents d @ take n data
      | (Errno e, d') \<Rightarrow> ok d' \<and> contents d' = contents d \<and> (e = EINTR \<longrightarrow> interrupts d' < interrupts d)))"

lemma no_eintr_returns:
  assumes "\<And>d d'. ok d \<Longrightarrow> call d = (Errno EINTR, d') \<Longrightarrow> ok d' \<and> left d' = left d \<and> (interrupts d' :: nat) < interrupts d" "ok d"
  obtains r d1 d2 where "no_eintr call d = Some (r, d2)" "ok d1" "left d1 = left d" "call d1 = (r, d2)" "r \<noteq> Errno EINTR"
  using assms(2)
proof (induction "interrupts d" arbitrary: d thesis rule: less_induct)
  case less
  obtain r d' where r: "call d = (r, d')" by (cases "call d")
  show ?case
  proof (cases "r = Errno EINTR")
    case False
    with r have "no_eintr call d = Some (r, d')" by (cases r) (simp_all add: no_eintr.simps [of call d])
    with r False less.prems(2) show ?thesis by (intro less.prems(1) [of r d' d]) simp_all
  next
    case True
    then have d': "ok d'" "left d' = left d" "interrupts d' < interrupts d" using assms(1) [OF less.prems(2), of d'] r by auto
    from r True have step: "no_eintr call d = no_eintr call d'" by (simp add: no_eintr.simps [of call d])
    show ?thesis
    proof (rule less.hyps [OF d'(3) _ d'(1)])
      fix r d1 d2
      assume "no_eintr call d' = Some (r, d2)" "ok d1" "left d1 = left d'" "call d1 = (r, d2)" "r \<noteq> Errno EINTR"
      with step d'(2) show ?thesis by (intro less.prems(1) [of r d2 d1]) simp_all
    qed
  qed
qed

definition file_ok :: "('d \<Rightarrow> bool) \<Rightarrow> 'd CopyingFile \<Rightarrow> bool" where
  "file_ok ok f \<longleftrightarrow> \<not> is_closed f \<and> ok (fd f)"

text \<open>A read that gave up: after interruptions only, the call met an error that was not one.\<close>

definition read_error ::
    "('d \<Rightarrow> bool) \<Rightarrow> ('d \<Rightarrow> byte list) \<Rightarrow> (nat \<Rightarrow> 'd \<Rightarrow> byte list syscall \<times> 'd) \<Rightarrow> 'd CopyingFile \<Rightarrow> 'd CopyingFile \<Rightarrow> bool" where
  "read_error ok left read_fd f f' \<longleftrightarrow> (\<exists>n d e. ok d \<and> 0 < n \<and> left d = left (fd f) \<and> read_fd n d = (Errno e, fd f') \<and>
     e \<noteq> EINTR \<and> file_errno f' = e)"

lemma read_error_reliable: "read_error ok left read_fd f f' \<Longrightarrow> \<not> reliable_read ok read_fd"
  by (auto simp: read_error_def reliable_read_def)

lemma file_read:
  assumes "posix_read ok left interrupts read_fd" "file_ok ok f" "0 < n"
  obtains r f' where "CopyingFileInputStream_Read read_fd n f = Some (r, f')" "file_ok ok f'"
    "case r of None \<Rightarrow> read_error ok left read_fd f f'
     | Some d \<Rightarrow> left (fd f) = d @ left (fd f') \<and> length d \<le> n \<and> (d = [] \<longrightarrow> left (fd f) = [])"
proof -
  note law = assms(1) [unfolded posix_read_def, rule_format, OF _ assms(3)]
  obtain r d1 d2 where r: "no_eintr (read_fd n) (fd f) = Some (r, d2)" "ok d1" "left d1 = left (fd f)" "read_fd n d1 = (r, d2)" "r \<noteq> Errno EINTR"
  proof (rule no_eintr_returns [of ok "read_fd n" left interrupts "fd f"])
    show "ok (fd f)" using assms(2) by (simp add: file_ok_def)
  next
    fix d d'
    assume "ok d" "read_fd n d = (Errno EINTR, d')"
    then show "ok d' \<and> left d' = left d \<and> interrupts d' < interrupts d" using law [of d] by simp
  qed
  show thesis
  proof (cases r)
    case (Done b)
    with assms(2) r(1) law [OF r(2)] show ?thesis unfolding r(3,4)
      by (intro that [of "Some b" "f\<lparr>fd := d2\<rparr>"]) (auto simp: CopyingFileInputStream_Read_def file_ok_def r(3))
  next
    case (Errno e)
    with r(5) have "e \<noteq> EINTR" by simp
    with r(2-4) Errno assms(3) have "read_error ok left read_fd f (f\<lparr>fd := d2, file_errno := e\<rparr>)"
      by (auto simp: read_error_def)
    with Errno assms(2) r(1) law [OF r(2)] show ?thesis unfolding r(4)
      by (intro that [of None "f\<lparr>fd := d2, file_errno := e\<rparr>"]) (simp_all add: CopyingFileInputStream_Read_def file_ok_def)
  qed
qed

lemma file_reader:
  assumes "posix_read ok left interrupts read_fd" "reliable_read ok read_fd"
  shows "copying_reader (CopyingFileInputStream_Read read_fd) (file_ok ok) (\<lambda>f. left (fd f))"
proof
  fix f :: "'a CopyingFile" and n :: nat
  assume f: "file_ok ok f" and n: "0 < n"
  show "\<exists>r t'. CopyingFileInputStream_Read read_fd n f = Some (r, t') \<and> file_ok ok t' \<and>
      (case r of None \<Rightarrow> left (fd f) = [] \<and> left (fd t') = []
       | Some d \<Rightarrow> left (fd f) = d @ left (fd t') \<and> length d \<le> n \<and> (d = [] \<longrightarrow> left (fd f) = []))"
    by (rule file_read [OF assms(1) f n]) (use assms(2) in \<open>auto dest: read_error_reliable split: option.splits\<close>)
qed

text \<open>What \<open>Next\<close> does on any device: it delivers the bytes that come next, and when it fails, the file is
  at its end or an error was met, after which it always fails. The invariant is that of \<open>source_ok\<close> without its
  claim on what is left after an error.\<close>

abbreviation "reading_ok ok \<equiv> source_ok (file_ok ok) (\<lambda>_. [])"

lemma file_next:
  assumes p: "posix_read ok left interrupts read_fd" and a: "reading_ok ok a"
  shows "\<exists>r a'. Next (file_stream read_fd lseek_fd) a = Some (r, a') \<and> reading_ok ok a' \<and>
    (case r of
       None \<Rightarrow> (if input_failed a' then input_failed a \<and> a' = a \<or> read_error ok left read_fd (copying_input a) (copying_input a')
               else source_rest (\<lambda>f. left (fd f)) a = [])
     | Some d \<Rightarrow> d \<noteq> [] \<and> source_rest (\<lambda>f. left (fd f)) a = d @ source_rest (\<lambda>f. left (fd f)) a' \<and> \<not> input_failed a')"
proof -
  consider "input_failed a" | "\<not> input_failed a" "backup_bytes a > 0" | "\<not> input_failed a" "backup_bytes a = 0"
    using a by (force simp: source_ok_def)
  then show ?thesis
  proof cases
    case 1
    with a show ?thesis by (auto simp: file_stream_def adaptor_stream_defs)
  next
    case 2
    then obtain m where m: "input_buffer a = Some m" "backup_bytes a \<le> int (length m)"
      using a by (cases "input_buffer a") (auto simp: source_defs)
    have "nat (int (length m) - backup_bytes a) = length m - nat (backup_bytes a)" using 2 by simp
    with 2 m a show ?thesis
      by (auto simp: file_stream_def adaptor_stream_defs source_defs Input_AllocateBufferIfNeeded_def Let_def)
  next
    case 3
    have n: "0 < nat (input_buffer_size a)" "file_ok ok (copying_input a)" using a by (simp_all add: source_ok_def)
    obtain r f' where r: "CopyingFileInputStream_Read read_fd (nat (input_buffer_size a)) (copying_input a) = Some (r, f')" "file_ok ok f'"
      "case r of None \<Rightarrow> read_error ok left read_fd (copying_input a) f'
       | Some d \<Rightarrow> left (fd (copying_input a)) = d @ left (fd f') \<and> length d \<le> nat (input_buffer_size a) \<and>
           (d = [] \<longrightarrow> left (fd (copying_input a)) = [])"
      by (rule file_read [OF p n(2,1)])
    have bk: "source_backup a = []" using 3 by (cases "input_buffer a") (simp_all add: source_backup_def)
    show ?thesis
    proof (cases r)
      case None
      with 3 a r show ?thesis
        by (cases "input_buffer a")
          (auto simp: file_stream_def adaptor_stream_defs source_ok_def input_buffer_used_def Input_AllocateBufferIfNeeded_def
            Input_FreeBuffer_def Let_def)
    next
      case (Some d)
      with r n(1) have "int (length d) \<le> input_buffer_size a" by auto
      with Some 3 a r bk show ?thesis
        by (cases "input_buffer a")
          (auto simp: file_stream_def adaptor_stream_defs source_defs Input_AllocateBufferIfNeeded_def Input_FreeBuffer_def Let_def)
    qed
  qed
qed

text \<open>A file that cannot be sought, such as a pipe, is read to skip.\<close>

lemma pipe_source:
  assumes "posix_read ok left interrupts read_fd" "reliable_read ok read_fd"
    "\<And>k d. ok d \<Longrightarrow> \<exists>e d'. lseek_fd k d = (Errno e, d') \<and> ok d' \<and> left d' = left d"
  shows "copying_source (CopyingFileInputStream_Read read_fd) (file_ok ok) (\<lambda>f. left (fd f))
    (CopyingFileInputStream_Skip read_fd lseek_fd)"
proof (intro copying_source.intro copying_source_axioms.intro)
  show "copying_reader (CopyingFileInputStream_Read read_fd) (file_ok ok) (\<lambda>f. left (fd f))" by (rule file_reader [OF assms(1,2)])
  note def = copying_source.skip [OF copying_reader.default_skip [OF this]]
  fix f and k :: int
  assume f: "file_ok ok f" and k: "0 < k"
  show "\<exists>t'. CopyingFileInputStream_Skip read_fd lseek_fd k f = Some (min k (int (length (left (fd f)))), t') \<and> file_ok ok t' \<and>
      left (fd t') = drop (nat k) (left (fd f))"
  proof (cases "previous_seek_failed f")
    case True
    with def [OF f k] f show ?thesis by (simp add: CopyingFileInputStream_Skip_def file_ok_def)
  next
    case False
    obtain e d where d: "lseek_fd k (fd f) = (Errno e, d)" "ok d" "left d = left (fd f)"
      using assms(3) [of "fd f" k] f by (auto simp: file_ok_def)
    with def [of "f\<lparr>fd := d, previous_seek_failed := True\<rparr>", OF _ k] f False show ?thesis
      by (simp add: CopyingFileInputStream_Skip_def file_ok_def)
  qed
qed

lemma write_loop_returns:
  assumes "posix_write ok contents interrupts write_fd" "file_ok ok f"
  shows "\<exists>b f'. write_loop write_fd data f = Some (b, f') \<and> file_ok ok f' \<and>
    (\<exists>k. contents (fd f') = contents (fd f) @ take k data \<and> (b \<longrightarrow> length data \<le> k))"
  using assms(2)
proof (induction "length data" arbitrary: data f rule: less_induct)
  case less
  show ?case
  proof (cases "data = []")
    case True
    with less.prems show ?thesis by (intro exI [of _ True] exI [of _ f]) (simp add: write_loop.simps)
  next
    case False
    note law = assms(1) [unfolded posix_write_def, rule_format, OF _ False]
    obtain r d1 d2 where r: "no_eintr (write_fd data) (fd f) = Some (r, d2)" "ok d1" "contents d1 = contents (fd f)"
      "write_fd data d1 = (r, d2)" "r \<noteq> Errno EINTR"
    proof (rule no_eintr_returns [of ok "write_fd data" contents interrupts "fd f"])
      show "ok (fd f)" using less.prems by (simp add: file_ok_def)
    next
      fix d d'
      assume "ok d" "write_fd data d = (Errno EINTR, d')"
      then show "ok d' \<and> contents d' = contents d \<and> interrupts d' < interrupts d" using law [of d] by simp
    qed
    show ?thesis
    proof (cases r)
      case (Errno e)
      with r law [OF r(2)] False less.prems show ?thesis
        by (auto simp: write_loop.simps [of write_fd data] file_ok_def intro: exI [of _ 0])
    next
      case (Done n)
      with r law [OF r(2)] have n: "ok d2" "n \<le> length data" "contents d2 = contents (fd f) @ take n data" by auto
      show ?thesis
      proof (cases "n = 0")
        case True
        with r Done n False less.prems show ?thesis
          by (auto simp: write_loop.simps [of write_fd data] file_ok_def intro: exI [of _ 0])
      next
        case b: False
        then have "length (drop n data) < length data" "file_ok ok (f\<lparr>fd := d2\<rparr>)" using False n(1) less.prems by (simp_all add: file_ok_def)
        from less.hyps [OF this] obtain b f' k where f': "write_loop write_fd (drop n data) (f\<lparr>fd := d2\<rparr>) = Some (b, f')" "file_ok ok f'"
          "contents (fd f') = contents d2 @ take k (drop n data)" "b \<longrightarrow> length (drop n data) \<le> k" by auto
        have "write_loop write_fd data f = Some (b, f')" using r(1) Done b False f'(1) by (simp add: write_loop.simps [of write_fd data])
        moreover have "contents (fd f') = contents (fd f) @ take (n + k) data" using f'(3) n(3) by (simp add: take_add)
        ultimately show ?thesis using f'(2,4) n(2) by (auto intro!: exI [of _ "n + k"])
      qed
    qed
  qed
qed

lemma file_sink:
  assumes "posix_write ok contents interrupts write_fd"
  shows "copying_sink (CopyingFileOutputStream_Write write_fd) (file_ok ok) (\<lambda>f. contents (fd f))"
proof
  fix f d
  assume f: "file_ok ok f"
  with write_loop_returns [OF assms f, of d] show "\<exists>b f'. CopyingFileOutputStream_Write write_fd d f = Some (b, f') \<and> file_ok ok f' \<and>
      (b \<longrightarrow> contents (fd f') = contents (fd f) @ d)"
    by (fastforce simp: CopyingFileOutputStream_Write_def file_ok_def)
qed

text \<open>What is left of the permanence of errors in a \<open>FileOutputStream\<close>: the file stays as it is, and \<open>Close\<close> reports the
  failure.\<close>

lemma Close_failed:
  assumes "output_failed a" "FileOutputStream_Close write_fd close_fd a = Some (b, a')"
  shows "\<not> b"
  using assms by (auto simp: FileOutputStream_Close_def CopyingOutputStreamAdaptor_Flush_def WriteBuffer_failed split: bind_splits)
section \<open>A device that keeps the contracts\<close>

text \<open>For the interpretations and witnesses: a device with the bytes in it and a script for its next calls,
  a negative entry being the error to report and another one the most bytes to take. It is reliable if
  the only errors in the script are interruptions.\<close>

record device =
  device_bytes :: "byte list"
  device_script :: "int list"

fun script_step :: "device \<Rightarrow> int option \<times> device" where
  "script_step d = (case device_script d of [] \<Rightarrow> (None, d) | x # xs \<Rightarrow> (Some x, d\<lparr>device_script := xs\<rparr>))"

definition device_read :: "nat \<Rightarrow> device \<Rightarrow> byte list syscall \<times> device" where
  "device_read n d =
     (case script_step d of (x, d) \<Rightarrow>
        if x = Some (- EINTR) then (Errno EINTR, d)
        else if x \<noteq> None \<and> the x < 0 then (Errno (- the x), d)
        else let k = (case x of None \<Rightarrow> n | Some y \<Rightarrow> min n (max 1 (nat y))) in
             (Done (take k (device_bytes d)), d\<lparr>device_bytes := drop k (device_bytes d)\<rparr>))"

definition device_write :: "byte list \<Rightarrow> device \<Rightarrow> nat syscall \<times> device" where
  "device_write data d =
     (case script_step d of (x, d) \<Rightarrow>
        if x \<noteq> None \<and> the x < 0 then (Errno (- the x), d)
        else let k = (case x of None \<Rightarrow> length data | Some y \<Rightarrow> min (length data) (nat y)) in
             (Done k, d\<lparr>device_bytes := device_bytes d @ take k data\<rparr>))"

text \<open>A pipe (\<open>ESPIPE\<close>) and a regular file, which may be sought beyond its end.\<close>

definition pipe_lseek :: "int \<Rightarrow> device \<Rightarrow> int syscall \<times> device" where
  "pipe_lseek k d = (Errno 29, d)"

definition regular_lseek :: "int \<Rightarrow> device \<Rightarrow> int syscall \<times> device" where
  "regular_lseek k d = (Done 0, d\<lparr>device_bytes := drop (nat k) (device_bytes d)\<rparr>)"

definition device_reliable :: "device \<Rightarrow> bool" where
  "device_reliable d \<longleftrightarrow> (\<forall>x \<in> set (device_script d). x < 0 \<longrightarrow> x = - EINTR)"

lemma device_posix_read: "posix_read (\<lambda>_. True) device_bytes (\<lambda>d. length (device_script d)) device_read"
  by (auto simp: posix_read_def device_read_def EINTR_def Let_def split: list.splits)

lemma device_reliable_step:
  assumes "device_reliable d"
  shows "device_reliable (snd (script_step d))" "fst (script_step d) = Some x \<Longrightarrow> x < 0 \<Longrightarrow> x = - EINTR"
  using assms by (auto simp: device_reliable_def split: list.splits)

lemma device_read_reliable:
  assumes "device_reliable d" "device_read n d = (r, d')"
  shows "device_reliable d'" "r = Errno e \<Longrightarrow> e = EINTR"
proof -
  note step = device_reliable_step [OF assms(1)]
  obtain x d1 where x: "script_step d = (x, d1)" by (cases "script_step d")
  have "(r = Errno e \<longrightarrow> e = EINTR) \<and> device_reliable d'"
  proof (cases "x \<noteq> None \<and> the x < 0")
    case True
    with step(2) x have "x = Some (- EINTR)" by fastforce
    with assms(2) step(1) x show ?thesis by (auto simp: device_read_def simp del: script_step.simps)
  next
    case False
    with assms(2) step(1) x show ?thesis
      by (auto simp: device_read_def device_reliable_def Let_def EINTR_def simp del: script_step.simps split: if_splits)
  qed
  then show "device_reliable d'" "r = Errno e \<Longrightarrow> e = EINTR" by simp_all
qed

lemma device_reliable_read:
  "posix_read device_reliable device_bytes (\<lambda>d. length (device_script d)) device_read" "reliable_read device_reliable device_read"
proof -
  show "posix_read device_reliable device_bytes (\<lambda>d. length (device_script d)) device_read"
    using device_posix_read device_read_reliable(1) unfolding posix_read_def by (fastforce split: prod.splits syscall.splits)
  show "reliable_read device_reliable device_read"
    using device_read_reliable(2) unfolding reliable_read_def by blast
qed

lemma device_posix_write: "posix_write (\<lambda>_. True) device_bytes (\<lambda>d. length (device_script d)) device_write"
  by (auto simp: posix_write_def device_write_def EINTR_def Let_def split: list.splits)

interpretation device_reader: copying_reader "CopyingFileInputStream_Read device_read" "file_ok device_reliable"
    "\<lambda>f. device_bytes (fd f)"
  by (rule file_reader [OF device_reliable_read])

interpretation device_source: copying_source "CopyingFileInputStream_Read device_read" "file_ok device_reliable"
    "\<lambda>f. device_bytes (fd f)" "CopyingFileInputStream_Skip device_read pipe_lseek"
  by (rule pipe_source [OF device_reliable_read]) (simp add: pipe_lseek_def)

interpretation pipe_input: zero_copy_input "file_stream device_read pipe_lseek"
    "source_ok (file_ok device_reliable) (\<lambda>f. device_bytes (fd f))" "source_rest (\<lambda>f. device_bytes (fd f))" source_given "\<lambda>_. 0"
  unfolding file_stream_def by (rule device_source.source_contract)

interpretation device_sink: copying_sink "CopyingFileOutputStream_Write device_write" "file_ok (\<lambda>_. True)"
    "\<lambda>f. device_bytes (fd f)"
  by (rule file_sink [OF device_posix_write])

interpretation device_out: zero_copy_output "file_output device_write (\<lambda>n. replicate n 0)" "adaptor_ok (file_ok (\<lambda>_. True))"
    "adaptor_sound (\<lambda>f. device_bytes (fd f))" "adaptor_written (\<lambda>f. device_bytes (fd f))" adaptor_chunk "\<lambda>_. 0"
  unfolding file_output_def by (rule device_sink.adaptor_contract) simp

interpretation device_steady: steady_output "file_output device_write (\<lambda>n. replicate n 0)" "adaptor_ok (file_ok (\<lambda>_. True))"
    "adaptor_sound (\<lambda>f. device_bytes (fd f))" "adaptor_written (\<lambda>f. device_bytes (fd f))" adaptor_chunk "\<lambda>_. 0"
  by unfold_locales (simp add: file_output_def adaptor_output_def)

section \<open>Findings on concrete inputs\<close>

text \<open>A seek beyond the end succeeds, so \<open>Skip\<close> reports ten bytes skipped of a file of three.\<close>

lemma FileInputStream_skips_past_end:
  "map_option (\<lambda>(b, a). (b, ByteCount (file_stream device_read regular_lseek) a))
     (Skip (file_stream device_read regular_lseek) 10 (FileInputStream \<lparr>device_bytes = [1, 2, 3], device_script = []\<rparr> 8)) =
   Some (True, 10)"
  by code_simp

text \<open>The block size given to \<open>FileOutputStream\<close> is ignored.\<close>

lemma FileOutputStream_ignores_block_size: "output_buffer_size (FileOutputStream d 16) = 8192"
  by (simp add: FileOutputStream_def CopyingOutputStreamAdaptor_def kDefaultBlockSize_def)

text \<open>An error of the copying stream is not permanent in its adaptor: the call of \<open>Next\<close> that meets it fails, the
  next one returns a chunk again.\<close>

lemma CopyingOutputStreamAdaptor_recovers:
  "do {
     let ops = file_output device_write (\<lambda>n. replicate n 0);
     (r1, a) \<leftarrow> Output_Next ops (CopyingOutputStreamAdaptor (CopyingFile \<lparr>device_bytes = [], device_script = [- 28]\<rparr>) 4);
     (r2, a) \<leftarrow> Output_Next ops a;
     (r3, a) \<leftarrow> Output_Next ops a;
     Some (r1, r2, r3, output_failed a)
   } = Some (Some (0, 4), None, Some (0, 4), True)"
  by code_simp

end
