(* ===== verification/Coded_Output_Client.thy ===== *)
theory Coded_Output_Client
  imports Eps_Copy_Correct Coded_Input_Client File_Streams
begin

text \<open>
  \<open>CodedOutputStream\<close> as its user sees it: any sequence of its calls returns, and what they leave in the
  stream below is the concatenation of the bytes of each call, in order, however that stream cuts its memory
  into chunks; and what it wrote, \<open>CodedInputStream\<close> reads back.
\<close>

section \<open>The calls of a user\<close>

datatype out_op =
    Put_raw "byte list" | Put_aliased "byte list" | Put_string "byte list"
  | Put_fixed32 uint32 | Put_fixed64 uint64 | Put_varint32 uint32 | Put_varint64 uint64 | Put_int32 uint32 | Put_tag uint32
  | Put_field uint32 "byte list" | Put_field_aliased uint32 "byte list"
  | Put_packed_int32 uint32 uint32 "uint32 list" | Put_packed_uint32 uint32 uint32 "uint32 list"
  | Put_packed_sint32 uint32 uint32 "uint32 list" | Put_packed_int64 uint32 uint32 "uint64 list"
  | Put_packed_sint64 uint32 uint32 "uint64 list" | Put_packed_fixed uint32 "byte list list"
  | Trim_now | Check_error | Set_aliasing bool

fun write_op :: "'s ZeroCopyOutputStream \<Rightarrow> out_op \<Rightarrow> 's CodedOutputStream \<Rightarrow> 's CodedOutputStream option" where
  "write_op ops (Put_raw d) c = Coded_WriteRaw ops d c"
| "write_op ops (Put_aliased d) c = Coded_WriteRawMaybeAliased ops d c"
| "write_op ops (Put_string d) c = Coded_WriteString ops d c"
| "write_op ops (Put_fixed32 v) c = Coded_WriteLittleEndian32 ops v c"
| "write_op ops (Put_fixed64 v) c = Coded_WriteLittleEndian64 ops v c"
| "write_op ops (Put_varint32 v) c = Coded_WriteVarint32 ops v c"
| "write_op ops (Put_varint64 v) c = Coded_WriteVarint64 ops v c"
| "write_op ops (Put_int32 v) c = Coded_WriteVarint32SignExtended ops v c"
| "write_op ops (Put_tag v) c = Coded_WriteTag ops v c"
| "write_op ops (Put_field num s) c = on_impl (Eps_WriteString ops num s) c"
| "write_op ops (Put_field_aliased num s) c = on_impl (WriteStringMaybeAliased ops num s) c"
| "write_op ops (Put_packed_int32 num n vs) c = on_impl (WriteInt32Packed ops num vs n) c"
| "write_op ops (Put_packed_uint32 num n vs) c = on_impl (WriteUInt32Packed ops num vs n) c"
| "write_op ops (Put_packed_sint32 num n vs) c = on_impl (WriteSInt32Packed ops num vs n) c"
| "write_op ops (Put_packed_int64 num n vs) c = on_impl (WriteInt64Packed ops num vs n) c"
| "write_op ops (Put_packed_sint64 num n vs) c = on_impl (WriteSInt64Packed ops num vs n) c"
| "write_op ops (Put_packed_fixed num vs) c = on_impl (WriteFixedPacked ops num vs) c"
| "write_op ops Trim_now c = Coded_Trim ops c"
| "write_op ops Check_error c = do { (b, c) \<leftarrow> Coded_HadError ops c; Some c }"
| "write_op ops (Set_aliasing b) c = Coded_EnableAliasing ops b c"

text \<open>The packed varint writers read the first element before they look at the length.\<close>

fun out_admissible :: "out_op \<Rightarrow> bool" where
  "out_admissible (Put_packed_int32 num n vs) = (vs \<noteq> [])"
| "out_admissible (Put_packed_uint32 num n vs) = (vs \<noteq> [])"
| "out_admissible (Put_packed_sint32 num n vs) = (vs \<noteq> [])"
| "out_admissible (Put_packed_int64 num n vs) = (vs \<noteq> [])"
| "out_admissible (Put_packed_sint64 num n vs) = (vs \<noteq> [])"
| "out_admissible _ = True"

text \<open>The bytes of a call, on the wire.\<close>

fun le_bytes :: "nat \<Rightarrow> nat \<Rightarrow> byte list" where
  "le_bytes 0 n = []"
| "le_bytes (Suc k) n = of_nat (n mod 256) # le_bytes k (n div 256)"

fun op_bytes :: "out_op \<Rightarrow> byte list" where
  "op_bytes (Put_raw d) = d"
| "op_bytes (Put_aliased d) = d"
| "op_bytes (Put_string d) = d"
| "op_bytes (Put_fixed32 v) = le_bytes 4 (unat v)"
| "op_bytes (Put_fixed64 v) = le_bytes 8 (unat v)"
| "op_bytes (Put_varint32 v) = varint_bytes (unat v)"
| "op_bytes (Put_varint64 v) = varint_bytes (unat v)"
| "op_bytes (Put_int32 v) = varint_bytes (unat (scast v :: uint64))"
| "op_bytes (Put_tag v) = varint_bytes (unat v)"
| "op_bytes (Put_field num s) = delim num (of_nat (length s)) @ s"
| "op_bytes (Put_field_aliased num s) = delim num (of_nat (length s)) @ s"
| "op_bytes (Put_packed_int32 num n vs) = delim num n @ concat (map (\<lambda>v. varint_bytes (unat (scast v :: uint64))) vs)"
| "op_bytes (Put_packed_uint32 num n vs) = delim num n @ concat (map (\<lambda>v. varint_bytes (unat v)) vs)"
| "op_bytes (Put_packed_sint32 num n vs) = delim num n @ concat (map (\<lambda>v. varint_bytes (unat (ZigZagEncode32 v))) vs)"
| "op_bytes (Put_packed_int64 num n vs) = delim num n @ concat (map (\<lambda>v. varint_bytes (unat v)) vs)"
| "op_bytes (Put_packed_sint64 num n vs) = delim num n @ concat (map (\<lambda>v. varint_bytes (unat (ZigZagEncode64 v))) vs)"
| "op_bytes (Put_packed_fixed num vs) = delim num (of_nat (length (concat vs))) @ concat vs"
| "op_bytes _ = []"

fun write_ops :: "'s ZeroCopyOutputStream \<Rightarrow> out_op list \<Rightarrow> 's CodedOutputStream \<Rightarrow> 's CodedOutputStream option" where
  "write_ops ops [] c = Some c"
| "write_ops ops (x # xs) c = do { c \<leftarrow> write_op ops x c; write_ops ops xs c }"

section \<open>Fixed-width integers\<close>

lemma length_le_bytes [simp]: "length (le_bytes k n) = k"
  by (induction k arbitrary: n) simp_all

lemma unat_drop: "unat (drop_bit k v) = unat v div 2 ^ k"
  by (simp only: unsigned_drop_bit_eq drop_bit_eq_div [where 'a = nat] take_bit_eq_mod) (simp add: mod_less [OF unat_bound])

lemma byte_of_word: "(ucast (drop_bit k v) :: byte) = of_nat (unat (v :: 'a::len word) div 2 ^ k)"
proof -
  have "(ucast (drop_bit k v) :: byte) = of_nat (unat (drop_bit k v))" by (simp only: of_nat_unat)
  then show ?thesis by (simp only: unat_drop)
qed

lemma byte_mod: "of_nat (n mod 256) = (of_nat n :: byte)"
  by (rule word_unat_eq_iff [THEN iffD2]) (simp add: unat_byte_of_nat)

lemma le_bytes_4: "le_bytes 4 n = [of_nat n, of_nat (n div 256), of_nat (n div 65536), of_nat (n div 16777216)]"
proof -
  have four: "4 = Suc (Suc (Suc (Suc 0)))" by simp
  show ?thesis unfolding four le_bytes.simps byte_mod by (simp flip: div_mult2_eq)
qed

lemma le_bytes_8: "le_bytes 8 n = le_bytes 4 n @ le_bytes 4 (n div 4294967296)"
proof -
  have eight: "8 = Suc (Suc (Suc (Suc (Suc (Suc (Suc (Suc 0)))))))" by simp
  show ?thesis unfolding eight le_bytes.simps byte_mod le_bytes_4 by (simp flip: div_mult2_eq)
qed

lemma le_bytes_mod: "le_bytes k (n mod 256 ^ k) = le_bytes k n"
proof (induction k arbitrary: n)
  case (Suc k)
  have m: "n mod 256 ^ Suc k = 256 * (n div 256 mod 256 ^ k) + n mod 256" by (simp add: mod_mult2_eq)
  have "n mod 256 ^ Suc k mod 256 = n mod 256" "n mod 256 ^ Suc k div 256 = n div 256 mod 256 ^ k" unfolding m by simp_all
  then show ?case by (simp only: le_bytes.simps Suc.IH)
qed simp

lemma LittleEndian32_bytes: "WriteLittleEndian32ToArray v = le_bytes 4 (unat v)"
proof -
  have "WriteLittleEndian32ToArray v = [ucast (drop_bit 0 v), ucast (drop_bit 8 v), ucast (drop_bit 16 v), ucast (drop_bit 24 v)]"
    by (simp add: WriteLittleEndian32ToArray_def)
  then show ?thesis unfolding byte_of_word le_bytes_4 by simp
qed

lemma LittleEndian64_bytes: "WriteLittleEndian64ToArray v = le_bytes 8 (unat v)"
proof -
  have "WriteLittleEndian64ToArray v = WriteLittleEndian32ToArray (ucast v) @ WriteLittleEndian32ToArray (ucast (drop_bit 32 v))"
    by (simp add: WriteLittleEndian64ToArray_def WriteLittleEndian32ToArray_def Let_def)
  also have "\<dots> = le_bytes 4 (unat v mod 4294967296) @ le_bytes 4 (unat v div 4294967296)"
  proof -
    have "unat (drop_bit 32 v) < 4294967296" using unat_bound [of v] unfolding unat_drop by (simp add: div_less_iff_less_mult)
    then show ?thesis unfolding LittleEndian32_bytes unsigned_ucast_eq take_bit_eq_mod unat_drop by simp
  qed
  also have "le_bytes 4 (unat v mod 4294967296) = le_bytes 4 (unat v)"
    using le_bytes_mod [of 4 "unat v"] by simp
  finally show ?thesis by (simp add: le_bytes_8)
qed

section \<open>What a call does\<close>

context steady_output
begin

definition out_ok :: "'a CodedOutputStream \<Rightarrow> bool" where
  "out_ok c \<longleftrightarrow> e_ok (cur c) (impl c) \<and> aliasing_ok (impl c)"

definition out_bytes :: "'a CodedOutputStream \<Rightarrow> byte list" where
  "out_bytes c = e_written (cur c) (impl c)"

definition out_step :: "byte list \<Rightarrow> 'a CodedOutputStream \<Rightarrow> 'a CodedOutputStream \<Rightarrow> bool" where
  "out_step d c c' \<longleftrightarrow> out_ok c' \<and> start_count c' = start_count c \<and> (had_error (impl c) \<longrightarrow> had_error (impl c')) \<and>
     (e_good (impl c) \<longrightarrow> \<not> had_error (impl c') \<longrightarrow> e_good (impl c') \<and> out_bytes c' = out_bytes c @ d)"

lemma out_step_refl: "out_ok c \<Longrightarrow> out_step [] c c"
  by (simp add: out_step_def)

lemma out_step_trans: "out_step d c c1 \<Longrightarrow> out_step d1 c1 c2 \<Longrightarrow> out_step (d @ d1) c c2"
  by (auto simp: out_step_def)

lemma on_impl_step:
  assumes "out_ok c" "appends f d"
  shows "\<exists>c'. on_impl f c = Some c' \<and> out_step d c c'"
proof -
  obtain q e where "f (cur c) (impl c) = Some (q, e)" "e_step d (cur c) (impl c) q e" "e_ok q e" "aliasing_ok e"
    using assms unfolding out_ok_def by (auto elim: appendsE)
  then show ?thesis
    by (intro exI [of _ "c\<lparr>cur := q, impl := e\<rparr>"]) (simp add: on_impl_def out_step_def out_ok_def out_bytes_def eps_step_def)
qed

lemma on_impl_checked: "out_ok c \<Longrightarrow> length d \<le> 16 \<Longrightarrow> \<exists>c'. on_impl (write_checked ops d) c = Some c' \<and> out_step d c c'"
  by (rule on_impl_step [OF _ write_checked_appends])

lemma on_impl_packed:
  assumes "out_ok c" "\<And>v. length (encode v) \<le> 10" "vs \<noteq> []"
  shows "\<exists>c'. on_impl (WriteVarintPacked ops encode num vs n) c = Some c' \<and> out_step (delim num n @ concat (map encode vs)) c c'"
  by (rule on_impl_step [OF assms(1) WriteVarintPacked_appends [OF _ assms(3)]]) (use assms(2) in \<open>force intro: le_trans\<close>)

lemma eps_ok_alias: "e_ok p (e\<lparr>aliasing_enabled := a\<rparr>) = e_ok p e"
  by (simp add: eps_ok_def cong: option.case_cong)

lemma eps_written_alias: "e_written p (e\<lparr>aliasing_enabled := a\<rparr>) = e_written p e"
  by (simp add: eps_written_def cong: pointer.case_cong)

lemma enable_step:
  assumes "out_ok c"
  shows "\<exists>c'. Coded_EnableAliasing ops b c = Some c' \<and> out_step [] c c'"
proof -
  from assms obtain s where s: "eps_stream (impl c) = Some s" "ok s" by (auto simp: out_ok_def eps_ok_def)
  define a where "a \<longleftrightarrow> b \<and> AllowsAliasing ops s"
  have "Coded_EnableAliasing ops b c = Some (c\<lparr>impl := (impl c)\<lparr>aliasing_enabled := a\<rparr>\<rparr>)"
    using s by (simp add: Coded_EnableAliasing_def Eps_EnableAliasing_def a_def)
  moreover have "e_ok (cur c) ((impl c)\<lparr>aliasing_enabled := a\<rparr>)" 
    using assms eps_ok_alias [of "cur c" a "impl c"] by (simp add: out_ok_def)
  moreover have "aliasing_ok ((impl c)\<lparr>aliasing_enabled := a\<rparr>)" using aliasing_steady [OF s(2)] by (simp add: aliasing_ok_def a_def) blast
  ultimately show ?thesis by (simp add: out_step_def out_ok_def out_bytes_def eps_good_def eps_written_alias)
qed

lemma write_op_step:
  assumes c: "out_ok c" and adm: "out_admissible x"
  shows "\<exists>c'. write_op ops x c = Some c' \<and> out_step (op_bytes x) c c'"
proof (cases x)
  case (Put_raw d)
  with on_impl_step [OF c WriteRaw_appends] show ?thesis by (simp add: Coded_WriteRaw_def)
next
  case (Put_aliased d)
  with on_impl_step [OF c WriteRawMaybeAliased_appends] show ?thesis by (simp add: Coded_WriteRawMaybeAliased_def)
next
  case (Put_string d)
  with on_impl_step [OF c WriteRaw_appends] show ?thesis by (simp add: Coded_WriteString_def Coded_WriteRaw_def)
next
  case (Put_fixed32 v)
  with on_impl_checked [OF c, of "le_bytes 4 (unat v)"] show ?thesis by (simp add: Coded_WriteLittleEndian32_def LittleEndian32_bytes)
next
  case (Put_fixed64 v)
  with on_impl_checked [OF c, of "le_bytes 8 (unat v)"] show ?thesis by (simp add: Coded_WriteLittleEndian64_def LittleEndian64_bytes)
next
  case (Put_varint32 v)
  with on_impl_checked [OF c, of "UnsafeVarint v"] length_UnsafeVarint32 [of v] show ?thesis
    by (simp add: Coded_WriteVarint32_def WriteVarint32ToArray_def UnsafeVarint_bytes)
next
  case (Put_varint64 v)
  with on_impl_checked [OF c, of "UnsafeVarint v"] length_UnsafeVarint64 [of v] show ?thesis
    by (simp add: Coded_WriteVarint64_def WriteVarint64ToArray_def UnsafeVarint_bytes)
next
  case (Put_int32 v)
  with on_impl_checked [OF c, of "UnsafeVarint (scast v :: uint64)"] length_UnsafeVarint64 [of "scast v"] show ?thesis
    by (simp add: Coded_WriteVarint32SignExtended_def Coded_WriteVarint64_def WriteVarint64ToArray_def UnsafeVarint_bytes)
next
  case (Put_tag v)
  with on_impl_checked [OF c, of "UnsafeVarint v"] length_UnsafeVarint32 [of v] show ?thesis
    by (simp add: Coded_WriteTag_def Coded_WriteVarint32_def WriteVarint32ToArray_def UnsafeVarint_bytes)
next
  case (Put_field num s)
  with on_impl_step [OF c Eps_WriteString_appends] show ?thesis by simp
next
  case (Put_field_aliased num s)
  with on_impl_step [OF c WriteStringMaybeAliased_appends] show ?thesis by simp
next
  case (Put_packed_int32 num n vs)
  with on_impl_packed [OF c _ , of "\<lambda>v. Encode64 (scast v)" vs num n] adm length_UnsafeVarint64 show ?thesis
    by (simp add: WriteInt32Packed_def [abs_def] Encode64_def UnsafeVarint_bytes)
next
  case (Put_packed_uint32 num n vs)
  have "length (Encode32 v) \<le> 10" for v using length_UnsafeVarint32 [of v] by (simp add: Encode32_def)
  with on_impl_packed [OF c _ , of Encode32 vs num n] adm Put_packed_uint32 show ?thesis
    by (simp add: WriteUInt32Packed_def [abs_def] Encode32_def [abs_def] UnsafeVarint_bytes)
next
  case (Put_packed_sint32 num n vs)
  have "length (UnsafeVarint (ZigZagEncode32 v)) \<le> 10" for v using length_UnsafeVarint32 [of "ZigZagEncode32 v"] by simp
  with on_impl_packed [OF c _ , of "\<lambda>v. UnsafeVarint (ZigZagEncode32 v)" vs num n] adm Put_packed_sint32 show ?thesis
    by (simp add: WriteSInt32Packed_def [abs_def] UnsafeVarint_bytes)
next
  case (Put_packed_int64 num n vs)
  with on_impl_packed [OF c _ , of Encode64 vs num n] adm length_UnsafeVarint64 show ?thesis
    by (simp add: WriteInt64Packed_def [abs_def] Encode64_def [abs_def] UnsafeVarint_bytes)
next
  case (Put_packed_sint64 num n vs)
  with on_impl_packed [OF c _ , of "\<lambda>v. UnsafeVarint (ZigZagEncode64 v)" vs num n] adm length_UnsafeVarint64 show ?thesis
    by (simp add: WriteSInt64Packed_def [abs_def] UnsafeVarint_bytes)
next
  case (Put_packed_fixed num vs)
  with on_impl_step [OF c WriteFixedPacked_appends] show ?thesis by simp
next
  case Trim_now
  with on_impl_step [OF c Trim_appends] show ?thesis by (simp add: Coded_Trim_def)
next
  case Check_error
  from on_impl_step [OF c FlushAndResetBuffer_appends] obtain c' where "on_impl (FlushAndResetBuffer ops) c = Some c'" "out_step [] c c'" by blast
  with Check_error show ?thesis by (simp add: Coded_HadError_def)
next
  case (Set_aliasing b)
  with enable_step [OF c] show ?thesis by simp
qed

lemma write_ops_step:
  "out_ok c \<Longrightarrow> \<forall>x \<in> set xs. out_admissible x \<Longrightarrow> \<exists>c'. write_ops ops xs c = Some c' \<and> out_step (concat (map op_bytes xs)) c c'"
proof (induction xs arbitrary: c)
  case Nil
  then show ?case by (simp add: out_step_refl)
next
  case (Cons x xs)
  then obtain c1 where c1: "write_op ops x c = Some c1" "out_step (op_bytes x) c c1" using write_op_step [of c x] by auto
  then have "out_ok c1" by (simp add: out_step_def)
  with Cons obtain c2 where "write_ops ops xs c1 = Some c2" "out_step (concat (map op_bytes xs)) c1 c2" by auto
  with c1 out_step_trans [OF c1(2)] show ?case by auto
qed

end

end
