(* ===== verification/Coded_Roundtrip.thy ===== *)
theory Coded_Roundtrip
  imports Coded_Output_Client
begin

text \<open>
  What \<open>CodedOutputStream\<close> promises over every stream that keeps the output contract, and what
  \<open>CodedInputStream\<close> then reads: the end-to-end properties, with the streams of the library as instances.
\<close>

section \<open>Construction\<close>

context steady_output
begin

lemma CodedOutputStream_spec:
  assumes s: "ok s" "sound s" and m: "length m = 32" and eager: "eager \<longrightarrow> (\<exists>x s1. Output_Next ops s = Some (Some x, s1))"
  obtains c where "CodedOutputStream ops m det s eager = Some c" "out_ok c" "e_good (impl c)" "out_bytes c = written s"
    "start_count c = int (length (written s))"
proof -
  obtain p e where pe: "EpsCopyOutputStream m s det = (p, e)" by (cases "EpsCopyOutputStream m s det")
  note e = EpsCopyOutputStream_ok [OF s(1) m pe]
  let ?c = "\<lparr>impl = e, cur = p, start_count = Output_ByteCount ops s\<rparr>"
  note count = output_count [OF s]
  show thesis
  proof (cases eager)
    case False
    with pe e s count show thesis
      by (intro that [of ?c]) (simp_all add: CodedOutputStream_def out_ok_def out_bytes_def aliasing_ok_def)
  next
    case True
    have fl: "flushed True (written s) 0 (Patch 0) e"
      using pe s m by (auto simp: EpsCopyOutputStream_def flushed_def)
    show thesis
    proof (rule next_flushed [OF fl])
      fix s0 s'
      assume "eps_stream e = Some s0" "Output_Next ops s0 = Some (None, s')"
      with e(6) eager True show thesis by simp
    next
      fix s0 a n s' d
      assume "eps_stream e = Some s0" "Output_Next ops s0 = Some (Some (a, n), s')" "length d = 0"
        "flushed True (written s @ d) n (Chunk (int a)) (e\<lparr>eps_stream := Some s'\<rparr>)"
      then have nx: "Output_Next ops s = Some (Some (a, n), s')" and fl: "flushed True (written s) n (Chunk (int a)) (e\<lparr>eps_stream := Some s'\<rparr>)"
        using e(6) by simp_all
      show thesis
      proof (cases "n = 0")
        case True
        let ?e = "e\<lparr>eps_stream := Some s'\<rparr>"
        have "ok s'" "sound s'" "written s' = written s" using fl True by (auto simp: flushed_def)
        then have "e_ok p ?e" "e_written p ?e = written s" "e_good ?e"
          using pe m by (auto simp: EpsCopyOutputStream_def eps_ok_def eps_written_def eps_good_def Let_def)
        then show thesis using pe e(3) nx True \<open>eager\<close> count
          by (intro that [of "?c\<lparr>impl := ?e\<rparr>"]) (simp_all add: CodedOutputStream_def out_ok_def out_bytes_def aliasing_ok_def)
      next
        case False
        obtain q e' where q: "SetInitialBuffer (Chunk (int a)) (int n) (e\<lparr>eps_stream := Some s'\<rparr>) = (q, e')" "e_ok q e'" "\<not> had_error e'"
          "aliasing_enabled e' = aliasing_enabled (e\<lparr>eps_stream := Some s'\<rparr>)" "True \<longrightarrow> e_good e' \<and> e_written q e' = written s"
          by (rule SetInitialBuffer_spec [OF fl])
        then show thesis using pe e(3) nx False \<open>eager\<close> count
          by (intro that [of "?c\<lparr>impl := e', cur := q\<rparr>"]) (simp_all add: CodedOutputStream_def out_ok_def out_bytes_def aliasing_ok_def)
      qed
    qed
  qed
qed

text \<open>A session: construct, write, and give the rest of the last chunk back.\<close>

lemma session:
  assumes s: "ok s" "sound s" and m: "length m = 32" and eager: "eager \<longrightarrow> (\<exists>x s1. Output_Next ops s = Some (Some x, s1))"
    and adm: "\<forall>x \<in> set xs. out_admissible x"
  obtains c c1 c2 s' where "CodedOutputStream ops m det s eager = Some c" "write_ops ops xs c = Some c1" "Coded_Trim ops c1 = Some c2"
    "eps_stream (impl c2) = Some s'" "ok s'" "out_ok c1" "start_count c1 = int (length (written s))"
    "\<not> had_error (impl c1) \<longrightarrow> e_good (impl c1) \<and> out_bytes c1 = written s @ concat (map op_bytes xs)"
    "\<not> had_error (impl c2) \<longrightarrow> \<not> had_error (impl c1) \<and> sound s' \<and> written s' = written s @ concat (map op_bytes xs)"
proof -
  obtain c where c: "CodedOutputStream ops m det s eager = Some c" "out_ok c" "e_good (impl c)" "out_bytes c = written s"
    "start_count c = int (length (written s))" by (rule CodedOutputStream_spec [OF s m eager])
  obtain c1 where c1: "write_ops ops xs c = Some c1" "out_step (concat (map op_bytes xs)) c c1"
    using write_ops_step [OF c(2) adm] by blast
  then have ok1: "out_ok c1" by (simp add: out_step_def)
  then have e1: "e_ok (cur c1) (impl c1)" by (simp add: out_ok_def)
  obtain q e2 where t: "Trim ops (cur c1) (impl c1) = Some (q, e2)" "e_step [] (cur c1) (impl c1) q e2"
    "\<not> had_error e2 \<longrightarrow> q = Patch 0 \<and> end_ptr e2 = Patch 0" by (rule Trim_spec [OF e1])
  obtain s' where s': "eps_stream e2 = Some s'" "ok s'" using eps_step_ok [OF t(2)] by (auto simp: eps_ok_def)
  let ?c2 = "c1\<lparr>cur := q, impl := e2\<rparr>"
  have w1: "\<not> had_error (impl c1) \<longrightarrow> e_good (impl c1) \<and> out_bytes c1 = written s @ concat (map op_bytes xs)"
    using c(3,4) c1(2) by (simp add: out_step_def)
  have "\<not> had_error (impl c1) \<and> sound s' \<and> written s' = written s @ concat (map op_bytes xs)" if e: "\<not> had_error e2"
  proof -
    have n: "\<not> had_error (impl c1)" using t(2) e by (auto simp: eps_step_def)
    then have "e_good e2" "e_written q e2 = out_bytes c1" using w1 t(2) e by (simp_all add: eps_step_def out_bytes_def)
    moreover have "e_written q e2 = written s'" using trimmed_written [of q e2] t(3) e s'(1) by simp
    ultimately show ?thesis using n w1 s'(1) by (simp add: eps_good_def)
  qed
  then show thesis using c c1 ok1 t(1) s' w1
    by (intro that [of c c1 ?c2 s']) (simp_all add: Coded_Trim_def on_impl_def out_step_def)
qed

end

section \<open>What is written\<close>


text \<open>Written into an array handed out five bytes at a time.\<close>

definition sample_ops :: "out_op list" where
  "sample_ops = [Put_varint32 300, Put_field 1 [0x61, 0x62], Put_aliased [1, 2, 3], Put_fixed32 7]"

definition sample_array :: ArrayOutputStream where
  "sample_array = ArrayOutputStream (replicate 20 0) 20 5"



lemma sample_run_unflushed:
  "case CodedOutputStream array_output (replicate 32 0) False sample_array True of
     None \<Rightarrow> False
   | Some c \<Rightarrow> (case write_ops array_output sample_ops c of None \<Rightarrow> False | Some c \<Rightarrow> \<not> had_error (impl c))"
  by code_simp

lemma sample_array_ok: "array_output_ok sample_array" "array_written sample_array = []"
  by (simp_all add: sample_array_def ArrayOutputStream_def array_output_ok_def array_written_def)

lemma sample_next: "\<exists>x s1. Output_Next array_output sample_array = Some (Some x, s1)"
  by (simp add: sample_array_def ArrayOutputStream_def array_output_def ArrayOutputStream_Next_def)

lemma sample_admissible: "\<forall>x \<in> set sample_ops. out_admissible x"
  by (simp add: sample_ops_def)




text \<open>C10. In every state that a session reaches, error or not, the pointer lies in the patch buffer or in the last chunk, at most
  16 bytes behind the end of the part that is checked, and \<open>EnsureSpace\<close> returns a pointer with at least 16 bytes of
  room, the slop bytes that the unchecked writers rely on.\<close>

theorem output_invariant:
  assumes "steady_output ops ok sound written chunk idle" "ok s" "sound s" "length m = 32"
    "eager \<longrightarrow> (\<exists>x s1. Output_Next ops s = Some (Some x, s1))" "\<forall>x \<in> set xs. out_admissible x"
    "CodedOutputStream ops m det s eager = Some c" "write_ops ops xs c = Some c1"
  shows "eps_ok ok chunk (cur c1) (impl c1) \<and>
    (\<exists>q e n. EnsureSpace ops (cur c1) (impl c1) = Some (q, e) \<and> eps_ok ok chunk q e \<and> GetSize q e = Some n \<and> 16 \<le> n)"
proof -
  obtain c' c1' where "CodedOutputStream ops m det s eager = Some c'" "write_ops ops xs c' = Some c1'"
    "steady_output.out_ok ops ok chunk c1'" by (rule steady_output.session [OF assms(1-6), where det = det]) blast
  with assms(7,8) have c1: "steady_output.out_ok ops ok chunk c1" by simp
  have z: "zero_copy_output ops ok sound written chunk idle" using assms(1) by (rule steady_output.axioms(1))
  have ok: "eps_ok ok chunk (cur c1) (impl c1)" using c1 steady_output.out_ok_def [OF assms(1)] by blast
  obtain q e d where "EnsureSpace ops (cur c1) (impl c1) = Some (q, e)"
    "eps_step ok sound written chunk [] (cur c1) (impl c1) q e" "ptr_diff (end_ptr e) q = Some d" "0 \<le> d"
    by (rule zero_copy_output.EnsureSpace_spec [OF z ok])
  with ok show ?thesis by (simp add: eps_step_def GetSize_def kSlopBytes_def)
qed

theorem output_invariant_witness:
  "\<exists>c c1. CodedOutputStream array_output (replicate 32 0) False sample_array True = Some c \<and>
    write_ops array_output sample_ops c = Some c1 \<and> eps_ok array_output_ok array_chunk (cur c1) (impl c1)"
proof -
  obtain c c1 where r: "CodedOutputStream array_output (replicate 32 0) False sample_array True = Some c"
    "write_ops array_output sample_ops c = Some c1" using sample_run_unflushed by (auto split: option.splits)
  from output_invariant [where m = "replicate 32 0" and eager = True,
      OF array_steady.steady_output_axioms sample_array_ok(1) TrueI length_replicate _ sample_admissible r] sample_next r
  show ?thesis by blast
qed

text \<open>C27. A failure of the stream below is never lost: once a session has an error, every further call still returns, the
  error stays, and \<open>HadError\<close> reports it.\<close>

theorem output_errors_stick:
  assumes "steady_output ops ok sound written chunk idle" "ok s" "sound s" "length m = 32"
    "eager \<longrightarrow> (\<exists>x s1. Output_Next ops s = Some (Some x, s1))" "\<forall>x \<in> set xs. out_admissible x"
    "CodedOutputStream ops m det s eager = Some c" "write_ops ops xs c = Some c1" "had_error (impl c1)" "\<forall>y \<in> set ys. out_admissible y"
  shows "\<exists>c2 c3. write_ops ops ys c1 = Some c2 \<and> had_error (impl c2) \<and> Coded_HadError ops c2 = Some (True, c3)"
proof -
  obtain c' c1' where "CodedOutputStream ops m det s eager = Some c'" "write_ops ops xs c' = Some c1'"
    "steady_output.out_ok ops ok chunk c1'" by (rule steady_output.session [OF assms(1-6), where det = det]) blast
  with assms(7,8) have c1: "steady_output.out_ok ops ok chunk c1" by simp
  from steady_output.write_ops_step [OF assms(1) c1 assms(10)] obtain c2 where "write_ops ops ys c1 = Some c2" "had_error (impl c2)"
    using assms(9) by (auto simp: steady_output.out_step_def [OF assms(1)])
  then show ?thesis by (simp add: Coded_HadError_def on_impl_def FlushAndResetBuffer_def)
qed

definition small_array :: ArrayOutputStream where
  "small_array = ArrayOutputStream (replicate 3 0) 3 3"

lemma small_array_ok: "array_output_ok small_array" "\<exists>x s1. Output_Next array_output small_array = Some (Some x, s1)"
  by (simp_all add: small_array_def ArrayOutputStream_def array_output_ok_def array_output_def ArrayOutputStream_Next_def)

lemma small_run:
  "case CodedOutputStream array_output (replicate 32 0) False small_array True of
     None \<Rightarrow> False
   | Some c \<Rightarrow> (case write_ops array_output [Put_raw (replicate 40 1)] c of None \<Rightarrow> False | Some c \<Rightarrow> had_error (impl c))"
  by code_simp

theorem output_errors_stick_witness:
  "\<exists>c c1 c2 c3. CodedOutputStream array_output (replicate 32 0) False small_array True = Some c \<and>
    write_ops array_output [Put_raw (replicate 40 1)] c = Some c1 \<and> write_ops array_output [Put_tag 8] c1 = Some c2 \<and>
    Coded_HadError array_output c2 = Some (True, c3)"
proof -
  obtain c c1 where r: "CodedOutputStream array_output (replicate 32 0) False small_array True = Some c"
    "write_ops array_output [Put_raw (replicate 40 1)] c = Some c1" "had_error (impl c1)"
    using small_run by (auto split: option.splits)
  from output_errors_stick [where m = "replicate 32 0" and eager = True and xs = "[Put_raw (replicate 40 1)]" and ys = "[Put_tag 8]",
      OF array_steady.steady_output_axioms small_array_ok(1) TrueI length_replicate _ _ r] small_array_ok(2) r
  show ?thesis by auto
qed

section \<open>The streams of the library\<close>

text \<open>C28. The array and string streams keep the output contract, and their errors are permanent. A \<open>FileOutputStream\<close> over
  any descriptor whose \<open>write\<close> behaves as POSIX says (it may write less than asked for, be interrupted or fail)
  keeps the output contract too, but its errors are not permanent as zero_copy_stream.h demands: the first
  \<open>Next\<close> that fails is followed by one that succeeds. The failure is recorded, though: from then on no operation reaches
  the file, and \<open>Close\<close> returns false.\<close>

theorem output_streams_contract:
  "zero_copy_output array_output array_output_ok (\<lambda>_. True) array_written array_chunk (\<lambda>_. 0) \<and>
   errors_permanent array_output array_output_ok \<and>
   zero_copy_output (string_output grow) (\<lambda>_. True) (\<lambda>_. True) target string_chunk (\<lambda>_. 0) \<and>
   errors_permanent (string_output grow) (\<lambda>_. True) \<and>
   (posix_write fine contents interrupts write_fd \<longrightarrow> (\<forall>n. length (new n) = n) \<longrightarrow>
     zero_copy_output (file_output write_fd new) (adaptor_ok (file_ok fine)) (adaptor_sound (\<lambda>f. contents (fd f)))
       (adaptor_written (\<lambda>f. contents (fd f))) adaptor_chunk (\<lambda>_. 0) \<and>
     (\<forall>a a'. adaptor_ok (file_ok fine) a \<longrightarrow> Output_Next (file_output write_fd new) a = Some (None, a') \<longrightarrow> output_failed a' \<and>
        (\<not> output_failed a \<longrightarrow> (\<exists>x a''. Output_Next (file_output write_fd new) a' = Some (Some x, a'')))) \<and>
     (\<forall>a a'. output_failed a \<longrightarrow> output_step (file_output write_fd new) a a' \<longrightarrow> output_failed a' \<and> copying_output a' = copying_output a) \<and>
     (\<forall>a b a'. output_failed a \<longrightarrow> FileOutputStream_Close write_fd close_fd a = Some (b, a') \<longrightarrow> \<not> b))"
proof (intro conjI impI)
  assume "posix_write fine contents interrupts write_fd" "\<forall>n. length (new n) = n"
  then show "zero_copy_output (file_output write_fd new) (adaptor_ok (file_ok fine)) (adaptor_sound (\<lambda>f. contents (fd f)))
      (adaptor_written (\<lambda>f. contents (fd f))) adaptor_chunk (\<lambda>_. 0)"
    unfolding file_output_def by (intro copying_sink.adaptor_contract file_sink) simp_all
next
  show "\<forall>a a'. adaptor_ok (file_ok fine) a \<longrightarrow> Output_Next (file_output write_fd new) a = Some (None, a') \<longrightarrow> output_failed a' \<and>
      (\<not> output_failed a \<longrightarrow> (\<exists>x a''. Output_Next (file_output write_fd new) a' = Some (Some x, a'')))"
    using adaptor_error by (fastforce simp: file_output_def adaptor_output_def adaptor_ok_def)
next
  show "\<forall>a a'. output_failed a \<longrightarrow> output_step (file_output write_fd new) a a' \<longrightarrow> output_failed a' \<and> copying_output a' = copying_output a"
    using step_failed unfolding file_output_def stays_failed_def by blast
next
  show "\<forall>a b a'. output_failed a \<longrightarrow> FileOutputStream_Close write_fd close_fd a = Some (b, a') \<longrightarrow> \<not> b"
    using Close_failed by blast
qed (rule array_out.zero_copy_output_axioms array_errors_permanent string_out.zero_copy_output_axioms string_errors_permanent)+

text \<open>A full buffer whose write meets an error, and the calls after it.\<close>

definition full_device :: "device FileOutputStream" where
  "full_device = \<lparr>copying_output = CopyingFile \<lparr>device_bytes = [], device_script = [- 28]\<rparr>, output_failed = False,
     output_position = 0, output_buffer = Some [1, 2], output_buffer_size = 2, output_buffer_used = 2\<rparr>"

theorem output_streams_contract_witness:
  "zero_copy_output (file_output device_write (\<lambda>n. replicate n 0)) (adaptor_ok (file_ok (\<lambda>_. True)))
     (adaptor_sound (\<lambda>f. device_bytes (fd f))) (adaptor_written (\<lambda>f. device_bytes (fd f))) adaptor_chunk (\<lambda>_. 0) \<and>
   (\<exists>a x a'. Output_Next (file_output device_write (\<lambda>n. replicate n 0)) full_device = Some (None, a) \<and>
     Output_Next (file_output device_write (\<lambda>n. replicate n 0)) a = Some (Some x, a'))"
proof -
  note facts = output_streams_contract [where fine = "\<lambda>_. True" and contents = device_bytes and write_fd = device_write and
      interrupts = "\<lambda>d. length (device_script d)" and new = "\<lambda>n. replicate n 0" and grow = max and close_fd = "\<lambda>d. (Done (), d)"]
  have "fst (the (Output_Next (file_output device_write (\<lambda>n. replicate n 0)) full_device)) = None \<and>
      Output_Next (file_output device_write (\<lambda>n. replicate n 0)) full_device \<noteq> None" by code_simp
  then obtain a where "Output_Next (file_output device_write (\<lambda>n. replicate n 0)) full_device = Some (None, a)" by auto
  moreover have "adaptor_ok (file_ok (\<lambda>_. True)) full_device" "\<not> output_failed full_device"
    by (simp_all add: full_device_def adaptor_ok_def file_ok_def CopyingFile_def)
  ultimately show ?thesis using facts device_posix_write by (metis length_replicate)
qed

text \<open>C29. A \<open>FileInputStream\<close> over any descriptor whose \<open>read\<close> behaves as POSIX says: \<open>Next\<close> always returns, short
  reads and interruptions lose nothing, what it delivers are the bytes that come next, and when it fails, the file is
  at its end, or a \<open>read\<close> at that place met an error other than an interruption, which is recorded and after which every \<open>Next\<close> and \<open>Skip\<close> fails and changes
  nothing. If the device is reliable (its reads meet no error but interruptions) and cannot seek (a pipe), the stream
  keeps the input contract.\<close>

theorem file_input_contract:
  assumes "posix_read fine left interrupts read_fd"
  shows "(reading_ok fine a \<longrightarrow> (\<exists>r a'. Next (file_stream read_fd lseek_fd) a = Some (r, a') \<and> reading_ok fine a' \<and>
      (case r of
         None \<Rightarrow> (if input_failed a' then input_failed a \<and> a' = a \<or> read_error fine left read_fd (copying_input a) (copying_input a')
                 else source_rest (\<lambda>f. left (fd f)) a = [])
       | Some d \<Rightarrow> d \<noteq> [] \<and> source_rest (\<lambda>f. left (fd f)) a = d @ source_rest (\<lambda>f. left (fd f)) a' \<and> \<not> input_failed a'))) \<and>
    (input_failed a \<longrightarrow> Next (file_stream read_fd lseek_fd) a = Some (None, a) \<and>
      (\<forall>n \<ge> 0. Skip (file_stream read_fd lseek_fd) n a = Some (False, a))) \<and>
    (reliable_read fine read_fd \<longrightarrow>
      (\<forall>k d. fine d \<longrightarrow> (\<exists>e d'. lseek_fd k d = (Errno e, d') \<and> fine d' \<and> left d' = left d)) \<longrightarrow>
      zero_copy_input (file_stream read_fd lseek_fd) (source_ok (file_ok fine) (\<lambda>f. left (fd f)))
        (source_rest (\<lambda>f. left (fd f))) source_given (\<lambda>_. 0))"
proof (intro conjI impI)
  assume "reliable_read fine read_fd" "\<forall>k d. fine d \<longrightarrow> (\<exists>e d'. lseek_fd k d = (Errno e, d') \<and> fine d' \<and> left d' = left d)"
  then show "zero_copy_input (file_stream read_fd lseek_fd) (source_ok (file_ok fine) (\<lambda>f. left (fd f)))
      (source_rest (\<lambda>f. left (fd f))) source_given (\<lambda>_. 0)"
    unfolding file_stream_def by (intro copying_source.source_contract pipe_source [OF assms]) simp_all
qed (rule file_next [OF assms], assumption, simp_all add: file_stream_def adaptor_stream_defs)

text \<open>A pipe, and a device of three bytes whose second read fails.\<close>

theorem file_input_contract_witness:
  "zero_copy_input (file_stream device_read pipe_lseek) (source_ok (file_ok device_reliable) (\<lambda>f. device_bytes (fd f)))
     (source_rest (\<lambda>f. device_bytes (fd f))) source_given (\<lambda>_. 0) \<and>
   (\<exists>r a. Next (file_stream device_read pipe_lseek) (FileInputStream \<lparr>device_bytes = [1, 2, 3], device_script = [2, - 5]\<rparr> 8) = Some (r, a) \<and>
     reading_ok (\<lambda>_. True) a)"
proof (rule conjI)
  show "zero_copy_input (file_stream device_read pipe_lseek) (source_ok (file_ok device_reliable) (\<lambda>f. device_bytes (fd f)))
     (source_rest (\<lambda>f. device_bytes (fd f))) source_given (\<lambda>_. 0)"
    using file_input_contract [OF device_reliable_read(1), where lseek_fd = pipe_lseek] device_reliable_read(2)
    by (simp add: pipe_lseek_def)
  have "reading_ok (\<lambda>_. True) (FileInputStream \<lparr>device_bytes = [1, 2, 3], device_script = [2, - 5]\<rparr> 8)"
    by (simp add: FileInputStream_def CopyingInputStreamAdaptor_def CopyingFile_def source_ok_def file_ok_def input_buffer_used_def)
  then show "\<exists>r a. Next (file_stream device_read pipe_lseek) (FileInputStream \<lparr>device_bytes = [1, 2, 3], device_script = [2, - 5]\<rparr> 8) =
      Some (r, a) \<and> reading_ok (\<lambda>_. True) a"
    using file_input_contract [OF device_posix_read, where lseek_fd = pipe_lseek] by blast
qed

section \<open>Reading back\<close>

text \<open>Items of a stream: what is written for each, and the call that reads it (of the item it takes the kind and the length
  of raw bytes only). A string is preceded by its length.\<close>

datatype item =
    Item_varint32 uint32 | Item_varint64 uint64 | Item_fixed32 uint32 | Item_fixed64 uint64 | Item_tag uint32
  | Item_raw "byte list" | Item_string "byte list"

fun item_ops :: "item \<Rightarrow> out_op list" where
  "item_ops (Item_varint32 v) = [Put_varint32 v]"
| "item_ops (Item_varint64 v) = [Put_varint64 v]"
| "item_ops (Item_fixed32 v) = [Put_fixed32 v]"
| "item_ops (Item_fixed64 v) = [Put_fixed64 v]"
| "item_ops (Item_tag v) = [Put_tag v]"
| "item_ops (Item_raw d) = [Put_raw d]"
| "item_ops (Item_string d) = [Put_varint32 (of_nat (length d)), Put_string d]"

fun item_ok :: "item \<Rightarrow> bool" where
  "item_ok (Item_tag v) = (v \<noteq> 0)"
| "item_ok (Item_string d) = (length d < 2 ^ 31)"
| "item_ok _ = True"

fun read_item :: "'s ZeroCopyInputStream \<Rightarrow> item \<Rightarrow> 's CodedInputStream \<Rightarrow> (item option \<times> 's CodedInputStream) option" where
  "read_item ops (Item_varint32 _) c = do { (r, c) \<leftarrow> ReadVarint32 ops c; Some (map_option Item_varint32 r, c) }"
| "read_item ops (Item_varint64 _) c = do { (r, c) \<leftarrow> ReadVarint64 ops c; Some (map_option Item_varint64 r, c) }"
| "read_item ops (Item_fixed32 _) c = do { (r, c) \<leftarrow> ReadLittleEndian32 ops c; Some (map_option Item_fixed32 r, c) }"
| "read_item ops (Item_fixed64 _) c = do { (r, c) \<leftarrow> ReadLittleEndian64 ops c; Some (map_option Item_fixed64 r, c) }"
| "read_item ops (Item_tag _) c = do { (t, c) \<leftarrow> ReadTag ops c; Some (if t = 0 then None else Some (Item_tag t), c) }"
| "read_item ops (Item_raw d) c =
     do { (b, r, c) \<leftarrow> ReadRaw ops (int (length d)) c; Some (if b then Some (Item_raw r) else None, c) }"
| "read_item ops (Item_string _) c =
     do { (n, c) \<leftarrow> ReadVarint32 ops c;
          case n of None \<Rightarrow> Some (None, c)
          | Some n \<Rightarrow> do { (b, r, c) \<leftarrow> ReadString ops [] (sint n) c; Some (if b then Some (Item_string r) else None, c) } }"

fun read_items :: "'s ZeroCopyInputStream \<Rightarrow> item list \<Rightarrow> 's CodedInputStream \<Rightarrow> (item option list \<times> 's CodedInputStream) option" where
  "read_items ops [] c = Some ([], c)"
| "read_items ops (x # xs) c = do { (r, c) \<leftarrow> read_item ops x c; (rs, c) \<leftarrow> read_items ops xs c; Some (r # rs, c) }"

lemma items_admissible: "\<forall>y \<in> set (concat (map item_ops xs)). out_admissible y"
proof -
  have "\<forall>y \<in> set (item_ops x). out_admissible y" for x by (cases x) simp_all
  then show ?thesis by auto
qed

lemma le_nat_bytes: "le_nat (le_bytes k n) = n mod 256 ^ k"
proof (induction k arbitrary: n)
  case (Suc k)
  have "le_nat (le_bytes (Suc k) n) = n mod 256 + 256 * (n div 256 mod 256 ^ k)" by (simp add: Suc.IH unat_byte_of_nat byte_mod)
  also have "\<dots> = n mod 256 ^ Suc k" by (simp add: mod_mult2_eq)
  finally show ?case .
qed simp

lemma parse_written: "parse_varint 10 (varint_bytes (unat (v :: 'a::len word)) @ r) = VarintOk (unat v) r" if "LENGTH('a) \<le> 64"
proof (rule parse_varint_bytes)
  have "unat v < 2 ^ LENGTH('a)" by (rule unat_bound)
  also have "(2 :: nat) ^ LENGTH('a) \<le> 2 ^ 64" using that by (rule power_increasing) simp
  finally show "unat v < 128 ^ 10" by simp
qed simp

context zero_copy_input
begin

lemma view_moved: "ci_moved k c c' \<Longrightarrow> ci_ok c'"
  by (simp add: moved_def)

lemma read_written_varint:
  assumes "ci_varint 10 r of_nat c c'" "ci_view c = varint_bytes (unat (v :: 'a::len word)) @ rest'" "LENGTH('a) \<le> 64"
  shows "r = Some v" "ci_view c' = rest'" "ci_ok c'"
  using assms parse_written [OF assms(3), of v rest'] by (auto simp: varint_read_ok_def dest: view_moved)

lemma left_moved:
  assumes "ci_moved (min k (length (ci_view c))) c c'" "ci_view c = d @ r" "length d = k"
  shows "ci_view c' = r" "ci_ok c'"
  using moved_view [OF assms(1)] assms by (simp_all add: view_moved)

lemma read_item_written:
  assumes c: "ci_ok c" and x: "item_ok x" and v: "ci_view c = concat (map op_bytes (item_ops x)) @ r"
  shows "\<exists>c'. read_item ops x c = Some (Some x, c') \<and> ci_ok c' \<and> ci_view c' = r"
proof (cases x)
  case (Item_varint32 w)
  with v have v': "ci_view c = varint_bytes (unat w) @ r" by simp
  obtain y c' where y: "ReadVarint32 ops c = Some (y, c')" "ci_varint 10 y of_nat c c'" using ReadVarint32_spec [OF c] by blast
  from read_written_varint [OF y(2) v'] y(1) Item_varint32 show ?thesis by simp
next
  case (Item_varint64 w)
  with v have v': "ci_view c = varint_bytes (unat w) @ r" by simp
  obtain y c' where y: "ReadVarint64 ops c = Some (y, c')" "ci_varint 10 y of_nat c c'" using ReadVarint64_spec [OF c] by blast
  from read_written_varint [OF y(2) v'] y(1) Item_varint64 show ?thesis by simp
next
  case (Item_fixed32 w)
  with v have v': "ci_view c = le_bytes 4 (unat w) @ r" by simp
  have w: "(of_nat (unat w mod 256 ^ 4) :: uint32) = w" using unat_bound [of w] by simp
  from ReadLittleEndian32_spec [OF c] obtain c' where
    "ReadLittleEndian32 ops c = Some (if 4 \<le> length (ci_view c) then Some (of_nat (le_nat (take 4 (ci_view c)))) else None, c')"
    and m: "ci_moved (min 4 (length (ci_view c))) c c'" by blast
  then have "ReadLittleEndian32 ops c = Some (Some w, c')" using w by (simp add: v' le_nat_bytes)
  with left_moved [OF m v'] Item_fixed32 show ?thesis by simp
next
  case (Item_fixed64 w)
  with v have v': "ci_view c = le_bytes 8 (unat w) @ r" by simp
  have w: "(of_nat (unat w mod 256 ^ 8) :: uint64) = w" using unat_bound [of w] by simp
  from ReadLittleEndian64_spec [OF c] obtain c' where
    "ReadLittleEndian64 ops c = Some (if 8 \<le> length (ci_view c) then Some (of_nat (le_nat (take 8 (ci_view c)))) else None, c')"
    and m: "ci_moved (min 8 (length (ci_view c))) c c'" by blast
  then have "ReadLittleEndian64 ops c = Some (Some w, c')" using w by (simp add: v' le_nat_bytes)
  with left_moved [OF m v'] Item_fixed64 show ?thesis by simp
next
  case (Item_tag w)
  with v have v': "ci_view c = varint_bytes (unat w) @ r" by simp
  then have ne: "ci_view c \<noteq> []" by simp
  obtain t c' where t: "ReadTag ops c = Some (t, c')" "ci_tag t c (c'\<lparr>last_tag := last_tag c\<rparr>)" using ReadTag_spec [OF c] by blast
  then have "t = w" "ci_ok (c'\<lparr>last_tag := last_tag c\<rparr>)" "ci_view (c'\<lparr>last_tag := last_tag c\<rparr>) = r"
    using ne parse_written [of w r] by (auto simp: tag_read_ok_def v' dest: view_moved)
  moreover have "ci_view c' = ci_view (c'\<lparr>last_tag := last_tag c\<rparr>)" "ci_ok c' = ci_ok (c'\<lparr>last_tag := last_tag c\<rparr>)"
    by (simp_all add: tag_update coded_ok_def view_def closest_limit_def)
  ultimately show ?thesis using t(1) Item_tag x by simp
next
  case (Item_raw d)
  with v have v': "ci_view c = d @ r" by simp
  from ReadRaw_spec [OF c, of "int (length d)"] obtain c' where
    "ReadRaw ops (int (length d)) c = Some (int (length d) \<le> int (length (ci_view c)), take (nat (int (length d))) (ci_view c), c')"
    and m: "ci_moved (min (length d) (length (ci_view c))) c c'" by auto
  then have "ReadRaw ops (int (length d)) c = Some (True, d, c')" by (simp add: v')
  with left_moved [OF m v' refl] Item_raw show ?thesis by simp
next
  case (Item_string d)
  let ?n = "of_nat (length d) :: uint32"
  have n: "sint ?n = int (length d)" using x Item_string by (simp add: signed_of_nat signed_take_bit_int_eq_self)
  have v': "ci_view c = varint_bytes (unat ?n) @ (d @ r)" using v Item_string by simp
  obtain y c1 where y: "ReadVarint32 ops c = Some (y, c1)" "ci_varint 10 y of_nat c c1" using ReadVarint32_spec [OF c] by blast
  from read_written_varint [OF y(2) v'] have y1: "y = Some ?n" "ci_view c1 = d @ r" "ci_ok c1" by simp_all
  from ReadString_spec [OF y1(3), of "int (length d)" "[]"] obtain c' where
    "ReadString ops [] (int (length d)) c1 = Some (int (length d) \<le> int (length (ci_view c1)), take (nat (int (length d))) (ci_view c1), c')"
    and m: "ci_moved (min (length d) (length (ci_view c1))) c1 c'" by auto
  then have "ReadString ops [] (int (length d)) c1 = Some (True, d, c')" by (simp add: y1(2))
  with left_moved [OF m y1(2) refl] y(1) y1(1) n Item_string show ?thesis by simp
qed

lemma read_items_written:
  "ci_ok c \<Longrightarrow> \<forall>x \<in> set xs. item_ok x \<Longrightarrow> ci_view c = concat (map op_bytes (concat (map item_ops xs))) @ r \<Longrightarrow>
    \<exists>c'. read_items ops xs c = Some (map Some xs, c') \<and> ci_view c' = r"
proof (induction xs arbitrary: c)
  case (Cons x xs)
  then obtain c1 where "read_item ops x c = Some (Some x, c1)" "ci_ok c1"
    "ci_view c1 = concat (map op_bytes (concat (map item_ops xs))) @ r"
    using read_item_written [of c x "concat (map op_bytes (concat (map item_ops xs))) @ r"] by auto
  with Cons show ?case by fastforce
qed simp

end

text \<open>C6. What a \<open>CodedOutputStream\<close> wrote without an error into any stream that keeps the output contract, a
  \<open>CodedInputStream\<close> reads back, item by item, from any stream that keeps the input contract and presents the bytes
  written, however the two streams are cut into chunks; what follows in the input is left.\<close>

theorem coded_stream_roundtrip:
  assumes "steady_output ops ok sound written chunk idle" "ok s" "sound s" "written s = []" "length m = 32"
    "eager \<longrightarrow> (\<exists>x s1. Output_Next ops s = Some (Some x, s1))" "\<forall>x \<in> set xs. item_ok x"
    "zero_copy_input iops iok rest given iidle"
  shows "\<exists>c c1 c2 s'. CodedOutputStream ops m det s eager = Some c \<and> write_ops ops (concat (map item_ops xs)) c = Some c1 \<and>
    Coded_Trim ops c1 = Some c2 \<and> eps_stream (impl c2) = Some s' \<and>
    (\<not> had_error (impl c2) \<longrightarrow> (\<forall>i r. coded_ok iops iok rest given i \<longrightarrow> view rest given i = written s' @ r \<longrightarrow>
      (\<exists>i'. read_items iops xs i = Some (map Some xs, i') \<and> view rest given i' = r)))"
proof -
  obtain c c1 c2 s' where r: "CodedOutputStream ops m det s eager = Some c" "write_ops ops (concat (map item_ops xs)) c = Some c1"
    "Coded_Trim ops c1 = Some c2" "eps_stream (impl c2) = Some s'"
    "\<not> had_error (impl c2) \<longrightarrow> \<not> had_error (impl c1) \<and> sound s' \<and> written s' = written s @ concat (map op_bytes (concat (map item_ops xs)))"
    by (rule steady_output.session [OF assms(1-3,5,6) items_admissible, where det = det]) blast
  have "\<exists>i'. read_items iops xs i = Some (map Some xs, i') \<and> view rest given i' = t"
    if "\<not> had_error (impl c2)" "coded_ok iops iok rest given i" "view rest given i = written s' @ t" for i t
    by (rule zero_copy_input.read_items_written [OF assms(8) that(2) assms(7)]) (use r(5) that(1,3) assms(4) in simp)
  with r(1-4) show ?thesis by blast
qed

text \<open>Written into an array in blocks of five bytes, read from an array.\<close>

definition sample_items :: "item list" where
  "sample_items = [Item_tag 8, Item_varint32 300, Item_string [0x68, 0x69], Item_fixed32 7, Item_raw [1, 2, 3]]"

lemma items_run:
  "case CodedOutputStream array_output (replicate 32 0) False sample_array False of
     None \<Rightarrow> False
   | Some c \<Rightarrow> (case write_ops array_output (concat (map item_ops sample_items)) c of
       None \<Rightarrow> False
     | Some c \<Rightarrow> (case Coded_Trim array_output c of None \<Rightarrow> False
         | Some c \<Rightarrow> \<not> had_error (impl c) \<and> map_option array_written (eps_stream (impl c)) =
             Some [8, 0xAC, 2, 2, 0x68, 0x69, 7, 0, 0, 0, 1, 2, 3]))"
  by code_simp

theorem coded_stream_roundtrip_witness:
  "\<exists>i i'. CodedInputStream array_stream (sample [8, 0xAC, 2, 2, 0x68, 0x69, 7, 0, 0, 0, 1, 2, 3, 99]) = Some i \<and>
    read_items array_stream sample_items i = Some (map Some sample_items, i') \<and> array_view i' = [99]"
proof -
  obtain i where i: "CodedInputStream array_stream (sample [8, 0xAC, 2, 2, 0x68, 0x69, 7, 0, 0, 0, 1, 2, 3, 99]) = Some i"
    "array_coded_ok i" "array_view i = [8, 0xAC, 2, 2, 0x68, 0x69, 7, 0, 0, 0, 1, 2, 3, 99]"
    by (rule sample_coded [of "[8, 0xAC, 2, 2, 0x68, 0x69, 7, 0, 0, 0, 1, 2, 3, 99]"]) simp_all
  have items: "\<forall>x \<in> set sample_items. item_ok x" by (simp add: sample_items_def)
  have lazy: "False \<longrightarrow> (\<exists>x s1. Output_Next array_output sample_array = Some (Some x, s1))" by simp
  obtain c c1 c2 s' where r: "CodedOutputStream array_output (replicate 32 0) False sample_array False = Some c"
    "write_ops array_output (concat (map item_ops sample_items)) c = Some c1" "Coded_Trim array_output c1 = Some c2" "eps_stream (impl c2) = Some s'"
    "\<not> had_error (impl c2) \<longrightarrow> (\<forall>i t. array_coded_ok i \<longrightarrow> array_view i = array_written s' @ t \<longrightarrow>
      (\<exists>i'. read_items array_stream sample_items i = Some (map Some sample_items, i') \<and> array_view i' = t))"
    using coded_stream_roundtrip [where m = "replicate 32 0" and det = False, OF array_steady.steady_output_axioms sample_array_ok(1) TrueI
        sample_array_ok(2) length_replicate lazy items array_input.zero_copy_input_axioms] by blast
  have "\<not> had_error (impl c2)" "array_written s' = [8, 0xAC, 2, 2, 0x68, 0x69, 7, 0, 0, 0, 1, 2, 3]"
    using items_run r(1-4) by simp_all
  with r(5) i show ?thesis by auto
qed

end
