(* ===== verification/Wire_Scalars.thy ===== *)
theory Wire_Scalars
  imports Wire_Format Coded_Roundtrip
begin

text \<open>
  The primitive values of the wire format: tags and zig-zag codes are bijections, every primitive type is read back as it
  was written, in the number of bytes its size routine announces, and the sizes of repeated fields, vectorised or
  not, are the sums of the sizes of their elements.
\<close>

section \<open>Tags\<close>

lemma tag_mask: "kTagTypeMask = mask 3"
  by (simp add: kTagTypeMask_def kTagTypeBits_def mask_eq_exp_minus_1 push_bit_eq_mult)

lemma GetTagWireType_take: "GetTagWireType tag = take_bit 3 tag"
  by (simp add: GetTagWireType_def tag_mask take_bit_eq_mask)

lemma word_no_bit: "w < 2 ^ m \<Longrightarrow> m \<le> i \<Longrightarrow> m < LENGTH('a) \<Longrightarrow> \<not> bit (w :: 'a::len word) i"
proof -
  assume a: "w < 2 ^ m" "m \<le> i" "m < LENGTH('a)"
  have "unat (of_nat (2 ^ m) :: 'a word) = 2 ^ m" using a(3) by (simp only: unat_of_nat) simp
  with a(1) have "unat w < 2 ^ m" by (simp add: word_less_nat_alt)
  from not_bit_above [OF this a(2)] show ?thesis by (simp add: bit_unat)
qed

lemma MakeTag_parts:
  assumes "n < 2 ^ 29" "w < 8"
  shows "GetTagFieldNumber (MakeTag n w) = n" "GetTagWireType (MakeTag n w) = w"
proof -
  have n: "bit n i \<Longrightarrow> i < 29" for i using word_no_bit [OF assms(1), of i] by (cases "i < 29") simp_all
  have w: "bit w i \<Longrightarrow> i < 3" for i using word_no_bit [of w 3 i] assms(2) by (cases "i < 3") simp_all
  show "GetTagFieldNumber (MakeTag n w) = n"
    by (rule bit_word_eqI) (auto simp: GetTagFieldNumber_def MakeTag_def kTagTypeBits_def bit_simps dest: w n)
  show "GetTagWireType (MakeTag n w) = w"
    by (rule bit_word_eqI) (auto simp: GetTagWireType_take MakeTag_def bit_simps not_less dest: w)
qed

lemma MakeTag_of_parts: "MakeTag (GetTagFieldNumber tag) (GetTagWireType tag) = tag"
  by (rule bit_word_eqI) (auto simp: GetTagFieldNumber_def GetTagWireType_take MakeTag_def kTagTypeBits_def bit_simps)

lemma tag_bounds: "GetTagFieldNumber tag < 2 ^ 29" "GetTagWireType tag < 8"
proof -
  have "unat (GetTagFieldNumber tag) < 2 ^ 29"
    using unat_bound [of tag] by (simp add: GetTagFieldNumber_def kTagTypeBits_def unat_drop)
  then show "GetTagFieldNumber tag < 2 ^ 29" by (simp add: word_less_nat_alt)
  have "unat (GetTagWireType tag) = unat tag mod 2 ^ 3" by (simp only: GetTagWireType_take unsigned_take_bit_eq) (simp only: take_bit_eq_mod)
  then have "unat (GetTagWireType tag) < 8" by simp
  then show "GetTagWireType tag < 8" by (simp add: word_less_nat_alt)
qed

lemma varint_class:
  "length (varint_bytes n) = (if n < 128 then 1 else if n < 128 ^ 2 then 2 else if n < 128 ^ 3 then 3 else if n < 128 ^ 4 then 4 else 5)"
  if "n < 128 ^ 5"
  using that by (simp add: varint_bytes_small varint_bytes_large div_less_iff_less_mult flip: div_mult2_eq)

text \<open>The wire type never changes the size of a tag.\<close>

lemma MakeTag_unat:
  assumes "w < 8"
  shows "unat (MakeTag n w) = unat (push_bit 3 n :: uint32) + unat w"
proof -
  have w: "bit w i \<Longrightarrow> i < 3" for i using word_no_bit [of w 3 i] assms by (cases "i < 3") simp_all
  have "push_bit 3 n AND w = 0" by (rule bit_word_eqI) (auto simp: bit_simps dest: w)
  then have m: "MakeTag n w = push_bit 3 n + w" by (simp add: MakeTag_def disjunctive_add_eq_or)
  obtain q where q: "unat (push_bit 3 n :: uint32) = 8 * q" using tag_unat(2) [of n] by (rule dvdE)
  have "unat w < 8" using assms by (simp add: word_less_nat_alt)
  with q unat_bound [of "push_bit 3 n :: uint32"] have "unat (push_bit 3 n :: uint32) + unat w < 2 ^ 32" by simp
  then show ?thesis unfolding m by (simp add: unat_word_ariths)
qed

lemma low_bits_length:
  assumes "8 dvd t" "w < 8" "t < 2 ^ 32"
  shows "length (varint_bytes (t + w)) = length (varint_bytes t)"
proof -
  obtain q where t: "t = 8 * q" using assms(1) by (rule dvdE)
  have "(128 :: nat) ^ 5 = 2 ^ 35" by simp
  then have b: "t + w < 128 ^ 5" "t < 128 ^ 5" using assms(2,3) by simp_all
  have "(t + w < 128) = (t < 128)" "(t + w < 128 ^ 2) = (t < 128 ^ 2)" "(t + w < 128 ^ 3) = (t < 128 ^ 3)" "(t + w < 128 ^ 4) = (t < 128 ^ 4)"
    using assms(2) unfolding t by (simp_all, presburger+)
  then show ?thesis unfolding varint_class [OF b(1)] varint_class [OF b(2)] by simp
qed

lemma tag_size: "w < 8 \<Longrightarrow> length (WriteTagToArray n w) = VarintSize32 (push_bit 3 n)"
  using low_bits_length [OF tag_unat(2) [of n], of "unat w"] unat_bound [of "push_bit 3 n :: uint32"]
  by (simp add: WriteTagToArray_def WriteVarint32ToArray_def UnsafeVarint_bytes VarintSize32_length MakeTag_unat word_less_nat_alt)

section \<open>Zig-zag\<close>

text \<open>The two transforms at any width.\<close>

definition zigzag :: "'a::len word \<Rightarrow> 'a word" where
  "zigzag v = push_bit 1 v XOR signed_drop_bit (LENGTH('a) - 1) v"

definition unzigzag :: "'a::len word \<Rightarrow> 'a word" where
  "unzigzag n = drop_bit 1 n XOR (NOT (n AND 1) + 1)"

lemma ZigZag_generic:
  "ZigZagEncode32 v = zigzag v" "ZigZagEncode64 w = zigzag w" "ZigZagDecode32 v = unzigzag v" "ZigZagDecode64 w = unzigzag w"
  by (simp_all add: ZigZagEncode32_def ZigZagEncode64_def ZigZagDecode32_def ZigZagDecode64_def zigzag_def unzigzag_def)

lemma bit_zigzag:
  "bit (zigzag v) i \<longleftrightarrow> i < LENGTH('a) \<and> (if i = 0 then bit v (LENGTH('a) - 1) else bit v (i - 1) \<noteq> bit v (LENGTH('a) - 1))"
  for v :: "'a::len word"
proof (cases "i < LENGTH('a)")
  case True
  have "bit (signed_drop_bit (LENGTH('a) - 1) v) i = bit v (LENGTH('a) - 1)"
    using True by (cases "i = 0") (auto simp: bit_signed_drop_bit_iff)
  moreover have "bit (push_bit 1 v) i \<longleftrightarrow> i \<noteq> 0 \<and> bit v (i - 1)" using True by (auto simp only: bit_push_bit_iff possible_bit_word)
  ultimately have "bit (zigzag v) i \<longleftrightarrow> (i \<noteq> 0 \<and> bit v (i - 1)) \<noteq> bit v (LENGTH('a) - 1)" by (simp only: zigzag_def bit_xor_iff)
  with True show ?thesis by auto
qed (simp add: bit_word.rep_eq)

lemma minus_low: "NOT (n AND 1) + 1 = (if bit n 0 then - 1 else 0)" for n :: "'a::len word"
proof -
  have "NOT (n AND 1) + 1 = - (n AND 1)" by (simp only: minus_eq_not_plus_1)
  then show ?thesis by (simp add: and_one_eq bit_0 odd_iff_mod_2_eq_one)
qed

lemma bit_unzigzag: "bit (unzigzag n) i \<longleftrightarrow> i < LENGTH('a) \<and> (bit n (Suc i) \<noteq> bit n 0)" for n :: "'a::len word"
proof (cases "i < LENGTH('a)")
  case True
  then show ?thesis
    by (cases "bit n 0") (simp_all only: unzigzag_def minus_low bit_xor_iff bit_drop_bit_eq comp_apply bit_minus_1_iff possible_bit_word
        bit_0_eq bot_apply bot_bool_def plus_1_eq_Suc if_True if_False simp_thms)
qed (simp add: bit_word.rep_eq)

lemma unzigzag_zigzag [simp]: "unzigzag (zigzag v) = v" for v :: "'a::len word"
proof (rule bit_word_eqI)
  fix i assume i: "i < LENGTH('a)"
  show "bit (unzigzag (zigzag v)) i = bit v i"
  proof (cases "Suc i = LENGTH('a)")
    case True
    then have "i = LENGTH('a) - 1" by simp
    with True show ?thesis by (simp add: bit_unzigzag bit_zigzag)
  next
    case False
    with i show ?thesis by (auto simp: bit_unzigzag bit_zigzag)
  qed
qed

lemma zigzag_unzigzag [simp]: "zigzag (unzigzag v) = v" for v :: "'a::len word"
proof (rule bit_word_eqI)
  fix i assume "i < LENGTH('a)"
  then show "bit (zigzag (unzigzag v)) i = bit v i"
    by (cases i) (auto simp: bit_unzigzag bit_zigzag dest: bit_imp_le_length)
qed

section \<open>Reading back what was written\<close>

lemma varint_arrays:
  "WriteVarint32ToArray v = varint_bytes (unat v)" "WriteVarint64ToArray w = varint_bytes (unat w)"
  "WriteVarint32SignExtendedToArray v = varint_bytes (unat (scast v :: uint64))"
  by (simp_all add: WriteVarint32ToArray_def WriteVarint64ToArray_def WriteVarint32SignExtendedToArray_def UnsafeVarint_bytes)

lemma low_word_scast: "(ucast (scast (v :: uint32) :: uint64) :: uint32) = v"
proof (rule bit_word_eqI)
  fix n assume "n < LENGTH(32)"
  then show "bit (ucast (scast v :: uint64) :: uint32) n = bit v n"
    by (cases "n = 31") (auto simp: bit_simps bit_signed_iff min_def)
qed

lemma low_word_bool: "(ucast (if b then 1 else 0 :: uint64) :: uint32) = (if b then 1 else 0)"
  by simp

text \<open>The call of \<open>CodedOutputStream\<close> that writes a value.\<close>

fun scalar_op :: "FieldType \<Rightarrow> scalar \<Rightarrow> out_op option" where
  "scalar_op t (Word32 v) =
     (if t \<in> {TYPE_INT32, TYPE_ENUM} then Some (Put_int32 v)
      else if t = TYPE_UINT32 then Some (Put_varint32 v)
      else if t = TYPE_SINT32 then Some (Put_varint32 (ZigZagEncode32 v))
      else if t \<in> {TYPE_FIXED32, TYPE_SFIXED32, TYPE_FLOAT} then Some (Put_fixed32 v) else None)"
| "scalar_op t (Word64 v) =
     (if t \<in> {TYPE_INT64, TYPE_UINT64} then Some (Put_varint64 v)
      else if t = TYPE_SINT64 then Some (Put_varint64 (ZigZagEncode64 v))
      else if t \<in> {TYPE_FIXED64, TYPE_SFIXED64, TYPE_DOUBLE} then Some (Put_fixed64 v) else None)"
| "scalar_op t (Boolean b) = (if t = TYPE_BOOL then Some (Put_varint32 (if b then 1 else 0)) else None)"

lemma WriteNoTagToArray_op: "WriteNoTagToArray t v = map_option op_bytes (scalar_op t v)"
  by (cases v; cases t) (simp_all add: varint_arrays LittleEndian32_bytes LittleEndian64_bytes)

lemma WriteNoTag_op: "WriteNoTag t ops v c = (case scalar_op t v of None \<Rightarrow> None | Some x \<Rightarrow> write_op ops x c)"
  by (cases v; cases t) simp_all

lemma scalar_op_of: "scalar_of t v \<longleftrightarrow> scalar_op t v \<noteq> None"
  by (cases v; cases t) simp_all

lemma scalar_op_admissible: "scalar_op t v = Some x \<Longrightarrow> out_admissible x"
  by (cases v; cases t) auto

text \<open>The sizes that are announced are the numbers of bytes written.\<close>

lemma bool_varint: "length (varint_bytes (unat (if b then 1 else 0 :: uint32))) = 1"
  by (simp add: varint_bytes_small)

lemma PrimitiveSize_exact: "WriteNoTagToArray t v = Some d \<Longrightarrow> PrimitiveSize t v = length d"
  by (cases v; cases t)
     (auto simp: varint_arrays LittleEndian32_bytes LittleEndian64_bytes VarintSize32_length VarintSize64_length
       VarintSize32SignExtended_length bool_varint)

lemma kWireTypeForFieldType_written: "kWireTypeForFieldType t = written_wire_type t"
  by (cases t) simp_all

context zero_copy_input
begin

lemma read_varint64:
  assumes "ci_ok c" "ci_view c = varint_bytes (unat (v :: 'b::len word)) @ r" "LENGTH('b) \<le> 64"
  obtains c' where "ReadVarint64 ops c = Some (Some (ucast v), c')" "ci_ok c'" "ci_view c' = r"
proof -
  obtain y c' where y: "ReadVarint64 ops c = Some (y, c')" "ci_varint 10 y of_nat c c'" using ReadVarint64_spec [OF assms(1)] by blast
  from y(2) parse_written [OF assms(3), of v r] have "y = Some (of_nat (unat v))" "ci_view c' = r" "ci_ok c'"
    by (auto simp: varint_read_ok_def assms(2) dest: view_moved)
  with y(1) show thesis by (intro that [of c']) (simp_all only: ucast_of_nat)
qed

lemma read_varint32:
  assumes "ci_ok c" "ci_view c = varint_bytes (unat (v :: 'b::len word)) @ r" "LENGTH('b) \<le> 64"
  obtains c' where "ReadVarint32 ops c = Some (Some (ucast v), c')" "ci_ok c'" "ci_view c' = r"
proof -
  obtain y c' where y: "ReadVarint32 ops c = Some (y, c')" "ci_varint 10 y of_nat c c'" using ReadVarint32_spec [OF assms(1)] by blast
  from y(2) parse_written [OF assms(3), of v r] have "y = Some (of_nat (unat v))" "ci_view c' = r" "ci_ok c'"
    by (auto simp: varint_read_ok_def assms(2) dest: view_moved)
  with y(1) show thesis by (intro that [of c']) (simp_all only: ucast_of_nat)
qed

lemma read_fixed32:
  assumes "ci_ok c" "ci_view c = le_bytes 4 (unat v) @ r"
  obtains c' where "ReadLittleEndian32 ops c = Some (Some v, c')" "ci_ok c'" "ci_view c' = r"
proof -
  have w: "(of_nat (unat v mod 256 ^ 4) :: uint32) = v" using unat_bound [of v] by simp
  from ReadLittleEndian32_spec [OF assms(1)] obtain c' where
    "ReadLittleEndian32 ops c = Some (if 4 \<le> length (ci_view c) then Some (of_nat (le_nat (take 4 (ci_view c)))) else None, c')"
    and m: "ci_moved (min 4 (length (ci_view c))) c c'" by blast
  then have "ReadLittleEndian32 ops c = Some (Some v, c')" using w by (simp add: assms(2) le_nat_bytes)
  then show thesis by (rule that) (use left_moved [OF m assms(2)] in simp_all)
qed

lemma read_fixed64:
  assumes "ci_ok c" "ci_view c = le_bytes 8 (unat v) @ r"
  obtains c' where "ReadLittleEndian64 ops c = Some (Some v, c')" "ci_ok c'" "ci_view c' = r"
proof -
  have w: "(of_nat (unat v mod 256 ^ 8) :: uint64) = v" using unat_bound [of v] by simp
  from ReadLittleEndian64_spec [OF assms(1)] obtain c' where
    "ReadLittleEndian64 ops c = Some (if 8 \<le> length (ci_view c) then Some (of_nat (le_nat (take 8 (ci_view c)))) else None, c')"
    and m: "ci_moved (min 8 (length (ci_view c))) c c'" by blast
  then have "ReadLittleEndian64 ops c = Some (Some v, c')" using w by (simp add: assms(2) le_nat_bytes)
  then show thesis by (rule that) (use left_moved [OF m assms(2)] in simp_all)
qed

lemma ReadPrimitive_written:
  assumes "ci_ok c" "WriteNoTagToArray t v = Some d" "ci_view c = d @ r"
  obtains c' where "ReadPrimitive t ops c = Some (Some v, c')" "ci_ok c'" "ci_view c' = r"
proof (cases v)
  case (Word32 w)
  consider "t = TYPE_INT32 \<or> t = TYPE_ENUM" "d = varint_bytes (unat (scast w :: uint64))"
    | "t = TYPE_UINT32" "d = varint_bytes (unat w)" | "t = TYPE_SINT32" "d = varint_bytes (unat (zigzag w))"
    | "t = TYPE_FIXED32 \<or> t = TYPE_SFIXED32 \<or> t = TYPE_FLOAT" "d = le_bytes 4 (unat w)"
    using assms(2) Word32 by (cases t) (auto simp: varint_arrays LittleEndian32_bytes ZigZag_generic)
  then show thesis
  proof cases
    case 1
    show thesis by (rule read_varint32 [OF assms(1), of "scast w :: uint64" r]) (use 1 assms(3) Word32 low_word_scast [of w] in \<open>auto intro: that\<close>)
  next
    case 2
    show thesis by (rule read_varint32 [OF assms(1), of w r]) (use 2 assms(3) Word32 in \<open>auto intro: that\<close>)
  next
    case 3
    show thesis by (rule read_varint32 [OF assms(1), of "zigzag w" r]) (use 3 assms(3) Word32 in \<open>auto simp: ZigZag_generic intro: that\<close>)
  next
    case 4
    show thesis by (rule read_fixed32 [OF assms(1), of w r]) (use 4 assms(3) Word32 in \<open>auto intro: that\<close>)
  qed
next
  case (Word64 w)
  consider "t = TYPE_INT64 \<or> t = TYPE_UINT64" "d = varint_bytes (unat w)" | "t = TYPE_SINT64" "d = varint_bytes (unat (zigzag w))"
    | "t = TYPE_FIXED64 \<or> t = TYPE_SFIXED64 \<or> t = TYPE_DOUBLE" "d = le_bytes 8 (unat w)"
    using assms(2) Word64 by (cases t) (auto simp: varint_arrays LittleEndian64_bytes ZigZag_generic)
  then show thesis
  proof cases
    case 1
    show thesis by (rule read_varint64 [OF assms(1), of w r]) (use 1 assms(3) Word64 in \<open>auto intro: that\<close>)
  next
    case 2
    show thesis by (rule read_varint64 [OF assms(1), of "zigzag w" r]) (use 2 assms(3) Word64 in \<open>auto simp: ZigZag_generic intro: that\<close>)
  next
    case 3
    show thesis by (rule read_fixed64 [OF assms(1), of w r]) (use 3 assms(3) Word64 in \<open>auto intro: that\<close>)
  qed
next
  case (Boolean b)
  then have t: "t = TYPE_BOOL" "d = varint_bytes (unat (if b then 1 else 0 :: uint32))"
    using assms(2) by (cases t; simp add: varint_arrays)+
  show thesis by (rule read_varint64 [OF assms(1), of "if b then 1 else 0 :: uint32" r]) (use t assms(3) Boolean in \<open>auto intro: that\<close>)
qed

end

section \<open>Sizes of repeated fields\<close>

lemma size_class_length:
  assumes "unat x < 128 ^ 5" "LENGTH('a) \<ge> 29"
  shows "size_class (x :: 'a::len word) n = n + of_nat (length (varint_bytes (unat x)) - 1)"
proof -
  have p: "(2 :: nat) ^ 29 \<le> 2 ^ LENGTH('a)" by (rule power_increasing [OF assms(2)]) simp
  have u: "unat (0x7F :: 'a word) = 0x7F" "unat (0x3FFF :: 'a word) = 0x3FFF" "unat (0x1FFFFF :: 'a word) = 0x1FFFFF"
    "unat (0xFFFFFFF :: 'a word) = 0xFFFFFFF"
    using p by (simp_all only: unsigned_numeral, simp_all add: take_bit_nat_eq_self)
  have t: "0x7F < x \<longleftrightarrow> \<not> unat x < 128" "0x3FFF < x \<longleftrightarrow> \<not> unat x < 128 ^ 2" "0x1FFFFF < x \<longleftrightarrow> \<not> unat x < 128 ^ 3"
    "0xFFFFFFF < x \<longleftrightarrow> \<not> unat x < 128 ^ 4"
    by (simp_all only: word_less_nat_alt u) (simp_all, arith+)
  have o: "(128 :: nat) \<le> 128 ^ 2" "(128 :: nat) ^ 2 \<le> 128 ^ 3" "(128 :: nat) ^ 3 \<le> 128 ^ 4" by simp_all
  consider "unat x < 128" | "\<not> unat x < 128" "unat x < 128 ^ 2" | "\<not> unat x < 128 ^ 2" "unat x < 128 ^ 3"
    | "\<not> unat x < 128 ^ 3" "unat x < 128 ^ 4" | "\<not> unat x < 128 ^ 4" using o by linarith
  then show ?thesis
    by cases (use o in \<open>simp_all only: varint_class [OF assms(1)] size_class_def Let_def t if_True if_False simp_thms\<close>, auto)
qed

lemma size_classes:
  "VarintSize_loop zz se data n m =
    (n + of_nat (\<Sum>x\<leftarrow>data. length (varint_bytes (unat (if zz then ZigZagEncode32 x else x))) - 1),
     m + of_nat (\<Sum>x\<leftarrow>data. if \<not> zz \<and> se then unat (drop_bit 31 x) else 0))"
proof (induction data arbitrary: n m)
  case (Cons x data)
  let ?x = "if zz then ZigZagEncode32 x else x"
  have "unat ?x < 2 ^ 32" using unat_bound [of ?x] by simp
  then have "unat ?x < 128 ^ 5" by simp
  from size_class_length [OF this, where n = n] show ?case by (simp add: Cons.IH add.assoc)
qed simp

lemma sum_list_parts: "(\<And>x. x \<in> set xs \<Longrightarrow> f x + 1 = g x) \<Longrightarrow> (\<Sum>x\<leftarrow>xs. f x) + length xs = (\<Sum>x\<leftarrow>xs. g x :: nat)"
  by (induction xs) force+

lemma sum_list_bound: "(\<And>x. x \<in> set xs \<Longrightarrow> f x \<le> k) \<Longrightarrow> (\<Sum>x\<leftarrow>xs. f x) \<le> (k::nat) * length xs"
proof (induction xs)
  case (Cons x xs)
  then have "f x \<le> k" "(\<Sum>x\<leftarrow>xs. f x) \<le> k * length xs" by simp_all
  then show ?case by simp
qed simp

lemma VarintSize_sum:
  "VarintSize zz se data = of_nat (\<Sum>x\<leftarrow>data. length (varint_bytes (unat (if zz then ZigZagEncode32 x else x)))
     + (if \<not> zz \<and> se then 5 * unat (drop_bit 31 x) else 0))" if "\<not> (zz \<and> se)"
proof -
  let ?f = "\<lambda>x. length (varint_bytes (unat (if zz then ZigZagEncode32 x else x)))"
  have "?f x - 1 + 1 = ?f x" for x using varint_bytes_nonempty [of "unat (if zz then ZigZagEncode32 x else x)"]
    by (cases "varint_bytes (unat (if zz then ZigZagEncode32 x else x))") simp_all
  then have s: "(\<Sum>x\<leftarrow>data. ?f x - 1) + length data = (\<Sum>x\<leftarrow>data. ?f x)" by (rule sum_list_parts)
  have "VarintSize zz se data = of_nat ((\<Sum>x\<leftarrow>data. ?f x - 1) + length data) +
      (if se then of_nat (5 * (\<Sum>x\<leftarrow>data. if \<not> zz \<and> se then unat (drop_bit 31 x) else 0)) else 0)"
    by (simp add: VarintSize_def size_classes Let_def algebra_simps)
  also have "\<dots> = of_nat ((\<Sum>x\<leftarrow>data. ?f x) + (\<Sum>x\<leftarrow>data. if \<not> zz \<and> se then 5 * unat (drop_bit 31 x) else 0))"
    unfolding s using that by (cases se) (simp_all add: sum_list_const_mult)
  finally show ?thesis by (simp only: sum_list_addf)
qed

lemma negative_size: "VarintSize32SignExtended v = length (varint_bytes (unat v)) + 5 * unat (drop_bit 31 v)"
proof (cases "sint v < 0")
  case True
  then have "bit (unat v) 31" using bit_last_iff [of v] by (simp add: bit_unat)
  then have h: "2 ^ 31 \<le> unat v" using not_bit_above [of "unat v" 31 31] by (cases "unat v < 2 ^ 31") simp_all
  then have "length (varint_bytes (unat v)) = Suc 4" using unat_bound [of v] by (intro length_varint_bytes) simp_all
  moreover have "unat (drop_bit 31 v) = 1" using h unat_bound [of v] unfolding unat_drop by (intro div_nat_eqI) simp_all
  ultimately show ?thesis using True by (simp add: VarintSize32SignExtended_def)
next
  case False
  then have "unat v < 2 ^ 31" using unat_nonnegative [of v] sint_lt [of v] by simp
  then have "unat (drop_bit 31 v) = 0" by (simp add: unat_drop)
  with False show ?thesis by (simp add: VarintSize32SignExtended_def VarintSize32_length)
qed

lemma varint_five: "128 ^ 5 \<le> n \<Longrightarrow> length (varint_bytes n) = 5 + length (varint_bytes (n div 128 ^ 5))"
proof -
  assume n: "128 ^ 5 \<le> n"
  have step: "length (varint_bytes m) = Suc (length (varint_bytes (m div 128)))" if "128 \<le> m" for m using that by (simp add: varint_bytes_large)
  have "128 \<le> n" "128 \<le> n div 128" "128 \<le> n div 128 div 128" "128 \<le> n div 128 div 128 div 128" "128 \<le> n div 128 div 128 div 128 div 128"
    using n by (simp_all add: less_eq_div_iff_mult_less_eq flip: div_mult2_eq)
  then have "length (varint_bytes n) = 5 + length (varint_bytes (n div 128 div 128 div 128 div 128 div 128))"
    using step by simp
  then show ?thesis by (simp flip: div_mult2_eq)
qed

lemma add_size64_length: "add_size64 x n = n + of_nat (length (varint_bytes (unat x)) - 1)"
proof (cases "x \<ge> push_bit 35 1")
  case True
  have p: "unat (push_bit 35 1 :: uint64) = 128 ^ 5" by simp
  have big: "128 ^ 5 \<le> unat x" using True p by (simp add: word_le_nat_alt)
  have low: "unat (drop_bit 35 x) = unat x div 128 ^ 5" by (simp add: unat_drop)
  then have "unat (drop_bit 35 x) < 128 ^ 5" using unat_bound [of x] by (simp add: div_less_iff_less_mult)
  from size_class_length [OF this, of "n + 5"] have "add_size64 x n = n + 5 + of_nat (length (varint_bytes (unat x div 128 ^ 5)) - 1)"
    using True low by (simp add: add_size64_def)
  moreover have "length (varint_bytes (unat x div 128 ^ 5)) \<noteq> 0" by simp
  then have "length (varint_bytes (unat x)) - 1 = 5 + (length (varint_bytes (unat x div 128 ^ 5)) - 1)"
    unfolding varint_five [OF big] by linarith
  ultimately show ?thesis by (simp add: add.assoc)
next
  case False
  have p: "unat (push_bit 35 1 :: uint64) = 128 ^ 5" by simp
  have "unat x < 128 ^ 5" using False p by (simp add: word_le_nat_alt)
  from size_class_length [OF this, of n] show ?thesis using False by (simp add: add_size64_def)
qed

lemma VarintSize64_sum:
  "VarintSize64_array zz data = of_nat (\<Sum>x\<leftarrow>data. length (varint_bytes (unat (if zz then ZigZagEncode64 x else x))))"
proof -
  let ?f = "\<lambda>x. length (varint_bytes (unat (if zz then ZigZagEncode64 x else x)))"
  have loop: "VarintSize64_loop zz data n = n + of_nat (\<Sum>x\<leftarrow>data. ?f x - 1)" for n
    by (induction data arbitrary: n) (simp_all add: add_size64_length add.assoc)
  have "?f x - 1 + 1 = ?f x" for x using varint_bytes_nonempty [of "unat (if zz then ZigZagEncode64 x else x)"]
    by (cases "varint_bytes (unat (if zz then ZigZagEncode64 x else x))") simp_all
  then have s: "(\<Sum>x\<leftarrow>data. ?f x - 1) + length data = (\<Sum>x\<leftarrow>data. ?f x)" by (rule sum_list_parts)
  show ?thesis unfolding s [symmetric] by (simp add: VarintSize64_array_def loop add.commute)
qed

lemma RepeatedSize_sum: "RepeatedSize t vs = (\<Sum>v\<leftarrow>vs. PrimitiveSize t v)"
  by (induction vs) simp_all

lemma RepeatedSize_written: "vs \<noteq> [] \<Longrightarrow> WritePrimitiveNoTagToArray t vs = Some d \<Longrightarrow> RepeatedSize t vs = length d"
proof (induction vs arbitrary: d)
  case (Cons v vs)
  then show ?case by (cases "vs = []") (auto simp: PrimitiveSize_exact split: bind_splits)
qed simp

lemma short_varint: "length (varint_bytes (unat (v :: uint32))) \<le> 5" "length (varint_bytes (unat (w :: uint64))) \<le> 10"
  by (simp_all add: length_UnsafeVarint32 length_UnsafeVarint64 flip: UnsafeVarint_bytes)

text \<open>C24. The announced sizes are exact for every primitive type: one value, a repeated field element by element, and the
  branch-free loops for whole arrays, as long as the 32-bit and 64-bit counters can hold the result.\<close>

theorem wire_sizes_exact:
  "(WriteNoTagToArray t v = Some d \<longrightarrow> PrimitiveSize t v = length d) \<and>
   (vs \<noteq> [] \<longrightarrow> WritePrimitiveNoTagToArray t vs = Some d \<longrightarrow> RepeatedSize t vs = length d) \<and>
   (10 * length xs < 2 ^ 32 \<longrightarrow> unat (VarintSize False True xs) = RepeatedSize TYPE_INT32 (map Word32 xs) \<and>
     unat (VarintSize False False xs) = RepeatedSize TYPE_UINT32 (map Word32 xs) \<and>
     unat (VarintSize True False xs) = RepeatedSize TYPE_SINT32 (map Word32 xs) \<and>
     unat (VarintSize False True xs) = RepeatedSize TYPE_ENUM (map Word32 xs)) \<and>
   (10 * length ys < 2 ^ 64 \<longrightarrow> unat (VarintSize64_array False ys) = RepeatedSize TYPE_INT64 (map Word64 ys) \<and>
     unat (VarintSize64_array False ys) = RepeatedSize TYPE_UINT64 (map Word64 ys) \<and>
     unat (VarintSize64_array True ys) = RepeatedSize TYPE_SINT64 (map Word64 ys)) \<and>
   (int (length s) < 2 ^ 32 \<longrightarrow> FieldTagSize num TYPE_BYTES + LengthDelimitedSize (length s) = length (WriteBytesToArray num s))"
proof (intro conjI)
  show "WriteNoTagToArray t v = Some d \<longrightarrow> PrimitiveSize t v = length d" by (simp add: PrimitiveSize_exact)
  show "vs \<noteq> [] \<longrightarrow> WritePrimitiveNoTagToArray t vs = Some d \<longrightarrow> RepeatedSize t vs = length d" by (simp add: RepeatedSize_written)
  show "10 * length xs < 2 ^ 32 \<longrightarrow> unat (VarintSize False True xs) = RepeatedSize TYPE_INT32 (map Word32 xs) \<and>
     unat (VarintSize False False xs) = RepeatedSize TYPE_UINT32 (map Word32 xs) \<and>
     unat (VarintSize True False xs) = RepeatedSize TYPE_SINT32 (map Word32 xs) \<and>
     unat (VarintSize False True xs) = RepeatedSize TYPE_ENUM (map Word32 xs)"
  proof (intro impI conjI)
    assume l: "10 * length xs < 2 ^ 32"
    have signed: "unat (VarintSize False True xs) = (\<Sum>x\<leftarrow>xs. VarintSize32SignExtended x)"
    proof -
      have "(\<Sum>x\<leftarrow>xs. VarintSize32SignExtended x) \<le> 10 * length xs"
        by (rule sum_list_bound) (use short_varint(2) in \<open>simp add: VarintSize32SignExtended_length varint_arrays\<close>)
      with l show ?thesis by (simp add: VarintSize_sum unat_of_nat flip: negative_size)
    qed
    have plain: "unat (VarintSize zz False xs) = (\<Sum>x\<leftarrow>xs. VarintSize32 (if zz then ZigZagEncode32 x else x))" for zz
    proof -
      have "(\<Sum>x\<leftarrow>xs. VarintSize32 (if zz then ZigZagEncode32 x else x)) \<le> 10 * length xs"
        by (rule sum_list_bound) (use short_varint(1) in \<open>simp add: VarintSize32_length le_trans [of _ 5 10]\<close>)
      with l show ?thesis by (simp add: VarintSize_sum unat_of_nat VarintSize32_length)
    qed
    show "unat (VarintSize False True xs) = RepeatedSize TYPE_INT32 (map Word32 xs)" "unat (VarintSize False True xs) = RepeatedSize TYPE_ENUM (map Word32 xs)"
      "unat (VarintSize False False xs) = RepeatedSize TYPE_UINT32 (map Word32 xs)" "unat (VarintSize True False xs) = RepeatedSize TYPE_SINT32 (map Word32 xs)"
      using signed plain [of False] plain [of True] by (simp_all add: RepeatedSize_sum comp_def)
  qed
  show "10 * length ys < 2 ^ 64 \<longrightarrow> unat (VarintSize64_array False ys) = RepeatedSize TYPE_INT64 (map Word64 ys) \<and>
     unat (VarintSize64_array False ys) = RepeatedSize TYPE_UINT64 (map Word64 ys) \<and>
     unat (VarintSize64_array True ys) = RepeatedSize TYPE_SINT64 (map Word64 ys)"
  proof (intro impI conjI)
    assume l: "10 * length ys < 2 ^ 64"
    have plain: "unat (VarintSize64_array zz ys) = (\<Sum>x\<leftarrow>ys. VarintSize64 (if zz then ZigZagEncode64 x else x))" for zz
    proof -
      have "(\<Sum>x\<leftarrow>ys. VarintSize64 (if zz then ZigZagEncode64 x else x)) \<le> 10 * length ys"
        by (rule sum_list_bound) (use short_varint(2) in \<open>simp add: VarintSize64_length\<close>)
      with l show ?thesis by (simp add: VarintSize64_sum unat_of_nat VarintSize64_length)
    qed
    show "unat (VarintSize64_array False ys) = RepeatedSize TYPE_INT64 (map Word64 ys)"
      "unat (VarintSize64_array False ys) = RepeatedSize TYPE_UINT64 (map Word64 ys)" "unat (VarintSize64_array True ys) = RepeatedSize TYPE_SINT64 (map Word64 ys)"
      using plain [of False] plain [of True] by (simp_all add: RepeatedSize_sum comp_def)
  qed
  show "int (length s) < 2 ^ 32 \<longrightarrow> FieldTagSize num TYPE_BYTES + LengthDelimitedSize (length s) = length (WriteBytesToArray num s)"
    using tag_size [of WIRETYPE_LENGTH_DELIMITED num]
    by (simp add: FieldTagSize_def LengthDelimitedSize_def WriteBytesToArray_def WriteStringWithSizeToArray_def kTagTypeBits_def
        wire_types VarintSize32_length varint_arrays)
qed

text \<open>Three elements, one of them negative: twelve bytes.\<close>

theorem wire_sizes_exact_witness:
  "unat (VarintSize False True [1, - 1, 5]) = 12 \<and> RepeatedSize TYPE_INT32 [Word32 1, Word32 (- 1), Word32 5] = 12 \<and>
   PrimitiveSize TYPE_SINT32 (Word32 (- 3)) = 1"
proof -
  have d: "WriteNoTagToArray TYPE_SINT32 (Word32 (- 3)) = Some [5]" by code_simp
  have "unat (VarintSize False True [1, - 1, 5]) = RepeatedSize TYPE_INT32 (map Word32 [1, - 1, 5])"
    using wire_sizes_exact [where xs = "[1, - 1, 5]"] by simp
  moreover have "RepeatedSize TYPE_INT32 (map Word32 [1, - 1, 5]) = 12" by code_simp
  moreover have "PrimitiveSize TYPE_SINT32 (Word32 (- 3)) = 1" using wire_sizes_exact [of TYPE_SINT32 "Word32 (- 3)" "[5]"] d by simp
  ultimately show ?thesis by simp
qed

section \<open>Primitive values survive the wire\<close>

context steady_output
begin

lemma WriteNoTag_step:
  assumes "out_ok c" "WriteNoTagToArray t v = Some d"
  obtains c' where "WriteNoTag t ops v c = Some c'" "out_step d c c'"
proof -
  obtain x where x: "scalar_op t v = Some x" "d = op_bytes x" using assms(2) by (auto simp: WriteNoTagToArray_op)
  show thesis using write_op_step [OF assms(1) scalar_op_admissible [OF x(1)]] x that by (auto simp: WriteNoTag_op)
qed

lemma Lite_WriteTag_step:
  assumes "out_ok c"
  obtains c' where "Lite_WriteTag ops n w c = Some c'" "out_step (WriteTagToArray n w) c c'"
  using write_op_step [OF assms, of "Put_tag (MakeTag n w)"] that
  by (auto simp: Lite_WriteTag_def WriteTagToArray_def varint_arrays)

lemma WriteField_step:
  assumes "out_ok c" "WriteFieldToArray t n v = Some d"
  obtains c' where "WriteField t ops n v c = Some c'" "out_step d c c'"
proof -
  obtain e where e: "WriteNoTagToArray t v = Some e" "d = WriteTagToArray n (written_wire_type t) @ e"
    using assms(2) by (auto simp: WriteFieldToArray_def)
  obtain c1 where c1: "Lite_WriteTag ops n (written_wire_type t) c = Some c1" "out_step (WriteTagToArray n (written_wire_type t)) c c1"
    by (rule Lite_WriteTag_step [OF assms(1)])
  then obtain c2 where "WriteNoTag t ops v c1 = Some c2" "out_step e c1 c2"
    by (rule_tac WriteNoTag_step [OF _ e(1), of c1]) (simp add: out_step_def)
  with c1 e(2) show thesis by (intro that [of c2]) (simp_all add: WriteField_def out_step_trans)
qed

end

text \<open>C21. Zig-zag and tags are bijections, and each primitive type survives the wire: whatever the type and the value, the
  array writer and the stream writer produce the same bytes behind a tag with the field number and the wire type
  of the table, and the reader for the type returns the value from them and stops behind them, over any stream.\<close>

theorem wire_scalars_roundtrip:
  assumes "zero_copy_input iops iok rest given iidle" "steady_output ops ok sound written chunk idle" "scalar_of t v" "n < 2 ^ 29"
  shows "ZigZagDecode32 (ZigZagEncode32 w) = w \<and> ZigZagEncode32 (ZigZagDecode32 w) = w \<and>
    ZigZagDecode64 (ZigZagEncode64 x) = x \<and> ZigZagEncode64 (ZigZagDecode64 x) = x \<and>
    MakeTag (GetTagFieldNumber w) (GetTagWireType w) = w \<and>
    (\<exists>d tag. WriteNoTagToArray t v = Some d \<and> tag = MakeTag n (kWireTypeForFieldType t) \<and> GetTagFieldNumber tag = n \<and>
       GetTagWireType tag = kWireTypeForFieldType t \<and> WriteFieldToArray t n v = Some (WriteVarint32ToArray tag @ d) \<and>
       (\<forall>c. steady_output.out_ok ops ok chunk c \<longrightarrow>
         (\<exists>c'. WriteField t ops n v c = Some c' \<and> steady_output.out_step ops ok sound written chunk (WriteVarint32ToArray tag @ d) c c')) \<and>
       (\<forall>i r. coded_ok iops iok rest given i \<longrightarrow> view rest given i = d @ r \<longrightarrow>
         (\<exists>i'. ReadPrimitive t iops i = Some (Some v, i') \<and> coded_ok iops iok rest given i' \<and> view rest given i' = r)))"
proof (intro conjI)
  show "ZigZagDecode32 (ZigZagEncode32 w) = w" "ZigZagEncode32 (ZigZagDecode32 w) = w"
    "ZigZagDecode64 (ZigZagEncode64 x) = x" "ZigZagEncode64 (ZigZagDecode64 x) = x" by (simp_all add: ZigZag_generic)
  show "MakeTag (GetTagFieldNumber w) (GetTagWireType w) = w" by (rule MakeTag_of_parts)
  obtain d where d: "WriteNoTagToArray t v = Some d" using assms(3) by (auto simp: scalar_op_of WriteNoTagToArray_op)
  have w: "kWireTypeForFieldType t < 8" by (cases t) (simp_all add: wire_types)
  have f: "WriteFieldToArray t n v = Some (WriteVarint32ToArray (MakeTag n (kWireTypeForFieldType t)) @ d)"
    by (simp add: WriteFieldToArray_def d WriteTagToArray_def kWireTypeForFieldType_written)
  let ?bytes = "WriteVarint32ToArray (MakeTag n (kWireTypeForFieldType t)) @ d"
  have out: "\<exists>c'. WriteField t ops n v c = Some c' \<and> steady_output.out_step ops ok sound written chunk ?bytes c c'"
    if "steady_output.out_ok ops ok chunk c" for c
    by (rule steady_output.WriteField_step [OF assms(2) that f]) (intro exI conjI)
  have inp: "\<exists>i'. ReadPrimitive t iops i = Some (Some v, i') \<and> coded_ok iops iok rest given i' \<and> view rest given i' = r"
    if "coded_ok iops iok rest given i" "view rest given i = d @ r" for i r
    by (rule zero_copy_input.ReadPrimitive_written [OF assms(1) that(1) d that(2)]) (intro exI conjI)
  show "\<exists>d tag. WriteNoTagToArray t v = Some d \<and> tag = MakeTag n (kWireTypeForFieldType t) \<and> GetTagFieldNumber tag = n \<and>
       GetTagWireType tag = kWireTypeForFieldType t \<and> WriteFieldToArray t n v = Some (WriteVarint32ToArray tag @ d) \<and>
       (\<forall>c. steady_output.out_ok ops ok chunk c \<longrightarrow>
         (\<exists>c'. WriteField t ops n v c = Some c' \<and> steady_output.out_step ops ok sound written chunk (WriteVarint32ToArray tag @ d) c c')) \<and>
       (\<forall>i r. coded_ok iops iok rest given i \<longrightarrow> view rest given i = d @ r \<longrightarrow>
         (\<exists>i'. ReadPrimitive t iops i = Some (Some v, i') \<and> coded_ok iops iok rest given i' \<and> view rest given i' = r))"
    by (rule exI [of _ d], rule exI [of _ "MakeTag n (kWireTypeForFieldType t)"])
       (simp add: d f MakeTag_parts [OF assms(4) w] out inp)
qed

text \<open>A negative zig-zag value in field 5, read from an array, where something follows it.\<close>

theorem wire_scalars_roundtrip_witness:
  "\<exists>i i'. CodedInputStream array_stream (sample [3, 99]) = Some i \<and>
    ReadPrimitive TYPE_SINT32 array_stream i = Some (Some (Word32 (- 2)), i') \<and> array_view i' = [99]"
proof -
  obtain i where i: "CodedInputStream array_stream (sample [3, 99]) = Some i" "array_coded_ok i" "array_view i = [3, 99]"
    by (rule sample_coded [of "[3, 99]"]) simp_all
  have s: "scalar_of TYPE_SINT32 (Word32 (- 2))" "(5 :: uint32) < 2 ^ 29" by simp_all
  obtain d where d: "WriteNoTagToArray TYPE_SINT32 (Word32 (- 2)) = Some d" "\<forall>i r. array_coded_ok i \<longrightarrow> array_view i = d @ r \<longrightarrow>
      (\<exists>i'. ReadPrimitive TYPE_SINT32 array_stream i = Some (Some (Word32 (- 2)), i') \<and> array_coded_ok i' \<and> array_view i' = r)"
    using wire_scalars_roundtrip [where w = 0 and x = 0, OF array_input.zero_copy_input_axioms array_steady.steady_output_axioms s]
    by (elim exE conjE) (rule that; assumption)
  have "WriteNoTagToArray TYPE_SINT32 (Word32 (- 2)) = Some [3]" by code_simp
  with d(1) have "array_view i = d @ [99]" using i(3) by simp
  with d(2) i show ?thesis by blast
qed

end
