(* ===== verification/Unknown_Fields.thy ===== *)
theory Unknown_Fields
  imports Wire_Format Zero_Copy
begin

text \<open>
  Unknown fields: the class \<open>UnknownFieldSet\<close> of unknown_field_set.h and unknown_field_set.cc, and the part of
  wire_format.cc that fills one from a \<open>CodedInputStream\<close>, writes one to an \<open>EpsCopyOutputStream\<close> and
  announces its size. A set is the list of its fields, in the order in which they were added; a group holds a set.
  Every string and every group belongs to one field only, so that the copies of the code are values here.
\<close>

section \<open>The sets\<close>

text \<open>\<open>number_\<close>, \<open>type_\<close> and the member of the union \<open>data_\<close> that the type selects.\<close>

datatype UnknownField =
    UnknownVarint (number: uint32) uint64
  | UnknownFixed32 (number: uint32) uint32
  | UnknownFixed64 (number: uint32) uint64
  | UnknownLengthDelimited (number: uint32) "byte list"
  | UnknownGroup (number: uint32) "UnknownField list"

type_synonym UnknownFieldSet = "UnknownField list"

definition AddVarint :: "uint32 \<Rightarrow> uint64 \<Rightarrow> UnknownFieldSet \<Rightarrow> UnknownFieldSet" where
  "AddVarint n v fs = fs @ [UnknownVarint n v]"

definition AddFixed32 :: "uint32 \<Rightarrow> uint32 \<Rightarrow> UnknownFieldSet \<Rightarrow> UnknownFieldSet" where
  "AddFixed32 n v fs = fs @ [UnknownFixed32 n v]"

definition AddFixed64 :: "uint32 \<Rightarrow> uint64 \<Rightarrow> UnknownFieldSet \<Rightarrow> UnknownFieldSet" where
  "AddFixed64 n v fs = fs @ [UnknownFixed64 n v]"

text \<open>The code returns a pointer to the new string or group, which the caller then fills: the last argument is what
  it holds after that.\<close>

definition AddLengthDelimited :: "uint32 \<Rightarrow> byte list \<Rightarrow> UnknownFieldSet \<Rightarrow> UnknownFieldSet" where
  "AddLengthDelimited n s fs = fs @ [UnknownLengthDelimited n s]"

definition AddGroup :: "uint32 \<Rightarrow> UnknownFieldSet \<Rightarrow> UnknownFieldSet \<Rightarrow> UnknownFieldSet" where
  "AddGroup n g fs = fs @ [UnknownGroup n g]"

fun DeepCopy :: "UnknownField \<Rightarrow> UnknownField" where
  "DeepCopy (UnknownLengthDelimited n s) = UnknownLengthDelimited n s"
| "DeepCopy (UnknownGroup n g) = UnknownGroup n (map DeepCopy g)"
| "DeepCopy f = f"

definition AddField :: "UnknownField \<Rightarrow> UnknownFieldSet \<Rightarrow> UnknownFieldSet" where
  "AddField f fs = fs @ [DeepCopy f]"

definition MergeFrom :: "UnknownFieldSet \<Rightarrow> UnknownFieldSet \<Rightarrow> UnknownFieldSet" where
  "MergeFrom other fs = fold AddField other fs"

text \<open>The result: this set and the other one.\<close>

definition MergeFromAndDestroy :: "UnknownFieldSet \<Rightarrow> UnknownFieldSet \<Rightarrow> UnknownFieldSet \<times> UnknownFieldSet" where
  "MergeFromAndDestroy other fs = (if fs = [] then (other, []) else (fs @ other, []))"

text \<open>The fields are deleted, the rest slides down, the end is popped; an access outside the vector is \<open>None\<close>.
  \<open>start\<close> and \<open>num\<close> are of type \<open>int\<close>; a negative sum is a huge index, which ends the second loop at once.\<close>

fun slide_down :: "nat \<Rightarrow> nat \<Rightarrow> nat \<Rightarrow> 'a list \<Rightarrow> 'a list" where
  "slide_down 0 i num fs = fs"
| "slide_down (Suc k) i num fs = slide_down k (Suc i) num (fs[i - num := fs ! i])"

definition DeleteSubrange :: "int \<Rightarrow> int \<Rightarrow> UnknownFieldSet \<Rightarrow> UnknownFieldSet option" where
  "DeleteSubrange start num fs =
     (if num \<le> 0 then
        (if num = 0 \<or> start + num < 0 \<or> int (length fs) \<le> start + num then Some fs else None)
      else if start < 0 \<or> int (length fs) < start + num then None
      else
        let i = nat (start + num);
            slid = slide_down (length fs - i) i (nat num) fs
        in Some (take (length fs - nat num) slid))"

text \<open>The loop over \<open>i\<close>, with \<open>left\<close> fields kept so far.\<close>

fun delete_loop :: "nat \<Rightarrow> uint32 \<Rightarrow> nat \<Rightarrow> nat \<Rightarrow> UnknownFieldSet \<Rightarrow> nat \<times> UnknownFieldSet" where
  "delete_loop 0 n i left fs = (left, fs)"
| "delete_loop (Suc k) n i left fs =
     (if number (fs ! i) = n then delete_loop k n (Suc i) left fs
      else delete_loop k n (Suc i) (Suc left) (if i \<noteq> left then fs[left := fs ! i] else fs))"

definition DeleteByNumber :: "uint32 \<Rightarrow> UnknownFieldSet \<Rightarrow> UnknownFieldSet" where
  "DeleteByNumber n fs = (case delete_loop (length fs) n 0 0 fs of (left, fs) \<Rightarrow> take left fs)"

section \<open>Reading\<close>

text \<open>\<open>unknown_fields\<close> may be a null pointer: the fields are skipped. \<open>message\<close> stands for the call of
  \<open>SkipMessage\<close>. What was added before a failure stays.\<close>

definition WireFormat_SkipField_with ::
    "('s CodedInputStream \<Rightarrow> UnknownFieldSet option \<Rightarrow> (bool \<times> 's CodedInputStream \<times> UnknownFieldSet option) option) \<Rightarrow>
      's ZeroCopyInputStream \<Rightarrow> uint32 \<Rightarrow> 's CodedInputStream \<Rightarrow> UnknownFieldSet option \<Rightarrow>
      (bool \<times> 's CodedInputStream \<times> UnknownFieldSet option) option" where
  "WireFormat_SkipField_with message ops tag c unknown =
     (let n = GetTagFieldNumber tag; type = GetTagWireType tag in
      if n = 0 then Some (False, c, unknown)
      else if type = WIRETYPE_VARINT then do {
        (r, c) \<leftarrow> ReadVarint64 ops c;
        Some (case r of None \<Rightarrow> (False, c, unknown) | Some v \<Rightarrow> (True, c, map_option (AddVarint n v) unknown))
      } else if type = WIRETYPE_FIXED64 then do {
        (r, c) \<leftarrow> ReadLittleEndian64 ops c;
        Some (case r of None \<Rightarrow> (False, c, unknown) | Some v \<Rightarrow> (True, c, map_option (AddFixed64 n v) unknown))
      } else if type = WIRETYPE_LENGTH_DELIMITED then do {
        (r, c) \<leftarrow> ReadVarint32 ops c;
        case r of
          None \<Rightarrow> Some (False, c, unknown)
        | Some len \<Rightarrow>
            if unknown = None then do { (b, c) \<leftarrow> CodedInputStream_Skip ops (sint len) c; Some (b, c, unknown) }
            else do {
              (b, s, c) \<leftarrow> ReadString ops [] (sint len) c;
              Some (b, c, map_option (AddLengthDelimited n s) unknown)
            }
      } else if type = WIRETYPE_START_GROUP then
        (case IncrementRecursionDepth c of (b, c) \<Rightarrow>
           if \<not> b then Some (False, c, unknown)
           else do {
             (b, c, g) \<leftarrow> message c (map_option (\<lambda>_. []) unknown);
             let unknown = (case g of None \<Rightarrow> unknown | Some g \<Rightarrow> map_option (AddGroup n g) unknown);
             if \<not> b then Some (False, c, unknown)
             else let c = DecrementRecursionDepth c in Some (LastTagWas (MakeTag n WIRETYPE_END_GROUP) c, c, unknown)
           })
      else if type = WIRETYPE_END_GROUP then Some (False, c, unknown)
      else if type = WIRETYPE_FIXED32 then do {
        (r, c) \<leftarrow> ReadLittleEndian32 ops c;
        Some (case r of None \<Rightarrow> (False, c, unknown) | Some v \<Rightarrow> (True, c, map_option (AddFixed32 n v) unknown))
      } else Some (False, c, unknown))"

lemma WireFormat_SkipField_with_mono [partial_function_mono]:
  assumes "\<And>c unknown. mono_option (\<lambda>f. m f c unknown)"
  shows "mono_option (\<lambda>f. WireFormat_SkipField_with (m f) ops tag c unknown)"
  unfolding WireFormat_SkipField_with_def Let_def
  by (cases "IncrementRecursionDepth c") (auto intro!: partial_function_mono assms simp del: wire_types)

partial_function (option) WireFormat_SkipMessage ::
    "'s ZeroCopyInputStream \<Rightarrow> 's CodedInputStream \<Rightarrow> UnknownFieldSet option \<Rightarrow>
      (bool \<times> 's CodedInputStream \<times> UnknownFieldSet option) option" where
  "WireFormat_SkipMessage ops c unknown =
     do {
       (tag, c) \<leftarrow> ReadTag ops c;
       if tag = 0 then Some (True, c, unknown)
       else if GetTagWireType tag = WIRETYPE_END_GROUP then Some (True, c, unknown)
       else do {
         (b, c, unknown) \<leftarrow> WireFormat_SkipField_with (\<lambda>c unknown. WireFormat_SkipMessage ops c unknown) ops tag c unknown;
         if b then WireFormat_SkipMessage ops c unknown else Some (False, c, unknown)
       }
     }"

declare WireFormat_SkipMessage.simps [code]

definition WireFormat_SkipField ::
    "'s ZeroCopyInputStream \<Rightarrow> uint32 \<Rightarrow> 's CodedInputStream \<Rightarrow> UnknownFieldSet option \<Rightarrow>
      (bool \<times> 's CodedInputStream \<times> UnknownFieldSet option) option" where
  "WireFormat_SkipField ops = WireFormat_SkipField_with (WireFormat_SkipMessage ops) ops"

definition SkipMessageSetField ::
    "'s ZeroCopyInputStream \<Rightarrow> uint32 \<Rightarrow> 's CodedInputStream \<Rightarrow> UnknownFieldSet \<Rightarrow>
      (bool \<times> 's CodedInputStream \<times> UnknownFieldSet) option" where
  "SkipMessageSetField ops field_number c unknown =
     do {
       (r, c) \<leftarrow> ReadVarint32 ops c;
       case r of
         None \<Rightarrow> Some (False, c, unknown)
       | Some len \<Rightarrow> do {
           (b, s, c) \<leftarrow> ReadString ops [] (sint len) c;
           Some (b, c, AddLengthDelimited field_number s unknown) }
     }"

text \<open>The result: success, the input, this set.\<close>

definition MergeFromCodedStream ::
    "'s ZeroCopyInputStream \<Rightarrow> 's CodedInputStream \<Rightarrow> UnknownFieldSet \<Rightarrow> (bool \<times> 's CodedInputStream \<times> UnknownFieldSet) option" where
  "MergeFromCodedStream ops c fs =
     do {
       (b, c, unknown) \<leftarrow> WireFormat_SkipMessage ops c (Some []);
       other \<leftarrow> unknown;
       Some (if b \<and> ConsumedEntireMessage c then (True, c, fst (MergeFromAndDestroy other fs)) else (False, c, fs))
     }"

definition ParseFromCodedStream ::
    "'s ZeroCopyInputStream \<Rightarrow> 's CodedInputStream \<Rightarrow> UnknownFieldSet \<Rightarrow> (bool \<times> 's CodedInputStream \<times> UnknownFieldSet) option" where
  "ParseFromCodedStream ops c fs = MergeFromCodedStream ops c []"

text \<open>The \<open>CodedInputStream\<close> lives as long as the call; its destructor gives back what it did not read.\<close>

definition ParseFromZeroCopyStream ::
    "'s ZeroCopyInputStream \<Rightarrow> 's \<Rightarrow> UnknownFieldSet \<Rightarrow> (bool \<times> 's option \<times> UnknownFieldSet) option" where
  "ParseFromZeroCopyStream ops s fs =
     do {
       c \<leftarrow> CodedInputStream ops s;
       (b, c, fs) \<leftarrow> ParseFromCodedStream ops c fs;
       s \<leftarrow> CodedInputStream_destroy ops c;
       Some (b \<and> ConsumedEntireMessage c, s, fs)
     }"

definition UnknownFieldSet_ParseFromArray :: "byte list \<Rightarrow> UnknownFieldSet \<Rightarrow> (bool \<times> UnknownFieldSet) option" where
  "UnknownFieldSet_ParseFromArray data fs =
     do {
       (b, s, fs) \<leftarrow> ParseFromZeroCopyStream array_stream (ArrayInputStream data (int (length data)) (-1)) fs;
       Some (b, fs)
     }"

text \<open>Packed enumerations, where a value that the enumeration does not have becomes an unknown field.\<close>

partial_function (option) WireFormat_packed_enum_loop ::
    "'s ZeroCopyInputStream \<Rightarrow> uint32 \<Rightarrow> (uint32 \<Rightarrow> bool) option \<Rightarrow> 's CodedInputStream \<Rightarrow> UnknownFieldSet \<Rightarrow>
      scalar RepeatedField \<Rightarrow> (bool \<times> 's CodedInputStream \<times> UnknownFieldSet \<times> scalar RepeatedField) option" where
  "WireFormat_packed_enum_loop ops field_number is_valid c unknown vs =
     (if BytesUntilLimit c > 0 then do {
        (r, c) \<leftarrow> ReadPrimitive TYPE_ENUM ops c;
        case r of
          Some (Word32 v) \<Rightarrow>
            if (case is_valid of None \<Rightarrow> True | Some valid \<Rightarrow> valid v) then do {
              vs \<leftarrow> Repeated_Add (Word32 v) vs;
              WireFormat_packed_enum_loop ops field_number is_valid c unknown vs
            } else WireFormat_packed_enum_loop ops field_number is_valid c (AddVarint field_number (scast v) unknown) vs
        | _ \<Rightarrow> Some (False, c, unknown, vs)
      } else Some (True, c, unknown, vs))"

declare WireFormat_packed_enum_loop.simps [code]

definition WireFormat_ReadPackedEnumPreserveUnknowns ::
    "'s ZeroCopyInputStream \<Rightarrow> uint32 \<Rightarrow> (uint32 \<Rightarrow> bool) option \<Rightarrow> 's CodedInputStream \<Rightarrow> UnknownFieldSet \<Rightarrow>
      scalar RepeatedField \<Rightarrow> (bool \<times> 's CodedInputStream \<times> UnknownFieldSet \<times> scalar RepeatedField) option" where
  "WireFormat_ReadPackedEnumPreserveUnknowns ops field_number is_valid c unknown vs =
     do {
       (r, c) \<leftarrow> ReadVarint32 ops c;
       case r of
         None \<Rightarrow> Some (False, c, unknown, vs)
       | Some n \<Rightarrow> (case PushLimit (sint n) c of (old, c) \<Rightarrow> do {
           (b, c, unknown, vs) \<leftarrow> WireFormat_packed_enum_loop ops field_number is_valid c unknown vs;
           if \<not> b then Some (False, c, unknown, vs) else Some (True, PopLimit old c, unknown, vs) })
     }"

section \<open>Writing\<close>

fun InternalSerializeUnknownFieldsToArray ::
    "'s ZeroCopyOutputStream \<Rightarrow> UnknownFieldSet \<Rightarrow> pointer \<Rightarrow> 's EpsCopyOutputStream \<Rightarrow>
      (pointer \<times> 's EpsCopyOutputStream) option" where
  "InternalSerializeUnknownFieldsToArray ops [] p e = Some (p, e)"
| "InternalSerializeUnknownFieldsToArray ops (UnknownVarint n v # fs) p e =
     do {
       (p, e) \<leftarrow> EnsureSpace ops p e;
       d \<leftarrow> WriteFieldToArray TYPE_UINT64 n (Word64 v);
       (p, e) \<leftarrow> put_bytes ops d p e;
       InternalSerializeUnknownFieldsToArray ops fs p e
     }"
| "InternalSerializeUnknownFieldsToArray ops (UnknownFixed32 n v # fs) p e =
     do {
       (p, e) \<leftarrow> EnsureSpace ops p e;
       d \<leftarrow> WriteFieldToArray TYPE_FIXED32 n (Word32 v);
       (p, e) \<leftarrow> put_bytes ops d p e;
       InternalSerializeUnknownFieldsToArray ops fs p e
     }"
| "InternalSerializeUnknownFieldsToArray ops (UnknownFixed64 n v # fs) p e =
     do {
       (p, e) \<leftarrow> EnsureSpace ops p e;
       d \<leftarrow> WriteFieldToArray TYPE_FIXED64 n (Word64 v);
       (p, e) \<leftarrow> put_bytes ops d p e;
       InternalSerializeUnknownFieldsToArray ops fs p e
     }"
| "InternalSerializeUnknownFieldsToArray ops (UnknownLengthDelimited n s # fs) p e =
     do {
       (p, e) \<leftarrow> EnsureSpace ops p e;
       (p, e) \<leftarrow> Eps_WriteString ops n s p e;
       InternalSerializeUnknownFieldsToArray ops fs p e
     }"
| "InternalSerializeUnknownFieldsToArray ops (UnknownGroup n g # fs) p e =
     do {
       (p, e) \<leftarrow> EnsureSpace ops p e;
       (p, e) \<leftarrow> put_bytes ops (WriteTagToArray n WIRETYPE_START_GROUP) p e;
       (p, e) \<leftarrow> InternalSerializeUnknownFieldsToArray ops g p e;
       (p, e) \<leftarrow> EnsureSpace ops p e;
       (p, e) \<leftarrow> put_bytes ops (WriteTagToArray n WIRETYPE_END_GROUP) p e;
       InternalSerializeUnknownFieldsToArray ops fs p e
     }"

definition SerializeUnknownFields ::
    "'s ZeroCopyOutputStream \<Rightarrow> UnknownFieldSet \<Rightarrow> 's CodedOutputStream \<Rightarrow> 's CodedOutputStream option" where
  "SerializeUnknownFields ops fs = on_impl (InternalSerializeUnknownFieldsToArray ops fs)"

text \<open>Only the length-delimited fields of a message set are written, each as an item.\<close>

definition InternalSerializeLengthDelimitedNoTag ::
    "'s ZeroCopyOutputStream \<Rightarrow> byte list \<Rightarrow> pointer \<Rightarrow> 's EpsCopyOutputStream \<Rightarrow> (pointer \<times> 's EpsCopyOutputStream) option" where
  "InternalSerializeLengthDelimitedNoTag ops data p e =
     do {
       (p, e) \<leftarrow> put_bytes ops (WriteVarint32ToArray (of_nat (length data))) p e;
       WriteRaw ops data p e
     }"

fun InternalSerializeUnknownMessageSetItemsToArray ::
    "'s ZeroCopyOutputStream \<Rightarrow> UnknownFieldSet \<Rightarrow> pointer \<Rightarrow> 's EpsCopyOutputStream \<Rightarrow>
      (pointer \<times> 's EpsCopyOutputStream) option" where
  "InternalSerializeUnknownMessageSetItemsToArray ops [] p e = Some (p, e)"
| "InternalSerializeUnknownMessageSetItemsToArray ops (UnknownLengthDelimited n s # fs) p e =
     do {
       (p, e) \<leftarrow> EnsureSpace ops p e;
       (p, e) \<leftarrow> put_bytes ops (WriteVarint32ToArray kMessageSetItemStartTag) p e;
       (p, e) \<leftarrow> put_bytes ops (WriteVarint32ToArray kMessageSetTypeIdTag) p e;
       (p, e) \<leftarrow> put_bytes ops (WriteVarint32ToArray n) p e;
       (p, e) \<leftarrow> put_bytes ops (WriteVarint32ToArray kMessageSetMessageTag) p e;
       (p, e) \<leftarrow> InternalSerializeLengthDelimitedNoTag ops s p e;
       (p, e) \<leftarrow> EnsureSpace ops p e;
       (p, e) \<leftarrow> put_bytes ops (WriteVarint32ToArray kMessageSetItemEndTag) p e;
       InternalSerializeUnknownMessageSetItemsToArray ops fs p e
     }"
| "InternalSerializeUnknownMessageSetItemsToArray ops (_ # fs) p e = InternalSerializeUnknownMessageSetItemsToArray ops fs p e"

definition SerializeUnknownMessageSetItems ::
    "'s ZeroCopyOutputStream \<Rightarrow> UnknownFieldSet \<Rightarrow> 's CodedOutputStream \<Rightarrow> 's CodedOutputStream option" where
  "SerializeUnknownMessageSetItems ops fs = on_impl (InternalSerializeUnknownMessageSetItemsToArray ops fs)"

section \<open>Sizes\<close>

text \<open>Of type \<open>size_t\<close>.\<close>

fun ComputeUnknownFieldsSize :: "UnknownFieldSet \<Rightarrow> uint64" where
  "ComputeUnknownFieldsSize [] = 0"
| "ComputeUnknownFieldsSize (UnknownVarint n v # fs) =
     of_nat (VarintSize32 (MakeTag n WIRETYPE_VARINT)) + of_nat (VarintSize64 v) + ComputeUnknownFieldsSize fs"
| "ComputeUnknownFieldsSize (UnknownFixed32 n v # fs) =
     of_nat (VarintSize32 (MakeTag n WIRETYPE_FIXED32)) + 4 + ComputeUnknownFieldsSize fs"
| "ComputeUnknownFieldsSize (UnknownFixed64 n v # fs) =
     of_nat (VarintSize32 (MakeTag n WIRETYPE_FIXED64)) + 8 + ComputeUnknownFieldsSize fs"
| "ComputeUnknownFieldsSize (UnknownLengthDelimited n s # fs) =
     of_nat (VarintSize32 (MakeTag n WIRETYPE_LENGTH_DELIMITED)) + of_nat (VarintSize32 (of_nat (length s))) +
     of_nat (length s) + ComputeUnknownFieldsSize fs"
| "ComputeUnknownFieldsSize (UnknownGroup n g # fs) =
     of_nat (VarintSize32 (MakeTag n WIRETYPE_START_GROUP)) + ComputeUnknownFieldsSize g +
     of_nat (VarintSize32 (MakeTag n WIRETYPE_END_GROUP)) + ComputeUnknownFieldsSize fs"

text \<open>The length goes through an \<open>int\<close>.\<close>

fun ComputeUnknownMessageSetItemsSize :: "UnknownFieldSet \<Rightarrow> uint64" where
  "ComputeUnknownMessageSetItemsSize [] = 0"
| "ComputeUnknownMessageSetItemsSize (UnknownLengthDelimited n s # fs) =
     (let field_size = of_nat (length s) :: uint32 in
      of_nat kMessageSetItemTagsSize + of_nat (VarintSize32 n) + of_nat (VarintSize32 field_size) + scast field_size +
      ComputeUnknownMessageSetItemsSize fs)"
| "ComputeUnknownMessageSetItemsSize (_ # fs) = ComputeUnknownMessageSetItemsSize fs"

text \<open>Into an array of exactly the announced size; \<open>data\<close> is the memory at the target, \<open>m\<close> the uninitialised
  patch buffer. The result is the pointer behind the last byte and the memory.\<close>

definition SerializeUnknownFieldsToArray ::
    "'s ZeroCopyOutputStream \<Rightarrow> byte list \<Rightarrow> bool \<Rightarrow> UnknownFieldSet \<Rightarrow> byte list \<Rightarrow> (pointer \<times> byte list) option" where
  "SerializeUnknownFieldsToArray ops m deterministic fs data =
     do {
       (p, e) \<leftarrow> InternalSerializeUnknownFieldsToArray ops fs (Chunk 0)
         (EpsCopyOutputStream_array m data (sint (ucast (ComputeUnknownFieldsSize fs) :: uint32)) deterministic);
       Some (p, flat_array e)
     }"

end
