(* ===== verification/Wire_Message.thy ===== *)
theory Wire_Message
  imports Unknown_Fields Wire_Scalars
begin

text \<open>
  Messages on the wire without their descriptors. \<open>wire_message\<close> is a parser of byte lists: the fields up to the
  end of the input or the next end-group tag, at most \<open>d\<close> groups deep. The routines that skip a message, over any
  stream, do what it says.
\<close>

section \<open>The reference parser\<close>

text \<open>Varints and tags may be longer than they need to be, as in the code.\<close>

definition wire_scalar :: "uint32 \<Rightarrow> byte list \<Rightarrow> (UnknownField \<times> byte list) option" where
  "wire_scalar tag bs =
     (let n = GetTagFieldNumber tag; t = GetTagWireType tag in
      if n = 0 then None
      else if t = WIRETYPE_VARINT then
        (case parse_varint 10 bs of VarintOk v p \<Rightarrow> Some (UnknownVarint n (of_nat v), p) | _ \<Rightarrow> None)
      else if t = WIRETYPE_FIXED64 then
        (if 8 \<le> length bs then Some (UnknownFixed64 n (of_nat (le_nat (take 8 bs))), drop 8 bs) else None)
      else if t = WIRETYPE_LENGTH_DELIMITED then
        (case parse_varint 10 bs of
           VarintOk v p \<Rightarrow>
             let k = sint (of_nat v :: uint32) in
             if 0 \<le> k \<and> k \<le> int (length p) then Some (UnknownLengthDelimited n (take (nat k) p), drop (nat k) p) else None
         | _ \<Rightarrow> None)
      else if t = WIRETYPE_FIXED32 then
        (if 4 \<le> length bs then Some (UnknownFixed32 n (of_nat (le_nat (take 4 bs))), drop 4 bs) else None)
      else None)"

text \<open>What ends a message: the end of the input, a tag that is 0 or ends a group, or something that is not a tag.\<close>

datatype wire_end = At_end | End_tag uint32 | Bad_tag

text \<open>The comparisons of lengths are always true; they make the recursion well-founded.\<close>

fun wire_message :: "nat \<Rightarrow> byte list \<Rightarrow> (UnknownFieldSet \<times> wire_end \<times> byte list) option" where
  "wire_message d bs =
     (if bs = [] then Some ([], At_end, [])
      else case parse_varint 10 bs of
        VarintOk v p \<Rightarrow>
          let tag = of_nat v; n = GetTagFieldNumber tag in
          if tag = 0 \<or> GetTagWireType tag = WIRETYPE_END_GROUP then Some ([], End_tag tag, p)
          else if GetTagWireType tag = WIRETYPE_START_GROUP then
            if n = 0 \<or> d = 0 \<or> \<not> length p < length bs then None
            else (case wire_message (d - 1) p of
                None \<Rightarrow> None
              | Some (g, e, q) \<Rightarrow>
                  if e = End_tag (MakeTag n WIRETYPE_END_GROUP) \<and> length q < length bs
                  then map_option (\<lambda>(fs, e, r). (UnknownGroup n g # fs, e, r)) (wire_message d q) else None)
          else (case wire_scalar tag p of
                None \<Rightarrow> None
              | Some (f, q) \<Rightarrow>
                  if length q < length bs then map_option (\<lambda>(fs, e, r). (f # fs, e, r)) (wire_message d q) else None)
      | _ \<Rightarrow> Some ([], Bad_tag, []))"

declare wire_message.simps [simp del]

lemma parse_varint_shorter: "parse_varint n bs = VarintOk v p \<Longrightarrow> length p < length bs"
proof (induction n bs arbitrary: v rule: parse_varint.induct)
  case (3 k b bs)
  show ?case
  proof (cases "b < 128")
    case False
    with "3.prems" obtain w where "parse_varint k bs = VarintOk w p" by (cases "parse_varint k bs") simp_all
    with False "3.IH" show ?thesis by fastforce
  qed (use "3.prems" in simp)
qed simp_all

lemma wire_scalar_shorter: "wire_scalar tag bs = Some (f, q) \<Longrightarrow> length q \<le> length bs"
  using parse_varint_shorter [of 10 bs] by (fastforce simp: wire_scalar_def Let_def split: if_splits varint_read.splits)

text \<open>What follows a message is no longer than what it was read from, so the guards are always true.\<close>

lemma wire_message_shorter: "wire_message d bs = Some (fs, e, r) \<Longrightarrow> length r \<le> length bs"
proof (induction "length bs" arbitrary: d bs fs e r rule: less_induct)
  case less
  show ?case
  proof (cases "parse_varint 10 bs")
    case (VarintOk v p)
    note p = parse_varint_shorter [OF VarintOk]
    have go: "length r' \<le> length bs" if "wire_message d' q = Some (fs', e', r')" "length q < length bs" for d' q fs' e' r'
      using less.hyps [OF that(2,1)] that(2) by simp
    from VarintOk p less.prems show ?thesis
      by (subst (asm) wire_message.simps) (auto simp: Let_def split: if_splits option.splits dest: go)
  qed (use less.prems in \<open>simp_all add: wire_message.simps [of d bs] split: if_splits\<close>)
qed

lemma wire_message_empty [simp]: "wire_message d [] = Some ([], At_end, [])"
  by (simp add: wire_message.simps)

lemma wire_message_bad: "bs \<noteq> [] \<Longrightarrow> (\<And>v p. parse_varint 10 bs \<noteq> VarintOk v p) \<Longrightarrow> wire_message d bs = Some ([], Bad_tag, [])"
  by (subst wire_message.simps) (simp split: varint_read.split)

lemma wire_message_tag:
  assumes "bs \<noteq> []" "parse_varint 10 bs = VarintOk v p" "tag = of_nat v"
  shows "wire_message d bs =
    (if tag = 0 \<or> GetTagWireType tag = WIRETYPE_END_GROUP then Some ([], End_tag tag, p)
     else if GetTagWireType tag = WIRETYPE_START_GROUP then
       if GetTagFieldNumber tag = 0 \<or> d = 0 then None
       else (case wire_message (d - 1) p of
           Some (g, End_tag t, q) \<Rightarrow>
             if t = MakeTag (GetTagFieldNumber tag) WIRETYPE_END_GROUP
             then map_option (\<lambda>(fs, e, r). (UnknownGroup (GetTagFieldNumber tag) g # fs, e, r)) (wire_message d q) else None
         | _ \<Rightarrow> None)
     else (case wire_scalar tag p of
         None \<Rightarrow> None
       | Some (f, q) \<Rightarrow> map_option (\<lambda>(fs, e, r). (f # fs, e, r)) (wire_message d q)))"
proof -
  have p: "length p < length bs" by (rule parse_varint_shorter [OF assms(2)])
  have g: "length q < length bs" if "wire_message (d - 1) p = Some (g, e, q)" for g e q
    using wire_message_shorter [OF that] p by simp
  have s: "length q < length bs" if "wire_scalar tag p = Some (f, q)" for f q
    using wire_scalar_shorter [OF that] p by simp
  show ?thesis
  proof (cases "tag = 0 \<or> GetTagWireType tag = WIRETYPE_END_GROUP")
    case True
    then show ?thesis using assms by (subst wire_message.simps) (simp only: varint_read.case Let_def if_True if_False simp_thms)
  next
    case False
    show ?thesis
    proof (cases "GetTagWireType tag = WIRETYPE_START_GROUP")
      case group: True
      show ?thesis
      proof (cases "wire_message (d - 1) p")
        case None
        with False group assms show ?thesis
          by (subst wire_message.simps) (simp only: varint_read.case Let_def if_True if_False simp_thms option.case if_cancel)
      next
        case (Some x)
        obtain g e q where x: "x = (g, e, q)" by (cases x)
        with False group assms Some p g [of g e q] show ?thesis
          by (subst wire_message.simps)
             (cases e; simp only: varint_read.case Let_def if_True if_False simp_thms option.case prod.case wire_end.case wire_end.simps)
      qed
    next
      case scalar: False
      show ?thesis
      proof (cases "wire_scalar tag p")
        case None
        with False scalar assms show ?thesis
          by (subst wire_message.simps) (simp only: varint_read.case Let_def if_True if_False simp_thms option.case)
      next
        case (Some x)
        obtain f q where x: "x = (f, q)" by (cases x)
        with False scalar assms Some s [of f q] show ?thesis
          by (subst wire_message.simps)
             (simp only: varint_read.case Let_def if_True if_False simp_thms option.case prod.case)
      qed
    qed
  qed
qed

section \<open>Skipping is parsing\<close>

lemma same_limits_refl: "same_limits c c"
  by (simp add: same_limits_def)

lemma same_limits_trans: "same_limits c c1 \<Longrightarrow> same_limits c1 c2 \<Longrightarrow> same_limits c c2"
  by (auto simp: same_limits_def)

text \<open>Between its calls of the stream's reader a skipper is in step with the reference: the input is in order, its limits
  and the depth are as they were.\<close>

definition in_step ::
    "'s ZeroCopyInputStream \<Rightarrow> ('s \<Rightarrow> bool) \<Rightarrow> ('s \<Rightarrow> byte list) \<Rightarrow> ('s \<Rightarrow> byte list) \<Rightarrow> 's CodedInputStream \<Rightarrow> 's CodedInputStream \<Rightarrow> bool" where
  "in_step ops ok rest given c c' \<longleftrightarrow> coded_ok ops ok rest given c' \<and> same_limits c c'"

lemma in_step_trans: "in_step ops ok rest given c c1 \<Longrightarrow> in_step ops ok rest given c1 c2 \<Longrightarrow> in_step ops ok rest given c c2"
  by (auto simp: in_step_def intro: same_limits_trans)

text \<open>After a failure the limits may be off, but the input is still in order.\<close>

definition intact ::
    "'s ZeroCopyInputStream \<Rightarrow> ('s \<Rightarrow> bool) \<Rightarrow> ('s \<Rightarrow> byte list) \<Rightarrow> ('s \<Rightarrow> byte list) \<Rightarrow> 's CodedInputStream \<Rightarrow> 's CodedInputStream \<Rightarrow> bool" where
  "intact ops ok rest given c c' \<longleftrightarrow> coded_ok ops ok rest given c' \<and> (coded_input c' = None \<longleftrightarrow> coded_input c = None)"

lemma step_intact: "in_step ops ok rest given c c' \<Longrightarrow> intact ops ok rest given c c'"
  by (simp add: in_step_def same_limits_def intact_def)

lemma intact_trans: "intact ops ok rest given c c1 \<Longrightarrow> intact ops ok rest given c1 c2 \<Longrightarrow> intact ops ok rest given c c2"
  by (simp add: intact_def)

lemma moved_in_step: "moved ops ok rest given k c c' \<Longrightarrow> in_step ops ok rest given c c'"
  by (simp add: moved_def in_step_def)

text \<open>Where a message ended: what the tag reader says afterwards, and what is left of the input.\<close>

definition ended_at ::
    "('s \<Rightarrow> byte list) \<Rightarrow> ('s \<Rightarrow> byte list) \<Rightarrow> wire_end \<Rightarrow> byte list \<Rightarrow> 's CodedInputStream \<Rightarrow> 's CodedInputStream \<Rightarrow> bool" where
  "ended_at rest given e r c c' \<longleftrightarrow>
     (case e of
        At_end \<Rightarrow> LastTagWas 0 c' \<and> view rest given c' = [] \<and> (current_limit c = total_bytes_limit c \<longrightarrow> ConsumedEntireMessage c')
      | End_tag t \<Rightarrow> LastTagWas t c' \<and> view rest given c' = r \<and> ConsumedEntireMessage c' = ConsumedEntireMessage c
      | Bad_tag \<Rightarrow> LastTagWas 0 c' \<and> ConsumedEntireMessage c' = ConsumedEntireMessage c)"

lemma ended_at_trans:
  assumes "in_step ops ok rest' given' c c1" "legitimate_message_end c1 = legitimate_message_end c"
  shows "ended_at rest given e r c1 c' = ended_at rest given e r c c'"
  using assms by (cases e) (simp_all add: ended_at_def in_step_def same_limits_def ConsumedEntireMessage_def)

text \<open>A skipper did what the reference says.\<close>

definition skipped_as ::
    "'s ZeroCopyInputStream \<Rightarrow> ('s \<Rightarrow> bool) \<Rightarrow> ('s \<Rightarrow> byte list) \<Rightarrow> ('s \<Rightarrow> byte list) \<Rightarrow>
     (UnknownFieldSet \<times> wire_end \<times> byte list) option \<Rightarrow> 's CodedInputStream \<Rightarrow> UnknownFieldSet option \<Rightarrow>
     (bool \<times> 's CodedInputStream \<times> UnknownFieldSet option) option \<Rightarrow> bool" where
  "skipped_as ops ok rest given m c u r \<longleftrightarrow> (\<exists>c' u'. r = Some (m \<noteq> None, c', u') \<and> intact ops ok rest given c c' \<and>
     (case m of
        None \<Rightarrow> u' = None \<longleftrightarrow> u = None
      | Some (fs, e, q) \<Rightarrow> u' = map_option (\<lambda>gs. gs @ fs) u \<and> in_step ops ok rest given c c' \<and> ended_at rest given e q c c'))"

text \<open>The depth counter around a group.\<close>

lemma depth_update:
  "coded_ok ops ok rest given (c\<lparr>recursion_budget := n\<rparr>) = coded_ok ops ok rest given c"
  "view rest given (c\<lparr>recursion_budget := n\<rparr>) = view rest given c"
  by (cases "coded_input c";
      simp add: coded_defs view_def unread_def future_def)+

context zero_copy_input
begin

abbreviation "ci_step \<equiv> in_step ops ok rest given"
abbreviation "ci_intact \<equiv> intact ops ok rest given"
abbreviation "ci_skipped \<equiv> skipped_as ops ok rest given"

lemma ReadTag_parse:
  assumes "ci_ok c"
  obtains (at_end) c' where "ReadTag ops c = Some (0, c')" "last_tag c' = 0" "ci_step c c'" "ci_view c = []" "ci_view c' = []"
      "legitimate_end c \<longrightarrow> legitimate_message_end c'"
  | (tag) tag c' v p where "ReadTag ops c = Some (tag, c')" "last_tag c' = tag" "ci_step c c'" "ci_view c \<noteq> []"
      "parse_varint 10 (ci_view c) = VarintOk v p" "tag = of_nat v" "ci_view c' = p" "legitimate_message_end c' = legitimate_message_end c"
  | (bad) c' where "ReadTag ops c = Some (0, c')" "last_tag c' = 0" "ci_step c c'" "ci_view c \<noteq> []"
      "\<And>v p. parse_varint 10 (ci_view c) \<noteq> VarintOk v p" "legitimate_message_end c' = legitimate_message_end c"
proof -
  obtain t c' where t: "ReadTag ops c = Some (t, c')" "last_tag c' = t" "ci_tag t c (c'\<lparr>last_tag := last_tag c\<rparr>)"
    using ReadTag_spec [OF assms] by blast
  have v: "ci_view (c'\<lparr>last_tag := last_tag c\<rparr>) = ci_view c'" by (simp add: view_def closest_limit_def tag_update)
  have s: "ci_moved k c (c'\<lparr>last_tag := last_tag c\<rparr>) \<Longrightarrow> ci_step c c'" for k
    by (auto simp: moved_def in_step_def coded_ok_def same_limits_def tag_update)
  show thesis
  proof (cases "ci_view c = []")
    case True
    have m: "ci_moved 0 c (c'\<lparr>last_tag := last_tag c\<rparr>)" using t(3) True by (simp add: tag_read_ok_def)
    have "ci_view c' = []" using moved_view [OF m] True v by simp
    with t True s [OF m] show thesis by (intro at_end [of c']) (simp_all add: tag_read_ok_def)
  next
    case False
    show thesis
    proof (cases "parse_varint 10 (ci_view c)")
      case (VarintOk w p)
      with t False v show thesis by (intro tag [of t c' w p]) (auto simp: tag_read_ok_def intro: s)
    qed (use t False in \<open>auto simp: tag_read_ok_def intro!: bad [of c'] intro: s\<close>)
  qed
qed

text \<open>The readers of values, as functions of the view.\<close>

lemma varint_in_step:
  assumes "ci_varint 10 r f c c'"
  shows "ci_step c c'" "legitimate_message_end c' = legitimate_message_end c"
    "parse_varint 10 (ci_view c) = VarintOk v p \<Longrightarrow> r = Some (f v) \<and> ci_view c' = p"
    "(\<And>v p. parse_varint 10 (ci_view c) \<noteq> VarintOk v p) \<Longrightarrow> r = None"
  using assms by (auto simp: varint_read_ok_def split: varint_read.splits intro: moved_in_step)

lemma moved_drop: "ci_moved (min k (length (ci_view c))) c c' \<Longrightarrow> ci_view c' = drop k (ci_view c)"
  using moved_view [of "min k (length (ci_view c))" c c'] by (simp add: min_def split: if_splits)

lemma refused_size: "n < 0 \<Longrightarrow> ReadString ops s n c = Some (False, s, c)" "n < 0 \<Longrightarrow> CodedInputStream_Skip ops n c = Some (False, c)"
  by (simp_all add: ReadString_def CodedInputStream_Skip_def)

text \<open>Reading or skipping a length-delimited value.\<close>

lemma bytes_in_step:
  assumes "ci_ok c"
  obtains s c' where "ReadString ops [] n c = Some (0 \<le> n \<and> n \<le> int (length (ci_view c)), s, c')" "ci_step c c'"
      "legitimate_message_end c' = legitimate_message_end c"
      "0 \<le> n \<Longrightarrow> n \<le> int (length (ci_view c)) \<Longrightarrow> s = take (nat n) (ci_view c) \<and> ci_view c' = drop (nat n) (ci_view c)"
proof (cases "n < 0")
  case True
  then show thesis using assms by (intro that [of "[]" c]) (simp_all add: refused_size in_step_def same_limits_refl)
next
  case False
  then obtain c' where c': "ReadString ops [] n c = Some (n \<le> int (length (ci_view c)), take (nat n) (ci_view c), c')"
    "ci_moved (min (nat n) (length (ci_view c))) c c'" "legitimate_message_end c' = legitimate_message_end c"
    using ReadString_spec [OF assms, of n "[]"] by auto
  show thesis by (rule that [of "take (nat n) (ci_view c)" c']) (use c' False moved_drop [OF c'(2)] in \<open>simp_all add: moved_in_step\<close>)
qed

lemma skip_in_step:
  assumes "ci_ok c"
  obtains c' where "CodedInputStream_Skip ops n c = Some (0 \<le> n \<and> n \<le> int (length (ci_view c)), c')" "ci_step c c'"
      "legitimate_message_end c' = legitimate_message_end c"
      "0 \<le> n \<Longrightarrow> n \<le> int (length (ci_view c)) \<Longrightarrow> ci_view c' = drop (nat n) (ci_view c)"
proof (cases "n < 0")
  case True
  then show thesis using assms by (intro that [of c]) (simp_all add: refused_size in_step_def same_limits_refl)
next
  case False
  then obtain c' where c': "CodedInputStream_Skip ops n c = Some (n \<le> int (length (ci_view c)), c')"
    "ci_moved (min (nat n) (length (ci_view c))) c c'" "legitimate_message_end c' = legitimate_message_end c"
    using Skip_spec [OF assms, of n] by auto
  show thesis by (rule that [of c']) (use c' False moved_drop [OF c'(2)] in \<open>simp_all add: moved_in_step\<close>)
qed

lemma fixed_in_step:
  assumes "ci_ok c"
  obtains c32 c64 where
    "ReadLittleEndian32 ops c = Some (if 4 \<le> length (ci_view c) then Some (of_nat (le_nat (take 4 (ci_view c)))) else None, c32)"
    "ci_step c c32" "ci_view c32 = drop 4 (ci_view c)" "legitimate_message_end c32 = legitimate_message_end c"
    "ReadLittleEndian64 ops c = Some (if 8 \<le> length (ci_view c) then Some (of_nat (le_nat (take 8 (ci_view c)))) else None, c64)"
    "ci_step c c64" "ci_view c64 = drop 8 (ci_view c)" "legitimate_message_end c64 = legitimate_message_end c"
  using ReadLittleEndian32_spec [OF assms] ReadLittleEndian64_spec [OF assms] moved_in_step moved_drop by metis

text \<open>One field that is not a group: with the first field of the reference, or not at all.\<close>

lemma SkipField_scalar:
  assumes "ci_ok c" "GetTagWireType tag \<noteq> WIRETYPE_START_GROUP"
  shows "\<exists>c' u'. WireFormat_SkipField_with message ops tag c u = Some (wire_scalar tag (ci_view c) \<noteq> None, c', u') \<and>
    ci_step c c' \<and> legitimate_message_end c' = legitimate_message_end c \<and>
    (case wire_scalar tag (ci_view c) of
       None \<Rightarrow> u' = None \<longleftrightarrow> u = None
     | Some (f, q) \<Rightarrow> u' = map_option (\<lambda>fs. fs @ [f]) u \<and> ci_view c' = q)"
proof -
  let ?n = "GetTagFieldNumber tag" and ?t = "GetTagWireType tag" and ?r = "WireFormat_SkipField_with message ops tag c u"
  note defs = WireFormat_SkipField_with_def wire_scalar_def Let_def
  consider "?n = 0" | "?n \<noteq> 0" "?t = WIRETYPE_VARINT" | "?n \<noteq> 0" "?t = WIRETYPE_FIXED64" | "?n \<noteq> 0" "?t = WIRETYPE_LENGTH_DELIMITED"
    | "?n \<noteq> 0" "?t = WIRETYPE_FIXED32" | "?n \<noteq> 0" "?t \<notin> {WIRETYPE_VARINT, WIRETYPE_FIXED64, WIRETYPE_LENGTH_DELIMITED, WIRETYPE_FIXED32}"
    by blast
  then show ?thesis
  proof cases
    case 1
    then show ?thesis using assms by (simp add: defs in_step_def same_limits_refl)
  next
    case 2
    obtain r c' where r: "ReadVarint64 ops c = Some (r, c')" "ci_varint 10 r of_nat c c'" using ReadVarint64_spec [OF assms(1)] by blast
    show ?thesis
    proof (cases "parse_varint 10 (ci_view c)")
      case (VarintOk v p)
      with 2 r(1) varint_in_step [OF r(2)] show ?thesis by (cases u) (simp_all add: defs AddVarint_def)
    qed (use 2 r(1) varint_in_step [OF r(2)] in \<open>simp_all add: defs\<close>)
  next
    case 3
    show ?thesis by (rule fixed_in_step [OF assms(1)]) (use 3 in \<open>cases u; simp add: defs wire_types AddFixed64_def\<close>)
  next
    case 4
    obtain r c1 where r: "ReadVarint32 ops c = Some (r, c1)" "ci_varint 10 r of_nat c c1" using ReadVarint32_spec [OF assms(1)] by blast
    have ok: "ci_ok c1" using varint_in_step(1) [OF r(2)] by (simp add: in_step_def)
    show ?thesis
    proof (cases "parse_varint 10 (ci_view c)")
      case (VarintOk v p)
      note v = varint_in_step [OF r(2)]
      have p: "r = Some (of_nat v)" "ci_view c1 = p" using v(3) [OF VarintOk] by simp_all
      let ?k = "sint (of_nat v :: uint32)"
      show ?thesis
      proof (cases u)
        case None
        obtain c' where c': "CodedInputStream_Skip ops ?k c1 = Some (0 \<le> ?k \<and> ?k \<le> int (length p), c')" "ci_step c1 c'"
          "legitimate_message_end c' = legitimate_message_end c1" "0 \<le> ?k \<Longrightarrow> ?k \<le> int (length p) \<Longrightarrow> ci_view c' = drop (nat ?k) p"
          using skip_in_step [OF ok, of ?k] unfolding p(2) by metis
        have "?r = Some (0 \<le> ?k \<and> ?k \<le> int (length p), c', None)" using 4 r(1) p(1) c'(1) None by (simp add: defs wire_types)
        with 4 None VarintOk c' v(1,2) show ?thesis by (simp add: wire_scalar_def Let_def wire_types in_step_trans [OF v(1) c'(2)])
      next
        case (Some fs)
        obtain s c' where c': "ReadString ops [] ?k c1 = Some (0 \<le> ?k \<and> ?k \<le> int (length p), s, c')" "ci_step c1 c'"
          "legitimate_message_end c' = legitimate_message_end c1"
          "0 \<le> ?k \<Longrightarrow> ?k \<le> int (length p) \<Longrightarrow> s = take (nat ?k) p \<and> ci_view c' = drop (nat ?k) p"
          using bytes_in_step [OF ok, of ?k] unfolding p(2) by metis
        have "?r = Some (0 \<le> ?k \<and> ?k \<le> int (length p), c', Some (fs @ [UnknownLengthDelimited ?n s]))"
          using 4 r(1) p(1) c'(1) Some by (simp add: defs wire_types AddLengthDelimited_def)
        with 4 Some VarintOk c' v(1,2) show ?thesis by (simp add: wire_scalar_def Let_def wire_types in_step_trans [OF v(1) c'(2)])
      qed
    qed (use 4 r(1) varint_in_step [OF r(2)] in \<open>simp_all add: defs wire_types\<close>)
  next
    case 5
    show ?thesis by (rule fixed_in_step [OF assms(1)]) (use 5 in \<open>cases u; simp add: defs wire_types AddFixed32_def\<close>)
  next
    case 6
    with assms show ?thesis by (simp add: defs in_step_def same_limits_refl)
  qed
qed

end

context zero_copy_input
begin

text \<open>The group between its two tags, given what the nested message does.\<close>

lemma SkipField_group:
  assumes c: "ci_ok c" "recursion_budget c \<le> recursion_limit c" and group: "GetTagWireType tag = WIRETYPE_START_GROUP"
    and number: "GetTagFieldNumber tag \<noteq> 0" "nat (recursion_budget c) = Suc d"
    and message: "\<And>c u. ci_ok c \<Longrightarrow> recursion_budget c \<le> recursion_limit c \<Longrightarrow> nat (recursion_budget c) = d \<Longrightarrow> ci_view c = bs \<Longrightarrow>
      ci_skipped (wire_message d bs) c u (message c u)"
    and bs: "ci_view c = bs"
  shows "\<exists>b c' u'. WireFormat_SkipField_with message ops tag c u = Some (b, c', u') \<and> ci_intact c c' \<and>
    (case wire_message d bs of
       Some (g, End_tag t, r) \<Rightarrow>
         if t = MakeTag (GetTagFieldNumber tag) WIRETYPE_END_GROUP
         then b \<and> u' = map_option (\<lambda>fs. fs @ [UnknownGroup (GetTagFieldNumber tag) g]) u \<and> ci_step c c' \<and> ci_view c' = r \<and>
           legitimate_message_end c' = legitimate_message_end c
         else \<not> b \<and> (u' = None \<longleftrightarrow> u = None)
     | _ \<Rightarrow> \<not> b \<and> (u' = None \<longleftrightarrow> u = None))"
proof -
  let ?c = "c\<lparr>recursion_budget := recursion_budget c - 1\<rparr>" and ?u = "map_option (\<lambda>_. []) u :: UnknownFieldSet option"
  let ?n = "GetTagFieldNumber tag" and ?r = "WireFormat_SkipField_with message ops tag c u"
  have inc: "IncrementRecursionDepth c = (True, ?c)" using number(2) by (simp add: IncrementRecursionDepth_def Let_def)
  have "ci_ok ?c" "recursion_budget ?c \<le> recursion_limit ?c" "nat (recursion_budget ?c) = d" "ci_view ?c = bs"
    using c number(2) bs by (simp_all add: depth_update)
  from message [OF this, of ?u] obtain c1 g where c1: "message ?c ?u = Some (wire_message d bs \<noteq> None, c1, g)" "ci_intact ?c c1"
    "case wire_message d bs of None \<Rightarrow> g = None \<longleftrightarrow> ?u = None
      | Some (fs, e, r) \<Rightarrow> g = map_option (\<lambda>gs. gs @ fs) ?u \<and> ci_step ?c c1 \<and> ended_at rest given e r ?c c1"
    unfolding skipped_as_def by blast
  define u' where "u' = (case g of None \<Rightarrow> u | Some g \<Rightarrow> map_option (AddGroup ?n g) u)"
  have skip: "?r = (if wire_message d bs = None then Some (False, c1, u')
      else Some (last_tag c1 = MakeTag ?n WIRETYPE_END_GROUP, DecrementRecursionDepth c1, u'))"
    using group number(1) inc c1(1)
    by (simp add: WireFormat_SkipField_with_def Let_def wire_types u'_def LastTagWas_def DecrementRecursionDepth_def)
  have null: "u' = None \<longleftrightarrow> u = None" by (cases g) (simp_all add: u'_def)
  show ?thesis
  proof (cases "wire_message d bs")
    case None
    with skip null c1(2) show ?thesis by (intro exI [of _ False]) (simp add: intact_def)
  next
    case (Some x)
    obtain fs e r where x: "x = (fs, e, r)" by (cases x)
    have s: "ci_step ?c c1" "ended_at rest given e r ?c c1" and g: "g = map_option (\<lambda>gs. gs @ fs) ?u" using c1(3) Some x by simp_all
    then have dec: "DecrementRecursionDepth c1 = c1\<lparr>recursion_budget := recursion_budget c\<rparr>"
      using c(2) by (simp add: in_step_def same_limits_def DecrementRecursionDepth_def)
    have step: "ci_ok (DecrementRecursionDepth c1)" "ci_step c (DecrementRecursionDepth c1)"
      "ci_view (DecrementRecursionDepth c1) = ci_view c1" "legitimate_message_end (DecrementRecursionDepth c1) = legitimate_message_end c1"
      using s(1) unfolding dec by (simp_all add: in_step_def depth_update same_limits_def)
    have add: "u' = map_option (\<lambda>gs. gs @ [UnknownGroup ?n fs]) u" using g by (cases u) (simp_all add: u'_def AddGroup_def)
    have "MakeTag ?n WIRETYPE_END_GROUP \<noteq> 0" using number(1) MakeTag_parts(1) [OF tag_bounds(1), of WIRETYPE_END_GROUP tag]
      by (auto simp: wire_types GetTagFieldNumber_def)
    with s(2) step(2-) step_intact [OF step(2)] add null skip Some x show ?thesis
      by (cases e) (auto simp: ended_at_def LastTagWas_def ConsumedEntireMessage_def)
  qed
qed

end

context zero_copy_input
begin

text \<open>The loop: a field that fails ends it, behind a field it starts again.\<close>

lemma skipped_stop:
  assumes "m = Some (False, c2, u2)" "ci_intact c c2" "u2 = None \<longleftrightarrow> u = None"
  shows "ci_skipped None c u (do { (b, c, u) \<leftarrow> m; if b then WireFormat_SkipMessage ops c u else Some (False, c, u) })"
  using assms by (simp add: skipped_as_def)

lemma skipped_go:
  assumes m: "m = Some (True, c2, u2)" "u2 = map_option (\<lambda>fs. fs @ [f]) u" "ci_step c c2" "legitimate_message_end c2 = legitimate_message_end c"
    and tail: "ci_skipped w c2 u2 (WireFormat_SkipMessage ops c2 u2)"
  shows "ci_skipped (map_option (\<lambda>(fs, e, r). (f # fs, e, r)) w) c u
    (do { (b, c, u) \<leftarrow> m; if b then WireFormat_SkipMessage ops c u else Some (False, c, u) })"
proof (cases w)
  case None
  with tail m(1,2) intact_trans [OF step_intact [OF m(3)]] show ?thesis by (auto simp: skipped_as_def)
next
  case (Some x)
  obtain fs e r where x: "x = (fs, e, r)" by (cases x)
  from tail Some x obtain c' u' where c': "WireFormat_SkipMessage ops c2 u2 = Some (True, c', u')" "ci_intact c2 c'"
    "u' = map_option (\<lambda>gs. gs @ fs) u2" "ci_step c2 c'" "ended_at rest given e r c2 c'" by (auto simp: skipped_as_def)
  have "ended_at rest given e r c c'" using c'(5) by (simp only: ended_at_trans [OF m(3,4)])
  with in_step_trans [OF m(3) c'(4)] intact_trans [OF step_intact [OF m(3)] c'(2)] c'(1,3) Some x m(1,2) show ?thesis by (cases u) (simp_all add: skipped_as_def)
qed

text \<open>A group that cannot be entered.\<close>

lemma SkipField_no_group:
  assumes "ci_ok c" "GetTagWireType tag = WIRETYPE_START_GROUP" "GetTagFieldNumber tag = 0 \<or> nat (recursion_budget c) = 0"
  obtains c2 where "WireFormat_SkipField_with message ops tag c u = Some (False, c2, u)" "ci_intact c c2"
proof (cases "GetTagFieldNumber tag = 0")
  case True
  then show thesis using assms(1) by (intro that [of c]) (simp_all add: WireFormat_SkipField_with_def intact_def)
next
  case False
  with assms(3) have "\<not> 0 < recursion_budget c" by simp
  then show thesis using False assms(1,2)
    by (intro that [of "c\<lparr>recursion_budget := recursion_budget c - 1\<rparr>"])
       (simp_all add: WireFormat_SkipField_with_def Let_def wire_types IncrementRecursionDepth_def depth_update intact_def)
qed

text \<open>Behind the tag; the induction hypothesis applies behind the field.\<close>

lemma behind_tag:
  assumes "recursion_budget c \<le> recursion_limit c" "ci_step c c1"
  shows "ci_ok c1" "recursion_budget c1 \<le> recursion_limit c1" "nat (recursion_budget c1) = nat (recursion_budget c)"
  using assms by (simp_all add: in_step_def same_limits_def)

lemma field_go:
  assumes c: "ci_ok c" "recursion_budget c \<le> recursion_limit c"
    and hyps: "\<And>c' u'. length (ci_view c') < length (ci_view c) \<Longrightarrow> ci_ok c' \<Longrightarrow> recursion_budget c' \<le> recursion_limit c' \<Longrightarrow>
      ci_skipped (wire_message (nat (recursion_budget c')) (ci_view c')) c' u' (WireFormat_SkipMessage ops c' u')"
    and c1: "ci_step c c1" "legitimate_message_end c1 = legitimate_message_end c"
    and field: "WireFormat_SkipField_with (WireFormat_SkipMessage ops) ops tag c1 u = Some (True, c2, u2)" "u2 = map_option (\<lambda>fs. fs @ [f]) u"
      "ci_view c2 = q" "length q < length (ci_view c)" "ci_step c1 c2" "legitimate_message_end c2 = legitimate_message_end c1"
  shows "ci_skipped (map_option (\<lambda>(fs, e, r). (f # fs, e, r)) (wire_message (nat (recursion_budget c)) q)) c u
    (do { (b, c, u) \<leftarrow> WireFormat_SkipField_with (WireFormat_SkipMessage ops) ops tag c1 u;
          if b then WireFormat_SkipMessage ops c u else Some (False, c, u) })"
proof -
  have s: "ci_step c c2" by (rule in_step_trans [OF c1(1) field(5)])
  note c2 = behind_tag [OF c(2) s]
  have tail: "ci_skipped (wire_message (nat (recursion_budget c)) q) c2 u2 (WireFormat_SkipMessage ops c2 u2)"
    using hyps [of c2 u2] c2 field(3,4) by simp
  have "legitimate_message_end c2 = legitimate_message_end c" using field(6) c1(2) by simp
  from skipped_go [OF field(1,2) s this tail] show ?thesis .
qed

lemma message_scalar:
  assumes c: "ci_ok c" "recursion_budget c \<le> recursion_limit c"
    and hyps: "\<And>c' u'. length (ci_view c') < length (ci_view c) \<Longrightarrow> ci_ok c' \<Longrightarrow> recursion_budget c' \<le> recursion_limit c' \<Longrightarrow>
      ci_skipped (wire_message (nat (recursion_budget c')) (ci_view c')) c' u' (WireFormat_SkipMessage ops c' u')"
    and tag: "ReadTag ops c = Some (tag, c1)" "last_tag c1 = tag" "ci_step c c1" "ci_view c \<noteq> []"
      "parse_varint 10 (ci_view c) = VarintOk v p" "tag = of_nat v" "ci_view c1 = p" "legitimate_message_end c1 = legitimate_message_end c"
    and scalar: "\<not> (tag = 0 \<or> GetTagWireType tag = WIRETYPE_END_GROUP)" "GetTagWireType tag \<noteq> WIRETYPE_START_GROUP"
  shows "ci_skipped (wire_message (nat (recursion_budget c)) (ci_view c)) c u (WireFormat_SkipMessage ops c u)"
proof -
  let ?d = "nat (recursion_budget c)"
  let ?field = "WireFormat_SkipField_with (WireFormat_SkipMessage ops) ops tag c1 u"
  let ?run = "do { (b, c, u) \<leftarrow> ?field; if b then WireFormat_SkipMessage ops c u else Some (False, c, u) }"
  note c1 = behind_tag [OF c(2) tag(3)]
  note W = wire_message_tag [OF tag(4-6), of ?d]
  have short: "length p < length (ci_view c)" by (rule parse_varint_shorter [OF tag(5)])
  have run: "WireFormat_SkipMessage ops c u = ?run" using scalar tag(1) by (subst WireFormat_SkipMessage.simps) simp
  obtain c2 u2 where s: "?field = Some (wire_scalar tag p \<noteq> None, c2, u2)" "ci_step c1 c2" "legitimate_message_end c2 = legitimate_message_end c1"
    "case wire_scalar tag p of None \<Rightarrow> u2 = None \<longleftrightarrow> u = None | Some (f, q) \<Rightarrow> u2 = map_option (\<lambda>fs. fs @ [f]) u \<and> ci_view c2 = q"
    using SkipField_scalar [OF c1(1) scalar(2), of "WireFormat_SkipMessage ops" u] tag(7) by blast
  show ?thesis
  proof (cases "wire_scalar tag p")
    case None
    have "ci_skipped None c u ?run" by (rule skipped_stop [of _ c2 u2]) (use None s step_intact [OF in_step_trans [OF tag(3) s(2)]] in \<open>simp_all\<close>)
    with None run scalar show ?thesis by (simp only: W if_False option.case)
  next
    case (Some x)
    obtain f q where x: "x = (f, q)" by (cases x)
    have "length q < length (ci_view c)" using wire_scalar_shorter [of tag p f q] Some x short by simp
    with field_go [OF c hyps tag(3,8), of tag u c2 u2 f q] s Some x have "ci_skipped (map_option (\<lambda>(fs, e, r). (f # fs, e, r)) (wire_message ?d q)) c u ?run" by simp
    with Some x run scalar show ?thesis by (simp only: W if_False option.case prod.case)
  qed
qed

lemma message_group:
  assumes c: "ci_ok c" "recursion_budget c \<le> recursion_limit c"
    and hyps: "\<And>c' u'. length (ci_view c') < length (ci_view c) \<Longrightarrow> ci_ok c' \<Longrightarrow> recursion_budget c' \<le> recursion_limit c' \<Longrightarrow>
      ci_skipped (wire_message (nat (recursion_budget c')) (ci_view c')) c' u' (WireFormat_SkipMessage ops c' u')"
    and tag: "ReadTag ops c = Some (tag, c1)" "last_tag c1 = tag" "ci_step c c1" "ci_view c \<noteq> []"
      "parse_varint 10 (ci_view c) = VarintOk v p" "tag = of_nat v" "ci_view c1 = p" "legitimate_message_end c1 = legitimate_message_end c"
    and group: "\<not> (tag = 0 \<or> GetTagWireType tag = WIRETYPE_END_GROUP)" "GetTagWireType tag = WIRETYPE_START_GROUP"
  shows "ci_skipped (wire_message (nat (recursion_budget c)) (ci_view c)) c u (WireFormat_SkipMessage ops c u)"
proof -
  let ?d = "nat (recursion_budget c)"
  let ?field = "WireFormat_SkipField_with (WireFormat_SkipMessage ops) ops tag c1 u"
  let ?run = "do { (b, c, u) \<leftarrow> ?field; if b then WireFormat_SkipMessage ops c u else Some (False, c, u) }"
  note c1 = behind_tag [OF c(2) tag(3)]
  note W = wire_message_tag [OF tag(4-6), of ?d]
  have short: "length p < length (ci_view c)" by (rule parse_varint_shorter [OF tag(5)])
  have run: "WireFormat_SkipMessage ops c u = ?run" using group tag(1) by (subst WireFormat_SkipMessage.simps) simp
  note Wg = W [unfolded if_not_P [OF group(1)] if_P [OF group(2)]]
  show ?thesis
  proof (cases "GetTagFieldNumber tag = 0 \<or> ?d = 0")
    case True
    obtain c2 where c2: "?field = Some (False, c2, u)" "ci_intact c1 c2"
      by (rule SkipField_no_group [OF c1(1) group(2)]) (use True c1(3) in auto)
    have "ci_skipped None c u ?run" by (rule skipped_stop [OF c2(1) intact_trans [OF step_intact [OF tag(3)] c2(2)] refl])
    with True run show ?thesis by (simp only: Wg if_True)
  next
    case enter: False
    then obtain d where d: "nat (recursion_budget c1) = Suc d" using c1(3) by (cases ?d) simp_all
    then have d': "?d - 1 = d" using c1(3) by simp
    obtain b c2 u2 where g: "?field = Some (b, c2, u2)" "ci_intact c1 c2"
      "case wire_message d p of
         Some (g, End_tag t, r) \<Rightarrow>
           if t = MakeTag (GetTagFieldNumber tag) WIRETYPE_END_GROUP
           then b \<and> u2 = map_option (\<lambda>fs. fs @ [UnknownGroup (GetTagFieldNumber tag) g]) u \<and> ci_step c1 c2 \<and> ci_view c2 = r \<and>
             legitimate_message_end c2 = legitimate_message_end c1
           else \<not> b \<and> (u2 = None \<longleftrightarrow> u = None)
       | _ \<Rightarrow> \<not> b \<and> (u2 = None \<longleftrightarrow> u = None)"
      using SkipField_group [OF c1(1,2) group(2) _ d, of p "WireFormat_SkipMessage ops" u] hyps enter short tag(7) by blast
    note Wd = Wg [unfolded if_not_P [OF enter] d']
    show ?thesis
    proof (cases "\<exists>g q. wire_message d p = Some (g, End_tag (MakeTag (GetTagFieldNumber tag) WIRETYPE_END_GROUP), q)")
      case True
      then obtain gs q where q: "wire_message d p = Some (gs, End_tag (MakeTag (GetTagFieldNumber tag) WIRETYPE_END_GROUP), q)" by blast
      have l: "length q < length (ci_view c)" using wire_message_shorter [OF q] short by simp
      note g' = g(3) [unfolded q option.case prod.case wire_end.case if_P [OF refl]]
      have "ci_skipped (map_option (\<lambda>(fs, e, r). (UnknownGroup (GetTagFieldNumber tag) gs # fs, e, r)) (wire_message ?d q)) c u ?run"
        by (rule field_go [OF c hyps tag(3,8), of tag u c2 u2]) (use g(1) g' l in simp_all)
      with run show ?thesis by (simp only: Wd q option.case prod.case wire_end.case if_True simp_thms)
    next
      case no: False
      have "wire_message ?d (ci_view c) = None \<and> b = False \<and> (u2 = None \<longleftrightarrow> u = None)"
      proof (cases "wire_message d p")
        case None
        then show ?thesis using g(3) by (simp only: Wd option.case simp_thms)
      next
        case (Some x)
        obtain gs e q where x: "x = (gs, e, q)" by (cases x)
        with Some no g(3) show ?thesis unfolding Wd by (cases e) simp_all
      qed
      then have w: "wire_message ?d (ci_view c) = None" and nb: "b = False" "u2 = None \<longleftrightarrow> u = None" by blast+
      have "ci_skipped None c u ?run" by (rule skipped_stop [OF _ intact_trans [OF step_intact [OF tag(3)] g(2)] nb(2)]) (use g(1) nb(1) in simp)
      with run show ?thesis by (simp only: w)
    qed
  qed
qed

text \<open>A whole message: exactly the fields of the reference, as deep as the budget allows.\<close>

lemma SkipMessage_parse:
  assumes "ci_ok c" "recursion_budget c \<le> recursion_limit c"
  shows "ci_skipped (wire_message (nat (recursion_budget c)) (ci_view c)) c u (WireFormat_SkipMessage ops c u)"
  using assms
proof (induction "length (ci_view c)" arbitrary: c u rule: less_induct)
  case less
  note end_defs = skipped_as_def intact_def same_limits_def in_step_def ended_at_def LastTagWas_def ConsumedEntireMessage_def
  have hyps: "ci_skipped (wire_message (nat (recursion_budget c')) (ci_view c')) c' u' (WireFormat_SkipMessage ops c' u')"
    if "length (ci_view c') < length (ci_view c)" "ci_ok c'" "recursion_budget c' \<le> recursion_limit c'" for c' u'
    using less.hyps that by blast
  show ?case
  proof (cases rule: ReadTag_parse [OF less.prems(1)])
    case (1 c1)
    then show ?thesis by (subst WireFormat_SkipMessage.simps) (cases u; simp add: end_defs legitimate_end_def)
  next
    case (3 c1)
    then show ?thesis by (subst WireFormat_SkipMessage.simps) (cases u; simp add: end_defs wire_message_bad)
  next
    case (2 tag c1 v p)
    consider "tag = 0 \<or> GetTagWireType tag = WIRETYPE_END_GROUP"
      | "\<not> (tag = 0 \<or> GetTagWireType tag = WIRETYPE_END_GROUP)" "GetTagWireType tag \<noteq> WIRETYPE_START_GROUP"
      | "\<not> (tag = 0 \<or> GetTagWireType tag = WIRETYPE_END_GROUP)" "GetTagWireType tag = WIRETYPE_START_GROUP" by blast
    then show ?thesis
    proof cases
      case 1
      with 2 wire_message_tag [OF 2(4-6), of "nat (recursion_budget c)"] show ?thesis
        by (subst WireFormat_SkipMessage.simps) (cases u; auto simp: end_defs)
    next
      case scalar: 2
      show ?thesis by (rule message_scalar [OF less.prems hyps 2 scalar])
    next
      case 3
      show ?thesis by (rule message_group [OF less.prems hyps 2 3])
    qed
  qed
qed

end

end
