(* ===== verification/Unknown_Roundtrip.thy ===== *)
theory Unknown_Roundtrip
  imports Wire_Message
begin

text \<open>
  Sets of unknown fields as bytes: what the serialiser appends to any output stream, that its size is announced
  exactly, that the parser reads the set back, and that the editing operations of the class are the ones on lists.
\<close>

section \<open>The bytes of a set\<close>

fun fields_bytes :: "UnknownFieldSet \<Rightarrow> byte list" where
  "fields_bytes [] = []"
| "fields_bytes (UnknownVarint n v # fs) = WriteTagToArray n WIRETYPE_VARINT @ WriteVarint64ToArray v @ fields_bytes fs"
| "fields_bytes (UnknownFixed32 n v # fs) = WriteTagToArray n WIRETYPE_FIXED32 @ le_bytes 4 (unat v) @ fields_bytes fs"
| "fields_bytes (UnknownFixed64 n v # fs) = WriteTagToArray n WIRETYPE_FIXED64 @ le_bytes 8 (unat v) @ fields_bytes fs"
| "fields_bytes (UnknownLengthDelimited n s # fs) =
     WriteTagToArray n WIRETYPE_LENGTH_DELIMITED @ WriteVarint32ToArray (of_nat (length s)) @ s @ fields_bytes fs"
| "fields_bytes (UnknownGroup n g # fs) =
     WriteTagToArray n WIRETYPE_START_GROUP @ fields_bytes g @ WriteTagToArray n WIRETYPE_END_GROUP @ fields_bytes fs"

text \<open>Sets that the wire can carry: field numbers of 29 bits but not 0, lengths within \<open>int\<close>, at most \<open>d\<close> groups deep.\<close>

definition number_ok :: "uint32 \<Rightarrow> bool" where
  "number_ok n \<longleftrightarrow> n \<noteq> 0 \<and> n < 2 ^ 29"

fun wire_ok :: "nat \<Rightarrow> UnknownFieldSet \<Rightarrow> bool" where
  "wire_ok d [] = True"
| "wire_ok d (UnknownGroup n g # fs) = (number_ok n \<and> d \<noteq> 0 \<and> wire_ok (d - 1) g \<and> wire_ok d fs)"
| "wire_ok d (UnknownLengthDelimited n s # fs) = (number_ok n \<and> int (length s) \<le> INT_MAX \<and> wire_ok d fs)"
| "wire_ok d (UnknownVarint n v # fs) = (number_ok n \<and> wire_ok d fs)"
| "wire_ok d (UnknownFixed32 n v # fs) = (number_ok n \<and> wire_ok d fs)"
| "wire_ok d (UnknownFixed64 n v # fs) = (number_ok n \<and> wire_ok d fs)"

section \<open>Reading back\<close>

lemma wire_type_bounds:
  "WIRETYPE_VARINT < 8" "WIRETYPE_FIXED32 < 8" "WIRETYPE_FIXED64 < 8" "WIRETYPE_LENGTH_DELIMITED < 8" "WIRETYPE_START_GROUP < 8"
  "WIRETYPE_END_GROUP < 8"
  by (simp_all add: wire_types)

lemma wire_type_distinct:
  "WIRETYPE_START_GROUP \<noteq> WIRETYPE_END_GROUP"
  "WIRETYPE_VARINT \<notin> {WIRETYPE_START_GROUP, WIRETYPE_END_GROUP}" "WIRETYPE_FIXED32 \<notin> {WIRETYPE_START_GROUP, WIRETYPE_END_GROUP}"
  "WIRETYPE_FIXED64 \<notin> {WIRETYPE_START_GROUP, WIRETYPE_END_GROUP}"
  "WIRETYPE_LENGTH_DELIMITED \<notin> {WIRETYPE_START_GROUP, WIRETYPE_END_GROUP}"
  by (simp_all add: wire_types)

lemma parse_tag: "parse_varint 10 (WriteTagToArray n w @ r) = VarintOk (unat (MakeTag n w)) r"
  by (simp add: WriteTagToArray_def varint_arrays parse_written)

lemma wire_message_written:
  assumes "number_ok n" "w < 8"
  shows "wire_message d (WriteTagToArray n w @ r) =
    (if w = WIRETYPE_END_GROUP then Some ([], End_tag (MakeTag n w), r)
     else if w = WIRETYPE_START_GROUP then
       if d = 0 then None
       else (case wire_message (d - 1) r of
           Some (g, End_tag t, q) \<Rightarrow>
             if t = MakeTag n WIRETYPE_END_GROUP
             then map_option (\<lambda>(fs, e, r). (UnknownGroup n g # fs, e, r)) (wire_message d q) else None
         | _ \<Rightarrow> None)
     else (case wire_scalar (MakeTag n w) r of
         None \<Rightarrow> None
       | Some (f, q) \<Rightarrow> map_option (\<lambda>(fs, e, r). (f # fs, e, r)) (wire_message d q)))"
proof -
  have n: "n \<noteq> 0" "n < 2 ^ 29" using assms(1) by (simp_all add: number_ok_def)
  note parts = MakeTag_parts [OF n(2) assms(2)]
  have t: "MakeTag n w \<noteq> 0" using parts(1) n(1) by (auto simp: GetTagFieldNumber_def)
  have ne: "WriteTagToArray n w @ r \<noteq> []" by (simp add: WriteTagToArray_def varint_arrays)
  have v: "MakeTag n w = of_nat (unat (MakeTag n w))" by simp
  show ?thesis using t n(1) by (simp only: wire_message_tag [OF ne parse_tag v] parts simp_thms if_False)
qed

lemma sint_small: "int k \<le> INT_MAX \<Longrightarrow> sint (of_nat k :: uint32) = int k"
  by (simp add: signed_of_nat signed_take_bit_int_eq_self)

lemma le_word_back: "(of_nat (le_nat (le_bytes 4 (unat v))) :: uint32) = v" "(of_nat (le_nat (le_bytes 8 (unat w))) :: uint64) = w"
  using unat_bound [of v] unat_bound [of w] by (simp_all add: le_nat_bytes)

lemma wire_scalar_written:
  assumes "number_ok n"
  shows "wire_scalar (MakeTag n WIRETYPE_VARINT) (WriteVarint64ToArray v @ r) = Some (UnknownVarint n v, r)"
    "wire_scalar (MakeTag n WIRETYPE_FIXED32) (le_bytes 4 (unat a) @ r) = Some (UnknownFixed32 n a, r)"
    "wire_scalar (MakeTag n WIRETYPE_FIXED64) (le_bytes 8 (unat b) @ r) = Some (UnknownFixed64 n b, r)"
    "int (length s) \<le> INT_MAX \<Longrightarrow>
      wire_scalar (MakeTag n WIRETYPE_LENGTH_DELIMITED) (WriteVarint32ToArray (of_nat (length s)) @ s @ r) = Some (UnknownLengthDelimited n s, r)"
proof -
  have n: "n \<noteq> 0" "n < 2 ^ 29" using assms by (simp_all add: number_ok_def)
  note parts = wire_type_bounds [THEN MakeTag_parts(1) [OF n(2)]] wire_type_bounds [THEN MakeTag_parts(2) [OF n(2)]]
  show "wire_scalar (MakeTag n WIRETYPE_VARINT) (WriteVarint64ToArray v @ r) = Some (UnknownVarint n v, r)"
    using n(1) by (simp add: wire_scalar_def parts varint_arrays parse_written)
  show "wire_scalar (MakeTag n WIRETYPE_FIXED32) (le_bytes 4 (unat a) @ r) = Some (UnknownFixed32 n a, r)"
    using n(1) by (simp add: wire_scalar_def parts le_word_back) (simp add: wire_types)
  show "wire_scalar (MakeTag n WIRETYPE_FIXED64) (le_bytes 8 (unat b) @ r) = Some (UnknownFixed64 n b, r)"
    using n(1) by (simp add: wire_scalar_def parts le_word_back) (simp add: wire_types)
  show "wire_scalar (MakeTag n WIRETYPE_LENGTH_DELIMITED) (WriteVarint32ToArray (of_nat (length s)) @ s @ r) = Some (UnknownLengthDelimited n s, r)"
    if "int (length s) \<le> INT_MAX"
  proof -
    have p: "parse_varint 10 (WriteVarint32ToArray (of_nat (length s)) @ s @ r) = VarintOk (unat (of_nat (length s) :: uint32)) (s @ r)"
      by (simp add: varint_arrays parse_written)
    show ?thesis using n(1) sint_small [OF that] by (simp add: wire_scalar_def parts p) (simp add: wire_types)
  qed
qed

lemma wire_message_bytes:
  "wire_ok d fs \<Longrightarrow> wire_message d (fields_bytes fs @ r) = map_option (\<lambda>(gs, e, q). (fs @ gs, e, q)) (wire_message d r)"
proof (induction fs arbitrary: d r rule: fields_bytes.induct)
  case 1
  then show ?case by (simp add: option.map_ident case_prod_beta')
next
  case (6 n g fs)
  then have n: "number_ok n" "d \<noteq> 0" "wire_ok (d - 1) g" "wire_ok d fs" by simp_all
  note w = wire_type_bounds(5,6) wire_type_distinct(1)
  let ?rest = "fields_bytes fs @ r"
  have "wire_message (d - 1) (fields_bytes g @ WriteTagToArray n WIRETYPE_END_GROUP @ ?rest) =
      Some (g, End_tag (MakeTag n WIRETYPE_END_GROUP), ?rest)"
    using 6(1) [OF n(3)] by (simp add: wire_message_written [OF n(1) w(2)])
  then show ?case
    using 6(2) [OF n(4)] n(2) w(3)
    by (simp add: wire_message_written [OF n(1) w(1)] option.map_comp comp_def case_prod_beta')
qed (use wire_type_distinct in \<open>simp_all add: wire_message_written wire_scalar_written wire_type_bounds option.map_comp comp_def case_prod_beta'\<close>)

text \<open>What the parser accepts, the wire can carry: nothing it returns is lost when it is written again.\<close>

lemma wire_scalar_ok:
  assumes "wire_scalar tag bs = Some (f, q)"
  shows "wire_ok d (f # fs) = wire_ok d fs"
proof -
  have n: "GetTagFieldNumber tag \<noteq> 0 \<Longrightarrow> number_ok (GetTagFieldNumber tag)" using tag_bounds(1) by (simp add: number_ok_def)
  have l: "length (take (nat (sint (w :: uint32))) p) \<le> 2147483647" for w and p :: "byte list"
  proof -
    have "length (take (nat (sint w)) p) \<le> nat (sint w)" by simp
    then show ?thesis using sint_lt [of w] by simp
  qed
  from assms show ?thesis
    by (simp only: wire_scalar_def Let_def split: if_splits varint_read.splits) (auto simp: n intro: l simp del: length_take)
qed

lemma wire_message_ok: "wire_message d bs = Some (fs, e, r) \<Longrightarrow> wire_ok d fs"
proof (induction "length bs" arbitrary: d bs fs e r rule: less_induct)
  case less
  show ?case
  proof (cases "bs = []")
    case False
    show ?thesis
    proof (cases "parse_varint 10 bs")
      case (VarintOk v p)
      define tag :: uint32 where "tag = of_nat v"
      define n where "n = GetTagFieldNumber tag"
      note W = wire_message_tag [OF False VarintOk tag_def, of d]
      note p = parse_varint_shorter [OF VarintOk]
      have n: "number_ok n" if "n \<noteq> 0" using that tag_bounds(1) by (simp add: number_ok_def n_def)
      consider "tag = 0 \<or> GetTagWireType tag = WIRETYPE_END_GROUP"
        | "\<not> (tag = 0 \<or> GetTagWireType tag = WIRETYPE_END_GROUP)" "GetTagWireType tag = WIRETYPE_START_GROUP"
        | "\<not> (tag = 0 \<or> GetTagWireType tag = WIRETYPE_END_GROUP)" "GetTagWireType tag \<noteq> WIRETYPE_START_GROUP" by blast
      then show ?thesis
      proof cases
        case 1
        with less.prems W show ?thesis by simp
      next
        case 2
        from less.prems have "n \<noteq> 0" "d \<noteq> 0" using 2 unfolding W n_def by (simp_all split: if_splits)
        from less.prems obtain g t q fs' where g: "wire_message (d - 1) p = Some (g, End_tag t, q)" "wire_message d q = Some (fs', e, r)"
          "fs = UnknownGroup n g # fs'"
          using 2 unfolding W n_def by (auto split: if_splits option.splits wire_end.splits)
        have "length q < length bs" using wire_message_shorter [OF g(1)] p by simp
        with less.hyps [OF p g(1)] less.hyps [OF _ g(2)] n \<open>n \<noteq> 0\<close> \<open>d \<noteq> 0\<close> g(3) show ?thesis by simp
      next
        case 3
        from less.prems obtain f q fs' where f: "wire_scalar tag p = Some (f, q)" "wire_message d q = Some (fs', e, r)" "fs = f # fs'"
          using 3 unfolding W by (auto split: option.splits)
        have "length q < length bs" using wire_scalar_shorter [OF f(1)] p by simp
        with less.hyps [OF _ f(2)] f(3) wire_scalar_ok [OF f(1)] show ?thesis by simp
      qed
    qed (use less.prems False in \<open>simp_all add: wire_message_bad\<close>)
  qed (use less.prems in simp)
qed

section \<open>Writing\<close>

lemma field_array:
  "WriteFieldToArray TYPE_UINT64 n (Word64 v) = Some (WriteTagToArray n WIRETYPE_VARINT @ WriteVarint64ToArray v)"
  "WriteFieldToArray TYPE_FIXED32 n (Word32 a) = Some (WriteTagToArray n WIRETYPE_FIXED32 @ le_bytes 4 (unat a))"
  "WriteFieldToArray TYPE_FIXED64 n (Word64 b) = Some (WriteTagToArray n WIRETYPE_FIXED64 @ le_bytes 8 (unat b))"
  by (simp_all add: WriteFieldToArray_def LittleEndian32_bytes LittleEndian64_bytes)

lemma tag_length: "length (WriteTagToArray n w) \<le> 5"
  using length_UnsafeVarint32 [of "MakeTag n w"] by (simp add: WriteTagToArray_def WriteVarint32ToArray_def)

lemma delim_bytes: "delim n k = WriteTagToArray n WIRETYPE_LENGTH_DELIMITED @ WriteVarint32ToArray k"
  by (simp add: delim_def WriteTagToArray_def WriteVarint32ToArray_def MakeTag_def wire_types UnsafeVarint_bytes UnsafeWriteSize_bytes)

context zero_copy_output
begin

text \<open>Writing without a check, in the room there is: several writes are one.\<close>

definition fits :: "(pointer \<Rightarrow> 's EpsCopyOutputStream \<Rightarrow> (pointer \<times> 's EpsCopyOutputStream) option) \<Rightarrow> byte list \<Rightarrow> bool" where
  "fits f d \<longleftrightarrow> (\<forall>p e r. e_ok p e \<longrightarrow> ptr_diff (end_ptr e) p = Some r \<longrightarrow> int (length d) \<le> r + 16 \<longrightarrow>
     (\<exists>q e'. f p e = Some (q, e') \<and> e_step d p e q e' \<and> ptr_diff (end_ptr e') q = Some (r - int (length d))))"

lemma put_fits: "fits (put_bytes ops d) d"
  unfolding fits_def
proof (intro allI impI)
  fix p e r
  assume "e_ok p e" "ptr_diff (end_ptr e) p = Some r" "int (length d) \<le> r + 16"
  then show "\<exists>q e'. put_bytes ops d p e = Some (q, e') \<and> e_step d p e q e' \<and> ptr_diff (end_ptr e') q = Some (r - int (length d))"
    by (rule put_bytes_spec) blast
qed

lemma fits_seq:
  assumes "fits f d" "fits g d1"
  shows "fits (\<lambda>p e. do { (p, e) \<leftarrow> f p e; g p e }) (d @ d1)"
  unfolding fits_def
proof (intro allI impI)
  fix p e r
  assume a: "e_ok p e" "ptr_diff (end_ptr e) p = Some r" "int (length (d @ d1)) \<le> r + 16"
  then obtain q e' where f: "f p e = Some (q, e')" "e_step d p e q e'" "ptr_diff (end_ptr e') q = Some (r - int (length d))"
    using assms(1) unfolding fits_def by fastforce
  have "int (length d1) \<le> r - int (length d) + 16" using a(3) by simp
  with assms(2) eps_step_ok [OF f(2)] f(3) obtain q2 e2 where
    g: "g q e' = Some (q2, e2)" "e_step d1 q e' q2 e2" "ptr_diff (end_ptr e2) q2 = Some (r - int (length d) - int (length d1))"
    unfolding fits_def by blast
  from f(1) g(1,3) eps_step_trans [OF f(2) g(2)]
  show "\<exists>q e'. (do { (p, e) \<leftarrow> f p e; g p e }) = Some (q, e') \<and> e_step (d @ d1) p e q e' \<and>
      ptr_diff (end_ptr e') q = Some (r - int (length (d @ d1)))" by (simp add: algebra_simps)
qed

lemma checked_fits:
  assumes "fits f d" "length d \<le> 16"
  shows "appends (\<lambda>p e. do { (p, e) \<leftarrow> EnsureSpace ops p e; f p e }) d"
proof (rule appendsI)
  fix p e
  assume "e_ok p e"
  then obtain q e1 r where n: "EnsureSpace ops p e = Some (q, e1)" "e_step [] p e q e1" "ptr_diff (end_ptr e1) q = Some r" "0 \<le> r"
    by (rule EnsureSpace_spec)
  have "int (length d) \<le> r + 16" using assms(2) n(4) by linarith
  with assms(1) eps_step_ok [OF n(2)] n(3) obtain q2 e2 where "f q e1 = Some (q2, e2)" "e_step d q e1 q2 e2"
    unfolding fits_def by blast
  with n(1) eps_step_nil [OF n(2)] show "\<exists>q e'. (do { (p, e) \<leftarrow> EnsureSpace ops p e; f p e }) = Some (q, e') \<and> e_step d p e q e'"
    by fastforce
qed

lemma checked_block:
  assumes "fits f d" "length d \<le> 16" "appends g d1"
  shows "appends (\<lambda>p e. do { (p, e) \<leftarrow> EnsureSpace ops p e; (p, e) \<leftarrow> f p e; g p e }) (d @ d1)"
  using appends_seq [OF checked_fits [OF assms(1,2)] assms(3)] by (simp add: case_prod_beta' Option.bind_assoc)

lemma serialize_appends: "appends (InternalSerializeUnknownFieldsToArray ops fs) (fields_bytes fs)"
proof (induction fs rule: fields_bytes.induct)
  case 1
  show ?case by (rule appendsI) (auto intro: eps_step_refl)
next
  case (2 n v fs)
  have "length (WriteTagToArray n WIRETYPE_VARINT @ WriteVarint64ToArray v) \<le> 16"
    using tag_length [of n WIRETYPE_VARINT] length_UnsafeVarint64 [of v] by (simp add: WriteVarint64ToArray_def)
  from checked_block [OF put_fits this 2] show ?case by (simp add: field_array)
next
  case (3 n v fs)
  have "length (WriteTagToArray n WIRETYPE_FIXED32 @ le_bytes 4 (unat v)) \<le> 16"
    using tag_length [of n WIRETYPE_FIXED32] by simp
  from checked_block [OF put_fits this 3] show ?case by (simp add: field_array)
next
  case (4 n v fs)
  have "length (WriteTagToArray n WIRETYPE_FIXED64 @ le_bytes 8 (unat v)) \<le> 16"
    using tag_length [of n WIRETYPE_FIXED64] by simp
  from checked_block [OF put_fits this 4] show ?case by (simp add: field_array)
next
  case (5 n s fs)
  from appends_seq [OF EnsureSpace_appends appends_seq [OF Eps_WriteString_appends 5]] show ?case by (simp add: delim_bytes)
next
  case (6 n g fs)
  have t: "length (WriteTagToArray n w) \<le> 16" for w using tag_length [of n w] by simp
  from checked_block [OF put_fits t appends_seq [OF 6(1) checked_block [OF put_fits t 6(2)]]] show ?case by simp
qed

end

text \<open>The items of a message set.\<close>

fun item_bytes :: "UnknownFieldSet \<Rightarrow> byte list" where
  "item_bytes [] = []"
| "item_bytes (UnknownLengthDelimited n s # fs) =
     WriteVarint32ToArray kMessageSetItemStartTag @ WriteVarint32ToArray kMessageSetTypeIdTag @ WriteVarint32ToArray n @
     WriteVarint32ToArray kMessageSetMessageTag @ WriteVarint32ToArray (of_nat (length s)) @ s @
     WriteVarint32ToArray kMessageSetItemEndTag @ item_bytes fs"
| "item_bytes (_ # fs) = item_bytes fs"

lemma item_tags:
  "WriteVarint32ToArray kMessageSetItemStartTag = [0x0B]" "WriteVarint32ToArray kMessageSetItemEndTag = [0x0C]"
  "WriteVarint32ToArray kMessageSetTypeIdTag = [0x10]" "WriteVarint32ToArray kMessageSetMessageTag = [0x1A]"
  by code_simp+

context zero_copy_output
begin

lemma items_append: "appends (InternalSerializeUnknownMessageSetItemsToArray ops fs) (item_bytes fs)"
proof (induction fs rule: item_bytes.induct)
  case 1
  show ?case by (rule appendsI) (auto intro: eps_step_refl)
next
  case (2 n s fs)
  let ?head = "[0x0B] @ [0x10] @ WriteVarint32ToArray n @ [0x1A] @ WriteVarint32ToArray (of_nat (length s))"
  have "length ?head \<le> 16"
    using length_UnsafeVarint32 [of n] length_UnsafeVarint32 [of "of_nat (length s)"] by (simp add: WriteVarint32ToArray_def)
  note head = checked_block [OF fits_seq [OF put_fits fits_seq [OF put_fits fits_seq [OF put_fits fits_seq [OF put_fits put_fits]]]] this]
  have "length [0x0C :: byte] \<le> 16" by simp
  from head [OF appends_seq [OF WriteRaw_appends checked_block [OF put_fits this 2]]] show ?case
    by (simp add: item_tags InternalSerializeLengthDelimitedNoTag_def case_prod_beta' Option.bind_assoc)
qed simp_all

end

section \<open>Sizes\<close>

lemma ComputeUnknownFieldsSize_bytes: "ComputeUnknownFieldsSize fs = of_nat (length (fields_bytes fs))"
  by (induction fs rule: fields_bytes.induct)
     (simp_all add: WriteTagToArray_def varint_arrays VarintSize32_length VarintSize64_length)

text \<open>For a message set the length goes through an \<open>int\<close>.\<close>

fun lengths_ok :: "UnknownFieldSet \<Rightarrow> bool" where
  "lengths_ok [] = True"
| "lengths_ok (UnknownLengthDelimited n s # fs) = (int (length s) \<le> INT_MAX \<and> lengths_ok fs)"
| "lengths_ok (_ # fs) = lengths_ok fs"

lemma scast_small: "int k \<le> INT_MAX \<Longrightarrow> (scast (of_nat k :: uint32) :: uint64) = of_nat k"
  using sint_small [of k] by (metis of_int_of_nat_eq of_int_sint scast_eq)

lemma item_sizes: "kMessageSetItemTagsSize = 4"
  by code_simp

lemma ComputeUnknownMessageSetItemsSize_bytes: "lengths_ok fs \<Longrightarrow> ComputeUnknownMessageSetItemsSize fs = of_nat (length (item_bytes fs))"
proof (induction fs rule: item_bytes.induct)
  case (2 n s fs)
  then have "ComputeUnknownMessageSetItemsSize fs = of_nat (length (item_bytes fs))" "(scast (of_nat (length s) :: uint32) :: uint64) = of_nat (length s)"
    by (simp_all add: scast_small)
  then show ?case by (simp add: item_tags item_sizes VarintSize32_length) (simp add: varint_arrays)
qed simp_all

section \<open>Writing into an array\<close>

text \<open>Without a stream below, the array ends where the announced size ends. A writer that stays within it appends in
  place, and meets no error.\<close>

definition flat_appends ::
    "(pointer \<Rightarrow> 's EpsCopyOutputStream \<Rightarrow> (pointer \<times> 's EpsCopyOutputStream) option) \<Rightarrow> byte list \<Rightarrow> bool" where
  "flat_appends f d \<longleftrightarrow> (\<forall>e i n. eps_stream e = None \<longrightarrow> end_ptr e = Chunk (int n) \<longrightarrow> i + length d \<le> n \<longrightarrow>
     n \<le> length (flat_array e) \<longrightarrow>
     f (Chunk (int i)) e = Some (Chunk (int (i + length d)), e\<lparr>flat_array := overwrite i d (flat_array e)\<rparr>))"

lemma overwrite_twice:
  "i + length d + length d1 \<le> length m \<Longrightarrow> overwrite (i + length d) d1 (overwrite i d m) = overwrite i (d @ d1) m"
  by (simp add: overwrite_def ac_simps)

lemma flat_put: "flat_appends (put_bytes ops d) d" for ops :: "'s ZeroCopyOutputStream"
  unfolding flat_appends_def
proof (intro allI impI)
  fix e :: "'s EpsCopyOutputStream" and i n
  assume "eps_stream e = None" "end_ptr e = Chunk (int n)" "i + length d \<le> n" "n \<le> length (flat_array e)"
  then show "put_bytes ops d (Chunk (int i)) e = Some (Chunk (int (i + length d)), e\<lparr>flat_array := overwrite i d (flat_array e)\<rparr>)"
    by (cases "d = []") (simp_all add: put_bytes_def write_mem_def)
qed

lemma flat_appendsD:
  assumes "flat_appends f d" "eps_stream e = None" "end_ptr e = Chunk (int n)" "i + length d \<le> n" "n \<le> length (flat_array e)"
  shows "f (Chunk (int i)) e = Some (Chunk (int (i + length d)), e\<lparr>flat_array := overwrite i d (flat_array e)\<rparr>)"
  using assms unfolding flat_appends_def by blast

lemma flat_seq:
  fixes f g :: "pointer \<Rightarrow> 's EpsCopyOutputStream \<Rightarrow> (pointer \<times> 's EpsCopyOutputStream) option"
  assumes "flat_appends f d" "flat_appends g d1"
  shows "flat_appends (\<lambda>p e. do { (p, e) \<leftarrow> f p e; g p e }) (d @ d1)"
  unfolding flat_appends_def
proof (intro allI impI)
  fix e :: "'s EpsCopyOutputStream" and i n
  assume a: "eps_stream e = None" "end_ptr e = Chunk (int n)" "i + length (d @ d1) \<le> n" "n \<le> length (flat_array e)"
  let ?e = "e\<lparr>flat_array := overwrite i d (flat_array e)\<rparr>"
  have f: "f (Chunk (int i)) e = Some (Chunk (int (i + length d)), ?e)"
    by (rule flat_appendsD [OF assms(1) a(1,2) _ a(4)]) (use a(3) in simp)
  have g: "g (Chunk (int (i + length d))) ?e =
      Some (Chunk (int (i + length d + length d1)), ?e\<lparr>flat_array := overwrite (i + length d) d1 (flat_array ?e)\<rparr>)"
    by (rule flat_appendsD [OF assms(2), of _ n]) (use a in simp_all)
  show "(do { (p, e) \<leftarrow> f (Chunk (int i)) e; g p e }) =
      Some (Chunk (int (i + length (d @ d1))), e\<lparr>flat_array := overwrite i (d @ d1) (flat_array e)\<rparr>)"
    using f g a by (simp add: overwrite_twice add.assoc)
qed

text \<open>The check for space does nothing while a byte of the array is left.\<close>

lemma flat_space: "end_ptr e = Chunk (int n) \<Longrightarrow> i < n \<Longrightarrow> EnsureSpace ops (Chunk (int i)) e = Some (Chunk (int i), e)"
  by (simp add: EnsureSpace_def)

lemma flat_checked:
  fixes f :: "pointer \<Rightarrow> 's EpsCopyOutputStream \<Rightarrow> (pointer \<times> 's EpsCopyOutputStream) option"
  assumes "flat_appends f d" "d \<noteq> []"
  shows "flat_appends (\<lambda>p e. do { (p, e) \<leftarrow> EnsureSpace ops p e; f p e }) d"
  unfolding flat_appends_def
proof (intro allI impI)
  fix e :: "'s EpsCopyOutputStream" and i n
  assume a: "eps_stream e = None" "end_ptr e = Chunk (int n)" "i + length d \<le> n" "n \<le> length (flat_array e)"
  have "i < n" using a(3) assms(2) by (cases d) simp_all
  with flat_appendsD [OF assms(1) a] flat_space [OF a(2)] show "(do { (p, e) \<leftarrow> EnsureSpace ops (Chunk (int i)) e; f p e }) =
      Some (Chunk (int (i + length d)), e\<lparr>flat_array := overwrite i d (flat_array e)\<rparr>)" by simp
qed

lemma flat_raw: "flat_appends (WriteRaw ops d) d" for ops :: "'s ZeroCopyOutputStream"
  unfolding flat_appends_def
proof (intro allI impI)
  fix e :: "'s EpsCopyOutputStream" and i n
  assume a: "eps_stream e = None" "end_ptr e = Chunk (int n)" "i + length d \<le> n" "n \<le> length (flat_array e)"
  then show "WriteRaw ops d (Chunk (int i)) e = Some (Chunk (int (i + length d)), e\<lparr>flat_array := overwrite i d (flat_array e)\<rparr>)"
    using flat_appendsD [OF flat_put a] by (simp add: WriteRaw_def)
qed

lemma flat_outline: "flat_appends (WriteStringOutline ops num s) (delim num (of_nat (length s)) @ s)"
proof -
  have d: "delim num (of_nat (length s)) @ s \<noteq> []" by (simp add: delim_bytes WriteTagToArray_def varint_arrays)
  from flat_checked [OF flat_seq [OF flat_seq [OF flat_put flat_put] flat_raw], of "UnsafeVarint (push_bit 3 num OR 2)" "UnsafeWriteSize (of_nat (length s))" s]
  show ?thesis using d
    by (simp add: WriteStringOutline_def [abs_def] WriteLengthDelim_def Eps_WriteTag_def delim_def case_prod_beta' Option.bind_assoc)
qed

lemma flat_string: "flat_appends (Eps_WriteString ops num s) (delim num (of_nat (length s)) @ s)" for ops :: "'s ZeroCopyOutputStream"
  unfolding flat_appends_def
proof (intro allI impI)
  fix e :: "'s EpsCopyOutputStream" and i n
  assume a: "eps_stream e = None" "end_ptr e = Chunk (int n)" "i + length (delim num (of_nat (length s)) @ s) \<le> n" "n \<le> length (flat_array e)"
  show "Eps_WriteString ops num s (Chunk (int i)) e = Some (Chunk (int (i + length (delim num (of_nat (length s)) @ s))),
      e\<lparr>flat_array := overwrite i (delim num (of_nat (length s)) @ s) (flat_array e)\<rparr>)"
  proof (cases "length s < 128")
    case True
    have "flat_appends (write_short_string ops num s) (UnsafeVarint (push_bit 3 num OR 2) @ [of_nat (length s)] @ s)"
      using flat_seq [OF flat_put [of ops] flat_seq [OF flat_put [of ops] flat_put [of ops]]] by (simp only: write_short_string_def [abs_def])
    then have "flat_appends (write_short_string ops num s) (delim num (of_nat (length s)) @ s)" by (simp add: short_delim [OF True])
    from flat_appendsD [OF this a] flat_appendsD [OF flat_outline a] a(2) True show ?thesis by (simp add: Eps_WriteString_def)
  next
    case False
    with flat_appendsD [OF flat_outline a] a(2) show ?thesis by (simp add: Eps_WriteString_def)
  qed
qed

lemma flat_block:
  assumes "flat_appends f d" "d \<noteq> []" "flat_appends g d1"
  shows "flat_appends (\<lambda>p e. do { (p, e) \<leftarrow> EnsureSpace ops p e; (p, e) \<leftarrow> f p e; g p e }) (d @ d1)"
  using flat_seq [OF flat_checked [OF assms(1,2)] assms(3)] by (simp add: case_prod_beta' Option.bind_assoc)

lemma flat_nothing: "flat_appends (\<lambda>p e. Some (p, e)) []"
  by (simp add: flat_appends_def)

lemma tag_nonempty: "WriteTagToArray n w \<noteq> []"
  by (simp add: WriteTagToArray_def varint_arrays)

lemma flat_serialize: "flat_appends (InternalSerializeUnknownFieldsToArray ops fs) (fields_bytes fs)"
proof (induction fs rule: fields_bytes.induct)
  case 1
  show ?case using flat_nothing by simp
next
  case (2 n v fs)
  have "WriteTagToArray n WIRETYPE_VARINT @ WriteVarint64ToArray v \<noteq> []" by (simp add: tag_nonempty)
  from flat_block [OF flat_put this 2] show ?case by (simp add: field_array)
next
  case (3 n v fs)
  have "WriteTagToArray n WIRETYPE_FIXED32 @ le_bytes 4 (unat v) \<noteq> []" by (simp add: tag_nonempty)
  from flat_block [OF flat_put this 3] show ?case by (simp add: field_array)
next
  case (4 n v fs)
  have "WriteTagToArray n WIRETYPE_FIXED64 @ le_bytes 8 (unat v) \<noteq> []" by (simp add: tag_nonempty)
  from flat_block [OF flat_put this 4] show ?case by (simp add: field_array)
next
  case (5 n s fs)
  have "delim n (of_nat (length s)) @ s \<noteq> []" by (simp add: delim_bytes tag_nonempty)
  from flat_block [OF flat_string this 5] show ?case by (simp add: delim_bytes)
next
  case (6 n g fs)
  from flat_block [OF flat_put tag_nonempty flat_seq [OF 6(1) flat_block [OF flat_put tag_nonempty 6(2)]]] show ?case by simp
qed

section \<open>Editing a set\<close>

lemma DeepCopy_id [simp]: "DeepCopy f = f"
  by (induction f rule: DeepCopy.induct) (simp_all add: map_idI)

lemma MergeFrom_append: "MergeFrom other fs = fs @ other"
proof (induction other arbitrary: fs)
  case (Cons f other)
  then show ?case by (simp add: MergeFrom_def AddField_def)
qed (simp add: MergeFrom_def)

lemma MergeFromAndDestroy_append: "MergeFromAndDestroy other fs = (fs @ other, [])"
  by (simp add: MergeFromAndDestroy_def)

text \<open>Sliding down: the first \<open>i\<close> elements, with those from \<open>i\<close> on moved \<open>n\<close> places to the front.\<close>

lemma slide_down_length [simp]: "length (slide_down k i n fs) = length fs"
  by (induction k i n fs rule: slide_down.induct) simp_all

lemma slide_down_take:
  "0 < n \<Longrightarrow> n \<le> i \<Longrightarrow> i + k = length fs \<Longrightarrow> take (length fs - n) (slide_down k i n fs) = take (i - n) fs @ drop i fs"
proof (induction k i n fs rule: slide_down.induct)
  case (2 k i n fs)
  let ?fs = "fs[i - n := fs ! i]"
  have i: "i < length fs" "i - n < length fs" using 2(2-4) by simp_all
  have "take (length ?fs - n) (slide_down k (Suc i) n ?fs) = take (Suc i - n) ?fs @ drop (Suc i) ?fs"
    by (rule 2(1)) (use 2(2-4) in simp_all)
  moreover have "take (Suc i - n) ?fs = take (i - n) fs @ [fs ! i]"
    using 2(3) i by (simp add: Suc_diff_le take_Suc_conv_app_nth)
  moreover have "drop (Suc i) ?fs = drop (Suc i) fs" using 2(2,3) by simp
  ultimately show ?case using i by (simp add: Cons_nth_drop_Suc)
qed simp

lemma DeleteSubrange_exact:
  "0 \<le> start \<Longrightarrow> 0 \<le> num \<Longrightarrow> start + num \<le> int (length fs) \<Longrightarrow>
    DeleteSubrange start num fs = Some (take (nat start) fs @ drop (nat (start + num)) fs)"
  using slide_down_take [of "nat num" "nat (start + num)" "length fs - nat (start + num)" fs]
  by (auto simp: DeleteSubrange_def Let_def nat_add_distrib)

text \<open>The loop that deletes by number: what it has seen is filtered, what is to come is as it was.\<close>

lemma delete_loop_spec:
  assumes "i + k = length fs" "left \<le> i"
  shows "\<exists>l gs. delete_loop k n i left fs = (l, gs) \<and> take l gs = take left fs @ filter (\<lambda>f. number f \<noteq> n) (drop i fs) \<and> l \<le> length gs"
  using assms
proof (induction k n i left fs rule: delete_loop.induct)
  case (1 n i left fs)
  then show ?case by simp
next
  case (2 k n i left fs)
  have i: "i < length fs" using 2(3) by simp
  have d: "drop i fs = fs ! i # drop (Suc i) fs" using i by (simp add: Cons_nth_drop_Suc)
  show ?case
  proof (cases "number (fs ! i) = n")
    case True
    with 2(1) [OF True] 2(3,4) d show ?thesis by simp
  next
    case False
    let ?fs = "if i \<noteq> left then fs[left := fs ! i] else fs"
    have "take (Suc left) ?fs = take left fs @ [fs ! i]" using 2(4) i by (auto simp: take_Suc_conv_app_nth)
    moreover have "drop (Suc i) ?fs = drop (Suc i) fs" using 2(4) by simp
    moreover have "Suc i + k = length ?fs" "Suc left \<le> Suc i" using 2(3,4) by simp_all
    ultimately show ?thesis using 2(2) [OF False] False d by simp
  qed
qed

lemma DeleteByNumber_filter: "DeleteByNumber n fs = filter (\<lambda>f. number f \<noteq> n) fs"
  using delete_loop_spec [of 0 "length fs" fs 0 n] by (auto simp: DeleteByNumber_def)

end
