(* ===== verification/Skip_Variants.thy ===== *)
theory Skip_Variants
  imports Unknown_Roundtrip
begin

text \<open>
  The two skippers of wire_format_lite.cc against the one of wire_format.cc: without a set of unknown fields it is the
  same function, and the one that copies what it skips writes exactly the bytes of the set that the other would have
  collected.
\<close>

section \<open>Skipping without a set\<close>

text \<open>\<open>m\<close> and \<open>k\<close> stand for the calls of \<open>SkipMessage\<close>.\<close>

lemma SkipField_null:
  assumes "\<And>c b c' u'. m c None = Some (b, c', u') \<Longrightarrow> u' = None \<and> k c = Some (b, c')"
    and "WireFormat_SkipField_with m ops tag c None = Some (b, c', u')"
  shows "u' = None \<and> SkipField_with k ops tag c = Some (b, c')"
proof -
  let ?n = "GetTagFieldNumber tag" and ?t = "GetTagWireType tag"
  note defs = WireFormat_SkipField_with_def SkipField_with_def Let_def
  consider "?n = 0" | "?n \<noteq> 0" "?t = WIRETYPE_VARINT" | "?n \<noteq> 0" "?t = WIRETYPE_FIXED64" | "?n \<noteq> 0" "?t = WIRETYPE_LENGTH_DELIMITED"
    | "?n \<noteq> 0" "?t = WIRETYPE_START_GROUP" | "?n \<noteq> 0" "?t = WIRETYPE_FIXED32"
    | "?n \<noteq> 0" "?t \<notin> {WIRETYPE_VARINT, WIRETYPE_FIXED64, WIRETYPE_LENGTH_DELIMITED, WIRETYPE_START_GROUP, WIRETYPE_FIXED32}"
    by blast
  then show ?thesis
  proof cases
    case 2
    with assms(2) show ?thesis by (auto simp: defs split: bind_splits option.splits)
  next
    case 3
    with assms(2) show ?thesis by (auto simp: defs wire_types split: bind_splits option.splits)
  next
    case 4
    with assms(2) show ?thesis by (auto simp: defs wire_types split: bind_splits option.splits)
  next
    case 5
    obtain b1 c1 where inc: "IncrementRecursionDepth c = (b1, c1)" by (cases "IncrementRecursionDepth c")
    show ?thesis
    proof (cases b1)
      case True
      with assms(2) 5 inc obtain b2 c2 u2 where m: "m c1 None = Some (b2, c2, u2)" by (auto simp: defs wire_types split: bind_splits)
      from assms(1) [OF this] assms(2) 5 inc True m show ?thesis by (auto simp: defs wire_types split: if_splits)
    qed (use assms(2) 5 inc in \<open>simp add: defs wire_types\<close>)
  next
    case 6
    with assms(2) show ?thesis by (auto simp: defs wire_types split: bind_splits option.splits)
  qed (use assms(2) in \<open>simp_all add: defs split: if_splits\<close>)
qed

lemmas skip_message_induct = WireFormat_SkipMessage.raw_induct [rotated, consumes 1, case_names step]

lemma SkipMessage_null:
  "WireFormat_SkipMessage ops c u = Some y \<Longrightarrow> u = None \<Longrightarrow> (case y of (b, c', u') \<Rightarrow> u' = None \<and> SkipMessage ops c = Some (b, c'))"
proof (induction rule: skip_message_induct)
  case (step rec ops c u y)
  have field: "u' = None \<and> SkipField_with (SkipMessage ops) ops tag c1 = Some (b, c')"
    if "WireFormat_SkipField_with (rec ops) ops tag c1 None = Some (b, c', u')" for tag c1 b c' u'
  proof (rule SkipField_null [OF _ that])
    fix c2 b2 c3 u3
    assume "rec ops c2 None = Some (b2, c3, u3)"
    from step(1) [OF this refl] show "u3 = None \<and> SkipMessage ops c2 = Some (b2, c3)" by simp
  qed
  from step(2) obtain tag c1 where t: "ReadTag ops c = Some (tag, c1)" by (auto split: bind_splits)
  show ?case
  proof (cases "tag = 0 \<or> GetTagWireType tag = WIRETYPE_END_GROUP")
    case True
    with step(2,3) t show ?thesis by (subst SkipMessage.simps) (auto split: if_splits)
  next
    case False
    with step(2,3) t obtain b2 c2 u2 where f: "WireFormat_SkipField_with (rec ops) ops tag c1 None = Some (b2, c2, u2)"
      and y: "(if b2 then rec ops c2 u2 else Some (False, c2, u2)) = Some y" by (auto split: bind_splits)
    note f' = field [OF f]
    show ?thesis
    proof (cases b2)
      case True
      with y f' have "rec ops c2 None = Some y" by simp
      from step(1) [OF this refl] True False t f' show ?thesis by (subst SkipMessage.simps) auto
    next
      case stop: False
      with y False t f' show ?thesis by (subst SkipMessage.simps) auto
    qed
  qed
qed

section \<open>Copying what is skipped\<close>

lemma fields_bytes_append: "fields_bytes (fs @ gs) = fields_bytes fs @ fields_bytes gs"
  by (induction fs rule: fields_bytes.induct) simp_all

locale copying_skipper =
  inp: zero_copy_input iops iok rest given iidle + out: steady_output os ok sound written chunk idle
  for iops :: "'s ZeroCopyInputStream" and iok :: "'s \<Rightarrow> bool" and rest :: "'s \<Rightarrow> byte list" and given :: "'s \<Rightarrow> byte list"
    and iidle :: "'s \<Rightarrow> nat" and os :: "'t ZeroCopyOutputStream" and ok :: "'t \<Rightarrow> bool" and sound :: "'t \<Rightarrow> bool"
    and written :: "'t \<Rightarrow> byte list" and chunk :: "'t \<Rightarrow> nat \<Rightarrow> nat \<Rightarrow> bool" and idle :: "'t \<Rightarrow> nat"
begin

text \<open>The tag that ended a message; it is copied when it ends a group.\<close>

definition end_bytes :: "'s CodedInputStream \<Rightarrow> byte list" where
  "end_bytes c = (if last_tag c = 0 then [] else WriteVarint32ToArray (last_tag c))"

text \<open>The copy \<open>r\<close> of a skip that returned \<open>b\<close> and added \<open>fs\<close>: the same, and on success the bytes.\<close>

definition copied :: "bool \<Rightarrow> 's CodedInputStream \<Rightarrow> byte list \<Rightarrow> 't CodedOutputStream \<Rightarrow>
    (bool \<times> 's CodedInputStream \<times> 't CodedOutputStream) option \<Rightarrow> bool" where
  "copied b c d o1 r \<longleftrightarrow> (\<exists>o2 e. r = Some (b, c, o2) \<and> out.out_step e o1 o2 \<and> (b \<longrightarrow> e = d))"

lemma copied_ok: "copied b c d o1 (Some (b', c', o2)) \<Longrightarrow> out.out_ok o2"
  by (auto simp: copied_def out.out_step_def)

lemma put_varint:
  assumes "out.out_ok o1"
  obtains o2 where "Coded_WriteVarint32 os v o1 = Some o2" "out.out_step (WriteVarint32ToArray v) o1 o2" "out.out_ok o2"
proof -
  obtain o2 where "write_op os (Put_varint32 v) o1 = Some o2" "out.out_step (op_bytes (Put_varint32 v)) o1 o2"
    using out.write_op_step [OF assms, of "Put_varint32 v"] by auto
  then show thesis by (intro that [of o2]) (simp_all add: varint_arrays out.out_step_def)
qed

lemma put_value:
  assumes "out.out_ok o1"
  shows "\<exists>o2. Coded_WriteVarint64 os v o1 = Some o2 \<and> out.out_step (WriteVarint64ToArray v) o1 o2"
    "\<exists>o2. Coded_WriteLittleEndian64 os v o1 = Some o2 \<and> out.out_step (le_bytes 8 (unat v)) o1 o2"
    "\<exists>o2. Coded_WriteLittleEndian32 os w o1 = Some o2 \<and> out.out_step (le_bytes 4 (unat w)) o1 o2"
    "\<exists>o2. Coded_WriteString os s o1 = Some o2 \<and> out.out_step s o1 o2"
  using out.write_op_step [OF assms, of "Put_varint64 v"] out.write_op_step [OF assms, of "Put_fixed32 w"]
    out.write_op_step [OF assms, of "Put_fixed64 v"] out.write_op_step [OF assms, of "Put_string s"] by (simp_all add: varint_arrays)

lemma tag_bytes: "WriteTagToArray (GetTagFieldNumber tag) (GetTagWireType tag) = WriteVarint32ToArray tag"
  by (simp add: WriteTagToArray_def MakeTag_of_parts)

lemma tag_value:
  assumes "out.out_ok o1" "\<And>o2. out.out_ok o2 \<Longrightarrow> \<exists>o3. write o2 = Some o3 \<and> out.out_step d o2 o3"
  obtains o2 o3 where "Coded_WriteVarint32 os v o1 = Some o2" "write o2 = Some o3" "out.out_step (WriteVarint32ToArray v @ d) o1 o3"
proof -
  obtain o2 where o2: "Coded_WriteVarint32 os v o1 = Some o2" "out.out_step (WriteVarint32ToArray v) o1 o2" "out.out_ok o2"
    by (rule put_varint [OF assms(1)])
  obtain o3 where "write o2 = Some o3" "out.out_step d o2 o3" using assms(2) [OF o2(3)] by blast
  with o2 show thesis by (intro that [of o2 o3]) (simp_all add: out.out_step_trans)
qed

lemma copied_field: "out.out_step d o1 o2 \<Longrightarrow> copied True c d o1 (Some (True, c, o2))"
  by (auto simp: copied_def)

lemma copied_refl: "out.out_ok o1 \<Longrightarrow> copied False c d o1 (Some (False, c, o1))"
  using out.out_step_refl [of o1] by (auto simp: copied_def)

lemma word_of_size: "of_nat (nat (sint n)) = n" if size: "0 \<le> sint n" for n :: uint32
proof -
  obtain k where k: "sint n = int k" by (rule nonneg_int_cases [OF size])
  have "n = of_int (sint n)" by (simp only: of_int_sint scast_id)
  also have "\<dots> = of_nat k" by (simp only: k of_int_of_nat_eq)
  finally have "n = of_nat k" .
  then show ?thesis unfolding k by simp
qed

lemma copy_varint:
  assumes "WireFormat_SkipField_with m iops tag c (Some gs) = Some (b, c', u')" "inp.ci_ok c" "out.out_ok o1"
    and tag: "GetTagFieldNumber tag \<noteq> 0" "GetTagWireType tag = WIRETYPE_VARINT"
  shows "\<exists>fs. u' = Some (gs @ fs) \<and> inp.ci_ok c' \<and> copied b c' (fields_bytes fs) o1 (SkipField_out_with k iops os tag c o1)"
proof -
  let ?n = "GetTagFieldNumber tag" and ?r = "SkipField_out_with k iops os tag c o1"
  note defs = WireFormat_SkipField_with_def SkipField_out_with_def Let_def
  obtain r c1 where r: "ReadVarint64 iops c = Some (r, c1)" "inp.ci_varint 10 r of_nat c c1" using inp.ReadVarint64_spec [OF assms(2)] by blast
  have ok: "inp.ci_ok c1" using inp.varint_in_step(1) [OF r(2)] by (simp add: in_step_def)
  show ?thesis
  proof (cases r)
    case None
    have "u' = Some gs" "c' = c1" "\<not> b" "?r = Some (False, c1, o1)" using assms(1) tag r(1) None by (simp_all add: defs)
    with ok copied_refl [OF assms(3)] show ?thesis by (intro exI [of _ "[]"]) simp
  next
    case (Some v)
    have w: "u' = Some (gs @ [UnknownVarint ?n v])" "c' = c1" b using assms(1) tag r(1) Some by (simp_all add: defs AddVarint_def)
    obtain o2 o3 where o3: "Coded_WriteVarint32 os tag o1 = Some o2" "Coded_WriteVarint64 os v o2 = Some o3"
      "out.out_step (WriteVarint32ToArray tag @ WriteVarint64ToArray v) o1 o3"
      by (rule tag_value [OF assms(3) put_value(1)])
    have "?r = Some (True, c1, o3)" using tag r(1) Some o3(1,2) by (simp add: defs)
    with ok w copied_field [OF o3(3), of c1] tag_bytes [of tag] tag show ?thesis by (intro exI [of _ "[UnknownVarint ?n v]"]) simp
  qed
qed

lemma copy_fixed64:
  assumes "WireFormat_SkipField_with m iops tag c (Some gs) = Some (b, c', u')" "inp.ci_ok c" "out.out_ok o1"
    and tag: "GetTagFieldNumber tag \<noteq> 0" "GetTagWireType tag = WIRETYPE_FIXED64"
  shows "\<exists>fs. u' = Some (gs @ fs) \<and> inp.ci_ok c' \<and> copied b c' (fields_bytes fs) o1 (SkipField_out_with k iops os tag c o1)"
proof -
  let ?n = "GetTagFieldNumber tag" and ?r = "SkipField_out_with k iops os tag c o1"
  note defs = WireFormat_SkipField_with_def SkipField_out_with_def Let_def
  define v :: uint64 where "v = (of_nat (le_nat (take 8 (inp.ci_view c))))"
  obtain c1 where r: "ReadLittleEndian64 iops c = Some (if 8 \<le> length (inp.ci_view c) then Some v else None, c1)" "inp.ci_ok c1"
    by (rule inp.fixed_in_step [OF assms(2)]) (simp add: v_def in_step_def)
  show ?thesis
  proof (cases "8 \<le> length (inp.ci_view c)")
    case False
    have "u' = Some gs" "c' = c1" "\<not> b" "?r = Some (False, c1, o1)" using assms(1) tag r(1) False by (simp_all add: defs wire_types)
    with r(2) copied_refl [OF assms(3)] show ?thesis by (intro exI [of _ "[]"]) simp
  next
    case True
    have w: "u' = Some (gs @ [UnknownFixed64 ?n v])" "c' = c1" b using assms(1) tag r(1) True by (simp_all add: defs wire_types AddFixed64_def)
    obtain o2 o3 where o3: "Coded_WriteVarint32 os tag o1 = Some o2" "Coded_WriteLittleEndian64 os v o2 = Some o3"
      "out.out_step (WriteVarint32ToArray tag @ le_bytes 8 (unat v)) o1 o3" by (rule tag_value [OF assms(3) put_value(2)])
    have "?r = Some (True, c1, o3)" using tag r(1) True o3(1,2) by (simp add: defs wire_types)
    with r(2) w copied_field [OF o3(3), of c1] tag_bytes [of tag] tag show ?thesis by (intro exI [of _ "[UnknownFixed64 ?n v]"]) simp
  qed
qed

lemma copy_fixed32:
  assumes "WireFormat_SkipField_with m iops tag c (Some gs) = Some (b, c', u')" "inp.ci_ok c" "out.out_ok o1"
    and tag: "GetTagFieldNumber tag \<noteq> 0" "GetTagWireType tag = WIRETYPE_FIXED32"
  shows "\<exists>fs. u' = Some (gs @ fs) \<and> inp.ci_ok c' \<and> copied b c' (fields_bytes fs) o1 (SkipField_out_with k iops os tag c o1)"
proof -
  let ?n = "GetTagFieldNumber tag" and ?r = "SkipField_out_with k iops os tag c o1"
  note defs = WireFormat_SkipField_with_def SkipField_out_with_def Let_def
  define v :: uint32 where "v = (of_nat (le_nat (take 4 (inp.ci_view c))))"
  obtain c1 where r: "ReadLittleEndian32 iops c = Some (if 4 \<le> length (inp.ci_view c) then Some v else None, c1)" "inp.ci_ok c1"
    by (rule inp.fixed_in_step [OF assms(2)]) (simp add: v_def in_step_def)
  show ?thesis
  proof (cases "4 \<le> length (inp.ci_view c)")
    case False
    have "u' = Some gs" "c' = c1" "\<not> b" "?r = Some (False, c1, o1)" using assms(1) tag r(1) False by (simp_all add: defs wire_types)
    with r(2) copied_refl [OF assms(3)] show ?thesis by (intro exI [of _ "[]"]) simp
  next
    case True
    have w: "u' = Some (gs @ [UnknownFixed32 ?n v])" "c' = c1" b using assms(1) tag r(1) True by (simp_all add: defs wire_types AddFixed32_def)
    obtain o2 o3 where o3: "Coded_WriteVarint32 os tag o1 = Some o2" "Coded_WriteLittleEndian32 os v o2 = Some o3"
      "out.out_step (WriteVarint32ToArray tag @ le_bytes 4 (unat v)) o1 o3" by (rule tag_value [OF assms(3) put_value(3)])
    have "?r = Some (True, c1, o3)" using tag r(1) True o3(1,2) by (simp add: defs wire_types)
    with r(2) w copied_field [OF o3(3), of c1] tag_bytes [of tag] tag show ?thesis by (intro exI [of _ "[UnknownFixed32 ?n v]"]) simp
  qed
qed

lemma copy_bytes:
  assumes "WireFormat_SkipField_with m iops tag c (Some gs) = Some (b, c', u')" "inp.ci_ok c" "out.out_ok o1"
    and tag: "GetTagFieldNumber tag \<noteq> 0" "GetTagWireType tag = WIRETYPE_LENGTH_DELIMITED"
  shows "\<exists>fs. u' = Some (gs @ fs) \<and> inp.ci_ok c' \<and> copied b c' (fields_bytes fs) o1 (SkipField_out_with k iops os tag c o1)"
proof -
  let ?n = "GetTagFieldNumber tag" and ?r = "SkipField_out_with k iops os tag c o1"
  note defs = WireFormat_SkipField_with_def SkipField_out_with_def Let_def
  obtain r c1 where r: "ReadVarint32 iops c = Some (r, c1)" "inp.ci_varint 10 r of_nat c c1" using inp.ReadVarint32_spec [OF assms(2)] by blast
  have ok: "inp.ci_ok c1" using inp.varint_in_step(1) [OF r(2)] by (simp add: in_step_def)
  show ?thesis
  proof (cases r)
    case None
    have "u' = Some gs" "c' = c1" "\<not> b" "?r = Some (False, c1, o1)" using assms(1) tag r(1) None by (simp_all add: defs wire_types)
    with ok copied_refl [OF assms(3)] show ?thesis by (intro exI [of _ "[]"]) simp
  next
    case (Some n)
    obtain s c2 where s: "ReadString iops [] (sint n) c1 = Some (0 \<le> sint n \<and> sint n \<le> int (length (inp.ci_view c1)), s, c2)"
      "inp.ci_step c1 c2" "0 \<le> sint n \<Longrightarrow> sint n \<le> int (length (inp.ci_view c1)) \<Longrightarrow> s = take (nat (sint n)) (inp.ci_view c1)"
      by (rule inp.bytes_in_step [OF ok, of "sint n"]) simp
    have ok2: "inp.ci_ok c2" using s(2) by (simp add: in_step_def)
    have w: "u' = Some (gs @ [UnknownLengthDelimited ?n s])" "c' = c2" "b \<longleftrightarrow> 0 \<le> sint n \<and> sint n \<le> int (length (inp.ci_view c1))"
      using assms(1) tag r(1) Some s(1) by (simp_all add: defs wire_types AddLengthDelimited_def)
    obtain o2 where o2: "Coded_WriteVarint32 os tag o1 = Some o2" "out.out_step (WriteVarint32ToArray tag) o1 o2" "out.out_ok o2"
      by (rule put_varint [OF assms(3)])
    obtain o3 where o3: "Coded_WriteVarint32 os n o2 = Some o3" "out.out_step (WriteVarint32ToArray n) o2 o3" "out.out_ok o3"
      by (rule put_varint [OF o2(3)])
    obtain o4 where o4: "Coded_WriteString os s o3 = Some o4" "out.out_step s o3 o4" using put_value(4) [OF o3(3)] by blast
    have step: "out.out_step (WriteVarint32ToArray tag @ WriteVarint32ToArray n) o1 o3" by (rule out.out_step_trans [OF o2(2) o3(2)])
    show ?thesis
    proof (cases b)
      case True
      have "?r = Some (True, c2, o4)" using tag r(1) Some o2(1) o3(1) o4(1) s(1) w(3) True by (simp add: defs wire_types)
      moreover have "out.out_step ((WriteVarint32ToArray tag @ WriteVarint32ToArray n) @ s) o1 o4" by (rule out.out_step_trans [OF step o4(2)])
      moreover have "length s = nat (sint n)" using w(3) True s(3) by (simp add: min_absorb2 nat_le_iff)
      then have "of_nat (length s) = n" using w(3) True by (simp add: word_of_size)
      ultimately show ?thesis using w(1,2) ok2 True copied_field [of _ o1 o4 c2] tag_bytes [of tag] tag
        by (intro exI [of _ "[UnknownLengthDelimited ?n s]"]) simp
    next
      case False
      have "?r = Some (False, c2, o3)" using tag r(1) Some o2(1) o3(1) s(1) w(3) False by (auto simp add: defs wire_types)
      with w(1,2) ok2 False step show ?thesis
        by (intro exI [of _ "[UnknownLengthDelimited ?n s]"]) (auto simp: copied_def)
    qed
  qed
qed

lemma copy_scalar:
  assumes "WireFormat_SkipField_with m iops tag c (Some gs) = Some (b, c', u')" "inp.ci_ok c" "out.out_ok o1"
    and scalar: "GetTagWireType tag \<noteq> WIRETYPE_START_GROUP"
  shows "\<exists>fs. u' = Some (gs @ fs) \<and> inp.ci_ok c' \<and> copied b c' (fields_bytes fs) o1 (SkipField_out_with k iops os tag c o1)"
proof -
  let ?n = "GetTagFieldNumber tag" and ?t = "GetTagWireType tag"
  note defs = WireFormat_SkipField_with_def SkipField_out_with_def Let_def
  consider "?n = 0" | "?n \<noteq> 0" "?t = WIRETYPE_VARINT" | "?n \<noteq> 0" "?t = WIRETYPE_FIXED64" | "?n \<noteq> 0" "?t = WIRETYPE_LENGTH_DELIMITED"
    | "?n \<noteq> 0" "?t = WIRETYPE_FIXED32" | "?n \<noteq> 0" "?t \<notin> {WIRETYPE_VARINT, WIRETYPE_FIXED64, WIRETYPE_LENGTH_DELIMITED, WIRETYPE_FIXED32}"
    by blast
  then show ?thesis
  proof cases
    case 1
    with assms show ?thesis by (intro exI [of _ "[]"]) (simp add: defs copied_refl)
  next
    case 2
    show ?thesis by (rule copy_varint [OF assms(1-3) 2])
  next
    case 3
    show ?thesis by (rule copy_fixed64 [OF assms(1-3) 3])
  next
    case 4
    show ?thesis by (rule copy_bytes [OF assms(1-3) 4])
  next
    case 5
    show ?thesis by (rule copy_fixed32 [OF assms(1-3) 5])
  next
    case 6
    with assms show ?thesis by (intro exI [of _ "[]"]) (simp add: defs copied_refl split: if_splits)
  qed
qed

lemma end_tag_nonzero: "GetTagFieldNumber tag \<noteq> 0 \<Longrightarrow> MakeTag (GetTagFieldNumber tag) WIRETYPE_END_GROUP \<noteq> 0"
  using MakeTag_parts(1) [OF tag_bounds(1), of WIRETYPE_END_GROUP tag] by (auto simp: wire_types GetTagFieldNumber_def)

lemma depth_ok:
  "inp.ci_ok (snd (IncrementRecursionDepth c)) = inp.ci_ok c" "inp.ci_ok (DecrementRecursionDepth c) = inp.ci_ok c"
  "last_tag (DecrementRecursionDepth c) = last_tag c"
  by (simp_all add: IncrementRecursionDepth_def DecrementRecursionDepth_def Let_def depth_update)

lemma copy_group:
  assumes "WireFormat_SkipField_with m iops tag c (Some gs) = Some (b, c', u')" "inp.ci_ok c" "out.out_ok o1"
    and tag: "GetTagFieldNumber tag \<noteq> 0" "GetTagWireType tag = WIRETYPE_START_GROUP"
    and message: "\<And>c b c' u' o1. m c (Some []) = Some (b, c', u') \<Longrightarrow> inp.ci_ok c \<Longrightarrow> out.out_ok o1 \<Longrightarrow>
      \<exists>fs. u' = Some fs \<and> inp.ci_ok c' \<and> copied b c' (fields_bytes fs @ end_bytes c') o1 (k c o1)"
  shows "\<exists>fs. u' = Some (gs @ fs) \<and> inp.ci_ok c' \<and> copied b c' (fields_bytes fs) o1 (SkipField_out_with k iops os tag c o1)"
proof -
  let ?n = "GetTagFieldNumber tag" and ?r = "SkipField_out_with k iops os tag c o1"
  note defs = WireFormat_SkipField_with_def SkipField_out_with_def Let_def
  obtain o2 where o2: "Coded_WriteVarint32 os tag o1 = Some o2" "out.out_step (WriteVarint32ToArray tag) o1 o2" "out.out_ok o2"
    by (rule put_varint [OF assms(3)])
  obtain b1 c1 where inc: "IncrementRecursionDepth c = (b1, c1)" by (cases "IncrementRecursionDepth c")
  then have c1: "inp.ci_ok c1" using depth_ok(1) [of c] assms(2) by simp
  show ?thesis
  proof (cases b1)
    case False
    have "u' = Some gs" "c' = c1" "\<not> b" "?r = Some (False, c1, o2)" using assms(1) tag inc False o2(1) by (simp_all add: defs wire_types)
    with c1 o2(2) show ?thesis by (intro exI [of _ "[]"]) (auto simp: copied_def)
  next
    case True
    with assms(1) tag inc obtain b2 c2 g where m: "m c1 (Some []) = Some (b2, c2, g)" by (auto simp: defs wire_types split: bind_splits)
    obtain fs where fs: "g = Some fs" "inp.ci_ok c2" "copied b2 c2 (fields_bytes fs @ end_bytes c2) o2 (k c1 o2)"
      using message [OF m c1 o2(3)] by blast
    obtain o3 d where o3: "k c1 o2 = Some (b2, c2, o3)" "out.out_step d o2 o3" "b2 \<longrightarrow> d = fields_bytes fs @ end_bytes c2"
      using fs(3) by (auto simp: copied_def)
    have step: "out.out_step (WriteVarint32ToArray tag @ d) o1 o3" by (rule out.out_step_trans [OF o2(2) o3(2)])
    have w: "u' = Some (gs @ [UnknownGroup ?n fs])" "c' = (if b2 then DecrementRecursionDepth c2 else c2)"
      "b \<longleftrightarrow> b2 \<and> last_tag c2 = MakeTag ?n WIRETYPE_END_GROUP"
      using assms(1) tag inc True m fs(1) by (cases b2; simp add: defs wire_types AddGroup_def LastTagWas_def depth_ok)+
    have r: "?r = Some (b, c', o3)" using tag inc True o2(1) o3(1) w(2,3) by (cases b2) (simp_all add: defs wire_types LastTagWas_def depth_ok)
    have "fields_bytes [UnknownGroup ?n fs] = WriteVarint32ToArray tag @ d" if b
      using that w(3) o3(3) end_tag_nonzero [OF tag(1)] tag_bytes [of tag] tag(2) by (simp add: end_bytes_def WriteTagToArray_def)
    with r step have "copied b c' (fields_bytes [UnknownGroup ?n fs]) o1 ?r" by (auto simp: copied_def)
    with w(1,2) fs(2) show ?thesis by (intro exI [of _ "[UnknownGroup ?n fs]"]) (simp add: depth_ok)
  qed
qed

text \<open>Whole messages.\<close>

lemma SkipMessage_copies:
  "WireFormat_SkipMessage ops c u = Some y \<Longrightarrow> ops = iops \<Longrightarrow> u = Some gs \<Longrightarrow> inp.ci_ok c \<Longrightarrow> out.out_ok o1 \<Longrightarrow>
    (case y of (b, c', u') \<Rightarrow> \<exists>fs. u' = Some (gs @ fs) \<and> inp.ci_ok c' \<and>
      copied b c' (fields_bytes fs @ end_bytes c') o1 (SkipMessage_out iops os c o1))"
proof (induction arbitrary: gs o1 rule: skip_message_induct)
  case (step rec ops c u y)
  note ops = \<open>ops = iops\<close> and u = \<open>u = Some gs\<close> and out1 = \<open>out.out_ok o1\<close>
  obtain tag c1 where t: "ReadTag iops c = Some (tag, c1)" "last_tag c1 = tag" "inp.ci_ok c1"
    by (cases rule: inp.ReadTag_parse [OF step.prems(3)]) (auto simp: in_step_def)
  obtain b c' u' where y: "y = (b, c', u')" by (cases y)
  consider "tag = 0" | "tag \<noteq> 0" "GetTagWireType tag = WIRETYPE_END_GROUP" | "tag \<noteq> 0" "GetTagWireType tag \<noteq> WIRETYPE_END_GROUP" by blast
  then show ?case
  proof cases
    case 1
    have "SkipMessage_out iops os c o1 = Some (True, c1, o1)" using 1 t(1) by (subst SkipMessage_out.simps) simp
    moreover have "y = (True, c1, Some gs)" using step.hyps 1 t(1) ops u by simp
    ultimately show ?thesis using t copied_field [OF out.out_step_refl [OF out1], of c1] 1 by (intro case_prodI2) (simp add: end_bytes_def)
  next
    case 2
    obtain o2 where o2: "Coded_WriteVarint32 os tag o1 = Some o2" "out.out_step (WriteVarint32ToArray tag) o1 o2" by (rule put_varint [OF out1])
    have "SkipMessage_out iops os c o1 = Some (True, c1, o2)" using 2 t(1) o2(1) by (subst SkipMessage_out.simps) simp
    moreover have "y = (True, c1, Some gs)" using step.hyps 2 t(1) ops u by simp
    ultimately show ?thesis using t copied_field [OF o2(2), of c1] 2 by (intro case_prodI2) (simp add: end_bytes_def)
  next
    case 3
    let ?field = "SkipField_out_with (SkipMessage_out iops os) iops os tag c1 o1"
    obtain b2 c2 u2 where f: "WireFormat_SkipField_with (rec iops) iops tag c1 (Some gs) = Some (b2, c2, u2)"
      and next_call: "(if b2 then rec iops c2 u2 else Some (False, c2, u2)) = Some y"
      using step.hyps 3 t(1) ops u by (auto split: bind_splits)
    have "\<exists>fs. u2 = Some (gs @ fs) \<and> inp.ci_ok c2 \<and> copied b2 c2 (fields_bytes fs) o1 ?field"
    proof (cases "GetTagFieldNumber tag \<noteq> 0 \<and> GetTagWireType tag = WIRETYPE_START_GROUP")
      case True
      have m: "\<exists>fs. u' = Some fs \<and> inp.ci_ok c' \<and> copied b c' (fields_bytes fs @ end_bytes c') o1 (SkipMessage_out iops os c o1)"
        if "rec iops c (Some []) = Some (b, c', u')" "inp.ci_ok c" "out.out_ok o1" for c b c' u' o1
        using step.IH [OF that(1) refl refl that(2,3)] by simp
      from True show ?thesis by (intro copy_group [OF f t(3) out1 _ _ m]) simp_all
    next
      case False
      show ?thesis
      proof (cases "GetTagWireType tag = WIRETYPE_START_GROUP")
        case True
        with False f out1 t(3) show ?thesis
          by (intro exI [of _ "[]"]) (simp add: WireFormat_SkipField_with_def SkipField_out_with_def copied_refl)
      qed (rule copy_scalar [OF f t(3) out1])
    qed
    then obtain fs o2 d where fs: "u2 = Some (gs @ fs)" "inp.ci_ok c2" "?field = Some (b2, c2, o2)" "out.out_step d o1 o2"
      "b2 \<longrightarrow> d = fields_bytes fs" by (auto simp: copied_def)
    have run: "SkipMessage_out iops os c o1 = (if b2 then SkipMessage_out iops os c2 o2 else Some (False, c2, o2))"
      using 3 t(1) fs(3) by (subst SkipMessage_out.simps) simp
    show ?thesis
    proof (cases b2)
      case False
      with next_call run fs show ?thesis by (auto simp: copied_def)
    next
      case True
      have "out.out_ok o2" using fs(4) by (simp add: out.out_step_def)
      from step.IH [OF _ refl fs(1) fs(2) this] next_call True y obtain fs2 where
        fs2: "u' = Some ((gs @ fs) @ fs2)" "inp.ci_ok c'" "copied b c' (fields_bytes fs2 @ end_bytes c') o2 (SkipMessage_out iops os c2 o2)" by auto
      then obtain o3 d2 where o3: "SkipMessage_out iops os c2 o2 = Some (b, c', o3)" "out.out_step d2 o2 o3"
        "b \<longrightarrow> d2 = fields_bytes fs2 @ end_bytes c'" by (auto simp: copied_def)
      have "out.out_step (d @ d2) o1 o3" by (rule out.out_step_trans [OF fs(4) o3(2)])
      with run True fs2(1,2) o3(1,3) fs(5) show ?thesis unfolding y
        by (intro case_prodI2 exI [of _ "fs @ fs2"]) (auto simp: copied_def fields_bytes_append)
    qed
  qed
qed

end

interpretation array_copier: copying_skipper array_stream array_ok array_rest array_given "\<lambda>_. 0"
    array_output array_output_ok "\<lambda>_. True" array_written array_chunk "\<lambda>_. 0"
  by (rule copying_skipper.intro [OF array_input.zero_copy_input_axioms array_steady.steady_output_axioms])

end
