(* ===== verification/Unknown_Client.thy ===== *)
theory Unknown_Client
  imports Skip_Variants
begin

text \<open>
  What the users of unknown fields rely on: the three skippers and the parser of \<open>UnknownFieldSet\<close> against the reference
  parser, round trips through any pair of streams, exact sizes, and the editing operations.
\<close>

text \<open>A new \<open>CodedInputStream\<close> on a new stream: everything is ahead, and a hundred groups may be open.\<close>

lemma new_coded:
  assumes "zero_copy_input ops ok rest given idle" "ok s" "ByteCount ops s = 0" "int (length (rest s)) \<le> INT_MAX"
  obtains c where "CodedInputStream ops s = Some c" "coded_ok ops ok rest given c" "view rest given c = rest s"
    "recursion_budget c = 100" "recursion_limit c = 100" "current_limit c = total_bytes_limit c" "\<not> ConsumedEntireMessage c"
    "coded_input c \<noteq> None"
proof -
  obtain c where "CodedInputStream ops s = Some c" "coded_ok ops ok rest given c" "unread rest given c = rest s" "CurrentPosition c = 0"
    "current_limit c = INT_MAX" "total_bytes_limit c = INT_MAX" "recursion_budget c = 100" "recursion_limit c = 100"
    "coded_input c \<noteq> None" "\<not> legitimate_message_end c"
    using zero_copy_input.CodedInputStream_spec [OF assms(1-3)] by blast
  then show thesis using assms(4)
    by (intro that [of c]) (simp_all add: view_def closest_limit_def ConsumedEntireMessage_def)
qed

lemma sample_new:
  assumes "int (length data) \<le> INT_MAX"
  shows "array_ok (ArrayInputStream data (int (length data)) n)" "ByteCount array_stream (ArrayInputStream data (int (length data)) n) = 0"
    "array_rest (ArrayInputStream data (int (length data)) n) = data"
  using assms by (simp_all add: ArrayInputStream_def array_ok_def array_rest_def array_stream_def ArrayInputStream_ByteCount_def)

lemma array_new:
  assumes "int (length data) \<le> INT_MAX"
  obtains c where "CodedInputStream array_stream (ArrayInputStream data (int (length data)) n) = Some c" "array_coded_ok c"
    "array_view c = data" "recursion_budget c = 100" "recursion_limit c = 100" "current_limit c = total_bytes_limit c"
    "\<not> ConsumedEntireMessage c" "coded_input c \<noteq> None"
  using new_coded [OF array_input.zero_copy_input_axioms sample_new(1,2) [OF assms, of n]] sample_new(3) [OF assms, of n] assms by metis

section \<open>Skipping\<close>

text \<open>C13. Skipping a message, over any stream and however it is cut into chunks, does what a plain parser of byte lists
  does: it succeeds exactly when the bytes up to the end of the input or the end of the group are fields, with
  groups closed by their own numbers and no deeper than the recursion budget; the unknown fields it adds are those
  fields in their order; the limits and the recursion budget are as before, and the input stands behind the message. The
  skipper without a set of unknown fields, in the lite runtime, does the same.\<close>

theorem skip_message_reference:
  assumes "zero_copy_input ops ok rest given idle" "coded_ok ops ok rest given c" "recursion_budget c \<le> recursion_limit c"
  shows "\<exists>m. m = wire_message (nat (recursion_budget c)) (view rest given c) \<and>
    (\<exists>c' u'. WireFormat_SkipMessage ops c u = Some (m \<noteq> None, c', u') \<and> coded_ok ops ok rest given c' \<and>
       (\<forall>fs e q. m = Some (fs, e, q) \<longrightarrow>
          u' = map_option (\<lambda>gs. gs @ fs) u \<and> same_limits c c' \<and> ended_at rest given e q c c')) \<and>
    (\<exists>c'. SkipMessage ops c = Some (m \<noteq> None, c') \<and> coded_ok ops ok rest given c' \<and>
       (\<forall>fs e q. m = Some (fs, e, q) \<longrightarrow> same_limits c c' \<and> ended_at rest given e q c c'))"
proof -
  let ?m = "wire_message (nat (recursion_budget c)) (view rest given c)"
  have s: "skipped_as ops ok rest given ?m c u (WireFormat_SkipMessage ops c u)" for u
    by (rule zero_copy_input.SkipMessage_parse [OF assms])
  obtain c' u' where f: "WireFormat_SkipMessage ops c u = Some (?m \<noteq> None, c', u')" "coded_ok ops ok rest given c'"
    "\<forall>fs e q. ?m = Some (fs, e, q) \<longrightarrow> u' = map_option (\<lambda>gs. gs @ fs) u \<and> same_limits c c' \<and> ended_at rest given e q c c'"
    using s [of u] by (auto simp: skipped_as_def intact_def in_step_def split: option.splits)
  obtain c1 where n: "WireFormat_SkipMessage ops c None = Some (?m \<noteq> None, c1, None)" "coded_ok ops ok rest given c1"
    "\<forall>fs e q. ?m = Some (fs, e, q) \<longrightarrow> same_limits c c1 \<and> ended_at rest given e q c c1"
    using s [of None] by (auto simp: skipped_as_def intact_def in_step_def split: option.splits)
  from SkipMessage_null [OF n(1) refl] f n(2,3) show ?thesis by auto
qed

text \<open>A varint, and a group with a varint in it, from an array.\<close>

theorem skip_message_reference_witness:
  "\<exists>c c' c2. CodedInputStream array_stream (sample [8, 0x96, 1, 11, 16, 5, 12]) = Some c \<and>
    WireFormat_SkipMessage array_stream c (Some []) =
      Some (True, c', Some [UnknownVarint 1 150, UnknownGroup 1 [UnknownVarint 2 5]]) \<and>
    SkipMessage array_stream c = Some (True, c2)"
proof -
  let ?d = "[8, 0x96, 1, 11, 16, 5, 12] :: byte list"
  have r: "wire_message 100 ?d = Some ([UnknownVarint 1 150, UnknownGroup 1 [UnknownVarint 2 5]], At_end, [])" by code_simp
  obtain c where c: "CodedInputStream array_stream (sample ?d) = Some c" "array_coded_ok c" "array_view c = ?d"
    "recursion_budget c = 100" "recursion_limit c = 100"
    unfolding sample_def by (rule array_new [of ?d 1]) simp
  have le: "recursion_budget c \<le> recursion_limit c" using c(4,5) by simp
  from skip_message_reference [OF array_input.zero_copy_input_axioms c(2) le, of "Some []"] c r show ?thesis by auto
qed

section \<open>Copying\<close>

text \<open>The bytes that closed a message.\<close>

fun closing :: "wire_end \<Rightarrow> byte list" where
  "closing (End_tag t) = (if t = 0 then [] else WriteVarint32ToArray t)"
| "closing _ = []"

text \<open>C16. The skipper that copies what it skips returns, over any pair of streams, what the other one returns, and on
  success it has appended to its output the serialised form of exactly the fields skipped, and the tag that closed
  them: all lengths, tags and varints in their shortest form.\<close>

theorem skip_message_copies:
  assumes "zero_copy_input iops iok rest given iidle" "coded_ok iops iok rest given c" "recursion_budget c \<le> recursion_limit c"
    "steady_output os ok sound written chunk idle" "steady_output.out_ok os ok chunk o1"
  shows "\<exists>m c' o2 d. m = wire_message (nat (recursion_budget c)) (view rest given c) \<and>
    SkipMessage_out iops os c o1 = Some (m \<noteq> None, c', o2) \<and> coded_ok iops iok rest given c' \<and>
    steady_output.out_step os ok sound written chunk d o1 o2 \<and>
    (\<forall>fs e q. m = Some (fs, e, q) \<longrightarrow> d = fields_bytes fs @ closing e \<and> ended_at rest given e q c c')"
proof -
  let ?m = "wire_message (nat (recursion_budget c)) (view rest given c)"
  have loc: "copying_skipper iops iok rest given iidle os ok sound written chunk idle"
    by (rule copying_skipper.intro [OF assms(1,4)])
  have "skipped_as iops iok rest given ?m c (Some []) (WireFormat_SkipMessage iops c (Some []))"
    by (rule zero_copy_input.SkipMessage_parse [OF assms(1-3)])
  then obtain c' u' where f: "WireFormat_SkipMessage iops c (Some []) = Some (?m \<noteq> None, c', u')" "coded_ok iops iok rest given c'"
    "\<forall>fs e q. ?m = Some (fs, e, q) \<longrightarrow> u' = Some fs \<and> ended_at rest given e q c c'"
    by (auto simp: skipped_as_def intact_def split: option.splits)
  obtain fs where fs: "u' = Some fs"
    "copying_skipper.copied os ok sound written chunk (?m \<noteq> None) c' (fields_bytes fs @ copying_skipper.end_bytes c') o1 (SkipMessage_out iops os c o1)"
    using copying_skipper.SkipMessage_copies [OF loc f(1) refl refl assms(2,5)] by auto
  then obtain o2 d where o2: "SkipMessage_out iops os c o1 = Some (?m \<noteq> None, c', o2)"
    "steady_output.out_step os ok sound written chunk d o1 o2" "?m \<noteq> None \<longrightarrow> d = fields_bytes fs @ copying_skipper.end_bytes c'"
    by (auto simp: copying_skipper.copied_def [OF loc])
  have "d = fields_bytes gs @ closing e \<and> ended_at rest given e q c c'" if "?m = Some (gs, e, q)" for gs e q
    using that f(3) fs(1) o2(3) by (cases e) (auto simp: copying_skipper.end_bytes_def [OF loc] ended_at_def LastTagWas_def)
  with o2(1,2) f(2) show ?thesis by blast
qed

text \<open>A varint that is longer than it has to be, copied into an array.\<close>

theorem skip_message_copies_witness:
  "\<exists>c o1 c' o2. CodedInputStream array_stream (sample [8, 0x96, 0x81, 0]) = Some c \<and>
    CodedOutputStream array_output (replicate 32 0) False sample_array False = Some o1 \<and>
    SkipMessage_out array_stream array_output c o1 = Some (True, c', o2) \<and> array_steady.out_step [8, 0x96, 1] o1 o2"
proof -
  let ?d = "[8, 0x96, 0x81, 0] :: byte list"
  have r: "wire_message 100 ?d = Some ([UnknownVarint 1 150], At_end, [])" "fields_bytes [UnknownVarint 1 150] = [8, 0x96, 1]" by code_simp+
  obtain c where c: "CodedInputStream array_stream (sample ?d) = Some c" "array_coded_ok c" "array_view c = ?d"
    "recursion_budget c = 100" "recursion_limit c = 100"
    unfolding sample_def by (rule array_new [of ?d 1]) simp
  obtain o1 where o1: "CodedOutputStream array_output (replicate 32 0) False sample_array False = Some o1" "array_steady.out_ok o1"
    by (rule array_steady.CodedOutputStream_spec [OF sample_array_ok(1) TrueI length_replicate, of False]) simp_all
  have le: "recursion_budget c \<le> recursion_limit c" using c(4,5) by simp
  from skip_message_copies [OF array_input.zero_copy_input_axioms c(2) le array_steady.steady_output_axioms o1(2)] c r o1
  show ?thesis by auto
qed

section \<open>Parsing a set\<close>

text \<open>What the parser of a set returns for the bytes \<open>bs\<close>: they are fields up to their end, or nothing is kept.\<close>

definition parsed_set :: "nat \<Rightarrow> byte list \<Rightarrow> UnknownFieldSet option" where
  "parsed_set d bs = (case wire_message d bs of Some (fs, At_end, _) \<Rightarrow> Some fs | _ \<Rightarrow> None)"

lemma merge_parsed:
  assumes "zero_copy_input ops ok rest given idle" "coded_ok ops ok rest given c" "recursion_budget c \<le> recursion_limit c"
    "\<not> ConsumedEntireMessage c" "current_limit c = total_bytes_limit c"
    and r: "r = parsed_set (nat (recursion_budget c)) (view rest given c)"
  shows "\<exists>c'. MergeFromCodedStream ops c old = Some (r \<noteq> None, c', case r of None \<Rightarrow> old | Some fs \<Rightarrow> old @ fs) \<and>
    intact ops ok rest given c c' \<and> (r \<noteq> None \<longrightarrow> ConsumedEntireMessage c')"
proof -
  let ?m = "wire_message (nat (recursion_budget c)) (view rest given c)"
  have "skipped_as ops ok rest given ?m c (Some []) (WireFormat_SkipMessage ops c (Some []))"
    by (rule zero_copy_input.SkipMessage_parse [OF assms(1-3)])
  then obtain c' u' where f: "WireFormat_SkipMessage ops c (Some []) = Some (?m \<noteq> None, c', u')" "intact ops ok rest given c c'"
    "case ?m of None \<Rightarrow> u' \<noteq> None | Some (fs, e, q) \<Rightarrow> u' = Some fs \<and> ended_at rest given e q c c'"
    by (auto simp: skipped_as_def split: option.splits)
  show ?thesis
  proof (cases ?m)
    case None
    with f show ?thesis by (auto simp: MergeFromCodedStream_def parsed_set_def r)
  next
    case (Some x)
    obtain fs e q where x: "x = (fs, e, q)" by (cases x)
    with Some f assms(4,5) show ?thesis
      by (cases e) (simp_all add: MergeFromCodedStream_def parsed_set_def ended_at_def MergeFromAndDestroy_append r)
  qed
qed

lemma stream_parsed:
  assumes "zero_copy_input ops ok rest given idle" "ok s" "ByteCount ops s = 0" "int (length (rest s)) \<le> INT_MAX" "r = parsed_set 100 (rest s)"
  obtains s' where "ParseFromZeroCopyStream ops s old = Some (r \<noteq> None, Some s', case r of None \<Rightarrow> [] | Some fs \<Rightarrow> fs)" "ok s'"
proof -
  obtain c where c: "CodedInputStream ops s = Some c" "coded_ok ops ok rest given c" "view rest given c = rest s"
    "recursion_budget c = 100" "recursion_limit c = 100" "current_limit c = total_bytes_limit c" "\<not> ConsumedEntireMessage c"
    "coded_input c \<noteq> None" by (rule new_coded [OF assms(1-4)])
  have le: "recursion_budget c \<le> recursion_limit c" "r = parsed_set (nat (recursion_budget c)) (view rest given c)" using c(3-5) assms(5) by simp_all
  obtain c' where c': "MergeFromCodedStream ops c [] = Some (r \<noteq> None, c', case r of None \<Rightarrow> [] | Some fs \<Rightarrow> [] @ fs)"
    "intact ops ok rest given c c'" "r \<noteq> None \<longrightarrow> ConsumedEntireMessage c'"
    using merge_parsed [OF assms(1) c(2) le(1) c(7,6) le(2), of "[]"] by blast
  have "coded_ok ops ok rest given c'" "coded_input c' \<noteq> None" using c'(2) c(8) by (simp_all add: intact_def)
  from zero_copy_input.CodedInputStream_destroy_spec [OF assms(1) this] obtain s' where
    s': "CodedInputStream_destroy ops c' = Some (Some s')" "ok s'" by blast
  show thesis
    by (rule that [of s']) (use c(1) c'(1,3) s' in \<open>auto simp: ParseFromZeroCopyStream_def ParseFromCodedStream_def cong: option.case_cong\<close>)
qed

lemma ParseFromArray_parsed:
  assumes "int (length data) \<le> INT_MAX" "r = parsed_set 100 data"
  shows "UnknownFieldSet_ParseFromArray data old = Some (r \<noteq> None, case r of None \<Rightarrow> [] | Some fs \<Rightarrow> fs)"
proof -
  note new = sample_new [OF assms(1), of "-1"]
  have "int (length (array_rest (ArrayInputStream data (int (length data)) (-1)))) \<le> INT_MAX"
    "r = parsed_set 100 (array_rest (ArrayInputStream data (int (length data)) (-1)))" using assms new(3) by simp_all
  from stream_parsed [OF array_input.zero_copy_input_axioms new(1,2) this, of old] show ?thesis
    by (metis (no_types, lifting) UnknownFieldSet_ParseFromArray_def bind.bind_lunit case_prod_conv)
qed

text \<open>C15. Parsing a set of unknown fields from a new stream returns, whatever the stream and its chunks, and succeeds
  exactly when all of the bytes are fields, at most a hundred groups deep: then the set holds those fields in their order, else
  it is empty. Merging from a \<open>CodedInputStream\<close> that has not seen the end of a message appends them, or leaves
  the set as it was.\<close>

theorem unknown_parse_exact:
  assumes "zero_copy_input ops ok rest given idle"
  shows "(\<forall>s old. ok s \<longrightarrow> ByteCount ops s = 0 \<longrightarrow> int (length (rest s)) \<le> INT_MAX \<longrightarrow>
      (\<exists>s' r. r = parsed_set 100 (rest s) \<and> ok s' \<and>
         ParseFromZeroCopyStream ops s old = Some (r \<noteq> None, Some s', case r of None \<Rightarrow> [] | Some fs \<Rightarrow> fs))) \<and>
    (\<forall>c old. coded_ok ops ok rest given c \<longrightarrow> recursion_budget c \<le> recursion_limit c \<longrightarrow> \<not> ConsumedEntireMessage c \<longrightarrow>
      current_limit c = total_bytes_limit c \<longrightarrow>
      (\<exists>c' r. r = parsed_set (nat (recursion_budget c)) (view rest given c) \<and> coded_ok ops ok rest given c' \<and>
         MergeFromCodedStream ops c old = Some (r \<noteq> None, c', case r of None \<Rightarrow> old | Some fs \<Rightarrow> old @ fs)))"
proof (intro conjI allI impI)
  fix c old
  assume "coded_ok ops ok rest given c" "recursion_budget c \<le> recursion_limit c" "\<not> ConsumedEntireMessage c" "current_limit c = total_bytes_limit c"
  from merge_parsed [OF assms this refl, of old]
  show "\<exists>c' r. r = parsed_set (nat (recursion_budget c)) (view rest given c) \<and> coded_ok ops ok rest given c' \<and>
      MergeFromCodedStream ops c old = Some (r \<noteq> None, c', case r of None \<Rightarrow> old | Some fs \<Rightarrow> old @ fs)"
    unfolding intact_def by blast
next
  fix s old
  assume "ok s" "ByteCount ops s = 0" "int (length (rest s)) \<le> INT_MAX"
  from stream_parsed [OF assms this refl, of old]
  show "\<exists>s' r. r = parsed_set 100 (rest s) \<and> ok s' \<and>
      ParseFromZeroCopyStream ops s old = Some (r \<noteq> None, Some s', case r of None \<Rightarrow> [] | Some fs \<Rightarrow> fs)" by blast
qed

text \<open>A group that is closed by another number is refused, and the old contents are gone.\<close>

theorem unknown_parse_exact_witness:
  "(\<exists>s'. ParseFromZeroCopyStream array_stream (sample [8, 7, 11, 16, 5, 12]) [] =
      Some (True, Some s', [UnknownVarint 1 7, UnknownGroup 1 [UnknownVarint 2 5]])) \<and>
   (\<exists>s'. ParseFromZeroCopyStream array_stream (sample [8, 7, 11, 16, 5, 20]) [UnknownVarint 9 9] = Some (False, Some s', []))"
proof -
  have p: "parsed_set 100 [8, 7, 11, 16, 5, 12] = Some [UnknownVarint 1 7, UnknownGroup 1 [UnknownVarint 2 5]]"
    "parsed_set 100 [8, 7, 11, 16, 5, 20] = None" by code_simp+
  have run: "\<exists>s' r. r = parsed_set 100 d \<and> array_ok s' \<and>
      ParseFromZeroCopyStream array_stream (sample d) old = Some (r \<noteq> None, Some s', case r of None \<Rightarrow> [] | Some fs \<Rightarrow> fs)"
    if "int (length d) \<le> INT_MAX" for d old
    using unknown_parse_exact [OF array_input.zero_copy_input_axioms] sample_ok [OF that] that by metis
  from run [of "[8, 7, 11, 16, 5, 12]" "[]"] run [of "[8, 7, 11, 16, 5, 20]" "[UnknownVarint 9 9]"] p show ?thesis by auto
qed

section \<open>Round trips\<close>

lemma parsed_written: "wire_ok d fs \<Longrightarrow> parsed_set d (fields_bytes fs) = Some fs"
  using wire_message_bytes [of d fs "[]"] by (simp add: parsed_set_def)

text \<open>C14. A set of unknown fields whose numbers, lengths and depth the wire can carry survives it: the serialiser appends the
  same bytes to any output stream, and parsing those bytes, from any input stream, gives the set back. Whatever
  the parser accepts is such a set, so that parsing, serialising and parsing again changes nothing.\<close>

theorem unknown_roundtrip:
  assumes "steady_output os ok sound written chunk idle" "zero_copy_input iops iok rest given iidle" "wire_ok 100 fs"
  shows "(\<forall>o1. steady_output.out_ok os ok chunk o1 \<longrightarrow> (\<exists>o2. SerializeUnknownFields os fs o1 = Some o2 \<and>
      steady_output.out_step os ok sound written chunk (fields_bytes fs) o1 o2)) \<and>
    (\<forall>s old. iok s \<longrightarrow> ByteCount iops s = 0 \<longrightarrow> rest s = fields_bytes fs \<longrightarrow> int (length (fields_bytes fs)) \<le> INT_MAX \<longrightarrow>
      (\<exists>s'. ParseFromZeroCopyStream iops s old = Some (True, Some s', fs))) \<and>
    (\<forall>bs gs. parsed_set 100 bs = Some gs \<longrightarrow> wire_ok 100 gs \<and> parsed_set 100 (fields_bytes gs) = Some gs)"
proof (intro conjI allI impI)
  fix o1
  assume "steady_output.out_ok os ok chunk o1"
  from steady_output.on_impl_step [OF assms(1) this zero_copy_output.serialize_appends]
  show "\<exists>o2. SerializeUnknownFields os fs o1 = Some o2 \<and> steady_output.out_step os ok sound written chunk (fields_bytes fs) o1 o2"
    using assms(1) unfolding SerializeUnknownFields_def steady_output_def by blast
next
  fix s old
  assume s: "iok s" "ByteCount iops s = 0" "rest s = fields_bytes fs" "int (length (fields_bytes fs)) \<le> INT_MAX"
  have "int (length (rest s)) \<le> INT_MAX" "Some fs = parsed_set 100 (rest s)" using s(3,4) parsed_written [OF assms(3)] by simp_all
  from stream_parsed [OF assms(2) s(1,2) this, of old] show "\<exists>s'. ParseFromZeroCopyStream iops s old = Some (True, Some s', fs)" by auto
next
  fix bs gs
  assume "parsed_set 100 bs = Some gs"
  then obtain q where "wire_message 100 bs = Some (gs, At_end, q)" by (auto simp: parsed_set_def split: option.splits wire_end.splits)
  then show ok: "wire_ok 100 gs" by (rule wire_message_ok)
  show "parsed_set 100 (fields_bytes gs) = Some gs" by (rule parsed_written [OF ok])
qed

text \<open>A string in a group, read back from an array.\<close>

theorem unknown_roundtrip_witness:
  "\<exists>s'. ParseFromZeroCopyStream array_stream (sample [11, 18, 2, 0x68, 0x69, 12]) [] =
    Some (True, Some s', [UnknownGroup 1 [UnknownLengthDelimited 2 [0x68, 0x69]]])"
proof -
  have w: "wire_ok 100 [UnknownGroup 1 [UnknownLengthDelimited 2 [0x68, 0x69]]]" by (simp add: number_ok_def)
  have b: "fields_bytes [UnknownGroup 1 [UnknownLengthDelimited 2 [0x68, 0x69]]] = [11, 18, 2, 0x68, 0x69, 12]" by code_simp
  show ?thesis
    using unknown_roundtrip [OF array_steady.steady_output_axioms array_input.zero_copy_input_axioms w] sample_ok [of "[11, 18, 2, 0x68, 0x69, 12]"]
    unfolding b by simp
qed

section \<open>Sizes\<close>

text \<open>C17. The announced sizes are exact: the size of a set is the number of bytes its serialiser appends, modulo the width of
  \<open>size_t\<close>, and so is that of the items of a message set as long as their lengths are of type \<open>int\<close>; serialising
  into an array of the announced size fills it, touches nothing behind it, and meets no error.\<close>

theorem unknown_sizes_exact:
  assumes "zero_copy_output os ok sound written chunk idle"
  shows "ComputeUnknownFieldsSize fs = of_nat (length (fields_bytes fs)) \<and>
    zero_copy_output.appends os ok sound written chunk (InternalSerializeUnknownFieldsToArray os fs) (fields_bytes fs) \<and>
    (int (length (fields_bytes fs)) \<le> INT_MAX \<longrightarrow> length (fields_bytes fs) \<le> length data \<longrightarrow>
      SerializeUnknownFieldsToArray os m det fs data =
        Some (Chunk (int (length (fields_bytes fs))), fields_bytes fs @ drop (length (fields_bytes fs)) data)) \<and>
    zero_copy_output.appends os ok sound written chunk (InternalSerializeUnknownMessageSetItemsToArray os fs) (item_bytes fs) \<and>
    (lengths_ok fs \<longrightarrow> ComputeUnknownMessageSetItemsSize fs = of_nat (length (item_bytes fs)))"
proof (intro conjI impI)
  show "ComputeUnknownFieldsSize fs = of_nat (length (fields_bytes fs))" by (rule ComputeUnknownFieldsSize_bytes)
  show "zero_copy_output.appends os ok sound written chunk (InternalSerializeUnknownFieldsToArray os fs) (fields_bytes fs)"
    by (rule zero_copy_output.serialize_appends [OF assms])
  show "zero_copy_output.appends os ok sound written chunk (InternalSerializeUnknownMessageSetItemsToArray os fs) (item_bytes fs)"
    by (rule zero_copy_output.items_append [OF assms])
  show "ComputeUnknownMessageSetItemsSize fs = of_nat (length (item_bytes fs))" if "lengths_ok fs"
    by (rule ComputeUnknownMessageSetItemsSize_bytes [OF that])
  show "SerializeUnknownFieldsToArray os m det fs data =
      Some (Chunk (int (length (fields_bytes fs))), fields_bytes fs @ drop (length (fields_bytes fs)) data)"
    if l: "int (length (fields_bytes fs)) \<le> INT_MAX" "length (fields_bytes fs) \<le> length data"
  proof -
    let ?n = "length (fields_bytes fs)"
    have "(ucast (of_nat ?n :: uint64) :: uint32) = of_nat ?n" by (simp add: ucast_64_32)
    then have n: "sint (ucast (ComputeUnknownFieldsSize fs) :: uint32) = int ?n"
      using sint_small [OF l(1)] by (simp add: ComputeUnknownFieldsSize_bytes)
    let ?e = "EpsCopyOutputStream_array m data (int ?n) det"
    have "InternalSerializeUnknownFieldsToArray os fs (Chunk (int 0)) ?e =
        Some (Chunk (int (0 + ?n)), ?e\<lparr>flat_array := overwrite 0 (fields_bytes fs) (flat_array ?e)\<rparr>)"
      using flat_appendsD [OF flat_serialize, of ?e ?n 0 fs os] l(2) by (simp add: EpsCopyOutputStream_array_def)
    then show ?thesis
      using n by (simp add: SerializeUnknownFieldsToArray_def EpsCopyOutputStream_array_def overwrite_def)
  qed
qed

theorem unknown_sizes_exact_witness:
  "SerializeUnknownFieldsToArray array_output (replicate 32 0) False [UnknownVarint 1 300, UnknownGroup 2 []] [0, 0, 0, 0, 0, 7] =
    Some (Chunk 5, [8, 0xAC, 2, 0x13, 0x14, 7]) \<and> ComputeUnknownMessageSetItemsSize [UnknownLengthDelimited 5 [1, 2]] = 8"
proof -
  have b: "fields_bytes [UnknownVarint 1 300, UnknownGroup 2 []] = [8, 0xAC, 2, 0x13, 0x14]" by code_simp
  have i: "length (item_bytes [UnknownLengthDelimited 5 [1, 2]]) = 8" by code_simp
  have l: "lengths_ok [UnknownLengthDelimited 5 [1, 2]]" by simp
  have "ComputeUnknownMessageSetItemsSize [UnknownLengthDelimited 5 [1, 2]] = of_nat (length (item_bytes [UnknownLengthDelimited 5 [1, 2]]))"
    using unknown_sizes_exact [OF array_out.zero_copy_output_axioms, where fs = "[UnknownLengthDelimited 5 [1, 2]]"] l by blast
  moreover have "SerializeUnknownFieldsToArray array_output (replicate 32 0) False [UnknownVarint 1 300, UnknownGroup 2 []] [0, 0, 0, 0, 0, 7] =
      Some (Chunk 5, [8, 0xAC, 2, 0x13, 0x14, 7])"
    using unknown_sizes_exact [OF array_out.zero_copy_output_axioms, where fs = "[UnknownVarint 1 300, UnknownGroup 2 []]" and
        m = "replicate 32 0" and det = False and data = "[0, 0, 0, 0, 0, 7]"] unfolding b by simp
  moreover have "of_nat (length (item_bytes [UnknownLengthDelimited 5 [1, 2]])) = (8 :: uint64)" by (simp only: i) simp
  ultimately show ?thesis by (simp only: simp_thms)
qed

section \<open>Editing\<close>

text \<open>C18. The operations of the class on its vector are the ones on lists: deleting by number filters, deleting a range inside the
  set cuts it out (a range outside it is an access outside the vector), merging appends copies that equal
  the originals, and a merge that may destroy its argument leaves that empty.\<close>

theorem unknown_set_edits:
  "DeleteByNumber n fs = filter (\<lambda>f. number f \<noteq> n) fs \<and>
   (0 \<le> start \<longrightarrow> 0 \<le> num \<longrightarrow> start + num \<le> int (length fs) \<longrightarrow>
      DeleteSubrange start num fs = Some (take (nat start) fs @ drop (nat (start + num)) fs)) \<and>
   (0 < num \<longrightarrow> start < 0 \<or> int (length fs) < start + num \<longrightarrow> DeleteSubrange start num fs = None) \<and>
   MergeFrom gs fs = fs @ gs \<and> MergeFromAndDestroy gs fs = (fs @ gs, []) \<and> AddField f fs = fs @ [f]"
  by (auto simp: DeleteByNumber_filter DeleteSubrange_exact MergeFrom_append MergeFromAndDestroy_append AddField_def)
     (auto simp: DeleteSubrange_def)

theorem unknown_set_edits_witness:
  "DeleteSubrange 1 2 [UnknownVarint 1 1, UnknownVarint 2 2, UnknownVarint 3 3, UnknownVarint 4 4] = Some [UnknownVarint 1 1, UnknownVarint 4 4] \<and>
   DeleteSubrange 3 2 [UnknownVarint 1 1, UnknownVarint 2 2, UnknownVarint 3 3, UnknownVarint 4 4] = None"
  using unknown_set_edits [where start = 1 and num = 2 and fs = "[UnknownVarint 1 1, UnknownVarint 2 2, UnknownVarint 3 3, UnknownVarint 4 4]"]
    unknown_set_edits [where start = 3 and num = 2 and fs = "[UnknownVarint 1 1, UnknownVarint 2 2, UnknownVarint 3 3, UnknownVarint 4 4]"] by simp

end
