(* ===== verification/Parse_Context.thy ===== *)
theory Parse_Context
  imports Unknown_Fields
begin

text \<open>
  \<open>EpsCopyInputStream\<close> and \<open>ParseContext\<close> of parse_context.h and parse_context.cc, the input of the parser of messages.
  The parser may read 16 bytes behind the end of the current buffer without a check: the last 16 bytes of a chunk are
  the first ones of the next buffer, for which they are copied into a patch buffer of 32 bytes. A pointer is a position in
  the patch buffer or in the chunk that the stream handed out last (in the array, without a stream); comparing
  pointers into different memories, reading outside, and using a null stream give \<open>None\<close>. A null pointer
  that the code returns is the \<open>None\<close> of a \<open>pointer option\<close>.
\<close>

section \<open>Varints and integers in memory\<close>

text \<open>The readers get the bytes from their pointer to the end of the memory, and return how many they used, or a null
  pointer.\<close>

definition byte_at :: "byte list \<Rightarrow> nat \<Rightarrow> byte option" where
  "byte_at bs i = (if i < length bs then Some (bs ! i) else None)"

text \<open>The loop \<open>for (; i < n; i++) { byte = p[i]; res += (byte - 1) << (7 * i); if (byte < 128) return {p + i + 1, res}; }\<close>,
  with \<open>k\<close> rounds to go: it returns, or leaves \<open>res\<close> to what follows.\<close>

fun varint_digits :: "nat \<Rightarrow> nat \<Rightarrow> byte list \<Rightarrow> 'w::len word \<Rightarrow> (nat \<times> 'w word + 'w word) option" where
  "varint_digits 0 i bs res = Some (Inr res)"
| "varint_digits (Suc k) i bs res =
     do {
       b \<leftarrow> byte_at bs i;
       let res = res + push_bit (7 * i) (ucast b - 1);
       if b < 128 then Some (Inl (i + 1, res)) else varint_digits k (i + 1) bs res
     }"

fun skip_digits :: "nat \<Rightarrow> nat \<Rightarrow> byte list \<Rightarrow> nat option option" where
  "skip_digits 0 i bs = Some None"
| "skip_digits (Suc k) i bs = do { b \<leftarrow> byte_at bs i; if b < 128 then Some (Some (i + 1)) else skip_digits k (i + 1) bs }"

definition VarintParseSlow32 :: "byte list \<Rightarrow> uint32 \<Rightarrow> (nat \<times> uint32) option option" where
  "VarintParseSlow32 bs res =
     do {
       r \<leftarrow> varint_digits 3 2 bs res;
       case r of Inl x \<Rightarrow> Some (Some x)
       | Inr res \<Rightarrow> do { r \<leftarrow> skip_digits 5 5 bs; Some (map_option (\<lambda>n. (n, res)) r) }
     }"

definition VarintParseSlow64 :: "byte list \<Rightarrow> uint32 \<Rightarrow> (nat \<times> uint64) option option" where
  "VarintParseSlow64 bs res32 =
     do {
       r \<leftarrow> varint_digits 8 2 bs (ucast res32);
       Some (case r of Inl x \<Rightarrow> Some x | Inr _ \<Rightarrow> None)
     }"

definition VarintParse32 :: "byte list \<Rightarrow> (nat \<times> uint32) option option" where
  "VarintParse32 bs =
     do {
       b \<leftarrow> byte_at bs 0;
       let res = (ucast b :: uint32);
       if res AND 0x80 = 0 then Some (Some (1, res))
       else do {
         b \<leftarrow> byte_at bs 1;
         let byte = (ucast b :: uint32);
         let res = res + push_bit 7 (byte - 1);
         if byte AND 0x80 = 0 then Some (Some (2, res)) else VarintParseSlow32 bs res
       }
     }"

definition VarintParse64 :: "byte list \<Rightarrow> (nat \<times> uint64) option option" where
  "VarintParse64 bs =
     do {
       b \<leftarrow> byte_at bs 0;
       let res = (ucast b :: uint32);
       if res AND 0x80 = 0 then Some (Some (1, ucast res))
       else do {
         b \<leftarrow> byte_at bs 1;
         let byte = (ucast b :: uint32);
         let res = res + push_bit 7 (byte - 1);
         if byte AND 0x80 = 0 then Some (Some (2, ucast res)) else VarintParseSlow64 bs res
       }
     }"

definition ReadTagFallback :: "byte list \<Rightarrow> uint32 \<Rightarrow> (nat \<times> uint32) option option" where
  "ReadTagFallback bs res =
     do {
       r \<leftarrow> varint_digits 3 2 bs res;
       Some (case r of Inl x \<Rightarrow> Some x | Inr _ \<Rightarrow> None)
     }"

definition Ctx_ReadTag :: "byte list \<Rightarrow> (nat \<times> uint32) option option" where
  "Ctx_ReadTag bs =
     do {
       b \<leftarrow> byte_at bs 0;
       let res = (ucast b :: uint32);
       if res < 128 then Some (Some (1, res))
       else do {
         b \<leftarrow> byte_at bs 1;
         let second = (ucast b :: uint32);
         let res = res + push_bit 7 (second - 1);
         if second < 128 then Some (Some (2, res)) else ReadTagFallback bs res
       }
     }"

text \<open>The caller stores the result in an \<open>int\<close>.\<close>

definition ReadSizeFallback :: "byte list \<Rightarrow> uint32 \<Rightarrow> (nat \<times> uint32) option option" where
  "ReadSizeFallback bs res =
     do {
       r \<leftarrow> varint_digits 3 1 bs res;
       case r of Inl x \<Rightarrow> Some (Some x)
       | Inr res \<Rightarrow> do {
           b \<leftarrow> byte_at bs 4;
           if b \<ge> 8 then Some None
           else
             let res = res + push_bit 28 (ucast b - 1) in
             if uint res > INT_MAX - kSlopBytes then Some None else Some (Some (5, res))
         }
     }"

definition ReadSize :: "byte list \<Rightarrow> (nat \<times> int) option option" where
  "ReadSize bs =
     do {
       b \<leftarrow> byte_at bs 0;
       let res = (ucast b :: uint32);
       if res < 128 then Some (Some (1, sint res))
       else do { r \<leftarrow> ReadSizeFallback bs res; Some (map_option (\<lambda>(n, v). (n, sint v)) r) }
     }"

text \<open>Two digits at once: the value is shifted left by one, its bit 15 tells whether the varint goes on.\<close>

definition DecodeTwoBytes :: "byte list \<Rightarrow> nat \<Rightarrow> (nat \<times> uint32) option" where
  "DecodeTwoBytes bs i =
     do {
       b0 \<leftarrow> byte_at bs i;
       b1 \<leftarrow> byte_at bs (i + 1);
       let value = (ucast b0 + push_bit 8 (ucast b1) :: uint32);
       let x = (scast b0 :: uint32);
       let value = value + x;
       Some (if value < x then i + 2 else i + 1, value AND (x + x))
     }"

fun big_varint_loop :: "nat \<Rightarrow> nat \<Rightarrow> byte list \<Rightarrow> uint64 \<Rightarrow> (nat \<times> uint64) option option" where
  "big_varint_loop 0 i bs res = Some None"
| "big_varint_loop (Suc k) i bs res =
     do {
       (pnew, tmp) \<leftarrow> DecodeTwoBytes bs (2 * i);
       let res = res + push_bit (14 * i - 1) (ucast tmp - 2);
       if \<not> bit tmp 15 then Some (Some (pnew, res)) else big_varint_loop k (i + 1) bs res
     }"

definition ParseBigVarint :: "byte list \<Rightarrow> (nat \<times> uint64) option option" where
  "ParseBigVarint bs =
     do {
       (pnew, tmp) \<leftarrow> DecodeTwoBytes bs 0;
       let res = (ucast (drop_bit 1 tmp) :: uint64);
       if \<not> bit tmp 15 then Some (Some (pnew, res)) else big_varint_loop 4 1 bs res
     }"

definition UnalignedLoad32 :: "byte list \<Rightarrow> uint32 option" where
  "UnalignedLoad32 bs = (if 4 \<le> length bs then Some (ReadLittleEndian32FromArray bs) else None)"

definition UnalignedLoad64 :: "byte list \<Rightarrow> uint64 option" where
  "UnalignedLoad64 bs = (if 8 \<le> length bs then Some (ReadLittleEndian64FromArray bs) else None)"

section \<open>The stream\<close>

text \<open>\<open>in_chunk\<close> is the memory of the chunk, \<open>in_patch\<close> that of \<open>buffer_\<close>. How strings alias the input is left out.\<close>

record 's EpsCopyInputStream =
  in_limit_end :: pointer
  in_end :: pointer
  in_next :: "pointer option"
  in_size :: int
  in_limit :: int
  zcis :: "'s option"
  in_patch :: "byte list"
  in_chunk :: "byte list"
  last_tag_minus_1 :: uint32
  overall_limit :: int

record 's ParseContext = "'s EpsCopyInputStream" +
  depth :: int
  group_depth :: int

definition readable :: "('s, 'm) EpsCopyInputStream_scheme \<Rightarrow> pointer \<Rightarrow> byte list" where
  "readable e p = (case p of Patch i \<Rightarrow> if i < 0 then [] else drop (nat i) (in_patch e)
                   | Chunk i \<Rightarrow> if i < 0 then [] else drop (nat i) (in_chunk e))"

definition copy_bytes :: "('s, 'm) EpsCopyInputStream_scheme \<Rightarrow> pointer \<Rightarrow> int \<Rightarrow> byte list option" where
  "copy_bytes e p n =
     (if n = 0 then Some []
      else if n < 0 \<or> length (readable e p) < nat n then None
      else Some (take (nat n) (readable e p)))"

text \<open>The state of a new object; the members that \<open>InitFrom\<close> sets first have any value.\<close>

definition new_stream :: "int \<Rightarrow> int \<Rightarrow> 's option \<Rightarrow> byte list \<Rightarrow> 's EpsCopyInputStream" where
  "new_stream junk overall s chunk =
     \<lparr>in_limit_end = Patch 0, in_end = Patch 0, in_next = None, in_size = junk, in_limit = 0, zcis = s,
      in_patch = replicate 32 0, in_chunk = chunk, last_tag_minus_1 = 0, overall_limit = overall\<rparr>"

text \<open>From an array; \<open>junk\<close> is the value of the member \<open>size_\<close>, which is not initialised.\<close>

definition InitFrom_flat :: "int \<Rightarrow> byte list \<Rightarrow> pointer \<times> 's EpsCopyInputStream" where
  "InitFrom_flat junk flat =
     (let e = new_stream junk 0 None flat; n = int (length flat) in
      if n > kSlopBytes then
        (Chunk 0, e\<lparr>in_limit := kSlopBytes, in_limit_end := Chunk (n - kSlopBytes), in_end := Chunk (n - kSlopBytes),
           in_next := Some (Patch 0)\<rparr>)
      else
        (Patch 0, e\<lparr>in_patch := overwrite 0 flat (in_patch e), in_limit := 0, in_limit_end := Patch n, in_end := Patch n,
           in_next := None\<rparr>))"

definition InitFrom_overall :: "'s ZeroCopyInputStream \<Rightarrow> int \<Rightarrow> int \<Rightarrow> 's \<Rightarrow> (pointer \<times> 's EpsCopyInputStream) option" where
  "InitFrom_overall ops junk overall s =
     do {
       (r, s) \<leftarrow> Next ops s;
       let e = new_stream junk overall (Some s) [];
       let e = e\<lparr>in_limit := INT_MAX\<rparr>;
       Some (case r of
         Some data \<Rightarrow>
           let n = int (length data); e = e\<lparr>in_chunk := data, overall_limit := overall_limit e - n\<rparr> in
           if n > kSlopBytes then
             (Chunk 0, e\<lparr>in_limit := in_limit e - (n - kSlopBytes), in_limit_end := Chunk (n - kSlopBytes),
                in_end := Chunk (n - kSlopBytes), in_next := Some (Patch 0)\<rparr>)
           else
             let p = 2 * kSlopBytes - n in
             (Patch p, e\<lparr>in_limit_end := Patch kSlopBytes, in_end := Patch kSlopBytes, in_next := Some (Patch 0),
                in_patch := overwrite (nat p) data (in_patch e)\<rparr>)
       | None \<Rightarrow>
           (Patch 0, e\<lparr>overall_limit := 0, in_next := None, in_size := 0, in_limit_end := Patch 0, in_end := Patch 0\<rparr>))
     }"

definition InitFrom_stream :: "'s ZeroCopyInputStream \<Rightarrow> int \<Rightarrow> 's \<Rightarrow> (pointer \<times> 's EpsCopyInputStream) option" where
  "InitFrom_stream ops junk s = InitFrom_overall ops junk INT_MAX s"

text \<open>The limit is computed without the bounds of \<open>int\<close>. In the code \<open>limit - (buffer_end - res)\<close> overflows if the first chunk is
  shorter than 16 bytes by more than \<open>INT_MAX - limit\<close>; what happens then is undefined in C++.\<close>

definition InitFrom_bounded ::
    "'s ZeroCopyInputStream \<Rightarrow> int \<Rightarrow> 's \<Rightarrow> int \<Rightarrow> (pointer \<times> 's EpsCopyInputStream) option" where
  "InitFrom_bounded ops junk s bound =
     (if bound = - 1 then InitFrom_stream ops junk s
      else do {
        (res, e) \<leftarrow> InitFrom_overall ops junk bound s;
        d \<leftarrow> ptr_diff (in_end e) res;
        let e = e\<lparr>in_limit := bound - d\<rparr>;
        Some (res, e\<lparr>in_limit_end := ptr_add (in_end e) (min 0 (in_limit e))\<rparr>)
      })"

section \<open>Limits and ends\<close>

definition Ctx_PushLimit :: "pointer \<Rightarrow> int \<Rightarrow> ('s, 'm) EpsCopyInputStream_scheme \<Rightarrow> (int \<times> ('s, 'm) EpsCopyInputStream_scheme) option" where
  "Ctx_PushLimit p bound e =
     do {
       d \<leftarrow> ptr_diff p (in_end e);
       let bound = bound + d;
       Some (in_limit e - bound, e\<lparr>in_limit_end := ptr_add (in_end e) (min 0 bound), in_limit := bound\<rparr>)
     }"

definition EndedAtLimit :: "('s, 'm) EpsCopyInputStream_scheme \<Rightarrow> bool" where
  "EndedAtLimit e \<longleftrightarrow> last_tag_minus_1 e = 0"

definition EndedAtEndOfStream :: "('s, 'm) EpsCopyInputStream_scheme \<Rightarrow> bool" where
  "EndedAtEndOfStream e \<longleftrightarrow> last_tag_minus_1 e = 1"

definition LastTag :: "('s, 'm) EpsCopyInputStream_scheme \<Rightarrow> uint32" where
  "LastTag e = last_tag_minus_1 e + 1"

definition Ctx_SetLastTag :: "uint32 \<Rightarrow> ('s, 'm) EpsCopyInputStream_scheme \<Rightarrow> ('s, 'm) EpsCopyInputStream_scheme" where
  "Ctx_SetLastTag tag e = e\<lparr>last_tag_minus_1 := tag - 1\<rparr>"

definition SetEndOfStream :: "('s, 'm) EpsCopyInputStream_scheme \<Rightarrow> ('s, 'm) EpsCopyInputStream_scheme" where
  "SetEndOfStream e = e\<lparr>last_tag_minus_1 := 1\<rparr>"

definition ConsumeEndGroup :: "uint32 \<Rightarrow> ('s, 'm) EpsCopyInputStream_scheme \<Rightarrow> bool \<times> ('s, 'm) EpsCopyInputStream_scheme" where
  "ConsumeEndGroup start_tag e = (last_tag_minus_1 e = start_tag, e\<lparr>last_tag_minus_1 := 0\<rparr>)"

definition Ctx_PopLimit :: "int \<Rightarrow> ('s, 'm) EpsCopyInputStream_scheme \<Rightarrow> bool \<times> ('s, 'm) EpsCopyInputStream_scheme" where
  "Ctx_PopLimit delta e =
     (if \<not> EndedAtLimit e then (False, e)
      else
        let e = e\<lparr>in_limit := in_limit e + delta\<rparr> in
        (True, e\<lparr>in_limit_end := ptr_add (in_end e) (min 0 (in_limit e))\<rparr>))"

definition IsExceedingLimit :: "pointer \<Rightarrow> ('s, 'm) EpsCopyInputStream_scheme \<Rightarrow> bool option" where
  "IsExceedingLimit p e =
     do {
       l \<leftarrow> ptr_diff p (in_limit_end e);
       d \<leftarrow> ptr_diff p (in_end e);
       Some (l > 0 \<and> (in_next e = None \<or> d > in_limit e))
     }"

definition Ctx_BytesUntilLimit :: "pointer \<Rightarrow> ('s, 'm) EpsCopyInputStream_scheme \<Rightarrow> int option" where
  "Ctx_BytesUntilLimit p e = do { d \<leftarrow> ptr_diff (in_end e) p; Some (in_limit e + d) }"

definition DataAvailable :: "pointer \<Rightarrow> ('s, 'm) EpsCopyInputStream_scheme \<Rightarrow> bool option" where
  "DataAvailable p e = do { d \<leftarrow> ptr_diff p (in_limit_end e); Some (d < 0) }"

section \<open>Buffers\<close>

text \<open>Whether the parser, at a tag \<open>i\<close> bytes into the slop region, will end in that region, by a tag that is 0
  or by an end-group tag of the enclosing group. The region is the first 16 bytes of the patch buffer.\<close>

partial_function (option) slop_loop :: "byte list \<Rightarrow> nat \<Rightarrow> int \<Rightarrow> bool option" where
  "slop_loop bs i d =
     (if i < 16 then do {
        r \<leftarrow> Ctx_ReadTag (drop i bs);
        case r of
          None \<Rightarrow> Some False
        | Some (n, tag) \<Rightarrow>
            let i = i + n in
            if i > 16 then Some False
            else if tag = 0 then Some True
            else if tag AND 7 = 0 then do {
              r \<leftarrow> VarintParse64 (drop i bs);
              case r of None \<Rightarrow> Some False | Some (n, v) \<Rightarrow> slop_loop bs (i + n) d
            } else if tag AND 7 = 1 then slop_loop bs (i + 8) d
            else if tag AND 7 = 2 then do {
              r \<leftarrow> ReadSize (drop i bs);
              case r of
                None \<Rightarrow> Some False
              | Some (n, k) \<Rightarrow> if k > 16 - int (i + n) then Some False else slop_loop bs (i + n + nat k) d
            } else if tag AND 7 = 3 then slop_loop bs i (d + 1)
            else if tag AND 7 = 4 then (if d - 1 < 0 then Some True else slop_loop bs i (d - 1))
            else if tag AND 7 = 5 then slop_loop bs (i + 4) d
            else Some False
      } else Some False)"

definition ParseEndsInSlopRegion :: "byte list \<Rightarrow> int \<Rightarrow> int \<Rightarrow> bool option" where
  "ParseEndsInSlopRegion bs overrun d = (if overrun < 0 then None else slop_loop bs (nat overrun) d)"

text \<open>The memory of the previous chunk is gone once the stream has been asked for the next.\<close>

definition StreamNext ::
    "'s ZeroCopyInputStream \<Rightarrow> ('s, 'm) EpsCopyInputStream_scheme \<Rightarrow> (byte list option \<times> ('s, 'm) EpsCopyInputStream_scheme) option" where
  "StreamNext ops e =
     do {
       s \<leftarrow> zcis e;
       (r, s) \<leftarrow> Next ops s;
       let e = e\<lparr>zcis := Some s\<rparr>;
       Some (case r of
         None \<Rightarrow> (None, e\<lparr>in_chunk := []\<rparr>)
       | Some data \<Rightarrow>
           (Some data, e\<lparr>in_chunk := data, in_size := int (length data), overall_limit := overall_limit e - int (length data)\<rparr>))
     }"

definition StreamBackUp ::
    "'s ZeroCopyInputStream \<Rightarrow> int \<Rightarrow> ('s, 'm) EpsCopyInputStream_scheme \<Rightarrow> ('s, 'm) EpsCopyInputStream_scheme option" where
  "StreamBackUp ops count e =
     do {
       s \<leftarrow> zcis e;
       s \<leftarrow> BackUp ops count s;
       Some (e\<lparr>zcis := Some s, in_chunk := [], overall_limit := overall_limit e + count\<rparr>)
     }"

text \<open>\<open>while (StreamNext(&data)) { if (size_ > 0) ... }\<close>.\<close>

partial_function (option) stream_chunk ::
    "'s ZeroCopyInputStream \<Rightarrow> ('s, 'm) EpsCopyInputStream_scheme \<Rightarrow> (byte list option \<times> ('s, 'm) EpsCopyInputStream_scheme) option" where
  "stream_chunk ops e =
     do {
       (r, e) \<leftarrow> StreamNext ops e;
       if r = Some [] then stream_chunk ops e else Some (r, e)
     }"

declare stream_chunk.simps [code] slop_loop.simps [code]

definition next_from_stream ::
    "'s ZeroCopyInputStream \<Rightarrow> ('s, 'm) EpsCopyInputStream_scheme \<Rightarrow> (bool \<times> ('s, 'm) EpsCopyInputStream_scheme) option" where
  "next_from_stream ops e =
     do {
       (r, e) \<leftarrow> stream_chunk ops e;
       Some (case r of
         None \<Rightarrow> (False, e\<lparr>overall_limit := 0\<rparr>)
       | Some data \<Rightarrow>
           if in_size e > kSlopBytes then
             (True, e\<lparr>in_patch := overwrite 16 (take 16 data) (in_patch e), in_next := Some (Chunk 0), in_end := Patch kSlopBytes\<rparr>)
           else
             (True, e\<lparr>in_patch := overwrite 16 data (in_patch e), in_next := Some (Patch 0), in_end := Patch (in_size e)\<rparr>))
     }"

definition NextBuffer ::
    "'s ZeroCopyInputStream \<Rightarrow> int \<Rightarrow> int \<Rightarrow> ('s, 'm) EpsCopyInputStream_scheme \<Rightarrow>
      (pointer option \<times> ('s, 'm) EpsCopyInputStream_scheme) option" where
  "NextBuffer ops overrun d e =
     (case in_next e of
        None \<Rightarrow> Some (None, e)
      | Some (Chunk i) \<Rightarrow> Some (Some (Chunk i), e\<lparr>in_end := Chunk (i + in_size e - kSlopBytes), in_next := Some (Patch 0)\<rparr>)
      | Some (Patch _) \<Rightarrow> do {
          slop \<leftarrow> copy_bytes e (in_end e) kSlopBytes;
          let e = e\<lparr>in_patch := overwrite 0 slop (in_patch e)\<rparr>;
          go_on \<leftarrow> (if overall_limit e > 0 then
                      if d < 0 then Some True else map_option Not (ParseEndsInSlopRegion (in_patch e) overrun d)
                    else Some False);
          (b, e) \<leftarrow> (if go_on then next_from_stream ops e else Some (False, e));
          Some (Some (Patch 0), if b then e else e\<lparr>in_next := None, in_end := Patch kSlopBytes, in_size := 0\<rparr>)
        })"

definition Ctx_Next ::
    "'s ZeroCopyInputStream \<Rightarrow> ('s, 'm) EpsCopyInputStream_scheme \<Rightarrow> (pointer option \<times> ('s, 'm) EpsCopyInputStream_scheme) option" where
  "Ctx_Next ops e =
     do {
       (r, e) \<leftarrow> NextBuffer ops 0 (- 1) e;
       case r of
         None \<Rightarrow> Some (None, SetEndOfStream (e\<lparr>in_limit_end := in_end e\<rparr>))
       | Some p \<Rightarrow> do {
           d \<leftarrow> ptr_diff (in_end e) p;
           let e = e\<lparr>in_limit := in_limit e - d\<rparr>;
           Some (Some p, e\<lparr>in_limit_end := ptr_add (in_end e) (min 0 (in_limit e))\<rparr>)
         }
     }"

text \<open>\<open>do { ... } while (overrun >= 0)\<close>. The result: the pointer, whether the parse is done, the stream.\<close>

partial_function (option) done_loop ::
    "'s ZeroCopyInputStream \<Rightarrow> int \<Rightarrow> int \<Rightarrow> ('s, 'm) EpsCopyInputStream_scheme \<Rightarrow>
      (pointer option \<times> bool \<times> ('s, 'm) EpsCopyInputStream_scheme) option" where
  "done_loop ops overrun d e =
     do {
       (r, e) \<leftarrow> NextBuffer ops overrun d e;
       case r of
         None \<Rightarrow>
           if overrun \<noteq> 0 then Some (None, True, e)
           else Some (Some (in_end e), True, SetEndOfStream (e\<lparr>in_limit_end := in_end e\<rparr>))
       | Some p \<Rightarrow> do {
           n \<leftarrow> ptr_diff (in_end e) p;
           let e = e\<lparr>in_limit := in_limit e - n\<rparr>;
           let p = ptr_add p overrun;
           overrun \<leftarrow> ptr_diff p (in_end e);
           if overrun \<ge> 0 then done_loop ops overrun d e
           else Some (Some p, False, e\<lparr>in_limit_end := ptr_add (in_end e) (min 0 (in_limit e))\<rparr>)
         }
     }"

declare done_loop.simps [code]

definition DoneFallback ::
    "'s ZeroCopyInputStream \<Rightarrow> int \<Rightarrow> int \<Rightarrow> ('s, 'm) EpsCopyInputStream_scheme \<Rightarrow>
      (pointer option \<times> bool \<times> ('s, 'm) EpsCopyInputStream_scheme) option" where
  "DoneFallback ops overrun d e = (if overrun > in_limit e then Some (None, True, e) else done_loop ops overrun d e)"

definition DoneWithCheck ::
    "'s ZeroCopyInputStream \<Rightarrow> int \<Rightarrow> pointer \<Rightarrow> ('s, 'm) EpsCopyInputStream_scheme \<Rightarrow>
      (pointer option \<times> bool \<times> ('s, 'm) EpsCopyInputStream_scheme) option" where
  "DoneWithCheck ops d p e =
     do {
       l \<leftarrow> ptr_diff p (in_limit_end e);
       if l < 0 then Some (Some p, False, e)
       else do {
         overrun \<leftarrow> ptr_diff p (in_end e);
         if overrun = in_limit e then Some (if overrun > 0 \<and> in_next e = None then None else Some p, True, e)
         else DoneFallback ops overrun d e
       }
     }"

definition Ctx_Done ::
    "'s ZeroCopyInputStream \<Rightarrow> pointer \<Rightarrow> ('s, 'm) ParseContext_scheme \<Rightarrow> (pointer option \<times> bool \<times> ('s, 'm) ParseContext_scheme) option" where
  "Ctx_Done ops p e = DoneWithCheck ops (group_depth e) p e"

definition Ctx_BackUp :: "'s ZeroCopyInputStream \<Rightarrow> pointer \<Rightarrow> ('s, 'm) EpsCopyInputStream_scheme \<Rightarrow> ('s, 'm) EpsCopyInputStream_scheme option" where
  "Ctx_BackUp ops p e =
     do {
       d \<leftarrow> ptr_diff (in_end e) p;
       let count = (if in_next e = Some (Patch 0) then d + kSlopBytes else in_size e + d);
       if count > 0 then StreamBackUp ops count e else Some e
     }"

section \<open>Strings\<close>

text \<open>\<open>app\<close> gets the memory, a pointer and a length.\<close>

partial_function (option) AppendSize ::
    "'s ZeroCopyInputStream \<Rightarrow> (('s, 'm) EpsCopyInputStream_scheme \<Rightarrow> pointer \<Rightarrow> int \<Rightarrow> 'a \<Rightarrow> 'a option) \<Rightarrow>
      pointer \<Rightarrow> int \<Rightarrow> 'a \<Rightarrow> ('s, 'm) EpsCopyInputStream_scheme \<Rightarrow>
      (pointer option \<times> 'a \<times> ('s, 'm) EpsCopyInputStream_scheme) option" where
  "AppendSize ops app p n a e =
     do {
       d \<leftarrow> ptr_diff (in_end e) p;
       let chunk_size = d + kSlopBytes;
       if in_next e = None then Some (None, a, e)
       else do {
         a \<leftarrow> app e p chunk_size a;
         let n = n - chunk_size;
         if in_limit e \<le> kSlopBytes then Some (None, a, e)
         else do {
           (r, e) \<leftarrow> Ctx_Next ops e;
           case r of
             None \<Rightarrow> Some (None, a, e)
           | Some p \<Rightarrow> do {
               let p = ptr_add p kSlopBytes;
               d \<leftarrow> ptr_diff (in_end e) p;
               if n > d + kSlopBytes then AppendSize ops app p n a e
               else do { a \<leftarrow> app e p n a; Some (Some (ptr_add p n), a, e) }
             }
         }
       }
     }"

declare AppendSize.simps [code]

definition append_string :: "('s, 'm) EpsCopyInputStream_scheme \<Rightarrow> pointer \<Rightarrow> int \<Rightarrow> byte list \<Rightarrow> byte list option" where
  "append_string e p n s = do { data \<leftarrow> copy_bytes e p n; Some (s @ data) }"

definition Ctx_SkipFallback ::
    "'s ZeroCopyInputStream \<Rightarrow> pointer \<Rightarrow> int \<Rightarrow> ('s, 'm) EpsCopyInputStream_scheme \<Rightarrow>
      (pointer option \<times> ('s, 'm) EpsCopyInputStream_scheme) option" where
  "Ctx_SkipFallback ops p n e = do { (r, _, e) \<leftarrow> AppendSize ops (\<lambda>_ _ _. Some) p n () e; Some (r, e) }"

definition ReadStringFallback ::
    "'s ZeroCopyInputStream \<Rightarrow> pointer \<Rightarrow> int \<Rightarrow> ('s, 'm) EpsCopyInputStream_scheme \<Rightarrow>
      (pointer option \<times> byte list \<times> ('s, 'm) EpsCopyInputStream_scheme) option" where
  "ReadStringFallback ops p n e = AppendSize ops append_string p n [] e"

definition AppendStringFallback ::
    "'s ZeroCopyInputStream \<Rightarrow> pointer \<Rightarrow> int \<Rightarrow> byte list \<Rightarrow> ('s, 'm) EpsCopyInputStream_scheme \<Rightarrow>
      (pointer option \<times> byte list \<times> ('s, 'm) EpsCopyInputStream_scheme) option" where
  "AppendStringFallback ops p n s e = AppendSize ops append_string p n s e"

definition Ctx_Skip ::
    "'s ZeroCopyInputStream \<Rightarrow> pointer \<Rightarrow> int \<Rightarrow> ('s, 'm) EpsCopyInputStream_scheme \<Rightarrow>
      (pointer option \<times> ('s, 'm) EpsCopyInputStream_scheme) option" where
  "Ctx_Skip ops p n e =
     do {
       d \<leftarrow> ptr_diff (in_end e) p;
       if n \<le> d + kSlopBytes then Some (Some (ptr_add p n), e) else Ctx_SkipFallback ops p n e
     }"

definition Ctx_ReadString ::
    "'s ZeroCopyInputStream \<Rightarrow> pointer \<Rightarrow> int \<Rightarrow> ('s, 'm) EpsCopyInputStream_scheme \<Rightarrow>
      (pointer option \<times> byte list \<times> ('s, 'm) EpsCopyInputStream_scheme) option" where
  "Ctx_ReadString ops p n e =
     do {
       d \<leftarrow> ptr_diff (in_end e) p;
       if n \<le> d + kSlopBytes then do { s \<leftarrow> copy_bytes e p n; Some (Some (ptr_add p n), s, e) }
       else ReadStringFallback ops p n e
     }"

definition Ctx_AppendString ::
    "'s ZeroCopyInputStream \<Rightarrow> pointer \<Rightarrow> int \<Rightarrow> byte list \<Rightarrow> ('s, 'm) EpsCopyInputStream_scheme \<Rightarrow>
      (pointer option \<times> byte list \<times> ('s, 'm) EpsCopyInputStream_scheme) option" where
  "Ctx_AppendString ops p n s e =
     do {
       d \<leftarrow> ptr_diff (in_end e) p;
       if n \<le> d + kSlopBytes then do { data \<leftarrow> copy_bytes e p n; Some (Some (ptr_add p n), s @ data, e) }
       else AppendStringFallback ops p n s e
     }"

section \<open>Packed fields\<close>

text \<open>Varints from index \<open>i\<close> of the bytes at a pointer up to the end.\<close>

partial_function (option) ReadPackedVarintArray ::
    "(uint64 \<Rightarrow> 'a \<Rightarrow> 'a option) \<Rightarrow> byte list \<Rightarrow> nat \<Rightarrow> int \<Rightarrow> 'a \<Rightarrow> (nat option \<times> 'a) option" where
  "ReadPackedVarintArray add bs i stop a =
     (if int i < stop then do {
        r \<leftarrow> VarintParse64 (drop i bs);
        case r of None \<Rightarrow> Some (None, a)
        | Some (n, v) \<Rightarrow> do { a \<leftarrow> add v a; ReadPackedVarintArray add bs (i + n) stop a }
      } else Some (Some i, a))"

text \<open>The last bytes are read from a copy of the slop region, \<open>buf\<close>, with ten zeros behind it.\<close>

partial_function (option) packed_varint_loop ::
    "'s ZeroCopyInputStream \<Rightarrow> (uint64 \<Rightarrow> 'a \<Rightarrow> 'a option) \<Rightarrow> pointer \<Rightarrow> int \<Rightarrow> 'a \<Rightarrow> ('s, 'm) EpsCopyInputStream_scheme \<Rightarrow>
      (pointer option \<times> 'a \<times> ('s, 'm) EpsCopyInputStream_scheme) option" where
  "packed_varint_loop ops add p n a e =
     do {
       chunk_size \<leftarrow> ptr_diff (in_end e) p;
       if n > chunk_size then do {
         (r, a) \<leftarrow> ReadPackedVarintArray add (readable e p) 0 chunk_size a;
         case r of None \<Rightarrow> Some (None, a, e)
         | Some i \<Rightarrow>
             let overrun = int i - chunk_size in
             if n - chunk_size \<le> kSlopBytes then do {
               slop \<leftarrow> copy_bytes e (in_end e) kSlopBytes;
               (r, a) \<leftarrow> ReadPackedVarintArray add (slop @ replicate 10 0) (nat overrun) (n - chunk_size) a;
               Some (case r of None \<Rightarrow> None | Some j \<Rightarrow> if int j = n - chunk_size then Some (ptr_add (in_end e) (int j)) else None, a, e)
             }
             else
               let n = n - (overrun + chunk_size) in
               if in_limit e \<le> kSlopBytes then Some (None, a, e)
               else do {
                 (r, e) \<leftarrow> Ctx_Next ops e;
                 case r of None \<Rightarrow> Some (None, a, e) | Some p \<Rightarrow> packed_varint_loop ops add (ptr_add p overrun) n a e
               }
       } else do {
         (r, a) \<leftarrow> ReadPackedVarintArray add (readable e p) 0 n a;
         Some (case r of None \<Rightarrow> None | Some i \<Rightarrow> if int i = n then Some (ptr_add p n) else None, a, e)
       }
     }"

declare ReadPackedVarintArray.simps [code] packed_varint_loop.simps [code]

definition ReadPackedVarint ::
    "'s ZeroCopyInputStream \<Rightarrow> (uint64 \<Rightarrow> 'a \<Rightarrow> 'a option) \<Rightarrow> pointer \<Rightarrow> 'a \<Rightarrow> ('s, 'm) EpsCopyInputStream_scheme \<Rightarrow>
      (pointer option \<times> 'a \<times> ('s, 'm) EpsCopyInputStream_scheme) option" where
  "ReadPackedVarint ops add p a e =
     do {
       r \<leftarrow> ReadSize (readable e p);
       case r of None \<Rightarrow> Some (None, a, e) | Some (i, n) \<Rightarrow> packed_varint_loop ops add (ptr_add p (int i)) n a e
     }"

text \<open>The element of the field, by its type.\<close>

definition packed_scalar :: "FieldType \<Rightarrow> uint64 \<Rightarrow> scalar" where
  "packed_scalar t v =
     (if t = TYPE_BOOL then Boolean (v \<noteq> 0)
      else if t = TYPE_SINT64 then Word64 (ZigZagDecode64 v)
      else if t = TYPE_SINT32 then Word32 (ZigZagDecode32 (ucast v))
      else if t \<in> {TYPE_INT64, TYPE_UINT64} then Word64 v
      else Word32 (ucast v))"

definition VarintParser ::
    "FieldType \<Rightarrow> 's ZeroCopyInputStream \<Rightarrow> pointer \<Rightarrow> scalar RepeatedField \<Rightarrow> ('s, 'm) EpsCopyInputStream_scheme \<Rightarrow>
      (pointer option \<times> scalar RepeatedField \<times> ('s, 'm) EpsCopyInputStream_scheme) option" where
  "VarintParser t ops = ReadPackedVarint ops (\<lambda>v. Repeated_Add (packed_scalar t v))"

text \<open>An enumeration whose unknown values are kept in a set of unknown fields.\<close>

definition PackedEnumParser ::
    "(uint32 \<Rightarrow> bool) \<Rightarrow> uint32 \<Rightarrow> 's ZeroCopyInputStream \<Rightarrow> pointer \<Rightarrow> scalar RepeatedField \<times> UnknownFieldSet \<Rightarrow>
      ('s, 'm) EpsCopyInputStream_scheme \<Rightarrow>
      (pointer option \<times> (scalar RepeatedField \<times> UnknownFieldSet) \<times> ('s, 'm) EpsCopyInputStream_scheme) option" where
  "PackedEnumParser is_valid field_num ops =
     ReadPackedVarint ops (\<lambda>v (vs, unknown).
       if is_valid (ucast v) then do { vs \<leftarrow> Repeated_Add (Word32 (ucast v)) vs; Some (vs, unknown) }
       else Some (vs, AddVarint field_num v unknown))"

text \<open>Fixed-width elements are copied in blocks.\<close>

definition packed_block ::
    "FieldType \<Rightarrow> int \<Rightarrow> byte list \<Rightarrow> scalar RepeatedField \<Rightarrow> scalar RepeatedField option" where
  "packed_block t num bs vs =
     (if length bs < nat num * elem_size t then None
      else do {
        let old_entries = current_size vs;
        vs \<leftarrow> Reserve (old_entries + num) vs;
        let vs = AddNAlreadyReserved num vs;
        es \<leftarrow> copy_elements num (map Some (load_scalars t (nat num) bs)) old_entries (elements vs);
        Some (vs\<lparr>elements := es\<rparr>)
      })"

partial_function (option) ReadPackedFixed ::
    "FieldType \<Rightarrow> 's ZeroCopyInputStream \<Rightarrow> pointer \<Rightarrow> int \<Rightarrow> scalar RepeatedField \<Rightarrow> ('s, 'm) EpsCopyInputStream_scheme \<Rightarrow>
      (pointer option \<times> scalar RepeatedField \<times> ('s, 'm) EpsCopyInputStream_scheme) option" where
  "ReadPackedFixed t ops p n vs e =
     do {
       d \<leftarrow> ptr_diff (in_end e) p;
       let nbytes = d + kSlopBytes;
       if n > nbytes then
         let num = nbytes div int (elem_size t); block_size = num * int (elem_size t) in
         do {
           vs \<leftarrow> packed_block t num (readable e p) vs;
           if in_limit e \<le> kSlopBytes then Some (None, vs, e)
           else do {
             (r, e) \<leftarrow> Ctx_Next ops e;
             case r of None \<Rightarrow> Some (None, vs, e)
             | Some p \<Rightarrow> ReadPackedFixed t ops (ptr_add p (kSlopBytes - (nbytes - block_size))) (n - block_size) vs e
           }
         }
       else
         let num = n div int (elem_size t); block_size = num * int (elem_size t) in
         do {
           vs \<leftarrow> packed_block t num (readable e p) vs;
           Some (if n \<noteq> block_size then None else Some (ptr_add p block_size), vs, e)
         }
     }"

declare ReadPackedFixed.simps [code]

definition FixedParser ::
    "FieldType \<Rightarrow> 's ZeroCopyInputStream \<Rightarrow> pointer \<Rightarrow> scalar RepeatedField \<Rightarrow> ('s, 'm) EpsCopyInputStream_scheme \<Rightarrow>
      (pointer option \<times> scalar RepeatedField \<times> ('s, 'm) EpsCopyInputStream_scheme) option" where
  "FixedParser t ops p vs e =
     do {
       r \<leftarrow> ReadSize (readable e p);
       case r of None \<Rightarrow> Some (None, vs, e) | Some (i, n) \<Rightarrow> ReadPackedFixed t ops (ptr_add p (int i)) n vs e
     }"

definition InlineGreedyStringParser ::
    "'s ZeroCopyInputStream \<Rightarrow> pointer \<Rightarrow> ('s, 'm) EpsCopyInputStream_scheme \<Rightarrow>
      (pointer option \<times> byte list option \<times> ('s, 'm) EpsCopyInputStream_scheme) option" where
  "InlineGreedyStringParser ops p e =
     do {
       r \<leftarrow> ReadSize (readable e p);
       case r of None \<Rightarrow> Some (None, None, e)
       | Some (i, n) \<Rightarrow> do { (r, s, e) \<leftarrow> Ctx_ReadString ops (ptr_add p (int i)) n e; Some (r, Some s, e) }
     }"

end
