(* ===== verification/Parse_Varint.thy ===== *)
theory Parse_Varint
  imports Parse_Context Unknown_Roundtrip
begin

text \<open>
  The varint readers of parse_context.h and parse_context.cc against the reference \<open>parse_varint\<close>: tags and sizes are
  varints of at most five bytes, values of at most ten, and the reader that takes two bytes at a time by a trick with
  the carry is the plain one. All of them read only bytes that are there, if enough are there for the longest varint.
\<close>

section \<open>Digit by digit\<close>

text \<open>After \<open>i\<close> bytes that continue, the accumulator has their digits and the top bit of the last one.\<close>

lemma digit_step:
  assumes "res = (of_nat (prefix_val i bs + 128 ^ i) :: 'w::len word)"
  shows "res + push_bit (7 * i) (ucast (b :: byte) - 1) = of_nat (prefix_val i bs + 128 ^ i * unat b)"
  by (simp only: assms push_bit_word ucast_of_nat [of b] of_nat_add of_nat_mult) (simp add: algebra_simps)

lemma carried_digit:
  "\<not> bs ! i < 128 \<Longrightarrow> prefix_val i bs + 128 ^ i * unat (bs ! i) = prefix_val (Suc i) bs + 128 ^ Suc i"
proof -
  assume "\<not> bs ! i < 128"
  then have "unat (bs ! i) = unat (bs ! i) - 128 + 128" by (rule unat_high)
  then have "128 ^ i * unat (bs ! i) = 128 ^ i * (unat (bs ! i) - 128) + 128 ^ i * 128" by (metis distrib_left)
  then show ?thesis by (simp add: prefix_val_def mult.commute)
qed

lemma parse_varint_at:
  assumes "i < k" "i < length bs" "\<And>j. j < i \<Longrightarrow> \<not> bs ! j < 128" "bs ! i < 128"
  shows "parse_varint k bs = VarintOk (prefix_val i bs + 128 ^ i * unat (bs ! i)) (drop (Suc i) bs)"
proof -
  obtain m where m: "k - i = Suc m" using assms(1) by (metis Suc_diff_Suc)
  have d: "drop i bs = bs ! i # drop (Suc i) bs" using assms(2) by (simp add: Cons_nth_drop_Suc)
  show ?thesis
    using parse_varint_prefix [of i k bs] assms m by (simp add: d)
qed

lemma parse_varint_all:
  assumes "k \<le> length bs" "\<And>j. j < k \<Longrightarrow> \<not> bs ! j < 128"
  shows "parse_varint k bs = VarintBad"
  using parse_varint_prefix [of k k bs] assms by simp

lemma varint_cases:
  assumes "k \<le> length bs"
  obtains (ok) v p where "parse_varint k bs = VarintOk v p" | (bad) "parse_varint k bs = VarintBad" "\<And>j. j < k \<Longrightarrow> \<not> bs ! j < 128"
proof (cases "\<exists>j < k. bs ! j < 128")
  case True
  then obtain j where "j < k" "bs ! j < 128" "\<And>i. i < j \<Longrightarrow> \<not> bs ! i < 128"
    using exists_least_iff [of "\<lambda>j. j < k \<and> bs ! j < 128"] by (meson less_trans)
  with parse_varint_at [of j k bs] assms show thesis by (intro ok) simp_all
next
  case False
  with parse_varint_all [OF assms] show thesis by (intro bad) auto
qed

lemma varint_digits_parse:
  assumes "i + k \<le> length bs" "\<And>j. j < i \<Longrightarrow> \<not> bs ! j < 128" "res = of_nat (prefix_val i bs + 128 ^ i)"
  shows "varint_digits k i bs res =
    Some (case parse_varint (i + k) bs of
        VarintOk v p \<Rightarrow> Inl (length bs - length p, of_nat v)
      | _ \<Rightarrow> Inr (of_nat (prefix_val (i + k) bs + 128 ^ (i + k)) :: 'w::len word))"
  using assms
proof (induction k arbitrary: i res)
  case 0
  with parse_varint_all [of i bs] show ?case by simp
next
  case (Suc k)
  have i: "i < length bs" using Suc.prems(1) by simp
  note step = digit_step [OF Suc.prems(3), of "bs ! i"]
  show ?case
  proof (cases "bs ! i < 128")
    case True
    with parse_varint_at [of i "i + Suc k" bs] Suc.prems(1,2) i step show ?thesis
      by (auto simp: byte_at_def)
  next
    case False
    then have all: "\<And>j. j < Suc i \<Longrightarrow> \<not> bs ! j < 128" using Suc.prems(2) less_Suc_eq by auto
    have "res + push_bit (7 * i) (ucast (bs ! i) - 1) = of_nat (prefix_val (Suc i) bs + 128 ^ Suc i)"
      using step carried_digit [OF False] by simp
    from Suc.IH [OF _ all this, unfolded add_Suc_shift] Suc.prems(1) i False show ?thesis by (simp add: byte_at_def)
  qed
qed

lemma skip_digits_parse:
  assumes "i + k \<le> length bs" "\<And>j. j < i \<Longrightarrow> \<not> bs ! j < 128"
  shows "skip_digits k i bs =
    Some (case parse_varint (i + k) bs of VarintOk v p \<Rightarrow> Some (length bs - length p) | _ \<Rightarrow> None)"
  using assms
proof (induction k arbitrary: i)
  case 0
  with parse_varint_all [of i bs] show ?case by simp
next
  case (Suc k)
  have i: "i < length bs" using Suc.prems(1) by simp
  show ?case
  proof (cases "bs ! i < 128")
    case True
    with parse_varint_at [of i "i + Suc k" bs] Suc.prems i show ?thesis by (auto simp: byte_at_def)
  next
    case False
    then have all: "\<And>j. j < Suc i \<Longrightarrow> \<not> bs ! j < 128" using Suc.prems(2) less_Suc_eq by auto
    from Suc.IH [OF _ all] Suc.prems(1) i False show ?thesis by (simp add: byte_at_def)
  qed
qed

text \<open>A varint that a reader of \<open>k\<close> bytes accepts is the same for a reader of more bytes.\<close>

lemma parse_varint_more: "parse_varint k bs = VarintOk v p \<Longrightarrow> k \<le> m \<Longrightarrow> parse_varint m bs = VarintOk v p"
proof (induction k bs arbitrary: m v rule: parse_varint.induct)
  case (3 k b bs)
  from "3.prems" obtain j where j: "m = Suc j" "k \<le> j" by (cases m) simp_all
  show ?case
  proof (cases "b < 128")
    case False
    with "3.prems"(1) obtain w where w: "parse_varint k bs = VarintOk w p" "v = unat b - 128 + 128 * w"
      by (cases "parse_varint k bs") simp_all
    from "3.IH" [OF False w(1) j(2)] False w(2) j(1) show ?thesis by simp
  qed (use "3.prems"(1) j in simp)
qed simp_all

section \<open>The readers\<close>

text \<open>The first two bytes are read by the readers themselves.\<close>

lemma two_digits:
  assumes "2 \<le> length bs" "\<not> bs ! 0 < 128"
  shows "(ucast (bs ! 0) :: uint32) + push_bit 7 (ucast (bs ! 1) - 1) = of_nat (prefix_val 1 bs + 128 * unat (bs ! 1))"
    "\<not> bs ! 1 < 128 \<Longrightarrow> (ucast (bs ! 0) :: uint32) + push_bit 7 (ucast (bs ! 1) - 1) = of_nat (prefix_val 2 bs + 128 ^ 2)"
proof -
  have "(ucast (bs ! 0) :: uint32) = of_nat (prefix_val 0 bs + 128 ^ 0 * unat (bs ! 0))" by (simp add: prefix_val_def)
  then have one: "(ucast (bs ! 0) :: uint32) = of_nat (prefix_val 1 bs + 128 ^ 1)"
    using carried_digit [of bs 0] assms(2) by (simp del: of_nat_add)
  show two: "(ucast (bs ! 0) :: uint32) + push_bit 7 (ucast (bs ! 1) - 1) = of_nat (prefix_val 1 bs + 128 * unat (bs ! 1))"
    using digit_step [OF one, of "bs ! 1"] by (simp only: mult_1_right power_one_right)
  show "(ucast (bs ! 0) :: uint32) + push_bit 7 (ucast (bs ! 1) - 1) = of_nat (prefix_val 2 bs + 128 ^ 2)" if "\<not> bs ! 1 < 128"
    using two carried_digit [OF that] by (simp only: power_one_right Suc_1)
qed

lemma first_digits:
  assumes "2 \<le> length bs" "2 \<le> k"
  obtains (one) "bs ! 0 < 128" "parse_varint k bs = VarintOk (unat (bs ! 0)) (drop 1 bs)"
  | (two) "\<not> bs ! 0 < 128" "bs ! 1 < 128" "parse_varint k bs = VarintOk (prefix_val 1 bs + 128 * unat (bs ! 1)) (drop 2 bs)"
  | (more) "\<not> bs ! 0 < 128" "\<not> bs ! 1 < 128" "\<And>j. j < 2 \<Longrightarrow> \<not> bs ! j < 128"
proof (cases "bs ! 0 < 128")
  case True
  moreover have "0 < length bs" using assms(1) by linarith
  ultimately show thesis using parse_varint_at [of 0 k bs] assms(2) by (intro one) (simp_all add: prefix_val_def)
next
  case False
  show thesis
  proof (cases "bs ! 1 < 128")
    case True
    with False parse_varint_at [of 1 k bs] assms show thesis by (intro two) (simp_all add: numeral_2_eq_2)
  next
    case F: False
    with False show thesis by (intro more) (auto simp: less_2_cases_iff)
  qed
qed

lemma small_carry: "\<not> bs ! 0 < 128 \<Longrightarrow> prefix_val 1 bs + 128 * unat (bs ! 1) < 2 ^ 32" "prefix_val 2 bs + 128 ^ 2 < 2 ^ 32"
proof -
  have b: "unat (bs ! 0) < 256" "unat (bs ! 1) < 256" using unsigned_less [of "bs ! 0", where 'a = nat] unsigned_less [of "bs ! 1", where 'a = nat] by simp_all
  then show "prefix_val 1 bs + 128 * unat (bs ! 1) < 2 ^ 32" by (simp add: prefix_val_def)
  have "prefix_val 2 bs = (unat (bs ! 0) - 128) + 128 * (unat (bs ! 1) - 128)" by (simp add: prefix_val_def numeral_2_eq_2)
  with b show "prefix_val 2 bs + 128 ^ 2 < 2 ^ 32" by simp
qed

lemma ucast_of_nat_small: "n < 2 ^ 32 \<Longrightarrow> ucast (of_nat n :: uint32) = (of_nat n :: uint64)"
  by (simp only: ucast_of_nat unat_of_nat) simp

lemma ucast_byte_up: "ucast (ucast (b :: byte) :: uint32) = (ucast b :: uint64)"
  by (rule bit_word_eqI) (auto simp: bit_ucast_iff dest: bit_imp_le_length)

lemma ucast_less_128: "(ucast (b :: byte) :: uint32) < 128 \<longleftrightarrow> b < 128"
  by (simp add: word_less_nat_alt unat_ucast_up_byte)

definition read_as :: "nat varint_read \<Rightarrow> byte list \<Rightarrow> (nat \<Rightarrow> 'v option) \<Rightarrow> (nat \<times> 'v) option" where
  "read_as r bs f = (case r of VarintOk v p \<Rightarrow> map_option (Pair (length bs - length p)) (f v) | _ \<Rightarrow> None)"

lemma VarintParse64_parse:
  assumes "10 \<le> length bs"
  shows "VarintParse64 bs = Some (read_as (parse_varint 10 bs) bs (\<lambda>v. Some (of_nat v)))"
proof -
  have len: "2 \<le> length bs" "0 < length bs" "bs \<noteq> []" using assms by auto
  show ?thesis
  proof (rule first_digits [OF len(1), of 10])
    assume "bs ! 0 < 128" "parse_varint 10 bs = VarintOk (unat (bs ! 0)) (drop 1 bs)"
    with len ucast_byte_up [of "bs ! 0"] show ?thesis by (simp add: VarintParse64_def byte_at_def and_80_zero read_as_def Suc_leI)
  next
    assume *: "\<not> bs ! 0 < 128" "bs ! 1 < 128" "parse_varint 10 bs = VarintOk (prefix_val 1 bs + 128 * unat (bs ! 1)) (drop 2 bs)"
    with len two_digits(1) [OF len(1) *(1)] ucast_of_nat_small [OF small_carry(1) [OF *(1)]] show ?thesis
      by (simp add: VarintParse64_def byte_at_def and_80_zero read_as_def)
  next
    assume *: "\<not> bs ! 0 < 128" "\<not> bs ! 1 < 128" "\<And>j. j < 2 \<Longrightarrow> \<not> bs ! j < 128"
    have "varint_digits 8 2 bs (of_nat (prefix_val 2 bs + 128 ^ 2) :: uint64) =
        Some (case parse_varint (2 + 8) bs of VarintOk v p \<Rightarrow> Inl (length bs - length p, of_nat v)
          | _ \<Rightarrow> Inr (of_nat (prefix_val (2 + 8) bs + 128 ^ (2 + 8))))"
      by (rule varint_digits_parse) (use assms *(3) in simp_all)
    with * len two_digits(2) [OF len(1) *(1,2)] ucast_of_nat_small [OF small_carry(2)] show ?thesis
      by (simp add: VarintParse64_def VarintParseSlow64_def byte_at_def and_80_zero read_as_def del: of_nat_add split: varint_read.split)
  qed simp
qed

lemma prefix_Suc: "prefix_val (Suc m) bs = prefix_val m bs + 128 ^ m * (unat (bs ! m) - 128)"
  by (simp add: prefix_val_def)

text \<open>Whatever follows five digits does not fit into 32 bits.\<close>

lemma parse_varint_high:
  assumes "parse_varint (5 + k) bs = VarintOk v p" "5 \<le> length bs" "\<And>j. j < 5 \<Longrightarrow> \<not> bs ! j < 128"
  shows "(of_nat v :: uint32) = of_nat (prefix_val 5 bs + 128 ^ 5)"
proof -
  obtain w where "v = prefix_val 5 bs + 128 ^ 5 * w"
    using parse_varint_prefix [of 5 "5 + k" bs] assms by (cases "parse_varint k (drop 5 bs)") auto
  then show ?thesis using high_bits_vanish [of "prefix_val 5 bs" w] high_bits_vanish [of "prefix_val 5 bs" 1] by simp
qed

lemma VarintParse32_parse:
  assumes "10 \<le> length bs"
  shows "VarintParse32 bs = Some (read_as (parse_varint 10 bs) bs (\<lambda>v. Some (of_nat v)))"
proof -
  have len: "2 \<le> length bs" "0 < length bs" "bs \<noteq> []" using assms by auto
  show ?thesis
  proof (rule first_digits [OF len(1), of 10])
    assume "bs ! 0 < 128" "parse_varint 10 bs = VarintOk (unat (bs ! 0)) (drop 1 bs)"
    with len show ?thesis by (simp add: VarintParse32_def byte_at_def and_80_zero read_as_def Suc_leI)
  next
    assume *: "\<not> bs ! 0 < 128" "bs ! 1 < 128" "parse_varint 10 bs = VarintOk (prefix_val 1 bs + 128 * unat (bs ! 1)) (drop 2 bs)"
    with len two_digits(1) [OF len(1) *(1)] show ?thesis
      by (simp add: VarintParse32_def byte_at_def and_80_zero read_as_def)
  next
    assume *: "\<not> bs ! 0 < 128" "\<not> bs ! 1 < 128" "\<And>j. j < 2 \<Longrightarrow> \<not> bs ! j < 128"
    have five: "5 \<le> length bs" using assms by simp
    have "varint_digits 3 2 bs (of_nat (prefix_val 2 bs + 128 ^ 2) :: uint32) =
        Some (case parse_varint (2 + 3) bs of VarintOk v p \<Rightarrow> Inl (length bs - length p, of_nat v)
          | _ \<Rightarrow> Inr (of_nat (prefix_val (2 + 3) bs + 128 ^ (2 + 3))))"
      by (rule varint_digits_parse) (use five *(3) in simp_all)
    moreover have "2 + 3 = (5 :: nat)" by simp
    ultimately have d: "VarintParse32 bs = VarintParseSlow32 bs (of_nat (prefix_val 2 bs + 128 ^ 2))"
      "varint_digits 3 2 bs (of_nat (prefix_val 2 bs + 128 ^ 2) :: uint32) =
        Some (case parse_varint 5 bs of VarintOk v p \<Rightarrow> Inl (length bs - length p, of_nat v)
          | _ \<Rightarrow> Inr (of_nat (prefix_val 5 bs + 128 ^ 5)))"
      using * len two_digits(2) [OF len(1) *(1,2)] by (simp_all only: VarintParse32_def byte_at_def and_80_zero) (simp_all del: of_nat_add add: and_80_zero)
    show ?thesis
    proof (rule varint_cases [OF five])
      fix v p assume ok: "parse_varint 5 bs = VarintOk v p"
      have "parse_varint 10 bs = VarintOk v p" by (rule parse_varint_more [OF ok]) simp
      with d ok show ?thesis by (simp add: VarintParseSlow32_def read_as_def)
    next
      assume b: "parse_varint 5 bs = VarintBad" "\<And>j. j < 5 \<Longrightarrow> \<not> bs ! j < 128"
      have s: "skip_digits 5 5 bs = Some (case parse_varint (5 + 5) bs of VarintOk v p \<Rightarrow> Some (length bs - length p) | _ \<Rightarrow> None)"
        by (rule skip_digits_parse) (use assms b(2) in simp_all)
      show ?thesis
        using d b(1) s parse_varint_high [of 5 bs, OF _ five b(2)]
        by (simp add: VarintParseSlow32_def read_as_def del: of_nat_add split: varint_read.split)
    qed
  qed simp
qed

text \<open>Tags.\<close>

lemma Ctx_ReadTag_parse:
  assumes "5 \<le> length bs"
  shows "Ctx_ReadTag bs = Some (read_as (parse_varint 5 bs) bs (\<lambda>v. Some (of_nat v)))"
proof -
  have len: "2 \<le> length bs" "0 < length bs" "bs \<noteq> []" using assms by auto
  show ?thesis
  proof (rule first_digits [OF len(1), of 5])
    assume "bs ! 0 < 128" "parse_varint 5 bs = VarintOk (unat (bs ! 0)) (drop 1 bs)"
    with len show ?thesis by (simp add: Ctx_ReadTag_def byte_at_def ucast_less_128 read_as_def Suc_leI)
  next
    assume *: "\<not> bs ! 0 < 128" "bs ! 1 < 128" "parse_varint 5 bs = VarintOk (prefix_val 1 bs + 128 * unat (bs ! 1)) (drop 2 bs)"
    with len two_digits(1) [OF len(1) *(1)] show ?thesis
      by (simp add: Ctx_ReadTag_def byte_at_def ucast_less_128 read_as_def)
  next
    assume *: "\<not> bs ! 0 < 128" "\<not> bs ! 1 < 128" "\<And>j. j < 2 \<Longrightarrow> \<not> bs ! j < 128"
    have "varint_digits 3 2 bs (of_nat (prefix_val 2 bs + 128 ^ 2) :: uint32) =
        Some (case parse_varint (2 + 3) bs of VarintOk v p \<Rightarrow> Inl (length bs - length p, of_nat v)
          | _ \<Rightarrow> Inr (of_nat (prefix_val (2 + 3) bs + 128 ^ (2 + 3))))"
      by (rule varint_digits_parse) (use assms *(3) in simp_all)
    with * len two_digits(2) [OF len(1) *(1,2)] show ?thesis
      by (simp add: Ctx_ReadTag_def ReadTagFallback_def byte_at_def ucast_less_128 read_as_def del: of_nat_add split: varint_read.split)
  qed simp
qed

text \<open>Sizes: the fifth byte must leave the sign bit free, and the size be below the largest \<open>int\<close> by 16.\<close>

lemma parse_varint_bound: "parse_varint k bs = VarintOk v p \<Longrightarrow> v < 128 ^ k"
proof (induction k bs arbitrary: v rule: parse_varint.induct)
  case (3 k b bs)
  show ?case
  proof (cases "b < 128")
    case True
    then have "unat b < 128" by (simp add: word_less_nat_alt)
    moreover have "(128 :: nat) \<le> 128 ^ Suc k" by simp
    ultimately show ?thesis using True "3.prems" by (simp del: power_Suc)
  next
    case False
    with "3.prems" obtain w where w: "parse_varint k bs = VarintOk w p" "v = unat b - 128 + 128 * w"
      by (cases "parse_varint k bs") simp_all
    have "unat b < 256" using unsigned_less [of b, where 'a = nat] by simp
    with "3.IH" [OF False w(1)] w(2) show ?thesis by simp
  qed
qed simp_all

lemma prefix_val_bound: "prefix_val m bs < 128 ^ m"
proof (induction m)
  case (Suc m)
  have "unat (bs ! m) < 256" using unsigned_less [of "bs ! m", where 'a = nat] by simp
  then have "unat (bs ! m) - 128 \<le> 127" by linarith
  then have "128 ^ m * (unat (bs ! m) - 128) \<le> 128 ^ m * (127 :: nat)" by (rule mult_le_mono2)
  with Suc show ?case by (simp only: prefix_Suc power_Suc)
qed (simp add: prefix_val_def)

text \<open>The fifth byte.\<close>

lemma fifth_byte:
  assumes "5 \<le> length bs" "\<And>j. j < 4 \<Longrightarrow> \<not> bs ! j < 128"
  obtains (big) "8 \<le> bs ! 4" "read_as (parse_varint 5 bs) bs (\<lambda>v. if int v \<le> INT_MAX - 16 then Some (int v) else None) = None"
  | (fits) v p where "\<not> 8 \<le> bs ! 4" "parse_varint 5 bs = VarintOk v p" "length bs - length p = 5" "int v \<le> INT_MAX"
    "of_nat (prefix_val 4 bs + 128 ^ 4) + push_bit 28 (ucast (bs ! 4) - 1) = (of_nat v :: uint32)"
proof -
  let ?v = "prefix_val 4 bs + 128 ^ 4 * unat (bs ! 4)"
  have p: "parse_varint 5 bs = (if bs ! 4 < 128 then VarintOk ?v (drop 5 bs) else VarintBad)"
  proof (cases "bs ! 4 < 128")
    case True
    with parse_varint_at [of 4 5 bs] assms show ?thesis by simp
  next
    case False
    have "\<not> bs ! j < 128" if "j < 5" for j using that assms(2) [of j] False by (cases "j = 4") simp_all
    with parse_varint_all [of 5 bs] assms(1) False show ?thesis by simp
  qed
  show thesis
  proof (cases "8 \<le> bs ! 4")
    case True
    then have "8 \<le> unat (bs ! 4)" by (simp add: word_le_nat_alt)
    then have "2147483648 \<le> ?v" by simp
    moreover have "\<not> int n \<le> INT_MAX - 16" if "2147483648 \<le> n" for n using that by linarith
    ultimately have "\<not> int ?v \<le> INT_MAX - 16" by blast
    with True show thesis by (intro big) (simp_all add: p read_as_def del: of_nat_add)
  next
    case False
    then have b: "unat (bs ! 4) < 8" "bs ! 4 < 128" by (simp_all add: word_le_nat_alt word_less_nat_alt)
    have s: "of_nat (prefix_val 4 bs + 128 ^ 4) + push_bit (7 * 4) (ucast (bs ! 4) - 1) = (of_nat ?v :: uint32)"
      by (rule digit_step) (rule refl)
    have "?v \<le> 2147483647" using b(1) prefix_val_bound [of 4 bs] by simp
    moreover have "int n \<le> INT_MAX" if "n \<le> 2147483647" for n using that by linarith
    ultimately have "int ?v \<le> INT_MAX" by blast
    then show thesis
      using fits [of ?v "drop 5 bs"] False b(2) p s assms(1) by (simp del: of_nat_add of_nat_mult of_nat_power)
  qed
qed

lemma ReadSize_parse:
  assumes "5 \<le> length bs"
  shows "ReadSize bs = Some (read_as (parse_varint 5 bs) bs (\<lambda>v. if int v \<le> INT_MAX - 16 then Some (int v) else None))"
proof (cases "bs ! 0 < 128")
  case True
  have "0 < length bs" "bs \<noteq> []" using assms by auto
  moreover have u: "unat (bs ! 0) < 128" using True by (simp add: word_less_nat_alt)
  then have "int (unat (bs ! 0)) \<le> INT_MAX" by linarith
  from sint_small [OF this] have "sint (ucast (bs ! 0) :: uint32) = int (unat (bs ! 0))" "unat (bs ! 0) \<le> 2147483631" using u by simp_all
  ultimately show ?thesis using parse_varint_at [of 0 5 bs] True
    by (simp add: ReadSize_def byte_at_def ucast_less_128 read_as_def prefix_val_def Suc_leI)
next
  case False
  have "of_nat (prefix_val 1 bs + 128 ^ 1) = (ucast (bs ! 0) :: uint32)"
    using carried_digit [of bs 0] False by (simp add: prefix_val_def del: of_nat_add)
  then have d: "varint_digits 3 1 bs (ucast (bs ! 0) :: uint32) =
      Some (case parse_varint (1 + 3) bs of VarintOk v p \<Rightarrow> Inl (length bs - length p, of_nat v)
        | _ \<Rightarrow> Inr (of_nat (prefix_val (1 + 3) bs + 128 ^ (1 + 3))))"
    by (intro varint_digits_parse) (use assms False in simp_all)
  have "1 + 3 = (4 :: nat)" by simp
  note d = d [unfolded this]
  have r: "ReadSize bs = map_option (map_option (\<lambda>(n, v). (n, sint v))) (ReadSizeFallback bs (ucast (bs ! 0)))"
    using assms False by (cases "ReadSizeFallback bs (ucast (bs ! 0))") (auto simp: ReadSize_def byte_at_def ucast_less_128)
  have four: "4 \<le> length bs" using assms by simp
  show ?thesis
  proof (rule varint_cases [OF four])
    fix v p assume ok: "parse_varint 4 bs = VarintOk v p"
    have v: "int v \<le> INT_MAX - 16" using parse_varint_bound [OF ok] by simp
    have "parse_varint 5 bs = VarintOk v p" by (rule parse_varint_more [OF ok]) simp
    then show ?thesis using d ok v sint_small [of v] by (simp add: r ReadSizeFallback_def read_as_def)
  next
    assume b: "parse_varint 4 bs = VarintBad" "\<And>j. j < 4 \<Longrightarrow> \<not> bs ! j < 128"
    have fb: "ReadSizeFallback bs (ucast (bs ! 0)) =
        (if bs ! 4 \<ge> 8 then Some None
         else let res = of_nat (prefix_val 4 bs + 128 ^ 4) + push_bit 28 (ucast (bs ! 4) - 1) in
           if uint res > INT_MAX - kSlopBytes then Some None else Some (Some (5, res)))"
      using assms by (simp only: ReadSizeFallback_def d b(1) varint_read.case bind.bind_lunit sum.case byte_at_def) simp
    show ?thesis
      using assms b(2)
    proof (rule fifth_byte)
      assume "8 \<le> bs ! 4" "read_as (parse_varint 5 bs) bs (\<lambda>v. if int v \<le> INT_MAX - 16 then Some (int v) else None) = None"
      then show ?thesis by (simp only: r fb if_True option.map)
    next
      fix v p
      assume v: "\<not> 8 \<le> bs ! 4" "parse_varint 5 bs = VarintOk v p" "length bs - length p = 5" "int v \<le> INT_MAX"
        "of_nat (prefix_val 4 bs + 128 ^ 4) + push_bit 28 (ucast (bs ! 4) - 1) = (of_nat v :: uint32)"
      have "uint (of_nat v :: uint32) = int v" using v(4) by (simp add: unsigned_of_nat take_bit_nat_eq_self)
      then show ?thesis using sint_small [OF v(4)] v(3)
        by (simp only: r fb v(1,2,5) if_False Let_def read_as_def varint_read.case kSlopBytes_def) simp
    qed
  qed
qed

section \<open>Two digits at a time\<close>

text \<open>The sum carries exactly when the first byte continues, and the mask then lets the second byte through.\<close>

lemma scast_byte: "scast (b :: byte) = (if b < 128 then ucast b else ucast b - 256 :: uint32)"
proof -
  have lt: "uint b < 256" using uint_lt2p [of b] by simp
  have "sint b = (if b < 128 then uint b else uint b - 256)"
  proof (cases "b < 128")
    case True
    then have "uint b < 128" by (simp add: word_less_def)
    then have "signed_take_bit 7 (uint b) = uint b" by (intro signed_take_bit_int_eq_self) (simp_all add: order_trans [OF _ uint_ge_0])
    with True show ?thesis by (simp add: sint_uint)
  next
    case False
    then have "128 \<le> uint b" by (simp add: word_less_def)
    then have "signed_take_bit 7 (uint b - 256) = uint b - 256" using lt by (intro signed_take_bit_int_eq_self) simp_all
    moreover have "take_bit 8 (uint b) = take_bit 8 (uint b - 256)" by (simp add: take_bit_eq_mod)
    then have "signed_take_bit 7 (uint b) = signed_take_bit 7 (uint b - 256)"
      using signed_take_bit_eq_iff_take_bit_eq [of 7 "uint b" "uint b - 256"] by simp
    ultimately show ?thesis using False by (simp add: sint_uint)
  qed
  then have "word_of_int (sint b) = (if b < 128 then word_of_int (uint b) else word_of_int (uint b) - 256 :: uint32)" by simp
  then show ?thesis by simp
qed

lemma low_bits: "(t :: uint32) < 256 \<Longrightarrow> bit t n \<Longrightarrow> n < 8"
proof -
  assume "t < 256" and b: "bit t n"
  then have "unat t < 2 ^ 8" by (simp add: word_less_nat_alt)
  then have "take_bit 8 (unat t) = unat t" by (rule take_bit_nat_eq_self)
  moreover have "bit (unat t) n" using b by (simp add: bit_unsigned_iff)
  ultimately show "n < 8" by (metis bit_take_bit_iff)
qed

lemma above_byte: "(t :: uint32) < 256 \<Longrightarrow> t + push_bit 8 c = t OR push_bit 8 c"
  by (rule disjunctive_add_eq_or, rule bit_word_eqI) (use low_bits [of t] in \<open>fastforce simp: bit_simps\<close>)

lemma and_low: "(t + push_bit 8 c) AND t = t" if "t < 256" for t c :: uint32
  by (simp only: above_byte [OF that], rule bit_word_eqI) (auto simp: bit_simps)

lemma and_high: "(t + push_bit 8 c) AND (t - 256) = t + push_bit 8 c" if "t < 256" for t c :: uint32
proof -
  have "t - 256 = t + NOT (mask 8)" by (simp add: not_eq_complement mask_eq_exp_minus_1)
  also have "\<dots> = t OR NOT (mask 8)"
    by (rule disjunctive_add_eq_or, rule bit_word_eqI) (use low_bits [OF that] in \<open>fastforce simp: bit_simps\<close>)
  finally show ?thesis
    by (simp only: above_byte [OF that], intro bit_word_eqI) (auto simp: bit_simps)
qed

lemma small_double:
  assumes "b < 128"
  shows "(ucast (b :: byte) + ucast b :: uint32) < 256"
proof -
  have "unat b < 128" using assms by (simp add: word_less_nat_alt)
  then have "unat (of_nat (unat b + unat b) :: uint32) < 256" by (simp only: unat_of_nat) simp
  then show ?thesis by (simp add: word_less_nat_alt)
qed

text \<open>Twice the value of the two bytes, without the top bit of the first if it continues, or of the first alone.\<close>

definition two_value :: "byte list \<Rightarrow> nat \<Rightarrow> nat" where
  "two_value bs i = (if bs ! i < 128 then unat (bs ! i) else unat (bs ! i) - 128 + 128 * unat (bs ! (i + 1)))"

lemma two_value_bound: "two_value bs i < 32768"
proof -
  have "unat (bs ! i) < 256" "unat (bs ! (i + 1)) < 256"
    using unsigned_less [of "bs ! (i + 1)", where 'a = nat] unsigned_less [of "bs ! i", where 'a = nat] by simp_all
  then show ?thesis unfolding two_value_def by (split if_split) linarith
qed

lemma DecodeTwoBytes_value:
  assumes "i + 1 < length bs"
  shows "DecodeTwoBytes bs i = Some (if bs ! i < 128 then i + 1 else i + 2, of_nat (2 * two_value bs i))"
proof -
  let ?b = "bs ! i" and ?c = "ucast (bs ! (i + 1)) :: uint32" and ?x = "scast (bs ! i) :: uint32"
  have c: "unat (bs ! (i + 1)) < 256" and b: "unat ?b < 256"
    using unsigned_less [of "bs ! (i + 1)", where 'a = nat] unsigned_less [of ?b, where 'a = nat] by simp_all
  have d: "DecodeTwoBytes bs i =
      Some (if ucast ?b + ?x + push_bit 8 ?c < ?x then i + 2 else i + 1, (ucast ?b + ?x + push_bit 8 ?c) AND (?x + ?x))"
    using assms by (simp add: DecodeTwoBytes_def byte_at_def Let_def ac_simps)
  have push: "push_bit 8 ?c = of_nat (256 * unat (bs ! (i + 1)))" 
  proof -
    have p: "(2 :: uint32) ^ 8 = of_nat 256" by simp
    have c: "?c = of_nat (unat (bs ! (i + 1)))" by (rule ucast_of_nat)
    show ?thesis unfolding c push_bit_eq_mult p of_nat_mult by (rule mult.commute)
  qed
  show ?thesis
  proof (cases "?b < 128")
    case True
    then have u: "unat ?b < 128" by (simp add: word_less_nat_alt)
    have x: "?x = ucast ?b" using True by (simp add: scast_byte)
    have "\<not> ucast ?b + ucast ?b + push_bit 8 ?c < (ucast ?b :: uint32)"
    proof -
      have "ucast ?b + ucast ?b + push_bit 8 ?c = (of_nat (unat ?b + unat ?b + 256 * unat (bs ! (i + 1))) :: uint32)"
        by (simp only: push of_nat_add) simp
      moreover have "unat (of_nat (unat ?b + unat ?b + 256 * unat (bs ! (i + 1))) :: uint32) = unat ?b + unat ?b + 256 * unat (bs ! (i + 1))"
        using u c by (simp only: unat_of_nat) simp
      ultimately show ?thesis by (simp add: word_less_nat_alt unat_ucast_up_byte)
    qed
    then show ?thesis
      using and_low [OF small_double [OF True], of ?c] True by (simp only: d x) (simp add: two_value_def)
  next
    case False
    then have u: "128 \<le> unat ?b" by (simp add: word_less_nat_alt)
    have x: "?x = ucast ?b - 256" using False by (simp add: scast_byte)
    let ?t = "ucast ?b + ucast ?b - 256 :: uint32"
    have t: "?t = of_nat (2 * (unat ?b - 128))" using u by (simp add: of_nat_diff)
    have t_lt: "?t < 256" using b u by (simp only: t word_less_nat_alt unat_of_nat) simp
    have xx: "?x + ?x = ?t - 256" "ucast ?b + ?x = ?t" by (simp_all add: x)
    have v: "?t + push_bit 8 ?c = of_nat (2 * two_value bs i)" using False by (simp only: t push two_value_def) simp
    have "unat (of_nat (2 * two_value bs i) :: uint32) \<le> 65534"
    proof -
      have "two_value bs i \<le> 32767" using b c False by (simp add: two_value_def)
      then show ?thesis by (simp only: unat_of_nat) simp
    qed
    moreover have "unat ?x \<ge> 4294967040"
    proof -
      have "?x = of_nat (4294967040 + unat ?b)" by (simp add: x)
      moreover have "unat (of_nat (4294967040 + unat ?b) :: uint32) = 4294967040 + unat ?b" using b by (simp only: unat_of_nat) simp
      ultimately show ?thesis by simp
    qed
    ultimately have "?t + push_bit 8 ?c < ?x" by (simp only: v word_less_nat_alt)
    then show ?thesis
      using and_high [OF t_lt, of ?c] False by (simp only: d xx(2)) (simp only: xx(1) v if_True if_False)
  qed
qed

lemma bit15: "n < 65536 \<Longrightarrow> bit (of_nat n :: uint32) 15 \<longleftrightarrow> 32768 \<le> n"
proof -
  assume n: "n < 65536"
  have "unat (of_nat n :: uint32) = n" using n by (simp only: unat_of_nat) simp
  then have "bit (of_nat n :: uint32) 15 \<longleftrightarrow> odd (n div 2 ^ 15)" by (metis bit_unat bit_iff_odd)
  then have "bit (of_nat n :: uint32) 15 \<longleftrightarrow> odd (n div 32768)" by simp
  also have "\<dots> \<longleftrightarrow> 32768 \<le> n"
  proof (cases "32768 \<le> n")
    case True
    then have "n div 32768 = 1" using n by (intro div_nat_eqI) simp_all
    with True show ?thesis by simp
  qed simp
  finally show ?thesis .
qed

lemma two_value_continues:
  "bit (of_nat (2 * two_value bs i) :: uint32) 15 \<longleftrightarrow> \<not> bs ! i < 128 \<and> \<not> bs ! (i + 1) < 128"
proof -
  have b: "unat (bs ! i) < 256" "unat (bs ! (i + 1)) < 256"
    using unsigned_less [of "bs ! (i + 1)", where 'a = nat] unsigned_less [of "bs ! i", where 'a = nat] by simp_all
  then have "2 * two_value bs i < 65536" by (auto simp: two_value_def word_less_nat_alt)
  from bit15 [OF this] b show ?thesis by (auto simp: two_value_def word_less_nat_alt)
qed

lemma big_varint_loop_parse:
  assumes "1 \<le> i" "2 * (i + k) \<le> length bs" "\<And>j. j < 2 * i \<Longrightarrow> \<not> bs ! j < 128"
    "res = of_nat (prefix_val (2 * i) bs + 128 ^ (2 * i))"
  shows "big_varint_loop k i bs res = Some (read_as (parse_varint (2 * (i + k)) bs) bs (\<lambda>v. Some (of_nat v)))"
  using assms
proof (induction k arbitrary: i res)
  case 0
  with parse_varint_all [of "2 * i" bs] show ?case by (simp add: read_as_def)
next
  case (Suc k)
  let ?m = "two_value bs (2 * i)"
  have len: "2 * i + 1 < length bs" "2 * i < length bs" using Suc.prems(2) by simp_all
  have m: "?m < 32768" by (rule two_value_bound)
  have pow: "push_bit (14 * i - 1) (2 * w) = of_nat (128 ^ (2 * i)) * w" for w :: uint64
  proof -
    have "14 * i = Suc (14 * i - 1)" using Suc.prems(1) by simp
    then have "push_bit (14 * i - 1) (2 * w) = push_bit (14 * i) w" by (metis push_bit_Suc mult.commute)
    then show ?thesis using push_bit_word [of "2 * i" w] by simp
  qed
  have "ucast (of_nat (2 * ?m) :: uint32) = (of_nat (2 * ?m) :: uint64)"
    by (rule ucast_of_nat_small) (use m in simp)
  then have "ucast (of_nat (2 * ?m) :: uint32) - 2 = 2 * (of_nat ?m - 1 :: uint64)" by (simp only: of_nat_mult) (simp add: algebra_simps)
  then have r: "res + push_bit (14 * i - 1) (ucast (of_nat (2 * ?m) :: uint32) - 2) = of_nat (prefix_val (2 * i) bs + 128 ^ (2 * i) * ?m)"
    by (simp only: pow Suc.prems(4) of_nat_add of_nat_mult) (simp add: algebra_simps)
  note step = DecodeTwoBytes_value [OF len(1)] two_value_continues [of bs "2 * i"] r
  show ?case
  proof (cases "bs ! (2 * i) < 128")
    case True
    then have "two_value bs (2 * i) = unat (bs ! (2 * i))" by (simp add: two_value_def)
    moreover have "parse_varint (2 * (i + Suc k)) bs = VarintOk (prefix_val (2 * i) bs + 128 ^ (2 * i) * unat (bs ! (2 * i))) (drop (Suc (2 * i)) bs)"
      by (rule parse_varint_at) (use Suc.prems True len in simp_all)
    ultimately show ?thesis using step True len by (simp add: read_as_def del: of_nat_add of_nat_mult)
  next
    case F: False
    have "prefix_val (2 * i) bs + 128 ^ (2 * i) * ?m = prefix_val (Suc (2 * i)) bs + 128 ^ Suc (2 * i) * unat (bs ! (2 * i + 1))"
      using F by (simp add: two_value_def prefix_Suc algebra_simps)
    note r' = r [unfolded this]
    have all: "\<not> bs ! j < 128" if "j < Suc (2 * i)" for j using that F Suc.prems(3) [of j] by (cases "j = 2 * i") simp_all
    show ?thesis
    proof (cases "bs ! (2 * i + 1) < 128")
      case True
      have "parse_varint (2 * (i + Suc k)) bs =
          VarintOk (prefix_val (Suc (2 * i)) bs + 128 ^ Suc (2 * i) * unat (bs ! Suc (2 * i))) (drop (Suc (Suc (2 * i))) bs)"
        by (rule parse_varint_at) (use Suc.prems all True len in simp_all)
      then show ?thesis using step F True r' len by (simp add: read_as_def del: of_nat_add of_nat_mult)
    next
      case False
      have all': "\<not> bs ! j < 128" if "j < 2 * (i + 1)" for j using that False all [of j] by (cases "j = 2 * i + 1") simp_all
      have "2 * (i + 1) = Suc (Suc (2 * i))" by simp
      with carried_digit [of bs "Suc (2 * i)"] False
      have "prefix_val (Suc (2 * i)) bs + 128 ^ Suc (2 * i) * unat (bs ! (2 * i + 1)) = prefix_val (2 * (i + 1)) bs + 128 ^ (2 * (i + 1))" by simp
      from Suc.IH [OF _ _ all' r' [unfolded this]] Suc.prems(2)
      show ?thesis using step F False by (simp del: of_nat_add of_nat_mult)
    qed
  qed
qed

lemma ParseBigVarint_parse:
  assumes "10 \<le> length bs"
  shows "ParseBigVarint bs = VarintParse64 bs"
proof -
  have len: "0 + 1 < length bs" "0 < length bs" "bs \<noteq> []" using assms by auto
  have lt: "two_value bs 0 < 32768" by (rule two_value_bound)
  have "unat (of_nat (2 * two_value bs 0) :: uint32) = 2 * two_value bs 0" using lt by (simp only: unat_of_nat) simp
  then have "unat (drop_bit 1 (of_nat (2 * two_value bs 0) :: uint32)) = two_value bs 0"
    by (simp only: unat_drop_bit_div) simp
  then have half: "ucast (drop_bit 1 (of_nat (2 * two_value bs 0) :: uint32)) = (of_nat (two_value bs 0) :: uint64)"
    by (simp only: ucast_of_nat)
  note step = DecodeTwoBytes_value [OF len(1)] two_value_continues [of bs 0] half VarintParse64_parse [OF assms]
  show ?thesis
  proof (rule first_digits [of bs 10])
    assume *: "bs ! 0 < 128" "parse_varint 10 bs = VarintOk (unat (bs ! 0)) (drop 1 bs)"
    then have "two_value bs 0 = unat (bs ! 0)" by (simp add: two_value_def)
    with step * len show ?thesis by (simp add: ParseBigVarint_def read_as_def Suc_leI del: of_nat_mult)
  next
    assume *: "\<not> bs ! 0 < 128" "bs ! 1 < 128" "parse_varint 10 bs = VarintOk (prefix_val 1 bs + 128 * unat (bs ! 1)) (drop 2 bs)"
    then have "two_value bs 0 = prefix_val 1 bs + 128 * unat (bs ! 1)" by (simp add: two_value_def prefix_val_def)
    with step * assms show ?thesis by (simp add: ParseBigVarint_def read_as_def del: of_nat_mult of_nat_add)
  next
    assume *: "\<not> bs ! 0 < 128" "\<not> bs ! 1 < 128" "\<And>j. j < 2 \<Longrightarrow> \<not> bs ! j < 128"
    have "two_value bs 0 = prefix_val 2 bs + 128 ^ 2"
      using carried_digit [of bs 1] *(1,2) by (simp add: two_value_def prefix_val_def numeral_2_eq_2)
    moreover have "big_varint_loop 4 1 bs (of_nat (prefix_val (2 * 1) bs + 128 ^ (2 * 1))) =
        Some (read_as (parse_varint (2 * (1 + 4)) bs) bs (\<lambda>v. Some (of_nat v)))"
      by (rule big_varint_loop_parse) (use assms *(3) in simp_all)
    ultimately show ?thesis using step * by (simp add: ParseBigVarint_def del: of_nat_mult of_nat_add)
  qed (use assms in simp_all)
qed

end
