(* ===== verification/Parse_Stream.thy ===== *)
theory Parse_Stream
  imports Parse_Varint
begin

text \<open>
  The invariant of an \<open>EpsCopyInputStream\<close> and its abstract value: the bytes from a pointer up to the limit, however
  they lie in the patch buffer, in the current chunk, and in the stream that has not been asked for them yet. A
  pointer that the parser has moved past the limit, or past the end of the input, is overrun; the bytes
  it passed may be anything, and the next test for the end turns it into a null pointer.
\<close>

section \<open>What lies ahead\<close>

fun ptr_index :: "pointer \<Rightarrow> int" where
  "ptr_index (Patch i) = i"
| "ptr_index (Chunk i) = i"

definition coming :: "('s \<Rightarrow> byte list) \<Rightarrow> ('s, 'm) EpsCopyInputStream_scheme \<Rightarrow> byte list" where
  "coming rest e = (case zcis e of None \<Rightarrow> [] | Some s \<Rightarrow> rest s)"

text \<open>The bytes behind \<open>buffer_end_\<close>.\<close>

definition after_end :: "('s \<Rightarrow> byte list) \<Rightarrow> ('s, 'm) EpsCopyInputStream_scheme \<Rightarrow> byte list" where
  "after_end rest e =
     (case in_next e of None \<Rightarrow> coming rest e
      | Some (Patch _) \<Rightarrow> take 16 (readable e (in_end e)) @ coming rest e
      | Some (Chunk _) \<Rightarrow> in_chunk e @ coming rest e)"

definition ctx_stream :: "('s \<Rightarrow> byte list) \<Rightarrow> ('s, 'm) EpsCopyInputStream_scheme \<Rightarrow> pointer \<Rightarrow> byte list" where
  "ctx_stream rest e p =
     (case ptr_diff (in_end e) p of None \<Rightarrow> []
      | Some d \<Rightarrow> take (nat d) (readable e p) @ drop (nat (- d)) (after_end rest e))"

definition ctx_view :: "('s \<Rightarrow> byte list) \<Rightarrow> ('s, 'm) EpsCopyInputStream_scheme \<Rightarrow> pointer \<Rightarrow> byte list" where
  "ctx_view rest e p =
     (case ptr_diff (in_end e) p of None \<Rightarrow> [] | Some d \<Rightarrow> take (nat (in_limit e + d)) (ctx_stream rest e p))"

text \<open>A pointer that is \<open>k\<close> bytes behind \<open>buffer_end_\<close>.\<close>

definition in_buffer :: "('s, 'm) EpsCopyInputStream_scheme \<Rightarrow> pointer \<Rightarrow> int \<Rightarrow> bool" where
  "in_buffer e p k \<longleftrightarrow> ptr_diff p (in_end e) = Some k \<and> k \<le> 16 \<and> 0 \<le> ptr_index p"

definition overrun :: "('s, 'm) EpsCopyInputStream_scheme \<Rightarrow> int \<Rightarrow> bool" where
  "overrun e k \<longleftrightarrow> in_limit e < k \<or> in_next e = None \<and> 0 < k"

section \<open>The invariant\<close>

definition buffers_ok :: "('s, 'm) EpsCopyInputStream_scheme \<Rightarrow> bool" where
  "buffers_ok e \<longleftrightarrow> length (in_patch e) = 32 \<and>
     (case in_next e of
        None \<Rightarrow> (\<exists>k. in_end e = Patch k \<and> 0 \<le> k \<and> k \<le> 16)
      | Some (Patch j) \<Rightarrow> j = 0 \<and> in_limit e \<le> overall_limit e + 16 \<and>
          (case in_end e of Patch k \<Rightarrow> 0 \<le> k \<and> k \<le> 16 | Chunk k \<Rightarrow> 0 < k \<and> k + 16 = int (length (in_chunk e)))
      | Some (Chunk j) \<Rightarrow> j = 0 \<and> in_limit e \<le> overall_limit e + in_size e \<and> in_end e = Patch 16 \<and>
          in_size e = int (length (in_chunk e)) \<and> 16 < in_size e \<and> take 16 (in_chunk e) = drop 16 (in_patch e))"

text \<open>The memory up to the end of the bytes that have been read from the stream.\<close>

definition obtained :: "('s, 'm) EpsCopyInputStream_scheme \<Rightarrow> byte list" where
  "obtained e =
     (let region = (case in_end e of Patch _ \<Rightarrow> in_patch e | Chunk _ \<Rightarrow> in_chunk e) in
      case in_next e of None \<Rightarrow> take (nat (ptr_index (in_end e))) region
      | Some (Patch _) \<Rightarrow> take (nat (ptr_index (in_end e) + 16)) region
      | Some (Chunk _) \<Rightarrow> in_chunk e)"

definition last_bytes :: "nat \<Rightarrow> byte list \<Rightarrow> byte list" where
  "last_bytes c xs = drop (length xs - c) xs"

text \<open>What is beyond the overall limit can be given back to the stream: it is the end of what the stream handed out last.
  When the input is taken to have ended, then it has, or the limit is not behind that.\<close>

definition supply_ok ::
    "('s \<Rightarrow> bool) \<Rightarrow> ('s \<Rightarrow> byte list) \<Rightarrow> ('s \<Rightarrow> byte list) \<Rightarrow> ('s, 'm) EpsCopyInputStream_scheme \<Rightarrow> bool" where
  "supply_ok ok rest given e \<longleftrightarrow> (in_next e = None \<longrightarrow> coming rest e = [] \<or> in_limit e \<le> 0) \<and>
     (case zcis e of None \<Rightarrow> overall_limit e \<le> 0
      | Some s \<Rightarrow> ok s \<and> (in_next e = None \<longrightarrow> in_size e = 0) \<and>
          (\<exists>x g. given s = g @ x \<and> 0 \<le> overall_limit e + int (length x) \<and>
             (\<forall>c. c \<le> length x \<longrightarrow> c \<le> length (obtained e) \<longrightarrow> last_bytes c (obtained e) = last_bytes c x)))"

definition ctx_ok ::
    "('s \<Rightarrow> bool) \<Rightarrow> ('s \<Rightarrow> byte list) \<Rightarrow> ('s \<Rightarrow> byte list) \<Rightarrow> ('s, 'm) EpsCopyInputStream_scheme \<Rightarrow> bool" where
  "ctx_ok ok rest given e \<longleftrightarrow> buffers_ok e \<and> supply_ok ok rest given e \<and> in_limit_end e = ptr_add (in_end e) (min 0 (in_limit e))"

text \<open>The limit is where the overall limit is, as far as that was followed.\<close>

definition tight :: "('s, 'm) EpsCopyInputStream_scheme \<Rightarrow> bool" where
  "tight e \<longleftrightarrow>
     (case in_next e of None \<Rightarrow> in_limit e = overall_limit e \<or> 0 < in_limit e
      | Some (Patch _) \<Rightarrow> in_limit e = overall_limit e + 16
      | Some (Chunk _) \<Rightarrow> in_limit e = overall_limit e + in_size e \<and> 0 < in_limit e)"

text \<open>What the buffers do not touch.\<close>

definition same_context :: "('s, 'm) EpsCopyInputStream_scheme \<Rightarrow> ('s, 'm) EpsCopyInputStream_scheme \<Rightarrow> bool" where
  "same_context e e' \<longleftrightarrow> last_tag_minus_1 e' = last_tag_minus_1 e \<and> EpsCopyInputStream.more e' = EpsCopyInputStream.more e \<and>
     (zcis e' = None \<longleftrightarrow> zcis e = None) \<and> (tight e \<longrightarrow> tight e')"

lemma same_context_refl [simp]: "same_context e e"
  by (simp add: same_context_def)

lemma same_context_trans: "same_context e e1 \<Longrightarrow> same_context e1 e2 \<Longrightarrow> same_context e e2"
  by (simp add: same_context_def)

text \<open>\<open>limit_end_\<close> only makes a test faster, and how the parse ended is no concern of the buffers.\<close>

lemma limit_end_readable [simp]: "readable (e\<lparr>in_limit_end := x\<rparr>) p = readable e p" "coming rest (e\<lparr>in_limit_end := x\<rparr>) = coming rest e"
  by (cases p, simp_all add: readable_def coming_def)

lemma limit_end_update [simp]:
  "buffers_ok (e\<lparr>in_limit_end := x\<rparr>) = buffers_ok e" "in_buffer (e\<lparr>in_limit_end := x\<rparr>) p k = in_buffer e p k" "overrun (e\<lparr>in_limit_end := x\<rparr>) k = overrun e k"
  "after_end rest (e\<lparr>in_limit_end := x\<rparr>) = after_end rest e" "obtained (e\<lparr>in_limit_end := x\<rparr>) = obtained e" "tight (e\<lparr>in_limit_end := x\<rparr>) = tight e"
  by (simp_all add: buffers_ok_def in_buffer_def overrun_def after_end_def obtained_def tight_def cong: option.case_cong pointer.case_cong)

lemma limit_end_view [simp]:
  "ctx_stream rest (e\<lparr>in_limit_end := x\<rparr>) p = ctx_stream rest e p" "ctx_view rest (e\<lparr>in_limit_end := x\<rparr>) p = ctx_view rest e p" "supply_ok ok rest given (e\<lparr>in_limit_end := x\<rparr>) = supply_ok ok rest given e"
  by (simp_all add: ctx_stream_def ctx_view_def ctx_ok_def supply_ok_def cong: option.case_cong)

lemma last_tag_readable [simp]: "readable (e\<lparr>last_tag_minus_1 := x\<rparr>) p = readable e p" "coming rest (e\<lparr>last_tag_minus_1 := x\<rparr>) = coming rest e"
  by (cases p, simp_all add: readable_def coming_def)

lemma last_tag_update [simp]:
  "buffers_ok (e\<lparr>last_tag_minus_1 := x\<rparr>) = buffers_ok e" "in_buffer (e\<lparr>last_tag_minus_1 := x\<rparr>) p k = in_buffer e p k" "overrun (e\<lparr>last_tag_minus_1 := x\<rparr>) k = overrun e k"
  "after_end rest (e\<lparr>last_tag_minus_1 := x\<rparr>) = after_end rest e" "obtained (e\<lparr>last_tag_minus_1 := x\<rparr>) = obtained e" "tight (e\<lparr>last_tag_minus_1 := x\<rparr>) = tight e"
  by (simp_all add: buffers_ok_def in_buffer_def overrun_def after_end_def obtained_def tight_def cong: option.case_cong pointer.case_cong)

lemma last_tag_view [simp]:
  "ctx_stream rest (e\<lparr>last_tag_minus_1 := x\<rparr>) p = ctx_stream rest e p" "ctx_view rest (e\<lparr>last_tag_minus_1 := x\<rparr>) p = ctx_view rest e p" "supply_ok ok rest given (e\<lparr>last_tag_minus_1 := x\<rparr>) = supply_ok ok rest given e" "ctx_ok ok rest given (e\<lparr>last_tag_minus_1 := x\<rparr>) = ctx_ok ok rest given e"
  by (simp_all add: ctx_stream_def ctx_view_def ctx_ok_def supply_ok_def cong: option.case_cong)

text \<open>The parser is at a pointer \<open>k\<close> bytes behind \<open>buffer_end_\<close>, and \<open>n\<close> bytes further on than it was.\<close>

definition at_pointer ::
    "('s \<Rightarrow> bool) \<Rightarrow> ('s \<Rightarrow> byte list) \<Rightarrow> ('s \<Rightarrow> byte list) \<Rightarrow> ('s, 'm) EpsCopyInputStream_scheme \<Rightarrow> pointer \<Rightarrow> int \<Rightarrow> bool" where
  "at_pointer ok rest given e p k \<longleftrightarrow> ctx_ok ok rest given e \<and> in_buffer e p k \<and> \<not> overrun e k"

definition ctx_moved ::
    "('s \<Rightarrow> bool) \<Rightarrow> ('s \<Rightarrow> byte list) \<Rightarrow> ('s \<Rightarrow> byte list) \<Rightarrow> nat \<Rightarrow> ('s, 'm) EpsCopyInputStream_scheme \<Rightarrow> pointer \<Rightarrow> int \<Rightarrow>
     ('s, 'm) EpsCopyInputStream_scheme \<Rightarrow> pointer \<Rightarrow> int \<Rightarrow> bool" where
  "ctx_moved ok rest given n e p k e' p' k' \<longleftrightarrow> at_pointer ok rest given e' p' k' \<and> same_context e e' \<and>
     n \<le> length (ctx_view rest e p) \<and> ctx_view rest e' p' = drop n (ctx_view rest e p) \<and>
     ctx_stream rest e' p' = drop n (ctx_stream rest e p) \<and> in_limit e' - k' = in_limit e - k - int n"

lemma ctx_moved_refl: "at_pointer ok rest given e p k \<Longrightarrow> ctx_moved ok rest given 0 e p k e p k"
  by (simp add: ctx_moved_def)

lemma ctx_moved_trans:
  "ctx_moved ok rest given m e p k e1 p1 k1 \<Longrightarrow> ctx_moved ok rest given n e1 p1 k1 e2 p2 k2 \<Longrightarrow>
   ctx_moved ok rest given (m + n) e p k e2 p2 k2"
  by (auto simp: ctx_moved_def add.commute intro: same_context_trans)

section \<open>Moving in the buffer\<close>

lemma ptr_add_diff [simp]: "ptr_diff (ptr_add p n) p = Some n" "ptr_diff p p = Some 0" "ptr_diff p (ptr_add p n) = Some (- n)"
  by (cases p; simp)+

lemma ptr_add_0 [simp]: "ptr_add p 0 = p"
  by (cases p) simp_all

lemma ptr_add_add [simp]: "ptr_add (ptr_add p m) n = ptr_add p (m + n)"
  by (cases p) simp_all

lemma ptr_index_add [simp]: "ptr_index (ptr_add p n) = ptr_index p + n"
  by (cases p) simp_all

lemma ptr_diff_flip: "ptr_diff p q = Some k \<Longrightarrow> ptr_diff q p = Some (- k)"
  by (cases p; cases q) auto

lemma ptr_diff_add: "ptr_diff p q = Some k \<Longrightarrow> ptr_diff (ptr_add p n) q = Some (k + n)"
  by (cases p; cases q) auto

lemma ptr_diff_eq: "ptr_diff p q = Some k \<longleftrightarrow> p = ptr_add q k"
  by (cases p; cases q) auto

lemma in_bufferE:
  assumes "in_buffer e p k"
  obtains "p = ptr_add (in_end e) k" "ptr_diff p (in_end e) = Some k" "ptr_diff (in_end e) p = Some (- k)" "k \<le> 16" "0 \<le> ptr_index (in_end e) + k"
  using assms by (auto simp: in_buffer_def ptr_diff_eq intro: ptr_diff_flip)

lemma in_buffer_add: "in_buffer e p k \<Longrightarrow> k + n \<le> 16 \<Longrightarrow> 0 \<le> n \<Longrightarrow> in_buffer e (ptr_add p n) (k + n)"
  by (simp add: in_buffer_def ptr_diff_add)

text \<open>The memory from \<open>buffer_end_\<close> on.\<close>

lemma readable_end:
  assumes "buffers_ok e"
  shows "16 \<le> length (readable e (in_end e))" "0 \<le> ptr_index (in_end e)"
  using assms by (auto simp: buffers_ok_def readable_def split: option.splits pointer.splits)

lemma readable_add: "0 \<le> ptr_index p \<Longrightarrow> 0 \<le> n \<Longrightarrow> readable e (ptr_add p n) = drop (nat n) (readable e p)"
  by (cases p) (simp_all add: readable_def nat_add_distrib add.commute)

lemma readable_at:
  "0 \<le> i \<Longrightarrow> readable e (Patch i) = drop (nat i) (in_patch e)" "0 \<le> i \<Longrightarrow> readable e (Chunk i) = drop (nat i) (in_chunk e)"
  by (simp_all add: readable_def)

lemma readable_split:
  assumes "buffers_ok e" "in_buffer e p k"
  shows "0 \<le> k \<Longrightarrow> readable e p = drop (nat k) (readable e (in_end e))"
    "k \<le> 0 \<Longrightarrow> readable e (in_end e) = drop (nat (- k)) (readable e p)"
    "nat (16 - k) \<le> length (readable e p)"
proof -
  note end_ok = readable_end [OF assms(1)]
  from assms(2) have p: "p = ptr_add (in_end e) k" "in_end e = ptr_add p (- k)" "0 \<le> ptr_index p" "k \<le> 16"
    by (auto simp: in_buffer_def ptr_diff_eq)
  show up: "readable e p = drop (nat k) (readable e (in_end e))" if "0 \<le> k"
    using readable_add [OF end_ok(2) that] p(1) by simp
  show down: "readable e (in_end e) = drop (nat (- k)) (readable e p)" if "k \<le> 0"
    using readable_add [OF p(3), of "- k" e] p(2) that by simp
  show "nat (16 - k) \<le> length (readable e p)"
  proof (cases "0 \<le> k")
    case True
    with up end_ok(1) p(4) show ?thesis by simp
  next
    case False
    with down end_ok(1) have "16 \<le> length (readable e p) - nat (- k)" by simp
    with False show ?thesis by linarith
  qed
qed

text \<open>The bytes that may be read without a test are the ones of the stream, unless it has ended.\<close>

lemma slop_bytes: "buffers_ok e \<Longrightarrow> in_next e \<noteq> None \<Longrightarrow> take 16 (readable e (in_end e)) = take 16 (after_end rest e)"
  using readable_end [of e] by (auto simp: after_end_def buffers_ok_def readable_def split: option.splits pointer.splits)

lemma after_end_long: "buffers_ok e \<Longrightarrow> in_next e \<noteq> None \<Longrightarrow> 16 \<le> length (after_end rest e)"
  using readable_end [of e] by (auto simp: after_end_def buffers_ok_def split: option.splits pointer.splits)

lemma known_bytes:
  assumes ok: "buffers_ok e" and p: "in_buffer e p k" and n: "0 \<le> n" "k + n \<le> 16" "in_next e = None \<longrightarrow> k + n \<le> 0"
  shows "take (nat n) (readable e p) = take (nat n) (ctx_stream rest e p)" "nat n \<le> length (ctx_stream rest e p)"
    "ctx_stream rest e (ptr_add p n) = drop (nat n) (ctx_stream rest e p)"
proof -
  let ?R = "readable e p" and ?A = "after_end rest e" and ?E = "readable e (in_end e)"
  note split = readable_split [OF ok p]
  have at: "p = ptr_add (in_end e) k" "0 \<le> ptr_index p" using p by (auto simp: in_buffer_def ptr_diff_eq)
  have add: "ptr_diff (in_end e) p = Some (- k)" "ptr_diff (in_end e) (ptr_add p n) = Some (- k - n)"
    "readable e (ptr_add p n) = drop (nat n) ?R"
    using at n(1) readable_add [of p n e] by simp_all
  let ?S = "take (nat (- k)) ?R @ drop (nat k) ?A" and ?S' = "take (nat (- k - n)) (drop (nat n) ?R) @ drop (nat (k + n)) ?A"
  have S: "ctx_stream rest e p = ?S" "ctx_stream rest e (ptr_add p n) = ?S'"
    by (simp_all add: ctx_stream_def add add.commute)
  have "take (nat n) ?R = take (nat n) ?S \<and> nat n \<le> length ?S \<and> ?S' = drop (nat n) ?S"
  proof (cases "k + n \<le> 0")
    case True
    then have d: "nat (- k) \<le> length ?R" "nat (- k - n) = nat (- k) - nat n" "nat n \<le> nat (- k)" "nat k = 0" "nat (k + n) = 0"
      using split(3) n(1) by linarith+
    show ?thesis using d(1,3) by (simp add: d(2,4,5) min_absorb1 drop_take)
  next
    case False
    with n(3) have more: "in_next e \<noteq> None" by auto
    note slop = slop_bytes [OF ok more, of rest] after_end_long [OF ok more, of rest]
    show ?thesis
    proof (cases "0 \<le> k")
      case True
      have d: "nat (k + n) = nat k + nat n" "nat (- k) = 0" "nat k + nat n \<le> 16" "nat (- k - n) = 0" using n(1,2) True by linarith+
      have "take (nat n) (drop (nat k) (take 16 xs)) = take (nat n) (drop (nat k) xs)" for xs :: "byte list"
        using d(3) by (simp add: drop_take min_absorb1)
      then have "take (nat n) (drop (nat k) ?E) = take (nat n) (drop (nat k) ?A)" using slop(1) by metis
      moreover have "nat n \<le> length ?A - nat k" using slop(2) d(3) by linarith
      ultimately show ?thesis by (simp only: split(1) [OF True] d take_0 append_Nil drop_drop length_drop) (simp add: add.commute)
    next
      case neg: False
      let ?d = "nat (- k)" and ?m = "nat (k + n)"
      have d: "nat n = ?d + ?m" "nat k = 0" "nat (- k - n) = 0" "?m \<le> 16" "k \<le> 0" using neg False n(2) by linarith+
      have len: "?d \<le> length ?R" using split(3) neg by linarith
      have "take ?m (take 16 xs) = take ?m xs" for xs :: "byte list" using d(4) by (simp add: min_absorb1)
      then have "take ?m (drop ?d ?R) = take ?m ?A" using slop(1) split(2) [OF d(5)] by metis
      moreover have "?m \<le> length ?A" using slop(2) d(4) by linarith
      ultimately show ?thesis using len by (simp add: d(1-3) take_add min_absorb1)
    qed
  qed
  then show "take (nat n) ?R = take (nat n) (ctx_stream rest e p)" "nat n \<le> length (ctx_stream rest e p)"
    "ctx_stream rest e (ptr_add p n) = drop (nat n) (ctx_stream rest e p)" unfolding S by blast+
qed

text \<open>\<open>n\<close> bytes on, without a test: the bytes were of the view, or the pointer is overrun.\<close>

lemma advance:
  assumes ok: "buffers_ok e" and p: "in_buffer e p k" "\<not> overrun e k" and n: "0 \<le> n" "k + n \<le> 16"
    and ended: "in_next e = None \<Longrightarrow> coming rest e = [] \<or> in_limit e \<le> 0"
  obtains (inside) "n \<le> int (length (ctx_view rest e p))" "\<not> overrun e (k + n)" "in_buffer e (ptr_add p n) (k + n)"
      "take (nat n) (readable e p) = take (nat n) (ctx_view rest e p)" "ctx_view rest e (ptr_add p n) = drop (nat n) (ctx_view rest e p)"
      "ctx_stream rest e (ptr_add p n) = drop (nat n) (ctx_stream rest e p)"
  | (outside) "int (length (ctx_view rest e p)) < n" "overrun e (k + n)" "in_buffer e (ptr_add p n) (k + n)"
proof -
  let ?l = "in_limit e - k" and ?S = "ctx_stream rest e p"
  have at: "p = ptr_add (in_end e) k" using p(1) by (simp add: in_buffer_def ptr_diff_eq)
  then have view: "ctx_view rest e p = take (nat ?l) ?S"
    "ctx_view rest e (ptr_add p n) = take (nat (?l - n)) (ctx_stream rest e (ptr_add p n))"
    by (simp_all add: ctx_view_def algebra_simps)
  have l: "0 \<le> ?l" using p(2) by (simp add: overrun_def)
  note in_buf = in_buffer_add [OF p(1) n(2,1)]
  show thesis
  proof (cases "in_next e = None \<and> 0 < k + n")
    case True
    have "k \<le> 0" using True p(2) by (simp add: overrun_def)
    then have "length (take (nat ?l) ?S) \<le> nat (- k)" using at True ended l by (auto simp: ctx_stream_def after_end_def)
    then have "int (length (ctx_view rest e p)) < n" unfolding view using True \<open>k \<le> 0\<close> by linarith
    with True in_buf show thesis by (intro outside) (simp_all add: overrun_def)
  next
    case False
    then have "in_next e = None \<longrightarrow> k + n \<le> 0" by auto
    note known = known_bytes [OF ok p(1) n this, of rest]
    show thesis
    proof (cases "n \<le> ?l")
      case True
      then have "nat n \<le> nat ?l" "nat (?l - n) = nat ?l - nat n" using n(1) l by (simp_all add: nat_diff_distrib)
      moreover have "\<not> overrun e (k + n)" using True False by (simp add: overrun_def)
      moreover have "n \<le> int (length (take (nat ?l) ?S))" using known(2) True n(1) by (simp add: nat_le_iff)
      ultimately show thesis using known in_buf by (intro inside) (simp_all add: view drop_take min_absorb1)
    next
      case F: False
      with in_buf l show thesis by (intro outside) (auto simp: view overrun_def)
    qed
  qed
qed

section \<open>The next buffer\<close>

lemma last_bytes_append: "c \<le> length y \<Longrightarrow> last_bytes c (x @ y) = last_bytes c y"
  by (simp add: last_bytes_def)

lemma supply_okI:
  assumes "zcis e = Some s" "ok s" "given s = g @ x" "0 \<le> overall_limit e + int (length x)"
    "\<And>c. c \<le> length x \<Longrightarrow> c \<le> length (obtained e) \<Longrightarrow> last_bytes c (obtained e) = last_bytes c x"
    "in_next e = None \<Longrightarrow> in_size e = 0 \<and> (coming rest e = [] \<or> in_limit e \<le> 0)"
  shows "supply_ok ok rest given e"
proof -
  have "\<exists>x g. given s = g @ x \<and> 0 \<le> overall_limit e + int (length x) \<and>
      (\<forall>c. c \<le> length x \<longrightarrow> c \<le> length (obtained e) \<longrightarrow> last_bytes c (obtained e) = last_bytes c x)"
    using assms(3-5) by blast
  with assms(1,2,6) show ?thesis by (simp add: supply_ok_def)
qed

lemma supply_new:
  assumes "zcis e = Some s" "ok s" "given s = g @ x" "0 \<le> overall_limit e + int (length x)" "\<exists>y. obtained e = y @ x" "in_next e \<noteq> None"
  shows "supply_ok ok rest given e"
  by (rule supply_okI [where s = s and g = g and x = x]) (use assms in \<open>auto simp: last_bytes_append\<close>)

lemma supply_ended:
  assumes "zcis e = Some s" "ok s" "rest s = []" "in_size e = 0" "overall_limit e = 0"
  shows "supply_ok ok rest given e"
  by (rule supply_okI [where s = s and g = "given s" and x = "[]"]) (use assms in \<open>simp_all add: coming_def last_bytes_def\<close>)

lemma supply_same:
  assumes "supply_ok ok rest given e" "zcis e2 = zcis e" "overall_limit e2 = overall_limit e" "\<exists>y. obtained e = y @ obtained e2"
    "in_next e2 = None \<Longrightarrow> in_size e2 = 0 \<and> (coming rest e2 = [] \<or> in_limit e2 \<le> 0)"
  shows "supply_ok ok rest given e2"
proof (cases "zcis e")
  case None
  with assms show ?thesis by (simp add: supply_ok_def)
next
  case (Some s)
  obtain y where y: "obtained e = y @ obtained e2" using assms(4) by blast
  from assms(1) Some obtain x g where x: "ok s" "given s = g @ x" "0 \<le> overall_limit e + int (length x)"
    "\<forall>c. c \<le> length x \<longrightarrow> c \<le> length (obtained e) \<longrightarrow> last_bytes c (obtained e) = last_bytes c x"
    by (auto simp: supply_ok_def)
  have "last_bytes c (obtained e2) = last_bytes c x" if "c \<le> length x" "c \<le> length (obtained e2)" for c
    using x(4) that y last_bytes_append [of c "obtained e2" y] by simp
  with x Some assms(2,3,5) show ?thesis by (auto simp: supply_ok_def)
qed

lemma obtained_slop:
  assumes "buffers_ok e" "in_next e = Some (Patch 0)"
  shows "\<exists>y. obtained e = y @ take 16 (readable e (in_end e))"
proof (cases "in_end e")
  case (Patch i)
  with assms have "0 \<le> i" by (simp add: buffers_ok_def)
  then have "nat (i + 16) = nat i + 16" by simp
  with Patch assms \<open>0 \<le> i\<close> show ?thesis by (auto simp: obtained_def readable_at take_add Let_def)
next
  case (Chunk i)
  with assms have "0 \<le> i" by (simp add: buffers_ok_def)
  then have "nat (i + 16) = nat i + 16" by simp
  with Chunk assms \<open>0 \<le> i\<close> show ?thesis by (auto simp: obtained_def readable_at take_add Let_def)
qed

lemma slop_copy: "buffers_ok e \<Longrightarrow> copy_bytes e (in_end e) kSlopBytes = Some (take 16 (readable e (in_end e)))"
  using readable_end [of e] by (simp add: copy_bytes_def kSlopBytes_def)

context zero_copy_input
begin

lemma stream_chunkE:
  assumes "zcis e = Some s" "ok s"
  obtains (end_of_stream) s' z where "stream_chunk ops e = Some (None, e\<lparr>zcis := Some s', in_chunk := [], in_size := z\<rparr>)"
      "ok s'" "rest s = []" "rest s' = []"
  | (chunk) d s' g where "stream_chunk ops e =
      Some (Some d, e\<lparr>zcis := Some s', in_chunk := d, in_size := int (length d), overall_limit := overall_limit e - int (length d)\<rparr>)"
      "ok s'" "rest s = d @ rest s'" "given s' = g @ d" "d \<noteq> []"
  using assms
proof (induction "idle s" arbitrary: s e thesis rule: less_induct)
  case less
  show ?case
  proof (rule nextE [OF less.prems(4)])
    fix s'
    assume "Next ops s = Some (None, s')" "ok s'" "rest s = []" "rest s' = []"
    then show ?thesis using less.prems(3)
      by (intro less.prems(1) [of "in_size e" s']) (simp_all add: stream_chunk.simps [of ops e] StreamNext_def)
  next
    fix d s' g
    assume n: "Next ops s = Some (Some d, s')" "ok s'" "rest s = d @ rest s'" "given s' = g @ d" "d = [] \<Longrightarrow> idle s' < idle s"
    show ?thesis
    proof (cases "d = []")
      case False
      with n less.prems(3) show ?thesis
        by (intro less.prems(2) [of d s' g]) (simp_all add: stream_chunk.simps [of ops e] StreamNext_def)
    next
      case True
      let ?e = "e\<lparr>zcis := Some s', in_chunk := [], in_size := 0\<rparr>"
      have step: "stream_chunk ops e = stream_chunk ops ?e" using n(1) True less.prems(3)
        by (simp add: stream_chunk.simps [of ops e] StreamNext_def)
      show ?thesis
      proof (rule less.hyps [OF n(5) [OF True], of ?e])
        fix t z assume "stream_chunk ops ?e = Some (None, ?e\<lparr>zcis := Some t, in_chunk := [], in_size := z\<rparr>)" "ok t" "rest s' = []" "rest t = []"
        then show ?thesis using n True step by (intro less.prems(1) [of z t]) simp_all
      next
        fix d' t g'
        assume "stream_chunk ops ?e = Some (Some d', ?e\<lparr>zcis := Some t, in_chunk := d', in_size := int (length d'),
          overall_limit := overall_limit ?e - int (length d')\<rparr>)" "ok t" "rest s' = d' @ rest t" "given t = g' @ d'" "d' \<noteq> []"
        then show ?thesis using n True step by (intro less.prems(2) [of d' t g']) simp_all
      qed (use n in simp_all)
    qed
  qed
qed

text \<open>What \<open>NextBuffer\<close> does when it need not look for the end of the message.\<close>

lemma NextBuffer_cases:
  assumes "buffers_ok e" "supply_ok ok rest given e" "d < 0"
  obtains (none) "in_next e = None" "NextBuffer ops r d e = Some (None, e)"
  | (chunk) "in_next e = Some (Chunk 0)"
      "NextBuffer ops r d e = Some (Some (Chunk 0), e\<lparr>in_end := Chunk (in_size e - 16), in_next := Some (Patch 0)\<rparr>)"
  | (large) s s' data g where "in_next e = Some (Patch 0)" "zcis e = Some s" "0 < overall_limit e" "ok s'" "rest s = data @ rest s'" "given s' = g @ data"
      "16 < length data" "NextBuffer ops r d e = Some (Some (Patch 0), e\<lparr>in_patch := take 16 (readable e (in_end e)) @ take 16 data,
        zcis := Some s', in_chunk := data, in_size := int (length data), overall_limit := overall_limit e - int (length data),
        in_next := Some (Chunk 0), in_end := Patch 16\<rparr>)"
  | (small) s s' data g where "in_next e = Some (Patch 0)" "zcis e = Some s" "0 < overall_limit e" "ok s'" "rest s = data @ rest s'" "given s' = g @ data"
      "0 < length data" "length data \<le> 16" "NextBuffer ops r d e = Some (Some (Patch 0),
        e\<lparr>in_patch := take 16 (readable e (in_end e)) @ data @ drop (16 + length data) (in_patch e),
        zcis := Some s', in_chunk := data, in_size := int (length data), overall_limit := overall_limit e - int (length data),
        in_next := Some (Patch 0), in_end := Patch (int (length data))\<rparr>)"
  | (eos) z ch ov where "in_next e = Some (Patch 0)" "(z = None) = (zcis e = None)" "0 < overall_limit e \<or> z = zcis e \<and> ov = overall_limit e"
      "0 < overall_limit e \<longrightarrow> ov = 0 \<and> coming rest e = [] \<and> (\<exists>s. z = Some s \<and> ok s \<and> rest s = [])"
      "NextBuffer ops r d e = Some (Some (Patch 0), e\<lparr>in_patch := take 16 (readable e (in_end e)) @ drop 16 (in_patch e),
        zcis := z, in_chunk := ch, overall_limit := ov, in_next := None, in_end := Patch 16, in_size := 0\<rparr>)"
proof (cases "in_next e")
  case None
  then show thesis by (intro none) (simp_all add: NextBuffer_def)
next
  case (Some q)
  show thesis
  proof (cases q)
    case (Chunk j)
    then have "j = 0" using Some assms(1) by (simp add: buffers_ok_def)
    with Some Chunk show thesis by (intro chunk) (simp_all add: NextBuffer_def kSlopBytes_def)
  next
    case (Patch j)
    then have q: "in_next e = Some (Patch 0)" using Some assms(1) by (simp add: buffers_ok_def)
    let ?slop = "take 16 (readable e (in_end e))"
    let ?e = "e\<lparr>in_patch := overwrite 0 ?slop (in_patch e)\<rparr>"
    have slop: "length ?slop = 16" "length (in_patch e) = 32" using readable_end [OF assms(1)] assms(1) by (simp_all add: buffers_ok_def)
    have o1: "overwrite 0 ?slop (in_patch e) = ?slop @ drop 16 (in_patch e)" using slop by (simp add: overwrite_def)
    have o2: "overwrite 16 data (overwrite 0 ?slop (in_patch e)) = ?slop @ data @ drop (16 + length data) (in_patch e)" for data
      using slop by (simp only: o1 overwrite_def) (simp add: add.commute)
    show thesis
    proof (cases "0 < overall_limit e")
      case False
      show thesis
        by (rule eos [of "zcis e" "overall_limit e" "in_chunk e"])
          (use False q assms(2,3) slop_copy [OF assms(1)] o1 in \<open>simp_all add: NextBuffer_def kSlopBytes_def\<close>)
    next
      case True
      with assms(2) obtain s where s: "zcis e = Some s" "ok s" by (auto simp: supply_ok_def split: option.splits)
      have go: "NextBuffer ops r d e = do {
          (b, e) \<leftarrow> next_from_stream ops ?e;
          Some (Some (Patch 0), if b then e else e\<lparr>in_next := None, in_end := Patch kSlopBytes, in_size := 0\<rparr>) }"
        using q True assms(3) slop_copy [OF assms(1)] by (simp add: NextBuffer_def)
      have zs: "zcis ?e = Some s" using s by simp
      show thesis
      proof (rule stream_chunkE [OF zs s(2)])
        fix s' z
        assume e: "stream_chunk ops ?e = Some (None, ?e\<lparr>zcis := Some s', in_chunk := [], in_size := z\<rparr>)" "ok s'" "rest s = []" "rest s' = []"
        show thesis
          by (rule eos [of "Some s'" 0 "[]"])
            (use q True s e go o1 in \<open>simp_all add: next_from_stream_def coming_def kSlopBytes_def\<close>)
      next
        fix data s' g
        assume e: "stream_chunk ops ?e = Some (Some data, ?e\<lparr>zcis := Some s', in_chunk := data, in_size := int (length data),
            overall_limit := overall_limit ?e - int (length data)\<rparr>)" "ok s'" "rest s = data @ rest s'" "given s' = g @ data" "data \<noteq> []"
        show thesis
        proof (cases "16 < length data")
          case True
          then have "length (take 16 data) = 16" by simp
          with True have "overwrite 16 (take 16 data) (overwrite 0 ?slop (in_patch e)) = ?slop @ take 16 data" using slop by (simp add: o2)
          with True show thesis using q \<open>0 < overall_limit e\<close> s e go
            by (intro large [of s s' data g]) (simp_all add: next_from_stream_def kSlopBytes_def)
        next
          case False
          with q \<open>0 < overall_limit e\<close> s e go o2 show thesis
            by (intro small [of s s' data g]) (simp_all add: next_from_stream_def kSlopBytes_def)
        qed
      qed
    qed
  qed
qed

text \<open>The new buffer holds what followed the old one, once the limit has been moved to it. \<open>n\<close> is its size.\<close>

definition follows :: "('s, 'm) EpsCopyInputStream_scheme \<Rightarrow> pointer \<Rightarrow> int \<Rightarrow> ('s, 'm) EpsCopyInputStream_scheme \<Rightarrow> bool" where
  "follows e q n e2 \<longleftrightarrow> buffers_ok e2 \<and> supply_ok ok rest given e2 \<and> same_context e e2 \<and> q = ptr_add (in_end e2) (- n) \<and> 0 < n \<and>
     in_limit e2 = in_limit e - n \<and>
     (\<forall>j. 0 \<le> j \<longrightarrow> j \<le> 16 \<longrightarrow> in_buffer e2 (ptr_add q j) (j - n) \<and> overrun e2 (j - n) = overrun e j \<and>
        ctx_stream rest e2 (ptr_add q j) = ctx_stream rest e (ptr_add (in_end e) j) \<and>
        ctx_view rest e2 (ptr_add q j) = ctx_view rest e (ptr_add (in_end e) j))"

lemma followsI:
  assumes "buffers_ok e2" "supply_ok ok rest given e2" "same_context e e2" "q = ptr_add (in_end e2) (- n)" "0 < n" "in_limit e2 = in_limit e - n"
    and ix: "0 \<le> ptr_index q" and more: "in_next e \<noteq> None" and eos: "in_next e2 = None \<Longrightarrow> n = 16"
    and bytes: "take (nat n) (readable e2 q) @ after_end rest e2 = after_end rest e"
  shows "follows e q n e2"
  unfolding follows_def
proof (intro conjI allI impI)
  fix j :: int assume j: "0 \<le> j" "j \<le> 16"
  show "in_buffer e2 (ptr_add q j) (j - n)" using assms(4,5) ix j by (simp add: in_buffer_def ptr_diff_eq)
  have q: "in_buffer e2 q (- n)" using assms(4,5) ix by (simp add: in_buffer_def ptr_diff_eq)
  have S: "ctx_stream rest e2 q = after_end rest e" using assms(4,5) bytes by (simp add: ctx_stream_def)
  have "in_next e2 = None \<longrightarrow> - n + j \<le> 0" "- n + j \<le> 16" using eos j assms(5) by auto
  from known_bytes(3) [OF assms(1) q j(1) this(2,1), of rest]
  have "ctx_stream rest e2 (ptr_add q j) = drop (nat j) (after_end rest e)" by (simp only: S)
  then show s: "ctx_stream rest e2 (ptr_add q j) = ctx_stream rest e (ptr_add (in_end e) j)" using j by (simp add: ctx_stream_def [of rest e])
  show "ctx_view rest e2 (ptr_add q j) = ctx_view rest e (ptr_add (in_end e) j)"
    using s assms(4,6) by (simp add: ctx_view_def)
  show "overrun e2 (j - n) = overrun e j" using assms(5,6) more eos j by (auto simp: overrun_def)
qed (use assms in simp_all)

lemma NextBuffer_step:
  assumes "buffers_ok e" "supply_ok ok rest given e" "d < 0" "in_next e \<noteq> None"
  obtains q n e1 where "NextBuffer ops r d e = Some (Some q, e1)" "ptr_diff (in_end e1) q = Some n" "in_limit e1 = in_limit e"
    "in_limit_end e1 = in_limit_end e" "follows e q n (e1\<lparr>in_limit := in_limit e - n\<rparr>)"
  using assms(1-3)
proof (rule NextBuffer_cases [where r = r])
  assume c: "in_next e = Some (Chunk 0)"
    "NextBuffer ops r d e = Some (Some (Chunk 0), e\<lparr>in_end := Chunk (in_size e - 16), in_next := Some (Patch 0)\<rparr>)"
  have ok: "in_size e = int (length (in_chunk e))" "16 < length (in_chunk e)" "in_limit e \<le> overall_limit e + in_size e" "length (in_patch e) = 32"
    using assms(1) c(1) by (simp_all add: buffers_ok_def)
  let ?n = "in_size e - 16" and ?e1 = "e\<lparr>in_end := Chunk (in_size e - 16), in_next := Some (Patch 0)\<rparr>"
  have n: "nat ?n = length (in_chunk e) - 16" "nat (int (length (in_chunk e)) - 16) = length (in_chunk e) - 16" using ok(1) by simp_all
  have conc: "take k xs @ drop k xs @ ys = xs @ ys" for k and xs ys :: "byte list" by (simp flip: append.assoc)
  show thesis
  proof (rule that [OF c(2), of ?n])
    show "follows e (Chunk 0) ?n (?e1\<lparr>in_limit := in_limit e - ?n\<rparr>)"
    proof (rule followsI)
      show "supply_ok ok rest given (?e1\<lparr>in_limit := in_limit e - ?n\<rparr>)"
        by (rule supply_same [OF assms(2)]) (use c(1) ok(1,2) in \<open>simp_all add: obtained_def\<close>)
      show "take (nat ?n) (readable (?e1\<lparr>in_limit := in_limit e - ?n\<rparr>) (Chunk 0)) @ after_end rest (?e1\<lparr>in_limit := in_limit e - ?n\<rparr>) = after_end rest e"
        using c(1) ok by (simp add: after_end_def readable_at n coming_def conc del: append_take_drop_id take_append)
    qed (use ok c(1) in \<open>auto simp: buffers_ok_def same_context_def tight_def\<close>)
  qed simp_all
next
  fix s s' data g
  let ?e1 = "e\<lparr>in_patch := take 16 (readable e (in_end e)) @ take 16 data, zcis := Some s', in_chunk := data,
    in_size := int (length data), overall_limit := overall_limit e - int (length data), in_next := Some (Chunk 0), in_end := Patch 16\<rparr>"
  assume c: "in_next e = Some (Patch 0)" "zcis e = Some s" "0 < overall_limit e" "ok s'" "rest s = data @ rest s'" "given s' = g @ data"
    "16 < length data" "NextBuffer ops r d e = Some (Some (Patch 0), ?e1)"
  have slop: "length (take 16 (readable e (in_end e))) = 16" using readable_end [OF assms(1)] by simp
  have lim: "in_limit e \<le> overall_limit e + 16" using assms(1) c(1) by (simp add: buffers_ok_def)
  show thesis
  proof (rule that [OF c(8), of 16])
    show "follows e (Patch 0) 16 (?e1\<lparr>in_limit := in_limit e - 16\<rparr>)"
    proof (rule followsI)
      show "supply_ok ok rest given (?e1\<lparr>in_limit := in_limit e - 16\<rparr>)"
        by (rule supply_new [of _ s' _ _ g data]) (use c in \<open>simp_all add: obtained_def\<close>)
      show "take (nat 16) (readable (?e1\<lparr>in_limit := in_limit e - 16\<rparr>) (Patch 0)) @ after_end rest (?e1\<lparr>in_limit := in_limit e - 16\<rparr>) = after_end rest e"
        using c(1,2,5) slop by (simp add: after_end_def readable_at coming_def)
    qed (use slop lim c in \<open>auto simp: buffers_ok_def same_context_def tight_def\<close>)
  qed simp_all
next
  fix s s' data g
  let ?e1 = "e\<lparr>in_patch := take 16 (readable e (in_end e)) @ data @ drop (16 + length data) (in_patch e), zcis := Some s', in_chunk := data,
    in_size := int (length data), overall_limit := overall_limit e - int (length data), in_next := Some (Patch 0), in_end := Patch (int (length data))\<rparr>"
  assume c: "in_next e = Some (Patch 0)" "zcis e = Some s" "0 < overall_limit e" "ok s'" "rest s = data @ rest s'" "given s' = g @ data"
    "0 < length data" "length data \<le> 16" "NextBuffer ops r d e = Some (Some (Patch 0), ?e1)"
  let ?n = "int (length data)" and ?slop = "take 16 (readable e (in_end e))"
  have slop: "length ?slop = 16" using readable_end [OF assms(1)] by simp
  have lim: "in_limit e \<le> overall_limit e + 16" "length (in_patch e) = 32" using assms(1) c(1) by (simp_all add: buffers_ok_def)
  have two: "take (length data) xs @ take 16 (drop (length data) xs) = take (length data + 16) xs" for xs :: "byte list" by (simp add: take_add)
  have "take (length data + 16) (?slop @ data @ xs) = ?slop @ data" for xs using slop by simp
  with two have mem: "take (length data) (?slop @ data @ xs) @ take 16 (drop (length data) (?slop @ data @ xs)) @ ys = ?slop @ data @ ys" for xs ys
    by (metis append.assoc)
  show thesis
  proof (rule that [OF c(9), of ?n])
    show "follows e (Patch 0) ?n (?e1\<lparr>in_limit := in_limit e - ?n\<rparr>)"
    proof (rule followsI)
      show "supply_ok ok rest given (?e1\<lparr>in_limit := in_limit e - ?n\<rparr>)"
      proof (rule supply_new [of _ s' _ _ g data])
        have "take (length data + 16) (?slop @ data @ xs) = ?slop @ data" for xs using slop by simp
        then show "\<exists>y. obtained (?e1\<lparr>in_limit := in_limit e - ?n\<rparr>) = y @ data"
          by (auto simp: obtained_def nat_add_distrib simp del: take_append)
      qed (use c in simp_all)
      show "take (nat ?n) (readable (?e1\<lparr>in_limit := in_limit e - ?n\<rparr>) (Patch 0)) @ after_end rest (?e1\<lparr>in_limit := in_limit e - ?n\<rparr>) = after_end rest e"
        using c(1,2,5) by (simp add: after_end_def readable_at coming_def mem del: take_append drop_append)
    qed (use slop lim c in \<open>auto simp: buffers_ok_def same_context_def tight_def\<close>)
  qed simp_all
next
  fix z ch ov
  let ?slop = "take 16 (readable e (in_end e))"
  let ?e1 = "e\<lparr>in_patch := take 16 (readable e (in_end e)) @ drop 16 (in_patch e), zcis := z, in_chunk := ch, overall_limit := ov,
    in_next := None, in_end := Patch 16, in_size := 0\<rparr>"
  assume c: "in_next e = Some (Patch 0)" "(z = None) = (zcis e = None)" "0 < overall_limit e \<or> z = zcis e \<and> ov = overall_limit e"
    "0 < overall_limit e \<longrightarrow> ov = 0 \<and> coming rest e = [] \<and> (\<exists>s. z = Some s \<and> ok s \<and> rest s = [])" "NextBuffer ops r d e = Some (Some (Patch 0), ?e1)"
  let ?e2 = "?e1\<lparr>in_limit := in_limit e - 16\<rparr>"
  have slop: "length ?slop = 16" using readable_end [OF assms(1)] by simp
  have lim: "in_limit e \<le> overall_limit e + 16" "length (in_patch e) = 32" using assms(1) c(1) by (simp_all add: buffers_ok_def)
  have got: "obtained ?e2 = ?slop" using slop by (simp add: obtained_def)
  have z: "coming rest ?e2 = coming rest e"
    using c(3,4) by (auto simp: coming_def)
  have sup: "supply_ok ok rest given ?e2"
  proof (cases "0 < overall_limit e")
    case True
    with c(4) obtain s where "z = Some s" "ok s" "rest s = []" "ov = 0" by blast
    then show ?thesis by (intro supply_ended [of _ s]) simp_all
  next
    case False
    show ?thesis
      by (rule supply_same [OF assms(2)]) (use False c(3) lim obtained_slop [OF assms(1) c(1)] got in simp_all)
  qed
  show thesis
  proof (rule that [OF c(5), of 16])
    show "follows e (Patch 0) 16 ?e2"
    proof (rule followsI)
      show "take (nat 16) (readable ?e2 (Patch 0)) @ after_end rest ?e2 = after_end rest e"
        using c(1) slop z by (simp add: after_end_def readable_at)
    qed (use slop lim c(1,2,3,4) sup in \<open>auto simp: buffers_ok_def same_context_def tight_def\<close>)
  qed simp_all
qed (use assms(4) in simp)

section \<open>The test for the end\<close>

lemma Ctx_Next_step:
  assumes "ctx_ok ok rest given e" "in_next e \<noteq> None"
  obtains q n e2 where "Ctx_Next ops e = Some (Some q, e2)" "follows e q n e2" "ctx_ok ok rest given e2"
proof -
  have ok: "buffers_ok e" "supply_ok ok rest given e" "- 1 < (0 :: int)" using assms(1) by (simp_all add: ctx_ok_def)
  obtain q n e1 where s: "NextBuffer ops 0 (- 1) e = Some (Some q, e1)" "ptr_diff (in_end e1) q = Some n" "in_limit e1 = in_limit e"
    "in_limit_end e1 = in_limit_end e" "follows e q n (e1\<lparr>in_limit := in_limit e - n\<rparr>)"
    by (rule NextBuffer_step [OF ok assms(2), of 0])
  let ?e2 = "e1\<lparr>in_limit := in_limit e - n, in_limit_end := ptr_add (in_end e1) (min 0 (in_limit e - n))\<rparr>"
  have "Ctx_Next ops e = Some (Some q, ?e2)" using s by (simp add: Ctx_Next_def)
  moreover have "follows e q n ?e2 = follows e q n (e1\<lparr>in_limit := in_limit e - n\<rparr>)" by (simp add: follows_def same_context_def)
  moreover from this have "follows e q n ?e2" using s(5) by (simp only:)
  moreover have "ctx_ok ok rest given ?e2" using s(5) by (simp add: ctx_ok_def follows_def)
  ultimately show thesis using that by blast
qed

abbreviation "pc_ok \<equiv> ctx_ok ok rest given"
abbreviation "pc_at \<equiv> at_pointer ok rest given"
abbreviation "pc_moved \<equiv> ctx_moved ok rest given"
abbreviation "pc_view \<equiv> ctx_view rest"

text \<open>Without a test, in the buffer.\<close>

lemma advance_at:
  assumes "pc_at e p k" "0 \<le> n" "k + n \<le> 16"
  obtains (inside) "pc_moved (nat n) e p k e (ptr_add p n) (k + n)" "n \<le> int (length (pc_view e p))"
      "take (nat n) (readable e p) = take (nat n) (pc_view e p)"
  | (outside) "int (length (pc_view e p)) < n" "overrun e (k + n)" "in_buffer e (ptr_add p n) (k + n)"
proof -
  have ok: "buffers_ok e" "in_buffer e p k" "\<not> overrun e k" "pc_ok e" using assms(1) by (simp_all add: at_pointer_def ctx_ok_def)
  have ended: "in_next e = None \<Longrightarrow> coming rest e = [] \<or> in_limit e \<le> 0" using ok(4) by (simp add: ctx_ok_def supply_ok_def)
  show thesis
  proof (rule advance [OF ok(1-3) assms(2,3) ended])
    assume "n \<le> int (length (pc_view e p))" "\<not> overrun e (k + n)" "in_buffer e (ptr_add p n) (k + n)"
      "take (nat n) (readable e p) = take (nat n) (pc_view e p)" "pc_view e (ptr_add p n) = drop (nat n) (pc_view e p)"
      "ctx_stream rest e (ptr_add p n) = drop (nat n) (ctx_stream rest e p)"
    with ok(4) assms(2) show thesis by (intro inside) (simp_all add: ctx_moved_def at_pointer_def nat_le_iff)
  qed (assumption | rule outside)+
qed

lemma view_nonempty: "pc_at e p k \<Longrightarrow> k < 0 \<Longrightarrow> k < in_limit e \<Longrightarrow> pc_view e p \<noteq> []"
  by (rule advance_at [of e p k 1]) (auto simp: overrun_def)

lemma view_at_end:
  assumes "pc_at e p k" "in_limit e = k \<or> in_next e = None \<and> k = 0"
  shows "pc_view e p = []"
proof (rule advance_at [OF assms(1), of 0])
  have p: "ptr_diff (in_end e) p = Some (- k)" using assms(1) by (auto simp: at_pointer_def in_buffer_def intro: ptr_diff_flip)
  have "in_next e = None \<Longrightarrow> coming rest e = [] \<or> in_limit e \<le> 0" using assms(1) by (simp add: at_pointer_def ctx_ok_def supply_ok_def)
  with assms(2) p show ?thesis by (auto simp: ctx_view_def ctx_stream_def after_end_def)
qed (use assms(1) in \<open>auto simp: at_pointer_def in_buffer_def\<close>)

lemma followsD:
  assumes "follows e q n e2"
  shows "buffers_ok e2" "supply_ok ok rest given e2" "same_context e e2" "q = ptr_add (in_end e2) (- n)" "0 < n"
    "0 \<le> j \<Longrightarrow> j \<le> 16 \<Longrightarrow> in_buffer e2 (ptr_add q j) (j - n)"
    "0 \<le> j \<Longrightarrow> j \<le> 16 \<Longrightarrow> overrun e2 (j - n) = overrun e j"
    "0 \<le> j \<Longrightarrow> j \<le> 16 \<Longrightarrow> ctx_stream rest e2 (ptr_add q j) = ctx_stream rest e (ptr_add (in_end e) j)"
    "0 \<le> j \<Longrightarrow> j \<le> 16 \<Longrightarrow> pc_view e2 (ptr_add q j) = pc_view e (ptr_add (in_end e) j)"
    "in_limit e2 = in_limit e - n"
  using assms unfolding follows_def by blast+

lemma done_loop_spec:
  assumes "buffers_ok e" "supply_ok ok rest given e" "d < 0" "0 \<le> r" "r \<le> 16" "r < in_limit e" "p = ptr_add (in_end e) r"
  shows "(\<exists>e'. done_loop ops r d e = Some (None, True, e') \<and> overrun e r) \<or>
    \<not> overrun e r \<and> (\<exists>p' k' b e'. done_loop ops r d e = Some (Some p', b, if b then SetEndOfStream e' else e') \<and>
      pc_moved 0 e p r e' p' k' \<and> (b \<longleftrightarrow> pc_view e p = []) \<and> (b \<or> k' < 0))"
  using assms
proof (induction "nat r" arbitrary: r e p rule: less_induct)
  case less
  show ?case
  proof (cases "in_next e")
    case None
    show ?thesis
    proof (cases "r = 0")
      case True
      let ?e = "e\<lparr>in_limit_end := in_end e\<rparr>"
      have "done_loop ops r d e = Some (Some (in_end e), True, SetEndOfStream ?e)"
        using None True by (subst done_loop.simps) (simp add: NextBuffer_def)
      moreover have "pc_at ?e (in_end e) 0" using less.prems readable_end [of e] True None
        by (simp add: at_pointer_def ctx_ok_def in_buffer_def overrun_def)
      moreover from this have "pc_moved 0 e p r ?e (in_end e) 0" "pc_view e p = []"
        using view_at_end [of ?e "in_end e" 0] less.prems(7) True None by (simp_all add: ctx_moved_def same_context_def)
      moreover have "\<not> overrun e r" using True less.prems(6) by (simp add: overrun_def)
      ultimately show ?thesis by (intro disjI2) (auto intro!: exI [of _ "in_end e"] exI [of _ ?e])
    next
      case False
      with None have "done_loop ops r d e = Some (None, True, e)" by (subst done_loop.simps) (simp add: NextBuffer_def)
      with False None less.prems show ?thesis by (simp add: overrun_def)
    qed
  next
    case (Some y)
    then have next_buf: "in_next e \<noteq> None" by simp
    have fine: "\<not> overrun e r" using less.prems(6) Some by (simp add: overrun_def)
    obtain q n e1 where s: "NextBuffer ops r d e = Some (Some q, e1)" "ptr_diff (in_end e1) q = Some n" "in_limit e1 = in_limit e"
      "in_limit_end e1 = in_limit_end e" "follows e q n (e1\<lparr>in_limit := in_limit e - n\<rparr>)"
      by (rule NextBuffer_step [OF less.prems(1-3) next_buf, of r])
    let ?e2 = "e1\<lparr>in_limit := in_limit e - n\<rparr>" and ?p = "ptr_add q r"
    have f: "buffers_ok ?e2" "supply_ok ok rest given ?e2" "same_context e ?e2" "q = ptr_add (in_end e1) (- n)" "0 < n"
      "in_buffer ?e2 ?p (r - n)" "overrun ?e2 (r - n) = overrun e r"
      "ctx_stream rest ?e2 ?p = ctx_stream rest e p" "pc_view ?e2 ?p = pc_view e p"
      unfolding less.prems(7) using followsD(1-3,5) [OF s(5)] followsD(4) [OF s(5)] followsD(6-9) [OF s(5) less.prems(4,5)] by simp_all
    have diff: "ptr_diff ?p (in_end e1) = Some (r - n)" using f(6) by (simp add: in_buffer_def)
    show ?thesis
    proof (cases "r - n \<ge> 0")
      case True
      have step: "done_loop ops r d e = done_loop ops (r - n) d ?e2"
        using s(1-3) diff True by (subst done_loop.simps) simp
      have p: "?p = ptr_add (in_end ?e2) (r - n)" using diff by (simp add: ptr_diff_eq)
      have "nat (r - n) < nat r" using f(5) True by simp
      from less.hyps [OF this f(1,2) less.prems(3) True _ _ p] less.prems(5,6) f(5)
      have "(\<exists>e'. done_loop ops (r - n) d ?e2 = Some (None, True, e') \<and> overrun ?e2 (r - n)) \<or>
        \<not> overrun ?e2 (r - n) \<and> (\<exists>p' k' b e'. done_loop ops (r - n) d ?e2 = Some (Some p', b, if b then SetEndOfStream e' else e') \<and>
          pc_moved 0 ?e2 ?p (r - n) e' p' k' \<and> (b \<longleftrightarrow> pc_view ?e2 ?p = []) \<and> (b \<or> k' < 0))" by simp
      moreover have "pc_moved 0 ?e2 ?p (r - n) e' p' k' \<Longrightarrow> pc_moved 0 e p r e' p' k'" for e' p' k'
        using f(3,8,9) by (auto simp: ctx_moved_def intro: same_context_trans)
      ultimately show ?thesis unfolding step f(7,9) using fine by blast
    next
      case False
      let ?e3 = "?e2\<lparr>in_limit_end := ptr_add (in_end e1) (min 0 (in_limit e - n))\<rparr>"
      have "done_loop ops r d e = Some (Some ?p, False, ?e3)"
        using s(1-3) diff False by (subst done_loop.simps) simp
      moreover have at: "pc_at ?e3 ?p (r - n)" using f fine by (simp add: at_pointer_def ctx_ok_def)
      moreover have "pc_moved 0 e p r ?e3 ?p (r - n)" using at f(3,8,9) by (simp add: ctx_moved_def same_context_def)
      moreover have "pc_view ?e3 ?p \<noteq> []" using view_nonempty [OF at] False less.prems(6) by simp
      then have "pc_view e p \<noteq> []" using f(9) by simp
      ultimately show ?thesis using fine False by (intro disjI2 conjI exI [of _ ?p] exI [of _ "r - n"] exI [of _ False] exI [of _ ?e3]) simp_all
    qed
  qed
qed

text \<open>The test: the pointer is overrun; or the limit is there; or the input ends there; or there is more.\<close>

lemma DoneE:
  assumes "pc_ok e" "in_buffer e p k" "d < 0"
  obtains (bad) e' where "DoneWithCheck ops d p e = Some (None, True, e')" "overrun e k"
  | (at_limit) "DoneWithCheck ops d p e = Some (Some p, True, e)" "\<not> overrun e k" "pc_view e p = []" "in_limit e = k"
  | (at_eos) p' k' e' where "DoneWithCheck ops d p e = Some (Some p', True, SetEndOfStream e')" "\<not> overrun e k" "pc_moved 0 e p k e' p' k'"
      "pc_view e p = []" "in_limit e \<noteq> k"
  | (go_on) p' k' e' where "DoneWithCheck ops d p e = Some (Some p', False, e')" "\<not> overrun e k" "pc_moved 0 e p k e' p' k'"
      "k' < 0" "pc_view e p \<noteq> []"
proof -
  have p: "p = ptr_add (in_end e) k" "ptr_diff p (in_end e) = Some k" "k \<le> 16" using assms(2) by (auto simp: in_buffer_def ptr_diff_eq)
  have le: "in_limit_end e = ptr_add (in_end e) (min 0 (in_limit e))" "buffers_ok e" "supply_ok ok rest given e" using assms(1) by (simp_all add: ctx_ok_def)
  have diff: "ptr_diff p (in_limit_end e) = Some (k - min 0 (in_limit e))" unfolding p(1) le(1) by (cases "in_end e") simp_all
  show thesis
  proof (cases "k < min 0 (in_limit e)")
    case True
    then have fine: "\<not> overrun e k" by (auto simp: overrun_def)
    then have at: "pc_at e p k" using assms by (simp add: at_pointer_def)
    show thesis
      by (rule go_on [of p e k]) (use True diff fine at ctx_moved_refl [OF at] view_nonempty [OF at] in \<open>simp_all add: DoneWithCheck_def\<close>)
  next
    case False
    then have step: "DoneWithCheck ops d p e =
        (if k = in_limit e then Some (if k > 0 \<and> in_next e = None then None else Some p, True, e) else DoneFallback ops k d e)"
      by (auto simp: DoneWithCheck_def diff p(2))
    consider (lim) "k = in_limit e" | (past) "in_limit e < k" | (within) "k < in_limit e" by linarith
    then show thesis
    proof cases
      case lim
      show thesis
      proof (cases "0 < k \<and> in_next e = None")
        case True
        then show thesis using step lim by (intro bad [of e]) (simp_all add: overrun_def)
      next
        case F: False
        then have fine: "\<not> overrun e k" using lim by (auto simp: overrun_def)
        then have "pc_at e p k" using assms by (simp add: at_pointer_def)
        then have "pc_view e p = []" by (rule view_at_end) (use lim in simp)
        with step lim F fine show thesis by (intro at_limit) auto
      qed
    next
      case past
      then show thesis using step by (intro bad [of e]) (simp_all add: overrun_def DoneFallback_def)
    next
      case within
      then have step: "DoneWithCheck ops d p e = done_loop ops k d e" using step by (simp add: DoneFallback_def)
      have "0 \<le> k" using False within by linarith
      from done_loop_spec [OF le(2,3) assms(3) this p(3) within p(1)] show thesis
      proof (elim disjE conjE exE)
        fix e' assume "done_loop ops k d e = Some (None, True, e')" "overrun e k"
        then show thesis using step by (intro bad) simp_all
      next
        fix p' k' b e'
        assume "\<not> overrun e k" "done_loop ops k d e = Some (Some p', b, if b then SetEndOfStream e' else e')" "pc_moved 0 e p k e' p' k'"
          "b \<longleftrightarrow> pc_view e p = []" b
        then show thesis using step within by (intro at_eos [of p' e' k']) simp_all
      next
        fix p' k' b e'
        assume a: "\<not> overrun e k" "done_loop ops k d e = Some (Some p', b, if b then SetEndOfStream e' else e')" "pc_moved 0 e p k e' p' k'"
          "b \<longleftrightarrow> pc_view e p = []" "k' < 0"
        show thesis
        proof (cases b)
          case True
          then show thesis using step within a by (intro at_eos [of p' e' k']) simp_all
        next
          case False
          then show thesis using step a by (intro go_on [of p' e' k']) simp_all
        qed
      qed
    qed
  qed
qed

end

end
