(* ===== verification/Parse_Read.thy ===== *)
theory Parse_Read
  imports Parse_Stream
begin

text \<open>
  The readers of a parser, as functions of the bytes up to the limit: varints and integers, whose bytes may lie behind the
  current buffer, and strings of any length. A read past the limit, or past the end of the input, is not noticed at once:
  it leaves a null pointer or one that is overrun.
\<close>

section \<open>Varints across a boundary\<close>

text \<open>The memory \<open>xs\<close> agrees with the bytes \<open>ys\<close> up to the limit as far as both of them are known.\<close>

definition transferred :: "nat \<Rightarrow> byte list \<Rightarrow> byte list \<Rightarrow> nat \<Rightarrow> nat \<Rightarrow> bool" where
  "transferred N xs ys v i \<longleftrightarrow> parse_varint N xs = VarintOk v (drop i xs) \<and> 0 < i \<and> i \<le> N \<and>
     (if i \<le> length ys then parse_varint N ys = VarintOk v (drop i ys) else parse_varint N ys = VarintPastEnd)"

lemma varint_stops: "N \<le> length xs \<Longrightarrow> (\<exists>v i. transferred N xs [] v i) \<or> parse_varint N xs = VarintBad"
proof (induction N arbitrary: xs)
  case (Suc N)
  from Suc.prems(1) obtain b xs' where xs: "xs = b # xs'" "N \<le> length xs'" by (cases xs) auto
  show ?case
  proof (cases "b < 128")
    case True
    then have "transferred (Suc N) xs [] (unat b) (Suc 0)" by (simp add: transferred_def xs(1))
    then show ?thesis by blast
  next
    case False
    from Suc.IH [OF xs(2)] show ?thesis
    proof
      assume "\<exists>v i. transferred N xs' [] v i"
      then obtain v i where "transferred N xs' [] v i" by blast
      with False have "transferred (Suc N) xs [] (unat b - 128 + 128 * v) (Suc i)" by (simp add: transferred_def xs(1))
      then show ?thesis by blast
    qed (use False in \<open>simp add: xs(1)\<close>)
  qed
qed simp

lemma varint_transfers:
  assumes "N \<le> length xs" "take (min N (length ys)) xs = take N ys"
  shows "(\<exists>v i. transferred N xs ys v i) \<or> parse_varint N xs = VarintBad \<and> (\<forall>v p. parse_varint N ys \<noteq> VarintOk v p)"
  using assms
proof (induction N arbitrary: xs ys)
  case (Suc N)
  from Suc.prems(1) obtain b xs' where xs: "xs = b # xs'" "N \<le> length xs'" by (cases xs) auto
  show ?case
  proof (cases ys)
    case Nil
    with varint_stops [OF Suc.prems(1)] show ?thesis by auto
  next
    case (Cons c ys')
    with Suc.prems xs have c: "c = b" "take (min N (length ys')) xs' = take N ys'" by simp_all
    show ?thesis
    proof (cases "b < 128")
      case True
      then have "transferred (Suc N) xs ys (unat b) (Suc 0)" by (simp add: transferred_def xs(1) Cons c(1))
      then show ?thesis by blast
    next
      case False
      from Suc.IH [OF xs(2) c(2)] show ?thesis
      proof
        assume "\<exists>v i. transferred N xs' ys' v i"
        then obtain v i where "transferred N xs' ys' v i" by blast
        with False have "transferred (Suc N) xs ys (unat b - 128 + 128 * v) (Suc i)" by (simp add: transferred_def xs(1) Cons c(1))
        then show ?thesis by blast
      next
        assume r: "parse_varint N xs' = VarintBad \<and> (\<forall>v p. parse_varint N ys' \<noteq> VarintOk v p)"
        have "map_varint f w = VarintOk v p \<Longrightarrow> \<exists>u. w = VarintOk u p" for f :: "nat \<Rightarrow> nat" and w v p by (cases w) auto
        with r have "map_varint (\<lambda>v. unat b - 128 + 128 * v) (parse_varint N ys') \<noteq> VarintOk v p" for v p by metis
        with r False show ?thesis by (simp add: xs(1) Cons c(1))
      qed
    qed
  qed
qed simp

lemma varint_transfer:
  assumes "N \<le> length xs" "take (min N (length ys)) xs = take N ys"
  obtains (ok) v i where "parse_varint N xs = VarintOk v (drop i xs)" "parse_varint N ys = VarintOk v (drop i ys)" "0 < i" "i \<le> N" "i \<le> length ys"
  | (past) v i where "parse_varint N xs = VarintOk v (drop i xs)" "\<And>v p. parse_varint N ys \<noteq> VarintOk v p" "i \<le> N" "length ys < i"
  | (bad) "parse_varint N xs = VarintBad" "\<And>v p. parse_varint N ys \<noteq> VarintOk v p"
proof -
  from varint_transfers [OF assms] show thesis
  proof (elim disjE exE conjE)
    fix v i assume "transferred N xs ys v i"
    then show thesis using ok [of v i] past [of v i] by (auto simp: transferred_def split: if_splits)
  qed (use bad in blast)
qed

section \<open>Where a reader left the input\<close>

text \<open>A null pointer, or one that is overrun.\<close>

definition lost ::
    "('s \<Rightarrow> bool) \<Rightarrow> ('s \<Rightarrow> byte list) \<Rightarrow> ('s \<Rightarrow> byte list) \<Rightarrow> ('s, 'm) EpsCopyInputStream_scheme \<Rightarrow> pointer option \<Rightarrow>
     ('s, 'm) EpsCopyInputStream_scheme \<Rightarrow> bool" where
  "lost ok rest given e r e' \<longleftrightarrow> r = None \<or> (\<exists>p k. r = Some p \<and> ctx_ok ok rest given e' \<and> in_buffer e' p k \<and> overrun e' k \<and>
     EpsCopyInputStream.more e' = EpsCopyInputStream.more e)"

text \<open>\<open>n\<close> bytes on, if there are as many.\<close>

definition consumed ::
    "('s \<Rightarrow> bool) \<Rightarrow> ('s \<Rightarrow> byte list) \<Rightarrow> ('s \<Rightarrow> byte list) \<Rightarrow> nat \<Rightarrow> ('s, 'm) EpsCopyInputStream_scheme \<Rightarrow> pointer \<Rightarrow> int \<Rightarrow>
     pointer option \<Rightarrow> ('s, 'm) EpsCopyInputStream_scheme \<Rightarrow> bool" where
  "consumed ok rest given n e p k r e' \<longleftrightarrow>
     (if n \<le> length (ctx_view rest e p) then \<exists>p' k'. r = Some p' \<and> ctx_moved ok rest given n e p k e' p' k' else lost ok rest given e r e')"

lemma lost_trans: "EpsCopyInputStream.more e1 = EpsCopyInputStream.more e \<Longrightarrow> lost ok rest given e1 r e' \<Longrightarrow> lost ok rest given e r e'"
  by (auto simp: lost_def)

lemma moved_more: "ctx_moved ok rest given n e p k e' p' k' \<Longrightarrow> EpsCopyInputStream.more e' = EpsCopyInputStream.more e"
  by (simp add: ctx_moved_def same_context_def)

lemma moved_length:
  "ctx_moved ok rest given m e p k e1 p1 k1 \<Longrightarrow> m + n \<le> length (ctx_view rest e p) \<longleftrightarrow> n \<le> length (ctx_view rest e1 p1)"
  by (auto simp: ctx_moved_def)

lemma consumed_trans:
  assumes "ctx_moved ok rest given m e p k e1 p1 k1" "consumed ok rest given n e1 p1 k1 r e'"
  shows "consumed ok rest given (m + n) e p k r e'"
proof (cases "n \<le> length (ctx_view rest e1 p1)")
  case True
  with assms(2) obtain p' k' where "r = Some p'" "ctx_moved ok rest given n e1 p1 k1 e' p' k'" by (auto simp: consumed_def)
  with ctx_moved_trans [OF assms(1) this(2)] True moved_length [OF assms(1), of n] show ?thesis by (auto simp: consumed_def)
next
  case False
  with assms(2) have "lost ok rest given e1 r e'" by (simp add: consumed_def)
  from lost_trans [OF moved_more [OF assms(1)] this] False moved_length [OF assms(1), of n] show ?thesis by (simp add: consumed_def)
qed

text \<open>What a function that is given memory does with it.\<close>

definition appender ::
    "(('s, 'm) EpsCopyInputStream_scheme \<Rightarrow> pointer \<Rightarrow> int \<Rightarrow> 'a \<Rightarrow> 'a option) \<Rightarrow> ('a \<Rightarrow> byte list \<Rightarrow> 'a) \<Rightarrow> bool" where
  "appender app g \<longleftrightarrow> (\<forall>e p n a. 0 \<le> n \<longrightarrow> nat n \<le> length (readable e p) \<longrightarrow> app e p n a = Some (g a (take (nat n) (readable e p)))) \<and>
     (\<forall>a xs ys. g (g a xs) ys = g a (xs @ ys))"

lemma appender_string: "appender append_string (@)"
  by (auto simp: appender_def append_string_def copy_bytes_def)

lemma appender_nothing: "appender (\<lambda>_ _ _. Some) (\<lambda>a _. a)"
  by (simp add: appender_def)

context zero_copy_input
begin

text \<open>At a pointer from which \<open>N\<close> bytes may be read.\<close>

lemma varint_at:
  assumes "pc_at e p k" "k + int N \<le> 16"
  obtains (ok) v i where "parse_varint N (readable e p) = VarintOk v (drop i (readable e p))" "i \<le> length (readable e p)"
      "parse_varint N (pc_view e p) = VarintOk v (drop i (pc_view e p))" "0 < i" "i \<le> N" "pc_moved i e p k e (ptr_add p (int i)) (k + int i)"
  | (past) v i where "parse_varint N (readable e p) = VarintOk v (drop i (readable e p))" "i \<le> length (readable e p)"
      "\<And>v p'. parse_varint N (pc_view e p) \<noteq> VarintOk v p'" "overrun e (k + int i)" "in_buffer e (ptr_add p (int i)) (k + int i)" "i \<le> N"
  | (bad) "parse_varint N (readable e p) = VarintBad" "\<And>v p'. parse_varint N (pc_view e p) \<noteq> VarintOk v p'"
proof -
  let ?n = "min N (length (pc_view e p))"
  have bufs: "buffers_ok e" "in_buffer e p k" using assms(1) by (simp_all add: at_pointer_def ctx_ok_def)
  have len: "N \<le> length (readable e p)" using readable_split(3) [OF bufs] assms(2) by linarith
  have "take ?n (readable e p) = take ?n (pc_view e p)"
    by (rule advance_at [OF assms(1), of "int ?n"]) (use assms(2) in \<open>auto\<close>)
  also have "\<dots> = take N (pc_view e p)" by (simp add: min_def)
  finally have agree: "take ?n (readable e p) = take N (pc_view e p)" .
  show thesis
  proof (rule varint_transfer [OF len agree])
    fix v i
    assume r: "parse_varint N (readable e p) = VarintOk v (drop i (readable e p))" "parse_varint N (pc_view e p) = VarintOk v (drop i (pc_view e p))"
      "0 < i" "i \<le> N" "i \<le> length (pc_view e p)"
    have "pc_moved i e p k e (ptr_add p (int i)) (k + int i)"
      by (rule advance_at [OF assms(1), of "int i"]) (use r(4,5) assms(2) in auto)
    with r len show thesis by (intro ok [of v i]) simp_all
  next
    fix v i
    assume r: "parse_varint N (readable e p) = VarintOk v (drop i (readable e p))" "\<And>v p'. parse_varint N (pc_view e p) \<noteq> VarintOk v p'"
      "i \<le> N" "length (pc_view e p) < i"
    have "overrun e (k + int i) \<and> in_buffer e (ptr_add p (int i)) (k + int i)"
      by (rule advance_at [OF assms(1), of "int i"]) (use r(3,4) assms(2) in auto)
    with r len show thesis by (intro past [of v i]) auto
  qed (rule bad)
qed

abbreviation "pc_lost \<equiv> lost ok rest given"
abbreviation "pc_consumed \<equiv> consumed ok rest given"

section \<open>Strings\<close>

text \<open>In the buffer, without a test.\<close>

lemma consumed_here:
  assumes "pc_at e p k" "0 \<le> n" "n \<le> 16 - k"
  shows "pc_consumed (nat n) e p k (Some (ptr_add p n)) e"
    "nat n \<le> length (pc_view e p) \<Longrightarrow> take (nat n) (readable e p) = take (nat n) (pc_view e p)"
    "nat n \<le> length (readable e p)"
proof -
  have bufs: "buffers_ok e" "in_buffer e p k" "pc_ok e" using assms(1) by (simp_all add: at_pointer_def ctx_ok_def)
  show "nat n \<le> length (readable e p)" using readable_split(3) [OF bufs(1,2)] assms(3) by linarith
  have "pc_consumed (nat n) e p k (Some (ptr_add p n)) e \<and>
    (nat n \<le> length (pc_view e p) \<longrightarrow> take (nat n) (readable e p) = take (nat n) (pc_view e p))"
  proof (rule advance_at [OF assms(1,2)])
    show "k + n \<le> 16" using assms(3) by simp
  next
    assume "pc_moved (nat n) e p k e (ptr_add p n) (k + n)" "n \<le> int (length (pc_view e p))" "take (nat n) (readable e p) = take (nat n) (pc_view e p)"
    then show ?thesis by (auto simp: consumed_def nat_le_iff)
  next
    assume "int (length (pc_view e p)) < n" "overrun e (k + n)" "in_buffer e (ptr_add p n) (k + n)"
    then show ?thesis using bufs(3) by (auto simp: consumed_def lost_def)
  qed
  then show "pc_consumed (nat n) e p k (Some (ptr_add p n)) e"
    "nat n \<le> length (pc_view e p) \<Longrightarrow> take (nat n) (readable e p) = take (nat n) (pc_view e p)" by blast+
qed

text \<open>From one buffer to the next.\<close>

lemma next_buffer_at:
  assumes "pc_at e p k" "in_next e \<noteq> None" "16 < in_limit e"
  obtains q m e2 where "Ctx_Next ops e = Some (Some q, e2)" "0 < m" "pc_at e2 (ptr_add q 16) (16 - m)"
    "pc_moved (nat (16 - k)) e p k e2 (ptr_add q 16) (16 - m)" "nat (16 - k) \<le> length (pc_view e p)"
proof -
  have bufs: "buffers_ok e" "in_buffer e p k" "pc_ok e" "k \<le> 16" "\<not> overrun e k" "p = ptr_add (in_end e) k"
    using assms(1) by (auto simp: at_pointer_def ctx_ok_def in_buffer_def ptr_diff_eq)
  have fine: "\<not> overrun e 16" using assms(2,3) by (simp add: overrun_def)
  obtain q m e2 where s: "Ctx_Next ops e = Some (Some q, e2)" "follows e q m e2" "pc_ok e2"
    by (rule Ctx_Next_step [OF bufs(3) assms(2)])
  note f = followsD [OF s(2)]
  have at: "pc_at e2 (ptr_add q 16) (16 - m)" using f(6,7) [of 16] s(3) fine by (simp add: at_pointer_def)
  have moved: "pc_moved (nat (16 - k)) e p k e (ptr_add p (16 - k)) (k + (16 - k))" "nat (16 - k) \<le> length (pc_view e p)"
    by (rule advance_at [OF assms(1), of "16 - k"]; use bufs(4) fine in auto)+
  have "pc_moved (nat (16 - k)) e p k e2 (ptr_add q 16) (16 - m)"
    using moved(1) at f(3) f(8,9) [of 16] f(10) bufs(6) by (simp add: ctx_moved_def)
  with s(1) f(5) at moved(2) show thesis by (intro that)
qed

lemma AppendSize_spec:
  assumes "appender app g" "pc_at e p k" "16 - k < n"
  shows "\<exists>r a' e'. AppendSize ops app p n a e = Some (r, a', e') \<and> pc_consumed (nat n) e p k r e' \<and>
    (nat n \<le> length (pc_view e p) \<longrightarrow> a' = g a (take (nat n) (pc_view e p)))"
  using assms(2,3)
proof (induction "nat (n + k)" arbitrary: e p k n a rule: less_induct)
  case less
  have bufs: "buffers_ok e" "in_buffer e p k" "pc_ok e" "k \<le> 16" "\<not> overrun e k" "ptr_diff (in_end e) p = Some (- k)"
    using less.prems(1) by (auto simp: at_pointer_def ctx_ok_def in_buffer_def intro: ptr_diff_flip)
  let ?c = "nat (16 - k)"
  have app: "app e p (16 - k) a = Some (g a (take ?c (readable e p)))" for a
    using assms(1) bufs(4) readable_split(3) [OF bufs(1,2)] by (simp add: appender_def)
  have none: "pc_consumed (nat n) e p k None e'" if "length (pc_view e p) < nat n" for e'
    using that by (simp add: consumed_def lost_def)
  show ?case
  proof (cases "in_next e \<noteq> None \<and> 16 < in_limit e")
    case False
    have "length (pc_view e p) < nat n"
    proof (cases "in_next e = None")
      case True
      show ?thesis
      proof (rule advance_at [OF less.prems(1), of "16 - k"])
        assume "pc_moved ?c e p k e (ptr_add p (16 - k)) (k + (16 - k))"
        with True show ?thesis by (simp add: ctx_moved_def at_pointer_def overrun_def)
      next
        assume "int (length (pc_view e p)) < 16 - k"
        with less.prems(2) show ?thesis by linarith
      qed (use bufs(4) in simp_all)
    next
      case F: False
      have "length (pc_view e p) \<le> nat (in_limit e - k)" using bufs(6) by (simp add: ctx_view_def)
      with F False less.prems(2) bufs(4) show ?thesis by auto
    qed
    note none = none [OF this]
    have "\<exists>a'. AppendSize ops app p n a e = Some (None, a', e)"
      using False bufs(6) app by (subst AppendSize.simps) (cases "in_next e = None"; simp add: kSlopBytes_def Let_def)
    with none \<open>length (pc_view e p) < nat n\<close> show ?thesis by auto
  next
    case True
    obtain q m e2 where s: "Ctx_Next ops e = Some (Some q, e2)" "0 < m" "pc_at e2 (ptr_add q 16) (16 - m)"
      "pc_moved ?c e p k e2 (ptr_add q 16) (16 - m)" "?c \<le> length (pc_view e p)"
      by (rule next_buffer_at [OF less.prems(1)]) (use True in auto)
    let ?p = "ptr_add q 16" and ?n = "n - (16 - k)" and ?a = "g a (take ?c (readable e p))"
    have d: "ptr_diff (in_end e2) ?p = Some (m - 16)"
      using s(3) by (auto simp: at_pointer_def in_buffer_def dest: ptr_diff_flip)
    have v: "pc_view e2 ?p = drop ?c (pc_view e p)" using s(4) by (simp add: ctx_moved_def)
    have a: "?a = g a (take ?c (pc_view e p))"
      using consumed_here(2) [OF less.prems(1), of "16 - k"] s(5) bufs(4) by simp
    have n: "nat n = ?c + nat ?n" using less.prems(2) bufs(4) by linarith
    have "\<exists>r a' e'. AppendSize ops app p n a e = Some (r, a', e') \<and> pc_consumed (nat ?n) e2 ?p (16 - m) r e' \<and>
        (nat ?n \<le> length (pc_view e2 ?p) \<longrightarrow> a' = g ?a (take (nat ?n) (pc_view e2 ?p)))"
    proof (cases "?n > m")
      case more: True
      have step: "AppendSize ops app p n a e = AppendSize ops app ?p ?n ?a e2"
        using True bufs(6) app s(1) d more by (subst AppendSize.simps) (auto simp: kSlopBytes_def Let_def)
      have "nat (?n + (16 - m)) < nat (n + k)" "16 - (16 - m) < ?n" using s(2) more less.prems(2) bufs(4) by linarith+
      from less.hyps [OF this(1) s(3) this(2), of ?a] show ?thesis unfolding step .
    next
      case last: False
      have n0: "0 \<le> ?n" "?n \<le> 16 - (16 - m)" using less.prems(2) last by linarith+
      note here = consumed_here [OF s(3) n0]
      have app2: "app e2 ?p ?n ?a = Some (g ?a (take (nat ?n) (readable e2 ?p)))"
        using assms(1) n0(1) here(3) by (simp add: appender_def)
      then have "AppendSize ops app p n a e = Some (Some (ptr_add ?p ?n), g ?a (take (nat ?n) (readable e2 ?p)), e2)"
        using True bufs(6) app s(1) d last by (subst AppendSize.simps) (auto simp: kSlopBytes_def Let_def)
      with here(1,2) show ?thesis by auto
    qed
    then obtain r a' e' where r: "AppendSize ops app p n a e = Some (r, a', e')" "pc_consumed (nat ?n) e2 ?p (16 - m) r e'"
      "nat ?n \<le> length (pc_view e2 ?p) \<longrightarrow> a' = g ?a (take (nat ?n) (pc_view e2 ?p))" by blast
    have l: "nat n \<le> length (pc_view e p) \<longleftrightarrow> nat ?n \<le> length (pc_view e2 ?p)" unfolding n by (rule moved_length [OF s(4)])
    have "pc_consumed (nat n) e p k r e'" unfolding n by (rule consumed_trans [OF s(4) r(2)])
    moreover have "a' = g a (take (nat n) (pc_view e p))" if "nat n \<le> length (pc_view e p)"
      using that r(3) l v assms(1) unfolding n a by (simp add: appender_def take_add)
    ultimately show ?thesis using r(1) by blast
  qed
qed

text \<open>A string whose first bytes are at a pointer: it is there, or the reader is lost.\<close>

lemma Ctx_ReadString_spec:
  assumes "pc_at e p k" "0 \<le> n"
  shows "\<exists>r s e'. Ctx_ReadString ops p n e = Some (r, s, e') \<and> pc_consumed (nat n) e p k r e' \<and>
    (nat n \<le> length (pc_view e p) \<longrightarrow> s = take (nat n) (pc_view e p))"
proof -
  have d: "ptr_diff (in_end e) p = Some (- k)" using assms(1) by (auto simp: at_pointer_def in_buffer_def intro: ptr_diff_flip)
  show ?thesis
  proof (cases "n \<le> 16 - k")
    case True
    note here = consumed_here [OF assms True]
    from here(3) assms(2) have "copy_bytes e p n = Some (take (nat n) (readable e p))" by (simp add: copy_bytes_def)
    with True d here(1,2) show ?thesis by (simp add: Ctx_ReadString_def kSlopBytes_def)
  next
    case False
    with AppendSize_spec [OF appender_string assms(1), of n "[]"] d show ?thesis
      by (simp add: Ctx_ReadString_def ReadStringFallback_def kSlopBytes_def)
  qed
qed

lemma Ctx_AppendString_spec:
  assumes "pc_at e p k" "0 \<le> n"
  shows "\<exists>r s' e'. Ctx_AppendString ops p n s e = Some (r, s', e') \<and> pc_consumed (nat n) e p k r e' \<and>
    (nat n \<le> length (pc_view e p) \<longrightarrow> s' = s @ take (nat n) (pc_view e p))"
proof -
  have d: "ptr_diff (in_end e) p = Some (- k)" using assms(1) by (auto simp: at_pointer_def in_buffer_def intro: ptr_diff_flip)
  show ?thesis
  proof (cases "n \<le> 16 - k")
    case True
    note here = consumed_here [OF assms True]
    from here(3) assms(2) have "copy_bytes e p n = Some (take (nat n) (readable e p))" by (simp add: copy_bytes_def)
    with True d here(1,2) show ?thesis by (simp add: Ctx_AppendString_def kSlopBytes_def)
  next
    case False
    with AppendSize_spec [OF appender_string assms(1), of n s] d show ?thesis
      by (simp add: Ctx_AppendString_def AppendStringFallback_def kSlopBytes_def)
  qed
qed

lemma Ctx_Skip_spec:
  assumes "pc_at e p k" "0 \<le> n"
  shows "\<exists>r e'. Ctx_Skip ops p n e = Some (r, e') \<and> pc_consumed (nat n) e p k r e'"
proof -
  have d: "ptr_diff (in_end e) p = Some (- k)" using assms(1) by (auto simp: at_pointer_def in_buffer_def intro: ptr_diff_flip)
  show ?thesis
  proof (cases "n \<le> 16 - k")
    case True
    with d consumed_here(1) [OF assms True] show ?thesis by (simp add: Ctx_Skip_def kSlopBytes_def)
  next
    case False
    then have "16 - k < n" by simp
    from AppendSize_spec [OF appender_nothing assms(1) this, of "()"] obtain r a' e' where
      "AppendSize ops (\<lambda>_ _ _. Some) p n () e = Some (r, a', e')" "pc_consumed (nat n) e p k r e'" by blast
    with False d show ?thesis by (simp add: Ctx_Skip_def Ctx_SkipFallback_def kSlopBytes_def)
  qed
qed

text \<open>From an overrun pointer a string is never found.\<close>

lemma AppendSize_overrun:
  assumes "appender app g" "pc_ok e" "in_buffer e p k" "overrun e k"
  shows "\<exists>a'. AppendSize ops app p n a e = Some (None, a', e)"
proof -
  have bufs: "buffers_ok e" "k \<le> 16" "ptr_diff (in_end e) p = Some (- k)"
    using assms(2,3) by (auto simp: ctx_ok_def in_buffer_def intro: ptr_diff_flip)
  have "app e p (16 - k) a = Some (g a (take (nat (16 - k)) (readable e p)))"
    using assms(1) bufs(2) readable_split(3) [OF bufs(1) assms(3)] by (simp add: appender_def)
  moreover have "in_next e = None \<or> in_limit e \<le> 16" using assms(4) bufs(2) by (auto simp: overrun_def)
  ultimately show ?thesis using bufs(3) by (subst AppendSize.simps) (cases "in_next e = None"; simp add: kSlopBytes_def Let_def)
qed

lemma lost_further:
  assumes "pc_ok e" "in_buffer e p k" "overrun e k" "0 \<le> n" "n \<le> 16 - k"
  shows "pc_lost e (Some (ptr_add p n)) e" "nat n \<le> length (readable e p)"
proof -
  have "buffers_ok e" using assms(1) by (simp add: ctx_ok_def)
  from readable_split(3) [OF this assms(2)] assms(5) show "nat n \<le> length (readable e p)" by linarith
  have "k + n \<le> 16" "overrun e (k + n)" using assms(3-5) by (auto simp: overrun_def)
  with in_buffer_add [OF assms(2) this(1) assms(4)] assms(1) show "pc_lost e (Some (ptr_add p n)) e" by (auto simp: lost_def)
qed

lemma strings_overrun:
  assumes "pc_ok e" "in_buffer e p k" "overrun e k" "0 \<le> n"
  shows "\<exists>r s e'. Ctx_ReadString ops p n e = Some (r, s, e') \<and> pc_lost e r e'"
    "\<exists>r s' e'. Ctx_AppendString ops p n s e = Some (r, s', e') \<and> pc_lost e r e'"
    "\<exists>r e'. Ctx_Skip ops p n e = Some (r, e') \<and> pc_lost e r e'"
proof -
  have d: "ptr_diff (in_end e) p = Some (- k)" using assms(2) by (auto simp: in_buffer_def intro: ptr_diff_flip)
  note far = AppendSize_overrun [OF appender_string assms(1-3), of n] AppendSize_overrun [OF appender_nothing assms(1-3), of n "()"]
  note near = lost_further [OF assms]
  have "copy_bytes e p n = Some (take (nat n) (readable e p))" if "n \<le> 16 - k" using near(2) [OF that] assms(4) by (simp add: copy_bytes_def)
  with d far near(1) show "\<exists>r s e'. Ctx_ReadString ops p n e = Some (r, s, e') \<and> pc_lost e r e'"
    "\<exists>r s' e'. Ctx_AppendString ops p n s e = Some (r, s', e') \<and> pc_lost e r e'"
    "\<exists>r e'. Ctx_Skip ops p n e = Some (r, e') \<and> pc_lost e r e'"
    by (cases "n \<le> 16 - k"; fastforce simp: Ctx_ReadString_def ReadStringFallback_def Ctx_AppendString_def AppendStringFallback_def
        Ctx_Skip_def Ctx_SkipFallback_def kSlopBytes_def lost_def)+
qed

end

end
