(* ===== verification/Message_Parse.thy ===== *)
theory Message_Parse
  imports Parse_Context
begin

text \<open>
  The parser of messages over a \<open>ParseContext\<close>: groups and sub-messages, the parser of a field whose number the message
  does not have, and its two kinds of clients: a set of unknown fields (unknown_field_set.cc) and a string of bytes
  (parse_context.cc). What the code generator writes for a message, its \<open>_InternalParse\<close>, is an argument.
\<close>

type_synonym ('s, 'u) parser = "pointer \<Rightarrow> 'u \<Rightarrow> 's ParseContext \<Rightarrow> (pointer option \<times> 'u \<times> 's ParseContext) option"

section \<open>Groups and sub-messages\<close>

text \<open>\<open>parse\<close> is the \<open>_InternalParse\<close> of the message in the group.\<close>

definition Ctx_ParseGroup :: "('s, 'u) parser \<Rightarrow> uint32 \<Rightarrow> ('s, 'u) parser" where
  "Ctx_ParseGroup parse tag p u e =
     (let e = e\<lparr>depth := depth e - 1\<rparr> in
      if depth e < 0 then Some (None, u, e)
      else do {
        (r, u, e) \<leftarrow> parse p u (e\<lparr>group_depth := group_depth e + 1\<rparr>);
        let e = e\<lparr>group_depth := group_depth e - 1, depth := depth e + 1\<rparr>;
        case ConsumeEndGroup tag e of (b, e) \<Rightarrow> Some (if b then r else None, u, e)
      })"

definition ReadSizeAndPushLimitAndDepth :: "pointer \<Rightarrow> 's ParseContext \<Rightarrow> (pointer option \<times> int \<times> 's ParseContext) option" where
  "ReadSizeAndPushLimitAndDepth p e =
     do {
       r \<leftarrow> ReadSize (readable e p);
       case r of None \<Rightarrow> Some (None, 0, e)
       | Some (i, n) \<Rightarrow>
           let p = ptr_add p (int i) in
           do {
             (old, e) \<leftarrow> Ctx_PushLimit p n e;
             let e = e\<lparr>depth := depth e - 1\<rparr>;
             Some (if depth e < 0 then None else Some p, old, e)
           }
     }"

definition Ctx_ParseMessage :: "('s, 'u) parser \<Rightarrow> ('s, 'u) parser" where
  "Ctx_ParseMessage parse p u e =
     do {
       (r, old, e) \<leftarrow> ReadSizeAndPushLimitAndDepth p e;
       (r, u, e) \<leftarrow> (case r of None \<Rightarrow> Some (None, u, e) | Some p \<Rightarrow> parse p u e);
       let e = e\<lparr>depth := depth e + 1\<rparr>;
       case Ctx_PopLimit old e of (b, e) \<Rightarrow> Some (if b then r else None, u, e)
     }"

section \<open>One field, and a loop over fields\<close>

text \<open>The client of the parser: what it does with a field of each wire type. Groups are an argument of their own.\<close>

record ('s, 'u) field_parser =
  parse_varint_field :: "uint32 \<Rightarrow> uint64 \<Rightarrow> 'u \<Rightarrow> 'u"
  parse_fixed64_field :: "uint32 \<Rightarrow> uint64 \<Rightarrow> 'u \<Rightarrow> 'u"
  ParseLengthDelimited :: "uint32 \<Rightarrow> ('s, 'u) parser"
  parse_fixed32_field :: "uint32 \<Rightarrow> uint32 \<Rightarrow> 'u \<Rightarrow> 'u"

definition FieldParser :: "('s, 'u) field_parser \<Rightarrow> (uint32 \<Rightarrow> ('s, 'u) parser) \<Rightarrow> uint64 \<Rightarrow> ('s, 'u) parser" where
  "FieldParser fp parse_group tag p u e =
     (let n = ucast (drop_bit 3 tag); type = tag AND 7 in
      if n = 0 then Some (None, u, e)
      else if type = 0 then do {
        r \<leftarrow> VarintParse64 (readable e p);
        Some (case r of None \<Rightarrow> (None, u, e) | Some (i, v) \<Rightarrow> (Some (ptr_add p (int i)), parse_varint_field fp n v u, e))
      } else if type = 1 then do {
        v \<leftarrow> UnalignedLoad64 (readable e p);
        Some (Some (ptr_add p 8), parse_fixed64_field fp n v u, e)
      } else if type = 2 then ParseLengthDelimited fp n p u e
      else if type = 3 then parse_group n p u e
      else if type = 4 then None
      else if type = 5 then do {
        v \<leftarrow> UnalignedLoad32 (readable e p);
        Some (Some (ptr_add p 4), parse_fixed32_field fp n v u, e)
      } else Some (None, u, e))"

text \<open>A round of the loop of \<open>WireFormatParser\<close>; \<open>field\<close> parses a field, \<open>continue\<close> stands for the rest of the loop.\<close>

definition WireFormatParser_round ::
    "'s ZeroCopyInputStream \<Rightarrow> (uint64 \<Rightarrow> ('s, 'u) parser) \<Rightarrow> ('s, 'u) parser \<Rightarrow> ('s, 'u) parser" where
  "WireFormatParser_round ops field continue p u e =
     do {
       (r, at_end, e) \<leftarrow> Ctx_Done ops p e;
       if at_end then Some (r, u, e)
       else do {
         p \<leftarrow> r;
         t \<leftarrow> Ctx_ReadTag (readable e p);
         case t of None \<Rightarrow> Some (None, u, e)
         | Some (i, tag) \<Rightarrow>
             let p = ptr_add p (int i) in
             if tag = 0 \<or> tag AND 7 = 4 then Some (Some p, u, Ctx_SetLastTag tag e)
             else do {
               (r, u, e) \<leftarrow> field (ucast tag) p u e;
               case r of None \<Rightarrow> Some (None, u, e) | Some p \<Rightarrow> continue p u e
             }
       }
     }"

lemma Ctx_ParseGroup_mono [partial_function_mono]:
  assumes "\<And>p u e. mono_option (\<lambda>f. g f p u e)"
  shows "mono_option (\<lambda>f. Ctx_ParseGroup (g f) tag p u e)"
  unfolding Ctx_ParseGroup_def Let_def by (intro partial_function_mono assms)

lemma FieldParser_mono [partial_function_mono]:
  assumes "\<And>n p u e. mono_option (\<lambda>f. g f n p u e)"
  shows "mono_option (\<lambda>f. FieldParser fp (g f) tag p u e)"
  unfolding FieldParser_def Let_def by (intro partial_function_mono assms)

lemma case_option_mono [partial_function_mono]:
  assumes "mono_option g" "\<And>x. mono_option (\<lambda>f. h f x)"
  shows "mono_option (\<lambda>f. case y of None \<Rightarrow> g f | Some x \<Rightarrow> h f x)"
  using assms by (cases y) simp_all

lemma WireFormatParser_round_mono [partial_function_mono]:
  assumes "\<And>tag p u e. mono_option (\<lambda>f. g f tag p u e)" "\<And>p u e. mono_option (\<lambda>f. h f p u e)"
  shows "mono_option (\<lambda>f. WireFormatParser_round ops (g f) (h f) p u e)"
  unfolding WireFormatParser_round_def Let_def by (auto intro!: partial_function_mono assms simp: split_beta)

section \<open>Unknown fields in a set\<close>

text \<open>The string is added to the set before its length is known to be readable.\<close>

definition UnknownFieldParserHelper :: "'s ZeroCopyInputStream \<Rightarrow> ('s, UnknownFieldSet) field_parser" where
  "UnknownFieldParserHelper ops =
     \<lparr>parse_varint_field = AddVarint, parse_fixed64_field = AddFixed64,
      ParseLengthDelimited = (\<lambda>num p u e. do {
        r \<leftarrow> ReadSize (readable e p);
        case r of None \<Rightarrow> Some (None, AddLengthDelimited num [] u, e)
        | Some (i, n) \<Rightarrow> do {
            (r, s, e) \<leftarrow> Ctx_ReadString ops (ptr_add p (int i)) n e;
            Some (r, AddLengthDelimited num s u, e) } }),
      parse_fixed32_field = AddFixed32\<rparr>"

text \<open>\<open>parse\<close> is the \<open>_InternalParse\<close> of the helper's child, which fills a new set.\<close>

definition unknown_group :: "('s, UnknownFieldSet) parser \<Rightarrow> uint32 \<Rightarrow> ('s, UnknownFieldSet) parser" where
  "unknown_group parse num p u e =
     do { (r, g, e) \<leftarrow> Ctx_ParseGroup parse (num * 8 + 3) p [] e; Some (r, AddGroup num g u, e) }"

lemma unknown_group_mono [partial_function_mono]:
  assumes "\<And>p u e. mono_option (\<lambda>f. g f p u e)"
  shows "mono_option (\<lambda>f. unknown_group (g f) num p u e)"
  unfolding unknown_group_def by (intro partial_function_mono assms)

partial_function (option) UnknownGroupParse :: "'s ZeroCopyInputStream \<Rightarrow> ('s, UnknownFieldSet) parser" where
  "UnknownGroupParse ops p u e =
     WireFormatParser_round ops
       (FieldParser (UnknownFieldParserHelper ops) (unknown_group (\<lambda>p u e. UnknownGroupParse ops p u e)))
       (\<lambda>p u e. UnknownGroupParse ops p u e) p u e"

declare UnknownGroupParse.simps [code]

definition UnknownFieldParse :: "'s ZeroCopyInputStream \<Rightarrow> uint64 \<Rightarrow> ('s, UnknownFieldSet) parser" where
  "UnknownFieldParse ops = FieldParser (UnknownFieldParserHelper ops) (unknown_group (UnknownGroupParse ops))"

section \<open>Unknown fields in a string\<close>

function write_varint_loop :: "uint64 \<Rightarrow> byte list \<Rightarrow> byte list" where
  "write_varint_loop val s =
     (if val \<ge> 128 then write_varint_loop (drop_bit 7 val) (s @ [ucast val OR 0x80]) else s @ [ucast val])"
  by auto
termination
proof (relation "measure (\<lambda>(val, _). unat val)")
  fix val :: uint64 assume "128 \<le> val"
  then have "128 \<le> unat val" by (simp add: word_le_nat_alt)
  then show "((drop_bit 7 val, s @ [ucast val OR 0x80]), val, s) \<in> measure (\<lambda>(val, _). unat val)" for s :: "byte list"
    by (simp add: unat_drop7)
qed simp

declare write_varint_loop.simps [simp del]

definition WriteVarint :: "uint32 \<Rightarrow> uint64 \<Rightarrow> byte list \<Rightarrow> byte list" where
  "WriteVarint num val s = write_varint_loop val (write_varint_loop (ucast (push_bit 3 num)) s)"

definition WriteLengthDelimited :: "uint32 \<Rightarrow> byte list \<Rightarrow> byte list \<Rightarrow> byte list" where
  "WriteLengthDelimited num val s =
     write_varint_loop (of_nat (length val)) (write_varint_loop (ucast (push_bit 3 num + 2)) s) @ val"

text \<open>The string may be a null pointer.\<close>

definition UnknownFieldLiteParserHelper :: "'s ZeroCopyInputStream \<Rightarrow> ('s, byte list option) field_parser" where
  "UnknownFieldLiteParserHelper ops =
     \<lparr>parse_varint_field = (\<lambda>num v. map_option (\<lambda>s. write_varint_loop v (write_varint_loop (ucast (num * 8)) s))),
      parse_fixed64_field = (\<lambda>num v. map_option (\<lambda>s. write_varint_loop (ucast (num * 8 + 1)) s @ WriteLittleEndian64ToArray v)),
      ParseLengthDelimited = (\<lambda>num p u e. do {
        r \<leftarrow> ReadSize (readable e p);
        case r of None \<Rightarrow> Some (None, u, e)
        | Some (i, n) \<Rightarrow>
            let p = ptr_add p (int i) in
            case u of
              None \<Rightarrow> do { (r, e) \<leftarrow> Ctx_Skip ops p n e; Some (r, None, e) }
            | Some s \<Rightarrow> do {
                (r, s, e) \<leftarrow> Ctx_AppendString ops p n (write_varint_loop (word_of_int n) (write_varint_loop (ucast (num * 8 + 2)) s)) e;
                Some (r, Some s, e) } }),
      parse_fixed32_field = (\<lambda>num v. map_option (\<lambda>s. write_varint_loop (ucast (num * 8 + 5)) s @ WriteLittleEndian32ToArray v))\<rparr>"

definition lite_group :: "('s, byte list option) parser \<Rightarrow> uint32 \<Rightarrow> ('s, byte list option) parser" where
  "lite_group parse num p u e =
     do {
       (r, u, e) \<leftarrow> Ctx_ParseGroup parse (num * 8 + 3) p (map_option (write_varint_loop (ucast (num * 8 + 3))) u) e;
       Some (r, if r = None then u else map_option (write_varint_loop (ucast (num * 8 + 4))) u, e)
     }"

lemma lite_group_mono [partial_function_mono]:
  assumes "\<And>p u e. mono_option (\<lambda>f. g f p u e)"
  shows "mono_option (\<lambda>f. lite_group (g f) num p u e)"
  unfolding lite_group_def by (intro partial_function_mono assms)

partial_function (option) UnknownGroupLiteParse :: "'s ZeroCopyInputStream \<Rightarrow> ('s, byte list option) parser" where
  "UnknownGroupLiteParse ops p u e =
     WireFormatParser_round ops
       (FieldParser (UnknownFieldLiteParserHelper ops) (lite_group (\<lambda>p u e. UnknownGroupLiteParse ops p u e)))
       (\<lambda>p u e. UnknownGroupLiteParse ops p u e) p u e"

declare UnknownGroupLiteParse.simps [code]

definition UnknownFieldLiteParse :: "'s ZeroCopyInputStream \<Rightarrow> uint64 \<Rightarrow> ('s, byte list option) parser" where
  "UnknownFieldLiteParse ops = FieldParser (UnknownFieldLiteParserHelper ops) (lite_group (UnknownGroupLiteParse ops))"

end
