(* ===== verification/Message_Correct.thy ===== *)
theory Message_Correct
  imports Message_Parse Parse_Read Wire_Message
begin

text \<open>
  The parser over a \<open>ParseContext\<close> against a parser of byte lists, \<open>fast_message\<close>, for any client: what a client has to do with
  the fields is the interface \<open>message_client\<close>. Its two instances, the set of unknown fields and the string of unknown
  bytes, follow.
\<close>

section \<open>The reference parser\<close>

text \<open>In contrast to \<open>wire_message\<close>, tags and lengths have at most five bytes, a length is below \<open>INT_MAX - 16\<close>, and what is not a
  tag is an error.\<close>

definition fast_delimited :: "byte list \<Rightarrow> (byte list \<times> byte list) option" where
  "fast_delimited bs =
     (case parse_varint 5 bs of
        VarintOk v p \<Rightarrow> if int v \<le> INT_MAX - 16 \<and> v \<le> length p then Some (take v p, drop v p) else None
      | _ \<Rightarrow> None)"

definition fast_scalar :: "uint32 \<Rightarrow> byte list \<Rightarrow> (UnknownField \<times> byte list) option" where
  "fast_scalar tag bs =
     (let n = GetTagFieldNumber tag; t = GetTagWireType tag in
      if n = 0 then None
      else if t = WIRETYPE_VARINT then
        (case parse_varint 10 bs of VarintOk v p \<Rightarrow> Some (UnknownVarint n (of_nat v), p) | _ \<Rightarrow> None)
      else if t = WIRETYPE_FIXED64 then
        (if 8 \<le> length bs then Some (UnknownFixed64 n (of_nat (le_nat (take 8 bs))), drop 8 bs) else None)
      else if t = WIRETYPE_LENGTH_DELIMITED then map_option (\<lambda>(s, q). (UnknownLengthDelimited n s, q)) (fast_delimited bs)
      else if t = WIRETYPE_FIXED32 then
        (if 4 \<le> length bs then Some (UnknownFixed32 n (of_nat (le_nat (take 4 bs))), drop 4 bs) else None)
      else None)"

fun fast_message :: "nat \<Rightarrow> byte list \<Rightarrow> (UnknownFieldSet \<times> wire_end \<times> byte list) option" where
  "fast_message d bs =
     (if bs = [] then Some ([], At_end, [])
      else case parse_varint 5 bs of
        VarintOk v p \<Rightarrow>
          let tag = of_nat v; n = GetTagFieldNumber tag in
          if tag = 0 \<or> GetTagWireType tag = WIRETYPE_END_GROUP then Some ([], End_tag tag, p)
          else if GetTagWireType tag = WIRETYPE_START_GROUP then
            if n = 0 \<or> d = 0 \<or> \<not> length p < length bs then None
            else (case fast_message (d - 1) p of
                None \<Rightarrow> None
              | Some (g, e, q) \<Rightarrow>
                  if e = End_tag (MakeTag n WIRETYPE_END_GROUP) \<and> length q < length bs
                  then map_option (\<lambda>(fs, e, r). (UnknownGroup n g # fs, e, r)) (fast_message d q) else None)
          else (case fast_scalar tag p of
                None \<Rightarrow> None
              | Some (f, q) \<Rightarrow>
                  if length q < length bs then map_option (\<lambda>(fs, e, r). (f # fs, e, r)) (fast_message d q) else None)
      | _ \<Rightarrow> None)"

declare fast_message.simps [simp del]

lemma fast_delimited_shorter: "fast_delimited bs = Some (s, q) \<Longrightarrow> length q < length bs"
  using parse_varint_shorter [of 5 bs] by (fastforce simp: fast_delimited_def split: if_splits varint_read.splits)

lemma fast_scalar_shorter: "fast_scalar tag bs = Some (f, q) \<Longrightarrow> length q < length bs"
  using parse_varint_shorter [of 10 bs] fast_delimited_shorter [of bs]
  by (fastforce simp: fast_scalar_def Let_def simp del: wire_types split: if_splits varint_read.splits)

lemma fast_message_shorter: "fast_message d bs = Some (fs, e, r) \<Longrightarrow> length r \<le> length bs"
proof (induction "length bs" arbitrary: d bs fs e r rule: less_induct)
  case less
  show ?case
  proof (cases "parse_varint 5 bs")
    case (VarintOk v p)
    note p = parse_varint_shorter [OF VarintOk]
    have go: "length r' \<le> length bs" if "fast_message d' q = Some (fs', e', r')" "length q < length bs" for d' q fs' e' r'
      using less.hyps [OF that(2,1)] that(2) by simp
    from VarintOk p less.prems show ?thesis
      by (subst (asm) fast_message.simps) (auto simp: Let_def split: if_splits option.splits dest: go)
  qed (use less.prems in \<open>simp_all add: fast_message.simps [of d bs] split: if_splits\<close>)
qed

lemma fast_message_empty [simp]: "fast_message d [] = Some ([], At_end, [])"
  by (simp add: fast_message.simps)

lemma fast_message_bad: "bs \<noteq> [] \<Longrightarrow> (\<And>v p. parse_varint 5 bs \<noteq> VarintOk v p) \<Longrightarrow> fast_message d bs = None"
  by (subst fast_message.simps) (simp split: varint_read.split)

text \<open>Without the guards, which are always true.\<close>

lemma fast_message_tag:
  assumes "parse_varint 5 bs = VarintOk v p" "tag = of_nat v"
  shows "tag = 0 \<or> GetTagWireType tag = WIRETYPE_END_GROUP \<Longrightarrow> fast_message d bs = Some ([], End_tag tag, p)"
    "tag \<noteq> 0 \<Longrightarrow> GetTagWireType tag = WIRETYPE_START_GROUP \<Longrightarrow> fast_message d bs =
      (if GetTagFieldNumber tag = 0 \<or> d = 0 then None
       else (case fast_message (d - 1) p of
           Some (g, End_tag t, q) \<Rightarrow>
             if t = MakeTag (GetTagFieldNumber tag) WIRETYPE_END_GROUP
             then map_option (\<lambda>(fs, e, r). (UnknownGroup (GetTagFieldNumber tag) g # fs, e, r)) (fast_message d q) else None
         | _ \<Rightarrow> None))"
    "tag \<noteq> 0 \<Longrightarrow> GetTagWireType tag \<noteq> WIRETYPE_START_GROUP \<Longrightarrow> GetTagWireType tag \<noteq> WIRETYPE_END_GROUP \<Longrightarrow> fast_message d bs =
      (case fast_scalar tag p of
         None \<Rightarrow> None
       | Some (f, q) \<Rightarrow> map_option (\<lambda>(fs, e, r). (f # fs, e, r)) (fast_message d q))"
proof -
  have p: "length p < length bs" by (rule parse_varint_shorter [OF assms(1)])
  then have ne: "bs \<noteq> []" by auto
  note unfold = fast_message.simps [of d bs, unfolded assms(1) varint_read.case Let_def if_not_P [OF ne], folded assms(2)]
  show "tag = 0 \<or> GetTagWireType tag = WIRETYPE_END_GROUP \<Longrightarrow> fast_message d bs = Some ([], End_tag tag, p)"
    by (simp only: unfold if_True)
  show "fast_message d bs =
      (if GetTagFieldNumber tag = 0 \<or> d = 0 then None
       else (case fast_message (d - 1) p of
           Some (g, End_tag t, q) \<Rightarrow>
             if t = MakeTag (GetTagFieldNumber tag) WIRETYPE_END_GROUP
             then map_option (\<lambda>(fs, e, r). (UnknownGroup (GetTagFieldNumber tag) g # fs, e, r)) (fast_message d q) else None
         | _ \<Rightarrow> None))" if t: "tag \<noteq> 0" "GetTagWireType tag = WIRETYPE_START_GROUP"
  proof -
    have "\<not> (tag = 0 \<or> GetTagWireType tag = WIRETYPE_END_GROUP)" using t by (simp add: wire_types)
    note unfold = unfold [unfolded if_not_P [OF this] if_P [OF t(2)]]
    show ?thesis
    proof (cases "fast_message (d - 1) p")
      case None
      then show ?thesis by (simp only: unfold p simp_thms option.case if_cancel)
    next
      case (Some x)
      obtain g e q where x: "x = (g, e, q)" by (cases x)
      with Some fast_message_shorter [of "d - 1" p g e q] p have "length q < length bs" by simp
      with Some x p show ?thesis unfolding unfold by (cases e) simp_all
    qed
  qed
  show "fast_message d bs =
      (case fast_scalar tag p of
         None \<Rightarrow> None
       | Some (f, q) \<Rightarrow> map_option (\<lambda>(fs, e, r). (f # fs, e, r)) (fast_message d q))"
    if t: "tag \<noteq> 0" "GetTagWireType tag \<noteq> WIRETYPE_START_GROUP" "GetTagWireType tag \<noteq> WIRETYPE_END_GROUP"
  proof -
    have "\<not> (tag = 0 \<or> GetTagWireType tag = WIRETYPE_END_GROUP)" using t by simp
    note unfold = unfold [unfolded if_not_P [OF this] if_not_P [OF t(2)]]
    show ?thesis
    proof (cases "fast_scalar tag p")
      case None
      then show ?thesis by (simp only: unfold option.case)
    next
      case (Some x)
      obtain f q where x: "x = (f, q)" by (cases x)
      with Some fast_scalar_shorter [of tag p f q] p have "length q < length bs" by simp
      with Some x show ?thesis by (simp only: unfold option.case prod.case if_True)
    qed
  qed
qed

section \<open>The context\<close>

text \<open>The depths are no concern of the buffers.\<close>

lemma depth_readable [simp]:
  "readable (e\<lparr>depth := x\<rparr>) p = readable e p" "coming rest (e\<lparr>depth := x\<rparr>) = coming rest e"
  "readable (e\<lparr>group_depth := x\<rparr>) p = readable e p" "coming rest (e\<lparr>group_depth := x\<rparr>) = coming rest e"
  by (simp_all add: readable_def coming_def split: pointer.split)

lemma depth_buffers [simp]:
  "buffers_ok (e\<lparr>depth := x\<rparr>) = buffers_ok e" "in_buffer (e\<lparr>depth := x\<rparr>) p k = in_buffer e p k" "overrun (e\<lparr>depth := x\<rparr>) k = overrun e k"
  "after_end rest (e\<lparr>depth := x\<rparr>) = after_end rest e" "obtained (e\<lparr>depth := x\<rparr>) = obtained e" "tight (e\<lparr>depth := x\<rparr>) = tight e"
  "buffers_ok (e\<lparr>group_depth := x\<rparr>) = buffers_ok e" "in_buffer (e\<lparr>group_depth := x\<rparr>) p k = in_buffer e p k"
  "overrun (e\<lparr>group_depth := x\<rparr>) k = overrun e k" "after_end rest (e\<lparr>group_depth := x\<rparr>) = after_end rest e"
  "obtained (e\<lparr>group_depth := x\<rparr>) = obtained e" "tight (e\<lparr>group_depth := x\<rparr>) = tight e"
  by (simp_all add: buffers_ok_def in_buffer_def overrun_def after_end_def obtained_def tight_def cong: option.case_cong pointer.case_cong)

lemma depth_context [simp]:
  "ctx_stream rest (e\<lparr>depth := x\<rparr>) p = ctx_stream rest e p" "ctx_view rest (e\<lparr>depth := x\<rparr>) p = ctx_view rest e p"
  "ctx_ok ok rest given (e\<lparr>depth := x\<rparr>) = ctx_ok ok rest given e"
  "ctx_stream rest (e\<lparr>group_depth := x\<rparr>) p = ctx_stream rest e p" "ctx_view rest (e\<lparr>group_depth := x\<rparr>) p = ctx_view rest e p"
  "ctx_ok ok rest given (e\<lparr>group_depth := x\<rparr>) = ctx_ok ok rest given e"
  by (simp_all add: ctx_stream_def ctx_view_def ctx_ok_def supply_ok_def cong: option.case_cong)

lemma more_depths: "EpsCopyInputStream.more e' = EpsCopyInputStream.more e \<Longrightarrow> depth e' = depth e \<and> group_depth e' = group_depth e"
  for e e' :: "'s ParseContext"
  by (cases e, cases e') simp

section \<open>What the parser of a field and of a message return\<close>

text \<open>\<open>add\<close> is what a list of fields does to the client's value.\<close>

definition field_as ::
    "('s \<Rightarrow> bool) \<Rightarrow> ('s \<Rightarrow> byte list) \<Rightarrow> ('s \<Rightarrow> byte list) \<Rightarrow> (UnknownFieldSet \<Rightarrow> 'u \<Rightarrow> 'u) \<Rightarrow> (UnknownField \<times> byte list) option \<Rightarrow>
     's ParseContext \<Rightarrow> pointer \<Rightarrow> int \<Rightarrow> 'u \<Rightarrow> (pointer option \<times> 'u \<times> 's ParseContext) option \<Rightarrow> bool" where
  "field_as ok rest given add m e p k u R \<longleftrightarrow> (\<exists>r u' e'. R = Some (r, u', e') \<and>
     (case m of
        None \<Rightarrow> lost ok rest given e r e'
      | Some (f, q) \<Rightarrow> u' = add [f] u \<and> (\<exists>p' k' n. r = Some p' \<and> ctx_moved ok rest given n e p k e' p' k' \<and> ctx_view rest e' p' = q)))"

definition lost_as ::
    "('s \<Rightarrow> bool) \<Rightarrow> ('s \<Rightarrow> byte list) \<Rightarrow> ('s \<Rightarrow> byte list) \<Rightarrow> 's ParseContext \<Rightarrow> (pointer option \<times> 'u \<times> 's ParseContext) option \<Rightarrow> bool" where
  "lost_as ok rest given e R \<longleftrightarrow> (\<exists>r u' e'. R = Some (r, u', e') \<and> lost ok rest given e r e')"

text \<open>At the end of the input the tag says whether a limit was there or the end of the stream.\<close>

definition end_tag_as :: "wire_end \<Rightarrow> ('s, 'm) EpsCopyInputStream_scheme \<Rightarrow> int \<Rightarrow> bool" where
  "end_tag_as w e k \<longleftrightarrow>
     (case w of
        At_end \<Rightarrow> last_tag_minus_1 e = (if in_limit e = k then 0 else 1)
      | End_tag t \<Rightarrow> last_tag_minus_1 e = t - 1
      | Bad_tag \<Rightarrow> False)"

definition parsed_as ::
    "('s \<Rightarrow> bool) \<Rightarrow> ('s \<Rightarrow> byte list) \<Rightarrow> ('s \<Rightarrow> byte list) \<Rightarrow> (UnknownFieldSet \<Rightarrow> 'u \<Rightarrow> 'u) \<Rightarrow>
     (UnknownFieldSet \<times> wire_end \<times> byte list) option \<Rightarrow> 's ParseContext \<Rightarrow> pointer \<Rightarrow> int \<Rightarrow> 'u \<Rightarrow>
     (pointer option \<times> 'u \<times> 's ParseContext) option \<Rightarrow> bool" where
  "parsed_as ok rest given add m e p k u R \<longleftrightarrow> (\<exists>r u' e'. R = Some (r, u', e') \<and>
     (case m of
        None \<Rightarrow> lost ok rest given e r e' \<and> (r \<noteq> None \<longrightarrow> last_tag_minus_1 e' \<noteq> 0 \<and> last_tag_minus_1 e' \<noteq> 1)
      | Some (fs, w, q) \<Rightarrow> u' = add fs u \<and> (\<exists>p' k' n. r = Some p' \<and>
          ctx_moved ok rest given n e p k (e'\<lparr>last_tag_minus_1 := last_tag_minus_1 e\<rparr>) p' k' \<and> ctx_view rest e' p' = q \<and> end_tag_as w e' k')))"

lemma tag_wide: "ucast (drop_bit 3 (ucast tag :: uint64)) = GetTagFieldNumber tag" "(ucast tag :: uint64) AND 7 = ucast (GetTagWireType tag)"
  for tag :: uint32
  by (rule bit_word_eqI, auto simp: GetTagFieldNumber_def GetTagWireType_def kTagTypeMask_def kTagTypeBits_def bit_simps dest: bit_imp_le_length)+

lemma ucast_wide_eq: "(ucast t = (ucast c :: uint64)) = (t = c)" for t c :: uint32
  by (simp add: word_unat_eq_iff unat_ucast_up)

lemma types_differ [simp]:
  "WIRETYPE_FIXED64 \<noteq> WIRETYPE_VARINT" "WIRETYPE_LENGTH_DELIMITED \<noteq> WIRETYPE_VARINT" "WIRETYPE_START_GROUP \<noteq> WIRETYPE_VARINT"
  "WIRETYPE_FIXED32 \<noteq> WIRETYPE_VARINT" "WIRETYPE_LENGTH_DELIMITED \<noteq> WIRETYPE_FIXED64" "WIRETYPE_START_GROUP \<noteq> WIRETYPE_FIXED64"
  "WIRETYPE_FIXED32 \<noteq> WIRETYPE_FIXED64" "WIRETYPE_START_GROUP \<noteq> WIRETYPE_LENGTH_DELIMITED" "WIRETYPE_FIXED32 \<noteq> WIRETYPE_LENGTH_DELIMITED"
  "WIRETYPE_FIXED32 \<noteq> WIRETYPE_START_GROUP" "WIRETYPE_FIXED32 \<noteq> WIRETYPE_END_GROUP" "WIRETYPE_START_GROUP \<noteq> WIRETYPE_END_GROUP"
  by (simp_all add: wire_types)

lemma FieldParser_tag:
  "FieldParser fp parse_group (ucast tag) p u e =
     (let n = GetTagFieldNumber tag; t = GetTagWireType tag in
      if n = 0 then Some (None, u, e)
      else if t = WIRETYPE_VARINT then do {
        r \<leftarrow> VarintParse64 (readable e p);
        Some (case r of None \<Rightarrow> (None, u, e) | Some (i, v) \<Rightarrow> (Some (ptr_add p (int i)), parse_varint_field fp n v u, e))
      } else if t = WIRETYPE_FIXED64 then do {
        v \<leftarrow> UnalignedLoad64 (readable e p);
        Some (Some (ptr_add p 8), parse_fixed64_field fp n v u, e)
      } else if t = WIRETYPE_LENGTH_DELIMITED then ParseLengthDelimited fp n p u e
      else if t = WIRETYPE_START_GROUP then parse_group n p u e
      else if t = WIRETYPE_END_GROUP then None
      else if t = WIRETYPE_FIXED32 then do {
        v \<leftarrow> UnalignedLoad32 (readable e p);
        Some (Some (ptr_add p 4), parse_fixed32_field fp n v u, e)
      } else Some (None, u, e))"
proof -
  have c: "(0 :: uint64) = ucast (0 :: uint32)" "(1 :: uint64) = ucast (1 :: uint32)" "(2 :: uint64) = ucast (2 :: uint32)"
    "(3 :: uint64) = ucast (3 :: uint32)" "(4 :: uint64) = ucast (4 :: uint32)" "(5 :: uint64) = ucast (5 :: uint32)" by simp_all
  have t: "((ucast tag :: uint64) AND 7 = 0) = (GetTagWireType tag = WIRETYPE_VARINT)"
    "((ucast tag :: uint64) AND 7 = 1) = (GetTagWireType tag = WIRETYPE_FIXED64)"
    "((ucast tag :: uint64) AND 7 = 2) = (GetTagWireType tag = WIRETYPE_LENGTH_DELIMITED)"
    "((ucast tag :: uint64) AND 7 = 3) = (GetTagWireType tag = WIRETYPE_START_GROUP)"
    "((ucast tag :: uint64) AND 7 = 4) = (GetTagWireType tag = WIRETYPE_END_GROUP)"
    "((ucast tag :: uint64) AND 7 = 5) = (GetTagWireType tag = WIRETYPE_FIXED32)"
    unfolding tag_wide(2) wire_types by (simp_all only: c ucast_wide_eq)
  show ?thesis unfolding FieldParser_def Let_def tag_wide(1) t ..
qed

context zero_copy_input
begin

abbreviation "pc_parsed \<equiv> parsed_as ok rest given"
abbreviation "pc_field \<equiv> field_as ok rest given"
abbreviation "pc_lost_as \<equiv> lost_as ok rest given"

text \<open>The length of a string.\<close>

lemma ReadSize_at:
  assumes "pc_at e p k" "k \<le> 11"
  obtains (size) i v where "ReadSize (readable e p) = Some (Some (i, int v))" "pc_moved i e p k e (ptr_add p (int i)) (k + int i)"
      "fast_delimited (pc_view e p) = (if v \<le> length (pc_view e p) - i then Some (take v (drop i (pc_view e p)), drop (i + v) (pc_view e p)) else None)" "int v \<le> INT_MAX"
  | (past) i n where "ReadSize (readable e p) = Some (Some (i, n))" "0 \<le> n" "overrun e (k + int i)" "in_buffer e (ptr_add p (int i)) (k + int i)"
      "fast_delimited (pc_view e p) = None" "n \<le> INT_MAX"
  | (none) "ReadSize (readable e p) = Some None" "fast_delimited (pc_view e p) = None"
proof -
  have bufs: "buffers_ok e" "in_buffer e p k" using assms(1) by (simp_all add: at_pointer_def ctx_ok_def)
  have len: "5 \<le> length (readable e p)" using readable_split(3) [OF bufs] assms(2) by linarith
  have k: "k + int 5 \<le> 16" using assms(2) by simp
  note R = ReadSize_parse [OF len]
  show thesis
  proof (rule varint_at [OF assms(1) k])
    fix v i
    assume r: "parse_varint 5 (readable e p) = VarintOk v (drop i (readable e p))" "i \<le> length (readable e p)"
      "parse_varint 5 (pc_view e p) = VarintOk v (drop i (pc_view e p))" "pc_moved i e p k e (ptr_add p (int i)) (k + int i)"
    show thesis
    proof (cases "int v \<le> INT_MAX - 16")
      case True
      with r R show thesis by (intro size [of i v]) (simp_all add: read_as_def fast_delimited_def add.commute)
    next
      case False
      with r R show thesis by (intro none) (simp_all add: read_as_def fast_delimited_def)
    qed
  next
    fix v i
    assume r: "parse_varint 5 (readable e p) = VarintOk v (drop i (readable e p))" "i \<le> length (readable e p)"
      "\<And>v p'. parse_varint 5 (pc_view e p) \<noteq> VarintOk v p'" "overrun e (k + int i)" "in_buffer e (ptr_add p (int i)) (k + int i)"
    have n: "fast_delimited (pc_view e p) = None" using r(3) by (auto simp: fast_delimited_def split: varint_read.splits)
    show thesis
    proof (cases "int v \<le> INT_MAX - 16")
      case True
      with r R n show thesis by (intro past [of i "int v"]) (simp_all add: read_as_def)
    next
      case False
      with r R n show thesis by (intro none) (simp_all add: read_as_def)
    qed
  next
    assume r: "parse_varint 5 (readable e p) = VarintBad" "\<And>v p'. parse_varint 5 (pc_view e p) \<noteq> VarintOk v p'"
    have "fast_delimited (pc_view e p) = None" using r(2) by (auto simp: fast_delimited_def split: varint_read.splits)
    with r(1) R show thesis by (intro none) (simp_all add: read_as_def)
  qed
qed

text \<open>Memory behind an overrun pointer: anything, but no more than that.\<close>

lemma varint_overrun:
  assumes "pc_ok e" "in_buffer e p k" "overrun e k" "k + int N \<le> 16"
  obtains (some) v i where "parse_varint N (readable e p) = VarintOk v (drop i (readable e p))" "i \<le> length (readable e p)" "i \<le> N"
      "overrun e (k + int i)" "in_buffer e (ptr_add p (int i)) (k + int i)"
  | (bad) "parse_varint N (readable e p) = VarintBad"
proof -
  have "buffers_ok e" using assms(1) by (simp add: ctx_ok_def)
  then have len: "N \<le> length (readable e p)" using readable_split(3) [OF _ assms(2)] assms(4) by fastforce
  from varint_stops [OF this] show thesis
  proof (elim disjE exE)
    fix v i assume t: "transferred N (readable e p) [] v i"
    have "overrun e (k + int i)" using assms(3) by (auto simp: overrun_def)
    moreover have "in_buffer e (ptr_add p (int i)) (k + int i)" using t assms(2,4) by (intro in_buffer_add) (auto simp: transferred_def)
    ultimately show thesis using t len by (intro some [of v i]) (auto simp: transferred_def)
  qed (rule bad)
qed

lemma ReadSize_overrun:
  assumes "pc_ok e" "in_buffer e p k" "overrun e k" "k \<le> 11"
  obtains (size) i n where "ReadSize (readable e p) = Some (Some (i, n))" "0 \<le> n" "overrun e (k + int i)" "in_buffer e (ptr_add p (int i)) (k + int i)" "n \<le> INT_MAX"
  | (none) "ReadSize (readable e p) = Some None"
proof -
  have "buffers_ok e" using assms(1) by (simp add: ctx_ok_def)
  then have len: "5 \<le> length (readable e p)" using readable_split(3) [OF _ assms(2)] assms(4) by fastforce
  have k: "k + int 5 \<le> 16" using assms(4) by simp
  note R = ReadSize_parse [OF len]
  show thesis
  proof (rule varint_overrun [OF assms(1-3) k])
    fix v i
    assume r: "parse_varint 5 (readable e p) = VarintOk v (drop i (readable e p))" "i \<le> length (readable e p)"
      "overrun e (k + int i)" "in_buffer e (ptr_add p (int i)) (k + int i)"
    show thesis
    proof (cases "int v \<le> INT_MAX - 16")
      case True
      with r R show thesis by (intro size [of i "int v"]) (simp_all add: read_as_def)
    next
      case False
      with r R show thesis by (intro none) (simp_all add: read_as_def)
    qed
  next
    assume "parse_varint 5 (readable e p) = VarintBad"
    with R show thesis by (intro none) (simp add: read_as_def)
  qed
qed

end

text \<open>The number of groups that are open, and of those that may still be opened.\<close>

definition depths_ok :: "'s ParseContext \<Rightarrow> bool" where
  "depths_ok e \<longleftrightarrow> 0 \<le> depth e \<and> group_depth e + depth e < 0"

lemma depths_untracked: "depths_ok e \<Longrightarrow> group_depth e < 0"
  by (simp add: depths_ok_def)

abbreviation in_group :: "'s ParseContext \<Rightarrow> 's ParseContext" where
  "in_group e \<equiv> e\<lparr>depth := depth e - 1, group_depth := group_depth e + 1\<rparr>"

text \<open>A tag that ends a message cannot be mistaken for the marks of a limit or of the end of the stream.\<close>

lemma end_tag_differs: "tag - 1 \<noteq> 0 \<and> tag - 1 \<noteq> 1" if "tag = 0 \<or> tag AND 7 = 4" for tag :: uint32
proof -
  have "tag - 1 = c \<Longrightarrow> tag = c + 1" for c by (simp add: algebra_simps)
  from this [of 0] this [of 1] that show ?thesis by auto
qed

section \<open>Any client\<close>

text \<open>What a client promises: its loop is the one of the wire format, its value of a list of fields is made field by field, a
  string that is there is added and one that is not leaves a lost pointer.\<close>

locale message_client = zero_copy_input ops ok rest given idle
  for ops :: "'s ZeroCopyInputStream" and ok rest given idle +
  fixes fp :: "('s, 'u) field_parser"
    and group_parser :: "('s, 'u) parser \<Rightarrow> uint32 \<Rightarrow> ('s, 'u) parser"
    and message :: "('s, 'u) parser"
    and add :: "UnknownFieldSet \<Rightarrow> 'u \<Rightarrow> 'u"
    and enter :: "uint32 \<Rightarrow> 'u \<Rightarrow> 'u"
    and leave :: "uint32 \<Rightarrow> pointer option \<Rightarrow> 'u \<Rightarrow> 'u \<Rightarrow> 'u"
  assumes message_round: "message p u e = WireFormatParser_round ops (FieldParser fp (group_parser message)) message p u e"
    and group_run: "group_parser m num p u e =
      do { (r, g, e) \<leftarrow> Ctx_ParseGroup m (num * 8 + 3) p (enter num u) e; Some (r, leave num r u g, e) }"
    and add_nil: "add [] u = u"
    and add_cons: "add fs (add [f] u) = add (f # fs) u"
    and add_scalar: "parse_varint_field fp num v u = add [UnknownVarint num v] u" "parse_fixed64_field fp num w u = add [UnknownFixed64 num w] u"
      "parse_fixed32_field fp num x u = add [UnknownFixed32 num x] u"
    and add_group: "leave num (Some p) u (add fs (enter num u)) = add [UnknownGroup num fs] u"
    and delimited: "at_pointer ok rest given e p k \<Longrightarrow> k \<le> 11 \<Longrightarrow>
      field_as ok rest given add (map_option (\<lambda>(s, q). (UnknownLengthDelimited num s, q)) (fast_delimited (ctx_view rest e p))) e p k u
        (ParseLengthDelimited fp num p u e)"
    and delimited_overrun: "ctx_ok ok rest given e \<Longrightarrow> in_buffer e p k \<Longrightarrow> overrun e k \<Longrightarrow> k \<le> 11 \<Longrightarrow>
      lost_as ok rest given e (ParseLengthDelimited fp num p u e)"

context message_client
begin

text \<open>A scalar: in the view, or else the pointer is lost.\<close>

lemma lost_here: "pc_ok e \<Longrightarrow> in_buffer e p k \<Longrightarrow> overrun e k \<Longrightarrow> pc_lost e (Some p) e"
  by (auto simp: lost_def)

lemma lost_None [simp]: "pc_lost e None e'"
  by (simp add: lost_def)

lemma fixed_at:
  assumes "pc_at e p k" "k + int n \<le> 16"
  obtains (here) "n \<le> length (pc_view e p)" "n \<le> length (readable e p)" "take n (readable e p) = take n (pc_view e p)"
      "pc_moved n e p k e (ptr_add p (int n)) (k + int n)"
  | (gone) "length (pc_view e p) < n" "n \<le> length (readable e p)" "pc_lost e (Some (ptr_add p (int n))) e"
proof -
  have bufs: "buffers_ok e" "in_buffer e p k" "pc_ok e" using assms(1) by (simp_all add: at_pointer_def ctx_ok_def)
  have len: "n \<le> length (readable e p)" using readable_split(3) [OF bufs(1,2)] assms(2) by linarith
  show thesis
  proof (rule advance_at [OF assms(1), of "int n"])
    assume "pc_moved (nat (int n)) e p k e (ptr_add p (int n)) (k + int n)" "int n \<le> int (length (pc_view e p))"
      "take (nat (int n)) (readable e p) = take (nat (int n)) (pc_view e p)"
    with len show thesis by (intro here) simp_all
  next
    assume "int (length (pc_view e p)) < int n" "overrun e (k + int n)" "in_buffer e (ptr_add p (int n)) (k + int n)"
    with len bufs(3) show thesis by (intro gone) (auto intro: lost_here)
  qed (use assms(2) in simp_all)
qed

lemma FieldParser_scalar:
  assumes "pc_at e p k" "k \<le> 5" "GetTagWireType tag \<noteq> WIRETYPE_START_GROUP" "GetTagWireType tag \<noteq> WIRETYPE_END_GROUP"
  shows "pc_field add (fast_scalar tag (pc_view e p)) e p k u (FieldParser fp parse_group (ucast tag) p u e)"
proof -
  let ?n = "GetTagFieldNumber tag" and ?t = "GetTagWireType tag" and ?v = "pc_view e p"
  have len: "11 \<le> length (readable e p)"
    using readable_split(3) [of e p k] assms(1,2) by (auto simp: at_pointer_def ctx_ok_def)
  then have len: "10 \<le> length (readable e p)" "8 \<le> length (readable e p)" "4 \<le> length (readable e p)" by simp_all
  consider (zero) "?n = 0" | (varint) "?n \<noteq> 0" "?t = WIRETYPE_VARINT" | (f64) "?n \<noteq> 0" "?t = WIRETYPE_FIXED64"
    | (str) "?n \<noteq> 0" "?t = WIRETYPE_LENGTH_DELIMITED" | (f32) "?n \<noteq> 0" "?t = WIRETYPE_FIXED32"
    | (none) "?n \<noteq> 0" "?t \<notin> {WIRETYPE_VARINT, WIRETYPE_FIXED64, WIRETYPE_LENGTH_DELIMITED, WIRETYPE_FIXED32}" by blast
  then show ?thesis
  proof cases
    case zero
    then show ?thesis by (simp add: FieldParser_tag fast_scalar_def Let_def field_as_def)
  next
    case none
    with assms(3,4) show ?thesis by (simp add: FieldParser_tag fast_scalar_def Let_def field_as_def)
  next
    case varint
    have k: "k + int 10 \<le> 16" using assms(2) by simp
    have run: "FieldParser fp parse_group (ucast tag) p u e = do {
        r \<leftarrow> VarintParse64 (readable e p);
        Some (case r of None \<Rightarrow> (None, u, e) | Some (i, v) \<Rightarrow> (Some (ptr_add p (int i)), add [UnknownVarint ?n v] u, e)) }"
      using varint by (simp add: FieldParser_tag Let_def add_scalar cong: option.case_cong prod.case_cong)
    have ref: "fast_scalar tag ?v = (case parse_varint 10 ?v of VarintOk v p \<Rightarrow> Some (UnknownVarint ?n (of_nat v), p) | _ \<Rightarrow> None)"
      using varint by (simp add: fast_scalar_def Let_def)
    note V = VarintParse64_parse [OF len(1)]
    show ?thesis
    proof (rule varint_at [OF assms(1) k])
      fix v i
      assume "parse_varint 10 (readable e p) = VarintOk v (drop i (readable e p))" "i \<le> length (readable e p)"
        "parse_varint 10 ?v = VarintOk v (drop i ?v)" "pc_moved i e p k e (ptr_add p (int i)) (k + int i)"
      moreover from this(4) have "pc_view e (ptr_add p (int i)) = drop i ?v" by (simp add: ctx_moved_def)
      ultimately show ?thesis unfolding run ref V by (auto simp: read_as_def field_as_def)
    next
      fix v i
      assume r: "parse_varint 10 (readable e p) = VarintOk v (drop i (readable e p))" "i \<le> length (readable e p)"
        "\<And>v p'. parse_varint 10 ?v \<noteq> VarintOk v p'" "overrun e (k + int i)" "in_buffer e (ptr_add p (int i)) (k + int i)"
      then have "fast_scalar tag ?v = None" unfolding ref by (simp split: varint_read.split)
      moreover have "pc_lost e (Some (ptr_add p (int i))) e" using r(4,5) assms(1) by (auto simp: at_pointer_def intro: lost_here)
      ultimately show ?thesis unfolding run V using r(1,2) by (simp add: read_as_def field_as_def)
    next
      assume "parse_varint 10 (readable e p) = VarintBad" "\<And>v p'. parse_varint 10 ?v \<noteq> VarintOk v p'"
      then show ?thesis unfolding run ref V by (simp add: read_as_def field_as_def split: varint_read.split)
    qed
  next
    case f64
    have k: "k + int 8 \<le> 16" using assms(2) by simp
    have run: "FieldParser fp parse_group (ucast tag) p u e =
        Some (Some (ptr_add p 8), add [UnknownFixed64 ?n (of_nat (le_nat (take 8 (readable e p))))] u, e)"
      using f64 len by (simp add: FieldParser_tag Let_def add_scalar UnalignedLoad64_def ReadLittleEndian64FromArray_val)
    show ?thesis
    proof (rule fixed_at [OF assms(1) k])
      assume "8 \<le> length ?v" "take 8 (readable e p) = take 8 ?v" "pc_moved 8 e p k e (ptr_add p (int 8)) (k + int 8)"
      moreover from this(3) have "pc_view e (ptr_add p 8) = drop 8 ?v" by (simp add: ctx_moved_def)
      ultimately show ?thesis unfolding run using f64 by (auto simp: fast_scalar_def Let_def field_as_def)
    next
      assume "length ?v < 8" "pc_lost e (Some (ptr_add p (int 8))) e"
      then show ?thesis unfolding run using f64 by (simp add: fast_scalar_def Let_def field_as_def)
    qed
  next
    case f32
    have k: "k + int 4 \<le> 16" using assms(2) by simp
    have run: "FieldParser fp parse_group (ucast tag) p u e =
        Some (Some (ptr_add p 4), add [UnknownFixed32 ?n (of_nat (le_nat (take 4 (readable e p))))] u, e)"
      using f32 len by (simp add: FieldParser_tag Let_def add_scalar UnalignedLoad32_def ReadLittleEndian32FromArray_val)
    show ?thesis
    proof (rule fixed_at [OF assms(1) k])
      assume "4 \<le> length ?v" "take 4 (readable e p) = take 4 ?v" "pc_moved 4 e p k e (ptr_add p (int 4)) (k + int 4)"
      moreover from this(3) have "pc_view e (ptr_add p 4) = drop 4 ?v" by (simp add: ctx_moved_def)
      ultimately show ?thesis unfolding run using f32 by (auto simp: fast_scalar_def Let_def field_as_def)
    next
      assume "length ?v < 4" "pc_lost e (Some (ptr_add p (int 4))) e"
      then show ?thesis unfolding run using f32 by (simp add: fast_scalar_def Let_def field_as_def)
    qed
  next
    case str
    have "k \<le> 11" using assms(2) by simp
    with delimited [OF assms(1), of ?n u] str show ?thesis by (simp add: FieldParser_tag fast_scalar_def Let_def)
  qed
qed

text \<open>The loop notices an overrun pointer.\<close>

lemma message_overrun:
  assumes "pc_ok e" "in_buffer e p k" "overrun e k" "group_depth e < 0"
  obtains e' where "message p u e = Some (None, u, e')"
proof (rule DoneE [OF assms(1,2,4)])
  fix e' assume "DoneWithCheck ops (group_depth e) p e = Some (None, True, e')"
  then show thesis by (intro that [of e']) (subst message_round, simp add: WireFormatParser_round_def Ctx_Done_def)
qed (use assms(3) in simp_all)

lemma depths_in_group: "depths_ok e \<Longrightarrow> depth e \<noteq> 0 \<Longrightarrow> depths_ok (in_group e)"
  by (simp add: depths_ok_def)

lemma group_refused:
  assumes "depth e = 0"
  shows "pc_lost_as e (group_parser message num p u e)"
  using assms by (simp add: group_run Ctx_ParseGroup_def Let_def lost_as_def)

lemma group_unfold:
  assumes "depths_ok e" "depth e \<noteq> 0"
  shows "group_parser message num p u e = do {
    (r, g, e1) \<leftarrow> message p (enter num u) (in_group e);
    (let e2 = e1\<lparr>group_depth := group_depth e1 - 1, depth := depth e1 + 1\<rparr>; b = (last_tag_minus_1 e1 = num * 8 + 3); r = if b then r else None in
     Some (r, leave num r u g, e2\<lparr>last_tag_minus_1 := 0\<rparr>)) }"
  using assms unfolding group_run Ctx_ParseGroup_def Let_def
  by (cases "message p (enter num u) (in_group e)") (auto simp: depths_ok_def ConsumeEndGroup_def split: prod.splits)

lemma group_overrun:
  assumes "pc_ok e" "in_buffer e p k" "overrun e k" "depths_ok e"
  shows "pc_lost_as e (group_parser message num p u e)"
proof (cases "depth e = 0")
  case False
  note d = depths_in_group [OF assms(4) False]
  obtain e' where "message p (enter num u) (in_group e) = Some (None, enter num u, e')"
    by (rule message_overrun [of "in_group e" p k]) (use assms depths_untracked [OF d] in simp_all)
  then show ?thesis by (simp add: group_unfold [OF assms(4) False] lost_as_def Let_def)
qed (rule group_refused)

lemma overrun_further: "overrun e k \<Longrightarrow> 0 \<le> n \<Longrightarrow> overrun e (k + n)"
  by (auto simp: overrun_def)

lemma FieldParser_overrun:
  assumes "pc_ok e" "in_buffer e p k" "overrun e k" "depths_ok e" "k \<le> 5" "GetTagWireType tag \<noteq> WIRETYPE_END_GROUP"
  shows "pc_lost_as e (FieldParser fp (group_parser message) (ucast tag) p u e)"
proof -
  let ?n = "GetTagFieldNumber tag" and ?t = "GetTagWireType tag"
  have "11 \<le> length (readable e p)" using readable_split(3) [OF _ assms(2)] assms(1,5) by (auto simp: ctx_ok_def)
  then have len: "10 \<le> length (readable e p)" "8 \<le> length (readable e p)" "4 \<le> length (readable e p)" by simp_all
  have go: "pc_lost e (Some (ptr_add p n)) e" if "0 \<le> n" "n \<le> 10" for n
    using that assms(1-3,5) in_buffer_add [OF assms(2)] overrun_further [OF assms(3)] by (intro lost_here [where k = "k + n"]) simp_all
  consider (zero) "?n = 0" | (varint) "?n \<noteq> 0" "?t = WIRETYPE_VARINT" | (f64) "?n \<noteq> 0" "?t = WIRETYPE_FIXED64"
    | (str) "?n \<noteq> 0" "?t = WIRETYPE_LENGTH_DELIMITED" | (f32) "?n \<noteq> 0" "?t = WIRETYPE_FIXED32" | (group) "?n \<noteq> 0" "?t = WIRETYPE_START_GROUP"
    | (none) "?n \<noteq> 0" "?t \<notin> {WIRETYPE_VARINT, WIRETYPE_FIXED64, WIRETYPE_LENGTH_DELIMITED, WIRETYPE_FIXED32, WIRETYPE_START_GROUP}" by blast
  then show ?thesis
  proof cases
    case varint
    have k: "k + int 10 \<le> 16" using assms(5) by simp
    note V = VarintParse64_parse [OF len(1)]
    show ?thesis
      by (rule varint_overrun [OF assms(1-3) k]) (use varint V go in \<open>auto simp: FieldParser_tag Let_def lost_as_def read_as_def intro: lost_here [OF assms(1)]\<close>)
  next
    case str
    have "k \<le> 11" using assms(5) by simp
    with delimited_overrun [OF assms(1-3)] str show ?thesis by (simp add: FieldParser_tag Let_def)
  next
    case group
    then show ?thesis using group_overrun [OF assms(1-4)] by (simp add: FieldParser_tag Let_def)
  qed (use len go [of 8] go [of 4] assms(6) in \<open>simp_all add: FieldParser_tag Let_def UnalignedLoad64_def UnalignedLoad32_def lost_as_def\<close>)
qed

lemma moved_out_of_group:
  assumes "pc_moved n (in_group e) p k (e'\<lparr>last_tag_minus_1 := last_tag_minus_1 (in_group e)\<rparr>) p' k'" "last_tag_minus_1 e = 0"
  shows "pc_moved n e p k (e'\<lparr>group_depth := group_depth e' - 1, depth := depth e' + 1, last_tag_minus_1 := 0\<rparr>) p' k'"
proof -
  have "EpsCopyInputStream.more e' = EpsCopyInputStream.more (in_group e)" using moved_more [OF assms(1)] by simp
  then have m: "EpsCopyInputStream.more (e'\<lparr>group_depth := group_depth e' - 1, depth := depth e' + 1, last_tag_minus_1 := 0\<rparr>) = EpsCopyInputStream.more e"
    by (cases e, cases e') simp
  show ?thesis using assms m by (simp add: ctx_moved_def at_pointer_def same_context_def)
qed

lemma group_end_tag:
  assumes "num < 2 ^ 29"
  shows "t - 1 = num * 8 + 3 \<longleftrightarrow> t = MakeTag num WIRETYPE_END_GROUP" "num * 8 + 3 \<noteq> 0" "num * 8 + 3 \<noteq> (1 :: uint32)"
proof -
  have low: "bit c n \<Longrightarrow> n < 3" if "c < 8" for c :: uint32 and n using word_no_bit [of c 3 n] that by (cases "n < 3") simp_all
  have add: "push_bit 3 num + c = push_bit 3 num OR c" if "c < 8" for c
    by (rule disjunctive_add_eq_or, rule bit_word_eqI) (use low [OF that] in \<open>fastforce simp: bit_simps\<close>)
  have "MakeTag num WIRETYPE_END_GROUP = push_bit 3 num + 4" using add [of 4] by (simp add: MakeTag_def wire_types)
  also have "\<dots> = num * 8 + 4" by (simp add: push_bit_eq_mult mult.commute)
  finally have "MakeTag num WIRETYPE_END_GROUP = num * 8 + 3 + 1" by simp
  then show "t - 1 = num * 8 + 3 \<longleftrightarrow> t = MakeTag num WIRETYPE_END_GROUP" by (metis add_diff_cancel_right' diff_add_cancel)
  have "bit (num * 8 + 3) 1"
  proof -
    have "num * 8 + 3 = push_bit 3 num + 3" by (simp add: push_bit_eq_mult mult.commute)
    also have "\<dots> = push_bit 3 num OR 3" by (rule add) simp
    finally show ?thesis by (simp add: bit_simps)
  qed
  moreover have "\<not> bit (0 :: uint32) 1" "\<not> bit (1 :: uint32) 1" by simp_all
  ultimately show "num * 8 + 3 \<noteq> 0" "num * 8 + 3 \<noteq> (1 :: uint32)" by metis+
qed

text \<open>A group: its fields up to the end-group tag with its number, as deep as the budget allows.\<close>

definition group_fields :: "uint32 \<Rightarrow> (UnknownFieldSet \<times> wire_end \<times> byte list) option \<Rightarrow> (UnknownField \<times> byte list) option" where
  "group_fields num m =
     (case m of
        Some (fs, End_tag t, q) \<Rightarrow> if t = MakeTag num WIRETYPE_END_GROUP then Some (UnknownGroup num fs, q) else None
      | _ \<Rightarrow> None)"

lemma group_at:
  assumes "pc_at e p k" "depths_ok e" "depth e \<noteq> 0" "last_tag_minus_1 e = 0" "num < 2 ^ 29"
    and IH: "pc_parsed add m (in_group e) p k (enter num u) (message p (enter num u) (in_group e))"
  shows "pc_field add (group_fields num m) e p k u (group_parser message num p u e)"
proof -
  from IH obtain r g e1 where r: "message p (enter num u) (in_group e) = Some (r, g, e1)"
    "case m of None \<Rightarrow> pc_lost (in_group e) r e1 \<and> (r \<noteq> None \<longrightarrow> last_tag_minus_1 e1 \<noteq> 0 \<and> last_tag_minus_1 e1 \<noteq> 1)
     | Some (fs, w, q) \<Rightarrow> g = add fs (enter num u) \<and> (\<exists>p' k' n. r = Some p' \<and>
         pc_moved n (in_group e) p k (e1\<lparr>last_tag_minus_1 := last_tag_minus_1 (in_group e)\<rparr>) p' k' \<and> pc_view e1 p' = q \<and> end_tag_as w e1 k')"
    by (auto simp: parsed_as_def)
  let ?b = "last_tag_minus_1 e1 = num * 8 + 3"
  let ?e2 = "e1\<lparr>group_depth := group_depth e1 - 1, depth := depth e1 + 1, last_tag_minus_1 := 0\<rparr>"
  let ?r = "if ?b then r else None"
  have run: "group_parser message num p u e = Some (?r, leave num ?r u g, ?e2)"
    using r(1) by (simp add: group_unfold [OF assms(2,3)] Let_def)
  note tag = group_end_tag [OF assms(5)]
  show ?thesis
  proof (cases m)
    case None
    with r(2) have l: "pc_lost (in_group e) r e1" by simp
    have "pc_lost e r ?e2"
    proof (cases r)
      case (Some p')
      with l obtain k' where "pc_ok e1" "in_buffer e1 p' k'" "overrun e1 k'" "EpsCopyInputStream.more e1 = EpsCopyInputStream.more (in_group e)"
        by (auto simp: lost_def)
      moreover from this(4) have "EpsCopyInputStream.more ?e2 = EpsCopyInputStream.more e" by (cases e, cases e1) simp
      ultimately show ?thesis using Some by (auto simp: lost_def)
    qed simp
    then show ?thesis using None unfolding run by (simp add: field_as_def group_fields_def)
  next
    case (Some x)
    obtain fs w q where x: "x = (fs, w, q)" by (cases x)
    with Some r(2) obtain p' k' n where o: "g = add fs (enter num u)" "r = Some p'"
      "pc_moved n (in_group e) p k (e1\<lparr>last_tag_minus_1 := last_tag_minus_1 (in_group e)\<rparr>) p' k'" "pc_view e1 p' = q" "end_tag_as w e1 k'" by auto
    show ?thesis
    proof (cases "w = End_tag (MakeTag num WIRETYPE_END_GROUP)")
      case True
      with o(5) tag(1) have b: ?b by (simp add: end_tag_as_def)
      have "leave num (Some p') u g = add [UnknownGroup num fs] u" using o(1) add_group by simp
      with moved_out_of_group [OF o(3) assms(4)] b o(2,4) show ?thesis unfolding run
        using True Some x by (auto simp: field_as_def group_fields_def)
    next
      case False
      with o(5) tag have "\<not> ?b" by (cases w) (auto simp: end_tag_as_def split: if_splits)
      moreover have "group_fields num m = None" using False Some x by (cases w) (auto simp: group_fields_def)
      ultimately show ?thesis unfolding run by (simp add: field_as_def)
    qed
  qed
qed

section \<open>A whole message\<close>

lemma message_unfold:
  assumes "DoneWithCheck ops (group_depth e) p e = Some (Some p1, False, e1)"
  shows "message p u e = do {
      t \<leftarrow> Ctx_ReadTag (readable e1 p1);
      case t of None \<Rightarrow> Some (None, u, e1)
      | Some (i, tag) \<Rightarrow>
          if tag = 0 \<or> tag AND 7 = 4 then Some (Some (ptr_add p1 (int i)), u, Ctx_SetLastTag tag e1)
          else do {
            (r, u, e) \<leftarrow> FieldParser fp (group_parser message) (ucast tag) (ptr_add p1 (int i)) u e1;
            case r of None \<Rightarrow> Some (None, u, e) | Some p \<Rightarrow> message p u e
          } }"
  using assms by (subst message_round) (simp add: WireFormatParser_round_def Ctx_Done_def Let_def)

text \<open>Behind a field that is lost, the message is lost.\<close>

lemma message_lost_field:
  assumes "DoneWithCheck ops (group_depth e) p e = Some (Some p1, False, e1)" "Ctx_ReadTag (readable e1 p1) = Some (Some (i, tag))"
    "\<not> (tag = 0 \<or> tag AND 7 = 4)" "pc_lost_as e1 (FieldParser fp (group_parser message) (ucast tag) (ptr_add p1 (int i)) u e1)" "group_depth e1 < 0"
  shows "\<exists>u' e'. message p u e = Some (None, u', e')"
proof -
  from assms(4) obtain r u2 e2 where f: "FieldParser fp (group_parser message) (ucast tag) (ptr_add p1 (int i)) u e1 = Some (r, u2, e2)" "pc_lost e1 r e2"
    by (auto simp: lost_as_def)
  have step: "message p u e = (case r of None \<Rightarrow> Some (None, u2, e2) | Some p \<Rightarrow> message p u2 e2)"
    using f(1) assms(2,3) by (simp add: message_unfold [OF assms(1)])
  show ?thesis
  proof (cases r)
    case None
    with step show ?thesis by simp
  next
    case (Some p2)
    with f(2) obtain k2 where l: "pc_ok e2" "in_buffer e2 p2 k2" "overrun e2 k2" "EpsCopyInputStream.more e2 = EpsCopyInputStream.more e1"
      by (auto simp: lost_def)
    have "group_depth e2 < 0" using more_depths [OF l(4)] assms(5) by simp
    from message_overrun [OF l(1-3) this, of u2] show ?thesis using Some unfolding step by (metis option.case(2))
  qed
qed

lemma moved_tag: "pc_moved n e p k e' p' k' \<Longrightarrow> last_tag_minus_1 e' = last_tag_minus_1 e"
  by (simp add: ctx_moved_def same_context_def)

lemma tag_restored: "last_tag_minus_1 e' = x \<Longrightarrow> e'\<lparr>last_tag_minus_1 := x\<rparr> = e'" for e' :: "'s ParseContext"
  by (cases e') simp

lemma parsed_prefix:
  assumes "pc_moved n e p k e1 p1 k1" "pc_parsed add m e1 p1 k1 (add [f] u) R"
  shows "pc_parsed add (map_option (\<lambda>(fs, w, r). (f # fs, w, r)) m) e p k u R"
proof (cases m)
  case None
  with assms(2) lost_trans [OF moved_more [OF assms(1)]] show ?thesis by (auto simp: parsed_as_def)
next
  case (Some x)
  obtain fs w q where x: "x = (fs, w, q)" by (cases x)
  with Some assms(2) obtain u' e' p' k' n' where o: "R = Some (Some p', u', e')" "u' = add fs (add [f] u)"
    "pc_moved n' e1 p1 k1 (e'\<lparr>last_tag_minus_1 := last_tag_minus_1 e1\<rparr>) p' k'" "pc_view e' p' = q" "end_tag_as w e' k'"
    by (auto simp: parsed_as_def)
  from ctx_moved_trans [OF assms(1) o(3)] o(1,2,4,5) Some x show ?thesis
    unfolding parsed_as_def moved_tag [OF assms(1)] by (auto simp: add_cons)
qed

lemma parsed_none: "R = Some (None, u', e') \<Longrightarrow> pc_parsed add None e p k u R"
  by (auto simp: parsed_as_def)

text \<open>Behind a tag that starts a field; the induction hypothesis applies behind the field.\<close>

lemma message_field:
  assumes d: "DoneWithCheck ops (group_depth e) p e = Some (Some p1, False, e1)" "Ctx_ReadTag (readable e1 p1) = Some (Some (i, tag))"
    "\<not> (tag = 0 \<or> tag AND 7 = 4)" "depths_ok e" "last_tag_minus_1 e = 0"
    and moved: "pc_moved n e p k e1 (ptr_add p1 (int i)) k1"
    and field: "pc_field add m e1 (ptr_add p1 (int i)) k1 u (FieldParser fp (group_parser message) (ucast tag) (ptr_add p1 (int i)) u e1)"
    and IH: "\<And>e' p' k' u' f q. m = Some (f, q) \<Longrightarrow> pc_view e' p' = q \<Longrightarrow> pc_at e' p' k' \<Longrightarrow> depths_ok e' \<Longrightarrow> last_tag_minus_1 e' = 0 \<Longrightarrow>
      pc_parsed add (fast_message (nat (depth e')) q) e' p' k' u' (message p' u' e')"
  shows "pc_parsed add (case m of None \<Rightarrow> None | Some (f, q) \<Rightarrow> map_option (\<lambda>(fs, w, r). (f # fs, w, r)) (fast_message (nat (depth e)) q)) e p k u (message p u e)"
proof -
  have more1: "depth e1 = depth e \<and> group_depth e1 = group_depth e" by (rule more_depths [OF moved_more [OF moved]])
  show ?thesis
  proof (cases m)
    case None
    with field have "pc_lost_as e1 (FieldParser fp (group_parser message) (ucast tag) (ptr_add p1 (int i)) u e1)" by (simp add: field_as_def lost_as_def)
    moreover have "group_depth e1 < 0" using more1 depths_untracked [OF d(4)] by simp
    ultimately obtain u' e' where "message p u e = Some (None, u', e')" using message_lost_field [OF d(1-3)] by blast
    then show ?thesis using None by (simp add: parsed_as_def)
  next
    case (Some x)
    obtain f q where x: "x = (f, q)" by (cases x)
    with Some field obtain p' k' e' n' where o: "FieldParser fp (group_parser message) (ucast tag) (ptr_add p1 (int i)) u e1 = Some (Some p', add [f] u, e')"
      "pc_moved n' e1 (ptr_add p1 (int i)) k1 e' p' k'" "pc_view e' p' = q" by (auto simp: field_as_def)
    have step: "message p u e = message p' (add [f] u) e'" using o(1) d(2,3) by (simp add: message_unfold [OF d(1)])
    have m: "pc_moved (n + n') e p k e' p' k'" by (rule ctx_moved_trans [OF moved o(2)])
    have same: "depth e' = depth e \<and> group_depth e' = group_depth e" by (rule more_depths [OF moved_more [OF m]])
    have "pc_parsed add (fast_message (nat (depth e')) q) e' p' k' (add [f] u) (message p' (add [f] u) e')"
      by (rule IH) (use Some x o(3) m same d(4,5) moved_tag [OF m] in \<open>simp_all add: ctx_moved_def depths_ok_def\<close>)
    from parsed_prefix [OF m this] show ?thesis unfolding step using Some x same by simp
  qed
qed

lemma group_fields_shorter: "group_fields n (fast_message d bs) = Some (f, q) \<Longrightarrow> length q \<le> length bs"
  using fast_message_shorter [of d bs] by (fastforce simp: group_fields_def split: option.splits wire_end.splits if_splits)

lemma message_parse:
  assumes "pc_at e p k" "depths_ok e" "last_tag_minus_1 e = 0"
  shows "pc_parsed add (fast_message (nat (depth e)) (pc_view e p)) e p k u (message p u e)"
  using assms
proof (induction "length (pc_view e p)" arbitrary: e p k u rule: less_induct)
  case less
  let ?V = "pc_view e p"
  have at: "pc_ok e" "in_buffer e p k" "\<not> overrun e k" using less.prems(1) by (simp_all add: at_pointer_def)
  show ?case
  proof (rule DoneE [OF at(1,2) depths_untracked [OF less.prems(2)]])
    assume "overrun e k" with at(3) show ?thesis by simp
  next
    assume "DoneWithCheck ops (group_depth e) p e = Some (Some p, True, e)" "?V = []" "in_limit e = k"
    moreover from this(1) have "message p u e = Some (Some p, u, e)" by (subst message_round) (simp add: WireFormatParser_round_def Ctx_Done_def)
    moreover have "pc_moved 0 e p k (e\<lparr>last_tag_minus_1 := last_tag_minus_1 e\<rparr>) p k" using ctx_moved_refl [OF less.prems(1)] by (simp add: tag_restored)
    ultimately show ?thesis using less.prems(3) by (auto simp: parsed_as_def add_nil end_tag_as_def)
  next
    fix p' k' e'
    assume d: "DoneWithCheck ops (group_depth e) p e = Some (Some p', True, SetEndOfStream e')" "pc_moved 0 e p k e' p' k'" "?V = []" "in_limit e \<noteq> k"
    from d(1) have run: "message p u e = Some (Some p', u, SetEndOfStream e')" by (subst message_round) (simp add: WireFormatParser_round_def Ctx_Done_def)
    have "pc_moved 0 e p k ((SetEndOfStream e')\<lparr>last_tag_minus_1 := last_tag_minus_1 e\<rparr>) p' k'"
      using d(2) tag_restored [OF moved_tag [OF d(2)]] by (simp add: SetEndOfStream_def)
    moreover have "in_limit e' \<noteq> k'" "pc_view e' p' = []" using d(2-4) by (auto simp: ctx_moved_def)
    ultimately show ?thesis unfolding run using d(3) by (auto simp: parsed_as_def add_nil end_tag_as_def SetEndOfStream_def)
  next
    fix p1 k1 e1
    assume d: "DoneWithCheck ops (group_depth e) p e = Some (Some p1, False, e1)" "pc_moved 0 e p k e1 p1 k1" "k1 < 0" "?V \<noteq> []"
    have at1: "pc_at e1 p1 k1" and V: "pc_view e1 p1 = ?V" using d(2) by (simp_all add: ctx_moved_def)
    have k: "k1 + int 5 \<le> 16" using d(3) by simp
    have "5 \<le> length (readable e1 p1)" using readable_split(3) [of e1 p1 k1] at1 d(3) by (auto simp: at_pointer_def ctx_ok_def)
    note T = Ctx_ReadTag_parse [OF this]
    have more1: "EpsCopyInputStream.more e1 = EpsCopyInputStream.more e" by (rule moved_more [OF d(2)])
    have depths1: "depths_ok e1" "group_depth e1 < 0" using more_depths [OF more1] less.prems(2) by (simp_all add: depths_ok_def)
    have end_type: "(tag AND 7 = 4) = (GetTagWireType tag = WIRETYPE_END_GROUP)" for tag by (simp add: GetTagWireType_def kTagTypeMask_def kTagTypeBits_def wire_types)
    show ?thesis
    proof (rule varint_at [OF at1 k])
      assume b: "parse_varint 5 (readable e1 p1) = VarintBad" "\<And>v p'. parse_varint 5 (pc_view e1 p1) \<noteq> VarintOk v p'"
      have "message p u e = Some (None, u, e1)" using T b(1) by (simp add: message_unfold [OF d(1)] read_as_def)
      with fast_message_bad [OF d(4)] b(2) V show ?thesis by (simp add: parsed_none)
    next
      fix v i
      assume b: "parse_varint 5 (readable e1 p1) = VarintOk v (drop i (readable e1 p1))" "i \<le> length (readable e1 p1)"
        "\<And>v p'. parse_varint 5 (pc_view e1 p1) \<noteq> VarintOk v p'" "overrun e1 (k1 + int i)" "in_buffer e1 (ptr_add p1 (int i)) (k1 + int i)" "i \<le> 5"
      let ?tag = "of_nat v :: uint32"
      have t: "Ctx_ReadTag (readable e1 p1) = Some (Some (i, ?tag))" using T b(1,2) by (simp add: read_as_def)
      have none: "fast_message (nat (depth e)) ?V = None" using fast_message_bad [OF d(4)] b(3) V by simp
      show ?thesis
      proof (cases "?tag = 0 \<or> ?tag AND 7 = 4")
        case True
        have "pc_lost e (Some (ptr_add p1 (int i))) (Ctx_SetLastTag ?tag e1)"
          using b(4,5) at1 more1 by (auto simp: lost_def at_pointer_def Ctx_SetLastTag_def)
        moreover have "?tag - 1 \<noteq> 0 \<and> ?tag - 1 \<noteq> 1" using end_tag_differs [OF True] by simp
        ultimately show ?thesis using True t none by (auto simp: message_unfold [OF d(1)] parsed_as_def Ctx_SetLastTag_def)
      next
        case False
        have "k1 + int i \<le> 5" using b(6) d(3) by simp
        then have "pc_lost_as e1 (FieldParser fp (group_parser message) (ucast ?tag) (ptr_add p1 (int i)) u e1)"
          using at1 b(4,5) depths1(1) False end_type by (intro FieldParser_overrun) (simp_all add: at_pointer_def)
        from message_lost_field [OF d(1) t False this depths1(2)] none show ?thesis by (auto intro: parsed_none)
      qed
    next
      fix v i
      assume b: "parse_varint 5 (readable e1 p1) = VarintOk v (drop i (readable e1 p1))" "i \<le> length (readable e1 p1)"
        "parse_varint 5 (pc_view e1 p1) = VarintOk v (drop i (pc_view e1 p1))" "0 < i" "i \<le> 5"
        "pc_moved i e1 p1 k1 e1 (ptr_add p1 (int i)) (k1 + int i)"
      let ?tag = "of_nat v :: uint32" and ?p = "ptr_add p1 (int i)" and ?k = "k1 + int i"
      have t: "Ctx_ReadTag (readable e1 p1) = Some (Some (i, ?tag))" using T b(1,2) by (simp add: read_as_def)
      note m = ctx_moved_trans [OF d(2) b(6), unfolded add_0]
      have at2: "pc_at e1 ?p ?k" and V2: "pc_view e1 ?p = drop i ?V" using m by (simp_all add: ctx_moved_def)
      have k2: "?k \<le> 5" using d(3) b(5) by simp
      note ref = fast_message_tag [OF b(3) [unfolded V] refl, of "nat (depth e)"]
      have short: "length (drop i ?V) < length ?V" using b(4) d(4) by simp
      have hyp: "pc_parsed add (fast_message (nat (depth e')) q) e' p' k' u' (message p' u' e')"
        if "length q < length ?V" "pc_view e' p' = q" "pc_at e' p' k'" "depths_ok e'" "last_tag_minus_1 e' = 0" for e' p' k' u' q
        using less.hyps [of e' p' k' u'] that by simp
      consider (stop) "?tag = 0 \<or> ?tag AND 7 = 4" | (scalar) "\<not> (?tag = 0 \<or> ?tag AND 7 = 4)" "GetTagWireType ?tag \<noteq> WIRETYPE_START_GROUP"
        | (group) "\<not> (?tag = 0 \<or> ?tag AND 7 = 4)" "GetTagWireType ?tag = WIRETYPE_START_GROUP" by blast
      then show ?thesis
      proof cases
        case stop
        have "pc_moved i e p k ((Ctx_SetLastTag ?tag e1)\<lparr>last_tag_minus_1 := last_tag_minus_1 e\<rparr>) ?p ?k"
          using m tag_restored [OF moved_tag [OF m]] by (simp add: Ctx_SetLastTag_def)
        moreover have "message p u e = Some (Some ?p, u, Ctx_SetLastTag ?tag e1)" using stop t by (simp add: message_unfold [OF d(1)])
        ultimately show ?thesis using ref(1) stop V2 end_type
          by (auto simp: parsed_as_def add_nil end_tag_as_def Ctx_SetLastTag_def)
      next
        case scalar
        then have types: "?tag \<noteq> 0" "GetTagWireType ?tag \<noteq> WIRETYPE_END_GROUP" using end_type by auto
        have field: "pc_field add (fast_scalar ?tag (drop i ?V)) e1 ?p ?k u (FieldParser fp (group_parser message) (ucast ?tag) ?p u e1)"
          using FieldParser_scalar [OF at2 k2 scalar(2) types(2)] V2 by simp
        have "pc_parsed add (case fast_scalar ?tag (drop i ?V) of None \<Rightarrow> None
            | Some (f, q) \<Rightarrow> map_option (\<lambda>(fs, w, r). (f # fs, w, r)) (fast_message (nat (depth e)) q)) e p k u (message p u e)"
          by (rule message_field [OF d(1) t scalar(1) less.prems(2,3) m field], rule hyp)
             (use fast_scalar_shorter short in \<open>fastforce+\<close>)
        then show ?thesis unfolding ref(3) [OF types(1) scalar(2) types(2)] .
      next
        case group
        then have types: "?tag \<noteq> 0" by auto
        let ?n = "GetTagFieldNumber ?tag"
        let ?m = "if ?n = 0 \<or> nat (depth e) = 0 then None else group_fields ?n (fast_message (nat (depth e) - 1) (drop i ?V))"
        have n29: "?n < 2 ^ 29" by (rule tag_bounds(1))
        have field: "pc_field add ?m e1 ?p ?k u (FieldParser fp (group_parser message) (ucast ?tag) ?p u e1)"
        proof (cases "?n = 0")
          case True
          then show ?thesis by (simp add: FieldParser_tag Let_def field_as_def)
        next
          case n: False
          have same: "depth e1 = depth e" using more_depths [OF more1] by simp
          have run: "FieldParser fp (group_parser message) (ucast ?tag) ?p u e1 = group_parser message ?n ?p u e1"
            using n group(2) by (simp add: FieldParser_tag Let_def)
          show ?thesis
          proof (cases "depth e = 0")
            case True
            with group_refused [of e1 ?n ?p u] same show ?thesis unfolding run by (simp add: lost_as_def field_as_def)
          next
            case False
            with same have deep: "depth e1 \<noteq> 0" by simp
            have "nat (depth (in_group e1)) = nat (depth e) - 1" using same by simp
            moreover have "pc_parsed add (fast_message (nat (depth (in_group e1))) (drop i ?V)) (in_group e1) ?p ?k (enter ?n u) (message ?p (enter ?n u) (in_group e1))"
              by (rule hyp [OF short]) (use V2 at2 depths_in_group [OF depths1(1) deep] moved_tag [OF m] less.prems(3) in \<open>simp_all add: at_pointer_def\<close>)
            ultimately have "pc_field add (group_fields ?n (fast_message (nat (depth e) - 1) (drop i ?V))) e1 ?p ?k u (group_parser message ?n ?p u e1)"
              using moved_tag [OF m] less.prems(3) by (intro group_at [OF at2 depths1(1) deep _ n29]) simp_all
            then show ?thesis unfolding run using n False less.prems(2) by (simp add: depths_ok_def)
          qed
        qed
        have "pc_parsed add (case ?m of None \<Rightarrow> None
            | Some (f, q) \<Rightarrow> map_option (\<lambda>(fs, w, r). (f # fs, w, r)) (fast_message (nat (depth e)) q)) e p k u (message p u e)"
        proof (rule message_field [OF d(1) t group(1) less.prems(2,3) m field])
          fix e' p' k' u' f q
          assume "?m = Some (f, q)" and rest: "pc_view e' p' = q" "pc_at e' p' k'" "depths_ok e'" "last_tag_minus_1 e' = 0"
          then have "length q < length ?V" using group_fields_shorter [of ?n "nat (depth e) - 1" "drop i ?V" f q] short by (simp split: if_splits)
          from hyp [OF this rest] show "pc_parsed add (fast_message (nat (depth e')) q) e' p' k' u' (message p' u' e')" .
        qed
        moreover have "fast_message (nat (depth e)) ?V = (case ?m of None \<Rightarrow> None
            | Some (f, q) \<Rightarrow> map_option (\<lambda>(fs, w, r). (f # fs, w, r)) (fast_message (nat (depth e)) q))"
          unfolding ref(2) [OF types group(2)] group_fields_def by (simp split: option.split wire_end.split)
        ultimately show ?thesis by simp
      qed
    qed
  qed
qed

end

end
