(* ===== verification/Parse_Client.thy ===== *)
theory Parse_Client
  imports Message_Correct Unknown_Client
begin

text \<open>
  The two clients of the parser of unknown fields, a set of fields and a string of bytes, and what their users rely on.
\<close>

section \<open>Strings of unknown bytes\<close>

lemma write_varint_loop_bytes: "write_varint_loop v s = s @ varint_bytes (unat v)"
proof (induction v s rule: write_varint_loop.induct)
  case (1 v s)
  show ?case
  proof (cases "128 \<le> v")
    case True
    then have "128 \<le> unat v" by (simp add: word_le_nat_alt)
    with True 1 show ?thesis
      by (subst write_varint_loop.simps, subst varint_bytes.simps) (simp add: continuation_byte unat_drop7)
  next
    case False
    then have "unat v < 128" by (simp add: word_le_nat_alt)
    with False show ?thesis by (subst write_varint_loop.simps, subst varint_bytes.simps) simp
  qed
qed

lemma tag_product: "num * 8 + t = MakeTag num t" if "t < 8" for num t :: uint32
proof -
  have low: "bit t n \<Longrightarrow> n < 3" for n using word_no_bit [of t 3 n] that by (cases "n < 3") simp_all
  have "push_bit 3 num + t = push_bit 3 num OR t"
    by (rule disjunctive_add_eq_or, rule bit_word_eqI) (use low in \<open>fastforce simp: bit_simps\<close>)
  then show ?thesis by (simp add: MakeTag_def push_bit_eq_mult mult.commute)
qed

lemma write_tag_loop:
  "write_varint_loop (ucast (num * 8)) s = s @ WriteTagToArray num WIRETYPE_VARINT"
  "write_varint_loop (ucast (num * 8 + 1)) s = s @ WriteTagToArray num WIRETYPE_FIXED64"
  "write_varint_loop (ucast (num * 8 + 2)) s = s @ WriteTagToArray num WIRETYPE_LENGTH_DELIMITED"
  "write_varint_loop (ucast (num * 8 + 3)) s = s @ WriteTagToArray num WIRETYPE_START_GROUP"
  "write_varint_loop (ucast (num * 8 + 4)) s = s @ WriteTagToArray num WIRETYPE_END_GROUP"
  "write_varint_loop (ucast (num * 8 + 5)) s = s @ WriteTagToArray num WIRETYPE_FIXED32"
  for num :: uint32
  using tag_product [of 0 num] tag_product [of 1 num] tag_product [of 2 num] tag_product [of 3 num] tag_product [of 4 num] tag_product [of 5 num]
  by (simp_all add: write_varint_loop_bytes WriteTagToArray_def varint_arrays wire_types unat_ucast_up)

lemma write_size_loop:
  assumes "0 \<le> n" "n \<le> INT_MAX"
  shows "write_varint_loop (word_of_int n) s = s @ WriteVarint32ToArray (of_nat (nat n))"
proof -
  have "nat n < 2 ^ 32" using assms by simp
  then have "unat (of_nat (nat n) :: uint64) = nat n" "unat (of_nat (nat n) :: uint32) = nat n" by (simp_all add: unat_of_nat)
  moreover have "(word_of_int n :: uint64) = of_nat (nat n)" using assms(1) by simp
  ultimately show ?thesis by (simp add: write_varint_loop_bytes varint_arrays)
qed

lemma fields_bytes_Cons: "fields_bytes (f # fs) = fields_bytes [f] @ fields_bytes fs"
  by (cases f) simp_all

section \<open>Two clients\<close>

context zero_copy_input
begin

text \<open>A client that reads the length, and gives it to a reader of strings.\<close>

lemma delimited_law:
  assumes "f = (\<lambda>p u e. do {
      r \<leftarrow> ReadSize (readable e p);
      case r of None \<Rightarrow> Some (None, c u, e) | Some (i, n) \<Rightarrow> g (ptr_add p (int i)) n u e })"
    and string: "\<And>e p k n u. pc_at e p k \<Longrightarrow> 0 \<le> n \<Longrightarrow> n \<le> INT_MAX \<Longrightarrow> \<exists>r u' e'. g p n u e = Some (r, u', e') \<and> pc_consumed (nat n) e p k r e' \<and>
        (nat n \<le> length (pc_view e p) \<longrightarrow> u' = add [UnknownLengthDelimited num (take (nat n) (pc_view e p))] u)"
    and gone: "\<And>e p k n u. pc_ok e \<Longrightarrow> in_buffer e p k \<Longrightarrow> overrun e k \<Longrightarrow> 0 \<le> n \<Longrightarrow> n \<le> INT_MAX \<Longrightarrow> pc_lost_as e (g p n u e)"
  shows "pc_at e p k \<Longrightarrow> k \<le> 11 \<Longrightarrow>
      pc_field add (map_option (\<lambda>(s, q). (UnknownLengthDelimited num s, q)) (fast_delimited (pc_view e p))) e p k u (f p u e)"
    "pc_ok e \<Longrightarrow> in_buffer e p k \<Longrightarrow> overrun e k \<Longrightarrow> k \<le> 11 \<Longrightarrow> pc_lost_as e (f p u e)"
proof -
  assume at: "pc_at e p k" "k \<le> 11"
  have ctx: "pc_ok e" using at(1) by (simp add: at_pointer_def)
  show "pc_field add (map_option (\<lambda>(s, q). (UnknownLengthDelimited num s, q)) (fast_delimited (pc_view e p))) e p k u (f p u e)"
  proof (rule ReadSize_at [OF at])
    fix i v
    assume s: "ReadSize (readable e p) = Some (Some (i, int v))" "pc_moved i e p k e (ptr_add p (int i)) (k + int i)"
      "fast_delimited (pc_view e p) = (if v \<le> length (pc_view e p) - i then Some (take v (drop i (pc_view e p)), drop (i + v) (pc_view e p)) else None)"
      "int v \<le> INT_MAX"
    let ?p = "ptr_add p (int i)"
    have at1: "pc_at e ?p (k + int i)" and V: "pc_view e ?p = drop i (pc_view e p)" using s(2) by (simp_all add: ctx_moved_def)
    obtain r u' e' where g: "g ?p (int v) u e = Some (r, u', e')" "pc_consumed v e ?p (k + int i) r e'"
      "v \<le> length (pc_view e ?p) \<longrightarrow> u' = add [UnknownLengthDelimited num (take v (pc_view e ?p))] u"
      using string [OF at1, of "int v" u] s(4) by auto
    have run: "f p u e = Some (r, u', e')" using s(1) g(1) by (simp add: assms(1))
    show ?thesis
    proof (cases "v \<le> length (pc_view e p) - i")
      case True
      with g(2) V obtain p' k' where r: "r = Some p'" "pc_moved v e ?p (k + int i) e' p' k'" by (auto simp: consumed_def)
      from ctx_moved_trans [OF s(2) r(2)] have m: "pc_moved (i + v) e p k e' p' k'" .
      then have "pc_view e' p' = drop (i + v) (pc_view e p)" by (simp add: ctx_moved_def)
      with m True g(3) r(1) V s(3) show ?thesis unfolding run by (auto simp: field_as_def)
    next
      case False
      with g(2) V have "pc_lost e r e'" by (auto simp: consumed_def split: if_splits)
      with False s(3) show ?thesis unfolding run by (simp add: field_as_def)
    qed
  next
    fix i n
    assume s: "ReadSize (readable e p) = Some (Some (i, n))" "0 \<le> n" "overrun e (k + int i)" "in_buffer e (ptr_add p (int i)) (k + int i)"
      "fast_delimited (pc_view e p) = None" "n \<le> INT_MAX"
    from gone [OF ctx s(4,3,2,6), of u] s(1,5) show ?thesis by (auto simp: assms(1) field_as_def lost_as_def)
  next
    assume "ReadSize (readable e p) = Some None" "fast_delimited (pc_view e p) = None"
    then show ?thesis by (simp add: assms(1) field_as_def lost_def)
  qed
next
  assume at: "pc_ok e" "in_buffer e p k" "overrun e k" "k \<le> 11"
  show "pc_lost_as e (f p u e)"
  proof (rule ReadSize_overrun [OF at])
    fix i n
    assume s: "ReadSize (readable e p) = Some (Some (i, n))" "0 \<le> n" "overrun e (k + int i)" "in_buffer e (ptr_add p (int i)) (k + int i)" "n \<le> INT_MAX"
    from gone [OF at(1) s(4,3,2,5), of u] s(1) show ?thesis by (simp add: assms(1))
  next
    assume "ReadSize (readable e p) = Some None"
    then show ?thesis by (simp add: assms(1) lost_as_def lost_def)
  qed
qed

end

text \<open>A set of unknown fields: a group is parsed into a new set.\<close>

sublocale zero_copy_input \<subseteq> set_parser: message_client ops ok rest given idle "UnknownFieldParserHelper ops" unknown_group
  "UnknownGroupParse ops" "\<lambda>fs u. u @ fs" "\<lambda>_ _. []" "\<lambda>num r u g. AddGroup num g u"
proof
  fix p u e
  show "UnknownGroupParse ops p u e = WireFormatParser_round ops (FieldParser (UnknownFieldParserHelper ops) (unknown_group (UnknownGroupParse ops)))
      (UnknownGroupParse ops) p u e"
    by (subst UnknownGroupParse.simps) (rule refl)
next
  fix num p u and e :: "'s ParseContext" and k :: int
  let ?f = "ParseLengthDelimited (UnknownFieldParserHelper ops) num"
  let ?c = "AddLengthDelimited num []"
  let ?g = "\<lambda>p n u e. do { (r, s, e) \<leftarrow> Ctx_ReadString ops p n e; Some (r, AddLengthDelimited num s u, e) }"
  have f: "?f = (\<lambda>p u e. do {
      r \<leftarrow> ReadSize (readable e p);
      case r of None \<Rightarrow> Some (None, ?c u, e) | Some (i, n) \<Rightarrow> ?g (ptr_add p (int i)) n u e })"
    by (simp add: UnknownFieldParserHelper_def)
  have string: "\<exists>r u' e'. ?g p n u e = Some (r, u', e') \<and> pc_consumed (nat n) e p k r e' \<and>
      (nat n \<le> length (pc_view e p) \<longrightarrow> u' = u @ [UnknownLengthDelimited num (take (nat n) (pc_view e p))])"
    if "pc_at e p k" "0 \<le> n" for e :: "'s ParseContext" and p k n u
    using Ctx_ReadString_spec [OF that] by (fastforce simp: AddLengthDelimited_def)
  have gone: "pc_lost_as e (?g p n u e)" if "pc_ok e" "in_buffer e p k" "overrun e k" "0 \<le> n" for e :: "'s ParseContext" and p k n u
    using strings_overrun(1) [OF that] by (fastforce simp: lost_as_def)
  note law = delimited_law [where add = "\<lambda>fs u. u @ fs" and f = ?f and c = ?c and g = ?g and num = num, OF f string gone]
  show "pc_at e p k \<Longrightarrow> k \<le> 11 \<Longrightarrow>
      pc_field (\<lambda>fs u. u @ fs) (map_option (\<lambda>(s, q). (UnknownLengthDelimited num s, q)) (fast_delimited (pc_view e p))) e p k u (?f p u e)"
    by (rule law(1))
  show "pc_ok e \<Longrightarrow> in_buffer e p k \<Longrightarrow> overrun e k \<Longrightarrow> k \<le> 11 \<Longrightarrow> pc_lost_as e (?f p u e)"
    by (rule law(2))
qed (simp_all add: UnknownFieldParserHelper_def unknown_group_def AddVarint_def AddFixed64_def AddFixed32_def AddGroup_def)

text \<open>A string of unknown bytes, which may be a null pointer: it gets what the serialiser of a set would write.\<close>

definition add_bytes :: "UnknownFieldSet \<Rightarrow> byte list option \<Rightarrow> byte list option" where
  "add_bytes fs = map_option (\<lambda>s. s @ fields_bytes fs)"

definition open_group :: "uint32 \<Rightarrow> byte list option \<Rightarrow> byte list option" where
  "open_group num = map_option (\<lambda>s. s @ WriteTagToArray num WIRETYPE_START_GROUP)"

definition close_group :: "uint32 \<Rightarrow> pointer option \<Rightarrow> byte list option \<Rightarrow> byte list option \<Rightarrow> byte list option" where
  "close_group num r u g = (if r = None then g else map_option (\<lambda>s. s @ WriteTagToArray num WIRETYPE_END_GROUP) g)"

lemma lite_group_run:
  "lite_group m num p u e =
    do { (r, g, e) \<leftarrow> Ctx_ParseGroup m (num * 8 + 3) p (open_group num u) e; Some (r, close_group num r u g, e) }"
proof -
  have w: "write_varint_loop (ucast (num * 8 + 3)) = (\<lambda>s. s @ WriteTagToArray num WIRETYPE_START_GROUP)"
    "write_varint_loop (ucast (num * 8 + 4)) = (\<lambda>s. s @ WriteTagToArray num WIRETYPE_END_GROUP)" by (rule ext, rule write_tag_loop)+
  show ?thesis unfolding lite_group_def open_group_def close_group_def w ..
qed

sublocale zero_copy_input \<subseteq> lite_parser: message_client ops ok rest given idle "UnknownFieldLiteParserHelper ops" lite_group
  "UnknownGroupLiteParse ops" add_bytes open_group close_group
proof
  fix p u e
  show "UnknownGroupLiteParse ops p u e = WireFormatParser_round ops (FieldParser (UnknownFieldLiteParserHelper ops) (lite_group (UnknownGroupLiteParse ops)))
      (UnknownGroupLiteParse ops) p u e"
    by (subst UnknownGroupLiteParse.simps) (rule refl)
next
  fix m :: "('s, byte list option) parser" and num p u e
  show "lite_group m num p u e = do { (r, g, e) \<leftarrow> Ctx_ParseGroup m (num * 8 + 3) p (open_group num u) e; Some (r, close_group num r u g, e) }"
    by (rule lite_group_run)
next
  fix num p u and e :: "'s ParseContext" and k :: int
  let ?f = "ParseLengthDelimited (UnknownFieldLiteParserHelper ops) num"
  let ?s = "\<lambda>s n. write_varint_loop (word_of_int n) (write_varint_loop (ucast (num * 8 + 2)) s)"
  let ?g = "\<lambda>p n u e. case u of
      None \<Rightarrow> do { (r, e) \<leftarrow> Ctx_Skip ops p n e; Some (r, None, e) }
    | Some s \<Rightarrow> do { (r, s, e) \<leftarrow> Ctx_AppendString ops p n (?s s n) e; Some (r, Some s, e) }"
  have f: "?f = (\<lambda>p u e. do {
      r \<leftarrow> ReadSize (readable e p);
      case r of None \<Rightarrow> Some (None, u, e) | Some (i, n) \<Rightarrow> ?g (ptr_add p (int i)) n u e })"
    by (simp add: UnknownFieldLiteParserHelper_def Let_def)
  have size: "?s s n = s @ WriteTagToArray num WIRETYPE_LENGTH_DELIMITED @ WriteVarint32ToArray (of_nat (nat n))"
    if "0 \<le> n" "n \<le> INT_MAX" for s n using write_size_loop [OF that] by (simp add: write_tag_loop)
  have string: "\<exists>r u' e'. ?g p n u e = Some (r, u', e') \<and> pc_consumed (nat n) e p k r e' \<and>
      (nat n \<le> length (pc_view e p) \<longrightarrow> u' = add_bytes [UnknownLengthDelimited num (take (nat n) (pc_view e p))] u)"
    if "pc_at e p k" "0 \<le> n" "n \<le> INT_MAX" for e :: "'s ParseContext" and p k n u
  proof (cases u)
    case None
    with Ctx_Skip_spec [OF that(1,2)] show ?thesis by (fastforce simp: add_bytes_def)
  next
    case (Some s)
    from Ctx_AppendString_spec [OF that(1,2), of "?s s n"] obtain r s' e' where
      "Ctx_AppendString ops p n (?s s n) e = Some (r, s', e')" "pc_consumed (nat n) e p k r e'"
      "nat n \<le> length (pc_view e p) \<longrightarrow> s' = ?s s n @ take (nat n) (pc_view e p)" by blast
    with Some size [OF that(2,3)] show ?thesis by (simp add: add_bytes_def min_absorb2)
  qed
  have gone: "pc_lost_as e (?g p n u e)" if "pc_ok e" "in_buffer e p k" "overrun e k" "0 \<le> n" for e :: "'s ParseContext" and p k n u
  proof (cases u)
    case None
    with strings_overrun(3) [OF that] show ?thesis by (fastforce simp: lost_as_def)
  next
    case (Some s)
    with strings_overrun(2) [OF that, of "?s s n"] show ?thesis by (fastforce simp: lost_as_def)
  qed
  note law = delimited_law [where add = add_bytes and f = ?f and c = "\<lambda>u. u" and g = ?g and num = num, OF f string gone]
  show "pc_at e p k \<Longrightarrow> k \<le> 11 \<Longrightarrow>
      pc_field add_bytes (map_option (\<lambda>(s, q). (UnknownLengthDelimited num s, q)) (fast_delimited (pc_view e p))) e p k u (?f p u e)"
    by (rule law(1))
  show "pc_ok e \<Longrightarrow> in_buffer e p k \<Longrightarrow> overrun e k \<Longrightarrow> k \<le> 11 \<Longrightarrow> pc_lost_as e (?f p u e)"
    by (rule law(2))
next
  fix fs f u
  show "add_bytes fs (add_bytes [f] u) = add_bytes (f # fs) u"
    using fields_bytes_Cons [of f fs] by (cases u) (simp_all add: add_bytes_def)
next
  fix num p' u fs
  show "close_group num (Some p') u (add_bytes fs (open_group num u)) = add_bytes [UnknownGroup num fs] u"
    by (cases u) (simp_all add: close_group_def open_group_def add_bytes_def)
qed (auto simp: UnknownFieldLiteParserHelper_def add_bytes_def write_varint_loop_bytes write_tag_loop [where s = "[]", unfolded write_varint_loop_bytes append_Nil] varint_arrays LittleEndian32_bytes LittleEndian64_bytes
    option.map_comp option.map_id0 option.map_ident intro!: option.map_cong)

end
