(* ===== verification/Message_Lite.thy ===== *)
theory Message_Lite
  imports Parse_Client
begin

text \<open>
  The entry points of message_lite.cc: parsing a message from a string, from a stream, and from the next bytes of a
  stream. What the code generator writes for a message is an argument: its \<open>_InternalParse\<close>, of which a contract says
  that it parses bytes as some reference parser does, its \<open>Clear\<close> and its \<open>IsInitialized\<close>.
\<close>

section \<open>Entry points\<close>

record ('s, 'u) message_class =
  internal_parse :: "('s, 'u) parser"
  clear_message :: "'u \<Rightarrow> 'u"
  is_initialized :: "'u \<Rightarrow> bool"

type_synonym ParseFlags = int

definition kMerge :: ParseFlags where "kMerge = 0"
definition kParse :: ParseFlags where "kParse = 1"
definition kMergePartial :: ParseFlags where "kMergePartial = 2"
definition kParsePartial :: ParseFlags where "kParsePartial = 3"

definition CheckFieldPresence :: "('s, 'u) message_class \<Rightarrow> 'u \<Rightarrow> ParseFlags \<Rightarrow> bool" where
  "CheckFieldPresence cls u flags \<longleftrightarrow> flags AND kMergePartial \<noteq> 0 \<or> is_initialized cls u"

text \<open>\<open>group_depth_\<close> is \<open>INT_MIN\<close>.\<close>

definition new_context :: "int \<Rightarrow> 's EpsCopyInputStream \<Rightarrow> 's ParseContext" where
  "new_context budget e = EpsCopyInputStream.extend e (ParseContext.fields budget (- 2147483648))"

definition GetDefaultRecursionLimit :: int where
  "GetDefaultRecursionLimit = 100"

definition MergeFromImpl_flat :: "('s, 'u) message_class \<Rightarrow> int \<Rightarrow> byte list \<Rightarrow> ParseFlags \<Rightarrow> 'u \<Rightarrow> (bool \<times> 'u) option" where
  "MergeFromImpl_flat cls junk input flags u =
     (case InitFrom_flat junk input of (p, e) \<Rightarrow> do {
        (r, u, e) \<leftarrow> internal_parse cls p u (new_context GetDefaultRecursionLimit e);
        Some (if r \<noteq> None \<and> EndedAtLimit e then CheckFieldPresence cls u flags else False, u)
      })"

definition MergeFromImpl_stream ::
    "'s ZeroCopyInputStream \<Rightarrow> ('s, 'u) message_class \<Rightarrow> int \<Rightarrow> 's \<Rightarrow> ParseFlags \<Rightarrow> 'u \<Rightarrow> (bool \<times> 'u \<times> 's option) option" where
  "MergeFromImpl_stream ops cls junk input flags u =
     do {
       (p, e) \<leftarrow> InitFrom_stream ops junk input;
       (r, u, e) \<leftarrow> internal_parse cls p u (new_context GetDefaultRecursionLimit e);
       Some (if r \<noteq> None \<and> EndedAtEndOfStream e then CheckFieldPresence cls u flags else False, u, zcis e)
     }"

definition MergeFromImpl_bounded ::
    "'s ZeroCopyInputStream \<Rightarrow> ('s, 'u) message_class \<Rightarrow> int \<Rightarrow> 's \<Rightarrow> int \<Rightarrow> ParseFlags \<Rightarrow> 'u \<Rightarrow> (bool \<times> 'u \<times> 's option) option" where
  "MergeFromImpl_bounded ops cls junk input bound flags u =
     do {
       (p, e) \<leftarrow> InitFrom_bounded ops junk input bound;
       (r, u, e) \<leftarrow> internal_parse cls p u (new_context GetDefaultRecursionLimit e);
       case r of
         None \<Rightarrow> Some (False, u, zcis e)
       | Some p \<Rightarrow> do {
           e \<leftarrow> Ctx_BackUp ops p e;
           Some (if EndedAtLimit e then CheckFieldPresence cls u flags else False, u, zcis e)
         }
     }"

text \<open>\<open>ParseFrom\<close>, for its three kinds of input; the public methods pass the flags.\<close>

definition cleared :: "('s, 'u) message_class \<Rightarrow> ParseFlags \<Rightarrow> 'u \<Rightarrow> 'u" where
  "cleared cls flags u = (if flags AND kParse \<noteq> 0 then clear_message cls u else u)"

definition ParseFrom_flat :: "('s, 'u) message_class \<Rightarrow> int \<Rightarrow> ParseFlags \<Rightarrow> byte list \<Rightarrow> 'u \<Rightarrow> (bool \<times> 'u) option" where
  "ParseFrom_flat cls junk flags input u = MergeFromImpl_flat cls junk input flags (cleared cls flags u)"

definition ParseFrom_stream ::
    "'s ZeroCopyInputStream \<Rightarrow> ('s, 'u) message_class \<Rightarrow> int \<Rightarrow> ParseFlags \<Rightarrow> 's \<Rightarrow> 'u \<Rightarrow> (bool \<times> 'u \<times> 's option) option" where
  "ParseFrom_stream ops cls junk flags input u = MergeFromImpl_stream ops cls junk input flags (cleared cls flags u)"

definition ParseFrom_bounded ::
    "'s ZeroCopyInputStream \<Rightarrow> ('s, 'u) message_class \<Rightarrow> int \<Rightarrow> ParseFlags \<Rightarrow> 's \<Rightarrow> int \<Rightarrow> 'u \<Rightarrow> (bool \<times> 'u \<times> 's option) option" where
  "ParseFrom_bounded ops cls junk flags input bound u = MergeFromImpl_bounded ops cls junk input bound flags (cleared cls flags u)"

section \<open>A new context\<close>

lemma extend_readable [simp]:
  "readable (EpsCopyInputStream.extend e m) p = readable e p" "coming rest (EpsCopyInputStream.extend e m) = coming rest e"
  by (simp_all add: readable_def coming_def EpsCopyInputStream.extend_def split: pointer.split)

lemma extend_fields [simp]:
  "in_limit_end (EpsCopyInputStream.extend e m) = in_limit_end e" "in_end (EpsCopyInputStream.extend e m) = in_end e"
  "in_next (EpsCopyInputStream.extend e m) = in_next e" "in_size (EpsCopyInputStream.extend e m) = in_size e"
  "in_limit (EpsCopyInputStream.extend e m) = in_limit e" "zcis (EpsCopyInputStream.extend e m) = zcis e"
  "in_patch (EpsCopyInputStream.extend e m) = in_patch e" "in_chunk (EpsCopyInputStream.extend e m) = in_chunk e"
  "last_tag_minus_1 (EpsCopyInputStream.extend e m) = last_tag_minus_1 e" "overall_limit (EpsCopyInputStream.extend e m) = overall_limit e"
  by (simp_all add: EpsCopyInputStream.extend_def)

lemma extend_context [simp]:
  "at_pointer ok rest given (EpsCopyInputStream.extend e m) p k = at_pointer ok rest given e p k"
  "ctx_view rest (EpsCopyInputStream.extend e m) p = ctx_view rest e p"
  "ctx_stream rest (EpsCopyInputStream.extend e m) p = ctx_stream rest e p"
  "tight (EpsCopyInputStream.extend e m) = tight e"
  by (simp_all add: at_pointer_def ctx_ok_def buffers_ok_def supply_ok_def in_buffer_def overrun_def after_end_def obtained_def tight_def ctx_stream_def ctx_view_def
      cong: option.case_cong pointer.case_cong)

lemma new_context_depths: "depth (new_context n e) = n" "group_depth (new_context n e) = - 2147483648"
  by (simp_all add: new_context_def EpsCopyInputStream.extend_def ParseContext.fields_def)

lemma new_context_ok: "0 \<le> n \<Longrightarrow> n \<le> 2147483647 \<Longrightarrow> depths_ok (new_context n e)"
  by (simp add: depths_ok_def new_context_depths)

context zero_copy_input
begin

lemma InitFrom_flat_at:
  obtains p k and e :: "'s EpsCopyInputStream" where "InitFrom_flat junk data = (p, e)" "pc_at e p k" "pc_view e p = data" "last_tag_minus_1 e = 0"
    "in_limit e - k = int (length data)" "zcis e = None"
proof (cases "int (length data) > 16")
  case True
  let ?n = "int (length data)"
  let ?e = "(new_stream junk 0 None data)\<lparr>in_limit := 16, in_limit_end := Chunk (?n - 16), in_end := Chunk (?n - 16), in_next := Some (Patch 0)\<rparr>
    :: 's EpsCopyInputStream"
  have n: "nat (?n - 16) = length data - 16" by simp
  have S: "ctx_stream rest ?e (Chunk 0) = data"
    using True by (simp add: ctx_stream_def after_end_def readable_def new_stream_def coming_def n)
  show thesis
  proof (rule that [of "Chunk 0" ?e "- (?n - 16)"])
    show "InitFrom_flat junk data = (Chunk 0, ?e)" using True by (simp add: InitFrom_flat_def kSlopBytes_def Let_def)
    show "pc_at ?e (Chunk 0) (- (?n - 16))"
      using True by (simp add: at_pointer_def ctx_ok_def buffers_ok_def supply_ok_def in_buffer_def overrun_def new_stream_def)
    show "pc_view ?e (Chunk 0) = data" using S by (simp add: ctx_view_def new_stream_def)
  qed (simp_all add: new_stream_def)
next
  case False
  let ?n = "int (length data)"
  let ?e = "(new_stream junk 0 None data)\<lparr>in_patch := data @ replicate (32 - length data) 0, in_limit := 0, in_limit_end := Patch ?n, in_end := Patch ?n, in_next := None\<rparr>
    :: 's EpsCopyInputStream"
  have S: "ctx_stream rest ?e (Patch 0) = data"
    using False by (simp add: ctx_stream_def after_end_def readable_def new_stream_def coming_def)
  show thesis
  proof (rule that [of "Patch 0" ?e "- ?n"])
    show "InitFrom_flat junk data = (Patch 0, ?e)" using False by (simp add: InitFrom_flat_def kSlopBytes_def Let_def new_stream_def overwrite_def)
    show "pc_at ?e (Patch 0) (- ?n)"
      using False by (simp add: at_pointer_def ctx_ok_def buffers_ok_def supply_ok_def in_buffer_def overrun_def new_stream_def coming_def)
    show "pc_view ?e (Patch 0) = data" using S by (simp add: ctx_view_def new_stream_def)
  qed (simp_all add: new_stream_def)
qed

text \<open>From a stream, with any limit that is not behind the overall limit.\<close>

lemma limit_readable [simp]: "readable (e\<lparr>in_limit := x\<rparr>) p = readable e p" "coming rest (e\<lparr>in_limit := x\<rparr>) = coming rest e"
  by (simp_all add: readable_def coming_def split: pointer.split)

lemma limit_stream [simp]:
  "in_buffer (e\<lparr>in_limit := x\<rparr>) p k = in_buffer e p k" "after_end rest (e\<lparr>in_limit := x\<rparr>) = after_end rest e"
  "ctx_stream rest (e\<lparr>in_limit := x\<rparr>) p = ctx_stream rest e p" "obtained (e\<lparr>in_limit := x\<rparr>) = obtained e"
  by (simp_all add: in_buffer_def after_end_def obtained_def ctx_stream_def cong: option.case_cong pointer.case_cong)

lemma InitFrom_overall_at:
  assumes "ok s" "0 \<le> overall"
  obtains p k and e :: "'s EpsCopyInputStream" where "InitFrom_overall ops junk overall s = Some (p, e)" "in_limit e = INT_MAX + min k 0" "- INT_MAX \<le> k"
    "in_limit_end e = in_end e" "in_buffer e p k" "in_next e = None \<Longrightarrow> k = 0"
    "\<And>x. x \<le> overall + k \<Longrightarrow> buffers_ok (e\<lparr>in_limit := x\<rparr>) \<and> supply_ok ok rest given (e\<lparr>in_limit := x\<rparr>)"
    "ctx_stream rest e p = rest s" "last_tag_minus_1 e = 0" "tight (e\<lparr>in_limit := overall + k\<rparr>)" "zcis e \<noteq> None"
proof (rule nextE [OF assms(1)])
  fix s'
  assume n: "Next ops s = Some (None, s')" "ok s'" "rest s = []" "rest s' = []"
  let ?e = "(new_stream junk overall (Some s') [])\<lparr>in_limit := INT_MAX, overall_limit := 0, in_next := None, in_size := 0, in_limit_end := Patch 0, in_end := Patch 0\<rparr>"
  show thesis
  proof (rule that [of "Patch 0" ?e 0])
    show "InitFrom_overall ops junk overall s = Some (Patch 0, ?e)" using n(1) by (simp add: InitFrom_overall_def Let_def)
    fix x
    show "buffers_ok (?e\<lparr>in_limit := x\<rparr>) \<and> supply_ok ok rest given (?e\<lparr>in_limit := x\<rparr>)"
      using n by (intro conjI supply_ended [of _ s']) (simp_all add: buffers_ok_def new_stream_def)
  qed (use n assms(2) in \<open>auto simp: in_buffer_def tight_def new_stream_def ctx_stream_def after_end_def coming_def\<close>)
next
  fix d s' g
  assume n: "Next ops s = Some (Some d, s')" "ok s'" "rest s = d @ rest s'" "given s' = g @ d" "int (length d) \<le> INT_MAX"
  let ?n = "int (length d)"
  let ?e0 = "(new_stream junk overall (Some s') [])\<lparr>in_limit := INT_MAX, in_chunk := d, overall_limit := overall - ?n\<rparr>"
  show thesis
  proof (cases "16 < ?n")
    case True
    let ?e = "?e0\<lparr>in_limit := INT_MAX - (?n - 16), in_limit_end := Chunk (?n - 16), in_end := Chunk (?n - 16), in_next := Some (Patch 0)\<rparr>"
    have l: "nat (?n - 16) = length d - 16" by simp
    show thesis
    proof (rule that [of "Chunk 0" ?e "- (?n - 16)"])
      show "InitFrom_overall ops junk overall s = Some (Chunk 0, ?e)" using n(1) True by (simp add: InitFrom_overall_def Let_def kSlopBytes_def new_stream_def)
      show "ctx_stream rest ?e (Chunk 0) = rest s"
        using True n(3) by (simp add: ctx_stream_def after_end_def readable_def new_stream_def coming_def l flip: append.assoc)
      fix x
      assume x: "x \<le> overall + - (?n - 16)"
      have "obtained (?e\<lparr>in_limit := x\<rparr>) = d" using True by (simp add: obtained_def new_stream_def)
      then have "supply_ok ok rest given (?e\<lparr>in_limit := x\<rparr>)"
        using n assms(2) by (intro supply_new [of _ s' _ _ g d]) (simp_all add: new_stream_def)
      with True x show "buffers_ok (?e\<lparr>in_limit := x\<rparr>) \<and> supply_ok ok rest given (?e\<lparr>in_limit := x\<rparr>)"
        by (simp add: buffers_ok_def new_stream_def)
    qed (use n(5) True in \<open>auto simp: in_buffer_def tight_def new_stream_def\<close>)
  next
    case False
    let ?e = "?e0\<lparr>in_limit_end := Patch 16, in_end := Patch 16, in_next := Some (Patch 0), in_patch := replicate (32 - length d) 0 @ d\<rparr>"
    have o: "overwrite (nat (32 - ?n)) d (replicate 32 0) = replicate (32 - length d) 0 @ d"
      using False by (simp add: overwrite_def nat_diff_distrib)
    have l: "nat (32 - ?n) = 32 - length d" using False by (simp add: nat_diff_distrib)
    show thesis
    proof (rule that [of "Patch (32 - ?n)" ?e "16 - ?n"])
      show "InitFrom_overall ops junk overall s = Some (Patch (32 - ?n), ?e)"
        using n(1) False o by (simp add: InitFrom_overall_def Let_def kSlopBytes_def new_stream_def)
      show "ctx_stream rest ?e (Patch (32 - ?n)) = rest s"
        using False n(3) by (simp add: ctx_stream_def after_end_def readable_def new_stream_def coming_def l nat_diff_distrib)
      fix x
      assume x: "x \<le> overall + (16 - ?n)"
      have "obtained (?e\<lparr>in_limit := x\<rparr>) = replicate (32 - length d) 0 @ d" using False by (simp add: obtained_def new_stream_def)
      then have "supply_ok ok rest given (?e\<lparr>in_limit := x\<rparr>)"
        using n assms(2) by (intro supply_new [of _ s' _ _ g d]) (simp_all add: new_stream_def)
      with False x show "buffers_ok (?e\<lparr>in_limit := x\<rparr>) \<and> supply_ok ok rest given (?e\<lparr>in_limit := x\<rparr>)"
        by (simp add: buffers_ok_def new_stream_def)
    qed (use n(5) False in \<open>auto simp: in_buffer_def tight_def new_stream_def\<close>)
  qed
qed

lemma InitFrom_stream_at:
  assumes "ok s" "int (length (rest s)) < INT_MAX - 16"
  obtains p k and e :: "'s EpsCopyInputStream" where "InitFrom_stream ops junk s = Some (p, e)" "pc_at e p k" "pc_view e p = rest s" "last_tag_minus_1 e = 0"
    "int (length (rest s)) < in_limit e - k" "zcis e \<noteq> None"
proof (rule InitFrom_overall_at [OF assms(1), of INT_MAX])
  fix p k and e :: "'s EpsCopyInputStream"
  assume i: "InitFrom_overall ops junk INT_MAX s = Some (p, e)" "in_limit e = INT_MAX + min k 0" "- INT_MAX \<le> k"
    "in_limit_end e = in_end e" "in_buffer e p k" "in_next e = None \<Longrightarrow> k = 0"
    "\<And>x. x \<le> INT_MAX + k \<Longrightarrow> buffers_ok (e\<lparr>in_limit := x\<rparr>) \<and> supply_ok ok rest given (e\<lparr>in_limit := x\<rparr>)"
    "ctx_stream rest e p = rest s" "last_tag_minus_1 e = 0" "zcis e \<noteq> None"
  have e: "e\<lparr>in_limit := INT_MAX + min k 0\<rparr> = e" using i(2) by (cases e) simp
  have k: "k \<le> 16" "ptr_diff (in_end e) p = Some (- k)" using i(5) by (auto simp: in_buffer_def intro: ptr_diff_flip)
  have "pc_at e p k" using i(7) [of "INT_MAX + min k 0", unfolded e] i(2-6) k(1) by (auto simp: at_pointer_def ctx_ok_def overrun_def)
  moreover have far: "int (length (rest s)) < in_limit e - k" using i(2) k(1) assms(2) by linarith
  moreover have "pc_view e p = rest s" using far i(8) k(2) by (simp add: ctx_view_def)
  ultimately show thesis using i by (intro that [of p e k]) (simp_all add: InitFrom_stream_def)
qed simp

lemma InitFrom_bounded_at:
  assumes "ok s" "0 \<le> bound"
  obtains p k and e :: "'s EpsCopyInputStream" where "InitFrom_bounded ops junk s bound = Some (p, e)" "pc_at e p k" "pc_view e p = take (nat bound) (rest s)"
    "ctx_stream rest e p = rest s" "last_tag_minus_1 e = 0" "in_limit e - k = bound" "tight e" "zcis e \<noteq> None"
proof (rule InitFrom_overall_at [OF assms])
  fix p k and e :: "'s EpsCopyInputStream"
  assume i: "InitFrom_overall ops junk bound s = Some (p, e)" "in_buffer e p k" "in_next e = None \<Longrightarrow> k = 0"
    "\<And>x. x \<le> bound + k \<Longrightarrow> buffers_ok (e\<lparr>in_limit := x\<rparr>) \<and> supply_ok ok rest given (e\<lparr>in_limit := x\<rparr>)"
    "ctx_stream rest e p = rest s" "last_tag_minus_1 e = 0" "tight (e\<lparr>in_limit := bound + k\<rparr>)" "zcis e \<noteq> None"
  let ?e = "e\<lparr>in_limit := bound + k, in_limit_end := ptr_add (in_end e) (min 0 (bound + k))\<rparr>"
  have k: "ptr_diff (in_end e) p = Some (- k)" using i(2) by (auto simp: in_buffer_def intro: ptr_diff_flip)
  show thesis
  proof (rule that [of p ?e k])
    show "InitFrom_bounded ops junk s bound = Some (p, ?e)" using assms(2) i(1) k by (simp add: InitFrom_bounded_def Let_def)
    show "pc_at ?e p k" using i(2,3) i(4) [of "bound + k"] assms(2) by (auto simp: at_pointer_def ctx_ok_def overrun_def)
    show "pc_view ?e p = take (nat bound) (rest s)" using i(5) k by (simp add: ctx_view_def)
  qed (use i in simp_all)
qed

section \<open>Giving back\<close>

text \<open>At the limit, what is ahead is the end of the memory that was obtained from the stream, and what the stream has left.\<close>

lemma at_limit_tail:
  assumes "pc_at e p k" "tight e" "in_limit e = k" "zcis e \<noteq> None"
  shows "overall_limit e \<le> 0" "nat (- overall_limit e) \<le> length (obtained e)"
    "ctx_stream rest e p = last_bytes (nat (- overall_limit e)) (obtained e) @ coming rest e"
    "Ctx_BackUp ops p e = (if 0 < - overall_limit e then StreamBackUp ops (- overall_limit e) e else Some e)"
proof -
  have b: "buffers_ok e" "supply_ok ok rest given e" "in_buffer e p k" "\<not> overrun e k" using assms(1) by (simp_all add: at_pointer_def ctx_ok_def)
  then have p: "p = ptr_add (in_end e) k" "ptr_diff (in_end e) p = Some (- k)" "k \<le> 16" "0 \<le> ptr_index (in_end e) + k"
    by (auto simp: in_buffer_def ptr_diff_eq)
  have mem: "take a (drop b xs) = last_bytes a (take (b + a) xs)" if "b + a \<le> length xs" for a b and xs :: "byte list"
    using that by (simp add: last_bytes_def drop_take)
  have "overall_limit e \<le> 0 \<and> nat (- overall_limit e) \<le> length (obtained e) \<and>
    ctx_stream rest e p = last_bytes (nat (- overall_limit e)) (obtained e) @ coming rest e \<and>
    Ctx_BackUp ops p e = (if 0 < - overall_limit e then StreamBackUp ops (- overall_limit e) e else Some e)"
  proof (cases "in_next e")
    case None
    then obtain j where j: "in_end e = Patch j" "0 \<le> j" "j \<le> 16" "length (in_patch e) = 32" using b(1) by (auto simp: buffers_ok_def)
    have k: "k \<le> 0" using b(4) None by (simp add: overrun_def)
    have size: "in_size e = 0" "overall_limit e = k" using b(2) None assms(2-4) k by (auto simp: supply_ok_def tight_def)
    have jk: "nat (j + k) + nat (- k) = nat j" "nat j \<le> 32" "0 \<le> j + k" using j p(4) k by simp_all
    have "take (nat (- k)) (drop (nat (j + k)) (in_patch e)) = last_bytes (nat (- k)) (take (nat j) (in_patch e))"
      using mem [of "nat (j + k)" "nat (- k)" "in_patch e"] jk j(4) by simp
    then have "ctx_stream rest e p = last_bytes (nat (- k)) (obtained e) @ coming rest e"
      using None j(1) jk(3) p(1,2) k by (simp add: ctx_stream_def after_end_def obtained_def readable_at)
    moreover have "nat (- k) \<le> length (obtained e)" using None j jk by (simp add: obtained_def)
    ultimately show ?thesis using None size p(2) k by (simp add: Ctx_BackUp_def Let_def)
  next
    case (Some q)
    show ?thesis
    proof (cases q)
      case (Chunk i)
      with Some b(1) have c: "in_next e = Some (Chunk 0)" "in_end e = Patch 16" "in_size e = int (length (in_chunk e))" "16 < in_size e"
        by (auto simp: buffers_ok_def)
      have k: "0 < k" "overall_limit e = k - in_size e" using assms(2,3) c(1) by (auto simp: tight_def)
      have n: "nat (- overall_limit e) = length (in_chunk e) - nat k" using k(2) c(3,4) p(3) k(1) by (simp add: nat_diff_distrib)
      have "ctx_stream rest e p = drop (nat k) (in_chunk e) @ coming rest e"
        using c k(1) p(2,3) by (simp add: ctx_stream_def after_end_def)
      moreover have "last_bytes (length (in_chunk e) - nat k) (in_chunk e) = drop (nat k) (in_chunk e)"
        using c(3,4) p(3) by (simp add: last_bytes_def)
      moreover have "obtained e = in_chunk e" using c(1) by (simp add: obtained_def)
      ultimately show ?thesis using c k p(2,3) n by (simp add: Ctx_BackUp_def Let_def)
    next
      case (Patch i)
      with Some b(1) have c: "in_next e = Some (Patch 0)" by (simp add: buffers_ok_def)
      have k: "overall_limit e = k - 16" using assms(2,3) c by (simp add: tight_def)
      let ?R = "case in_end e of Patch _ \<Rightarrow> in_patch e | Chunk _ \<Rightarrow> in_chunk e" and ?j = "ptr_index (in_end e)"
      have R: "readable e (ptr_add (in_end e) n) = drop (nat (?j + n)) ?R" if "0 \<le> ?j + n" for n
        using that by (cases "in_end e") (simp_all add: readable_at)
      have j: "0 \<le> ?j" "?j + 16 \<le> int (length ?R)" using b(1) c by (auto simp: buffers_ok_def split: pointer.splits)
      have E: "readable e (in_end e) = drop (nat ?j) ?R" using R [of 0] j(1) by simp
      have O: "obtained e = take (nat (?j + 16)) ?R" using c by (simp add: obtained_def Let_def)
      have jk: "nat (?j + k) + nat (16 - k) = nat (?j + 16)" using p(3,4) j(1) by simp
      have "take (nat (16 - k)) (drop (nat (?j + k)) ?R) = last_bytes (nat (16 - k)) (obtained e)"
        using mem [of "nat (?j + k)" "nat (16 - k)" ?R] jk j O by simp
      moreover have "ctx_stream rest e p = take (nat (16 - k)) (drop (nat (?j + k)) ?R) @ coming rest e"
      proof (cases "0 \<le> k")
        case True
        have "drop (nat k) (take 16 (drop (nat ?j) ?R)) = take (nat (16 - k)) (drop (nat (?j + k)) ?R)"
          using True p(3) j(1) by (simp add: drop_take nat_diff_distrib nat_add_distrib add.commute)
        moreover have "nat k - min (length ?R - nat ?j) 16 = 0" using True p(3) j by linarith
        ultimately show ?thesis using True c p(2,3) j(2) by (simp add: ctx_stream_def after_end_def E)
      next
        case False
        have "take (nat (- k)) (drop (nat (?j + k)) ?R) @ take 16 (drop (nat ?j) ?R) = take (nat (- k) + 16) (drop (nat (?j + k)) ?R)"
        proof -
          have "nat (?j + k) + nat (- k) = nat ?j" using False p(4) by simp
          then have "drop (nat ?j) ?R = drop (nat (- k)) (drop (nat (?j + k)) ?R)" by (simp add: add.commute)
          then show ?thesis by (simp only: take_add)
        qed
        moreover have "nat (- k) + 16 = nat (16 - k)" using False by simp
        ultimately show ?thesis using False c p(1,2) R [OF p(4)] by (simp add: ctx_stream_def after_end_def E flip: append.assoc)
      qed
      moreover have "nat (16 - k) \<le> length (obtained e)" using O jk j by simp
      ultimately show ?thesis using c k p(2,3) by (simp add: Ctx_BackUp_def Let_def kSlopBytes_def)
    qed
  qed
  then show "overall_limit e \<le> 0" "nat (- overall_limit e) \<le> length (obtained e)"
    "ctx_stream rest e p = last_bytes (nat (- overall_limit e)) (obtained e) @ coming rest e"
    "Ctx_BackUp ops p e = (if 0 < - overall_limit e then StreamBackUp ops (- overall_limit e) e else Some e)" by blast+
qed

lemma BackUp_at_limit:
  assumes "pc_at e p k" "tight e" "in_limit e = k" "zcis e \<noteq> None"
  obtains e' s' where "Ctx_BackUp ops p e = Some e'" "zcis e' = Some s'" "ok s'" "rest s' = ctx_stream rest e p" "last_tag_minus_1 e' = last_tag_minus_1 e"
proof -
  note t = at_limit_tail [OF assms]
  from assms(4) obtain s where s: "zcis e = Some s" by blast
  have "supply_ok ok rest given e" using assms(1) by (simp add: at_pointer_def ctx_ok_def)
  with s obtain x g where x: "ok s" "given s = g @ x" "0 \<le> overall_limit e + int (length x)"
    "\<And>c. c \<le> length x \<Longrightarrow> c \<le> length (obtained e) \<Longrightarrow> last_bytes c (obtained e) = last_bytes c x" by (auto simp: supply_ok_def)
  let ?c = "nat (- overall_limit e)"
  show thesis
  proof (cases "overall_limit e = 0")
    case True
    with t s x(1) show thesis by (intro that [of e s]) (simp_all add: last_bytes_def coming_def)
  next
    case False
    have c: "?c \<le> length x" "0 < ?c" "int ?c = - overall_limit e" using x(3) False t(1) by linarith+
    have l: "length (last_bytes ?c x) = ?c" using c(1) by (simp add: last_bytes_def)
    have "given s = (g @ take (length x - ?c) x) @ last_bytes ?c x" using x(2) by (simp add: last_bytes_def)
    moreover have "last_bytes ?c x \<noteq> []" using l c(2) by auto
    ultimately obtain s' where s': "BackUp ops (int (length (last_bytes ?c x))) s = Some s'" "ok s'" "rest s' = last_bytes ?c x @ rest s"
      by (rule back_upE [OF x(1)])
    have "rest s' = ctx_stream rest e p" using s'(3) t(3) x(4) [OF c(1) t(2)] s by (simp add: coming_def)
    with s' s t(1,4) False l c(3) show thesis
      by (intro that [of "e\<lparr>zcis := Some s', in_chunk := [], overall_limit := 0\<rparr>" s']) (simp_all add: StreamBackUp_def)
  qed
qed

end

section \<open>What the entry points rely on\<close>

text \<open>A reference parser that reads to the end, and tells the ends apart.\<close>

definition reference_ok :: "(nat \<Rightarrow> byte list \<Rightarrow> (UnknownFieldSet \<times> wire_end \<times> byte list) option) \<Rightarrow> bool" where
  "reference_ok ref \<longleftrightarrow> (\<forall>d bs fs w q. ref d bs = Some (fs, w, q) \<longrightarrow> (w = At_end \<longrightarrow> q = []) \<and> w \<noteq> End_tag 1 \<and> w \<noteq> End_tag 2)"

text \<open>An \<open>_InternalParse\<close> that does what the reference parser says, on any context in order.\<close>

definition parser_contract ::
    "('s \<Rightarrow> bool) \<Rightarrow> ('s \<Rightarrow> byte list) \<Rightarrow> ('s \<Rightarrow> byte list) \<Rightarrow> (UnknownFieldSet \<Rightarrow> 'u \<Rightarrow> 'u) \<Rightarrow>
     (nat \<Rightarrow> byte list \<Rightarrow> (UnknownFieldSet \<times> wire_end \<times> byte list) option) \<Rightarrow> ('s, 'u) parser \<Rightarrow> bool" where
  "parser_contract ok rest given add ref parse \<longleftrightarrow> reference_ok ref \<and>
     (\<forall>e p k u. at_pointer ok rest given e p k \<longrightarrow> depths_ok e \<longrightarrow> last_tag_minus_1 e = 0 \<longrightarrow>
        parsed_as ok rest given add (ref (nat (depth e)) (ctx_view rest e p)) e p k u (parse p u e))"

lemma fast_message_ends: "fast_message d bs = Some (fs, w, q) \<Longrightarrow> (w = At_end \<longrightarrow> q = []) \<and> w \<noteq> End_tag 1 \<and> w \<noteq> End_tag 2"
proof (induction "length bs" arbitrary: d bs fs w q rule: less_induct)
  case less
  have two: "GetTagWireType 1 \<noteq> WIRETYPE_END_GROUP" "GetTagWireType 2 \<noteq> WIRETYPE_END_GROUP"
    by (simp_all add: GetTagWireType_def kTagTypeMask_def kTagTypeBits_def wire_types)
  have go: "(w' = At_end \<longrightarrow> q' = []) \<and> w' \<noteq> End_tag 1 \<and> w' \<noteq> End_tag 2" if "fast_message d' bs' = Some (fs', w', q')" "length bs' < length bs" for d' bs' fs' w' q'
    using less.hyps [OF that(2,1)] .
  show ?case
  proof (cases "parse_varint 5 bs")
    case (VarintOk v p)
    from VarintOk parse_varint_shorter [OF VarintOk] less.prems show ?thesis
      by (subst (asm) fast_message.simps) (auto simp: Let_def two split: if_splits option.splits dest: go)
  qed (use less.prems in \<open>auto simp: fast_message.simps [of d bs] split: if_splits\<close>)
qed

context zero_copy_input
begin

abbreviation "pc_contract \<equiv> parser_contract ok rest given"

lemma set_contract: "pc_contract (\<lambda>fs u. u @ fs) fast_message (UnknownGroupParse ops)"
  using set_parser.message_parse fast_message_ends by (auto simp: parser_contract_def reference_ok_def)

lemma lite_contract: "pc_contract add_bytes fast_message (UnknownGroupLiteParse ops)"
  using lite_parser.message_parse fast_message_ends by (auto simp: parser_contract_def reference_ok_def)

text \<open>From a new context.\<close>

lemma contractE:
  assumes "pc_contract add ref parse" "pc_at e p k" "last_tag_minus_1 e = 0"
  obtains (wrong) r u' e' where "parse p u (new_context 100 e) = Some (r, u', e')" "r \<noteq> None \<longrightarrow> last_tag_minus_1 e' \<noteq> 0 \<and> last_tag_minus_1 e' \<noteq> 1"
      "\<And>fs q. ref 100 (pc_view e p) \<noteq> Some (fs, At_end, q)"
  | (right) p' e' k' fs where "parse p u (new_context 100 e) = Some (Some p', add fs u, e')"
      "pc_at e' p' k'" "ref 100 (pc_view e p) = Some (fs, At_end, [])" "last_tag_minus_1 e' = (if in_limit e' = k' then 0 else 1)"
      "in_limit e' - k' = in_limit e - k - int (length (pc_view e p))" "ctx_stream rest e' p' = drop (length (pc_view e p)) (ctx_stream rest e p)"
      "tight e \<longrightarrow> tight e'" "zcis e' = None \<longleftrightarrow> zcis e = None"
proof -
  let ?e = "new_context 100 e"
  have "pc_parsed add (ref 100 (pc_view e p)) ?e p k u (parse p u ?e)"
  proof -
    have "pc_at ?e p k" "depths_ok ?e" "last_tag_minus_1 ?e = 0" "nat (depth ?e) = 100" "pc_view ?e p = pc_view e p"
      using assms(2,3) new_context_ok [of 100 e] by (simp_all add: new_context_depths) (simp_all add: new_context_def)
    with assms(1) show ?thesis unfolding parser_contract_def by metis
  qed
  then obtain r u' e' where r: "parse p u ?e = Some (r, u', e')"
    "case ref 100 (pc_view e p) of
        None \<Rightarrow> pc_lost ?e r e' \<and> (r \<noteq> None \<longrightarrow> last_tag_minus_1 e' \<noteq> 0 \<and> last_tag_minus_1 e' \<noteq> 1)
      | Some (fs, w, q) \<Rightarrow> u' = add fs u \<and> (\<exists>p' k' n. r = Some p' \<and>
          pc_moved n ?e p k (e'\<lparr>last_tag_minus_1 := last_tag_minus_1 ?e\<rparr>) p' k' \<and> pc_view e' p' = q \<and> end_tag_as w e' k')"
    unfolding parsed_as_def by blast
  show thesis
  proof (cases "ref 100 (pc_view e p)")
    case None
    with r show thesis by (intro wrong [of r u' e']) simp_all
  next
    case (Some x)
    obtain fs w q where x: "x = (fs, w, q)" by (cases x)
    with Some r(2) obtain p' k' n where o: "u' = add fs u" "r = Some p'"
      "pc_moved n ?e p k (e'\<lparr>last_tag_minus_1 := last_tag_minus_1 ?e\<rparr>) p' k'" "pc_view e' p' = q" "end_tag_as w e' k'" by auto
    have ends: "(w = At_end \<longrightarrow> q = []) \<and> w \<noteq> End_tag 1 \<and> w \<noteq> End_tag 2"
      using assms(1) Some x unfolding parser_contract_def reference_ok_def by blast
    show thesis
    proof (cases w)
      case At_end
      with ends have q: "q = []" by simp
      have view: "pc_view ?e p = pc_view e p" "ctx_stream rest ?e p = ctx_stream rest e p" "in_limit ?e = in_limit e" "zcis ?e = zcis e" "tight ?e = tight e"
        by (simp_all add: new_context_def)
      have n: "n = length (pc_view e p)" using o(3,4) q view(1) by (simp add: ctx_moved_def)
      have at: "pc_at e' p' k'" using o(3) by (simp add: ctx_moved_def at_pointer_def)
      show thesis
        by (rule right [of p' fs e' k'])
          (use r(1) o Some x At_end q at n view in \<open>simp_all add: ctx_moved_def same_context_def end_tag_as_def\<close>)
    next
      case (End_tag t)
      with o(5) ends have "last_tag_minus_1 e' = t - 1" "t \<noteq> 1" "t \<noteq> 2" by (simp_all add: end_tag_as_def)
      moreover have "t - 1 = c \<Longrightarrow> t = c + 1" for c :: uint32 by (simp add: algebra_simps)
      ultimately have "last_tag_minus_1 e' \<noteq> 0" "last_tag_minus_1 e' \<noteq> 1" by auto
      with r(1) End_tag Some x show thesis by (intro wrong [of r u' e']) simp_all
    next
      case Bad_tag
      with o(5) show thesis by (simp add: end_tag_as_def)
    qed
  qed
qed

lemma zcis_new [simp]: "zcis (new_context n e) = zcis e"
  by (simp add: new_context_def)

lemma flat_merge:
  assumes "pc_contract add ref (internal_parse cls)"
  shows "\<exists>b u'. MergeFromImpl_flat cls junk data flags u = Some (b, u') \<and>
    (case ref 100 data of Some (fs, At_end, _) \<Rightarrow> u' = add fs u \<and> b = CheckFieldPresence cls u' flags | _ \<Rightarrow> \<not> b)"
proof (rule InitFrom_flat_at [of junk data])
  fix p k and e :: "'s EpsCopyInputStream"
  assume i: "InitFrom_flat junk data = (p, e)" "pc_at e p k" "pc_view e p = data" "last_tag_minus_1 e = 0" "in_limit e - k = int (length data)"
  show ?thesis
  proof (rule contractE [OF assms i(2,4), of u])
    fix r u' e'
    assume "internal_parse cls p u (new_context 100 e) = Some (r, u', e')" "r \<noteq> None \<longrightarrow> last_tag_minus_1 e' \<noteq> 0 \<and> last_tag_minus_1 e' \<noteq> 1"
      "\<And>fs q. ref 100 (pc_view e p) \<noteq> Some (fs, At_end, q)"
    with i(1,3) show ?thesis
      by (auto simp: MergeFromImpl_flat_def GetDefaultRecursionLimit_def EndedAtLimit_def split: option.split wire_end.split)
  next
    fix p' e' k' fs
    assume "internal_parse cls p u (new_context 100 e) = Some (Some p', add fs u, e')" "ref 100 (pc_view e p) = Some (fs, At_end, [])"
      "last_tag_minus_1 e' = (if in_limit e' = k' then 0 else 1)" "in_limit e' - k' = in_limit e - k - int (length (pc_view e p))"
    with i(1,3,5) show ?thesis by (simp add: MergeFromImpl_flat_def GetDefaultRecursionLimit_def EndedAtLimit_def)
  qed
qed

lemma stream_merge:
  assumes "pc_contract add ref (internal_parse cls)" "ok s" "int (length (rest s)) < INT_MAX - 16"
  shows "\<exists>b u' z. MergeFromImpl_stream ops cls junk s flags u = Some (b, u', z) \<and>
    (case ref 100 (rest s) of
       Some (fs, At_end, _) \<Rightarrow> u' = add fs u \<and> b = CheckFieldPresence cls u' flags \<and> (\<exists>s'. z = Some s' \<and> ok s')
     | _ \<Rightarrow> \<not> b)"
proof (rule InitFrom_stream_at [OF assms(2,3), of junk])
  fix p k and e :: "'s EpsCopyInputStream"
  assume i: "InitFrom_stream ops junk s = Some (p, e)" "pc_at e p k" "pc_view e p = rest s" "last_tag_minus_1 e = 0" "int (length (rest s)) < in_limit e - k"
    "zcis e \<noteq> None"
  show ?thesis
  proof (rule contractE [OF assms(1) i(2,4), of u])
    fix r u' e'
    assume "internal_parse cls p u (new_context 100 e) = Some (r, u', e')" "r \<noteq> None \<longrightarrow> last_tag_minus_1 e' \<noteq> 0 \<and> last_tag_minus_1 e' \<noteq> 1"
      "\<And>fs q. ref 100 (pc_view e p) \<noteq> Some (fs, At_end, q)"
    with i(1,3) show ?thesis
      by (auto simp: MergeFromImpl_stream_def GetDefaultRecursionLimit_def EndedAtEndOfStream_def split: option.split wire_end.split)
  next
    fix p' e' k' fs
    assume r: "internal_parse cls p u (new_context 100 e) = Some (Some p', add fs u, e')" "ref 100 (pc_view e p) = Some (fs, At_end, [])"
      "last_tag_minus_1 e' = (if in_limit e' = k' then 0 else 1)" "in_limit e' - k' = in_limit e - k - int (length (pc_view e p))"
      "pc_at e' p' k'" "zcis e' = None \<longleftrightarrow> zcis e = None"
    then have "last_tag_minus_1 e' = 1" using i(3,5) by auto
    moreover obtain s' where "zcis e' = Some s'" "ok s'"
      using r(5,6) i(6) by (auto simp: at_pointer_def ctx_ok_def supply_ok_def split: option.splits)
    ultimately show ?thesis using r(1,2) i(1,3) by (simp add: MergeFromImpl_stream_def GetDefaultRecursionLimit_def EndedAtEndOfStream_def)
  qed
qed

lemma bounded_merge:
  assumes "pc_contract add ref (internal_parse cls)" "ok s" "0 \<le> bound"
  shows "case ref 100 (take (nat bound) (rest s)) of
      Some (fs, At_end, _) \<Rightarrow>
        if bound \<le> int (length (rest s))
        then \<exists>s'. MergeFromImpl_bounded ops cls junk s bound flags u = Some (CheckFieldPresence cls (add fs u) flags, add fs u, Some s') \<and>
          ok s' \<and> rest s' = drop (nat bound) (rest s)
        else \<forall>u' z. MergeFromImpl_bounded ops cls junk s bound flags u \<noteq> Some (True, u', z)
    | _ \<Rightarrow> \<forall>u' z. MergeFromImpl_bounded ops cls junk s bound flags u \<noteq> Some (True, u', z)"
proof (rule InitFrom_bounded_at [OF assms(2,3), of junk])
  fix p k and e :: "'s EpsCopyInputStream"
  assume i: "InitFrom_bounded ops junk s bound = Some (p, e)" "pc_at e p k" "pc_view e p = take (nat bound) (rest s)" "ctx_stream rest e p = rest s"
    "last_tag_minus_1 e = 0" "in_limit e - k = bound" "tight e" "zcis e \<noteq> None"
  have kept: "last_tag_minus_1 e2 = last_tag_minus_1 e1" if "Ctx_BackUp ops q e1 = Some e2" for q and e1 e2 :: "'s ParseContext"
    using that by (auto simp: Ctx_BackUp_def StreamBackUp_def Let_def split: bind_splits if_splits)
  show ?thesis
  proof (rule contractE [OF assms(1) i(2,5), of u])
    fix r u' e'
    assume r: "internal_parse cls p u (new_context 100 e) = Some (r, u', e')" "r \<noteq> None \<longrightarrow> last_tag_minus_1 e' \<noteq> 0 \<and> last_tag_minus_1 e' \<noteq> 1"
      "\<And>fs q. ref 100 (pc_view e p) \<noteq> Some (fs, At_end, q)"
    have "MergeFromImpl_bounded ops cls junk s bound flags u \<noteq> Some (True, u'', z)" for u'' z
      using r(1,2) i(1) kept by (auto simp: MergeFromImpl_bounded_def GetDefaultRecursionLimit_def EndedAtLimit_def split: option.splits bind_splits)
    with r(3) i(3) show ?thesis by (auto split: option.split wire_end.split)
  next
    fix p' e' k' fs
    assume r: "internal_parse cls p u (new_context 100 e) = Some (Some p', add fs u, e')" "pc_at e' p' k'" "ref 100 (pc_view e p) = Some (fs, At_end, [])"
      "last_tag_minus_1 e' = (if in_limit e' = k' then 0 else 1)" "in_limit e' - k' = in_limit e - k - int (length (pc_view e p))"
      "ctx_stream rest e' p' = drop (length (pc_view e p)) (ctx_stream rest e p)" "tight e \<longrightarrow> tight e'" "zcis e' = None \<longleftrightarrow> zcis e = None"
    show ?thesis
    proof (cases "bound \<le> int (length (rest s))")
      case True
      then have n: "length (pc_view e p) = nat bound" using i(3) by simp
      then have l: "in_limit e' = k'" using r(5) i(6) assms(3) by simp
      have t: "tight e'" "zcis e' \<noteq> None" using r(7,8) i(7,8) by simp_all
      obtain e2 s' where b: "Ctx_BackUp ops p' e' = Some e2" "zcis e2 = Some s'" "ok s'" "rest s' = ctx_stream rest e' p'" "last_tag_minus_1 e2 = last_tag_minus_1 e'"
        by (rule BackUp_at_limit [OF r(2) t(1) l t(2)])
      have "MergeFromImpl_bounded ops cls junk s bound flags u = Some (CheckFieldPresence cls (add fs u) flags, add fs u, Some s')"
        using i(1) r(1,4) l b by (simp add: MergeFromImpl_bounded_def GetDefaultRecursionLimit_def EndedAtLimit_def)
      moreover have "rest s' = drop (nat bound) (rest s)" using b(4) r(6) i(4) n by simp
      ultimately show ?thesis using True b(3) r(3) i(3) by simp
    next
      case False
      then have "in_limit e' \<noteq> k'" using r(5) i(3,6) by auto
      then have "MergeFromImpl_bounded ops cls junk s bound flags u \<noteq> Some (True, u'', z)" for u'' z
        using r(1,4) i(1) kept by (auto simp: MergeFromImpl_bounded_def GetDefaultRecursionLimit_def EndedAtLimit_def split: option.splits bind_splits)
      with False r(3) i(3) show ?thesis by simp
    qed
  qed
qed

end

text \<open>C2. Parsing a message, whose generated parser does what a reference parser of byte lists says, from a string, a stream,
  or the next \<open>bound\<close> bytes of a stream, over any stream and any chunks: it succeeds exactly when those bytes are a message to
  their very end, at most a hundred groups deep, and the required fields are there, and then the message got exactly the fields, in place
  of its old contents or behind them.
  From a string and from a stream it always returns. A message of \<open>bound\<close> bytes leaves the stream exactly behind them:
  what was read ahead is given back; and it is never reported where the stream ends too early. (For a bound within 16 bytes of
  \<open>INT_MAX\<close> and a first chunk shorter than that, the code's sum overflows; \<open>InitFrom_bounded\<close> is the sum itself.)\<close>

theorem message_entry_points:
  assumes "zero_copy_input ops ok rest given idle" "parser_contract ok rest given add ref (internal_parse cls)"
  shows "(\<forall>junk data flags u. \<exists>b u'. ParseFrom_flat cls junk flags data u = Some (b, u') \<and>
      (case ref 100 data of Some (fs, At_end, _) \<Rightarrow> u' = add fs (cleared cls flags u) \<and> b = CheckFieldPresence cls u' flags | _ \<Rightarrow> \<not> b)) \<and>
    (\<forall>s junk flags u. ok s \<longrightarrow> int (length (rest s)) < INT_MAX - 16 \<longrightarrow>
      (\<exists>b u' z. ParseFrom_stream ops cls junk flags s u = Some (b, u', z) \<and>
        (case ref 100 (rest s) of
           Some (fs, At_end, _) \<Rightarrow> u' = add fs (cleared cls flags u) \<and> b = CheckFieldPresence cls u' flags \<and> (\<exists>s'. z = Some s' \<and> ok s')
         | _ \<Rightarrow> \<not> b))) \<and>
    (\<forall>s junk bound flags u. ok s \<longrightarrow> 0 \<le> bound \<longrightarrow>
      (case ref 100 (take (nat bound) (rest s)) of
         Some (fs, At_end, _) \<Rightarrow>
           if bound \<le> int (length (rest s))
           then \<exists>s'. ParseFrom_bounded ops cls junk flags s bound u = Some (CheckFieldPresence cls (add fs (cleared cls flags u)) flags, add fs (cleared cls flags u), Some s') \<and>
             ok s' \<and> rest s' = drop (nat bound) (rest s)
           else \<forall>u' z. ParseFrom_bounded ops cls junk flags s bound u \<noteq> Some (True, u', z)
       | _ \<Rightarrow> \<forall>u' z. ParseFrom_bounded ops cls junk flags s bound u \<noteq> Some (True, u', z)))"
  unfolding ParseFrom_flat_def ParseFrom_stream_def ParseFrom_bounded_def
  by (intro conjI allI impI zero_copy_input.flat_merge [OF assms] zero_copy_input.stream_merge [OF assms] zero_copy_input.bounded_merge [OF assms])

text \<open>A set of unknown fields as a message: two fields of an array, the second one behind the bound.\<close>

definition set_message :: "'s ZeroCopyInputStream \<Rightarrow> ('s, UnknownFieldSet) message_class" where
  "set_message ops = \<lparr>internal_parse = UnknownGroupParse ops, clear_message = (\<lambda>_. []), is_initialized = (\<lambda>_. True)\<rparr>"

theorem message_entry_points_witness:
  "\<exists>s'. ParseFrom_bounded array_stream (set_message array_stream) 0 kParse (sample [8, 0x96, 1, 16, 5]) 3 [UnknownVarint 9 9] =
    Some (True, [UnknownVarint 1 150], Some s') \<and> array_rest s' = [16, 5]"
proof -
  let ?d = "[8, 0x96, 1, 16, 5] :: byte list"
  have ref: "fast_message 100 [8, 0x96, 1] = Some ([UnknownVarint 1 150], At_end, [])" by code_simp
  have c: "parser_contract array_ok array_rest array_given (\<lambda>fs u. u @ fs) fast_message (internal_parse (set_message array_stream))"
    using array_input.set_contract by (simp add: set_message_def)
  have s: "array_ok (sample ?d)" "array_rest (sample ?d) = ?d" using sample_ok [of ?d] by simp_all
  have t: "take (nat 3) ?d = [8, 0x96, 1]" "drop (nat 3) ?d = [16, 5]" by (simp_all add: numeral_3_eq_3)
  have u: "cleared (set_message array_stream) kParse x = []" for x by (simp add: cleared_def kParse_def set_message_def)
  from message_entry_points [OF array_input.zero_copy_input_axioms c, THEN conjunct2, THEN conjunct2, rule_format, OF s(1), of 3 0 kParse "[UnknownVarint 9 9]"]
  show ?thesis unfolding s(2) t ref u by (auto simp: CheckFieldPresence_def set_message_def)
qed

end
