(* ===== verification/Parse_Properties.thy ===== *)
theory Parse_Properties
  imports Message_Lite
begin

text \<open>
  What the users of the parser of messages rely on: all of its readers of varints agree with one reference, the two parsers
  of unknown fields with a reference parser of byte lists, that one with the parser of \<open>CodedInputStream\<close>, and what the
  serialisers write is read back.
\<close>

section \<open>Two parsers of unknown fields\<close>

lemma small_size: "int v \<le> INT_MAX - 16 \<Longrightarrow> sint (of_nat v :: uint32) = int v"
  by (rule sint_small) simp

lemma fast_scalar_wire: "fast_scalar tag bs = Some (f, q) \<Longrightarrow> wire_scalar tag bs = Some (f, q)"
proof -
  assume a: "fast_scalar tag bs = Some (f, q)"
  let ?n = "GetTagFieldNumber tag" and ?t = "GetTagWireType tag"
  show ?thesis
  proof (cases "?n \<noteq> 0 \<and> ?t = WIRETYPE_LENGTH_DELIMITED")
    case True
    with a obtain s where s: "fast_delimited bs = Some (s, q)" "f = UnknownLengthDelimited ?n s" by (auto simp: fast_scalar_def Let_def)
    then obtain v p where v: "parse_varint 5 bs = VarintOk v p" "int v \<le> INT_MAX - 16" "v \<le> length p" "s = take v p" "q = drop v p"
      by (auto simp: fast_delimited_def split: varint_read.splits if_splits)
    with True s(2) parse_varint_more [OF v(1), of 10] small_size [OF v(2)] show ?thesis by (simp add: wire_scalar_def Let_def)
  next
    case False
    then have "fast_scalar tag bs = wire_scalar tag bs" unfolding fast_scalar_def wire_scalar_def Let_def by (intro if_cong refl) simp_all
    with a show ?thesis by simp
  qed
qed

lemma fast_message_wire: "fast_message d bs = Some (fs, w, q) \<Longrightarrow> wire_message d bs = Some (fs, w, q)"
proof (induction "length bs" arbitrary: d bs fs w q rule: less_induct)
  case less
  show ?case
  proof (cases "bs = []")
    case True
    with less.prems show ?thesis by simp
  next
    case False
    show ?thesis
    proof (cases "parse_varint 5 bs")
      case (VarintOk v p)
      let ?tag = "of_nat v :: uint32"
      note p = parse_varint_shorter [OF VarintOk]
      have go: "wire_message d' bs' = Some (fs', w', q')" if "fast_message d' bs' = Some (fs', w', q')" "length bs' < length bs" for d' bs' fs' w' q'
        using less.hyps [OF that(2,1)] .
      note T = wire_message_tag [OF False parse_varint_more [OF VarintOk, of 10, simplified] refl, of d]
      consider (stop) "?tag = 0 \<or> GetTagWireType ?tag = WIRETYPE_END_GROUP"
        | (group) "\<not> (?tag = 0 \<or> GetTagWireType ?tag = WIRETYPE_END_GROUP)" "GetTagWireType ?tag = WIRETYPE_START_GROUP"
        | (scalar) "\<not> (?tag = 0 \<or> GetTagWireType ?tag = WIRETYPE_END_GROUP)" "GetTagWireType ?tag \<noteq> WIRETYPE_START_GROUP" by blast
      then show ?thesis
      proof cases
        case stop
        with fast_message_tag(1) [OF VarintOk refl stop, of d] less.prems T show ?thesis by (simp only: if_True)
      next
        case group
        then have t: "?tag \<noteq> 0" by blast
        from less.prems fast_message_tag(2) [OF VarintOk refl t group(2), of d] obtain gs t r rs where
          g: "GetTagFieldNumber ?tag \<noteq> 0" "d \<noteq> 0" "fast_message (d - 1) p = Some (gs, End_tag t, r)" "t = MakeTag (GetTagFieldNumber ?tag) WIRETYPE_END_GROUP"
            "fast_message d r = Some (rs, w, q)" "fs = UnknownGroup (GetTagFieldNumber ?tag) gs # rs"
          by (auto split: if_splits option.splits wire_end.splits)
        have "length r < length bs" using fast_message_shorter [OF g(3)] p by simp
        from go [OF g(3) p] go [OF g(5) this] g T group show ?thesis by (simp only: if_False if_True simp_thms option.case prod.case wire_end.case) simp
      next
        case scalar
        then have t: "?tag \<noteq> 0" "GetTagWireType ?tag \<noteq> WIRETYPE_END_GROUP" by blast+
        from less.prems fast_message_tag(3) [OF VarintOk refl t(1) scalar(2) t(2), of d] obtain f r rs where
          s: "fast_scalar ?tag p = Some (f, r)" "fast_message d r = Some (rs, w, q)" "fs = f # rs" by (auto split: option.splits)
        have "length r < length bs" using fast_scalar_shorter [OF s(1)] p by simp
        from go [OF s(2) this] s fast_scalar_wire [OF s(1)] T scalar show ?thesis by (simp only: if_False simp_thms option.case prod.case) simp
      qed
    qed (use less.prems False in \<open>simp_all add: fast_message.simps [of d bs]\<close>)
  qed
qed

text \<open>Strings that the faster parser can read.\<close>

fun short_strings :: "UnknownFieldSet \<Rightarrow> bool" where
  "short_strings [] = True"
| "short_strings (UnknownLengthDelimited n s # fs) = (int (length s) \<le> INT_MAX - 16 \<and> short_strings fs)"
| "short_strings (UnknownGroup n g # fs) = (short_strings g \<and> short_strings fs)"
| "short_strings (UnknownVarint n v # fs) = short_strings fs"
| "short_strings (UnknownFixed32 n v # fs) = short_strings fs"
| "short_strings (UnknownFixed64 n v # fs) = short_strings fs"

lemma parse_written_5: "parse_varint 5 (varint_bytes (unat (v :: uint32)) @ r) = VarintOk (unat v) r"
proof (rule parse_varint_bytes)
  have "unat v < 2 ^ 32" using unsigned_less [of v, where 'a = nat] by simp
  then show "unat v < 128 ^ 5" by simp
qed simp

lemma fast_tag_written: "parse_varint 5 (WriteTagToArray n w @ r) = VarintOk (unat (MakeTag n w)) r"
  by (simp add: WriteTagToArray_def varint_arrays parse_written_5)

lemma fast_message_written:
  assumes "number_ok n" "w < 8"
  shows "w = WIRETYPE_END_GROUP \<Longrightarrow> fast_message d (WriteTagToArray n w @ r) = Some ([], End_tag (MakeTag n w), r)"
    "w = WIRETYPE_START_GROUP \<Longrightarrow> d \<noteq> 0 \<Longrightarrow> fast_message d (WriteTagToArray n w @ r) =
       (case fast_message (d - 1) r of
           Some (g, End_tag t, q) \<Rightarrow>
             if t = MakeTag n WIRETYPE_END_GROUP
             then map_option (\<lambda>(fs, e, r). (UnknownGroup n g # fs, e, r)) (fast_message d q) else None
         | _ \<Rightarrow> None)"
    "w \<noteq> WIRETYPE_END_GROUP \<Longrightarrow> w \<noteq> WIRETYPE_START_GROUP \<Longrightarrow> fast_message d (WriteTagToArray n w @ r) =
      (case fast_scalar (MakeTag n w) r of
         None \<Rightarrow> None
       | Some (f, q) \<Rightarrow> map_option (\<lambda>(fs, e, r). (f # fs, e, r)) (fast_message d q))"
proof -
  have n: "n \<noteq> 0" "n < 2 ^ 29" using assms(1) by (simp_all add: number_ok_def)
  note parts = MakeTag_parts [OF n(2) assms(2)]
  have t: "MakeTag n w \<noteq> 0" using parts(1) n(1) by (auto simp: GetTagFieldNumber_def)
  have v: "MakeTag n w = of_nat (unat (MakeTag n w))" by simp
  note T = fast_message_tag [OF fast_tag_written v, unfolded parts]
  show "w = WIRETYPE_END_GROUP \<Longrightarrow> fast_message d (WriteTagToArray n w @ r) = Some ([], End_tag (MakeTag n w), r)"
    by (rule T(1)) simp
  show "w = WIRETYPE_START_GROUP \<Longrightarrow> d \<noteq> 0 \<Longrightarrow> fast_message d (WriteTagToArray n w @ r) =
       (case fast_message (d - 1) r of
           Some (g, End_tag t, q) \<Rightarrow>
             if t = MakeTag n WIRETYPE_END_GROUP
             then map_option (\<lambda>(fs, e, r). (UnknownGroup n g # fs, e, r)) (fast_message d q) else None
         | _ \<Rightarrow> None)"
    using T(2) [OF t] n(1) by simp
  show "w \<noteq> WIRETYPE_END_GROUP \<Longrightarrow> w \<noteq> WIRETYPE_START_GROUP \<Longrightarrow> fast_message d (WriteTagToArray n w @ r) =
      (case fast_scalar (MakeTag n w) r of
         None \<Rightarrow> None
       | Some (f, q) \<Rightarrow> map_option (\<lambda>(fs, e, r). (f # fs, e, r)) (fast_message d q))"
    using T(3) [OF t] by simp
qed

lemma fast_scalar_written:
  assumes "number_ok n"
  shows "fast_scalar (MakeTag n WIRETYPE_VARINT) (WriteVarint64ToArray v @ r) = Some (UnknownVarint n v, r)"
    "fast_scalar (MakeTag n WIRETYPE_FIXED32) (le_bytes 4 (unat a) @ r) = Some (UnknownFixed32 n a, r)"
    "fast_scalar (MakeTag n WIRETYPE_FIXED64) (le_bytes 8 (unat b) @ r) = Some (UnknownFixed64 n b, r)"
    "int (length s) \<le> INT_MAX - 16 \<Longrightarrow>
      fast_scalar (MakeTag n WIRETYPE_LENGTH_DELIMITED) (WriteVarint32ToArray (of_nat (length s)) @ s @ r) = Some (UnknownLengthDelimited n s, r)"
proof -
  have n: "n \<noteq> 0" "n < 2 ^ 29" using assms by (simp_all add: number_ok_def)
  note parts = wire_type_bounds [THEN MakeTag_parts(1) [OF n(2)]] wire_type_bounds [THEN MakeTag_parts(2) [OF n(2)]]
  show "fast_scalar (MakeTag n WIRETYPE_VARINT) (WriteVarint64ToArray v @ r) = Some (UnknownVarint n v, r)"
    using n(1) by (simp add: fast_scalar_def parts varint_arrays parse_written)
  show "fast_scalar (MakeTag n WIRETYPE_FIXED32) (le_bytes 4 (unat a) @ r) = Some (UnknownFixed32 n a, r)"
    using n(1) by (simp add: fast_scalar_def parts le_word_back)
  show "fast_scalar (MakeTag n WIRETYPE_FIXED64) (le_bytes 8 (unat b) @ r) = Some (UnknownFixed64 n b, r)"
    using n(1) by (simp add: fast_scalar_def parts le_word_back)
  show "fast_scalar (MakeTag n WIRETYPE_LENGTH_DELIMITED) (WriteVarint32ToArray (of_nat (length s)) @ s @ r) = Some (UnknownLengthDelimited n s, r)"
    if "int (length s) \<le> INT_MAX - 16"
  proof -
    have "unat (of_nat (length s) :: uint32) = length s" using that by (simp add: unat_of_nat)
    then have p: "parse_varint 5 (WriteVarint32ToArray (of_nat (length s)) @ s @ r) = VarintOk (length s) (s @ r)"
      using parse_written_5 [of "of_nat (length s)" "s @ r"] by (simp add: varint_arrays)
    show ?thesis using n(1) that by (simp add: fast_scalar_def fast_delimited_def parts p)
  qed
qed

lemma fast_message_bytes:
  "wire_ok d fs \<Longrightarrow> short_strings fs \<Longrightarrow> fast_message d (fields_bytes fs @ r) = map_option (\<lambda>(gs, e, q). (fs @ gs, e, q)) (fast_message d r)"
proof (induction fs arbitrary: d r rule: fields_bytes.induct)
  case 1
  then show ?case by (simp add: option.map_ident case_prod_beta')
next
  case (6 n g fs)
  then have n: "number_ok n" "d \<noteq> 0" "wire_ok (d - 1) g" "wire_ok d fs" "short_strings g" "short_strings fs" by simp_all
  let ?rest = "fields_bytes fs @ r"
  have "fast_message (d - 1) (fields_bytes g @ WriteTagToArray n WIRETYPE_END_GROUP @ ?rest) =
      Some (g, End_tag (MakeTag n WIRETYPE_END_GROUP), ?rest)"
    using 6(1) [OF n(3,5)] by (simp add: fast_message_written(1) [OF n(1) wire_type_bounds(6)])
  then show ?case
    using 6(2) [OF n(4,6)]
    by (simp add: fast_message_written(2) [OF n(1) wire_type_bounds(5) refl n(2)] option.map_comp comp_def case_prod_beta')
qed (use wire_type_distinct in \<open>simp_all add: fast_message_written(3) fast_scalar_written wire_type_bounds option.map_comp comp_def case_prod_beta'\<close>)

section \<open>Varints\<close>

lemma parse_varint_step:
  "0 < k \<Longrightarrow> parse_varint k (b # bs) =
     (if b < 128 then VarintOk (unat b) bs else map_varint (\<lambda>v. unat b - 128 + 128 * v) (parse_varint (k - 1) bs))"
  by (cases k) simp_all

text \<open>C19. The readers of varints in memory, the one-byte and two-byte shortcuts, the loops that subtract the continuation bits
  afterwards, and \<open>ParseBigVarint\<close>, which decodes two bytes at once, agree with one reference: a varint has at most ten
  bytes, a tag or a length at most five, a 32-bit value is the low half of a 64-bit one, a length above
  \<open>INT_MAX - 16\<close> is refused, and each returns the number of bytes it used.\<close>

theorem varint_readers_agree:
  assumes "10 \<le> length bs"
  shows "VarintParse64 bs = Some (read_as (parse_varint 10 bs) bs (\<lambda>v. Some (of_nat v))) \<and>
    VarintParse32 bs = Some (read_as (parse_varint 10 bs) bs (\<lambda>v. Some (of_nat v))) \<and>
    ParseBigVarint bs = VarintParse64 bs \<and>
    Ctx_ReadTag bs = Some (read_as (parse_varint 5 bs) bs (\<lambda>v. Some (of_nat v))) \<and>
    ReadSize bs = Some (read_as (parse_varint 5 bs) bs (\<lambda>v. if int v \<le> INT_MAX - 16 then Some (int v) else None))"
proof -
  have five: "5 \<le> length bs" using assms by simp
  show ?thesis
    using VarintParse64_parse [OF assms] VarintParse32_parse [OF assms] ParseBigVarint_parse [OF assms] Ctx_ReadTag_parse [OF five] ReadSize_parse [OF five]
    by blast
qed

text \<open>A size one above the greatest, and a varint whose tenth byte ends it.\<close>

theorem varint_readers_agree_witness:
  "ReadSize [0xF0, 0xFF, 0xFF, 0xFF, 7, 0, 0, 0, 0, 0] = Some None \<and> ReadSize [0xEF, 0xFF, 0xFF, 0xFF, 7, 0, 0, 0, 0, 0] = Some (Some (5, 2147483631)) \<and>
   ParseBigVarint [0x81, 0x80, 0x80, 0x80, 0x80, 0x80, 0x80, 0x80, 0x80, 1] = Some (Some (10, 0x8000000000000001))"
proof -
  have l: "10 \<le> length [0xF0, 0xFF, 0xFF, 0xFF, 7, 0, 0, 0, 0, 0 :: byte]" "10 \<le> length [0xEF, 0xFF, 0xFF, 0xFF, 7, 0, 0, 0, 0, 0 :: byte]"
    "10 \<le> length [0x81, 0x80, 0x80, 0x80, 0x80, 0x80, 0x80, 0x80, 0x80, 1 :: byte]" by simp_all
  have "ReadSize [0xF0, 0xFF, 0xFF, 0xFF, 7, 0, 0, 0, 0, 0] = Some None"
    using varint_readers_agree [OF l(1)] by (elim conjE) (simp add: read_as_def parse_varint_step)
  moreover have "ReadSize [0xEF, 0xFF, 0xFF, 0xFF, 7, 0, 0, 0, 0, 0] = Some (Some (5, 2147483631))"
    using varint_readers_agree [OF l(2)] by (elim conjE) (simp add: read_as_def parse_varint_step)
  moreover have "ParseBigVarint [0x81, 0x80, 0x80, 0x80, 0x80, 0x80, 0x80, 0x80, 0x80, 1] = Some (Some (10, 0x8000000000000001))"
    using varint_readers_agree [OF l(3)] by (elim conjE) (simp add: read_as_def parse_varint_step)
  ultimately show ?thesis by blast
qed

section \<open>Unknown fields\<close>

text \<open>C3. The parsers of unknown fields, into a set and into a string, over any stream, wherever its chunks, the patch buffer and
  the limit cut the bytes, do what a parser of byte lists says: they add exactly the fields up to the limit, the end of the
  stream or the tag that ends a group; they leave the input behind them, with the tag or the kind of end
  recorded; a group may be as deep as the budget allows, and depth and limit are as before; and on anything else they end with
  a null pointer, or with one behind the limit or the end.\<close>

theorem fast_parser_reference:
  assumes "zero_copy_input ops ok rest given idle" "at_pointer ok rest given e p k" "depths_ok e" "last_tag_minus_1 e = 0"
  shows "parsed_as ok rest given (\<lambda>fs u. u @ fs) (fast_message (nat (depth e)) (ctx_view rest e p)) e p k u (UnknownGroupParse ops p u e) \<and>
    parsed_as ok rest given add_bytes (fast_message (nat (depth e)) (ctx_view rest e p)) e p k s (UnknownGroupLiteParse ops p s e)"
  using zero_copy_input.set_contract [OF assms(1)] zero_copy_input.lite_contract [OF assms(1)] assms(2-4)
  unfolding parser_contract_def by blast

text \<open>A group in an array, with a length that is longer than it has to be.\<close>

theorem fast_parser_reference_witness:
  "\<exists>p e r e1 r' e2. InitFrom_flat 0 [11, 18, 0x81, 0, 7, 12] = (p, e :: ArrayInputStream EpsCopyInputStream) \<and>
    UnknownGroupParse array_stream p [] (new_context 100 e) = Some (r, [UnknownGroup 1 [UnknownLengthDelimited 2 [7]]], e1) \<and>
    UnknownGroupLiteParse array_stream p (Some []) (new_context 100 e) = Some (r', Some [11, 18, 1, 7, 12], e2)"
proof -
  let ?d = "[11, 18, 0x81, 0, 7, 12] :: byte list" and ?fs = "[UnknownGroup 1 [UnknownLengthDelimited 2 [7]]]"
  have ref: "fast_message (nat 100) ?d = Some (?fs, At_end, [])" "fields_bytes ?fs = [11, 18, 1, 7, 12]" by code_simp+
  obtain p k and e :: "ArrayInputStream EpsCopyInputStream" where i: "InitFrom_flat 0 ?d = (p, e)" "at_pointer array_ok array_rest array_given e p k"
    "ctx_view array_rest e p = ?d" "last_tag_minus_1 e = 0" by (rule array_input.InitFrom_flat_at)
  have at: "at_pointer array_ok array_rest array_given (new_context 100 e) p k" "depths_ok (new_context 100 e)" "last_tag_minus_1 (new_context 100 e) = 0"
    "depth (new_context 100 e) = 100" "ctx_view array_rest (new_context 100 e) p = ?d"
    using i(2-4) new_context_ok [of 100 e] by (simp_all add: new_context_depths) (simp_all add: new_context_def)
  from fast_parser_reference [OF array_input.zero_copy_input_axioms at(1-3), of "[]" "Some []", unfolded at(4,5) ref(1)] i(1) ref(2)
  show ?thesis by (auto simp: parsed_as_def add_bytes_def)
qed

section \<open>Messages\<close>

definition lite_message :: "'s ZeroCopyInputStream \<Rightarrow> ('s, byte list option) message_class" where
  "lite_message ops = \<lparr>internal_parse = UnknownGroupLiteParse ops, clear_message = (\<lambda>_. Some []), is_initialized = (\<lambda>_. True)\<rparr>"

lemma flat_set:
  assumes "zero_copy_input ops ok rest given idle"
  shows "\<exists>b u'. MergeFromImpl_flat (set_message ops) junk data flags u = Some (b, u') \<and>
    (case fast_message 100 data of Some (fs, At_end, _) \<Rightarrow> u' = u @ fs \<and> b | _ \<Rightarrow> \<not> b)"
proof -
  have "parser_contract ok rest given (\<lambda>fs u. u @ fs) fast_message (internal_parse (set_message ops))"
    using zero_copy_input.set_contract [OF assms] by (simp add: set_message_def)
  from zero_copy_input.flat_merge [OF assms this, of junk data flags u] show ?thesis
    by (simp add: CheckFieldPresence_def set_message_def cong: option.case_cong wire_end.case_cong)
qed

lemma flat_lite:
  assumes "zero_copy_input ops ok rest given idle"
  shows "\<exists>b u'. MergeFromImpl_flat (lite_message ops) junk data flags u = Some (b, u') \<and>
    (case fast_message 100 data of Some (fs, At_end, _) \<Rightarrow> u' = add_bytes fs u \<and> b | _ \<Rightarrow> \<not> b)"
proof -
  have "parser_contract ok rest given add_bytes fast_message (internal_parse (lite_message ops))"
    using zero_copy_input.lite_contract [OF assms] by (simp add: lite_message_def)
  from zero_copy_input.flat_merge [OF assms this, of junk data flags u] show ?thesis
    by (simp add: CheckFieldPresence_def lite_message_def cong: option.case_cong wire_end.case_cong)
qed

text \<open>C12. What the serialiser of a set of unknown fields writes, the parser of messages reads back, when the wire can carry the set and
  no string is longer than the parser allows; its lite variant gets those bytes themselves. What the parser of messages accepts,
  the parser over a \<open>CodedInputStream\<close> accepts too, with the same fields, but not the other way round: it also takes tags of
  more than five bytes.\<close>

theorem two_parsers_agree:
  assumes "zero_copy_input ops ok rest given idle"
  shows "(wire_ok 100 fs \<longrightarrow> short_strings fs \<longrightarrow>
      MergeFromImpl_flat (set_message ops) junk (fields_bytes fs) flags u = Some (True, u @ fs) \<and>
      MergeFromImpl_flat (lite_message ops) junk (fields_bytes fs) flags (Some s) = Some (True, Some (s @ fields_bytes fs))) \<and>
    (int (length data) \<le> INT_MAX \<longrightarrow> MergeFromImpl_flat (set_message ops) junk data flags u = Some (True, u') \<longrightarrow>
      (\<exists>gs. u' = u @ gs \<and> UnknownFieldSet_ParseFromArray data old = Some (True, gs))) \<and>
    UnknownFieldSet_ParseFromArray [0x88, 0x80, 0x80, 0x80, 0x80, 0, 5] old = Some (True, [UnknownVarint 1 5]) \<and>
    (\<exists>v. MergeFromImpl_flat (set_message ops) junk [0x88, 0x80, 0x80, 0x80, 0x80, 0, 5] flags u = Some (False, v))"
proof (intro conjI impI)
  assume w: "wire_ok 100 fs" "short_strings fs"
  then have ref: "fast_message 100 (fields_bytes fs) = Some (fs, At_end, [])" using fast_message_bytes [OF w, of "[]"] by simp
  with flat_set [OF assms, of junk "fields_bytes fs" flags u]
  show "MergeFromImpl_flat (set_message ops) junk (fields_bytes fs) flags u = Some (True, u @ fs)" by auto
  from ref flat_lite [OF assms, of junk "fields_bytes fs" flags "Some s"]
  show "MergeFromImpl_flat (lite_message ops) junk (fields_bytes fs) flags (Some s) = Some (True, Some (s @ fields_bytes fs))"
    by (auto simp: add_bytes_def)
next
  assume l: "int (length data) \<le> INT_MAX" and m: "MergeFromImpl_flat (set_message ops) junk data flags u = Some (True, u')"
  have "\<exists>gs q. fast_message 100 data = Some (gs, At_end, q) \<and> u' = u @ gs"
  proof (cases "fast_message 100 data")
    case None
    with m flat_set [OF assms, of junk data flags u] show ?thesis by simp
  next
    case (Some x)
    obtain gs w q where "x = (gs, w, q)" by (cases x)
    with Some m flat_set [OF assms, of junk data flags u] show ?thesis by (cases w) auto
  qed
  then obtain gs q where g: "fast_message 100 data = Some (gs, At_end, q)" "u' = u @ gs" by blast
  have "parsed_set 100 data = Some gs" using fast_message_wire [OF g(1)] by (simp add: parsed_set_def)
  with ParseFromArray_parsed [OF l refl, of old] g(2)
  show "\<exists>gs. u' = u @ gs \<and> UnknownFieldSet_ParseFromArray data old = Some (True, gs)" by simp
next
  let ?d = "[0x88, 0x80, 0x80, 0x80, 0x80, 0, 5] :: byte list"
  have "parsed_set 100 ?d = Some [UnknownVarint 1 5]" by code_simp
  with ParseFromArray_parsed [of ?d "parsed_set 100 ?d" old] show "UnknownFieldSet_ParseFromArray ?d old = Some (True, [UnknownVarint 1 5])" by simp
  have "fast_message 100 ?d = None" by code_simp
  with flat_set [OF assms, of junk ?d flags u] show "\<exists>v. MergeFromImpl_flat (set_message ops) junk ?d flags u = Some (False, v)" by auto
qed

theorem two_parsers_agree_witness:
  "MergeFromImpl_flat (set_message array_stream) 0 [18, 2, 0x68, 0x69] kMerge [UnknownFixed32 1 9] =
    Some (True, [UnknownFixed32 1 9, UnknownLengthDelimited 2 [0x68, 0x69]])"
proof -
  have w: "wire_ok 100 [UnknownLengthDelimited 2 [0x68, 0x69]]" "short_strings [UnknownLengthDelimited 2 [0x68, 0x69]]" by (simp_all add: number_ok_def)
  have b: "fields_bytes [UnknownLengthDelimited 2 [0x68, 0x69]] = [18, 2, 0x68, 0x69]" by code_simp
  from two_parsers_agree [OF array_input.zero_copy_input_axioms, THEN conjunct1, rule_format, OF w, unfolded b, THEN conjunct1, of 0 kMerge "[UnknownFixed32 1 9]"]
  show ?thesis by simp
qed

section \<open>A finding on a concrete input\<close>

text \<open>A message of 23 bytes that ends a group it never opened, from a stream that hands out one byte at a time. The parse
  returns behind the end tag, not at the limit; before it looks at how the parse ended, the bounded entry point gives back
  the 16 bytes it has read ahead, but the last chunk of the stream was one byte, and the check in
  \<open>ArrayInputStream::BackUp\<close> stops the program. From a stream with larger chunks the same message is refused.\<close>

lemma bounded_gives_back_too_much:
  "do {
     (p, e) \<leftarrow> InitFrom_bounded array_stream 0 (ArrayInputStream (8 # 1 # 12 # replicate 20 8) 23 1) 23;
     (r, u, e) \<leftarrow> UnknownGroupParse array_stream p [] (new_context GetDefaultRecursionLimit e);
     p \<leftarrow> r;
     d \<leftarrow> ptr_diff (in_end e) p;
     s \<leftarrow> zcis e;
     Some (u, EndedAtLimit e, in_next e, d + kSlopBytes, last_returned_size s,
       BackUp array_stream (d + kSlopBytes) s = None, Ctx_BackUp array_stream p e = None)
   } = Some ([UnknownVarint 1 1], False, Some (Patch 0), 16, 1, True, True)"
  "map_option (\<lambda>(b, u, z). (b, u, z = None))
     (MergeFromImpl_bounded array_stream (set_message array_stream) 0 (ArrayInputStream (8 # 1 # 12 # replicate 20 8) 23 40) 23 kMerge []) =
   Some (False, [UnknownVarint 1 1], False)"
  by code_simp+

end
