(* ===== verification/Strutil_Escape.thy ===== *)
theory Strutil_Escape
  imports Prelude
begin

text \<open>
  C-style escaping and unescaping of strings (stubs/strutil.cc): \<open>UnescapeCEscapeSequences\<close>
  and its wrappers, \<open>CEscapeInternal\<close> with \<open>Utf8SafeCEscape\<close> and \<open>CHexEscape\<close>, and the
  table-driven \<open>CEscapeAndAppend\<close>. A C string is a list of characters that ends at its first
  NUL or at the end of the list. Buffers are explicit: the writers return how far they wrote,
  so that staying inside the buffer is a theorem.
\<close>

section \<open>Unescaping\<close>

abbreviation NUL :: char where "NUL \<equiv> CHR 0x00"
abbreviation BSL :: char where "BSL \<equiv> CHR 0x5C"

definition IS_OCTAL_DIGIT :: "char \<Rightarrow> bool" where [char_class]:
  "IS_OCTAL_DIGIT c \<longleftrightarrow> 48 \<le> uchar c \<and> uchar c \<le> 55"

text \<open>\<open>if (IS_OCTAL_DIGIT(p[1])) ch = ch * 8 + *++p - '0';\<close>\<close>

fun octal_step :: "nat \<Rightarrow> string \<Rightarrow> nat \<times> string" where
  "octal_step ch (c # p) =
     (if IS_OCTAL_DIGIT c then (ch * 8 + (uchar c - 48), p) else (ch, c # p))"
| "octal_step ch [] = (ch, [])"

text \<open>\<open>while (isxdigit(p[1])) ch = (ch << 4) + hex_digit_to_int(*++p);\<close>\<close>

fun read_hex :: "uint32 \<Rightarrow> string \<Rightarrow> uint32 \<times> string" where
  "read_hex ch (c # p) =
     (if isxdigit c then read_hex (push_bit 4 ch + of_nat (hex_digit_to_int c)) p
      else (ch, c # p))"
| "read_hex ch [] = (ch, [])"

lemma octal_step_length: "length (snd (octal_step ch p)) \<le> length p"
  by (induction ch p rule: octal_step.induct) auto

lemma read_hex_length: "length (snd (read_hex ch p)) \<le> length p"
  by (induction ch p rule: read_hex.induct) auto

text \<open>The switch on the character \<open>e\<close> after the backslash, \<open>q\<close> being what follows it: what is
  written to \<open>dest\<close>, and where the source pointer is left.\<close>

definition unescape_switch :: "char \<Rightarrow> string \<Rightarrow> string \<times> string" where
  "unescape_switch e q =
     (if e = CHR ''a'' then ([CHR 0x07], q)
      else if e = CHR ''b'' then ([CHR 0x08], q)
      else if e = CHR ''f'' then ([CHR 0x0C], q)
      else if e = CHR ''n'' then ([CHR 0x0A], q)
      else if e = CHR ''r'' then ([CHR 0x0D], q)
      else if e = CHR ''t'' then ([CHR 0x09], q)
      else if e = CHR ''v'' then ([CHR 0x0B], q)
      else if e = BSL then ([BSL], q)
      else if e = CHR ''?'' then ([CHR ''?''], q)
      else if e = CHR 0x27 then ([CHR 0x27], q)
      else if e = CHR 0x22 then ([CHR 0x22], q)
      else if IS_OCTAL_DIGIT e then
        (case octal_step (uchar e - 48) q of (ch, q') \<Rightarrow>
           (case octal_step ch q' of (ch', q'') \<Rightarrow> ([to_char ch'], q'')))
      else if e = CHR ''x'' \<or> e = CHR ''X'' then
        (if q \<noteq> [] \<and> isxdigit (hd q)
         then (case read_hex 0 q of (ch, q') \<Rightarrow> ([to_char (unat ch)], q'))
         else ([], q))
      else ([], q))"

lemma unescape_switch_length:
  "length (fst (unescape_switch e q)) \<le> 1" "length (snd (unescape_switch e q)) \<le> length q"
proof -
  have "length (snd (octal_step (fst (octal_step a q)) (snd (octal_step a q)))) \<le> length q" for a
    by (meson octal_step_length order_trans)
  then show "length (fst (unescape_switch e q)) \<le> 1" "length (snd (unescape_switch e q)) \<le> length q"
    by (simp_all add: unescape_switch_def split_def read_hex_length)
qed

text \<open>The main loop, \<open>p\<close> being the rest of the source; the result is what is written to
  \<open>dest\<close>. (Where source and destination are the same buffer, the first loop of the code skips
  the leading characters that would be copied onto themselves.)\<close>

function UnescapeCEscapeSequences :: "string \<Rightarrow> string" where
  "UnescapeCEscapeSequences [] = []"
| "UnescapeCEscapeSequences (c # p) =
     (if c = NUL then []
      else if c \<noteq> BSL then c # UnescapeCEscapeSequences p
      else if p = [] \<or> hd p = NUL then []
      else fst (unescape_switch (hd p) (tl p)) @
           UnescapeCEscapeSequences (snd (unescape_switch (hd p) (tl p))))"
  by pat_completeness auto
termination
proof (relation "measure length", goal_cases)
  case (3 c p)
  then show ?case using unescape_switch_length(2) [of "hd p" "tl p"] by simp
qed auto

declare UnescapeCEscapeSequences.simps [simp del]

definition UnescapeCEscapeString :: "string \<Rightarrow> string" where
  "UnescapeCEscapeString src = UnescapeCEscapeSequences src"

section \<open>Escaping with a fixed buffer\<close>

text \<open>\<open>sprintf(dest + used, (use_hex ? "\\x%02x" : "\\%03o"), c)\<close>: four characters, and a
  terminating NUL after them.\<close>

definition sprintf_escape :: "bool \<Rightarrow> char \<Rightarrow> string" where
  "sprintf_escape use_hex c =
     (if use_hex then [BSL, CHR ''x'', hexdigits ! (uchar c div 16), hexdigits ! (uchar c mod 16)]
      else [BSL, digit (uchar c div 64), digit (uchar c mod 64 div 8), digit (uchar c mod 8)])"

text \<open>The loop of \<open>CEscapeInternal\<close>. \<open>out\<close> is \<open>dest[0..used)\<close>; \<open>hw\<close> (high water) is one past the highest
  index of \<open>dest\<close> written so far. The result is the returned length as a string (\<open>None\<close> for
  the return value -1) and the final \<open>hw\<close>.\<close>

fun CEscapeLoop ::
    "int \<Rightarrow> bool \<Rightarrow> bool \<Rightarrow> bool \<Rightarrow> string \<Rightarrow> nat \<Rightarrow> string \<Rightarrow> string option \<times> nat" where
  "CEscapeLoop dest_len use_hex utf8_safe last_hex out hw [] =
     (if dest_len - int (length out) < 1 then (None, hw)
      else (Some out, max hw (length out + 1)))"
| "CEscapeLoop dest_len use_hex utf8_safe last_hex out hw (c # src) =
     (if dest_len - int (length out) < 2 then (None, hw)
      else if c = CHR 0x0A then CEscapeLoop dest_len use_hex utf8_safe False (out @ [BSL, CHR ''n'']) (max hw (length out + 2)) src
      else if c = CHR 0x0D then CEscapeLoop dest_len use_hex utf8_safe False (out @ [BSL, CHR ''r'']) (max hw (length out + 2)) src
      else if c = CHR 0x09 then CEscapeLoop dest_len use_hex utf8_safe False (out @ [BSL, CHR ''t'']) (max hw (length out + 2)) src
      else if c = CHR 0x22 then CEscapeLoop dest_len use_hex utf8_safe False (out @ [BSL, CHR 0x22]) (max hw (length out + 2)) src
      else if c = CHR 0x27 then CEscapeLoop dest_len use_hex utf8_safe False (out @ [BSL, CHR 0x27]) (max hw (length out + 2)) src
      else if c = BSL then CEscapeLoop dest_len use_hex utf8_safe False (out @ [BSL, BSL]) (max hw (length out + 2)) src
      else if (\<not> utf8_safe \<or> uchar c < 0x80) \<and> (\<not> isprint c \<or> last_hex \<and> isxdigit c) then
        (if dest_len - int (length out) < 4 then (None, hw)
         else CEscapeLoop dest_len use_hex utf8_safe use_hex (out @ sprintf_escape use_hex c)
                (max hw (length out + 5)) src)
      else CEscapeLoop dest_len use_hex utf8_safe False (out @ [c]) (max hw (length out + 1)) src)"

definition CEscapeInternal ::
    "string \<Rightarrow> int \<Rightarrow> bool \<Rightarrow> bool \<Rightarrow> string option \<times> nat" where
  "CEscapeInternal src dest_len use_hex utf8_safe =
     CEscapeLoop dest_len use_hex utf8_safe False [] 0 src"

definition Utf8SafeCEscape :: "string \<Rightarrow> string option" where
  "Utf8SafeCEscape src = fst (CEscapeInternal src (int (length src) * 4 + 1) False True)"

definition CHexEscape :: "string \<Rightarrow> string option" where
  "CHexEscape src = fst (CEscapeInternal src (int (length src) * 4 + 1) True False)"

section \<open>Escaping with a precomputed length\<close>

definition c_escaped_len :: "nat list" where
  "c_escaped_len =
    [4, 4, 4, 4, 4, 4, 4, 4, 4, 2, 2, 4, 4, 2, 4, 4,
     4, 4, 4, 4, 4, 4, 4, 4, 4, 4, 4, 4, 4, 4, 4, 4,
     1, 1, 2, 1, 1, 1, 1, 2, 1, 1, 1, 1, 1, 1, 1, 1,
     1, 1, 1, 1, 1, 1, 1, 1, 1, 1, 1, 1, 1, 1, 1, 1,
     1, 1, 1, 1, 1, 1, 1, 1, 1, 1, 1, 1, 1, 1, 1, 1,
     1, 1, 1, 1, 1, 1, 1, 1, 1, 1, 1, 1, 2, 1, 1, 1,
     1, 1, 1, 1, 1, 1, 1, 1, 1, 1, 1, 1, 1, 1, 1, 1,
     1, 1, 1, 1, 1, 1, 1, 1, 1, 1, 1, 1, 1, 1, 1, 4] @ replicate 128 4"

definition CEscapedLength :: "string \<Rightarrow> nat" where
  "CEscapedLength src = foldl (\<lambda>escaped_len c. escaped_len + c_escaped_len ! uchar c) 0 src"

text \<open>What the switch of \<open>CEscapeAndAppend\<close> writes for one character.\<close>

definition cescape_char :: "char \<Rightarrow> string" where
  "cescape_char c =
     (if c = CHR 0x0A then [BSL, CHR ''n'']
      else if c = CHR 0x0D then [BSL, CHR ''r'']
      else if c = CHR 0x09 then [BSL, CHR ''t'']
      else if c = CHR 0x22 then [BSL, CHR 0x22]
      else if c = CHR 0x27 then [BSL, CHR 0x27]
      else if c = BSL then [BSL, BSL]
      else if \<not> isprint c then
        [BSL, digit (uchar c div 64), digit (uchar c mod 64 div 8), digit (uchar c mod 8)]
      else [c])"

text \<open>The writes through \<open>append_ptr\<close>: \<open>room\<close> is what is left of the resized string. A write
  past its end is undefined in C++ and is \<open>None\<close> here.\<close>

fun append_escaped :: "string \<Rightarrow> string \<Rightarrow> string \<Rightarrow> string option" where
  "append_escaped pre room [] = Some (pre @ room)"
| "append_escaped pre room (c # src) =
     (if length room < length (cescape_char c) then None
      else append_escaped (pre @ cescape_char c) (drop (length (cescape_char c)) room) src)"

definition CEscapeAndAppend :: "string \<Rightarrow> string \<Rightarrow> string option" where
  "CEscapeAndAppend src dest =
     (if CEscapedLength src = length src then Some (dest @ src)
      else append_escaped dest (replicate (CEscapedLength src) NUL) src)"

definition CEscape :: "string \<Rightarrow> string option" where
  "CEscape src = CEscapeAndAppend src []"

section \<open>The escaped form of one character reads back\<close>

definition escaped_len :: "nat \<Rightarrow> nat" where
  "escaped_len n =
     (if n \<in> {9, 10, 13, 34, 39, 92} then 2 else if n < 32 \<or> 126 < n then 4 else 1)"

lemma length_cescape_char: "length (cescape_char c) = escaped_len (uchar c)"
  by (simp add: cescape_char_def escaped_len_def isprint_def uchar_eq_iff)

lemma escape_table: "c_escaped_len ! uchar c = length (cescape_char c)"
proof -
  have "table_from escaped_len 0 c_escaped_len"
    unfolding c_escaped_len_def table_from_append
  proof
    show "table_from escaped_len (0 + length
      [4, 4, 4, 4, 4, 4, 4, 4, 4, 2, 2, 4, 4, 2, 4, 4, 4, 4, 4, 4, 4, 4, 4, 4, 4, 4, 4, 4, 4, 4, 4, 4,
       1, 1, 2, 1, 1, 1, 1, 2, 1, 1, 1, 1, 1, 1, 1, 1, 1, 1, 1, 1, 1, 1, 1, 1, 1, 1, 1, 1, 1, 1, 1, 1,
       1, 1, 1, 1, 1, 1, 1, 1, 1, 1, 1, 1, 1, 1, 1, 1, 1, 1, 1, 1, 1, 1, 1, 1, 1, 1, 1, 1, 2, 1, 1, 1,
       1, 1, 1, 1, 1, 1, 1, 1, 1, 1, 1, 1, 1, 1, 1, 1, 1, 1, 1, 1, 1, 1, 1, 1, 1, 1, 1, 1, 1, 1, 1, 4 :: nat])
      (replicate 128 4)"
      by (rule table_from_replicate) (simp add: escaped_len_def)
  qed (simp add: escaped_len_def)
  from table_from_nth [OF this, of "uchar c"] show ?thesis
    by (simp add: c_escaped_len_def length_cescape_char)
qed

lemma digit_octal: "d < 8 \<Longrightarrow> IS_OCTAL_DIGIT (digit d) \<and> uchar (digit d) = 48 + d"
  by (simp add: IS_OCTAL_DIGIT_def digit_def)

lemma octal_not_letter:
  assumes "IS_OCTAL_DIGIT e"
  shows "e \<noteq> NUL" "e \<noteq> CHR ''a''" "e \<noteq> CHR ''b''" "e \<noteq> CHR ''f''" "e \<noteq> CHR ''n''" "e \<noteq> CHR ''r''"
    "e \<noteq> CHR ''t''" "e \<noteq> CHR ''v''" "e \<noteq> BSL" "e \<noteq> CHR ''?''" "e \<noteq> CHR 0x27" "e \<noteq> CHR 0x22"
    "e \<noteq> CHR ''x''" "e \<noteq> CHR ''X''"
  using assms by (auto simp: IS_OCTAL_DIGIT_def)

lemma unescape_plain:
  "c \<noteq> NUL \<Longrightarrow> c \<noteq> BSL \<Longrightarrow> UnescapeCEscapeSequences (c # p) = c # UnescapeCEscapeSequences p"
  by (simp add: UnescapeCEscapeSequences.simps)

lemma unescape_letter:
  "UnescapeCEscapeSequences (BSL # CHR ''n'' # q) = CHR 0x0A # UnescapeCEscapeSequences q"
  "UnescapeCEscapeSequences (BSL # CHR ''r'' # q) = CHR 0x0D # UnescapeCEscapeSequences q"
  "UnescapeCEscapeSequences (BSL # CHR ''t'' # q) = CHR 0x09 # UnescapeCEscapeSequences q"
  "UnescapeCEscapeSequences (BSL # CHR 0x22 # q) = CHR 0x22 # UnescapeCEscapeSequences q"
  "UnescapeCEscapeSequences (BSL # CHR 0x27 # q) = CHR 0x27 # UnescapeCEscapeSequences q"
  "UnescapeCEscapeSequences (BSL # BSL # q) = BSL # UnescapeCEscapeSequences q"
  by (simp_all add: UnescapeCEscapeSequences.simps(2) [of BSL] unescape_switch_def)

lemma unescape_octal:
  assumes "d1 < 8" "d2 < 8" "d3 < 8"
  shows "UnescapeCEscapeSequences (BSL # digit d1 # digit d2 # digit d3 # q) =
    to_char ((d1 * 8 + d2) * 8 + d3) # UnescapeCEscapeSequences q"
  using assms
  by (simp add: UnescapeCEscapeSequences.simps(2) [of BSL] unescape_switch_def digit_octal octal_not_letter)

lemma unescape_octal_char:
  "UnescapeCEscapeSequences (BSL # digit (uchar c div 64) # digit (uchar c mod 64 div 8) # digit (uchar c mod 8) # q)
    = c # UnescapeCEscapeSequences q"
  using unescape_octal [OF byte_digit_bounds(1,2,4) [OF uchar_less], of c c c q]
  by (simp only: octal_digits char_of_char)

lemma printable_plain: "isprint c \<Longrightarrow> c \<noteq> NUL"
  by (auto simp: isprint_def)

lemma unescape_cescape_char:
  "UnescapeCEscapeSequences (cescape_char c @ q) = c # UnescapeCEscapeSequences q"
  by (simp add: cescape_char_def unescape_letter unescape_octal_char unescape_plain printable_plain)

lemma unescape_concat:
  "UnescapeCEscapeSequences (concat (map cescape_char s) @ q) = s @ UnescapeCEscapeSequences q"
  by (induction s) (simp_all add: unescape_cescape_char)

lemma unescape_Nil [simp]: "UnescapeCEscapeSequences [] = []"
  by (simp add: UnescapeCEscapeSequences.simps)

section \<open>The precomputed length is exact\<close>

lemma cescape_char_nonempty: "0 < length (cescape_char c)"
  by (simp add: cescape_char_def)

lemma CEscapedLength_exact: "CEscapedLength src = length (concat (map cescape_char src))"
  by (simp add: CEscapedLength_def escape_table foldl_add_nat length_concat_map)

lemma append_escaped_exact:
  "length (concat (map cescape_char src)) \<le> length room \<Longrightarrow>
   append_escaped d room src =
     Some (d @ concat (map cescape_char src) @ drop (length (concat (map cescape_char src))) room)"
  by (induction src arbitrary: d room) (auto simp: add.commute)

lemma no_escape_needed:
  "length (concat (map cescape_char src)) = length src \<Longrightarrow> concat (map cescape_char src) = src"
proof (induction src)
  case (Cons c src)
  have le: "length src \<le> length (concat (map cescape_char src))"
  proof (induction src)
    case (Cons d src)
    then show ?case using cescape_char_nonempty [of d]
      by (simp del: length_greater_0_conv)
  qed simp
  with Cons.prems have one: "length (cescape_char c) = 1" and "length (concat (map cescape_char src)) = length src"
    using cescape_char_nonempty [of c] by (simp_all del: length_greater_0_conv)
  moreover from one have "cescape_char c = [c]" by (auto simp: cescape_char_def split: if_splits)
  ultimately show ?case using Cons.IH by simp
qed simp

lemma CEscapeAndAppend_exact: "CEscapeAndAppend src dest = Some (dest @ concat (map cescape_char src))"
  by (simp add: CEscapeAndAppend_def CEscapedLength_exact append_escaped_exact no_escape_needed)

section \<open>The fixed-buffer escaper\<close>

text \<open>The same loop without the buffer: what it produces when there is room.\<close>

definition letter_escape :: "char \<Rightarrow> bool" where
  "letter_escape c \<longleftrightarrow> c \<in> {CHR 0x0A, CHR 0x0D, CHR 0x09, CHR 0x22, CHR 0x27, BSL}"

fun cescape_spec :: "bool \<Rightarrow> bool \<Rightarrow> bool \<Rightarrow> string \<Rightarrow> string" where
  "cescape_spec use_hex utf8_safe last_hex [] = []"
| "cescape_spec use_hex utf8_safe last_hex (c # src) =
     (if letter_escape c then cescape_char c @ cescape_spec use_hex utf8_safe False src
      else if (\<not> utf8_safe \<or> uchar c < 0x80) \<and> (\<not> isprint c \<or> last_hex \<and> isxdigit c)
      then sprintf_escape use_hex c @ cescape_spec use_hex utf8_safe use_hex src
      else c # cescape_spec use_hex utf8_safe False src)"

lemma length_sprintf_escape [simp]: "length (sprintf_escape use_hex c) = 4"
  by (simp add: sprintf_escape_def)

text \<open>Four bytes of room per character and one for the NUL are enough: the loop does not fail,
  and never writes past \<open>dest_len\<close>.\<close>

lemma CEscapeLoop_room:
  assumes "int (length out) + 4 * int (length src) + 1 \<le> dest_len" "int hw \<le> dest_len"
  shows "fst (CEscapeLoop dest_len use_hex utf8_safe last_hex out hw src) =
           Some (out @ cescape_spec use_hex utf8_safe last_hex src) \<and>
         int (snd (CEscapeLoop dest_len use_hex utf8_safe last_hex out hw src)) \<le> dest_len"
  using assms
proof (induction src arbitrary: last_hex out hw)
  case (Cons c src)
  then show ?case by (simp add: cescape_char_def letter_escape_def)
qed simp

text \<open>After a hexadecimal escape the output does not go on with a hexadecimal digit.\<close>

lemma BSL_not_hex: "\<not> isxdigit BSL"
  by (simp add: isxdigit_def)

lemma cescape_spec_guard:
  "\<not> utf8_safe \<Longrightarrow> cescape_spec use_hex utf8_safe True src = h # t \<Longrightarrow> \<not> isxdigit h"
  by (cases src) (auto simp: letter_escape_def cescape_char_def sprintf_escape_def BSL_not_hex split: if_splits)

lemma read_hex_stop: "(q = [] \<or> \<not> isxdigit (hd q)) \<Longrightarrow> read_hex ch q = (ch, q)"
  by (cases q) auto

lemma unescape_hex:
  assumes "q = [] \<or> \<not> isxdigit (hd q)"
  shows "UnescapeCEscapeSequences (BSL # CHR ''x'' # hexdigits ! (uchar c div 16) # hexdigits ! (uchar c mod 16) # q)
    = c # UnescapeCEscapeSequences q"
proof -
  note d = byte_digit_bounds(3,5) [OF uchar_less]
  have "push_bit 4 (of_nat (uchar c div 16)) + of_nat (uchar c mod 16) =
      (of_nat (uchar c div 16 * 16 + uchar c mod 16) :: uint32)"
    by (simp only: push_bit_eq_mult of_nat_add of_nat_mult) simp
  then have "push_bit 4 (of_nat (uchar c div 16)) + of_nat (uchar c mod 16) = (of_nat (uchar c) :: uint32)"
    by (simp only: hex_digits)
  then show ?thesis
    using assms d
    by (simp add: UnescapeCEscapeSequences.simps(2) [of BSL] unescape_switch_def hexdigit_facts read_hex_stop
        unat_of_uchar IS_OCTAL_DIGIT_def)
qed

text \<open>The guard on hexadecimal digits is what makes the hexadecimal form read back.\<close>

lemma unescape_sprintf_octal:
  "UnescapeCEscapeSequences (sprintf_escape False c @ q) = c # UnescapeCEscapeSequences q"
  by (simp add: sprintf_escape_def unescape_octal_char)

lemma unescape_sprintf_hex:
  "q = [] \<or> \<not> isxdigit (hd q) \<Longrightarrow>
   UnescapeCEscapeSequences (sprintf_escape True c @ q) = c # UnescapeCEscapeSequences q"
  by (simp add: sprintf_escape_def unescape_hex)

lemma cescape_spec_head:
  assumes "\<not> utf8_safe"
  shows "cescape_spec use_hex utf8_safe True src = [] \<or>
    \<not> isxdigit (hd (cescape_spec use_hex utf8_safe True src))"
  using cescape_spec_guard [OF assms, of use_hex src]
  by (cases "cescape_spec use_hex utf8_safe True src") auto

lemma unescape_passed_through:
  assumes "\<not> letter_escape c"
    and "\<not> ((\<not> utf8_safe \<or> uchar c < 0x80) \<and> (\<not> isprint c \<or> last_hex \<and> isxdigit c))"
  shows "UnescapeCEscapeSequences (c # q) = c # UnescapeCEscapeSequences q"
proof (rule unescape_plain)
  show "c \<noteq> NUL"
  proof
    assume "c = NUL"
    with assms(2) show False by (simp add: isprint_def)
  qed
  show "c \<noteq> BSL" using assms(1) by (auto simp: letter_escape_def)
qed

lemma unescape_cescape_spec:
  "use_hex \<longrightarrow> \<not> utf8_safe \<Longrightarrow>
   UnescapeCEscapeSequences (cescape_spec use_hex utf8_safe last_hex src) = src"
proof (induction src arbitrary: last_hex)
  case (Cons c src)
  note IH = Cons.IH [OF Cons.prems]
  let ?escape = "(\<not> utf8_safe \<or> uchar c < 0x80) \<and> (\<not> isprint c \<or> last_hex \<and> isxdigit c)"
  consider "letter_escape c" | "\<not> letter_escape c" "?escape" | "\<not> letter_escape c" "\<not> ?escape"
    by blast
  then show ?case
  proof cases
    case 1
    with IH show ?thesis by (simp add: unescape_cescape_char)
  next
    case 2
    then have eq: "cescape_spec use_hex utf8_safe last_hex (c # src) =
        sprintf_escape use_hex c @ cescape_spec use_hex utf8_safe use_hex src"
      by simp
    show ?thesis
    proof (cases use_hex)
      case True
      with Cons.prems have "\<not> utf8_safe" by simp
      from unescape_sprintf_hex [OF cescape_spec_head [OF this, of True src]] IH True
      show ?thesis unfolding eq by simp
    next
      case False
      with IH show ?thesis unfolding eq by (simp add: unescape_sprintf_octal)
    qed
  next
    case 3
    then have "cescape_spec use_hex utf8_safe last_hex (c # src) =
        c # cescape_spec use_hex utf8_safe False src"
      by (simp only: cescape_spec.simps(2) if_False)
    with IH unescape_passed_through [OF 3] show ?thesis by simp
  qed
qed simp

lemma CEscapeInternal_ok:
  "int (length src) * 4 + 1 \<le> dest_len \<Longrightarrow>
   fst (CEscapeInternal src dest_len use_hex utf8_safe) = Some (cescape_spec use_hex utf8_safe False src) \<and>
   int (snd (CEscapeInternal src dest_len use_hex utf8_safe)) \<le> dest_len"
  using CEscapeLoop_room [of "[]" src dest_len 0] by (simp add: CEscapeInternal_def)

section \<open>The destination of the unescaper\<close>

lemma unescape_length: "length (UnescapeCEscapeSequences p) \<le> length p"
proof (induction p rule: UnescapeCEscapeSequences.induct)
  case (2 c p)
  then show ?case
    using unescape_switch_length [of "hd p" "tl p"]
    by (cases p) (auto simp: UnescapeCEscapeSequences.simps(2))
qed simp

section \<open>Properties\<close>

text \<open>C36. C-escaping a byte string and unescaping the result gives the string back, for every
  string: \<open>UnescapeCEscapeString(CEscape(s)) == s\<close>. \<open>CEscape\<close> itself never writes outside the
  string it resized.\<close>

theorem CEscape_roundtrip:
  "\<exists>e. CEscape s = Some e \<and> UnescapeCEscapeString e = s"
  using unescape_concat [of s "[]"]
  by (simp add: CEscape_def CEscapeAndAppend_exact UnescapeCEscapeString_def)

text \<open>The same round trip for the hexadecimal form, where a hexadecimal digit that follows a
  \<open>\xNN\<close> escape has to be escaped too, and for the UTF-8 safe form.\<close>

theorem CHexEscape_Utf8Safe_roundtrip:
  "\<exists>h u. CHexEscape s = Some h \<and> UnescapeCEscapeString h = s \<and>
         Utf8SafeCEscape s = Some u \<and> UnescapeCEscapeString u = s"
  by (simp add: CHexEscape_def Utf8SafeCEscape_def CEscapeInternal_ok UnescapeCEscapeString_def
      unescape_cescape_spec)

text \<open>The buffers are large enough: with four bytes per source byte and one for the NUL
  \<open>CEscapeInternal\<close> does not fail and writes inside \<open>dest\<close>, in both modes; the length that
  \<open>CEscapeAndAppend\<close> computes from its table is exactly what its loop writes; and the
  unescaper's output fits the \<open>src.size() + 1\<close> bytes its caller allocates.\<close>

theorem escape_buffers_suffice:
  "int (snd (CEscapeInternal s (int (length s) * 4 + 1) use_hex utf8_safe)) \<le> int (length s) * 4 + 1 \<and>
   fst (CEscapeInternal s (int (length s) * 4 + 1) use_hex utf8_safe) \<noteq> None \<and>
   (\<exists>e. CEscapeAndAppend s dest = Some (dest @ e) \<and> length e = CEscapedLength s) \<and>
   length (UnescapeCEscapeString s) < length s + 1"
  using CEscapeInternal_ok [of s "int (length s) * 4 + 1" use_hex utf8_safe] unescape_length [of s]
  by (simp add: CEscapeAndAppend_exact CEscapedLength_exact UnescapeCEscapeString_def)

text \<open>The check in front of \<open>sprintf\<close> asks for four bytes, and \<open>sprintf\<close> writes five: with a
  \<open>dest_len\<close> of four, which no caller in the library passes, one byte is written past the end.\<close>

lemma CEscapeInternal_overrun: "CEscapeInternal [CHR 0x01] 4 False False = (None, 5)"
  by (simp add: CEscapeInternal_def isprint_def)

end
