(* ===== verification/Strutil_Num.thy ===== *)
theory Strutil_Num
  imports Prelude "HOL-Library.Signed_Division"
begin

text \<open>
  Numbers and strings (stubs/strutil.cc): the range-checked integer parsers behind
  \<open>safe_strto32\<close> and its siblings, and the integer printers \<open>Fast*ToBuffer\<close>,
  \<open>Fast*ToBufferLeft\<close>, \<open>SimpleItoa\<close> and the hexadecimal writers. Signed arithmetic of the
  printers is checked at its width (\<open>None\<close> is signed overflow); unsigned values are words.
\<close>

section \<open>Parsing\<close>

text \<open>\<open>safe_parse_sign\<close>: the sign and the remaining text, or \<open>None\<close> where the code returns
  false.\<close>

definition safe_parse_sign :: "string \<Rightarrow> (bool \<times> string) option" where
  "safe_parse_sign text =
     (let t = dropWhile (\<lambda>c. c = CHR '' '') text;
          t = rev (dropWhile (\<lambda>c. c = CHR '' '') (rev t))
      in case t of
           [] \<Rightarrow> None
         | c # t' \<Rightarrow>
             (let negative = (c = CHR ''-'') in
              if negative \<or> c = CHR ''+'' then (if t' = [] then None else Some (negative, t'))
              else Some (negative, t)))"

text \<open>The loops over digits; the result is the returned flag and \<open>*value_p\<close>.\<close>

fun positive_int_loop :: "int \<Rightarrow> int \<Rightarrow> string \<Rightarrow> bool \<times> int" where
  "positive_int_loop vmax val [] = (True, val)"
| "positive_int_loop vmax val (c # text) =
     (let digit = int (uchar c) - 48 in
      if 10 \<le> digit \<or> digit < 0 then (False, val)
      else if vmax div 10 < val then (False, vmax)
      else if vmax - digit < val * 10 then (False, vmax)
      else positive_int_loop vmax (val * 10 + digit) text)"

definition safe_parse_positive_int :: "int \<Rightarrow> string \<Rightarrow> bool \<times> int" where
  "safe_parse_positive_int vmax text = positive_int_loop vmax 0 text"

fun negative_int_loop :: "int \<Rightarrow> int \<Rightarrow> int \<Rightarrow> string \<Rightarrow> bool \<times> int" where
  "negative_int_loop vmin vmin_over_base val [] = (True, val)"
| "negative_int_loop vmin vmin_over_base val (c # text) =
     (let digit = int (uchar c) - 48 in
      if 10 \<le> digit \<or> digit < 0 then (False, val)
      else if val < vmin_over_base then (False, vmin)
      else if val * 10 < vmin + digit then (False, vmin)
      else negative_int_loop vmin vmin_over_base (val * 10 - digit) text)"

definition safe_parse_negative_int :: "int \<Rightarrow> string \<Rightarrow> bool \<times> int" where
  "safe_parse_negative_int vmin text =
     (let vmin_over_base = vmin sdiv 10;
          vmin_over_base = (if 0 < vmin smod 10 then vmin_over_base + 1 else vmin_over_base)
      in negative_int_loop vmin vmin_over_base 0 text)"

definition safe_int_internal :: "int \<Rightarrow> int \<Rightarrow> string \<Rightarrow> bool \<times> int" where
  "safe_int_internal vmin vmax text =
     (case safe_parse_sign text of
        None \<Rightarrow> (False, 0)
      | Some (negative, t) \<Rightarrow>
          if \<not> negative then safe_parse_positive_int vmax t else safe_parse_negative_int vmin t)"

definition safe_uint_internal :: "int \<Rightarrow> string \<Rightarrow> bool \<times> int" where
  "safe_uint_internal vmax text =
     (case safe_parse_sign text of
        None \<Rightarrow> (False, 0)
      | Some (negative, t) \<Rightarrow> if negative then (False, 0) else safe_parse_positive_int vmax t)"

definition safe_strto32 :: "string \<Rightarrow> bool \<times> int" where
  "safe_strto32 str = safe_int_internal (- (2 ^ 31)) (2 ^ 31 - 1) str"

definition safe_strtou32 :: "string \<Rightarrow> bool \<times> int" where
  "safe_strtou32 str = safe_uint_internal (2 ^ 32 - 1) str"

definition safe_strto64 :: "string \<Rightarrow> bool \<times> int" where
  "safe_strto64 str = safe_int_internal (- (2 ^ 63)) (2 ^ 63 - 1) str"

definition safe_strtou64 :: "string \<Rightarrow> bool \<times> int" where
  "safe_strtou64 str = safe_uint_internal (2 ^ 64 - 1) str"

section \<open>Printing into the end of a buffer\<close>

text \<open>The value of a signed expression of width \<open>w\<close>, \<open>None\<close> where it overflows.\<close>

definition checked_signed :: "nat \<Rightarrow> int \<Rightarrow> int option" where
  "checked_signed w x = (if - (2 ^ (w - 1)) \<le> x \<and> x < 2 ^ (w - 1) then Some x else None)"

text \<open>\<open>do { *p-- = '0' + i % 10; i /= 10; } while (i > 0);\<close> for \<open>i \<ge> 0\<close>; \<open>acc\<close> is what the
  buffer holds from \<open>p + 1\<close> on.\<close>

function put_digits :: "int \<Rightarrow> string \<Rightarrow> string" where
  "put_digits i acc =
     (if 0 < i div 10 then put_digits (i div 10) (digit (nat (i mod 10)) # acc)
      else digit (nat (i mod 10)) # acc)"
  by pat_completeness auto
termination by (relation "measure (\<lambda>(i, acc). nat i)") auto

declare put_digits.simps [simp del]

text \<open>The body of \<open>FastInt32ToBuffer\<close> and of \<open>FastInt64ToBuffer\<close>, which differ in the width
  only: the characters from the returned pointer up to the NUL.\<close>

definition FastIntToBuffer :: "nat \<Rightarrow> int \<Rightarrow> string option" where
  "FastIntToBuffer w i =
     (if 0 \<le> i then Some (put_digits i [])
      else if - 10 < i then
        (case checked_signed w (- i) of None \<Rightarrow> None | Some i \<Rightarrow> Some (CHR ''-'' # [digit (nat i)]))
      else
        (case checked_signed w (i + 10) of None \<Rightarrow> None | Some i \<Rightarrow>
        (case checked_signed w (- i) of None \<Rightarrow> None | Some i \<Rightarrow>
        (case checked_signed w (i div 10 + 1) of None \<Rightarrow> None | Some i' \<Rightarrow>
           Some (CHR ''-'' # put_digits i' [digit (nat (i mod 10))])))))"

definition FastInt32ToBuffer :: "int \<Rightarrow> string option" where
  "FastInt32ToBuffer i = FastIntToBuffer 32 i"

definition FastInt64ToBuffer :: "int \<Rightarrow> string option" where
  "FastInt64ToBuffer i = FastIntToBuffer 64 i"

text \<open>\<open>InternalFastHexToBuffer\<close>, from the last of \<open>num_byte\<close> positions down to the first.\<close>

fun InternalFastHexToBuffer :: "uint64 \<Rightarrow> nat \<Rightarrow> string \<Rightarrow> string" where
  "InternalFastHexToBuffer val 0 acc = acc"
| "InternalFastHexToBuffer val (Suc i) acc =
     InternalFastHexToBuffer (drop_bit 4 val) i (hexdigits ! unat (val AND 0xf) # acc)"

definition FastHex64ToBuffer :: "uint64 \<Rightarrow> string" where
  "FastHex64ToBuffer val = InternalFastHexToBuffer val 16 []"

definition FastHex32ToBuffer :: "uint32 \<Rightarrow> string" where
  "FastHex32ToBuffer val = InternalFastHexToBuffer (ucast val) 8 []"

section \<open>Printing from the left, two digits at a time\<close>

definition two_ASCII_digits :: "string list" where
  "two_ASCII_digits =
    [''00'', ''01'', ''02'', ''03'', ''04'', ''05'', ''06'', ''07'', ''08'', ''09'',
     ''10'', ''11'', ''12'', ''13'', ''14'', ''15'', ''16'', ''17'', ''18'', ''19'',
     ''20'', ''21'', ''22'', ''23'', ''24'', ''25'', ''26'', ''27'', ''28'', ''29'',
     ''30'', ''31'', ''32'', ''33'', ''34'', ''35'', ''36'', ''37'', ''38'', ''39'',
     ''40'', ''41'', ''42'', ''43'', ''44'', ''45'', ''46'', ''47'', ''48'', ''49'',
     ''50'', ''51'', ''52'', ''53'', ''54'', ''55'', ''56'', ''57'', ''58'', ''59'',
     ''60'', ''61'', ''62'', ''63'', ''64'', ''65'', ''66'', ''67'', ''68'', ''69'',
     ''70'', ''71'', ''72'', ''73'', ''74'', ''75'', ''76'', ''77'', ''78'', ''79'',
     ''80'', ''81'', ''82'', ''83'', ''84'', ''85'', ''86'', ''87'', ''88'', ''89'',
     ''90'', ''91'', ''92'', ''93'', ''94'', ''95'', ''96'', ''97'', ''98'', ''99'']"

text \<open>One definition per label of \<open>FastUInt32ToBufferLeft\<close>; \<open>b\<close> is what has been written.\<close>

definition two_digits :: "uint32 \<Rightarrow> string" where
  "two_digits digits = two_ASCII_digits ! unat digits"

definition lt100 :: "uint32 \<Rightarrow> string \<Rightarrow> string" where
  "lt100 u b = b @ two_digits u"

definition sublt100 :: "uint32 \<Rightarrow> uint32 \<Rightarrow> string \<Rightarrow> string" where
  "sublt100 u digits b = lt100 (u - digits * 100) b"

definition lt10_000 :: "uint32 \<Rightarrow> string \<Rightarrow> string" where
  "lt10_000 u b = (let digits = u div 100 in sublt100 u digits (b @ two_digits digits))"

definition sublt10_000 :: "uint32 \<Rightarrow> uint32 \<Rightarrow> string \<Rightarrow> string" where
  "sublt10_000 u digits b = lt10_000 (u - digits * 10000) b"

definition lt1_000_000 :: "uint32 \<Rightarrow> string \<Rightarrow> string" where
  "lt1_000_000 u b = (let digits = u div 10000 in sublt10_000 u digits (b @ two_digits digits))"

definition sublt1_000_000 :: "uint32 \<Rightarrow> uint32 \<Rightarrow> string \<Rightarrow> string" where
  "sublt1_000_000 u digits b = lt1_000_000 (u - digits * 1000000) b"

definition lt100_000_000 :: "uint32 \<Rightarrow> string \<Rightarrow> string" where
  "lt100_000_000 u b = (let digits = u div 1000000 in sublt1_000_000 u digits (b @ two_digits digits))"

definition sublt100_000_000 :: "uint32 \<Rightarrow> uint32 \<Rightarrow> string \<Rightarrow> string" where
  "sublt100_000_000 u digits b = lt100_000_000 (u - digits * 100000000) b"

definition FastUInt32ToBufferLeft :: "uint32 \<Rightarrow> string" where
  "FastUInt32ToBufferLeft u =
     (if 1000000000 \<le> u then
        (let digits = u div 100000000 in sublt100_000_000 u digits (two_digits digits))
      else if u < 100 then
        (if 10 \<le> u then lt100 u [] else [digit (unat u)])
      else if u < 10000 then
        (if 1000 \<le> u then lt10_000 u []
         else (let digits = u div 100 in sublt100 u digits [digit (unat digits)]))
      else if u < 1000000 then
        (if 100000 \<le> u then lt1_000_000 u []
         else (let digits = u div 10000 in sublt10_000 u digits [digit (unat digits)]))
      else if u < 100000000 then
        (if 10000000 \<le> u then lt100_000_000 u []
         else (let digits = u div 1000000 in sublt1_000_000 u digits [digit (unat digits)]))
      else (let digits = u div 100000000 in sublt100_000_000 u digits [digit (unat digits)]))"

text \<open>Signed values are read from the word: \<open>u -= i\<close> on an unsigned zero is two's complement
  negation.\<close>

definition FastInt32ToBufferLeft :: "uint32 \<Rightarrow> string" where
  "FastInt32ToBufferLeft i =
     (if sint i < 0 then CHR ''-'' # FastUInt32ToBufferLeft (0 - i) else FastUInt32ToBufferLeft i)"

text \<open>The nine low digits of \<open>FastUInt64ToBufferLeft\<close>.\<close>

definition nine_digits :: "uint32 \<Rightarrow> string" where
  "nine_digits u =
     (let d1 = u div 10000000; u = u - d1 * 10000000;
          d2 = u div 100000; u = u - d2 * 100000;
          d3 = u div 1000; u = u - d3 * 1000;
          d4 = u div 10; u = u - d4 * 10
      in two_digits d1 @ two_digits d2 @ two_digits d3 @ two_digits d4 @ [digit (unat u)])"

lemma top_digits_smaller: "(ucast (ucast u64 :: uint32) :: uint64) \<noteq> u64 \<Longrightarrow> unat (u64 div 1000000000) < unat u64"
proof -
  assume "(ucast (ucast u64 :: uint32) :: uint64) \<noteq> u64"
  then have "0 < unat u64" by (cases "u64 = 0") (auto simp: unat_gt_0)
  then show ?thesis by (simp add: unat_div)
qed

function FastUInt64ToBufferLeft :: "uint64 \<Rightarrow> string" where
  "FastUInt64ToBufferLeft u64 =
     (let u = (ucast u64 :: uint32) in
      if ucast u = u64 then FastUInt32ToBufferLeft u
      else (let top_11_digits = u64 div 1000000000 in
            FastUInt64ToBufferLeft top_11_digits @
            nine_digits (ucast (u64 - top_11_digits * 1000000000))))"
  by pat_completeness auto
termination by (relation "measure unat") (auto simp: top_digits_smaller)

declare FastUInt64ToBufferLeft.simps [simp del]

definition FastInt64ToBufferLeft :: "uint64 \<Rightarrow> string" where
  "FastInt64ToBufferLeft i =
     (if sint i < 0 then CHR ''-'' # FastUInt64ToBufferLeft (0 - i) else FastUInt64ToBufferLeft i)"

text \<open>\<open>SimpleItoa\<close> for the types of fixed size: \<open>int\<close>, \<open>unsigned int\<close>, \<open>long long\<close>,
  \<open>unsigned long long\<close>.\<close>

definition SimpleItoa_int :: "int \<Rightarrow> string option" where
  "SimpleItoa_int i = FastInt32ToBuffer i"

definition SimpleItoa_uint :: "uint32 \<Rightarrow> string" where
  "SimpleItoa_uint i = FastUInt32ToBufferLeft i"

definition SimpleItoa_longlong :: "int \<Rightarrow> string option" where
  "SimpleItoa_longlong i = FastInt64ToBuffer i"

definition SimpleItoa_ulonglong :: "uint64 \<Rightarrow> string" where
  "SimpleItoa_ulonglong i = FastUInt64ToBufferLeft i"

section \<open>Hexadecimal with a minimum width\<close>

text \<open>\<open>AlphaNum(Hex)\<close>: the loop runs until the mask is used up.\<close>

lemma mask_shrinks: "drop_bit 4 m \<noteq> 0 \<Longrightarrow> unat (drop_bit 4 m) < unat (m :: uint64)"
proof -
  assume *: "drop_bit 4 m \<noteq> 0"
  then have "m \<noteq> 0" by auto
  then have "0 < unat m" by (simp add: unat_gt_0)
  then show ?thesis by (simp add: unat_drop_bit_eq drop_bit_eq_div unat_div)
qed

function AlphaNumHex_loop :: "uint64 \<Rightarrow> uint64 \<Rightarrow> string \<Rightarrow> string" where
  "AlphaNumHex_loop val m writer =
     (if drop_bit 4 m \<noteq> 0
      then AlphaNumHex_loop (drop_bit 4 val) (drop_bit 4 m) (hexdigits ! unat (val AND 0xF) # writer)
      else hexdigits ! unat (val AND 0xF) # writer)"
  by pat_completeness auto
termination by (relation "measure (\<lambda>(v, m, w). unat m)") (auto simp: mask_shrinks)

declare AlphaNumHex_loop.simps [simp del]

definition AlphaNumHex :: "uint64 \<Rightarrow> nat \<Rightarrow> string" where
  "AlphaNumHex val width =
     AlphaNumHex_loop val (push_bit ((width - 1) * 4) 1 OR val) []"

section \<open>Booleans\<close>

fun memcasecmp :: "string \<Rightarrow> string \<Rightarrow> int" where
  "memcasecmp (a # s1) (b # s2) =
     (let diff = int (uchar (ascii_tolower a)) - int (uchar (ascii_tolower b)) in
      if diff \<noteq> 0 then diff else memcasecmp s1 s2)"
| "memcasecmp _ _ = 0"

definition CaseEqual :: "string \<Rightarrow> string \<Rightarrow> bool" where
  "CaseEqual s1 s2 = (if length s1 \<noteq> length s2 then False else memcasecmp s1 s2 = 0)"

text \<open>\<open>safe_strtob\<close>: \<open>None\<close> where the code returns false.\<close>

definition safe_strtob :: "string \<Rightarrow> bool option" where
  "safe_strtob str =
     (if CaseEqual str ''true'' \<or> CaseEqual str ''t'' \<or> CaseEqual str ''yes'' \<or>
         CaseEqual str ''y'' \<or> CaseEqual str ''1'' then Some True
      else if CaseEqual str ''false'' \<or> CaseEqual str ''f'' \<or> CaseEqual str ''no'' \<or>
         CaseEqual str ''n'' \<or> CaseEqual str ''0'' then Some False
      else None)"

section \<open>The printers give the decimal notation\<close>

lemma put_digits_dec: "0 \<le> i \<Longrightarrow> put_digits i acc = dec (nat i) @ acc"
proof (induction i acc rule: put_digits.induct)
  case (1 i acc)
  show ?case
  proof (cases "0 < i div 10")
    case True
    then have "10 \<le> i" by simp
    then have "10 \<le> nat i" by simp
    moreover have "nat (i div 10) = nat i div 10" "nat (i mod 10) = nat i mod 10"
      using "1.prems" by (simp_all add: nat_div_distrib nat_mod_distrib)
    ultimately show ?thesis
      using True 1 by (subst put_digits.simps) (simp add: dec_step)
  next
    case False
    then have "i < 10" by simp
    with "1.prems" have "nat i < 10" "i mod 10 = i" by simp_all
    with False show ?thesis by (subst put_digits.simps) simp
  qed
qed

definition int_dec :: "int \<Rightarrow> string" where
  "int_dec i = (if i < 0 then CHR ''-'' # dec (nat (- i)) else dec (nat i))"

lemma FastIntToBuffer_dec:
  assumes "8 \<le> w" "- (2 ^ (w - 1)) \<le> i" "i < 2 ^ (w - 1)"
  shows "FastIntToBuffer w i = Some (int_dec i)"
proof -
  have big: "(2::int) ^ 7 \<le> 2 ^ (w - 1)"
    using assms(1) by (intro power_increasing) auto
  consider "0 \<le> i" | "- 10 < i" "i < 0" | "i \<le> - 10" by linarith
  then show ?thesis
  proof cases
    case 1
    then show ?thesis by (simp add: FastIntToBuffer_def put_digits_dec int_dec_def)
  next
    case 2
    with big show ?thesis by (simp add: FastIntToBuffer_def checked_signed_def int_dec_def)
  next
    case 3
    define j where "j = - (i + 10)"
    have j: "0 \<le> j" "j < 2 ^ (w - 1)" "- i = j + 10"
      using 3 assms(2) by (simp_all add: j_def)
    have "j div 10 + 1 \<le> j + 1" using j(1) by simp
    moreover have "j + 1 < 2 ^ (w - 1)" using 3 assms(2) by (simp add: j_def)
    ultimately have q: "j div 10 + 1 < 2 ^ (w - 1)" by linarith
    have "nat (- i) div 10 = nat (j div 10 + 1)" "nat (- i) mod 10 = nat (j mod 10)"
      unfolding j(3) using j(1) by (simp_all add: nat_div_distrib nat_mod_distrib nat_add_distrib)
    moreover have "10 \<le> nat (- i)" using 3 by simp
    ultimately have "dec (nat (- i)) = dec (nat (j div 10 + 1)) @ [digit (nat (j mod 10))]"
      by (simp only: dec_step)
    moreover have "0 \<le> j div 10 + 1" "- (2 ^ (w - 1)) \<le> j div 10 + 1"
      using j(1) big by (simp_all add: pos_imp_zdiv_nonneg_iff order_trans)
    ultimately show ?thesis
      using 3 j q assms big
      by (simp add: FastIntToBuffer_def checked_signed_def int_dec_def put_digits_dec flip: j_def)
  qed
qed

lemma word_div_rest: "u - u div k * k = (u mod k :: 'a::len word)"
  by (rule minus_div_mult_eq_mod)

lemma two_digits_dec_pad: "unat d < 100 \<Longrightarrow> two_digits d = dec_pad 2 (unat d)"
proof -
  assume "unat d < 100"
  moreover have "table_from (dec_pad 2) 0 two_ASCII_digits"
    by (simp add: two_ASCII_digits_def dec_pad_2 digit_numeral)
  ultimately show ?thesis
    using table_from_nth [of "dec_pad 2" 0 two_ASCII_digits "unat d"]
    by (simp add: two_digits_def two_ASCII_digits_def)
qed

lemma lt100_dec: "unat u < 100 \<Longrightarrow> lt100 u b = b @ dec_pad 2 (unat u)"
  by (simp add: lt100_def two_digits_dec_pad)

lemma sublt100_dec: "sublt100 u (u div 100) b = b @ dec_pad 2 (unat u mod 100)"
  by (simp add: sublt100_def word_div_rest lt100_dec unat_mod)

lemma lt10_000_dec: "unat u < 10000 \<Longrightarrow> lt10_000 u b = b @ dec_pad 4 (unat u)"
  using dec_pad_add [of 2 2 "unat u"]
  by (simp add: lt10_000_def sublt100_dec two_digits_dec_pad unat_div less_mult_imp_div_less)

lemma sublt10_000_dec: "sublt10_000 u (u div 10000) b = b @ dec_pad 4 (unat u mod 10000)"
  by (simp add: sublt10_000_def word_div_rest lt10_000_dec unat_mod)

lemma lt1_000_000_dec: "unat u < 1000000 \<Longrightarrow> lt1_000_000 u b = b @ dec_pad 6 (unat u)"
  using dec_pad_add [of 2 4 "unat u"]
  by (simp add: lt1_000_000_def sublt10_000_dec two_digits_dec_pad unat_div less_mult_imp_div_less)

lemma sublt1_000_000_dec: "sublt1_000_000 u (u div 1000000) b = b @ dec_pad 6 (unat u mod 1000000)"
  by (simp add: sublt1_000_000_def word_div_rest lt1_000_000_dec unat_mod)

lemma lt100_000_000_dec: "unat u < 100000000 \<Longrightarrow> lt100_000_000 u b = b @ dec_pad 8 (unat u)"
  using dec_pad_add [of 2 6 "unat u"]
  by (simp add: lt100_000_000_def sublt1_000_000_dec two_digits_dec_pad unat_div less_mult_imp_div_less)

lemma sublt100_000_000_dec:
  "sublt100_000_000 u (u div 100000000) b = b @ dec_pad 8 (unat u mod 100000000)"
  by (simp add: sublt100_000_000_def word_div_rest lt100_000_000_dec unat_mod)

lemma dec_split_one: "10 ^ k \<le> n \<Longrightarrow> n < 10 ^ k * 10 \<Longrightarrow> dec n = digit (n div 10 ^ k) # dec_pad k (n mod 10 ^ k)"
  by (simp add: dec_split less_mult_imp_div_less mult.commute)

lemma dec_split_two:
  assumes "10 ^ k * 10 \<le> n" "n < 10 ^ k * 100"
  shows "dec n = dec_pad 2 (n div 10 ^ k) @ dec_pad k (n mod 10 ^ k)"
proof -
  have "10 \<le> n div 10 ^ k" using assms(1) by (simp add: less_eq_div_iff_mult_less_eq mult.commute)
  moreover have "n div 10 ^ k < 100" using assms(2) by (simp add: less_mult_imp_div_less mult.commute)
  moreover have "10 ^ k \<le> n" using assms(1) by linarith
  ultimately show ?thesis by (simp add: dec_split dec_two)
qed

lemma FastUInt32ToBufferLeft_dec: "FastUInt32ToBufferLeft u = dec (unat u)"
proof -
  have small: "unat u < 4294967296" using unsigned_less [of u, where 'a=nat] by simp
  note blocks = lt100_dec lt10_000_dec lt1_000_000_dec lt100_000_000_dec
    sublt100_dec sublt10_000_dec sublt1_000_000_dec sublt100_000_000_dec
  note cmp = FastUInt32ToBufferLeft_def word_le_nat_alt word_less_nat_alt unat_div Let_def
  consider "unat u < 10" | "10 \<le> unat u" "unat u < 100"
    | "100 \<le> unat u" "unat u < 1000" | "1000 \<le> unat u" "unat u < 10000"
    | "10000 \<le> unat u" "unat u < 100000" | "100000 \<le> unat u" "unat u < 1000000"
    | "1000000 \<le> unat u" "unat u < 10000000" | "10000000 \<le> unat u" "unat u < 100000000"
    | "100000000 \<le> unat u" "unat u < 1000000000" | "1000000000 \<le> unat u"
    by linarith
  then show ?thesis
  proof cases
    case 1 then show ?thesis by (simp add: cmp)
  next
    case 2 then show ?thesis by (simp add: cmp blocks dec_two)
  next
    case 3 then show ?thesis using dec_split_one [of 2 "unat u"] by (simp add: cmp blocks)
  next
    case 4 then show ?thesis
      using dec_split_two [of 2 "unat u"] dec_pad_add [of 2 2 "unat u"] by (simp add: cmp blocks)
  next
    case 5 then show ?thesis using dec_split_one [of 4 "unat u"] by (simp add: cmp blocks)
  next
    case 6 then show ?thesis
      using dec_split_two [of 4 "unat u"] dec_pad_add [of 2 4 "unat u"] by (simp add: cmp blocks)
  next
    case 7 then show ?thesis using dec_split_one [of 6 "unat u"] by (simp add: cmp blocks)
  next
    case 8 then show ?thesis
      using dec_split_two [of 6 "unat u"] dec_pad_add [of 2 6 "unat u"] by (simp add: cmp blocks)
  next
    case 9 then show ?thesis using dec_split_one [of 8 "unat u"] by (simp add: cmp blocks)
  next
    case 10
    with small have "unat (u div 100000000) < 100" by (simp add: unat_div less_mult_imp_div_less)
    with 10 small show ?thesis
      using dec_split_two [of 8 "unat u"] by (simp add: cmp blocks two_digits_dec_pad)
  qed
qed

lemma nine_digits_dec: "unat u < 1000000000 \<Longrightarrow> nine_digits u = dec_pad 9 (unat u)"
  using dec_pad_add [of 2 7 "unat u"] dec_pad_add [of 2 5 "unat u mod 10000000"]
    dec_pad_add [of 2 3 "unat u mod 10000000 mod 100000"]
    dec_pad_add [of 2 1 "unat u mod 10000000 mod 100000 mod 1000"]
  by (simp add: nine_digits_def word_div_rest two_digits_dec_pad unat_div unat_mod Let_def
      less_mult_imp_div_less)

lemma FastUInt64ToBufferLeft_dec: "FastUInt64ToBufferLeft u64 = dec (unat u64)"
proof (induction u64 rule: FastUInt64ToBufferLeft.induct)
  case (1 u64)
  show ?case
  proof (cases "(ucast (ucast u64 :: uint32) :: uint64) = u64")
    case True
    then have "unat (ucast u64 :: uint32) = unat u64" by (metis unat_ucast_up)
    with True show ?thesis
      by (subst FastUInt64ToBufferLeft.simps) (simp add: FastUInt32ToBufferLeft_dec)
  next
    case False
    then have "\<not> unat u64 < 2 ^ 32"
      by (metis unat_ucast_down unat_ucast_up unsigned_word_eqI)
    then have ge: "10 ^ 9 \<le> unat u64" by simp
    have "unat (u64 mod 1000000000) < 1000000000" by (simp add: unat_mod)
    moreover from this have "unat (ucast (u64 mod 1000000000) :: uint32) = unat (u64 mod 1000000000)"
      by (intro unat_ucast_down) simp
    ultimately show ?thesis
      using False 1 dec_split [OF ge]
      by (subst FastUInt64ToBufferLeft.simps)
        (simp add: Let_def word_div_rest nine_digits_dec unat_div unat_mod)
  qed
qed

section \<open>The parsers against a reference\<close>

definition digits_value :: "int \<Rightarrow> string \<Rightarrow> int" where
  "digits_value v text = foldl (\<lambda>v c. v * 10 + (int (uchar c) - 48)) v text"

lemma digits_value_simps [simp]:
  "digits_value v [] = v"
  "digits_value v (c # t) = digits_value (v * 10 + (int (uchar c) - 48)) t"
  "digits_value v (s @ t) = digits_value (digits_value v s) t"
  by (simp_all add: digits_value_def)

lemma digits_value_grows: "0 \<le> v \<Longrightarrow> list_all ascii_isdigit t \<Longrightarrow> v \<le> digits_value v t"
proof (induction t arbitrary: v)
  case (Cons c t)
  define v' where "v' = v * 10 + (int (uchar c) - 48)"
  have "v \<le> v'" "0 \<le> v'" using Cons.prems by (auto simp: v'_def ascii_isdigit_def)
  moreover have "v' \<le> digits_value v' t" using Cons \<open>0 \<le> v'\<close> by simp
  ultimately show ?case by (simp add: v'_def)
qed simp

text \<open>What the positive loop computes: the value of the longest prefix of digits, the maximum
  where that value is too large, and success exactly when the prefix is the whole text and its
  value fits.\<close>

lemma positive_int_loop_spec:
  assumes "0 \<le> v" "v \<le> vmax"
  shows "positive_int_loop vmax v t =
    (let V = digits_value v (takeWhile ascii_isdigit t) in
     if vmax < V then (False, vmax) else (list_all ascii_isdigit t, V))"
  using assms
proof (induction t arbitrary: v)
  case (Cons c t)
  show ?case
  proof (cases "ascii_isdigit c")
    case False
    then have "10 \<le> int (uchar c) - 48 \<or> int (uchar c) - 48 < 0" by (auto simp: ascii_isdigit_def)
    with False Cons.prems show ?thesis by (auto simp: Let_def)
  next
    case True
    define d where "d = int (uchar c) - 48"
    have d: "0 \<le> d" "d < 10" using True by (auto simp: d_def ascii_isdigit_def)
    define V where "V = digits_value (v * 10 + d) (takeWhile ascii_isdigit t)"
    have grows: "v * 10 + d \<le> V"
      unfolding V_def using d(1) Cons.prems by (intro digits_value_grows) (auto simp: list_all_iff dest: set_takeWhileD)
    show ?thesis
    proof (cases "vmax div 10 < v \<or> vmax - d < v * 10")
      case over: True
      then have "vmax < v * 10 + d" using d by (auto simp: div_less_iff_less_mult)
      with grows over d True show ?thesis by (auto simp: d_def V_def Let_def)
    next
      case False
      with Cons.IH [of "v * 10 + d"] Cons.prems d True show ?thesis by (auto simp: d_def V_def Let_def)
    qed
  qed
qed (simp add: Let_def)

text \<open>The negative loop mirrors the positive one.\<close>

lemma negative_int_loop_mirror:
  "negative_int_loop vmin (- (- vmin div 10)) v t = map_prod id uminus (positive_int_loop (- vmin) (- v) t)"
proof (induction t arbitrary: v)
  case (Cons c t)
  have "v * 10 < vmin + d \<longleftrightarrow> - vmin - d < - v * 10" for d by linarith
  moreover have "- (v * 10 - d) = - v * 10 + d" for d by linarith
  ultimately show ?case
    using Cons.IH [of "v * 10 - (int (uchar c) - 48)"] by (simp add: Let_def)
qed simp

lemma vmin_over_base:
  "vmin < 0 \<Longrightarrow> vmin sdiv 10 = - (- vmin div 10)" "vmin < 0 \<Longrightarrow> \<not> 0 < (vmin smod 10 :: int)"
proof -
  assume "vmin < 0"
  then show "vmin sdiv 10 = - (- vmin div 10)" by (simp add: signed_divide_int_def)
  from \<open>vmin < 0\<close> have "(- vmin div 10) * 10 \<le> - vmin" by simp
  then show "\<not> 0 < (vmin smod 10 :: int)"
    using \<open>vmin < 0\<close> by (simp add: signed_modulo_int_def signed_divide_int_def)
qed

lemma safe_parse_negative_int_spec:
  assumes "vmin < 0"
  shows "safe_parse_negative_int vmin t =
    (let V = - digits_value 0 (takeWhile ascii_isdigit t) in
     if V < vmin then (False, vmin) else (list_all ascii_isdigit t, V))"
  using assms positive_int_loop_spec [of 0 "- vmin" t]
  by (auto simp: safe_parse_negative_int_def vmin_over_base negative_int_loop_mirror Let_def)

text \<open>The reference for the signed parser: blanks trimmed, an optional sign, digits; saturated
  at the bounds of the type.\<close>

definition parse_int_ref :: "int \<Rightarrow> int \<Rightarrow> string \<Rightarrow> bool \<times> int" where
  "parse_int_ref vmin vmax text =
     (case safe_parse_sign text of
        None \<Rightarrow> (False, 0)
      | Some (negative, t) \<Rightarrow>
          (let V = (if negative then - 1 else 1) * digits_value 0 (takeWhile ascii_isdigit t) in
           if vmax < V then (False, vmax)
           else if V < vmin then (False, vmin)
           else (list_all ascii_isdigit t, V)))"

lemma digits_value_nonneg: "0 \<le> digits_value 0 (takeWhile ascii_isdigit t)"
  by (rule digits_value_grows) (auto simp: list_all_iff dest: set_takeWhileD)

lemma safe_int_internal_ref:
  assumes "vmin < 0" "0 < vmax"
  shows "safe_int_internal vmin vmax text = parse_int_ref vmin vmax text"
proof (cases "safe_parse_sign text")
  case (Some nt)
  obtain negative t where "nt = (negative, t)" by force
  with Some assms positive_int_loop_spec [of 0 vmax t] digits_value_nonneg [of t] show ?thesis
    by (auto simp: safe_int_internal_def parse_int_ref_def safe_parse_positive_int_def
        safe_parse_negative_int_spec Let_def)
qed (simp add: safe_int_internal_def parse_int_ref_def)

section \<open>Reading back what was printed\<close>

lemma digits_value_dec: "digits_value 0 (dec n) = int n"
proof (induction n rule: dec.induct)
  case (1 n)
  show ?case
  proof (cases "n < 10")
    case True
    then show ?thesis by (simp add: uchar_digit)
  next
    case False
    then have "digits_value 0 (dec n) = int (n div 10) * 10 + int (n mod 10)"
      using 1 by (simp add: dec_step uchar_digit)
    then show ?thesis by presburger
  qed
qed

lemma dec_all_digits [simp]: "list_all ascii_isdigit (dec n)"
  using dec_digits by (auto simp: list_all_iff ascii_isdigit_def)

lemma digit_run: "list_all ascii_isdigit t \<Longrightarrow> takeWhile ascii_isdigit t = t"
  by (simp add: takeWhile_all list_all_iff)

lemma trim_blanks:
  assumes "s \<noteq> []" "hd s \<noteq> CHR '' ''" "last s \<noteq> CHR '' ''"
  shows "rev (dropWhile (\<lambda>c. c = CHR '' '') (rev (dropWhile (\<lambda>c. c = CHR '' '')
    (replicate a (CHR '' '') @ s @ replicate b (CHR '' ''))))) = s"
proof -
  have "dropWhile (\<lambda>c. c = CHR '' '') (replicate a (CHR '' '') @ s @ replicate b (CHR '' '')) =
      s @ replicate b (CHR '' '')"
    using assms(1,2) by (cases s) (auto simp: dropWhile_append)
  moreover have "dropWhile (\<lambda>c. c = CHR '' '') (replicate b (CHR '' '') @ rev s) = rev s"
    using assms(1,3) by (cases s rule: rev_cases) (auto simp: dropWhile_append)
  ultimately show ?thesis by simp
qed

lemma digit_char_not_sign:
  "ascii_isdigit c \<Longrightarrow> c \<noteq> CHR '' '' \<and> c \<noteq> CHR ''-'' \<and> c \<noteq> CHR ''+''"
  by (auto simp: ascii_isdigit_def)

lemma dec_ends: "ascii_isdigit (hd (dec n))" "ascii_isdigit (last (dec n))"
  using dec_all_digits [of n] by (simp_all add: list_all_iff)

lemma parse_sign_int_dec:
  "safe_parse_sign (replicate a (CHR '' '') @ int_dec i @ replicate b (CHR '' '')) =
     Some (i < 0, dec (nat \<bar>i\<bar>))"
proof -
  have ends: "int_dec i \<noteq> []" "hd (int_dec i) \<noteq> CHR '' ''" "last (int_dec i) \<noteq> CHR '' ''"
    using dec_ends digit_char_not_sign by (auto simp: int_dec_def)
  have "\<exists>c t. dec (nat i) = c # t \<and> ascii_isdigit c"
    using dec_ends(1) [of "nat i"] by (cases "dec (nat i)") auto
  then show ?thesis
    unfolding safe_parse_sign_def Let_def trim_blanks [OF ends]
    by (auto simp: int_dec_def dest: digit_char_not_sign)
qed

lemma parse_int_dec:
  assumes "vmin < 0" "0 < vmax" "vmin \<le> i" "i \<le> vmax"
  shows "safe_int_internal vmin vmax (replicate a (CHR '' '') @ int_dec i @ replicate b (CHR '' '')) = (True, i)"
  using assms
  by (auto simp: safe_int_internal_ref parse_int_ref_def parse_sign_int_dec digit_run digits_value_dec
      Let_def)

lemma parse_uint_dec:
  assumes "int n \<le> vmax"
  shows "safe_uint_internal vmax (replicate a (CHR '' '') @ dec n @ replicate b (CHR '' '')) = (True, int n)"
  using assms parse_sign_int_dec [of a "int n" b] positive_int_loop_spec [of 0 vmax "dec n"]
  by (auto simp: safe_uint_internal_def safe_parse_positive_int_def digit_run digits_value_dec
      int_dec_def Let_def)

section \<open>Hexadecimal\<close>

fun hex_pad :: "nat \<Rightarrow> nat \<Rightarrow> string" where
  "hex_pad 0 n = []"
| "hex_pad (Suc k) n = hex_pad k (n div 16) @ [hexdigits ! (n mod 16)]"

definition hex_value :: "string \<Rightarrow> nat" where
  "hex_value s = foldl (\<lambda>v c. v * 16 + hex_digit_to_int c) 0 s"

lemma length_hex_pad [simp]: "length (hex_pad k n) = k"
  by (induction k arbitrary: n) auto

lemma hex_value_pad: "n < 16 ^ k \<Longrightarrow> hex_value (hex_pad k n) = n"
proof (induction k arbitrary: n)
  case (Suc k)
  then have "n div 16 < 16 ^ k" by (simp add: less_mult_imp_div_less mult.commute)
  with Suc.IH show ?case by (simp add: hex_value_def hexdigit_facts)
qed (simp add: hex_value_def)

lemma unat_low_nibble: "unat (v AND 0xf) = unat v mod 16" for v :: uint64
proof -
  have "v AND 0xf = take_bit 4 v" by (simp add: take_bit_eq_mask mask_eq_exp_minus_1)
  then show ?thesis by (simp add: take_bit_eq_mod unat_mod)
qed

lemma InternalFastHexToBuffer_pad: "InternalFastHexToBuffer v k acc = hex_pad k (unat v) @ acc"
  by (induction k arbitrary: v acc)
    (simp_all add: unat_low_nibble unat_drop_bit_eq drop_bit_eq_div unat_div)

lemma AlphaNumHex_loop_pad:
  "16 ^ k \<le> unat m \<Longrightarrow> unat m < 16 ^ Suc k \<Longrightarrow>
   AlphaNumHex_loop val m acc = hex_pad (Suc k) (unat val) @ acc"
proof (induction val m acc arbitrary: k rule: AlphaNumHex_loop.induct)
  case (1 v m acc)
  have quarter: "unat (drop_bit 4 m) = unat m div 16"
    by (simp add: unat_drop_bit_eq drop_bit_eq_div unat_div)
  show ?case
  proof (cases k)
    case 0
    with "1.prems" have "drop_bit 4 m = 0" using quarter by (simp add: unat_eq_zero)
    with 0 show ?thesis by (subst AlphaNumHex_loop.simps) (simp add: unat_low_nibble)
  next
    case (Suc j)
    have low: "16 ^ j \<le> unat (drop_bit 4 m)"
      using "1.prems"(1) Suc by (simp add: quarter less_eq_div_iff_mult_less_eq mult.commute)
    moreover have "unat (drop_bit 4 m) < 16 ^ Suc j"
      using "1.prems"(2) Suc by (simp add: quarter less_mult_imp_div_less mult.commute)
    moreover have "drop_bit 4 m \<noteq> 0"
    proof
      assume "drop_bit 4 m = 0"
      with low show False by simp
    qed
    ultimately show ?thesis
      using "1.IH" [of j] Suc
      by (subst AlphaNumHex_loop.simps)
        (simp add: unat_low_nibble unat_drop_bit_eq drop_bit_eq_div unat_div)
  qed
qed

lemma nibbles_of: "0 < n \<Longrightarrow> n < 16 ^ 16 \<Longrightarrow> \<exists>k < 16. 16 ^ k \<le> n \<and> n < (16::nat) ^ Suc k"
proof -
  assume n: "0 < n" "n < 16 ^ 16"
  define k where "k = (LEAST k. n < (16::nat) ^ Suc k)"
  have 15: "n < (16::nat) ^ Suc 15" using n(2) by simp
  then have up: "n < 16 ^ Suc k" unfolding k_def by (rule LeastI)
  have "k \<le> 15" unfolding k_def using 15 by (rule Least_le)
  moreover have "16 ^ k \<le> n"
  proof (cases k)
    case 0
    with n show ?thesis by simp
  next
    case (Suc j)
    have "\<not> n < 16 ^ Suc j" using Suc not_less_Least [of j "\<lambda>k. n < 16 ^ Suc k"] by (simp add: k_def)
    with Suc show ?thesis by simp
  qed
  ultimately show ?thesis using up by (intro exI [of _ k]) simp
qed

lemma AlphaNumHex_pad:
  assumes "1 \<le> width" "width \<le> 16"
  shows "\<exists>k. AlphaNumHex val width = hex_pad k (unat val) \<and> unat val < 16 ^ k \<and> width \<le> k \<and> k \<le> 16"
proof -
  define m where "m = (push_bit ((width - 1) * 4) 1 OR val :: uint64)"
  have pow: "(16::nat) ^ (width - 1) = 2 ^ ((width - 1) * 4)" by (simp add: power_mult mult.commute [of _ 4])
  have lt: "(2::nat) ^ ((width - 1) * 4) < 2 ^ 64" using assms by (intro power_strict_increasing) auto
  have one: "unat (push_bit ((width - 1) * 4) 1 :: uint64) = 16 ^ (width - 1)"
  proof -
    have "(push_bit ((width - 1) * 4) 1 :: uint64) = of_nat (2 ^ ((width - 1) * 4))"
      by (simp add: push_bit_eq_mult)
    then show ?thesis using lt by (simp only: unat_of_nat pow) simp
  qed
  have ge: "16 ^ (width - 1) \<le> unat m"
    unfolding m_def one [symmetric] by (simp add: le_word_or2 flip: word_le_nat_alt)
  have le: "unat val \<le> unat m"
    unfolding m_def by (simp add: le_word_or1 flip: word_le_nat_alt)
  have "unat m < 16 ^ 16" using unsigned_less [of m, where 'a = nat] by simp
  moreover have "0 < unat m" using ge by (rule less_le_trans [rotated]) simp
  ultimately obtain k where k: "k < 16" "16 ^ k \<le> unat m" "unat m < 16 ^ Suc k"
    using nibbles_of by blast
  have "(16::nat) ^ (width - 1) < 16 ^ Suc k" using ge k(3) by linarith
  then have "width - 1 < Suc k" by (rule power_less_imp_less_exp [rotated]) simp
  moreover have "AlphaNumHex val width = hex_pad (Suc k) (unat val)"
    using AlphaNumHex_loop_pad [OF k(2,3)] by (simp add: AlphaNumHex_def m_def)
  ultimately show ?thesis using k(1) le k(3) assms by (intro exI [of _ "Suc k"]) auto
qed

section \<open>Properties\<close>

text \<open>\<open>FastInt32ToBuffer\<close> and \<open>FastInt64ToBuffer\<close> print every value of their type, the
  most negative one included, in decimal: no step overflows, and the text fits in front of the
  NUL at offset 11 resp. 21.\<close>

theorem FastIntToBuffer_correct:
  "(\<forall>i. - (2 ^ 31) \<le> i \<and> i < 2 ^ 31 \<longrightarrow>
      FastInt32ToBuffer i = Some (int_dec i) \<and> length (int_dec i) \<le> 11) \<and>
   (\<forall>i. - (2 ^ 63) \<le> i \<and> i < 2 ^ 63 \<longrightarrow>
      FastInt64ToBuffer i = Some (int_dec i) \<and> length (int_dec i) \<le> 21)"
proof -
  have "length (int_dec i) \<le> Suc k" if "- (10 ^ k) < i" "i < 10 ^ k" "0 < k" for i :: int and k
  proof -
    have "nat \<bar>i\<bar> < 10 ^ k" using that by (simp add: nat_less_iff abs_less_iff)
    then have "length (dec (nat \<bar>i\<bar>)) \<le> k" using that(3) by (intro dec_length)
    then show ?thesis by (auto simp: int_dec_def split: if_splits)
  qed
  from this [of 10] this [of 20] show ?thesis
    by (auto simp: FastInt32ToBuffer_def FastInt64ToBuffer_def FastIntToBuffer_dec)
qed

theorem FastIntToBuffer_correct_witness:
  "FastInt32ToBuffer (- 2147483648) = Some ''-2147483648''"
  using conjunct1 [OF FastIntToBuffer_correct, rule_format, of "- 2147483648"]
  by (simp add: int_dec_def dec_step digit_numeral)

text \<open>The two-digits-at-a-time printers with their jumps agree with plain decimal notation
  on every 32-bit and 64-bit value, unsigned and signed.\<close>

theorem FastToBufferLeft_correct:
  "FastUInt32ToBufferLeft u = dec (unat u) \<and> FastUInt64ToBufferLeft v = dec (unat v) \<and>
   FastInt32ToBufferLeft u = int_dec (sint u) \<and> FastInt64ToBufferLeft v = int_dec (sint v)"
  by (simp add: FastUInt32ToBufferLeft_dec FastUInt64ToBufferLeft_dec FastInt32ToBufferLeft_def
      FastInt64ToBufferLeft_def int_dec_def unat_uminus_negative unat_nonnegative)

text \<open>The integer parsers implement their reference: text that is not blank-trimmed, optionally
  signed decimal is refused, values outside the type are refused with the nearest bound stored,
  and everything else is accepted with its value.\<close>

theorem safe_strto_reference:
  "safe_strto32 s = parse_int_ref (- (2 ^ 31)) (2 ^ 31 - 1) s \<and>
   safe_strto64 s = parse_int_ref (- (2 ^ 63)) (2 ^ 63 - 1) s"
  by (simp add: safe_strto32_def safe_strto64_def safe_int_internal_ref)

text \<open>C40. Printing a number with \<open>SimpleItoa\<close> and parsing it back gives the number, for all four
  integer types and with any blanks around it.\<close>

theorem itoa_strto_roundtrip:
  fixes a b :: nat and u :: uint32 and v :: uint64
  defines "pad s \<equiv> replicate a (CHR '' '') @ s @ replicate b (CHR '' '')"
  shows "(\<forall>i. - (2 ^ 31) \<le> i \<and> i < 2 ^ 31 \<longrightarrow>
           (\<exists>s. SimpleItoa_int i = Some s \<and> safe_strto32 (pad s) = (True, i))) \<and>
         (\<forall>i. - (2 ^ 63) \<le> i \<and> i < 2 ^ 63 \<longrightarrow>
           (\<exists>s. SimpleItoa_longlong i = Some s \<and> safe_strto64 (pad s) = (True, i))) \<and>
         safe_strtou32 (pad (SimpleItoa_uint u)) = (True, uint u) \<and>
         safe_strtou64 (pad (SimpleItoa_ulonglong v)) = (True, uint v)"
proof -
  have "int (unat u) \<le> 2 ^ 32 - 1" "int (unat v) \<le> 2 ^ 64 - 1"
    using unsigned_less [of u, where 'a = int] unsigned_less [of v, where 'a = int] by simp_all
  from this [THEN parse_uint_dec [of _ _ a b]] show ?thesis
    by (auto simp: pad_def SimpleItoa_int_def SimpleItoa_longlong_def SimpleItoa_uint_def
        SimpleItoa_ulonglong_def FastInt32ToBuffer_def FastInt64ToBuffer_def FastIntToBuffer_dec
        FastUInt32ToBufferLeft_dec FastUInt64ToBufferLeft_dec safe_strto32_def safe_strto64_def
        safe_strtou32_def safe_strtou64_def intro: parse_int_dec)
qed

theorem itoa_strto_roundtrip_witness:
  "\<exists>s. SimpleItoa_int (- 42) = Some s \<and> safe_strto32 (replicate 1 (CHR '' '') @ s @ replicate 2 (CHR '' '')) = (True, - 42)"
  by (rule conjunct1 [OF itoa_strto_roundtrip, rule_format]) simp

text \<open>The hexadecimal writers are exact: \<open>FastHex64ToBuffer\<close> writes sixteen digits and
  \<open>FastHex32ToBuffer\<close> eight that read back as the value, and \<open>AlphaNum(Hex(v, width))\<close> writes
  at least \<open>width\<close> digits and at most sixteen that do.\<close>

theorem hex_writers_correct:
  "length (FastHex64ToBuffer v) = 16 \<and> hex_value (FastHex64ToBuffer v) = unat v \<and>
   length (FastHex32ToBuffer u) = 8 \<and> hex_value (FastHex32ToBuffer u) = unat u \<and>
   (1 \<le> width \<and> width \<le> 16 \<longrightarrow>
     hex_value (AlphaNumHex v width) = unat v \<and> width \<le> length (AlphaNumHex v width) \<and>
     length (AlphaNumHex v width) \<le> 16)"
proof -
  have "unat v < 16 ^ 16" "unat u < 16 ^ 8"
    using unsigned_less [of v, where 'a = nat] unsigned_less [of u, where 'a = nat] by simp_all
  then show ?thesis
    using AlphaNumHex_pad [of width v]
    by (auto simp: FastHex64ToBuffer_def FastHex32ToBuffer_def InternalFastHexToBuffer_pad
        hex_value_pad unat_ucast_up)
qed

theorem hex_writers_correct_witness: "hex_value (AlphaNumHex 255 4) = 255 \<and> 4 \<le> length (AlphaNumHex 255 4)"
  using hex_writers_correct [of 255 0 4] by simp

end
