(* ===== verification/Strutil_Base64.thy ===== *)
theory Strutil_Base64
  imports Prelude "HOL-Library.Signed_Division"
begin

text \<open>
  Base64 (stubs/strutil.cc): \<open>Base64EscapeInternal\<close> and \<open>Base64UnescapeInternal\<close> with their
  tables and wrappers. The decoder works on the rest of the source, whose length is the code's
  \<open>szsrc\<close>; reading past its end is a result of its own (\<open>PastEnd\<close>), as is the return value -1
  (\<open>Invalid\<close>). The two alphabets are two interpretations of one locale. The encoder computes its sizes in
  \<open>int\<close>, which wraps around; from 536870911 bytes on, three times the size of the destination does.
\<close>

section \<open>The encoder\<close>

definition CalculateBase64EscapedLen :: "int \<Rightarrow> bool \<Rightarrow> int" where
  "CalculateBase64EscapedLen input_len do_padding =
     (let len = to_int32 (input_len sdiv 3 * 4) in
      if input_len smod 3 = 0 then len
      else if input_len smod 3 = 1 then
        (let len = to_int32 (len + 2) in if do_padding then to_int32 (len + 2) else len)
      else (let len = to_int32 (len + 3) in if do_padding then to_int32 (len + 1) else len))"

text \<open>A byte as the unsigned value it is promoted to, and the big-endian loads.\<close>

abbreviation byte_val :: "char \<Rightarrow> uint32" where
  "byte_val c \<equiv> of_nat (uchar c)"

definition BigEndian_Load32 :: "char \<Rightarrow> char \<Rightarrow> char \<Rightarrow> char \<Rightarrow> uint32" where
  "BigEndian_Load32 a b c d =
     push_bit 24 (byte_val a) OR push_bit 16 (byte_val b) OR push_bit 8 (byte_val c) OR byte_val d"

definition BigEndian_Load16 :: "char \<Rightarrow> char \<Rightarrow> uint32" where
  "BigEndian_Load16 a b = push_bit 8 (byte_val a) OR byte_val b"

definition escape_quad :: "string \<Rightarrow> uint32 \<Rightarrow> string" where
  "escape_quad base64 i =
     (let c0 = base64 ! unat (drop_bit 18 i); i = i AND 0x3FFFF;
          c1 = base64 ! unat (drop_bit 12 i); i = i AND 0xFFF;
          c2 = base64 ! unat (drop_bit 6 i); i = i AND 0x3F;
          c3 = base64 ! unat i
      in [c0, c1, c2, c3])"

text \<open>\<open>while (cur_src < limit_src - 3)\<close>: three bytes per round while more than three are left.\<close>

fun Base64EscapeLoop :: "string \<Rightarrow> string \<Rightarrow> string \<Rightarrow> string \<times> string" where
  "Base64EscapeLoop base64 (a # b # c # d # src) out =
     Base64EscapeLoop base64 (d # src)
       (out @ escape_quad base64 (drop_bit 8 (BigEndian_Load32 a b c d)))"
| "Base64EscapeLoop base64 src out = (src, out)"

text \<open>The result is the text written, empty where the code returns 0.\<close>

definition Base64EscapeInternal :: "string \<Rightarrow> int \<Rightarrow> int \<Rightarrow> string \<Rightarrow> bool \<Rightarrow> string" where
  "Base64EscapeInternal src szsrc szdest base64 do_padding =
     (if szsrc \<le> 0 then []
      else if to_int32 (szsrc * 4) > to_int32 (szdest * 3) then []
      else (case Base64EscapeLoop base64 (take (nat szsrc) src) [] of (tail, out) \<Rightarrow>
        (let szdest = szdest - int (length out) in
         case tail of
           [] \<Rightarrow> out
         | [a] \<Rightarrow>
             (if szdest - 2 < 0 then []
              else let i = byte_val a;
                       c0 = base64 ! unat (drop_bit 2 i); i = i AND 0x3;
                       out = out @ [c0, base64 ! unat (push_bit 4 i)]
                   in if do_padding then
                        (if szdest - 2 - 2 < 0 then [] else out @ [CHR ''='', CHR ''=''])
                      else out)
         | [a, b] \<Rightarrow>
             (if szdest - 3 < 0 then []
              else let i = BigEndian_Load16 a b;
                       c0 = base64 ! unat (drop_bit 10 i); i = i AND 0x3FF;
                       c1 = base64 ! unat (drop_bit 4 i); i = i AND 0x00F;
                       out = out @ [c0, c1, base64 ! unat (push_bit 2 i)]
                   in if do_padding then
                        (if szdest - 3 - 1 < 0 then [] else out @ [CHR ''=''])
                      else out)
         | a # b # c # _ \<Rightarrow>
             (if szdest - 4 < 0 then []
              else out @ escape_quad base64 (push_bit 16 (byte_val a) + BigEndian_Load16 b c)))))"

text \<open>The wrapper sizes the destination with \<open>CalculateBase64EscapedLen\<close> and erases what was not
  written. A negative size makes \<open>resize\<close> throw (\<open>None\<close>).\<close>

definition Base64Escape_string :: "string \<Rightarrow> int \<Rightarrow> bool \<Rightarrow> string \<Rightarrow> string option" where
  "Base64Escape_string src szsrc do_padding base64_chars =
     (let calc_escaped_size = CalculateBase64EscapedLen szsrc do_padding in
      if calc_escaped_size < 0 then None
      else Some (Base64EscapeInternal src szsrc calc_escaped_size base64_chars do_padding))"

definition kBase64Chars :: string where
  "kBase64Chars = ''ABCDEFGHIJKLMNOPQRSTUVWXYZabcdefghijklmnopqrstuvwxyz0123456789+/''"

definition kWebSafeBase64Chars :: string where
  "kWebSafeBase64Chars = ''ABCDEFGHIJKLMNOPQRSTUVWXYZabcdefghijklmnopqrstuvwxyz0123456789-_''"

definition Base64Escape_padding :: "string \<Rightarrow> int \<Rightarrow> bool \<Rightarrow> string option" where
  "Base64Escape_padding src szsrc do_padding = Base64Escape_string src szsrc do_padding kBase64Chars"

definition WebSafeBase64Escape_padding :: "string \<Rightarrow> int \<Rightarrow> bool \<Rightarrow> string option" where
  "WebSafeBase64Escape_padding src szsrc do_padding = Base64Escape_string src szsrc do_padding kWebSafeBase64Chars"

definition Base64Escape :: "string \<Rightarrow> string option" where
  "Base64Escape src = Base64Escape_padding src (to_int32 (int (length src))) True"

definition WebSafeBase64Escape :: "string \<Rightarrow> string option" where
  "WebSafeBase64Escape src = WebSafeBase64Escape_padding src (to_int32 (int (length src))) False"

definition WebSafeBase64EscapeWithPadding :: "string \<Rightarrow> string option" where
  "WebSafeBase64EscapeWithPadding src = WebSafeBase64Escape_padding src (to_int32 (int (length src))) True"

section \<open>The decoder\<close>

definition kUnBase64 :: "int list" where
  "kUnBase64 =
    replicate 40 (-1) @
    [-1,      -1,      -1,      62,      -1,      -1,      -1,      63,
     52,      53,      54,      55,      56,      57,      58,      59,
     60,      61,      -1,      -1,      -1,      -1,      -1,      -1,
     -1,       0,       1,       2,       3,       4,       5,       6,
      7,       8,       9,      10,      11,      12,      13,      14,
     15,      16,      17,      18,      19,      20,      21,      22,
     23,      24,      25,      -1,      -1,      -1,      -1,      -1,
     -1,      26,      27,      28,      29,      30,      31,      32,
     33,      34,      35,      36,      37,      38,      39,      40,
     41,      42,      43,      44,      45,      46,      47,      48,
     49,      50,      51,      -1,      -1,      -1,      -1,      -1] @
    replicate 128 (-1)"

definition kUnWebSafeBase64 :: "int list" where
  "kUnWebSafeBase64 =
    replicate 40 (-1) @
    [-1,      -1,      -1,      -1,      -1,      62,      -1,      -1,
     52,      53,      54,      55,      56,      57,      58,      59,
     60,      61,      -1,      -1,      -1,      -1,      -1,      -1,
     -1,       0,       1,       2,       3,       4,       5,       6,
      7,       8,       9,      10,      11,      12,      13,      14,
     15,      16,      17,      18,      19,      20,      21,      22,
     23,      24,      25,      -1,      -1,      -1,      -1,      63,
     -1,      26,      27,      28,      29,      30,      31,      32,
     33,      34,      35,      36,      37,      38,      39,      40,
     41,      42,      43,      44,      45,      46,      47,      48,
     49,      50,      51,      -1,      -1,      -1,      -1,      -1] @
    replicate 128 (-1)"

text \<open>The macro \<open>GET_INPUT(label, remain)\<close>: the next data character, or the character that made
  it break out of the loop, each with \<open>decode\<close>, \<open>ch\<close> and the rest of the source.\<close>

datatype get_input = GotInput int char string | BadInput int char string | NoInput

fun GET_INPUT :: "int list \<Rightarrow> nat \<Rightarrow> string \<Rightarrow> get_input" where
  "GET_INPUT unbase64 remain [] = NoInput"
| "GET_INPUT unbase64 remain (ch # src) =
     (let decode = unbase64 ! uchar ch in
      if decode < 0 then
        (if ascii_isspace ch \<and> remain \<le> length src then GET_INPUT unbase64 remain src
         else BadInput decode ch src)
      else GotInput decode ch src)"

text \<open>One round of the first loop up to the output: four characters in \<open>temp\<close>, or a break with
  the number of characters read as \<open>state\<close>.\<close>

datatype quad =
    Quad uint32 int char string
  | QuadBreak nat uint32 int char string
  | QuadPastEnd

definition shift_in :: "bool \<Rightarrow> uint32 \<Rightarrow> int \<Rightarrow> uint32" where
  "shift_in has_dest temp decode = (if has_dest then push_bit 6 temp OR word_of_int decode else temp)"

definition slow_quad :: "int list \<Rightarrow> bool \<Rightarrow> uint32 \<Rightarrow> string \<Rightarrow> quad" where
  "slow_quad unbase64 has_dest temp src =
     (case GET_INPUT unbase64 4 src of
        NoInput \<Rightarrow> QuadPastEnd
      | BadInput decode ch src \<Rightarrow> QuadBreak 0 temp decode ch src
      | GotInput decode ch src \<Rightarrow>
     (let temp = (if has_dest then word_of_int decode else temp) in
      case GET_INPUT unbase64 3 src of
        NoInput \<Rightarrow> QuadPastEnd
      | BadInput decode ch src \<Rightarrow> QuadBreak 1 temp decode ch src
      | GotInput decode ch src \<Rightarrow>
     (let temp = shift_in has_dest temp decode in
      case GET_INPUT unbase64 2 src of
        NoInput \<Rightarrow> QuadPastEnd
      | BadInput decode ch src \<Rightarrow> QuadBreak 2 temp decode ch src
      | GotInput decode ch src \<Rightarrow>
     (let temp = shift_in has_dest temp decode in
      case GET_INPUT unbase64 1 src of
        NoInput \<Rightarrow> QuadPastEnd
      | BadInput decode ch src \<Rightarrow> QuadBreak 3 temp decode ch src
      | GotInput decode ch src \<Rightarrow> Quad (shift_in has_dest temp decode) decode ch src))))"

definition next_quad :: "int list \<Rightarrow> bool \<Rightarrow> uint32 \<Rightarrow> string \<Rightarrow> quad" where
  "next_quad unbase64 has_dest temp src =
     (case src of
        s0 # s1 # s2 # s3 # rest \<Rightarrow>
          (if s0 = CHR 0x00 \<or> s1 = CHR 0x00 \<or> s2 = CHR 0x00
           then slow_quad unbase64 has_dest temp src
           else (let temp = push_bit 18 (word_of_int (unbase64 ! uchar s0)) OR
                            push_bit 12 (word_of_int (unbase64 ! uchar s1)) OR
                            push_bit 6 (word_of_int (unbase64 ! uchar s2)) OR
                            word_of_int (unbase64 ! uchar s3)
                 in if temp AND 0x80000000 \<noteq> 0 then slow_quad unbase64 has_dest temp src
                    else Quad temp (- 1) (CHR 0x00) rest))
      | _ \<Rightarrow> QuadPastEnd)"

lemma GET_INPUT_shorter:
  "GET_INPUT unbase64 remain src = GotInput d ch r \<Longrightarrow> length r < length src"
  by (induction src) (fastforce simp: Let_def split: if_splits)+

lemma next_quad_shorter:
  "next_quad unbase64 has_dest temp src = Quad t d ch r \<Longrightarrow> length r < length src"
proof -
  have slow: "slow_quad unbase64 has_dest temp' src = Quad t d ch r \<Longrightarrow> length r < length src" for temp'
    by (auto simp: slow_quad_def Let_def split: get_input.splits dest!: GET_INPUT_shorter)
  show "next_quad unbase64 has_dest temp src = Quad t d ch r \<Longrightarrow> length r < length src"
    using slow by (auto simp: next_quad_def Let_def split: list.splits if_splits)
qed

text \<open>\<open>temp\<close> written out as three bytes.\<close>

definition three_bytes :: "uint32 \<Rightarrow> string" where
  "three_bytes temp =
     [to_char (unat (drop_bit 16 temp)), to_char (unat (drop_bit 8 temp)), to_char (unat temp)]"

datatype b64_result = PastEnd | Invalid | Decoded nat string

text \<open>The state the first loop leaves behind: rest of the source, output, \<open>destidx\<close>, \<open>temp\<close>,
  \<open>decode\<close>, \<open>ch\<close>, \<open>state\<close>.\<close>

datatype quads = QuadsEnd string string nat uint32 int char nat | QuadsFail b64_result

function quads_loop ::
    "int list \<Rightarrow> bool \<Rightarrow> nat \<Rightarrow> string \<Rightarrow> string \<Rightarrow> nat \<Rightarrow> uint32 \<Rightarrow> int \<Rightarrow> char \<Rightarrow> quads" where
  "quads_loop unbase64 has_dest szdest src out destidx temp decode ch =
     (if length src < 4 then QuadsEnd src out destidx temp decode ch 0
      else (case next_quad unbase64 has_dest temp src of
        QuadPastEnd \<Rightarrow> QuadsFail PastEnd
      | QuadBreak state temp decode ch src \<Rightarrow> QuadsEnd src out destidx temp decode ch state
      | Quad temp decode ch src \<Rightarrow>
          (if has_dest \<and> szdest < destidx + 3 then QuadsFail Invalid
           else quads_loop unbase64 has_dest szdest src
                  (if has_dest then out @ three_bytes temp else out) (destidx + 3)
                  (if has_dest then drop_bit 16 temp else temp) decode ch)))"
  by pat_completeness auto
termination
  by (relation "measure (\<lambda>(u, h, z, src, r). length src)") (auto dest: next_quad_shorter)

declare quads_loop.simps [simp del]

definition is_pad :: "char \<Rightarrow> bool" where
  "is_pad ch \<longleftrightarrow> ch = CHR ''='' \<or> ch = CHR ''.''"

text \<open>The second loop, one character per round, and the state it leaves behind.\<close>

datatype tail = TailEnd string string nat uint32 nat | TailFail b64_result

fun tail_loop ::
    "int list \<Rightarrow> bool \<Rightarrow> nat \<Rightarrow> string \<Rightarrow> string \<Rightarrow> nat \<Rightarrow> uint32 \<Rightarrow> nat \<Rightarrow> tail" where
  "tail_loop unbase64 has_dest szdest [] out destidx temp state = TailEnd [] out destidx temp state"
| "tail_loop unbase64 has_dest szdest (ch # src) out destidx temp state =
     (let decode = unbase64 ! uchar ch in
      if decode < 0 then
        (if ascii_isspace ch then tail_loop unbase64 has_dest szdest src out destidx temp state
         else if ch = CHR 0x00 then TailEnd src out destidx temp state
         else if is_pad ch then TailEnd (ch # src) out destidx temp state
         else TailFail Invalid)
      else
        (let temp = push_bit 6 temp OR word_of_int decode; state = state + 1 in
         if state = 4 then
           (if has_dest \<and> szdest < destidx + 3 then TailFail Invalid
            else tail_loop unbase64 has_dest szdest src
                   (if has_dest then out @ three_bytes temp else out) (destidx + 3) 0 0)
         else tail_loop unbase64 has_dest szdest src out destidx temp state))"

text \<open>The pad characters at the end: their number, or \<open>None\<close> for a return of -1.\<close>

fun count_equals :: "nat \<Rightarrow> string \<Rightarrow> nat option" where
  "count_equals equals [] = Some equals"
| "count_equals equals (c # src) =
     (if c = CHR 0x00 then Some equals
      else if is_pad c then count_equals (equals + 1) src
      else if \<not> ascii_isspace c then None
      else count_equals equals src)"

definition check_equals :: "nat \<Rightarrow> string \<Rightarrow> string \<Rightarrow> nat \<Rightarrow> b64_result" where
  "check_equals expected_equals src out destidx =
     (case count_equals 0 src of
        None \<Rightarrow> Invalid
      | Some equals \<Rightarrow>
          if equals = 0 \<or> equals = expected_equals then Decoded destidx out else Invalid)"

text \<open>The switch on the number of left-over characters.\<close>

definition leftover ::
    "bool \<Rightarrow> nat \<Rightarrow> string \<Rightarrow> string \<Rightarrow> nat \<Rightarrow> uint32 \<Rightarrow> nat \<Rightarrow> b64_result" where
  "leftover has_dest szdest src out destidx temp state =
     (if state = 0 then check_equals 0 src out destidx
      else if state = 1 then Invalid
      else if state = 2 then
        (if has_dest \<and> szdest < destidx + 1 then Invalid
         else check_equals 2 src
                (if has_dest then out @ [to_char (unat (drop_bit 4 temp))] else out) (destidx + 1))
      else
        (if has_dest \<and> szdest < destidx + 2 then Invalid
         else let temp = drop_bit 2 temp in
              check_equals 1 src
                (if has_dest then out @ [to_char (unat (drop_bit 8 temp)), to_char (unat temp)] else out)
                (destidx + 2)))"

text \<open>Everything after the first loop.\<close>

definition after_quads :: "int list \<Rightarrow> bool \<Rightarrow> nat \<Rightarrow> quads \<Rightarrow> b64_result" where
  "after_quads unbase64 has_dest szdest q =
     (case q of
        QuadsFail r \<Rightarrow> r
      | QuadsEnd src out destidx temp decode ch state \<Rightarrow>
          (if decode < 0 \<and> ch \<noteq> CHR 0x00 \<and> \<not> is_pad ch \<and> \<not> ascii_isspace ch then Invalid
           else if is_pad ch then leftover has_dest szdest (ch # src) out destidx temp state
           else (case tail_loop unbase64 has_dest szdest src out destidx temp state of
                   TailFail r \<Rightarrow> r
                 | TailEnd src out destidx temp state \<Rightarrow>
                     leftover has_dest szdest src out destidx temp state)))"

definition Base64UnescapeInternal :: "int list \<Rightarrow> bool \<Rightarrow> nat \<Rightarrow> string \<Rightarrow> b64_result" where
  "Base64UnescapeInternal unbase64 has_dest szdest src =
     after_quads unbase64 has_dest szdest
       (quads_loop unbase64 has_dest szdest src [] 0 0 0 (CHR 0x00))"

text \<open>The string wrapper: \<open>None\<close> where it returns false. An empty destination is passed as a null
  pointer.\<close>

definition Base64Unescape_string :: "string \<Rightarrow> int list \<Rightarrow> string option" where
  "Base64Unescape_string src unbase64 =
     (let dest_len = 3 * (length src div 4) + length src mod 4 in
      case Base64UnescapeInternal unbase64 (dest_len \<noteq> 0) dest_len src of
        Decoded len out \<Rightarrow> Some (take len out)
      | _ \<Rightarrow> None)"

definition Base64Unescape :: "string \<Rightarrow> string option" where
  "Base64Unescape src = Base64Unescape_string src kUnBase64"

definition WebSafeBase64Unescape :: "string \<Rightarrow> string option" where
  "WebSafeBase64Unescape src = Base64Unescape_string src kUnWebSafeBase64"

section \<open>Bits of characters and sextets\<close>

lemma bit_uchar: "bit (uchar c) n \<Longrightarrow> n < 8"
proof (rule ccontr)
  assume *: "bit (uchar c) n" "\<not> n < 8"
  have "uchar c = take_bit 8 (uchar c)" by (simp add: take_bit_eq_mod)
  with * show False by (metis bit_take_bit_iff)
qed

lemma bit_byte_val: "bit (byte_val c) n \<longleftrightarrow> n < 8 \<and> bit (uchar c) n"
proof -
  have "bit (byte_val c) n \<longleftrightarrow> n < 32 \<and> bit (unat (byte_val c)) n"
    by (auto simp: bit_unsigned_iff dest: bit_imp_le_length)
  then show ?thesis using bit_uchar [of c n] by (auto simp: unat_of_uchar)
qed

lemma char_from_bits:
  assumes "\<And>n. n < 8 \<Longrightarrow> bit (w :: uint32) n = bit (uchar c) n"
  shows "to_char (unat w) = c"
proof -
  have "take_bit 8 (unat w) = uchar c"
    by (rule bit_eqI) (use assms bit_uchar in \<open>auto simp: bit_take_bit_iff bit_unsigned_iff\<close>)
  then show ?thesis by (simp add: uchar_eq_iff take_bit_eq_mod)
qed

lemma and_masks:
  "w AND 0x3FFFF = take_bit 18 w" "w AND 0xFFF = take_bit 12 w" "w AND 0x3F = take_bit 6 w"
  "w AND 0x3FF = take_bit 10 w" "w AND 0xF = take_bit 4 w" "w AND 3 = take_bit 2 w" for w :: uint32
  by (simp_all add: take_bit_eq_mask mask_eq_exp_minus_1)

lemma top_bit: "(w AND 0x80000000 = 0) = (\<not> bit w 31)" for w :: uint32
proof -
  have "(0x80000000 :: uint32) = 2 ^ 31" by simp
  then show ?thesis by (simp only: and_exp_eq_0_iff_not_bit)
qed

text \<open>Three bytes as 24 bits.\<close>

definition in24 :: "char \<Rightarrow> char \<Rightarrow> char \<Rightarrow> uint32" where
  "in24 a b c = push_bit 16 (byte_val a) OR push_bit 8 (byte_val b) OR byte_val c"

lemma bit_in24:
  "bit (in24 a b c) n \<longleftrightarrow>
     (if n < 8 then bit (uchar c) n else if n < 16 then bit (uchar b) (n - 8)
      else n < 24 \<and> bit (uchar a) (n - 16))"
  by (auto simp: in24_def bit_or_iff bit_push_bit_iff bit_byte_val)

lemma drop_Load32: "drop_bit 8 (BigEndian_Load32 a b c d) = in24 a b c"
  by (rule bit_word_eqI)
    (auto simp: in24_def BigEndian_Load32_def bit_or_iff bit_push_bit_iff bit_drop_bit_eq bit_byte_val)

lemma add_Load16: "push_bit 16 (byte_val a) + BigEndian_Load16 b c = in24 a b c"
proof -
  have "push_bit 16 (byte_val a) + BigEndian_Load16 b c = push_bit 16 (byte_val a) OR BigEndian_Load16 b c"
    by (rule disjunctive_add)
      (auto simp: BigEndian_Load16_def bit_or_iff bit_push_bit_iff bit_byte_val)
  then show ?thesis by (simp add: in24_def BigEndian_Load16_def or.assoc)
qed

lemma three_bytes_in24: "three_bytes (in24 a b c) = [a, b, c]"
  unfolding three_bytes_def
  by (auto intro!: char_from_bits simp: bit_drop_bit_eq bit_in24)

lemma sextet: "unat (take_bit 6 w) < 64" for w :: uint32
proof -
  have "unat (take_bit 6 w) = take_bit 6 (unat w)" by (simp add: unsigned_take_bit_eq)
  then show ?thesis by (simp add: take_bit_eq_mod)
qed

text \<open>The four sextets of a 24-bit word.\<close>

definition sextets :: "uint32 \<Rightarrow> uint32 list" where
  "sextets i = [drop_bit 18 (take_bit 24 i), drop_bit 12 (take_bit 18 i),
                drop_bit 6 (take_bit 12 i), take_bit 6 i]"

lemma sextet_small: "x \<in> set (sextets i) \<Longrightarrow> unat x < 64"
proof -
  assume "x \<in> set (sextets i)"
  then have "\<exists>w. x = take_bit 6 w"
    by (auto simp: sextets_def drop_bit_take_bit)
  then show ?thesis using sextet by auto
qed

lemma escape_quad_sextets:
  "take_bit 24 i = i \<Longrightarrow> escape_quad base64 i = map (\<lambda>x. base64 ! unat x) (sextets i)"
  by (simp add: escape_quad_def sextets_def and_masks Let_def)

lemma in24_24: "take_bit 24 (in24 a b c) = in24 a b c"
  by (rule bit_word_eqI) (auto simp: bit_take_bit_iff bit_in24)

lemma bit_push_drop: "bit (push_bit k (drop_bit k x)) n \<longleftrightarrow> k \<le> n \<and> bit (x :: uint32) n"
  by (auto simp: bit_push_bit_iff bit_drop_bit_eq dest: bit_imp_le_length)

lemma join_sextets:
  assumes "take_bit 24 i = i"
  shows "push_bit 18 (drop_bit 18 (take_bit 24 i)) OR push_bit 12 (drop_bit 12 (take_bit 18 i)) OR
   push_bit 6 (drop_bit 6 (take_bit 12 i)) OR take_bit 6 i = (i :: uint32)"
proof (rule bit_word_eqI)
  fix n assume "n < LENGTH(32)"
  have "bit i n \<longrightarrow> n < 24" using assms by (metis bit_take_bit_iff)
  then show "bit (push_bit 18 (drop_bit 18 (take_bit 24 i)) OR push_bit 12 (drop_bit 12 (take_bit 18 i)) OR
   push_bit 6 (drop_bit 6 (take_bit 12 i)) OR take_bit 6 i) n = bit i n"
    unfolding bit_or_iff bit_push_drop bit_take_bit_iff by linarith
qed

text \<open>The encoding as one recursive function: the loop and the switch on the tail together.\<close>

fun b64_body :: "string \<Rightarrow> bool \<Rightarrow> string \<Rightarrow> string" where
  "b64_body base64 pad [] = []"
| "b64_body base64 pad [a] =
     [base64 ! unat (drop_bit 2 (byte_val a)), base64 ! unat (push_bit 4 (byte_val a AND 3))] @
     (if pad then [CHR ''='', CHR ''=''] else [])"
| "b64_body base64 pad [a, b] =
     (let i = BigEndian_Load16 a b in
      [base64 ! unat (drop_bit 10 i), base64 ! unat (drop_bit 4 (i AND 0x3FF)),
       base64 ! unat (push_bit 2 (i AND 0x3FF AND 0xF))] @ (if pad then [CHR ''=''] else []))"
| "b64_body base64 pad (a # b # c # src) = escape_quad base64 (in24 a b c) @ b64_body base64 pad src"

lemma length_escape_quad [simp]: "length (escape_quad base64 i) = 4"
  by (simp add: escape_quad_def Let_def)

lemma mod3_step: "Suc (Suc (Suc n)) mod 3 = n mod 3" "Suc (Suc (Suc n)) div 3 = Suc (n div 3)"
  "(3 + n) div 3 = Suc (n div 3)"
  by simp_all

text \<open>The length without the bounds of \<open>int\<close>.\<close>

definition b64_len :: "nat \<Rightarrow> bool \<Rightarrow> nat" where
  "b64_len n pad = n div 3 * 4 + (if n mod 3 = 0 then 0 else if pad then 4 else n mod 3 + 1)"

lemma length_b64_body: "length (b64_body base64 pad src) = b64_len (length src) pad"
proof (induction src rule: list_induct_by_three)
  case (three a b c src)
  then show ?case by (simp add: b64_len_def mod3_step)
qed (simp_all add: b64_len_def Let_def)

lemma Base64EscapeLoop_body:
  "\<exists>tail body. Base64EscapeLoop base64 src out = (tail, out @ body) \<and>
     b64_body base64 pad src = body @ b64_body base64 pad tail \<and> length tail \<le> 3"
proof (induction base64 src out rule: Base64EscapeLoop.induct)
  case (1 base64 a b c d src out)
  then show ?case by (fastforce simp: drop_Load32)
qed auto

lemma by_three: "\<exists>q r. n = 3 * q + r \<and> (r = 0 \<or> r = 1 \<or> r = (2::nat))"
proof -
  have "n mod 3 < 3" by simp
  then have "n mod 3 = 0 \<or> n mod 3 = 1 \<or> n mod 3 = 2" by linarith
  then show ?thesis by (intro exI [of _ "n div 3"] exI [of _ "n mod 3"]) simp
qed

lemma b64_len_cases:
  "b64_len (3 * q) pad = 4 * q"
  "b64_len (3 * q + 1) pad = 4 * q + (if pad then 4 else 2)"
  "b64_len (3 * q + 2) pad = 4 * q + (if pad then 4 else 3)"
proof -
  have "(3 * q + 1) mod 3 = 1" "(3 * q + 2) mod 3 = 2" "(3 * q + 1) div 3 = q" "(3 * q + 2) div 3 = q"
    by presburger+
  then show "b64_len (3 * q) pad = 4 * q" "b64_len (3 * q + 1) pad = 4 * q + (if pad then 4 else 2)"
    "b64_len (3 * q + 2) pad = 4 * q + (if pad then 4 else 3)"
    by (simp_all add: b64_len_def)
qed

lemma b64_len_enough: "n * 4 \<le> b64_len n pad * 3"
proof -
  obtain q r where "n = 3 * q + r" "r = 0 \<or> r = 1 \<or> r = 2" using by_three by blast
  then show ?thesis by (elim disjE) (simp_all only: b64_len_cases add_0_right, simp_all)
qed

text \<open>Sources for which no size overflows.\<close>

abbreviation b64_max :: nat where "b64_max \<equiv> 536870910"

lemma b64_len_max: "n \<le> b64_max \<Longrightarrow> b64_len n pad * 3 \<le> 2147483647"
proof -
  assume n: "n \<le> b64_max"
  have "n div 3 \<le> 178956970" using div_le_mono [OF n, of 3] by simp
  moreover have "n div 3 \<le> 178956969" if "n mod 3 \<noteq> 0"
  proof (rule ccontr)
    assume "\<not> n div 3 \<le> 178956969"
    with n that mult_div_mod_eq [of 3 n] show False by linarith
  qed
  moreover have "n mod 3 < 3" by simp
  ultimately show ?thesis by (auto simp: b64_len_def)
qed

lemma CalculateBase64EscapedLen_nat:
  assumes "n < 1610612730"
  shows "CalculateBase64EscapedLen (int n) pad = int (b64_len n pad)"
proof -
  have "n div 3 \<le> 536870909" using div_le_mono [of n 1610612729 3] assms by simp
  then have q: "int n sdiv 3 = int (n div 3)" "int n smod 3 = int (n mod 3)" "int (n div 3) \<le> 536870909"
    by (simp_all add: signed_divide_int_def signed_modulo_int_def zdiv_int zmod_int sgn_if)
  have "n mod 3 = 0 \<or> n mod 3 = 1 \<or> n mod 3 = 2" by linarith
  with q(3) show ?thesis unfolding CalculateBase64EscapedLen_def q(1,2) Let_def b64_len_def
    by (elim disjE) (simp_all add: to_int32_id)
qed

lemma unescaped_len_enough:
  fixes n :: nat and pad :: bool
  defines "l \<equiv> b64_len n pad"
  shows "n \<le> 3 * (l div 4) + l mod 4"
proof -
  obtain q r where "n = 3 * q + r" "r = 0 \<or> r = 1 \<or> r = 2" using by_three by blast
  then have "\<exists>q' r'. l = 4 * q' + r' \<and> r' < 4 \<and> n \<le> 3 * q' + r'"
    unfolding l_def
    by (elim disjE; cases pad; simp only: b64_len_cases add_0_right if_True if_False)
      (rule exI [of _ q], rule exI [of _ 0], simp,
       rule exI [of _ q], rule exI [of _ 0], simp,
       rule exI [of _ "q + 1"], rule exI [of _ 0], simp,
       rule exI [of _ q], rule exI [of _ 2], simp,
       rule exI [of _ "q + 1"], rule exI [of _ 0], simp,
       rule exI [of _ q], rule exI [of _ 3], simp)
  then obtain q' r' where "l = 4 * q' + r'" "r' < 4" "n \<le> 3 * q' + r'" by blast
  moreover from this have "l div 4 = q'" "l mod 4 = r'" by simp_all
  ultimately show ?thesis by simp
qed

lemma list_upto_three:
  "length xs \<le> 3 \<Longrightarrow> xs = [] \<or> (\<exists>a. xs = [a]) \<or> (\<exists>a b. xs = [a, b]) \<or> (\<exists>a b c. xs = [a, b, c])"
  by (auto simp: le_Suc_eq numeral_eq_Suc length_Suc_conv)

lemma Base64Escape_string_body:
  assumes "length src \<le> b64_max"
  shows "Base64Escape_string src (int (length src)) pad base64 = Some (b64_body base64 pad src)"
proof (cases "src = []")
  case False
  obtain tail body where loop: "Base64EscapeLoop base64 src [] = (tail, body)"
    and body: "b64_body base64 pad src = body @ b64_body base64 pad tail" and tail: "length tail \<le> 3"
    using Base64EscapeLoop_body [of base64 src "[]" pad] by auto
  have len: "CalculateBase64EscapedLen (int (length src)) pad = int (b64_len (length src) pad)"
    using assms by (simp add: CalculateBase64EscapedLen_nat)
  have size: "int (b64_len (length src) pad) - int (length body) = int (length (b64_body base64 pad tail))"
    using arg_cong [OF body, of length] by (simp add: length_b64_body)
  have "int (length src * 4) \<le> int (b64_len (length src) pad * 3)" "int (b64_len (length src) pad * 3) \<le> 2147483647"
    using b64_len_enough [of "length src" pad] b64_len_max [OF assms, of pad] by linarith+
  then have enough: "to_int32 (int (length src) * 4) \<le> to_int32 (int (b64_len (length src) pad) * 3)"
    by (simp add: to_int32_id)
  have all: "take (nat (int (length src))) src = src" by simp
  show ?thesis
    unfolding Base64Escape_string_def Base64EscapeInternal_def len all loop split_conv Let_def size body
    using False enough list_upto_three [OF tail]
    by (elim disjE exE) (auto simp: Let_def add_Load16 and.assoc)
qed (simp add: Base64Escape_string_def Base64EscapeInternal_def CalculateBase64EscapedLen_def)

text \<open>Sextets of the tail, and the characters that come back from them whatever is left in the
  upper bits of \<open>temp\<close>.\<close>

lemma small_from_bits: "(\<And>n. bit (x :: uint32) n \<Longrightarrow> n < 6) \<Longrightarrow> unat x < 64"
proof -
  assume "\<And>n. bit x n \<Longrightarrow> n < 6"
  then have "x = take_bit 6 x" by (intro bit_word_eqI) (auto simp: bit_take_bit_iff)
  then show ?thesis using sextet by metis
qed

lemma bit_Load16:
  "bit (BigEndian_Load16 a b) n \<longleftrightarrow>
     (if n < 8 then bit (uchar b) n else n < 16 \<and> bit (uchar a) (n - 8))"
  by (auto simp: BigEndian_Load16_def bit_or_iff bit_push_bit_iff bit_byte_val)

lemma tail_sextets:
  "unat (drop_bit 2 (byte_val a)) < 64" "unat (push_bit 4 (byte_val a AND 3)) < 64"
  "unat (drop_bit 10 (BigEndian_Load16 a b)) < 64"
  "unat (drop_bit 4 (BigEndian_Load16 a b AND 0x3FF)) < 64"
  "unat (push_bit 2 (BigEndian_Load16 a b AND 0x3FF AND 0xF)) < 64"
  by (rule small_from_bits,
      auto simp: and_masks bit_drop_bit_eq bit_push_bit_iff bit_take_bit_iff bit_byte_val bit_Load16
        split: if_splits)+

lemma char_from_bits8:
  assumes "\<And>n. n \<in> {0, 1, 2, 3, 4, 5, 6, 7} \<Longrightarrow> bit (w :: uint32) n = bit (uchar c) n"
  shows "to_char (unat w) = c"
proof (rule char_from_bits)
  fix n :: nat assume "n < 8"
  then have "n \<in> {0, 1, 2, 3, 4, 5, 6, 7}" by auto
  then show "bit w n = bit (uchar c) n" by (rule assms)
qed

lemma one_left:
  "to_char (unat (drop_bit 4 (push_bit 6 (push_bit 6 t OR drop_bit 2 (byte_val a)) OR
     push_bit 4 (byte_val a AND 3)))) = a"
  by (rule char_from_bits8)
    (auto simp: and_masks bit_drop_bit_eq bit_or_iff bit_push_bit_iff bit_take_bit_iff bit_byte_val
      numeral_2_eq_2 [symmetric])

lemma two_left:
  fixes a b :: char and t :: uint32
  defines "i \<equiv> BigEndian_Load16 a b"
  defines "temp \<equiv> drop_bit 2 (push_bit 6 (push_bit 6 (push_bit 6 t OR drop_bit 10 i) OR
     drop_bit 4 (i AND 0x3FF)) OR push_bit 2 (i AND 0x3FF AND 0xF))"
  shows "to_char (unat (drop_bit 8 temp)) = a" "to_char (unat temp) = b"
proof -
  note bits = and_masks bit_drop_bit_eq bit_or_iff bit_push_bit_iff bit_take_bit_iff bit_Load16
    numeral_2_eq_2 [symmetric]
  show "to_char (unat (drop_bit 8 temp)) = a"
    unfolding temp_def i_def by (rule char_from_bits8) (auto simp: bits)
  show "to_char (unat temp) = b"
    unfolding temp_def i_def by (rule char_from_bits8) (auto simp: bits)
qed

section \<open>Decoding what was encoded\<close>

text \<open>A base64 alphabet and the table that inverts it.\<close>

locale base64_alphabet =
  fixes base64 :: string and unbase64 :: "int list"
  assumes decode_code: "i < 64 \<Longrightarrow> unbase64 ! uchar (base64 ! i) = int i"
    and code_not_NUL: "i < 64 \<Longrightarrow> base64 ! i \<noteq> CHR 0x00"
    and decode_pad: "unbase64 ! uchar (CHR ''='') = - 1"
begin

lemma decode_word: "unat x < 64 \<Longrightarrow> word_of_int (unbase64 ! uchar (base64 ! unat x)) = (x :: uint32)"
  by (simp add: decode_code)

lemma GET_INPUT_data:
  "unat (x :: uint32) < 64 \<Longrightarrow>
   GET_INPUT unbase64 remain (base64 ! unat x # src) = GotInput (int (unat x)) (base64 ! unat x) src"
  by (simp add: decode_code)

lemma GET_INPUT_pad: "GET_INPUT unbase64 remain (CHR ''='' # src) = BadInput (- 1) (CHR ''='') src"
  using decode_pad by (simp add: Let_def ascii_isspace_def)

lemma next_quad_data:
  assumes i: "take_bit 24 i = i"
  shows "next_quad unbase64 has_dest t (escape_quad base64 i @ src) = Quad i (- 1) (CHR 0x00) src"
proof -
  define w x y z where "w = drop_bit 18 (take_bit 24 i)" and "x = drop_bit 12 (take_bit 18 i)"
    and "y = drop_bit 6 (take_bit 12 i)" and "z = take_bit 6 i"
  have small: "unat w < 64" "unat x < 64" "unat y < 64" "unat z < 64"
    using sextet_small [of _ i] by (auto simp: sextets_def w_def x_def y_def z_def)
  have join: "push_bit 18 w OR push_bit 12 x OR push_bit 6 y OR z = i"
    unfolding w_def x_def y_def z_def by (rule join_sextets [OF i])
  have "\<not> bit (take_bit 24 i) 31" by (simp add: bit_take_bit_iff)
  then have "\<not> bit i 31" by (simp add: i)
  then show ?thesis
    using small join
    by (simp add: escape_quad_sextets [OF i] sextets_def next_quad_def decode_word code_not_NUL top_bit
        flip: w_def x_def y_def z_def)
qed

lemma next_quad_pad:
  "unat (x :: uint32) < 64 \<Longrightarrow> unat (y :: uint32) < 64 \<Longrightarrow> unat (z :: uint32) < 64 \<Longrightarrow>
   next_quad unbase64 True t [base64 ! unat x, base64 ! unat y, base64 ! unat z, CHR ''=''] =
     QuadBreak 3 (push_bit 6 (push_bit 6 x OR y) OR z) (- 1) (CHR ''='') []"
  "unat x < 64 \<Longrightarrow> unat y < 64 \<Longrightarrow>
   next_quad unbase64 True t [base64 ! unat x, base64 ! unat y, CHR ''='', CHR ''=''] =
     QuadBreak 2 (push_bit 6 x OR y) (- 1) (CHR ''='') [CHR ''='']"
  using decode_pad
  by (simp_all add: next_quad_def slow_quad_def shift_in_def code_not_NUL decode_word top_bit bit_or_iff
      bit_push_bit_iff GET_INPUT_data GET_INPUT_pad decode_code Let_def)

lemma check_no_equals: "check_equals e [] out n = Decoded n out"
  by (simp add: check_equals_def)

lemma decode_body:
  assumes "length out = destidx" "destidx + length src \<le> szdest"
  shows "after_quads unbase64 True szdest
     (quads_loop unbase64 True szdest (b64_body base64 pad src) out destidx t d (CHR 0x00)) =
   Decoded (destidx + length src) (out @ src)"
  using assms
proof (induction src arbitrary: out destidx t d rule: list_induct_by_three)
  case zero
  then show ?case
    by (subst quads_loop.simps) (simp add: after_quads_def is_pad_def leftover_def check_no_equals)
next
  case (one a)
  define x y where "x = drop_bit 2 (byte_val a)" and "y = push_bit 4 (byte_val a AND 3)"
  note small = tail_sextets(1,2) [of a, folded x_def y_def]
  note chars = one_left [of 0 a, folded x_def y_def] one_left [of t a, folded x_def y_def]
  have "b64_body base64 pad [a] =
      [base64 ! unat x, base64 ! unat y] @ (if pad then [CHR ''='', CHR ''=''] else [])"
    by (simp only: b64_body.simps x_def y_def)
  with one small chars show ?case
    by (subst quads_loop.simps)
      (simp add: after_quads_def is_pad_def leftover_def check_no_equals check_equals_def Let_def
        next_quad_pad decode_word decode_code)
next
  case (two a b)
  define x y z where "x = drop_bit 10 (BigEndian_Load16 a b)"
    and "y = drop_bit 4 (BigEndian_Load16 a b AND 0x3FF)" and "z = push_bit 2 (BigEndian_Load16 a b AND 0x3FF AND 0xF)"
  note small = tail_sextets(3-5) [of a b, folded x_def y_def z_def]
  note chars = two_left [of 0 a b, folded x_def y_def z_def] two_left [of t a b, folded x_def y_def z_def]
  have "b64_body base64 pad [a, b] =
      [base64 ! unat x, base64 ! unat y, base64 ! unat z] @ (if pad then [CHR ''=''] else [])"
    by (simp only: b64_body.simps x_def y_def z_def Let_def)
  with two small chars show ?case
    by (subst quads_loop.simps)
      (simp add: after_quads_def is_pad_def leftover_def check_no_equals check_equals_def Let_def
        next_quad_pad decode_word decode_code)
next
  case (three a b c src)
  then show ?case
    by (subst quads_loop.simps) (simp add: next_quad_data in24_24 three_bytes_in24)
qed

lemma unescape_escape: "Base64Unescape_string (b64_body base64 pad src) unbase64 = Some src"
proof (cases "src = []")
  case True
  then show ?thesis
    by (simp add: Base64Unescape_string_def Base64UnescapeInternal_def
        quads_loop.simps after_quads_def is_pad_def leftover_def check_no_equals)
next
  case False
  let ?L = "b64_len (length src) pad"
  have "length src \<le> 3 * (?L div 4) + ?L mod 4" by (rule unescaped_len_enough)
  moreover from this False have "3 * (?L div 4) + ?L mod 4 \<noteq> 0" by (metis le_zero_eq length_0_conv)
  ultimately show ?thesis
    using decode_body [of "[]" 0 src "3 * (?L div 4) + ?L mod 4" pad 0 0]
    by (simp add: Base64Unescape_string_def Base64UnescapeInternal_def length_b64_body Let_def)
qed

text \<open>The encoder gives a text of the announced length that the decoder takes back.\<close>

lemma escape_string:
  assumes "length src \<le> b64_max"
  shows "\<exists>t. Base64Escape_string src (int (length src)) pad base64 = Some t \<and> Base64Unescape_string t unbase64 = Some src \<and>
    int (length t) = CalculateBase64EscapedLen (int (length src)) pad"
  using assms
  by (simp add: Base64Escape_string_body unescape_escape length_b64_body CalculateBase64EscapedLen_nat)

end

text \<open>What the two tables hold at each index, in closed form.\<close>

definition code_of :: "nat \<Rightarrow> nat \<Rightarrow> nat \<Rightarrow> int" where
  "code_of c62 c63 n =
     (if 65 \<le> n \<and> n \<le> 90 then int n - 65 else if 97 \<le> n \<and> n \<le> 122 then int n - 71
      else if 48 \<le> n \<and> n \<le> 57 then int n + 4 else if n = c62 then 62 else if n = c63 then 63 else - 1)"

lemma kUnBase64_table: "table_from (code_of 43 47) 0 kUnBase64"
  unfolding kUnBase64_def table_from_append
  by (intro conjI table_from_replicate) (simp_all add: code_of_def)

lemma kUnWebSafeBase64_table: "table_from (code_of 45 95) 0 kUnWebSafeBase64"
  unfolding kUnWebSafeBase64_def table_from_append
  by (intro conjI table_from_replicate) (simp_all add: code_of_def)

lemma unbase64_nth:
  "n < 256 \<Longrightarrow> kUnBase64 ! n = code_of 43 47 n"
  "n < 256 \<Longrightarrow> kUnWebSafeBase64 ! n = code_of 45 95 n"
  using table_from_nth [OF kUnBase64_table, of n] table_from_nth [OF kUnWebSafeBase64_table, of n]
  by (simp_all add: kUnBase64_def kUnWebSafeBase64_def)

lemma alphabet_table:
  "table_from (\<lambda>i. (int i, True)) 0 (map (\<lambda>c. (code_of 43 47 (uchar c), c \<noteq> CHR 0x00)) kBase64Chars)"
  "table_from (\<lambda>i. (int i, True)) 0 (map (\<lambda>c. (code_of 45 95 (uchar c), c \<noteq> CHR 0x00)) kWebSafeBase64Chars)"
  by (simp_all add: kBase64Chars_def kWebSafeBase64Chars_def code_of_def)

lemma alphabet_nth:
  assumes "i < 64"
  shows "code_of 43 47 (uchar (kBase64Chars ! i)) = int i \<and> kBase64Chars ! i \<noteq> CHR 0x00"
    "code_of 45 95 (uchar (kWebSafeBase64Chars ! i)) = int i \<and> kWebSafeBase64Chars ! i \<noteq> CHR 0x00"
proof -
  have "length kBase64Chars = 64" "length kWebSafeBase64Chars = 64"
    by (simp_all add: kBase64Chars_def kWebSafeBase64Chars_def)
  with assms table_from_nth [OF alphabet_table(1), of i] table_from_nth [OF alphabet_table(2), of i]
  show "code_of 43 47 (uchar (kBase64Chars ! i)) = int i \<and> kBase64Chars ! i \<noteq> CHR 0x00"
    "code_of 45 95 (uchar (kWebSafeBase64Chars ! i)) = int i \<and> kWebSafeBase64Chars ! i \<noteq> CHR 0x00"
    by (simp_all add: nth_map)
qed

lemma code_of_pad: "code_of 43 47 61 = - 1" "code_of 45 95 61 = - 1"
  by (simp_all add: code_of_def)

interpretation std64: base64_alphabet kBase64Chars kUnBase64
  by unfold_locales (simp_all add: unbase64_nth alphabet_nth code_of_pad)

interpretation web64: base64_alphabet kWebSafeBase64Chars kUnWebSafeBase64
  by unfold_locales (simp_all add: unbase64_nth alphabet_nth code_of_pad)

section \<open>The decoder stays inside its buffers\<close>

lemma GET_INPUT_safe:
  "1 \<le> remain \<Longrightarrow> remain \<le> length src \<Longrightarrow>
   (\<exists>d ch r. GET_INPUT unbase64 remain src = GotInput d ch r \<and> remain \<le> length r + 1) \<or>
   (\<exists>d ch r. GET_INPUT unbase64 remain src = BadInput d ch r)"
proof (induction src)
  case (Cons c src)
  then show ?case by (cases "remain \<le> length src") (auto simp: Let_def)
qed simp

lemma slow_quad_safe:
  assumes "4 \<le> length src"
  shows "slow_quad unbase64 has_dest temp src \<noteq> QuadPastEnd"
proof -
  have safe: "GET_INPUT unbase64 k r \<noteq> NoInput" if "1 \<le> k" "k \<le> length r" for k r
    using GET_INPUT_safe [OF that, of unbase64] by auto
  have got: "k \<le> length r' + 1" if "GET_INPUT unbase64 k r = GotInput d ch r'" "1 \<le> k" "k \<le> length r" for k r d ch r'
    using GET_INPUT_safe [OF that(2,3), of unbase64] that(1) by auto
  show ?thesis
    using assms
    by (auto simp: slow_quad_def Let_def dest!: got safe split: get_input.splits)
      (use safe [of 1] safe [of 2] safe [of 3] safe [of 4] got in \<open>force dest: got\<close>)+
qed

lemma next_quad_safe: "4 \<le> length src \<Longrightarrow> next_quad unbase64 has_dest temp src \<noteq> QuadPastEnd"
proof -
  assume len: "4 \<le> length src"
  then obtain a b c d rest where "src = a # b # c # d # rest"
    by (auto simp: numeral_eq_Suc Suc_le_length_iff)
  then show ?thesis
    using slow_quad_safe [OF len] by (simp add: next_quad_def Let_def)
qed

definition written_ok :: "bool \<Rightarrow> nat \<Rightarrow> string \<Rightarrow> nat \<Rightarrow> bool" where
  "written_ok has_dest szdest out destidx \<longleftrightarrow> has_dest \<longrightarrow> length out = destidx \<and> destidx \<le> szdest"

fun result_ok :: "bool \<Rightarrow> nat \<Rightarrow> b64_result \<Rightarrow> bool" where
  "result_ok has_dest szdest PastEnd = False"
| "result_ok has_dest szdest Invalid = True"
| "result_ok has_dest szdest (Decoded n out) = written_ok has_dest szdest out n"

fun quads_ok :: "bool \<Rightarrow> nat \<Rightarrow> quads \<Rightarrow> bool" where
  "quads_ok has_dest szdest (QuadsFail r) = result_ok has_dest szdest r"
| "quads_ok has_dest szdest (QuadsEnd src out destidx temp d ch state) = written_ok has_dest szdest out destidx"

fun tail_ok :: "bool \<Rightarrow> nat \<Rightarrow> tail \<Rightarrow> bool" where
  "tail_ok has_dest szdest (TailFail r) = result_ok has_dest szdest r"
| "tail_ok has_dest szdest (TailEnd src out destidx temp state) = written_ok has_dest szdest out destidx"

lemma written_ok_step:
  "written_ok has_dest szdest out destidx \<Longrightarrow> \<not> (has_dest \<and> szdest < destidx + length bs) \<Longrightarrow>
   written_ok has_dest szdest (if has_dest then out @ bs else out) (destidx + length bs)"
  by (auto simp: written_ok_def)

lemma length_three_bytes: "length (three_bytes t) = 3"
  by (simp add: three_bytes_def)

lemma quads_loop_safe:
  "written_ok has_dest szdest out destidx \<Longrightarrow>
   quads_ok has_dest szdest (quads_loop unbase64 has_dest szdest src out destidx temp decode ch)"
proof (induction unbase64 has_dest szdest src out destidx temp decode ch rule: quads_loop.induct)
  case (1 unbase64 has_dest szdest src out destidx temp decode ch)
  show ?case
  proof (cases "length src < 4")
    case True
    with "1.prems" show ?thesis by (subst quads_loop.simps) simp
  next
    case False
    show ?thesis
    proof (cases "next_quad unbase64 has_dest temp src")
      case (Quad t d c r)
      with False "1.IH" [OF False Quad] "1.prems" written_ok_step [of has_dest szdest out destidx "three_bytes t"]
      show ?thesis by (subst quads_loop.simps) (auto simp: length_three_bytes)
    next
      case (QuadBreak st t d c r)
      with False "1.prems" show ?thesis by (subst quads_loop.simps) simp
    next
      case QuadPastEnd
      with False next_quad_safe [of src unbase64 has_dest temp] show ?thesis by simp
    qed
  qed
qed

lemma tail_loop_safe:
  "written_ok has_dest szdest out destidx \<Longrightarrow>
   tail_ok has_dest szdest (tail_loop unbase64 has_dest szdest src out destidx temp state)"
proof (induction unbase64 has_dest szdest src out destidx temp state rule: tail_loop.induct)
  case (2 unbase64 has_dest szdest c src out destidx temp state)
  then show ?case
    using written_ok_step [of has_dest szdest out destidx "three_bytes (push_bit 6 temp OR word_of_int (unbase64 ! uchar c))"]
    by (auto simp: Let_def length_three_bytes)
qed simp

lemma check_equals_safe:
  "written_ok has_dest szdest out destidx \<Longrightarrow> result_ok has_dest szdest (check_equals e src out destidx)"
  by (simp add: check_equals_def split: option.split)

lemma leftover_safe:
  assumes "written_ok has_dest szdest out destidx"
  shows "result_ok has_dest szdest (leftover has_dest szdest src out destidx temp state)"
  using check_equals_safe [OF assms] check_equals_safe [OF written_ok_step [OF assms]]
    written_ok_step [OF assms, of "[_]"] written_ok_step [OF assms, of "[_, _]"]
  by (auto simp: leftover_def Let_def intro!: check_equals_safe)

lemma Base64UnescapeInternal_safe:
  "result_ok has_dest szdest (Base64UnescapeInternal unbase64 has_dest szdest src)"
proof -
  have after_tail: "tail_ok has_dest szdest t"
    if "tail_loop unbase64 has_dest szdest s o' d' w st = t" "written_ok has_dest szdest o' d'" for t s o' d' w st
    using tail_loop_safe [OF that(2)] that(1) by blast
  have "written_ok has_dest szdest [] 0" by (simp add: written_ok_def)
  from quads_loop_safe [OF this, of unbase64 src 0 0 "CHR 0x00"] show ?thesis
    by (auto simp: Base64UnescapeInternal_def after_quads_def intro: leftover_safe
        split: quads.splits tail.splits dest: after_tail)
      (metis after_tail tail_ok.simps(2) leftover_safe)+
qed

section \<open>Properties\<close>

text \<open>What an encoder should give: a text of the announced length that the decoder takes back.\<close>

definition restored :: "(string \<Rightarrow> string option) \<Rightarrow> string \<Rightarrow> bool \<Rightarrow> string option \<Rightarrow> bool" where
  "restored unescape src pad r \<longleftrightarrow>
     (case r of None \<Rightarrow> False
      | Some t \<Rightarrow> unescape t = Some src \<and> int (length t) = CalculateBase64EscapedLen (int (length src)) pad)"

lemma escape_overflows:
  assumes "length src = 536870911"
  shows "Base64Escape_string src (int (length src)) True base64 = Some []"
proof -
  have len: "CalculateBase64EscapedLen 536870911 True = 715827884" by code_simp
  have "to_int32 (536870911 * 4) > to_int32 (715827884 * 3)" by code_simp
  with assms len show ?thesis by (simp add: Base64Escape_string_def Base64EscapeInternal_def)
qed

text \<open>C37. Base64 decoding undoes encoding on every string of at most 536870910 bytes, for both alphabets, with and
  without padding, and for the three wrappers that take a string; the encoded length is what
  \<open>CalculateBase64EscapedLen\<close> says. With one byte more the encoder with padding computes three times the
  size of its destination beyond the range of \<open>int\<close> and returns an empty text.\<close>

theorem Base64_roundtrip:
  "(length s \<le> 536870910 \<longrightarrow>
     restored Base64Unescape s pad (Base64Escape_padding s (int (length s)) pad) \<and>
     restored WebSafeBase64Unescape s pad (WebSafeBase64Escape_padding s (int (length s)) pad) \<and>
     restored Base64Unescape s True (Base64Escape s) \<and>
     restored WebSafeBase64Unescape s False (WebSafeBase64Escape s) \<and>
     restored WebSafeBase64Unescape s True (WebSafeBase64EscapeWithPadding s)) \<and>
   (length s = 536870911 \<longrightarrow> Base64Escape s = Some [] \<and> WebSafeBase64EscapeWithPadding s = Some [])"
proof (intro conjI impI)
  assume n: "length s \<le> 536870910"
  then have size: "to_int32 (int (length s)) = int (length s)" by (simp add: to_int32_id)
  note defs = Base64Unescape_def WebSafeBase64Unescape_def Base64Escape_padding_def WebSafeBase64Escape_padding_def
    Base64Escape_def WebSafeBase64Escape_def WebSafeBase64EscapeWithPadding_def restored_def size
  note std = std64.escape_string [OF n] and web = web64.escape_string [OF n]
  show "restored Base64Unescape s pad (Base64Escape_padding s (int (length s)) pad)" using std [of pad] by (auto simp: defs)
  show "restored WebSafeBase64Unescape s pad (WebSafeBase64Escape_padding s (int (length s)) pad)"
    using web [of pad] by (auto simp: defs)
  show "restored Base64Unescape s True (Base64Escape s)" using std [of True] by (auto simp: defs)
  show "restored WebSafeBase64Unescape s False (WebSafeBase64Escape s)" using web [of False] by (auto simp: defs)
  show "restored WebSafeBase64Unescape s True (WebSafeBase64EscapeWithPadding s)" using web [of True] by (auto simp: defs)
next
  assume n: "length s = 536870911"
  then have size: "to_int32 (int (length s)) = int (length s)" by (simp add: to_int32_id)
  note defs = Base64Escape_padding_def WebSafeBase64Escape_padding_def Base64Escape_def WebSafeBase64EscapeWithPadding_def size
  show "Base64Escape s = Some []" "WebSafeBase64EscapeWithPadding s = Some []" by (simp_all only: defs escape_overflows [OF n])
qed

theorem Base64_roundtrip_witness:
  "restored Base64Unescape ''ab'' False (Base64Escape_padding ''ab'' 2 False) \<and> restored Base64Unescape ''ab'' True (Base64Escape ''ab'')"
  using Base64_roundtrip [of "''ab''" False] by simp

text \<open>Whatever bytes it is given, the base64 decoder never reads past the end of its source
  and never writes past the end of its destination; what it returns is the number of bytes it
  wrote.\<close>

theorem Base64_decoder_safe:
  "Base64UnescapeInternal unbase64 True szdest src \<noteq> PastEnd \<and>
   (\<forall>n out. Base64UnescapeInternal unbase64 True szdest src = Decoded n out \<longrightarrow>
      length out = n \<and> n \<le> szdest)"
  using Base64UnescapeInternal_safe [of True szdest unbase64 src] by (auto simp: written_ok_def)

theorem Base64_decoder_safe_witness:
  "Base64UnescapeInternal kUnBase64 True 4 ''YQ=='' = Decoded 1 ''a'' \<and> length ''a'' = 1 \<and> (1::nat) \<le> 4"
proof -
  have run: "Base64UnescapeInternal kUnBase64 True 4 ''YQ=='' = Decoded 1 ''a''"
    by (simp add: Base64UnescapeInternal_def quads_loop.simps next_quad_def slow_quad_def shift_in_def
        unbase64_nth code_of_def ascii_isspace_def after_quads_def is_pad_def leftover_def
        check_equals_def to_char_eq_iff Let_def)
  with Base64_decoder_safe [of kUnBase64 4 "''YQ==''"]
  have "length ''a'' = 1 \<and> (1::nat) \<le> 4" by blast
  with run show ?thesis by blast
qed

end
