(* ===== verification/String_Piece.thy ===== *)
theory String_Piece
  imports Prelude
begin

text \<open>
  stubs/stringpiece.cc and the inline members of stubs/stringpiece.h. A \<open>StringPiece\<close> is the
  byte sequence it views; an index result is \<open>None\<close> for \<open>npos\<close>. The searches keep the code's
  loops over an index and its 256-entry lookup table; what they compute is stated with
  \<^const>\<open>List.find\<close> over the indices in search order. The comparison operators make the pieces
  a \<open>linorder\<close>, as the ordered containers keyed by them assume.
\<close>

section \<open>The C library routines\<close>

text \<open>\<open>memcmp\<close> compares unsigned bytes; both arguments are cut to the length passed.\<close>

fun memcmp :: "string \<Rightarrow> string \<Rightarrow> int" where
  "memcmp (a # x) (b # y) =
     (if uchar a < uchar b then - 1 else if uchar b < uchar a then 1 else memcmp x y)"
| "memcmp _ _ = 0"

definition matches_at :: "string \<Rightarrow> string \<Rightarrow> nat \<Rightarrow> bool" where
  "matches_at p s i \<longleftrightarrow> i + length s \<le> length p \<and> take (length s) (drop i p) = s"

text \<open>\<open>std::search\<close> and \<open>std::find_end\<close>: the index of the first or last occurrence inside the
  range, and the end of the range where there is none.\<close>

definition std_search :: "string \<Rightarrow> nat \<Rightarrow> nat \<Rightarrow> string \<Rightarrow> nat" where
  "std_search p first lim s =
     (case List.find (\<lambda>i. i + length s \<le> lim \<and> matches_at p s i) [first..<Suc lim] of
        Some i \<Rightarrow> i | None \<Rightarrow> lim)"

definition std_find_end :: "string \<Rightarrow> nat \<Rightarrow> nat \<Rightarrow> string \<Rightarrow> nat" where
  "std_find_end p first lim s =
     (case List.find (\<lambda>i. i + length s \<le> lim \<and> matches_at p s i) (rev [first..<Suc lim]) of
        Some i \<Rightarrow> i | None \<Rightarrow> lim)"

section \<open>Comparison\<close>

definition piece_compare :: "string \<Rightarrow> string \<Rightarrow> int" where
  "piece_compare p x =
     (let min_size = (if length p < length x then length p else length x);
          r = memcmp (take min_size p) (take min_size x)
      in if r < 0 then - 1 else if r > 0 then 1
         else if length p < length x then - 1 else if length p > length x then 1 else 0)"

definition op_eq :: "string \<Rightarrow> string \<Rightarrow> bool" where
  "op_eq x y = (let len = length x in
     if len \<noteq> length y then False else len \<le> 0 \<or> memcmp (take len x) (take len y) = 0)"

definition op_less :: "string \<Rightarrow> string \<Rightarrow> bool" where
  "op_less x y =
     (let min_size = (if length x < length y then length x else length y);
          r = memcmp (take min_size x) (take min_size y)
      in r < 0 \<or> r = 0 \<and> length x < length y)"

definition op_less_eq :: "string \<Rightarrow> string \<Rightarrow> bool" where
  "op_less_eq x y = (\<not> op_less y x)"

section \<open>Prefixes and substrings\<close>

definition starts_with :: "string \<Rightarrow> string \<Rightarrow> bool" where
  "starts_with p x = (length x \<le> length p \<and> memcmp (take (length x) p) (take (length x) x) = 0)"

definition ends_with :: "string \<Rightarrow> string \<Rightarrow> bool" where
  "ends_with p x =
     (length x \<le> length p \<and>
      memcmp (take (length x) (drop (length p - length x) p)) (take (length x) x) = 0)"

text \<open>The two consumers return the piece they leave behind and whether they matched.\<close>

definition Consume :: "string \<Rightarrow> string \<Rightarrow> bool \<times> string" where
  "Consume p x = (if starts_with p x then (True, drop (length x) p) else (False, p))"

definition ConsumeFromEnd :: "string \<Rightarrow> string \<Rightarrow> bool \<times> string" where
  "ConsumeFromEnd p x =
     (if ends_with p x then (True, take (length p - length x) p) else (False, p))"

definition piece_substr :: "string \<Rightarrow> nat \<Rightarrow> nat \<Rightarrow> string" where
  "piece_substr p pos n =
     (let pos = (if length p < pos then length p else pos);
          n = (if length p - pos < n then length p - pos else n)
      in take n (drop pos p))"

section \<open>Searching\<close>

definition piece_find :: "string \<Rightarrow> string \<Rightarrow> nat \<Rightarrow> nat option" where
  "piece_find p s pos =
     (if length p \<le> 0 \<or> pos > length p
      then (if length p = 0 \<and> pos = 0 \<and> length s = 0 then Some 0 else None)
      else let result = std_search p pos (length p) s in
           if result = length p then None else Some result)"

definition piece_contains :: "string \<Rightarrow> string \<Rightarrow> bool" where
  "piece_contains p s = (piece_find p s 0 \<noteq> None)"

text \<open>The loops \<open>for (i = pos; i < length_; ++i)\<close> and \<open>for (i = pos;; --i)\<close> ending at 0, for a test on
  the byte at the index; the first is also \<open>memchr\<close>.\<close>

function scan_up :: "(char \<Rightarrow> bool) \<Rightarrow> string \<Rightarrow> nat \<Rightarrow> nat option" where
  "scan_up test p i =
     (if i < length p then (if test (p ! i) then Some i else scan_up test p (i + 1)) else None)"
  by pat_completeness auto
termination by (relation "measure (\<lambda>(t, p, i). length p - i)") auto

fun scan_down :: "(char \<Rightarrow> bool) \<Rightarrow> string \<Rightarrow> nat \<Rightarrow> nat option" where
  "scan_down test p i =
     (if test (p ! i) then Some i else if i = 0 then None else scan_down test p (i - 1))"

declare scan_up.simps [simp del] scan_down.simps [simp del]

definition piece_find_char :: "string \<Rightarrow> char \<Rightarrow> nat \<Rightarrow> nat option" where
  "piece_find_char p c pos =
     (if length p \<le> 0 \<or> pos \<ge> length p then None else scan_up (\<lambda>x. x = c) p pos)"

definition piece_rfind :: "string \<Rightarrow> string \<Rightarrow> nat \<Rightarrow> nat option" where
  "piece_rfind p s pos =
     (if length p < length s then None
      else if length s = 0 then Some (min (length p) pos)
      else let last = min (length p - length s) pos + length s;
               result = std_find_end p 0 last s
           in if result \<noteq> last then Some result else None)"

definition piece_rfind_char :: "string \<Rightarrow> char \<Rightarrow> nat \<Rightarrow> nat option" where
  "piece_rfind_char p c pos =
     (if p = [] then None else scan_down (\<lambda>x. x = c) p (min pos (length p - 1)))"

definition BuildLookupTable :: "string \<Rightarrow> bool list \<Rightarrow> bool list" where
  "BuildLookupTable characters_wanted table =
     fold (\<lambda>c table. table[uchar c := True]) characters_wanted table"

definition lookup_table :: "string \<Rightarrow> bool list" where
  "lookup_table s = BuildLookupTable s (replicate 256 False)"

definition find_first_of :: "string \<Rightarrow> string \<Rightarrow> nat \<Rightarrow> nat option" where
  "find_first_of p s pos =
     (if p = [] \<or> s = [] then None
      else if length s = 1 then piece_find_char p (s ! 0) pos
      else let table = lookup_table s in scan_up (\<lambda>c. table ! uchar c) p pos)"

definition find_first_not_of_char :: "string \<Rightarrow> char \<Rightarrow> nat \<Rightarrow> nat option" where
  "find_first_not_of_char p c pos = (if p = [] then None else scan_up (\<lambda>x. x \<noteq> c) p pos)"

definition find_first_not_of :: "string \<Rightarrow> string \<Rightarrow> nat \<Rightarrow> nat option" where
  "find_first_not_of p s pos =
     (if p = [] then None else if s = [] then Some 0
      else if length s = 1 then find_first_not_of_char p (s ! 0) pos
      else let table = lookup_table s in scan_up (\<lambda>c. \<not> table ! uchar c) p pos)"

definition find_last_of :: "string \<Rightarrow> string \<Rightarrow> nat \<Rightarrow> nat option" where
  "find_last_of p s pos =
     (if p = [] \<or> s = [] then None
      else if length s = 1 then piece_rfind_char p (s ! 0) pos
      else let table = lookup_table s in
           scan_down (\<lambda>c. table ! uchar c) p (min pos (length p - 1)))"

definition find_last_not_of_char :: "string \<Rightarrow> char \<Rightarrow> nat \<Rightarrow> nat option" where
  "find_last_not_of_char p c pos =
     (if p = [] then None else scan_down (\<lambda>x. x \<noteq> c) p (min pos (length p - 1)))"

definition find_last_not_of :: "string \<Rightarrow> string \<Rightarrow> nat \<Rightarrow> nat option" where
  "find_last_not_of p s pos =
     (if p = [] then None
      else let i = min pos (length p - 1) in
      if s = [] then Some i
      else if length s = 1 then find_last_not_of_char p (s ! 0) pos
      else let table = lookup_table s in scan_down (\<lambda>c. \<not> table ! uchar c) p i)"

section \<open>Facts\<close>

lemma uchar_linear: "\<not> uchar a < uchar b \<Longrightarrow> \<not> uchar b < uchar a \<Longrightarrow> a = b"
  by (rule uchar_eq_iff [THEN iffD2]) linarith

lemma memcmp_Cons: "memcmp (a # x) (b # y) = 0 \<longleftrightarrow> a = b \<and> memcmp x y = 0"
  using uchar_linear [of a b] by (cases "uchar a < uchar b"; cases "uchar b < uchar a") auto

lemma memcmp_eq: "length x = length y \<Longrightarrow> memcmp x y = 0 \<longleftrightarrow> x = y"
  by (induction x y rule: list_induct2) (simp, simp add: memcmp_Cons del: memcmp.simps)

lemma op_eq_iff: "op_eq x y \<longleftrightarrow> x = y"
  by (auto simp: op_eq_def memcmp_eq Let_def)

lemma starts_with_iff: "starts_with p x \<longleftrightarrow> (\<exists>r. p = x @ r)"
proof
  assume "starts_with p x"
  then have "take (length x) p = x" by (auto simp: starts_with_def memcmp_eq)
  then show "\<exists>r. p = x @ r" by (metis append_take_drop_id)
qed (auto simp: starts_with_def memcmp_eq)

lemma ends_with_iff: "ends_with p x \<longleftrightarrow> (\<exists>r. p = r @ x)"
proof
  assume *: "ends_with p x"
  then have "drop (length p - length x) p = x" by (auto simp: ends_with_def memcmp_eq)
  then show "\<exists>r. p = r @ x" by (metis append_take_drop_id)
qed (auto simp: ends_with_def memcmp_eq)

text \<open>The order is the lexicographic one on unsigned bytes.\<close>

lemma op_less_simps [simp]:
  "op_less [] y \<longleftrightarrow> y \<noteq> []" "\<not> op_less x []"
  "op_less (a # x) (b # y) \<longleftrightarrow> uchar a < uchar b \<or> a = b \<and> op_less x y"
  by (auto simp: op_less_def Let_def dest: uchar_linear)

lemma op_less_irrefl: "\<not> op_less x x"
  by (induction x) auto

lemma op_less_trans: "op_less x y \<Longrightarrow> op_less y z \<Longrightarrow> op_less x z"
proof (induction x arbitrary: y z)
  case (Cons a x)
  then show ?case by (cases y; cases z) (auto intro: less_trans)
qed (case_tac y; case_tac z; simp)

lemma op_less_total: "op_less x y \<or> x = y \<or> op_less y x"
proof (induction x arbitrary: y)
  case (Cons a x)
  then show ?case by (cases y) (auto dest: uchar_linear)
qed auto

lemma memcmp_antisym: "memcmp y x = - memcmp x y"
  by (induction x y rule: memcmp.induct) auto

lemma memcmp_refl [simp]: "memcmp x x = 0"
  by (induction x) auto

lemma memcmp_values: "memcmp x y \<in> {-1, 0, 1}"
  by (induction x y rule: memcmp.induct) auto

text \<open>A piece as a key.\<close>

datatype piece = Piece (piece_bytes: string)

instantiation piece :: linorder
begin

definition less_piece :: "piece \<Rightarrow> piece \<Rightarrow> bool" where
  "less_piece x y = op_less (piece_bytes x) (piece_bytes y)"

definition less_eq_piece :: "piece \<Rightarrow> piece \<Rightarrow> bool" where
  "less_eq_piece x y = op_less_eq (piece_bytes x) (piece_bytes y)"

instance
proof
  fix x y z :: piece
  show "x < y \<longleftrightarrow> x \<le> y \<and> \<not> y \<le> x" "x \<le> x" "x \<le> y \<or> y \<le> x"
    using op_less_total [of "piece_bytes x" "piece_bytes y"]
    by (auto simp: less_piece_def less_eq_piece_def op_less_eq_def op_less_irrefl dest: op_less_trans)
  show "x \<le> z" if "x \<le> y" "y \<le> z"
    using that op_less_total [of "piece_bytes x" "piece_bytes y"] op_less_total [of "piece_bytes y" "piece_bytes z"]
    by (auto simp: less_eq_piece_def op_less_eq_def dest: op_less_trans)
  show "x = y" if "x \<le> y" "y \<le> x"
    using that op_less_total [of "piece_bytes x" "piece_bytes y"]
    by (auto simp: less_eq_piece_def op_less_eq_def piece.expand)
qed

end

text \<open>The scans, as searches through a list of indices.\<close>

lemma scan_up_find: "scan_up test p pos = List.find (\<lambda>i. test (p ! i)) [pos..<length p]"
proof (induction test p pos rule: scan_up.induct)
  case (1 test p i)
  then show ?case by (subst scan_up.simps) (simp add: upt_conv_Cons)
qed

lemma scan_down_find: "scan_down test p i = List.find (\<lambda>i. test (p ! i)) (rev [0..<Suc i])"
proof (induction i)
  case (Suc i)
  then show ?case by (subst scan_down.simps) simp
qed (simp add: scan_down.simps)

lemma BuildLookupTable_nth:
  "length table = 256 \<Longrightarrow> BuildLookupTable s table ! uchar c = (c \<in> set s \<or> table ! uchar c)"
  by (induction s arbitrary: table) (auto simp: BuildLookupTable_def nth_list_update)

lemma lookup_table_nth: "lookup_table s ! uchar c = (c \<in> set s)"
  by (simp add: lookup_table_def BuildLookupTable_nth)

lemma Suc_min_last: "p \<noteq> [] \<Longrightarrow> Suc (min pos (length p - 1)) = min (pos + 1) (length p)"
  by (cases p) auto

lemma find_None: "None = List.find (\<lambda>i. False) xs"
  by (induction xs) auto

lemma find_first_of_list:
  "find_first_of p s pos = List.find (\<lambda>i. p ! i \<in> set s) [pos..<length p]"
  by (auto simp: find_first_of_def piece_find_char_def scan_up_find lookup_table_nth Let_def
      length_Suc_conv find_None)

lemma find_first_not_of_list:
  "s \<noteq> [] \<Longrightarrow> find_first_not_of p s pos = List.find (\<lambda>i. p ! i \<notin> set s) [pos..<length p]"
  by (auto simp: find_first_not_of_def find_first_not_of_char_def scan_up_find lookup_table_nth Let_def
      length_Suc_conv)

lemma find_first_not_of_empty: "find_first_not_of p [] pos = (if p = [] then None else Some 0)"
  by (simp add: find_first_not_of_def)

lemma find_last_of_list:
  "find_last_of p s pos = List.find (\<lambda>i. p ! i \<in> set s) (rev [0..<min (pos + 1) (length p)])"
proof (cases "p = [] \<or> s = []")
  case True
  then show ?thesis by (auto simp: find_last_of_def find_None)
next
  case False
  then show ?thesis
    by (auto simp: find_last_of_def piece_rfind_char_def scan_down_find lookup_table_nth
        Suc_min_last [simplified] length_Suc_conv simp del: upt_Suc)
qed

lemma find_last_not_of_list:
  "find_last_not_of p s pos = List.find (\<lambda>i. p ! i \<notin> set s) (rev [0..<min (pos + 1) (length p)])"
proof (cases "p = [] \<or> s = []")
  case True
  then show ?thesis by (cases p) (auto simp: find_last_not_of_def)
next
  case False
  then show ?thesis
    by (auto simp: find_last_not_of_def find_last_not_of_char_def scan_down_find lookup_table_nth
        Suc_min_last [simplified] length_Suc_conv simp del: upt_Suc)
qed

lemma find_cong_set: "(\<And>x. x \<in> set xs \<Longrightarrow> P x = Q x) \<Longrightarrow> List.find P xs = List.find Q xs"
  by (induction xs) auto

lemma matches_at_Nil [simp]: "matches_at p [] i \<longleftrightarrow> i \<le> length p"
  by (auto simp: matches_at_def)

lemma matches_at_bound: "matches_at p s i \<Longrightarrow> i + length s \<le> length p"
  by (simp add: matches_at_def)

lemma conj_absorb: "(Q \<Longrightarrow> P) \<Longrightarrow> (P \<and> Q) = Q"
  by blast

lemma piece_find_list:
  "piece_find p s pos =
     (if s = [] \<and> p \<noteq> [] \<and> length p \<le> pos then None
      else List.find (matches_at p s) [pos..<Suc (length p)])"
proof (cases "p = [] \<or> length p < pos")
  case True
  then show ?thesis by (auto simp: piece_find_def matches_at_def)
next
  case False
  let ?r = "List.find (matches_at p s) [pos..<Suc (length p)]"
  have search: "std_search p pos (length p) s = (case ?r of Some i \<Rightarrow> i | None \<Rightarrow> length p)"
    by (simp add: std_search_def conj_absorb [OF matches_at_bound] del: upt_Suc)
  show ?thesis
  proof (cases "s = []")
    case True
    with False search show ?thesis by (auto simp: piece_find_def upt_conv_Cons simp del: upt_Suc)
  next
    case s: False
    have "i < length p" if "?r = Some i" for i
      using that s by (cases s) (auto simp: find_Some_iff simp del: upt_Suc dest!: matches_at_bound)
    with False s search show ?thesis
      by (auto simp: piece_find_def Let_def simp del: upt_Suc split: option.split)
  qed
qed

lemma find_SomeD: "List.find P xs = Some x \<Longrightarrow> P x"
  by (auto simp: find_Some_iff)

lemma find_rev_upt:
  assumes "m \<le> n" "\<And>i. m < i \<Longrightarrow> i \<le> n \<Longrightarrow> \<not> P i"
  shows "List.find P (rev [0..<Suc n]) = List.find P (rev [0..<Suc m])"
  using assms
proof (induction n)
  case (Suc n)
  then show ?case by (cases "m = Suc n") (auto simp: le_Suc_eq)
qed simp

lemma piece_rfind_list:
  "piece_rfind p s pos = List.find (matches_at p s) (rev [0..<Suc (min pos (length p))])"
proof -
  consider "length p < length s" | "s = []" | "s \<noteq> []" "length s \<le> length p" by fastforce
  then show ?thesis
  proof cases
    case 1
    then have "List.find (matches_at p s) xs = None" for xs
      by (auto simp: find_None_iff dest!: matches_at_bound)
    with 1 show ?thesis by (simp only: piece_rfind_def if_True)
  next
    case 2
    then show ?thesis by (simp add: piece_rfind_def)
  next
    case 3
    let ?a = "min (length p - length s) pos" and ?P = "\<lambda>i. i + length s \<le> min (length p - length s) pos + length s \<and> matches_at p s i"
    have "List.find ?P (rev [0..<Suc (?a + length s)]) = List.find ?P (rev [0..<Suc ?a])"
      by (rule find_rev_upt) auto
    also have "\<dots> = List.find (matches_at p s) (rev [0..<Suc ?a])"
      by (rule find_cong_set) auto
    also have "\<dots> = List.find (matches_at p s) (rev [0..<Suc (min pos (length p))])"
      by (rule find_rev_upt [symmetric]) (auto dest!: matches_at_bound)
    finally have eq: "List.find ?P (rev [0..<Suc (?a + length s)]) =
      List.find (matches_at p s) (rev [0..<Suc (min pos (length p))])" .
    define r where "r = List.find ?P (rev [0..<Suc (?a + length s)])"
    have "i \<noteq> ?a + length s" if "r = Some i" for i
    proof -
      have "i + length s \<le> ?a + length s" using find_SomeD [OF that [unfolded r_def]] by blast
      moreover have "0 < length s" using 3(1) by simp
      ultimately show ?thesis by linarith
    qed
    moreover have "std_find_end p 0 (?a + length s) s = (case r of Some i \<Rightarrow> i | None \<Rightarrow> ?a + length s)"
      by (simp only: std_find_end_def r_def)
    ultimately have "piece_rfind p s pos = r"
      using 3 by (cases r) (auto simp: piece_rfind_def Let_def)
    then show ?thesis by (simp only: r_def eq)
  qed
qed

lemma compare_cases:
  "piece_compare x y < 0 \<longleftrightarrow> op_less x y" "piece_compare x y = 0 \<longleftrightarrow> x = y"
  "0 < piece_compare x y \<longleftrightarrow> op_less y x"
proof -
  show "piece_compare x y < 0 \<longleftrightarrow> op_less x y"
    by (auto simp: piece_compare_def op_less_def Let_def)
  show "piece_compare x y = 0 \<longleftrightarrow> x = y"
    using memcmp_eq [of x y] by (auto simp: piece_compare_def Let_def memcmp_eq)
  have "memcmp (take k y) (take k x) = - memcmp (take k x) (take k y)" for k
    by (rule memcmp_antisym)
  then show "0 < piece_compare x y \<longleftrightarrow> op_less y x"
    by (auto simp: piece_compare_def op_less_def Let_def)
qed

section \<open>Properties\<close>

text \<open>The searches for a byte of a set are exact: each forward search returns the first index
  at or after \<open>pos\<close> and each backward search the last index at or before \<open>pos\<close>, whether the set is
  empty, a single byte or goes through the lookup table. (\<open>find_first_not_of\<close> of the empty set is
  the exception: it returns 0 whatever \<open>pos\<close> is.)\<close>

theorem find_of_exact:
  "find_first_of p s pos = List.find (\<lambda>i. p ! i \<in> set s) [pos..<length p] \<and>
   find_last_of p s pos = List.find (\<lambda>i. p ! i \<in> set s) (rev [0..<min (pos + 1) (length p)]) \<and>
   find_last_not_of p s pos = List.find (\<lambda>i. p ! i \<notin> set s) (rev [0..<min (pos + 1) (length p)]) \<and>
   find_first_not_of p s pos =
     (if s = [] \<and> p \<noteq> [] then Some 0 else List.find (\<lambda>i. p ! i \<notin> set s) [pos..<length p])"
  by (cases "s = []") (simp_all add: find_first_of_list find_first_not_of_list find_last_of_list
      find_last_not_of_list find_first_not_of_empty)

text \<open>Searching for a substring: \<open>find\<close> returns the first match at or after \<open>pos\<close> and \<open>rfind\<close>
  the last match at or before it, except that an empty needle is not found at the end of a
  non-empty piece.\<close>

theorem piece_find_rfind_exact:
  "piece_find p s pos =
     (if s = [] \<and> p \<noteq> [] \<and> length p \<le> pos then None
      else List.find (matches_at p s) [pos..<Suc (length p)]) \<and>
   piece_rfind p s pos = List.find (matches_at p s) (rev [0..<Suc (min pos (length p))])"
  using piece_find_list piece_rfind_list by blast

text \<open>The comparison operators: \<open>compare\<close> is negative, zero or positive exactly where
  \<open>operator<\<close>, \<open>operator==\<close> or the reverse \<open>operator<\<close> holds, and these three exclude each other;
  \<open>starts_with\<close> and \<open>ends_with\<close> hold exactly for prefixes and suffixes, which the consumers then
  remove.\<close>

theorem piece_comparison:
  "(piece_compare x y < 0 \<longleftrightarrow> Piece x < Piece y) \<and> (piece_compare x y = 0 \<longleftrightarrow> op_eq x y) \<and>
   (op_eq x y \<longleftrightarrow> x = y) \<and> (0 < piece_compare x y \<longleftrightarrow> Piece y < Piece x) \<and>
   Consume (x @ y) x = (True, y) \<and> ConsumeFromEnd (x @ y) y = (True, x) \<and>
   (fst (Consume x y) \<longleftrightarrow> (\<exists>r. x = y @ r)) \<and> (fst (ConsumeFromEnd x y) \<longleftrightarrow> (\<exists>r. x = r @ y))"
  by (auto simp: compare_cases op_eq_iff less_piece_def Consume_def ConsumeFromEnd_def
      starts_with_iff ends_with_iff)

end
