(* ===== verification/Strutil_Ops.thy ===== *)
theory Strutil_Ops
  imports String_Piece
begin

text \<open>
  The string utilities of stubs/strutil.cc that rewrite, split and join: \<open>ReplaceCharacters\<close>,
  \<open>StripWhitespace\<close>, \<open>StringReplace\<close>, \<open>GlobalReplaceSubstring\<close>, the splitters and \<open>JoinStrings\<close>,
  \<open>DelocalizeRadix\<close> and \<open>CleanStringLineEndings\<close>. The loops keep the code's positions; each routine
  is then shown equal to a definition by recursion on the text.
\<close>

section \<open>Replacing\<close>

text \<open>\<open>strpbrk(str + i, accept)\<close>: a NUL ends the string, and so does its end.\<close>

function strpbrk :: "string \<Rightarrow> nat \<Rightarrow> string \<Rightarrow> nat option" where
  "strpbrk s i accept =
     (if length s \<le> i \<or> s ! i = CHR 0x00 then None
      else if s ! i \<in> set accept then Some i else strpbrk s (i + 1) accept)"
  by pat_completeness auto
termination by (relation "measure (\<lambda>(s, i, a). length s - i)") auto

declare strpbrk.simps [simp del]

lemma strpbrk_Some: "strpbrk s i accept = Some k \<Longrightarrow> i \<le> k \<and> k < length s"
proof (induction s i accept rule: strpbrk.induct)
  case (1 s i accept)
  from "1.prems" show ?case
    by (subst (asm) strpbrk.simps) (use "1.IH" in \<open>auto split: if_splits\<close>)
qed

function ReplaceCharacters_from :: "string \<Rightarrow> nat \<Rightarrow> string \<Rightarrow> char \<Rightarrow> string" where
  "ReplaceCharacters_from s i remove replacewith =
     (case strpbrk s i remove of
        None \<Rightarrow> s
      | Some str \<Rightarrow> ReplaceCharacters_from (s[str := replacewith]) (str + 1) remove replacewith)"
  by pat_completeness auto
termination
  by (relation "measure (\<lambda>(s, i, r). length s - i)") (auto dest: strpbrk_Some)

declare ReplaceCharacters_from.simps [simp del]

definition ReplaceCharacters :: "string \<Rightarrow> string \<Rightarrow> char \<Rightarrow> string" where
  "ReplaceCharacters s remove replacewith = ReplaceCharacters_from s 0 remove replacewith"

text \<open>\<open>std::string::find\<close>.\<close>

definition std_string_find :: "string \<Rightarrow> string \<Rightarrow> nat \<Rightarrow> nat option" where
  "std_string_find s sub pos = List.find (matches_at s sub) [pos..<Suc (length s)]"

lemma std_string_find_Some:
  "std_string_find s sub pos = Some k \<Longrightarrow> pos \<le> k \<and> k + length sub \<le> length s"
  by (auto simp: std_string_find_def find_Some_iff matches_at_def simp del: upt_Suc)

text \<open>The loop of the appending \<open>StringReplace\<close>. The empty pattern, on which it would not end, is
  returned on before it.\<close>

function StringReplace_loop ::
    "string \<Rightarrow> string \<Rightarrow> string \<Rightarrow> bool \<Rightarrow> nat \<Rightarrow> string \<Rightarrow> string" where
  "StringReplace_loop s oldsub newsub replace_all start_pos res =
     (if oldsub = [] then res @ s
      else case std_string_find s oldsub start_pos of
        None \<Rightarrow> res @ drop start_pos s
      | Some pos \<Rightarrow>
          let res = res @ take (pos - start_pos) (drop start_pos s) @ newsub;
              start_pos = pos + length oldsub
          in if replace_all then StringReplace_loop s oldsub newsub replace_all start_pos res
             else res @ drop start_pos s)"
  by pat_completeness auto
termination
  by (relation "measure (\<lambda>(s, ol, n, a, start, r). length s - start)")
    (auto dest!: std_string_find_Some simp: neq_Nil_conv)

declare StringReplace_loop.simps [simp del]

definition StringReplace :: "string \<Rightarrow> string \<Rightarrow> string \<Rightarrow> bool \<Rightarrow> string" where
  "StringReplace s oldsub newsub replace_all = StringReplace_loop s oldsub newsub replace_all 0 []"

text \<open>\<open>GlobalReplaceSubstring\<close>: the count and the new text. The loop runs from \<open>pos\<close> with the
  count and \<open>tmp\<close> so far.\<close>

function GlobalReplace_loop ::
    "string \<Rightarrow> string \<Rightarrow> string \<Rightarrow> nat \<Rightarrow> nat \<Rightarrow> string \<Rightarrow> nat \<times> nat \<times> string" where
  "GlobalReplace_loop substring replacement s pos num_replacements tmp =
     (if substring = [] then (num_replacements, pos, tmp)
      else case std_string_find s substring pos of
        None \<Rightarrow> (num_replacements, pos, tmp)
      | Some match_pos \<Rightarrow>
          GlobalReplace_loop substring replacement s (match_pos + length substring)
            (num_replacements + 1) (tmp @ take (match_pos - pos) (drop pos s) @ replacement))"
  by pat_completeness auto
termination
  by (relation "measure (\<lambda>(su, re, s, pos, r). length s - pos)")
    (auto dest!: std_string_find_Some simp: neq_Nil_conv)

declare GlobalReplace_loop.simps [simp del]

definition GlobalReplaceSubstring :: "string \<Rightarrow> string \<Rightarrow> string \<Rightarrow> nat \<times> string" where
  "GlobalReplaceSubstring substring replacement s =
     (if s = [] \<or> substring = [] then (0, s)
      else case GlobalReplace_loop substring replacement s 0 0 [] of
        (num_replacements, pos, tmp) \<Rightarrow>
          (num_replacements, if num_replacements > 0 then tmp @ drop pos s else s))"

section \<open>Stripping\<close>

function leading_space :: "string \<Rightarrow> nat \<Rightarrow> nat" where
  "leading_space str first =
     (if first < length str \<and> ascii_isspace (str ! first) then leading_space str (first + 1)
      else first)"
  by pat_completeness auto
termination by (relation "measure (\<lambda>(s, i). length s - i)") auto

function trailing_space :: "string \<Rightarrow> int \<Rightarrow> int" where
  "trailing_space str end_pos =
     (if 0 \<le> end_pos \<and> ascii_isspace (str ! nat end_pos) then trailing_space str (end_pos - 1) else end_pos)"
  by pat_completeness auto
termination by (relation "measure (\<lambda>(s, i). nat (i + 1))") auto

declare leading_space.simps [simp del] trailing_space.simps [simp del]

definition StripWhitespace :: "string \<Rightarrow> string" where
  "StripWhitespace str =
     (let first = leading_space str 0 in
      if first = length str then []
      else let str = (if first > 0 then drop first str else str);
               end_pos = trailing_space str (int (length str) - 1)
           in if end_pos \<noteq> int (length str) - 1 \<and> 0 \<le> end_pos then take (nat (end_pos + 1)) str else str)"

section \<open>Splitting and joining\<close>

text \<open>The single-character path: \<open>p\<close> is the position, the inner loop runs to the end of the field.\<close>

function field_end :: "string \<Rightarrow> char \<Rightarrow> nat \<Rightarrow> nat" where
  "field_end full c p =
     (if p < length full \<and> full ! p \<noteq> c then field_end full c (p + 1) else p)"
  by pat_completeness auto
termination by (relation "measure (\<lambda>(f, c, p). length f - p)") auto

declare field_end.simps [simp del]

lemma field_end_le: "p \<le> field_end full c p"
proof (induction full c p rule: field_end.induct)
  case (1 full c p)
  then show ?case by (subst field_end.simps) auto
qed

function split_single :: "string \<Rightarrow> char \<Rightarrow> nat \<Rightarrow> string list \<Rightarrow> string list" where
  "split_single full c p result =
     (if length full \<le> p then result
      else if full ! p = c then split_single full c (p + 1) result
      else let start = p; p = field_end full c (p + 1)
           in split_single full c p (result @ [take (p - start) (drop start full)]))"
  by pat_completeness auto
termination
proof (relation "measure (\<lambda>(f, c, p, r). length f - p)")
  fix full :: string and c p x xa
  assume "\<not> length full \<le> p" "xa = field_end full c (p + 1)"
  moreover have "p + 1 \<le> field_end full c (p + 1)" by (rule field_end_le)
  ultimately show "((full, c, xa, y), full, c, p, r) \<in> measure (\<lambda>(f, c, p, r). length f - p)" for y r
    by auto
qed auto

declare split_single.simps [simp del]

text \<open>The general path.\<close>

lemma split_progress:
  assumes "find_first_of full delim b = Some e" "find_first_not_of full delim e = Some b'"
  shows "b \<le> e \<and> e < b' \<and> b' < length full"
proof -
  have "full \<noteq> []" "delim \<noteq> []" using assms(1) by (auto simp: find_first_of_def)
  with assms have *: "List.find (\<lambda>i. full ! i \<in> set delim) [b..<length full] = Some e"
    "List.find (\<lambda>i. full ! i \<notin> set delim) [e..<length full] = Some b'"
    by (simp_all add: find_first_of_list find_first_not_of_list)
  then have "full ! e \<in> set delim" "full ! b' \<notin> set delim" by (auto dest: find_SomeD)
  moreover from this have "e \<noteq> b'" by auto
  ultimately show ?thesis using * by (auto simp: find_Some_iff)
qed

function split_general :: "string \<Rightarrow> string \<Rightarrow> nat option \<Rightarrow> string list \<Rightarrow> string list" where
  "split_general full delim None result = result"
| "split_general full delim (Some begin_index) result =
     (case find_first_of full delim begin_index of
        None \<Rightarrow> result @ [drop begin_index full]
      | Some end_index \<Rightarrow>
          split_general full delim (find_first_not_of full delim end_index)
            (result @ [take (end_index - begin_index) (drop begin_index full)]))"
  by pat_completeness auto
termination
proof (relation "measure (\<lambda>(f, d, b, r). case b of None \<Rightarrow> 0 | Some b \<Rightarrow> Suc (length f - b))")
  show "((full, delim, find_first_not_of full delim e, r), full, delim, Some b, r')
      \<in> measure (\<lambda>(f, d, b, r). case b of None \<Rightarrow> 0 | Some b \<Rightarrow> Suc (length f - b))"
    if "find_first_of full delim b = Some e" for full delim b e r r'
    using split_progress [OF that] by (auto split: option.split)
qed auto

definition SplitStringUsing :: "string \<Rightarrow> string \<Rightarrow> string list" where
  "SplitStringUsing full delim =
     (if length delim = 1 then split_single full (delim ! 0) 0 []
      else split_general full delim (find_first_not_of full delim 0) [])"

text \<open>\<open>SplitStringToIteratorAllowEmpty\<close>, with the loop counter \<open>i\<close>; 0 pieces means all of them.\<close>

function split_allow_empty :: "string \<Rightarrow> string \<Rightarrow> int \<Rightarrow> int \<Rightarrow> nat \<Rightarrow> string list \<Rightarrow> string list" where
  "split_allow_empty full delim pieces i begin_index result =
     (if i < pieces - 1 \<or> pieces = 0 then
        (case find_first_of full delim begin_index of
           None \<Rightarrow> result @ [drop begin_index full]
         | Some end_index \<Rightarrow>
             split_allow_empty full delim pieces (i + 1) (end_index + 1)
               (result @ [take (end_index - begin_index) (drop begin_index full)]))
      else result @ [drop begin_index full])"
  by pat_completeness auto
termination
  by (relation "measure (\<lambda>(f, d, n, i, b, r). length f - b)")
    (auto simp: find_first_of_list find_Some_iff)

declare split_allow_empty.simps [simp del]

definition SplitStringToIteratorAllowEmpty :: "string \<Rightarrow> string \<Rightarrow> int \<Rightarrow> string list" where
  "SplitStringToIteratorAllowEmpty full delim pieces = split_allow_empty full delim pieces 0 0 []"

definition SplitStringAllowEmpty :: "string \<Rightarrow> string \<Rightarrow> string list" where
  "SplitStringAllowEmpty full delim = SplitStringToIteratorAllowEmpty full delim 0"

text \<open>\<open>JoinStrings\<close>: the length reserved in advance, and the text. The flag is \<open>iter == start\<close>.\<close>

fun join_length :: "bool \<Rightarrow> string list \<Rightarrow> nat \<Rightarrow> nat \<Rightarrow> nat" where
  "join_length at_start [] delim_length len = len"
| "join_length at_start (c # components) delim_length len =
     join_length False components delim_length
       ((if at_start then len else len + delim_length) + length c)"

fun join_append :: "bool \<Rightarrow> string list \<Rightarrow> string \<Rightarrow> string \<Rightarrow> string" where
  "join_append at_start [] delim result = result"
| "join_append at_start (c # components) delim result =
     join_append False components delim ((if at_start then result else result @ delim) @ c)"

definition JoinStrings :: "string list \<Rightarrow> string \<Rightarrow> string" where
  "JoinStrings components delim = join_append True components delim []"

section \<open>Radix characters\<close>

definition IsValidFloatChar :: "char \<Rightarrow> bool" where
  "IsValidFloatChar c \<longleftrightarrow> 48 \<le> uchar c \<and> uchar c \<le> 57 \<or> c = CHR ''e'' \<or> c = CHR ''E'' \<or>
     c = CHR ''+'' \<or> c = CHR ''-''"

text \<open>On the text before the NUL.\<close>

definition DelocalizeRadix :: "string \<Rightarrow> string" where
  "DelocalizeRadix buffer =
     (if CHR ''.'' \<in> set buffer then buffer
      else let valid = takeWhile IsValidFloatChar buffer in
           case dropWhile IsValidFloatChar buffer of
             [] \<Rightarrow> buffer
           | c # rest \<Rightarrow> valid @ [CHR ''.''] @ dropWhile (\<lambda>c. \<not> IsValidFloatChar c) rest)"

section \<open>Line endings\<close>

text \<open>The unaligned 64-bit load and store, on a little-endian machine (the test is the same on the
  reversed bytes).\<close>

definition load64 :: "string \<Rightarrow> nat \<Rightarrow> uint64" where
  "load64 p i = word_of_int (le_val (map (\<lambda>c. int (uchar c)) (take 8 (drop i p))))"

definition store64 :: "string \<Rightarrow> nat \<Rightarrow> uint64 \<Rightarrow> string" where
  "store64 p i v =
     take i p @ map (\<lambda>k. to_char (unat (drop_bit (8 * k) v))) [0..<8] @ drop (i + 8) p"

definition has_less :: "uint64 \<Rightarrow> uint64 \<Rightarrow> uint64" where
  "has_less x n = (x - (NOT 0 div 255) * n) AND NOT x AND (NOT 0 div 255 * 128)"

text \<open>One byte of the loop: text, output position and \<open>r_seen\<close> afterwards. \<open>p[output_pos++] = c\<close>
  is \<open>put\<close>.\<close>

definition put :: "char \<Rightarrow> string \<times> nat \<Rightarrow> string \<times> nat" where
  "put c = (\<lambda>(p, output_pos). (p[output_pos := c], output_pos + 1))"

definition clean_byte :: "string \<Rightarrow> nat \<Rightarrow> nat \<Rightarrow> bool \<Rightarrow> (string \<times> nat) \<times> bool" where
  "clean_byte p input_pos output_pos r_seen =
     (let c = p ! input_pos in
      if c = CHR 0x0D then (if r_seen then put (CHR 0x0A) (p, output_pos) else (p, output_pos), True)
      else if c = CHR 0x0A then
        (if input_pos \<noteq> output_pos then put (CHR 0x0A) (p, output_pos) else (p, output_pos + 1), False)
      else let (p, output_pos) = (if r_seen then put (CHR 0x0A) (p, output_pos) else (p, output_pos)) in
           (if input_pos \<noteq> output_pos then put c (p, output_pos) else (p, output_pos + 1), False))"

function clean_loop :: "nat \<Rightarrow> string \<Rightarrow> nat \<Rightarrow> nat \<Rightarrow> bool \<Rightarrow> (string \<times> nat) \<times> bool" where
  "clean_loop len p input_pos output_pos r_seen =
     (if input_pos < len then
        (let v = load64 p input_pos in
         if \<not> r_seen \<and> input_pos + 8 < len \<and> has_less v 14 = 0 then
           clean_loop len (if output_pos \<noteq> input_pos then store64 p output_pos v else p)
             (input_pos + 8) (output_pos + 8) r_seen
         else case clean_byte p input_pos output_pos r_seen of
           ((p, output_pos), r_seen) \<Rightarrow> clean_loop len p (input_pos + 1) output_pos r_seen)
      else ((p, output_pos), r_seen))"
  by pat_completeness auto
termination by (relation "measure (\<lambda>(len, p, i, r). len - i)") auto

declare clean_loop.simps [simp del]

definition CleanStringLineEndings :: "string \<Rightarrow> bool \<Rightarrow> string" where
  "CleanStringLineEndings str auto_end_last_line =
     (case clean_loop (length str) str 0 0 False of
        ((p, output_pos), r_seen) \<Rightarrow>
          (if r_seen \<or> auto_end_last_line \<and> output_pos > 0 \<and> p ! (output_pos - 1) \<noteq> CHR 0x0A
           then take output_pos p @ [CHR 0x0A]
           else if output_pos < length str then take output_pos p else p))"

text \<open>The appending overload.\<close>

definition CleanStringLineEndings_append :: "string \<Rightarrow> string \<Rightarrow> bool \<Rightarrow> string" where
  "CleanStringLineEndings_append src dst auto_end_last_line =
     (if dst = [] then CleanStringLineEndings (dst @ src) auto_end_last_line
      else dst @ CleanStringLineEndings src auto_end_last_line)"

section \<open>Replacement as recursion on the text\<close>

fun replace_before_NUL :: "string \<Rightarrow> char \<Rightarrow> string \<Rightarrow> string" where
  "replace_before_NUL remove r [] = []"
| "replace_before_NUL remove r (c # s) =
     (if c = CHR 0x00 then c # s
      else (if c \<in> set remove then r else c) # replace_before_NUL remove r s)"

lemma replace_before_NUL_map:
  "replace_before_NUL remove r s =
     map (\<lambda>c. if c \<in> set remove then r else c) (takeWhile (\<lambda>c. c \<noteq> CHR 0x00) s) @
     dropWhile (\<lambda>c. c \<noteq> CHR 0x00) s"
  by (induction s) auto

lemma replace_before_NUL_strpbrk:
  "i \<le> length s \<Longrightarrow>
   replace_before_NUL R r (drop i s) =
     (case strpbrk s i R of
        None \<Rightarrow> drop i s
      | Some k \<Rightarrow> take (k - i) (drop i s) @ r # replace_before_NUL R r (drop (Suc k) s))"
proof (induction s i R rule: strpbrk.induct)
  case (1 s i R)
  show ?case
  proof (cases "i = length s")
    case True
    then show ?thesis by (simp add: strpbrk.simps)
  next
    case False
    with 1 have i: "i < length s" by simp
    then have d: "drop i s = s ! i # drop (Suc i) s" by (simp add: Cons_nth_drop_Suc)
    show ?thesis
    proof (cases "s ! i = CHR 0x00 \<or> s ! i \<in> set R")
      case True
      then show ?thesis unfolding d using i by (subst strpbrk.simps) auto
    next
      case no: False
      then have step: "strpbrk s i R = strpbrk s (Suc i) R" using i by (subst strpbrk.simps) simp
      have "\<not> (length s \<le> i \<or> s ! i = CHR 0x00)" "s ! i \<notin> set R" using i no by auto
      from "1.IH" [OF this] i have IH: "replace_before_NUL R r (drop (Suc i) s) =
          (case strpbrk s (Suc i) R of None \<Rightarrow> drop (Suc i) s
           | Some k \<Rightarrow> take (k - Suc i) (drop (Suc i) s) @ r # replace_before_NUL R r (drop (Suc k) s))"
        by (simp split: option.splits)
      have "replace_before_NUL R r (drop i s) = s ! i # replace_before_NUL R r (drop (Suc i) s)"
        using no by (simp add: d)
      then show ?thesis
        using i unfolding step IH
        by (cases "strpbrk s (Suc i) R")
          (auto dest!: strpbrk_Some simp: take_diff_Suc Suc_le_eq Cons_nth_drop_Suc simp del: replace_before_NUL.simps)
    qed
  qed
qed

lemma ReplaceCharacters_from_spec:
  "i \<le> length s \<Longrightarrow> ReplaceCharacters_from s i R r = take i s @ replace_before_NUL R r (drop i s)"
proof (induction s i R r rule: ReplaceCharacters_from.induct)
  case (1 s i R r)
  show ?case
  proof (cases "strpbrk s i R")
    case None
    with "1.prems" show ?thesis
      by (subst ReplaceCharacters_from.simps) (simp add: replace_before_NUL_strpbrk)
  next
    case (Some k)
    then have k: "i \<le> k" "k < length s" by (auto dest: strpbrk_Some)
    then have "take k s = take i s @ take (k - i) (drop i s)"
      by (metis add_diff_inverse_nat not_less take_add)
    with "1.IH" [OF Some] Some "1.prems" k show ?thesis
      by (subst ReplaceCharacters_from.simps)
        (simp add: replace_before_NUL_strpbrk [of i] take_Suc_conv_app_nth)
  qed
qed

function replace_spec :: "string \<Rightarrow> string \<Rightarrow> bool \<Rightarrow> string \<Rightarrow> string" where
  "replace_spec old new global s =
     (if old = [] \<or> s = [] then s
      else if take (length old) s = old then
        new @ (if global then replace_spec old new global (drop (length old) s)
               else drop (length old) s)
      else hd s # replace_spec old new global (tl s))"
  by pat_completeness auto
termination by (relation "measure (\<lambda>(ol, n, g, s). length s)") auto

declare replace_spec.simps [simp del]

lemma std_string_find_step:
  "std_string_find s sub pos =
     (if length s < pos then None else if matches_at s sub pos then Some pos
      else std_string_find s sub (Suc pos))"
  by (simp add: std_string_find_def upt_conv_Cons del: upt_Suc)

lemma matches_at_take: "i \<le> length s \<Longrightarrow> matches_at s sub i \<longleftrightarrow> take (length sub) (drop i s) = sub"
  by (auto simp: matches_at_def) (metis length_drop length_take min.absorb_iff2 add.commute le_diff_conv2 min.cobounded2)

lemma replace_spec_find:
  "old \<noteq> [] \<Longrightarrow> pos \<le> length s \<Longrightarrow>
   replace_spec old new g (drop pos s) =
     (case std_string_find s old pos of
        None \<Rightarrow> drop pos s
      | Some k \<Rightarrow> take (k - pos) (drop pos s) @ new @
          (if g then replace_spec old new g (drop (k + length old) s) else drop (k + length old) s))"
proof (induction "length s - pos" arbitrary: pos)
  case 0
  then show ?case
    by (subst std_string_find_step) (simp add: std_string_find_step [of s old "Suc pos"] matches_at_def replace_spec.simps)
next
  case (Suc n)
  then have pos: "pos < length s" by simp
  then have d: "drop pos s = s ! pos # drop (Suc pos) s" by (simp add: Cons_nth_drop_Suc)
  show ?case
  proof (cases "matches_at s old pos")
    case True
    then show ?thesis using Suc.prems pos
      by (subst std_string_find_step, subst replace_spec.simps)
        (simp add: matches_at_take add.commute)
  next
    case False
    then have step: "std_string_find s old pos = std_string_find s old (Suc pos)"
      using pos by (subst std_string_find_step) simp
    have "replace_spec old new g (drop pos s) = s ! pos # replace_spec old new g (drop (Suc pos) s)"
      using False Suc.prems pos by (subst replace_spec.simps) (simp add: matches_at_take d)
    moreover have "n = length s - Suc pos" "Suc pos \<le> length s" using Suc.hyps(2) by simp_all
    ultimately show ?thesis
      using Suc.hyps(1) [of "Suc pos"] Suc.prems(1) pos unfolding step
      by (auto split: option.split dest!: std_string_find_Some simp: take_diff_Suc Cons_nth_drop_Suc)
  qed
qed

lemma StringReplace_loop_spec:
  "pos \<le> length s \<Longrightarrow> old \<noteq> [] \<Longrightarrow>
   StringReplace_loop s old new g pos res = res @ replace_spec old new g (drop pos s)"
proof (induction s old new g pos res rule: StringReplace_loop.induct)
  case (1 s old new g pos res)
  show ?case
  proof (cases "std_string_find s old pos")
    case None
    with "1.prems" show ?thesis
      by (subst StringReplace_loop.simps) (simp add: replace_spec_find)
  next
    case (Some k)
    with "1.prems" have "k + length old \<le> length s" by (auto dest: std_string_find_Some)
    with "1.IH" [OF "1.prems"(2) Some refl refl] Some "1.prems" show ?thesis
      by (subst StringReplace_loop.simps) (simp add: replace_spec_find [of old pos] Let_def)
  qed
qed

lemma StringReplace_spec: "StringReplace s old new g = replace_spec old new g s"
proof (cases "old = []")
  case True
  then show ?thesis by (simp add: StringReplace_def StringReplace_loop.simps replace_spec.simps)
qed (simp add: StringReplace_def StringReplace_loop_spec)

text \<open>\<open>GlobalReplaceSubstring\<close> makes the same text, and counts the matches it replaced.\<close>

lemma GlobalReplace_loop_spec:
  "pos \<le> length s \<Longrightarrow> sub \<noteq> [] \<Longrightarrow> GlobalReplace_loop sub new s pos n tmp = (m, pos', tmp') \<Longrightarrow>
   tmp' @ drop pos' s = tmp @ replace_spec sub new True (drop pos s) \<and> n \<le> m \<and>
   (m = n \<longrightarrow> replace_spec sub new True (drop pos s) = drop pos s) \<and>
   int (length tmp' + (length s - pos')) - int (length tmp + (length s - pos)) =
     (int m - int n) * (int (length new) - int (length sub))"
proof (induction sub new s pos n tmp arbitrary: m pos' tmp' rule: GlobalReplace_loop.induct)
  case (1 sub new s pos n tmp)
  show ?case
  proof (cases "std_string_find s sub pos")
    case None
    with "1.prems" show ?thesis
      by (subst (asm) GlobalReplace_loop.simps) (simp add: replace_spec_find)
  next
    case (Some k)
    then have k: "pos \<le> k" "k + length sub \<le> length s" by (auto dest: std_string_find_Some)
    from "1.prems" Some have "GlobalReplace_loop sub new s (k + length sub) (n + 1)
        (tmp @ take (k - pos) (drop pos s) @ new) = (m, pos', tmp')"
      by (subst (asm) GlobalReplace_loop.simps) simp
    from "1.IH" [OF "1.prems"(2) Some k(2) "1.prems"(2) this] Some "1.prems" k show ?thesis
      by (simp add: replace_spec_find [of sub pos] algebra_simps)
  qed
qed

section \<open>Fields\<close>

fun split_fields :: "(char \<Rightarrow> bool) \<Rightarrow> string \<Rightarrow> string list" where
  "split_fields d [] = [[]]"
| "split_fields d (c # s) =
     (if d c then [] # split_fields d s
      else case split_fields d s of [] \<Rightarrow> [[c]] | f # fs \<Rightarrow> (c # f) # fs)"

lemma split_fields_nonempty [simp]: "split_fields d s \<noteq> []"
  by (induction s) (auto split: list.split)

lemma split_fields_none: "(\<And>c. c \<in> set s \<Longrightarrow> \<not> d c) \<Longrightarrow> split_fields d s = [s]"
  by (induction s) auto

lemma split_fields_append:
  "(\<And>c. c \<in> set s \<Longrightarrow> \<not> d c) \<Longrightarrow> d c \<Longrightarrow> split_fields d (s @ c # t) = s # split_fields d t"
  by (induction s) auto

lemma find_up_None: "List.find (\<lambda>i. P (p ! i)) [b..<length p] = None \<Longrightarrow> c \<in> set (drop b p) \<Longrightarrow> \<not> P c"
  by (auto simp: find_None_iff in_set_conv_nth)

lemma find_up_Some:
  assumes "List.find (\<lambda>i. P (p ! i)) [b..<length p] = Some e"
  shows "b \<le> e" "e < length p" "P (p ! e)" "drop b p = take (e - b) (drop b p) @ p ! e # drop (Suc e) p"
    "c \<in> set (take (e - b) (drop b p)) \<Longrightarrow> \<not> P c"
proof -
  from assms obtain k where k: "k < length p - b" "e = b + k" "P (p ! e)" "\<And>j. j < k \<Longrightarrow> \<not> P (p ! (b + j))"
    by (auto simp: find_Some_iff)
  then show "b \<le> e" "e < length p" "P (p ! e)" by auto
  then show "drop b p = take (e - b) (drop b p) @ p ! e # drop (Suc e) p"
    by (metis Cons_nth_drop_Suc append_take_drop_id drop_drop le_add_diff_inverse2)
  show "\<not> P c" if "c \<in> set (take (e - b) (drop b p))"
    using that k by (auto simp: in_set_conv_nth)
qed

lemma split_fields_find:
  "split_fields (\<lambda>c. c \<in> set delim) (drop b full) =
     (case find_first_of full delim b of
        None \<Rightarrow> [drop b full]
      | Some e \<Rightarrow> take (e - b) (drop b full) # split_fields (\<lambda>c. c \<in> set delim) (drop (Suc e) full))"
proof (cases "find_first_of full delim b")
  case None
  then show ?thesis
    by (simp add: find_first_of_list) (rule split_fields_none, rule find_up_None)
next
  case (Some e)
  note e = find_up_Some [OF Some [unfolded find_first_of_list]]
  show ?thesis
    by (subst e(4)) (use e(3,5) Some in \<open>simp add: split_fields_append\<close>)
qed

lemma split_allow_empty_all:
  "split_allow_empty full delim 0 i b result =
     result @ split_fields (\<lambda>c. c \<in> set delim) (drop b full)"
proof (induction full delim "0 :: int" i b result rule: split_allow_empty.induct)
  case (1 full delim i b result)
  then show ?case
    by (subst split_allow_empty.simps, subst split_fields_find) (simp split: option.split)
qed

lemma SplitStringAllowEmpty_fields:
  "SplitStringAllowEmpty full delim = split_fields (\<lambda>c. c \<in> set delim) full"
  by (simp add: SplitStringAllowEmpty_def SplitStringToIteratorAllowEmpty_def split_allow_empty_all)

text \<open>Both paths of \<open>SplitStringUsing\<close> drop the empty fields.\<close>

abbreviation fields :: "(char \<Rightarrow> bool) \<Rightarrow> string \<Rightarrow> string list" where
  "fields d s \<equiv> filter (\<lambda>f. f \<noteq> []) (split_fields d s)"

lemma fields_none: "(\<And>c. c \<in> set s \<Longrightarrow> d c) \<Longrightarrow> fields d s = []"
  by (induction s) auto

lemma fields_skip: "(\<And>c. c \<in> set s \<Longrightarrow> d c) \<Longrightarrow> fields d (s @ t) = fields d t"
  by (induction s) auto

lemma split_general_fields:
  assumes "case b of None \<Rightarrow> True | Some b \<Rightarrow> b < length full \<and> full ! b \<notin> set delim" "delim \<noteq> []"
  shows "split_general full delim b result =
    result @ (case b of None \<Rightarrow> [] | Some b \<Rightarrow> fields (\<lambda>c. c \<in> set delim) (drop b full))"
  using assms
proof (induction full delim b result rule: split_general.induct)
  case (2 full delim b result)
  then have b: "b < length full" "full ! b \<notin> set delim" by simp_all
  let ?d = "\<lambda>c. c \<in> set delim"
  show ?case
  proof (cases "find_first_of full delim b")
    case None
    with b 2(3) show ?thesis by (simp add: split_fields_find)
  next
    case (Some e)
    note e = find_up_Some [OF Some [unfolded find_first_of_list]]
    have "b \<noteq> e" using b e(3) by auto
    with e have "take (e - b) (drop b full) \<noteq> []" by simp
    then have now: "fields ?d (drop b full) = take (e - b) (drop b full) # fields ?d (drop (Suc e) full)"
      using Some by (simp add: split_fields_find [of delim b])
    have skip: "fields ?d (drop e full) = fields ?d (drop (Suc e) full)"
      using e(2,3) by (simp add: Cons_nth_drop_Suc [symmetric])
    have rest: "fields ?d (drop e full) =
      (case find_first_not_of full delim e of None \<Rightarrow> [] | Some b \<Rightarrow> fields ?d (drop b full))"
    proof (cases "find_first_not_of full delim e")
      case None
      then show ?thesis using find_up_None [of "\<lambda>c. c \<notin> set delim" full e] 2(3)
        by (simp add: find_first_not_of_list fields_none)
    next
      case (Some b')
      note b' = find_up_Some [of "\<lambda>c. c \<notin> set delim", OF Some [unfolded find_first_not_of_list [OF 2(3)]]]
      have "fields ?d (drop e full) = fields ?d (full ! b' # drop (Suc b') full)"
        by (subst b'(4)) (use b'(5) in \<open>simp add: fields_skip\<close>)
      with Some b'(2) show ?thesis by (simp add: Cons_nth_drop_Suc)
    qed
    have "case find_first_not_of full delim e of None \<Rightarrow> True
        | Some b \<Rightarrow> b < length full \<and> full ! b \<notin> set delim"
      using find_up_Some(2,3) [of "\<lambda>c. c \<notin> set delim" full e] 2(3)
      by (auto simp: find_first_not_of_list split: option.split)
    from 2(1) [OF Some this 2(3)] Some now rest skip show ?thesis by simp
  qed
qed simp

lemma field_end_spec:
  "p \<le> length full \<Longrightarrow> field_end full c p \<le> length full \<and>
   drop p full = take (field_end full c p - p) (drop p full) @ drop (field_end full c p) full \<and>
   (\<forall>x \<in> set (take (field_end full c p - p) (drop p full)). x \<noteq> c) \<and>
   (field_end full c p < length full \<longrightarrow> full ! field_end full c p = c)"
proof (induction full c p rule: field_end.induct)
  case (1 full c p)
  show ?case
  proof (cases "p < length full \<and> full ! p \<noteq> c")
    case True
    then have step: "field_end full c p = field_end full c (Suc p)" by (subst field_end.simps) simp
    define e where "e = field_end full c (Suc p)"
    have "Suc p \<le> e" unfolding e_def by (rule field_end_le)
    then have f: "take (e - p) (drop p full) = full ! p # take (e - Suc p) (drop (Suc p) full)"
      using True by (simp add: take_diff_Suc)
    from "1.IH" [OF True] True
    have IH: "e \<le> length full" "drop (Suc p) full = take (e - Suc p) (drop (Suc p) full) @ drop e full"
      "\<forall>x \<in> set (take (e - Suc p) (drop (Suc p) full)). x \<noteq> c" "e < length full \<longrightarrow> full ! e = c"
      by (simp_all add: e_def)
    have "drop p full = full ! p # drop (Suc p) full" using True by (simp add: Cons_nth_drop_Suc)
    also have "\<dots> = take (e - p) (drop p full) @ drop e full" unfolding f by (subst IH(2)) simp
    finally show ?thesis
      using IH True unfolding step e_def [symmetric] f by simp
  next
    case False
    then have stop: "field_end full c p = p" by (subst field_end.simps) auto
    with False 1 show ?thesis by (auto simp: stop)
  qed
qed

lemma split_single_fields:
  "p \<le> length full \<Longrightarrow> split_single full c p result = result @ fields (\<lambda>x. x = c) (drop p full)"
proof (induction full c p result rule: split_single.induct)
  case (1 full c p result)
  consider "p = length full" | "p < length full" "full ! p = c" | "p < length full" "full ! p \<noteq> c"
    using "1.prems" by linarith
  then show ?case
  proof cases
    case 1
    then show ?thesis by (subst split_single.simps) simp
  next
    case 2
    with "1.IH"(1) show ?thesis
      by (subst split_single.simps) (simp add: Cons_nth_drop_Suc [symmetric])
  next
    case 3
    define e where "e = field_end full c (p + 1)"
    have le: "p + 1 \<le> e" unfolding e_def by (rule field_end_le)
    from 3 field_end_spec [of "p + 1" full c, folded e_def]
    have e: "e \<le> length full" "drop (p + 1) full = take (e - (p + 1)) (drop (p + 1) full) @ drop e full"
      "\<forall>x \<in> set (take (e - (p + 1)) (drop (p + 1) full)). x \<noteq> c" "e < length full \<Longrightarrow> full ! e = c"
      by auto
    let ?f = "take (e - p) (drop p full)"
    have f: "?f = full ! p # take (e - (p + 1)) (drop (p + 1) full)"
      using le 3 by (simp add: take_diff_Suc)
    with e(3) 3 have chars: "x \<noteq> c" if "x \<in> set ?f" for x using that by auto
    have d: "drop p full = ?f @ drop e full"
      using f e(2) 3 by (metis Cons_nth_drop_Suc Suc_eq_plus1 append_Cons)
    have "fields (\<lambda>x. x = c) (?f @ drop e full) = ?f # fields (\<lambda>x. x = c) (drop e full)"
    proof (cases "e < length full")
      case True
      then have "drop e full = c # drop (Suc e) full" using e(4) by (metis Cons_nth_drop_Suc)
      then show ?thesis using chars f by (simp add: split_fields_append)
    next
      case False
      then have rest: "drop e full = []" by simp
      have "split_fields (\<lambda>x. x = c) ?f = [?f]" by (rule split_fields_none) (use chars in blast)
      with f show ?thesis by (simp only: rest) simp
    qed
    with "1.IH"(2) [OF _ _ refl e_def] 3 e(1) d show ?thesis
      by (subst split_single.simps) (simp add: Let_def e_def)
  qed
qed

lemma SplitStringUsing_fields:
  "SplitStringUsing full delim = fields (\<lambda>c. c \<in> set delim) full"
proof -
  consider "delim = []" | c where "delim = [c]" | "delim \<noteq> []" "length delim \<noteq> 1"
    by (cases delim; cases "tl delim") auto
  then show ?thesis
  proof cases
    case 1
    then show ?thesis
      by (cases "full = []") (simp_all add: SplitStringUsing_def find_first_not_of_def find_first_of_def split_fields_none)
  next
    case 2
    then show ?thesis by (simp add: SplitStringUsing_def split_single_fields)
  next
    case 3
    let ?b = "find_first_not_of full delim 0"
    have ok: "case ?b of None \<Rightarrow> True | Some b \<Rightarrow> b < length full \<and> full ! b \<notin> set delim"
      using find_up_Some(2,3) [of "\<lambda>c. c \<notin> set delim" full 0] 3
      by (auto simp: find_first_not_of_list split: option.split)
    have "fields (\<lambda>c. c \<in> set delim) full =
      (case ?b of None \<Rightarrow> [] | Some b \<Rightarrow> fields (\<lambda>c. c \<in> set delim) (drop b full))"
    proof (cases ?b)
      case None
      then show ?thesis using find_up_None [of "\<lambda>c. c \<notin> set delim" full 0] 3
        by (simp add: find_first_not_of_list fields_none)
    next
      case (Some b')
      note b' = find_up_Some [of "\<lambda>c. c \<notin> set delim", OF Some [unfolded find_first_not_of_list [OF 3(1)]]]
      have "fields (\<lambda>c. c \<in> set delim) full = fields (\<lambda>c. c \<in> set delim) (full ! b' # drop (Suc b') full)"
        by (subst b'(4) [simplified]) (use b'(5) in \<open>simp add: fields_skip\<close>)
      with Some b'(2) show ?thesis by (simp add: Cons_nth_drop_Suc)
    qed
    with 3 split_general_fields [OF ok 3(1), of "[]"] show ?thesis by (simp add: SplitStringUsing_def)
  qed
qed

text \<open>Joining.\<close>

lemma join_append_False: "join_append False fs delim r = r @ concat (map ((@) delim) fs)"
  by (induction fs arbitrary: r) auto

lemma JoinStrings_simps [simp]:
  "JoinStrings [] delim = []"
  "JoinStrings (f # fs) delim = f @ (if fs = [] then [] else delim @ JoinStrings fs delim)"
  by (cases fs; simp add: JoinStrings_def join_append_False)+

lemma join_length_False: "join_length False fs k n = n + sum_list (map (\<lambda>f. k + length f) fs)"
  by (induction fs arbitrary: n) auto

lemma join_length_exact: "join_length True fs (length delim) 0 = length (JoinStrings fs delim)"
proof (cases fs)
  case (Cons f gs)
  have "join_length False gs (length delim) n = n + length (concat (map ((@) delim) gs))" for n
    by (simp add: join_length_False length_concat_map)
  with Cons show ?thesis by (simp add: JoinStrings_def join_append_False del: JoinStrings_simps)
qed simp

lemma join_split_fields: "JoinStrings (split_fields (\<lambda>x. x = c) s) [c] = s"
proof (induction s)
  case (Cons x s)
  obtain f fs where "split_fields (\<lambda>x. x = c) s = f # fs"
    by (cases "split_fields (\<lambda>x. x = c) s") auto
  with Cons show ?case by auto
qed simp

lemma split_allow_empty_join:
  "\<exists>gs. gs \<noteq> [] \<and> split_allow_empty full [c] n i b result = result @ gs \<and>
     JoinStrings gs [c] = drop b full \<and> (n \<noteq> 0 \<longrightarrow> int (length gs) \<le> max 1 (n - i))"
proof (induction full "[c]" n i b result rule: split_allow_empty.induct)
  case (1 full n i b result)
  have stop: ?case if "split_allow_empty full [c] n i b result = result @ [drop b full]"
    by (rule exI [of _ "[drop b full]"]) (simp add: that)
  show ?case
  proof (cases "i < n - 1 \<or> n = 0")
    case True
    show ?thesis
    proof (cases "find_first_of full [c] b")
      case None
      with True show ?thesis by (intro stop) (subst split_allow_empty.simps, simp)
    next
      case (Some e)
      note e = find_up_Some [OF Some [unfolded find_first_of_list]]
      from "1.hyps"(1) [OF True Some] obtain gs where gs: "gs \<noteq> []"
        "split_allow_empty full [c] n (i + 1) (e + 1) (result @ [take (e - b) (drop b full)]) =
          (result @ [take (e - b) (drop b full)]) @ gs"
        "JoinStrings gs [c] = drop (e + 1) full" "n \<noteq> 0 \<longrightarrow> int (length gs) \<le> max 1 (n - (i + 1))"
        by blast
      show ?thesis
      proof (intro exI conjI)
        show "split_allow_empty full [c] n i b result = result @ (take (e - b) (drop b full) # gs)"
          using True Some gs(2) by (subst split_allow_empty.simps) simp
        show "JoinStrings (take (e - b) (drop b full) # gs) [c] = drop b full"
          by (subst (2) e(4)) (use gs(1,3) e(3) in simp)
      qed (use gs(4) True in auto)
    qed
  next
    case False
    then show ?thesis by (intro stop) (subst split_allow_empty.simps, simp)
  qed
qed

section \<open>Stripping both ends\<close>

lemma leading_space_spec:
  "i \<le> length s \<Longrightarrow> leading_space s i \<le> length s \<and>
     drop (leading_space s i) s = dropWhile ascii_isspace (drop i s)"
proof (induction s i rule: leading_space.induct)
  case (1 s i)
  show ?case
  proof (cases "i < length s \<and> ascii_isspace (s ! i)")
    case True
    then have "drop i s = s ! i # drop (Suc i) s" by (simp add: Cons_nth_drop_Suc)
    with True 1 show ?thesis by (subst (1 2) leading_space.simps) simp
  next
    case False
    have "dropWhile ascii_isspace (drop i s) = drop i s"
    proof (cases "i < length s")
      case True
      with False have "\<not> ascii_isspace (hd (drop i s))" by (simp add: hd_drop_conv_nth)
      then show ?thesis by (simp add: dropWhile_eq_self_iff)
    qed simp
    with False 1(2) show ?thesis by (subst (1 2) leading_space.simps) auto
  qed
qed

lemma trailing_space_spec:
  "i < int (length s) \<Longrightarrow> - 1 \<le> i \<Longrightarrow> - 1 \<le> trailing_space s i \<and> trailing_space s i \<le> i \<and>
     take (nat (trailing_space s i + 1)) s = rev (dropWhile ascii_isspace (rev (take (nat (i + 1)) s)))"
proof (induction s i rule: trailing_space.induct)
  case (1 s i)
  show ?case
  proof (cases "0 \<le> i \<and> ascii_isspace (s ! nat i)")
    case True
    then have "take (nat (i + 1)) s = take (nat i) s @ [s ! nat i]"
      using "1.prems" by (simp add: nat_add_distrib take_Suc_conv_app_nth nat_less_iff)
    with True 1 show ?thesis by (subst (1 2 3) trailing_space.simps) simp
  next
    case False
    have "rev (dropWhile ascii_isspace (rev (take (nat (i + 1)) s))) = take (nat (i + 1)) s"
    proof (cases "0 \<le> i")
      case True
      then have "take (nat (i + 1)) s = take (nat i) s @ [s ! nat i]"
        using "1.prems" by (simp add: nat_add_distrib take_Suc_conv_app_nth nat_less_iff)
      with True False show ?thesis by simp
    qed (use "1.prems" in simp)
    with False 1 show ?thesis by (subst (1 2 3) trailing_space.simps) auto
  qed
qed

lemma StripWhitespace_spec:
  "StripWhitespace s = rev (dropWhile ascii_isspace (rev (dropWhile ascii_isspace s)))"
proof -
  define t where "t = dropWhile ascii_isspace s"
  from leading_space_spec [of 0 s]
  have first: "leading_space s 0 \<le> length s" "drop (leading_space s 0) s = t" by (simp_all add: t_def)
  show ?thesis
  proof (cases "t = []")
    case True
    with first show ?thesis by (simp add: StripWhitespace_def t_def [symmetric])
  next
    case False
    define e where "e = trailing_space t (int (length t) - 1)"
    have e: "- 1 \<le> e" "e \<le> int (length t) - 1" "take (nat (e + 1)) t = rev (dropWhile ascii_isspace (rev t))"
      using trailing_space_spec [of "int (length t) - 1" t] by (simp_all add: e_def)
    have "\<not> ascii_isspace (hd t)" using False hd_dropWhile [of ascii_isspace s] by (simp add: t_def)
    then have "dropWhile ascii_isspace (rev t) \<noteq> []" using False by (auto simp: dropWhile_eq_Nil_conv)
    with e(3) have "0 \<le> e" by (cases "e = - 1") (use e(1) in auto)
    have "StripWhitespace s = (if e \<noteq> int (length t) - 1 \<and> 0 \<le> e then take (nat (e + 1)) t else t)"
      using False first by (auto simp: StripWhitespace_def e_def Let_def)
    also have "\<dots> = take (nat (e + 1)) t" using \<open>0 \<le> e\<close> by auto
    finally show ?thesis using e(3) by (simp add: t_def)
  qed
qed

section \<open>The eight-byte test\<close>

text \<open>If some byte is below \<open>n\<close>, the lowest one leaves its mark: no borrow reaches it.\<close>

lemma low_byte_marked:
  "(\<And>b. b \<in> set bs \<Longrightarrow> 0 \<le> b \<and> b < 256) \<Longrightarrow> 0 \<le> n \<Longrightarrow> n \<le> 128 \<Longrightarrow> b \<in> set bs \<Longrightarrow> b < n \<Longrightarrow>
   \<exists>k<length bs. bit (le_val (map (\<lambda>b. b - n) bs)) (7 + 8 * k) \<and> \<not> bit (le_val bs) (7 + 8 * k)"
proof (induction bs)
  case (Cons a bs)
  let ?z = "le_val (map (\<lambda>b. b - n) bs)"
  have a: "0 \<le> a" "a < 256" using Cons.prems(1) by auto
  show ?case
  proof (cases "a < n")
    case True
    have eq: "a - n + 256 * ?z = (a - n + 256) + 256 * (?z - 1)" by simp
    have "bit ((a - n + 256) + 256 * (?z - 1)) 7"
      by (subst bit7_small) (use True a Cons.prems(2,3) in linarith)+
    then have "bit (a - n + 256 * ?z) 7" by (simp only: eq)
    moreover have "\<not> bit (a + 256 * le_val bs) 7" using True a Cons.prems by (simp add: bit7_small)
    ultimately show ?thesis by (intro exI [of _ 0]) simp
  next
    case False
    with Cons obtain k where k: "k < length bs" "bit ?z (7 + 8 * k)" "\<not> bit (le_val bs) (7 + 8 * k)"
      by force
    have "7 + 8 * Suc k = (7 + 8 * k) + 8" by simp
    then have "bit (a - n + 256 * ?z) (7 + 8 * Suc k)" "\<not> bit (a + 256 * le_val bs) (7 + 8 * Suc k)"
      using k False a Cons.prems(2) bit_next_byte [of "a - n" ?z "7 + 8 * k"] bit_next_byte [of a "le_val bs" "7 + 8 * k"]
      by (simp_all del: mult_Suc_right)
    with k(1) show ?thesis by (intro exI [of _ "Suc k"]) simp
  qed
qed simp

lemma le_val_diff: "length bs = k \<Longrightarrow> le_val (map (\<lambda>b. b - n) bs) = le_val bs - le_val (replicate k n)"
  by (induction bs arbitrary: k) auto

lemma has_less_zero:
  assumes "length bs = 8" "\<And>b. b \<in> set bs \<Longrightarrow> 0 \<le> b \<and> b < 256" "b \<in> set bs" "b < 14"
  shows "has_less (word_of_int (le_val bs)) 14 \<noteq> 0"
proof -
  let ?v = "word_of_int (le_val bs) :: uint64"
  from low_byte_marked [of bs 14 b] assms obtain k where
    k: "k < 8" "bit (le_val (map (\<lambda>b. b - 14) bs)) (7 + 8 * k)" "\<not> bit (le_val bs) (7 + 8 * k)"
    by auto
  have "(NOT 0 :: uint64) div 255 = 0x0101010101010101" by simp
  then have n14: "(NOT 0 :: uint64) div 255 * 14 = word_of_int (le_val (replicate 8 14))"
    by (simp add: numeral_eq_Suc)
  have "?v - (NOT 0 div 255) * 14 = word_of_int (le_val (map (\<lambda>b. b - 14) bs))"
    unfolding n14 by (simp add: le_val_diff [OF assms(1)])
  then have "bit (?v - (NOT 0 div 255) * 14) (7 + 8 * k)" "bit (NOT ?v) (7 + 8 * k)"
    using k by (simp_all add: bit_word_of_int_iff bit_not_iff)
  moreover have "bit ((NOT 0 :: uint64) div 255 * 128) (7 + 8 * k)"
  proof -
    have "k \<in> {0,1,2,3,4,5,6,7}" using k(1) by auto
    then show ?thesis by auto
  qed
  ultimately have "bit (has_less ?v 14) (7 + 8 * k)" by (simp add: has_less_def bit_and_iff)
  then show ?thesis by (metis bit_0_eq bot_apply bot_bool_def)
qed

lemma int_drop_byte: "int (unat (drop_bit (8 * k) w)) = uint w div 256 ^ k" for w :: uint64
proof -
  have "unat (drop_bit (8 * k) w) = unat w div 256 ^ k"
    by (simp only: unat_drop_bit_eq) (simp add: drop_bit_eq_div power_mult)
  then show ?thesis by (simp only: zdiv_int uint_nat) simp
qed

lemma load64_byte:
  assumes "i + 8 \<le> length p" "k < 8"
  shows "to_char (unat (drop_bit (8 * k) (load64 p i))) = p ! (i + k)"
proof -
  let ?bs = "map (\<lambda>c. int (uchar c)) (take 8 (drop i p))"
  have len: "length ?bs = 8" using assms by simp
  have ok: "0 \<le> b \<and> b < 256" if "b \<in> set ?bs" for b using that by auto
  have "0 \<le> le_val ?bs" "le_val ?bs < 256 ^ 8" using le_val_bound [of ?bs, OF ok] len by auto
  then have "uint (load64 p i) = le_val ?bs"
    by (simp add: load64_def uint_word_of_int_eq take_bit_int_eq_self)
  then have "int (unat (drop_bit (8 * k) (load64 p i))) mod 256 = le_val ?bs div 256 ^ k mod 256"
    by (simp only: int_drop_byte)
  also have "\<dots> = int (uchar (p ! (i + k)))" using le_val_byte [of ?bs k, OF ok] assms len by simp
  finally have "int (unat (drop_bit (8 * k) (load64 p i)) mod 256) = int (uchar (p ! (i + k)))"
    by (simp only: of_nat_mod of_nat_numeral)
  then have "unat (drop_bit (8 * k) (load64 p i)) mod 256 = uchar (p ! (i + k))"
    by (simp only: of_nat_eq_iff)
  then have "uchar (to_char (unat (drop_bit (8 * k) (load64 p i)))) = uchar (p ! (i + k))"
    by (simp only: of_char_of)
  then show ?thesis by (rule uchar_eq_iff [THEN iffD2])
qed

lemma store64_load64:
  "i + 8 \<le> length p \<Longrightarrow> store64 p j (load64 p i) = take j p @ take 8 (drop i p) @ drop (j + 8) p"
  by (simp add: store64_def load64_byte) (auto intro!: nth_equalityI simp: load64_byte)

section \<open>Unix line endings\<close>

fun unix_lines :: "string \<Rightarrow> string" where
  "unix_lines [] = []"
| "unix_lines (c # s) =
     (if c = CHR 0x0D then
        CHR 0x0A # (case s of d # t \<Rightarrow> if d = CHR 0x0A then unix_lines t else unix_lines s | [] \<Rightarrow> [])
      else c # unix_lines s)"

text \<open>With a carriage return still pending.\<close>

definition unix_from :: "bool \<Rightarrow> string \<Rightarrow> string" where
  "unix_from r_seen s = (if r_seen then unix_lines (CHR 0x0D # s) else unix_lines s)"

lemma unix_from_simps:
  "unix_from r [] = (if r then [CHR 0x0A] else [])"
  "unix_from r (CHR 0x0D # s) = (if r then [CHR 0x0A] else []) @ unix_from True s"
  "unix_from r (CHR 0x0A # s) = CHR 0x0A # unix_from False s"
  "c \<noteq> CHR 0x0D \<Longrightarrow> c \<noteq> CHR 0x0A \<Longrightarrow>
     unix_from r (c # s) = (if r then [CHR 0x0A] else []) @ c # unix_from False s"
  by (auto simp: unix_from_def)

lemma unix_from_plain:
  "(\<And>c. c \<in> set t \<Longrightarrow> c \<noteq> CHR 0x0D \<and> c \<noteq> CHR 0x0A) \<Longrightarrow>
   unix_from False (t @ s) = t @ unix_from False s"
  by (induction t) (auto simp: unix_from_simps)

lemma put_simps: "put c (p, out) = (p[out := c], Suc out)"
  by (simp add: put_def)

lemma take_Suc_update: "out < length p \<Longrightarrow> take (Suc out) (p[out := c]) = take out p @ [c]"
  by (simp add: take_Suc_conv_app_nth)

lemma clean_byte_correct:
  assumes "i < length p" "out + of_bool r \<le> i" "clean_byte p i out r = ((p', out'), r')"
  shows "length p' = length p \<and> out' + of_bool r' \<le> i + 1 \<and> drop (i + 1) p' = drop (i + 1) p \<and>
    take out' p' @ unix_from r' (drop (i + 1) p) = take out p @ unix_from r (drop i p)"
proof -
  have d: "drop i p = p ! i # drop (Suc i) p" using assms(1) by (simp add: Cons_nth_drop_Suc)
  consider "p ! i = CHR 0x0D" | "p ! i = CHR 0x0A" | "p ! i \<noteq> CHR 0x0D" "p ! i \<noteq> CHR 0x0A" by blast
  then show ?thesis
  proof cases
    case 1
    with assms show ?thesis unfolding d
      by (auto simp: clean_byte_def unix_from_simps put_simps take_Suc_update split: if_splits)
  next
    case 2
    with assms show ?thesis unfolding d
      by (auto simp: clean_byte_def unix_from_simps put_simps take_Suc_update take_Suc_conv_app_nth
          split: if_splits)
  next
    case 3
    with assms show ?thesis unfolding d
      by (auto simp: clean_byte_def unix_from_simps put_simps take_Suc_update take_Suc_conv_app_nth Let_def
          split: if_splits)
  qed
qed

lemma fast_bytes_plain:
  assumes "i + 8 \<le> length p" "has_less (load64 p i) 14 = 0" "c \<in> set (take 8 (drop i p))"
  shows "c \<noteq> CHR 0x0D \<and> c \<noteq> CHR 0x0A"
proof -
  let ?bs = "map (\<lambda>c. int (uchar c)) (take 8 (drop i p))"
  have ok: "0 \<le> b \<and> b < 256" if "b \<in> set ?bs" for b using that by auto
  have "has_less (load64 p i) 14 \<noteq> 0" if "int (uchar c) < 14"
    unfolding load64_def by (rule has_less_zero [OF _ ok _ that]) (use assms in auto)
  with assms(2) have "\<not> int (uchar c) < 14" by blast
  then show ?thesis by auto
qed

lemma clean_loop_correct:
  "length p = len \<Longrightarrow> i \<le> len \<Longrightarrow> out + of_bool r \<le> i \<Longrightarrow> clean_loop len p i out r = ((p', out'), r') \<Longrightarrow>
   length p' = len \<and> out' + of_bool r' \<le> len \<and>
   take out' p' @ (if r' then [CHR 0x0A] else []) = take out p @ unix_from r (drop i p)"
proof (induction len p i out r arbitrary: p' out' r' rule: clean_loop.induct)
  case (1 len p i out r)
  let ?fast = "\<not> r \<and> i + 8 < len \<and> has_less (load64 p i) 14 = 0"
  consider "i = len" | "i < len" ?fast | "i < len" "\<not> ?fast" using "1.prems"(2) by linarith
  then show ?case
  proof cases
    case 1
    with "1.prems" show ?thesis
      by (subst (asm) clean_loop.simps) (auto simp: unix_from_simps)
  next
    case 2
    define q where "q = (if out \<noteq> i then store64 p out (load64 p i) else p)"
    have q: "q = take out p @ take 8 (drop i p) @ drop (out + 8) p"
    proof (cases "out = i")
      case True
      then show ?thesis by (simp add: q_def) (metis add.commute append_take_drop_id drop_drop)
    next
      case False
      with 2 "1.prems" show ?thesis by (simp add: q_def store64_load64)
    qed
    have "out \<le> i" "out \<le> length p" using "1.prems" 2 by auto
    moreover have "min (len - i) 8 = 8" "8 \<le> len - i" using 2 by auto
    ultimately have q': "length q = len" "take (out + 8) q = take out p @ take 8 (drop i p)"
      "drop (i + 8) q = drop (i + 8) p"
      using q 2 "1.prems" by (simp_all add: drop_drop)
    have "clean_loop len p i out r = clean_loop len q (i + 8) (out + 8) r"
      using 2 by (subst clean_loop.simps) (simp add: q_def Let_def)
    with "1.prems"(4) have run: "clean_loop len q (i + 8) (out + 8) r = ((p', out'), r')" by simp
    have "unix_from False (take 8 (drop i p) @ drop (i + 8) p) = take 8 (drop i p) @ unix_from False (drop (i + 8) p)"
      by (rule unix_from_plain) (use fast_bytes_plain [of i p] 2 "1.prems" in simp)
    also have "take 8 (drop i p) @ drop (i + 8) p = drop i p"
      by (metis add.commute append_take_drop_id drop_drop)
    finally have "unix_from r (drop i p) = take 8 (drop i p) @ unix_from r (drop (i + 8) p)"
      using 2 by simp
    with "1.IH"(1) [OF 2(1) refl 2(2), folded q_def, OF q'(1) _ _ run] 2 "1.prems" q' show ?thesis by simp
  next
    case 3
    obtain q out'' r'' where b: "clean_byte p i out r = ((q, out''), r'')" by (metis surj_pair)
    with 3 "1.prems" clean_byte_correct [OF _ _ b]
    have q: "length q = len" "out'' + of_bool r'' \<le> i + 1" "drop (i + 1) q = drop (i + 1) p"
      "take out'' q @ unix_from r'' (drop (i + 1) p) = take out p @ unix_from r (drop i p)" by simp_all
    have "clean_loop len p i out r = clean_loop len q (i + 1) out'' r''"
      using 3(1) b by (subst clean_loop.simps) (simp only: 3(2) Let_def if_False if_True case_prod_conv)
    with "1.prems"(4) have run: "clean_loop len q (i + 1) out'' r'' = ((p', out'), r')" by simp
    from "1.IH"(2) [OF 3(1) refl 3(2) b [symmetric] refl q(1) _ q(2) run] 3 q show ?thesis by simp
  qed
qed

lemma CleanStringLineEndings_spec:
  "CleanStringLineEndings s auto_end =
     (let t = unix_lines s in
      if auto_end \<and> t \<noteq> [] \<and> last t \<noteq> CHR 0x0A then t @ [CHR 0x0A] else t)"
proof -
  obtain p out r where run: "clean_loop (length s) s 0 0 False = ((p, out), r)" by (metis surj_pair)
  from clean_loop_correct [OF refl _ _ run]
  have c: "length p = length s" "out + of_bool r \<le> length s"
    "take out p @ (if r then [CHR 0x0A] else []) = unix_lines s"
    by (simp_all add: unix_from_def)
  show ?thesis
  proof (cases r)
    case True
    with c(3) have t: "unix_lines s = take out p @ [CHR 0x0A]" by simp
    show ?thesis using True by (simp add: CleanStringLineEndings_def run t)
  next
    case False
    with c(3) have t: "unix_lines s = take out p" by simp
    have "last (take out p) = p ! (out - 1)" if "0 < out"
      using that c(1,2) False by (subst last_conv_nth) auto
    with False c(1,2) show ?thesis
      by (auto simp: CleanStringLineEndings_def run t Let_def)
  qed
qed

section \<open>Properties\<close>

text \<open>Replacing: \<open>ReplaceCharacters\<close> replaces each listed byte up to the first NUL and nothing
  else; \<open>StringReplace\<close> is the left-to-right, non-overlapping replacement of the first or of all
  occurrences; \<open>GlobalReplaceSubstring\<close> produces the same text as replacing all of them, and its
  count accounts exactly for the change in length.\<close>

theorem replace_correct:
  "ReplaceCharacters s remove c =
     map (\<lambda>x. if x \<in> set remove then c else x) (takeWhile (\<lambda>x. x \<noteq> CHR 0x00) s) @
     dropWhile (\<lambda>x. x \<noteq> CHR 0x00) s \<and>
   StringReplace s oldsub newsub replace_all = replace_spec oldsub newsub replace_all s \<and>
   snd (GlobalReplaceSubstring oldsub newsub s) = StringReplace s oldsub newsub True \<and>
   int (length (StringReplace s oldsub newsub True)) - int (length s) =
     int (fst (GlobalReplaceSubstring oldsub newsub s)) * (int (length newsub) - int (length oldsub))"
proof -
  have all: "snd (GlobalReplaceSubstring oldsub newsub s) = replace_spec oldsub newsub True s \<and>
    int (length (replace_spec oldsub newsub True s)) - int (length s) =
      int (fst (GlobalReplaceSubstring oldsub newsub s)) * (int (length newsub) - int (length oldsub))"
  proof (cases "s = [] \<or> oldsub = []")
    case True
    then have "replace_spec oldsub newsub True s = s" by (subst replace_spec.simps) auto
    with True show ?thesis by (simp add: GlobalReplaceSubstring_def)
  next
    case False
    obtain m pos tmp where run: "GlobalReplace_loop oldsub newsub s 0 0 [] = (m, pos, tmp)"
      by (cases "GlobalReplace_loop oldsub newsub s 0 0 []") blast
    let ?t = "replace_spec oldsub newsub True s"
    from False have "oldsub \<noteq> []" by simp
    note g = GlobalReplace_loop_spec [OF le0 this run, unfolded drop_0 append_Nil]
    from g have new_text: "tmp @ drop pos s = ?t" by blast
    from g have none: "?t = s" if "m = 0" using that by blast
    have "length ?t = length tmp + (length s - pos)" unfolding new_text [symmetric] by simp
    with g have count: "int (length ?t) - int (length s) = int m * (int (length newsub) - int (length oldsub))"
      by simp
    have "GlobalReplaceSubstring oldsub newsub s = (m, if m > 0 then tmp @ drop pos s else s)"
      using False by (simp only: GlobalReplaceSubstring_def if_False run case_prod_conv)
    then have "GlobalReplaceSubstring oldsub newsub s = (m, ?t)"
      using none by (simp add: new_text)
    with count show ?thesis by simp
  qed
  have "ReplaceCharacters s remove c = replace_before_NUL remove c s"
    by (simp add: ReplaceCharacters_def ReplaceCharacters_from_spec)
  with all show ?thesis by (simp add: replace_before_NUL_map StringReplace_spec)
qed

text \<open>Splitting and joining: joining the pieces of a one-character split restores the text,
  however many pieces are asked for, and no more than that many are produced; the two paths of
  \<open>SplitStringUsing\<close> produce exactly the non-empty fields; \<open>JoinStrings\<close> reserves exactly the
  length it then fills.\<close>

theorem split_join:
  "JoinStrings (SplitStringToIteratorAllowEmpty full [c] pieces) [c] = full \<and>
   (pieces = 0 \<or> int (length (SplitStringToIteratorAllowEmpty full [c] pieces)) \<le> max 1 pieces) \<and>
   SplitStringUsing full delim = filter (\<lambda>f. f \<noteq> []) (SplitStringAllowEmpty full delim) \<and>
   join_length True components (length delim) 0 = length (JoinStrings components delim)"
  using split_allow_empty_join [of full c pieces 0 0 "[]"]
  by (auto simp: SplitStringToIteratorAllowEmpty_def SplitStringUsing_fields
      SplitStringAllowEmpty_fields join_length_exact)

text \<open>\<open>StripWhitespace\<close> removes exactly the leading and the trailing whitespace.\<close>

theorem StripWhitespace_correct:
  "StripWhitespace str = rev (dropWhile ascii_isspace (rev (dropWhile ascii_isspace str)))"
  by (rule StripWhitespace_spec)

text \<open>\<open>CleanStringLineEndings\<close>, with its eight-byte steps and its rewriting in place, turns every
  CR LF and every lone CR into LF and changes nothing else, except for the LF it adds on request
  to a last line without one.\<close>

theorem CleanStringLineEndings_correct:
  "CleanStringLineEndings str auto_end_last_line =
     (let t = unix_lines str in
      if auto_end_last_line \<and> t \<noteq> [] \<and> last t \<noteq> CHR 0x0A then t @ [CHR 0x0A] else t)"
  by (rule CleanStringLineEndings_spec)

text \<open>\<open>DelocalizeRadix\<close> turns a radix of one or several bytes into a single dot and keeps the
  digits on both sides.\<close>

theorem DelocalizeRadix_correct:
  "list_all IsValidFloatChar before \<Longrightarrow> list_all IsValidFloatChar after \<Longrightarrow> radix \<noteq> [] \<Longrightarrow>
   list_all (\<lambda>c. \<not> IsValidFloatChar c \<and> c \<noteq> CHR ''.'') radix \<Longrightarrow>
   DelocalizeRadix (before @ radix @ after) = before @ [CHR ''.''] @ after"
proof -
  assume b: "list_all IsValidFloatChar before" and a: "list_all IsValidFloatChar after" and "radix \<noteq> []"
    and r: "list_all (\<lambda>c. \<not> IsValidFloatChar c \<and> c \<noteq> CHR ''.'') radix"
  then obtain x xs where x: "radix = x # xs" by (cases radix) auto
  have "\<not> IsValidFloatChar (CHR ''.'')" by (simp add: IsValidFloatChar_def)
  then have "CHR ''.'' \<notin> set (before @ radix @ after)" using a b r by (auto simp: list_all_iff)
  moreover have "takeWhile IsValidFloatChar (before @ radix @ after) = before"
    "dropWhile IsValidFloatChar (before @ radix @ after) = x # xs @ after"
    using b r by (simp_all add: list_all_iff x)
  moreover have "dropWhile (\<lambda>c. \<not> IsValidFloatChar c) after = after"
    using a by (cases after) simp_all
  then have "dropWhile (\<lambda>c. \<not> IsValidFloatChar c) (xs @ after) = after"
    using r by (simp add: x list_all_iff)
  ultimately show ?thesis by (simp add: DelocalizeRadix_def)
qed

theorem DelocalizeRadix_correct_witness: "DelocalizeRadix ''1,5e7'' = ''1.5e7''"
  using DelocalizeRadix_correct [of "''1''" "''5e7''" "'',''"] by (simp add: IsValidFloatChar_def)

end
