(* ===== verification/Coded_Input_Sessions.thy ===== *)
theory Coded_Input_Sessions
  imports Coded_Input_Client
begin

text \<open>
  Sessions of a \<open>CodedInputStream\<close> over a stream that may have been read from before, so that its \<open>ByteCount\<close> is
  not 0 at the start. The position of the coded stream counts from its own start; only a skip that runs past
  the end of the input takes it from the \<open>ByteCount\<close> of the stream. Short of that, a session over such a stream is a
  session over the same stream with its count set back, which keeps the contract.
\<close>

section \<open>Setting the count back\<close>

definition count_from :: "int \<Rightarrow> 's ZeroCopyInputStream \<Rightarrow> 's ZeroCopyInputStream" where
  "count_from b ops = ops\<lparr>ByteCount := \<lambda>s. ByteCount ops s - b\<rparr>"

lemma count_from_simps [simp]:
  "Next (count_from b ops) = Next ops" "BackUp (count_from b ops) = BackUp ops" "Skip (count_from b ops) = Skip ops"
  "ByteCount (count_from b ops) s = ByteCount ops s - b"
  by (simp_all add: count_from_def)

text \<open>What is read and what is left always add up to the same.\<close>

definition counted :: "'s ZeroCopyInputStream \<Rightarrow> ('s \<Rightarrow> bool) \<Rightarrow> ('s \<Rightarrow> byte list) \<Rightarrow> int \<Rightarrow> 's \<Rightarrow> bool" where
  "counted ops ok rest k s \<longleftrightarrow> ok s \<and> ByteCount ops s + int (length (rest s)) = k"

context zero_copy_input
begin

lemma count_from_contract: "zero_copy_input (count_from b ops) (counted ops ok rest k) rest given idle"
proof
  fix s
  assume "counted ops ok rest k s"
  then show "Next (count_from b ops) s \<noteq> None" using next_end by (simp add: counted_def)
next
  fix s s'
  assume "counted ops ok rest k s" "Next (count_from b ops) s = Some (None, s')"
  then show "counted ops ok rest k s' \<and> rest s = [] \<and> rest s' = [] \<and>
      ByteCount (count_from b ops) s' = ByteCount (count_from b ops) s"
    using next_none [of s s'] by (simp add: counted_def)
next
  fix s d s'
  assume "counted ops ok rest k s" "Next (count_from b ops) s = Some (Some d, s')"
  then show "counted ops ok rest k s' \<and> rest s = d @ rest s' \<and> (\<exists>g. given s' = g @ d) \<and> int (length d) \<le> INT_MAX \<and>
      ByteCount (count_from b ops) s' = ByteCount (count_from b ops) s + int (length d) \<and> (d = [] \<longrightarrow> idle s' < idle s)"
    using next_some [of s d s'] by (auto simp: counted_def)
next
  fix s u v
  assume "counted ops ok rest k s" "given s = u @ v" "given s \<noteq> []"
  with back_up [of s u v] show "\<exists>s'. BackUp (count_from b ops) (int (length v)) s = Some s' \<and> counted ops ok rest k s' \<and>
      rest s' = v @ rest s \<and> ByteCount (count_from b ops) s' = ByteCount (count_from b ops) s - int (length v)"
    by (auto simp: counted_def)
next
  fix s and n :: int
  assume "counted ops ok rest k s" "0 \<le> n"
  then obtain r s' where "Skip ops n s = Some (r, s')" "ok s'" "rest s' = drop (nat n) (rest s)"
    "(r \<longleftrightarrow> n \<le> int (length (rest s))) \<or> n = 0 \<and> rest s = []"
    "ByteCount ops s' = ByteCount ops s + min n (int (length (rest s)))" "ByteCount ops s + int (length (rest s)) = k"
    using skip [of s n] by (auto simp: counted_def)
  with \<open>0 \<le> n\<close> show "\<exists>r s'. Skip (count_from b ops) n s = Some (r, s') \<and> counted ops ok rest k s' \<and>
      rest s' = drop (nat n) (rest s) \<and> ((r \<longleftrightarrow> n \<le> int (length (rest s))) \<or> n = 0 \<and> rest s = []) \<and>
      ByteCount (count_from b ops) s' = ByteCount (count_from b ops) s + min n (int (length (rest s)))"
    by (auto simp: counted_def)
qed

end

section \<open>Operations that do not look at the count\<close>

text \<open>The readers call nothing but \<open>Next\<close>.\<close>

lemma same_result: "(\<And>y. f = Some y \<Longrightarrow> g = Some y) \<Longrightarrow> (\<And>y. g = Some y \<Longrightarrow> f = Some y) \<Longrightarrow> f = g"
  by (cases f; cases g) auto

lemma NextNonEmpty_next:
  fixes ops ops' :: "'s ZeroCopyInputStream"
  assumes "NextNonEmpty ops s = Some y" "Next ops' = Next ops"
  shows "NextNonEmpty ops' s = Some y"
proof -
  have "\<forall>(ops' :: 's ZeroCopyInputStream). Next ops' = Next ops \<longrightarrow> NextNonEmpty ops' s = Some y"
  proof (rule NextNonEmpty.raw_induct [where P = "\<lambda>(ops :: 's ZeroCopyInputStream) s y. \<forall>(ops' :: 's ZeroCopyInputStream). Next ops' = Next ops \<longrightarrow> NextNonEmpty ops' s = Some y", OF _ assms(1)], intro allI impI)
    fix again and ops ops' :: "'s ZeroCopyInputStream" and s y
    assume again: "\<And>(ops :: 's ZeroCopyInputStream) s y. again ops s = Some y \<Longrightarrow> \<forall>(ops' :: 's ZeroCopyInputStream). Next ops' = Next ops \<longrightarrow> NextNonEmpty ops' s = Some y"
      and next': "Next ops' = Next ops"
    have IH: "again ops s = Some y \<Longrightarrow> NextNonEmpty ops' s = Some y" for s y
      using again next' by blast
    assume "do { (r, s) \<leftarrow> Next ops s; case r of None \<Rightarrow> Some (None, s)
        | Some data \<Rightarrow> if data = [] then again ops s else Some (Some data, s) } = Some y"
    then show "NextNonEmpty ops' s = Some y"
      using next'
      by (subst NextNonEmpty.simps) (auto split: option.splits bind_splits if_splits intro: IH)
  qed
  with assms(2) show ?thesis by blast
qed

lemma Refresh_next: "Next ops' = Next ops \<Longrightarrow> Refresh ops' = Refresh ops"
proof
  fix c
  assume n: "Next ops' = Next ops"
  have "NextNonEmpty ops' s = NextNonEmpty ops s" for s
    by (rule same_result) (erule NextNonEmpty_next, simp add: n)+
  then show "Refresh ops' c = Refresh ops c" by (simp add: Refresh_def)
qed

lemma copy_loop_next:
  fixes ops ops' :: "'s ZeroCopyInputStream"
  assumes "copy_loop ops out n c = Some y" "Next ops' = Next ops"
  shows "copy_loop ops' out n c = Some y"
proof -
  have "\<forall>(ops' :: 's ZeroCopyInputStream). Next ops' = Next ops \<longrightarrow> copy_loop ops' out n c = Some y"
  proof (rule copy_loop.raw_induct [where P = "\<lambda>(ops :: 's ZeroCopyInputStream) out n c y. \<forall>(ops' :: 's ZeroCopyInputStream). Next ops' = Next ops \<longrightarrow> copy_loop ops' out n c = Some y", OF _ assms(1)], intro allI impI)
    fix again and ops ops' :: "'s ZeroCopyInputStream" and out and n and c y
    assume again: "\<And>(ops :: 's ZeroCopyInputStream) out n c y. again ops out n c = Some y \<Longrightarrow> \<forall>(ops' :: 's ZeroCopyInputStream). Next ops' = Next ops \<longrightarrow> copy_loop ops' out n c = Some y"
      and next': "Next ops' = Next ops"
    note [simp] = Refresh_next [OF next']
    have IH: "again ops out n c = Some y \<Longrightarrow> copy_loop ops' out n c = Some y" for out n c y
      using again next' by blast
    assume "(let current_buffer_size = buffer_size c in
        if current_buffer_size < n then
          let out = out @ window c in
          do { (b, c) \<leftarrow> Refresh ops (Advance current_buffer_size c);
            if \<not> b then Some (False, out, c) else again ops out (n - current_buffer_size) c }
        else Some (True, out @ take (nat n) (buffer c), Advance n c)) = Some y"
    then show "copy_loop ops' out n c = Some y"
      using next'
      by (subst copy_loop.simps) (auto simp: Let_def split: option.splits bind_splits if_splits intro: IH)
  qed
  with assms(2) show ?thesis by blast
qed

lemma refill_next:
  fixes ops ops' :: "'s ZeroCopyInputStream"
  assumes "refill ops c = Some y" "Next ops' = Next ops"
  shows "refill ops' c = Some y"
proof -
  have "\<forall>(ops' :: 's ZeroCopyInputStream). Next ops' = Next ops \<longrightarrow> refill ops' c = Some y"
  proof (rule refill.raw_induct [where P = "\<lambda>(ops :: 's ZeroCopyInputStream) c y. \<forall>(ops' :: 's ZeroCopyInputStream). Next ops' = Next ops \<longrightarrow> refill ops' c = Some y", OF _ assms(1)], intro allI impI)
    fix again and ops ops' :: "'s ZeroCopyInputStream" and c y
    assume again: "\<And>(ops :: 's ZeroCopyInputStream) c y. again ops c = Some y \<Longrightarrow> \<forall>(ops' :: 's ZeroCopyInputStream). Next ops' = Next ops \<longrightarrow> refill ops' c = Some y"
      and next': "Next ops' = Next ops"
    note [simp] = Refresh_next [OF next']
    have IH: "again ops c = Some y \<Longrightarrow> refill ops' c = Some y" for c y
      using again next' by blast
    assume "(if buffer_size c = 0 then do { (b, c) \<leftarrow> Refresh ops c; if \<not> b then Some (False, c) else again ops c }
        else Some (True, c)) = Some y"
    then show "refill ops' c = Some y"
      using next'
      by (subst refill.simps) (auto split: option.splits bind_splits if_splits intro: IH)
  qed
  with assms(2) show ?thesis by blast
qed

lemma slow_loop_next:
  fixes ops ops' :: "'s ZeroCopyInputStream"
  assumes "slow_loop ops r n c = Some y" "Next ops' = Next ops"
  shows "slow_loop ops' r n c = Some y"
proof -
  have "\<forall>(ops' :: 's ZeroCopyInputStream). Next ops' = Next ops \<longrightarrow> slow_loop ops' r n c = Some y"
  proof (rule slow_loop.raw_induct [where P = "\<lambda>(ops :: 's ZeroCopyInputStream) r n c y. \<forall>(ops' :: 's ZeroCopyInputStream). Next ops' = Next ops \<longrightarrow> slow_loop ops' r n c = Some y", OF _ assms(1)], intro allI impI)
    fix again and ops ops' :: "'s ZeroCopyInputStream" and r and n and c y
    assume again: "\<And>(ops :: 's ZeroCopyInputStream) r n c y. again ops r n c = Some y \<Longrightarrow> \<forall>(ops' :: 's ZeroCopyInputStream). Next ops' = Next ops \<longrightarrow> slow_loop ops' r n c = Some y"
      and next': "Next ops' = Next ops"
    have [simp]: "refill ops' c = refill ops c" for c
      by (rule same_result) (erule refill_next, simp add: next')+
    have IH: "again ops r n c = Some y \<Longrightarrow> slow_loop ops' r n c = Some y" for r n c y
      using again next' by blast
    assume "(if n = kMaxVarintBytes then Some (None, c)
        else do { (b, c) \<leftarrow> refill ops c;
          if \<not> b then Some (None, c)
          else let byte = buffer c ! 0; r = r OR push_bit (7 * n) (ucast (byte AND 0x7F)); c = Advance 1 c in
            if byte AND 0x80 \<noteq> 0 then again ops r (n + 1) c else Some (Some r, c) }) = Some y"
    then show "slow_loop ops' r n c = Some y"
      using next'
      by (subst slow_loop.simps) (auto simp: Let_def split: option.splits bind_splits if_splits intro: IH)
  qed
  with assms(2) show ?thesis by blast
qed

lemma loops_count [simp]:
  "Refresh (count_from b ops) c = Refresh ops c"
  "copy_loop (count_from b ops) out n c = copy_loop ops out n c"
  "slow_loop (count_from b ops) r k c = slow_loop ops r k c"
proof -
  have n: "Next (count_from b ops) = Next ops" by simp
  show "Refresh (count_from b ops) c = Refresh ops c" by (simp add: Refresh_next [OF n])
  show "copy_loop (count_from b ops) out n c = copy_loop ops out n c"
    by (rule same_result) (erule copy_loop_next, simp)+
  show "slow_loop (count_from b ops) r k c = slow_loop ops r k c"
    by (rule same_result) (erule slow_loop_next, simp)+
qed

lemma readers_count [simp]:
  "ReadVarint64Fallback (count_from b ops) c = ReadVarint64Fallback ops c"
  "ReadVarint64 (count_from b ops) c = ReadVarint64 ops c"
  "ReadVarint32 (count_from b ops) c = ReadVarint32 ops c"
  "ReadVarintSizeAsInt (count_from b ops) c = ReadVarintSizeAsInt ops c"
  "ReadLengthAndPushLimit (count_from b ops) c = ReadLengthAndPushLimit ops c"
  "ReadRaw (count_from b ops) n c = ReadRaw ops n c"
  "ReadString (count_from b ops) out n c = ReadString ops out n c"
  "ReadLittleEndian32 (count_from b ops) c = ReadLittleEndian32 ops c"
  "ReadLittleEndian64 (count_from b ops) c = ReadLittleEndian64 ops c"
  "GetDirectBufferPointer (count_from b ops) c = GetDirectBufferPointer ops c"
proof -
  show f: "ReadVarint64Fallback (count_from b ops) c = ReadVarint64Fallback ops c" for c
    by (simp add: ReadVarint64Fallback_def ReadVarint64Slow_def)
  show "ReadVarint64 (count_from b ops) c = ReadVarint64 ops c" by (simp add: ReadVarint64_def f)
  show v: "ReadVarint32 (count_from b ops) c = ReadVarint32 ops c" for c
    by (simp add: ReadVarint32_def ReadVarint32Fallback_def ReadVarint32Slow_def f)
  show "ReadVarintSizeAsInt (count_from b ops) c = ReadVarintSizeAsInt ops c"
    by (simp add: ReadVarintSizeAsInt_def ReadVarintSizeAsIntFallback_def ReadVarintSizeAsIntSlow_def f)
  show "ReadLengthAndPushLimit (count_from b ops) c = ReadLengthAndPushLimit ops c" by (simp add: ReadLengthAndPushLimit_def v)
  show r: "ReadRaw (count_from b ops) n c = ReadRaw ops n c" for n c by (simp add: ReadRaw_def)
  show "ReadString (count_from b ops) out n c = ReadString ops out n c" by (simp add: ReadString_def ReadStringFallback_def)
  show "ReadLittleEndian32 (count_from b ops) c = ReadLittleEndian32 ops c"
    by (simp add: ReadLittleEndian32_def ReadLittleEndian32Fallback_def r)
  show "ReadLittleEndian64 (count_from b ops) c = ReadLittleEndian64 ops c"
    by (simp add: ReadLittleEndian64_def ReadLittleEndian64Fallback_def r)
  show "GetDirectBufferPointer (count_from b ops) c = GetDirectBufferPointer ops c" by (simp add: GetDirectBufferPointer_def)
qed

lemma tags_count [simp]:
  "ReadTag (count_from b ops) c = ReadTag ops c"
  "ReadTagWithCutoff (count_from b ops) k c = ReadTagWithCutoff ops k c"
proof -
  have "ReadTagSlow (count_from b ops) c = ReadTagSlow ops c" for c
    by (auto simp: ReadTagSlow_def Let_def cong: if_cong)
  then have f: "ReadTagFallback (count_from b ops) t c = ReadTagFallback ops t c" for t c by (simp only: ReadTagFallback_def)
  show "ReadTag (count_from b ops) c = ReadTag ops c" by (simp add: ReadTag_def ReadTagNoLastTag_def f)
  show "ReadTagWithCutoff (count_from b ops) k c = ReadTagWithCutoff ops k c"
    by (simp add: ReadTagWithCutoff_def ReadTagWithCutoffNoLastTag_def f)
qed

lemma construct_count [simp]: "CodedInputStream (count_from b ops) = CodedInputStream ops"
  by (simp add: CodedInputStream_def fun_eq_iff)

lemma destroy_count [simp]: "CodedInputStream_destroy (count_from b ops) = CodedInputStream_destroy ops"
  by (simp add: CodedInputStream_destroy_def BackUpInputToCurrentPosition_def fun_eq_iff Let_def)

lemma perform_count:
  assumes "\<And>n. op \<noteq> Skip_bytes n"
  shows "perform (count_from b ops) op x = perform ops op x"
proof -
  obtain ls c where x: "x = (ls, c)" by (cases x)
  from assms show ?thesis unfolding x by (cases op) auto
qed

section \<open>Skips that run past the end\<close>

text \<open>A skip for more bytes than there are, which no limit stops before.\<close>

fun runs_out :: "('s \<Rightarrow> byte list) \<Rightarrow> ('s \<Rightarrow> byte list) \<Rightarrow> client_op \<Rightarrow> 's client \<Rightarrow> bool" where
  "runs_out rest given (Skip_bytes n) (ls, c) =
     (int (length (unread rest given c)) < n \<and> n \<le> closest_limit c - CurrentPosition c)"
| "runs_out rest given _ _ = False"

text \<open>Sessions over a stream whose count was \<open>b\<close> at the start: unless it was 0, no skip runs past the end.\<close>

inductive session ::
    "'s ZeroCopyInputStream \<Rightarrow> ('s \<Rightarrow> byte list) \<Rightarrow> ('s \<Rightarrow> byte list) \<Rightarrow> int \<Rightarrow> 's client \<Rightarrow> 's client \<Rightarrow> bool"
  for ops rest given b x where
  begin_session: "session ops rest given b x x"
| next_call: "session ops rest given b x y \<Longrightarrow> admissible op y \<Longrightarrow> b = 0 \<or> \<not> runs_out rest given op y \<Longrightarrow>
    perform ops op y = Some z \<Longrightarrow> session ops rest given b x z"

text \<open>From a stream that is at its start, every sequence of calls is a session.\<close>

lemma reachable_session: "reachable ops x y \<Longrightarrow> session ops rest given 0 x y"
proof (induction rule: reachable.induct)
  case (continue y z)
  from continue(2) show ?case by (rule client_stepE) (rule next_call [OF continue(3)], auto)
qed (rule begin_session)

lemma count_from_0: "count_from 0 ops = ops"
  by (simp add: count_from_def)

lemma skip_count_True:
  "CodedInputStream_Skip (count_from b ops) n c = Some (True, c') \<Longrightarrow> CodedInputStream_Skip ops n c = Some (True, c')"
  by (auto simp: CodedInputStream_Skip_def SkipFallback_def Let_def split: if_splits bind_splits)

lemma skip_count_limit:
  "closest_limit c - CurrentPosition c < n \<Longrightarrow> 0 \<le> buffer_size_after_limit c \<Longrightarrow>
    CodedInputStream_Skip (count_from b ops) n c = CodedInputStream_Skip ops n c"
  by (auto simp: CodedInputStream_Skip_def SkipFallback_def Let_def CurrentPosition_def)

lemma skip_count_returns:
  "CodedInputStream_Skip (count_from b ops) n c \<noteq> None \<Longrightarrow> CodedInputStream_Skip ops n c \<noteq> None"
  by (auto simp: CodedInputStream_Skip_def SkipFallback_def Let_def split: bind_splits if_splits)

lemma perform_count_returns: "perform (count_from b ops) op x \<noteq> None \<Longrightarrow> perform ops op x \<noteq> None"
proof (cases "\<exists>n. op = Skip_bytes n")
  case True
  then obtain n where op: "op = Skip_bytes n" by blast
  obtain ls c where x: "x = (ls, c)" by (cases x)
  assume "perform (count_from b ops) op x \<noteq> None"
  then have "CodedInputStream_Skip (count_from b ops) n c \<noteq> None" unfolding op x by (auto split: bind_splits)
  from skip_count_returns [OF this] show ?thesis unfolding op x by auto
qed (simp add: perform_count)

context zero_copy_input
begin

abbreviation "counted_ok b k \<equiv> client_ok (count_from b ops) (counted ops ok rest k) rest given"

lemma perform_session:
  assumes "counted_ok b k x" "b = 0 \<or> \<not> runs_out rest given op x"
  shows "perform (count_from b ops) op x = perform ops op x"
proof (cases "b = 0 \<or> (\<forall>n. op \<noteq> Skip_bytes n)")
  case True
  then show ?thesis using perform_count [of op b ops x] by (auto simp: count_from_0)
next
  case False
  then obtain n where op: "op = Skip_bytes n" by blast
  obtain ls c where x: "x = (ls, c)" by (cases x)
  have c: "coded_ok (count_from b ops) (counted ops ok rest k) rest given c" using assms(1) by (simp add: x client_ok_def)
  then have f: "fields_ok c" by (simp add: coded_ok_def)
  have "CodedInputStream_Skip (count_from b ops) n c = CodedInputStream_Skip ops n c"
  proof (cases "0 \<le> n \<and> n \<le> closest_limit c - CurrentPosition c")
    case False
    then consider "n < 0" | "closest_limit c - CurrentPosition c < n" by linarith
    then show ?thesis
      by cases (simp add: CodedInputStream_Skip_def, rule skip_count_limit [OF _ after_nonneg [OF f]])
  next
    case inside: True
    then have "n \<le> int (length (unread rest given c))" using assms(2) False by (simp add: x op)
    then have "n \<le> int (length (view rest given c))" using inside by (simp add: view_def of_nat_min)
    with zero_copy_input.Skip_spec [OF count_from_contract c, of n] inside obtain c'
      where "CodedInputStream_Skip (count_from b ops) n c = Some (True, c')" by auto
    with skip_count_True show ?thesis by metis
  qed
  then show ?thesis by (simp add: x op)
qed

lemma session_reachable: "session ops rest given b x y \<Longrightarrow> counted_ok b k x \<Longrightarrow> reachable (count_from b ops) x y"
proof (induction rule: session.induct)
  case (next_call y op z)
  have y: "reachable (count_from b ops) x y" by (rule next_call.IH [OF next_call.prems])
  have "counted_ok b k y" by (rule zero_copy_input.reachable_ok [OF count_from_contract y next_call.prems])
  with next_call.hyps(4) have "perform (count_from b ops) op y = Some z" using perform_session [OF _ next_call.hyps(3)] by simp
  with next_call.hyps(2) have "client_step (count_from b ops) y z" by (rule client_step.step)
  with y show ?case by (rule reachable.continue)
qed (rule reachable.start)

text \<open>Where a session starts, and where it can get to.\<close>

lemma session_start:
  assumes "ok s"
  shows "\<exists>c. CodedInputStream ops s = Some c \<and> counted_ok (ByteCount ops s) (ByteCount ops s + int (length (rest s))) ([], c) \<and>
    unread rest given c = rest s \<and> CurrentPosition c = 0 \<and> coded_input c \<noteq> None"
proof -
  have "counted ops ok rest (ByteCount ops s + int (length (rest s))) s" using assms by (simp add: counted_def)
  from zero_copy_input.CodedInputStream_spec [OF count_from_contract this, of "ByteCount ops s"] show ?thesis
    by (auto simp: client_ok_def stack_ok_def)
qed

lemma session_after:
  assumes "ok s" "CodedInputStream ops s = Some c" "session ops rest given (ByteCount ops s) ([], c) x"
  shows "counted_ok (ByteCount ops s) (ByteCount ops s + int (length (rest s))) x"
    "coded_input (snd x) \<noteq> None"
    "\<exists>k. unread rest given (snd x) = drop k (rest s) \<and> (unread rest given (snd x) = [] \<or> CurrentPosition (snd x) = int k)"
proof -
  let ?b = "ByteCount ops s" and ?k = "ByteCount ops s + int (length (rest s))"
  have c: "counted_ok ?b ?k ([], c)" "unread rest given c = rest s" "CurrentPosition c = 0" "coded_input c \<noteq> None"
    using session_start [OF assms(1)] assms(2) by auto
  note z = count_from_contract [where b = ?b and k = ?k]
  have "zero_copy_input.cl_after (count_from ?b ops) (counted ops ok rest ?k) rest given ([], c) x"
    by (rule zero_copy_input.reachable_after [OF z session_reachable [OF assms(3) c(1)] c(1)])
  note a = this [unfolded zero_copy_input.cl_after_def [OF z]]
  show "counted_ok ?b ?k x" "coded_input (snd x) \<noteq> None"
    "\<exists>k. unread rest given (snd x) = drop k (rest s) \<and> (unread rest given (snd x) = [] \<or> CurrentPosition (snd x) = int k)"
    using a c by auto
qed

end

section \<open>Properties\<close>

text \<open>An array of which two bytes have been read, for the witnesses.\<close>

definition used_sample :: ArrayInputStream where
  "used_sample = \<lparr>array_data = [9, 9, 1, 2, 3], array_size = 5, block_size = 5, position = 2, last_returned_size = 0\<rparr>"

lemma used_sample:
  "array_ok used_sample"
  "array_rest used_sample = [1, 2, 3]"
  "ByteCount array_stream used_sample = 2"
  subgoal by (simp add: used_sample_def array_ok_def ArrayInputStream_def)
  subgoal by (simp add: used_sample_def array_rest_def ArrayInputStream_def)
  subgoal by (simp add: used_sample_def array_stream_def ArrayInputStream_def ArrayInputStream_ByteCount_def)
  done

text \<open>C5. Every operation of a coded stream returns, over any stream that keeps the contract and whatever it has
  delivered before, in every state that a session reaches from the constructor: no null stream is called, no check fails,
  nothing is read outside the buffer and no refilling loop runs forever, even when the input returns empty
  chunks. In a session over a stream that has been read from before, no skip runs past the end of the input; over
  a stream at its start, any sequence of calls is a session.\<close>

theorem coded_operations_return:
  assumes "zero_copy_input ops ok rest given idle" "ok s"
  shows "\<exists>c. CodedInputStream ops s = Some c \<and>
    (\<forall>x op. session ops rest given (ByteCount ops s) ([], c) x \<longrightarrow> admissible op x \<longrightarrow> perform ops op x \<noteq> None)"
proof -
  note z = zero_copy_input.count_from_contract [OF assms(1), where b = "ByteCount ops s"]
  obtain c where c: "CodedInputStream ops s = Some c" using zero_copy_input.session_start [OF assms] by blast
  have "perform ops op x \<noteq> None" if "session ops rest given (ByteCount ops s) ([], c) x" "admissible op x" for x op
  proof (rule perform_count_returns)
    show "perform (count_from (ByteCount ops s) ops) op x \<noteq> None"
      using zero_copy_input.perform_ok [OF z zero_copy_input.session_after(1) [OF assms c that(1)] that(2)] by fast
  qed
  with c show ?thesis by blast
qed

theorem coded_operations_return_witness:
  "\<exists>c. CodedInputStream array_stream used_sample = Some c \<and>
    (\<forall>x op. session array_stream array_rest array_given 2 ([], c) x \<longrightarrow> admissible op x \<longrightarrow> perform array_stream op x \<noteq> None)"
  using coded_operations_return [OF array_input.zero_copy_input_axioms used_sample(1)] by (simp add: used_sample(3))

text \<open>C4. The invariant of the state in every state that a session reaches, over a fresh stream or one that has been read
  from (then without skips past the end of the input): the sizes are those of the buffer, the two sizes, the
  count of bytes read, the position and the limits are within the range of \<open>int\<close> and not negative, the bytes hidden
  behind the buffer are exactly those beyond the nearest limit, the position is within both limits, and the
  saved limits enclose the current one.\<close>

theorem coded_invariant:
  assumes "zero_copy_input ops ok rest given idle" "ok s" "CodedInputStream ops s = Some c"
    "session ops rest given (ByteCount ops s) ([], c) (ls, c')"
  shows "fields_ok c' \<and> 0 \<le> CurrentPosition c' \<and> CurrentPosition c' \<le> current_limit c' \<and>
    CurrentPosition c' \<le> total_bytes_limit c' \<and> sorted (current_limit c' # ls) \<and> (\<forall>l \<in> set ls. l \<le> INT_MAX)"
proof -
  from zero_copy_input.session_after(1) [OF assms] have "fields_ok c'" "stack_ok (ls, c')"
    by (simp_all add: client_ok_def coded_ok_def)
  with position_bounds [of c'] show ?thesis by (auto simp: closest_limit_def stack_ok_def)
qed

theorem coded_invariant_witness:
  "\<exists>c. CodedInputStream array_stream used_sample = Some c \<and> fields_ok c \<and> CurrentPosition c \<le> current_limit c"
proof -
  obtain c where c: "CodedInputStream array_stream used_sample = Some c"
    using array_input.session_start [OF used_sample(1)] by blast
  from coded_invariant [OF array_input.zero_copy_input_axioms used_sample(1) c begin_session] c show ?thesis by blast
qed

text \<open>C20. A skip that runs past the end of the input fails and leaves nothing to read, and sets the position to the
  count of the stream, which includes what was read from it before: over a stream that had delivered \<open>b\<close>
  bytes, the position is \<open>b\<close> bytes behind the end. The invariant survives exactly if that is within the
  limits.\<close>

theorem coded_skip_past_end:
  assumes "zero_copy_input ops ok rest given idle" "ok s" "CodedInputStream ops s = Some c"
    "session ops rest given (ByteCount ops s) ([], c) (ls, c')" "runs_out rest given (Skip_bytes n) (ls, c')"
    "0 \<le> ByteCount ops s" "ByteCount ops s + int (length (rest s)) \<le> INT_MAX"
  shows "\<exists>c''. CodedInputStream_Skip ops n c' = Some (False, c'') \<and> unread rest given c'' = [] \<and>
    CurrentPosition c'' = ByteCount ops s + int (length (rest s)) \<and> closest_limit c'' = closest_limit c' \<and>
    (fields_ok c'' \<longleftrightarrow> ByteCount ops s + int (length (rest s)) \<le> closest_limit c')"
proof -
  let ?b = "ByteCount ops s" and ?k = "ByteCount ops s + int (length (rest s))"
  have c': "coded_ok (count_from ?b ops) (counted ops ok rest ?k) rest given c'"
    using zero_copy_input.session_after(1) [OF assms(1-4)] by (simp add: client_ok_def)
  then have f: "fields_ok c'" by (simp add: coded_ok_def)
  note f' = f [unfolded fields_ok_def]
  have n: "int (length (buffer c')) < n" "n \<le> closest_limit c' - CurrentPosition c'" and
    u: "int (length (unread rest given c')) < n" using assms(5) by (simp_all add: unread_def)
  have after: "buffer_size_after_limit c' = 0" using n f' by (auto simp: CurrentPosition_def max_def split: if_splits)
  then have size: "int (length (buffer c')) = buffer_size c'" "closest_limit c' - CurrentPosition c' =
      closest_limit c' - total_bytes_read c' + buffer_size c'" "0 \<le> buffer_size c'"
    using f' by (simp_all add: CurrentPosition_def)
  define m where "m = n - buffer_size c'"
  have m: "0 < m" "m \<le> closest_limit c' - total_bytes_read c'" "total_bytes_read c' < closest_limit c'"
    using n size by (simp_all add: m_def)
  obtain s1 where s1: "coded_input c' = Some s1" "counted ops ok rest ?k s1" "overflow_bytes c' = 0" "future rest given c' = rest s1"
    by (rule zero_copy_input.future_input [OF zero_copy_input.count_from_contract [OF assms(1)] c' m(3)]) auto
  then have "int (length (rest s1)) < m" using u size by (simp add: unread_def m_def)
  then obtain s2 where s2: "Skip ops m s1 = Some (False, s2)" "ByteCount ops s2 = ?k" "rest s2 = []"
    using zero_copy_input.skip [OF assms(1), of s1 m] s1(2) m(1) by (auto simp: counted_def)
  let ?c = "c'\<lparr>buffer := [], buffer_size := 0, coded_input := Some s2, total_bytes_read := ?k\<rparr>"
  have k: "to_int32 ?k = ?k" using assms(6,7) by (intro to_int32_id) linarith+
  have "CodedInputStream_Skip ops n c' = Some (False, ?c)"
    using n(1) size s1(1) s2 m after k by (simp add: CodedInputStream_Skip_def SkipFallback_def Let_def m_def)
  moreover have "unread rest given ?c = []" using s1(3) s2(3) by (simp add: unread_def future_def)
  moreover have "CurrentPosition ?c = ?k" using after by (simp add: CurrentPosition_def)
  moreover have "fields_ok ?c \<longleftrightarrow> ?k \<le> closest_limit c'" using f' after s1(3) assms(6,7) by (auto simp: fields_ok_def)
  ultimately show ?thesis by (intro exI [of _ ?c]) simp
qed

theorem coded_skip_past_end_witness:
  "\<exists>c c'. CodedInputStream array_stream used_sample = Some c \<and>
    CodedInputStream_Skip array_stream 4 (snd (PushLimit 4 c)) = Some (False, c') \<and> CurrentPosition c' = 5 \<and>
    closest_limit c' = 4 \<and> \<not> fields_ok c'"
proof -
  have run: "case CodedInputStream array_stream used_sample of None \<Rightarrow> False
     | Some c \<Rightarrow> (case PushLimit 4 c of (old, c') \<Rightarrow> closest_limit c' = 4 \<and>
         runs_out array_rest array_given (Skip_bytes 4) ([old], c'))" by code_simp
  then obtain c where c: "CodedInputStream array_stream used_sample = Some c" by (cases "CodedInputStream array_stream used_sample") simp_all
  obtain old c1 where push: "PushLimit 4 c = (old, c1)" by (cases "PushLimit 4 c")
  with run c have c1: "closest_limit c1 = 4" "runs_out array_rest array_given (Skip_bytes 4) ([old], c1)" by simp_all
  have "session array_stream array_rest array_given (ByteCount array_stream used_sample) ([], c) ([old], c1)"
    by (rule next_call [OF begin_session, of "Push 4"]) (simp_all add: push)
  from coded_skip_past_end [OF array_input.zero_copy_input_axioms used_sample(1) c this c1(2)] c push c1(1)
  show ?thesis by (auto simp: used_sample)
qed

text \<open>C33. When a coded stream is destroyed, after any session, over a fresh stream or one that has been read from (then
  without skips past the end of the input), the stream under it is left exactly behind the bytes that were read: what was
  buffered, hidden by a limit or counted as overflow is given back. Only a skip past the end may leave the
  position beyond the bytes there were.\<close>

theorem coded_destroy_gives_back:
  assumes "zero_copy_input ops ok rest given idle" "ok s" "CodedInputStream ops s = Some c0"
    "session ops rest given (ByteCount ops s) ([], c0) (ls, c)"
  shows "\<exists>s' k. CodedInputStream_destroy ops c = Some (Some s') \<and> ok s' \<and> rest s' = drop k (rest s) \<and>
    (rest s' = [] \<or> int k = CurrentPosition c)"
proof -
  note after = zero_copy_input.session_after [OF assms, unfolded snd_conv]
  obtain k where k: "unread rest given c = drop k (rest s)" "unread rest given c = [] \<or> CurrentPosition c = int k"
    using after(3) by blast
  have "coded_ok (count_from (ByteCount ops s) ops) (counted ops ok rest (ByteCount ops s + int (length (rest s)))) rest given c"
    using after(1) by (simp add: client_ok_def)
  from zero_copy_input.CodedInputStream_destroy_spec [OF zero_copy_input.count_from_contract [OF assms(1)] this after(2)]
  obtain s' where "CodedInputStream_destroy ops c = Some (Some s')" "ok s'" "rest s' = unread rest given c"
    by (auto simp: counted_def)
  with k show ?thesis by (intro exI [of _ s'] exI [of _ k]) auto
qed

theorem coded_destroy_gives_back_witness:
  "\<exists>c s k. CodedInputStream array_stream used_sample = Some c \<and>
    CodedInputStream_destroy array_stream c = Some (Some s) \<and> array_rest s = drop k [1, 2, 3]"
proof -
  obtain c where c: "CodedInputStream array_stream used_sample = Some c"
    using array_input.session_start [OF used_sample(1)] by blast
  from coded_destroy_gives_back [OF array_input.zero_copy_input_axioms used_sample(1) c begin_session] c
  show ?thesis unfolding used_sample(2) by blast
qed

end
