(* ===== verification/Output_Sessions.thy ===== *)
theory Output_Sessions
  imports Coded_Roundtrip
begin

text \<open>
  Sessions that end in a file, and the operations of \<open>CodedOutputStream\<close> that hand the buffer out.
\<close>

section \<open>Closing a file\<close>

definition posix_close :: "('d \<Rightarrow> bool) \<Rightarrow> ('d \<Rightarrow> byte list) \<Rightarrow> ('d \<Rightarrow> nat) \<Rightarrow> ('d \<Rightarrow> unit syscall \<times> 'd) \<Rightarrow> bool" where
  "posix_close ok contents interrupts close_fd \<longleftrightarrow> (\<forall>d. ok d \<longrightarrow>
     (case close_fd d of (r, d') \<Rightarrow> ok d' \<and> contents d' = contents d \<and> (r = Errno EINTR \<longrightarrow> interrupts d' < interrupts d)))"

lemma close_delivers:
  assumes w: "posix_write fine contents interrupts write_fd" and c: "posix_close fine contents interrupts close_fd"
    and a: "adaptor_ok (file_ok fine) a"
  shows "\<exists>b a'. FileOutputStream_Close write_fd close_fd a = Some (b, a') \<and>
    (b \<longrightarrow> adaptor_sound (\<lambda>f. contents (fd f)) a \<longrightarrow> contents (fd (copying_output a')) = adaptor_written (\<lambda>f. contents (fd f)) a)"
proof -
  obtain b a1 where f: "WriteBuffer (CopyingFileOutputStream_Write write_fd) a = Some (b, a1)" "adaptor_ok (file_ok fine) a1"
    "b \<longrightarrow> adaptor_sound (\<lambda>f. contents (fd f)) a \<longrightarrow> contents (fd (copying_output a1)) = adaptor_written (\<lambda>f. contents (fd f)) a"
    using copying_sink.WriteBuffer_spec [OF file_sink [OF w] a] by blast
  let ?f = "copying_output a1"
  have ok: "fine (fd ?f)" "\<not> is_closed ?f" using f(2) by (auto simp: adaptor_ok_def file_ok_def)
  obtain r d1 d2 where r: "no_eintr close_fd (fd ?f) = Some (r, d2)" "fine d1" "contents d1 = contents (fd ?f)" "close_fd d1 = (r, d2)"
    "r \<noteq> Errno EINTR"
  proof (rule no_eintr_returns [of fine close_fd contents interrupts "fd ?f"])
    show "fine (fd ?f)" by (rule ok(1))
    show "fine d' \<and> contents d' = contents d \<and> interrupts d' < interrupts d" if "fine d" "close_fd d = (Errno EINTR, d')" for d d'
      using c that by (fastforce simp: posix_close_def)
  qed
  have "contents d2 = contents (fd ?f)" using c r(2-4) by (fastforce simp: posix_close_def)
  with f r(1) ok(2) show ?thesis
    by (cases r) (auto simp: FileOutputStream_Close_def CopyingOutputStreamAdaptor_Flush_def CopyingFile_Close_def)
qed

lemma fresh_file:
  assumes "fine d" "contents d = []"
  shows "adaptor_ok (file_ok fine) (FileOutputStream d n)" "adaptor_sound (\<lambda>f. contents (fd f)) (FileOutputStream d n)"
    "adaptor_written (\<lambda>f. contents (fd f)) (FileOutputStream d n) = []"
  using assms by (simp_all add: FileOutputStream_def CopyingOutputStreamAdaptor_def CopyingFile_def adaptor_ok_def file_ok_def
      adaptor_sound_def adaptor_written_def kDefaultBlockSize_def)

lemma fresh_file_next:
  "Output_Next (file_output write_fd new) (FileOutputStream d n) =
     Some (Some (0, 8192), (FileOutputStream d n)\<lparr>output_buffer := Some (new 8192), output_buffer_used := 8192\<rparr>)"
  by (simp add: file_output_def adaptor_output_def FileOutputStream_def CopyingOutputStreamAdaptor_def
      CopyingOutputStreamAdaptor_Next_def Output_AllocateBufferIfNeeded_def kDefaultBlockSize_def)

text \<open>C22. Writing a file: a session of \<open>CodedOutputStream\<close> over a \<open>FileOutputStream\<close> on a fresh descriptor, whether the
  constructor asks for the first buffer at once (as by default) or not, returns, and when neither the session nor the
  final \<open>Close\<close> of the file reports an error, the file holds exactly the bytes of the calls, although \<open>write\<close> may have been interrupted and may have taken only part of a block.\<close>

theorem file_session:
  assumes "posix_write fine contents interrupts write_fd" "posix_close fine contents interrupts close_fd"
    "\<And>n. length (new n) = n" "fine d" "contents d = []" "length m = 32" "\<forall>x \<in> set xs. out_admissible x"
  shows "\<exists>c c1 c2 a b a'. CodedOutputStream (file_output write_fd new) m det (FileOutputStream d n) eager = Some c \<and>
    write_ops (file_output write_fd new) xs c = Some c1 \<and> Coded_Trim (file_output write_fd new) c1 = Some c2 \<and>
    eps_stream (impl c2) = Some a \<and> FileOutputStream_Close write_fd close_fd a = Some (b, a') \<and>
    (\<not> had_error (impl c2) \<longrightarrow> b \<longrightarrow> contents (fd (copying_output a')) = concat (map op_bytes xs))"
proof -
  have "zero_copy_output (file_output write_fd new) (adaptor_ok (file_ok fine)) (adaptor_sound (\<lambda>f. contents (fd f)))
      (adaptor_written (\<lambda>f. contents (fd f))) adaptor_chunk (\<lambda>_. 0)"
    unfolding file_output_def by (rule copying_sink.adaptor_contract [OF file_sink [OF assms(1)] assms(3)])
  then have st: "steady_output (file_output write_fd new) (adaptor_ok (file_ok fine)) (adaptor_sound (\<lambda>f. contents (fd f)))
      (adaptor_written (\<lambda>f. contents (fd f))) adaptor_chunk (\<lambda>_. 0)"
    by (intro steady_output.intro steady_output_axioms.intro) (simp_all add: file_output_def adaptor_output_def)
  note fresh = fresh_file [where n = n and fine = fine and d = d and contents = contents, OF assms(4,5)]
  have first: "eager \<longrightarrow> (\<exists>x s1. Output_Next (file_output write_fd new) (FileOutputStream d n) = Some (Some x, s1))"
    by (simp add: fresh_file_next)
  obtain c c1 c2 a where r: "CodedOutputStream (file_output write_fd new) m det (FileOutputStream d n) eager = Some c"
    "write_ops (file_output write_fd new) xs c = Some c1" "Coded_Trim (file_output write_fd new) c1 = Some c2"
    "eps_stream (impl c2) = Some a" "adaptor_ok (file_ok fine) a"
    "\<not> had_error (impl c2) \<longrightarrow> adaptor_sound (\<lambda>f. contents (fd f)) a \<and>
       adaptor_written (\<lambda>f. contents (fd f)) a = concat (map op_bytes xs)"
    by (rule steady_output.session [OF st fresh(1,2) assms(6) first assms(7), where det = det]) (simp add: fresh(3))
  with close_delivers [OF assms(1,2) r(5)] show ?thesis by fastforce
qed

definition device_close :: "device \<Rightarrow> unit syscall \<times> device" where
  "device_close d = (Done (), d)"

text \<open>The first \<open>write\<close> is interrupted, the second takes three bytes only.\<close>

definition sample_device :: device where
  "sample_device = \<lparr>device_bytes = [], device_script = [- 4, 3]\<rparr>"

theorem file_session_witness:
  "\<exists>c c1 c2 a b a'. CodedOutputStream (file_output device_write (\<lambda>n. replicate n 0)) (replicate 32 0) False
      (FileOutputStream sample_device 0) True = Some c \<and>
    write_ops (file_output device_write (\<lambda>n. replicate n 0)) sample_ops c = Some c1 \<and>
    Coded_Trim (file_output device_write (\<lambda>n. replicate n 0)) c1 = Some c2 \<and>
    eps_stream (impl c2) = Some a \<and> FileOutputStream_Close device_write device_close a = Some (b, a') \<and>
    (\<not> had_error (impl c2) \<longrightarrow> b \<longrightarrow> device_bytes (fd (copying_output a')) = concat (map op_bytes sample_ops))"
  by (rule file_session [OF device_posix_write]) (simp_all add: posix_close_def device_close_def sample_device_def sample_admissible)

section \<open>Handing out the buffer\<close>

context steady_output
begin

lemma byte_count_step:
  assumes "e_ok p e" "e_good e" "e_step d p e q e'" "\<not> had_error e'"
  shows "\<exists>n. Eps_ByteCount ops p e = Some n \<and> Eps_ByteCount ops q e' = Some (n + int (length d))"
proof -
  have "e_ok q e'" "e_good e'" "e_written q e' = e_written p e @ d" using assms by (simp_all add: eps_step_def)
  with Eps_ByteCount_spec [OF assms(1,2)] Eps_ByteCount_spec [of q e'] show ?thesis by simp
qed

end

text \<open>C25. After any error-free sequence of calls: \<open>GetDirectBufferPointer\<close> hands out a buffer that is not empty and leaves the
  position alone, \<open>Skip\<close> moves it by exactly its argument, and \<open>GetDirectBufferForNBytesAndAdvance\<close> either gives
  nothing and leaves it alone or moves it by exactly its argument; each may fail only with the error recorded (\<open>Skip\<close>
  also on a negative argument).\<close>

theorem output_direct:
  assumes "steady_output ops ok sound written chunk idle" "ok s" "sound s" "length m = 32"
    "eager \<longrightarrow> (\<exists>x s1. Output_Next ops s = Some (Some x, s1))" "\<forall>x \<in> set xs. out_admissible x"
    "CodedOutputStream ops m det s eager = Some c" "write_ops ops xs c = Some c1" "\<not> had_error (impl c1)" "0 \<le> k"
  shows "(\<exists>r c2. Coded_GetDirectBufferPointer ops c1 = Some (r, c2) \<and>
      (if had_error (impl c2) then r = None
       else (\<exists>x n. r = Some (x, n) \<and> 0 < n) \<and> Eps_ByteCount ops (cur c2) (impl c2) = Eps_ByteCount ops (cur c1) (impl c1))) \<and>
    (\<exists>b c2. Coded_Skip ops k c1 = Some (b, c2) \<and> b = (\<not> had_error (impl c2)) \<and>
      (b \<longrightarrow> Eps_ByteCount ops (cur c2) (impl c2) = map_option (\<lambda>n. n + k) (Eps_ByteCount ops (cur c1) (impl c1)))) \<and>
    (\<exists>r c2. Coded_GetDirectBufferForNBytesAndAdvance ops k c1 = Some (r, c2) \<and> (had_error (impl c2) \<longrightarrow> r = None) \<and>
      (\<not> had_error (impl c2) \<longrightarrow> Eps_ByteCount ops (cur c2) (impl c2) =
         map_option (\<lambda>n. if r = None then n else n + k) (Eps_ByteCount ops (cur c1) (impl c1))))"
proof -
  have z: "zero_copy_output ops ok sound written chunk idle" using assms(1) by (rule steady_output.axioms(1))
  obtain c' c1' where "CodedOutputStream ops m det s eager = Some c'" "write_ops ops xs c' = Some c1'"
    "steady_output.out_ok ops ok chunk c1'"
    "\<not> had_error (impl c1') \<longrightarrow> eps_good sound (impl c1') \<and> steady_output.out_bytes written c1' = written s @ concat (map op_bytes xs)"
    by (rule steady_output.session [OF assms(1-6), where det = det]) blast
  with assms(7-9) have "steady_output.out_ok ops ok chunk c1" and good: "eps_good sound (impl c1)" by simp_all
  then have ok: "eps_ok ok chunk (cur c1) (impl c1)" using steady_output.out_ok_def [OF assms(1)] by blast
  note count = steady_output.byte_count_step [OF assms(1) ok good]
  show ?thesis
  proof (intro conjI)
    show "\<exists>r c2. Coded_GetDirectBufferPointer ops c1 = Some (r, c2) \<and>
      (if had_error (impl c2) then r = None
       else (\<exists>x n. r = Some (x, n) \<and> 0 < n) \<and> Eps_ByteCount ops (cur c2) (impl c2) = Eps_ByteCount ops (cur c1) (impl c1))"
    proof (rule zero_copy_output.Eps_GetDirectBufferPointer_spec [OF z ok])
      fix x n q e'
      assume "Eps_GetDirectBufferPointer ops (cur c1) (impl c1) = Some (Some (x, n), q, e')" "0 < n"
        "eps_step ok sound written chunk [] (cur c1) (impl c1) q e'" "\<not> had_error e'"
      with count [of "[]" q e'] show ?thesis
        by (intro exI [of _ "Some (x, n)"] exI [of _ "c1\<lparr>cur := q, impl := e'\<rparr>"]) (auto simp: Coded_GetDirectBufferPointer_def)
    next
      fix q e'
      assume "Eps_GetDirectBufferPointer ops (cur c1) (impl c1) = Some (None, q, e')" "had_error e'"
      then show ?thesis by (intro exI [of _ None] exI [of _ "c1\<lparr>cur := q, impl := e'\<rparr>"]) (simp add: Coded_GetDirectBufferPointer_def)
    qed
    show "\<exists>b c2. Coded_Skip ops k c1 = Some (b, c2) \<and> b = (\<not> had_error (impl c2)) \<and>
      (b \<longrightarrow> Eps_ByteCount ops (cur c2) (impl c2) = map_option (\<lambda>n. n + k) (Eps_ByteCount ops (cur c1) (impl c1)))"
    proof (rule zero_copy_output.Eps_Skip_spec [OF z ok, of k])
      fix q e' d
      assume "Eps_Skip ops k (cur c1) (impl c1) = Some (True, q, e')" "int (length d) = k"
        "eps_step ok sound written chunk d (cur c1) (impl c1) q e'" "\<not> had_error e'"
      with count [of d q e'] show ?thesis by (intro exI [of _ True] exI [of _ "c1\<lparr>cur := q, impl := e'\<rparr>"]) (auto simp: Coded_Skip_def)
    next
      fix q e'
      assume "Eps_Skip ops k (cur c1) (impl c1) = Some (False, q, e')" "k < 0 \<or> had_error e'"
      with assms(10) show ?thesis by (intro exI [of _ False] exI [of _ "c1\<lparr>cur := q, impl := e'\<rparr>"]) (simp add: Coded_Skip_def)
    qed
    show "\<exists>r c2. Coded_GetDirectBufferForNBytesAndAdvance ops k c1 = Some (r, c2) \<and> (had_error (impl c2) \<longrightarrow> r = None) \<and>
      (\<not> had_error (impl c2) \<longrightarrow> Eps_ByteCount ops (cur c2) (impl c2) =
         map_option (\<lambda>n. if r = None then n else n + k) (Eps_ByteCount ops (cur c1) (impl c1)))"
    proof (rule zero_copy_output.Eps_GetDirectBufferForNBytes_spec [OF z ok assms(10)])
      fix x q e' d
      assume "Eps_GetDirectBufferForNBytesAndAdvance ops k (cur c1) (impl c1) = Some (Some x, q, e')" "int (length d) = k"
        "eps_step ok sound written chunk d (cur c1) (impl c1) q e'" "\<not> had_error e'"
      with count [of d q e'] show ?thesis
        by (intro exI [of _ "Some x"] exI [of _ "c1\<lparr>cur := q, impl := e'\<rparr>"]) (auto simp: Coded_GetDirectBufferForNBytesAndAdvance_def)
    next
      fix q e'
      assume "Eps_GetDirectBufferForNBytesAndAdvance ops k (cur c1) (impl c1) = Some (None, q, e')"
        "eps_step ok sound written chunk [] (cur c1) (impl c1) q e'"
      with count [of "[]" q e'] show ?thesis
        by (intro exI [of _ None] exI [of _ "c1\<lparr>cur := q, impl := e'\<rparr>"]) (auto simp: Coded_GetDirectBufferForNBytesAndAdvance_def)
    qed
  qed
qed

theorem output_direct_witness:
  "\<exists>c c1 b c2. CodedOutputStream array_output (replicate 32 0) False sample_array True = Some c \<and>
    write_ops array_output sample_ops c = Some c1 \<and> Coded_Skip array_output 4 c1 = Some (b, c2) \<and> b = (\<not> had_error (impl c2))"
proof -
  obtain c c1 where r: "CodedOutputStream array_output (replicate 32 0) False sample_array True = Some c"
    "write_ops array_output sample_ops c = Some c1" "\<not> had_error (impl c1)"
    using sample_run_unflushed by (auto split: option.splits)
  have "(0 :: int) \<le> 4" by simp
  from output_direct [where m = "replicate 32 0" and eager = True,
      OF array_steady.steady_output_axioms sample_array_ok(1) TrueI length_replicate _ sample_admissible r this] sample_next r
  show ?thesis by blast
qed

end
