(* ===== verification/Spec2Isabelle.thy ===== *)
theory Spec2Isabelle
  imports Prelude Repeated_Field Wire_Format Wire_Scalars Unknown_Fields Wire_Message Unknown_Roundtrip Skip_Variants Unknown_Client Parse_Context Parse_Varint Parse_Stream Parse_Read Message_Parse Message_Correct Parse_Client Message_Lite Parse_Properties Strutil_Escape Strutil_Num Strutil_Base64 String_Piece Strutil_Ops Utf8 Varint
    Zero_Copy Coded_Input Coded_Input_Correct Coded_Input_Read Coded_Input_Client Coded_Input_Sessions Zero_Copy_Output File_Streams Eps_Copy
    Eps_Copy_Correct Coded_Output_Client Coded_Roundtrip Output_Sessions
begin

text \<open>
  A verification library for the C++ runtime of Protocol Buffers, as found under
  \<open>src/protoc2/src/google/protobuf\<close>. The runtime is a stack of layers: byte and string utilities
  (\<open>stubs/\<close>), streams that hand out chunks of memory (\<open>io/zero_copy_stream*\<close>), coders that read and write
  varints, fixed-width integers and strings over those streams (\<open>io/coded_stream\<close>), the wire format on top of the
  coders (\<open>wire_format_lite\<close>, \<open>unknown_field_set\<close>), the parser of messages, which reads the streams in its own way
  (\<open>parse_context\<close>, \<open>message_lite\<close>), and then messages, reflection and the compiler. The library
  models the stack from the bottom up; each theorem about a layer rests on the contract of the layer below.

  \<^bold>\<open>The theories, in the order of the layers.\<close>
  \<^item> \<^theory_text>\<open>Prelude\<close>: bytes and characters as the code reads them (\<open>ascii_*\<close>, \<open>isxdigit\<close>,
    \<open>hex_digit_to_int\<close>), decimal notation, tables, little lemmas on lists and words.
  \<^item> \<^theory_text>\<open>Strutil_Escape\<close>, \<^theory_text>\<open>Strutil_Num\<close>, \<^theory_text>\<open>Strutil_Base64\<close>,
    \<^theory_text>\<open>Strutil_Ops\<close> (\<open>stubs/strutil.cc\<close>): escaping, the range-checked integer parsers and the buffer
    printers, base64, and the routines that replace, strip, split, join and normalise line ends. The buffers the
    code writes into have their sizes in the model; a write outside one is \<open>None\<close>.
  \<^item> \<^theory_text>\<open>String_Piece\<close> (\<open>stubs/stringpiece.cc\<close>): comparison and searches.
  \<^item> \<^theory_text>\<open>Utf8\<close> (\<open>stubs/structurally_valid.cc\<close>): the state table and both scanners, whose fast paths depend
    on the address of the text; the reference is the set of encodings of Unicode scalar values.
  \<^item> \<^theory_text>\<open>Varint\<close> (\<open>io/coded_stream.h\<close>, \<open>.cc\<close>): varints in arrays, their sizes and the unrolled readers,
    against a reference on natural numbers.
  \<^item> \<^theory_text>\<open>Zero_Copy\<close> (\<open>io/zero_copy_stream_impl_lite.cc\<close>, \<open>zero_copy_stream_impl.cc\<close>): the interface
    \<open>ZeroCopyInputStream\<close> as a record of operations over a type of states, its contract as the locale
    \<open>zero_copy_input\<close> (what is still to come, what was given out last, when \<open>Next\<close>, \<open>BackUp\<close> and \<open>Skip\<close> are
    defined and what they do), and the array, limiting and concatenating streams as interpretations, also nested.
  \<^item> \<^theory_text>\<open>Coded_Input\<close> (\<open>CodedInputStream\<close>): buffer, limits, recursion budget, every reader with its fast and
    slow path. \<^theory_text>\<open>Coded_Input_Correct\<close> has the invariant and the abstract value (\<open>view\<close>: the bytes the
    client may still read under the current limits), \<^theory_text>\<open>Coded_Input_Read\<close> what every reader returns as a
    function of the view, \<^theory_text>\<open>Coded_Input_Client\<close> whole sequences of calls (a step relation, its reachable
    states, properties by rule induction) and the properties of single calls, \<^theory_text>\<open>Coded_Input_Sessions\<close> the properties of
    sequences, also over a stream that has been read from before: there the position jumps when a skip runs past the end,
    and sequences without such a skip are simulated by those over the stream with its count set back.
  \<^item> \<^theory_text>\<open>Zero_Copy_Output\<close>: the interface \<open>ZeroCopyOutputStream\<close>, where the memory behind the pointers that
    \<open>Next\<close> hands out is part of the stream's state and the client's accesses to it are operations, its contract (the
    locales \<open>zero_copy_output\<close> and \<open>steady_output\<close>), and the array, string and copying streams. The documented clause that
    errors of \<open>Next\<close> are permanent is separate (\<open>errors_permanent\<close>), as the copying streams do not keep it.
    \<^theory_text>\<open>File_Streams\<close>: the copying adaptors over file descriptors; \<open>read\<close>, \<open>write\<close>, \<open>lseek\<close> and \<open>close\<close>
    are parameters whose documented behaviour is assumed, and a scripted device shows that it can be met.
  \<^item> \<^theory_text>\<open>Eps_Copy\<close> (\<open>EpsCopyOutputStream\<close>, \<open>CodedOutputStream\<close>): a pointer is into the 32-byte patch buffer or
    into the current chunk of the stream; every access is checked against the bounds of what it points into.
    \<^theory_text>\<open>Eps_Copy_Correct\<close> has the invariant (at least 16 bytes of room behind every pointer the code is about to
    write through) and the abstract value, \<^theory_text>\<open>Coded_Output_Client\<close> the sequences of calls,
    \<^theory_text>\<open>Coded_Roundtrip\<close> whole sessions, and reading back what was written,
    \<^theory_text>\<open>Output_Sessions\<close> sessions that end in a file, and the operations that lend the buffer to the client.
  \<^item> \<^theory_text>\<open>Repeated_Field\<close> (\<open>repeated_field.h\<close>): the growing array \<open>RepeatedField\<close>, whose buffer, size and
    capacity are explicit, against the list of its elements.
  \<^item> \<^theory_text>\<open>Wire_Format\<close> (\<open>wire_format_lite.h\<close>, \<open>.cc\<close>): tags and zig-zag, the readers and writers of every
    scalar type, repeated and packed fields, the three skippers of unknown data and the items of a message set, as
    programs over the two coders. \<^theory_text>\<open>Wire_Scalars\<close> has the round trip of every scalar type over the coders
    and the sizes announced for it.
  \<^item> \<^theory_text>\<open>Unknown_Fields\<close> (\<open>unknown_field_set.h\<close>, \<open>.cc\<close>, and the part of \<open>wire_format.cc\<close> that works
    on such sets): a set of unknown fields is the list of its fields, a group holds a set; reading, writing, sizes,
    editing. \<^theory_text>\<open>Wire_Message\<close> has a reference parser of byte lists, by recursion on the nesting depth and
    the length, and shows that \<open>WireFormat::SkipMessage\<close> agrees with it; \<^theory_text>\<open>Unknown_Roundtrip\<close> the
    serialised form as a byte list, that the serialisers append it, that the reference parser reads it back, and the
    sizes; \<^theory_text>\<open>Skip_Variants\<close> relates the three skippers to each other; \<^theory_text>\<open>Unknown_Client\<close> has the
    properties.
  \<^item> \<^theory_text>\<open>Parse_Context\<close> (\<open>parse_context.h\<close>, \<open>.cc\<close>): \<open>EpsCopyInputStream\<close> and \<open>ParseContext\<close>, which read up
    to 16 bytes behind the end of a buffer without a check, since these are the first ones of the next buffer. A
    pointer is a position in the patch buffer or in the current chunk, as on the output side.
    \<^theory_text>\<open>Parse_Varint\<close> has its readers of varints in memory against one reference, \<^theory_text>\<open>Parse_Stream\<close> the
    invariant of the buffers (\<open>ctx_ok\<close>), the abstract value (\<open>ctx_view\<close>: the bytes up to the limit) and what the test
    for the end does with a pointer that is overrun, \<^theory_text>\<open>Parse_Read\<close> the readers of varints, integers and strings
    whose bytes may lie on both sides of a boundary.
  \<^item> \<^theory_text>\<open>Message_Parse\<close>: groups, sub-messages, the parser of a field that the message does not know
    (\<open>FieldParser\<close>, \<open>WireFormatParser\<close>), and its clients for a set of unknown fields and for a string of bytes.
    \<^theory_text>\<open>Message_Correct\<close> has the reference parser of byte lists, \<open>fast_message\<close>, and the proof that the parser does
    what it says, for every client that keeps the contract \<open>message_client\<close>; \<^theory_text>\<open>Parse_Client\<close> shows that the two
    clients keep it.
  \<^item> \<^theory_text>\<open>Message_Lite\<close> (\<open>message_lite.cc\<close>): \<open>ParseFrom\<close> and \<open>MergeFromImpl\<close> on a string, a stream and the next
    bytes of a stream, for any message whose generated \<open>_InternalParse\<close> keeps a contract (\<open>parser_contract\<close>), which
    the two parsers of unknown fields do. \<^theory_text>\<open>Parse_Properties\<close> compares this parser with the one of
    \<open>Unknown_Fields\<close>, and shows what a bounded parse of a malformed message does to the stream.

  \<^bold>\<open>Conventions.\<close> A value of type \<open>option\<close> that is not itself part of the code is the fate of a call: \<open>None\<close>
  stands for a failed \<open>GOOGLE_CHECK\<close>, an access outside the memory at hand, or a loop that does not end. Theorems
  say that the result is \<open>Some\<close>, so they exclude all three. Loops that end only because of the stream below are
  \<open>partial_function (option)\<close>; the contract of the streams has a measure (how often \<open>Next\<close> may return an empty
  chunk) from which termination follows. There is no fuel in the model. The build is the optimised one:
  \<open>GOOGLE_DCHECK\<close> and \<open>GOOGLE_LOG(DFATAL)\<close> do nothing, what they check is proved where it matters, and log messages
  are left out. Registers that hold bit patterns are words of their width; the \<open>int\<close> fields of the streams are
  integers, and the invariants bound them by the range of \<open>int\<close>. Where the code narrows the length of a
  string to \<open>int\<close> (\<open>UnescapeCEscapeString\<close>, \<open>UTF8SpnStructurallyValid\<close>, the base64 decoder), strings are taken to be shorter
  than 2 GiB, and in \<open>InitFrom_bounded\<close> the bound is not within 16 bytes of \<open>INT_MAX\<close>; the base64 encoder and \<open>SkipFallback\<close>
  have their overflows and conversions written out (\<open>to_int32\<close>). A C++ \<open>char\<close> is signed, a byte on the wire is an
  8-bit word. Platform: little endian, \<open>PROTOBUF_USE_UNALIGNED_MEMOP\<close> or the portable branches where the code has
  both, as the mapped lines say.

  \<^bold>\<open>What the groups of lemmas show.\<close> Invariants: every operation of the two coders keeps its invariant, in any
  order of calls, errors included; the exception is a skip past the end of an input that had been read from before. Refinement: the coders, over any stream that keeps the contract and however it
  cuts its bytes into chunks, behave as an abstract list of bytes; limits nest like a stack of prefixes of it.
  Termination and memory safety: every call returns, no access is outside a buffer. Round trips: escaping, base64,
  decimal numbers, varints, and whole sessions that write and read back. Equivalence of optimised code with a plain
  definition: the varint readers and writers, UTF-8 scanning, line-end cleaning, two-digit printing, and the skippers of
  unknown data (a loop over a stream against a parser of byte lists). The two parsers: each agrees with a reference
  on byte lists, wherever the chunks cut the bytes; what the parser of messages accepts, the parser over a
  \<open>CodedInputStream\<close> accepts with the same result. Errors: what a failed read leaves behind, that an output error is
  never forgotten, that a parse succeeds exactly on a complete message.

  \<^bold>\<open>Not modelled.\<close> Stored fields that no modelled operation reads (aliasing of input, the extension registry,
  the determinism flag), ownership of the streams below, log messages, and the platform's other branches, the virtual
  calls into messages (groups and sub-messages of \<open>wire_format_lite\<close>), the part of \<open>wire_format.cc\<close> that works by
  reflection, in \<open>parse_context\<close> the aliasing of strings, \<open>ReadRepeatedFixed\<close> (a template that does not compile) and
  the UTF-8 check of string fields, in \<open>message_lite.cc\<close> the serialisers and the entry points on a \<open>CodedInputStream\<close>, a file
  descriptor or an \<open>istream\<close>. Modelled without a theorem are the mode of \<open>EpsCopyInputStream\<close> that looks for the end of
  a message inside the slop bytes (\<open>ParseEndsInSlopRegion\<close>; the theorems are about contexts that do not track it),
  and packed fields and sub-messages over a \<open>ParseContext\<close>. Left out as well is the allocation of unknown fields (every
  string and group belongs to one field, so they are values). Of the rest of the repository: messages, reflection, arenas, extension sets and maps need a memory model with object
  lifetimes; descriptors, the parser of \<open>.proto\<close> files, text format and JSON are next in line; the code generators
  only print; tests, benchmarks, generated \<open>.pb\<close> files and the C code of the embedded base system under
  \<open>protoc2/base\<close> are outside the program.
\<close>

end
